(* ===== verification/Prelude.thy ===== *)
theory Prelude
  imports Main "HOL-Library.Word" "HOL-Library.Multiset" "HOL-Library.Monad_Syntax"
begin

text \<open>
  The vocabulary every component shares.

  Machine integers. A size, stride, offset or byte count that the source computes with is a
  \<open>64 word\<close>: \<open>usize\<close> and \<open>isize\<close> are the same bits, as the source's \<open>as\<close> casts between them
  are the identity on bits, and the operation decides how they are read (\<open>unat\<close> for \<open>usize\<close>,
  \<open>sint\<close> and the signed comparisons for \<open>isize\<close>). \<open>+\<close>, \<open>-\<close> and \<open>*\<close> wrap around, which is what
  the release profile of the crate does (\<open>Cargo.toml\<close> does not turn overflow checks on).
  A position inside an in-memory vector, a loop counter over one and its length are \<open>nat\<close>: a Rust
  vector holds at most \<open>isize::MAX\<close> bytes, so these cannot wrap.

  Panics. A function that indexes slices with computed positions returns an \<open>option\<close>; \<open>None\<close> is
  the panic of an out-of-range access (\<open>nth_chk\<close>, \<open>upd_chk\<close>). A theorem that such a function is
  \<open>Some\<close> says that it does not panic.

  Loops. \<open>foldM\<close> is a \<open>for\<close> loop over a list whose body may panic; \<open>foldM_rule\<close> is its total
  correctness rule: an invariant over the elements already visited gives that the loop returns
  and that the invariant holds at its end.
\<close>

section \<open>Machine integers\<close>

type_synonym u8 = "8 word"
type_synonym u16 = "16 word"
type_synonym u32 = "32 word"
type_synonym u64 = "64 word"
type_synonym u128 = "128 word"
type_synonym usize = "64 word"
type_synonym isize = "64 word"

text \<open>\<open>x as usize\<close> for an \<open>i64\<close>: two's complement, so a negative number becomes a huge one.\<close>

definition as_usize :: "int \<Rightarrow> nat" where
  "as_usize x = nat (x mod 2 ^ 64)"

lemma as_usize_small [simp]: "0 \<le> x \<Longrightarrow> x < 2 ^ 64 \<Longrightarrow> as_usize x = nat x"
  by (simp add: as_usize_def)

lemma as_usize_of_nat [simp]: "n < 2 ^ 64 \<Longrightarrow> as_usize (int n) = n"
  by (simp add: as_usize_def)

lemma as_usize_negative: "- (2 ^ 63) \<le> v \<Longrightarrow> v < 0 \<Longrightarrow> 2 ^ 63 \<le> as_usize v"
proof -
  assume "- (2 ^ 63) \<le> v" "v < 0"
  then have "v mod 2 ^ 64 = v + 2 ^ 64"
    using mod_add_self2[of v "2 ^ 64"] mod_pos_pos_trivial[of "v + 2 ^ 64" "2 ^ 64"] by simp
  with \<open>- (2 ^ 63) \<le> v\<close> show ?thesis by (simp add: as_usize_def)
qed

text \<open>\<open>checked_add\<close> and \<open>checked_mul\<close> of \<open>isize\<close>: \<open>None\<close> when the exact result does not fit.\<close>

definition fits_isize :: "int \<Rightarrow> bool" where
  "fits_isize r \<longleftrightarrow> - (2 ^ 63) \<le> r \<and> r < 2 ^ 63"

definition checked_mul_isize :: "isize \<Rightarrow> isize \<Rightarrow> isize option" where
  "checked_mul_isize a b = (if fits_isize (sint a * sint b) then Some (a * b) else None)"

definition checked_add_isize :: "isize \<Rightarrow> isize \<Rightarrow> isize option" where
  "checked_add_isize a b = (if fits_isize (sint a + sint b) then Some (a + b) else None)"

lemma sint_of_int_exact: "fits_isize r \<Longrightarrow> sint (word_of_int r :: 64 word) = r"
  by (simp add: fits_isize_def sint_sbintrunc' signed_take_bit_int_eq_self)

lemma sint_mul_exact: "fits_isize (sint a * sint b) \<Longrightarrow> sint (a * b :: 64 word) = sint a * sint b"
  by (drule sint_of_int_exact) simp

lemma sint_add_exact: "fits_isize (sint a + sint b) \<Longrightarrow> sint (a + b :: 64 word) = sint a + sint b"
  by (drule sint_of_int_exact) simp

lemma sint_minus_exact: "sint (a :: 64 word) \<noteq> - (2 ^ 63) \<Longrightarrow> sint (- a) = - sint a"
proof -
  assume "sint a \<noteq> - (2 ^ 63)"
  moreover have "- (2 ^ 63) \<le> sint a" "sint a < 2 ^ 63"
    using sint_range_size[of a] by (simp_all add: word_size)
  ultimately have "fits_isize (- sint a)" by (simp add: fits_isize_def)
  from sint_of_int_exact[OF this] show ?thesis by simp
qed

section \<open>Bit operations as arithmetic\<close>

unbundle bit_operations_syntax

lemma unat_and_mask: "unat (w AND mask n) = unat w mod 2 ^ n"
  by (simp only: take_bit_eq_mask[symmetric] unsigned_take_bit_eq take_bit_eq_mod[where 'a = nat])

lemma unat_drop: "unat (drop_bit n w) = unat w div 2 ^ n"
proof -
  have "take_bit LENGTH('a) (unat w) = unat w" for w :: "'a::len word"
    by (simp add: take_bit_nat_eq_self)
  then show ?thesis by (simp only: unsigned_drop_bit_eq drop_bit_eq_div[where 'a = nat])
qed

lemma unat_ucast: "unat (ucast w :: 'b::len word) = unat w mod 2 ^ LENGTH('b)"
  by (simp only: unsigned_ucast_eq take_bit_eq_mod[where 'a = nat])

lemma and_1_odd: "w AND 1 \<noteq> 0 \<longleftrightarrow> odd (unat w)" for w :: "'a::len word"
proof -
  have "unat (w AND mask 1) = unat w mod 2" by (simp only: unat_and_mask power_one_right)
  then have "unat (w AND 1) = unat w mod 2" by simp
  moreover have "w AND 1 \<noteq> 0 \<longleftrightarrow> unat (w AND 1) \<noteq> 0" by (simp add: unat_eq_0)
  ultimately show ?thesis by presburger
qed

section \<open>Checked access to vectors\<close>

definition nth_chk :: "'a list \<Rightarrow> nat \<Rightarrow> 'a option" where
  "nth_chk xs i = (if i < length xs then Some (xs ! i) else None)"

definition upd_chk :: "'a list \<Rightarrow> nat \<Rightarrow> 'a \<Rightarrow> 'a list option" where
  "upd_chk xs i v = (if i < length xs then Some (xs[i := v]) else None)"

lemma nth_chk_Some [simp]: "i < length xs \<Longrightarrow> nth_chk xs i = Some (xs ! i)"
  by (simp add: nth_chk_def)

lemma nth_chk_eq_Some_iff: "nth_chk xs i = Some x \<longleftrightarrow> i < length xs \<and> xs ! i = x"
  by (auto simp: nth_chk_def)

lemma upd_chk_Some [simp]: "i < length xs \<Longrightarrow> upd_chk xs i v = Some (xs[i := v])"
  by (simp add: upd_chk_def)

lemma upd_chk_eq_Some_iff: "upd_chk xs i v = Some ys \<longleftrightarrow> i < length xs \<and> ys = xs[i := v]"
  by (auto simp: upd_chk_def)

section \<open>Loops with a body that may panic\<close>

fun foldM :: "('a \<Rightarrow> 's \<Rightarrow> 's option) \<Rightarrow> 'a list \<Rightarrow> 's \<Rightarrow> 's option" where
  "foldM f [] s = Some s"
| "foldM f (x # xs) s = (case f x s of None \<Rightarrow> None | Some s' \<Rightarrow> foldM f xs s')"

lemma foldM_append: "foldM f (xs @ ys) s = Option.bind (foldM f xs s) (foldM f ys)"
  by (induction xs arbitrary: s) (auto split: option.splits)

lemma foldM_rule_aux:
  assumes "\<And>done x rest s. xs = done @ x # rest \<Longrightarrow> I done s \<Longrightarrow> \<exists>s'. f x s = Some s' \<and> I (done @ [x]) s'"
    and "xs = pre @ ys" and "I pre s"
  shows "\<exists>s'. foldM f ys s = Some s' \<and> I xs s'"
  using assms(2,3)
proof (induction ys arbitrary: pre s)
  case Nil
  then show ?case by simp
next
  case (Cons y ys)
  then obtain s1 where s1: "f y s = Some s1" "I (pre @ [y]) s1"
    using assms(1)[of pre y ys s] by auto
  from Cons.IH[of "pre @ [y]" s1] Cons.prems(1) s1(2) obtain s2
    where "foldM f ys s1 = Some s2" "I xs s2" by auto
  with s1 show ?case by simp
qed

text \<open>Total correctness of a loop: the invariant speaks of the elements already visited.\<close>

lemma foldM_rule:
  assumes "I [] s"
    and "\<And>done x rest s. xs = done @ x # rest \<Longrightarrow> I done s \<Longrightarrow> \<exists>s'. f x s = Some s' \<and> I (done @ [x]) s'"
  shows "\<exists>s'. foldM f xs s = Some s' \<and> I xs s'"
  using foldM_rule_aux[of xs I f "[]" xs s] assms by auto

text \<open>The same for a counting loop \<open>for i in 0..n\<close>.\<close>

lemma foldM_upt_rule:
  assumes "I 0 s"
    and "\<And>i s. i < n \<Longrightarrow> I i s \<Longrightarrow> \<exists>s'. f i s = Some s' \<and> I (Suc i) s'"
  shows "\<exists>s'. foldM f [0..<n] s = Some s' \<and> I n s'"
proof -
  have "\<exists>s'. foldM f [0..<n] s = Some s' \<and> I (length [0..<n]) s'"
  proof (rule foldM_rule[where I = "\<lambda>done s. I (length done) s"])
    show "I (length []) s" using assms(1) by simp
  next
    fix don :: "nat list" and x rest s'
    assume split: "[0..<n] = don @ x # rest" and "I (length don) s'"
    have "x = length don"
      using split by (metis add.left_neutral length_append less_add_same_cancel1 length_Cons
          nth_append_length nth_upt zero_less_Suc length_upt diff_zero)
    moreover have "length don < n"
      using split by (metis diff_zero length_append length_Cons length_upt less_add_same_cancel1 zero_less_Suc)
    ultimately show "\<exists>s''. f x s' = Some s'' \<and> I (length (don @ [x])) s''"
      using assms(2)[of x s'] \<open>I (length don) s'\<close> by auto
  qed
  then show ?thesis by simp
qed

lemma foldM_push: "(\<And>x. x \<in> set xs \<Longrightarrow> f x = Some (g x)) \<Longrightarrow> foldM (\<lambda>x acc. do { v \<leftarrow> f x; Some (acc @ [v]) }) xs acc = Some (acc @ map g xs)"
  by (induction xs arbitrary: acc) auto

lemma foldM_cong: "(\<And>x s. x \<in> set xs \<Longrightarrow> f x s = g x s) \<Longrightarrow> foldM f xs s = foldM g xs s"
  by (induction xs arbitrary: s) (auto split: option.split)

lemma foldM_fold: "(\<And>x s. x \<in> set xs \<Longrightarrow> f x s = Some (g x s)) \<Longrightarrow> foldM f xs s = Some (fold g xs s)"
  by (induction xs arbitrary: s) auto

lemma take_update_end:
  assumes "take m ys = us" "m < length ys" "length us = m"
  shows "take (Suc m) (ys[m := x]) = us @ [x]"
  using assms by (simp add: take_Suc_conv_app_nth)

lemma foldM_upd_upt:
  assumes "\<And>i. i < n \<Longrightarrow> f i = Some (g i)" "length out = n"
  shows "foldM (\<lambda>i out. do { v \<leftarrow> f i; upd_chk out i v }) [0..<n] out = Some (map g [0..<n])"
proof -
  have "\<exists>s'. foldM (\<lambda>i out. do { v \<leftarrow> f i; upd_chk out i v }) [0..<n] out = Some s' \<and> (length s' = n \<and> take n s' = map g [0..<n])"
  proof (rule foldM_upt_rule[where I = "\<lambda>m s'. length s' = n \<and> take m s' = map g [0..<m]"])
    fix i s assume "i < n" "length s = n \<and> take i s = map g [0..<i]"
    then show "\<exists>s'. (do { v \<leftarrow> f i; upd_chk s i v }) = Some s' \<and> length s' = n \<and> take (Suc i) s' = map g [0..<Suc i]"
      using assms(1) take_update_end[of i s "map g [0..<i]" "g i"] by simp
  qed (use assms(2) in simp)
  then show ?thesis by auto
qed

section \<open>Loops with a body that may return an error\<close>

fun foldE :: "('a \<Rightarrow> 's \<Rightarrow> 'e + 's) \<Rightarrow> 'a list \<Rightarrow> 's \<Rightarrow> 'e + 's" where
  "foldE f [] s = Inr s"
| "foldE f (x # xs) s = (case f x s of Inl e \<Rightarrow> Inl e | Inr s' \<Rightarrow> foldE f xs s')"

lemma foldE_Cons_Inr: "foldE f (x # xs) s = Inr r \<longleftrightarrow> (\<exists>s'. f x s = Inr s' \<and> foldE f xs s' = Inr r)"
  by (cases "f x s") auto

section \<open>Grouping a list\<close>

lemma mset_concat_filter:
  "(\<forall>x \<in> set xs. f x < m) \<Longrightarrow> mset (concat (map (\<lambda>l. filter (\<lambda>x. f x = l) xs) [0..<m])) = mset xs"
proof (induction m arbitrary: xs)
  case (Suc m)
  have "map (\<lambda>l. filter (\<lambda>x. f x = l) xs) [0..<m] = map (\<lambda>l. filter (\<lambda>x. f x = l) (filter (\<lambda>x. f x \<noteq> m) xs)) [0..<m]"
    by (auto intro!: filter_cong)
  moreover have "mset (concat (map (\<lambda>l. filter (\<lambda>x. f x = l) (filter (\<lambda>x. f x \<noteq> m) xs)) [0..<m])) = mset (filter (\<lambda>x. f x \<noteq> m) xs)"
    using Suc.prems by (intro Suc.IH) (auto simp: less_Suc_eq)
  moreover have "mset xs = mset (filter (\<lambda>x. f x = m) xs) + mset (filter (\<lambda>x. f x \<noteq> m) xs)"
    unfolding mset_filter by (rule multiset_partition)
  moreover have "concat (map (\<lambda>l. filter (\<lambda>x. f x = l) xs) [0..<Suc m])
      = concat (map (\<lambda>l. filter (\<lambda>x. f x = l) xs) [0..<m]) @ filter (\<lambda>x. f x = m) xs" by simp
  ultimately show ?case by (simp only: mset_append add.commute)
qed simp

section \<open>Sorting a mapped list\<close>

lemma insort_key_map: "insort_key f (g x) (map g ys) = map g (insort_key (\<lambda>x. f (g x)) x ys)"
  by (induction ys) auto

lemma sort_key_map: "sort_key f (map g xs) = map g (sort_key (\<lambda>x. f (g x)) xs)"
  by (induction xs) (simp_all add: insort_key_map)

section \<open>Swapping and permuting the entries of a list\<close>

definition swap_nth :: "'a list \<Rightarrow> nat \<Rightarrow> nat \<Rightarrow> 'a list" where
  "swap_nth xs i j = xs[i := xs ! j, j := xs ! i]"

lemma length_swap_nth [simp]: "length (swap_nth xs i j) = length xs"
  by (simp add: swap_nth_def)

lemma mset_swap_nth: "i < length xs \<Longrightarrow> j < length xs \<Longrightarrow> mset (swap_nth xs i j) = mset xs"
  by (simp add: swap_nth_def mset_swap)

lemma zip_swap_nth:
  "length xs = length ys \<Longrightarrow> i < length xs \<Longrightarrow> j < length xs \<Longrightarrow>
   zip (swap_nth xs i j) (swap_nth ys i j) = swap_nth (zip xs ys) i j"
  by (simp add: swap_nth_def zip_update)

lemma swap_nth_swap_nth: "i < length xs \<Longrightarrow> j < length xs \<Longrightarrow> swap_nth (swap_nth xs i j) i j = xs"
  by (rule nth_equalityI) (auto simp: swap_nth_def nth_list_update)

text \<open>Positions of a list chosen by a list of axes; \<open>is_axis_perm\<close> is a permutation of \<open>0..n\<close>.\<close>

definition is_axis_perm :: "nat list \<Rightarrow> nat \<Rightarrow> bool" where
  "is_axis_perm dims n \<longleftrightarrow> length dims = n \<and> distinct dims \<and> set dims \<subseteq> {..<n}"

lemma is_axis_perm_mset:
  assumes "is_axis_perm dims n"
  shows "mset dims = mset [0..<n]"
proof -
  from assms have d: "length dims = n" "distinct dims" "set dims \<subseteq> {..<n}"
    by (simp_all add: is_axis_perm_def)
  have "set dims = {..<n}"
    by (rule card_subset_eq) (use d in \<open>simp_all add: distinct_card\<close>)
  then have "set dims = set [0..<n]" by (simp add: lessThan_atLeast0)
  then show ?thesis using d(2) by (simp only: set_eq_iff_mset_eq_distinct distinct_upt)
qed

lemma mset_map_nth_perm:
  assumes "is_axis_perm dims (length xs)"
  shows "mset (map ((!) xs) dims) = mset xs"
proof -
  have "mset (map ((!) xs) dims) = image_mset ((!) xs) (mset [0..<length xs])"
    using is_axis_perm_mset[OF assms] by simp
  also have "\<dots> = mset (map ((!) xs) [0..<length xs])" by simp
  finally show ?thesis by (simp only: map_nth)
qed

lemma zip_map_nth: "zip (map ((!) xs) ds) (map ((!) ys) ds) = map (\<lambda>d. (xs ! d, ys ! d)) ds"
  by (induction ds) auto

lemma zip_map_nth_perm:
  assumes "length xs = length ys" and "set ds \<subseteq> {..<length xs}"
  shows "zip (map ((!) xs) ds) (map ((!) ys) ds) = map ((!) (zip xs ys)) ds"
  using assms by (auto simp: zip_map_nth)

end
