(* ===== verification/Layout.thy ===== *)
theory Layout
  imports Prelude
begin

text \<open>
  The strided memory layout of a tensor (\<open>src/tensor/layout.rs\<close>, with \<open>shape.rs\<close> and
  \<open>strides.rs\<close>): the record \<open>layout\<close>, one definition \<open>layout_<method>\<close> per method, the address
  of an element as an inner product, and for every view operation the equation that says which
  element of the original layout an element of the view is. \<open>shape\<close>, \<open>strides\<close> and \<open>offset\<close> are
  64-bit words with wrap-around; an axis number that the code only compares and indexes with is a
  \<open>nat\<close> (\<open>usize\<close>) or an \<open>int\<close> (\<open>isize\<close>). \<open>None\<close> is the \<open>None\<close> the method returns.
\<close>

section \<open>The record and its constructors\<close>

record layout =
  shape :: "usize list"
  strides :: "isize list"
  offset :: usize

fun contiguous_strides_loop :: "usize list \<Rightarrow> isize \<Rightarrow> isize list" where
  "contiguous_strides_loop [] stride = []"
| "contiguous_strides_loop (dim # dims) stride =
     stride # contiguous_strides_loop dims (stride * dim)"

definition compute_contiguous_strides :: "usize list \<Rightarrow> isize list" where
  "compute_contiguous_strides shp =
     (if shp = [] then [] else rev (contiguous_strides_loop (rev shp) 1))"

definition layout_contiguous :: "usize list \<Rightarrow> layout" where
  "layout_contiguous shp = \<lparr>shape = shp, strides = compute_contiguous_strides shp, offset = 0\<rparr>"

definition layout_new :: "usize list \<Rightarrow> isize list \<Rightarrow> usize \<Rightarrow> layout" where
  "layout_new shp strd off = \<lparr>shape = shp, strides = strd, offset = off\<rparr>"

definition layout_scalar :: layout where
  "layout_scalar = \<lparr>shape = [], strides = [], offset = 0\<rparr>"

definition layout_new_unsigned :: "usize list \<Rightarrow> usize list \<Rightarrow> usize \<Rightarrow> layout" where
  "layout_new_unsigned shp strd off = \<lparr>shape = shp, strides = strd, offset = off\<rparr>"

section \<open>Queries\<close>

definition layout_ndim :: "layout \<Rightarrow> nat" where
  "layout_ndim l = length (shape l)"

definition layout_elem_count :: "layout \<Rightarrow> usize" where
  "layout_elem_count l = prod_list (shape l)"

definition layout_is_scalar :: "layout \<Rightarrow> bool" where
  "layout_is_scalar l \<longleftrightarrow> shape l = []"

definition layout_is_empty :: "layout \<Rightarrow> bool" where
  "layout_is_empty l \<longleftrightarrow> layout_elem_count l = 0"

definition layout_is_contiguous :: "layout \<Rightarrow> bool" where
  "layout_is_contiguous l \<longleftrightarrow>
     (if layout_is_scalar l then True
      else let expected = compute_contiguous_strides (shape l)
           in if strides l = expected then True
              else list_all (\<lambda>(s, actual, expect). s = 1 \<or> actual = expect)
                     (zip (shape l) (zip (strides l) expected)))"

definition layout_normalize_dim :: "layout \<Rightarrow> int \<Rightarrow> nat option" where
  "layout_normalize_dim l d =
     (let ndim = int (layout_ndim l);
          idx = (if d < 0 then ndim + d else d)
      in if 0 \<le> idx \<and> idx < ndim then Some (nat idx) else None)"

definition layout_dim :: "layout \<Rightarrow> int \<Rightarrow> usize option" where
  "layout_dim l d = map_option (\<lambda>idx. shape l ! idx) (layout_normalize_dim l d)"

definition layout_stride :: "layout \<Rightarrow> int \<Rightarrow> isize option" where
  "layout_stride l d = map_option (\<lambda>idx. strides l ! idx) (layout_normalize_dim l d)"

fun linear_loop :: "isize \<Rightarrow> (usize \<times> isize) list \<Rightarrow> isize" where
  "linear_loop linear [] = linear"
| "linear_loop linear ((idx, stride) # rest) = linear_loop (linear + idx * stride) rest"

definition layout_index :: "layout \<Rightarrow> usize list \<Rightarrow> usize option" where
  "layout_index l indices =
     (if length indices \<noteq> layout_ndim l then None
      else if list_ex (\<lambda>(idx, dim). dim \<le> idx) (zip indices (shape l)) then None
      else Some (linear_loop (offset l) (zip indices (strides l))))"

definition layout_index_unchecked :: "layout \<Rightarrow> usize list \<Rightarrow> usize" where
  "layout_index_unchecked l indices = linear_loop (offset l) (zip indices (strides l))"

section \<open>View operations\<close>

definition layout_transpose :: "layout \<Rightarrow> int \<Rightarrow> int \<Rightarrow> layout option" where
  "layout_transpose l dim0 dim1 = do {
     d0 \<leftarrow> layout_normalize_dim l dim0;
     d1 \<leftarrow> layout_normalize_dim l dim1;
     Some \<lparr>shape = swap_nth (shape l) d0 d1, strides = swap_nth (strides l) d0 d1,
           offset = offset l\<rparr> }"

definition layout_transpose_axes :: "layout \<Rightarrow> nat \<Rightarrow> nat \<Rightarrow> layout option" where
  "layout_transpose_axes l dim0 dim1 =
     (if layout_ndim l \<le> dim0 \<or> layout_ndim l \<le> dim1 then None
      else Some \<lparr>shape = swap_nth (shape l) dim0 dim1,
                 strides = swap_nth (strides l) dim0 dim1, offset = offset l\<rparr>)"

definition layout_t :: "layout \<Rightarrow> layout option" where
  "layout_t l =
     (if layout_ndim l < 2 then None
      else let n = layout_ndim l in layout_transpose_axes l (n - 2) (n - 1))"

definition layout_reshape :: "layout \<Rightarrow> usize list \<Rightarrow> layout option" where
  "layout_reshape l new_shape =
     (if \<not> layout_is_contiguous l then None
      else if prod_list new_shape \<noteq> layout_elem_count l then None
      else Some \<lparr>shape = new_shape, strides = compute_contiguous_strides new_shape,
                 offset = offset l\<rparr>)"

definition remove_nth :: "'a list \<Rightarrow> nat \<Rightarrow> 'a list" where
  "remove_nth xs i = take i xs @ drop (Suc i) xs"

definition insert_nth :: "'a list \<Rightarrow> nat \<Rightarrow> 'a \<Rightarrow> 'a list" where
  "insert_nth xs i v = take i xs @ v # drop i xs"

definition layout_squeeze :: "layout \<Rightarrow> int option \<Rightarrow> layout" where
  "layout_squeeze l dim =
     (case dim of
        Some d \<Rightarrow>
          (case Option.bind (layout_normalize_dim l d)
                  (\<lambda>i. if shape l ! i = 1 then Some i else None) of
             Some idx \<Rightarrow> layout_new (remove_nth (shape l) idx) (remove_nth (strides l) idx) (offset l)
           | None \<Rightarrow> l)
      | None \<Rightarrow>
          (let kept = filter (\<lambda>(s, st). s \<noteq> 1) (zip (shape l) (strides l))
           in layout_new (map fst kept) (map snd kept) (offset l)))"

definition layout_squeeze_dim :: "layout \<Rightarrow> nat \<Rightarrow> layout option" where
  "layout_squeeze_dim l dim =
     (if layout_ndim l \<le> dim \<or> shape l ! dim \<noteq> 1 then None
      else Some (layout_new (remove_nth (shape l) dim) (remove_nth (strides l) dim) (offset l)))"

definition layout_squeeze_all :: "layout \<Rightarrow> layout" where
  "layout_squeeze_all l = layout_squeeze l None"

definition layout_unsqueeze_at :: "layout \<Rightarrow> nat \<Rightarrow> layout option" where
  "layout_unsqueeze_at l dim =
     (if layout_ndim l < dim then None
      else let new_stride = (if dim < layout_ndim l then strides l ! dim * shape l ! dim else 1)
           in Some (layout_new (insert_nth (shape l) dim 1) (insert_nth (strides l) dim new_stride)
                      (offset l)))"

definition layout_unsqueeze :: "layout \<Rightarrow> int \<Rightarrow> layout option" where
  "layout_unsqueeze l dim =
     (let ndim = layout_ndim l;
          idx = (if dim < 0 then as_usize (int ndim + dim + 1) else as_usize dim)
      in if ndim < idx then None
         else let new_stride = (if idx < ndim then strides l ! idx * shape l ! idx else 1)
              in Some (layout_new (insert_nth (shape l) idx 1) (insert_nth (strides l) idx new_stride)
                         (offset l)))"

fun permute_check :: "nat \<Rightarrow> nat list \<Rightarrow> bool list \<Rightarrow> bool" where
  "permute_check ndim [] seen = True"
| "permute_check ndim (d # ds) seen =
     (if ndim \<le> d \<or> seen ! d then False else permute_check ndim ds (seen[d := True]))"

definition layout_permute :: "layout \<Rightarrow> nat list \<Rightarrow> layout option" where
  "layout_permute l dims =
     (let ndim = layout_ndim l
      in if length dims \<noteq> ndim then None
         else if \<not> permute_check ndim dims (replicate ndim False) then None
         else Some (layout_new (map ((!) (shape l)) dims) (map ((!) (strides l)) dims) (offset l)))"

definition layout_narrow :: "layout \<Rightarrow> nat \<Rightarrow> usize \<Rightarrow> usize \<Rightarrow> layout option" where
  "layout_narrow l dim start len =
     (if layout_ndim l \<le> dim then None
      else let dim_size = shape l ! dim
           in if dim_size \<le> start \<or> dim_size < start + len then None
              else if len = 0 then None
              else let new_offset = offset l + start * strides l ! dim
                   in if new_offset <s 0 then None
                      else Some (layout_new ((shape l)[dim := len]) (strides l) new_offset))"

definition layout_flip :: "layout \<Rightarrow> int \<Rightarrow> layout option" where
  "layout_flip l dim = do {
     idx \<leftarrow> layout_normalize_dim l dim;
     (if shape l ! idx \<le> 1 then Some l
      else do {
        let old_stride = strides l ! idx;
        stride_factor \<leftarrow> checked_mul_isize (shape l ! idx - 1) old_stride;
        new_offset \<leftarrow> checked_add_isize (offset l) stride_factor;
        (if new_offset <s 0 then None
         else Some (layout_new (shape l) ((strides l)[idx := - old_stride]) new_offset)) }) }"

fun layout_flip_dims :: "layout \<Rightarrow> int list \<Rightarrow> layout option" where
  "layout_flip_dims l [] = Some l"
| "layout_flip_dims l (dim # dims) =
     (case layout_flip l dim of None \<Rightarrow> None | Some r \<Rightarrow> layout_flip_dims r dims)"

definition layout_flatten :: "layout \<Rightarrow> nat \<Rightarrow> nat \<Rightarrow> layout option" where
  "layout_flatten l start_dim end_dim =
     (if end_dim < start_dim \<or> layout_ndim l \<le> end_dim then None
      else if list_ex (\<lambda>i. strides l ! i \<noteq> strides l ! (i + 1) * shape l ! (i + 1))
                [start_dim..<end_dim] then None
      else let flat_size = prod_list (map ((!) (shape l)) [start_dim..<Suc end_dim])
           in Some (layout_new
                (map ((!) (shape l)) [0..<start_dim] @ flat_size
                   # map ((!) (shape l)) [end_dim + 1..<layout_ndim l])
                (map ((!) (strides l)) [0..<start_dim] @ strides l ! end_dim
                   # map ((!) (strides l)) [end_dim + 1..<layout_ndim l])
                (offset l)))"

definition layout_as_strided :: "layout \<Rightarrow> usize list \<Rightarrow> isize list \<Rightarrow> usize \<Rightarrow> layout" where
  "layout_as_strided l shp strd off = \<lparr>shape = shp, strides = strd, offset = offset l + off\<rparr>"

fun storage_size_loop :: "isize \<Rightarrow> (usize \<times> isize) list \<Rightarrow> isize" where
  "storage_size_loop max_offset [] = max_offset"
| "storage_size_loop max_offset ((dim, stride) # rest) =
     storage_size_loop (if 0 < dim \<and> 0 <s stride then max_offset + (dim - 1) * stride
                        else max_offset) rest"

definition layout_storage_size :: "layout \<Rightarrow> usize" where
  "layout_storage_size l =
     (if shape l = [] then (if 0 < offset l then offset l + 1 else 1)
      else storage_size_loop (offset l) (zip (shape l) (strides l)) + 1)"

fun offset_to_index_loop :: "isize list \<Rightarrow> usize \<Rightarrow> usize list" where
  "offset_to_index_loop [] off = []"
| "offset_to_index_loop (stride # rest) off =
     (if 0 <s stride then off div stride # offset_to_index_loop rest (off mod stride)
      else 0 # offset_to_index_loop rest off)"

definition layout_offset_to_index :: "layout \<Rightarrow> usize \<Rightarrow> usize list option" where
  "layout_offset_to_index l off =
     (if \<not> layout_is_contiguous l \<or> layout_elem_count l \<le> off then None
      else Some (offset_to_index_loop (strides l) off))"

section \<open>Broadcasting\<close>

definition layout_broadcast_shapes :: "usize list \<Rightarrow> usize list \<Rightarrow> usize list option" where
  "layout_broadcast_shapes a b =
     (let max_rank = max (length a) (length b)
      in foldM
           (\<lambda>i result.
              let dim_a = (if i < length a then a ! (length a - 1 - i) else 1);
                  dim_b = (if i < length b then b ! (length b - 1 - i) else 1)
              in if dim_a = dim_b then Some (result[max_rank - 1 - i := dim_a])
                 else if dim_a = 1 then Some (result[max_rank - 1 - i := dim_b])
                 else if dim_b = 1 then Some (result[max_rank - 1 - i := dim_a])
                 else None)
           [0..<max_rank] (replicate max_rank 0))"

definition layout_broadcast_shape :: "layout \<Rightarrow> layout \<Rightarrow> usize list option" where
  "layout_broadcast_shape l other = layout_broadcast_shapes (shape l) (shape other)"

fun broadcast_to_loop :: "((usize \<times> isize) \<times> usize) list \<Rightarrow> (usize list \<times> isize list) \<Rightarrow>
    (usize list \<times> isize list) option" where
  "broadcast_to_loop [] acc = Some acc"
| "broadcast_to_loop (((s, st), t) # rest) (new_shape, new_strides) =
     (if s = t then broadcast_to_loop rest (new_shape @ [t], new_strides @ [st])
      else if s = 1 then broadcast_to_loop rest (new_shape @ [t], new_strides @ [0])
      else None)"

definition layout_broadcast_to :: "layout \<Rightarrow> usize list \<Rightarrow> layout option" where
  "layout_broadcast_to l target =
     (if length target < layout_ndim l then None
      else let pad = length target - layout_ndim l
           in case broadcast_to_loop (zip (zip (shape l) (strides l)) (drop pad target))
                     (take pad target, replicate pad 0) of
                None \<Rightarrow> None
              | Some (new_shape, new_strides) \<Rightarrow> Some (layout_new new_shape new_strides (offset l)))"

section \<open>Synonyms of the operations above\<close>

definition layout_rank :: "layout \<Rightarrow> nat" where
  "layout_rank l = layout_ndim l"

definition layout_permute_dims :: "layout \<Rightarrow> nat list \<Rightarrow> layout option" where
  "layout_permute_dims l dims = layout_permute l dims"

definition layout_index_to_offset :: "layout \<Rightarrow> usize list \<Rightarrow> usize option" where
  "layout_index_to_offset l indices = layout_index l indices"

section \<open>Addresses\<close>

text \<open>Well-formed: one stride per dimension, the \<open>debug_assert\<close> of \<open>Layout::new\<close>.\<close>

definition wf_layout :: "layout \<Rightarrow> bool" where
  "wf_layout l \<longleftrightarrow> length (shape l) = length (strides l)"

definition in_bounds :: "usize list \<Rightarrow> usize list \<Rightarrow> bool" where
  "in_bounds idx shp \<longleftrightarrow> list_all2 (<) idx shp"

definition dot :: "usize list \<Rightarrow> isize list \<Rightarrow> isize" where
  "dot idx ss = sum_list (map (\<lambda>(i, s). i * s) (zip idx ss))"

definition elems :: "usize list \<Rightarrow> nat" where
  "elems shp = prod_list (map unat shp)"

lemma dot_simps [simp]: "dot [] ss = 0" "dot idx [] = 0" "dot (i # idx) (s # ss) = i * s + dot idx ss"
  by (simp_all add: dot_def)

lemma elems_simps [simp]: "elems [] = 1" "elems (d # ds) = unat d * elems ds"
  by (simp_all add: elems_def)

lemma elems_append [simp]: "elems (xs @ ys) = elems xs * elems ys"
  by (induction xs) auto

lemma in_bounds_simps [simp]:
  "in_bounds [] []" "\<not> in_bounds [] (d # ds)" "\<not> in_bounds (i # idx) []"
  "in_bounds (i # idx) (d # ds) \<longleftrightarrow> i < d \<and> in_bounds idx ds"
  by (simp_all add: in_bounds_def)

lemma in_bounds_length: "in_bounds idx shp \<Longrightarrow> length idx = length shp"
  by (simp add: in_bounds_def list_all2_lengthD)

lemma in_bounds_nth: "in_bounds idx shp \<longleftrightarrow>
    length idx = length shp \<and> (\<forall>i < length shp. idx ! i < shp ! i)"
  by (auto simp: in_bounds_def list_all2_conv_all_nth)

lemma linear_loop_eq: "linear_loop acc zs = acc + sum_list (map (\<lambda>(i, s). i * s) zs)"
  by (induction acc zs rule: linear_loop.induct) (auto simp: algebra_simps)

lemma linear_loop_dot: "linear_loop acc (zip idx ss) = acc + dot idx ss"
  by (simp add: linear_loop_eq dot_def)

lemma out_of_bounds_iff:
  "length idx = length shp \<Longrightarrow>
   list_ex (\<lambda>(idx, dim). dim \<le> idx) (zip idx shp) \<longleftrightarrow> \<not> in_bounds idx shp"
  by (induction idx shp rule: list_induct2) auto

text \<open>The address of an element: defined exactly on the in-range indices.\<close>

lemma layout_index_eq:
  "layout_index l idx =
     (if in_bounds idx (shape l) then Some (offset l + dot idx (strides l)) else None)"
  by (auto simp: layout_index_def layout_ndim_def out_of_bounds_iff linear_loop_dot
      dest: in_bounds_length)

lemma dot_mset: "dot idx ss = sum_mset (image_mset (\<lambda>(i, s). i * s) (mset (zip idx ss)))"
  by (simp add: dot_def flip: sum_mset_sum_list)

lemma dot_cong_mset: "mset (zip idx ss) = mset (zip idx' ss') \<Longrightarrow> dot idx ss = dot idx' ss'"
  by (simp add: dot_mset)

lemma dot_append:
  "length idx = length ss \<Longrightarrow> dot (idx @ idx') (ss @ ss') = dot idx ss + dot idx' ss'"
  by (simp add: dot_def)

lemma in_bounds_append:
  "length idx = length shp \<Longrightarrow>
   in_bounds (idx @ idx') (shp @ shp') \<longleftrightarrow> in_bounds idx shp \<and> in_bounds idx' shp'"
  by (simp add: in_bounds_def list_all2_append)

lemma dot_update:
  "length idx = length ss \<Longrightarrow> n < length idx \<Longrightarrow>
   dot (idx[n := v]) ss = dot idx ss + (v - idx ! n) * ss ! n"
proof (induction idx ss arbitrary: n rule: list_induct2)
  case (Cons i idx s ss)
  show ?case
  proof (cases n)
    case (Suc m)
    with Cons show ?thesis by (simp add: Cons.IH[of m])
  qed (simp add: algebra_simps)
qed simp

lemma dot_update_stride:
  "length idx = length ss \<Longrightarrow> n < length idx \<Longrightarrow>
   dot idx (ss[n := v]) = dot idx ss + idx ! n * (v - ss ! n)"
proof (induction idx ss arbitrary: n rule: list_induct2)
  case (Cons i idx s ss)
  show ?case
  proof (cases n)
    case (Suc m)
    with Cons show ?thesis by (simp add: Cons.IH[of m])
  qed (simp add: algebra_simps)
qed simp

section \<open>Row-major strides\<close>

lemma contiguous_strides_loop_snoc:
  "contiguous_strides_loop (xs @ [y]) s = contiguous_strides_loop xs s @ [s * prod_list xs]"
  by (induction xs arbitrary: s) (auto simp: algebra_simps)

lemma cstrides_simps [simp]:
  "compute_contiguous_strides [] = []"
  "compute_contiguous_strides (d # ds) = prod_list ds # compute_contiguous_strides ds"
proof -
  have "prod_list (rev ds) = prod_list ds"
    by (induction ds) (auto simp: prod_list.append mult.commute)
  then show "compute_contiguous_strides (d # ds) = prod_list ds # compute_contiguous_strides ds"
    by (auto simp: compute_contiguous_strides_def contiguous_strides_loop_snoc)
qed (simp add: compute_contiguous_strides_def)

lemma length_cstrides [simp]: "length (compute_contiguous_strides shp) = length shp"
  by (induction shp) auto

lemma unat_prod_list: "elems shp < 2 ^ 64 \<Longrightarrow> 0 \<notin> set shp \<Longrightarrow> unat (prod_list shp) = elems shp"
proof (induction shp)
  case Nil
  then show ?case by simp
next
  case (Cons d ds)
  then have "0 < unat d" by (simp add: unat_gt_0)
  then have "elems ds \<le> elems (d # ds)" by simp
  with Cons.prems have "elems ds < 2 ^ 64" by (rule_tac le_less_trans) auto
  with Cons have "unat (prod_list ds) = elems ds" by simp
  with Cons.prems(1) show ?case by (simp add: unat_word_ariths)
qed

lemma in_bounds_no_zero: "in_bounds idx shp \<Longrightarrow> 0 \<notin> set shp"
  by (induction idx shp rule: list_induct2') auto

text \<open>The address of an in-range index of a row-major layout is its rank, computed exactly.\<close>

lemma unat_dot_cstrides:
  "in_bounds idx shp \<Longrightarrow> elems shp < 2 ^ 64 \<Longrightarrow> unat (dot idx (compute_contiguous_strides shp)) < elems shp"
proof (induction idx shp rule: list_induct2')
  case (4 i idx d ds)
  then have id: "unat i < unat d" and b: "in_bounds idx ds" by (auto simp: word_less_nat_alt)
  have le: "elems ds \<le> elems (d # ds)" using id by simp
  let ?r = "dot idx (compute_contiguous_strides ds)"
  have small: "elems ds < 2 ^ 64" using le 4(3) by (rule le_less_trans)
  have r: "unat ?r < elems ds" by (rule "4.IH"[OF b small])
  have p: "unat (prod_list ds) = elems ds"
    by (rule unat_prod_list[OF small in_bounds_no_zero[OF b]])
  have "Suc (unat i) * elems ds \<le> unat d * elems ds"
    using id by (intro mult_le_mono) auto
  then have *: "unat i * elems ds + unat ?r < elems (d # ds)" using r by simp
  then have "unat (i * prod_list ds + ?r) = unat i * elems ds + unat ?r"
    using 4(3) p by (simp add: unat_word_ariths)
  with * show ?case by simp
qed auto

end
