(* ===== verification/Layout_Views.thy ===== *)
theory Layout_Views
  imports Layout
begin

text \<open>
  What the view operations of \<open>Layout\<close> promise. Every operation that makes a view comes with a
  map of index tuples: element \<open>idx\<close> of the view is element \<open>pull p l idx\<close> of the layout it was
  made from. The locale \<open>view_op\<close> states that contract once and derives that a view never reaches
  an address its parent does not reach; each operation of the code interprets it. Chains of calls
  are in Layout_Safety.
\<close>

definition addresses :: "layout \<Rightarrow> usize set" where
  "addresses l = {a. \<exists>idx. layout_index l idx = Some a}"

section \<open>The contract of a view operation\<close>

locale view_op =
  fixes step :: "'p \<Rightarrow> layout \<Rightarrow> layout option"
    and ok :: "'p \<Rightarrow> layout \<Rightarrow> bool"
    and pull :: "'p \<Rightarrow> layout \<Rightarrow> usize list \<Rightarrow> usize list"
  assumes step_wf: "wf_layout l \<Longrightarrow> ok p l \<Longrightarrow> step p l = Some l' \<Longrightarrow> wf_layout l'"
    and step_pull: "wf_layout l \<Longrightarrow> ok p l \<Longrightarrow> step p l = Some l' \<Longrightarrow> in_bounds idx (shape l') \<Longrightarrow>
      in_bounds (pull p l idx) (shape l) \<and>
      offset l' + dot idx (strides l') = offset l + dot (pull p l idx) (strides l)"
begin

lemma index_pull:
  "wf_layout l \<Longrightarrow> ok p l \<Longrightarrow> step p l = Some l' \<Longrightarrow> in_bounds idx (shape l') \<Longrightarrow>
   layout_index l' idx = layout_index l (pull p l idx)"
  using step_pull[of l p l' idx] by (simp add: layout_index_eq)

lemma addresses_subset:
  assumes "wf_layout l" and "ok p l" and "step p l = Some l'"
  shows "addresses l' \<subseteq> addresses l"
proof
  fix a assume "a \<in> addresses l'"
  then obtain idx where "layout_index l' idx = Some a" by (auto simp: addresses_def)
  moreover from this have "in_bounds idx (shape l')" by (auto simp: layout_index_eq split: if_splits)
  ultimately show "a \<in> addresses l"
    using index_pull[OF assms] by (auto simp: addresses_def)
qed

end

section \<open>Each view operation of the code\<close>

lemma normalize_dim_less: "layout_normalize_dim l d = Some i \<Longrightarrow> i < length (shape l)"
  by (auto simp: layout_normalize_dim_def layout_ndim_def Let_def split: if_splits)

lemma swap_index:
  assumes wf: "wf_layout l" and i: "i < length (shape l)" and j: "j < length (shape l)"
    and b: "in_bounds idx (swap_nth (shape l) i j)"
  shows "in_bounds (swap_nth idx i j) (shape l) \<and>
    dot idx (swap_nth (strides l) i j) = dot (swap_nth idx i j) (strides l)"
proof
  have len: "length idx = length (shape l)" using in_bounds_length[OF b] by simp
  show "in_bounds (swap_nth idx i j) (shape l)"
    unfolding in_bounds_nth
  proof (intro conjI allI impI)
    fix k assume "k < length (shape l)"
    with b i j len show "swap_nth idx i j ! k < shape l ! k"
      unfolding in_bounds_nth by (fastforce simp: swap_nth_def nth_list_update)
  qed (simp add: len)
  have ls: "length (strides l) = length idx" using wf len by (simp add: wf_layout_def)
  have "mset (zip (swap_nth idx i j) (swap_nth (swap_nth (strides l) i j) i j))
      = mset (zip idx (swap_nth (strides l) i j))"
    using i j len ls by (simp add: zip_swap_nth mset_swap_nth)
  then show "dot idx (swap_nth (strides l) i j) = dot (swap_nth idx i j) (strides l)"
    using i j len ls by (intro dot_cong_mset) (simp add: swap_nth_swap_nth)
qed

definition transpose_pull :: "int \<times> int \<Rightarrow> layout \<Rightarrow> usize list \<Rightarrow> usize list" where
  "transpose_pull p l idx =
     (case (layout_normalize_dim l (fst p), layout_normalize_dim l (snd p)) of
        (Some d0, Some d1) \<Rightarrow> swap_nth idx d0 d1 | _ \<Rightarrow> idx)"

interpretation transpose_view: view_op
  "\<lambda>p l. layout_transpose l (fst p) (snd p)" "\<lambda>_ _. True" transpose_pull
proof
  fix l p l' assume "wf_layout l" "layout_transpose l (fst p) (snd p) = Some l'"
  then show "wf_layout l'"
    by (auto simp: layout_transpose_def wf_layout_def split: Option.bind_splits)
next
  fix l p l' idx
  assume wf: "wf_layout l" and st: "layout_transpose l (fst p) (snd p) = Some l'"
    and b: "in_bounds idx (shape l')"
  from st obtain i j where ij: "layout_normalize_dim l (fst p) = Some i" "layout_normalize_dim l (snd p) = Some j"
    and l': "l' = \<lparr>shape = swap_nth (shape l) i j, strides = swap_nth (strides l) i j, offset = offset l\<rparr>"
    by (auto simp: layout_transpose_def split: Option.bind_splits)
  show "in_bounds (transpose_pull p l idx) (shape l) \<and>
    offset l' + dot idx (strides l') = offset l + dot (transpose_pull p l idx) (strides l)"
    using swap_index[OF wf normalize_dim_less[OF ij(1)] normalize_dim_less[OF ij(2)], of idx] b ij l'
    by (simp add: transpose_pull_def)
qed

interpretation transpose_axes_view: view_op
  "\<lambda>p l. layout_transpose_axes l (fst p) (snd p)" "\<lambda>_ _. True"
  "\<lambda>p l idx. swap_nth idx (fst p) (snd p)"
proof
  fix l p l' assume "wf_layout l" "layout_transpose_axes l (fst p) (snd p) = Some l'"
  then show "wf_layout l'"
    by (auto simp: layout_transpose_axes_def wf_layout_def split: if_splits)
next
  fix l p l' idx
  assume wf: "wf_layout l" and st: "layout_transpose_axes l (fst p) (snd p) = Some l'"
    and b: "in_bounds idx (shape l')"
  then show "in_bounds (swap_nth idx (fst p) (snd p)) (shape l) \<and>
    offset l' + dot idx (strides l') = offset l + dot (swap_nth idx (fst p) (snd p)) (strides l)"
    using swap_index[OF wf, of "fst p" "snd p" idx]
    by (auto simp: layout_transpose_axes_def layout_ndim_def split: if_splits)
qed

text \<open>\<open>permute\<close>: the check accepts exactly the permutations of the axes.\<close>

lemma permute_check_iff:
  "length seen = n \<Longrightarrow>
   permute_check n ds seen \<longleftrightarrow> (\<forall>d \<in> set ds. d < n \<and> \<not> seen ! d) \<and> distinct ds"
proof (induction ds arbitrary: seen)
  case Nil
  then show ?case by simp
next
  case (Cons d ds)
  show ?case
  proof (cases "n \<le> d \<or> seen ! d")
    case True
    then show ?thesis by auto
  next
    case False
    with Cons.prems Cons.IH[of "seen[d := True]"] show ?thesis
      by (auto simp: nth_list_update)
  qed
qed

lemma layout_permute_eq:
  "layout_permute l dims =
     (if is_axis_perm dims (length (shape l))
      then Some (layout_new (map ((!) (shape l)) dims) (map ((!) (strides l)) dims) (offset l)) else None)"
  by (auto simp: layout_permute_def layout_ndim_def Let_def permute_check_iff is_axis_perm_def)

text \<open>The position of axis \<open>k\<close> in the permuted index: entry \<open>p\<close> of the view is axis \<open>dims ! p\<close>.\<close>

definition unpermute :: "nat list \<Rightarrow> usize list \<Rightarrow> usize list" where
  "unpermute dims idx = map (\<lambda>k. the (map_of (zip dims idx) k)) [0..<length idx]"

lemma map_nth_unpermute:
  assumes perm: "is_axis_perm dims n" and len: "length idx = n"
  shows "map ((!) (unpermute dims idx)) dims = idx"
proof (rule nth_equalityI)
  show "length (map ((!) (unpermute dims idx)) dims) = length idx"
    using assms by (simp add: is_axis_perm_def)
next
  fix p assume p: "p < length (map ((!) (unpermute dims idx)) dims)"
  then have "p < length dims" by simp
  then have d: "dims ! p < n"
    using perm nth_mem[of p dims] unfolding is_axis_perm_def by blast
  have "map_of (zip dims idx) (dims ! p) = Some (idx ! p)"
    using perm len \<open>p < length dims\<close> by (auto simp: is_axis_perm_def map_of_zip_nth)
  with d len \<open>p < length dims\<close> show "map ((!) (unpermute dims idx)) dims ! p = idx ! p"
    by (simp add: unpermute_def)
qed

lemma length_unpermute [simp]: "length (unpermute dims idx) = length idx"
  by (simp add: unpermute_def)

lemma in_bounds_permute:
  assumes perm: "is_axis_perm dims (length shp)" and len: "length idx = length shp"
  shows "in_bounds (map ((!) idx) dims) (map ((!) shp) dims) \<longleftrightarrow> in_bounds idx shp"
proof -
  have s: "set dims = {..<length shp}"
    using perm is_axis_perm_mset[OF perm] mset_eq_setD by (fastforce simp: atLeast0LessThan)
  have "in_bounds (map ((!) idx) dims) (map ((!) shp) dims) \<longleftrightarrow> (\<forall>d \<in> set dims. idx ! d < shp ! d)"
    by (auto simp: in_bounds_nth all_set_conv_all_nth)
  also have "\<dots> \<longleftrightarrow> in_bounds idx shp"
    using len by (auto simp: s in_bounds_nth)
  finally show ?thesis .
qed

interpretation permute_view: view_op
  "\<lambda>dims l. layout_permute l dims" "\<lambda>_ _. True" "\<lambda>dims l idx. unpermute dims idx"
proof
  fix l dims l' assume "wf_layout l" "layout_permute l dims = Some l'"
  then show "wf_layout l'"
    by (auto simp: layout_permute_eq wf_layout_def layout_new_def split: if_splits)
next
  fix l dims l' idx
  assume wf: "wf_layout l" and st: "layout_permute l dims = Some l'" and b: "in_bounds idx (shape l')"
  from st have perm: "is_axis_perm dims (length (shape l))"
    and l': "l' = layout_new (map ((!) (shape l)) dims) (map ((!) (strides l)) dims) (offset l)"
    by (auto simp: layout_permute_eq split: if_splits)
  have len: "length idx = length (shape l)"
    using in_bounds_length[OF b] perm l' by (simp add: layout_new_def is_axis_perm_def)
  let ?u = "unpermute dims idx"
  have idx: "idx = map ((!) ?u) dims" using map_nth_unpermute[OF perm len] by simp
  have "in_bounds ?u (shape l)"
    using in_bounds_permute[OF perm, of ?u] b l' idx len by (simp add: layout_new_def)
  moreover have "dot idx (map ((!) (strides l)) dims) = dot ?u (strides l)"
  proof (rule dot_cong_mset)
    have ls: "length ?u = length (strides l)" using wf len by (simp add: wf_layout_def)
    have "zip idx (map ((!) (strides l)) dims) = map ((!) (zip ?u (strides l))) dims"
      using perm len ls by (subst idx, subst zip_map_nth_perm) (auto simp: is_axis_perm_def)
    then show "mset (zip idx (map ((!) (strides l)) dims)) = mset (zip ?u (strides l))"
      using mset_map_nth_perm[of dims "zip ?u (strides l)"] perm len ls by simp
  qed
  ultimately show "in_bounds ?u (shape l) \<and>
    offset l' + dot idx (strides l') = offset l + dot ?u (strides l)"
    by (simp add: l' layout_new_def)
qed

text \<open>\<open>narrow\<close>: index \<open>i\<close> along \<open>dim\<close> is index \<open>start + i\<close> of the parent, provided the sum of
  \<open>start\<close> and \<open>len\<close> does not wrap around, which the code does not check.\<close>

definition narrow_ok :: "nat \<times> usize \<times> usize \<Rightarrow> layout \<Rightarrow> bool" where
  "narrow_ok p l = (case p of (dim, start, len) \<Rightarrow> unat start + unat len < 2 ^ 64)"

definition narrow_pull :: "nat \<times> usize \<times> usize \<Rightarrow> layout \<Rightarrow> usize list \<Rightarrow> usize list" where
  "narrow_pull p l idx = (case p of (dim, start, len) \<Rightarrow> idx[dim := start + idx ! dim])"

lemma layout_narrow_Some:
  "layout_narrow l dim start len = Some l' \<Longrightarrow>
   dim < length (shape l) \<and> start + len \<le> shape l ! dim \<and>
   l' = layout_new ((shape l)[dim := len]) (strides l) (offset l + start * strides l ! dim)"
  by (auto simp: layout_narrow_def layout_ndim_def Let_def split: if_splits)

lemma start_plus_less:
  fixes start len d i :: "64 word"
  assumes "unat start + unat len < 2 ^ 64" and "start + len \<le> d" and "i < len"
  shows "start + i < d"
proof -
  have e: "unat (start + len) = unat start + unat len" using assms(1) by (simp add: unat_word_ariths)
  have i: "unat i < unat len" using assms(3) by (simp add: word_less_nat_alt)
  then have "unat start + unat i < 2 ^ 64" using assms(1) by linarith
  then have "unat (start + i) = unat start + unat i" by (simp add: unat_word_ariths)
  with e i assms(2) show ?thesis by (simp add: word_less_nat_alt word_le_nat_alt)
qed

interpretation narrow_view: view_op
  "\<lambda>p l. layout_narrow l (fst p) (fst (snd p)) (snd (snd p))" narrow_ok narrow_pull
proof
  fix l p l' assume "wf_layout l" "layout_narrow l (fst p) (fst (snd p)) (snd (snd p)) = Some l'"
  then show "wf_layout l'"
    by (auto simp: wf_layout_def layout_new_def dest!: layout_narrow_Some)
next
  fix l l' idx and p :: "nat \<times> usize \<times> usize"
  assume wf: "wf_layout l" and ok: "narrow_ok p l"
    and st: "layout_narrow l (fst p) (fst (snd p)) (snd (snd p)) = Some l'"
    and b: "in_bounds idx (shape l')"
  obtain dim start len where p: "p = (dim, start, len)" by (cases p) auto
  from layout_narrow_Some[OF st] p have d: "dim < length (shape l)" and le: "start + len \<le> shape l ! dim"
    and l': "l' = layout_new ((shape l)[dim := len]) (strides l) (offset l + start * strides l ! dim)"
    by auto
  have li: "length idx = length (shape l)" using in_bounds_length[OF b] l' by (simp add: layout_new_def)
  have i: "idx ! dim < len" using b d l' by (auto simp: in_bounds_nth layout_new_def)
  have "start + idx ! dim < shape l ! dim"
    using start_plus_less[OF _ le i] ok p by (simp add: narrow_ok_def)
  then have "in_bounds (narrow_pull p l idx) (shape l)"
    using b d li l' p by (auto simp: in_bounds_nth narrow_pull_def layout_new_def nth_list_update split: if_splits)
  moreover have "dot (narrow_pull p l idx) (strides l) = dot idx (strides l) + start * strides l ! dim"
    using wf d li p by (simp add: narrow_pull_def wf_layout_def dot_update algebra_simps)
  ultimately show "in_bounds (narrow_pull p l idx) (shape l) \<and>
    offset l' + dot idx (strides l') = offset l + dot (narrow_pull p l idx) (strides l)"
    by (simp add: l' layout_new_def algebra_simps)
qed

text \<open>\<open>flip\<close>: index \<open>i\<close> along \<open>dim\<close> is index \<open>n - 1 - i\<close> of the parent.\<close>

definition flip_pull :: "int \<Rightarrow> layout \<Rightarrow> usize list \<Rightarrow> usize list" where
  "flip_pull dim l idx =
     (case layout_normalize_dim l dim of
        None \<Rightarrow> idx
      | Some d \<Rightarrow> if shape l ! d \<le> 1 then idx else idx[d := shape l ! d - 1 - idx ! d])"

lemma layout_flip_Some:
  "layout_flip l dim = Some l' \<Longrightarrow>
   \<exists>d. layout_normalize_dim l dim = Some d \<and>
      (if shape l ! d \<le> 1 then l' = l
       else l' = layout_new (shape l) ((strides l)[d := - (strides l ! d)])
                   (offset l + (shape l ! d - 1) * strides l ! d))"
  by (auto simp: layout_flip_def checked_mul_isize_def checked_add_isize_def Let_def
      split: Option.bind_splits if_splits)

lemma mirror_less:
  fixes n i :: "64 word"
  assumes "i < n" shows "n - 1 - i < n"
proof -
  have "unat i < unat n" using assms by (simp add: word_less_nat_alt)
  then have "unat (n - 1 - i) = unat n - 1 - unat i"
    by (simp add: unat_sub_if' word_le_nat_alt unat_sub)
  with \<open>unat i < unat n\<close> show ?thesis by (simp add: word_less_nat_alt)
qed

interpretation flip_view: view_op "\<lambda>d l. layout_flip l d" "\<lambda>_ _. True" flip_pull
proof
  fix l p l' assume "wf_layout l" "layout_flip l p = Some l'"
  then show "wf_layout l'"
    by (auto simp: wf_layout_def layout_new_def dest!: layout_flip_Some split: if_splits)
next
  fix l p l' idx
  assume wf: "wf_layout l" and st: "layout_flip l p = Some l'" and b: "in_bounds idx (shape l')"
  from layout_flip_Some[OF st] obtain d where d: "layout_normalize_dim l p = Some d"
    and l': "if shape l ! d \<le> 1 then l' = l
       else l' = layout_new (shape l) ((strides l)[d := - (strides l ! d)])
                   (offset l + (shape l ! d - 1) * strides l ! d)" by blast
  show "in_bounds (flip_pull p l idx) (shape l) \<and>
    offset l' + dot idx (strides l') = offset l + dot (flip_pull p l idx) (strides l)"
  proof (cases "shape l ! d \<le> 1")
    case True
    with l' d b show ?thesis by (simp add: flip_pull_def)
  next
    case False
    with l' have l': "l' = layout_new (shape l) ((strides l)[d := - (strides l ! d)])
                   (offset l + (shape l ! d - 1) * strides l ! d)" by simp
    have b': "in_bounds idx (shape l)" using b l' by (simp add: layout_new_def)
    have li: "length idx = length (shape l)" by (rule in_bounds_length[OF b'])
    have dl: "d < length (shape l)" by (rule normalize_dim_less[OF d])
    have "in_bounds (flip_pull p l idx) (shape l)"
      using b' False d dl li by (auto simp: flip_pull_def in_bounds_nth nth_list_update mirror_less)
    moreover have e1: "dot idx ((strides l)[d := - (strides l ! d)])
        = dot idx (strides l) - 2 * (idx ! d * strides l ! d)"
      using wf li dl by (simp add: wf_layout_def dot_update_stride algebra_simps)
    moreover have e2: "dot (flip_pull p l idx) (strides l)
        = dot idx (strides l) + (shape l ! d - 1 - 2 * idx ! d) * strides l ! d"
      using wf li dl d False by (simp add: flip_pull_def wf_layout_def dot_update algebra_simps)
    moreover have "offset l + (shape l ! d - 1) * strides l ! d + dot idx ((strides l)[d := - (strides l ! d)])
        = offset l + dot (flip_pull p l idx) (strides l)"
      unfolding e1 e2 by (simp add: algebra_simps)
    ultimately show ?thesis by (simp add: l' layout_new_def)
  qed
qed

text \<open>\<open>squeeze\<close> drops axes of size 1 and \<open>unsqueeze\<close> adds one: the index of that axis is 0.\<close>

lemma insert_nth_remove_nth: "d < length xs \<Longrightarrow> insert_nth (remove_nth xs d) d (xs ! d) = xs"
  by (simp add: insert_nth_def remove_nth_def min_def id_take_nth_drop[symmetric])

lemma length_remove_nth [simp]: "d < length xs \<Longrightarrow> length (remove_nth xs d) = length xs - 1"
  by (simp add: remove_nth_def)

lemma length_insert_nth [simp]: "length (insert_nth xs d v) = Suc (length xs)"
  by (simp add: insert_nth_def)

lemma nth_insert_nth [simp]: "d \<le> length xs \<Longrightarrow> insert_nth xs d v ! d = v"
  by (simp add: insert_nth_def nth_append)

lemma dot_insert:
  assumes "length idx = length ss" and "d \<le> length idx"
  shows "dot (insert_nth idx d i) (insert_nth ss d s) = i * s + dot idx ss"
proof -
  have "dot idx ss = dot (take d idx @ drop d idx) (take d ss @ drop d ss)" by simp
  also have "\<dots> = dot (take d idx) (take d ss) + dot (drop d idx) (drop d ss)"
    using assms by (intro dot_append) simp
  finally show ?thesis
    using assms by (simp add: insert_nth_def dot_append)
qed

lemma in_bounds_insert:
  assumes "length idx = length shp" and "d \<le> length idx"
  shows "in_bounds (insert_nth idx d i) (insert_nth shp d n) \<longleftrightarrow> i < n \<and> in_bounds idx shp"
proof -
  have "in_bounds idx shp \<longleftrightarrow> in_bounds (take d idx @ drop d idx) (take d shp @ drop d shp)" by simp
  also have "\<dots> \<longleftrightarrow> in_bounds (take d idx) (take d shp) \<and> in_bounds (drop d idx) (drop d shp)"
    using assms by (intro in_bounds_append) simp
  finally show ?thesis
    using assms by (auto simp: insert_nth_def in_bounds_append)
qed

lemma squeeze_at_index:
  assumes wf: "wf_layout l" and d: "d < length (shape l)" and one: "shape l ! d = 1"
    and b: "in_bounds idx (remove_nth (shape l) d)"
  shows "in_bounds (insert_nth idx d 0) (shape l) \<and>
    dot idx (remove_nth (strides l) d) = dot (insert_nth idx d 0) (strides l)"
proof
  have ds: "d < length (strides l)" using wf d by (simp add: wf_layout_def)
  have li: "length idx = length (shape l) - 1" using in_bounds_length[OF b] d by simp
  then have li': "length idx = length (strides l) - 1" using wf by (simp add: wf_layout_def)
  have "insert_nth (remove_nth (shape l) d) d 1 = shape l"
    using insert_nth_remove_nth[OF d] one by simp
  moreover have "in_bounds (insert_nth idx d 0) (insert_nth (remove_nth (shape l) d) d 1)"
    using b d li by (subst in_bounds_insert) auto
  ultimately show "in_bounds (insert_nth idx d 0) (shape l)" by simp
  show "dot idx (remove_nth (strides l) d) = dot (insert_nth idx d 0) (strides l)"
    using dot_insert[of idx "remove_nth (strides l) d" d 0 "strides l ! d"] ds li'
    by (simp add: insert_nth_remove_nth)
qed

interpretation squeeze_dim_view: view_op
  "\<lambda>d l. layout_squeeze_dim l d" "\<lambda>_ _. True" "\<lambda>d l idx. insert_nth idx d 0"
proof
  fix l d l' assume "wf_layout l" "layout_squeeze_dim l d = Some l'"
  then show "wf_layout l'"
    by (auto simp: layout_squeeze_dim_def wf_layout_def layout_new_def layout_ndim_def split: if_splits)
next
  fix l d l' idx
  assume "wf_layout l" and "layout_squeeze_dim l d = Some l'" and "in_bounds idx (shape l')"
  then show "in_bounds (insert_nth idx d 0) (shape l) \<and>
    offset l' + dot idx (strides l') = offset l + dot (insert_nth idx d 0) (strides l)"
    using squeeze_at_index[of l d idx]
    by (auto simp: layout_squeeze_dim_def layout_new_def layout_ndim_def split: if_splits)
qed

fun squeeze_all_pull :: "usize list \<Rightarrow> usize list \<Rightarrow> usize list" where
  "squeeze_all_pull [] idx = []"
| "squeeze_all_pull (s # shp) idx =
     (if s = 1 then 0 # squeeze_all_pull shp idx else hd idx # squeeze_all_pull shp (tl idx))"

lemma squeeze_all_index:
  assumes "length shp = length ss"
    and "in_bounds idx (map fst (filter (\<lambda>(s, st). s \<noteq> 1) (zip shp ss)))"
  shows "in_bounds (squeeze_all_pull shp idx) shp \<and>
    dot idx (map snd (filter (\<lambda>(s, st). s \<noteq> 1) (zip shp ss))) = dot (squeeze_all_pull shp idx) ss"
  using assms
proof (induction shp ss arbitrary: idx rule: list_induct2)
  case Nil
  then show ?case by (cases idx) auto
next
  case (Cons s shp st ss)
  show ?case
  proof (cases "s = 1")
    case True
    with Cons show ?thesis by simp
  next
    case False
    with Cons.prems obtain i idx' where "idx = i # idx'" by (cases idx) auto
    with False Cons show ?thesis by simp
  qed
qed

definition squeeze_pull :: "int option \<Rightarrow> layout \<Rightarrow> usize list \<Rightarrow> usize list" where
  "squeeze_pull dim l idx =
     (case dim of
        Some d \<Rightarrow> (case layout_normalize_dim l d of
                     Some i \<Rightarrow> if shape l ! i = 1 then insert_nth idx i 0 else idx | None \<Rightarrow> idx)
      | None \<Rightarrow> squeeze_all_pull (shape l) idx)"

interpretation squeeze_view: view_op
  "\<lambda>d l. Some (layout_squeeze l d)" "\<lambda>_ _. True" squeeze_pull
proof
  fix l d l' assume "wf_layout l" "Some (layout_squeeze l d) = Some l'"
  then show "wf_layout l'"
    by (auto simp: layout_squeeze_def wf_layout_def layout_new_def Let_def dest: normalize_dim_less
        split: option.splits Option.bind_splits if_splits)
next
  fix l d l' idx
  assume wf: "wf_layout l" and st: "Some (layout_squeeze l d) = Some l'" and b: "in_bounds idx (shape l')"
  show "in_bounds (squeeze_pull d l idx) (shape l) \<and>
    offset l' + dot idx (strides l') = offset l + dot (squeeze_pull d l idx) (strides l)"
  proof (cases d)
    case None
    then show ?thesis
      using squeeze_all_index[of "shape l" "strides l" idx] wf st b
      by (auto simp: layout_squeeze_def squeeze_pull_def layout_new_def wf_layout_def Let_def)
  next
    case (Some d')
    show ?thesis
    proof (cases "layout_normalize_dim l d'")
      case None
      with Some st b show ?thesis by (auto simp: layout_squeeze_def squeeze_pull_def)
    next
      case i: (Some i)
      with Some st b wf squeeze_at_index[OF wf normalize_dim_less[OF i], of idx] show ?thesis
        by (auto simp: layout_squeeze_def squeeze_pull_def layout_new_def split: if_splits)
    qed
  qed
qed

lemma unsqueeze_index:
  assumes wf: "wf_layout l" and d: "d \<le> length (shape l)"
    and b: "in_bounds idx (insert_nth (shape l) d 1)"
  shows "in_bounds (remove_nth idx d) (shape l) \<and>
    dot idx (insert_nth (strides l) d st) = dot (remove_nth idx d) (strides l)"
proof -
  have li: "length idx = Suc (length (shape l))" using in_bounds_length[OF b] by simp
  have e: "idx = insert_nth (remove_nth idx d) d (idx ! d)" using d li by (simp add: insert_nth_remove_nth)
  have lr: "length (remove_nth idx d) = length (shape l)" using d li by simp
  have "idx ! d < 1 \<and> in_bounds (remove_nth idx d) (shape l)"
    using b in_bounds_insert[OF lr, of d "idx ! d" 1] d lr by (simp add: e[symmetric])
  then have z: "idx ! d = 0" and ib: "in_bounds (remove_nth idx d) (shape l)"
    by (auto simp: word_less_nat_alt unat_eq_0)
  have "dot (insert_nth (remove_nth idx d) d (idx ! d)) (insert_nth (strides l) d st)
     = dot (remove_nth idx d) (strides l)"
    using wf d lr z by (subst dot_insert) (auto simp: wf_layout_def)
  with e ib show ?thesis by simp
qed

interpretation unsqueeze_at_view: view_op
  "\<lambda>d l. layout_unsqueeze_at l d" "\<lambda>_ _. True" "\<lambda>d l idx. remove_nth idx d"
proof
  fix l d l' assume "wf_layout l" "layout_unsqueeze_at l d = Some l'"
  then show "wf_layout l'"
    by (auto simp: layout_unsqueeze_at_def wf_layout_def layout_new_def Let_def split: if_splits)
next
  fix l d l' idx
  assume wf: "wf_layout l" and st: "layout_unsqueeze_at l d = Some l'" and b: "in_bounds idx (shape l')"
  then obtain v where "d \<le> length (shape l)"
    and "l' = layout_new (insert_nth (shape l) d 1) (insert_nth (strides l) d v) (offset l)"
    by (auto simp: layout_unsqueeze_at_def layout_ndim_def Let_def split: if_splits)
  with b unsqueeze_index[OF wf, of d idx v] show "in_bounds (remove_nth idx d) (shape l) \<and>
    offset l' + dot idx (strides l') = offset l + dot (remove_nth idx d) (strides l)"
    by (simp add: layout_new_def)
qed

definition unsqueeze_axis :: "int \<Rightarrow> layout \<Rightarrow> nat" where
  "unsqueeze_axis dim l = (if dim < 0 then as_usize (int (layout_ndim l) + dim + 1) else as_usize dim)"

lemma layout_unsqueeze_eq: "layout_unsqueeze l dim = layout_unsqueeze_at l (unsqueeze_axis dim l)"
  by (simp add: layout_unsqueeze_def layout_unsqueeze_at_def unsqueeze_axis_def Let_def)

interpretation unsqueeze_view: view_op
  "\<lambda>d l. layout_unsqueeze l d" "\<lambda>_ _. True" "\<lambda>d l idx. remove_nth idx (unsqueeze_axis d l)"
  by unfold_locales
    (auto simp: layout_unsqueeze_eq intro: unsqueeze_at_view.step_wf dest: unsqueeze_at_view.step_pull)

text \<open>\<open>broadcast_to\<close>: added axes and stretched axes of size 1 have stride 0.\<close>

lemma broadcast_to_loop_eq:
  "broadcast_to_loop zs (a, b) =
     (if \<forall>((s, st), t) \<in> set zs. s = t \<or> s = 1
      then Some (a @ map snd zs, b @ map (\<lambda>((s, st), t). if s = t then st else 0) zs) else None)"
  by (induction zs "(a, b)" arbitrary: a b rule: broadcast_to_loop.induct) auto

fun broadcast_pull_loop :: "usize list \<Rightarrow> usize list \<Rightarrow> usize list \<Rightarrow> usize list" where
  "broadcast_pull_loop (s # shp) (t # ts) (i # idx) =
     (if s = t then i else 0) # broadcast_pull_loop shp ts idx"
| "broadcast_pull_loop _ _ _ = []"

definition broadcast_pull :: "usize list \<Rightarrow> layout \<Rightarrow> usize list \<Rightarrow> usize list" where
  "broadcast_pull target l idx =
     (let pad = length target - layout_ndim l
      in broadcast_pull_loop (shape l) (drop pad target) (drop pad idx))"

lemma broadcast_index:
  assumes "length shp = length ss" and "length ss = length ts"
    and "\<forall>((s, st), t) \<in> set (zip (zip shp ss) ts). s = t \<or> s = 1" and "in_bounds idx ts"
  shows "in_bounds (broadcast_pull_loop shp ts idx) shp \<and>
    dot idx (map (\<lambda>((s, st), t). if s = t then st else 0) (zip (zip shp ss) ts))
      = dot (broadcast_pull_loop shp ts idx) ss"
  using assms
proof (induction shp ss ts arbitrary: idx rule: list_induct3)
  case Nil
  then show ?case by (cases idx) auto
next
  case (Cons s shp st ss t ts)
  then obtain i idx' where "idx = i # idx'" by (cases idx) auto
  with Cons show ?case by auto
qed

lemma dot_replicate_0 [simp]: "dot idx (replicate n 0) = 0"
proof (induction n arbitrary: idx)
  case (Suc n)
  then show ?case by (cases idx) auto
qed simp

interpretation broadcast_view: view_op
  "\<lambda>t l. layout_broadcast_to l t" "\<lambda>_ _. True" broadcast_pull
proof
  fix l t l' assume "wf_layout l" "layout_broadcast_to l t = Some l'"
  then show "wf_layout l'"
    by (auto simp: layout_broadcast_to_def wf_layout_def layout_new_def layout_ndim_def Let_def
        broadcast_to_loop_eq min_def split: if_splits option.splits)
next
  fix l t l' idx
  assume wf: "wf_layout l" and st: "layout_broadcast_to l t = Some l'" and b: "in_bounds idx (shape l')"
  define pad where "pad = length t - layout_ndim l"
  let ?zs = "zip (zip (shape l) (strides l)) (drop pad t)"
  let ?ss = "map (\<lambda>((s, st), t). if s = t then st else 0) ?zs"
  have lens: "length (shape l) = length (strides l)" "length (strides l) = length (drop pad t)"
    using wf st by (auto simp: wf_layout_def layout_broadcast_to_def layout_ndim_def pad_def split: if_splits)
  have snds: "map snd ?zs = drop pad t" using lens by simp
  from st have ok: "\<forall>((s, st), t) \<in> set ?zs. s = t \<or> s = 1"
    and l': "l' = layout_new (take pad t @ map snd ?zs) (replicate pad 0 @ ?ss) (offset l)"
    by (auto simp: layout_broadcast_to_def Let_def broadcast_to_loop_eq pad_def split: if_splits option.splits)
  have pl: "pad \<le> length t" by (simp add: pad_def)
  have sh: "shape l' = t" using l' snds by (simp add: layout_new_def)
  have li: "length idx = length t" using in_bounds_length[OF b] sh by simp
  have "in_bounds (take pad idx @ drop pad idx) (take pad t @ drop pad t)" using b sh by simp
  then have b': "in_bounds (drop pad idx) (drop pad t)"
    using li by (subst (asm) in_bounds_append) auto
  have "dot idx (strides l') = dot (take pad idx @ drop pad idx) (replicate pad 0 @ ?ss)"
    by (simp add: l' layout_new_def)
  also have "\<dots> = dot (take pad idx) (replicate pad 0) + dot (drop pad idx) ?ss"
    using li pl by (intro dot_append) simp
  finally have "dot idx (strides l') = dot (drop pad idx) ?ss" by simp
  with broadcast_index[OF lens ok b'] show "in_bounds (broadcast_pull t l idx) (shape l) \<and>
    offset l' + dot idx (strides l') = offset l + dot (broadcast_pull t l idx) (strides l)"
    by (simp add: broadcast_pull_def pad_def[symmetric] Let_def l' layout_new_def)
qed

text \<open>\<open>reshape\<close> and \<open>flatten\<close> renumber a row-major block: the element keeps its rank.\<close>

lemma signed_pos: "0 < unat (x :: 64 word) \<Longrightarrow> unat x < 2 ^ 63 \<Longrightarrow> 0 <s x"
proof -
  assume a: "0 < unat x" and b: "unat x < 2 ^ 63"
  have u: "uint x = int (unat x)" by simp
  have "int (unat x) < int (2 ^ 63)" using b by (simp only: of_nat_less_iff)
  then have "uint x < 2 ^ 63" by (simp only: u of_nat_power of_nat_numeral)
  then have "signed_take_bit (LENGTH(64) - Suc 0) (uint x) = uint x"
    by (intro signed_take_bit_int_eq_self) (simp_all add: order_trans[OF _ uint_ge_0])
  then have "sint x = uint x" by (simp only: sint_uint)
  with a u have "0 < sint x" by linarith
  then show ?thesis by (simp add: word_sless_alt)
qed

lemma offset_to_index_loop_correct:
  assumes "elems shp < 2 ^ 63" and "0 \<notin> set shp" and "unat k < elems shp"
  shows "in_bounds (offset_to_index_loop (compute_contiguous_strides shp) k) shp \<and>
    dot (offset_to_index_loop (compute_contiguous_strides shp) k) (compute_contiguous_strides shp) = k"
  using assms
proof (induction shp arbitrary: k)
  case Nil
  then show ?case by (simp add: unat_eq_0)
next
  case (Cons d ds)
  have d: "0 < unat d" using Cons.prems by (simp add: unat_gt_0)
  then have le: "elems ds \<le> elems (d # ds)" by simp
  have small: "elems ds < 2 ^ 63" using le Cons.prems(1) by (rule le_less_trans)
  let ?P = "prod_list ds"
  have P: "unat ?P = elems ds" using unat_prod_list[of ds] small Cons.prems by simp
  have pos: "0 < elems ds" using Cons.prems(3) by (cases "elems ds") auto
  have s: "0 <s ?P" by (rule signed_pos) (use P pos small in auto)
  have q: "k div ?P < d"
    using Cons.prems(3) P by (simp add: word_less_nat_alt unat_div less_mult_imp_div_less)
  have "unat (k mod ?P) < elems ds" using P pos by (simp add: unat_mod)
  then have "in_bounds (offset_to_index_loop (compute_contiguous_strides ds) (k mod ?P)) ds"
    and "dot (offset_to_index_loop (compute_contiguous_strides ds) (k mod ?P)) (compute_contiguous_strides ds)
      = k mod ?P"
    using Cons.IH[of "k mod ?P"] Cons.prems(2) small by auto
  with s q show ?case by (simp add: div_mult_mod_eq)
qed

lemma contiguous_dot:
  assumes "wf_layout l" and "layout_is_contiguous l" and "in_bounds idx (shape l)"
  shows "dot idx (strides l) = dot idx (compute_contiguous_strides (shape l))"
proof -
  have gen: "length shp = length ss \<Longrightarrow> length ss = length es \<Longrightarrow>
      list_all (\<lambda>(s, a, e). s = 1 \<or> a = e) (zip shp (zip ss es)) \<Longrightarrow> in_bounds idx shp \<Longrightarrow>
      dot idx ss = dot idx es" for shp ss es and idx :: "usize list"
  proof (induction shp ss es arbitrary: idx rule: list_induct3)
    case (Cons s shp a ss e es)
    then obtain i idx' where "idx = i # idx'" by (cases idx) auto
    with Cons show ?case by (auto simp: word_less_nat_alt unat_eq_0)
  qed simp
  consider "shape l = []" | "strides l = compute_contiguous_strides (shape l)"
    | "list_all (\<lambda>(s, a, e). s = 1 \<or> a = e)
        (zip (shape l) (zip (strides l) (compute_contiguous_strides (shape l))))"
    using assms(2) by (auto simp: layout_is_contiguous_def layout_is_scalar_def Let_def split: if_splits)
  then show ?thesis
  proof cases
    case 1
    with assms(1) show ?thesis by (simp add: wf_layout_def)
  next
    case 3
    show ?thesis by (rule gen[OF _ _ 3 assms(3)]) (use assms(1) in \<open>simp_all add: wf_layout_def\<close>)
  qed simp
qed

definition reshape_ok :: "usize list \<Rightarrow> layout \<Rightarrow> bool" where
  "reshape_ok new_shape l \<longleftrightarrow> elems (shape l) < 2 ^ 63 \<and> elems new_shape < 2 ^ 63"

definition reshape_pull :: "usize list \<Rightarrow> layout \<Rightarrow> usize list \<Rightarrow> usize list" where
  "reshape_pull new_shape l idx =
     offset_to_index_loop (compute_contiguous_strides (shape l))
       (dot idx (compute_contiguous_strides new_shape))"

lemma prod_list_no_zero:
  assumes "elems shp < 2 ^ 64" and "unat (prod_list shp) \<noteq> 0"
  shows "0 \<notin> set shp \<and> unat (prod_list shp) = elems shp"
proof -
  have "0 \<in> set shp \<Longrightarrow> prod_list shp = 0" by (induction shp) auto
  with assms have "0 \<notin> set shp" by auto
  with unat_prod_list[OF assms(1)] show ?thesis by simp
qed

interpretation reshape_view: view_op
  "\<lambda>n l. layout_reshape l n" reshape_ok reshape_pull
proof
  fix l n l' assume "wf_layout l" "layout_reshape l n = Some l'"
  then show "wf_layout l'"
    by (auto simp: layout_reshape_def wf_layout_def split: if_splits)
next
  fix l n l' idx
  assume wf: "wf_layout l" and ok: "reshape_ok n l" and st: "layout_reshape l n = Some l'"
    and b: "in_bounds idx (shape l')"
  from st have c: "layout_is_contiguous l" and pr: "prod_list n = prod_list (shape l)"
    and l': "l' = \<lparr>shape = n, strides = compute_contiguous_strides n, offset = offset l\<rparr>"
    by (auto simp: layout_reshape_def layout_elem_count_def split: if_splits)
  have small: "elems n < 2 ^ 64" "elems (shape l) < 2 ^ 64" "elems (shape l) < 2 ^ 63"
    using ok by (auto simp: reshape_ok_def)
  have bn: "in_bounds idx n" using b l' by simp
  let ?k = "dot idx (compute_contiguous_strides n)"
  have k: "unat ?k < elems n" by (rule unat_dot_cstrides[OF bn small(1)])
  have pn: "unat (prod_list n) = elems n" by (rule unat_prod_list[OF small(1) in_bounds_no_zero[OF bn]])
  have nz: "0 \<notin> set (shape l)" and ps: "unat (prod_list (shape l)) = elems (shape l)"
    using prod_list_no_zero[OF small(2)] pr pn k by auto
  have "unat ?k < elems (shape l)" using k pn ps pr by simp
  from offset_to_index_loop_correct[OF small(3) nz this]
  have ib: "in_bounds (reshape_pull n l idx) (shape l)"
    and dt: "dot (reshape_pull n l idx) (compute_contiguous_strides (shape l)) = ?k"
    by (auto simp: reshape_pull_def)
  show "in_bounds (reshape_pull n l idx) (shape l) \<and>
    offset l' + dot idx (strides l') = offset l + dot (reshape_pull n l idx) (strides l)"
    using ib dt contiguous_dot[OF wf c ib] by (simp add: l')
qed

end
