(* ===== verification/Layout_Safety.thy ===== *)
theory Layout_Safety
  imports Layout_Views
begin

text \<open>
  Memory safety of views and the other laws of the layout component: the view obtained by
  \<open>flatten\<close>, chains of view calls and the addresses they reach, the calls whose unchecked arithmetic
  reaches further, the row-major round trip, double flips and broadcasting.
\<close>

section \<open>Flattening a block of axes\<close>

lemma map_nth_upt: "n \<le> length xs \<Longrightarrow> map ((!) xs) [m..<n] = drop m (take n xs)"
  by (rule nth_equalityI) auto

lemma cstrides_scale:
  assumes "length ds = length ss" and "ds \<noteq> []"
    and "\<And>i. i < length ss - 1 \<Longrightarrow> ss ! i = ss ! (i + 1) * ds ! (i + 1)" and "last ss = k"
  shows "ss = map (\<lambda>c. c * k) (compute_contiguous_strides ds)"
  using assms
proof (induction ds ss rule: list_induct2)
  case (Cons d ds s ss)
  show ?case
  proof (cases ds)
    case Nil
    with Cons show ?thesis by simp
  next
    case d1: (Cons d' ds')
    have "ss \<noteq> []" using Cons.hyps d1 by auto
    have "ss ! i = ss ! (i + 1) * ds ! (i + 1)" if "i < length ss - 1" for i
      using Cons.prems(2)[of "Suc i"] that by simp
    moreover have "last ss = k" using Cons.prems(3) \<open>ss \<noteq> []\<close> by simp
    ultimately have IH: "ss = map (\<lambda>c. c * k) (compute_contiguous_strides ds)"
      using Cons.IH d1 by blast
    have "s = ss ! 0 * ds ! 0" using Cons.prems(2)[of 0] \<open>ss \<noteq> []\<close> by simp
    also have "ss ! 0 = prod_list ds' * k" by (subst IH) (simp add: d1)
    finally have "s = prod_list ds * k" by (simp add: d1 mult_ac)
    with IH show ?thesis by (simp only: cstrides_simps list.map)
  qed
qed simp

lemma dot_scale: "dot idx (map (\<lambda>c. c * k) ss) = dot idx ss * k"
proof (induction ss arbitrary: idx)
  case (Cons s ss)
  then show ?case by (cases idx) (auto simp: algebra_simps)
qed simp

definition flatten_ok :: "nat \<times> nat \<Rightarrow> layout \<Rightarrow> bool" where
  "flatten_ok p l \<longleftrightarrow> elems (drop (fst p) (take (Suc (snd p)) (shape l))) < 2 ^ 63"

definition flatten_pull :: "nat \<times> nat \<Rightarrow> layout \<Rightarrow> usize list \<Rightarrow> usize list" where
  "flatten_pull p l idx =
     take (fst p) idx
     @ offset_to_index_loop (compute_contiguous_strides (drop (fst p) (take (Suc (snd p)) (shape l))))
         (idx ! fst p)
     @ drop (Suc (fst p)) idx"

lemma split3: "m \<le> n \<Longrightarrow> xs = take m xs @ drop m (take n xs) @ drop n xs"
proof -
  assume "m \<le> n"
  then have "take m (take n xs) = take m xs" by (simp add: min_def)
  then show ?thesis by (metis append_assoc append_take_drop_id)
qed

lemma flatten_Some:
  assumes wf: "wf_layout l" and st: "layout_flatten l s e = Some l'"
  shows "s \<le> e" and "e < length (shape l)"
    and "l' = layout_new
          (take s (shape l) @ prod_list (drop s (take (Suc e) (shape l))) # drop (Suc e) (shape l))
          (take s (strides l) @ strides l ! e # drop (Suc e) (strides l)) (offset l)"
    and "drop s (take (Suc e) (strides l)) = map (\<lambda>c. c * strides l ! e)
          (compute_contiguous_strides (drop s (take (Suc e) (shape l))))"
proof -
  have len: "length (strides l) = length (shape l)" using wf by (simp add: wf_layout_def)
  show se: "s \<le> e" and e: "e < length (shape l)"
    using st by (auto simp: layout_flatten_def layout_ndim_def split: if_splits)
  have "map ((!) xs) [Suc e..<length (shape l)] = drop (Suc e) xs"
    if "length xs = length (shape l)" for xs :: "usize list"
    using map_nth_upt[of "length (shape l)" xs "Suc e"] that by simp
  moreover have "map ((!) xs) [0..<s] = take s xs" if "length xs = length (shape l)" for xs :: "usize list"
    using map_nth_upt[of s xs 0] that se e by simp
  moreover have "map ((!) xs) ([s..<e] @ [e]) = drop s (take (Suc e) xs)"
    if "length xs = length (shape l)" for xs :: "usize list"
    using map_nth_upt[of "Suc e" xs s] that se e by simp
  ultimately show "l' = layout_new
          (take s (shape l) @ prod_list (drop s (take (Suc e) (shape l))) # drop (Suc e) (shape l))
          (take s (strides l) @ strides l ! e # drop (Suc e) (strides l)) (offset l)"
    using st se e len by (simp add: layout_flatten_def layout_ndim_def Let_def split: if_splits)
  let ?ds = "drop s (take (Suc e) (shape l))" and ?ss = "drop s (take (Suc e) (strides l))"
  have "?ss ! i = ?ss ! (i + 1) * ?ds ! (i + 1)" if "i < length ?ss - 1" for i
  proof -
    have "s + i \<in> set [s..<e]" using that se e len by auto
    moreover have "\<forall>j \<in> set [s..<e]. strides l ! j = strides l ! (j + 1) * shape l ! (j + 1)"
      using st by (auto simp: layout_flatten_def list_ex_iff split: if_splits)
    ultimately have "strides l ! (s + i) = strides l ! (s + i + 1) * shape l ! (s + i + 1)" by blast
    then show ?thesis using that se e len by (simp add: add.assoc)
  qed
  moreover have "last ?ss = strides l ! e"
    using se e len by (simp add: last_drop last_conv_nth)
  ultimately show "?ss = map (\<lambda>c. c * strides l ! e) (compute_contiguous_strides ?ds)"
    by (intro cstrides_scale) (use se e len in auto)
qed

lemma in_bounds_take_drop:
  "in_bounds idx (xs @ d # ys) \<Longrightarrow>
   in_bounds (take (length xs) idx) xs \<and> idx ! length xs < d \<and> in_bounds (drop (Suc (length xs)) idx) ys
   \<and> idx = take (length xs) idx @ idx ! length xs # drop (Suc (length xs)) idx"
proof -
  assume b: "in_bounds idx (xs @ d # ys)"
  then have l: "length xs < length idx" using in_bounds_length[OF b] by simp
  then have e: "idx = take (length xs) idx @ idx ! length xs # drop (Suc (length xs)) idx"
    by (rule id_take_nth_drop)
  with b have "in_bounds (take (length xs) idx @ idx ! length xs # drop (Suc (length xs)) idx) (xs @ d # ys)"
    by simp
  then show ?thesis using e l by (subst (asm) in_bounds_append) auto
qed

interpretation flatten_view: view_op
  "\<lambda>p l. layout_flatten l (fst p) (snd p)" flatten_ok flatten_pull
proof
  fix l p l' assume "wf_layout l" "layout_flatten l (fst p) (snd p) = Some l'"
  from flatten_Some[OF this] this(1) show "wf_layout l'"
    by (auto simp: wf_layout_def layout_new_def)
next
  fix l l' idx and p :: "nat \<times> nat"
  assume wf: "wf_layout l" and ok: "flatten_ok p l"
    and st: "layout_flatten l (fst p) (snd p) = Some l'" and b: "in_bounds idx (shape l')"
  obtain s e where p: "p = (s, e)" by (cases p)
  note f = flatten_Some[OF wf st, unfolded p fst_conv snd_conv]
  have lens: "length (strides l) = length (shape l)" using wf by (simp add: wf_layout_def)
  let ?ds = "drop s (take (Suc e) (shape l))"
  let ?o = "offset_to_index_loop (compute_contiguous_strides ?ds) (idx ! s)"
  have ls: "length (take s (shape l)) = s" using f(1,2) by simp
  have "in_bounds idx (take s (shape l) @ prod_list ?ds # drop (Suc e) (shape l))"
    using b f(3) by (simp add: layout_new_def)
  from in_bounds_take_drop[OF this, unfolded ls]
  have b1: "in_bounds (take s idx) (take s (shape l))" and b2: "idx ! s < prod_list ?ds"
    and b3: "in_bounds (drop (Suc s) idx) (drop (Suc e) (shape l))"
    and eq: "idx = take s idx @ idx ! s # drop (Suc s) idx" by auto
  have small: "elems ?ds < 2 ^ 63" using ok p by (simp add: flatten_ok_def)
  have "unat (prod_list ?ds) \<noteq> 0" using b2 by (auto simp: unat_eq_0)
  with prod_list_no_zero[of ?ds] small
  have nz: "0 \<notin> set ?ds" and pe: "unat (prod_list ?ds) = elems ?ds" by auto
  have "unat (idx ! s) < elems ?ds" using b2 pe by (simp add: word_less_nat_alt)
  from offset_to_index_loop_correct[OF small nz this]
  have o1: "in_bounds ?o ?ds" and o2: "dot ?o (compute_contiguous_strides ?ds) = idx ! s" by auto
  have parts: "shape l = take s (shape l) @ ?ds @ drop (Suc e) (shape l)"
    "strides l = take s (strides l) @ drop s (take (Suc e) (strides l)) @ drop (Suc e) (strides l)"
    using f(1) by (auto intro: split3)
  have l1: "length (take s idx) = length (take s (shape l))" "length ?o = length ?ds"
    using in_bounds_length[OF b1] in_bounds_length[OF o1] by auto
  have ib: "in_bounds (flatten_pull p l idx) (shape l)"
    by (subst parts(1)) (use b1 b3 o1 l1 in \<open>simp add: flatten_pull_def p in_bounds_append\<close>)
  have "dot idx (strides l') = dot (take s idx @ idx ! s # drop (Suc s) idx)
      (take s (strides l) @ strides l ! e # drop (Suc e) (strides l))"
    using eq f(3) by (simp add: layout_new_def)
  also have "\<dots> = dot (take s idx) (take s (strides l)) + (idx ! s * strides l ! e
      + dot (drop (Suc s) idx) (drop (Suc e) (strides l)))"
    using l1 lens by (simp add: dot_append)
  also have "idx ! s * strides l ! e = dot ?o (drop s (take (Suc e) (strides l)))"
    unfolding f(4) dot_scale o2 ..
  also have "dot (take s idx) (take s (strides l)) + (\<dots> + dot (drop (Suc s) idx) (drop (Suc e) (strides l)))
     = dot (flatten_pull p l idx) (strides l)"
    by (subst (4) parts(2)) (use l1 lens in \<open>simp add: flatten_pull_def p dot_append\<close>)
  finally show "in_bounds (flatten_pull p l idx) (shape l) \<and>
    offset l' + dot idx (strides l') = offset l + dot (flatten_pull p l idx) (strides l)"
    using ib f(3) by (simp add: layout_new_def)
qed

section \<open>Chains of views\<close>

text \<open>
  A call of a view operation with its arguments, and what the code answers: \<open>apply_view\<close> is exactly the
  code's acceptance, and a chain of calls stops at the first refusal.
\<close>

datatype view_call =
    V_transpose int int | V_transpose_axes nat nat | V_t | V_permute "nat list"
  | V_narrow nat usize usize | V_flip int | V_flip_dims "int list"
  | V_squeeze "int option" | V_squeeze_all | V_squeeze_dim nat | V_unsqueeze int | V_unsqueeze_at nat
  | V_broadcast_to "usize list" | V_reshape "usize list" | V_flatten nat nat

fun apply_view :: "view_call \<Rightarrow> layout \<Rightarrow> layout option" where
  "apply_view (V_transpose i j) l = layout_transpose l i j"
| "apply_view (V_transpose_axes m n) l = layout_transpose_axes l m n"
| "apply_view V_t l = layout_t l"
| "apply_view (V_permute dims) l = layout_permute l dims"
| "apply_view (V_narrow n start len) l = layout_narrow l n start len"
| "apply_view (V_flip i) l = layout_flip l i"
| "apply_view (V_flip_dims is) l = layout_flip_dims l is"
| "apply_view (V_squeeze d) l = Some (layout_squeeze l d)"
| "apply_view V_squeeze_all l = Some (layout_squeeze_all l)"
| "apply_view (V_squeeze_dim n) l = layout_squeeze_dim l n"
| "apply_view (V_unsqueeze i) l = layout_unsqueeze l i"
| "apply_view (V_unsqueeze_at n) l = layout_unsqueeze_at l n"
| "apply_view (V_broadcast_to target) l = layout_broadcast_to l target"
| "apply_view (V_reshape shp) l = layout_reshape l shp"
| "apply_view (V_flatten m n) l = layout_flatten l m n"

definition apply_views :: "view_call list \<Rightarrow> layout \<Rightarrow> layout option" where
  "apply_views = foldM apply_view"

text \<open>
  Three checks of the code are made in wrapping \<open>usize\<close> arithmetic: \<open>start + length\<close> in \<open>narrow\<close>, and the element
  counts that \<open>reshape\<close> compares and \<open>flatten\<close> multiplies. \<open>call_exact\<close> says that the call at hand wraps none of
  them. It is a condition on the caller, not a check of the code: \<open>wrapped_calls_escape\<close> below shows two accepted
  calls that break it and leave the buffer.
\<close>

fun call_exact :: "view_call \<Rightarrow> layout \<Rightarrow> bool" where
  "call_exact (V_narrow n start len) l \<longleftrightarrow> unat start + unat len < 2 ^ 64"
| "call_exact (V_reshape shp) l \<longleftrightarrow> elems (shape l) < 2 ^ 63 \<and> elems shp < 2 ^ 63"
| "call_exact (V_flatten m n) l \<longleftrightarrow> elems (drop m (take (Suc n) (shape l))) < 2 ^ 63"
| "call_exact _ l \<longleftrightarrow> True"

fun calls_exact :: "view_call list \<Rightarrow> layout \<Rightarrow> bool" where
  "calls_exact [] l \<longleftrightarrow> True"
| "calls_exact (c # cs) l \<longleftrightarrow> call_exact c l \<and> (case apply_view c l of None \<Rightarrow> True | Some l' \<Rightarrow> calls_exact cs l')"

lemma flip_dims_safe:
  "wf_layout l \<Longrightarrow> layout_flip_dims l is = Some l' \<Longrightarrow> wf_layout l' \<and> addresses l' \<subseteq> addresses l"
proof (induction "is" arbitrary: l)
  case (Cons i "is")
  then obtain r where r: "layout_flip l i = Some r" "layout_flip_dims r is = Some l'"
    by (auto split: option.splits)
  have "wf_layout r" "addresses r \<subseteq> addresses l"
    using Cons.prems(1) r(1) flip_view.step_wf flip_view.addresses_subset by blast+
  with Cons.IH[OF _ r(2)] show ?case by blast
qed simp

lemma apply_view_safe:
  "apply_view c l = Some l' \<Longrightarrow> call_exact c l \<Longrightarrow> wf_layout l \<Longrightarrow> wf_layout l' \<and> addresses l' \<subseteq> addresses l"
proof (induction c l rule: apply_view.induct)
  case (1 i j l)
  then show ?case
    using transpose_view.step_wf[of l "(i, j)" l'] transpose_view.addresses_subset[of l "(i, j)" l'] by simp
next
  case (2 m n l)
  then show ?case
    using transpose_axes_view.step_wf[of l "(m, n)" l'] transpose_axes_view.addresses_subset[of l "(m, n)" l']
    by simp
next
  case (3 l)
  let ?p = "(layout_ndim l - 2, layout_ndim l - 1)"
  from 3 have "layout_transpose_axes l (fst ?p) (snd ?p) = Some l'"
    by (auto simp: layout_t_def Let_def split: if_splits)
  with 3 transpose_axes_view.step_wf[of l ?p l'] transpose_axes_view.addresses_subset[of l ?p l']
  show ?case by simp
next
  case (4 dims l)
  then show ?case using permute_view.step_wf[of l dims l'] permute_view.addresses_subset[of l dims l'] by simp
next
  case (5 n start len l)
  then show ?case
    using narrow_view.step_wf[of l "(n, start, len)" l'] narrow_view.addresses_subset[of l "(n, start, len)" l']
    by (simp add: narrow_ok_def)
next
  case (6 i l)
  then show ?case using flip_view.step_wf[of l i l'] flip_view.addresses_subset[of l i l'] by simp
next
  case (7 "is" l)
  then show ?case using flip_dims_safe[of l "is" l'] by simp
next
  case (8 d l)
  then show ?case using squeeze_view.step_wf[of l d l'] squeeze_view.addresses_subset[of l d l'] by simp
next
  case (9 l)
  then show ?case
    using squeeze_view.step_wf[of l None l'] squeeze_view.addresses_subset[of l None l']
    by (simp add: layout_squeeze_all_def)
next
  case (10 n l)
  then show ?case using squeeze_dim_view.step_wf[of l n l'] squeeze_dim_view.addresses_subset[of l n l'] by simp
next
  case (11 i l)
  then show ?case using unsqueeze_view.step_wf[of l i l'] unsqueeze_view.addresses_subset[of l i l'] by simp
next
  case (12 n l)
  then show ?case
    using unsqueeze_at_view.step_wf[of l n l'] unsqueeze_at_view.addresses_subset[of l n l'] by simp
next
  case (13 target l)
  then show ?case
    using broadcast_view.step_wf[of l target l'] broadcast_view.addresses_subset[of l target l'] by simp
next
  case (14 shp l)
  then show ?case
    using reshape_view.step_wf[of l shp l'] reshape_view.addresses_subset[of l shp l']
    by (simp add: reshape_ok_def)
next
  case (15 m n l)
  then show ?case
    using flatten_view.step_wf[of l "(m, n)" l'] flatten_view.addresses_subset[of l "(m, n)" l']
    by (simp add: flatten_ok_def)
qed

lemma apply_views_safe:
  "apply_views cs l = Some l' \<Longrightarrow> calls_exact cs l \<Longrightarrow> wf_layout l \<Longrightarrow>
   wf_layout l' \<and> addresses l' \<subseteq> addresses l"
proof (induction cs arbitrary: l)
  case Nil
  then show ?case by (simp add: apply_views_def)
next
  case (Cons c cs)
  then obtain m where m: "apply_view c l = Some m" and r: "apply_views cs m = Some l'"
    by (auto simp: apply_views_def split: option.splits)
  with Cons.prems have "wf_layout m \<and> addresses m \<subseteq> addresses l" "calls_exact cs m"
    using apply_view_safe[OF m] by auto
  with Cons.IH[OF r] show ?case by blast
qed

lemma wf_contiguous [simp]: "wf_layout (layout_contiguous shp)"
  by (simp add: wf_layout_def layout_contiguous_def)

text \<open>
  C1. Memory safety of views. Take a tensor freshly allocated for \<open>shp\<close> (fewer than \<open>2^63\<close>
  elements), and any chain of view operations (transposes, permutations, slices, flips, squeezes,
  unsqueezes, broadcasts, reshapes, flattens) that the code accepts, in which no \<open>narrow\<close> has a \<open>start + length\<close>
  that overflows \<open>usize\<close> and no \<open>reshape\<close> or \<open>flatten\<close> handles a shape of \<open>2^63\<close> or more elements (the code checks
  neither, see \<open>wrapped_calls_escape\<close>). Every element of the resulting layout, and only an element inside its shape,
  has an address, and that address lies inside the buffer of the original tensor.
\<close>

theorem views_stay_in_buffer:
  assumes "elems shp < 2 ^ 63" and "apply_views calls (layout_contiguous shp) = Some l"
    and "calls_exact calls (layout_contiguous shp)"
  shows "in_bounds idx (shape l) \<longleftrightarrow> (\<exists>a. layout_index l idx = Some a \<and> unat a < elems shp)"
proof -
  have sub: "addresses l \<subseteq> addresses (layout_contiguous shp)"
    using apply_views_safe[OF assms(2,3)] by simp
  have bnd: "unat a < elems shp" if a: "a \<in> addresses (layout_contiguous shp)" for a
  proof -
    from a obtain i where "in_bounds i shp" "a = dot i (compute_contiguous_strides shp)"
      by (auto simp: addresses_def layout_index_eq layout_contiguous_def split: if_splits)
    with assms(1) show ?thesis using unat_dot_cstrides[of i shp] by simp
  qed
  show ?thesis
  proof
    assume b: "in_bounds idx (shape l)"
    then obtain a where a: "layout_index l idx = Some a" by (simp add: layout_index_eq)
    then have "a \<in> addresses l" by (auto simp: addresses_def)
    with sub bnd a show "\<exists>a. layout_index l idx = Some a \<and> unat a < elems shp" by blast
  next
    assume "\<exists>a. layout_index l idx = Some a \<and> unat a < elems shp"
    then show "in_bounds idx (shape l)" by (auto simp: layout_index_eq split: if_splits)
  qed
qed

lemma views_stay_in_buffer_witness:
  "in_bounds [2, 1] [3, 2] \<longleftrightarrow>
   (\<exists>a. layout_index \<lparr>shape = [3, 2], strides = [-1, 4], offset = 2\<rparr> [2, 1] = Some a \<and> unat a < elems [2, 4])"
proof -
  let ?cs = "[V_flip 1, V_narrow 1 1 3, V_transpose (-2) 1]"
  have "apply_views ?cs (layout_contiguous [2, 4]) = Some \<lparr>shape = [3, 2], strides = [-1, 4], offset = 2\<rparr>"
    by code_simp
  moreover have "apply_view (V_flip 1) (layout_contiguous [2, 4]) = Some \<lparr>shape = [2, 4], strides = [4, -1], offset = 3\<rparr>"
    by code_simp
  then have "calls_exact ?cs (layout_contiguous [2, 4])" by (simp split: option.split)
  ultimately show ?thesis using views_stay_in_buffer[of "[2, 4]" ?cs _ "[2, 1]"] by fastforce
qed

text \<open>
  Without the condition the property fails on accepted calls. \<open>narrow(0, 1, usize::MAX)\<close> of four elements passes the
  check because \<open>1 + usize::MAX\<close> wraps to 0, and the view it returns has addresses far behind the buffer. A reshape
  of an empty tensor to \<open>2^32 * 2^32\<close> elements passes because that product wraps to 0. (Both in a release build; a
  debug build panics on the overflow.)
\<close>

lemma wrapped_calls_escape:
  "(\<exists>l. apply_views [V_narrow 0 1 (- 1)] (layout_contiguous [4]) = Some l \<and> layout_index l [99] = Some 100) \<and>
   (\<exists>l. apply_views [V_reshape [4294967296, 4294967296]] (layout_contiguous [0]) = Some l \<and> layout_index l [0, 7] = Some 7)"
proof
  have "apply_views [V_narrow 0 1 (- 1)] (layout_contiguous [4]) = Some \<lparr>shape = [- 1], strides = [1], offset = 1\<rparr>"
    by code_simp
  moreover have "layout_index \<lparr>shape = [- 1], strides = [1], offset = 1\<rparr> [99] = Some 100" by code_simp
  ultimately show "\<exists>l. apply_views [V_narrow 0 1 (- 1)] (layout_contiguous [4]) = Some l \<and> layout_index l [99] = Some 100"
    by blast
  have "apply_views [V_reshape [4294967296, 4294967296]] (layout_contiguous [0])
      = Some \<lparr>shape = [4294967296, 4294967296], strides = [4294967296, 1], offset = 0\<rparr>" by code_simp
  moreover have "layout_index \<lparr>shape = [4294967296, 4294967296], strides = [4294967296, 1], offset = 0\<rparr> [0, 7] = Some 7"
    by code_simp
  ultimately show "\<exists>l. apply_views [V_reshape [4294967296, 4294967296]] (layout_contiguous [0]) = Some l \<and> layout_index l [0, 7] = Some 7"
    by blast
qed

section \<open>Rank and index\<close>

lemma div_mod_rank:
  fixes i p r :: "64 word"
  assumes "unat i * unat p + unat r < 2 ^ 64" and "unat r < unat p"
  shows "(i * p + r) div p = i" and "(i * p + r) mod p = r"
proof -
  have "unat (i * p + r) = unat i * unat p + unat r"
    using assms(1) by (simp add: unat_word_ariths)
  moreover have "(unat i * unat p + unat r) div unat p = unat i"
    "(unat i * unat p + unat r) mod unat p = unat r" using assms(2) by auto
  ultimately show "(i * p + r) div p = i" and "(i * p + r) mod p = r"
    by (simp_all only: word_unat_eq_iff unat_div_distrib unat_mod_distrib)
qed

lemma offset_to_index_of_dot:
  "in_bounds idx shp \<Longrightarrow> elems shp < 2 ^ 63 \<Longrightarrow>
   offset_to_index_loop (compute_contiguous_strides shp) (dot idx (compute_contiguous_strides shp)) = idx"
proof (induction idx shp rule: list_induct2')
  case (4 i idx d ds)
  then have id: "unat i < unat d" and b: "in_bounds idx ds" by (auto simp: word_less_nat_alt)
  have le: "elems ds \<le> elems (d # ds)" using id by simp
  have small: "elems ds < 2 ^ 63" using le 4(3) by (rule le_less_trans)
  let ?r = "dot idx (compute_contiguous_strides ds)"
  have r: "unat ?r < elems ds" by (rule unat_dot_cstrides[OF b]) (use small in simp)
  have p: "unat (prod_list ds) = elems ds"
    by (rule unat_prod_list[OF _ in_bounds_no_zero[OF b]]) (use small in simp)
  have "Suc (unat i) * elems ds \<le> unat d * elems ds" using id by (intro mult_le_mono) auto
  then have "unat i * unat (prod_list ds) + unat ?r < 2 ^ 64" using r p 4(3) by simp
  note dm = div_mod_rank[OF this] and s = signed_pos[of "prod_list ds"]
  show ?case using dm s r p small "4.IH"[OF b small] by simp
qed auto

text \<open>
  C2. Row-major round trip. In a freshly allocated tensor with fewer than \<open>2^63\<close> elements,
  \<open>offset_to_index\<close> and \<open>index\<close> are inverse to each other: index \<open>idx\<close> has address \<open>k\<close> exactly
  when \<open>k\<close> decodes to \<open>idx\<close>. In particular no two elements share an address, and both agree on
  which offsets and which indices are out of range.
\<close>

theorem index_offset_roundtrip:
  assumes "elems shp < 2 ^ 63"
  shows "layout_index (layout_contiguous shp) idx = Some k \<longleftrightarrow>
         layout_offset_to_index (layout_contiguous shp) k = Some idx"
proof
  let ?c = "compute_contiguous_strides shp"
  have lt: "elems shp < 2 ^ 64" using assms by simp
  have cont: "layout_is_contiguous (layout_contiguous shp)"
    by (simp add: layout_is_contiguous_def layout_contiguous_def Let_def)
  {
    assume "layout_index (layout_contiguous shp) idx = Some k"
    then have b: "in_bounds idx shp" and k: "k = dot idx ?c"
      by (auto simp: layout_index_eq layout_contiguous_def split: if_splits)
    have "unat k < unat (prod_list shp)"
      using unat_dot_cstrides[OF b lt] unat_prod_list[OF lt in_bounds_no_zero[OF b]] k by simp
    then show "layout_offset_to_index (layout_contiguous shp) k = Some idx"
      using cont offset_to_index_of_dot[OF b assms] k
      by (simp add: layout_offset_to_index_def layout_elem_count_def layout_contiguous_def
          word_le_nat_alt)
  next
    assume "layout_offset_to_index (layout_contiguous shp) k = Some idx"
    then have lt2: "k < prod_list shp" and idx: "idx = offset_to_index_loop ?c k"
      by (auto simp: layout_offset_to_index_def layout_elem_count_def layout_contiguous_def
          split: if_splits)
    have "unat (prod_list shp) \<noteq> 0" using lt2 by (auto simp: unat_eq_0)
    with prod_list_no_zero[OF lt] lt2 have "0 \<notin> set shp" "unat k < elems shp"
      by (auto simp: word_less_nat_alt)
    from offset_to_index_loop_correct[OF assms this] idx
    show "layout_index (layout_contiguous shp) idx = Some k"
      by (simp add: layout_index_eq layout_contiguous_def)
  }
qed

lemma index_offset_roundtrip_witness:
  "layout_index (layout_contiguous [2, 3]) [1, 2] = Some 5 \<longleftrightarrow>
   layout_offset_to_index (layout_contiguous [2, 3]) 5 = Some [1, 2]"
  by (rule index_offset_roundtrip) simp

section \<open>Double flips\<close>

text \<open>
  \<open>flip\<close> is an involution. When the layout's offset is a valid \<open>isize\<close> and the code accepts the
  flip of an axis, then flipping the result along the same axis is accepted too (none of its checked
  multiplications and additions overflows) and gives the original layout back.
\<close>

theorem flip_flip:
  assumes wf: "wf_layout l" and off: "0 \<le>s offset l" and st: "layout_flip l d = Some l'"
  shows "layout_flip l' d = Some l"
proof -
  from st obtain i where i: "layout_normalize_dim l d = Some i"
    by (auto simp: layout_flip_def split: Option.bind_splits)
  note il = normalize_dim_less[OF i]
  show ?thesis
  proof (cases "shape l ! i \<le> 1")
    case True
    with st i show ?thesis by (auto simp: layout_flip_def)
  next
    case False
    let ?n = "shape l ! i - 1" and ?s = "strides l ! i"
    from st i False have fm: "fits_isize (sint ?n * sint ?s)"
      and fa: "fits_isize (sint (offset l) + sint (?n * ?s))"
      and pos: "\<not> offset l + ?n * ?s <s 0"
      and l': "l' = layout_new (shape l) ((strides l)[i := - ?s]) (offset l + ?n * ?s)"
      by (auto simp: layout_flip_def checked_mul_isize_def checked_add_isize_def Let_def
          split: Option.bind_splits if_splits)
    have m: "sint (?n * ?s) = sint ?n * sint ?s" by (rule sint_mul_exact[OF fm])
    have a: "sint (offset l + ?n * ?s) = sint (offset l) + sint ?n * sint ?s"
      using sint_add_exact[OF fa] m by simp
    have o: "0 \<le> sint (offset l)" using off by (simp add: word_sle_eq)
    have o2: "sint (offset l) < 2 ^ 63" using sint_range_size[of "offset l"] by (simp add: word_size)
    have ap: "0 \<le> sint (offset l) + sint ?n * sint ?s"
      using pos a by (simp add: word_sless_alt)
    have n0: "sint ?n \<noteq> 0"
    proof
      assume "sint ?n = 0"
      then have "?n = 0" by (rule iffD1[OF signed_eq_0_iff])
      with False show False by simp
    qed
    have prod_lb: "- (2 ^ 63) < sint ?n * sint ?s" using ap o2 by linarith
    have s_neq: "sint ?s \<noteq> - (2 ^ 63)"
    proof
      assume s: "sint ?s = - (2 ^ 63)"
      then have "sint ?n < 1" using prod_lb by (simp add: not_le)
      then have "sint ?n \<le> - 1" using n0 by linarith
      with s fm show False by (simp add: fits_isize_def)
    qed
    have neg: "sint (- ?s) = - sint ?s" by (rule sint_minus_exact[OF s_neq])
    have fm': "fits_isize (sint ?n * sint (- ?s))"
      using prod_lb fm by (simp add: neg fits_isize_def)
    have fa': "fits_isize (sint (offset l + ?n * ?s) + sint (?n * - ?s))"
      using o o2 sint_mul_exact[OF fm'] by (simp add: a neg fits_isize_def)
    have "offset l' + ?n * - ?s = offset l" using l' by (simp add: layout_new_def)
    moreover have "layout_normalize_dim l' d = Some i"
      using i l' by (simp add: layout_normalize_dim_def layout_ndim_def layout_new_def)
    moreover have "shape l' = shape l" "strides l' ! i = - ?s" "(strides l')[i := ?s] = strides l"
      "offset l' = offset l + ?n * ?s"
      using l' il wf by (simp_all add: layout_new_def wf_layout_def)
    moreover have "\<not> offset l <s 0" using o by (simp add: word_sless_alt)
    ultimately show ?thesis
      using False fm' fa' by (simp add: layout_flip_def checked_mul_isize_def checked_add_isize_def layout_new_def)
  qed
qed

lemma flip_flip_witness:
  "layout_flip \<lparr>shape = [2, 3], strides = [3, -1], offset = 2\<rparr> 1 = Some (layout_contiguous [2, 3])"
  by (rule flip_flip) code_simp+

section \<open>Broadcast shapes\<close>

text \<open>Dimension \<open>i\<close> counted from the last axis, 1 where the shape has no such axis; and the NumPy
  rule for one pair of dimensions.\<close>

definition rdim :: "usize list \<Rightarrow> nat \<Rightarrow> usize" where
  "rdim xs i = (if i < length xs then xs ! (length xs - 1 - i) else 1)"

definition bdim :: "usize \<Rightarrow> usize \<Rightarrow> usize option" where
  "bdim x y = (if x = y then Some x else if x = 1 then Some y else if y = 1 then Some x else None)"

lemma foldM_fill:
  "m \<le> n \<Longrightarrow>
   foldM (\<lambda>i r. case g i of None \<Rightarrow> None | Some v \<Rightarrow> Some (r[n - 1 - i := v])) [0..<m] (replicate n z) =
     (if \<forall>i<m. g i \<noteq> None
      then Some (map (\<lambda>j. if n - 1 - j < m then the (g (n - 1 - j)) else z) [0..<n]) else None)"
proof (induction m)
  case 0
  then show ?case by (simp add: map_replicate_const)
next
  case (Suc m)
  show ?case
  proof (cases "\<forall>i<m. g i \<noteq> None")
    case False
    then have no: "\<not> (\<forall>i<Suc m. g i \<noteq> None)" using less_SucI by blast
    have "foldM (\<lambda>i r. case g i of None \<Rightarrow> None | Some v \<Rightarrow> Some (r[n - 1 - i := v])) [0..<m] (replicate n z)
        = None" by (rule Suc.IH[OF Suc_leD[OF Suc.prems], unfolded if_not_P[OF False]])
    then show ?thesis by (simp only: if_not_P[OF no] upt_Suc_append[OF le0] foldM_append) simp
  next
    case True
    show ?thesis
    proof (cases "g m")
      case None
      with True Suc show ?thesis by (auto simp: foldM_append)
    next
      case (Some v)
      have "(map (\<lambda>j. if n - 1 - j < m then the (g (n - 1 - j)) else z) [0..<n])[n - 1 - m := v]
          = map (\<lambda>j. if n - 1 - j < Suc m then the (g (n - 1 - j)) else z) [0..<n]"
        using Some Suc.prems by (intro nth_equalityI) (auto simp: nth_list_update less_Suc_eq)
      moreover have "\<forall>i<Suc m. g i \<noteq> None" using True Some by (auto simp: less_Suc_eq)
      ultimately show ?thesis using True Some Suc by (simp add: foldM_append)
    qed
  qed
qed

lemma broadcast_shapes_eq:
  "layout_broadcast_shapes a b =
     (let n = max (length a) (length b)
      in if \<forall>i<n. bdim (rdim a i) (rdim b i) \<noteq> None
         then Some (map (\<lambda>j. the (bdim (rdim a (n - 1 - j)) (rdim b (n - 1 - j)))) [0..<n]) else None)"
proof -
  let ?n = "max (length a) (length b)"
  have "layout_broadcast_shapes a b =
      foldM (\<lambda>i r. case bdim (rdim a i) (rdim b i) of None \<Rightarrow> None | Some v \<Rightarrow> Some (r[?n - 1 - i := v]))
        [0..<?n] (replicate ?n 0)"
    unfolding layout_broadcast_shapes_def Let_def rdim_def bdim_def
    by (rule arg_cong[where f = "\<lambda>f. foldM f [0..<?n] (replicate ?n 0)"]) (auto intro!: ext)
  then show ?thesis
    by (simp only: foldM_fill[OF order_refl] Let_def) (auto intro!: map_cong)
qed

lemma broadcast_shapes_Some:
  "layout_broadcast_shapes a b = Some r \<longleftrightarrow>
     length r = max (length a) (length b) \<and>
     (\<forall>i < length r. bdim (rdim a i) (rdim b i) = Some (rdim r i))" (is "?l \<longleftrightarrow> ?r")
proof -
  let ?n = "max (length a) (length b)"
  let ?f = "\<lambda>j. the (bdim (rdim a (?n - 1 - j)) (rdim b (?n - 1 - j)))"
  have rv: "map ?f [0..<?n] = r \<longleftrightarrow> length r = ?n \<and> (\<forall>i < ?n. rdim r i = the (bdim (rdim a i) (rdim b i)))"
  proof
    assume e: "map ?f [0..<?n] = r"
    then show "length r = ?n \<and> (\<forall>i < ?n. rdim r i = the (bdim (rdim a i) (rdim b i)))"
      by (auto simp: rdim_def[of r])
  next
    assume h: "length r = ?n \<and> (\<forall>i < ?n. rdim r i = the (bdim (rdim a i) (rdim b i)))"
    show "map ?f [0..<?n] = r"
    proof (rule nth_equalityI)
      fix j assume "j < length (map ?f [0..<?n])"
      then have j: "j < ?n" by simp
      then have "rdim r (?n - 1 - j) = ?f j" using h by simp
      with h j show "map ?f [0..<?n] ! j = r ! j" by (simp add: rdim_def[of r])
    qed (use h in simp)
  qed
  have "?l \<longleftrightarrow> (\<forall>i < ?n. bdim (rdim a i) (rdim b i) \<noteq> None) \<and> map ?f [0..<?n] = r"
    by (simp only: broadcast_shapes_eq Let_def) auto
  also have "\<dots> \<longleftrightarrow> ?r" unfolding rv by (metis option.collapse option.discI option.sel)
  finally show ?thesis .
qed

text \<open>
  C3. Broadcast shapes follow the NumPy rule. \<open>broadcast_shapes(a, b)\<close> succeeds with \<open>r\<close> exactly when
  \<open>r\<close> has the larger rank and, axis by axis counted from the last, the two dimensions are equal or one
  of them is 1 (a missing axis counts as 1) and \<open>r\<close> has the one that is not 1.
\<close>

theorem broadcast_shapes_numpy:
  "layout_broadcast_shapes a b = Some r \<longleftrightarrow>
     length r = max (length a) (length b) \<and>
     (\<forall>i < length r. (rdim a i = rdim b i \<or> rdim a i = 1 \<or> rdim b i = 1) \<and>
        rdim r i = (if rdim a i = 1 then rdim b i else rdim a i))"
proof -
  have "bdim x y = Some z \<longleftrightarrow> (x = y \<or> x = 1 \<or> y = 1) \<and> z = (if x = 1 then y else x)" for x y z
    by (auto simp: bdim_def)
  then show ?thesis by (simp only: broadcast_shapes_Some)
qed

lemma broadcast_shapes_numpy_witness:
  "layout_broadcast_shapes [2, 1] [4, 1, 3] = Some [4, 2, 3] \<and> layout_broadcast_shapes [2] [3] \<noteq> Some [3]"
proof
  show "layout_broadcast_shapes [2, 1] [4, 1, 3] = Some [4, 2, 3]"
    by (rule iffD2[OF broadcast_shapes_numpy]) (simp add: rdim_def All_less_Suc eval_nat_numeral)
  show "layout_broadcast_shapes [2] [3] \<noteq> Some [3]"
    by (rule notI, drule iffD1[OF broadcast_shapes_numpy]) (auto simp: rdim_def dest: spec[of _ 0])
qed

lemma broadcast_shapes_commute: "layout_broadcast_shapes a b = layout_broadcast_shapes b a"
proof -
  have c: "bdim x y = bdim y x" for x y by (simp add: bdim_def)
  have m: "max (length a) (length b) = max (length b) (length a)" by (rule max.commute)
  have "layout_broadcast_shapes a b = Some r \<longleftrightarrow> layout_broadcast_shapes b a = Some r" for r
    unfolding broadcast_shapes_Some m by (subst c) (rule refl)
  then show ?thesis by (metis not_Some_eq)
qed

lemma broadcast_operand:
  assumes r: "layout_broadcast_shapes a b = Some r" and l: "shape l = a" and wf: "wf_layout l"
  shows "\<exists>l'. layout_broadcast_to l r = Some l' \<and> shape l' = r \<and> offset l' = offset l"
proof -
  have "bdim x y = Some z \<Longrightarrow> x = 1 \<or> z = x" for x y z by (auto simp: bdim_def split: if_splits)
  with r have len: "length a \<le> length r"
    and ax: "\<And>i. i < length r \<Longrightarrow> rdim a i = 1 \<or> rdim r i = rdim a i"
    unfolding broadcast_shapes_Some by (metis max.cobounded1, metis)
  define pad where "pad = length r - layout_ndim l"
  let ?zs = "zip (zip (shape l) (strides l)) (drop pad r)"
  have sl: "length (shape l) = length (strides l)" "length (shape l) = length a"
    using wf l by (auto simp: wf_layout_def)
  have ok: "s = t \<or> s = 1" if "((s, st), t) \<in> set ?zs" for s st t
  proof -
    from that obtain k where k: "k < length a" "s = a ! k" "t = r ! (pad + k)"
      using sl len l by (auto simp: in_set_zip)
    let ?i = "length a - 1 - k"
    have "?i < length r" using k len by simp
    moreover have "rdim a ?i = s"
    proof -
      have "?i < length a" "length a - 1 - ?i = k" using k by simp_all
      with k show ?thesis by (simp only: rdim_def if_True)
    qed
    moreover have "rdim r ?i = t"
    proof -
      have "length r - 1 - ?i = pad + k" using k len sl by (simp add: pad_def layout_ndim_def)
      moreover have "?i < length r" using k len by simp
      ultimately show ?thesis using k(3) by (simp only: rdim_def if_True)
    qed
    ultimately show ?thesis using ax[of ?i] by auto
  qed
  have "map snd ?zs = drop pad r" using sl len l by (simp add: pad_def layout_ndim_def)
  moreover have "\<forall>((s, st), t) \<in> set ?zs. s = t \<or> s = 1" using ok by auto
  ultimately show ?thesis
    using len sl by (simp add: layout_broadcast_to_def broadcast_to_loop_eq Let_def pad_def[symmetric]
        layout_new_def) (simp add: pad_def layout_ndim_def l)
qed

text \<open>
  Broadcasting two operands agrees with their broadcast shape. When \<open>broadcast_shapes\<close> accepts
  the shapes of two well-formed layouts, \<open>broadcast_to\<close> accepts the common shape for both, and the two
  views it makes have exactly that shape and reach only addresses of their own operand.
\<close>

theorem broadcast_both_operands:
  assumes "wf_layout l" and "wf_layout m" and "layout_broadcast_shape l m = Some r"
  shows "\<exists>l' m'. layout_broadcast_to l r = Some l' \<and> layout_broadcast_to m r = Some m' \<and>
           shape l' = r \<and> shape m' = r \<and> addresses l' \<subseteq> addresses l \<and> addresses m' \<subseteq> addresses m"
proof -
  have r: "layout_broadcast_shapes (shape l) (shape m) = Some r"
    using assms(3) by (simp add: layout_broadcast_shape_def)
  then have r': "layout_broadcast_shapes (shape m) (shape l) = Some r"
    by (simp add: broadcast_shapes_commute)
  from broadcast_operand[OF r refl assms(1)] broadcast_operand[OF r' refl assms(2)] assms(1,2)
  show ?thesis by (blast dest: broadcast_view.addresses_subset)
qed

lemma broadcast_both_operands_witness:
  "\<exists>l' m'. layout_broadcast_to (layout_contiguous [2, 1]) [4, 2, 3] = Some l' \<and>
     layout_broadcast_to (layout_contiguous [4, 1, 3]) [4, 2, 3] = Some m' \<and>
     shape l' = [4, 2, 3] \<and> shape m' = [4, 2, 3] \<and>
     addresses l' \<subseteq> addresses (layout_contiguous [2, 1]) \<and>
     addresses m' \<subseteq> addresses (layout_contiguous [4, 1, 3])"
  by (rule broadcast_both_operands) code_simp+

section \<open>Storage size\<close>

text \<open>The exact largest relative address of a layout whose strides are all read as unsigned.\<close>

definition extent :: "layout \<Rightarrow> nat" where
  "extent l = unat (offset l) + (\<Sum>(d, s) \<leftarrow> zip (shape l) (strides l). (unat d - 1) * unat s)"

lemma storage_size_loop_unat:
  assumes "unat acc + (\<Sum>(d, s) \<leftarrow> zs. (unat d - 1) * unat s) < 2 ^ 63"
  shows "unat (storage_size_loop acc zs) = unat acc + (\<Sum>(d, s) \<leftarrow> zs. (unat d - 1) * unat s)"
  using assms
proof (induction acc zs rule: storage_size_loop.induct)
  case (2 acc d s rest)
  let ?p = "(unat d - 1) * unat s" and ?R = "\<Sum>(d, s) \<leftarrow> rest. (unat d - 1) * unat s"
  have lt: "unat acc + ?p + ?R < 2 ^ 63" using 2(2) by simp
  show ?case
  proof (cases "0 < d \<and> 0 <s s")
    case True
    then have "unat (d - 1) = unat d - 1" by (simp add: unat_sub word_le_nat_alt word_less_nat_alt Suc_leI)
    moreover have "unat acc + ?p < 2 ^ 64" by (rule le_less_trans[OF _ less_trans[OF lt]]) simp_all
    ultimately have "unat (acc + (d - 1) * s) = unat acc + ?p" by (simp add: unat_word_ariths)
    with True 2(1) lt show ?thesis by simp
  next
    case False
    have "?p = 0"
    proof (rule ccontr)
      assume nz: "?p \<noteq> 0"
      then have "unat s \<le> ?p" by (cases "unat d - 1") auto
      with lt have "unat s < 2 ^ 63" by linarith
      with nz signed_pos[of s] have "0 <s s" by simp
      moreover from nz have "0 < d" by (simp add: word_less_nat_alt)
      ultimately show False using False by simp
    qed
    moreover from this lt have "unat acc + ?R < 2 ^ 63" by simp
    with 2(1) have "unat (storage_size_loop acc rest) = unat acc + ?R" by (simp only: if_not_P[OF False])
    ultimately show ?thesis
      by (simp only: storage_size_loop.simps if_not_P[OF False] list.map sum_list.Cons prod.case add_0)
  qed
qed simp

lemma dot_le_extent:
  assumes "length shp = length ss" and "in_bounds idx shp"
    and "(\<Sum>(d, s) \<leftarrow> zip shp ss. (unat d - 1) * unat s) < 2 ^ 64"
  shows "unat (dot idx ss) \<le> (\<Sum>(d, s) \<leftarrow> zip shp ss. (unat d - 1) * unat s)"
  using assms
proof (induction shp ss arbitrary: idx rule: list_induct2)
  case Nil
  then show ?case by (cases idx) auto
next
  case (Cons d shp s ss)
  then obtain i idx' where idx: "idx = i # idx'" by (cases idx) auto
  with Cons.prems have "unat i < unat d" by (simp add: word_less_nat_alt)
  then have "unat i \<le> unat d - 1" by linarith
  then have "unat i * unat s \<le> (unat d - 1) * unat s" by (rule mult_le_mono1)
  moreover have "unat (dot idx' ss) \<le> (\<Sum>(d, s) \<leftarrow> zip shp ss. (unat d - 1) * unat s)"
    using Cons idx by simp
  moreover have "unat (i * s) \<le> unat i * unat s" by (simp add: unat_word_ariths)
  moreover have "unat (i * s + dot idx' ss) \<le> unat (i * s) + unat (dot idx' ss)"
    by (simp add: unat_word_ariths)
  ultimately show ?case
    unfolding idx dot_simps(3) zip_Cons_Cons list.map prod.case sum_list.Cons by linarith
qed

text \<open>
  \<open>storage_size\<close> is enough. For a well-formed layout whose largest address, computed without
  wrap-around, is below \<open>2^63 - 1\<close>, every element's address is below the storage size the layout
  reports, which is exactly the largest address plus one.
\<close>

theorem storage_size_covers:
  assumes "wf_layout l" and "extent l < 2 ^ 63 - 1"
  shows "unat (layout_storage_size l) = extent l + 1 \<and>
    (\<forall>idx a. layout_index l idx = Some a \<longrightarrow> unat a < unat (layout_storage_size l))"
proof -
  let ?S = "\<Sum>(d, s) \<leftarrow> zip (shape l) (strides l). (unat d - 1) * unat s"
  have ext: "extent l = unat (offset l) + ?S" by (simp add: extent_def)
  have loop: "unat (storage_size_loop (offset l) (zip (shape l) (strides l))) = extent l"
    using storage_size_loop_unat[of "offset l"] assms(2) by (simp add: ext)
  have size: "unat (layout_storage_size l) = extent l + 1"
  proof (cases "shape l = []")
    case True
    with assms(2) show ?thesis
      by (auto simp: layout_storage_size_def ext unat_word_ariths word_less_nat_alt unat_eq_0)
  next
    case False
    with loop assms(2) show ?thesis by (simp add: layout_storage_size_def unat_word_ariths)
  qed
  moreover have "unat a \<le> extent l" if a: "layout_index l idx = Some a" for idx a
  proof -
    from a have b: "in_bounds idx (shape l)" and e: "a = offset l + dot idx (strides l)"
      by (auto simp: layout_index_eq split: if_splits)
    have "unat (dot idx (strides l)) \<le> ?S"
      by (rule dot_le_extent) (use assms b ext in \<open>simp_all add: wf_layout_def\<close>)
    moreover have "unat a \<le> unat (offset l) + unat (dot idx (strides l))"
      by (simp add: e unat_word_ariths)
    ultimately show ?thesis by (simp add: ext)
  qed
  ultimately show ?thesis by (auto simp: less_Suc_eq_le)
qed

lemma storage_size_covers_witness:
  "unat (layout_storage_size \<lparr>shape = [2, 3], strides = [1, 4], offset = 5\<rparr>) = 15 \<and>
   unat (14 :: usize) < unat (layout_storage_size \<lparr>shape = [2, 3], strides = [1, 4], offset = 5\<rparr>)"
proof -
  let ?l = "\<lparr>shape = [2, 3], strides = [1, 4], offset = 5\<rparr>"
  have e: "extent ?l = 14" by code_simp
  have "wf_layout ?l" "extent ?l < 2 ^ 63 - 1" by (simp add: wf_layout_def) (simp add: e)
  note s = storage_size_covers[OF this]
  have "layout_index ?l [1, 2] = Some 14" by code_simp
  with s have "unat (14 :: usize) < unat (layout_storage_size ?l)" by blast
  with s e show ?thesis by simp
qed

end
