(* ===== verification/DTypes.thy ===== *)
theory DTypes
  imports Prelude Complex_Main
begin

text \<open>
  The element types (\<open>src/dtype/dtype_enum.rs\<close>), the bit sets of element types
  (\<open>dtype_set.rs\<close>), the promotion of two operand types and the table of safe casts
  (\<open>promotion.rs\<close>). The sets are the 64-bit masks of the source; their abstraction is a HOL set of
  element types. What promotion and the cast table promise is stated over the values a type can
  hold: the range of an integer type, the precision and exponents of a floating-point type.
\<close>

section \<open>The enumeration\<close>

datatype dtype =
  F64 | F32 | F16 | BF16 | FP8E4M3 | FP8E5M2 | I64 | I32 | I16 | I8 | U64 | U32 | U16 | U8
  | Bool | Complex64 | Complex128

instantiation dtype :: enum
begin

definition enum_dtype :: "dtype list" where
  "enum_dtype = [F64, F32, F16, BF16, FP8E4M3, FP8E5M2, I64, I32, I16, I8, U64, U32, U16, U8,
     Bool, Complex64, Complex128]"

definition enum_all_dtype :: "(dtype \<Rightarrow> bool) \<Rightarrow> bool" where
  "enum_all_dtype P \<longleftrightarrow> list_all P Enum.enum"

definition enum_ex_dtype :: "(dtype \<Rightarrow> bool) \<Rightarrow> bool" where
  "enum_ex_dtype P \<longleftrightarrow> list_ex P Enum.enum"

instance
proof
  show u: "UNIV = set (Enum.enum :: dtype list)"
  proof (rule UNIV_eq_I)
    fix d show "d \<in> set (Enum.enum :: dtype list)" by (cases d) (simp_all add: enum_dtype_def)
  qed
  show "distinct (Enum.enum :: dtype list)" by (simp add: enum_dtype_def)
  fix P :: "dtype \<Rightarrow> bool"
  show "Enum.enum_all P \<longleftrightarrow> Ball UNIV P" by (simp add: enum_all_dtype_def list_all_iff u)
  show "Enum.enum_ex P \<longleftrightarrow> Bex UNIV P" by (simp add: enum_ex_dtype_def list_ex_iff u)
qed

end

text \<open>A statement about all element types, or all pairs, is checked by evaluating the list.\<close>

lemma all_dtype: "(\<forall>d. P d) \<longleftrightarrow> list_all P (Enum.enum :: dtype list)"
  using UNIV_enum[where 'a = dtype] by (auto simp: list_all_iff)

fun discriminant :: "dtype \<Rightarrow> nat" where
  "discriminant F64 = 0" | "discriminant F32 = 1" | "discriminant F16 = 2" | "discriminant BF16 = 3"
| "discriminant FP8E4M3 = 4" | "discriminant FP8E5M2 = 5"
| "discriminant I64 = 10" | "discriminant I32 = 11" | "discriminant I16 = 12" | "discriminant I8 = 13"
| "discriminant U64 = 20" | "discriminant U32 = 21" | "discriminant U16 = 22" | "discriminant U8 = 23"
| "discriminant Bool = 30" | "discriminant Complex64 = 40" | "discriminant Complex128 = 41"

definition size_in_bytes :: "dtype \<Rightarrow> nat" where
  "size_in_bytes d =
     (case d of
        Complex128 \<Rightarrow> 16
      | F64 \<Rightarrow> 8 | I64 \<Rightarrow> 8 | U64 \<Rightarrow> 8 | Complex64 \<Rightarrow> 8
      | F32 \<Rightarrow> 4 | I32 \<Rightarrow> 4 | U32 \<Rightarrow> 4
      | F16 \<Rightarrow> 2 | BF16 \<Rightarrow> 2 | I16 \<Rightarrow> 2 | U16 \<Rightarrow> 2
      | FP8E4M3 \<Rightarrow> 1 | FP8E5M2 \<Rightarrow> 1 | I8 \<Rightarrow> 1 | U8 \<Rightarrow> 1 | Bool \<Rightarrow> 1)"

definition is_float :: "dtype \<Rightarrow> bool" where
  "is_float d \<longleftrightarrow> d \<in> {F64, F32, F16, BF16, FP8E4M3, FP8E5M2}"

definition is_narrow_float :: "dtype \<Rightarrow> bool" where
  "is_narrow_float d \<longleftrightarrow> d \<in> {F16, BF16, FP8E4M3, FP8E5M2}"

definition is_complex :: "dtype \<Rightarrow> bool" where
  "is_complex d \<longleftrightarrow> d \<in> {Complex64, Complex128}"

definition complex_component_dtype :: "dtype \<Rightarrow> dtype option" where
  "complex_component_dtype d = (case d of Complex64 \<Rightarrow> Some F32 | Complex128 \<Rightarrow> Some F64 | _ \<Rightarrow> None)"

definition is_signed_int :: "dtype \<Rightarrow> bool" where
  "is_signed_int d \<longleftrightarrow> d \<in> {I64, I32, I16, I8}"

definition is_unsigned_int :: "dtype \<Rightarrow> bool" where
  "is_unsigned_int d \<longleftrightarrow> d \<in> {U64, U32, U16, U8}"

definition is_int :: "dtype \<Rightarrow> bool" where
  "is_int d \<longleftrightarrow> is_signed_int d \<or> is_unsigned_int d"

definition is_bool :: "dtype \<Rightarrow> bool" where
  "is_bool d \<longleftrightarrow> d = Bool"

definition is_signed :: "dtype \<Rightarrow> bool" where
  "is_signed d \<longleftrightarrow> is_float d \<or> is_signed_int d \<or> is_complex d"

definition default_float :: dtype where "default_float = F32"
definition default_int :: dtype where "default_int = I64"

fun short_name :: "dtype \<Rightarrow> string" where
  "short_name F64 = ''f64''" | "short_name F32 = ''f32''" | "short_name F16 = ''f16''"
| "short_name BF16 = ''bf16''" | "short_name FP8E4M3 = ''fp8e4m3''" | "short_name FP8E5M2 = ''fp8e5m2''"
| "short_name I64 = ''i64''" | "short_name I32 = ''i32''" | "short_name I16 = ''i16''"
| "short_name I8 = ''i8''" | "short_name U64 = ''u64''" | "short_name U32 = ''u32''"
| "short_name U16 = ''u16''" | "short_name U8 = ''u8''" | "short_name Bool = ''bool''"
| "short_name Complex64 = ''c64''" | "short_name Complex128 = ''c128''"

section \<open>Sets of element types\<close>

unbundle bit_operations_syntax

record dtype_set =
  bits :: u64

definition dset_single :: "dtype \<Rightarrow> dtype_set" where
  "dset_single d = \<lparr>bits = push_bit (discriminant d) 1\<rparr>"

definition dset_empty :: dtype_set where "dset_empty = \<lparr>bits = 0\<rparr>"

definition dset_floats :: dtype_set where
  "dset_floats = \<lparr>bits = push_bit (discriminant F64) 1 OR push_bit (discriminant F32) 1
     OR push_bit (discriminant F16) 1 OR push_bit (discriminant BF16) 1
     OR push_bit (discriminant FP8E4M3) 1 OR push_bit (discriminant FP8E5M2) 1\<rparr>"

definition dset_signed_ints :: dtype_set where
  "dset_signed_ints = \<lparr>bits = push_bit (discriminant I64) 1 OR push_bit (discriminant I32) 1
     OR push_bit (discriminant I16) 1 OR push_bit (discriminant I8) 1\<rparr>"

definition dset_unsigned_ints :: dtype_set where
  "dset_unsigned_ints = \<lparr>bits = push_bit (discriminant U64) 1 OR push_bit (discriminant U32) 1
     OR push_bit (discriminant U16) 1 OR push_bit (discriminant U8) 1\<rparr>"

definition dset_ints :: dtype_set where
  "dset_ints = \<lparr>bits = bits dset_signed_ints OR bits dset_unsigned_ints\<rparr>"

definition dset_numeric :: dtype_set where
  "dset_numeric = \<lparr>bits = bits dset_floats OR bits dset_ints\<rparr>"

definition dset_complex :: dtype_set where
  "dset_complex = \<lparr>bits = push_bit (discriminant Complex64) 1 OR push_bit (discriminant Complex128) 1\<rparr>"

definition dset_contains :: "dtype_set \<Rightarrow> dtype \<Rightarrow> bool" where
  "dset_contains s d \<longleftrightarrow> bits s AND push_bit (discriminant d) 1 \<noteq> 0"

definition dset_union :: "dtype_set \<Rightarrow> dtype_set \<Rightarrow> dtype_set" where
  "dset_union s t = \<lparr>bits = bits s OR bits t\<rparr>"

definition dset_intersection :: "dtype_set \<Rightarrow> dtype_set \<Rightarrow> dtype_set" where
  "dset_intersection s t = \<lparr>bits = bits s AND bits t\<rparr>"

definition dset_is_empty :: "dtype_set \<Rightarrow> bool" where
  "dset_is_empty s \<longleftrightarrow> bits s = 0"

text \<open>The set a mask stands for, and the masks whose every bit is a discriminant.\<close>

definition dset_abs :: "dtype_set \<Rightarrow> dtype set" where
  "dset_abs s = {d. dset_contains s d}"

definition dset_wf :: "dtype_set \<Rightarrow> bool" where
  "dset_wf s \<longleftrightarrow> (\<forall>n. bit (bits s) n \<longrightarrow> n \<in> range discriminant)"

lemma dset_contains_bit: "dset_contains s d \<longleftrightarrow> bit (bits s) (discriminant d)"
proof -
  have "discriminant d < LENGTH(64)" by (cases d) simp_all
  then show ?thesis
    unfolding dset_contains_def by (subst bit_eq_iff) (auto simp: bit_and_iff bit_exp_iff)
qed

section \<open>Promotion\<close>

fun promote_priority :: "dtype \<Rightarrow> nat" where
  "promote_priority Complex128 = 120" | "promote_priority Complex64 = 110"
| "promote_priority F64 = 100" | "promote_priority F32 = 90" | "promote_priority BF16 = 85"
| "promote_priority F16 = 80" | "promote_priority FP8E4M3 = 75" | "promote_priority FP8E5M2 = 70"
| "promote_priority I64 = 65" | "promote_priority U64 = 60" | "promote_priority I32 = 55"
| "promote_priority U32 = 50" | "promote_priority I16 = 45" | "promote_priority U16 = 40"
| "promote_priority I8 = 35" | "promote_priority U8 = 30" | "promote_priority Bool = 25"

text \<open>The table for a signed left and an unsigned right operand.\<close>

definition promote_signed_unsigned :: "dtype \<Rightarrow> dtype \<Rightarrow> dtype" where
  "promote_signed_unsigned l r =
     (if l = I64 then I64
      else if l = I32 then (if r = U64 then I64 else if r = U32 then I64 else I32)
      else if l = I16 then (if r \<in> {U64, U32, U16} then I32 else I16)
      else if l = I8 \<and> r \<in> {U64, U32, U16, U8} then I16
      else I64)"

definition promote :: "dtype \<Rightarrow> dtype \<Rightarrow> dtype" where
  "promote lhs rhs =
     (if lhs = rhs then lhs
      else if is_signed_int lhs \<and> is_unsigned_int rhs then promote_signed_unsigned lhs rhs
      else if is_signed_int rhs \<and> is_unsigned_int lhs then promote_signed_unsigned rhs lhs
      else if promote_priority rhs \<le> promote_priority lhs then lhs else rhs)"

definition can_cast_safely :: "dtype \<Rightarrow> dtype \<Rightarrow> bool" where
  "can_cast_safely src dst \<longleftrightarrow>
     src = dst
     \<or> src \<in> {FP8E4M3, FP8E5M2} \<and> dst \<in> {F16, BF16, F32, F64}
     \<or> src \<in> {F16, BF16} \<and> dst \<in> {F32, F64}
     \<or> src = F32 \<and> dst = F64
     \<or> src = Complex64 \<and> dst = Complex128
     \<or> src \<in> {F32, F16, BF16, FP8E4M3, FP8E5M2} \<and> dst = Complex64
     \<or> src \<in> {F64, F32, F16, BF16, FP8E4M3, FP8E5M2} \<and> dst = Complex128
     \<or> src \<in> {I8, U8, I16, U16} \<and> dst \<in> {F32, F64}
     \<or> src \<in> {I32, U32} \<and> dst = F64
     \<or> src \<in> {I8, U8, I16, U16, I32, U32, I64, U64} \<and> dst \<in> {Complex64, Complex128}
     \<or> src = I8 \<and> dst \<in> {I16, I32, I64}
     \<or> src = I16 \<and> dst \<in> {I32, I64}
     \<or> src = I32 \<and> dst = I64
     \<or> src = U8 \<and> dst \<in> {U16, U32, U64, I16, I32, I64}
     \<or> src = U16 \<and> dst \<in> {U32, U64, I32, I64}
     \<or> src = U32 \<and> dst \<in> {U64, I64}
     \<or> src = Bool \<and> (is_int dst \<or> is_float dst \<or> is_complex dst)"

section \<open>The sets behave as sets\<close>

lemma discriminant_less: "discriminant d < 64"
  by (cases d) simp_all

lemma discriminant_inject: "discriminant d = discriminant e \<longleftrightarrow> d = e"
  by (cases d; cases e) simp_all

lemma dset_bit_simps:
  "bit (push_bit (discriminant d) (1 :: u64)) n \<longleftrightarrow> n = discriminant d"
  using discriminant_less[of d] by (auto simp: bit_exp_iff)

lemma dset_constants:
  "dset_abs dset_floats = Collect is_float" "dset_abs dset_signed_ints = Collect is_signed_int"
  "dset_abs dset_unsigned_ints = Collect is_unsigned_int" "dset_abs dset_ints = Collect is_int"
  "dset_abs dset_complex = Collect is_complex"
  by (auto simp: dset_abs_def dset_contains_bit dset_floats_def dset_signed_ints_def
      dset_unsigned_ints_def dset_ints_def dset_complex_def bit_or_iff dset_bit_simps
      discriminant_inject is_float_def is_signed_int_def is_unsigned_int_def is_int_def is_complex_def
      simp del: discriminant.simps push_bit_of_1)

lemma dset_union_abs: "dset_abs (dset_union s t) = dset_abs s \<union> dset_abs t"
  by (auto simp: dset_abs_def dset_contains_bit dset_union_def bit_or_iff)

lemma dset_intersection_abs: "dset_abs (dset_intersection s t) = dset_abs s \<inter> dset_abs t"
  by (auto simp: dset_abs_def dset_contains_bit dset_intersection_def bit_and_iff)

lemma dset_is_empty_abs: "dset_wf s \<Longrightarrow> dset_is_empty s \<longleftrightarrow> dset_abs s = {}"
  by (auto simp: dset_abs_def dset_contains_bit dset_is_empty_def dset_wf_def bit_eq_iff discriminant_less)

lemma dset_wf_ops:
  "dset_wf (dset_single d)" "dset_wf s \<Longrightarrow> dset_wf t \<Longrightarrow> dset_wf (dset_union s t)"
  "dset_wf s \<Longrightarrow> dset_wf t \<Longrightarrow> dset_wf (dset_intersection s t)"
  by (auto simp: dset_wf_def dset_single_def dset_union_def dset_intersection_def bit_or_iff
      bit_and_iff dset_bit_simps simp del: push_bit_of_1)

text \<open>
  A \<open>DTypeSet\<close> mask is a set of element types: \<open>single\<close>, \<open>union\<close>, \<open>intersection\<close> and
  \<open>is_empty\<close> are the set operations, every operation keeps the masks free of bits that are no
  discriminant, and the predefined masks are exactly the types with the predicate of their name.
\<close>

theorem dtype_set_refines_sets:
  assumes "dset_wf s" and "dset_wf t"
  shows "dset_abs (dset_single d) = {d} \<and> dset_wf (dset_single d)
    \<and> dset_abs (dset_union s t) = dset_abs s \<union> dset_abs t \<and> dset_wf (dset_union s t)
    \<and> dset_abs (dset_intersection s t) = dset_abs s \<inter> dset_abs t \<and> dset_wf (dset_intersection s t)
    \<and> (dset_is_empty s \<longleftrightarrow> dset_abs s = {}) \<and> dset_abs dset_empty = {}
    \<and> dset_abs dset_floats = Collect is_float \<and> dset_abs dset_ints = Collect is_int
    \<and> dset_abs dset_complex = Collect is_complex
    \<and> dset_abs dset_numeric = {d. is_float d \<or> is_int d}"
proof -
  have "dset_abs (dset_single d) = {d}"
    by (auto simp: dset_abs_def dset_contains_bit dset_single_def dset_bit_simps discriminant_inject
        simp del: push_bit_of_1)
  moreover have nm: "dset_numeric = dset_union dset_floats dset_ints"
    by (simp add: dset_numeric_def dset_union_def)
  have "dset_abs dset_numeric = {d. is_float d \<or> is_int d}"
    unfolding nm dset_union_abs dset_constants by auto
  moreover have "dset_abs dset_empty = {}"
    by (simp add: dset_abs_def dset_contains_bit dset_empty_def)
  ultimately show ?thesis
    using assms by (simp add: dset_union_abs dset_intersection_abs dset_is_empty_abs dset_wf_ops dset_constants)
qed

lemma dtype_set_refines_sets_witness:
  "dset_abs (dset_union (dset_single F32) (dset_single Bool)) = {F32, Bool}
   \<and> (dset_is_empty (dset_single F32) \<longleftrightarrow> {F32} = ({} :: dtype set))"
proof -
  have w: "dset_wf (dset_single F32)" "dset_wf (dset_single Bool)" by (rule dset_wf_ops(1))+
  from dtype_set_refines_sets[OF w, of F32] dtype_set_refines_sets[OF w(2,1), of Bool]
  show ?thesis by (simp add: insert_commute)
qed

section \<open>The values a type can hold\<close>

text \<open>Precision, least and greatest exponent of a binary format, and its finite values: integers of at
  most \<open>p\<close> bits scaled by a power of two. The real types and \<open>Bool\<close> hold pairs with imaginary part 0.\<close>

definition fmt_values :: "nat \<Rightarrow> int \<Rightarrow> int \<Rightarrow> rat set" where
  "fmt_values p emin emax =
     {of_int c * 2 powi e | c e. \<bar>c\<bar> < 2 ^ p \<and> emin - int p + 1 \<le> e \<and> e \<le> emax - int p + 1}"

fun float_values :: "dtype \<Rightarrow> rat set" where
  "float_values F64 = fmt_values 53 (-1022) 1023" | "float_values F32 = fmt_values 24 (-126) 127"
| "float_values F16 = fmt_values 11 (-14) 15" | "float_values BF16 = fmt_values 8 (-126) 127"
| "float_values FP8E4M3 = fmt_values 4 (-6) 8 - {480, -480}" | "float_values FP8E5M2 = fmt_values 3 (-14) 15"
| "float_values _ = {}"

fun int_range :: "dtype \<Rightarrow> int set" where
  "int_range I64 = {- (2 ^ 63)..<2 ^ 63}" | "int_range I32 = {- (2 ^ 31)..<2 ^ 31}"
| "int_range I16 = {- (2 ^ 15)..<2 ^ 15}" | "int_range I8 = {- (2 ^ 7)..<2 ^ 7}"
| "int_range U64 = {0..<2 ^ 64}" | "int_range U32 = {0..<2 ^ 32}" | "int_range U16 = {0..<2 ^ 16}"
| "int_range U8 = {0..<2 ^ 8}" | "int_range Bool = {0..<2}" | "int_range _ = {}"

definition dtype_values :: "dtype \<Rightarrow> (rat \<times> rat) set" where
  "dtype_values d =
     (case complex_component_dtype d of
        Some c \<Rightarrow> float_values c \<times> float_values c
      | None \<Rightarrow> (float_values d \<union> of_int ` int_range d) \<times> {0})"

lemma fmt_values_mono:
  assumes "p \<le> p'" and "emin' \<le> emin" and "emax \<le> emax'"
  shows "fmt_values p emin emax \<subseteq> fmt_values p' emin' emax'"
proof
  fix x assume "x \<in> fmt_values p emin emax"
  then obtain c e where x: "x = of_int c * 2 powi e" and c: "\<bar>c\<bar> < 2 ^ p"
    and e: "emin - int p + 1 \<le> e" "e \<le> emax - int p + 1" by (auto simp: fmt_values_def)
  let ?k = "p' - p"
  have "\<bar>c * 2 ^ ?k\<bar> < 2 ^ p * 2 ^ ?k" using c by (simp add: abs_mult)
  then have "\<bar>c * 2 ^ ?k\<bar> < 2 ^ p'" using assms(1) by (simp flip: power_add)
  moreover have "of_int (c * 2 ^ ?k) * 2 powi (e - int ?k) = x"
    by (simp add: x power_int_diff)
  moreover have "emin' - int p' + 1 \<le> e - int ?k" "e - int ?k \<le> emax' - int p' + 1"
    using e assms by auto
  ultimately show "x \<in> fmt_values p' emin' emax'" unfolding fmt_values_def by blast
qed

lemma int_in_fmt:
  assumes "\<bar>n\<bar> < 2 ^ p" and "emin - int p + 1 \<le> 0" and "0 \<le> emax - int p + 1"
  shows "of_int n \<in> fmt_values p emin emax"
proof -
  have "of_int n = (of_int n :: rat) * 2 powi 0" by simp
  with assms show ?thesis unfolding fmt_values_def by blast
qed

lemma odd_not_in_fmt: "0 < p \<Longrightarrow> of_int (2 ^ p + 1) \<notin> fmt_values p emin emax"
proof
  assume "0 < p" and "of_int (2 ^ p + 1) \<in> fmt_values p emin emax"
  then obtain c e where x: "(of_int (2 ^ p + 1) :: rat) = of_int c * 2 powi e" and c: "\<bar>c\<bar> < 2 ^ p"
    by (auto simp: fmt_values_def)
  show False
  proof (cases "0 < e")
    case True
    then obtain k where k: "e = int (Suc k)" by (metis zero_less_imp_eq_int gr0_conv_Suc)
    then have "(of_int (2 ^ p + 1) :: rat) = of_int (c * 2 ^ Suc k)" using x
      by (simp only: power_int_of_nat of_int_mult of_int_power of_int_numeral)
    then have "2 ^ p + 1 = c * 2 ^ Suc k" by (simp only: of_int_eq_iff)
    then have "even ((2 :: int) ^ p + 1)" by simp
    with \<open>0 < p\<close> show False by simp
  next
    case False
    define k where "k = nat (- e)"
    have "e = - int k" using False by (simp add: k_def)
    then have "(of_int (2 ^ p + 1) :: rat) * 2 ^ k = of_int c" using x by (simp add: power_int_minus)
    then have "(of_int ((2 ^ p + 1) * 2 ^ k) :: rat) = of_int c" by simp
    then have "(2 ^ p + 1) * 2 ^ k = c" by (simp only: of_int_eq_iff)
    moreover have "(2 :: int) ^ p + 1 \<le> (2 ^ p + 1) * 2 ^ k" by simp
    ultimately show False using c by linarith
  qed
qed

section \<open>What the cast table and promotion lose\<close>

text \<open>The values of a type that is not complex, as rationals.\<close>

definition real_values :: "dtype \<Rightarrow> rat set" where
  "real_values d = float_values d \<union> of_int ` int_range d"

lemma dtype_values_cases:
  "complex_component_dtype d = None \<Longrightarrow> dtype_values d = real_values d \<times> {0}"
  "complex_component_dtype d = Some c \<Longrightarrow> dtype_values d = float_values c \<times> float_values c"
  by (simp_all add: dtype_values_def real_values_def)

lemma zero_in_fmt: "0 < p \<Longrightarrow> emin \<le> emax \<Longrightarrow> 0 \<in> fmt_values p emin emax"
  unfolding fmt_values_def by (auto intro!: exI[of _ 0] exI[of _ emin] exI[of _ "emin - int p + 1"])

lemma float_values_sub:
  "float_values FP8E4M3 \<subseteq> float_values F16" "float_values FP8E5M2 \<subseteq> float_values F16"
  "float_values FP8E4M3 \<subseteq> float_values BF16" "float_values FP8E5M2 \<subseteq> float_values BF16"
  "float_values F16 \<subseteq> float_values F32" "float_values BF16 \<subseteq> float_values F32"
  "float_values F32 \<subseteq> float_values F64"
  by (auto intro: subsetD[OF fmt_values_mono, rotated -1])

lemma int_values_sub:
  "(\<And>n. n \<in> int_range s \<Longrightarrow> \<bar>n\<bar> < 2 ^ 53) \<Longrightarrow> of_int ` int_range s \<subseteq> float_values F64"
  "(\<And>n. n \<in> int_range s \<Longrightarrow> \<bar>n\<bar> < 2 ^ 24) \<Longrightarrow> of_int ` int_range s \<subseteq> float_values F32"
  by (auto intro!: int_in_fmt)

lemma real_values_simps:
  "is_float d \<Longrightarrow> real_values d = float_values d" "\<not> is_float d \<Longrightarrow> real_values d = of_int ` int_range d"
  by (cases d; simp add: real_values_def is_float_def)+

text \<open>The casts of the table that lose values: a large integer has no exact floating-point component.\<close>

definition lossy_cast :: "dtype \<Rightarrow> dtype \<Rightarrow> bool" where
  "lossy_cast s d \<longleftrightarrow> s \<in> {I32, U32, I64, U64} \<and> d = Complex64 \<or> s \<in> {I64, U64} \<and> d = Complex128"

lemma real_values_sub_int:
  "int_range s \<subseteq> int_range d \<Longrightarrow> real_values s \<subseteq> real_values d" if "\<not> is_float s" "\<not> is_float d"
  using that by (auto simp: real_values_simps)

lemma int_cast_sub:
  "can_cast_safely s d \<Longrightarrow> is_int s \<or> s = Bool \<Longrightarrow> is_int d \<or> d = Bool \<Longrightarrow> int_range s \<subseteq> int_range d"
  by (cases s; cases d) (auto simp: can_cast_safely_def is_int_def is_signed_int_def is_unsigned_int_def)

lemma float_cast_sub:
  "can_cast_safely s d \<Longrightarrow> is_float s \<Longrightarrow> is_float d \<Longrightarrow> float_values s \<subseteq> float_values d"
  using float_values_sub
  by (cases s; cases d) (auto simp: can_cast_safely_def is_float_def is_int_def simp del: float_values.simps)

lemma bool_in_float: "is_float d \<Longrightarrow> of_int ` int_range Bool \<subseteq> float_values d"
  by (cases d) (auto simp: is_float_def simp flip: of_int_eq_iff[where 'a = rat] intro!: int_in_fmt)

lemma int_float_cast_sub:
  assumes "can_cast_safely s d" and "is_int s \<or> s = Bool" and "is_float d"
  shows "of_int ` int_range s \<subseteq> float_values d"
proof (cases "s = Bool")
  case True
  with assms(3) show ?thesis using bool_in_float by simp
next
  case False
  with assms consider "d = F64" "s \<in> {I8, U8, I16, U16, I32, U32}" | "d = F32" "s \<in> {I8, U8, I16, U16}"
    by (cases d) (auto simp: can_cast_safely_def is_float_def is_int_def is_signed_int_def is_unsigned_int_def)
  then show ?thesis
  proof cases
    case 1
    then show ?thesis by (simp only:) (rule int_values_sub, auto)
  next
    case 2
    then show ?thesis by (simp only:) (rule int_values_sub, auto)
  qed
qed

lemma dtype_kinds: "is_complex d \<or> is_float d \<or> is_int d \<or> d = Bool"
  by (cases d) (simp_all add: is_complex_def is_float_def is_int_def is_signed_int_def is_unsigned_int_def)

lemma real_cast_sub:
  assumes "can_cast_safely s d" and "\<not> is_complex s" and "\<not> is_complex d"
  shows "real_values s \<subseteq> real_values d"
proof -
  have no: "\<not> (is_float s \<and> (is_int d \<or> d = Bool))"
    using assms(1) by (cases s; cases d) (auto simp: can_cast_safely_def is_float_def is_int_def
        is_signed_int_def is_unsigned_int_def)
  have ex: "\<not> is_float e" if "is_int e \<or> e = Bool" for e
    using that by (cases e) (auto simp: is_float_def is_int_def is_signed_int_def is_unsigned_int_def)
  consider "is_float s" "is_float d" | "is_int s \<or> s = Bool" "is_float d"
    | "is_int s \<or> s = Bool" "is_int d \<or> d = Bool"
    using no assms(2,3) dtype_kinds[of s] dtype_kinds[of d] by blast
  then show ?thesis
  proof cases
    case 1
    with assms(1) show ?thesis by (simp add: real_values_simps float_cast_sub)
  next
    case 2
    with assms(1) ex[of s] show ?thesis by (simp add: real_values_simps int_float_cast_sub)
  next
    case 3
    with assms(1) ex show ?thesis by (simp add: real_values_simps int_cast_sub image_mono)
  qed
qed

lemma component_of:
  "\<not> is_complex d \<longleftrightarrow> complex_component_dtype d = None"
  "is_complex d \<longleftrightarrow> d = Complex64 \<and> complex_component_dtype d = Some F32
     \<or> d = Complex128 \<and> complex_component_dtype d = Some F64"
  by (cases d; simp add: is_complex_def complex_component_dtype_def)+

lemma lossy_cast_witness:
  assumes "lossy_cast s d" and "complex_component_dtype d = Some c"
  shows "\<not> of_int ` int_range s \<subseteq> float_values c"
proof -
  from assms consider "d = Complex64" "c = F32" "s \<in> {I32, U32, I64, U64}"
    | "d = Complex128" "c = F64" "s \<in> {I64, U64}"
    by (auto simp: lossy_cast_def complex_component_dtype_def)
  then show ?thesis
  proof cases
    case 1
    then have "2 ^ 24 + 1 \<in> int_range s" by auto
    with odd_not_in_fmt[of 24 "-126" 127] 1(2) show ?thesis
      by (metis (no_types, lifting) float_values.simps(2) image_eqI subsetD zero_less_numeral)
  next
    case 2
    then have "2 ^ 53 + 1 \<in> int_range s" by auto
    with odd_not_in_fmt[of 53 "-1022" 1023] 2(2) show ?thesis
      by (metis (no_types, lifting) float_values.simps(1) image_eqI subsetD zero_less_numeral)
  qed
qed

lemma complex_target_sub:
  assumes "can_cast_safely s d" and "\<not> is_complex s" and "complex_component_dtype d = Some c"
    and "\<not> lossy_cast s d"
  shows "real_values s \<subseteq> float_values c"
proof -
  have c: "c = F32 \<and> d = Complex64 \<or> c = F64 \<and> d = Complex128"
    using assms(3) by (auto simp: complex_component_dtype_def split: dtype.splits)
  then have "can_cast_safely s c" and f: "is_float c"
    using assms(1,2,4) by (cases s; auto simp: can_cast_safely_def lossy_cast_def is_float_def is_complex_def)+
  from real_cast_sub[OF this(1) assms(2)] c show ?thesis
    by (auto simp: is_complex_def real_values_simps(1)[OF f])
qed

lemma cast_values_iff:
  assumes "can_cast_safely s d"
  shows "dtype_values s \<subseteq> dtype_values d \<longleftrightarrow> \<not> lossy_cast s d"
proof (cases "is_complex d")
  case False
  have "\<not> is_complex s" using assms False
    by (cases s; cases d) (auto simp: can_cast_safely_def is_complex_def)
  moreover have "\<not> lossy_cast s d" using False by (auto simp: lossy_cast_def is_complex_def)
  ultimately show ?thesis
    using real_cast_sub[OF assms _ False] False dtype_values_cases(1)[of s] dtype_values_cases(1)[of d]
    by (simp add: component_of(1) Sigma_mono)
next
  case True
  then obtain c where c: "complex_component_dtype d = Some c" by (auto simp: component_of(2))
  show ?thesis
  proof (cases "is_complex s")
    case True
    then have "s = d \<or> s = Complex64 \<and> d = Complex128"
      using assms by (auto simp: can_cast_safely_def is_complex_def)
    with True show ?thesis
      using float_values_sub(7) by (auto simp: lossy_cast_def is_complex_def dtype_values_def
          complex_component_dtype_def simp del: float_values.simps)
  next
    case False
    have z: "0 \<in> float_values c" using c
      by (auto simp: complex_component_dtype_def zero_in_fmt split: dtype.splits)
    have "dtype_values s \<subseteq> dtype_values d \<longleftrightarrow> real_values s \<subseteq> float_values c"
      using z dtype_values_cases(1)[of s] dtype_values_cases(2)[OF c] False by (auto simp: component_of(1))
    also have "\<dots> \<longleftrightarrow> \<not> lossy_cast s d"
      using complex_target_sub[OF assms False c] lossy_cast_witness[OF _ c, of s] by (auto simp: real_values_def)
    finally show ?thesis .
  qed
qed

text \<open>
  C4. What \<open>can_cast_safely\<close> preserves. A cast of the table keeps every value of the source type (all
  its finite numbers are numbers of the target type) except from a 32- or 64-bit integer to
  \<open>Complex64\<close> and from a 64-bit integer to \<open>Complex128\<close>, which the table accepts although the
  component type cannot hold them.
\<close>

theorem can_cast_safely_lossless:
  assumes "can_cast_safely s d"
  shows "dtype_values s \<subseteq> dtype_values d \<longleftrightarrow> \<not> lossy_cast s d"
  using assms by (rule cast_values_iff)

lemma can_cast_safely_lossless_witness:
  "dtype_values U16 \<subseteq> dtype_values F32 \<and> \<not> dtype_values I64 \<subseteq> dtype_values Complex64"
  using can_cast_safely_lossless[of U16 F32] can_cast_safely_lossless[of I64 Complex64]
  by (simp add: can_cast_safely_def lossy_cast_def)

section \<open>What promotion preserves\<close>

lemma promote_commute: "promote a b = promote b a"
proof -
  have "\<forall>a b. promote a b = promote b a" unfolding all_dtype by code_simp
  then show ?thesis by blast
qed

lemma int_values_iff:
  "is_int a \<Longrightarrow> is_int b \<Longrightarrow> dtype_values a \<subseteq> dtype_values b \<longleftrightarrow> int_range a \<subseteq> int_range b"
proof -
  assume "is_int a" "is_int b"
  then have "\<not> is_float a" "\<not> is_float b" "\<not> is_complex a" "\<not> is_complex b"
    by (cases a; cases b; simp add: is_int_def is_signed_int_def is_unsigned_int_def is_float_def is_complex_def)+
  then show ?thesis
    by (simp add: component_of(1) dtype_values_cases real_values_simps times_subset_iff inj_image_subset_iff inj_def)
      auto
qed

text \<open>
  The pairs whose common type cannot hold every value of both: a signed type with a wide unsigned one, an integer
  with a floating-point type of too little precision, the half formats with each other, the FP8 formats with each
  other, and \<open>F64\<close> with \<open>Complex64\<close>.
\<close>

definition lossy_promotion :: "dtype \<Rightarrow> dtype \<Rightarrow> bool" where
  "lossy_promotion a b \<longleftrightarrow>
     (a, b) \<in> {(I64, U64), (I32, U64), (I16, U64), (I16, U32), (I8, U64), (I8, U32), (I8, U16),
       (F16, BF16), (FP8E5M2, FP8E4M3), (F64, Complex64)}
     \<or> a \<in> {I64, U64} \<and> b \<in> {F64, F32, F16, BF16, FP8E4M3, FP8E5M2, Complex64, Complex128}
     \<or> a \<in> {I32, U32} \<and> b \<in> {F32, F16, BF16, FP8E4M3, FP8E5M2, Complex64}
     \<or> a \<in> {I16, U16} \<and> b \<in> {F16, BF16, FP8E4M3, FP8E5M2}
     \<or> a \<in> {I8, U8} \<and> b \<in> {FP8E4M3, FP8E5M2}"

text \<open>Sufficient conditions for a type to hold the values of another, and to miss one of them.\<close>

definition keeps :: "dtype \<Rightarrow> dtype \<Rightarrow> bool" where
  "keeps s d \<longleftrightarrow> can_cast_safely s d \<and> \<not> lossy_cast s d \<or> s \<in> {I8, U8} \<and> d \<in> {BF16, F16}"

fun precision :: "dtype \<Rightarrow> nat" where
  "precision F64 = 53" | "precision F32 = 24" | "precision F16 = 11" | "precision BF16 = 8"
| "precision FP8E4M3 = 4" | "precision FP8E5M2 = 3" | "precision _ = 0"

definition misses :: "dtype \<Rightarrow> dtype \<Rightarrow> bool" where
  "misses s d \<longleftrightarrow>
     (s, d) \<in> {(U64, I64), (U64, I32), (U32, I32), (U64, I16), (U32, I16), (U16, I16)}
     \<or> (s, d) \<in> {(F16, BF16), (FP8E5M2, FP8E4M3), (F64, Complex64)}
     \<or> is_int s \<and> (let c = (case complex_component_dtype d of Some c \<Rightarrow> c | None \<Rightarrow> d)
         in is_float c \<and> precision c < 8 * size_in_bytes s - (if is_signed_int s then 1 else 0))"

lemma half_holds_bytes:
  "s \<in> {I8, U8} \<Longrightarrow> d \<in> {BF16, F16} \<Longrightarrow> dtype_values s \<subseteq> dtype_values d"
proof -
  assume s: "s \<in> {I8, U8}" and d: "d \<in> {BF16, F16}"
  have "of_int ` int_range s \<subseteq> float_values d"
  proof
    fix x :: rat assume "x \<in> of_int ` int_range s"
    then obtain n where n: "x = of_int n" "\<bar>n\<bar> < 2 ^ 8" using s by auto
    then have "\<bar>n\<bar> < 2 ^ 11" by simp
    with n d int_in_fmt[of n 8 "-126" 127] int_in_fmt[of n 11 "-14" 15] show "x \<in> float_values d" by auto
  qed
  with s d show ?thesis
    by (auto simp: dtype_values_def complex_component_dtype_def simp del: float_values.simps(3,4) int_range.simps
        dest: subsetD[OF _ imageI])
qed

lemma keeps_values: "keeps s d \<Longrightarrow> dtype_values s \<subseteq> dtype_values d"
  unfolding keeps_def using cast_values_iff half_holds_bytes by blast

lemma too_precise: "is_float c \<Longrightarrow> of_int (2 ^ precision c + 1) \<notin> float_values c"
  using odd_not_in_fmt[of "precision c"] by (cases c) (auto simp: is_float_def)

lemma fmt_bound: "x \<in> fmt_values p emin emax \<Longrightarrow> \<bar>x\<bar> < 2 powi (emax + 1)"
proof -
  assume "x \<in> fmt_values p emin emax"
  then obtain c e where x: "x = of_int c * 2 powi e" and c: "\<bar>c\<bar> < 2 ^ p" and e: "e \<le> emax - int p + 1"
    by (auto simp: fmt_values_def)
  have "(2 :: rat) powi e \<le> 2 powi (emax - int p + 1)" using e by (simp add: power_int_increasing)
  moreover have "of_int \<bar>c\<bar> < (2 :: rat) ^ p" using c by (metis of_int_less_iff of_int_numeral of_int_power)
  ultimately have "of_int \<bar>c\<bar> * 2 powi e \<le> of_int \<bar>c\<bar> * (2 :: rat) powi (emax - int p + 1)"
    by (intro mult_left_mono) auto
  also have "\<dots> < 2 ^ p * 2 powi (emax - int p + 1)"
    using \<open>of_int \<bar>c\<bar> < 2 ^ p\<close> by (intro mult_strict_right_mono) auto
  also have "(2 :: rat) ^ p * 2 powi (emax - int p + 1) = 2 powi (int p + (emax - int p + 1))"
    by (subst power_int_add) (simp_all del: power_int_add_1)
  finally show ?thesis by (simp add: x abs_mult)
qed

lemma misses_float_pairs:
  "\<not> float_values F16 \<subseteq> float_values BF16" "\<not> float_values FP8E5M2 \<subseteq> float_values FP8E4M3"
  "\<not> float_values F64 \<subseteq> float_values F32"
proof -
  have "of_int 257 \<in> float_values F16" using int_in_fmt[of 257 11 "-14" 15] by simp
  moreover have "of_int 257 \<notin> float_values BF16" using odd_not_in_fmt[of 8 "-126" 127] by simp
  ultimately show "\<not> float_values F16 \<subseteq> float_values BF16" by blast
  have "(512 :: rat) = of_int 1 * 2 powi 9" by simp
  then have "512 \<in> float_values FP8E5M2" by (simp only: float_values.simps fmt_values_def) fastforce
  moreover have "512 \<notin> float_values FP8E4M3" using fmt_bound[of 512 4 "-6" 8] by auto
  ultimately show "\<not> float_values FP8E5M2 \<subseteq> float_values FP8E4M3" by blast
  have "of_int (2 ^ 24 + 1) \<in> float_values F64" using int_in_fmt[of "2 ^ 24 + 1" 53 "-1022" 1023] by simp
  moreover have "of_int (2 ^ 24 + 1) \<notin> float_values F32" using odd_not_in_fmt[of 24 "-126" 127] by simp
  ultimately show "\<not> float_values F64 \<subseteq> float_values F32" by blast
qed

lemma int_below_range:
  "is_int s \<Longrightarrow> n < (2 :: nat) ^ (8 * size_in_bytes s - (if is_signed_int s then 1 else 0)) \<Longrightarrow> int n \<in> int_range s"
  by (cases s) (auto simp: is_int_def is_signed_int_def is_unsigned_int_def size_in_bytes_def)

lemma misses_value:
  assumes "misses s d" shows "\<not> dtype_values s \<subseteq> dtype_values d"
proof -
  consider (ints) "(s, d) \<in> {(U64, I64), (U64, I32), (U32, I32), (U64, I16), (U32, I16), (U16, I16)}"
    | (floats) "(s, d) \<in> {(F16, BF16), (FP8E5M2, FP8E4M3), (F64, Complex64)}"
    | (mixed) c where "is_int s" "is_float c" "c = (case complex_component_dtype d of Some c \<Rightarrow> c | None \<Rightarrow> d)"
        "precision c < 8 * size_in_bytes s - (if is_signed_int s then 1 else 0)"
    using assms unfolding misses_def Let_def by blast
  then show ?thesis
  proof cases
    case ints
    then have "is_int s" "is_int d" "\<not> int_range s \<subseteq> int_range d"
      by (auto simp: is_int_def is_signed_int_def is_unsigned_int_def)
    then show ?thesis by (simp add: int_values_iff)
  next
    case floats
    then show ?thesis
      using misses_float_pairs zero_in_fmt[of 24 "-126" 127]
      by (auto simp: dtype_values_def complex_component_dtype_def times_subset_iff simp del: float_values.simps(1,3-6))
  next
    case mixed
    let ?n = "2 ^ precision c + 1 :: nat" and ?w = "8 * size_in_bytes s - (if is_signed_int s then 1 else 0)"
    have "(2 :: nat) * 2 ^ precision c \<le> 2 ^ ?w" using mixed(4) power_increasing[of "Suc (precision c)" ?w "2 :: nat"] by simp
    moreover have "1 < (2 :: nat) ^ precision c" using mixed(2) by (cases c) (simp_all add: is_float_def)
    ultimately have "?n < 2 ^ ?w" by linarith
    then have "int ?n \<in> int_range s" by (rule int_below_range[OF mixed(1)])
    then have "of_int (int ?n) \<in> real_values s" by (simp only: real_values_def) blast
    moreover have "complex_component_dtype s = None"
      using mixed(1) by (cases s) (auto simp: is_int_def is_signed_int_def is_unsigned_int_def complex_component_dtype_def)
    ultimately have "(of_int (2 ^ precision c + 1), 0) \<in> dtype_values s" by (simp add: dtype_values_cases add.commute)
    moreover have "(of_int (2 ^ precision c + 1), 0) \<notin> dtype_values d"
      using too_precise[OF mixed(2)] mixed(2,3)
      by (cases d) (auto simp: dtype_values_def complex_component_dtype_def is_float_def simp del: float_values.simps(1-6))
    ultimately show ?thesis by blast
  qed
qed

lemma promote_cases:
  "(if lossy_promotion a b \<or> lossy_promotion b a then misses a (promote a b) \<or> misses b (promote a b)
    else keeps a (promote a b) \<and> keeps b (promote a b))"
proof -
  have "\<forall>a b. (if lossy_promotion a b \<or> lossy_promotion b a then misses a (promote a b) \<or> misses b (promote a b)
    else keeps a (promote a b) \<and> keeps b (promote a b))" unfolding all_dtype by code_simp
  then show ?thesis by blast
qed

lemma promote_keeps_iff:
  "dtype_values a \<union> dtype_values b \<subseteq> dtype_values (promote a b) \<longleftrightarrow> \<not> lossy_promotion a b \<and> \<not> lossy_promotion b a"
  using promote_cases[of a b] keeps_values misses_value by (auto simp: Un_subset_iff split: if_splits)

text \<open>
  C5. What \<open>promote\<close> preserves. Promotion is symmetric and idempotent, gives a complex type if an
  operand is complex, otherwise a floating-point type if one is floating-point, and an integer type for two
  integers. For every pair of types, the common type holds all values of both operands (their finite numbers)
  exactly when the pair is not in the table \<open>lossy_promotion\<close>: it misses some for seven signed/unsigned pairs
  (such as \<open>I8\<close> with \<open>U64\<close>, whose common type is \<open>I16\<close>), for an integer with a floating-point or complex type of
  less precision than its width (such as \<open>I64\<close> with \<open>F32\<close>), for \<open>F16\<close> with \<open>BF16\<close>, for the two FP8 formats and for
  \<open>F64\<close> with \<open>Complex64\<close>.
\<close>

theorem promote_preserves:
  "promote a b = promote b a \<and> promote a a = a
   \<and> (is_complex a \<or> is_complex b \<longleftrightarrow> is_complex (promote a b))
   \<and> (is_float (promote a b) \<longleftrightarrow> (is_float a \<or> is_float b) \<and> \<not> is_complex a \<and> \<not> is_complex b)
   \<and> (is_int a \<and> is_int b \<longrightarrow> is_int (promote a b))
   \<and> (dtype_values a \<union> dtype_values b \<subseteq> dtype_values (promote a b)
        \<longleftrightarrow> \<not> lossy_promotion a b \<and> \<not> lossy_promotion b a)"
proof -
  have "\<forall>a b. (is_complex a \<or> is_complex b \<longleftrightarrow> is_complex (promote a b))
     \<and> (is_float (promote a b) \<longleftrightarrow> (is_float a \<or> is_float b) \<and> \<not> is_complex a \<and> \<not> is_complex b)
     \<and> (is_int a \<and> is_int b \<longrightarrow> is_int (promote a b))" unfolding all_dtype by code_simp
  moreover have "promote a a = a" by (simp add: promote_def)
  ultimately show ?thesis using promote_keeps_iff[of a b] promote_commute[of a b] by blast
qed

lemma promote_preserves_witness:
  "is_int (promote I16 U8) \<and> dtype_values I16 \<union> dtype_values U8 \<subseteq> dtype_values (promote I16 U8)
   \<and> \<not> dtype_values I8 \<union> dtype_values U64 \<subseteq> dtype_values (promote I8 U64)
   \<and> \<not> dtype_values F16 \<union> dtype_values BF16 \<subseteq> dtype_values (promote F16 BF16)"
proof -
  have "is_int I16" "is_int U8" by (simp_all add: is_int_def is_signed_int_def is_unsigned_int_def)
  moreover have "\<not> lossy_promotion I16 U8" "\<not> lossy_promotion U8 I16" "lossy_promotion I8 U64" "lossy_promotion F16 BF16"
    by (simp_all add: lossy_promotion_def)
  moreover have "dtype_values a \<union> dtype_values b \<subseteq> dtype_values (promote a b)
      \<longleftrightarrow> \<not> lossy_promotion a b \<and> \<not> lossy_promotion b a" for a b
    using promote_preserves[of a b] by (elim conjE)
  moreover have "is_int a \<Longrightarrow> is_int b \<Longrightarrow> is_int (promote a b)" for a b
    using promote_preserves[of a b] by (elim conjE impE) simp_all
  ultimately show ?thesis by simp
qed

end
