(* ===== verification/Fp8.thy ===== *)
theory Fp8
  imports Prelude
begin

text \<open>
  The 8-bit floating-point formats (\<open>src/dtype/fp8.rs\<close>): conversion between \<open>f32\<close> and E4M3 / E5M2.
  An \<open>f32\<close> is its 32 bits (\<open>to_bits\<close>, \<open>from_bits\<close>), a code is its 8 bits, and the conversions are the
  source's shifts and masks on words; only the exponent is an \<open>int\<close>, as the source makes it an \<open>i32\<close>.
  The main result is that both conversions round to the nearest code, ties to the even one, and that
  decoding is exact.
\<close>

unbundle bit_operations_syntax

section \<open>E4M3\<close>

definition f32_nan :: u32 where "f32_nan = 0x7FC00000"
definition f32_inf :: u32 where "f32_inf = 0x7F800000"

text \<open>Rounding a significand away by \<open>shift\<close> bits, to nearest even, as the subnormal paths do.\<close>

definition round_shift :: "u32 \<Rightarrow> nat \<Rightarrow> u32" where
  "round_shift significand shift =
     (let truncated = drop_bit shift significand;
          round_bit = drop_bit (shift - 1) significand AND 1;
          remainder = significand AND (push_bit (shift - 1) 1 - 1)
      in if round_bit \<noteq> 0 \<and> (remainder \<noteq> 0 \<or> truncated AND 1 \<noteq> 0) then truncated + 1 else truncated)"

definition f32_to_fp8_e4m3 :: "u32 \<Rightarrow> u8" where
  "f32_to_fp8_e4m3 bits =
     (let sign = (ucast (drop_bit 31 bits) :: u8);
          exp = uint (drop_bit 23 bits AND 0xFF);
          mant = bits AND 0x7FFFFF
      in if exp = 255 then (if mant \<noteq> 0 then 0x7F OR push_bit 7 sign else 0x7E OR push_bit 7 sign)
         else if exp = 0 \<and> mant = 0 then push_bit 7 sign
         else
           let unbiased_exp = (if exp = 0 then - 126 else exp - 127)
           in if 8 < unbiased_exp then 0x7E OR push_bit 7 sign
              else if unbiased_exp < - 10 then push_bit 7 sign
              else if unbiased_exp < - 6 then
                let significand = (if exp = 0 then mant else 0x800000 OR mant);
                    fp8_mant = round_shift significand (nat (14 - unbiased_exp))
                in push_bit 7 sign OR ucast fp8_mant
              else
                let fp8_exp = (word_of_int (unbiased_exp + 7) :: u8);
                    finish = (\<lambda>fp8_mant :: u8.
                      if fp8_exp = 15 \<and> fp8_mant = 7 then 0x7E OR push_bit 7 sign
                      else push_bit 7 sign OR push_bit 3 fp8_exp OR (fp8_mant AND 0x07))
                in if exp = 0 then finish (ucast (drop_bit (23 - 3) mant))
                   else
                     let mant_shifted = drop_bit (23 - 3 - 1) mant;
                         round_bit = mant_shifted AND 1 \<noteq> 0;
                         mant_3bit = (ucast (drop_bit 1 mant_shifted) :: u8);
                         remainder = mant AND (push_bit (23 - 4) 1 - 1)
                     in if round_bit \<and> (remainder \<noteq> 0 \<or> mant_3bit AND 1 \<noteq> 0) then
                          if mant_3bit = 0x07 then
                            if 15 \<le> fp8_exp then 0x7E OR push_bit 7 sign
                            else push_bit 7 sign OR push_bit 3 (fp8_exp + 1)
                          else finish (mant_3bit + 1)
                        else finish mant_3bit)"

text \<open>The \<open>f32\<close> with value \<open>n * 2^e\<close>, for \<open>1 \<le> n < 8\<close>: the products and quotients by powers of two that
  the decoders compute for subnormal codes are exact.\<close>

definition f32_small :: "nat \<Rightarrow> int \<Rightarrow> u32" where
  "f32_small n e =
     (let p = (if n < 2 then 0 else if n < 4 then 1 else 2)
      in word_of_int ((e + int p + 127) * 2 ^ 23 + int n * 2 ^ (23 - p) - 2 ^ 23))"

definition fp8_e4m3_to_f32 :: "u8 \<Rightarrow> u32" where
  "fp8_e4m3_to_f32 x =
     (let sign = drop_bit 7 x AND 1;
          exp = drop_bit 3 x AND 0x0F;
          mant = x AND 0x07;
          f32_sign = push_bit 31 (ucast sign)
      in if exp = 15 \<and> mant = 7 then f32_nan
         else if exp = 0 \<and> mant = 0 then f32_sign
         else if exp = 0 then f32_sign OR f32_small (unat mant) (- 9)
         else f32_sign OR push_bit 23 (ucast exp + 120) OR push_bit 20 (ucast mant))"

definition e4m3_is_nan :: "u8 \<Rightarrow> bool" where "e4m3_is_nan x \<longleftrightarrow> x AND 0x7F = 0x7F"
definition e4m3_is_zero :: "u8 \<Rightarrow> bool" where "e4m3_is_zero x \<longleftrightarrow> x AND 0x7F = 0"
definition e4m3_is_negative :: "u8 \<Rightarrow> bool" where
  "e4m3_is_negative x \<longleftrightarrow> x AND 0x80 \<noteq> 0 \<and> \<not> e4m3_is_zero x"

section \<open>E5M2\<close>

definition f32_to_fp8_e5m2 :: "u32 \<Rightarrow> u8" where
  "f32_to_fp8_e5m2 bits =
     (let sign = (ucast (drop_bit 31 bits) :: u8);
          exp = uint (drop_bit 23 bits AND 0xFF);
          mant = bits AND 0x7FFFFF
      in if exp = 255 then (if mant \<noteq> 0 then 0x7F OR push_bit 7 sign else 0x7C OR push_bit 7 sign)
         else if exp = 0 \<and> mant = 0 then push_bit 7 sign
         else
           let unbiased_exp = (if exp = 0 then - 126 else exp - 127)
           in if 15 < unbiased_exp then 0x7C OR push_bit 7 sign
              else if unbiased_exp < - 17 then push_bit 7 sign
              else if unbiased_exp < - 14 then
                let significand = (if exp = 0 then mant else 0x800000 OR mant);
                    fp8_mant = round_shift significand (nat (7 - unbiased_exp))
                in push_bit 7 sign OR ucast fp8_mant
              else
                let fp8_exp = (word_of_int (unbiased_exp + 15) :: u8);
                    finish = (\<lambda>fp8_mant :: u8.
                      push_bit 7 sign OR push_bit 2 fp8_exp OR (fp8_mant AND 0x03))
                in if exp = 0 then finish (ucast (drop_bit (23 - 2) mant))
                   else
                     let mant_shifted = drop_bit (23 - 2 - 1) mant;
                         round_bit = mant_shifted AND 1 \<noteq> 0;
                         mant_2bit = (ucast (drop_bit 1 mant_shifted) :: u8);
                         remainder = mant AND (push_bit (23 - 3) 1 - 1)
                     in if round_bit \<and> (remainder \<noteq> 0 \<or> mant_2bit AND 1 \<noteq> 0) then
                          if mant_2bit = 0x03 then
                            if 30 \<le> fp8_exp then 0x7C OR push_bit 7 sign
                            else push_bit 7 sign OR push_bit 2 (fp8_exp + 1)
                          else finish (mant_2bit + 1)
                        else finish mant_2bit)"

definition fp8_e5m2_to_f32 :: "u8 \<Rightarrow> u32" where
  "fp8_e5m2_to_f32 x =
     (let sign = drop_bit 7 x AND 1;
          exp = drop_bit 2 x AND 0x1F;
          mant = x AND 0x03;
          f32_sign = push_bit 31 (ucast sign)
      in if exp = 31 then (if mant \<noteq> 0 then f32_nan else f32_sign OR f32_inf)
         else if exp = 0 \<and> mant = 0 then f32_sign
         else if exp = 0 then f32_sign OR f32_small (unat mant) (- 16)
         else f32_sign OR push_bit 23 (ucast exp + 112) OR push_bit 21 (ucast mant))"

definition e5m2_is_nan :: "u8 \<Rightarrow> bool" where
  "e5m2_is_nan x \<longleftrightarrow> drop_bit 2 x AND 0x1F = 0x1F \<and> x AND 0x03 \<noteq> 0"
definition e5m2_is_infinite :: "u8 \<Rightarrow> bool" where "e5m2_is_infinite x \<longleftrightarrow> x AND 0x7F = 0x7C"
definition e5m2_is_zero :: "u8 \<Rightarrow> bool" where "e5m2_is_zero x \<longleftrightarrow> x AND 0x7F = 0"
definition e5m2_is_negative :: "u8 \<Rightarrow> bool" where
  "e5m2_is_negative x \<longleftrightarrow> x AND 0x80 \<noteq> 0 \<and> \<not> e5m2_is_zero x"

section \<open>Rounding as arithmetic\<close>

text \<open>\<open>q / 2^s\<close> rounded to the nearest integer, ties to the even one, as the bits decide it.\<close>

definition rne :: "nat \<Rightarrow> nat \<Rightarrow> nat" where
  "rne q s = q div 2 ^ s +
     (if odd (q div 2 ^ (s - 1)) \<and> (q mod 2 ^ (s - 1) \<noteq> 0 \<or> odd (q div 2 ^ s)) then 1 else 0)"

lemma push_1_minus_1: "push_bit k 1 - 1 = (mask k :: 'a::len word)"
  by (simp add: mask_eq_exp_minus_1)

lemma round_shift_rne:
  assumes "0 < s"
  shows "unat (round_shift w s) = rne (unat w) s"
proof -
  have "unat w div 2 ^ s < 2 ^ 31"
  proof -
    have "unat w div 2 ^ s \<le> unat w div 2 ^ 1" using assms by (intro div_le_mono2 power_increasing) auto
    moreover have "unat w < 2 ^ 32" using unsigned_less[of w, where 'a = nat] by simp
    ultimately show ?thesis by simp
  qed
  then have inc: "unat (drop_bit s w + 1) = unat w div 2 ^ s + 1"
    by (simp add: unat_word_ariths unat_drop)
  have z: "(w AND (push_bit (s - 1) 1 - 1) \<noteq> 0) \<longleftrightarrow> unat w mod 2 ^ (s - 1) \<noteq> 0"
    unfolding push_1_minus_1 unat_and_mask[symmetric] by (simp add: unat_eq_0)
  show ?thesis
    by (simp only: round_shift_def Let_def and_1_odd z unat_drop rne_def inc if_distrib[of unat] split: if_split)
      simp
qed

text \<open>The fields of an \<open>f32\<close> and its magnitude in units of \<open>2^-149\<close>.\<close>

definition f32_exp :: "u32 \<Rightarrow> nat" where "f32_exp b = unat (drop_bit 23 b AND 0xFF)"
definition f32_mant :: "u32 \<Rightarrow> nat" where "f32_mant b = unat (b AND 0x7FFFFF)"
definition f32_neg :: "u32 \<Rightarrow> bool" where "f32_neg b \<longleftrightarrow> bit b 31"

definition f32_mag :: "u32 \<Rightarrow> nat" where
  "f32_mag b = (if f32_exp b = 0 then f32_mant b else (2 ^ 23 + f32_mant b) * 2 ^ (f32_exp b - 1))"

definition f32_finite :: "u32 \<Rightarrow> bool" where "f32_finite b \<longleftrightarrow> f32_exp b \<noteq> 255"

lemma mask_consts: "(0x7FFFFF :: u32) = mask 23" "(0xFF :: u32) = mask 8" "(7 :: u8) = mask 3" "(3 :: u8) = mask 2"
  by (simp_all add: mask_eq_exp_minus_1)

lemma f32_mant_less: "f32_mant b < 2 ^ 23"
  by (simp only: f32_mant_def mask_consts unat_and_mask) simp

lemma f32_exp_less: "f32_exp b < 256"
  by (simp only: f32_exp_def mask_consts unat_and_mask) simp

lemma sign_word: "ucast (drop_bit 31 (b :: u32)) = (of_bool (f32_neg b) :: u8)"
proof -
  have "unat (drop_bit 31 b) < 2"
  proof -
    have "unat b < 2 ^ 32" using unsigned_less[of b, where 'a = nat] by simp
    then show ?thesis unfolding unat_drop by (simp add: less_mult_imp_div_less)
  qed
  moreover have "odd (unat (drop_bit 31 b)) \<longleftrightarrow> f32_neg b"
    using bit_unsigned_iff[where 'a = nat, of b 31] bit_iff_odd[of "unat b" 31]
    by (simp add: f32_neg_def unat_drop)
  ultimately have "unat (drop_bit 31 b) = of_bool (f32_neg b)" by (cases "f32_neg b") (auto simp: less_2_cases_iff)
  then have "unat (ucast (drop_bit 31 b) :: u8) = unat (of_bool (f32_neg b) :: u8)"
    by (simp add: unat_ucast)
  then show ?thesis by (simp only: word_unat_eq_iff)
qed

section \<open>The conversions as arithmetic\<close>

lemma unat_or_add:
  fixes a b :: "'a::len word"
  assumes "a AND b = 0" and "unat a + unat b < 2 ^ LENGTH('a)"
  shows "unat (a OR b) = unat a + unat b"
proof -
  have "a OR b = a + b" by (rule disjunctive_add_eq_or[OF assms(1), symmetric])
  with assms(2) show ?thesis by (simp add: unat_word_ariths)
qed

lemma significand_unat: "unat (0x800000 OR (b AND 0x7FFFFF) :: u32) = 2 ^ 23 + f32_mant b"
proof -
  have "(0x800000 :: u32) AND (b AND 0x7FFFFF) = b AND (0x7FFFFF AND 0x800000)"
    by (simp only: and.commute[of 8388608] and.assoc)
  then have "(0x800000 :: u32) AND (b AND 0x7FFFFF) = 0" by simp
  from unat_or_add[OF this] show ?thesis using f32_mant_less[of b] by (simp add: f32_mant_def)
qed

lemma uint_exp: "uint (drop_bit 23 b AND 0xFF) = int (f32_exp b)"
  by (simp add: f32_exp_def)

lemma sign_pack:
  "unat (push_bit 7 (of_bool s :: u8)) = 128 * of_bool s"
  "unat (0x7F OR push_bit 7 (of_bool s :: u8)) = 128 * of_bool s + 127"
  "unat (0x7E OR push_bit 7 (of_bool s :: u8)) = 128 * of_bool s + 126"
  "unat (0x7C OR push_bit 7 (of_bool s :: u8)) = 128 * of_bool s + 124"
  by (cases s; simp)+

lemma pack_aux:
  "list_all (\<lambda>m. unat (push_bit 7 (0 :: u8) OR word_of_nat m) = m
     \<and> unat (push_bit 7 (1 :: u8) OR word_of_nat m) = 128 + m) [0..<10]"
  "list_all (\<lambda>e. list_all (\<lambda>m.
     unat (push_bit 7 (0 :: u8) OR push_bit 3 (word_of_nat e) OR (word_of_nat m AND 0x07)) = 8 * e + m
     \<and> unat (push_bit 7 (1 :: u8) OR push_bit 3 (word_of_nat e) OR (word_of_nat m AND 0x07)) = 128 + 8 * e + m)
     [0..<8]) [0..<16]"
  "list_all (\<lambda>e. list_all (\<lambda>m.
     unat (push_bit 7 (0 :: u8) OR push_bit 2 (word_of_nat e) OR (word_of_nat m AND 0x03)) = 4 * e + m
     \<and> unat (push_bit 7 (1 :: u8) OR push_bit 2 (word_of_nat e) OR (word_of_nat m AND 0x03)) = 128 + 4 * e + m)
     [0..<4]) [0..<32]"
  by code_simp+

lemma pack_sub: "unat w < 10 \<Longrightarrow> unat (push_bit 7 (of_bool s :: u8) OR w) = 128 * of_bool s + unat w"
  using pack_aux(1) by (cases s) (auto simp: list_all_iff dest!: bspec[of _ _ "unat w"])

lemma pack_e4m3:
  "unat e < 16 \<Longrightarrow> unat m < 8 \<Longrightarrow>
   unat (push_bit 7 (of_bool s :: u8) OR push_bit 3 e OR (m AND 0x07)) = 128 * of_bool s + 8 * unat e + unat m"
  using pack_aux(2)[unfolded list_all_iff, THEN bspec[of _ _ "unat e"], THEN bspec[of _ _ "unat m"]]
  by (cases s) auto

lemma pack_e5m2:
  "unat e < 32 \<Longrightarrow> unat m < 4 \<Longrightarrow>
   unat (push_bit 7 (of_bool s :: u8) OR push_bit 2 e OR (m AND 0x03)) = 128 * of_bool s + 4 * unat e + unat m"
  using pack_aux(3)[unfolded list_all_iff, THEN bspec[of _ _ "unat e"], THEN bspec[of _ _ "unat m"]]
  by (cases s) auto

text \<open>The magnitude of the code that each conversion computes from exponent and mantissa field.\<close>

definition e4m3_code :: "nat \<Rightarrow> nat \<Rightarrow> nat" where
  "e4m3_code e m =
     (if e < 117 then 0
      else if e < 121 then rne (2 ^ 23 + m) (141 - e)
      else if 135 < e then 126
      else min 126 (8 * (e - 120) + rne m 20))"

definition e5m2_code :: "nat \<Rightarrow> nat \<Rightarrow> nat" where
  "e5m2_code e m =
     (if e < 110 then 0
      else if e < 113 then rne (2 ^ 23 + m) (134 - e)
      else if 142 < e then 124
      else min 124 (4 * (e - 112) + rne m 21))"

lemma rne_small: "m < 2 ^ (s + k) \<Longrightarrow> 0 < s \<Longrightarrow> rne m s \<le> 2 ^ k"
proof -
  assume "m < 2 ^ (s + k)" "0 < s"
  then have "m div 2 ^ s < 2 ^ k" by (simp add: less_mult_imp_div_less power_add mult.commute)
  then show ?thesis by (simp add: rne_def)
qed

lemma rne_20:
  "rne m 20 = m div 2 ^ 20 + (if odd (m div 2 ^ 19) \<and> (m mod 2 ^ 19 \<noteq> 0 \<or> odd (m div 2 ^ 20)) then 1 else 0)"
  by (simp add: rne_def)

lemma unat_u8: "n < 256 \<Longrightarrow> unat (word_of_nat n :: u8) = n"
  by (simp add: unsigned_of_nat take_bit_nat_eq_self)

lemma unat_inc_u8: "unat w < 255 \<Longrightarrow> unat (w + 1 :: u8) = unat w + 1"
  by (simp add: unat_word_ariths)

lemma pack_e4m3_top:
  "unat e < 16 \<Longrightarrow> unat (push_bit 7 (of_bool s :: u8) OR push_bit 3 e) = 128 * of_bool s + 8 * unat e"
  using pack_e4m3[of e 0 s] by simp

lemma pack_e5m2_top:
  "unat e < 32 \<Longrightarrow> unat (push_bit 7 (of_bool s :: u8) OR push_bit 2 e) = 128 * of_bool s + 4 * unat e"
  using pack_e5m2[of e 0 s] by simp

lemma e4m3_code_eq:
  assumes fin: "f32_finite b"
  shows "unat (f32_to_fp8_e4m3 b) = 128 * of_bool (f32_neg b) + e4m3_code (f32_exp b) (f32_mant b)"
proof -
  let ?E = "f32_exp b" and ?M = "f32_mant b" and ?s = "of_bool (f32_neg b) :: u8"
  note M = f32_mant_less[of b]
  have m0: "b AND 0x7FFFFF = 0 \<longleftrightarrow> ?M = 0" by (simp add: f32_mant_def unat_eq_0)
  have E: "?E \<noteq> 255" "?E < 256" using fin f32_exp_less[of b] by (simp_all add: f32_finite_def)
  note base = f32_to_fp8_e4m3_def[of b, unfolded Let_def sign_word uint_exp]
  consider "?E < 117" | "117 \<le> ?E" "?E < 121" | "135 < ?E" | "121 \<le> ?E" "?E \<le> 135" by linarith
  then show ?thesis
  proof cases
    case 1
    then have "f32_to_fp8_e4m3 b = push_bit 7 ?s" using E by (auto simp: base)
    with 1 show ?thesis by (simp only: sign_pack) (simp add: e4m3_code_def)
  next
    case 2
    let ?w = "ucast (round_shift (0x800000 OR (b AND 0x7FFFFF)) (141 - ?E)) :: u8"
    have "nat (14 - (int ?E - 127)) = 141 - ?E" using 2 by simp
    then have eq: "f32_to_fp8_e4m3 b = push_bit 7 ?s OR ?w" using 2 E by (auto simp: base)
    have "2 ^ 23 + ?M < 2 ^ (141 - ?E + 3)"
    proof -
      have "(2::nat) ^ 24 \<le> 2 ^ (141 - ?E + 3)" using 2 by (intro power_increasing) auto
      moreover have "2 ^ 23 + ?M < (2::nat) ^ 24" using M by simp
      ultimately show ?thesis by (rule less_le_trans[rotated])
    qed
    from rne_small[OF this] have r: "rne (2 ^ 23 + ?M) (141 - ?E) \<le> 8" using 2 by simp
    have "unat ?w = rne (2 ^ 23 + ?M) (141 - ?E) mod 256"
      using 2 by (simp add: unat_ucast round_shift_rne significand_unat)
    then have w: "unat ?w = rne (2 ^ 23 + ?M) (141 - ?E)" using r by simp
    have "unat (push_bit 7 ?s OR ?w) = 128 * of_bool (f32_neg b) + rne (2 ^ 23 + ?M) (141 - ?E)"
      using pack_sub[of ?w "f32_neg b"] r by (simp only: w)
    with eq 2 show ?thesis by (simp only: e4m3_code_def) simp
  next
    case 3
    then have "f32_to_fp8_e4m3 b = 0x7E OR push_bit 7 ?s" using E by (auto simp: base)
    with 3 show ?thesis by (simp only: sign_pack) (simp add: e4m3_code_def)
  next
    case 4
    let ?fe = "word_of_int (int ?E - 127 + 7) :: u8"
    let ?k = "ucast (drop_bit 1 (drop_bit 19 (b AND 0x7FFFFF))) :: u8"
    let ?up = "odd (?M div 2 ^ 19) \<and> (?M mod 2 ^ 19 \<noteq> 0 \<or> odd (?M div 2 ^ 20))"
    have fe: "unat ?fe = ?E - 120"
    proof -
      have "int ?E - 127 + 7 = int (?E - 120)" using 4 by simp
      then have "?fe = word_of_nat (?E - 120)" by (simp only: of_int_of_nat_eq)
      then show ?thesis using unat_u8[of "?E - 120"] 4 by (simp only:)
    qed
    have k: "unat ?k = ?M div 2 ^ 20"
    proof -
      have "unat ?k = ?M div 2 ^ 19 div 2 ^ 1 mod 2 ^ LENGTH(8)"
        by (simp only: unat_ucast unat_drop f32_mant_def)
      also have "\<dots> = ?M div 2 ^ 20" using M by (simp add: div_mult2_eq[symmetric])
      finally show ?thesis .
    qed
    then have k8: "unat ?k < 8" using M by simp
    have inc: "unat (?k + 1) = ?M div 2 ^ 20 + 1" using k k8 by (simp add: unat_word_ariths)
    have k7: "?k = 7 \<longleftrightarrow> ?M div 2 ^ 20 = 7" and f15: "15 \<le> ?fe \<longleftrightarrow> 15 \<le> ?E - 120"
      and fe15: "?fe = 15 \<longleftrightarrow> ?E - 120 = 15"
      by (simp_all only: word_unat_eq_iff word_le_nat_alt k fe) simp_all
    have rb: "drop_bit 19 (b AND 0x7FFFFF) AND 1 \<noteq> 0 \<longleftrightarrow> odd (?M div 2 ^ 19)"
      by (simp only: and_1_odd unat_drop f32_mant_def)
    have ko: "?k AND 1 \<noteq> 0 \<longleftrightarrow> odd (?M div 2 ^ 20)" by (simp only: and_1_odd k)
    have rem: "(b AND 0x7FFFFF) AND (push_bit 19 1 - 1) \<noteq> 0 \<longleftrightarrow> ?M mod 2 ^ 19 \<noteq> 0"
      unfolding push_1_minus_1 f32_mant_def unat_and_mask[symmetric] by (simp add: unat_eq_0)
    let ?fin = "\<lambda>m :: u8. if ?fe = 15 \<and> m = 7 then 0x7E OR push_bit 7 ?s
      else push_bit 7 ?s OR push_bit 3 ?fe OR (m AND 0x07)"
    have eq: "f32_to_fp8_e4m3 b =
      (if ?up then if ?M div 2 ^ 20 = 7 then if 15 \<le> ?E - 120 then 0x7E OR push_bit 7 ?s
            else push_bit 7 ?s OR push_bit 3 (?fe + 1) else ?fin (?k + 1) else ?fin ?k)"
    proof -
      have "23 - 3 - 1 = (19 :: nat)" "23 - 4 = (19 :: nat)" by simp_all
      moreover have "int ?E \<noteq> 255" "int ?E \<noteq> 0" "\<not> 8 < int ?E - 127" "\<not> int ?E - 127 < - 10"
        "\<not> int ?E - 127 < - 6" using 4 by auto
      ultimately show ?thesis
        unfolding base using rb ko rem k7 f15 by (simp only: if_False if_True simp_thms)
    qed
    have f: "unat (?fin m) = 128 * of_bool (f32_neg b) + min 126 (8 * (?E - 120) + unat m)"
      if "unat m < 8" for m
    proof (cases "?fe = 15 \<and> m = 7")
      case True
      then have "unat m = 7" "?E - 120 = 15" using fe15 by simp_all
      with True show ?thesis by (simp add: sign_pack)
    next
      case False
      then have "8 * (?E - 120) + unat m \<le> 126"
        using that 4 fe15 by (auto simp: word_unat_eq_iff)
      moreover have "unat ?fe < 16" using fe 4 by simp
      ultimately show ?thesis
        using pack_e4m3[OF _ that, of ?fe "f32_neg b"] fe by (auto simp: min_absorb2 simp only: if_not_P[OF False])
    qed
    have top: "unat (push_bit 7 ?s OR push_bit 3 (?fe + 1)) = 128 * of_bool (f32_neg b) + 8 * (?E - 119)"
      if "\<not> 15 \<le> ?E - 120"
    proof -
      have "unat (?fe + 1) = unat ?fe + 1" by (rule unat_inc_u8) (use fe 4 in linarith)
      then have e: "unat (?fe + 1) = ?E - 119" unfolding fe using 4 by linarith
      then have "unat (?fe + 1) < 16" using that by linarith
      from pack_e4m3_top[OF this] show ?thesis unfolding e .
    qed
    have r: "rne ?M 20 = ?M div 2 ^ 20 + (if ?up then 1 else 0)" by (rule rne_20)
    have c: "e4m3_code ?E ?M = min 126 (8 * (?E - 120) + rne ?M 20)" using 4 by (simp add: e4m3_code_def)
    show ?thesis
    proof (cases ?up)
      case False
      then show ?thesis using f[OF k8] unfolding eq c r k if_not_P[OF False] by simp
    next
      case up: True
      show ?thesis
      proof (cases "?M div 2 ^ 20 = 7")
        case 7: True
        have r8: "rne ?M 20 = 8" unfolding r if_P[OF up] using 7 by simp
        show ?thesis
        proof (cases "15 \<le> ?E - 120")
          case True
          have "min 126 (8 * (?E - 120) + 8) = 126" using True by linarith
          with sign_pack(3)[of "f32_neg b"] show ?thesis
            unfolding eq c r8 by (simp only: if_P[OF up] if_P[OF 7] if_P[OF True])
        next
          case False
          have "min 126 (8 * (?E - 120) + 8) = 8 * (?E - 119)" using 4 False by linarith
          with top[OF False] show ?thesis
            unfolding eq c r8 by (simp only: if_P[OF up] if_P[OF 7] if_not_P[OF False])
        qed
      next
        case n7: False
        then have "unat (?k + 1) < 8" using inc k k8 by simp
        from f[OF this] show ?thesis
          unfolding eq c r if_P[OF up] if_not_P[OF n7] inc .
      qed
    qed
  qed
qed

lemma rne_21:
  "rne m 21 = m div 2 ^ 21 + (if odd (m div 2 ^ 20) \<and> (m mod 2 ^ 20 \<noteq> 0 \<or> odd (m div 2 ^ 21)) then 1 else 0)"
  by (simp add: rne_def)

lemma e5m2_code_eq:
  assumes fin: "f32_finite b"
  shows "unat (f32_to_fp8_e5m2 b) = 128 * of_bool (f32_neg b) + e5m2_code (f32_exp b) (f32_mant b)"
proof -
  let ?E = "f32_exp b" and ?M = "f32_mant b" and ?s = "of_bool (f32_neg b) :: u8"
  note M = f32_mant_less[of b]
  have m0: "b AND 0x7FFFFF = 0 \<longleftrightarrow> ?M = 0" by (simp add: f32_mant_def unat_eq_0)
  have E: "?E \<noteq> 255" "?E < 256" using fin f32_exp_less[of b] by (simp_all add: f32_finite_def)
  note base = f32_to_fp8_e5m2_def[of b, unfolded Let_def sign_word uint_exp]
  consider "?E < 110" | "110 \<le> ?E" "?E < 113" | "142 < ?E" | "113 \<le> ?E" "?E \<le> 142" by linarith
  then show ?thesis
  proof cases
    case 1
    then have "f32_to_fp8_e5m2 b = push_bit 7 ?s" using E by (auto simp: base)
    with 1 show ?thesis by (simp only: sign_pack) (simp add: e5m2_code_def)
  next
    case 2
    let ?w = "ucast (round_shift (0x800000 OR (b AND 0x7FFFFF)) (134 - ?E)) :: u8"
    have "nat (7 - (int ?E - 127)) = 134 - ?E" using 2 by simp
    then have eq: "f32_to_fp8_e5m2 b = push_bit 7 ?s OR ?w" using 2 E by (auto simp: base)
    have "2 ^ 23 + ?M < 2 ^ (134 - ?E + 2)"
    proof -
      have "(2::nat) ^ 24 \<le> 2 ^ (134 - ?E + 2)" using 2 by (intro power_increasing) auto
      moreover have "2 ^ 23 + ?M < (2::nat) ^ 24" using M by simp
      ultimately show ?thesis by (rule less_le_trans[rotated])
    qed
    from rne_small[OF this] have r: "rne (2 ^ 23 + ?M) (134 - ?E) \<le> 4" using 2 by simp
    have "unat ?w = rne (2 ^ 23 + ?M) (134 - ?E) mod 256"
      using 2 by (simp add: unat_ucast round_shift_rne significand_unat)
    then have w: "unat ?w = rne (2 ^ 23 + ?M) (134 - ?E)" using r by simp
    have "unat (push_bit 7 ?s OR ?w) = 128 * of_bool (f32_neg b) + rne (2 ^ 23 + ?M) (134 - ?E)"
      using pack_sub[of ?w "f32_neg b"] r by (simp only: w)
    with eq 2 show ?thesis by (simp only: e5m2_code_def) simp
  next
    case 3
    then have "f32_to_fp8_e5m2 b = 0x7C OR push_bit 7 ?s" using E by (auto simp: base)
    with 3 show ?thesis by (simp only: sign_pack) (simp add: e5m2_code_def)
  next
    case 4
    let ?fe = "word_of_int (int ?E - 127 + 15) :: u8"
    let ?k = "ucast (drop_bit 1 (drop_bit 20 (b AND 0x7FFFFF))) :: u8"
    let ?up = "odd (?M div 2 ^ 20) \<and> (?M mod 2 ^ 20 \<noteq> 0 \<or> odd (?M div 2 ^ 21))"
    have fe: "unat ?fe = ?E - 112"
    proof -
      have "int ?E - 127 + 15 = int (?E - 112)" using 4 by simp
      then have "?fe = word_of_nat (?E - 112)" by (simp only: of_int_of_nat_eq)
      then show ?thesis using unat_u8[of "?E - 112"] 4 by (simp only:)
    qed
    have k: "unat ?k = ?M div 2 ^ 21"
    proof -
      have "unat ?k = ?M div 2 ^ 20 div 2 ^ 1 mod 2 ^ LENGTH(8)"
        by (simp only: unat_ucast unat_drop f32_mant_def)
      also have "\<dots> = ?M div 2 ^ 21" using M by (simp add: div_mult2_eq[symmetric])
      finally show ?thesis .
    qed
    then have k8: "unat ?k < 4" using M by simp
    have inc: "unat (?k + 1) = ?M div 2 ^ 21 + 1" using k k8 by (simp add: unat_word_ariths)
    have k3: "?k = 3 \<longleftrightarrow> ?M div 2 ^ 21 = 3" and f15: "30 \<le> ?fe \<longleftrightarrow> 30 \<le> ?E - 112"
      by (simp_all only: word_unat_eq_iff word_le_nat_alt k fe) simp_all
    have rb: "drop_bit 20 (b AND 0x7FFFFF) AND 1 \<noteq> 0 \<longleftrightarrow> odd (?M div 2 ^ 20)"
      by (simp only: and_1_odd unat_drop f32_mant_def)
    have ko: "?k AND 1 \<noteq> 0 \<longleftrightarrow> odd (?M div 2 ^ 21)" by (simp only: and_1_odd k)
    have rem: "(b AND 0x7FFFFF) AND (push_bit 20 1 - 1) \<noteq> 0 \<longleftrightarrow> ?M mod 2 ^ 20 \<noteq> 0"
      unfolding push_1_minus_1 f32_mant_def unat_and_mask[symmetric] by (simp add: unat_eq_0)
    let ?fin = "\<lambda>m :: u8. push_bit 7 ?s OR push_bit 2 ?fe OR (m AND 0x03)"
    have eq: "f32_to_fp8_e5m2 b =
      (if ?up then if ?M div 2 ^ 21 = 3 then if 30 \<le> ?E - 112 then 0x7C OR push_bit 7 ?s
            else push_bit 7 ?s OR push_bit 2 (?fe + 1) else ?fin (?k + 1) else ?fin ?k)"
    proof -
      have "23 - 2 - 1 = (20 :: nat)" "23 - 3 = (20 :: nat)" by simp_all
      moreover have "int ?E \<noteq> 255" "int ?E \<noteq> 0" "\<not> 15 < int ?E - 127" "\<not> int ?E - 127 < - 17"
        "\<not> int ?E - 127 < - 14" using 4 by auto
      ultimately show ?thesis
        unfolding base using rb ko rem k3 f15 by (simp only: if_False if_True simp_thms)
    qed
    have f: "unat (?fin m) = 128 * of_bool (f32_neg b) + min 124 (4 * (?E - 112) + unat m)"
      if "unat m < 4" for m
    proof -
      have "4 * (?E - 112) + unat m \<le> 124" using that 4 by linarith
      moreover have "unat ?fe < 32" using fe 4 by simp
      ultimately show ?thesis
        using pack_e5m2[OF _ that, of ?fe "f32_neg b"] fe by linarith
    qed
    have top: "unat (push_bit 7 ?s OR push_bit 2 (?fe + 1)) = 128 * of_bool (f32_neg b) + 4 * (?E - 111)"
      if "\<not> 30 \<le> ?E - 112"
    proof -
      have "unat (?fe + 1) = unat ?fe + 1" by (rule unat_inc_u8) (use fe 4 in linarith)
      then have e: "unat (?fe + 1) = ?E - 111" unfolding fe using 4 by linarith
      then have "unat (?fe + 1) < 32" using that by linarith
      from pack_e5m2_top[OF this] show ?thesis unfolding e .
    qed
    have r: "rne ?M 21 = ?M div 2 ^ 21 + (if ?up then 1 else 0)" by (rule rne_21)
    have c: "e5m2_code ?E ?M = min 124 (4 * (?E - 112) + rne ?M 21)" using 4 by (simp add: e5m2_code_def)
    show ?thesis
    proof (cases ?up)
      case False
      then show ?thesis using f[OF k8] unfolding eq c r k if_not_P[OF False] by simp
    next
      case up: True
      show ?thesis
      proof (cases "?M div 2 ^ 21 = 3")
        case 7: True
        have r8: "rne ?M 21 = 4" unfolding r if_P[OF up] using 7 by simp
        show ?thesis
        proof (cases "30 \<le> ?E - 112")
          case True
          have "min 124 (4 * (?E - 112) + 4) = 124" using True by linarith
          with sign_pack(4)[of "f32_neg b"] show ?thesis
            unfolding eq c r8 by (simp only: if_P[OF up] if_P[OF 7] if_P[OF True])
        next
          case False
          have "min 124 (4 * (?E - 112) + 4) = 4 * (?E - 111)" using 4 False by linarith
          with top[OF False] show ?thesis
            unfolding eq c r8 by (simp only: if_P[OF up] if_P[OF 7] if_not_P[OF False])
        qed
      next
        case n7: False
        then have "unat (?k + 1) < 4" using inc k k8 by simp
        from f[OF this] show ?thesis
          unfolding eq c r if_P[OF up] if_not_P[OF n7] inc .
      qed
    qed
  qed
qed

section \<open>Rounding to the nearest code\<close>

text \<open>Magnitude of a code with \<open>M\<close> mantissa bits, in units of the smallest subnormal.\<close>

definition fp8_mag :: "nat \<Rightarrow> nat \<Rightarrow> nat" where
  "fp8_mag M c =
     (let e = c div 2 ^ M; m = c mod 2 ^ M in if e = 0 then m else (2 ^ M + m) * 2 ^ (e - 1))"

text \<open>\<open>c\<close> is the code nearest to \<open>x\<close> among the codes up to \<open>cmax\<close>, the even one on a tie.\<close>

definition nearest :: "(nat \<Rightarrow> nat) \<Rightarrow> nat \<Rightarrow> nat \<Rightarrow> nat \<Rightarrow> bool" where
  "nearest f cmax x c \<longleftrightarrow> c \<le> cmax \<and>
     (\<forall>c' \<le> cmax. c' \<noteq> c \<longrightarrow>
        \<bar>int x - int (f c)\<bar> < \<bar>int x - int (f c')\<bar>
        \<or> \<bar>int x - int (f c)\<bar> = \<bar>int x - int (f c')\<bar> \<and> even c)"

lemma fp8_mag_linear: "0 < e \<Longrightarrow> k \<le> 2 ^ M \<Longrightarrow> fp8_mag M (2 ^ M * e + k) = (2 ^ M + k) * 2 ^ (e - 1)"
proof (cases "k = 2 ^ M")
  case True
  assume "0 < e"
  then obtain e' where "e = Suc e'" by (cases e) auto
  moreover have "2 ^ M * e + k = 2 ^ M * Suc e" using True by simp
  moreover have "fp8_mag M (2 ^ M * Suc e) = 2 ^ M * 2 ^ e" by (simp only: fp8_mag_def Let_def) simp
  ultimately show ?thesis using True by (simp only:) simp
next
  case False
  assume "0 < e" "k \<le> 2 ^ M"
  with False have "k < 2 ^ M" by simp
  then have "(2 ^ M * e + k) div 2 ^ M = e" "(2 ^ M * e + k) mod 2 ^ M = k" by simp_all
  then show ?thesis using \<open>0 < e\<close> by (simp add: fp8_mag_def)
qed

lemma fp8_mag_small: "k \<le> 2 ^ M \<Longrightarrow> fp8_mag M k = k"
proof (cases "k = 2 ^ M")
  case False
  assume "k \<le> 2 ^ M"
  with False have "k < 2 ^ M" by simp
  then show ?thesis by (simp add: fp8_mag_def)
qed (simp add: fp8_mag_def)

lemma fp8_mag_Suc: "fp8_mag M c < fp8_mag M (Suc c)"
proof (cases "c div 2 ^ M = 0")
  case True
  then have "c < 2 ^ M" by (simp add: div_eq_0_iff)
  then show ?thesis by (simp add: fp8_mag_small)
next
  case False
  let ?e = "c div 2 ^ M" and ?k = "c mod 2 ^ M"
  have "Suc ?k \<le> 2 ^ M" by (simp add: Suc_le_eq)
  then have "fp8_mag M (2 ^ M * ?e + ?k) = (2 ^ M + ?k) * 2 ^ (?e - 1)"
    "fp8_mag M (2 ^ M * ?e + Suc ?k) = (2 ^ M + Suc ?k) * 2 ^ (?e - 1)"
    using False by (intro fp8_mag_linear; simp)+
  moreover have "2 ^ M * ?e + ?k = c" "2 ^ M * ?e + Suc ?k = Suc c" by simp_all
  ultimately show ?thesis by (simp only:) simp
qed

lemma fp8_mag_strict: "c < c' \<Longrightarrow> fp8_mag M c < fp8_mag M c'"
  by (rule lift_Suc_mono_less[of "fp8_mag M"]) (simp add: fp8_mag_Suc)

lemma nearest_between:
  assumes mono: "\<And>c c'. c < c' \<Longrightarrow> f c < f c'" and lo: "f t \<le> x" and hi: "x < f (Suc t)"
    and t: "t < cmax"
    and up: "up \<longleftrightarrow> f t + f (Suc t) < 2 * x \<or> f t + f (Suc t) = 2 * x \<and> odd t"
  shows "nearest f cmax x (t + (if up then 1 else 0))"
proof -
  let ?c = "t + (if up then 1 else 0)"
  have "\<bar>int x - int (f ?c)\<bar> < \<bar>int x - int (f c')\<bar>
        \<or> \<bar>int x - int (f ?c)\<bar> = \<bar>int x - int (f c')\<bar> \<and> even ?c" if "c' \<noteq> ?c" for c'
  proof -
    have le: "c' = t \<or> c' < t \<and> f c' < f t \<or> c' = Suc t \<or> Suc t < c' \<and> f (Suc t) < f c'"
      using mono[of c' t] mono[of "Suc t" c'] by linarith
    show ?thesis
    proof (cases up)
      case True
      with up have u: "f t + f (Suc t) < 2 * x \<or> f t + f (Suc t) = 2 * x \<and> odd t" by simp
      from True that have "c' \<noteq> Suc t" by simp
      then show ?thesis using True u le lo hi by auto
    next
      case False
      with up have u: "2 * x < f t + f (Suc t) \<or> 2 * x = f t + f (Suc t) \<and> even t" by auto
      from False that have "c' \<noteq> t" by simp
      then show ?thesis using False u le lo hi by auto
    qed
  qed
  moreover have "?c \<le> cmax" using t by simp
  ultimately show ?thesis by (simp add: nearest_def)
qed

lemma nearest_above:
  assumes mono: "\<And>c c'. c < c' \<Longrightarrow> f c < f c'" and "f cmax \<le> x"
  shows "nearest f cmax x cmax"
  unfolding nearest_def
proof (intro conjI allI impI order_refl)
  fix c' assume "c' \<le> cmax" "c' \<noteq> cmax"
  then have "f c' < f cmax" using mono by simp
  with assms(2) show "\<bar>int x - int (f cmax)\<bar> < \<bar>int x - int (f c')\<bar>
        \<or> \<bar>int x - int (f cmax)\<bar> = \<bar>int x - int (f c')\<bar> \<and> even cmax" by linarith
qed

text \<open>The bits that decide the rounding compare the remainder with half the divisor.\<close>

lemma rne_eq:
  assumes "0 < s"
  shows "rne q s = q div 2 ^ s +
    (if 2 ^ s < 2 * (q mod 2 ^ s) \<or> 2 ^ s = 2 * (q mod 2 ^ s) \<and> odd (q div 2 ^ s) then 1 else 0)"
proof -
  obtain n where s: "s = Suc n" using assms by (cases s) auto
  let ?h = "2 ^ n :: nat"
  have m: "q mod 2 ^ s = ?h * (q div ?h mod 2) + q mod ?h"
    using mod_mult2_eq[of q ?h 2] by (simp add: s mult.commute)
  have lt: "q mod ?h < ?h" by simp
  show ?thesis
  proof (cases "odd (q div ?h)")
    case True
    then have "q mod 2 ^ s = ?h + q mod ?h" using m by (simp add: mod_2_eq_odd)
    then have "2 ^ s < 2 * (q mod 2 ^ s) \<longleftrightarrow> q mod ?h \<noteq> 0" "2 ^ s = 2 * (q mod 2 ^ s) \<longleftrightarrow> q mod ?h = 0"
      by (simp_all add: s)
    with True show ?thesis by (auto simp: rne_def s)
  next
    case False
    then have "q mod 2 ^ s = q mod ?h" using m by simp
    then have "2 * (q mod 2 ^ s) < 2 ^ s" using lt by (simp add: s)
    with False show ?thesis by (auto simp: rne_def s)
  qed
qed

text \<open>A block of equally spaced codes: \<open>B + k\<close> steps of size \<open>2^s * u\<close>.\<close>

lemma nearest_block:
  assumes mono: "\<And>c c'. c < c' \<Longrightarrow> f c < f c'" and s: "0 < s" and u: "0 < u"
    and ft: "f t = (B + q div 2 ^ s) * 2 ^ s * u" and fs: "f (Suc t) = (B + q div 2 ^ s + 1) * 2 ^ s * u"
    and par: "odd t \<longleftrightarrow> odd (q div 2 ^ s)" and r: "rne q s = q div 2 ^ s + d"
  shows "nearest f cmax ((B * 2 ^ s + q) * u) (min cmax (t + d))"
proof -
  let ?S = "2 ^ s :: nat" and ?x = "(B * 2 ^ s + q) * u" and ?k = "q div 2 ^ s" and ?r = "q mod 2 ^ s"
  define k r where kr: "k = q div 2 ^ s" "r = q mod 2 ^ s"
  have "q = k * ?S + r" by (simp only: kr div_mult_mod_eq)
  moreover have "f t = (B + k) * ?S * u" by (simp only: ft kr(1))
  ultimately have "?x = f t + r * u" by (simp only:) (simp add: algebra_simps)
  then have x: "?x = f t + ?r * u" by (simp only: kr)
  have fs': "f (Suc t) = f t + ?S * u" by (simp add: ft fs algebra_simps)
  have "?r < ?S" by simp
  then have ru: "?r * u < ?S * u" using u by simp
  show ?thesis
  proof (cases "t < cmax")
    case False
    then have "f cmax \<le> f t" using mono[of cmax t] by (cases "cmax = t") auto
    then have "f cmax \<le> ?x" using x by linarith
    with False show ?thesis using nearest_above[OF mono] by (simp add: min_absorb1)
  next
    case True
    define up where "up \<longleftrightarrow> ?S < 2 * ?r \<or> ?S = 2 * ?r \<and> odd ?k"
    have "f t + f (Suc t) < 2 * ?x \<longleftrightarrow> ?S * u < (2 * ?r) * u" by (simp add: x fs')
    moreover have "f t + f (Suc t) = 2 * ?x \<longleftrightarrow> ?S * u = (2 * ?r) * u" by (auto simp: x fs')
    ultimately have "up \<longleftrightarrow> f t + f (Suc t) < 2 * ?x \<or> f t + f (Suc t) = 2 * ?x \<and> odd t"
      using u par by (simp add: up_def)
    moreover have "d = (if up then 1 else 0)"
      using r rne_eq[OF s, of q] by (simp add: up_def)
    moreover have "f t \<le> ?x" "?x < f (Suc t)" using x fs' ru by linarith+
    ultimately show ?thesis
      using nearest_between[of f t ?x cmax up, OF mono] True by (simp add: min_absorb2)
  qed
qed

lemma f32_mag_normal: "0 < e \<Longrightarrow> e = f32_exp b \<Longrightarrow> f32_mag b = (2 ^ 23 + f32_mant b) * 2 ^ (e - 1)"
  by (simp add: f32_mag_def)

lemma f32_mag_less:
  assumes "f32_exp b \<le> n" and "0 < n"
  shows "f32_mag b < 2 ^ (n + 23)"
proof (cases "f32_exp b = 0")
  case True
  have "(2::nat) ^ 23 \<le> 2 ^ (n + 23)" by (rule power_increasing) auto
  with f32_mant_less[of b] have "f32_mant b < 2 ^ (n + 23)" by (rule less_le_trans)
  then show ?thesis using True by (simp add: f32_mag_def)
next
  case False
  have "(2 ^ 23 + f32_mant b) * 2 ^ (f32_exp b - 1) < 2 ^ 24 * 2 ^ (f32_exp b - 1)"
    using f32_mant_less[of b] by simp
  also have "\<dots> = 2 ^ (24 + (f32_exp b - 1))" by (rule power_add[symmetric])
  also have "\<dots> \<le> 2 ^ (n + 23)" using assms(1) False by (intro power_increasing) auto
  finally show ?thesis using False by (simp only: f32_mag_def if_False)
qed

lemma nearest_zero:
  assumes "\<And>c c'. c < c' \<Longrightarrow> f c < f c'" and "f 0 = (0 :: nat)" and "2 * x < f 1" and "0 < cmax"
  shows "nearest f cmax x 0"
  using nearest_between[of f 0 x cmax False, OF assms(1)] assms(2-4) by simp

lemma e4m3_code_nearest:
  "nearest (\<lambda>c. fp8_mag 3 c * 2 ^ 140) 126 (f32_mag b) (e4m3_code (f32_exp b) (f32_mant b))"
proof -
  let ?e = "f32_exp b" and ?m = "f32_mant b" and ?f = "\<lambda>c. fp8_mag 3 c * 2 ^ 140"
  have mono: "?f c < ?f c'" if "c < c'" for c c' using fp8_mag_strict[OF that] by simp
  have small: "fp8_mag 3 k = k" if "k \<le> 8" for k using fp8_mag_small[of k 3] that by simp
  consider "?e < 117" | "117 \<le> ?e" "?e < 121" | "135 < ?e" | "121 \<le> ?e" "?e \<le> 135" by linarith
  then show ?thesis
  proof cases
    case 1
    have "f32_mag b < 2 ^ (116 + 23)" by (rule f32_mag_less) (use 1 in auto)
    then have "2 * f32_mag b < ?f 1" by (simp add: small)
    from nearest_zero[of ?f, OF mono _ this] 1 show ?thesis by (simp add: e4m3_code_def small)
  next
    case 2
    let ?s = "141 - ?e" and ?q = "2 ^ 23 + ?m"
    have k: "?q div 2 ^ ?s < 8"
    proof -
      have "(2::nat) ^ 21 \<le> 2 ^ ?s" using 2 by (intro power_increasing) auto
      then have "?q div 2 ^ ?s \<le> ?q div 2 ^ 21" by (rule div_le_mono2[rotated]) simp
      also have "\<dots> < 8" using f32_mant_less[of b] by simp
      finally show ?thesis .
    qed
    have pw: "(2::nat) ^ ?s * 2 ^ (?e - 1) = 2 ^ 140" using 2 by (simp flip: power_add)
    define d where "d = rne ?q ?s - ?q div 2 ^ ?s"
    have r: "rne ?q ?s = ?q div 2 ^ ?s + d" by (simp add: d_def rne_def)
    have "nearest ?f 126 ((0 * 2 ^ ?s + ?q) * 2 ^ (?e - 1)) (min 126 (?q div 2 ^ ?s + d))"
    proof (rule nearest_block[of ?f, OF mono _ _ _ _ _ r])
      show "?f (?q div 2 ^ ?s) = (0 + ?q div 2 ^ ?s) * 2 ^ ?s * 2 ^ (?e - 1)"
        using k by (simp only: mult.assoc pw) (simp add: small)
      show "?f (Suc (?q div 2 ^ ?s)) = (0 + ?q div 2 ^ ?s + 1) * 2 ^ ?s * 2 ^ (?e - 1)"
        using k by (simp only: mult.assoc pw) (simp add: small)
    qed (use 2 in auto)
    moreover have "min 126 (rne ?q ?s) = rne ?q ?s" using k by (simp add: rne_def)
    ultimately have "nearest ?f 126 (?q * 2 ^ (?e - 1)) (rne ?q ?s)" by (simp only: r[symmetric] mult_0 add_0)
    moreover have "e4m3_code ?e ?m = rne ?q ?s" using 2 by (simp only: e4m3_code_def) simp
    moreover have "f32_mag b = ?q * 2 ^ (?e - 1)" by (rule f32_mag_normal) (use 2 in auto)
    ultimately show ?thesis by (simp only:)
  next
    case 3
    have "(2::nat) ^ 158 \<le> 2 ^ (23 + (?e - 1))" using 3 by (intro power_increasing) auto
    also have "\<dots> \<le> (2 ^ 23 + ?m) * 2 ^ (?e - 1)" unfolding power_add by (rule mult_le_mono1) simp
    also have "\<dots> = f32_mag b" by (rule f32_mag_normal[symmetric]) (use 3 in auto)
    finally have "?f 126 \<le> f32_mag b" by (simp add: fp8_mag_def)
    with 3 nearest_above[of ?f, OF mono this] show ?thesis by (simp add: e4m3_code_def)
  next
    case 4
    let ?k = "?m div 2 ^ 20" and ?t = "8 * (?e - 120) + ?m div 2 ^ 20"
    have k: "?k < 8" using f32_mant_less[of b] by simp
    have lin: "?f (8 * (?e - 120) + j) = (8 + j) * 2 ^ 20 * 2 ^ (?e - 1)" if "j \<le> 8" for j
    proof -
      have "(?e - 120 - 1) + 140 = 20 + (?e - 1)" using 4 by linarith
      then have "(2::nat) ^ (?e - 120 - 1) * 2 ^ 140 = 2 ^ 20 * 2 ^ (?e - 1)" unfolding power_add[symmetric] by (simp only:)
      with fp8_mag_linear[of "?e - 120" j 3] that 4 show ?thesis by (simp only: mult.assoc) simp
    qed
    define d where "d = rne ?m 20 - ?k"
    have r: "rne ?m 20 = ?k + d" by (simp add: d_def rne_def)
    have "nearest ?f 126 ((8 * 2 ^ 20 + ?m) * 2 ^ (?e - 1)) (min 126 (?t + d))"
    proof (rule nearest_block[of ?f, OF mono _ _ _ _ _ r])
      show "?f ?t = (8 + ?k) * 2 ^ 20 * 2 ^ (?e - 1)" by (rule lin) (use k in simp)
      show "?f (Suc ?t) = (8 + ?k + 1) * 2 ^ 20 * 2 ^ (?e - 1)" using lin[of "Suc ?k"] k by simp
    qed auto
    moreover have "e4m3_code ?e ?m = min 126 (?t + d)" using 4 r by (simp add: e4m3_code_def add.assoc)
    moreover have "f32_mag b = (8 * 2 ^ 20 + ?m) * 2 ^ (?e - 1)" using f32_mag_normal[of ?e b] 4 by simp
    ultimately show ?thesis by (simp only:)
  qed
qed

lemma e5m2_code_nearest:
  "nearest (\<lambda>c. fp8_mag 2 c * 2 ^ 133) 124 (f32_mag b) (e5m2_code (f32_exp b) (f32_mant b))"
proof -
  let ?e = "f32_exp b" and ?m = "f32_mant b" and ?f = "\<lambda>c. fp8_mag 2 c * 2 ^ 133"
  have mono: "?f c < ?f c'" if "c < c'" for c c' using fp8_mag_strict[OF that] by simp
  have small: "fp8_mag 2 k = k" if "k \<le> 4" for k using fp8_mag_small[of k 2] that by simp
  consider "?e < 110" | "110 \<le> ?e" "?e < 113" | "142 < ?e" | "113 \<le> ?e" "?e \<le> 142" by linarith
  then show ?thesis
  proof cases
    case 1
    have "f32_mag b < 2 ^ (109 + 23)" by (rule f32_mag_less) (use 1 in auto)
    then have "2 * f32_mag b < ?f 1" by (simp add: small)
    from nearest_zero[of ?f, OF mono _ this] 1 show ?thesis by (simp add: e5m2_code_def small)
  next
    case 2
    let ?s = "134 - ?e" and ?q = "2 ^ 23 + ?m"
    have k: "?q div 2 ^ ?s < 4"
    proof -
      have "(2::nat) ^ 22 \<le> 2 ^ ?s" using 2 by (intro power_increasing) auto
      then have "?q div 2 ^ ?s \<le> ?q div 2 ^ 22" by (rule div_le_mono2[rotated]) simp
      also have "\<dots> < 4" using f32_mant_less[of b] by simp
      finally show ?thesis .
    qed
    have pw: "(2::nat) ^ ?s * 2 ^ (?e - 1) = 2 ^ 133" using 2 by (simp flip: power_add)
    define d where "d = rne ?q ?s - ?q div 2 ^ ?s"
    have r: "rne ?q ?s = ?q div 2 ^ ?s + d" by (simp add: d_def rne_def)
    have "nearest ?f 124 ((0 * 2 ^ ?s + ?q) * 2 ^ (?e - 1)) (min 124 (?q div 2 ^ ?s + d))"
    proof (rule nearest_block[of ?f, OF mono _ _ _ _ _ r])
      show "?f (?q div 2 ^ ?s) = (0 + ?q div 2 ^ ?s) * 2 ^ ?s * 2 ^ (?e - 1)"
        using k by (simp only: mult.assoc pw) (simp add: small)
      show "?f (Suc (?q div 2 ^ ?s)) = (0 + ?q div 2 ^ ?s + 1) * 2 ^ ?s * 2 ^ (?e - 1)"
        using k by (simp only: mult.assoc pw) (simp add: small)
    qed (use 2 in auto)
    moreover have "min 124 (rne ?q ?s) = rne ?q ?s" using k by (simp add: rne_def)
    ultimately have "nearest ?f 124 (?q * 2 ^ (?e - 1)) (rne ?q ?s)" by (simp only: r[symmetric] mult_0 add_0)
    moreover have "e5m2_code ?e ?m = rne ?q ?s" using 2 by (simp only: e5m2_code_def) simp
    moreover have "f32_mag b = ?q * 2 ^ (?e - 1)" by (rule f32_mag_normal) (use 2 in auto)
    ultimately show ?thesis by (simp only:)
  next
    case 3
    have "(2::nat) ^ 165 \<le> 2 ^ (23 + (?e - 1))" using 3 by (intro power_increasing) auto
    also have "\<dots> \<le> (2 ^ 23 + ?m) * 2 ^ (?e - 1)" unfolding power_add by (rule mult_le_mono1) simp
    also have "\<dots> = f32_mag b" by (rule f32_mag_normal[symmetric]) (use 3 in auto)
    finally have "?f 124 \<le> f32_mag b" by (simp add: fp8_mag_def)
    with 3 nearest_above[of ?f, OF mono this] show ?thesis by (simp add: e5m2_code_def)
  next
    case 4
    let ?k = "?m div 2 ^ 21" and ?t = "4 * (?e - 112) + ?m div 2 ^ 21"
    have k: "?k < 4" using f32_mant_less[of b] by simp
    have lin: "?f (4 * (?e - 112) + j) = (4 + j) * 2 ^ 21 * 2 ^ (?e - 1)" if "j \<le> 4" for j
    proof -
      have "(?e - 112 - 1) + 133 = 21 + (?e - 1)" using 4 by linarith
      then have "(2::nat) ^ (?e - 112 - 1) * 2 ^ 133 = 2 ^ 21 * 2 ^ (?e - 1)" unfolding power_add[symmetric] by (simp only:)
      with fp8_mag_linear[of "?e - 112" j 2] that 4 show ?thesis by (simp only: mult.assoc) simp
    qed
    define d where "d = rne ?m 21 - ?k"
    have r: "rne ?m 21 = ?k + d" by (simp add: d_def rne_def)
    have "nearest ?f 124 ((4 * 2 ^ 21 + ?m) * 2 ^ (?e - 1)) (min 124 (?t + d))"
    proof (rule nearest_block[of ?f, OF mono _ _ _ _ _ r])
      show "?f ?t = (4 + ?k) * 2 ^ 21 * 2 ^ (?e - 1)" by (rule lin) (use k in simp)
      show "?f (Suc ?t) = (4 + ?k + 1) * 2 ^ 21 * 2 ^ (?e - 1)" using lin[of "Suc ?k"] k by simp
    qed auto
    moreover have "e5m2_code ?e ?m = min 124 (?t + d)" using 4 r by (simp add: e5m2_code_def add.assoc)
    moreover have "f32_mag b = (4 * 2 ^ 21 + ?m) * 2 ^ (?e - 1)" using f32_mag_normal[of ?e b] 4 by simp
    ultimately show ?thesis by (simp only:)
  qed
qed

section \<open>Decoding is exact\<close>

lemma unat_push_or:
  fixes a c :: "'a::len word"
  assumes "unat c < 2 ^ n" and "unat a * 2 ^ n + 2 ^ n \<le> 2 ^ LENGTH('a)"
  shows "unat (push_bit n a OR c) = unat a * 2 ^ n + unat c"
proof -
  have "take_bit n c = c"
    using assms(1) by (simp only: word_unat_eq_iff unsigned_take_bit_eq) (simp add: take_bit_nat_eq_self)
  then have c: "k < n" if "bit c k" for k using that bit_take_bit_iff by metis
  have "push_bit n a AND c = 0"
    by (rule bit_word_eqI) (auto simp: bit_and_iff bit_push_bit_iff dest: c)
  moreover have "unat (push_bit n a) = unat a * 2 ^ n"
  proof -
    have "(0::nat) < 2 ^ n" by simp
    then have "unat a * 2 ^ n < 2 ^ LENGTH('a)" using assms(2) by linarith
    then show ?thesis
      by (simp only: unsigned_push_bit_eq take_bit_eq_mod[where 'a = nat] push_bit_eq_mult[where 'a = nat] mod_less)
  qed
  ultimately show ?thesis using unat_or_add[of "push_bit n a" c] assms by simp
qed

lemma f32_fields:
  assumes u: "unat (b :: u32) = of_bool s * 2 ^ 31 + e * 2 ^ 23 + m" and e: "e < 256" and m: "m < 2 ^ 23"
  shows "f32_exp b = e \<and> f32_mant b = m \<and> (f32_neg b \<longleftrightarrow> s)"
proof (intro conjI)
  define A where "A = of_bool s * 2 ^ 8 + e"
  have "unat b = A * 2 ^ 23 + m" using u by (simp add: A_def)
  then have "unat b div 2 ^ 23 = A" and r: "unat b mod 2 ^ 23 = m" using m by simp_all
  then have d: "unat b div 2 ^ 23 = of_bool s * 2 ^ 8 + e" by (simp only: A_def)
  show "f32_exp b = e" using e by (simp only: f32_exp_def mask_consts unat_and_mask unat_drop d) simp
  show "f32_mant b = m" by (simp only: f32_mant_def mask_consts unat_and_mask r)
  have "unat b div 2 ^ 31 = unat b div 2 ^ 23 div 2 ^ 8" by (simp only: div_mult2_eq[symmetric]) simp
  also have "\<dots> = of_bool s" unfolding d using e by (cases s) simp_all
  finally have "odd (unat b div 2 ^ 31) \<longleftrightarrow> s" by simp
  then show "f32_neg b \<longleftrightarrow> s"
    using bit_unsigned_iff[where 'a = nat, of b 31] bit_iff_odd[of "unat b" 31] by (simp add: f32_neg_def)
qed

lemma u8_sign: "drop_bit 7 x AND 1 = (of_bool (bit x 7) :: u8)"
proof -
  have "unat (drop_bit 7 x AND 1) = unat x div 2 ^ 7 mod 2"
    using unat_and_mask[of "drop_bit 7 x" 1] by (simp add: unat_drop)
  moreover have "odd (unat x div 2 ^ 7) \<longleftrightarrow> bit x 7"
    using bit_unsigned_iff[where 'a = nat, of x 7] bit_iff_odd[of "unat x" 7] by simp
  ultimately have "unat (drop_bit 7 x AND 1) = unat (of_bool (bit x 7) :: u8)"
    by (cases "bit x 7") (simp_all add: mod_2_eq_odd)
  then show ?thesis by (simp only: word_unat_eq_iff)
qed

lemma f32_sign_unat: "unat (push_bit 31 (ucast (of_bool s :: u8)) :: u32) = of_bool s * 2 ^ 31"
  by (cases s) simp_all

lemma sign_or:
  "unat w < 2 ^ 31 \<Longrightarrow> unat (push_bit 31 (ucast (of_bool s :: u8)) OR w :: u32) = of_bool s * 2 ^ 31 + unat w"
  using unat_push_or[of w 31 "ucast (of_bool s :: u8)"] by (cases s) simp_all

lemma f32_value:
  assumes "unat b = of_bool s * 2 ^ 31 + e * 2 ^ 23 + m" and "0 < e" and "e < 255" and "m < 2 ^ 23"
  shows "f32_finite b \<and> (f32_neg b \<longleftrightarrow> s) \<and> f32_mag b = (2 ^ 23 + m) * 2 ^ (e - 1)"
  using f32_fields[OF assms(1)] assms(2-4) by (simp add: f32_finite_def f32_mag_def)

lemma u8_fields:
  "unat (drop_bit 3 x AND 0x0F :: u8) = unat x div 8 mod 16" "unat (x AND 0x07 :: u8) = unat x mod 8"
  "unat (drop_bit 2 x AND 0x1F :: u8) = unat x div 4 mod 32" "unat (x AND 0x03 :: u8) = unat x mod 4"
proof -
  have c: "(0x0F :: u8) = mask 4" "(0x1F :: u8) = mask 5" by (simp_all add: mask_eq_exp_minus_1)
  show "unat (drop_bit 3 x AND 0x0F :: u8) = unat x div 8 mod 16"
    by (simp only: c unat_and_mask unat_drop) simp
  show "unat (drop_bit 2 x AND 0x1F :: u8) = unat x div 4 mod 32"
    by (simp only: c unat_and_mask unat_drop) simp
  show "unat (x AND 0x07 :: u8) = unat x mod 8" by (simp only: mask_consts unat_and_mask) simp
  show "unat (x AND 0x03 :: u8) = unat x mod 4" by (simp only: mask_consts unat_and_mask) simp
qed

lemma f32_small_value:
  "n \<in> {1, 2, 3, 4, 5, 6, 7} \<Longrightarrow> \<exists>e r. unat (f32_small n (- 9)) = e * 2 ^ 23 + r \<and> 0 < e \<and> e < 255
     \<and> r < 2 ^ 23 \<and> (2 ^ 23 + r) * 2 ^ (e - 1) = n * 2 ^ 140"
  "n \<in> {1, 2, 3} \<Longrightarrow> \<exists>e r. unat (f32_small n (- 16)) = e * 2 ^ 23 + r \<and> 0 < e \<and> e < 255
     \<and> r < 2 ^ 23 \<and> (2 ^ 23 + r) * 2 ^ (e - 1) = n * 2 ^ 133"
proof -
  have ex: "\<exists>e r. u = e * 2 ^ 23 + r \<and> 0 < e \<and> e < 255 \<and> r < 2 ^ 23 \<and> (2 ^ 23 + r) * 2 ^ (e - 1) = v"
    if "u = e * 2 ^ 23 + r" "0 < e" "e < 255" "r < 2 ^ 23" "(2 ^ 23 + r) * 2 ^ (e - 1) = v" for u v e r :: nat
    using that by blast
  {
    assume "n \<in> {1, 2, 3, 4, 5, 6, 7}"
    then consider "n = 1" | "n = 2" | "n = 3" | "n = 4" | "n = 5" | "n = 6" | "n = 7" by blast
    then show "\<exists>e r. unat (f32_small n (- 9)) = e * 2 ^ 23 + r \<and> 0 < e \<and> e < 255
       \<and> r < 2 ^ 23 \<and> (2 ^ 23 + r) * 2 ^ (e - 1) = n * 2 ^ 140"
    proof cases
      case 1 show ?thesis by (rule ex[of _ 118 0]) (simp_all add: 1 f32_small_def)
    next
      case 2 show ?thesis by (rule ex[of _ 119 0]) (simp_all add: 2 f32_small_def)
    next
      case 3 show ?thesis by (rule ex[of _ 119 "2 ^ 22"]) (simp_all add: 3 f32_small_def)
    next
      case 4 show ?thesis by (rule ex[of _ 120 0]) (simp_all add: 4 f32_small_def)
    next
      case 5 show ?thesis by (rule ex[of _ 120 "2 ^ 21"]) (simp_all add: 5 f32_small_def)
    next
      case 6 show ?thesis by (rule ex[of _ 120 "2 ^ 22"]) (simp_all add: 6 f32_small_def)
    next
      case 7 show ?thesis by (rule ex[of _ 120 "2 ^ 22 + 2 ^ 21"]) (simp_all add: 7 f32_small_def)
    qed
  next
    assume "n \<in> {1, 2, 3}"
    then consider "n = 1" | "n = 2" | "n = 3" by blast
    then show "\<exists>e r. unat (f32_small n (- 16)) = e * 2 ^ 23 + r \<and> 0 < e \<and> e < 255
       \<and> r < 2 ^ 23 \<and> (2 ^ 23 + r) * 2 ^ (e - 1) = n * 2 ^ 133"
    proof cases
      case 1 show ?thesis by (rule ex[of _ 111 0]) (simp_all add: 1 f32_small_def)
    next
      case 2 show ?thesis by (rule ex[of _ 112 0]) (simp_all add: 2 f32_small_def)
    next
      case 3 show ?thesis by (rule ex[of _ 112 "2 ^ 22"]) (simp_all add: 3 f32_small_def)
    qed
  }
qed

lemma small_cases:
  "n \<noteq> 0 \<Longrightarrow> n < 8 \<Longrightarrow> n \<in> {1, 2, 3, 4, 5, 6, 7}" "n \<noteq> 0 \<Longrightarrow> n < 4 \<Longrightarrow> n \<in> {1, 2, 3}" for n :: nat
  by (simp only: insert_iff empty_iff; arith)+

lemma e4m3_decode:
  assumes "unat x mod 128 \<le> 126"
  shows "f32_finite (fp8_e4m3_to_f32 x) \<and> (f32_neg (fp8_e4m3_to_f32 x) \<longleftrightarrow> bit x 7)
    \<and> f32_mag (fp8_e4m3_to_f32 x) = fp8_mag 3 (unat x mod 128) * 2 ^ 140"
proof -
  let ?E = "unat x div 8 mod 16" and ?m = "unat x mod 8" and ?s = "bit x 7"
  have c: "unat x mod 128 = 8 * ?E + ?m"
    using mod_mult2_eq[of "unat x" 8 16] by simp
  note f = u8_fields(1,2)[of x]
  have e0: "drop_bit 3 x AND 0x0F = 0 \<longleftrightarrow> ?E = 0" and m0: "x AND 0x07 = 0 \<longleftrightarrow> ?m = 0"
    by (simp_all only: word_unat_eq_iff f) simp_all
  have nan: "\<not> (drop_bit 3 x AND 0x0F = 15 \<and> x AND 0x07 = 7)"
    using assms c by (simp only: word_unat_eq_iff f) auto
  note base = fp8_e4m3_to_f32_def[of x, unfolded Let_def u8_sign e0 m0 if_not_P[OF nan]]
  consider "?E = 0" "?m = 0" | "?E = 0" "?m \<noteq> 0" | "?E \<noteq> 0" by blast
  then show ?thesis
  proof cases
    case 1
    have "unat (fp8_e4m3_to_f32 x) = of_bool ?s * 2 ^ 31 + 0 * 2 ^ 23 + 0"
      unfolding base using 1 f32_sign_unat[of ?s] by (simp only: if_P simp_thms mult_0 add_0_right)
    from f32_fields[OF this] 1 show ?thesis
      by (simp only: c f32_finite_def f32_mag_def fp8_mag_def) simp
  next
    case 2
    have "?m < 8" by simp
    with 2 have "?m \<in> {1, 2, 3, 4, 5, 6, 7}" by (intro small_cases)
    from f32_small_value(1)[OF this] obtain e r where v: "unat (f32_small ?m (- 9)) = e * 2 ^ 23 + r"
      "0 < e" "e < 255" "r < 2 ^ 23" "(2 ^ 23 + r) * 2 ^ (e - 1) = ?m * 2 ^ 140" by blast
    have "unat (fp8_e4m3_to_f32 x) = of_bool ?s * 2 ^ 31 + e * 2 ^ 23 + r"
      unfolding base using 2 sign_or[of "f32_small ?m (- 9)" ?s] v
      by (simp only: if_P simp_thms if_False f) simp
    from f32_value[OF this v(2-4)] v(5) 2 fp8_mag_small[of ?m 3] show ?thesis
      by (simp only: c) simp
  next
    case 3
    let ?w = "push_bit 23 (ucast (drop_bit 3 x AND 0x0F) + 120) OR push_bit 20 (ucast (x AND 0x07)) :: u32"
    have ue: "unat (ucast (drop_bit 3 x AND 0x0F) + 120 :: u32) = ?E + 120"
      using f(1) by (simp add: unat_word_ariths unat_ucast)
    have um: "unat (push_bit 20 (ucast (x AND 0x07)) :: u32) = ?m * 2 ^ 20"
      using unat_push_or[of 0 20 "ucast (x AND 0x07) :: u32"] f(2) by (simp add: unat_ucast)
    have w: "unat ?w = (?E + 120) * 2 ^ 23 + ?m * 2 ^ 20"
      using unat_push_or[of "push_bit 20 (ucast (x AND 0x07)) :: u32" 23 "ucast (drop_bit 3 x AND 0x0F) + 120"]
      unfolding ue um by simp
    have "unat (fp8_e4m3_to_f32 x) = of_bool ?s * 2 ^ 31 + (?E + 120) * 2 ^ 23 + ?m * 2 ^ 20"
      unfolding base using 3 sign_or[of ?w ?s] w
      by (simp only: if_P simp_thms if_False or.assoc) simp
    from f32_value[OF this] have fv: "f32_finite (fp8_e4m3_to_f32 x) \<and> (f32_neg (fp8_e4m3_to_f32 x) \<longleftrightarrow> ?s)
      \<and> f32_mag (fp8_e4m3_to_f32 x) = (2 ^ 23 + ?m * 2 ^ 20) * 2 ^ (?E + 120 - 1)" by simp
    have "(2 ^ 23 + ?m * 2 ^ 20) * 2 ^ (?E + 120 - 1) = (2 ^ 3 + ?m) * 2 ^ (?E - 1) * 2 ^ 140"
    proof -
      have "?E + 120 - 1 = (?E - 1) + 120" using 3 by simp
      then have "(2::nat) ^ (?E + 120 - 1) = 2 ^ (?E - 1) * 2 ^ 120" by (simp only: power_add)
      then show ?thesis by (simp only:) (simp add: algebra_simps)
    qed
    with fv 3 fp8_mag_linear[of ?E ?m 3] show ?thesis by (simp only: c) simp
  qed
qed

lemma e5m2_decode:
  assumes "unat x mod 128 \<le> 123"
  shows "f32_finite (fp8_e5m2_to_f32 x) \<and> (f32_neg (fp8_e5m2_to_f32 x) \<longleftrightarrow> bit x 7)
    \<and> f32_mag (fp8_e5m2_to_f32 x) = fp8_mag 2 (unat x mod 128) * 2 ^ 133"
proof -
  let ?E = "unat x div 4 mod 32" and ?m = "unat x mod 4" and ?s = "bit x 7"
  have c: "unat x mod 128 = 4 * ?E + ?m"
    using mod_mult2_eq[of "unat x" 4 32] by simp
  note f = u8_fields(3,4)[of x]
  have e0: "drop_bit 2 x AND 0x1F = 0 \<longleftrightarrow> ?E = 0" and m0: "x AND 0x03 = 0 \<longleftrightarrow> ?m = 0"
    by (simp_all only: word_unat_eq_iff f) simp_all
  have nan: "drop_bit 2 x AND 0x1F \<noteq> 31"
    using assms c by (simp only: word_unat_eq_iff f) auto
  note base = fp8_e5m2_to_f32_def[of x, unfolded Let_def u8_sign e0 m0 if_not_P[OF nan]]
  consider "?E = 0" "?m = 0" | "?E = 0" "?m \<noteq> 0" | "?E \<noteq> 0" by blast
  then show ?thesis
  proof cases
    case 1
    have "unat (fp8_e5m2_to_f32 x) = of_bool ?s * 2 ^ 31 + 0 * 2 ^ 23 + 0"
      unfolding base using 1 f32_sign_unat[of ?s] by (simp only: if_P simp_thms mult_0 add_0_right)
    from f32_fields[OF this] 1 show ?thesis
      by (simp only: c f32_finite_def f32_mag_def fp8_mag_def) simp
  next
    case 2
    have "?m < 4" by simp
    with 2 have "?m \<in> {1, 2, 3}" by (intro small_cases)
    from f32_small_value(2)[OF this] obtain e r where v: "unat (f32_small ?m (- 16)) = e * 2 ^ 23 + r"
      "0 < e" "e < 255" "r < 2 ^ 23" "(2 ^ 23 + r) * 2 ^ (e - 1) = ?m * 2 ^ 133" by blast
    have "unat (fp8_e5m2_to_f32 x) = of_bool ?s * 2 ^ 31 + e * 2 ^ 23 + r"
      unfolding base using 2 sign_or[of "f32_small ?m (- 16)" ?s] v
      by (simp only: if_P simp_thms if_False f) simp
    from f32_value[OF this v(2-4)] v(5) 2 fp8_mag_small[of ?m 2] show ?thesis
      by (simp only: c) simp
  next
    case 3
    let ?w = "push_bit 23 (ucast (drop_bit 2 x AND 0x1F) + 112) OR push_bit 21 (ucast (x AND 0x03)) :: u32"
    have ue: "unat (ucast (drop_bit 2 x AND 0x1F) + 112 :: u32) = ?E + 112"
      using f(1) by (simp add: unat_word_ariths unat_ucast)
    have um: "unat (push_bit 21 (ucast (x AND 0x03)) :: u32) = ?m * 2 ^ 21"
      using unat_push_or[of 0 21 "ucast (x AND 0x03) :: u32"] f(2) by (simp add: unat_ucast)
    have w: "unat ?w = (?E + 112) * 2 ^ 23 + ?m * 2 ^ 21"
      using unat_push_or[of "push_bit 21 (ucast (x AND 0x03)) :: u32" 23 "ucast (drop_bit 2 x AND 0x1F) + 112"]
      unfolding ue um by simp
    have "unat (fp8_e5m2_to_f32 x) = of_bool ?s * 2 ^ 31 + (?E + 112) * 2 ^ 23 + ?m * 2 ^ 21"
      unfolding base using 3 sign_or[of ?w ?s] w
      by (simp only: if_P simp_thms if_False or.assoc) simp
    from f32_value[OF this] have fv: "f32_finite (fp8_e5m2_to_f32 x) \<and> (f32_neg (fp8_e5m2_to_f32 x) \<longleftrightarrow> ?s)
      \<and> f32_mag (fp8_e5m2_to_f32 x) = (2 ^ 23 + ?m * 2 ^ 21) * 2 ^ (?E + 112 - 1)" by simp
    have "(2 ^ 23 + ?m * 2 ^ 21) * 2 ^ (?E + 112 - 1) = (2 ^ 2 + ?m) * 2 ^ (?E - 1) * 2 ^ 133"
    proof -
      have "?E + 112 - 1 = (?E - 1) + 112" using 3 by simp
      then have "(2::nat) ^ (?E + 112 - 1) = 2 ^ (?E - 1) * 2 ^ 112" by (simp only: power_add)
      then show ?thesis by (simp only:) (simp add: algebra_simps)
    qed
    with fv 3 fp8_mag_linear[of ?E ?m 2] show ?thesis by (simp only: c) simp
  qed
qed

section \<open>The conversions are correct\<close>

lemma code_parts:
  assumes "unat (w :: u8) = 128 * of_bool s + c" and "c < 128"
  shows "unat w mod 128 = c" and "bit w 7 \<longleftrightarrow> s"
proof -
  show "unat w mod 128 = c" using assms by simp
  have "unat w div 2 ^ 7 = of_bool s" using assms by (cases s) simp_all
  then show "bit w 7 \<longleftrightarrow> s"
    using bit_unsigned_iff[where 'a = nat, of w 7] bit_iff_odd[of "unat w" 7] by simp
qed

lemma u8_eqI: "bit w 7 = bit x 7 \<Longrightarrow> unat w mod 128 = unat x mod 128 \<Longrightarrow> w = x" for w x :: u8
proof -
  have *: "unat y = 128 * of_bool (bit y 7) + unat y mod 128" for y :: u8
  proof -
    have "unat y div 128 < 2" using unsigned_less[of y, where 'a = nat] by simp
    moreover have "bit y 7 \<longleftrightarrow> odd (unat y div 128)"
      using bit_unsigned_iff[where 'a = nat, of y 7] bit_iff_odd[of "unat y" 7] by simp
    ultimately have "unat y div 128 = of_bool (bit y 7)" by (auto simp: less_2_cases_iff)
    then show ?thesis using mult_div_mod_eq[of 128 "unat y"] by simp
  qed
  assume "bit w 7 = bit x 7" "unat w mod 128 = unat x mod 128"
  then show ?thesis using *[of w] *[of x] by (simp add: word_unat_eq_iff)
qed

lemma nearest_cong: "(\<And>k. k \<le> cmax \<Longrightarrow> f k = g k) \<Longrightarrow> nearest f cmax x c = nearest g cmax x c"
  by (auto simp: nearest_def)

lemma nearest_exact: "nearest f cmax (f c) c' \<Longrightarrow> c \<le> cmax \<Longrightarrow> inj_on f {..cmax} \<Longrightarrow> c' = c"
  unfolding nearest_def by (metis abs_0 abs_ge_zero diff_self leD atMost_iff inj_onD eq_iff_diff_eq_0 abs_eq_0 of_nat_eq_iff)

lemma fp8_mag_inj: "inj_on (\<lambda>c. fp8_mag M c * 2 ^ n) {..cmax}"
  by (rule inj_onI) (metis fp8_mag_strict linorder_neqE_nat mult_cancel2 nat_less_le power_not_zero zero_neq_numeral)

text \<open>
  Conversion to E4M3 rounds to nearest. For every finite \<open>f32\<close> the resulting code has the sign of
  the input and a magnitude at most \<open>0x7E\<close> (never the NaN pattern), and no other code decodes to a
  number that is closer to the input; of two equally close codes the even one is taken. Infinities
  give \<open>0x7E\<close> with their sign and NaNs give a NaN.
\<close>

lemma e4m3_nearest:
  "if f32_finite b
   then nearest (\<lambda>k. f32_mag (fp8_e4m3_to_f32 (word_of_nat k))) 126 (f32_mag b)
          (unat (f32_to_fp8_e4m3 b) mod 128)
        \<and> bit (f32_to_fp8_e4m3 b) 7 = f32_neg b
   else if f32_mant b = 0 then unat (f32_to_fp8_e4m3 b) = 128 * of_bool (f32_neg b) + 126
   else e4m3_is_nan (f32_to_fp8_e4m3 b)"
proof (cases "f32_finite b")
  case True
  let ?c = "e4m3_code (f32_exp b) (f32_mant b)"
  have near: "nearest (\<lambda>c. fp8_mag 3 c * 2 ^ 140) 126 (f32_mag b) ?c" by (rule e4m3_code_nearest)
  then have "?c < 128" by (simp add: nearest_def)
  note p = code_parts[OF e4m3_code_eq[OF True] this]
  have g: "f32_mag (fp8_e4m3_to_f32 (word_of_nat k)) = fp8_mag 3 k * 2 ^ 140" if "k \<le> 126" for k
    using e4m3_decode[of "word_of_nat k"] that by (simp add: unat_u8)
  have "nearest (\<lambda>k. f32_mag (fp8_e4m3_to_f32 (word_of_nat k))) 126 (f32_mag b) ?c"
    by (rule iffD2[OF nearest_cong near]) (rule g)
  then show ?thesis using True by (simp only: if_True p simp_thms)
next
  case False
  then have e: "int (f32_exp b) = 255" by (simp add: f32_finite_def)
  have m: "b AND 0x7FFFFF \<noteq> 0 \<longleftrightarrow> f32_mant b \<noteq> 0" by (simp add: f32_mant_def unat_eq_0)
  note base = f32_to_fp8_e4m3_def[of b, unfolded Let_def sign_word uint_exp e m]
  have "e4m3_is_nan (0x7F OR push_bit 7 (of_bool s :: u8))" for s
    by (cases s) (simp_all add: e4m3_is_nan_def)
  with False show ?thesis using sign_pack(3)[of "f32_neg b"]
    by (simp only: base if_False if_True refl simp_thms split: if_split) simp
qed

text \<open>
  Conversion to E5M2 rounds to nearest. For every finite \<open>f32\<close> the resulting code has the sign of
  the input and is the nearest of the finite magnitudes and Infinity, which counts as \<open>2^16\<close>, the next
  value after the largest finite one (so the input overflows from half a step above it on); of two
  equally close codes the even one is taken, and the magnitudes are those the decoder gives.
  Infinities are kept with their sign and NaNs give a NaN.
\<close>

lemma e5m2_nearest:
  "if f32_finite b
   then nearest (\<lambda>k. if k = 124 then 2 ^ (16 + 149) else f32_mag (fp8_e5m2_to_f32 (word_of_nat k)))
          124 (f32_mag b) (unat (f32_to_fp8_e5m2 b) mod 128)
        \<and> bit (f32_to_fp8_e5m2 b) 7 = f32_neg b
   else if f32_mant b = 0 then unat (f32_to_fp8_e5m2 b) = 128 * of_bool (f32_neg b) + 124
   else e5m2_is_nan (f32_to_fp8_e5m2 b)"
proof (cases "f32_finite b")
  case True
  let ?c = "e5m2_code (f32_exp b) (f32_mant b)"
  have near: "nearest (\<lambda>c. fp8_mag 2 c * 2 ^ 133) 124 (f32_mag b) ?c" by (rule e5m2_code_nearest)
  then have "?c < 128" by (simp add: nearest_def)
  note p = code_parts[OF e5m2_code_eq[OF True] this]
  let ?g = "\<lambda>k. if k = 124 then 2 ^ (16 + 149) else f32_mag (fp8_e5m2_to_f32 (word_of_nat k))"
  have g: "?g k = fp8_mag 2 k * 2 ^ 133" if "k \<le> 124" for k
  proof (cases "k = 124")
    case False
    with that e5m2_decode[of "word_of_nat k"] show ?thesis by (simp add: unat_u8)
  qed (simp add: fp8_mag_def)
  have "nearest ?g 124 (f32_mag b) ?c" by (rule iffD2[OF nearest_cong near]) (rule g)
  then show ?thesis using True by (simp only: if_True p simp_thms)
next
  case False
  then have e: "int (f32_exp b) = 255" by (simp add: f32_finite_def)
  have m: "b AND 0x7FFFFF \<noteq> 0 \<longleftrightarrow> f32_mant b \<noteq> 0" by (simp add: f32_mant_def unat_eq_0)
  note base = f32_to_fp8_e5m2_def[of b, unfolded Let_def sign_word uint_exp e m]
  have "e5m2_is_nan (0x7F OR push_bit 7 (of_bool s :: u8))" for s
    by (cases s) (simp_all add: e5m2_is_nan_def)
  with False show ?thesis using sign_pack(4)[of "f32_neg b"]
    by (simp only: base if_False if_True refl simp_thms split: if_split) simp
qed

text \<open>
  C6. Conversion to the two 8-bit formats rounds to nearest. For every finite \<open>f32\<close> the E4M3 code has the
  sign of the input and a magnitude at most \<open>0x7E\<close> (never the NaN pattern), no other code decodes to a
  number closer to the input, and of two equally close codes the even one is taken; infinities saturate.
  The same holds for E5M2 with Infinity as the next value (\<open>2^16\<close>) after the largest finite one (57344), so the
  input overflows from the tie 61440 on, and 57344 < |x| < 61440 gives the largest finite code \<open>0x7B\<close>; the comments
  of the source say that every |x| > 57344 becomes Infinity (see \<open>e5m2_above_max_is_max\<close>). Infinities are kept.
  NaNs give a NaN in both formats.
\<close>

theorem fp8_rounds_to_nearest:
  "(if f32_finite b
     then nearest (\<lambda>k. f32_mag (fp8_e4m3_to_f32 (word_of_nat k))) 126 (f32_mag b)
            (unat (f32_to_fp8_e4m3 b) mod 128)
          \<and> bit (f32_to_fp8_e4m3 b) 7 = f32_neg b
     else if f32_mant b = 0 then unat (f32_to_fp8_e4m3 b) = 128 * of_bool (f32_neg b) + 126
     else e4m3_is_nan (f32_to_fp8_e4m3 b)) \<and>
   (if f32_finite b
     then nearest (\<lambda>k. if k = 124 then 2 ^ (16 + 149) else f32_mag (fp8_e5m2_to_f32 (word_of_nat k)))
            124 (f32_mag b) (unat (f32_to_fp8_e5m2 b) mod 128)
          \<and> bit (f32_to_fp8_e5m2 b) 7 = f32_neg b
     else if f32_mant b = 0 then unat (f32_to_fp8_e5m2 b) = 128 * of_bool (f32_neg b) + 124
     else e5m2_is_nan (f32_to_fp8_e5m2 b))"
  by (rule conjI[OF e4m3_nearest e5m2_nearest])

text \<open>The \<open>f32\<close> numbers 60000 and 61440: above the largest finite E5M2 number, before and at the tie.\<close>

lemma e5m2_above_max_is_max:
  "f32_to_fp8_e5m2 0x476A6000 = 0x7B \<and> f32_to_fp8_e5m2 0x47700000 = 0x7C"
  by code_simp

lemma e5m2_infinity_codes: "e5m2_is_infinite y \<Longrightarrow> y = 0x7C \<or> y = 0xFC"
proof -
  assume "e5m2_is_infinite y"
  then have "unat (y AND mask 7) = 124" by (simp add: e5m2_is_infinite_def mask_eq_exp_minus_1)
  then have "unat y mod 128 = 124" by (simp only: unat_and_mask) simp
  moreover have "unat y < 256" using unsigned_less[of y, where 'a = nat] by simp
  moreover have "unat y = 128 * (unat y div 128) + unat y mod 128" by simp
  moreover have "unat y div 128 = 0 \<or> unat y div 128 = 1"
    using \<open>unat y < 256\<close> div_le_mono[of "unat y" 255 128] by auto
  ultimately have "unat y = 124 \<or> unat y = 252" by auto
  then have "unat y = unat (0x7C :: u8) \<or> unat y = unat (0xFC :: u8)" by simp
  then show ?thesis by (simp only: word_unat_eq_iff)
qed

lemma e5m2_infinity_roundtrip:
  "e5m2_is_infinite y \<Longrightarrow> f32_to_fp8_e5m2 (fp8_e5m2_to_f32 y) = y \<and> \<not> f32_finite (fp8_e5m2_to_f32 y)"
proof (drule e5m2_infinity_codes, elim disjE)
  assume "y = 0x7C"
  moreover have "f32_to_fp8_e5m2 (fp8_e5m2_to_f32 0x7C) = 0x7C" "\<not> f32_finite (fp8_e5m2_to_f32 0x7C)" by code_simp+
  ultimately show ?thesis by simp
next
  assume "y = 0xFC"
  moreover have "f32_to_fp8_e5m2 (fp8_e5m2_to_f32 0xFC) = 0xFC" "\<not> f32_finite (fp8_e5m2_to_f32 0xFC)" by code_simp+
  ultimately show ?thesis by simp
qed

lemma e4m3_roundtrip:
  "\<not> e4m3_is_nan x \<Longrightarrow> f32_to_fp8_e4m3 (fp8_e4m3_to_f32 x) = x \<and> f32_finite (fp8_e4m3_to_f32 x)"
proof
  assume "\<not> e4m3_is_nan x"
  have k: "(0x7F :: u8) = mask 7" by (simp add: mask_eq_exp_minus_1)
  have "unat x mod 128 \<noteq> 127"
  proof
    assume "unat x mod 128 = 127"
    then have "unat (x AND 0x7F) = unat (0x7F :: u8)" by (simp only: k unat_and_mask) (simp add: k[symmetric])
    then have "x AND 0x7F = 0x7F" by (simp only: word_unat_eq_iff)
    with \<open>\<not> e4m3_is_nan x\<close> show False by (simp add: e4m3_is_nan_def)
  qed
  then have le: "unat x mod 128 \<le> 126" using mod_less_divisor[of 128 "unat x"] by linarith
  note d = e4m3_decode[OF le]
  let ?b = "fp8_e4m3_to_f32 x"
  let ?c = "e4m3_code (f32_exp ?b) (f32_mant ?b)"
  have near: "nearest (\<lambda>c. fp8_mag 3 c * 2 ^ 140) 126 (fp8_mag 3 (unat x mod 128) * 2 ^ 140) ?c"
    using e4m3_code_nearest[of ?b] d by (simp only: simp_thms)
  have c: "?c = unat x mod 128" by (rule nearest_exact[OF near le fp8_mag_inj])
  then have "?c < 128" by simp
  from code_parts[OF e4m3_code_eq this] d c show "f32_to_fp8_e4m3 ?b = x" by (intro u8_eqI) auto
  show "f32_finite ?b" using d by blast
qed

lemma e5m2_finite_roundtrip:
  assumes y: "\<not> e5m2_is_nan y" "\<not> e5m2_is_infinite y"
  shows "f32_to_fp8_e5m2 (fp8_e5m2_to_f32 y) = y \<and> f32_finite (fp8_e5m2_to_f32 y)"
proof
  have "unat y div 4 mod 32 \<noteq> 31"
  proof
    assume a: "unat y div 4 mod 32 = 31"
    then have e: "drop_bit 2 y AND 0x1F = 0x1F" by (simp add: word_unat_eq_iff u8_fields)
    with y have "y AND 0x03 = 0" by (simp add: e5m2_is_nan_def)
    then have "unat y mod 4 = 0" using u8_fields(4)[of y] by simp
    then have m: "unat y mod 128 = 124" using mod_mult2_eq[of "unat y" 4 32] a by simp
    have k: "(0x7F :: u8) = mask 7" by (simp add: mask_eq_exp_minus_1)
    have "unat (y AND 0x7F) = unat (0x7C :: u8)" using m by (simp only: k unat_and_mask) simp
    then have "y AND 0x7F = 0x7C" by (simp only: word_unat_eq_iff)
    with y show False by (simp add: e5m2_is_infinite_def)
  qed
  then have le: "unat y mod 128 \<le> 123"
    using mod_mult2_eq[of "unat y" 4 32] mod_less_divisor[of 32 "unat y div 4"] mod_less_divisor[of 4 "unat y"] by simp
  note d = e5m2_decode[OF le]
  let ?b = "fp8_e5m2_to_f32 y"
  let ?c = "e5m2_code (f32_exp ?b) (f32_mant ?b)"
  have near: "nearest (\<lambda>c. fp8_mag 2 c * 2 ^ 133) 124 (fp8_mag 2 (unat y mod 128) * 2 ^ 133) ?c"
    using e5m2_code_nearest[of ?b] d by (simp only: simp_thms)
  have c: "?c = unat y mod 128" by (rule nearest_exact[OF near _ fp8_mag_inj]) (use le in simp)
  then have "?c < 128" by simp
  from code_parts[OF e5m2_code_eq this] d c show "f32_to_fp8_e5m2 ?b = y" by (intro u8_eqI) auto
  show "f32_finite ?b" using d by blast
qed

text \<open>
  C7. Every code survives decoding and encoding: for every E4M3 and every E5M2 code that is not a NaN, encoding the
  decoded \<open>f32\<close> gives the same 8 bits back, signs of zero, subnormals and the E5M2 infinities included. The decoded
  \<open>f32\<close> is finite, except exactly for the two E5M2 infinities.
\<close>

theorem fp8_roundtrip:
  "(\<not> e4m3_is_nan x \<longrightarrow> f32_to_fp8_e4m3 (fp8_e4m3_to_f32 x) = x \<and> f32_finite (fp8_e4m3_to_f32 x))
   \<and> (\<not> e5m2_is_nan y \<longrightarrow> f32_to_fp8_e5m2 (fp8_e5m2_to_f32 y) = y
        \<and> (f32_finite (fp8_e5m2_to_f32 y) \<longleftrightarrow> \<not> e5m2_is_infinite y))"
  using e4m3_roundtrip[of x] e5m2_finite_roundtrip[of y] e5m2_infinity_roundtrip[of y] by blast

lemma fp8_roundtrip_witness:
  "f32_to_fp8_e4m3 (fp8_e4m3_to_f32 0x81) = 0x81 \<and> f32_to_fp8_e5m2 (fp8_e5m2_to_f32 0x7B) = 0x7B
   \<and> f32_to_fp8_e5m2 (fp8_e5m2_to_f32 0xFC) = 0xFC \<and> \<not> f32_finite (fp8_e5m2_to_f32 0xFC)"
  using fp8_roundtrip[of "0x81" "0x7B"] fp8_roundtrip[of "0x81" "0xFC"]
  by (simp add: e4m3_is_nan_def e5m2_is_nan_def e5m2_is_infinite_def)

section \<open>Conversion to the 16-bit formats without the f16 feature\<close>

definition half_from_f32_util :: "u32 \<Rightarrow> bool \<Rightarrow> u16" where
  "half_from_f32_util bits is_f16 =
     (let sign = drop_bit 31 bits AND 1;
          exp = uint (drop_bit 23 bits AND 0xFF);
          frac = bits AND 0x7FFFFF
      in if \<not> is_f16 then ucast (drop_bit 16 bits AND 0xFFFF)
         else if exp = 0 then ucast (push_bit 15 sign)
         else if exp = 0xFF then
           ucast (push_bit 15 sign OR 0x7C00 OR (if frac \<noteq> 0 then 0x200 else 0))
         else
           let new_exp = exp - 127 + 15
           in if new_exp \<le> 0 then ucast (push_bit 15 sign)
              else if 31 \<le> new_exp then ucast (push_bit 15 sign OR 0x7C00)
              else ucast (push_bit 15 sign OR push_bit 10 (word_of_int new_exp) OR drop_bit 13 frac))"

text \<open>A NaN whose payload sits in the low 16 bits becomes the infinity of BF16.\<close>

lemma bf16_nan_becomes_infinity:
  "\<not> f32_finite 0x7F800001 \<and> f32_mant 0x7F800001 \<noteq> 0 \<and> half_from_f32_util 0x7F800001 False = 0x7F80"
  by (simp add: f32_finite_def f32_exp_def f32_mant_def half_from_f32_util_def)

end
