(* ===== verification/Indexing.thy ===== *)
theory Indexing
  imports Prelude
begin

text \<open>
  Row-major index arithmetic of the CPU kernels (\<open>src/runtime/cpu/kernels/index/\<close>): the stride
  vectors the kernels build, the conversion of a linear position to coordinates, the offset of a
  coordinate vector with one coordinate replaced, and the loop contract that the scattering kernels
  share. A pointer with its element count is a list, an access through it is checked, and \<open>None\<close> is
  an access outside the buffer or a panic, so a kernel that is \<open>Some\<close> touches no memory it must not.
  Sizes are \<open>nat\<close>: the products the kernels form count elements of buffers that exist in memory.
\<close>

section \<open>The loops of the kernels\<close>

text \<open>\<open>strides = [1; ndim]; for i in (0..ndim - 1).rev() { strides[i] = strides[i + 1] * shape[i + 1] }\<close>\<close>

definition row_strides :: "nat \<Rightarrow> nat list \<Rightarrow> nat list option" where
  "row_strides ndim shp =
     foldM (\<lambda>i strd. do {
        s \<leftarrow> nth_chk strd (i + 1);
        d \<leftarrow> nth_chk shp (i + 1);
        upd_chk strd i (s * d) }) (rev [0..<ndim - 1]) (replicate ndim 1)"

text \<open>\<open>multi_idx[d] = remaining / strides[d]; remaining %= strides[d]\<close> for every axis; a zero stride panics.\<close>

fun unravel_strides :: "nat list \<Rightarrow> nat \<Rightarrow> nat list option" where
  "unravel_strides [] remaining = Some []"
| "unravel_strides (s # ss) remaining =
     (if s = 0 then None
      else map_option (\<lambda>rest. remaining div s # rest) (unravel_strides ss (remaining mod s)))"

text \<open>\<open>offset += (if d == dim then index else multi_idx[d]) * strides[d]\<close>, counting axes from \<open>d\<close>.\<close>

fun replaced_offset :: "nat \<Rightarrow> nat \<Rightarrow> nat \<Rightarrow> nat list \<Rightarrow> nat list \<Rightarrow> nat" where
  "replaced_offset d dim v (c # cs) (s # ss) =
     (if d = dim then v else c) * s + replaced_offset (Suc d) dim v cs ss"
| "replaced_offset d dim v _ _ = 0"

section \<open>Coordinates\<close>

fun row_prods :: "nat list \<Rightarrow> nat list" where
  "row_prods [] = []"
| "row_prods (d # ds) = prod_list ds # row_prods ds"

fun unravel :: "nat list \<Rightarrow> nat \<Rightarrow> nat list" where
  "unravel [] k = []"
| "unravel (d # ds) k = k div prod_list ds # unravel ds (k mod prod_list ds)"

fun ravel :: "nat list \<Rightarrow> nat list \<Rightarrow> nat" where
  "ravel (d # ds) (i # idx) = i * prod_list ds + ravel ds idx"
| "ravel _ _ = 0"

definition inside :: "nat list \<Rightarrow> nat list \<Rightarrow> bool" where
  "inside idx shp \<longleftrightarrow> list_all2 (<) idx shp"

lemma inside_simps [simp]:
  "inside [] []" "inside (i # idx) (d # ds) \<longleftrightarrow> i < d \<and> inside idx ds"
  "\<not> inside [] (d # ds)" "\<not> inside (i # idx) []"
  by (simp_all add: inside_def)

lemma inside_nth: "inside idx shp \<longleftrightarrow> length idx = length shp \<and> (\<forall>i < length shp. idx ! i < shp ! i)"
  by (auto simp: inside_def list_all2_conv_all_nth)

lemma length_row_prods [simp]: "length (row_prods shp) = length shp"
  by (induction shp) auto

lemma length_unravel [simp]: "length (unravel shp k) = length shp"
  by (induction shp arbitrary: k) auto

lemma row_prods_nth: "i < length shp \<Longrightarrow> row_prods shp ! i = prod_list (drop (Suc i) shp)"
proof (induction shp arbitrary: i)
  case (Cons d ds)
  then show ?case by (cases i) auto
qed simp

lemma ravel_less: "inside idx shp \<Longrightarrow> ravel shp idx < prod_list shp"
proof (induction idx shp rule: list_induct2')
  case (4 i idx d ds)
  then have "ravel ds idx < prod_list ds" "Suc i \<le> d" by auto
  then have "i * prod_list ds + ravel ds idx < Suc i * prod_list ds" by simp
  also have "\<dots> \<le> d * prod_list ds" using \<open>Suc i \<le> d\<close> by (rule mult_le_mono1)
  finally show ?case by simp
qed auto

lemma unravel_inside: "k < prod_list shp \<Longrightarrow> inside (unravel shp k) shp"
proof (induction shp arbitrary: k)
  case (Cons d ds)
  then have pos: "0 < prod_list ds" by (cases "prod_list ds") auto
  have "k div prod_list ds < d" using Cons.prems by (simp add: less_mult_imp_div_less)
  with Cons.IH[of "k mod prod_list ds"] pos show ?case by simp
qed simp

lemma ravel_unravel: "k < prod_list shp \<Longrightarrow> ravel shp (unravel shp k) = k"
proof (induction shp arbitrary: k)
  case (Cons d ds)
  then have pos: "0 < prod_list ds" by (cases "prod_list ds") auto
  with Cons.IH[of "k mod prod_list ds"] show ?case by simp
qed simp

lemma unravel_ravel: "inside idx shp \<Longrightarrow> unravel shp (ravel shp idx) = idx"
proof (induction idx shp rule: list_induct2')
  case (4 i idx d ds)
  then have "ravel ds idx < prod_list ds" by (simp add: ravel_less)
  with 4 show ?case by simp
qed auto

text \<open>What the loops compute.\<close>

lemma row_strides_eq:
  assumes "length shp = n" and "0 < n"
  shows "row_strides n shp = Some (row_prods shp)"
proof -
  let ?f = "\<lambda>i strd. do { s \<leftarrow> nth_chk strd (i + 1); d \<leftarrow> nth_chk shp (i + 1); upd_chk strd i (s * d) }"
  have loop: "foldM ?f (rev [0..<m]) strd = Some (row_prods shp)"
    if "m < n" "length strd = n" "\<And>i. m \<le> i \<Longrightarrow> i < n \<Longrightarrow> strd ! i = row_prods shp ! i" for m strd
    using that
  proof (induction m arbitrary: strd)
    case 0
    then have "strd = row_prods shp" using assms(1) by (intro nth_equalityI) auto
    then show ?case by simp
  next
    case (Suc m)
    have p: "row_prods shp ! m = row_prods shp ! Suc m * shp ! Suc m"
      using Suc.prems(1) assms(1) Cons_nth_drop_Suc[of "Suc m" shp] by (simp add: row_prods_nth)
        (metis mult.commute prod_list.Cons)
    have "?f m strd = Some (strd[m := row_prods shp ! m])"
      using Suc.prems assms(1) p by simp
    moreover have "foldM ?f (rev [0..<m]) (strd[m := row_prods shp ! m]) = Some (row_prods shp)"
      using Suc.prems by (intro Suc.IH) (auto simp: nth_list_update le_less_Suc_eq Suc_le_eq)
    ultimately show ?case by simp
  qed
  have "replicate n 1 ! i = row_prods shp ! i" if "n - 1 \<le> i" "i < n" for i
    using that assms by (simp add: row_prods_nth)
  then show ?thesis
    unfolding row_strides_def using assms(2) by (intro loop) auto
qed

lemma unravel_strides_eq: "0 < prod_list shp \<Longrightarrow> unravel_strides (row_prods shp) k = Some (unravel shp k)"
  by (induction shp arbitrary: k) auto

lemma replaced_offset_above:
  "dim < d \<Longrightarrow> length idx = length shp \<Longrightarrow> replaced_offset d dim v idx (row_prods shp) = ravel shp idx"
proof (induction shp arbitrary: d idx)
  case (Cons s ss)
  then show ?case by (cases idx) auto
qed simp

lemma replaced_offset_eq:
  "length idx = length shp \<Longrightarrow>
   replaced_offset d (d + i) v idx (row_prods shp) = ravel shp (idx[i := v])"
proof (induction shp arbitrary: d i idx)
  case (Cons s ss)
  then obtain c cs where idx: "idx = c # cs" by (cases idx) auto
  show ?case
  proof (cases i)
    case 0
    with Cons idx show ?thesis by (simp add: replaced_offset_above)
  next
    case (Suc j)
    with Cons idx Cons.IH[of cs "Suc d" j] show ?thesis by simp
  qed
qed (cases idx, auto)

lemma inside_replace:
  assumes "inside idx ishp" and "length ishp = length shp" and "dim < length shp" and "v < shp ! dim"
    and "\<And>d. d < length shp \<Longrightarrow> d \<noteq> dim \<Longrightarrow> ishp ! d \<le> shp ! d"
  shows "inside (idx[dim := v]) shp"
  using assms by (auto simp: inside_nth nth_list_update intro: less_le_trans)

section \<open>Loops that update one place per step\<close>

text \<open>
  A kernel whose loop over \<open>k < count p\<close> updates at most one place of the output, \<open>target p k\<close>, from its old
  content, and fails when that place is outside the output: the loop succeeds exactly when every place is inside, and
  then the result at a place is the fold of the steps that hit it, in loop order.
\<close>

locale update_loop =
  fixes ok :: "'p \<Rightarrow> bool" and count :: "'p \<Rightarrow> nat" and len :: "'p \<Rightarrow> nat"
    and body :: "'p \<Rightarrow> nat \<Rightarrow> 'b list \<Rightarrow> 'b list option"
    and target :: "'p \<Rightarrow> nat \<Rightarrow> nat option" and upd :: "'p \<Rightarrow> nat \<Rightarrow> 'b \<Rightarrow> 'b"
  assumes body_eq: "ok p \<Longrightarrow> k < count p \<Longrightarrow> length out = len p \<Longrightarrow>
      body p k out = (case target p k of None \<Rightarrow> Some out
        | Some j \<Rightarrow> if j < len p then Some (out[j := upd p k (out ! j)]) else None)"
begin

lemma loop_iff:
  assumes ok: "ok p" and len: "length out = len p" and n: "n \<le> count p"
  shows "foldM (body p) [0..<n] out =
    (if \<forall>k<n. \<forall>j. target p k = Some j \<longrightarrow> j < len p
     then Some (map (\<lambda>j. fold (upd p) (filter (\<lambda>k. target p k = Some j) [0..<n]) (out ! j)) [0..<len p]) else None)"
  using n
proof (induction n)
  case 0
  have "map (\<lambda>j. out ! j) [0..<len p] = out" using len by (metis map_nth)
  then show ?case by simp
next
  case (Suc n)
  let ?r = "\<lambda>m. map (\<lambda>j. fold (upd p) (filter (\<lambda>k. target p k = Some j) [0..<m]) (out ! j)) [0..<len p]"
  have step: "body p n (?r n) = (if \<forall>j. target p n = Some j \<longrightarrow> j < len p then Some (?r (Suc n)) else None)"
  proof (cases "target p n")
    case None
    with body_eq[OF ok, of n "?r n"] Suc.prems show ?thesis by simp
  next
    case (Some j)
    show ?thesis
    proof (cases "j < len p")
      case True
      then have "(?r n)[j := upd p n (?r n ! j)] = ?r (Suc n)"
        using Some by (intro nth_equalityI) (auto simp: nth_list_update)
      with True body_eq[OF ok, of n "?r n"] Some Suc.prems show ?thesis by simp
    next
      case False
      with body_eq[OF ok, of n "?r n"] Some Suc.prems show ?thesis by simp
    qed
  qed
  show ?case
  proof (cases "\<forall>k<n. \<forall>j. target p k = Some j \<longrightarrow> j < len p")
    case True
    with Suc step show ?thesis by (simp add: foldM_append less_Suc_eq)
  next
    case False
    moreover from this have "\<not> (\<forall>k<Suc n. \<forall>j. target p k = Some j \<longrightarrow> j < len p)" by (meson less_SucI)
    ultimately show ?thesis using Suc by (simp only: upt_Suc_append foldM_append le0 Suc_leD if_False) simp
  qed
qed

end

text \<open>The same for a loop that fills place \<open>k\<close> in round \<open>k\<close>, when round \<open>k\<close> may fail.\<close>

lemma foldM_fill_iff:
  assumes step: "\<And>k out. k < m \<Longrightarrow> length out = L \<Longrightarrow> f k out = (if P k then Some (out[k := g k]) else None)"
    and fits: "m \<le> L" and len: "length out = L"
  shows "foldM f [0..<m] out = (if \<forall>k<m. P k then Some (map g [0..<m] @ drop m out) else None)"
proof -
  have "foldM f [0..<n] out = (if \<forall>k<n. P k then Some (map g [0..<n] @ drop n out) else None)" if "n \<le> m" for n
    using that
  proof (induction n)
    case (Suc n)
    have "(map g [0..<n] @ drop n out)[n := g n] = map g [0..<Suc n] @ drop (Suc n) out"
      using Suc.prems fits len by (intro nth_equalityI) (auto simp: nth_list_update nth_append less_Suc_eq)
    moreover have "f n (map g [0..<n] @ drop n out) = (if P n then Some ((map g [0..<n] @ drop n out)[n := g n]) else None)"
      using Suc.prems fits len by (intro step) auto
    moreover have "(\<forall>k<Suc n. P k) \<longleftrightarrow> (\<forall>k<n. P k) \<and> P n" by (auto simp: less_Suc_eq)
    ultimately show ?case using Suc by (simp add: foldM_append)
  qed simp
  then show ?thesis by simp
qed

section \<open>Loops that fill a buffer block by block\<close>

lemma foldM_fill_blocks:
  assumes step: "\<And>k out. k < m \<Longrightarrow> length out = L \<Longrightarrow>
      f k out = Some (take (b + k * c) out @ blk k @ drop (b + (k + 1) * c) out)"
    and blk: "\<And>k. k < m \<Longrightarrow> length (blk k) = c" and fits: "b + m * c \<le> L" and len: "length out = L"
  shows "foldM f [0..<m] out = Some (take b out @ concat (map blk [0..<m]) @ drop (b + m * c) out)"
proof -
  have "foldM f [0..<n] out = Some (take b out @ concat (map blk [0..<n]) @ drop (b + n * c) out)"
    if "n \<le> m" for n
    using that
  proof (induction n)
    case (Suc n)
    let ?o = "take b out @ concat (map blk [0..<n]) @ drop (b + n * c) out"
    have cl: "length (concat (map blk [0..<n])) = n * c"
      using Suc.prems blk by (simp add: length_concat sum_list_triv comp_def cong: map_cong)
        (subst map_cong[where g = "\<lambda>_. c"], auto simp: sum_list_triv)
    have "b + (n + 1) * c \<le> b + m * c" using Suc.prems by (intro add_left_mono mult_le_mono1) simp
    then have le: "b + n * c + c \<le> L" using fits by simp
    have lo: "length ?o = L" using cl len le by simp
    have t: "take (b + n * c) ?o = take b out @ concat (map blk [0..<n])" using cl len le by simp
    have d: "drop (b + (n + 1) * c) ?o = drop (b + Suc n * c) out" using cl len le by (simp add: add_ac)
    have "f n ?o = Some (take b out @ concat (map blk [0..<Suc n]) @ drop (b + Suc n * c) out)"
      using step[of n ?o] lo Suc.prems unfolding t d by simp
    with Suc show ?case by (simp add: foldM_append)
  qed simp
  then show ?thesis by simp
qed

text \<open>The same with one element per round.\<close>

lemma foldM_fill_each:
  assumes "\<And>k out. k < m \<Longrightarrow> length out = L \<Longrightarrow> f k out = Some (out[b + k := g k])"
    and "b + m \<le> L" and "length out = L"
  shows "foldM f [0..<m] out = Some (take b out @ map g [0..<m] @ drop (b + m) out)"
proof -
  have "foldM f [0..<m] out = Some (take b out @ concat (map (\<lambda>k. [g k]) [0..<m]) @ drop (b + m * 1) out)"
  proof (rule foldM_fill_blocks[where L = L])
    fix k out' assume "k < m" "length (out' :: 'a list) = L"
    then show "f k out' = Some (take (b + k * 1) out' @ [g k] @ drop (b + (k + 1) * 1) out')"
      using assms(1)[of k out'] assms(2) by (simp add: upd_conv_take_nth_drop)
  qed (use assms in auto)
  then show ?thesis by simp
qed

lemma nth_concat_blocks:
  assumes "\<And>k. k < m \<Longrightarrow> length (blk k) = c" and "k < m" and "i < c"
  shows "concat (map blk [0..<m]) ! (k * c + i) = blk k ! i"
  using assms
proof (induction m)
  case (Suc m)
  have cl: "length (concat (map blk [0..<m])) = m * c"
    using Suc.prems(1) by (simp add: length_concat comp_def)
      (subst map_cong[where g = "\<lambda>_. c"], auto simp: sum_list_triv)
  show ?case
  proof (cases "k = m")
    case True
    then show ?thesis using cl by (simp add: nth_append)
  next
    case False
    then have "k < m" using Suc.prems(2) by simp
    then have "k * c + i < m * c"
      using mult_le_mono1[of "Suc k" m c] Suc.prems(3) by simp
    then show ?thesis using cl Suc \<open>k < m\<close> by (simp add: nth_append)
  qed
qed simp

end
