(* ===== verification/Index_Kernels.thy ===== *)
theory Index_Kernels
  imports Indexing
begin

text \<open>
  The gather, scatter and selection kernels of the CPU backend
  (\<open>src/runtime/cpu/kernels/index/\<close>), generic in the element type \<open>'a\<close>; \<open>T::zero()\<close> is the argument
  \<open>zero\<close>. Index values are \<open>int\<close> (\<open>i64\<close>), and a kernel skips, zero-fills or rejects the ones out of
  range as the source does.
\<close>

section \<open>Gather\<close>

definition gather_kernel :: "'a \<Rightarrow> 'a list \<Rightarrow> int list \<Rightarrow> 'a list \<Rightarrow> nat list \<Rightarrow> nat list \<Rightarrow> nat \<Rightarrow> 'a list option" where
  "gather_kernel zero a indices out shp index_shape dim =
     (let ndim = length shp
      in if ndim = 0 then Some out
         else do {
           a_strides \<leftarrow> row_strides ndim shp;
           idx_strides \<leftarrow> row_strides ndim index_shape;
           foldM (\<lambda>out_idx out. do {
              multi_idx \<leftarrow> unravel_strides idx_strides out_idx;
              index_val \<leftarrow> nth_chk indices out_idx;
              sd \<leftarrow> nth_chk shp dim;
              (if index_val < 0 \<or> sd \<le> as_usize index_val then upd_chk out out_idx zero
               else do {
                 v \<leftarrow> nth_chk a (replaced_offset 0 dim (as_usize index_val) multi_idx a_strides);
                 upd_chk out out_idx v }) })
             [0..<prod_list index_shape] out })"

definition gather_2d_kernel :: "'a list \<Rightarrow> int list \<Rightarrow> int list \<Rightarrow> 'a list \<Rightarrow> nat \<Rightarrow> nat \<Rightarrow> nat \<Rightarrow>
    ('a list \<times> bool) option" where
  "gather_2d_kernel input rows cols out nrows ncols num_indices =
     (if num_indices = 0 then Some (out, True)
      else foldM (\<lambda>i (out, valid).
             if \<not> valid then Some (out, False)
             else do {
               r \<leftarrow> nth_chk rows i;
               c \<leftarrow> nth_chk cols i;
               (if r < 0 \<or> nrows \<le> as_usize r \<or> c < 0 \<or> ncols \<le> as_usize c then Some (out, False)
                else do {
                  v \<leftarrow> nth_chk input (as_usize r * ncols + as_usize c);
                  out' \<leftarrow> upd_chk out i v;
                  Some (out', True) }) })
             [0..<num_indices] (out, True))"

section \<open>Scatter\<close>

definition scatter_step :: "int list \<Rightarrow> 'a list \<Rightarrow> nat list \<Rightarrow> nat \<Rightarrow> nat list \<Rightarrow> nat list \<Rightarrow> nat \<Rightarrow>
    'a list \<Rightarrow> 'a list option" where
  "scatter_step indices src shp dim out_strides idx_strides src_idx out = do {
     multi_idx \<leftarrow> unravel_strides idx_strides src_idx;
     index_val \<leftarrow> nth_chk indices src_idx;
     sd \<leftarrow> nth_chk shp dim;
     (if index_val < 0 \<or> sd \<le> as_usize index_val then Some out
      else do {
        v \<leftarrow> nth_chk src src_idx;
        upd_chk out (replaced_offset 0 dim (as_usize index_val) multi_idx out_strides) v }) }"

text \<open>\<open>copy_nonoverlapping\<close> of \<open>n\<close> elements from the start of one buffer to the start of another.\<close>

definition copy_from :: "'a list \<Rightarrow> nat \<Rightarrow> 'a list \<Rightarrow> nat \<Rightarrow> nat \<Rightarrow> 'a list option" where
  "copy_from src s dst d n =
     (if s + n \<le> length src \<and> d + n \<le> length dst
      then Some (take d dst @ take n (drop s src) @ drop (d + n) dst) else None)"

definition scatter_kernel :: "'a list \<Rightarrow> int list \<Rightarrow> 'a list \<Rightarrow> 'a list \<Rightarrow> nat list \<Rightarrow> nat list \<Rightarrow> nat \<Rightarrow> 'a list option" where
  "scatter_kernel a indices src out shp index_shape dim =
     (let ndim = length shp
      in if ndim = 0 then Some out
         else do {
           out \<leftarrow> copy_from a 0 out 0 (prod_list shp);
           out_strides \<leftarrow> row_strides ndim shp;
           idx_strides \<leftarrow> row_strides ndim index_shape;
           foldM (scatter_step indices src shp dim out_strides idx_strides)
             [0..<prod_list index_shape] out })"

section \<open>Selection along one axis\<close>

definition index_select_kernel :: "'a \<Rightarrow> 'a list \<Rightarrow> int list \<Rightarrow> 'a list \<Rightarrow> nat list \<Rightarrow> nat \<Rightarrow> nat \<Rightarrow> 'a list option" where
  "index_select_kernel zero a indices out shp dim index_len =
     (let ndim = length shp
      in if ndim = 0 then Some out
         else do {
           dim_size \<leftarrow> nth_chk shp dim;
           let outer_size = prod_list (take dim shp);
           let inner_size = prod_list (drop (dim + 1) shp);
           foldM (\<lambda>outer. foldM (\<lambda>sel_idx out. do {
                idx_val \<leftarrow> nth_chk indices sel_idx;
                let idx = as_usize idx_val;
                (if dim_size \<le> idx
                 then foldM (\<lambda>inner out.
                        upd_chk out (outer * index_len * inner_size + sel_idx * inner_size + inner) zero)
                        [0..<inner_size] out
                 else foldM (\<lambda>inner out. do {
                        v \<leftarrow> nth_chk a (outer * dim_size * inner_size + idx * inner_size + inner);
                        upd_chk out (outer * index_len * inner_size + sel_idx * inner_size + inner) v })
                        [0..<inner_size] out) }) [0..<index_len]) [0..<outer_size] out })"

definition index_put_kernel :: "'a list \<Rightarrow> int list \<Rightarrow> 'a list \<Rightarrow> 'a list \<Rightarrow> nat list \<Rightarrow> nat \<Rightarrow> nat \<Rightarrow> 'a list option" where
  "index_put_kernel a indices src out shp dim index_len =
     (let ndim = length shp
      in if ndim = 0 then Some out
         else do {
           dim_size \<leftarrow> nth_chk shp dim;
           let outer_size = prod_list (take dim shp);
           let inner_size = prod_list (drop (dim + 1) shp);
           out \<leftarrow> copy_from a 0 out 0 (prod_list shp);
           foldM (\<lambda>outer. foldM (\<lambda>sel_idx out. do {
                idx_val \<leftarrow> nth_chk indices sel_idx;
                let idx = as_usize idx_val;
                (if dim_size \<le> idx then Some out
                 else foldM (\<lambda>inner out. do {
                        v \<leftarrow> nth_chk src (outer * index_len * inner_size + sel_idx * inner_size + inner);
                        upd_chk out (outer * dim_size * inner_size + idx * inner_size + inner) v })
                        [0..<inner_size] out) }) [0..<index_len]) [0..<outer_size] out })"

definition slice_assign_kernel :: "'a list \<Rightarrow> 'a list \<Rightarrow> 'a list \<Rightarrow> nat \<Rightarrow> nat \<Rightarrow> nat \<Rightarrow> nat \<Rightarrow> nat \<Rightarrow> 'a list option" where
  "slice_assign_kernel dst src out outer_size dst_dim_size src_dim_size inner_size start = do {
     out \<leftarrow> copy_from dst 0 out 0 (outer_size * dst_dim_size * inner_size);
     foldM (\<lambda>o1. foldM (\<lambda>s out.
          copy_from src (o1 * src_dim_size * inner_size + s * inner_size) out
            (o1 * dst_dim_size * inner_size + (start + s) * inner_size) inner_size)
          [0..<src_dim_size]) [0..<outer_size] out }"

section \<open>Masks, embedding rows, histograms\<close>

text \<open>
  The three masked kernels are the scalar code of \<open>masked.rs\<close>; the SIMD versions it dispatches to for some
  element types on x86-64 and AArch64 are not modelled.
\<close>

definition masked_count_kernel :: "u8 list \<Rightarrow> nat \<Rightarrow> nat" where
  "masked_count_kernel msk numel = length (filter (\<lambda>b. b \<noteq> 0) (take numel msk))"

definition masked_select_kernel :: "'a list \<Rightarrow> u8 list \<Rightarrow> 'a list \<Rightarrow> nat \<Rightarrow> 'a list option" where
  "masked_select_kernel a msk out numel =
     map_option fst (foldM (\<lambda>i (out, out_idx). do {
        b \<leftarrow> nth_chk msk i;
        (if b \<noteq> 0 then do { v \<leftarrow> nth_chk a i; out' \<leftarrow> upd_chk out out_idx v; Some (out', out_idx + 1) }
         else Some (out, out_idx)) }) [0..<numel] (out, 0 :: nat))"

definition masked_fill_kernel :: "'a list \<Rightarrow> u8 list \<Rightarrow> 'a list \<Rightarrow> nat \<Rightarrow> 'a \<Rightarrow> 'a list option" where
  "masked_fill_kernel a msk out numel fill_val =
     foldM (\<lambda>i out. do {
        b \<leftarrow> nth_chk msk i;
        v \<leftarrow> nth_chk a i;
        upd_chk out i (if b \<noteq> 0 then fill_val else v) }) [0..<numel] out"

definition embedding_lookup_kernel :: "'a \<Rightarrow> 'a list \<Rightarrow> int list \<Rightarrow> 'a list \<Rightarrow> nat \<Rightarrow> nat \<Rightarrow> nat \<Rightarrow> 'a list option" where
  "embedding_lookup_kernel zero embeddings indices out num_indices vocab_size embedding_dim =
     (if num_indices = 0 \<or> embedding_dim = 0 then Some out
      else foldM (\<lambda>i out. do {
             idx_val \<leftarrow> nth_chk indices i;
             (if idx_val < 0 \<or> vocab_size \<le> as_usize idx_val
              then copy_from (replicate embedding_dim zero) 0 out (i * embedding_dim) embedding_dim
              else copy_from embeddings (as_usize idx_val * embedding_dim) out (i * embedding_dim)
                     embedding_dim) }) [0..<num_indices] out)"

text \<open>\<open>add\<close>, \<open>zero\<close> and \<open>one\<close> are the element type's; \<open>weights = None\<close> is the null pointer.\<close>

definition bincount_kernel :: "('a \<Rightarrow> 'a \<Rightarrow> 'a) \<Rightarrow> 'a \<Rightarrow> 'a \<Rightarrow> int list \<Rightarrow> 'a list option \<Rightarrow> nat \<Rightarrow> nat \<Rightarrow> bool \<Rightarrow>
    ('a list \<times> bool) option" where
  "bincount_kernel add zero one input weights numel output_len reject_negative =
     foldM (\<lambda>i (out, go).
        if \<not> go then Some (out, False)
        else do {
          val \<leftarrow> nth_chk input i;
          (if val < 0 then (if reject_negative then Some (out, False) else Some (out, True))
           else let idx = as_usize val
                in if idx < output_len then do {
                     w \<leftarrow> (case weights of Some ws \<Rightarrow> nth_chk ws i | None \<Rightarrow> Some one);
                     x \<leftarrow> nth_chk out idx;
                     out' \<leftarrow> upd_chk out idx (add x w);
                     Some (out', True) }
                   else Some (out, True)) })
       [0..<numel] (replicate output_len zero, True)"

definition max_i64_kernel :: "int list \<Rightarrow> nat \<Rightarrow> int" where
  "max_i64_kernel input numel = (if numel = 0 then - 1 else fold max (tl (take numel input)) (hd input))"

section \<open>Gather is the specified selection\<close>

text \<open>The element a valid index value \<open>v\<close> at position \<open>k\<close> of the index tensor names.\<close>

definition moved_index :: "nat list \<Rightarrow> nat list \<Rightarrow> nat \<Rightarrow> nat \<Rightarrow> nat \<Rightarrow> nat" where
  "moved_index shp index_shape dim k v = ravel shp ((unravel index_shape k)[dim := v])"

definition valid_index :: "nat list \<Rightarrow> nat \<Rightarrow> int \<Rightarrow> bool" where
  "valid_index shp dim v \<longleftrightarrow> 0 \<le> v \<and> v < int (shp ! dim)"

text \<open>
  What the callers check: axis \<open>dim\<close> exists (all of them) and the index tensor has the same rank (\<open>gather_impl\<close>,
  \<open>scatter_reduce_impl\<close>, but not \<open>scatter_impl\<close>); the size along \<open>dim\<close> fits \<open>isize\<close>.
\<close>

definition index_ranks_ok :: "nat list \<Rightarrow> nat list \<Rightarrow> nat \<Rightarrow> bool" where
  "index_ranks_ok shp index_shape dim \<longleftrightarrow> dim < length shp \<and> length index_shape = length shp \<and> shp ! dim < 2 ^ 63"

text \<open>What none of them checks: every place that a valid index value names is inside the tensor.\<close>

definition index_fits :: "nat list \<Rightarrow> nat list \<Rightarrow> nat \<Rightarrow> int list \<Rightarrow> bool" where
  "index_fits shp index_shape dim indices \<longleftrightarrow>
     (\<forall>k < prod_list index_shape. valid_index shp dim (indices ! k) \<longrightarrow>
        moved_index shp index_shape dim k (nat (indices ! k)) < prod_list shp)"

text \<open>It holds when the index tensor is nowhere wider than the tensor except along \<open>dim\<close>.\<close>

definition index_shapes_ok :: "nat list \<Rightarrow> nat list \<Rightarrow> nat \<Rightarrow> bool" where
  "index_shapes_ok shp index_shape dim \<longleftrightarrow>
     index_ranks_ok shp index_shape dim \<and> (\<forall>d < length shp. d \<noteq> dim \<longrightarrow> index_shape ! d \<le> shp ! d)"

definition i64s :: "int list \<Rightarrow> bool" where
  "i64s xs \<longleftrightarrow> (\<forall>x \<in> set xs. - (2 ^ 63) \<le> x \<and> x < 2 ^ 63)"

lemma i64s_nth: "i64s xs \<Longrightarrow> i < length xs \<Longrightarrow> - (2 ^ 63) \<le> xs ! i \<and> xs ! i < 2 ^ 63"
  by (simp add: i64s_def)

lemma index_invalid_iff:
  "- (2 ^ 63) \<le> v \<Longrightarrow> v < 2 ^ 63 \<Longrightarrow> v < 0 \<or> shp ! dim \<le> as_usize v \<longleftrightarrow> \<not> valid_index shp dim v"
  by (auto simp: valid_index_def as_usize_def)

lemma moved_index_less:
  assumes "index_shapes_ok shp index_shape dim" and "k < prod_list index_shape" and "v < shp ! dim"
  shows "moved_index shp index_shape dim k v < prod_list shp"
  unfolding moved_index_def
  by (rule ravel_less, rule inside_replace[OF unravel_inside[OF assms(2)]])
    (use assms in \<open>auto simp: index_shapes_ok_def index_ranks_ok_def\<close>)

lemma shapes_ok_fits: "index_shapes_ok shp index_shape dim \<Longrightarrow> index_fits shp index_shape dim indices"
  by (auto simp: index_fits_def valid_index_def intro!: moved_index_less)

lemma shapes_ok_ranks: "index_shapes_ok shp index_shape dim \<Longrightarrow> index_ranks_ok shp index_shape dim"
  by (simp add: index_shapes_ok_def)

text \<open>The address computation of one loop round.\<close>

lemma index_step:
  assumes ok: "index_ranks_ok shp index_shape dim" and k: "k < prod_list index_shape"
  shows "unravel_strides (row_prods index_shape) k = Some (unravel index_shape k)"
    and "replaced_offset 0 dim v (unravel index_shape k) (row_prods shp) = moved_index shp index_shape dim k v"
proof -
  have "0 < prod_list index_shape" using k by linarith
  then show "unravel_strides (row_prods index_shape) k = Some (unravel index_shape k)"
    by (rule unravel_strides_eq)
  show "replaced_offset 0 dim v (unravel index_shape k) (row_prods shp) = moved_index shp index_shape dim k v"
    using replaced_offset_eq[of "unravel index_shape k" shp 0 dim v] ok
    by (simp add: moved_index_def index_ranks_ok_def)
qed

definition gather_spec :: "'a \<Rightarrow> 'a list \<Rightarrow> int list \<Rightarrow> nat list \<Rightarrow> nat list \<Rightarrow> nat \<Rightarrow> nat \<Rightarrow> 'a" where
  "gather_spec zero a indices shp index_shape dim k =
     (if valid_index shp dim (indices ! k) then a ! moved_index shp index_shape dim k (nat (indices ! k))
      else zero)"

lemma gather_kernel_iff:
  assumes ok: "index_ranks_ok shp index_shape dim" and i64: "i64s indices"
    and la: "length a = prod_list shp" and li: "length indices = prod_list index_shape"
    and lo: "length out = prod_list index_shape"
  shows "gather_kernel zero a indices out shp index_shape dim =
    (if index_fits shp index_shape dim indices
     then Some (map (gather_spec zero a indices shp index_shape dim) [0..<prod_list index_shape]) else None)"
proof -
  let ?n = "prod_list index_shape" and ?g = "gather_spec zero a indices shp index_shape dim"
  let ?P = "\<lambda>k. valid_index shp dim (indices ! k) \<longrightarrow>
    moved_index shp index_shape dim k (nat (indices ! k)) < prod_list shp"
  have nd: "length shp \<noteq> 0" "length index_shape = length shp" "dim < length shp"
    using ok by (auto simp: index_ranks_ok_def)
  let ?body = "\<lambda>out_idx out. do {
      multi_idx \<leftarrow> unravel_strides (row_prods index_shape) out_idx;
      index_val \<leftarrow> nth_chk indices out_idx;
      sd \<leftarrow> nth_chk shp dim;
      (if index_val < 0 \<or> sd \<le> as_usize index_val then upd_chk out out_idx zero
       else do {
         v \<leftarrow> nth_chk a (replaced_offset 0 dim (as_usize index_val) multi_idx (row_prods shp));
         upd_chk out out_idx v }) }"
  have body: "?body k out = (if ?P k then Some (out[k := ?g k]) else None)" if k: "k < ?n" and l: "length out = ?n" for k out
  proof -
    have b: "- (2 ^ 63) \<le> indices ! k" "indices ! k < 2 ^ 63" using i64s_nth[OF i64] k li by auto
    show ?thesis
    proof (cases "valid_index shp dim (indices ! k)")
      case False
      with index_invalid_iff[OF b, of shp dim] k l li nd index_step(1)[OF ok k] show ?thesis
        by (simp add: gather_spec_def)
    next
      case True
      then have u: "as_usize (indices ! k) = nat (indices ! k)" using b by (simp add: valid_index_def)
      have "\<not> (indices ! k < 0 \<or> shp ! dim \<le> as_usize (indices ! k))"
        using index_invalid_iff[OF b] True by blast
      then show ?thesis
        using k l li la nd index_step[OF ok k] True by (auto simp: gather_spec_def u nth_chk_def)
    qed
  qed
  have "foldM ?body [0..<?n] out = (if \<forall>k<?n. ?P k then Some (map ?g [0..<?n] @ drop ?n out) else None)"
    by (rule foldM_fill_iff[OF body]) (use lo in auto)
  then show ?thesis
    using nd lo by (simp add: gather_kernel_def Let_def row_strides_eq index_fits_def)
qed

lemma gather_kernel_eq:
  assumes ok: "index_shapes_ok shp index_shape dim" and i64: "i64s indices"
    and la: "length a = prod_list shp" and li: "length indices = prod_list index_shape"
    and lo: "length out = prod_list index_shape"
  shows "gather_kernel zero a indices out shp index_shape dim =
    Some (map (gather_spec zero a indices shp index_shape dim) [0..<prod_list index_shape])"
  using gather_kernel_iff[OF shapes_ok_ranks[OF ok] i64 la li lo] shapes_ok_fits[OF ok] by simp

text \<open>
  C8. \<open>gather_kernel\<close> on what \<open>gather_impl\<close> passes it: an axis of the tensor, an index tensor of the same rank with
  any content, buffers of the sizes of their shapes (the axis shorter than \<open>2^63\<close>). The kernel stays inside its buffers
  exactly when every in-range index value, put for the coordinate along \<open>dim\<close> at its own position, names an
  element of the input; this holds when the index tensor is not wider than the input outside \<open>dim\<close>, which neither
  \<open>gather_impl\<close> nor the kernel checks. Then element \<open>k\<close> of the output is that element, or zero where the index value
  is out of range. Otherwise the kernel reads outside the input (see \<open>wide_index_escapes\<close>).
\<close>

theorem gather_kernel_correct:
  assumes ok: "index_ranks_ok shp index_shape dim" and i64: "i64s indices"
    and la: "length a = prod_list shp" and li: "length indices = prod_list index_shape"
    and lo: "length out = prod_list index_shape"
  shows "gather_kernel zero a indices out shp index_shape dim =
      (if index_fits shp index_shape dim indices
       then Some (map (gather_spec zero a indices shp index_shape dim) [0..<prod_list index_shape]) else None) \<and>
    ((\<forall>d < length shp. d \<noteq> dim \<longrightarrow> index_shape ! d \<le> shp ! d) \<longrightarrow> index_fits shp index_shape dim indices)"
  using gather_kernel_iff[OF assms] shapes_ok_fits[of shp index_shape dim] ok by (simp add: index_shapes_ok_def)

lemma gather_kernel_correct_witness:
  "gather_kernel 0 [10, 11, 12, 13] [1, 0, 7, -1] [0, 0, 0, 0] [2, 2] [2, 2] 1 =
    Some (map (gather_spec 0 [10, 11, 12, 13 :: int] [1, 0, 7, -1] [2, 2] [2, 2] 1) [0..<4])"
proof -
  have "index_ranks_ok [2, 2] [2, 2] 1" by (simp add: index_ranks_ok_def)
  from gather_kernel_correct[OF this, of "[1, 0, 7, -1]" "[10, 11, 12, 13 :: int]" "[0, 0, 0, 0]" 0]
  show ?thesis by (simp add: i64s_def)
qed

section \<open>Scatter: the last write wins\<close>

lemma copy_from_whole: "length src = n \<Longrightarrow> length dst = n \<Longrightarrow> copy_from src 0 dst 0 n = Some src"
  by (simp add: copy_from_def)

lemma fold_last: "fold (\<lambda>k _. f k) ks x = (if ks = [] then x else f (last ks))"
  by (induction ks arbitrary: x) auto

text \<open>The arguments of a scatter, the place a round writes to, and what the arguments must satisfy.\<close>

record 'a scatter_args =
  sc_indices :: "int list"
  sc_src :: "'a list"
  sc_shape :: "nat list"
  sc_index_shape :: "nat list"
  sc_dim :: nat

definition scatter_ok :: "'a scatter_args \<Rightarrow> bool" where
  "scatter_ok p \<longleftrightarrow> index_ranks_ok (sc_shape p) (sc_index_shape p) (sc_dim p) \<and> i64s (sc_indices p) \<and>
     length (sc_indices p) = prod_list (sc_index_shape p) \<and> length (sc_src p) = prod_list (sc_index_shape p)"

definition scatter_fits :: "'a scatter_args \<Rightarrow> bool" where
  "scatter_fits p = index_fits (sc_shape p) (sc_index_shape p) (sc_dim p) (sc_indices p)"

definition scatter_target :: "'a scatter_args \<Rightarrow> nat \<Rightarrow> nat option" where
  "scatter_target p k =
     (if valid_index (sc_shape p) (sc_dim p) (sc_indices p ! k)
      then Some (moved_index (sc_shape p) (sc_index_shape p) (sc_dim p) k (nat (sc_indices p ! k))) else None)"

lemma scatter_fits_iff:
  "scatter_fits p \<longleftrightarrow> (\<forall>k < prod_list (sc_index_shape p). \<forall>j. scatter_target p k = Some j \<longrightarrow> j < prod_list (sc_shape p))"
  by (auto simp: scatter_fits_def index_fits_def scatter_target_def)

text \<open>One round in terms of its target; \<open>g\<close> is what the kernel does with the place and the source.\<close>

lemma scatter_round:
  assumes ok: "scatter_ok p" and k: "k < prod_list (sc_index_shape p)"
  shows "do {
      multi_idx \<leftarrow> unravel_strides (row_prods (sc_index_shape p)) k;
      index_val \<leftarrow> nth_chk (sc_indices p) k;
      sd \<leftarrow> nth_chk (sc_shape p) (sc_dim p);
      (if index_val < 0 \<or> sd \<le> as_usize index_val then skip
       else g (replaced_offset 0 (sc_dim p) (as_usize index_val) multi_idx (row_prods (sc_shape p)))) }
    = (case scatter_target p k of None \<Rightarrow> skip | Some j \<Rightarrow> g j)"
proof -
  have sh: "index_ranks_ok (sc_shape p) (sc_index_shape p) (sc_dim p)" and len: "k < length (sc_indices p)"
    using ok k by (auto simp: scatter_ok_def)
  have b: "- (2 ^ 63) \<le> sc_indices p ! k" "sc_indices p ! k < 2 ^ 63"
    using i64s_nth[OF _ len] ok by (auto simp: scatter_ok_def)
  have d: "sc_dim p < length (sc_shape p)" using sh by (simp add: index_ranks_ok_def)
  show ?thesis
  proof (cases "valid_index (sc_shape p) (sc_dim p) (sc_indices p ! k)")
    case False
    with index_invalid_iff[OF b, of "sc_shape p" "sc_dim p"] len d index_step(1)[OF sh k] show ?thesis
      by (simp add: scatter_target_def)
  next
    case True
    then have u: "as_usize (sc_indices p ! k) = nat (sc_indices p ! k)" using b by (simp add: valid_index_def)
    have "\<not> (sc_indices p ! k < 0 \<or> sc_shape p ! sc_dim p \<le> as_usize (sc_indices p ! k))"
      using index_invalid_iff[OF b] True by blast
    then show ?thesis using True len d index_step[OF sh k] by (simp add: scatter_target_def u)
  qed
qed

interpretation scatter_loop: update_loop "scatter_ok :: 'a scatter_args \<Rightarrow> bool" "\<lambda>p. prod_list (sc_index_shape p)" "\<lambda>p. prod_list (sc_shape p)"
  "\<lambda>p. scatter_step (sc_indices p) (sc_src p) (sc_shape p) (sc_dim p) (row_prods (sc_shape p)) (row_prods (sc_index_shape p))"
  scatter_target "\<lambda>p k _. sc_src p ! k"
proof
  fix p :: "'a scatter_args" and k :: nat and out :: "'a list"
  assume ok: "scatter_ok p" and k: "k < prod_list (sc_index_shape p)" and l: "length out = prod_list (sc_shape p)"
  have "k < length (sc_src p)" using ok k by (simp add: scatter_ok_def)
  then show "scatter_step (sc_indices p) (sc_src p) (sc_shape p) (sc_dim p) (row_prods (sc_shape p))
      (row_prods (sc_index_shape p)) k out =
    (case scatter_target p k of None \<Rightarrow> Some out
     | Some j \<Rightarrow> if j < prod_list (sc_shape p) then Some (out[j := sc_src p ! k]) else None)"
    using scatter_round[OF ok k, of "Some out" "\<lambda>j. do { v \<leftarrow> nth_chk (sc_src p) k; upd_chk out j v }"] l
    by (auto simp: scatter_step_def upd_chk_def split: option.splits)
qed

text \<open>
  C9. \<open>scatter_kernel\<close> for an axis of the tensor, an index tensor of the same rank with any content and buffers of the
  sizes of their shapes (the axis shorter than \<open>2^63\<close>). The kernel stays inside its buffers exactly when every in-range
  index value, put for the coordinate along \<open>dim\<close> at its own position, names a place of the output; this holds when the
  index tensor is not wider than the output outside \<open>dim\<close>. \<open>scatter_impl\<close> checks neither this nor that the ranks agree.
  Then the output is the input except that each place hit by at least one in-range index value holds the source
  element of the last position that hits it; out-of-range index values are skipped. Otherwise the kernel writes outside
  the output (see \<open>wide_index_escapes\<close>).
\<close>

theorem scatter_kernel_correct:
  assumes ok: "scatter_ok p" and la: "length a = prod_list (sc_shape p)" and lo: "length out = prod_list (sc_shape p)"
  shows "scatter_kernel a (sc_indices p) (sc_src p) out (sc_shape p) (sc_index_shape p) (sc_dim p) =
      (if scatter_fits p
       then Some (map (\<lambda>j. let hits = filter (\<lambda>k. scatter_target p k = Some j) [0..<prod_list (sc_index_shape p)]
                   in if hits = [] then a ! j else sc_src p ! last hits) [0..<prod_list (sc_shape p)]) else None) \<and>
    ((\<forall>d < length (sc_shape p). d \<noteq> sc_dim p \<longrightarrow> sc_index_shape p ! d \<le> sc_shape p ! d) \<longrightarrow> scatter_fits p)"
proof
  have "length (sc_shape p) \<noteq> 0" "length (sc_index_shape p) = length (sc_shape p)"
    using ok by (auto simp: scatter_ok_def index_ranks_ok_def)
  then show "scatter_kernel a (sc_indices p) (sc_src p) out (sc_shape p) (sc_index_shape p) (sc_dim p) =
      (if scatter_fits p
       then Some (map (\<lambda>j. let hits = filter (\<lambda>k. scatter_target p k = Some j) [0..<prod_list (sc_index_shape p)]
                   in if hits = [] then a ! j else sc_src p ! last hits) [0..<prod_list (sc_shape p)]) else None)"
    using scatter_loop.loop_iff[OF ok, of a "prod_list (sc_index_shape p)"] la lo
    by (simp add: scatter_kernel_def Let_def row_strides_eq copy_from_whole fold_last scatter_fits_iff)
  show "(\<forall>d < length (sc_shape p). d \<noteq> sc_dim p \<longrightarrow> sc_index_shape p ! d \<le> sc_shape p ! d) \<longrightarrow> scatter_fits p"
    using ok shapes_ok_fits[of "sc_shape p" "sc_index_shape p" "sc_dim p"]
    by (simp add: scatter_ok_def scatter_fits_def index_shapes_ok_def)
qed

lemma scatter_kernel_correct_witness:
  "scatter_kernel [0, 0, 0 :: int] [2, -1, 2] [7, 8, 9] [1, 1, 1] [3] [3] 0 = Some [0, 0, 9]"
proof -
  let ?p = "\<lparr>sc_indices = [2, -1, 2], sc_src = [7, 8, 9 :: int], sc_shape = [3], sc_index_shape = [3], sc_dim = 0\<rparr>"
  have "scatter_ok ?p" by (simp add: scatter_ok_def index_ranks_ok_def i64s_def)
  from scatter_kernel_correct[OF this, of "[0, 0, 0]" "[1, 1, 1]"] show ?thesis
    by (simp add: scatter_target_def valid_index_def moved_index_def upt_conv_Cons)
qed

text \<open>
  A three by one index tensor on a two by one tensor passes the checks of \<open>gather_impl\<close> and \<open>scatter_impl\<close> (along
  axis 1); the last round then reads, or writes, one element behind the buffer of the tensor.
\<close>

lemma wide_index_escapes:
  "gather_kernel 0 [1, 2 :: int] [0, 0, 0] [0, 0, 0] [2, 1] [3, 1] 1 = None \<and>
   scatter_kernel [1, 2 :: int] [0, 0, 0] [7, 8, 9] [0, 0] [2, 1] [3, 1] 1 = None \<and>
   index_ranks_ok [2, 1] [3, 1] 1"
  by (intro conjI) (code_simp, code_simp, simp add: index_ranks_ok_def)

section \<open>Selection by an index vector\<close>

lemma prod_list_axis: "dim < length shp \<Longrightarrow>
   prod_list shp = prod_list (take dim shp) * shp ! dim * prod_list (drop (Suc dim) shp)"
  by (metis id_take_nth_drop prod_list.Cons prod_list.append mult.assoc)

text \<open>The elements that the selection puts at one outer position and one selected index.\<close>

definition select_block :: "'a \<Rightarrow> 'a list \<Rightarrow> int list \<Rightarrow> nat \<Rightarrow> nat \<Rightarrow> nat \<Rightarrow> nat \<Rightarrow> 'a list" where
  "select_block zero a indices D I outer sel =
     (if 0 \<le> indices ! sel \<and> indices ! sel < int D
      then take I (drop ((outer * D + nat (indices ! sel)) * I) a) else replicate I zero)"

lemma block_in_bounds:
  assumes "outer < O1" and "v < D" and "length a = O1 * D * (I :: nat)"
  shows "(outer * D + v) * I + I \<le> length a"
proof -
  have "outer * D + v + 1 \<le> O1 * D"
    using assms(1,2) mult_le_mono1[of "Suc outer" O1 D] by simp
  then have "(outer * D + v + 1) * I \<le> O1 * D * I" by (rule mult_le_mono1)
  with assms(3) show ?thesis by (simp add: algebra_simps)
qed

lemma length_select_block:
  assumes "outer < O1" and "length a = O1 * D * I"
  shows "length (select_block zero a indices D I outer sel) = I"
proof (cases "0 \<le> indices ! sel \<and> indices ! sel < int D")
  case True
  then have "(outer * D + nat (indices ! sel)) * I + I \<le> length a"
    by (intro block_in_bounds[OF assms(1) _ assms(2)]) auto
  with True show ?thesis by (simp add: select_block_def)
qed (auto simp: select_block_def)

text \<open>One selected index: both inner loops fill the block.\<close>

lemma select_inner:
  assumes o1: "outer < O1" and la: "length a = O1 * D * I" and D: "D < 2 ^ 63"
    and sel: "sel < index_len" and li: "length indices = index_len" and i64: "i64s indices"
    and lo: "length out = O1 * index_len * I"
  shows "do {
      idx_val \<leftarrow> nth_chk indices sel;
      let idx = as_usize idx_val;
      (if D \<le> idx
       then foldM (\<lambda>inner out. upd_chk out (outer * index_len * I + sel * I + inner) zero) [0..<I] out
       else foldM (\<lambda>inner out. do {
              v \<leftarrow> nth_chk a (outer * D * I + idx * I + inner);
              upd_chk out (outer * index_len * I + sel * I + inner) v }) [0..<I] out) }
    = Some (take (outer * index_len * I + sel * I) out @ select_block zero a indices D I outer sel
        @ drop (outer * index_len * I + (sel + 1) * I) out)"
proof -
  let ?v = "indices ! sel" and ?b = "outer * index_len * I + sel * I"
  have b: "- (2 ^ 63) \<le> ?v" "?v < 2 ^ 63" using i64s_nth[OF i64] sel li by auto
  have fits: "?b + I \<le> length out"
    using block_in_bounds[OF o1 sel, of out I] lo by (simp add: algebra_simps)
  have iff: "D \<le> as_usize ?v \<longleftrightarrow> \<not> (0 \<le> ?v \<and> ?v < int D)"
    using as_usize_negative[of ?v] b D by (cases "?v < 0") auto
  show ?thesis
  proof (cases "0 \<le> ?v \<and> ?v < int D")
    case False
    have "foldM (\<lambda>inner out. upd_chk out (?b + inner) zero) [0..<I] out
        = Some (take ?b out @ map (\<lambda>_. zero) [0..<I] @ drop (?b + I) out)"
      by (rule foldM_fill_each[OF _ fits refl]) (use fits in auto)
    moreover have "select_block zero a indices D I outer sel = replicate I zero"
      unfolding select_block_def by (rule if_not_P[OF False])
    ultimately show ?thesis using False iff sel li
      by (simp add: map_replicate_const algebra_simps)
  next
    case True
    have u: "as_usize ?v = nat ?v" using True b by simp
    have ab: "(outer * D + nat ?v) * I + I \<le> length a" by (rule block_in_bounds[OF o1 _ la]) (use True in auto)
    have "foldM (\<lambda>inner out. do { v \<leftarrow> nth_chk a (outer * D * I + nat ?v * I + inner); upd_chk out (?b + inner) v }) [0..<I] out
        = Some (take ?b out @ map (\<lambda>inner. a ! (outer * D * I + nat ?v * I + inner)) [0..<I] @ drop (?b + I) out)"
      by (rule foldM_fill_each[OF _ fits refl]) (use fits ab in \<open>auto simp: algebra_simps\<close>)
    moreover have "map (\<lambda>inner. a ! (outer * D * I + nat ?v * I + inner)) [0..<I]
        = take I (drop ((outer * D + nat ?v) * I) a)"
      using ab by (intro nth_equalityI) (auto simp: algebra_simps)
    ultimately show ?thesis using True iff sel li u
      by (simp add: select_block_def algebra_simps)
  qed
qed

text \<open>
  \<open>index_select_kernel\<close> is memory safe and correct for every content of the index vector: the
  output is, for each outer position and each index in order, the whole inner block of the input at
  that index, or a block of zeros where the index is negative or too large.
\<close>

theorem index_select_kernel_correct:
  assumes dim: "dim < length shp" and D: "shp ! dim < 2 ^ 63" and i64: "i64s indices"
    and la: "length a = prod_list shp" and li: "length indices = index_len"
    and lo: "length out = prod_list (take dim shp) * index_len * prod_list (drop (Suc dim) shp)"
  shows "index_select_kernel zero a indices out shp dim index_len =
    Some (concat (map (\<lambda>outer. concat (map (select_block zero a indices (shp ! dim) (prod_list (drop (Suc dim) shp)) outer)
       [0..<index_len])) [0..<prod_list (take dim shp)]))"
proof -
  let ?O = "prod_list (take dim shp)" and ?I = "prod_list (drop (Suc dim) shp)" and ?D = "shp ! dim"
  let ?blk = "\<lambda>outer. select_block zero a indices ?D ?I outer"
  let ?mid = "\<lambda>outer sel out. do {
      idx_val \<leftarrow> nth_chk indices sel;
      let idx = as_usize idx_val;
      (if ?D \<le> idx
       then foldM (\<lambda>inner out. upd_chk out (outer * index_len * ?I + sel * ?I + inner) zero) [0..<?I] out
       else foldM (\<lambda>inner out. do {
              v \<leftarrow> nth_chk a (outer * ?D * ?I + idx * ?I + inner);
              upd_chk out (outer * index_len * ?I + sel * ?I + inner) v }) [0..<?I] out) }"
  have la': "length a = ?O * ?D * ?I" using la prod_list_axis[OF dim] by simp
  have mid: "foldM (?mid outer) [0..<index_len] out =
      Some (take (0 + outer * (index_len * ?I)) out @ concat (map (?blk outer) [0..<index_len])
        @ drop (0 + (outer + 1) * (index_len * ?I)) out)"
    if "outer < ?O" "length out = ?O * index_len * ?I" for outer out
  proof -
    have "outer * index_len * ?I + index_len * ?I \<le> ?O * index_len * ?I"
      using mult_le_mono1[of "Suc outer" ?O "index_len * ?I"] that(1) by (simp add: algebra_simps)
    from foldM_fill_blocks[where f = "?mid outer" and b = "outer * index_len * ?I" and c = ?I
        and blk = "?blk outer", OF _ _ this that(2)] select_inner[OF that(1) la' D _ li i64]
      length_select_block[OF that(1) la'] show ?thesis
      by (simp add: algebra_simps)
  qed
  have lb: "length (concat (map (?blk outer) [0..<index_len])) = index_len * ?I" if "outer < ?O" for outer
    using length_select_block[OF that la'] by (simp add: length_concat comp_def sum_list_triv)
  have "foldM (\<lambda>outer. foldM (?mid outer) [0..<index_len]) [0..<?O] out =
    Some (take 0 out @ concat (map (\<lambda>outer. concat (map (?blk outer) [0..<index_len])) [0..<?O])
       @ drop (0 + ?O * (index_len * ?I)) out)"
    by (rule foldM_fill_blocks[OF mid lb]) (use lo in \<open>auto simp: algebra_simps\<close>)
  moreover have "length shp \<noteq> 0" using dim by auto
  ultimately show ?thesis
    using dim lo by (simp add: index_select_kernel_def Let_def mult.assoc)
qed

lemma index_select_kernel_correct_witness:
  "index_select_kernel 0 [1, 2, 3, 4 :: int] [1, -1] [9, 9, 9, 9] [2, 2] 1 2 =
     Some (concat (map (\<lambda>outer. concat (map (select_block 0 [1, 2, 3, 4] [1, -1] 2 1 outer) [0..<2])) [0..<2]))"
  using index_select_kernel_correct[of 1 "[2, 2]" "[1, -1]" "[1, 2, 3, 4 :: int]" 2 "[9, 9, 9, 9]" 0]
  by (simp add: i64s_def)

end
