(* ===== verification/Int_Kernels.thy ===== *)
theory Int_Kernels
  imports DTypes Index_Kernels "HOL-Library.Signed_Division"
begin

text \<open>
  Integer arithmetic of the CPU kernels: the saturating 128-bit accumulators (\<open>wide_acc.rs\<close>),
  exponentiation by squaring (\<open>ipow.rs\<close>), the wrapping element operations (\<open>binary_int.rs\<close>), cumulative
  sums and products (\<open>cumulative.rs\<close>) and the integer scatter with reduction
  (\<open>scatter_reduce_int.rs\<close>). An element of integer type \<open>d\<close> is an \<open>int\<close> of \<open>int_range d\<close>; an \<open>i128\<close> is
  an \<open>int\<close> whose operations saturate explicitly, a \<open>u128\<close> a \<open>nat\<close> whose products are checked. Division
  truncates toward zero (\<open>sdiv\<close>).
\<close>

section \<open>Bounds of the types\<close>

fun int_min :: "dtype \<Rightarrow> int" where
  "int_min I64 = - (2 ^ 63)" | "int_min I32 = - (2 ^ 31)" | "int_min I16 = - (2 ^ 15)"
| "int_min I8 = - (2 ^ 7)" | "int_min _ = 0"

fun int_max :: "dtype \<Rightarrow> int" where
  "int_max I64 = 2 ^ 63 - 1" | "int_max I32 = 2 ^ 31 - 1" | "int_max I16 = 2 ^ 15 - 1" | "int_max I8 = 2 ^ 7 - 1"
| "int_max U64 = 2 ^ 64 - 1" | "int_max U32 = 2 ^ 32 - 1" | "int_max U16 = 2 ^ 16 - 1" | "int_max U8 = 2 ^ 8 - 1"
| "int_max _ = 0"

definition from_i128_saturating :: "dtype \<Rightarrow> int \<Rightarrow> int" where
  "from_i128_saturating d v = min (max v (int_min d)) (int_max d)"

definition i128_min :: int where "i128_min = - (2 ^ 127)"
definition i128_max :: int where "i128_max = 2 ^ 127 - 1"

section \<open>Wide accumulators\<close>

definition sat_i128 :: "int \<Rightarrow> int" where
  "sat_i128 v = min (max v i128_min) i128_max"

definition wide_add :: "int \<Rightarrow> int \<Rightarrow> int" where "wide_add a b = sat_i128 (a + b)"
definition wide_mul :: "int \<Rightarrow> int \<Rightarrow> int" where "wide_mul a b = sat_i128 (a * b)"

definition int_mean_from_sum :: "dtype \<Rightarrow> int \<Rightarrow> nat \<Rightarrow> int" where
  "int_mean_from_sum d acc cnt = from_i128_saturating d (acc sdiv int (max cnt 1))"

section \<open>Exponentiation\<close>

definition checked_mul_u128 :: "nat \<Rightarrow> nat \<Rightarrow> nat option" where
  "checked_mul_u128 a b = (if a * b < 2 ^ 128 then Some (a * b) else None)"

function ipow_loop :: "nat \<Rightarrow> nat \<Rightarrow> nat \<Rightarrow> nat option" where
  "ipow_loop result acc ex =
     (if ex = 0 then Some result
      else do {
        result \<leftarrow> (if odd ex then checked_mul_u128 result acc else Some result);
        acc \<leftarrow> (if 0 < ex div 2 then checked_mul_u128 acc acc else Some acc);
        ipow_loop result acc (ex div 2) })"
  by pat_completeness auto
termination by (relation "measure (\<lambda>(_, _, e). e)") auto

declare ipow_loop.simps [simp del]

definition ipow_magnitude :: "nat \<Rightarrow> nat \<Rightarrow> nat option" where
  "ipow_magnitude base ex = ipow_loop 1 base ex"

definition ipow_from_parts :: "dtype \<Rightarrow> int \<Rightarrow> nat \<Rightarrow> int" where
  "ipow_from_parts d base ex =
     (let negative = base < 0 \<and> odd ex
      in case ipow_magnitude (nat \<bar>base\<bar>) ex of
           Some mg \<Rightarrow> if int mg \<le> i128_max
                     then from_i128_saturating d (if negative then - int mg else int mg)
                     else from_i128_saturating d (if negative then i128_min else i128_max)
         | None \<Rightarrow> from_i128_saturating d (if negative then i128_min else i128_max))"

text \<open>\<open>powf d b e\<close> is the float path \<open>T::from_f64(b.to_f64().powf(e.to_f64()))\<close> of the standard library.\<close>

definition ipow_saturating :: "(dtype \<Rightarrow> int \<Rightarrow> int \<Rightarrow> int) \<Rightarrow> dtype \<Rightarrow> int \<Rightarrow> int \<Rightarrow> int" where
  "ipow_saturating powf d base ex =
     (if ex < 0 then powf d base ex else ipow_from_parts d base (nat ex))"

text \<open>The exponent of \<open>pow_scalar\<close> that reaches an integer kernel is a whole number.\<close>

definition cap_ipow_exponent :: "nat \<Rightarrow> nat" where
  "cap_ipow_exponent scalar = (if 1024 < scalar then 1024 + of_bool (scalar mod 2 \<noteq> 0) else scalar)"

definition pow_elem_scalar :: "dtype \<Rightarrow> int \<Rightarrow> nat \<Rightarrow> int" where
  "pow_elem_scalar d base scalar = ipow_from_parts d base (cap_ipow_exponent scalar)"

section \<open>Element operations\<close>

datatype binary_op = AddOp | SubOp | MulOp | DivOp | PowOp | MaxOp | MinOp | Atan2Op

definition wrap_int :: "dtype \<Rightarrow> int \<Rightarrow> int" where
  "wrap_int d x = (x - int_min d) mod (int_max d - int_min d + 1) + int_min d"

definition w_add :: "dtype \<Rightarrow> int \<Rightarrow> int \<Rightarrow> int" where "w_add d a b = wrap_int d (a + b)"
definition w_sub :: "dtype \<Rightarrow> int \<Rightarrow> int \<Rightarrow> int" where "w_sub d a b = wrap_int d (a - b)"
definition w_mul :: "dtype \<Rightarrow> int \<Rightarrow> int \<Rightarrow> int" where "w_mul d a b = wrap_int d (a * b)"
definition w_div :: "dtype \<Rightarrow> int \<Rightarrow> int \<Rightarrow> int" where
  "w_div d a b = (if b = 0 then 0 else wrap_int d (a sdiv b))"

definition binary_int_elem :: "(dtype \<Rightarrow> int \<Rightarrow> int \<Rightarrow> int) \<Rightarrow> (dtype \<Rightarrow> int \<Rightarrow> int \<Rightarrow> int) \<Rightarrow> dtype \<Rightarrow> binary_op \<Rightarrow>
    int \<Rightarrow> int \<Rightarrow> int" where
  "binary_int_elem powf atan2 d oper a b =
     (case oper of
        AddOp \<Rightarrow> w_add d a b | SubOp \<Rightarrow> w_sub d a b | MulOp \<Rightarrow> w_mul d a b | DivOp \<Rightarrow> w_div d a b
      | PowOp \<Rightarrow> ipow_saturating powf d a b
      | MaxOp \<Rightarrow> if b < a then a else b
      | MinOp \<Rightarrow> if a < b then a else b
      | Atan2Op \<Rightarrow> atan2 d a b)"

definition binary_int_kernel :: "(dtype \<Rightarrow> int \<Rightarrow> int \<Rightarrow> int) \<Rightarrow> (dtype \<Rightarrow> int \<Rightarrow> int \<Rightarrow> int) \<Rightarrow> dtype \<Rightarrow> binary_op \<Rightarrow>
    int list \<Rightarrow> int list \<Rightarrow> int list \<Rightarrow> nat \<Rightarrow> (int list \<times> bool) option" where
  "binary_int_kernel powf atan2 d oper a b out len =
     (if \<not> is_int d then Some (out, False)
      else map_option (\<lambda>out. (out, True))
             (foldM (\<lambda>i out. do {
                x \<leftarrow> nth_chk a i;
                y \<leftarrow> nth_chk b i;
                upd_chk out i (binary_int_elem powf atan2 d oper x y) }) [0..<len] out))"

definition binary_int_fused_elem :: "(dtype \<Rightarrow> int \<Rightarrow> int \<Rightarrow> int) \<Rightarrow> (dtype \<Rightarrow> int \<Rightarrow> int \<Rightarrow> int) \<Rightarrow> dtype \<Rightarrow> binary_op \<Rightarrow>
    binary_op \<Rightarrow> int \<Rightarrow> int \<Rightarrow> int \<Rightarrow> int option" where
  "binary_int_fused_elem powf atan2 d op1 op2 a b c =
     (if is_int d then Some (binary_int_elem powf atan2 d op2 (binary_int_elem powf atan2 d op1 a b) c) else None)"

section \<open>Cumulative kernels\<close>

definition cumsum_kernel_acc :: "dtype \<Rightarrow> int list \<Rightarrow> int list \<Rightarrow> nat \<Rightarrow> nat \<Rightarrow> int list option" where
  "cumsum_kernel_acc d a out scan_size outer_size =
     foldM (\<lambda>k out. map_option fst
        (foldM (\<lambda>i (out, acc). do {
            x \<leftarrow> nth_chk a (k * scan_size + i);
            let acc = wide_add acc x;
            out' \<leftarrow> upd_chk out (k * scan_size + i) (from_i128_saturating d acc);
            Some (out', acc) }) [0..<scan_size] (out, 0))) [0..<outer_size] out"

definition cumprod_kernel_acc :: "dtype \<Rightarrow> int list \<Rightarrow> int list \<Rightarrow> nat \<Rightarrow> nat \<Rightarrow> int list option" where
  "cumprod_kernel_acc d a out scan_size outer_size =
     foldM (\<lambda>k out. map_option fst
        (foldM (\<lambda>i (out, acc). do {
            x \<leftarrow> nth_chk a (k * scan_size + i);
            let acc = wide_mul acc x;
            out' \<leftarrow> upd_chk out (k * scan_size + i) (from_i128_saturating d acc);
            Some (out', acc) }) [0..<scan_size] (out, 1))) [0..<outer_size] out"

section \<open>Scatter with reduction\<close>

datatype scatter_reduce_op = SumRed | MeanRed | ProdRed | MaxRed | MinRed

text \<open>\<open>T::from_f64(-inf)\<close> and \<open>T::from_f64(inf)\<close> saturate to the bounds of an integer type.\<close>

definition reduce_identity :: "dtype \<Rightarrow> scatter_reduce_op \<Rightarrow> int" where
  "reduce_identity d oper =
     (case oper of SumRed \<Rightarrow> 0 | MeanRed \<Rightarrow> 0 | ProdRed \<Rightarrow> 1 | MaxRed \<Rightarrow> int_min d | MinRed \<Rightarrow> int_max d)"

definition reduce_step :: "scatter_reduce_op \<Rightarrow> int \<Rightarrow> int \<Rightarrow> int" where
  "reduce_step oper acc value =
     (case oper of SumRed \<Rightarrow> wide_add acc value | MeanRed \<Rightarrow> wide_add acc value | ProdRed \<Rightarrow> wide_mul acc value
      | MaxRed \<Rightarrow> max acc value | MinRed \<Rightarrow> min acc value)"

definition scatter_reduce_step :: "scatter_reduce_op \<Rightarrow> int list \<Rightarrow> int list \<Rightarrow> nat list \<Rightarrow> nat \<Rightarrow> nat list \<Rightarrow> nat list \<Rightarrow>
    nat \<Rightarrow> (int \<times> nat) list \<Rightarrow> (int \<times> nat) list option" where
  "scatter_reduce_step oper indices src shp ax out_strides idx_strides src_idx accs = do {
     index_val \<leftarrow> nth_chk indices src_idx;
     sd \<leftarrow> nth_chk shp ax;
     (if index_val < 0 \<or> sd \<le> as_usize index_val then Some accs
      else do {
        multi_idx \<leftarrow> unravel_strides idx_strides src_idx;
        let dst_offset = replaced_offset 0 ax (as_usize index_val) multi_idx out_strides;
        value \<leftarrow> nth_chk src src_idx;
        (acc, cnt) \<leftarrow> nth_chk accs dst_offset;
        upd_chk accs dst_offset (reduce_step oper acc value, cnt + 1) }) }"

text \<open>The vectors \<open>acc\<close> and \<open>counts\<close> of the source are one list of pairs.\<close>

definition scatter_reduce_int_kernel :: "dtype \<Rightarrow> int list \<Rightarrow> int list \<Rightarrow> int list \<Rightarrow> int list \<Rightarrow> nat list \<Rightarrow> nat list \<Rightarrow>
    nat \<Rightarrow> scatter_reduce_op \<Rightarrow> bool \<Rightarrow> int list option" where
  "scatter_reduce_int_kernel d dst indices src out shp index_shape ax oper include_self =
     (let ndim = length shp
      in if ndim = 0 then Some out
         else do {
           let dst_numel = prod_list shp;
           accs \<leftarrow> foldM (\<lambda>i accs. do {
              x \<leftarrow> nth_chk dst i;
              Some (accs @ [(if include_self then x else reduce_identity d oper, of_bool include_self)]) })
              [0..<dst_numel] [];
           out_strides \<leftarrow> row_strides ndim shp;
           idx_strides \<leftarrow> row_strides ndim index_shape;
           accs \<leftarrow> foldM (scatter_reduce_step oper indices src shp ax out_strides idx_strides)
              [0..<prod_list index_shape] accs;
           foldM (\<lambda>i out. do {
              (acc, cnt) \<leftarrow> nth_chk accs i;
              let value = (if oper = MeanRed \<and> 0 < cnt then acc sdiv int cnt else acc);
              upd_chk out i (from_i128_saturating d value) }) [0..<dst_numel] out })"

section \<open>Exponentiation is exact, then clamped\<close>

lemma ipow_loop_eq:
  "0 < r \<or> a = 0 \<Longrightarrow> r < 2 ^ 128 \<Longrightarrow>
   ipow_loop r a e = (if r * a ^ e < 2 ^ 128 then Some (r * a ^ e) else None)"
proof (induction r a e rule: ipow_loop.induct)
  case (1 r a e)
  show ?case
  proof (cases "e = 0")
    case True
    with 1 show ?thesis by (simp add: ipow_loop.simps)
  next
    case e: False
    have pw: "a ^ e = a ^ (e mod 2) * (a * a) ^ (e div 2)"
      using mult_div_mod_eq[of 2 e] by (metis power_add power_mult power2_eq_square mult.commute)
    define r' where "r' = r * a ^ (e mod 2)"
    have val: "r * a ^ e = r' * (a * a) ^ (e div 2)" by (simp add: r'_def pw)
    have big: "2 ^ 128 \<le> r * a ^ e" if "2 ^ 128 \<le> r'"
    proof -
      have "0 < a" using that 1(2) "1.prems"(2) by (cases "a = 0"; cases "e mod 2 = 0") (auto simp: r'_def)
      then have "1 \<le> (a * a) ^ (e div 2)" by simp
      then have "r' * 1 \<le> r' * (a * a) ^ (e div 2)" by (rule mult_le_mono2)
      with that show ?thesis unfolding val mult_1_right by (rule order_trans)
    qed
    have s1: "(if odd e then checked_mul_u128 r a else Some r) = (if r' < 2 ^ 128 then Some r' else None)"
      using 1 by (auto simp: checked_mul_u128_def r'_def odd_iff_mod_2_eq_one)
    show ?thesis
    proof (cases "r' < 2 ^ 128")
      case False
      with s1 big e show ?thesis by (simp add: ipow_loop.simps[of r a e])
    next
      case r': True
      have inv: "0 < r' \<or> a = 0" using 1(2) by (auto simp: r'_def)
      show ?thesis
      proof (cases "0 < e div 2 \<and> 2 ^ 128 \<le> a * a")
        case True
        then have "0 < r'" "0 < a" using inv by (cases "a = 0"; auto)+
        moreover from True obtain m where "e div 2 = Suc m" by (cases "e div 2") auto
        ultimately have "1 * (a * a) \<le> r' * (a * a) ^ (e div 2)"
          by (intro mult_le_mono) (simp_all add: Suc_le_eq)
        then have "\<not> r * a ^ e < 2 ^ 128" using True unfolding val by linarith
        with True s1 r' e show ?thesis by (simp add: ipow_loop.simps[of r a e] checked_mul_u128_def)
      next
        case False
        let ?a' = "if 0 < e div 2 then a * a else a"
        have "r' * ?a' ^ (e div 2) = r * a ^ e" by (simp add: val)
        with False s1 r' e 1(1)[of r' ?a'] inv show ?thesis
          by (auto simp: ipow_loop.simps[of r a e] checked_mul_u128_def split: if_splits)
      qed
    qed
  qed
qed

lemma int_bounds:
  "is_int d \<Longrightarrow> int_min d \<le> 0 \<and> 0 < int_max d \<and> - (2 ^ 63) \<le> int_min d \<and> int_max d < 2 ^ 64"
  by (cases d) (auto simp: is_int_def is_signed_int_def is_unsigned_int_def)

text \<open>\<open>a\<close> stands for \<open>p\<close> in a saturating accumulator: equal, or both past the largest \<open>i128\<close> on the same side.\<close>

definition sat_rel :: "int \<Rightarrow> int \<Rightarrow> bool" where
  "sat_rel a p \<longleftrightarrow> a = p \<or> i128_max \<le> a \<and> i128_max \<le> p \<or> a \<le> - i128_max \<and> p \<le> - i128_max"

lemma sat_rel_clamp: "is_int d \<Longrightarrow> sat_rel a p \<Longrightarrow> from_i128_saturating d a = from_i128_saturating d p"
  using int_bounds[of d] by (auto simp: sat_rel_def from_i128_saturating_def i128_max_def min_def max_def)

lemma sat_i128_rel: "sat_rel (sat_i128 v) v"
  by (auto simp: sat_rel_def sat_i128_def i128_max_def i128_min_def min_def max_def)

lemma sat_rel_mono:
  assumes "i128_max \<le> a \<and> i128_max \<le> p \<or> a \<le> - i128_max \<and> p \<le> - i128_max"
  shows "sat_rel (sat_i128 (a * f)) (p * f)"
proof -
  let ?B = "i128_max"
  have B: "0 < ?B" by (simp add: i128_max_def)
  have up: "?B \<le> x * y" if "?B \<le> x" "1 \<le> y" for x y
    using mult_mono[of ?B x 1 y] that B by simp
  have s: "sat_rel (sat_i128 x) y" if "?B \<le> x \<and> ?B \<le> y \<or> x \<le> - ?B \<and> y \<le> - ?B" for x y
    using that by (auto simp: sat_rel_def sat_i128_def i128_max_def i128_min_def min_def max_def)
  consider "f = 0" | "1 \<le> f" | "1 \<le> - f" by linarith
  then show ?thesis
  proof cases
    case 1
    then show ?thesis using sat_i128_rel[of 0] by simp
  next
    case 2
    show ?thesis
    proof (rule s)
      from assms show "?B \<le> a * f \<and> ?B \<le> p * f \<or> a * f \<le> - ?B \<and> p * f \<le> - ?B"
        using up[of a f] up[of p f] up[of "- a" f] up[of "- p" f] 2 by auto
    qed
  next
    case 3
    show ?thesis
    proof (rule s)
      from assms show "?B \<le> a * f \<and> ?B \<le> p * f \<or> a * f \<le> - ?B \<and> p * f \<le> - ?B"
        using up[of a "- f"] up[of p "- f"] up[of "- a" "- f"] up[of "- p" "- f"] 3 by auto
    qed
  qed
qed

lemma sat_rel_wide_mul: "sat_rel a p \<Longrightarrow> sat_rel (wide_mul a f) (p * f)"
proof -
  assume r: "sat_rel a p"
  show ?thesis
  proof (cases "a = p")
    case True
    then show ?thesis by (simp add: wide_mul_def sat_i128_rel)
  next
    case False
    with r show ?thesis unfolding wide_mul_def by (intro sat_rel_mono) (auto simp: sat_rel_def)
  qed
qed

lemma abs_pow_sign: "base ^ n = (if base < 0 \<and> odd n then - int (nat \<bar>base\<bar> ^ n) else int (nat \<bar>base\<bar> ^ n))"
  for base :: int
proof (cases "base < 0")
  case True
  then have "base = - int (nat \<bar>base\<bar>)" by simp
  then have "base ^ n = (- int (nat \<bar>base\<bar>)) ^ n" by (rule arg_cong)
  also have "\<dots> = (if odd n then - (int (nat \<bar>base\<bar>) ^ n) else int (nat \<bar>base\<bar>) ^ n)"
    by (simp add: power_minus_odd power_minus_even)
  finally show ?thesis using True by (simp only: simp_thms of_nat_power)
next
  case False
  then show ?thesis by simp
qed

lemma ipow_from_parts_eq: "is_int d \<Longrightarrow> ipow_from_parts d base n = from_i128_saturating d (base ^ n)"
proof -
  assume d: "is_int d"
  let ?m = "nat \<bar>base\<bar> ^ n" and ?neg = "base < 0 \<and> odd n"
  have mag: "ipow_magnitude (nat \<bar>base\<bar>) n = (if ?m < 2 ^ 128 then Some ?m else None)"
    by (simp add: ipow_magnitude_def ipow_loop_eq)
  show ?thesis
  proof (cases "int ?m \<le> i128_max")
    case True
    have "i128_max < int (2 ^ 128)" by (simp add: i128_max_def)
    with True have "int ?m < int (2 ^ 128)" by (rule le_less_trans)
    then have "?m < 2 ^ 128" by (simp only: of_nat_less_iff)
    with True mag show ?thesis
      by (simp only: ipow_from_parts_def Let_def option.case if_True abs_pow_sign[of base n])
  next
    case False
    have "ipow_from_parts d base n = from_i128_saturating d (if ?neg then i128_min else i128_max)"
      by (cases "?m < 2 ^ 128") (simp_all only: ipow_from_parts_def Let_def mag False if_True if_False option.case)
    also have "\<dots> = from_i128_saturating d (base ^ n)"
    proof (rule sat_rel_clamp[OF d])
      show "sat_rel (if ?neg then i128_min else i128_max) (base ^ n)"
        using False by (simp only: abs_pow_sign[of base n] sat_rel_def) (auto simp: i128_min_def i128_max_def)
    qed
    finally show ?thesis .
  qed
qed

lemma cap_exponent_clamp:
  assumes d: "is_int d" and b: "int_min d \<le> base" "base \<le> int_max d"
  shows "from_i128_saturating d (base ^ cap_ipow_exponent n) = from_i128_saturating d (base ^ n)"
proof (cases "1024 < n")
  case True
  let ?c = "cap_ipow_exponent n"
  have par: "odd ?c \<longleftrightarrow> odd n" and c: "1024 \<le> ?c" using True by (auto simp: cap_ipow_exponent_def mod_2_eq_odd)
  show ?thesis
  proof (cases "nat \<bar>base\<bar> \<le> 1")
    case True
    then have "base = 0 \<or> base = 1 \<or> base = - 1" by linarith
    moreover have "(- 1 :: int) ^ ?c = (- 1) ^ n" using par by (simp add: minus_one_power_iff)
    moreover have "?c \<noteq> 0" "n \<noteq> 0" using c \<open>1024 < n\<close> by linarith+
    ultimately have "base ^ ?c = base ^ n" by (elim disjE) (simp_all only: power_one power_0_left if_False)
    then show ?thesis by simp
  next
    case False
    have big: "i128_max \<le> int (nat \<bar>base\<bar> ^ k)" if "1024 \<le> k" for k
    proof -
      have "(2::nat) ^ 127 \<le> 2 ^ k" using that by (intro power_increasing) auto
      also have "(2::nat) ^ k \<le> nat \<bar>base\<bar> ^ k" using False by (intro power_mono) auto
      finally have "2 ^ 127 \<le> nat \<bar>base\<bar> ^ k" .
      then have "int (2 ^ 127) \<le> int (nat \<bar>base\<bar> ^ k)" by (simp only: of_nat_le_iff)
      then show ?thesis by (simp add: i128_max_def)
    qed
    have "sat_rel (base ^ ?c) (base ^ n)"
      using big[of ?c] big[of n] c \<open>1024 < n\<close> par
      by (simp only: abs_pow_sign[of base ?c] abs_pow_sign[of base n] sat_rel_def) auto
    then show ?thesis by (rule sat_rel_clamp[OF d])
  qed
qed (simp add: cap_ipow_exponent_def)

text \<open>
  C10. Integer powers are exact and then clamped. For every integer element type and every base of it,
  exponentiation by squaring with checked 128-bit products gives the mathematical power clamped to the
  type's range, for the tensor-tensor operation and for the scalar operation with its capped exponent.
\<close>

theorem integer_pow_exact:
  assumes "is_int d" and "int_min d \<le> base" and "base \<le> int_max d"
  shows "ipow_saturating powf d base (int n) = min (max (base ^ n) (int_min d)) (int_max d)
    \<and> pow_elem_scalar d base n = min (max (base ^ n) (int_min d)) (int_max d)"
  using ipow_from_parts_eq[OF assms(1)] cap_exponent_clamp[OF assms]
  by (simp add: ipow_saturating_def pow_elem_scalar_def from_i128_saturating_def)

lemma integer_pow_exact_witness:
  "ipow_saturating (\<lambda>_ _ _. 0) I64 7 (int 20) = 79792266297612001 \<and> pow_elem_scalar I8 (-2) 2001 = - 128"
proof -
  have i: "is_int I64" "is_int I8" by (simp_all add: is_int_def is_signed_int_def)
  have "(- 2 :: int) ^ 2001 = - (2 ^ 2001)" by (simp add: power_minus_odd)
  moreover have "(2 :: int) ^ 7 \<le> 2 ^ 2001" by (rule power_increasing) auto
  ultimately have "(- 2 :: int) ^ 2001 \<le> - 128" by simp
  then show ?thesis
    using integer_pow_exact[OF i(1), of 7 "\<lambda>_ _ _. 0" 20] integer_pow_exact[OF i(2), of "-2" "\<lambda>_ _ _. 0" 2001]
    by simp
qed

section \<open>Cumulative sums and products\<close>

text \<open>One row of a scan: \<open>st\<close> folds an element into the accumulator, \<open>h\<close> narrows it to the output.\<close>

lemma scan_row:
  assumes "b + n \<le> length a" and "length out = length a"
  shows "foldM (\<lambda>i (out, acc). do {
            x \<leftarrow> nth_chk a (b + i);
            let acc = st acc x;
            out' \<leftarrow> upd_chk out (b + i) (h acc);
            Some (out', acc) }) [0..<n] (out, e)
    = Some (take b out @ map (\<lambda>i. h (foldl st e (take (Suc i) (drop b a)))) [0..<n] @ drop (b + n) out,
            foldl st e (take n (drop b a)))"
  using assms(1)
proof (induction n)
  case (Suc n)
  let ?o = "take b out @ map (\<lambda>i. h (foldl st e (take (Suc i) (drop b a)))) [0..<n] @ drop (b + n) out"
  have lo: "length ?o = length a" using Suc.prems assms(2) by simp
  have "take (Suc n) (drop b a) = take n (drop b a) @ [a ! (b + n)]"
    using Suc.prems by (simp add: take_Suc_conv_app_nth)
  then have st: "foldl st e (take (Suc n) (drop b a)) = st (foldl st e (take n (drop b a))) (a ! (b + n))"
    by simp
  have dr: "drop (b + n) out = out ! (b + n) # drop (b + Suc n) out"
    using Cons_nth_drop_Suc[of "b + n" out] Suc.prems assms(2) by simp
  have "?o[b + n := v] = take b out @ map (\<lambda>i. h (foldl st e (take (Suc i) (drop b a)))) [0..<n]
      @ [v] @ drop (b + Suc n) out" for v
    using Suc.prems assms(2) unfolding dr by (simp add: list_update_append)
  with Suc lo st show ?case by (simp add: foldM_append Let_def)
qed simp

lemma scan_rows:
  assumes "length a = outer * n" and "length out = outer * n"
  shows "foldM (\<lambda>k out. map_option fst (foldM (\<lambda>i (out, acc). do {
            x \<leftarrow> nth_chk a (k * n + i);
            let acc = st acc x;
            out' \<leftarrow> upd_chk out (k * n + i) (h acc);
            Some (out', acc) }) [0..<n] (out, e))) [0..<outer] out
    = Some (concat (map (\<lambda>k. map (\<lambda>i. h (foldl st e (take (Suc i) (drop (k * n) a)))) [0..<n]) [0..<outer]))"
proof -
  have "foldM (\<lambda>k out. map_option fst (foldM (\<lambda>i (out, acc). do {
            x \<leftarrow> nth_chk a (k * n + i);
            let acc = st acc x;
            out' \<leftarrow> upd_chk out (k * n + i) (h acc);
            Some (out', acc) }) [0..<n] (out, e))) [0..<outer] out
    = Some (take 0 out @ concat (map (\<lambda>k. map (\<lambda>i. h (foldl st e (take (Suc i) (drop (k * n) a)))) [0..<n])
        [0..<outer]) @ drop (0 + outer * n) out)"
  proof (rule foldM_fill_blocks[where L = "outer * n"])
    fix k out' assume k: "k < outer" and l: "length (out' :: 'b list) = outer * n"
    have "k * n + n \<le> outer * n" using k mult_le_mono1[of "Suc k" outer n] by simp
    with assms l show "map_option fst (foldM (\<lambda>i (out, acc). do {
            x \<leftarrow> nth_chk a (k * n + i);
            let acc = st acc x;
            out' \<leftarrow> upd_chk out (k * n + i) (h acc);
            Some (out', acc) }) [0..<n] (out', e))
      = Some (take (0 + k * n) out' @ map (\<lambda>i. h (foldl st e (take (Suc i) (drop (k * n) a)))) [0..<n]
          @ drop (0 + (k + 1) * n) out')"
      by (subst scan_row) (auto simp: algebra_simps)
  qed (use assms in auto)
  then show ?thesis using assms by simp
qed

lemma foldl_wide_add:
  assumes "\<forall>x \<in> set xs. \<bar>x\<bar> < 2 ^ 64" and "\<bar>s\<bar> \<le> int n * 2 ^ 64" and "n + length xs < 2 ^ 63"
  shows "foldl wide_add s xs = s + sum_list xs"
  using assms
proof (induction xs arbitrary: s n)
  case (Cons x xs)
  have b: "\<bar>s + x\<bar> \<le> int (Suc n) * 2 ^ 64" using Cons.prems(1,2) abs_triangle_ineq[of s x] by (simp add: algebra_simps)
  have "int (Suc n) \<le> 2 ^ 63 - 1" using Cons.prems(3) by simp
  then have "int (Suc n) * 2 ^ 64 \<le> (2 ^ 63 - 1) * 2 ^ 64" by (rule mult_right_mono) simp
  with b have "\<bar>s + x\<bar> < 2 ^ 127" by simp
  then have "wide_add s x = s + x" by (auto simp: wide_add_def sat_i128_def i128_min_def i128_max_def)
  with Cons.IH[of "s + x" "Suc n"] Cons.prems b show ?case by (simp add: add_ac)
qed simp

lemma foldl_wide_mul: "sat_rel s p \<Longrightarrow> sat_rel (foldl wide_mul s xs) (p * prod_list xs)"
proof (induction xs arbitrary: s p)
  case (Cons x xs)
  from Cons.IH[OF sat_rel_wide_mul[OF Cons.prems, of x]] show ?case by (simp add: mult.assoc)
qed simp

lemma elem_abs_less: "is_int d \<Longrightarrow> int_min d \<le> x \<Longrightarrow> x \<le> int_max d \<Longrightarrow> \<bar>x\<bar> < 2 ^ 64"
  using int_bounds[of d] by auto

text \<open>The elements of the row of position \<open>j\<close> up to and including it.\<close>

definition row_prefix :: "nat \<Rightarrow> int list \<Rightarrow> nat \<Rightarrow> int list" where
  "row_prefix n a j = take (Suc (j mod n)) (drop (j div n * n) a)"

lemma concat_rows:
  "concat (map (\<lambda>k. map (\<lambda>i. F k i) [0..<n]) [0..<m]) = map (\<lambda>j. F (j div n) (j mod n)) [0..<m * n]"
proof (induction m)
  case (Suc m)
  have "map (\<lambda>i. F m i) [0..<n] = map (\<lambda>j. F (j div n) (j mod n)) (map ((+) (m * n)) [0..<n])"
    by simp
  also have "map ((+) (m * n)) [0..<n] = [m * n..<m * n + n]" by (intro nth_equalityI) auto
  finally show ?case using Suc by (simp add: upt_add_eq_append[of 0 "m * n" n] add.commute[of n])
qed simp

text \<open>
  Cumulative sums and products of integers never wrap. Every element of the output is the
  mathematical sum (for the product: the mathematical product) of the elements of its row up to and
  including it, clamped to the type's range, although the running accumulator itself saturates at
  128 bits.
\<close>

theorem cumulative_kernels_correct:
  assumes "is_int d" and "\<forall>x \<in> set a. int_min d \<le> x \<and> x \<le> int_max d"
    and "length a = outer * n" and "length out = outer * n" and "n < 2 ^ 63"
  shows "cumsum_kernel_acc d a out n outer =
      Some (map (\<lambda>j. from_i128_saturating d (sum_list (row_prefix n a j))) [0..<outer * n])
    \<and> cumprod_kernel_acc d a out n outer =
      Some (map (\<lambda>j. from_i128_saturating d (prod_list (row_prefix n a j))) [0..<outer * n])"
proof
  have sub: "\<forall>x \<in> set (row_prefix n a j). \<bar>x\<bar> < 2 ^ 64" for j
    unfolding row_prefix_def using elem_abs_less[OF assms(1)] assms(2) by (meson in_set_dropD in_set_takeD)
  have len: "length (row_prefix n a j) < 2 ^ 63" if "j < outer * n" for j
  proof -
    have "0 < n" using that by (cases n) auto
    then have "Suc (j mod n) \<le> n" by (simp add: Suc_le_eq)
    then show ?thesis using assms(5) by (simp add: row_prefix_def)
  qed
  have s: "foldl wide_add 0 (row_prefix n a j) = sum_list (row_prefix n a j)" if "j < outer * n" for j
    using foldl_wide_add[OF sub, of 0 0 j] len[OF that] by simp
  show "cumsum_kernel_acc d a out n outer =
      Some (map (\<lambda>j. from_i128_saturating d (sum_list (row_prefix n a j))) [0..<outer * n])"
    unfolding cumsum_kernel_acc_def scan_rows[OF assms(3,4)] concat_rows
    using s by (simp add: row_prefix_def)
  have p: "from_i128_saturating d (foldl wide_mul 1 xs) = from_i128_saturating d (prod_list xs)" for xs
    using sat_rel_clamp[OF assms(1) foldl_wide_mul[of 1 1 xs]] by (simp add: sat_rel_def)
  show "cumprod_kernel_acc d a out n outer =
      Some (map (\<lambda>j. from_i128_saturating d (prod_list (row_prefix n a j))) [0..<outer * n])"
    unfolding cumprod_kernel_acc_def scan_rows[OF assms(3,4)] concat_rows
    by (simp add: row_prefix_def p)
qed

lemma cumulative_kernels_correct_witness:
  "cumsum_kernel_acc I8 [100, 100, -100, 1] [0, 0, 0, 0] 4 1 = Some [100, 127, 100, 101]
    \<and> cumprod_kernel_acc I8 [100, 100, -100, 1] [0, 0, 0, 0] 4 1 = Some [100, 127, -128, -128]"
proof -
  have "is_int I8" and "\<forall>x \<in> set [100, 100, -100, 1]. int_min I8 \<le> x \<and> x \<le> int_max I8"
    by (simp_all add: is_int_def is_signed_int_def)
  then have "cumsum_kernel_acc I8 [100, 100, -100, 1] [0, 0, 0, 0] 4 1 =
      Some (map (\<lambda>j. from_i128_saturating I8 (sum_list (row_prefix 4 [100, 100, -100, 1] j))) [0..<1 * 4])
    \<and> cumprod_kernel_acc I8 [100, 100, -100, 1] [0, 0, 0, 0] 4 1 =
      Some (map (\<lambda>j. from_i128_saturating I8 (prod_list (row_prefix 4 [100, 100, -100, 1] j))) [0..<1 * 4])"
    by (intro cumulative_kernels_correct) simp_all
  then show ?thesis by (elim conjE, intro conjI, simp_all only:) code_simp+
qed

section \<open>Scatter with reduction is exact, then clamped\<close>

record scatter_reduce_args = "int scatter_args" +
  sr_op :: scatter_reduce_op

definition reduce_upd :: "scatter_reduce_args \<Rightarrow> nat \<Rightarrow> int \<times> nat \<Rightarrow> int \<times> nat" where
  "reduce_upd p k st = (reduce_step (sr_op p) (fst st) (sc_src p ! k), snd st + 1)"

definition reduce_ok :: "scatter_reduce_args \<Rightarrow> bool" where
  "reduce_ok p \<longleftrightarrow> scatter_ok (scatter_args.truncate p)"

definition reduce_target :: "scatter_reduce_args \<Rightarrow> nat \<Rightarrow> nat option" where
  "reduce_target p = scatter_target (scatter_args.truncate p)"

lemma truncate_simps [simp]:
  "sc_indices (scatter_args.truncate p) = sc_indices p" "sc_src (scatter_args.truncate p) = sc_src p"
  "sc_shape (scatter_args.truncate p) = sc_shape p" "sc_index_shape (scatter_args.truncate p) = sc_index_shape p"
  "sc_dim (scatter_args.truncate p) = sc_dim p"
  by (simp_all add: scatter_args.truncate_def)

interpretation reduce_loop: update_loop reduce_ok "\<lambda>p. prod_list (sc_index_shape p)" "\<lambda>p. prod_list (sc_shape p)"
  "\<lambda>p. scatter_reduce_step (sr_op p) (sc_indices p) (sc_src p) (sc_shape p) (sc_dim p) (row_prods (sc_shape p))
     (row_prods (sc_index_shape p))"
  reduce_target reduce_upd
proof
  fix p :: scatter_reduce_args and k :: nat and out :: "(int \<times> nat) list"
  assume ok: "reduce_ok p" and k: "k < prod_list (sc_index_shape p)" and l: "length out = prod_list (sc_shape p)"
  let ?q = "scatter_args.truncate p"
  have oq: "scatter_ok ?q" using ok by (simp add: reduce_ok_def)
  have ks: "k < length (sc_src p)" "k < length (sc_indices p)" "sc_dim p < length (sc_shape p)"
    using oq k by (auto simp: scatter_ok_def index_ranks_ok_def)
  have sh: "index_ranks_ok (sc_shape p) (sc_index_shape p) (sc_dim p)" using oq by (simp add: scatter_ok_def)
  have "scatter_reduce_step (sr_op p) (sc_indices p) (sc_src p) (sc_shape p) (sc_dim p) (row_prods (sc_shape p))
      (row_prods (sc_index_shape p)) k out
    = (case scatter_target ?q k of None \<Rightarrow> Some out | Some j \<Rightarrow> do {
        (acc, cnt) \<leftarrow> nth_chk out j;
        upd_chk out j (reduce_step (sr_op p) acc (sc_src p ! k), cnt + 1) })"
    unfolding scatter_round[OF oq, of k "Some out", simplified, OF k, symmetric]
    using ks index_step(1)[OF sh k] by (simp add: scatter_reduce_step_def Let_def)
  also have "\<dots> = (case reduce_target p k of None \<Rightarrow> Some out
      | Some j \<Rightarrow> if j < prod_list (sc_shape p) then Some (out[j := reduce_upd p k (out ! j)]) else None)"
    using l by (auto simp: reduce_target_def reduce_upd_def nth_chk_def split: option.split prod.split)
  finally show "scatter_reduce_step (sr_op p) (sc_indices p) (sc_src p) (sc_shape p) (sc_dim p) (row_prods (sc_shape p))
      (row_prods (sc_index_shape p)) k out
    = (case reduce_target p k of None \<Rightarrow> Some out
       | Some j \<Rightarrow> if j < prod_list (sc_shape p) then Some (out[j := reduce_upd p k (out ! j)]) else None)" .
qed

lemma fold_reduce_upd:
  "fold (reduce_upd p) ks (s, c) = (foldl (reduce_step (sr_op p)) s (map ((!) (sc_src p)) ks), c + length ks)"
  by (induction ks arbitrary: s c) (auto simp: reduce_upd_def)

text \<open>The source elements that a scatter sends to place \<open>j\<close>, and the reduction of the old value and those.\<close>

definition scattered :: "int list \<Rightarrow> int list \<Rightarrow> nat list \<Rightarrow> nat list \<Rightarrow> nat \<Rightarrow> nat \<Rightarrow> int list" where
  "scattered indices src shp index_shape ax j =
     map ((!) src) (filter (\<lambda>k. valid_index shp ax (indices ! k) \<and>
       moved_index shp index_shape ax k (nat (indices ! k)) = j) [0..<prod_list index_shape])"

definition reduce_spec :: "dtype \<Rightarrow> scatter_reduce_op \<Rightarrow> int list \<Rightarrow> int" where
  "reduce_spec d oper vs =
     (case oper of
        SumRed \<Rightarrow> from_i128_saturating d (sum_list vs)
      | MeanRed \<Rightarrow> from_i128_saturating d (if vs = [] then 0 else sum_list vs sdiv int (length vs))
      | ProdRed \<Rightarrow> from_i128_saturating d (prod_list vs)
      | MaxRed \<Rightarrow> if vs = [] then int_min d else Max (set vs)
      | MinRed \<Rightarrow> if vs = [] then int_max d else Min (set vs))"

lemma foldl_max: "foldl max s xs = Max (insert s (set xs))" for s :: int
proof (induction xs arbitrary: s)
  case (Cons a xs)
  then show ?case by (cases "xs = []") (simp_all add: max.assoc max.left_commute)
qed simp

lemma foldl_min: "foldl min s xs = Min (insert s (set xs))" for s :: int
proof (induction xs arbitrary: s)
  case (Cons a xs)
  then show ?case by (cases "xs = []") (simp_all add: min.assoc min.left_commute)
qed simp

lemma from_i128_id: "int_min d \<le> x \<Longrightarrow> x \<le> int_max d \<Longrightarrow> from_i128_saturating d x = x"
  by (simp add: from_i128_saturating_def)

lemma reduce_value:
  assumes d: "is_int d" and x: "int_min d \<le> x \<and> x \<le> int_max d"
    and vs: "\<forall>v \<in> set vs. int_min d \<le> v \<and> v \<le> int_max d" and len: "length vs < 2 ^ 63 - 1"
  shows "let acc = foldl (reduce_step oper) (if incl then x else reduce_identity d oper) vs;
             cnt = of_bool incl + length vs
         in from_i128_saturating d (if oper = MeanRed \<and> 0 < cnt then acc sdiv int cnt else acc)
       = reduce_spec d oper (if incl then x # vs else vs)"
proof -
  have small: "\<forall>v \<in> set vs. \<bar>v\<bar> < 2 ^ 64" "\<bar>x\<bar> < 2 ^ 64" using elem_abs_less[OF d] x vs by blast+
  have add: "foldl wide_add x vs = x + sum_list vs" "foldl wide_add 0 vs = sum_list vs"
    using foldl_wide_add[OF small(1), of x 1] foldl_wide_add[OF small(1), of 0 0] small(2) len by simp_all
  have mul: "from_i128_saturating d (foldl wide_mul s vs) = from_i128_saturating d (s * prod_list vs)" for s
    by (rule sat_rel_clamp[OF d foldl_wide_mul]) (simp add: sat_rel_def)
  have bnd: "int_min d \<le> int_max d" using int_bounds[OF d] by linarith
  have mx: "from_i128_saturating d (Max (insert s (set vs))) = Max (insert s (set vs))"
    if "int_min d \<le> s \<and> s \<le> int_max d" for s
    using that vs by (intro from_i128_id) (auto simp: Max_ge_iff)
  have mn: "from_i128_saturating d (Min (insert s (set vs))) = Min (insert s (set vs))"
    if "int_min d \<le> s \<and> s \<le> int_max d" for s
    using that vs by (intro from_i128_id) (auto simp: Min_le_iff)
  have idmax: "Max (insert (int_min d) (set vs)) = (if vs = [] then int_min d else Max (set vs))"
  proof (cases "vs = []")
    case False
    then have "hd vs \<in> set vs" by simp
    with vs have "int_min d \<le> Max (set vs)" by (meson List.finite_set Max_ge order_trans)
    with False show ?thesis by simp
  qed simp
  have idmin: "Min (insert (int_max d) (set vs)) = (if vs = [] then int_max d else Min (set vs))"
  proof (cases "vs = []")
    case False
    then have "hd vs \<in> set vs" by simp
    with vs have "Min (set vs) \<le> int_max d" by (meson List.finite_set Min_le order_trans)
    with False show ?thesis by simp
  qed simp
  have st: "reduce_step SumRed = wide_add" "reduce_step MeanRed = wide_add" "reduce_step ProdRed = wide_mul"
    "reduce_step MaxRed = max" "reduce_step MinRed = min" by (auto simp: reduce_step_def fun_eq_iff)
  show ?thesis
    using x bnd mx[of "int_min d", unfolded idmax] mn[of "int_max d", unfolded idmin] by (cases oper; cases incl)
      (simp_all add: st add mul foldl_max foldl_min mx mn idmax idmin reduce_identity_def reduce_spec_def Let_def
        add.commute)
qed

text \<open>
  C11. The integer scatter with reduction computes the exact reduction. For an axis of the tensor, an index tensor of
  the same rank with any content (both checked by \<open>scatter_reduce_impl\<close>), buffers of the sizes of their shapes and
  fewer than \<open>2^62\<close> source elements: when every in-range index value names a place of the destination, which holds when
  the index tensor is not wider than the destination outside \<open>dim\<close>, place \<open>j\<close> of the output is the
  sum, truncated mean, product, maximum or minimum of the source elements whose valid index sends them
  there, together with the old element when \<open>include_self\<close> is set, computed without overflow and
  clamped once to the type's range; indices out of range are skipped. When some in-range index value names no place,
  which nothing checks, the access to the accumulator panics (its bounds are checked). No access leaves a buffer
  in either case.
\<close>

theorem scatter_reduce_int_correct:
  assumes d: "is_int d" and sh: "index_ranks_ok shp index_shape ax" and i64: "i64s indices"
    and li: "length indices = prod_list index_shape" and ls: "length src = prod_list index_shape"
    and ld: "length dst = prod_list shp" and lo: "length out = prod_list shp"
    and n: "prod_list index_shape < 2 ^ 62"
    and rng: "\<forall>x \<in> set dst \<union> set src. int_min d \<le> x \<and> x \<le> int_max d"
  shows "scatter_reduce_int_kernel d dst indices src out shp index_shape ax oper include_self =
      (if index_fits shp index_shape ax indices
       then Some (map (\<lambda>j. reduce_spec d oper
        ((if include_self then [dst ! j] else []) @ scattered indices src shp index_shape ax j)) [0..<prod_list shp])
       else None) \<and>
    ((\<forall>i < length shp. i \<noteq> ax \<longrightarrow> index_shape ! i \<le> shp ! i) \<longrightarrow> index_fits shp index_shape ax indices)"
proof -
  define p where "p = \<lparr>sc_indices = indices, sc_src = src, sc_shape = shp, sc_index_shape = index_shape,
    sc_dim = ax, sr_op = oper\<rparr>"
  have p: "sc_indices p = indices" "sc_src p = src" "sc_shape p = shp" "sc_index_shape p = index_shape"
    "sc_dim p = ax" "sr_op p = oper" by (simp_all add: p_def)
  have ok: "reduce_ok p" using sh i64 li ls by (simp add: reduce_ok_def scatter_ok_def p)
  have nd: "length shp \<noteq> 0" "length index_shape = length shp" using sh by (auto simp: index_ranks_ok_def)
  have fits: "index_fits shp index_shape ax indices \<longleftrightarrow>
      (\<forall>k < prod_list index_shape. \<forall>j. reduce_target p k = Some j \<longrightarrow> j < prod_list shp)"
    using scatter_fits_iff[of "scatter_args.truncate p"] by (simp add: scatter_fits_def reduce_target_def p)
  define seed where "seed j = (if include_self then dst ! j else reduce_identity d oper, of_bool include_self :: nat)" for j
  let ?N = "prod_list shp" and ?M = "prod_list index_shape"
  let ?accs = "map seed [0..<?N]"
  have init: "foldM (\<lambda>i accs. do {
      x \<leftarrow> nth_chk dst i;
      Some (accs @ [(if include_self then x else reduce_identity d oper, of_bool include_self)]) }) [0..<m] []
    = Some (map seed [0..<m])" if "m \<le> ?N" for m
    using that ld by (induction m) (simp_all add: foldM_append seed_def)
  define vs where "vs = scattered indices src shp index_shape ax"
  have hits: "map ((!) src) (filter (\<lambda>k. reduce_target p k = Some j) [0..<?M]) = vs j" for j
    by (auto simp: vs_def scattered_def reduce_target_def scatter_target_def p intro!: arg_cong[where f = "map _"] filter_cong)
  let ?fin = "\<lambda>j. (foldl (reduce_step oper) (fst (seed j)) (vs j), snd (seed j) + length (vs j))"
  have fin: "fold (reduce_upd p) (filter (\<lambda>k. reduce_target p k = Some j) [0..<?M]) (seed j) = ?fin j" for j
    using fold_reduce_upd[of p "filter (\<lambda>k. reduce_target p k = Some j) [0..<?M]" "fst (seed j)" "snd (seed j)"]
      hits[of j, symmetric] by (simp add: p)
  have loop: "foldM (scatter_reduce_step oper indices src shp ax (row_prods shp) (row_prods index_shape)) [0..<?M] ?accs
    = (if index_fits shp index_shape ax indices then Some (map ?fin [0..<?N]) else None)"
    using reduce_loop.loop_iff[OF ok, of ?accs ?M] fin by (simp add: p fits cong: map_cong)
  define res where "res j = reduce_spec d oper ((if include_self then [dst ! j] else []) @ vs j)" for j
  have val: "(let (acc, cnt) = ?fin j in from_i128_saturating d (if oper = MeanRed \<and> 0 < cnt then acc sdiv int cnt else acc))
    = res j" if j: "j < ?N" for j
  proof -
    have "set (vs j) \<subseteq> set src" using ls by (auto simp: vs_def scattered_def)
    moreover have "length (vs j) \<le> ?M"
      unfolding vs_def scattered_def by (simp only: length_map) (metis length_filter_le length_upt minus_nat.diff_0)
    ultimately show ?thesis
      using reduce_value[OF d, of "dst ! j" "vs j" oper include_self] rng ld j n
      by (auto simp: seed_def res_def Let_def subset_iff split: if_splits)
  qed
  have out: "foldM (\<lambda>i out. do {
      (acc, cnt) \<leftarrow> nth_chk (map ?fin [0..<?N]) i;
      let value = (if oper = MeanRed \<and> 0 < cnt then acc sdiv int cnt else acc);
      upd_chk out i (from_i128_saturating d value) }) [0..<?N] out = Some (map res [0..<?N])"
  proof -
    have "foldM (\<lambda>i out. do {
      (acc, cnt) \<leftarrow> nth_chk (map ?fin [0..<?N]) i;
      let value = (if oper = MeanRed \<and> 0 < cnt then acc sdiv int cnt else acc);
      upd_chk out i (from_i128_saturating d value) }) [0..<?N] out = Some (take 0 out @ map res [0..<?N] @ drop (0 + ?N) out)"
      by (rule foldM_fill_each[where L = ?N]) (use val lo in \<open>simp_all add: Let_def\<close>)
    then show ?thesis using lo by simp
  qed
  have "scatter_reduce_int_kernel d dst indices src out shp index_shape ax oper include_self =
      (if index_fits shp index_shape ax indices then Some (map res [0..<?N]) else None)"
    using nd init[of ?N] loop out by (simp add: scatter_reduce_int_kernel_def Let_def row_strides_eq)
  moreover have "(\<forall>i < length shp. i \<noteq> ax \<longrightarrow> index_shape ! i \<le> shp ! i) \<longrightarrow> index_fits shp index_shape ax indices"
    using sh shapes_ok_fits[of shp index_shape ax] by (simp add: index_shapes_ok_def)
  ultimately show ?thesis by (simp add: res_def vs_def)
qed

lemma scatter_reduce_int_correct_witness:
  "scatter_reduce_int_kernel I8 [10, 20] [0, 0, 1, 5] [100, 100, -7, 3] [0, 0] [2] [4] 0 SumRed True = Some [127, 13]
   \<and> scatter_reduce_int_kernel I8 [10, 20] [0, 0, 1, 5] [100, 101, -7, 3] [0, 0] [2] [4] 0 MeanRed False = Some [100, -7]"
proof -
  have k: "is_int I8" "index_ranks_ok [2] [4] 0" "i64s [0, 0, 1, 5]"
    by (simp_all add: is_int_def is_signed_int_def index_ranks_ok_def i64s_def)
  have fits: "\<forall>i < length [2]. i \<noteq> 0 \<longrightarrow> [4] ! i \<le> [2 :: nat] ! i" by simp
  have "scatter_reduce_int_kernel I8 [10, 20] [0, 0, 1, 5] [100, 100, -7, 3] [0, 0] [2] [4] 0 SumRed True
      = Some (map (\<lambda>j. reduce_spec I8 SumRed ((if True then [[10, 20] ! j] else [])
          @ scattered [0, 0, 1, 5] [100, 100, -7, 3] [2] [4] 0 j)) [0..<prod_list [2]])"
    using scatter_reduce_int_correct[OF k, of "[100, 100, -7, 3]" "[10, 20]" "[0, 0]" SumRed True] fits by simp
  moreover have "scatter_reduce_int_kernel I8 [10, 20] [0, 0, 1, 5] [100, 101, -7, 3] [0, 0] [2] [4] 0 MeanRed False
      = Some (map (\<lambda>j. reduce_spec I8 MeanRed ((if False then [[10, 20] ! j] else [])
          @ scattered [0, 0, 1, 5] [100, 101, -7, 3] [2] [4] 0 j)) [0..<prod_list [2]])"
    using scatter_reduce_int_correct[OF k, of "[100, 101, -7, 3]" "[10, 20]" "[0, 0]" MeanRed False] fits by simp
  ultimately show ?thesis by (elim ssubst) code_simp
qed

text \<open>The index tensor of \<open>wide_index_escapes\<close> makes this kernel panic.\<close>

lemma wide_index_panics:
  "scatter_reduce_int_kernel I8 [1, 2] [0, 0, 0] [7, 8, 9] [0, 0] [2, 1] [3, 1] 1 SumRed True = None"
  by code_simp

end
