(* ===== verification/Strided_Copy.thy ===== *)
theory Strided_Copy
  imports Indexing
begin

text \<open>
  The copy of a strided view into fresh row-major storage (\<open>src/runtime/cpu/strided_copy.rs\<close> and
  \<open>copy_strided\<close> of \<open>src/runtime/cpu/runtime.rs\<close>), the kernel behind \<open>Tensor::contiguous\<close>. Buffers are
  lists of bytes and a pointer into one is a buffer with an offset; \<open>None\<close> is an access outside a
  buffer or a panic. Strides and element offsets are \<open>int\<close>: an offset that the loops compute is the
  offset of an element of the view, which the safety contract puts inside an allocation.

  The three tiers of the code (one block, one block per outer index, one element at a time) are
  shown to copy the same bytes as the reference \<open>view_bytes\<close>, element by element in row-major order.
\<close>

section \<open>Pointers\<close>

text \<open>\<open>copy_nonoverlapping(src + s, dst + d, n)\<close>; a copy of no bytes is allowed at any address.\<close>

definition copy_bytes :: "'b list \<Rightarrow> int \<Rightarrow> 'b list \<Rightarrow> nat \<Rightarrow> nat \<Rightarrow> 'b list option" where
  "copy_bytes src s dst d n =
     (if n = 0 then Some dst
      else if 0 \<le> s \<and> nat s + n \<le> length src \<and> d + n \<le> length dst
      then Some (take d dst @ take n (drop (nat s) src) @ drop (d + n) dst)
      else None)"

section \<open>The code\<close>

fun suffix_loop :: "nat list \<Rightarrow> int list \<Rightarrow> nat list \<Rightarrow> int \<Rightarrow> nat \<Rightarrow> nat option" where
  "suffix_loop shp strd [] expected cnt = Some cnt"
| "suffix_loop shp strd (d # ds) expected cnt = do {
     n \<leftarrow> nth_chk shp d;
     (if n = 1 then suffix_loop shp strd ds expected (cnt + 1)
      else do {
        s \<leftarrow> nth_chk strd d;
        (if s \<noteq> expected then Some cnt
         else suffix_loop shp strd ds (expected * int n) (cnt + 1)) }) }"

definition contiguous_suffix_len :: "nat list \<Rightarrow> int list \<Rightarrow> nat option" where
  "contiguous_suffix_len shp strd = suffix_loop shp strd (rev [0..<length shp]) 1 0"

fun advance_loop :: "nat list \<Rightarrow> int list \<Rightarrow> nat list \<Rightarrow> nat list \<times> int \<Rightarrow> (nat list \<times> int) option" where
  "advance_loop shp strd [] (idx, off) = Some (idx, off)"
| "advance_loop shp strd (d # ds) (idx, off) = do {
     i \<leftarrow> nth_chk idx d;
     n \<leftarrow> nth_chk shp d;
     s \<leftarrow> nth_chk strd d;
     (if i + 1 < n then Some (idx[d := i + 1], off + s)
      else advance_loop shp strd ds (idx[d := 0], off - s * (int n - 1))) }"

definition advance :: "nat list \<Rightarrow> int \<Rightarrow> nat list \<Rightarrow> int list \<Rightarrow> nat \<Rightarrow> (nat list \<times> int) option" where
  "advance idx off shp strd dims = advance_loop shp strd (rev [0..<dims]) (idx, off)"

definition copy_blocks :: "'b list \<Rightarrow> int \<Rightarrow> 'b list \<Rightarrow> nat list \<Rightarrow> int list \<Rightarrow> nat \<Rightarrow> nat \<Rightarrow> nat \<Rightarrow> 'b list option" where
  "copy_blocks src base dst shp strd elem_size suffix block_elems =
     (let outer_dims = length shp - suffix;
          outer_count = prod_list (take outer_dims shp);
          block_bytes = block_elems * elem_size
      in map_option (\<lambda>(dst, idx, off). dst)
           (foldM (\<lambda>b (dst, idx, off). do {
              dst \<leftarrow> copy_bytes src (base + off * int elem_size) dst (b * block_bytes) block_bytes;
              (idx, off) \<leftarrow> advance idx off shp strd outer_dims;
              Some (dst, idx, off) }) [0..<outer_count] (dst, replicate outer_dims 0, 0)))"

text \<open>\<open>copy_elements::<T>\<close> for a width of \<open>w\<close> bytes: one unaligned load and store per element.\<close>

definition copy_elements :: "nat \<Rightarrow> 'b list \<Rightarrow> int \<Rightarrow> 'b list \<Rightarrow> nat list \<Rightarrow> int list \<Rightarrow> nat \<Rightarrow> 'b list option" where
  "copy_elements w src base dst shp strd numel =
     (let ndim = length shp
      in map_option (\<lambda>(dst, idx, off). dst)
           (foldM (\<lambda>i (dst, idx, off). do {
              dst \<leftarrow> copy_bytes src (base + off * int w) dst (i * w) w;
              (idx, off) \<leftarrow> advance idx off shp strd ndim;
              Some (dst, idx, off) }) [0..<numel] (dst, replicate ndim 0, 0)))"

definition copy_elements_bytes :: "'b list \<Rightarrow> int \<Rightarrow> 'b list \<Rightarrow> nat list \<Rightarrow> int list \<Rightarrow> nat \<Rightarrow> nat \<Rightarrow> 'b list option" where
  "copy_elements_bytes src base dst shp strd numel elem_size =
     (let ndim = length shp
      in map_option (\<lambda>(dst, idx, off). dst)
           (foldM (\<lambda>i (dst, idx, off). do {
              dst \<leftarrow> copy_bytes src (base + off * int elem_size) dst (i * elem_size) elem_size;
              (idx, off) \<leftarrow> advance idx off shp strd ndim;
              Some (dst, idx, off) }) [0..<numel] (dst, replicate ndim 0, 0)))"

definition copy_strided_impl :: "'b list \<Rightarrow> int \<Rightarrow> 'b list \<Rightarrow> nat list \<Rightarrow> int list \<Rightarrow> nat \<Rightarrow> 'b list option" where
  "copy_strided_impl src base dst shp strd elem_size = do {
     let ndim = length shp;
     let numel = prod_list shp;
     suffix \<leftarrow> contiguous_suffix_len shp strd;
     (if suffix = ndim then copy_bytes src base dst 0 (numel * elem_size)
      else do {
        let block_elems = prod_list (drop (ndim - suffix) shp);
        (if 0 < suffix \<and> 1 < block_elems
         then copy_blocks src base dst shp strd elem_size suffix block_elems
         else if elem_size = 1 then copy_elements 1 src base dst shp strd numel
         else if elem_size = 2 then copy_elements 2 src base dst shp strd numel
         else if elem_size = 4 then copy_elements 4 src base dst shp strd numel
         else if elem_size = 8 then copy_elements 8 src base dst shp strd numel
         else copy_elements_bytes src base dst shp strd numel elem_size) }) }"

text \<open>\<open>CpuRuntime::copy_strided\<close>; a null handle is a buffer that was never allocated, \<open>None\<close> here.\<close>

definition copy_strided :: "'b list option \<Rightarrow> nat \<Rightarrow> 'b list option \<Rightarrow> nat list \<Rightarrow> int list \<Rightarrow> nat \<Rightarrow>
    'b list option option" where
  "copy_strided src_handle src_byte_offset dst_handle shp strd elem_size =
     (case (src_handle, dst_handle) of
        (Some src, Some dst) \<Rightarrow>
          (if shp = [] then Some (Some dst)
           else if prod_list shp = 0 then Some (Some dst)
           else map_option Some (copy_strided_impl src (int src_byte_offset) dst shp strd elem_size))
      | _ \<Rightarrow> Some dst_handle)"

section \<open>The reference\<close>

definition sdot :: "nat list \<Rightarrow> int list \<Rightarrow> int" where
  "sdot idx strd = (\<Sum>(i, s) \<leftarrow> zip idx strd. int i * s)"

definition view_elem :: "'b list \<Rightarrow> int \<Rightarrow> nat list \<Rightarrow> int list \<Rightarrow> nat \<Rightarrow> nat \<Rightarrow> 'b list" where
  "view_elem src base shp strd w k =
     take w (drop (nat (base + sdot (unravel shp k) strd * int w)) src)"

definition view_bytes :: "'b list \<Rightarrow> int \<Rightarrow> nat list \<Rightarrow> int list \<Rightarrow> nat \<Rightarrow> 'b list" where
  "view_bytes src base shp strd w = concat (map (view_elem src base shp strd w) [0..<prod_list shp])"

text \<open>The safety contract: every element of the view lies inside the source buffer.\<close>

definition view_inside :: "'b list \<Rightarrow> int \<Rightarrow> nat list \<Rightarrow> int list \<Rightarrow> nat \<Rightarrow> bool" where
  "view_inside src base shp strd w \<longleftrightarrow>
     (\<forall>k < prod_list shp. 0 \<le> base + sdot (unravel shp k) strd * int w \<and>
        base + (sdot (unravel shp k) strd + 1) * int w \<le> int (length src))"

lemma sdot_simps [simp]: "sdot [] ss = 0" "sdot idx [] = 0" "sdot (i # idx) (s # ss) = int i * s + sdot idx ss"
  by (simp_all add: sdot_def)

lemma sdot_append:
  "length idx = length ss \<Longrightarrow> sdot (idx @ idx') (ss @ ss') = sdot idx ss + sdot idx' ss'"
  by (simp add: sdot_def)

lemma sdot_replicate_0 [simp]: "sdot (replicate n 0) ss = 0"
  by (induction n arbitrary: ss) (auto simp: sdot_def zip_Cons1 split: list.splits)

lemma ravel_snoc: "length is = length ds \<Longrightarrow> ravel (ds @ [d]) (is @ [i]) = ravel ds is * d + i"
proof (induction "is" ds rule: list_induct2)
  case (Cons x xs y ys)
  then show ?case by (simp add: algebra_simps)
qed simp

lemma ravel_append:
  "length is = length ds \<Longrightarrow> ravel (ds @ ds') (is @ is') = ravel ds is * prod_list ds' + ravel ds' is'"
proof (induction "is" ds rule: list_induct2)
  case (Cons x xs y ys)
  then show ?case by (simp add: algebra_simps)
qed simp

lemma unravel_append:
  assumes "k < prod_list ds" and "j < prod_list ds'"
  shows "unravel (ds @ ds') (k * prod_list ds' + j) = unravel ds k @ unravel ds' j"
proof -
  have i: "inside (unravel ds k @ unravel ds' j) (ds @ ds')"
    using unravel_inside[OF assms(1)] unravel_inside[OF assms(2)]
    by (simp add: inside_def list_all2_appendI)
  have "ravel (ds @ ds') (unravel ds k @ unravel ds' j) = k * prod_list ds' + j"
    using assms by (simp add: ravel_append ravel_unravel)
  with unravel_ravel[OF i] show ?thesis by simp
qed

lemma unravel_0: "unravel shp 0 = replicate (length shp) 0"
  by (induction shp) auto

section \<open>The odometer\<close>

text \<open>
  One step of the odometer over the first \<open>m\<close> axes: the coordinates become those of the next
  position in row-major order, the last position is followed by the first, and the offset moves by
  the difference of the two.
\<close>

lemma take_Suc_update: "m < length xs \<Longrightarrow> take (Suc m) (xs[m := v]) = take m xs @ [v]"
  by (simp add: take_Suc_conv_app_nth)

lemma sdot_take_Suc:
  "m < length idx \<Longrightarrow> m < length ss \<Longrightarrow>
   sdot (take (Suc m) idx) (take (Suc m) ss) = sdot (take m idx) (take m ss) + int (idx ! m) * ss ! m"
  by (simp add: take_Suc_conv_app_nth sdot_append)

lemma inside_take_Suc:
  "m < length idx \<Longrightarrow> m < length shp \<Longrightarrow>
   inside (take (Suc m) idx) (take (Suc m) shp) \<longleftrightarrow> inside (take m idx) (take m shp) \<and> idx ! m < shp ! m"
  by (simp add: take_Suc_conv_app_nth inside_def list_all2_append)

lemma ravel_take_Suc:
  "m < length idx \<Longrightarrow> m < length shp \<Longrightarrow>
   ravel (take (Suc m) shp) (take (Suc m) idx) = ravel (take m shp) (take m idx) * shp ! m + idx ! m"
  by (simp add: take_Suc_conv_app_nth ravel_snoc)

lemma advance_loop_eq:
  assumes "m \<le> length idx" and "length idx \<le> length shp" and "length idx \<le> length strd"
    and "inside (take m idx) (take m shp)"
  shows "\<exists>idx'. advance_loop shp strd (rev [0..<m]) (idx, off) =
      Some (idx', off + sdot (take m idx') (take m strd) - sdot (take m idx) (take m strd)) \<and>
      length idx' = length idx \<and> drop m idx' = drop m idx \<and> inside (take m idx') (take m shp) \<and>
      ravel (take m shp) (take m idx') = (ravel (take m shp) (take m idx) + 1) mod prod_list (take m shp)"
  using assms
proof (induction m arbitrary: idx off)
  case 0
  then show ?case by simp
next
  case (Suc m)
  let ?P = "prod_list (take m shp)" and ?n = "shp ! m"
  have m: "m < length idx" "m < length shp" "m < length strd" using Suc.prems by auto
  have ins: "inside (take m idx) (take m shp)" and lt: "idx ! m < ?n"
    using Suc.prems(4) m by (simp_all add: inside_take_Suc)
  have P: "prod_list (take (Suc m) shp) = ?P * ?n" using m by (simp add: take_Suc_conv_app_nth)
  have rl: "ravel (take m shp) (take m idx) < ?P" using ravel_less[OF ins] .
  show ?case
  proof (cases "idx ! m + 1 < ?n")
    case True
    let ?i = "idx[m := idx ! m + 1]"
    have "Suc (ravel (take m shp) (take m idx)) * ?n \<le> ?P * ?n" using rl by (intro mult_le_mono1) simp
    then have "ravel (take m shp) (take m idx) * ?n + idx ! m + 1 < ?P * ?n" using True by simp
    then show ?thesis
      using True m ins by (intro exI[of _ ?i])
        (simp add: inside_take_Suc ravel_take_Suc sdot_take_Suc P algebra_simps)
  next
    case False
    then have last: "idx ! m + 1 = ?n" using lt by simp
    let ?i = "idx[m := 0]" and ?o = "off - strd ! m * (int ?n - 1)"
    from Suc.IH[of ?i ?o] Suc.prems ins obtain idx' where
      run: "advance_loop shp strd (rev [0..<m]) (?i, ?o) =
        Some (idx', ?o + sdot (take m idx') (take m strd) - sdot (take m idx) (take m strd))"
      and len: "length idx' = length idx" and dr: "drop m idx' = drop m ?i"
      and ins': "inside (take m idx') (take m shp)"
      and rv: "ravel (take m shp) (take m idx') = (ravel (take m shp) (take m idx) + 1) mod ?P"
      by auto
    have z: "idx' ! m = 0" and dr': "drop (Suc m) idx' = drop (Suc m) idx"
      using dr m len by (simp_all add: Cons_nth_drop_Suc[symmetric])
    have step: "advance_loop shp strd (rev [0..<Suc m]) (idx, off) =
        advance_loop shp strd (rev [0..<m]) (?i, ?o)"
      using False m by simp
    have "ravel (take m shp) (take m idx') * ?n =
        (ravel (take m shp) (take m idx) * ?n + idx ! m + 1) mod (?P * ?n)"
    proof -
      have "ravel (take m shp) (take m idx) * ?n + idx ! m + 1 = (ravel (take m shp) (take m idx) + 1) * ?n"
        using last by simp
      then show ?thesis by (simp only: rv mult_mod_left)
    qed
    moreover have "int ?n - 1 = int (idx ! m)" using last by simp
    ultimately show ?thesis
      using run step len dr' ins' z lt m by (intro exI[of _ idx'])
        (simp add: inside_take_Suc ravel_take_Suc sdot_take_Suc P algebra_simps)
  qed
qed

lemma advance_unravel:
  assumes "k < prod_list shp'" and "shp' = take n shp" and "n \<le> length shp" and "n \<le> length strd"
  shows "advance (unravel shp' k) (sdot (unravel shp' k) (take n strd)) shp strd n =
    (let k' = Suc k mod prod_list shp' in Some (unravel shp' k', sdot (unravel shp' k') (take n strd)))"
proof -
  let ?i = "unravel shp' k"
  have l: "length ?i = n" using assms by simp
  from advance_loop_eq[of n ?i shp strd "sdot ?i (take n strd)"] unravel_inside[OF assms(1)] assms l
  obtain idx' where a: "advance_loop shp strd (rev [0..<n]) (?i, sdot ?i (take n strd)) =
      Some (idx', sdot (take n idx') (take n strd))"
    and "length idx' = n" "inside idx' shp'" "ravel shp' idx' = (ravel shp' ?i + 1) mod prod_list shp'"
    by auto
  moreover from this have "idx' = unravel shp' (Suc k mod prod_list shp')"
    using unravel_ravel[of idx' shp'] ravel_unravel[OF assms(1)] by simp
  ultimately show ?thesis by (simp add: advance_def Let_def)
qed

section \<open>The contiguous suffix\<close>

text \<open>Where the suffix is contiguous, the offset of a position inside it is the position.\<close>

definition dense :: "nat list \<Rightarrow> int list \<Rightarrow> bool" where
  "dense shp strd \<longleftrightarrow> (\<forall>idx. inside idx shp \<longrightarrow> sdot idx strd = int (ravel shp idx))"

lemma dense_Cons:
  assumes "dense shp strd" and "n = 1 \<or> s = int (prod_list shp)"
  shows "dense (n # shp) (s # strd)"
  unfolding dense_def
proof (intro allI impI)
  fix idx assume i: "inside idx (n # shp)"
  then obtain j js where idx: "idx = j # js" by (cases idx) auto
  with i assms show "sdot idx (s # strd) = int (ravel (n # shp) idx)" by (auto simp: dense_def)
qed

lemma suffix_loop_dense:
  assumes "m \<le> length shp" and "length strd = length shp"
    and "dense (drop m shp) (drop m strd)" and "expected = int (prod_list (drop m shp))"
    and "cnt = length shp - m"
  shows "\<exists>c \<le> length shp. suffix_loop shp strd (rev [0..<m]) expected cnt = Some c \<and>
    dense (drop (length shp - c) shp) (drop (length shp - c) strd)"
  using assms
proof (induction m arbitrary: expected cnt)
  case (Suc m)
  have m: "m < length shp" "m < length strd" using Suc.prems by auto
  have d: "drop m shp = shp ! m # drop (Suc m) shp" "drop m strd = strd ! m # drop (Suc m) strd"
    using m by (simp_all add: Cons_nth_drop_Suc)
  have dense: "dense (drop m shp) (drop m strd)" if "shp ! m = 1 \<or> strd ! m = expected"
    unfolding d by (rule dense_Cons) (use that Suc.prems in auto)
  have cs: "Suc (length shp - Suc m) = length shp - m" using m by simp
  consider "shp ! m = 1" | "shp ! m \<noteq> 1" "strd ! m = expected" | "shp ! m \<noteq> 1" "strd ! m \<noteq> expected"
    by auto
  then show ?case
  proof cases
    case 1
    with Suc.IH[of expected "cnt + 1"] Suc.prems m d dense cs show ?thesis by simp
  next
    case 2
    have "expected * int (shp ! m) = int (prod_list (drop m shp))"
      unfolding d using Suc.prems by simp
    with 2 Suc.IH[of "expected * int (shp ! m)" "cnt + 1"] Suc.prems m dense cs show ?thesis by simp
  next
    case 3
    with Suc.prems m show ?thesis by (intro exI[of _ cnt]) simp
  qed
qed auto

lemma contiguous_suffix_len_dense:
  assumes "length strd = length shp"
  obtains c where "c \<le> length shp" and "contiguous_suffix_len shp strd = Some c"
    and "dense (drop (length shp - c) shp) (drop (length shp - c) strd)"
  using suffix_loop_dense[of "length shp" shp strd 1 0] assms
  by (auto simp: contiguous_suffix_len_def dense_def)

section \<open>The copying loops\<close>

text \<open>A loop that copies a block of \<open>bs\<close> bytes per position of the odometer.\<close>

lemma length_concat_const:
  "(\<And>k. k < m \<Longrightarrow> length (blk k) = c) \<Longrightarrow> length (concat (map blk [0..<m])) = m * c"
  by (induction m) auto

lemma copy_loop_eq:
  assumes n: "n \<le> length shp" "length strd = length shp" and cnt: "cnt \<le> prod_list (take n shp)"
    and src: "\<And>k. k < cnt \<Longrightarrow> 0 < bs \<Longrightarrow> 0 \<le> base + sdot (unravel (take n shp) k) (take n strd) * int w \<and>
      base + sdot (unravel (take n shp) k) (take n strd) * int w + int bs \<le> int (length src)"
    and dst: "cnt * bs \<le> length dst"
  shows "map_option (\<lambda>(dst, idx, off). dst)
       (foldM (\<lambda>b (dst, idx, off). do {
          dst \<leftarrow> copy_bytes src (base + off * int w) dst (b * bs) bs;
          (idx, off) \<leftarrow> advance idx off shp strd n;
          Some (dst, idx, off) }) [0..<cnt] (dst, replicate n 0, 0)) =
    Some (concat (map (\<lambda>k. take bs (drop (nat (base + sdot (unravel (take n shp) k) (take n strd) * int w)) src))
                [0..<cnt]) @ drop (cnt * bs) dst)"
proof -
  let ?s = "take n shp" and ?t = "take n strd"
  let ?off = "\<lambda>k. sdot (unravel ?s k) ?t"
  let ?blk = "\<lambda>k. take bs (drop (nat (base + ?off k * int w)) src)"
  let ?f = "\<lambda>b (dst, idx, off). do {
          dst \<leftarrow> copy_bytes src (base + off * int w) dst (b * bs) bs;
          (idx, off) \<leftarrow> advance idx off shp strd n;
          Some (dst, idx, off) }"
  let ?I = "\<lambda>k st. st = (concat (map ?blk [0..<k]) @ drop (k * bs) dst,
              unravel ?s (k mod prod_list ?s), ?off (k mod prod_list ?s))"
  have lb: "length (?blk k) = bs" if "k < cnt" for k
    using src[OF that] by (cases "bs = 0") (auto simp: nat_le_iff algebra_simps)
  have "\<exists>st. foldM ?f [0..<cnt] (dst, replicate n 0, 0) = Some st \<and> ?I cnt st"
  proof (rule foldM_upt_rule[where I = ?I])
    show "?I 0 (dst, replicate n 0, 0)" using n by (simp add: unravel_0)
  next
    fix k st assume k: "k < cnt" and "?I k st"
    moreover have kP: "k < prod_list ?s" using k cnt by simp
    ultimately have st: "st = (concat (map ?blk [0..<k]) @ drop (k * bs) dst, unravel ?s k, ?off k)"
      by simp
    have cl: "length (concat (map ?blk [0..<k])) = k * bs" by (rule length_concat_const) (use k lb in simp)
    have "Suc k * bs \<le> cnt * bs" using k by (intro mult_le_mono1) simp
    then have fit: "k * bs + bs \<le> length dst" using dst by simp
    have "copy_bytes src (base + ?off k * int w) (concat (map ?blk [0..<k]) @ drop (k * bs) dst) (k * bs) bs =
        Some (concat (map ?blk [0..<Suc k]) @ drop (Suc k * bs) dst)"
      using src[OF k] cl fit by (cases "bs = 0") (auto simp: copy_bytes_def nat_le_iff algebra_simps)
    with st advance_unravel[OF kP refl, of strd] n
    show "\<exists>st'. ?f k st = Some st' \<and> ?I (Suc k) st'" by (simp add: Let_def)
  qed
  then show ?thesis by auto
qed

section \<open>The tiers copy what the reference says\<close>

lemma concat_chunks: "concat (map (\<lambda>k. take w (drop (b + k * w) xs)) [0..<n]) = take (n * w) (drop b xs)"
proof (induction n)
  case (Suc n)
  have "take (n * w + w) (drop b xs) = take (n * w) (drop b xs) @ take w (drop (n * w) (drop b xs))"
    by (rule take_add)
  with Suc show ?case by (simp add: add.commute)
qed simp

lemma concat_map_blocks:
  "concat (map (\<lambda>b. concat (map (\<lambda>j. f (b * c + j)) [0..<c])) [0..<n]) = concat (map f [0..<n * c])"
proof (induction n)
  case (Suc n)
  have "[0..<Suc n * c] = [0..<n * c] @ [n * c..<n * c + c]"
    by (simp only: mult_Suc add.commute[of c] upt_add_eq_append[OF le0])
  also have "[n * c..<n * c + c] = map (\<lambda>j. j + n * c) [0..<c]" by (simp only: map_add_upt add.commute[of c])
  finally show ?case using Suc
    by (simp only: map_append concat_append map_map comp_def upt_Suc_append[OF le0] list.map concat.simps
        append_Nil2 add.commute[of _ "n * c"])
qed simp

lemma view_elem_bounds:
  assumes "view_inside src base shp strd w" and "k < prod_list shp"
  shows "0 \<le> base + sdot (unravel shp k) strd * int w"
    and "base + sdot (unravel shp k) strd * int w + int w \<le> int (length src)"
  using assms by (auto simp: view_inside_def algebra_simps)

lemma copy_whole:
  assumes d: "dense shp strd" and v: "view_inside src base shp strd w"
    and l: "prod_list shp * w \<le> length dst"
  shows "copy_bytes src base dst 0 (prod_list shp * w) =
    Some (view_bytes src base shp strd w @ drop (prod_list shp * w) dst)"
proof (cases "prod_list shp * w = 0")
  case True
  then show ?thesis by (auto simp: copy_bytes_def view_bytes_def view_elem_def)
next
  case False
  then have P: "0 < prod_list shp" by simp
  have off: "sdot (unravel shp k) strd = int k" if "k < prod_list shp" for k
    using d that by (simp add: dense_def unravel_inside ravel_unravel)
  have b0: "0 \<le> base" using view_elem_bounds(1)[OF v P] off[OF P] by simp
  have "base + int (prod_list shp - 1) * int w + int w \<le> int (length src)"
    using view_elem_bounds(2)[OF v, of "prod_list shp - 1"] off[of "prod_list shp - 1"] P by simp
  moreover have "int (prod_list shp - 1) * int w + int w = int (prod_list shp * w)"
    using P by (simp add: of_nat_diff algebra_simps)
  ultimately have fit: "nat base + prod_list shp * w \<le> length src" using b0 by linarith
  have "view_elem src base shp strd w k = take w (drop (nat base + k * w) src)" if "k < prod_list shp" for k
  proof -
    have "nat (base + int (k * w)) = nat base + k * w" using b0 by linarith
    then show ?thesis using off[OF that] by (simp add: view_elem_def)
  qed
  then have "view_bytes src base shp strd w =
      concat (map (\<lambda>k. take w (drop (nat base + k * w) src)) [0..<prod_list shp])"
    unfolding view_bytes_def by (intro arg_cong[where f = concat]) simp
  also have "\<dots> = take (prod_list shp * w) (drop (nat base) src)" by (rule concat_chunks)
  finally show ?thesis using False fit l b0 by (simp add: copy_bytes_def)
qed

lemma view_elem_block:
  assumes s: "shp = outer @ inner" and t: "strd = so @ si" "length so = length outer"
    and d: "dense inner si" and v: "view_inside src base shp strd w"
    and b: "b < prod_list outer" and P: "0 < prod_list inner"
  defines "p \<equiv> base + sdot (unravel outer b) so * int w"
  shows "0 \<le> p" and "p + int (prod_list inner * w) \<le> int (length src)"
    and "take (prod_list inner * w) (drop (nat p) src) =
      concat (map (\<lambda>j. view_elem src base shp strd w (b * prod_list inner + j)) [0..<prod_list inner])"
proof -
  let ?P = "prod_list inner"
  have off: "sdot (unravel shp (b * ?P + j)) strd = sdot (unravel outer b) so + int j" if "j < ?P" for j
    using that b d t by (simp add: s unravel_append sdot_append dense_def unravel_inside ravel_unravel)
  have k: "b * ?P + j < prod_list shp" if "j < ?P" for j
  proof -
    have "Suc b * ?P \<le> prod_list outer * ?P" using b by (intro mult_le_mono1) simp
    with that show ?thesis by (simp add: s)
  qed
  show p0: "0 \<le> p" using view_elem_bounds(1)[OF v k[OF P]] off[OF P] by (simp add: p_def)
  have "base + (sdot (unravel outer b) so + int (?P - 1)) * int w + int w \<le> int (length src)"
    using view_elem_bounds(2)[OF v k, of "?P - 1"] off[of "?P - 1"] P by simp
  then show "p + int (?P * w) \<le> int (length src)" using P by (simp add: p_def of_nat_diff algebra_simps)
  have "view_elem src base shp strd w (b * ?P + j) = take w (drop (nat p + j * w) src)" if "j < ?P" for j
  proof -
    have "base + (sdot (unravel outer b) so + int j) * int w = p + int (j * w)"
      by (simp add: p_def algebra_simps)
    moreover have "nat (p + int (j * w)) = nat p + j * w" using p0 by linarith
    ultimately show ?thesis using that by (simp only: view_elem_def off)
  qed
  then have "map (\<lambda>j. view_elem src base shp strd w (b * ?P + j)) [0..<?P]
      = map (\<lambda>j. take w (drop (nat p + j * w) src)) [0..<?P]" by simp
  then show "take (?P * w) (drop (nat p) src) =
      concat (map (\<lambda>j. view_elem src base shp strd w (b * ?P + j)) [0..<?P])"
    by (simp only: concat_chunks)
qed

lemma copy_blocks_eq:
  assumes len: "length strd = length shp" and c: "c \<le> length shp"
    and d: "dense (drop (length shp - c) shp) (drop (length shp - c) strd)"
    and v: "view_inside src base shp strd w" and l: "prod_list shp * w \<le> length dst"
    and P: "0 < prod_list (drop (length shp - c) shp)"
  shows "copy_blocks src base dst shp strd w c (prod_list (drop (length shp - c) shp)) =
    Some (view_bytes src base shp strd w @ drop (prod_list shp * w) dst)"
proof -
  let ?n = "length shp - c"
  let ?o = "take ?n shp" and ?i = "drop ?n shp" and ?so = "take ?n strd" and ?si = "drop ?n strd"
  let ?bs = "prod_list ?i * w"
  have s: "shp = ?o @ ?i" "strd = ?so @ ?si" "length ?so = length ?o" using len by simp_all
  note blk = view_elem_block[OF s d v _ P]
  have prod: "prod_list ?o * prod_list ?i = prod_list shp"
    by (metis append_take_drop_id prod_list.append)
  then have fit: "prod_list ?o * ?bs = prod_list shp * w" by (simp add: mult.assoc[symmetric])
  have "copy_blocks src base dst shp strd w c (prod_list ?i) =
      Some (concat (map (\<lambda>k. take ?bs (drop (nat (base + sdot (unravel ?o k) ?so * int w)) src))
        [0..<prod_list ?o]) @ drop (prod_list ?o * ?bs) dst)"
    unfolding copy_blocks_def Let_def
  proof (rule copy_loop_eq)
    show "prod_list ?o * ?bs \<le> length dst" unfolding fit by (rule l)
  qed (use blk(1,2) len in auto)
  also have "concat (map (\<lambda>k. take ?bs (drop (nat (base + sdot (unravel ?o k) ?so * int w)) src))
        [0..<prod_list ?o]) = view_bytes src base shp strd w"
  proof -
    have "concat (map (\<lambda>k. take ?bs (drop (nat (base + sdot (unravel ?o k) ?so * int w)) src)) [0..<prod_list ?o])
      = concat (map (\<lambda>b. concat (map (\<lambda>j. view_elem src base shp strd w (b * prod_list ?i + j)) [0..<prod_list ?i]))
          [0..<prod_list ?o])"
      by (rule arg_cong[where f = concat], rule map_cong[OF refl], rule blk(3)) simp
    also have "\<dots> = view_bytes src base shp strd w"
      unfolding view_bytes_def concat_map_blocks prod ..
    finally show ?thesis .
  qed
  finally show ?thesis by (simp only: fit)
qed

lemma copy_elements_eq:
  assumes len: "length strd = length shp" and v: "view_inside src base shp strd w"
    and l: "prod_list shp * w \<le> length dst"
  shows "copy_elements w src base dst shp strd (prod_list shp) =
    Some (view_bytes src base shp strd w @ drop (prod_list shp * w) dst)"
proof -
  have "copy_elements w src base dst shp strd (prod_list shp) =
    Some (concat (map (\<lambda>k. take w (drop (nat (base + sdot (unravel (take (length shp) shp) k)
        (take (length shp) strd) * int w)) src)) [0..<prod_list shp]) @ drop (prod_list shp * w) dst)"
    unfolding copy_elements_def Let_def
    by (rule copy_loop_eq) (use view_elem_bounds[OF v] len l in auto)
  then show ?thesis using len by (simp add: view_bytes_def view_elem_def[abs_def])
qed

lemma copy_strided_impl_eq:
  assumes len: "length strd = length shp" and v: "view_inside src base shp strd w"
    and l: "prod_list shp * w \<le> length dst"
  shows "copy_strided_impl src base dst shp strd w =
    Some (view_bytes src base shp strd w @ drop (prod_list shp * w) dst)"
proof -
  have bytes: "copy_elements_bytes src base dst shp strd (prod_list shp) w =
      copy_elements w src base dst shp strd (prod_list shp)"
    by (simp add: copy_elements_bytes_def copy_elements_def)
  from contiguous_suffix_len_dense[OF len] obtain c where
    c: "c \<le> length shp" "contiguous_suffix_len shp strd = Some c"
      "dense (drop (length shp - c) shp) (drop (length shp - c) strd)" .
  show ?thesis
  proof (cases "c = length shp")
    case True
    with c copy_whole[OF _ v l] show ?thesis by (simp add: copy_strided_impl_def)
  next
    case False
    with c bytes copy_elements_eq[OF assms] copy_blocks_eq[OF len c(1,3) v l] show ?thesis
      by (auto simp: copy_strided_impl_def Let_def)
  qed
qed

text \<open>
  C26. The tiered copy is the element-by-element copy. For every view whose elements lie inside the
  source buffer (any strides, negative and zero ones included) and every destination with room for
  them, whichever tier the code takes, \<open>copy_strided\<close> returns the elements of the view in row-major
  order at the start of the destination, leaves the rest of it alone, and reads and writes nothing
  outside the buffers. A view without axes is the exception: nothing is copied.
\<close>

theorem copy_strided_correct:
  assumes "length strd = length shp" and "view_inside src (int boff) shp strd w"
    and "prod_list shp * w \<le> length dst"
  shows "copy_strided (Some src) boff (Some dst) shp strd w =
    Some (Some (if shp = [] then dst
                else view_bytes src (int boff) shp strd w @ drop (prod_list shp * w) dst))"
  using copy_strided_impl_eq[OF assms] by (auto simp: copy_strided_def view_bytes_def)

lemma copy_strided_correct_witness:
  "copy_strided (Some [0, 1, 2, 3, 4, 5 :: nat]) 4 (Some [9, 9, 9, 9, 9, 9, 9]) [2, 3] [1, -2] 1 =
     Some (Some [4, 2, 0, 5, 3, 1, 9])"
proof -
  have "view_inside [0, 1, 2, 3, 4, 5 :: nat] (int 4) [2, 3] [1, -2] 1"
    unfolding view_inside_def by code_simp
  from copy_strided_correct[OF _ this, of "[9, 9, 9, 9, 9, 9, 9]"] show ?thesis
    by (rule trans) code_simp+
qed

end
