(* ===== verification/Tensors.thy ===== *)
theory Tensors
  imports Strided_Copy Layout_Views DTypes
begin

text \<open>
  Tensors of the CPU backend (\<open>src/tensor/core.rs\<close>): an element type, a layout and a storage buffer,
  here the list of its bytes. A pointer to the tensor's data is that list with a byte offset. The
  allocator is a parameter \<open>alloc\<close>: for a number of bytes it returns a fresh buffer, whose content is
  whatever it was (\<open>Tensor::empty\<close> does not initialise it), or \<open>None\<close> when the memory is exhausted.

  An operation returns \<open>None\<close> when the code panics or touches memory outside its buffers, \<open>Some (Inl e)\<close>
  for an error and \<open>Some (Inr x)\<close> for a result.
\<close>

section \<open>Errors\<close>

text \<open>The variants of \<open>Error\<close> that these operations return; the text of a reason is left out.\<close>

datatype tensor_error =
    InvalidArgument string
  | InvalidDimension int nat
  | DTypeMismatch dtype dtype
  | ShapeMismatch "usize list" "usize list"
  | AllocFailed "usize list" dtype
  | OutOfMemory usize
  | NotContiguous
  | UnsupportedDType dtype string
  | IndexOutOfBounds nat nat
  | Internal string

type_synonym 'a res = "(tensor_error + 'a) option"

fun bindR :: "'a res \<Rightarrow> ('a \<Rightarrow> 'b res) \<Rightarrow> 'b res" where
  "bindR None f = None"
| "bindR (Some (Inl e)) f = Some (Inl e)"
| "bindR (Some (Inr x)) f = f x"

fun foldR :: "('a \<Rightarrow> 's \<Rightarrow> 's res) \<Rightarrow> 'a list \<Rightarrow> 's \<Rightarrow> 's res" where
  "foldR f [] s = Some (Inr s)"
| "foldR f (x # xs) s = bindR (f x s) (foldR f xs)"

lemma bindR_right: "bindR m (\<lambda>x. Some (Inr x)) = m"
proof (cases m)
  case (Some r)
  then show ?thesis by (cases r) auto
qed simp

lemma bindR_assoc: "bindR (bindR m f) g = bindR m (\<lambda>x. bindR (f x) g)"
proof (cases m)
  case (Some r)
  then show ?thesis by (cases r) auto
qed simp

lemma foldR_snoc: "foldR f (xs @ [x]) s = bindR (foldR f xs s) (f x)"
proof (induction xs arbitrary: s)
  case Nil
  have "foldR f [] = (\<lambda>s. Some (Inr s))" by (rule ext) simp
  then show ?case by (simp add: bindR_right)
next
  case (Cons y ys)
  then have "foldR f (ys @ [x]) = (\<lambda>s. bindR (foldR f ys s) (f x))" by (rule_tac ext)
  then show ?case by (simp add: bindR_assoc)
qed

definition ok_or :: "tensor_error \<Rightarrow> 'a option \<Rightarrow> tensor_error + 'a" where
  "ok_or e x = (case x of None \<Rightarrow> Inl e | Some y \<Rightarrow> Inr y)"

lemma ok_or_simps [simp]: "ok_or e (Some y) = Inr y" "ok_or e None = Inl e"
  "ok_or e x = Inr y \<longleftrightarrow> x = Some y"
  by (auto simp: ok_or_def split: option.splits)

section \<open>Tensors\<close>

record 'b tensor =
  t_dtype :: dtype
  t_layout :: layout
  t_buf :: "'b list"

type_synonym 'b alloc = "nat \<Rightarrow> 'b list option"

definition t_shape :: "'b tensor \<Rightarrow> usize list" where
  "t_shape t = shape (t_layout t)"

definition t_ndim :: "'b tensor \<Rightarrow> nat" where
  "t_ndim t = layout_ndim (t_layout t)"

definition elem_size :: "'b tensor \<Rightarrow> nat" where
  "elem_size t = size_in_bytes (t_dtype t)"

text \<open>\<open>Storage::new\<close>: \<open>dtype.storage_bytes(len)\<close> bytes; none of the element types is quantized.\<close>

definition storage_new :: "'b alloc \<Rightarrow> usize \<Rightarrow> dtype \<Rightarrow> tensor_error + 'b list" where
  "storage_new alloc len dt =
     (let size_bytes = len * of_nat (size_in_bytes dt)
      in ok_or (OutOfMemory size_bytes) (alloc (unat size_bytes)))"

definition tensor_empty :: "'b alloc \<Rightarrow> usize list \<Rightarrow> dtype \<Rightarrow> tensor_error + 'b tensor" where
  "tensor_empty alloc shp dt =
     (case storage_new alloc (prod_list shp) dt of
        Inl e \<Rightarrow> Inl (AllocFailed shp dt)
      | Inr b \<Rightarrow> Inr \<lparr>t_dtype = dt, t_layout = layout_contiguous shp, t_buf = b\<rparr>)"

text \<open>The byte offset of \<open>ptr()\<close> in the storage buffer.\<close>

definition ptr_offset :: "'b tensor \<Rightarrow> usize" where
  "ptr_offset t = offset (t_layout t) * of_nat (elem_size t)"

definition tensor_contiguous :: "'b alloc \<Rightarrow> 'b tensor \<Rightarrow> 'b tensor res" where
  "tensor_contiguous alloc t =
     (if layout_is_contiguous (t_layout t) \<and> offset (t_layout t) = 0 then Some (Inr t)
      else bindR (Some (storage_new alloc (prod_list (t_shape t)) (t_dtype t))) (\<lambda>b.
        map_option (\<lambda>b'. Inr \<lparr>t_dtype = t_dtype t, t_layout = layout_contiguous (t_shape t), t_buf = the b'\<rparr>)
          (copy_strided (Some (t_buf t)) (unat (ptr_offset t)) (Some b)
             (map unat (t_shape t)) (map sint (strides (t_layout t))) (elem_size t))))"

text \<open>\<open>ensure_contiguous\<close> of \<open>src/runtime/common/helpers.rs\<close>.\<close>

definition ensure_contiguous :: "'b alloc \<Rightarrow> 'b tensor \<Rightarrow> 'b tensor res" where
  "ensure_contiguous alloc t =
     (if layout_is_contiguous (t_layout t) then Some (Inr t) else tensor_contiguous alloc t)"

text \<open>The zero-copy views: the storage is shared.\<close>

definition with_layout :: "'b tensor \<Rightarrow> layout \<Rightarrow> 'b tensor" where
  "with_layout t l = \<lparr>t_dtype = t_dtype t, t_layout = l, t_buf = t_buf t\<rparr>"

definition tensor_transpose :: "'b tensor \<Rightarrow> int \<Rightarrow> int \<Rightarrow> tensor_error + 'b tensor" where
  "tensor_transpose t axis0 axis1 =
     map_sum id (with_layout t)
       (ok_or (InvalidDimension axis0 (t_ndim t)) (layout_transpose (t_layout t) axis0 axis1))"

definition tensor_reshape :: "'b tensor \<Rightarrow> usize list \<Rightarrow> tensor_error + 'b tensor" where
  "tensor_reshape t shp = map_sum id (with_layout t) (ok_or NotContiguous (layout_reshape (t_layout t) shp))"

definition tensor_flatten :: "'b tensor \<Rightarrow> tensor_error + 'b tensor" where
  "tensor_flatten t = tensor_reshape t [layout_elem_count (t_layout t)]"

definition tensor_squeeze :: "'b tensor \<Rightarrow> int option \<Rightarrow> 'b tensor" where
  "tensor_squeeze t axis = with_layout t (layout_squeeze (t_layout t) axis)"

definition tensor_unsqueeze :: "'b tensor \<Rightarrow> int \<Rightarrow> tensor_error + 'b tensor" where
  "tensor_unsqueeze t axis =
     map_sum id (with_layout t)
       (ok_or (InvalidDimension axis (t_ndim t)) (layout_unsqueeze (t_layout t) axis))"

definition tensor_narrow :: "'b tensor \<Rightarrow> int \<Rightarrow> usize \<Rightarrow> usize \<Rightarrow> tensor_error + 'b tensor" where
  "tensor_narrow t axis start len =
     (case layout_normalize_dim (t_layout t) axis of
        None \<Rightarrow> Inl (InvalidDimension axis (t_ndim t))
      | Some dim_idx \<Rightarrow>
          map_sum id (with_layout t)
            (ok_or (ShapeMismatch [t_shape t ! dim_idx] [start, len])
               (layout_narrow (t_layout t) dim_idx start len)))"

section \<open>What a tensor holds\<close>

text \<open>The shape and the strides as numbers, and the bytes of the element at a tuple of indices.\<close>

definition dims :: "'b tensor \<Rightarrow> nat list" where
  "dims t = map unat (t_shape t)"

definition t_strides :: "'b tensor \<Rightarrow> int list" where
  "t_strides t = map sint (strides (t_layout t))"

definition byte_offset :: "'b tensor \<Rightarrow> nat" where
  "byte_offset t = unat (offset (t_layout t)) * elem_size t"

definition elem :: "'b tensor \<Rightarrow> nat list \<Rightarrow> 'b list" where
  "elem t idx =
     take (elem_size t) (drop (nat (int (byte_offset t) + sdot idx (t_strides t) * int (elem_size t))) (t_buf t))"

definition wf_tensor :: "'b tensor \<Rightarrow> bool" where
  "wf_tensor t \<longleftrightarrow> wf_layout (t_layout t) \<and> prod_list (dims t) * elem_size t < 2 ^ 63 \<and>
     byte_offset t < 2 ^ 63 \<and> length (t_buf t) < 2 ^ 63 \<and>
     view_inside (t_buf t) (int (byte_offset t)) (dims t) (t_strides t) (elem_size t)"

lemma wf_tensorD:
  assumes "wf_tensor t"
  shows "wf_layout (t_layout t)" "prod_list (dims t) * elem_size t < 2 ^ 63" "byte_offset t < 2 ^ 63"
    "length (t_buf t) < 2 ^ 63"
    "view_inside (t_buf t) (int (byte_offset t)) (dims t) (t_strides t) (elem_size t)"
  using assms by (simp_all add: wf_tensor_def)

lemma elem_size_pos [simp]: "0 < elem_size t"
  by (simp add: elem_size_def size_in_bytes_def split: dtype.split)

lemma length_dims [simp]: "length (dims t) = length (t_shape t)"
  by (simp add: dims_def)

lemma length_strides: "wf_tensor t \<Longrightarrow> length (t_strides t) = length (dims t)"
  by (simp add: t_strides_def wf_tensor_def wf_layout_def t_shape_def)

lemma elem_unravel:
  "elem t (unravel (dims t) k) = view_elem (t_buf t) (int (byte_offset t)) (dims t) (t_strides t) (elem_size t) k"
  by (simp add: elem_def view_elem_def)

text \<open>The bytes of a tensor in row-major order of its elements.\<close>

definition contents :: "'b tensor \<Rightarrow> 'b list" where
  "contents t = view_bytes (t_buf t) (int (byte_offset t)) (dims t) (t_strides t) (elem_size t)"

lemma contents_elems: "contents t = concat (map (\<lambda>k. elem t (unravel (dims t) k)) [0..<prod_list (dims t)])"
  by (simp add: contents_def view_bytes_def elem_unravel)

lemma length_elem_unravel:
  assumes "wf_tensor t" and "k < prod_list (dims t)"
  shows "length (elem t (unravel (dims t) k)) = elem_size t"
  using view_elem_bounds[OF wf_tensorD(5)[OF assms(1)] assms(2)]
  by (simp add: elem_def nat_le_iff)

lemma length_elem: "wf_tensor t \<Longrightarrow> inside idx (dims t) \<Longrightarrow> length (elem t idx) = elem_size t"
  using length_elem_unravel[of t "ravel (dims t) idx"] by (simp add: ravel_less unravel_ravel)

lemma length_contents: "wf_tensor t \<Longrightarrow> length (contents t) = prod_list (dims t) * elem_size t"
  unfolding contents_elems by (rule length_concat_const) (rule length_elem_unravel)

lemma nth_contents:
  assumes "wf_tensor t" and "inside idx (dims t)" and "x < elem_size t"
  shows "contents t ! (ravel (dims t) idx * elem_size t + x) = elem t idx ! x"
  unfolding contents_elems
  by (subst nth_concat_blocks) (use assms length_elem_unravel in \<open>auto simp: ravel_less unravel_ravel\<close>)

section \<open>Contiguous tensors\<close>

definition alloc_ok :: "'b alloc \<Rightarrow> bool" where
  "alloc_ok alloc \<longleftrightarrow> (\<forall>n b. alloc n = Some b \<longrightarrow> length b = n)"

lemma unat_lt2p: "unat (x :: usize) < 2 ^ 64"
  using unsigned_less[of x, where 'a = nat] by simp

lemma unat_prod_dims:
  assumes "prod_list (map unat shp) < 2 ^ 64"
  shows "unat (prod_list shp :: usize) = prod_list (map unat shp)"
proof (cases "0 \<in> set shp")
  case True
  then have "prod_list shp = 0" by (induction shp) auto
  moreover have "prod_list (map unat shp) = 0" using True by (induction shp) auto
  ultimately show ?thesis by simp
next
  case False
  with assms unat_prod_list[of shp] show ?thesis by (simp add: elems_def)
qed

lemma sint_eq_unat: "unat (x :: usize) < 2 ^ 63 \<Longrightarrow> sint x = int (unat x)"
proof -
  assume "unat x < 2 ^ 63"
  then have "int (unat x) < int (2 ^ 63)" by (simp only: of_nat_less_iff)
  moreover have "0 \<le> int (unat x)" by simp
  ultimately have "fits_isize (int (unat x))" by (simp add: fits_isize_def del: of_nat_unat)
  from sint_of_int_exact[OF this] show ?thesis by simp
qed

lemma dense_contiguous:
  assumes "layout_is_contiguous l" and wf: "wf_layout l" and small: "prod_list (map unat (shape l)) < 2 ^ 63"
  shows "dense (map unat (shape l)) (map sint (strides l))"
  unfolding dense_def
proof (intro allI impI)
  fix idx assume idx: "inside idx (map unat (shape l))"
  have gen: "length ss = length shp \<Longrightarrow> prod_list (map unat shp) < 2 ^ 63 \<Longrightarrow>
      list_all (\<lambda>(s, a, e). s = 1 \<or> a = e) (zip shp (zip ss (compute_contiguous_strides shp))) \<Longrightarrow>
      inside idx (map unat shp) \<Longrightarrow> sdot idx (map sint ss) = int (ravel (map unat shp) idx)"
    for shp ss :: "usize list" and idx
  proof (induction shp arbitrary: ss idx)
    case (Cons d ds)
    then obtain i js s rest where ij: "idx = i # js" "ss = s # rest" by (cases idx; cases ss) auto
    with Cons.prems have i: "i < unat d" and js: "inside js (map unat ds)" by auto
    have "prod_list (map unat ds) \<le> unat d * prod_list (map unat ds)" using i by simp
    then have lt: "prod_list (map unat ds) < 2 ^ 63"
      by (rule le_less_trans) (use Cons.prems(2) in simp)
    have IH: "sdot js (map sint rest) = int (ravel (map unat ds) js)"
      using Cons.IH[of rest js] Cons.prems lt js ij by simp
    from Cons.prems(3) ij consider "d = 1" | "s = prod_list ds" by auto
    then have "int i * sint s = int (i * prod_list (map unat ds))"
    proof cases
      case 1
      with i show ?thesis by simp
    next
      case 2
      have "unat (prod_list ds) = prod_list (map unat ds)" using lt by (intro unat_prod_dims) simp
      with 2 lt show ?thesis by (simp add: sint_eq_unat)
    qed
    with IH ij show ?case by simp
  qed simp
  show "sdot idx (map sint (strides l)) = int (ravel (map unat (shape l)) idx)"
  proof (rule gen)
    show "length (strides l) = length (shape l)" using wf by (simp add: wf_layout_def)
    show "list_all (\<lambda>(s, a, e). s = 1 \<or> a = e)
        (zip (shape l) (zip (strides l) (compute_contiguous_strides (shape l))))"
      using assms(1) by (auto simp: layout_is_contiguous_def layout_is_scalar_def Let_def list_all_iff
          zip_same_conv_map in_set_zip split: if_splits)
  qed (use small idx in auto)
qed

lemma wf_tensor_small: "wf_tensor t \<Longrightarrow> prod_list (dims t) < 2 ^ 63"
  using wf_tensorD(2)[of t] elem_size_pos[of t]
  by (cases "elem_size t") (auto intro: le_less_trans[OF _ wf_tensorD(2)])

lemma contents_contiguous:
  assumes wf: "wf_tensor t" and "layout_is_contiguous (t_layout t)"
  shows "contents t = take (prod_list (dims t) * elem_size t) (drop (byte_offset t) (t_buf t))"
    and "0 < prod_list (dims t) \<Longrightarrow> byte_offset t + prod_list (dims t) * elem_size t \<le> length (t_buf t)"
proof -
  let ?n = "prod_list (dims t)" and ?w = "elem_size t"
  have d: "dense (dims t) (t_strides t)"
    unfolding dims_def t_strides_def t_shape_def
    by (rule dense_contiguous) (use assms wf_tensor_small[OF wf] in \<open>auto simp: wf_tensor_def dims_def t_shape_def\<close>)
  have off: "sdot (unravel (dims t) k) (t_strides t) = int k" if "k < ?n" for k
    using d that by (simp add: dense_def unravel_inside ravel_unravel)
  have "elem t (unravel (dims t) k) = take ?w (drop (byte_offset t + k * ?w) (t_buf t))" if "k < ?n" for k
  proof -
    have "int (byte_offset t) + int k * int ?w = int (byte_offset t + k * ?w)" by simp
    then show ?thesis unfolding elem_def off[OF that] by (simp only: nat_int)
  qed
  then have "contents t = concat (map (\<lambda>k. take ?w (drop (byte_offset t + k * ?w) (t_buf t))) [0..<?n])"
    by (auto simp: contents_elems intro!: arg_cong[where f = concat])
  then show "contents t = take (?n * ?w) (drop (byte_offset t) (t_buf t))" by (simp only: concat_chunks)
  assume "0 < ?n"
  with view_elem_bounds(2)[OF wf_tensorD(5)[OF wf], of "?n - 1"] off[of "?n - 1"]
  have "int (byte_offset t) + int (?n - 1) * int ?w + int ?w \<le> int (length (t_buf t))" by simp
  moreover have "int (?n - 1) * int ?w + int ?w = int (?n * ?w)" using \<open>0 < ?n\<close>
    by (simp add: of_nat_diff algebra_simps)
  ultimately show "byte_offset t + ?n * ?w \<le> length (t_buf t)" by linarith
qed

text \<open>A row-major tensor over a buffer of exactly its elements.\<close>

lemma contiguous_is_contiguous [simp]: "layout_is_contiguous (layout_contiguous shp)"
  by (simp add: layout_is_contiguous_def layout_contiguous_def Let_def)

lemma tensor_of_bytes:
  assumes len: "length b = prod_list (map unat shp) * size_in_bytes dt"
    and small: "prod_list (map unat shp) * size_in_bytes dt < 2 ^ 63"
    and t: "t = \<lparr>t_dtype = dt, t_layout = layout_contiguous shp, t_buf = b\<rparr>"
  shows "wf_tensor t" and "contents t = b"
proof -
  let ?n = "prod_list (map unat shp)" and ?w = "size_in_bytes dt"
  have pos: "0 < ?w" using elem_size_pos[of t] by (simp add: t elem_size_def)
  then have "?n \<le> ?n * ?w" by simp
  then have n: "?n < 2 ^ 63" using small by (rule le_less_trans)
  have d: "dense (map unat shp) (map sint (compute_contiguous_strides shp))"
    using dense_contiguous[OF contiguous_is_contiguous, of shp] n by (simp add: layout_contiguous_def wf_layout_def)
  have "0 \<le> sdot (unravel (map unat shp) k) (map sint (compute_contiguous_strides shp)) * int ?w \<and>
      (sdot (unravel (map unat shp) k) (map sint (compute_contiguous_strides shp)) + 1) * int ?w \<le> int (length b)"
    if k: "k < ?n" for k
  proof -
    have "sdot (unravel (map unat shp) k) (map sint (compute_contiguous_strides shp)) = int k"
      using d k by (simp add: dense_def unravel_inside ravel_unravel)
    moreover have "Suc k * ?w \<le> ?n * ?w" using k by (intro mult_le_mono1) simp
    then have "int (Suc k * ?w) \<le> int (length b)" unfolding len by (simp only: of_nat_le_iff)
    then have "(int k + 1) * int ?w \<le> int (length b)" by (simp add: algebra_simps)
    ultimately show ?thesis by simp
  qed
  with len small show wf: "wf_tensor t"
    by (simp add: wf_tensor_def t elem_size_def dims_def t_shape_def byte_offset_def t_strides_def
        layout_contiguous_def wf_layout_def view_inside_def)
  have "layout_is_contiguous (t_layout t)" by (simp only: t tensor.simps contiguous_is_contiguous)
  from contents_contiguous(1)[OF wf this] len show "contents t = b"
    by (simp add: t elem_size_def dims_def t_shape_def byte_offset_def layout_contiguous_def)
qed

lemma elem_eqI:
  assumes "wf_tensor s" and "wf_tensor t" and "dims s = dims t" and "elem_size s = elem_size t"
    and "contents s = contents t" and "inside idx (dims t)"
  shows "elem s idx = elem t idx"
proof (rule nth_equalityI)
  show "length (elem s idx) = length (elem t idx)" using assms by (simp add: length_elem)
  fix x assume "x < length (elem s idx)"
  then have "x < elem_size t" using assms by (simp add: length_elem)
  with nth_contents[of s idx x] nth_contents[of t idx x] assms show "elem s idx ! x = elem t idx ! x" by simp
qed

section \<open>Making a tensor contiguous\<close>

text \<open>A tensor with the same elements in row-major storage.\<close>

definition same_elems :: "'b tensor \<Rightarrow> 'b tensor \<Rightarrow> bool" where
  "same_elems t c \<longleftrightarrow> wf_tensor c \<and> t_shape c = t_shape t \<and> t_dtype c = t_dtype t \<and> contents c = contents t"

lemma same_elemsD:
  assumes "same_elems t c"
  shows "wf_tensor c" "t_shape c = t_shape t" "t_dtype c = t_dtype t" "contents c = contents t"
    "dims c = dims t" "elem_size c = elem_size t"
  using assms by (simp_all add: same_elems_def dims_def elem_size_def)

lemma numel_bytes:
  assumes "prod_list (map unat shp) * size_in_bytes dt < 2 ^ 63"
  shows "unat (prod_list shp * of_nat (size_in_bytes dt) :: usize) = prod_list (map unat shp) * size_in_bytes dt"
proof -
  have w: "0 < size_in_bytes dt" "size_in_bytes dt \<le> 16" by (cases dt; simp add: size_in_bytes_def)+
  then have "prod_list (map unat shp) \<le> prod_list (map unat shp) * size_in_bytes dt" by simp
  then have "prod_list (map unat shp) < 2 ^ 63" using assms by (rule le_less_trans)
  then have n: "prod_list (map unat shp) < 2 ^ 64" by (rule less_trans) simp
  have "unat (of_nat (size_in_bytes dt) :: usize) = size_in_bytes dt" using w by (simp add: unat_of_nat)
  with assms unat_prod_dims[OF n] show ?thesis by (simp add: unat_word_ariths)
qed

lemma unat_ptr_offset: "wf_tensor t \<Longrightarrow> unat (ptr_offset t) = byte_offset t"
proof -
  assume wf: "wf_tensor t"
  have w: "elem_size t \<le> 16" by (simp add: elem_size_def size_in_bytes_def split: dtype.split)
  then have "unat (of_nat (elem_size t) :: usize) = elem_size t" by (simp add: unat_of_nat)
  with wf_tensorD(3)[OF wf] show ?thesis by (simp add: ptr_offset_def byte_offset_def unat_word_ariths)
qed

lemma storage_new_eq:
  assumes "prod_list (map unat shp) * size_in_bytes dt < 2 ^ 63"
  shows "storage_new alloc (prod_list shp) dt =
    ok_or (OutOfMemory (prod_list shp * of_nat (size_in_bytes dt)))
      (alloc (prod_list (map unat shp) * size_in_bytes dt))"
  by (simp add: storage_new_def Let_def numel_bytes[OF assms])

lemma tensor_contiguous_copies:
  assumes wf: "wf_tensor t" and ok: "alloc_ok alloc" and shp: "t_shape t \<noteq> []"
    and b: "alloc (prod_list (dims t) * elem_size t) = Some b"
  shows "\<exists>c. tensor_contiguous alloc t = Some (Inr c) \<and> same_elems t c \<and> layout_is_contiguous (t_layout c)"
proof (cases "layout_is_contiguous (t_layout t) \<and> offset (t_layout t) = 0")
  case True
  then show ?thesis using wf by (simp add: tensor_contiguous_def same_elems_def)
next
  case False
  have len: "length b = prod_list (dims t) * elem_size t" using ok b by (simp add: alloc_ok_def)
  have "copy_strided (Some (t_buf t)) (byte_offset t) (Some b) (dims t) (t_strides t) (elem_size t) =
      Some (Some (contents t))"
    using copy_strided_impl_eq[OF length_strides[OF wf] wf_tensorD(5)[OF wf], of b] len shp
    by (auto simp: copy_strided_def contents_def view_bytes_def dims_def)
  moreover have "storage_new alloc (prod_list (t_shape t)) (t_dtype t) = Inr b"
    using storage_new_eq[of "t_shape t" "t_dtype t" alloc] wf_tensorD(2)[OF wf] b
    by (simp add: dims_def elem_size_def)
  moreover define c where
    "c = \<lparr>t_dtype = t_dtype t, t_layout = layout_contiguous (t_shape t), t_buf = contents t\<rparr>"
  ultimately have run: "tensor_contiguous alloc t = Some (Inr c)"
    by (simp add: tensor_contiguous_def if_not_P[OF False] unat_ptr_offset[OF wf] dims_def t_strides_def)
  have "wf_tensor c" "contents c = contents t"
    using tensor_of_bytes[OF _ _ c_def] length_contents[OF wf] wf_tensorD(2)[OF wf]
    by (simp_all add: dims_def elem_size_def)
  moreover have "layout_is_contiguous (t_layout c)"
    by (simp only: c_def tensor.simps contiguous_is_contiguous)
  ultimately show ?thesis using run
    by (simp add: same_elems_def c_def t_shape_def layout_contiguous_def)
qed

lemma ensure_contiguous_cases:
  assumes wf: "wf_tensor t" and ok: "alloc_ok alloc"
  shows "ensure_contiguous alloc t =
      Some (Inl (OutOfMemory (prod_list (t_shape t) * of_nat (elem_size t)))) \<and>
      \<not> layout_is_contiguous (t_layout t) \<and> alloc (prod_list (dims t) * elem_size t) = None \<or>
    (\<exists>c. ensure_contiguous alloc t = Some (Inr c) \<and> same_elems t c \<and> layout_is_contiguous (t_layout c))"
proof (cases "layout_is_contiguous (t_layout t)")
  case True
  then show ?thesis using wf by (simp add: ensure_contiguous_def same_elems_def)
next
  case False
  then have "t_shape t \<noteq> []" by (auto simp: layout_is_contiguous_def layout_is_scalar_def t_shape_def)
  note copies = tensor_contiguous_copies[OF wf ok this]
  show ?thesis
  proof (cases "alloc (prod_list (dims t) * elem_size t)")
    case None
    with False storage_new_eq[of "t_shape t" "t_dtype t" alloc] wf_tensorD(2)[OF wf] show ?thesis
      by (simp add: ensure_contiguous_def tensor_contiguous_def dims_def elem_size_def)
  next
    case (Some b)
    with False copies[OF this] show ?thesis by (simp add: ensure_contiguous_def)
  qed
qed

text \<open>
  C27. \<open>contiguous\<close> keeps the elements, except for a scalar view. For every tensor with at least one
  axis whose elements lie in its storage, \<open>contiguous()\<close> gives a row-major tensor of the same shape and
  element type with the same bytes in row-major order, or reports that the allocation failed. For a
  view without axes at a non-zero offset (an element selected by \<open>narrow\<close> and \<open>squeeze\<close>) it returns
  the new buffer as the allocator gave it, whatever that was: the value is lost.
\<close>

theorem contiguous_keeps_elements:
  assumes "wf_tensor t" and "alloc_ok alloc" and "alloc (prod_list (dims t) * elem_size t) = Some b"
  shows "if t_shape t = [] \<and> offset (t_layout t) \<noteq> 0
    then map_option (map_sum id t_buf) (tensor_contiguous alloc t) = Some (Inr b)
    else \<exists>c. tensor_contiguous alloc t = Some (Inr c) \<and> same_elems t c \<and> layout_is_contiguous (t_layout c)"
proof (cases "t_shape t = [] \<and> offset (t_layout t) \<noteq> 0")
  case True
  with assms(3) storage_new_eq[of "t_shape t" "t_dtype t" alloc] wf_tensorD(2)[OF assms(1)] show ?thesis
    by (simp add: tensor_contiguous_def copy_strided_def dims_def elem_size_def)
next
  case False
  show ?thesis
  proof (cases "t_shape t = []")
    case True
    with False assms(1) show ?thesis
      by (auto simp: tensor_contiguous_def same_elems_def layout_is_contiguous_def layout_is_scalar_def t_shape_def)
  next
    case nonempty: False
    with tensor_contiguous_copies[OF assms(1,2) nonempty assms(3)] show ?thesis by simp
  qed
qed

lemma contiguous_keeps_elements_witness:
  "\<exists>c. tensor_contiguous (\<lambda>n. Some (replicate n 0))
       \<lparr>t_dtype = U8, t_layout = \<lparr>shape = [2, 2], strides = [1, 2], offset = 1\<rparr>, t_buf = [9, 1, 2, 3, 4 :: nat]\<rparr>
       = Some (Inr c) \<and> t_buf c = [1, 3, 2, 4]"
proof -
  let ?t = "\<lparr>t_dtype = U8, t_layout = \<lparr>shape = [2, 2], strides = [1, 2], offset = 1\<rparr>, t_buf = [9, 1, 2, 3, 4 :: nat]\<rparr>"
  have v: "view_inside (t_buf ?t) (int (byte_offset ?t)) (dims ?t) (t_strides ?t) (elem_size ?t)"
    unfolding view_inside_def by code_simp
  have "dims ?t = [2, 2]" "byte_offset ?t = 1" "elem_size ?t = 1" by code_simp+
  with v have wf: "wf_tensor ?t" by (simp add: wf_tensor_def wf_layout_def)
  have ok: "alloc_ok (\<lambda>n. Some (replicate n (0 :: nat)))" by (simp add: alloc_ok_def)
  from contiguous_keeps_elements[OF wf ok refl] obtain c where
    c: "tensor_contiguous (\<lambda>n. Some (replicate n 0)) ?t = Some (Inr c)" "same_elems ?t c"
    by (auto simp: t_shape_def split: if_splits)
  have "tensor_contiguous (\<lambda>n. Some (replicate n 0)) ?t =
      Some (Inr \<lparr>t_dtype = U8, t_layout = layout_contiguous [2, 2], t_buf = [1, 3, 2, 4]\<rparr>)" by code_simp
  with c(1) show ?thesis by auto
qed

end
