(* ===== verification/Shape_Ops.thy ===== *)
theory Shape_Ops
  imports Tensors Layout_Safety
begin

text \<open>
  The shape operations of the CPU backend: the validation all backends share and the zero-copy
  \<open>split\<close> and \<open>chunk\<close> (\<open>src/runtime/common/shape_ops.rs\<close>), and concatenation and stacking by byte
  copies (\<open>src/runtime/cpu/helpers/shape.rs\<close>). A dimension argument is an \<open>isize\<close>, here \<open>int\<close>. Sizes
  of shapes are \<open>usize\<close> words, as in the layouts; offsets into buffers are \<open>nat\<close>.
\<close>

section \<open>Dimension arguments\<close>

definition normalize_dim :: "int \<Rightarrow> nat \<Rightarrow> nat option" where
  "normalize_dim d ndim =
     (if ndim = 0 then None
      else if d < 0 \<and> int ndim + d < 0 then None
      else let idx = (if d < 0 then nat (int ndim + d) else nat d)
           in if idx < ndim then Some idx else None)"

definition normalize_stack_dim :: "int \<Rightarrow> nat \<Rightarrow> nat option" where
  "normalize_stack_dim d ndim =
     (let new_ndim = ndim + 1
      in if d < 0
         then let adjusted = int new_ndim + d
              in if adjusted < 0 \<or> int new_ndim \<le> adjusted then None else Some (nat adjusted)
         else let idx = nat d in if idx \<le> ndim then Some idx else None)"

section \<open>Concatenation and stacking\<close>

record cat_params =
  cp_dim_idx :: nat
  cp_dtype :: dtype
  cp_cat_dim_total :: usize
  cp_out_shape :: "usize list"
  cp_outer_size :: usize
  cp_inner_size :: usize

text \<open>One round of the loop over \<open>tensors[1..]\<close>.\<close>

definition cat_check :: "'b tensor \<Rightarrow> nat \<Rightarrow> 'b tensor \<Rightarrow> usize \<Rightarrow> tensor_error + usize" where
  "cat_check first dim_idx t cat_dim_total =
     (if t_dtype t \<noteq> t_dtype first then Inl (DTypeMismatch (t_dtype first) (t_dtype t))
      else if t_ndim t \<noteq> t_ndim first then Inl (ShapeMismatch (t_shape first) (t_shape t))
      else if list_ex (\<lambda>(i, a, b). i \<noteq> dim_idx \<and> a \<noteq> b)
                (zip [0..<t_ndim first] (zip (t_shape first) (t_shape t)))
      then Inl (ShapeMismatch (t_shape first) (t_shape t))
      else Inr (cat_dim_total + t_shape t ! dim_idx))"

definition validate_cat :: "'b tensor list \<Rightarrow> int \<Rightarrow> tensor_error + cat_params" where
  "validate_cat tensors d =
     (case tensors of
        [] \<Rightarrow> Inl (InvalidArgument ''tensors'')
      | first # rest \<Rightarrow>
          let ndim = t_ndim first
          in if ndim = 0 then Inl (InvalidArgument ''tensors'')
             else (case normalize_dim d ndim of
                     None \<Rightarrow> Inl (InvalidDimension d ndim)
                   | Some dim_idx \<Rightarrow>
                       (case foldE (cat_check first dim_idx) rest (t_shape first ! dim_idx) of
                          Inl e \<Rightarrow> Inl e
                        | Inr cat_dim_total \<Rightarrow>
                            let out_shape = (t_shape first)[dim_idx := cat_dim_total]
                            in Inr \<lparr>cp_dim_idx = dim_idx, cp_dtype = t_dtype first,
                                 cp_cat_dim_total = cat_dim_total, cp_out_shape = out_shape,
                                 cp_outer_size = prod_list (take dim_idx out_shape),
                                 cp_inner_size = prod_list (drop (dim_idx + 1) out_shape)\<rparr>)))"

text \<open>The copies of one tensor: a single one when there is one row, otherwise one per row.\<close>

definition cat_rows :: "'b list \<Rightarrow> nat \<Rightarrow> nat \<Rightarrow> nat \<Rightarrow> nat \<Rightarrow> nat \<Rightarrow> nat \<Rightarrow> nat \<Rightarrow> 'b list \<Rightarrow> 'b list option" where
  "cat_rows src src_ptr cat_offset src_cat_size outer_size cat_dim_total inner_size w out =
     (let src_bytes = src_cat_size * inner_size * w
      in if outer_size = 1
         then copy_bytes src (int src_ptr) out (cat_offset * inner_size * w) src_bytes
         else let row_bytes = cat_dim_total * inner_size * w
              in foldM (\<lambda>outer out.
                   copy_bytes src (int (src_ptr + outer * src_bytes)) out
                     (outer * row_bytes + cat_offset * inner_size * w) src_bytes) [0..<outer_size] out)"

definition cat_step :: "'b alloc \<Rightarrow> cat_params \<Rightarrow> 'b tensor \<Rightarrow> 'b list \<times> nat \<Rightarrow> ('b list \<times> nat) res" where
  "cat_step alloc p t st =
     (case st of (out, cat_offset) \<Rightarrow>
        bindR (if layout_is_contiguous (t_layout t) then Some (Inr t) else tensor_contiguous alloc t) (\<lambda>c.
          let src_cat_size = unat (t_shape t ! cp_dim_idx p)
          in map_option (\<lambda>out'. Inr (out', cat_offset + src_cat_size))
               (cat_rows (t_buf c) (unat (ptr_offset c)) cat_offset src_cat_size
                  (unat (cp_outer_size p)) (unat (cp_cat_dim_total p)) (unat (cp_inner_size p))
                  (size_in_bytes (cp_dtype p)) out)))"

definition cat_impl :: "'b alloc \<Rightarrow> 'b tensor list \<Rightarrow> int \<Rightarrow> 'b tensor res" where
  "cat_impl alloc tensors d =
     bindR (Some (validate_cat tensors d)) (\<lambda>p.
       bindR (Some (tensor_empty alloc (cp_out_shape p) (cp_dtype p))) (\<lambda>out.
         map_option (map_sum id (\<lambda>(b, _). out\<lparr>t_buf := b\<rparr>))
           (foldR (cat_step alloc p) tensors (t_buf out, 0))))"

definition stack_check :: "'b tensor \<Rightarrow> 'b tensor \<Rightarrow> unit \<Rightarrow> tensor_error + unit" where
  "stack_check first t u =
     (if t_dtype t \<noteq> t_dtype first then Inl (DTypeMismatch (t_dtype first) (t_dtype t))
      else if t_shape t \<noteq> t_shape first then Inl (ShapeMismatch (t_shape first) (t_shape t))
      else Inr ())"

definition validate_stack :: "'b tensor list \<Rightarrow> int \<Rightarrow> tensor_error + nat" where
  "validate_stack tensors d =
     (case tensors of
        [] \<Rightarrow> Inl (InvalidArgument ''tensors'')
      | first # rest \<Rightarrow>
          let ndim = t_ndim first
          in (case normalize_stack_dim d ndim of
                None \<Rightarrow> Inl (InvalidDimension d (ndim + 1))
              | Some dim_idx \<Rightarrow> map_sum id (\<lambda>_. dim_idx) (foldE (stack_check first) rest ())))"

fun unsqueeze_all :: "int \<Rightarrow> 'b tensor list \<Rightarrow> tensor_error + 'b tensor list" where
  "unsqueeze_all d [] = Inr []"
| "unsqueeze_all d (t # ts) =
     (case tensor_unsqueeze t d of
        Inl e \<Rightarrow> Inl e
      | Inr u \<Rightarrow> map_sum id (Cons u) (unsqueeze_all d ts))"

definition stack_impl :: "'b alloc \<Rightarrow> 'b tensor list \<Rightarrow> int \<Rightarrow> 'b tensor res" where
  "stack_impl alloc tensors d =
     bindR (Some (validate_stack tensors d)) (\<lambda>_.
       bindR (Some (unsqueeze_all d tensors)) (\<lambda>unsqueezed. cat_impl alloc unsqueezed d))"

section \<open>Splitting\<close>

lemma split_progress:
  fixes s n start :: usize
  assumes "s \<noteq> 0" and "start < n"
  shows "unat (n - (start + min (n - start) s)) < unat (n - start)"
proof -
  let ?r = "n - start" and ?m = "min (n - start) s"
  have "?r \<noteq> 0" using assms(2) by simp
  then have m: "0 < unat ?m" "0 < unat ?r"
    using assms(1) by (auto simp: min_def unat_gt_0)
  have "n - (start + ?m) = ?r - ?m" by (rule diff_diff_eq[symmetric])
  moreover have "unat (?r - ?m) = unat ?r - unat ?m" by (rule unat_sub) simp
  moreover have "unat ?r - unat ?m < unat ?r" using m by (rule_tac diff_less)
  ultimately show ?thesis by (simp only:)
qed

text \<open>\<open>while start < dim_size\<close>; every round makes progress, \<open>split_size\<close> being positive.\<close>

function split_loop :: "'b tensor \<Rightarrow> int \<Rightarrow> usize \<Rightarrow> usize \<Rightarrow> usize \<Rightarrow> 'b tensor list \<Rightarrow> tensor_error + 'b tensor list" where
  "split_loop t d split_size dim_size start result =
     (if split_size = 0 \<or> \<not> start < dim_size then Inr result
      else let len = min (dim_size - start) split_size
           in (case tensor_narrow t d start len of
                 Inl e \<Rightarrow> Inl e
               | Inr v \<Rightarrow> split_loop t d split_size dim_size (start + len) (result @ [v])))"
  by pat_completeness auto
termination
  by (relation "measure (\<lambda>(_, _, _, dim_size, start, _). unat (dim_size - start))")
    (auto simp: split_progress)

definition split_impl :: "'b tensor \<Rightarrow> usize \<Rightarrow> int \<Rightarrow> tensor_error + 'b tensor list" where
  "split_impl t split_size d =
     (if split_size = 0 then Inl (InvalidArgument ''split_size'')
      else let ndim = t_ndim t
           in if ndim = 0 then Inl (InvalidArgument ''tensor'')
              else (case normalize_dim d ndim of
                      None \<Rightarrow> Inl (InvalidDimension d ndim)
                    | Some dim_idx \<Rightarrow> split_loop t d split_size (t_shape t ! dim_idx) 0 []))"

definition chunk_step :: "'b tensor \<Rightarrow> int \<Rightarrow> usize \<Rightarrow> usize \<Rightarrow> nat \<Rightarrow> 'b tensor list \<times> usize \<Rightarrow>
    tensor_error + 'b tensor list \<times> usize" where
  "chunk_step t d base_size remainder i st =
     (case st of (result, start) \<Rightarrow>
        let len = (if of_nat i < remainder then base_size + 1 else base_size)
        in if 0 < len
           then (case tensor_narrow t d start len of
                   Inl e \<Rightarrow> Inl e
                 | Inr v \<Rightarrow> Inr (result @ [v], start + len))
           else Inr (result, start))"

definition chunk_impl :: "'b tensor \<Rightarrow> usize \<Rightarrow> int \<Rightarrow> tensor_error + 'b tensor list" where
  "chunk_impl t chunks d =
     (if chunks = 0 then Inl (InvalidArgument ''chunks'')
      else let ndim = t_ndim t
           in if ndim = 0 then Inl (InvalidArgument ''tensor'')
              else (case normalize_dim d ndim of
                      None \<Rightarrow> Inl (InvalidDimension d ndim)
                    | Some dim_idx \<Rightarrow>
                        let dim_size = t_shape t ! dim_idx
                        in map_sum id fst
                             (foldE (chunk_step t d (dim_size div chunks) (dim_size mod chunks))
                                [0..<unat chunks] ([], 0))))"

section \<open>What the validation accepts\<close>

lemma normalize_dim_eq: "normalize_dim d n = layout_normalize_dim \<lparr>shape = replicate n 1, strides = [], offset = 0\<rparr> d"
  by (auto simp: normalize_dim_def layout_normalize_dim_def layout_ndim_def Let_def)

lemma normalize_dim_Some:
  "normalize_dim d n = Some k \<longleftrightarrow> - int n \<le> d \<and> d < int n \<and> k = nat (if d < 0 then int n + d else d)"
  by (auto simp: normalize_dim_def Let_def)

lemma normalized_dim_less: "normalize_dim d n = Some k \<Longrightarrow> k < n"
  by (auto simp: normalize_dim_Some)

lemma normalize_stack_dim_Some:
  "normalize_stack_dim d n = Some k \<longleftrightarrow>
     - int (n + 1) \<le> d \<and> d < int (n + 1) \<and> k = nat (if d < 0 then int (n + 1) + d else d)"
  by (auto simp: normalize_stack_dim_def Let_def)

text \<open>Two tensors that may be concatenated along axis \<open>k\<close>.\<close>

definition cat_compatible :: "nat \<Rightarrow> 'b tensor \<Rightarrow> 'b tensor \<Rightarrow> bool" where
  "cat_compatible k s t \<longleftrightarrow> t_dtype t = t_dtype s \<and> length (t_shape t) = length (t_shape s) \<and>
     (\<forall>i < length (t_shape s). i \<noteq> k \<longrightarrow> t_shape t ! i = t_shape s ! i)"

lemma cat_check_Inr:
  "cat_check s k t acc = Inr r \<longleftrightarrow> cat_compatible k s t \<and> r = acc + t_shape t ! k"
proof -
  have "list_ex (\<lambda>(i, a, b). i \<noteq> k \<and> a \<noteq> b) (zip [0..<t_ndim s] (zip (t_shape s) (t_shape t))) \<longleftrightarrow>
      (\<exists>i < length (t_shape s). i \<noteq> k \<and> t_shape t ! i \<noteq> t_shape s ! i)" if "t_ndim t = t_ndim s"
    using that by (auto simp: list_ex_length t_ndim_def layout_ndim_def t_shape_def)
  then show ?thesis
    by (auto simp: cat_check_def cat_compatible_def t_ndim_def layout_ndim_def t_shape_def)
qed

lemma foldE_cat_check:
  "foldE (cat_check s k) ts acc = Inr r \<longleftrightarrow>
     (\<forall>t \<in> set ts. cat_compatible k s t) \<and> r = acc + sum_list (map (\<lambda>t. t_shape t ! k) ts)"
proof (induction ts arbitrary: acc)
  case (Cons t ts)
  show ?case
    unfolding foldE_Cons_Inr cat_check_Inr using Cons.IH by (auto simp: add.assoc)
qed auto

lemma validate_cat_Inr:
  "validate_cat ts d = Inr p \<longleftrightarrow>
     (\<exists>s rest k. ts = s # rest \<and> 0 < length (t_shape s) \<and> normalize_dim d (length (t_shape s)) = Some k \<and>
        (\<forall>t \<in> set ts. cat_compatible k s t) \<and>
        p = (let csum = sum_list (map (\<lambda>t. t_shape t ! k) ts); shp = (t_shape s)[k := csum]
             in \<lparr>cp_dim_idx = k, cp_dtype = t_dtype s, cp_cat_dim_total = csum, cp_out_shape = shp,
                 cp_outer_size = prod_list (take k shp), cp_inner_size = prod_list (drop (k + 1) shp)\<rparr>))"
proof (cases ts)
  case Nil
  then show ?thesis by (simp add: validate_cat_def)
next
  case (Cons s rest)
  have n: "t_ndim s = length (t_shape s)" by (simp add: t_ndim_def layout_ndim_def t_shape_def)
  have self: "cat_compatible k s s" for k by (simp add: cat_compatible_def)
  have fold: "(case foldE (cat_check s k) rest (t_shape s ! k) of Inl e \<Rightarrow> Inl e | Inr x \<Rightarrow> Inr (f x)) = Inr p \<longleftrightarrow>
      (\<forall>t \<in> set rest. cat_compatible k s t) \<and> p = f (sum_list (map (\<lambda>t. t_shape t ! k) ts))"
    for k and f :: "usize \<Rightarrow> cat_params"
  proof (cases "foldE (cat_check s k) rest (t_shape s ! k)")
    case (Inl e)
    with foldE_cat_check[of s k rest "t_shape s ! k"] show ?thesis by auto
  next
    case (Inr r)
    with foldE_cat_check[of s k rest "t_shape s ! k" r] Cons show ?thesis by auto
  qed
  show ?thesis
  proof (cases "normalize_dim d (length (t_shape s))")
    case None
    with Cons show ?thesis by (simp add: validate_cat_def n Let_def)
  next
    case (Some k)
    let ?p = "\<lambda>csum. let shp = (t_shape s)[k := csum]
             in \<lparr>cp_dim_idx = k, cp_dtype = t_dtype s, cp_cat_dim_total = csum, cp_out_shape = shp,
                 cp_outer_size = prod_list (take k shp), cp_inner_size = prod_list (drop (k + 1) shp)\<rparr>"
    have nz: "length (t_shape s) \<noteq> 0" using normalized_dim_less[OF Some] by (cases "t_shape s") auto
    from nz have "validate_cat ts d =
        (case foldE (cat_check s k) rest (t_shape s ! k) of Inl e \<Rightarrow> Inl e | Inr x \<Rightarrow> Inr (?p x))"
      using Cons Some by (simp only: validate_cat_def list.case n Let_def if_False option.case)
    then show ?thesis using nz Cons Some self fold[of ?p k] by (auto simp: Let_def)
  qed
qed

section \<open>Copying rows into their places\<close>

lemma copy_bytes_nth:
  assumes "s + n \<le> length src" and "d + n \<le> length dst"
  shows "\<exists>dst'. copy_bytes src (int s) dst d n = Some dst' \<and> length dst' = length dst \<and>
    (\<forall>p < length dst. dst' ! p = (if d \<le> p \<and> p < d + n then src ! (s + (p - d)) else dst ! p))"
  using assms by (cases "n = 0") (auto simp: copy_bytes_def nth_append)

lemma block_position:
  fixes row :: nat
  assumes "x < row" and "b + n \<le> row"
  shows "k * row + b \<le> j * row + x \<and> j * row + x < k * row + b + n \<longleftrightarrow> j = k \<and> b \<le> x \<and> x < b + n"
proof -
  have "j < k \<Longrightarrow> Suc j * row \<le> k * row" "k < j \<Longrightarrow> Suc k * row \<le> j * row" by (intro mult_le_mono1; simp)+
  then show ?thesis using assms by (cases j k rule: linorder_cases) auto
qed

lemma cat_rows_eq:
  fixes c rows csum inner w off :: nat
  defines "sb \<equiv> c * inner * w" and "row \<equiv> csum * inner * w" and "b \<equiv> off * inner * w"
  assumes src: "src_ptr + rows * sb \<le> length src" and fit: "off + c \<le> csum" and len: "length out = rows * row"
  shows "\<exists>out'. cat_rows src src_ptr off c rows csum inner w out = Some out' \<and> length out' = length out \<and>
    (\<forall>j < rows. \<forall>x < row. out' ! (j * row + x) =
       (if b \<le> x \<and> x < b + sb then src ! (src_ptr + j * sb + (x - b)) else out ! (j * row + x)))"
proof -
  let ?f = "\<lambda>k out. copy_bytes src (int (src_ptr + k * sb)) out (k * row + b) sb"
  let ?I = "\<lambda>k out'. length out' = length out \<and> (\<forall>j < rows. \<forall>x < row. out' ! (j * row + x) =
       (if j < k \<and> b \<le> x \<and> x < b + sb then src ! (src_ptr + j * sb + (x - b)) else out ! (j * row + x)))"
  have bs: "b + sb \<le> row"
    using mult_le_mono1[OF fit, of "inner * w"] by (simp add: b_def sb_def row_def algebra_simps)
  have inrow: "k * row + row \<le> rows * row" if "k < rows" for k
    using mult_le_mono1[of "Suc k" rows row] that by simp
  have "\<exists>out'. foldM ?f [0..<rows] out = Some out' \<and> ?I rows out'"
  proof (rule foldM_upt_rule[where I = ?I])
    show "?I 0 out" by simp
  next
    fix k out' assume k: "k < rows" and I: "?I k out'"
    have "src_ptr + k * sb + sb \<le> length src"
      using src mult_le_mono1[of "Suc k" rows sb] k by simp
    moreover have "k * row + b + sb \<le> length out'" using inrow[OF k] bs I len by simp
    ultimately obtain out'' where out'': "?f k out' = Some out''" "length out'' = length out'"
      "\<forall>p < length out'. out'' ! p = (if k * row + b \<le> p \<and> p < k * row + b + sb
         then src ! (src_ptr + k * sb + (p - (k * row + b))) else out' ! p)"
      using copy_bytes_nth[of "src_ptr + k * sb" sb src "k * row + b" out'] by blast
    have "out'' ! (j * row + x) =
        (if j < Suc k \<and> b \<le> x \<and> x < b + sb then src ! (src_ptr + j * sb + (x - b)) else out ! (j * row + x))"
      if j: "j < rows" and x: "x < row" for j x
    proof -
      have p: "j * row + x < length out'" using inrow[OF j] x I len by simp
      show ?thesis
        using out''(3) p block_position[OF x bs, of k j] I j x by (auto simp: less_Suc_eq)
    qed
    with out'' I show "\<exists>out''. ?f k out' = Some out'' \<and> ?I (Suc k) out''" by auto
  qed
  then obtain out' where run: "foldM ?f [0..<rows] out = Some out'" and I: "?I rows out'" by blast
  have "cat_rows src src_ptr off c rows csum inner w out = foldM ?f [0..<rows] out"
    by (cases "rows = 1") (auto simp: cat_rows_def Let_def sb_def row_def b_def split: option.split)
  with run I show ?thesis by auto
qed

section \<open>The result of a concatenation\<close>

text \<open>A tensor that has its part of every row of the output.\<close>

definition row_part :: "nat \<Rightarrow> nat \<Rightarrow> nat \<Rightarrow> nat \<Rightarrow> 'b tensor \<Rightarrow> bool" where
  "row_part k rows inner w t \<longleftrightarrow> wf_tensor t \<and> elem_size t = w \<and>
     prod_list (dims t) = rows * (dims t ! k * inner) \<and> k < length (t_shape t)"

lemma cat_step_eq:
  assumes t: "row_part k rows inner w t" and ok: "alloc_ok alloc" and some: "\<And>n. alloc n \<noteq> None"
    and p: "cp_dim_idx p = k" "unat (cp_outer_size p) = rows" "unat (cp_cat_dim_total p) = csum"
      "unat (cp_inner_size p) = inner" "size_in_bytes (cp_dtype p) = w"
    and pos: "0 < rows * csum * inner" and fit: "off + dims t ! k \<le> csum"
    and len: "length out = rows * (csum * inner * w)"
  shows "\<exists>out'. cat_step alloc p t (out, off) = Some (Inr (out', off + dims t ! k)) \<and> length out' = length out \<and>
    (\<forall>j < rows. \<forall>x < csum * inner * w. out' ! (j * (csum * inner * w) + x) =
       (if off * inner * w \<le> x \<and> x < off * inner * w + dims t ! k * inner * w
        then contents t ! (j * (dims t ! k * inner * w) + (x - off * inner * w))
        else out ! (j * (csum * inner * w) + x)))"
proof -
  let ?c = "dims t ! k"
  let ?sb = "?c * inner * w"
  have tD: "wf_tensor t" "elem_size t = w" "prod_list (dims t) = rows * (?c * inner)" "k < length (t_shape t)"
    using t by (auto simp: row_part_def)
  from ensure_contiguous_cases[OF tD(1) ok] some obtain c where
    c: "ensure_contiguous alloc t = Some (Inr c)" "same_elems t c" "layout_is_contiguous (t_layout c)" by auto
  note sD = same_elemsD[OF c(2)]
  have size: "prod_list (dims c) * elem_size c = rows * ?sb" using sD tD by simp
  have flat: "contents t = take (rows * ?sb) (drop (byte_offset c) (t_buf c))"
    using contents_contiguous(1)[OF sD(1) c(3)] sD(4) size by simp
  have step: "cat_step alloc p t (out, off) = map_option (\<lambda>out'. Inr (out', off + ?c))
      (cat_rows (t_buf c) (byte_offset c) off ?c rows csum inner w out)"
    using c(1) p tD(4) unat_ptr_offset[OF sD(1)]
    by (simp add: cat_step_def ensure_contiguous_def dims_def Let_def)
  show ?thesis
  proof (cases "?sb = 0")
    case True
    then have "cat_rows (t_buf c) (byte_offset c) off ?c rows csum inner w out = Some out"
    proof -
      have "foldM (\<lambda>outer out. copy_bytes (t_buf c) (int (byte_offset c + outer * ?sb)) out
          (outer * (csum * inner * w) + off * inner * w) ?sb) ks out = Some out" for ks
        using True by (induction ks) (simp_all add: copy_bytes_def)
      with True show ?thesis by (auto simp: cat_rows_def Let_def copy_bytes_def)
    qed
    with step True show ?thesis by auto
  next
    case False
    then have "0 < prod_list (dims c)" using size pos sD tD by (auto intro!: Nat.gr0I)
    from contents_contiguous(2)[OF sD(1) c(3) this]
    have src: "byte_offset c + rows * ?sb \<le> length (t_buf c)" using size by simp
    have nth: "t_buf c ! (byte_offset c + j * ?sb + y) = contents t ! (j * ?sb + y)" if "j < rows" "y < ?sb" for j y
    proof -
      have "Suc j * ?sb \<le> rows * ?sb" using that by (intro mult_le_mono1) simp
      then have "j * ?sb + y < rows * ?sb" using that by simp
      then show ?thesis using src by (simp add: flat add.assoc)
    qed
    from cat_rows_eq[OF src fit len] obtain out' where
      "cat_rows (t_buf c) (byte_offset c) off ?c rows csum inner w out = Some out'" "length out' = length out"
      "\<forall>j < rows. \<forall>x < csum * inner * w. out' ! (j * (csum * inner * w) + x) =
       (if off * inner * w \<le> x \<and> x < off * inner * w + ?sb
        then t_buf c ! (byte_offset c + j * ?sb + (x - off * inner * w))
        else out ! (j * (csum * inner * w) + x))" by blast
    moreover have "t_buf c ! (byte_offset c + j * ?sb + (x - off * inner * w)) =
        contents t ! (j * ?sb + (x - off * inner * w))"
      if "j < rows" "off * inner * w \<le> x" "x < off * inner * w + ?sb" for j x
      by (rule nth[OF that(1)]) (use that in linarith)
    ultimately show ?thesis using step by (intro exI[of _ out']) simp
  qed
qed

lemma cat_fold_eq:
  assumes ok: "alloc_ok alloc" and some: "\<And>n. alloc n \<noteq> None"
    and p: "cp_dim_idx p = k" "unat (cp_outer_size p) = rows" "unat (cp_cat_dim_total p) = csum"
      "unat (cp_inner_size p) = inner" "size_in_bytes (cp_dtype p) = w"
    and pos: "0 < rows * csum * inner" and len: "length out = rows * (csum * inner * w)"
    and ts: "\<forall>t \<in> set ts. row_part k rows inner w t"
    and fit: "sum_list (map (\<lambda>t. dims t ! k) ts) \<le> csum"
  shows "\<exists>out'. foldR (cat_step alloc p) ts (out, 0) = Some (Inr (out', sum_list (map (\<lambda>t. dims t ! k) ts))) \<and>
    length out' = length out \<and>
    (\<forall>i < length ts. \<forall>j < rows. \<forall>y < dims (ts ! i) ! k * inner * w.
       out' ! (j * (csum * inner * w) + sum_list (map (\<lambda>t. dims t ! k) (take i ts)) * inner * w + y) =
       contents (ts ! i) ! (j * (dims (ts ! i) ! k * inner * w) + y))"
  using ts fit
proof (induction ts rule: rev_induct)
  case Nil
  then show ?case by simp
next
  case (snoc t ts)
  let ?S = "\<lambda>ts. sum_list (map (\<lambda>t. dims t ! k) ts)" and ?row = "csum * inner * w"
  let ?b = "?S ts * inner * w" and ?sb = "dims t ! k * inner * w"
  have fit: "?S ts + dims t ! k \<le> csum" using snoc.prems by simp
  from snoc obtain out1 where run1: "foldR (cat_step alloc p) ts (out, 0) = Some (Inr (out1, ?S ts))"
    and len1: "length out1 = length out"
    and I: "\<And>i j y. i < length ts \<Longrightarrow> j < rows \<Longrightarrow> y < dims (ts ! i) ! k * inner * w \<Longrightarrow>
       out1 ! (j * ?row + ?S (take i ts) * inner * w + y) = contents (ts ! i) ! (j * (dims (ts ! i) ! k * inner * w) + y)"
    by auto
  have tp: "row_part k rows inner w t" using snoc.prems by simp
  have l1: "length out1 = rows * ?row" using len1 len by simp
  from cat_step_eq[OF tp ok some p pos fit l1] obtain out2 where
    run2: "cat_step alloc p t (out1, ?S ts) = Some (Inr (out2, ?S ts + dims t ! k))" "length out2 = length out1"
    and J: "\<And>j x. j < rows \<Longrightarrow> x < ?row \<Longrightarrow> out2 ! (j * ?row + x) =
       (if ?b \<le> x \<and> x < ?b + ?sb then contents t ! (j * ?sb + (x - ?b)) else out1 ! (j * ?row + x))"
    by blast
  have inrow: "a * inner * w + y < b * inner * w" if "a + c \<le> b" "y < c * inner * w" for a b c y :: nat
  proof -
    have "(a + c) * (inner * w) \<le> b * (inner * w)" using that(1) by (rule mult_le_mono1)
    with that(2) show ?thesis by (simp add: algebra_simps)
  qed
  have "out2 ! (j * ?row + ?S (take i (ts @ [t])) * inner * w + y) =
      contents ((ts @ [t]) ! i) ! (j * (dims ((ts @ [t]) ! i) ! k * inner * w) + y)"
    if i: "i < length (ts @ [t])" and j: "j < rows" and y: "y < dims ((ts @ [t]) ! i) ! k * inner * w" for i j y
  proof (cases "i = length ts")
    case True
    then have "?b + y < ?row" using inrow[OF fit, of y] y by simp
    with J[OF j this] True y show ?thesis by (simp add: add.assoc)
  next
    case False
    then have il: "i < length ts" using i by simp
    have "?S ts = ?S (take i ts) + (dims (ts ! i) ! k + ?S (drop (Suc i) ts))"
      using il by (subst id_take_nth_drop[OF il]) simp
    then have part: "?S (take i ts) + dims (ts ! i) ! k \<le> ?S ts" by simp
    have yi: "y < dims (ts ! i) ! k * inner * w" using y il by (simp add: nth_append)
    have lt: "?S (take i ts) * inner * w + y < ?b" by (rule inrow[OF part yi])
    also have "?b \<le> ?row" using fit by (simp add: mult_le_mono1)
    finally have "out2 ! (j * ?row + (?S (take i ts) * inner * w + y)) =
        out1 ! (j * ?row + (?S (take i ts) * inner * w + y))"
      using J[OF j, of "?S (take i ts) * inner * w + y"] lt by simp
    with I[OF il j yi] il show ?thesis by (simp add: nth_append add.assoc)
  qed
  moreover have "foldR (cat_step alloc p) (ts @ [t]) (out, 0) = Some (Inr (out2, ?S (ts @ [t])))"
    using run1 run2 by (simp add: foldR_snoc)
  ultimately show ?case using run2(2) len1 by metis
qed

lemma cat_rows_noop:
  "rows = 0 \<or> c * inner * w = 0 \<Longrightarrow> cat_rows src ptr off c rows csum inner w out = Some out"
proof -
  assume a: "rows = 0 \<or> c * inner * w = 0"
  have "foldM (\<lambda>outer out. copy_bytes src (int (ptr + outer * (c * inner * w))) out
      (outer * (csum * inner * w) + off * inner * w) (c * inner * w)) ks out = Some out"
    if "c * inner * w = 0" for ks
    using that by (induction ks) (simp_all add: copy_bytes_def)
  with a show ?thesis by (auto simp: cat_rows_def Let_def copy_bytes_def)
qed

lemma cat_fold_noop:
  assumes "alloc_ok alloc" and "\<And>n. alloc n \<noteq> None" and "\<forall>t \<in> set ts. wf_tensor t"
    and "\<forall>t \<in> set ts. unat (cp_outer_size p) = 0 \<or> unat (t_shape t ! cp_dim_idx p) * unat (cp_inner_size p) = 0"
  shows "\<exists>n. foldR (cat_step alloc p) ts (out, off) = Some (Inr (out, n))"
  using assms(3,4)
proof (induction ts arbitrary: off)
  case (Cons t ts)
  from ensure_contiguous_cases[OF _ assms(1), of t] assms(2) Cons.prems
  obtain c where "ensure_contiguous alloc t = Some (Inr c)" by auto
  then have "cat_step alloc p t (out, off) = Some (Inr (out, off + unat (t_shape t ! cp_dim_idx p)))"
    using Cons.prems(2) by (simp add: cat_step_def ensure_contiguous_def Let_def) (subst cat_rows_noop; auto)
  moreover have "\<exists>n. foldR (cat_step alloc p) ts (out, off + unat (t_shape t ! cp_dim_idx p)) = Some (Inr (out, n))"
    by (rule Cons.IH) (use Cons.prems in auto)
  ultimately show ?case by simp
qed simp

lemma unat_sum_list:
  "sum_list (map unat xs) < 2 ^ 64 \<Longrightarrow> unat (sum_list xs :: usize) = sum_list (map unat xs)"
  by (induction xs) (auto simp: unat_word_ariths)

lemma prod_list_word_0: "0 \<in> set xs \<Longrightarrow> prod_list xs = (0 :: usize)"
  by (induction xs) auto

lemma ravel_mid:
  "length ia = length A \<Longrightarrow>
   ravel (A @ n # B) (ia @ c # ib) = (ravel A ia * n + c) * prod_list B + ravel B ib"
  by (simp add: ravel_append algebra_simps)

lemma split_at: "k < length xs \<Longrightarrow> xs = take k xs @ xs ! k # drop (Suc k) xs"
  by (rule id_take_nth_drop)

lemma inside_split:
  assumes "inside idx shp" and "k < length shp"
  shows "inside (take k idx) (take k shp)" and "idx ! k < shp ! k"
    and "inside (drop (Suc k) idx) (drop (Suc k) shp)"
  using assms by (auto simp: inside_nth)

lemma cat_compatible_dims:
  assumes "cat_compatible k s t" and "k < length (t_shape s)"
  shows "dims t = take k (dims s) @ dims t ! k # drop (Suc k) (dims s)"
proof (rule nth_equalityI)
  show "length (dims t) = length (take k (dims s) @ dims t ! k # drop (Suc k) (dims s))"
    using assms by (simp add: cat_compatible_def)
  fix i assume "i < length (dims t)"
  then show "dims t ! i = (take k (dims s) @ dims t ! k # drop (Suc k) (dims s)) ! i"
    using assms by (cases i k rule: linorder_cases)
      (auto simp: cat_compatible_def nth_append dims_def nth_Cons' Suc_diff_Suc)
qed

text \<open>The place of an element of one tensor in the rows of the concatenation.\<close>

lemma cat_element:
  assumes out: "wf_tensor out" "dims out = A @ csum # B" "elem_size out = w"
    and t: "wf_tensor t" "dims t = A @ c # B" "elem_size t = w"
    and idx: "inside idx (dims t)" and fit: "pre + c \<le> csum"
    and copied: "\<And>j y. j < prod_list A \<Longrightarrow> y < c * prod_list B * w \<Longrightarrow>
      contents out ! (j * (csum * prod_list B * w) + pre * prod_list B * w + y) =
      contents t ! (j * (c * prod_list B * w) + y)"
  shows "elem out (idx[length A := pre + idx ! length A]) = elem t idx"
proof -
  let ?k = "length A"
  let ?ia = "take ?k idx" and ?x = "idx ! ?k" and ?ib = "drop (Suc ?k) idx"
  have k: "?k < length (dims t)" using t(2) by simp
  have li: "length idx = length A + Suc (length B)" using idx t(2) by (simp add: inside_nth)
  have ins: "inside ?ia A" "?x < c" "inside ?ib B"
    using inside_split[OF idx k] t(2) by simp_all
  have e: "idx = ?ia @ ?x # ?ib" using li by (intro split_at) simp
  have e': "idx[?k := pre + ?x] = ?ia @ (pre + ?x) # ?ib" using li by (simp add: upd_conv_take_nth_drop)
  have ins': "inside (idx[?k := pre + ?x]) (dims out)"
    unfolding e' out(2) using ins fit by (simp add: inside_def list_all2_appendI)
  have i: "ravel A ?ia < prod_list A" "ravel B ?ib < prod_list B" using ins by (simp_all add: ravel_less)
  have la: "length ?ia = length A" using li by simp
  have rt: "ravel (dims t) idx = (ravel A ?ia * c + ?x) * prod_list B + ravel B ?ib"
    using ravel_mid[OF la, of c B ?x ?ib] by (simp only: t(2) e[symmetric])
  show ?thesis
  proof (rule nth_equalityI)
    show "length (elem out (idx[?k := pre + ?x])) = length (elem t idx)"
      using length_elem[OF out(1) ins'] length_elem[OF t(1) idx] out(3) t(3) by simp
    fix y assume "y < length (elem out (idx[?k := pre + ?x]))"
    then have y: "y < w" using length_elem[OF out(1) ins'] out(3) by simp
    let ?z = "(?x * prod_list B + ravel B ?ib) * w + y"
    have "Suc (?x * prod_list B + ravel B ?ib) * w \<le> c * prod_list B * w"
    proof (rule mult_le_mono1)
      have "Suc ?x * prod_list B \<le> c * prod_list B" using ins(2) by (intro mult_le_mono1) simp
      then show "Suc (?x * prod_list B + ravel B ?ib) \<le> c * prod_list B" using i(2) by simp
    qed
    then have z: "?z < c * prod_list B * w" using y by simp
    have "elem out (idx[?k := pre + ?x]) ! y = contents out ! (ravel (dims out) (idx[?k := pre + ?x]) * w + y)"
      using nth_contents[OF out(1) ins', of y] y out(3) by simp
    also have "ravel (dims out) (idx[?k := pre + ?x]) * w + y =
        ravel A ?ia * (csum * prod_list B * w) + pre * prod_list B * w + ?z"
      unfolding e' out(2) ravel_mid[OF la] by (simp add: algebra_simps)
    also have "contents out ! \<dots> = contents t ! (ravel A ?ia * (c * prod_list B * w) + ?z)"
      by (rule copied[OF i(1) z])
    also have "ravel A ?ia * (c * prod_list B * w) + ?z = ravel (dims t) idx * w + y"
      unfolding rt by (simp add: algebra_simps)
    also have "contents t ! \<dots> = elem t idx ! y"
      using nth_contents[OF t(1) idx, of y] y t(3) by simp
    finally show "elem out (idx[?k := pre + ?x]) ! y = elem t idx ! y" .
  qed
qed

lemma alloc_someE:
  assumes "alloc_ok alloc" and "\<forall>n. alloc n \<noteq> None"
  obtains b where "alloc n = Some b" and "length b = n"
  using assms by (fastforce simp: alloc_ok_def)

lemma tensor_empty_eq:
  assumes ok: "alloc_ok alloc" and some: "\<forall>n. alloc n \<noteq> None"
    and small: "prod_list (map unat shp) * size_in_bytes dt < 2 ^ 63"
  obtains b where "tensor_empty alloc shp dt = Inr \<lparr>t_dtype = dt, t_layout = layout_contiguous shp, t_buf = b\<rparr>"
    and "length b = prod_list (map unat shp) * size_in_bytes dt"
proof -
  obtain b where "alloc (prod_list (map unat shp) * size_in_bytes dt) = Some b"
    and "length b = prod_list (map unat shp) * size_in_bytes dt"
    by (rule alloc_someE[OF ok some])
  with storage_new_eq[OF small, of alloc] show ?thesis by (intro that[of b]) (simp_all add: tensor_empty_def)
qed

text \<open>The buffer that the copies leave, for the exact sizes of the shapes.\<close>

lemma cat_buffer:
  assumes wf: "\<forall>t \<in> set ts. wf_tensor t" and ok: "alloc_ok alloc" and some: "\<forall>n. alloc n \<noteq> None"
    and k: "k < length (t_shape s)" and comp: "\<forall>t \<in> set ts. cat_compatible k s t"
    and csum: "csum = sum_list (map (\<lambda>t. dims t ! k) ts)" "csum < 2 ^ 63"
    and p: "cp_dim_idx p = k" "cp_dtype p = t_dtype s" "cp_cat_dim_total p = sum_list (map (\<lambda>t. t_shape t ! k) ts)"
      "cp_out_shape p = (t_shape s)[k := cp_cat_dim_total p]"
      "cp_outer_size p = prod_list (take k (cp_out_shape p))"
      "cp_inner_size p = prod_list (drop (k + 1) (cp_out_shape p))"
    and small: "prod_list ((dims s)[k := csum]) * elem_size s < 2 ^ 63"
    and b: "length b = prod_list ((dims s)[k := csum]) * elem_size s"
  defines "A \<equiv> take k (dims s)" and "B \<equiv> drop (Suc k) (dims s)"
  shows "\<exists>b' n. foldR (cat_step alloc p) ts (b, 0) = Some (Inr (b', n)) \<and> length b' = length b \<and>
    (0 < prod_list ((dims s)[k := csum]) \<longrightarrow> (\<forall>i < length ts. \<forall>j < prod_list A.
      \<forall>y < dims (ts ! i) ! k * prod_list B * elem_size s.
       b' ! (j * (csum * prod_list B * elem_size s) +
             sum_list (map (\<lambda>t. dims t ! k) (take i ts)) * prod_list B * elem_size s + y) =
       contents (ts ! i) ! (j * (dims (ts ! i) ! k * prod_list B * elem_size s) + y)))"
proof -
  have kt: "k < length (t_shape t)" if "t \<in> set ts" for t using comp that k by (auto simp: cat_compatible_def)
  have "sum_list (map unat (map (\<lambda>t. t_shape t ! k) ts)) = csum"
    unfolding csum map_map using kt by (intro arg_cong[where f = sum_list] map_cong) (simp_all add: dims_def)
  then have tot: "unat (cp_cat_dim_total p) = csum"
    using unat_sum_list[of "map (\<lambda>t. t_shape t ! k) ts"] csum(2) p(3) by simp
  have od: "(dims s)[k := csum] = map unat (cp_out_shape p)"
    using tot by (simp add: p(4) map_update dims_def)
  have split: "(dims s)[k := csum] = A @ csum # B"
    using k by (simp add: A_def B_def upd_conv_take_nth_drop)
  have A: "A = map unat (take k (cp_out_shape p))" and B: "B = map unat (drop (k + 1) (cp_out_shape p))"
    unfolding A_def B_def p(4) by (simp_all add: dims_def take_map drop_map)
  show ?thesis
  proof (cases "0 < prod_list ((dims s)[k := csum])")
    case True
    have n: "prod_list ((dims s)[k := csum]) = prod_list A * csum * prod_list B" unfolding split by simp
    with True have pos: "0 < prod_list A" "0 < csum" "0 < prod_list B" by simp_all
    have "prod_list A * csum * prod_list B \<le> prod_list ((dims s)[k := csum]) * elem_size s"
      using elem_size_pos[of s] by (simp add: n Suc_le_eq)
    then have lt: "prod_list A * csum * prod_list B < 2 ^ 63" using small by (rule le_less_trans)
    have le: "prod_list A \<le> prod_list A * csum * prod_list B" "prod_list B \<le> prod_list A * csum * prod_list B"
      using pos by simp_all
    have lts: "prod_list A < 2 ^ 64" "prod_list B < 2 ^ 64"
      by (rule le_less_trans[OF le(1) less_trans[OF lt]], simp, rule le_less_trans[OF le(2) less_trans[OF lt]], simp)
    have "unat (cp_outer_size p) = prod_list A" "unat (cp_inner_size p) = prod_list B"
      using lts unat_prod_dims unfolding p(5,6) A B by blast+
    moreover have "\<forall>t \<in> set ts. row_part k (prod_list A) (prod_list B) (elem_size s) t"
    proof
      fix t assume t: "t \<in> set ts"
      have "prod_list (dims t) = prod_list A * (dims t ! k * prod_list B)"
        unfolding A_def B_def using comp t k by (subst cat_compatible_dims[of k s t]) auto
      then show "row_part k (prod_list A) (prod_list B) (elem_size s) t"
        using wf comp t kt[OF t] by (simp add: row_part_def cat_compatible_def elem_size_def)
    qed
    moreover have "length b = prod_list A * (csum * prod_list B * elem_size s)" using b n by (simp add: mult.assoc)
    ultimately show ?thesis
      using cat_fold_eq[of alloc p k "prod_list A" csum "prod_list B" "elem_size s" b ts] ok some p tot pos csum
      by (simp add: elem_size_def) blast
  next
    case False
    then have "0 \<in> set (A @ csum # B)" unfolding split by (auto simp: prod_list_zero_iff)
    then consider "0 \<in> set A" | "csum = 0" | "0 \<in> set B" by auto
    then have "\<forall>t \<in> set ts. unat (cp_outer_size p) = 0 \<or> unat (t_shape t ! cp_dim_idx p) * unat (cp_inner_size p) = 0"
    proof cases
      case 1
      then have "cp_outer_size p = 0" unfolding p(5) A by (intro prod_list_word_0) (auto simp: unat_eq_0)
      then show ?thesis by simp
    next
      case 2
      then have "\<forall>t \<in> set ts. dims t ! k = 0" unfolding csum by simp
      then show ?thesis using kt p(1) by (auto simp: dims_def)
    next
      case 3
      then have "cp_inner_size p = 0" unfolding p(6) B by (intro prod_list_word_0) (auto simp: unat_eq_0)
      then show ?thesis by simp
    qed
    from cat_fold_noop[OF ok _ wf this, of b 0] some False show ?thesis by auto
  qed
qed

lemma cat_impl_eq:
  assumes wf: "\<forall>t \<in> set ts. wf_tensor t" and ok: "alloc_ok alloc" and some: "\<forall>n. alloc n \<noteq> None"
    and fits: "\<And>k. normalize_dim d (length (t_shape (hd ts))) = Some k \<Longrightarrow> sum_list (map (\<lambda>t. dims t ! k) ts) < 2 ^ 63 \<and>
      prod_list ((dims (hd ts))[k := sum_list (map (\<lambda>t. dims t ! k) ts)]) * elem_size (hd ts) < 2 ^ 63"
  shows "case validate_cat ts d of
      Inl e \<Rightarrow> cat_impl alloc ts d = Some (Inl e)
    | Inr p \<Rightarrow> \<exists>out. cat_impl alloc ts d = Some (Inr out) \<and> wf_tensor out \<and> t_dtype out = t_dtype (hd ts) \<and>
        dims out = (dims (hd ts))[cp_dim_idx p := sum_list (map (\<lambda>t. dims t ! cp_dim_idx p) ts)] \<and>
        (\<forall>j < length ts. \<forall>idx. inside idx (dims (ts ! j)) \<longrightarrow>
           elem out (idx[cp_dim_idx p :=
             sum_list (map (\<lambda>t. dims t ! cp_dim_idx p) (take j ts)) + idx ! cp_dim_idx p]) = elem (ts ! j) idx)"
proof (cases "validate_cat ts d")
  case (Inl e)
  then show ?thesis by (simp add: cat_impl_def)
next
  case (Inr p)
  from iffD1[OF validate_cat_Inr Inr] obtain s rest k where
    ts: "ts = s # rest" and dk: "normalize_dim d (length (t_shape s)) = Some k"
    and comp: "\<forall>t \<in> set ts. cat_compatible k s t"
    and p: "cp_dim_idx p = k" "cp_dtype p = t_dtype s" "cp_cat_dim_total p = sum_list (map (\<lambda>t. t_shape t ! k) ts)"
      "cp_out_shape p = (t_shape s)[k := cp_cat_dim_total p]"
      "cp_outer_size p = prod_list (take k (cp_out_shape p))"
      "cp_inner_size p = prod_list (drop (k + 1) (cp_out_shape p))"
    by (elim exE conjE) (simp add: Let_def)
  have k: "k < length (t_shape s)" by (rule normalized_dim_less[OF dk])
  define csum where "csum = sum_list (map (\<lambda>t. dims t ! k) ts)"
  define A B where "A = take k (dims s)" and "B = drop (Suc k) (dims s)"
  have small: "csum < 2 ^ 63" "prod_list ((dims s)[k := csum]) * elem_size s < 2 ^ 63"
    using fits[of k] dk by (simp_all add: ts csum_def)
  have kt: "k < length (t_shape t)" if "t \<in> set ts" for t using comp that k by (auto simp: cat_compatible_def)
  have "map unat (map (\<lambda>t. t_shape t ! k) ts) = map (\<lambda>t. dims t ! k) ts" using kt by (simp add: dims_def)
  then have tot: "unat (cp_cat_dim_total p) = csum"
    using unat_sum_list[of "map (\<lambda>t. t_shape t ! k) ts"] small(1) p(3) by (simp only: csum_def) simp
  have od: "map unat (cp_out_shape p) = (dims s)[k := csum]" using tot by (simp add: p(4) map_update dims_def)
  obtain b where e: "tensor_empty alloc (cp_out_shape p) (cp_dtype p) =
      Inr \<lparr>t_dtype = cp_dtype p, t_layout = layout_contiguous (cp_out_shape p), t_buf = b\<rparr>"
    and lb: "length b = prod_list ((dims s)[k := csum]) * elem_size s"
    using tensor_empty_eq[OF ok some, of "cp_out_shape p" "cp_dtype p"] small(2)
    unfolding od p(2) elem_size_def by blast
  from cat_buffer[OF wf ok some k comp csum_def small(1) p small(2) lb]
  obtain b' n where run: "foldR (cat_step alloc p) ts (b, 0) = Some (Inr (b', n))" "length b' = length b"
    and J0: "0 < prod_list ((dims s)[k := csum]) \<longrightarrow> (\<forall>i < length ts. \<forall>j < prod_list A.
      \<forall>y < dims (ts ! i) ! k * prod_list B * elem_size s.
       b' ! (j * (csum * prod_list B * elem_size s) +
             sum_list (map (\<lambda>t. dims t ! k) (take i ts)) * prod_list B * elem_size s + y) =
       contents (ts ! i) ! (j * (dims (ts ! i) ! k * prod_list B * elem_size s) + y))"
    unfolding A_def B_def by (elim exE conjE)
  note J = J0[rule_format]
  define out where "out = \<lparr>t_dtype = t_dtype s, t_layout = layout_contiguous (cp_out_shape p), t_buf = b'\<rparr>"
  have cat: "cat_impl alloc ts d = Some (Inr out)"
    using Inr e run(1) by (simp add: cat_impl_def out_def p(2))
  have o: "wf_tensor out" "contents out = b'"
    using tensor_of_bytes[OF _ _ out_def] run(2) lb small(2) od by (simp_all add: elem_size_def)
  have "dims out = map unat (cp_out_shape p)"
    by (simp add: out_def dims_def t_shape_def layout_contiguous_def)
  then have dout: "dims out = (dims s)[k := csum]" by (simp only: od)
  have split: "dims out = A @ csum # B" using k by (simp add: dout A_def B_def upd_conv_take_nth_drop)
  have "elem out (idx[k := sum_list (map (\<lambda>t. dims t ! k) (take j ts)) + idx ! k]) = elem (ts ! j) idx"
    if j: "j < length ts" and idx: "inside idx (dims (ts ! j))" for j idx
  proof -
    let ?t = "ts ! j"
    have t: "?t \<in> set ts" using j by simp
    have dt: "dims ?t = A @ dims ?t ! k # B"
      unfolding A_def B_def by (rule cat_compatible_dims) (use comp t k in auto)
    have la: "length A = k" using k by (simp add: A_def)
    have "csum = sum_list (map (\<lambda>t. dims t ! k) (take j ts)) +
        (dims ?t ! k + sum_list (map (\<lambda>t. dims t ! k) (drop (Suc j) ts)))"
      unfolding csum_def by (subst id_take_nth_drop[OF j]) simp
    then have fit: "sum_list (map (\<lambda>t. dims t ! k) (take j ts)) + dims ?t ! k \<le> csum" by simp
    have "0 < prod_list (dims ?t)" using ravel_less[OF idx] by simp
    then have "0 < prod_list (A @ dims ?t ! k # B)" using dt by simp
    then have pos: "0 < prod_list ((dims s)[k := csum])"
      using fit unfolding dout[symmetric] split by simp
    have "elem out (idx[length A := sum_list (map (\<lambda>t. dims t ! k) (take j ts)) + idx ! length A]) = elem ?t idx"
    proof (rule cat_element[OF o(1) split _ _ dt _ idx fit])
      show "wf_tensor ?t" using wf t by simp
      show "elem_size ?t = elem_size s" using comp t by (simp add: cat_compatible_def elem_size_def)
      show "elem_size out = elem_size s" by (simp add: out_def elem_size_def)
    qed (use J[OF pos j] o(2) in simp)
    then show ?thesis by (simp add: la)
  qed
  with cat o(1) dout Inr show ?thesis
    by (simp add: ts p(1) csum_def) (simp add: out_def)
qed

text \<open>
  C28. Concatenation. When the shared validation accepts the tensors, and the sizes of the result are
  those of a tensor that fits in memory, \<open>cat\<close> returns, on every input whether a view or row-major, a
  well-formed tensor of the first tensor's element type and shape with the sizes along the axis added
  up, and element \<open>idx\<close> of the \<open>j\<close>-th tensor is its element at \<open>idx\<close> moved along the axis by the sizes
  of the tensors before. When the validation refuses them, that error is returned.
\<close>

theorem cat_impl_correct:
  assumes wf: "\<forall>t \<in> set ts. wf_tensor t" and ok: "alloc_ok alloc" and some: "\<forall>n. alloc n \<noteq> None"
    and fits: "\<And>k. normalize_dim d (length (t_shape (hd ts))) = Some k \<Longrightarrow> sum_list (map (\<lambda>t. dims t ! k) ts) < 2 ^ 63 \<and>
      prod_list ((dims (hd ts))[k := sum_list (map (\<lambda>t. dims t ! k) ts)]) * elem_size (hd ts) < 2 ^ 63"
  shows "case validate_cat ts d of
      Inl e \<Rightarrow> cat_impl alloc ts d = Some (Inl e)
    | Inr p \<Rightarrow> \<exists>out. cat_impl alloc ts d = Some (Inr out) \<and> wf_tensor out \<and> t_dtype out = t_dtype (hd ts) \<and>
        dims out = (dims (hd ts))[cp_dim_idx p := sum_list (map (\<lambda>t. dims t ! cp_dim_idx p) ts)] \<and>
        (\<forall>j < length ts. \<forall>idx. inside idx (dims (ts ! j)) \<longrightarrow>
           elem out (idx[cp_dim_idx p :=
             sum_list (map (\<lambda>t. dims t ! cp_dim_idx p) (take j ts)) + idx ! cp_dim_idx p]) = elem (ts ! j) idx)"
  using assms by (rule cat_impl_eq)

text \<open>A column view and a row-major tensor, joined along the second axis.\<close>

definition sample_alloc :: "nat alloc" where
  "sample_alloc n = Some (replicate n 0)"

lemma sample_alloc_ok: "alloc_ok sample_alloc" "\<forall>n. sample_alloc n \<noteq> None"
  by (simp_all add: alloc_ok_def sample_alloc_def)

definition sample_view :: "nat tensor" where
  "sample_view = \<lparr>t_dtype = U8, t_layout = \<lparr>shape = [2, 2], strides = [1, 2], offset = 1\<rparr>, t_buf = [9, 1, 2, 3, 4]\<rparr>"

definition sample_row_major :: "nat tensor" where
  "sample_row_major = \<lparr>t_dtype = U8, t_layout = layout_contiguous [2, 1], t_buf = [7, 8]\<rparr>"

lemma sample_dims: "dims sample_view = [2, 2]" "dims sample_row_major = [2, 1]"
  by code_simp+

lemma sample_wf: "wf_tensor sample_view" "wf_tensor sample_row_major"
proof -
  have v: "view_inside (t_buf sample_view) (int (byte_offset sample_view)) (dims sample_view)
      (t_strides sample_view) (elem_size sample_view)"
    "view_inside (t_buf sample_row_major) (int (byte_offset sample_row_major)) (dims sample_row_major)
      (t_strides sample_row_major) (elem_size sample_row_major)"
    unfolding view_inside_def by code_simp+
  have c: "byte_offset sample_view = 1" "elem_size sample_view = 1" "wf_layout (t_layout sample_view)"
    "length (t_buf sample_view) = 5" "byte_offset sample_row_major = 0" "elem_size sample_row_major = 1"
    "wf_layout (t_layout sample_row_major)" "length (t_buf sample_row_major) = 2"
    by code_simp+
  show "wf_tensor sample_view" "wf_tensor sample_row_major"
    using v by (simp_all add: wf_tensor_def sample_dims c)
qed

lemma cat_impl_correct_witness:
  "\<exists>out. cat_impl sample_alloc [sample_view, sample_row_major] (-1) = Some (Inr out) \<and>
     dims out = [2, 3] \<and> elem out [1, 2] = elem sample_row_major [1, 0]"
proof -
  let ?ts = "[sample_view, sample_row_major]"
  have "map_sum id cp_dim_idx (validate_cat ?ts (-1)) = Inr 1" by code_simp
  then have p: "\<exists>p. validate_cat ?ts (-1) = Inr p \<and> cp_dim_idx p = 1"
    by (cases "validate_cat ?ts (-1)") auto
  have e: "elem_size sample_view = 1" "length (t_shape sample_view) = 2" by code_simp+
  have "case validate_cat ?ts (-1) of
      Inl e \<Rightarrow> cat_impl sample_alloc ?ts (-1) = Some (Inl e)
    | Inr p \<Rightarrow> \<exists>out. cat_impl sample_alloc ?ts (-1) = Some (Inr out) \<and> wf_tensor out \<and> t_dtype out = t_dtype (hd ?ts) \<and>
        dims out = (dims (hd ?ts))[cp_dim_idx p := sum_list (map (\<lambda>t. dims t ! cp_dim_idx p) ?ts)] \<and>
        (\<forall>j < length ?ts. \<forall>idx. inside idx (dims (?ts ! j)) \<longrightarrow>
           elem out (idx[cp_dim_idx p :=
             sum_list (map (\<lambda>t. dims t ! cp_dim_idx p) (take j ?ts)) + idx ! cp_dim_idx p]) = elem (?ts ! j) idx)"
  proof (rule cat_impl_correct[OF _ sample_alloc_ok])
    show "\<forall>t \<in> set ?ts. wf_tensor t" using sample_wf by simp
    fix k assume "normalize_dim (-1) (length (t_shape (hd ?ts))) = Some k"
    then have "k = 1" by (simp add: e normalize_dim_Some)
    then show "sum_list (map (\<lambda>t. dims t ! k) ?ts) < 2 ^ 63 \<and>
        prod_list ((dims (hd ?ts))[k := sum_list (map (\<lambda>t. dims t ! k) ?ts)]) * elem_size (hd ?ts) < 2 ^ 63"
      by (auto simp: sample_dims e)
  qed
  with p obtain out where "cat_impl sample_alloc ?ts (-1) = Some (Inr out)" "dims out = [2, 3]"
    and el: "\<forall>j < length ?ts. \<forall>idx. inside idx (dims (?ts ! j)) \<longrightarrow>
      elem out (idx[1 := sum_list (map (\<lambda>t. dims t ! 1) (take j ?ts)) + idx ! 1]) = elem (?ts ! j) idx"
    by (auto simp: sample_dims)
  moreover have "elem out [1, 2] = elem sample_row_major [1, 0]"
    using el[rule_format, of 1 "[1, 0]"] by (simp add: sample_dims)
  ultimately show ?thesis by blast
qed

section \<open>Pieces of a tensor\<close>

text \<open>\<open>v\<close> is a view of \<open>t\<close> that has the \<open>len\<close> positions from \<open>start\<close> along axis \<open>k\<close>.\<close>

definition piece :: "'b tensor \<Rightarrow> nat \<Rightarrow> nat \<Rightarrow> nat \<Rightarrow> 'b tensor \<Rightarrow> bool" where
  "piece t k start len v \<longleftrightarrow> wf_tensor v \<and> t_buf v = t_buf t \<and> t_dtype v = t_dtype t \<and> dims v = (dims t)[k := len] \<and>
     (\<forall>idx. inside idx (dims v) \<longrightarrow> elem v idx = elem t (idx[k := start + idx ! k]))"

fun pieces :: "'b tensor \<Rightarrow> nat \<Rightarrow> nat \<Rightarrow> nat list \<Rightarrow> 'b tensor list \<Rightarrow> bool" where
  "pieces t k start [] [] = True"
| "pieces t k start (l # ls) (v # vs) = (0 < l \<and> piece t k start l v \<and> pieces t k (start + l) ls vs)"
| "pieces t k start _ _ = False"

lemma sdot_update:
  "k < length idx \<Longrightarrow> k < length ss \<Longrightarrow> sdot (idx[k := a + idx ! k]) ss = int a * ss ! k + sdot idx ss"
proof (induction k arbitrary: idx ss)
  case 0
  then show ?case by (cases idx; cases ss) (auto simp: algebra_simps)
next
  case (Suc k)
  then show ?case by (cases idx; cases ss) auto
qed

lemma normalize_dim_layout: "layout_normalize_dim (t_layout t) d = normalize_dim d (length (t_shape t))"
  by (auto simp: normalize_dim_def layout_normalize_dim_def layout_ndim_def t_shape_def Let_def)

lemma view_inside_elem:
  assumes "wf_tensor t" and "inside idx (dims t)"
  shows "0 \<le> int (byte_offset t) + sdot idx (t_strides t) * int (elem_size t)"
    and "int (byte_offset t) + sdot idx (t_strides t) * int (elem_size t) + int (elem_size t) \<le> int (length (t_buf t))"
  using view_elem_bounds[OF wf_tensorD(5)[OF assms(1)] ravel_less[OF assms(2)]] assms(2)
  by (simp_all add: unravel_ravel)

lemma uint_of_int_exact: "0 \<le> r \<Longrightarrow> r < 2 ^ 63 \<Longrightarrow> uint (word_of_int r :: usize) = r"
  by (simp add: uint_word_of_int take_bit_int_eq_self)

lemma tensor_narrow_piece:
  assumes wf: "wf_tensor t" and nz: "0 < prod_list (dims t)" and d: "normalize_dim d (length (t_shape t)) = Some k"
    and len: "0 < len" and fit: "unat start + unat len \<le> dims t ! k"
  shows "\<exists>v. tensor_narrow t d start len = Inr v \<and> piece t k (unat start) (unat len) v"
proof -
  let ?l = "t_layout t" and ?w = "elem_size t" and ?s = "strides (t_layout t) ! k"
  have k: "k < length (t_shape t)" by (rule normalized_dim_less[OF d])
  have wl: "length (strides ?l) = length (t_shape t)" using wf by (simp add: wf_tensor_def wf_layout_def t_shape_def)
  have dk: "dims t ! k = unat (t_shape t ! k)" using k by (simp add: dims_def)
  have ul: "0 < unat len" using len by (simp add: word_less_nat_alt)
  have sl: "unat (start + len) = unat start + unat len"
    using fit dk unat_lt2p[of "t_shape t ! k"] by (simp add: unat_word_ariths)
  have chk: "\<not> (t_shape t ! k \<le> start \<or> t_shape t ! k < start + len)" "len \<noteq> 0"
    using fit dk sl ul by (auto simp: word_le_nat_alt word_less_nat_alt)
  define l' where "l' = layout_new ((t_shape t)[k := len]) (strides ?l) (offset ?l + start * ?s)"
  define v where "v = with_layout t l'"
  have dv: "dims v = (dims t)[k := unat len]"
    by (simp add: v_def l'_def dims_def t_shape_def with_layout_def layout_new_def map_update)
  have sv: "t_strides v = t_strides t" "elem_size v = ?w" "t_buf v = t_buf t"
    by (simp_all add: v_def l'_def t_strides_def elem_size_def with_layout_def layout_new_def)
  have wl': "length (t_strides t) = length (t_shape t)" using wl by (simp add: t_strides_def)
  have ts: "t_strides t ! k = sint ?s" using k wl by (simp add: t_strides_def)
  have up: "inside (idx[k := unat start + idx ! k]) (dims t)" if "inside idx (dims v)" for idx
    using that fit k unfolding dv by (auto simp: inside_nth nth_list_update)
  have li: "length idx = length (t_shape t)" if "inside idx (dims v)" for idx
    using that unfolding dv by (simp add: inside_nth)
  have "0 \<notin> set (dims t)" using nz prod_list_zero_iff[of "dims t"] by simp
  then have "\<forall>x \<in> set (dims t). 0 < x" by (auto intro: gr0I)
  then have i0: "inside (replicate (length (t_shape t)) 0) (dims v)"
    using k ul unfolding dv by (auto simp: inside_nth nth_list_update)
  have off: "int (byte_offset v) = int (byte_offset t) + int (unat start) * sint ?s * int ?w \<and>
      unat (offset l') < 2 ^ 63"
  proof -
    let ?e = "int (unat (offset ?l)) + int (unat start) * sint ?s"
    have z: "sdot ((replicate (length (t_shape t)) 0)[k := unat start + 0]) (t_strides t) = int (unat start) * sint ?s"
      using sdot_update[of k "replicate (length (t_shape t)) 0" "t_strides t" "unat start"] k wl ts
      by (simp add: t_strides_def)
    have b: "0 \<le> ?e * int ?w" "?e * int ?w + int ?w \<le> int (length (t_buf t))"
      using view_inside_elem[OF wf up[OF i0]] k z by (simp_all add: byte_offset_def algebra_simps)
    have e0: "0 \<le> ?e" using b(1) elem_size_pos[of t] by (simp add: zero_le_mult_iff)
    have "?e \<le> ?e * int ?w" using e0 elem_size_pos[of t] by (simp add: mult_le_cancel_left1 Suc_le_eq)
    moreover have "int (length (t_buf t)) < 2 ^ 63" using wf_tensorD(4)[OF wf] by simp
    ultimately have e1: "?e < 2 ^ 63" using b(2) by linarith
    have "word_of_int ?e = offset ?l + start * ?s" by simp
    moreover have "uint (word_of_int ?e :: usize) = ?e" by (rule uint_of_int_exact[OF e0 e1])
    ultimately have u: "uint (offset ?l + start * ?s) = ?e" by (simp only:)
    then have "int (unat (offset ?l + start * ?s)) < int (2 ^ 63)" using e1 by simp
    then have "unat (offset ?l + start * ?s) < 2 ^ 63" by (simp only: of_nat_less_iff)
    with u show ?thesis
      by (simp add: byte_offset_def v_def l'_def with_layout_def layout_new_def elem_size_def algebra_simps)
  qed
  have nar: "layout_narrow ?l k start len = Some l'"
  proof -
    have "sint (offset l') = int (unat (offset l'))" using off by (simp add: sint_eq_unat)
    then have "\<not> offset l' <s 0" by (simp add: word_sless_alt)
    then show ?thesis
      using chk k by (simp add: layout_narrow_def layout_ndim_def t_shape_def[symmetric] l'_def layout_new_def)
  qed
  then have run: "tensor_narrow t d start len = Inr v"
    by (simp add: tensor_narrow_def normalize_dim_layout d v_def)
  have el: "int (byte_offset v) + sdot idx (t_strides v) * int ?w =
      int (byte_offset t) + sdot (idx[k := unat start + idx ! k]) (t_strides t) * int ?w"
    if "inside idx (dims v)" for idx
    using off sdot_update[of k idx "t_strides t" "unat start"] k wl li[OF that] ts
    by (simp add: sv wl' algebra_simps)
  have "view_inside (t_buf v) (int (byte_offset v)) (dims v) (t_strides v) (elem_size v)"
    unfolding view_inside_def
  proof (intro allI impI)
    fix j assume j: "j < prod_list (dims v)"
    from el[OF unravel_inside[OF j]] view_inside_elem[OF wf up[OF unravel_inside[OF j]]]
    show "0 \<le> int (byte_offset v) + sdot (unravel (dims v) j) (t_strides v) * int (elem_size v) \<and>
        int (byte_offset v) + (sdot (unravel (dims v) j) (t_strides v) + 1) * int (elem_size v) \<le> int (length (t_buf v))"
      by (simp add: sv algebra_simps)
  qed
  moreover have "prod_list (dims v) \<le> prod_list (dims t)"
  proof -
    have "dims t = take k (dims t) @ dims t ! k # drop (Suc k) (dims t)" using k by (intro split_at) simp
    then have "prod_list (dims t) = prod_list (take k (dims t)) * (dims t ! k * prod_list (drop (Suc k) (dims t)))"
      by (metis prod_list.append prod_list.Cons)
    moreover have "prod_list (dims v) = prod_list (take k (dims t)) * (unat len * prod_list (drop (Suc k) (dims t)))"
      unfolding dv using k by (simp add: upd_conv_take_nth_drop)
    ultimately show ?thesis using fit by (simp add: mult_le_mono)
  qed
  then have "prod_list (dims v) * elem_size v < 2 ^ 63"
    using wf_tensorD(2)[OF wf] sv(2) by (auto intro: le_less_trans[OF mult_le_mono1])
  moreover have "byte_offset v < 2 ^ 63"
  proof -
    have "int (byte_offset v) \<le> int (length (t_buf t))"
      using view_inside_elem(2)[OF wf up[OF i0]] el[OF i0] sv by simp
    then show ?thesis using wf_tensorD(4)[OF wf] by simp
  qed
  moreover have "wf_layout (t_layout v)"
    using wl by (simp add: v_def l'_def with_layout_def layout_new_def wf_layout_def t_shape_def)
  ultimately have "wf_tensor v" using wf_tensorD(4)[OF wf] sv(3) by (simp add: wf_tensor_def)
  moreover have "elem v idx = elem t (idx[k := unat start + idx ! k])" if "inside idx (dims v)" for idx
    using el[OF that] by (simp add: elem_def sv)
  ultimately show ?thesis
    using run dv by (simp add: piece_def sv) (simp add: v_def with_layout_def)
qed

text \<open>The sizes that \<open>split\<close> and \<open>chunk\<close> cut an axis into.\<close>

definition split_lens :: "nat \<Rightarrow> nat \<Rightarrow> nat list" where
  "split_lens s n = replicate (n div s) s @ (if n mod s = 0 then [] else [n mod s])"

definition chunk_lens :: "nat \<Rightarrow> nat \<Rightarrow> nat list" where
  "chunk_lens c n = filter (\<lambda>l. 0 < l) (map (\<lambda>i. if i < n mod c then n div c + 1 else n div c) [0..<c])"

lemma split_lens_step:
  assumes "0 < s" and "0 < n"
  shows "split_lens s n = min n s # split_lens s (n - min n s)"
proof (cases "n < s")
  case True
  with assms show ?thesis by (simp add: split_lens_def)
next
  case False
  then have "n div s = Suc ((n - s) div s)" "n mod s = (n - s) mod s"
    using assms by (simp_all add: le_div_geq le_mod_geq)
  with False show ?thesis by (simp add: split_lens_def)
qed

lemma sum_split_lens: "sum_list (split_lens s n) = n"
  using div_mult_mod_eq[of n s] by (auto simp: split_lens_def sum_list_replicate)

lemma sum_filter_pos: "sum_list (filter (\<lambda>l. 0 < l) xs) = sum_list xs" for xs :: "nat list"
  by (induction xs) auto

lemma sum_chunk_prefix:
  "j \<le> c \<Longrightarrow> sum_list (map (\<lambda>i. if i < r then b + 1 else b) [0..<j]) = j * b + min j r"
  by (induction j) (auto simp: min_def)

lemma sum_chunk_lens: "0 < c \<Longrightarrow> sum_list (chunk_lens c n) = n"
  unfolding chunk_lens_def sum_filter_pos sum_chunk_prefix[OF order_refl]
  using mod_less_divisor[of c n] by (simp add: min_absorb2 less_imp_le)

lemma split_loop_pieces:
  assumes wf: "wf_tensor t" and nz: "0 < prod_list (dims t)" and d: "normalize_dim d (length (t_shape t)) = Some k"
    and s: "split_size \<noteq> 0" and start: "unat start \<le> dims t ! k"
  shows "\<exists>vs. split_loop t d split_size (t_shape t ! k) start result = Inr (result @ vs) \<and>
    pieces t k (unat start) (split_lens (unat split_size) (dims t ! k - unat start)) vs"
  using start
proof (induction "dims t ! k - unat start" arbitrary: start result rule: less_induct)
  case less
  let ?n = "t_shape t ! k"
  have dk: "dims t ! k = unat ?n" using normalized_dim_less[OF d] by (simp add: dims_def)
  have s0: "0 < unat split_size" using s by (simp add: unat_gt_0)
  show ?case
  proof (cases "start < ?n")
    case False
    then have "dims t ! k - unat start = 0" using dk by (simp add: word_less_nat_alt)
    with False show ?thesis by (intro exI[of _ "[]"]) (simp add: split_lens_def)
  next
    case True
    let ?len = "min (?n - start) split_size" and ?m = "dims t ! k - unat start"
    have m: "0 < ?m" using True dk by (simp add: word_less_nat_alt)
    have ul: "unat ?len = min ?m (unat split_size)"
      using True dk by (auto simp: min_def word_le_nat_alt unat_sub word_less_nat_alt)
    then have pos: "0 < ?len" using m s0 by (simp add: word_less_nat_alt)
    have fit: "unat start + unat ?len \<le> dims t ! k" using ul m by simp
    obtain v where v: "tensor_narrow t d start ?len = Inr v" "piece t k (unat start) (unat ?len) v"
      using tensor_narrow_piece[OF wf nz d pos fit] by blast
    have us: "unat (start + ?len) = unat start + unat ?len"
      using fit dk unat_lt2p[of ?n] by (simp add: unat_word_ariths)
    have "dims t ! k - unat (start + ?len) < ?m" 
    proof -
      have "dims t ! k - unat (start + ?len) = ?m - unat ?len" unfolding us by simp
      moreover have "0 < unat ?len" unfolding ul using m s0 by simp
      ultimately show ?thesis using m by (simp only: diff_less)
    qed
    from less.hyps[OF this, of "result @ [v]"] us fit obtain vs where
      vs: "split_loop t d split_size ?n (start + ?len) (result @ [v]) = Inr ((result @ [v]) @ vs)"
        "pieces t k (unat (start + ?len)) (split_lens (unat split_size) (dims t ! k - unat (start + ?len))) vs"
      by auto
    have "split_loop t d split_size ?n start result = Inr (result @ v # vs)"
      using True s v(1) vs(1) by (simp add: Let_def)
    moreover have "split_lens (unat split_size) ?m = unat ?len # split_lens (unat split_size) (?m - unat ?len)"
      unfolding ul using split_lens_step[OF s0 m] by simp
    ultimately show ?thesis
      using v(2) vs(2) us pos by (intro exI[of _ "v # vs"]) (simp add: word_less_nat_alt)
  qed
qed

lemma chunk_fold_pieces:
  assumes wf: "wf_tensor t" and nz: "0 < prod_list (dims t)" and d: "normalize_dim d (length (t_shape t)) = Some k"
    and c: "c < 2 ^ 64" "i \<le> c"
    and fit: "unat start + sum_list (map (\<lambda>i. if i < unat rm then unat base + 1 else unat base) [i..<c]) \<le> dims t ! k"
  shows "\<exists>vs e. foldE (chunk_step t d base rm) [i..<c] (result, start) = Inr (result @ vs, e) \<and>
    pieces t k (unat start)
      (filter (\<lambda>l. 0 < l) (map (\<lambda>i. if i < unat rm then unat base + 1 else unat base) [i..<c])) vs"
  using c(2) fit
proof (induction "c - i" arbitrary: i start result)
  case 0
  then show ?case by (intro exI[of _ "[]"]) auto
next
  case (Suc n)
  let ?L = "\<lambda>i. if i < unat rm then unat base + 1 else unat base"
  let ?len = "if of_nat i < rm then base + 1 else base"
  have ic: "i < c" using Suc(2,3) by simp
  then have up: "[i..<c] = i # [Suc i..<c]" by (rule upt_conv_Cons)
  have dk: "dims t ! k < 2 ^ 64" using normalized_dim_less[OF d] unat_lt2p by (simp add: dims_def)
  have L: "unat start + ?L i + sum_list (map ?L [Suc i..<c]) \<le> dims t ! k" using Suc.prems(2) up by simp
  have ui: "unat (of_nat i :: usize) = i" using ic c(1) by (simp add: unat_of_nat)
  have "unat base + 1 < 2 ^ 64" if "i < unat rm" using L dk that by simp
  then have ul: "unat ?len = ?L i" using ui by (auto simp: word_less_nat_alt unat_word_ariths)
  have us: "unat (start + ?len) = unat start + ?L i" using L dk ul by (simp add: unat_word_ariths)
  have IH: "\<exists>vs e. foldE (chunk_step t d base rm) [Suc i..<c] (r, start + ?len) = Inr (r @ vs, e) \<and>
      pieces t k (unat (start + ?len)) (filter (\<lambda>l. 0 < l) (map ?L [Suc i..<c])) vs" for r
    by (rule Suc.hyps(1)) (use Suc(2) ic L us in auto)
  show ?case
  proof (cases "0 < ?len")
    case True
    have "unat start + unat ?len \<le> dims t ! k" using L ul by simp
    from tensor_narrow_piece[OF wf nz d True this] obtain v where
      v: "tensor_narrow t d start ?len = Inr v" "piece t k (unat start) (unat ?len) v" by blast
    obtain vs e where vs: "foldE (chunk_step t d base rm) [Suc i..<c] (result @ [v], start + ?len) = Inr ((result @ [v]) @ vs, e)"
        "pieces t k (unat (start + ?len)) (filter (\<lambda>l. 0 < l) (map ?L [Suc i..<c])) vs" using IH by blast
    have "chunk_step t d base rm i (result, start) = Inr (result @ [v], start + ?len)"
      using True v(1) by (simp add: chunk_step_def Let_def)
    moreover have "0 < ?L i"
    proof -
      have "unat (0 :: usize) < unat ?len" using True by (rule iffD1[OF word_less_nat_alt])
      then show ?thesis unfolding ul by simp
    qed
    ultimately show ?thesis
      using v(2) vs us ul up by (intro exI[of _ "v # vs"] exI[of _ e]) simp
  next
    case False
    then have z: "?len = 0" by (simp add: word_neq_0_conv[symmetric])
    obtain vs e where vs: "foldE (chunk_step t d base rm) [Suc i..<c] (result, start + ?len) = Inr (result @ vs, e)"
        "pieces t k (unat (start + ?len)) (filter (\<lambda>l. 0 < l) (map ?L [Suc i..<c])) vs" using IH by blast
    have "chunk_step t d base rm i (result, start) = Inr (result, start)"
      using False by (simp add: chunk_step_def Let_def)
    moreover have "?L i = 0" using ul unfolding z by simp
    ultimately show ?thesis
      using vs z up by (intro exI[of _ vs] exI[of _ e]) simp
  qed
qed

section \<open>Cutting a tensor and putting it together again\<close>

lemma pieces_length: "pieces t k start ls vs \<Longrightarrow> length vs = length ls"
  by (induction t k start ls vs rule: pieces.induct) auto

lemma pieces_nth:
  "pieces t k start ls vs \<Longrightarrow> j < length vs \<Longrightarrow>
   0 < ls ! j \<and> piece t k (start + sum_list (take j ls)) (ls ! j) (vs ! j)"
proof (induction t k start ls vs arbitrary: j rule: pieces.induct)
  case (2 t k start l ls v vs)
  then show ?case by (cases j) (auto simp: add.assoc)
qed auto

lemma contents_eqI:
  assumes "dims s = dims t" and "\<And>idx. inside idx (dims t) \<Longrightarrow> elem s idx = elem t idx"
  shows "contents s = contents t"
  unfolding contents_elems assms(1) using assms(2)[OF unravel_inside]
  by (intro arg_cong[where f = concat]) simp

lemma nth_of_sum:
  "x < sum_list ls \<Longrightarrow> \<exists>j < length ls. \<exists>y < ls ! j. x = sum_list (take j ls) + y" for ls :: "nat list"
proof (induction ls arbitrary: x)
  case (Cons l ls)
  show ?case
  proof (cases "x < l")
    case True
    then show ?thesis by (intro exI[of _ 0]) auto
  next
    case False
    then have "x - l < sum_list ls" using Cons.prems by auto
    from Cons.IH[OF this] obtain j y where
      "j < length ls" "y < ls ! j" "x - l = sum_list (take j ls) + y" by blast
    with False show ?thesis by (intro exI[of _ "Suc j"]) auto
  qed
qed simp

lemma map_unat_inj: "map unat xs = map unat ys \<Longrightarrow> xs = (ys :: usize list)"
proof -
  have "inj (unat :: usize \<Rightarrow> nat)" by (rule injI, rule iffD2[OF word_unat_eq_iff])
  then show "map unat xs = map unat ys \<Longrightarrow> xs = ys" by (simp add: inj_map_eq_map)
qed

lemma piece_shape:
  assumes "piece t k start l v" and "k < length (t_shape t)"
  shows "t_shape v = (t_shape t)[k := t_shape v ! k]" and "dims v ! k = l"
    and "length (t_shape v) = length (t_shape t)"
proof -
  have d: "dims v = (dims t)[k := l]" using assms(1) by (simp add: piece_def)
  then show l: "length (t_shape v) = length (t_shape t)" by (metis length_dims length_list_update)
  show dk: "dims v ! k = l" using d assms(2) by simp
  have "map unat (t_shape v) = map unat ((t_shape t)[k := t_shape v ! k])"
  proof -
    have "unat (t_shape v ! k) = l" using dk l assms(2) by (simp add: dims_def)
    with d show ?thesis by (simp add: dims_def map_update)
  qed
  then show "t_shape v = (t_shape t)[k := t_shape v ! k]" by (rule map_unat_inj)
qed

lemma pieces_cat:
  assumes wf: "wf_tensor t" and ok: "alloc_ok alloc" and some: "\<forall>n. alloc n \<noteq> None"
    and d: "normalize_dim d (length (t_shape t)) = Some k"
    and nz: "0 < prod_list (dims t)" and ps: "pieces t k 0 ls vs" and total: "sum_list ls = dims t ! k"
  shows "\<exists>out. cat_impl alloc vs d = Some (Inr out) \<and> same_elems t out"
proof -
  have k: "k < length (t_shape t)" by (rule normalized_dim_less[OF d])
  have lv: "length vs = length ls" by (rule pieces_length[OF ps])
  have "dims t ! k \<noteq> 0" using nz k prod_list_zero_iff[of "dims t"] by (metis length_dims nth_mem neq0_conv)
  then have "ls \<noteq> []" using total by auto
  then obtain s rest where vs: "vs = s # rest" using lv by (cases vs) auto
  have pc: "piece t k (sum_list (take j ls)) (ls ! j) (vs ! j)" if "j < length vs" for j
    using pieces_nth[OF ps that] by simp
  have all: "\<exists>j < length vs. v = vs ! j \<and> piece t k (sum_list (take j ls)) (ls ! j) v" if "v \<in> set vs" for v
    using that pc by (metis in_set_conv_nth)
  have shp: "t_shape v = (t_shape t)[k := t_shape v ! k] \<and> t_dtype v = t_dtype t \<and> wf_tensor v \<and>
      length (t_shape v) = length (t_shape t)" if "v \<in> set vs" for v
    using all[OF that] piece_shape[OF _ k] by (metis piece_def)
  have s: "s \<in> set vs" by (simp add: vs)
  have comp: "\<forall>v \<in> set vs. cat_compatible k s v"
    unfolding cat_compatible_def
  proof (intro ballI conjI allI impI)
    fix v i assume v: "v \<in> set vs" and "i < length (t_shape s)" "i \<noteq> k"
    then show "t_shape v ! i = t_shape s ! i"
      using shp[OF v] shp[OF s] by (metis nth_list_update_neq)
  qed (use shp s in auto)
  have dsum: "map (\<lambda>v. dims v ! k) vs = ls"
    by (rule nth_equalityI) (use lv piece_shape(2)[OF pc k] in simp_all)
  have ds: "(dims s)[k := dims t ! k] = dims t"
  proof -
    have "dims s = (dims t)[k := dims s ! k]" using shp[OF s] k by (metis dims_def map_update nth_map)
    then show ?thesis by (metis list_update_id list_update_overwrite)
  qed
  have v: "validate_cat vs d = Inr p \<Longrightarrow> cp_dim_idx p = k" for p
    using shp[OF s] d by (auto simp: validate_cat_Inr vs Let_def)
  have "\<exists>p. validate_cat vs d = Inr p"
    unfolding validate_cat_Inr using vs comp d k shp[OF s] by (intro exI) (auto simp: Let_def)
  then obtain p where p: "validate_cat vs d = Inr p" by blast
  have hd: "hd vs = s" and sz: "elem_size s = elem_size t" using shp[OF s] by (simp_all add: vs elem_size_def)
  have small: "dims t ! k < 2 ^ 63" "prod_list (dims t) * elem_size t < 2 ^ 63"
  proof -
    show "prod_list (dims t) * elem_size t < 2 ^ 63" by (rule wf_tensorD(2)[OF wf])
    have n: "0 < prod_list (take k (dims t)) * (dims t ! k * prod_list (drop (Suc k) (dims t)))"
      and e: "prod_list (dims t) = prod_list (take k (dims t)) * (dims t ! k * prod_list (drop (Suc k) (dims t)))"
      using nz split_at[of k "dims t"] k by (metis length_dims prod_list.append prod_list.Cons)+
    then have "dims t ! k \<le> prod_list (dims t)" by (simp add: Suc_le_eq)
    then show "dims t ! k < 2 ^ 63" using wf_tensor_small[OF wf] by (rule le_less_trans)
  qed
  have fits: "sum_list (map (\<lambda>v. dims v ! k') vs) < 2 ^ 63 \<and>
      prod_list ((dims (hd vs))[k' := sum_list (map (\<lambda>v. dims v ! k') vs)]) * elem_size (hd vs) < 2 ^ 63"
    if "normalize_dim d (length (t_shape (hd vs))) = Some k'" for k'
  proof -
    have "k' = k" using that d shp[OF s] by (simp add: hd)
    then show ?thesis using small by (simp add: hd dsum total ds sz)
  qed
  have wfs: "\<forall>v \<in> set vs. wf_tensor v" using shp by simp
  have "case validate_cat vs d of
      Inl e \<Rightarrow> cat_impl alloc vs d = Some (Inl e)
    | Inr p \<Rightarrow> \<exists>out. cat_impl alloc vs d = Some (Inr out) \<and> wf_tensor out \<and> t_dtype out = t_dtype (hd vs) \<and>
        dims out = (dims (hd vs))[cp_dim_idx p := sum_list (map (\<lambda>t. dims t ! cp_dim_idx p) vs)] \<and>
        (\<forall>j < length vs. \<forall>idx. inside idx (dims (vs ! j)) \<longrightarrow>
           elem out (idx[cp_dim_idx p :=
             sum_list (map (\<lambda>t. dims t ! cp_dim_idx p) (take j vs)) + idx ! cp_dim_idx p]) = elem (vs ! j) idx)"
    by (rule cat_impl_eq[OF wfs ok some fits])
  then obtain out where
    run: "cat_impl alloc vs d = Some (Inr out)" and wo: "wf_tensor out" and dt: "t_dtype out = t_dtype s"
    and dout: "dims out = dims t"
    and el: "\<And>j idx. j < length vs \<Longrightarrow> inside idx (dims (vs ! j)) \<Longrightarrow>
      elem out (idx[k := sum_list (map (\<lambda>v. dims v ! k) (take j vs)) + idx ! k]) = elem (vs ! j) idx"
    unfolding p sum.case v[OF p] hd dsum total ds by blast
  have "elem out idx = elem t idx" if idx: "inside idx (dims t)" for idx
  proof -
    have kl: "k < length idx" using idx k by (simp add: inside_nth)
    have "idx ! k < sum_list ls" using idx k total by (simp add: inside_nth)
    from nth_of_sum[OF this] obtain j y where j: "j < length ls" and y: "y < ls ! j"
      and x: "idx ! k = sum_list (take j ls) + y" by blast
    have jv: "j < length vs" using j lv by simp
    have ins: "inside (idx[k := y]) (dims (vs ! j))"
      using pc[OF jv] idx y k by (auto simp: piece_def inside_nth nth_list_update)
    have "map (\<lambda>v. dims v ! k) (take j vs) = take j ls" by (simp add: dsum[symmetric] take_map)
    then have "elem out idx = elem (vs ! j) (idx[k := y])"
      using el[OF jv ins] kl x by (metis list_update_id list_update_overwrite nth_list_update_eq)
    also have "\<dots> = elem t idx"
      using pc[OF jv] ins kl x by (simp add: piece_def) (metis list_update_id)
    finally show ?thesis .
  qed
  then have "contents out = contents t" by (intro contents_eqI) (simp_all add: dout)
  moreover have "t_shape out = t_shape t" using dout by (auto simp: dims_def intro: map_unat_inj)
  ultimately show ?thesis using run wo dt shp[OF s] by (simp add: same_elems_def)
qed

text \<open>
  C29. Splitting. Along any accepted axis of a tensor with elements, whatever its strides, \<open>split\<close> with
  a positive size and \<open>chunk\<close> with a positive count return views of the same storage, no copies, that
  cut the axis into consecutive pieces: \<open>split\<close> pieces of the given size and one of the rest,
  \<open>chunk\<close> as many as asked, the first ones larger by one, empty ones left out. Element \<open>idx\<close> of a piece
  is the tensor's element at \<open>idx\<close> moved by the start of the piece, and concatenating the pieces gives
  back the tensor's elements in row-major order.
\<close>

theorem split_chunk_cat:
  assumes "wf_tensor t" and "0 < prod_list (dims t)" and "normalize_dim d (length (t_shape t)) = Some k"
    and "alloc_ok alloc" and "\<forall>n. alloc n \<noteq> None" and "split_size \<noteq> 0" and "chunks \<noteq> 0"
  shows "(\<exists>vs out. split_impl t split_size d = Inr vs \<and>
      pieces t k 0 (split_lens (unat split_size) (dims t ! k)) vs \<and>
      cat_impl alloc vs d = Some (Inr out) \<and> same_elems t out) \<and>
    (\<exists>vs out. chunk_impl t chunks d = Inr vs \<and>
      pieces t k 0 (chunk_lens (unat chunks) (dims t ! k)) vs \<and>
      cat_impl alloc vs d = Some (Inr out) \<and> same_elems t out)"
proof -
  have k: "k < length (t_shape t)" by (rule normalized_dim_less[OF assms(3)])
  have dk: "dims t ! k = unat (t_shape t ! k)" using k by (simp add: dims_def)
  have nd: "t_ndim t = length (t_shape t)" by (simp add: t_ndim_def layout_ndim_def t_shape_def)
  have nz: "t_ndim t \<noteq> 0" using k nd by (cases "t_ndim t") auto
  note cat = pieces_cat[OF assms(1,4,5,3,2)]
  obtain vs where vs: "split_loop t d split_size (t_shape t ! k) 0 [] = Inr vs"
      "pieces t k 0 (split_lens (unat split_size) (dims t ! k)) vs"
    using split_loop_pieces[OF assms(1,2,3,6), of 0 "[]"] by auto
  have "split_impl t split_size d = Inr vs"
    using assms(3,6) nz nd vs(1) by (simp add: split_impl_def Let_def del: split_loop.simps)
  moreover have c0: "0 < unat chunks" using assms(7) by (simp add: unat_gt_0)
  have cl: "chunk_lens (unat chunks) (dims t ! k) = filter (\<lambda>l. 0 < l)
      (map (\<lambda>i. if i < unat (t_shape t ! k mod chunks) then unat (t_shape t ! k div chunks) + 1
        else unat (t_shape t ! k div chunks)) [0..<unat chunks])"
    by (simp only: chunk_lens_def dk unat_div_distrib unat_mod_distrib)
  have "sum_list (map (\<lambda>i. if i < unat (t_shape t ! k mod chunks) then unat (t_shape t ! k div chunks) + 1
        else unat (t_shape t ! k div chunks)) [0..<unat chunks]) = dims t ! k"
    using sum_chunk_lens[OF c0, of "dims t ! k"] unfolding cl sum_filter_pos .
  then obtain ws e where ws: "foldE (chunk_step t d (t_shape t ! k div chunks) (t_shape t ! k mod chunks))
      [0..<unat chunks] ([], 0) = Inr (ws, e)" "pieces t k 0 (chunk_lens (unat chunks) (dims t ! k)) ws"
    using chunk_fold_pieces[OF assms(1,2,3) unat_lt2p[of chunks] le0, of 0 "t_shape t ! k mod chunks"
        "t_shape t ! k div chunks" "[]"] unfolding cl by auto
  then have "chunk_impl t chunks d = Inr ws"
    using assms(3,7) nz nd by (simp add: chunk_impl_def Let_def)
  ultimately show ?thesis
    using cat[OF vs(2) sum_split_lens] cat[OF ws(2) sum_chunk_lens[OF c0]] vs(2) ws(2) by blast
qed

lemma split_chunk_cat_witness:
  "\<exists>vs out. split_impl sample_view 1 (-1) = Inr vs \<and> length vs = 2 \<and>
     cat_impl sample_alloc vs (-1) = Some (Inr out) \<and> contents out = [1, 3, 2, 4]"
proof -
  have d: "normalize_dim (-1) (length (t_shape sample_view)) = Some 1" by code_simp
  have c: "contents sample_view = [1, 3, 2, 4]" by code_simp
  have p: "0 < prod_list (dims sample_view)" by (simp add: sample_dims)
  have z: "(1 :: usize) \<noteq> 0" by simp
  from split_chunk_cat[OF sample_wf(1) p d sample_alloc_ok z z] obtain vs out where
    "split_impl sample_view 1 (-1) = Inr vs"
    and ps: "pieces sample_view 1 0 (split_lens (unat (1 :: usize)) (dims sample_view ! 1)) vs"
    and "cat_impl sample_alloc vs (-1) = Some (Inr out)" "same_elems sample_view out" by blast
  moreover have "length vs = 2" using pieces_length[OF ps] by (simp add: sample_dims split_lens_def)
  ultimately show ?thesis using c by (auto simp: same_elems_def)
qed

end
