(* ===== verification/Shape_Kernels.thy ===== *)
theory Shape_Kernels
  imports Shape_Ops
begin

text \<open>
  Repeating, padding and rolling on the CPU (\<open>src/runtime/cpu/helpers/shape.rs\<close>) with their shared
  validation (\<open>src/runtime/common/shape_ops.rs\<close>). The kernels are generic in the element type \<open>T\<close>; a
  buffer read at a type of \<open>w\<close> bytes is the list of its consecutive chunks of \<open>w\<close> bytes. The dispatch
  on the element type (\<open>dispatch_dtype!\<close>) has no case for \<open>Bool\<close>; the features \<open>f16\<close> and \<open>fp8\<close> are on. The bytes
  that the padding value has in the element type are a parameter, their computation being a float cast.
\<close>

section \<open>Validation\<close>

definition validate_repeat :: "'b tensor \<Rightarrow> usize list \<Rightarrow> tensor_error + usize list" where
  "validate_repeat t repeats =
     (if length repeats \<noteq> t_ndim t then Inl (InvalidArgument ''repeats'')
      else if list_ex (\<lambda>r. r = 0) repeats then Inl (InvalidArgument ''repeats'')
      else Inr (map (\<lambda>(d, r). d * r) (zip (t_shape t) repeats)))"

record pad_params =
  pp_out_shape :: "usize list"
  pp_pad_per_dim :: "(usize \<times> usize) list"

text \<open>The pairs of \<open>padding\<close> start with the last dimension.\<close>

definition pad_fill :: "nat \<Rightarrow> usize list \<Rightarrow> nat \<Rightarrow> (usize \<times> usize) list \<Rightarrow> (usize \<times> usize) list option" where
  "pad_fill ndim padding i pad_per_dim = do {
     before \<leftarrow> nth_chk padding (i * 2);
     after \<leftarrow> nth_chk padding (i * 2 + 1);
     upd_chk pad_per_dim (ndim - 1 - i) (before, after) }"

definition validate_pad :: "'b tensor \<Rightarrow> usize list \<Rightarrow> pad_params res" where
  "validate_pad t padding =
     (if length padding mod 2 \<noteq> 0 then Some (Inl (InvalidArgument ''padding''))
      else let num_padded_dims = length padding div 2; ndim = t_ndim t
           in if ndim < num_padded_dims then Some (Inl (InvalidArgument ''padding''))
              else map_option (\<lambda>pad_per_dim. Inr
                     \<lparr>pp_out_shape = map (\<lambda>(d, before, after). d + before + after) (zip (t_shape t) pad_per_dim),
                      pp_pad_per_dim = pad_per_dim\<rparr>)
                   (foldM (pad_fill ndim padding) [0..<num_padded_dims] (replicate ndim (0, 0))))"

record roll_params =
  rp_dim_idx :: nat
  rp_shift :: nat
  rp_dim_size :: nat

text \<open>
  The negation of an \<open>isize\<close> in a release build: \<open>isize::MIN\<close> is its own negation. A build with overflow
  checks panics there instead.
\<close>

definition isize_neg :: "int \<Rightarrow> int" where
  "isize_neg s = (if s = - (2 ^ 63) then s else - s)"

definition validate_roll :: "'b tensor \<Rightarrow> int \<Rightarrow> int \<Rightarrow> tensor_error + roll_params" where
  "validate_roll t shift d =
     (let ndim = t_ndim t
      in if ndim = 0 then Inl (InvalidArgument ''tensor'')
         else (case normalize_dim d ndim of
                 None \<Rightarrow> Inl (InvalidDimension d ndim)
               | Some dim_idx \<Rightarrow>
                   let dim_size = unat (t_shape t ! dim_idx)
                   in if dim_size = 0 then Inl (InvalidArgument ''tensor'')
                      else let shift = (if 0 \<le> shift then as_usize shift mod dim_size
                                        else let neg_shift = as_usize (isize_neg shift) mod dim_size
                                             in if neg_shift = 0 then 0 else dim_size - neg_shift)
                           in Inr \<lparr>rp_dim_idx = dim_idx, rp_shift = shift, rp_dim_size = dim_size\<rparr>))"

section \<open>The kernels\<close>

text \<open>
  \<open>coord = remaining / strides[d]; remaining %= strides[d]; offset += f(d, coord) * out[d]\<close> for every
  axis from \<open>d\<close>; \<open>f\<close> is what each kernel does with a coordinate, \<open>None\<close> a division by zero.
\<close>

fun offset_loop :: "(nat \<Rightarrow> nat \<Rightarrow> nat option) \<Rightarrow> nat \<Rightarrow> nat list \<Rightarrow> nat list \<Rightarrow> nat \<Rightarrow> nat option" where
  "offset_loop f d (s # ss) (m # ms) remaining =
     (if s = 0 then None
      else do {
        c \<leftarrow> f d (remaining div s);
        rest \<leftarrow> offset_loop f (Suc d) ss ms (remaining mod s);
        Some (c * m + rest) })"
| "offset_loop f d _ _ remaining = Some 0"

definition repeat_kernel :: "'a list \<Rightarrow> 'a list \<Rightarrow> nat list \<Rightarrow> nat list \<Rightarrow> 'a list option" where
  "repeat_kernel src dst in_shape out_shape = do {
     let ndim = length in_shape;
     let out_numel = prod_list out_shape;
     in_strides \<leftarrow> row_strides ndim in_shape;
     out_strides \<leftarrow> row_strides ndim out_shape;
     foldM (\<lambda>out_idx dst. do {
        src_offset \<leftarrow> offset_loop (\<lambda>d c. do { n \<leftarrow> nth_chk in_shape d; (if n = 0 then None else Some (c mod n)) })
          0 out_strides in_strides out_idx;
        v \<leftarrow> nth_chk src src_offset;
        upd_chk dst out_idx v }) [0..<out_numel] dst }"

definition pad_copy_kernel :: "'a list \<Rightarrow> 'a list \<Rightarrow> nat list \<Rightarrow> nat list \<Rightarrow> (nat \<times> nat) list \<Rightarrow> 'a list option" where
  "pad_copy_kernel src dst in_shape out_shape pad_per_dim = do {
     let ndim = length in_shape;
     let in_numel = prod_list in_shape;
     in_strides \<leftarrow> row_strides ndim in_shape;
     out_strides \<leftarrow> row_strides ndim out_shape;
     foldM (\<lambda>in_idx dst. do {
        dst_offset \<leftarrow> offset_loop (\<lambda>d c. do { p \<leftarrow> nth_chk pad_per_dim d; Some (c + fst p) })
          0 in_strides out_strides in_idx;
        v \<leftarrow> nth_chk src in_idx;
        upd_chk dst dst_offset v }) [0..<in_numel] dst }"

definition roll_kernel :: "'a list \<Rightarrow> 'a list \<Rightarrow> nat list \<Rightarrow> nat \<Rightarrow> nat \<Rightarrow> nat \<Rightarrow> 'a list option" where
  "roll_kernel src dst shp dim_idx shift dim_size = do {
     let ndim = length shp;
     let numel = prod_list shp;
     strd \<leftarrow> row_strides ndim shp;
     foldM (\<lambda>idx dst. do {
        dst_offset \<leftarrow> offset_loop (\<lambda>d c.
            if d = dim_idx then (if dim_size = 0 then None else Some ((c + shift) mod dim_size)) else Some c)
          0 strd strd idx;
        v \<leftarrow> nth_chk src idx;
        upd_chk dst dst_offset v }) [0..<numel] dst }"

section \<open>The operations\<close>

text \<open>A byte buffer from offset \<open>off\<close>, read as elements of \<open>w\<close> bytes.\<close>

definition elems_of :: "nat \<Rightarrow> nat \<Rightarrow> 'b list \<Rightarrow> 'b list list" where
  "elems_of w off buf = map (\<lambda>i. take w (drop (off + i * w) buf)) [0..<(length buf - off) div w]"

text \<open>Allocate the output, make the input contiguous, dispatch on its element type and run the kernel on the two buffers.\<close>

definition run_kernel :: "'b alloc \<Rightarrow> string \<Rightarrow> 'b tensor \<Rightarrow> (tensor_error + 'b tensor) \<Rightarrow>
    ('b list list \<Rightarrow> 'b list list \<Rightarrow> 'b list list option) \<Rightarrow> 'b tensor res" where
  "run_kernel alloc error_op t out kern =
     bindR (Some out) (\<lambda>out.
       bindR (ensure_contiguous alloc t) (\<lambda>c.
         if t_dtype t = Bool then Some (Inl (UnsupportedDType Bool error_op))
         else map_option (\<lambda>dst. Inr (out\<lparr>t_buf := concat dst\<rparr>))
           (kern (elems_of (elem_size t) (unat (ptr_offset c)) (t_buf c))
              (elems_of (elem_size t) (unat (ptr_offset out)) (t_buf out)))))"

definition repeat_impl :: "'b alloc \<Rightarrow> 'b tensor \<Rightarrow> usize list \<Rightarrow> 'b tensor res" where
  "repeat_impl alloc t repeats =
     bindR (Some (validate_repeat t repeats)) (\<lambda>out_shape.
       if list_all (\<lambda>r. r = 1) repeats then Some (Inr t)
       else run_kernel alloc ''repeat'' t (tensor_empty alloc out_shape (t_dtype t))
              (\<lambda>src dst. repeat_kernel src dst (map unat (t_shape t)) (map unat out_shape)))"

text \<open>\<open>Tensor::full_scalar\<close>; \<open>encode dt\<close> are the bytes of the value in element type \<open>dt\<close>.\<close>

definition full_scalar :: "'b alloc \<Rightarrow> (dtype \<Rightarrow> 'b list) \<Rightarrow> usize list \<Rightarrow> dtype \<Rightarrow> tensor_error + 'b tensor" where
  "full_scalar alloc encode shp dt =
     (let len = unat (prod_list shp)
      in if len = 0 then tensor_empty alloc shp dt
         else let bytes = concat (replicate len (encode dt))
              in case alloc (length bytes) of
                   None \<Rightarrow> Inl (AllocFailed shp dt)
                 | Some _ \<Rightarrow> Inr \<lparr>t_dtype = dt, t_layout = layout_contiguous shp, t_buf = bytes\<rparr>)"

definition pad_impl :: "'b alloc \<Rightarrow> (dtype \<Rightarrow> 'b list) \<Rightarrow> 'b tensor \<Rightarrow> usize list \<Rightarrow> 'b tensor res" where
  "pad_impl alloc encode t padding =
     bindR (validate_pad t padding) (\<lambda>p.
       if list_all (\<lambda>(b, a). b = 0 \<and> a = 0) (pp_pad_per_dim p) then Some (Inr t)
       else run_kernel alloc ''pad'' t (full_scalar alloc encode (pp_out_shape p) (t_dtype t))
              (\<lambda>src dst. pad_copy_kernel src dst (map unat (t_shape t)) (map unat (pp_out_shape p))
                 (map (\<lambda>(b, a). (unat b, unat a)) (pp_pad_per_dim p))))"

definition roll_impl :: "'b alloc \<Rightarrow> 'b tensor \<Rightarrow> int \<Rightarrow> int \<Rightarrow> 'b tensor res" where
  "roll_impl alloc t shift d =
     bindR (Some (validate_roll t shift d)) (\<lambda>p.
       if rp_shift p = 0 then Some (Inr t)
       else run_kernel alloc ''roll'' t (tensor_empty alloc (t_shape t) (t_dtype t))
              (\<lambda>src dst. roll_kernel src dst (map unat (t_shape t)) (rp_dim_idx p) (rp_shift p) (rp_dim_size p)))"

section \<open>Offsets\<close>

lemma row_strides_all: "length shp = n \<Longrightarrow> row_strides n shp = Some (row_prods shp)"
  by (cases n) (simp_all add: row_strides_eq, simp add: row_strides_def)

lemma offset_loop_eq:
  assumes "0 < prod_list shp" and "length shp' = length shp" and "length g = length shp"
    and "\<And>i. i < length shp \<Longrightarrow> f (d + i) (unravel shp k ! i) = Some (g ! i)"
  shows "offset_loop f d (row_prods shp) (row_prods shp') k = Some (ravel shp' g)"
  using assms
proof (induction shp arbitrary: shp' g d k)
  case (Cons n ns)
  then obtain m ms where shp': "shp' = m # ms" by (cases shp') auto
  from Cons.prems obtain c cs where g: "g = c # cs" by (cases g) auto
  have pos: "0 < prod_list ns" using Cons.prems(1) by simp
  have f0: "f d (k div prod_list ns) = Some c" using Cons.prems(4)[of 0] g by simp
  have "offset_loop f (Suc d) (row_prods ns) (row_prods ms) (k mod prod_list ns) = Some (ravel ms cs)"
  proof (rule Cons.IH[OF pos])
    fix i assume "i < length ns"
    with Cons.prems(4)[of "Suc i"] g show "f (Suc d + i) (unravel ns (k mod prod_list ns) ! i) = Some (cs ! i)"
      by simp
  qed (use Cons.prems shp' g in auto)
  with f0 pos show ?case by (simp add: shp' g)
qed simp

text \<open>A loop that writes every value to a place of its own.\<close>

lemma foldM_scatter:
  assumes step: "\<And>k dst. k < n \<Longrightarrow> length dst = L \<Longrightarrow> f k dst = Some (dst[g k := v k])"
    and less: "\<And>k. k < n \<Longrightarrow> g k < L" and inj: "inj_on g {..<n}" and len: "length dst = L"
  shows "\<exists>dst'. foldM f [0..<n] dst = Some dst' \<and> length dst' = L \<and> (\<forall>k < n. dst' ! g k = v k) \<and>
    (\<forall>p < L. p \<notin> g ` {..<n} \<longrightarrow> dst' ! p = dst ! p) \<and> set dst' \<subseteq> set dst \<union> v ` {..<n}"
proof -
  let ?I = "\<lambda>m dst'. length dst' = L \<and> (\<forall>k < m. dst' ! g k = v k) \<and>
      (\<forall>p < L. p \<notin> g ` {..<m} \<longrightarrow> dst' ! p = dst ! p) \<and> set dst' \<subseteq> set dst \<union> v ` {..<m}"
  have "\<exists>dst'. foldM f [0..<n] dst = Some dst' \<and> ?I n dst'"
  proof (rule foldM_upt_rule[where I = ?I])
    fix m dst' assume m: "m < n" and I: "?I m dst'"
    have "(dst'[g m := v m]) ! g k = v k" if k: "k < Suc m" for k
    proof (cases "k = m")
      case True
      with I less[OF m] show ?thesis by simp
    next
      case False
      then have "k < m" using k by simp
      moreover have "g k \<noteq> g m" using inj \<open>k < m\<close> m by (auto simp: inj_on_def)
      ultimately show ?thesis using I by simp
    qed
    moreover have "(dst'[g m := v m]) ! p = dst ! p" if "p < L" "p \<notin> g ` {..<Suc m}" for p
      using that I by (auto simp: lessThan_Suc)
    moreover have "set (dst'[g m := v m]) \<subseteq> set dst \<union> v ` {..<Suc m}"
      using I set_update_subset_insert[of dst' "g m" "v m"] by (auto simp: lessThan_Suc)
    ultimately show "\<exists>dst''. f m dst' = Some dst'' \<and> ?I (Suc m) dst''"
      using step[OF m, of dst'] I by auto
  qed (use len in auto)
  then show ?thesis by blast
qed

section \<open>What the kernels compute\<close>

lemma mod_shift_inj:
  fixes a b n s :: nat
  assumes "a < n" "b < n" "(a + s) mod n = (b + s) mod n"
  shows "a = b"
proof -
  define r where "r = s mod n"
  have r: "r < n" using assms(1) by (simp add: r_def)
  have red: "(x + s) mod n = (x + r) mod n" for x unfolding r_def by (rule mod_add_right_eq[symmetric])
  have "(x + r) mod n = (if x + r < n then x + r else x + r - n)" if "x < n" for x
    using that r by (simp add: mod_if)
  with assms have "(if a + r < n then a + r else a + r - n) = (if b + r < n then b + r else b + r - n)"
    by (simp only: red)
  then show ?thesis using assms(1,2) r by (simp split: if_splits)
qed

lemma ravel_inj: "inside x shp \<Longrightarrow> inside y shp \<Longrightarrow> ravel shp x = ravel shp y \<Longrightarrow> x = y"
  by (metis unravel_ravel)

lemma roll_kernel_eq:
  assumes pos: "0 < prod_list shp" and k: "k < length shp" and n: "n = shp ! k"
    and src: "prod_list shp \<le> length src" and dst: "length dst = prod_list shp"
  shows "\<exists>dst'. roll_kernel src dst shp k shift n = Some dst' \<and> length dst' = prod_list shp \<and>
    set dst' \<subseteq> set dst \<union> set src \<and>
    (\<forall>idx. inside idx shp \<longrightarrow> dst' ! ravel shp (idx[k := (idx ! k + shift) mod n]) = src ! ravel shp idx)"
proof -
  let ?to = "\<lambda>idx. idx[k := (idx ! k + shift) mod n]"
  let ?g = "\<lambda>j. ravel shp (?to (unravel shp j))"
  let ?f = "\<lambda>d c. if d = k then (if n = 0 then None else Some ((c + shift) mod n)) else Some c"
  let ?step = "\<lambda>idx dst. do {
        dst_offset \<leftarrow> offset_loop ?f 0 (row_prods shp) (row_prods shp) idx;
        v \<leftarrow> nth_chk src idx;
        upd_chk dst dst_offset v }"
  have n0: "0 < n" using pos k n prod_list_zero_iff[of shp] by (metis gr0I nth_mem)
  have ins: "inside (?to idx) shp" if "inside idx shp" for idx
    using that k n n0 by (auto simp: inside_nth nth_list_update)
  have off: "offset_loop ?f 0 (row_prods shp) (row_prods shp) j = Some (?g j)" for j
    by (rule offset_loop_eq) (use pos n0 k in \<open>auto simp: nth_list_update\<close>)
  have less: "?g j < prod_list shp" if "j < prod_list shp" for j
    by (rule ravel_less[OF ins[OF unravel_inside[OF that]]])
  have to_inj: "x = y" if "inside x shp" "inside y shp" "?to x = ?to y" for x y
  proof (rule nth_equalityI)
    show l: "length x = length y" using that by (simp add: inside_nth)
    fix i assume i: "i < length x"
    have kl: "k < length x" "k < length y" using that(1,2) k by (simp_all add: inside_nth)
    show "x ! i = y ! i"
    proof (cases "i = k")
      case True
      have "(x ! k + shift) mod n = (y ! k + shift) mod n" using that(3) kl by (metis nth_list_update_eq)
      then show ?thesis using mod_shift_inj[of "x ! k" n "y ! k" shift] that(1,2) k n True by (simp add: inside_nth)
    next
      case False
      then show ?thesis using that(3) by (metis nth_list_update_neq)
    qed
  qed
  have "inj_on ?g {..<prod_list shp}"
  proof (rule inj_onI)
    fix i j assume ij: "i \<in> {..<prod_list shp}" "j \<in> {..<prod_list shp}" "?g i = ?g j"
    then have "unravel shp i = unravel shp j"
      using ravel_inj[OF ins ins ij(3)] to_inj unravel_inside by (metis lessThan_iff)
    then show "i = j" using ij ravel_unravel by (metis lessThan_iff)
  qed
  moreover have "?step j d = Some (d[?g j := src ! j])" if "j < prod_list shp" "length d = prod_list shp" for j d
    using off[of j] that src less[OF that(1)] by simp
  ultimately obtain dst' where d: "foldM ?step [0..<prod_list shp] dst = Some dst'" "length dst' = prod_list shp"
      "\<forall>j < prod_list shp. dst' ! ?g j = src ! j"
      "set dst' \<subseteq> set dst \<union> (\<lambda>j. src ! j) ` {..<prod_list shp}"
    using foldM_scatter[of "prod_list shp" "prod_list shp" ?step ?g "\<lambda>j. src ! j" dst] less dst by blast
  have "roll_kernel src dst shp k shift n = Some dst'"
    using d(1) by (simp add: roll_kernel_def row_strides_all Let_def)
  moreover have "dst' ! ravel shp (?to idx) = src ! ravel shp idx" if "inside idx shp" for idx
    using d(3)[rule_format, OF ravel_less[OF that]] by (simp add: unravel_ravel[OF that])
  moreover have "(\<lambda>j. src ! j) ` {..<prod_list shp} \<subseteq> set src" using src by auto
  ultimately show ?thesis using d(2,4) by blast
qed

lemma repeat_kernel_eq:
  assumes pos: "0 < prod_list ishp" and len: "length oshp = length ishp"
    and src: "prod_list ishp \<le> length src" and dst: "length dst = prod_list oshp"
  shows "\<exists>dst'. repeat_kernel src dst ishp oshp = Some dst' \<and> length dst' = prod_list oshp \<and>
    set dst' \<subseteq> set src \<and>
    (\<forall>idx. inside idx oshp \<longrightarrow> dst' ! ravel oshp idx = src ! ravel ishp (map2 (mod) idx ishp))"
proof -
  let ?f = "\<lambda>d c. do { n \<leftarrow> nth_chk ishp d; (if n = 0 then None else Some (c mod n)) }"
  let ?from = "\<lambda>j. ravel ishp (map2 (mod) (unravel oshp j) ishp)"
  let ?step = "\<lambda>out_idx dst. do {
        src_offset \<leftarrow> offset_loop ?f 0 (row_prods oshp) (row_prods ishp) out_idx;
        v \<leftarrow> nth_chk src src_offset;
        upd_chk dst out_idx v }"
  have nz: "0 < ishp ! i" if "i < length ishp" for i
    using pos that prod_list_zero_iff[of ishp] by (metis gr0I nth_mem)
  have ins: "inside (map2 (mod) idx ishp) ishp" if "inside idx oshp" for idx
    using that len nz by (simp add: inside_nth)
  have step: "?step j d = Some (d[0 + j := src ! ?from j])" if j: "j < prod_list oshp" and d: "length d = prod_list oshp" for j d
  proof -
    have "offset_loop ?f 0 (row_prods oshp) (row_prods ishp) j = Some (?from j)"
      by (rule offset_loop_eq) (use j len nz in auto)
    moreover have "?from j < length src" using ravel_less[OF ins[OF unravel_inside[OF j]]] src by simp
    ultimately show ?thesis using j d by simp
  qed
  have "foldM ?step [0..<prod_list oshp] dst =
      Some (take 0 dst @ map (\<lambda>j. src ! ?from j) [0..<prod_list oshp] @ drop (0 + prod_list oshp) dst)"
    by (rule foldM_fill_each[where L = "prod_list oshp"]) (use step dst in auto)
  then have "repeat_kernel src dst ishp oshp = Some (map (\<lambda>j. src ! ?from j) [0..<prod_list oshp])"
    using len dst by (simp add: repeat_kernel_def row_strides_all Let_def)
  moreover have "?from j < length src" if "j < prod_list oshp" for j
    using ravel_less[OF ins[OF unravel_inside[OF that]]] src by simp
  ultimately show ?thesis by (auto simp: ravel_less unravel_ravel)
qed

text \<open>A position of the padded shape that comes from the input.\<close>

definition from_input :: "nat list \<Rightarrow> nat list \<Rightarrow> nat list \<Rightarrow> bool" where
  "from_input ishp before idx \<longleftrightarrow> (\<forall>i < length ishp. before ! i \<le> idx ! i \<and> idx ! i < before ! i + ishp ! i)"

lemma pad_copy_kernel_eq:
  assumes pos: "0 < prod_list oshp" and len: "length oshp = length ishp" "length pads = length ishp"
    and fit: "\<And>i. i < length ishp \<Longrightarrow> fst (pads ! i) + ishp ! i \<le> oshp ! i"
    and src: "prod_list ishp \<le> length src" and dst: "length dst = prod_list oshp"
  shows "\<exists>dst'. pad_copy_kernel src dst ishp oshp pads = Some dst' \<and> length dst' = prod_list oshp \<and>
    set dst' \<subseteq> set dst \<union> set src \<and>
    (\<forall>idx. inside idx oshp \<longrightarrow> dst' ! ravel oshp idx =
       (if from_input ishp (map fst pads) idx then src ! ravel ishp (map2 (-) idx (map fst pads))
        else dst ! ravel oshp idx))"
proof -
  let ?to = "\<lambda>idx. map2 (+) idx (map fst pads)"
  let ?g = "\<lambda>j. ravel oshp (?to (unravel ishp j))"
  let ?f = "\<lambda>d c. do { p \<leftarrow> nth_chk pads d; Some (c + fst p) }"
  let ?step = "\<lambda>in_idx dst. do {
        dst_offset \<leftarrow> offset_loop ?f 0 (row_prods ishp) (row_prods oshp) in_idx;
        v \<leftarrow> nth_chk src in_idx;
        upd_chk dst dst_offset v }"
  have to_nth: "?to idx ! i = idx ! i + fst (pads ! i)" if "inside idx ishp" "i < length ishp" for idx i
    using that len by (simp add: inside_nth)
  have ins: "inside (?to idx) oshp" if "inside idx ishp" for idx
    using that len fit by (fastforce simp: inside_nth)
  have less: "?g j < prod_list oshp" if "j < prod_list ishp" for j
    by (rule ravel_less[OF ins[OF unravel_inside[OF that]]])
  have undo: "map2 (-) (?to idx) (map fst pads) = idx" if "inside idx ishp" for idx
    by (rule nth_equalityI) (use that len in \<open>auto simp: inside_nth\<close>)
  have step: "?step j d = Some (d[?g j := src ! j])" if j: "j < prod_list ishp" and d: "length d = prod_list oshp" for j d
  proof -
    have "0 < prod_list ishp" using j by simp
    then have "offset_loop ?f 0 (row_prods ishp) (row_prods oshp) j = Some (?g j)"
      by (rule offset_loop_eq) (use len in auto)
    then show ?thesis using j d src less[OF j] by simp
  qed
  have injg: "inj_on ?g {..<prod_list ishp}"
  proof (rule inj_onI)
    fix i j assume ij: "i \<in> {..<prod_list ishp}" "j \<in> {..<prod_list ishp}" "?g i = ?g j"
    then have "?to (unravel ishp i) = ?to (unravel ishp j)"
      using ravel_inj[OF ins ins ij(3)] unravel_inside by (metis lessThan_iff)
    then have "unravel ishp i = unravel ishp j" using undo unravel_inside ij by (metis lessThan_iff)
    then show "i = j" using ij ravel_unravel by (metis lessThan_iff)
  qed
  obtain dst' where d: "foldM ?step [0..<prod_list ishp] dst = Some dst'" "length dst' = prod_list oshp"
      "\<forall>j < prod_list ishp. dst' ! ?g j = src ! j"
      "\<forall>p < prod_list oshp. p \<notin> ?g ` {..<prod_list ishp} \<longrightarrow> dst' ! p = dst ! p"
      "set dst' \<subseteq> set dst \<union> (\<lambda>j. src ! j) ` {..<prod_list ishp}"
    using foldM_scatter[of "prod_list ishp" "prod_list oshp" ?step ?g "\<lambda>j. src ! j" dst] step less injg dst by blast
  have run: "pad_copy_kernel src dst ishp oshp pads = Some dst'"
    using d(1) len by (simp add: pad_copy_kernel_def row_strides_all Let_def)
  have "dst' ! ravel oshp idx = (if from_input ishp (map fst pads) idx
      then src ! ravel ishp (map2 (-) idx (map fst pads)) else dst ! ravel oshp idx)"
    if idx: "inside idx oshp" for idx
  proof (cases "from_input ishp (map fst pads) idx")
    case True
    let ?x = "map2 (-) idx (map fst pads)"
    have x: "inside ?x ishp" using True idx len by (auto simp: inside_nth from_input_def)
    have "?to ?x = idx" by (rule nth_equalityI) (use True idx len in \<open>auto simp: inside_nth from_input_def\<close>)
    then have "?g (ravel ishp ?x) = ravel oshp idx" by (simp only: unravel_ravel[OF x])
    with d(3)[rule_format, OF ravel_less[OF x]] True show ?thesis by simp
  next
    case False
    have "ravel oshp idx \<notin> ?g ` {..<prod_list ishp}"
    proof
      assume "ravel oshp idx \<in> ?g ` {..<prod_list ishp}"
      then obtain j where j: "j < prod_list ishp" "ravel oshp idx = ?g j" by auto
      have "idx = ?to (unravel ishp j)" by (rule ravel_inj[OF idx ins[OF unravel_inside[OF j(1)]] j(2)])
      then have "from_input ishp (map fst pads) idx"
        using unravel_inside[OF j(1)] len by (auto simp: from_input_def inside_nth)
      with False show False by simp
    qed
    with d(4) ravel_less[OF idx] False show ?thesis by simp
  qed
  moreover have "(\<lambda>j. src ! j) ` {..<prod_list ishp} \<subseteq> set src" using src by auto
  ultimately show ?thesis using run d(2,5) by blast
qed

section \<open>Running a kernel on tensors\<close>

lemma length_elems_of: "length (elems_of w off buf) = (length buf - off) div w"
  by (simp add: elems_of_def)

lemma elems_of_chunks: "x \<in> set (elems_of w off buf) \<Longrightarrow> length x = w"
proof -
  assume "x \<in> set (elems_of w off buf)"
  then obtain i where i: "i < (length buf - off) div w" and x: "x = take w (drop (off + i * w) buf)"
    by (auto simp: elems_of_def)
  have "Suc i * w \<le> (length buf - off) div w * w" using i by (intro mult_le_mono1) simp
  also have "\<dots> \<le> length buf - off" by (rule div_times_less_eq_dividend)
  finally show ?thesis using x i by (cases "w = 0") auto
qed

lemma elems_of_contiguous:
  assumes wf: "wf_tensor c" and lc: "layout_is_contiguous (t_layout c)" and pos: "0 < prod_list (dims c)"
  shows "prod_list (dims c) \<le> length (elems_of (elem_size c) (unat (ptr_offset c)) (t_buf c))"
    and "inside idx (dims c) \<Longrightarrow> elems_of (elem_size c) (unat (ptr_offset c)) (t_buf c) ! ravel (dims c) idx = elem c idx"
proof -
  let ?w = "elem_size c" and ?n = "prod_list (dims c)" and ?es = "elems_of (elem_size c) (unat (ptr_offset c)) (t_buf c)"
  have b: "byte_offset c + ?n * ?w \<le> length (t_buf c)" by (rule contents_contiguous(2)[OF wf lc pos])
  then show le: "?n \<le> length ?es"
    by (simp add: length_elems_of unat_ptr_offset[OF wf] less_eq_div_iff_mult_less_eq)
  assume idx: "inside idx (dims c)"
  let ?j = "ravel (dims c) idx"
  have j: "?j < ?n" by (rule ravel_less[OF idx])
  have "elem c idx = take ?w (drop (?j * ?w) (contents c))"
  proof (rule nth_equalityI)
    have "Suc ?j * ?w \<le> ?n * ?w" using j by (intro mult_le_mono1) simp
    then have fit: "?j * ?w + ?w \<le> length (contents c)" using length_contents[OF wf] by simp
    then show "length (elem c idx) = length (take ?w (drop (?j * ?w) (contents c)))"
      using length_elem[OF wf idx] by simp
    fix x assume "x < length (elem c idx)"
    then have "x < ?w" using length_elem[OF wf idx] by simp
    then show "elem c idx ! x = take ?w (drop (?j * ?w) (contents c)) ! x"
      using nth_contents[OF wf idx] fit by simp
  qed
  also have "\<dots> = take ?w (drop (byte_offset c + ?j * ?w) (t_buf c))"
  proof -
    have "Suc ?j * ?w \<le> ?n * ?w" using j by (intro mult_le_mono1) simp
    then show ?thesis by (simp add: contents_contiguous(1)[OF wf lc] drop_take take_take add.commute min_def)
  qed
  also have "\<dots> = ?es ! ?j" using j le by (simp add: elems_of_def unat_ptr_offset[OF wf])
  finally show "?es ! ?j = elem c idx" by simp
qed

lemma take_drop_concat:
  "(\<And>x. x \<in> set xs \<Longrightarrow> length x = w) \<Longrightarrow> j < length xs \<Longrightarrow> take w (drop (j * w) (concat xs)) = xs ! j"
proof (induction xs arbitrary: j)
  case (Cons x xs)
  then show ?case by (cases j) auto
qed simp

lemma length_concat_chunks: "(\<And>x. x \<in> set xs \<Longrightarrow> length x = w) \<Longrightarrow> length (concat xs) = length xs * w"
  by (induction xs) auto

lemma elem_of_chunks:
  assumes t: "t = \<lparr>t_dtype = dt, t_layout = layout_contiguous shp, t_buf = concat xs\<rparr>"
    and len: "length xs = prod_list (map unat shp)" and ch: "\<And>x. x \<in> set xs \<Longrightarrow> length x = size_in_bytes dt"
    and small: "prod_list (map unat shp) * size_in_bytes dt < 2 ^ 63"
  shows "wf_tensor t" and "inside idx (map unat shp) \<Longrightarrow> elem t idx = xs ! ravel (map unat shp) idx"
proof -
  have lc: "length (concat xs) = prod_list (map unat shp) * size_in_bytes dt"
    using length_concat_chunks[of xs, OF ch] len by simp
  show wf: "wf_tensor t" by (rule tensor_of_bytes(1)[OF lc small t])
  have d: "dims t = map unat shp" "elem_size t = size_in_bytes dt" "byte_offset t = 0"
    by (simp_all add: t dims_def t_shape_def elem_size_def byte_offset_def layout_contiguous_def)
  assume idx: "inside idx (map unat shp)"
  then have j: "ravel (map unat shp) idx < length xs" using len by (simp add: ravel_less)
  have pos: "0 < prod_list (dims t)" using j len d by simp
  have lt: "layout_is_contiguous (t_layout t)" by (simp only: t tensor.simps contiguous_is_contiguous)
  have po: "unat (ptr_offset t) = 0" by (simp add: unat_ptr_offset[OF wf] d)
  from elems_of_contiguous(2)[OF wf lt pos, of idx] idx
  have "elem t idx = elems_of (size_in_bytes dt) 0 (concat xs) ! ravel (map unat shp) idx"
    by (simp add: d po) (simp add: t)
  also have "\<dots> = take (size_in_bytes dt) (drop (ravel (map unat shp) idx * size_in_bytes dt) (concat xs))"
    using j len lc elem_size_pos[of t] by (simp add: elems_of_def d)
  also have "\<dots> = xs ! ravel (map unat shp) idx" by (rule take_drop_concat[OF ch j])
  finally show "elem t idx = xs ! ravel (map unat shp) idx" .
qed

lemma run_kernel_eq:
  assumes wf: "wf_tensor t" and pos: "0 < prod_list (dims t)" and ok: "alloc_ok alloc" and some: "\<forall>n. alloc n \<noteq> None"
    and nb: "t_dtype t \<noteq> Bool"
    and out: "out = \<lparr>t_dtype = t_dtype t, t_layout = layout_contiguous oshp, t_buf = b\<rparr>"
    and len: "length b = prod_list (map unat oshp) * elem_size t"
    and small: "prod_list (map unat oshp) * elem_size t < 2 ^ 63"
    and kern: "\<And>src. prod_list (dims t) \<le> length src \<Longrightarrow>
      (\<And>idx. inside idx (dims t) \<Longrightarrow> src ! ravel (dims t) idx = elem t idx) \<Longrightarrow>
      \<exists>dst'. kern src (elems_of (elem_size t) 0 b) = Some dst' \<and> length dst' = prod_list (map unat oshp) \<and>
        set dst' \<subseteq> set (elems_of (elem_size t) 0 b) \<union> set src \<and> Q dst'"
  shows "\<exists>r dst'. run_kernel alloc error_op t (Inr out) kern = Some (Inr r) \<and> wf_tensor r \<and> t_shape r = oshp \<and>
    t_dtype r = t_dtype t \<and> Q dst' \<and>
    (\<forall>idx. inside idx (map unat oshp) \<longrightarrow> elem r idx = dst' ! ravel (map unat oshp) idx)"
proof -
  from ensure_contiguous_cases[OF wf ok] some obtain c where
    c: "ensure_contiguous alloc t = Some (Inr c)" "same_elems t c" "layout_is_contiguous (t_layout c)" by auto
  note sD = same_elemsD[OF c(2)]
  have posc: "0 < prod_list (dims c)" using pos sD(5) by simp
  let ?src = "elems_of (elem_size t) (unat (ptr_offset c)) (t_buf c)"
  have "prod_list (dims t) \<le> length ?src" using elems_of_contiguous(1)[OF sD(1) c(3) posc] sD by simp
  moreover have "?src ! ravel (dims t) idx = elem t idx" if idx: "inside idx (dims t)" for idx
    using elems_of_contiguous(2)[OF sD(1) c(3) posc, of idx] elem_eqI[OF sD(1) wf sD(5,6,4) idx] idx sD by simp
  ultimately obtain dst' where d: "kern ?src (elems_of (elem_size t) 0 b) = Some dst'"
      "length dst' = prod_list (map unat oshp)"
      "set dst' \<subseteq> set (elems_of (elem_size t) 0 b) \<union> set ?src" "Q dst'"
    using kern by blast
  have po: "ptr_offset out = 0" by (simp add: out ptr_offset_def layout_contiguous_def)
  define r where "r = \<lparr>t_dtype = t_dtype t, t_layout = layout_contiguous oshp, t_buf = concat dst'\<rparr>"
  have run: "run_kernel alloc error_op t (Inr out) kern = Some (Inr r)"
    using c(1) d(1) nb by (simp add: run_kernel_def po) (simp add: out r_def)
  have ch: "length x = size_in_bytes (t_dtype t)" if "x \<in> set dst'" for x
    using d(3) that elems_of_chunks by (fastforce simp: elem_size_def)
  note es = elem_of_chunks[OF r_def d(2) ch small[unfolded elem_size_def]]
  have "t_shape r = oshp" "t_dtype r = t_dtype t" by (simp_all add: r_def t_shape_def layout_contiguous_def)
  with run es d(4) show ?thesis by blast
qed

section \<open>Rolling\<close>

lemma as_usize_isize_neg:
  assumes "- (2 ^ 63) \<le> s" and "s < 0"
  shows "int (as_usize (isize_neg s)) = - s"
proof (cases "s = - (2 ^ 63)")
  case True
  then show ?thesis by (simp add: isize_neg_def as_usize_def)
next
  case False
  with assms show ?thesis by (simp add: isize_neg_def as_usize_small)
qed

lemma normalized_shift:
  assumes "0 < n" and "- (2 ^ 63) \<le> s" and "s < 2 ^ 63"
  shows "int (if 0 \<le> s then as_usize s mod n
      else let m = as_usize (isize_neg s) mod n in if m = 0 then 0 else n - m) = s mod int n"
proof (cases "0 \<le> s")
  case True
  then have "as_usize s = nat s" using assms(3) by (intro as_usize_small) simp_all
  with True show ?thesis by (simp add: zmod_int)
next
  case False
  then have a: "int (as_usize (isize_neg s)) = - s" using assms(2) by (simp add: as_usize_isize_neg)
  let ?m = "as_usize (isize_neg s) mod n"
  have m: "int ?m = (- s) mod int n" using a by (simp add: zmod_int)
  have "s mod int n = (if (- s) mod int n = 0 then 0 else int n - (- s) mod int n)"
    using zmod_zminus1_eq_if[of "- s" "int n"] by simp
  moreover have "?m < n" using assms(1) by simp
  ultimately show ?thesis using False m by (auto simp: Let_def of_nat_diff simp flip: of_nat_eq_0_iff)
qed

lemma roll_impl_eq:
  assumes wf: "wf_tensor t" and pos: "0 < prod_list (dims t)" and ok: "alloc_ok alloc" and some: "\<forall>n. alloc n \<noteq> None"
    and nb: "t_dtype t \<noteq> Bool"
    and d: "normalize_dim d (length (t_shape t)) = Some k" and s: "- (2 ^ 63) \<le> s" "s < 2 ^ 63"
  shows "\<exists>r. roll_impl alloc t s d = Some (Inr r) \<and> wf_tensor r \<and> t_shape r = t_shape t \<and> t_dtype r = t_dtype t \<and>
    (\<forall>idx. inside idx (dims t) \<longrightarrow>
       elem r (idx[k := nat ((int (idx ! k) + s) mod int (dims t ! k))]) = elem t idx)"
proof -
  let ?n = "dims t ! k"
  have k: "k < length (t_shape t)" by (rule normalized_dim_less[OF d])
  have dk: "?n = unat (t_shape t ! k)" using k by (simp add: dims_def)
  have n0: "0 < ?n" using pos k prod_list_zero_iff[of "dims t"] by (metis gr0I length_dims nth_mem)
  have nd: "t_ndim t = length (t_shape t)" by (simp add: t_ndim_def layout_ndim_def t_shape_def)
  have nz: "t_ndim t \<noteq> 0" using k nd by (cases "t_ndim t") auto
  define sh where "sh = (if 0 \<le> s then as_usize s mod ?n
      else let m = as_usize (isize_neg s) mod ?n in if m = 0 then 0 else ?n - m)"
  have sh: "int sh = s mod int ?n" unfolding sh_def by (rule normalized_shift[OF n0 s])
  have v: "validate_roll t s d = Inr \<lparr>rp_dim_idx = k, rp_shift = sh, rp_dim_size = ?n\<rparr>"
    using nz nd d n0 by (simp add: validate_roll_def Let_def dk[symmetric] sh_def)
  have to: "nat ((int x + s) mod int ?n) = (x + sh) mod ?n" for x
  proof -
    have "(int x + s) mod int ?n = (int x + s mod int ?n) mod int ?n" by (rule mod_add_right_eq[symmetric])
    also have "\<dots> = int ((x + sh) mod ?n)" unfolding sh[symmetric] by (simp add: zmod_int)
    finally show ?thesis by simp
  qed
  show ?thesis
  proof (cases "sh = 0")
    case True
    have "idx[k := (idx ! k + 0) mod ?n] = idx" if "inside idx (dims t)" for idx
      using that k by (simp add: inside_nth)
    then show ?thesis using v True wf by (simp add: roll_impl_def to)
  next
    case False
    have small: "prod_list (map unat (t_shape t)) * size_in_bytes (t_dtype t) < 2 ^ 63"
      using wf_tensorD(2)[OF wf] by (simp add: dims_def elem_size_def)
    obtain b where e: "tensor_empty alloc (t_shape t) (t_dtype t) =
        Inr \<lparr>t_dtype = t_dtype t, t_layout = layout_contiguous (t_shape t), t_buf = b\<rparr>"
      and lb: "length b = prod_list (map unat (t_shape t)) * elem_size t"
      using tensor_empty_eq[OF ok some small] unfolding elem_size_def by blast
    let ?dst = "elems_of (elem_size t) 0 b"
    let ?kern = "\<lambda>src dst. roll_kernel src dst (map unat (t_shape t)) k sh ?n"
    let ?Q = "\<lambda>dst'. \<forall>idx. inside idx (dims t) \<longrightarrow>
        dst' ! ravel (dims t) (idx[k := (idx ! k + sh) mod ?n]) = elem t idx"
    have ld: "length ?dst = prod_list (dims t)" using lb by (simp add: length_elems_of dims_def)
    have kern: "\<exists>dst'. ?kern src ?dst = Some dst' \<and> length dst' = prod_list (map unat (t_shape t)) \<and>
        set dst' \<subseteq> set ?dst \<union> set src \<and> ?Q dst'"
      if "prod_list (dims t) \<le> length src"
        "\<And>idx. inside idx (dims t) \<Longrightarrow> src ! ravel (dims t) idx = elem t idx" for src
      using roll_kernel_eq[OF pos _ refl that(1) ld, of k sh] that(2) k unfolding dims_def[symmetric] by fastforce
    note run = run_kernel_eq[where error_op = "''roll''" and kern = ?kern and Q = ?Q, OF wf pos ok some nb refl lb _ kern]
    from run small obtain r dst' where r: "run_kernel alloc ''roll'' t (Inr \<lparr>t_dtype = t_dtype t,
          t_layout = layout_contiguous (t_shape t), t_buf = b\<rparr>) ?kern = Some (Inr r)"
        "wf_tensor r" "t_shape r = t_shape t" "t_dtype r = t_dtype t"
      and q: "\<forall>idx. inside idx (dims t) \<longrightarrow> dst' ! ravel (dims t) (idx[k := (idx ! k + sh) mod ?n]) = elem t idx"
      and el: "\<forall>idx. inside idx (dims t) \<longrightarrow> elem r idx = dst' ! ravel (dims t) idx"
      by (auto simp: elem_size_def dims_def[symmetric])
    have "inside (idx[k := (idx ! k + sh) mod ?n]) (dims t)" if "inside idx (dims t)" for idx
      using that k n0 by (auto simp: inside_nth nth_list_update)
    with q el have "\<forall>idx. inside idx (dims t) \<longrightarrow> elem r (idx[k := (idx ! k + sh) mod ?n]) = elem t idx" by simp
    with r v False e show ?thesis by (simp add: roll_impl_def to)
  qed
qed

section \<open>Repeating\<close>

lemma prod_list_ge:
  fixes xs :: "nat list"
  assumes "0 < prod_list xs" and "i < length xs"
  shows "xs ! i \<le> prod_list xs"
proof -
  have "prod_list xs = prod_list (take i xs) * (xs ! i * prod_list (drop (Suc i) xs))"
    by (metis split_at[OF assms(2)] prod_list.append prod_list.Cons)
  with assms(1) show ?thesis by (simp add: Suc_le_eq)
qed

lemma dims_pos: "0 < prod_list (dims t) \<Longrightarrow> i < length (t_shape t) \<Longrightarrow> 0 < dims t ! i"
  using prod_list_zero_iff[of "dims t"] by (metis gr0I length_dims nth_mem)

lemma repeat_impl_eq:
  assumes wf: "wf_tensor t" and pos: "0 < prod_list (dims t)" and ok: "alloc_ok alloc" and some: "\<forall>n. alloc n \<noteq> None"
    and nb: "t_dtype t \<noteq> Bool"
    and len: "length repeats = length (t_shape t)" and nz: "0 \<notin> set repeats"
    and small: "prod_list (map2 (*) (dims t) (map unat repeats)) * elem_size t < 2 ^ 63"
  shows "\<exists>r. repeat_impl alloc t repeats = Some (Inr r) \<and> wf_tensor r \<and> t_dtype r = t_dtype t \<and>
    dims r = map2 (*) (dims t) (map unat repeats) \<and>
    (\<forall>idx. inside idx (dims r) \<longrightarrow> elem r idx = elem t (map2 (mod) idx (dims t)))"
proof -
  let ?o = "map2 (*) (dims t) (map unat repeats)" and ?s = "map (\<lambda>(d, r). d * r) (zip (t_shape t) repeats)"
  have nd: "t_ndim t = length (t_shape t)" by (simp add: t_ndim_def layout_ndim_def t_shape_def)
  have rp: "0 < unat (repeats ! i)" if "i < length repeats" for i
    using nz that by (metis nth_mem unat_gt_0)
  have "0 < ?o ! i" if "i < length (t_shape t)" for i
    using that dims_pos[OF pos that] rp len by simp
  then have po: "0 < prod_list ?o"
    using prod_list_zero_iff[of ?o] len by (metis gr0I in_set_conv_nth length_dims length_map length_zip min.idem not_less_zero)
  have lt: "?o ! i < 2 ^ 64" if "i < length (t_shape t)" for i
  proof -
    have "?o ! i \<le> prod_list ?o" by (rule prod_list_ge[OF po]) (use that len in simp)
    also have "\<dots> \<le> prod_list ?o * elem_size t" using elem_size_pos[of t] by (simp add: Suc_le_eq)
    also have "\<dots> < 2 ^ 63" by (rule small)
    also have "\<dots> < 2 ^ 64" by simp
    finally show ?thesis .
  qed
  have os: "map unat ?s = ?o"
  proof (rule nth_equalityI)
    fix i assume "i < length (map unat ?s)"
    then have i: "i < length (t_shape t)" by simp
    have "unat (t_shape t ! i * repeats ! i) = unat (t_shape t ! i) * unat (repeats ! i)"
      using lt[OF i] i len by (simp add: dims_def unat_word_ariths)
    then show "map unat ?s ! i = ?o ! i" using i len by (simp add: dims_def)
  qed (use len in simp)
  have v: "validate_repeat t repeats = Inr ?s"
    using nz len nd by (auto simp: validate_repeat_def list_ex_iff)
  show ?thesis
  proof (cases "list_all (\<lambda>r. r = 1) repeats")
    case True
    then have "repeats ! i = 1" if "i < length repeats" for i using that by (simp add: list_all_length)
    then have "?o = dims t" using len by (intro nth_equalityI) simp_all
    moreover have "map2 (mod) idx (dims t) = idx" if "inside idx (dims t)" for idx
      using that by (intro nth_equalityI) (simp_all add: inside_nth)
    ultimately show ?thesis using v True wf by (simp add: repeat_impl_def)
  next
    case False
    have small': "prod_list (map unat ?s) * size_in_bytes (t_dtype t) < 2 ^ 63"
      using small unfolding os elem_size_def .
    obtain b where e: "tensor_empty alloc ?s (t_dtype t) =
        Inr \<lparr>t_dtype = t_dtype t, t_layout = layout_contiguous ?s, t_buf = b\<rparr>"
      and lb: "length b = prod_list (map unat ?s) * elem_size t"
      using tensor_empty_eq[OF ok some small'] unfolding elem_size_def by blast
    let ?dst = "elems_of (elem_size t) 0 b"
    let ?kern = "\<lambda>src dst. repeat_kernel src dst (map unat (t_shape t)) (map unat ?s)"
    let ?Q = "\<lambda>dst'. \<forall>idx. inside idx ?o \<longrightarrow> dst' ! ravel ?o idx = elem t (map2 (mod) idx (dims t))"
    have ld: "length ?dst = prod_list ?o" using lb os by (simp add: length_elems_of)
    have ins: "inside (map2 (mod) idx (dims t)) (dims t)" if "inside idx ?o" for idx
      using that len dims_pos[OF pos] by (simp add: inside_nth)
    have kern: "\<exists>dst'. ?kern src ?dst = Some dst' \<and> length dst' = prod_list (map unat ?s) \<and>
        set dst' \<subseteq> set ?dst \<union> set src \<and> ?Q dst'"
      if "prod_list (dims t) \<le> length src"
        "\<And>idx. inside idx (dims t) \<Longrightarrow> src ! ravel (dims t) idx = elem t idx" for src
    proof -
      have "length ?o = length (dims t)" using len by simp
      from repeat_kernel_eq[OF pos this that(1) ld] that(2) ins show ?thesis
        unfolding os dims_def[symmetric] by fastforce
    qed
    note run = run_kernel_eq[where error_op = "''repeat''" and kern = ?kern and Q = ?Q, OF wf pos ok some nb refl lb _ kern]
    from run small obtain r dst' where r: "run_kernel alloc ''repeat'' t (Inr \<lparr>t_dtype = t_dtype t,
          t_layout = layout_contiguous ?s, t_buf = b\<rparr>) ?kern = Some (Inr r)"
        "wf_tensor r" "t_shape r = ?s" "t_dtype r = t_dtype t"
      and q: "?Q dst'" and el: "\<forall>idx. inside idx ?o \<longrightarrow> elem r idx = dst' ! ravel ?o idx"
      unfolding os by blast
    have dr: "dims r = ?o" using r(3) os by (simp add: dims_def)
    have "repeat_impl alloc t repeats = Some (Inr r)"
      using v False e r(1) by (simp add: repeat_impl_def)
    with r dr q el show ?thesis by simp
  qed
qed

section \<open>Padding\<close>

text \<open>What \<open>padding\<close> says for axis \<open>i\<close> of \<open>n\<close>: its pairs count from the last axis.\<close>

definition pad_before :: "usize list \<Rightarrow> nat \<Rightarrow> nat \<Rightarrow> usize" where
  "pad_before padding n i = (if n - 1 - i < length padding div 2 then padding ! (2 * (n - 1 - i)) else 0)"

definition pad_after :: "usize list \<Rightarrow> nat \<Rightarrow> nat \<Rightarrow> usize" where
  "pad_after padding n i = (if n - 1 - i < length padding div 2 then padding ! (2 * (n - 1 - i) + 1) else 0)"

lemma pad_fill_eq:
  assumes "m \<le> length padding div 2" and "m \<le> n"
  shows "foldM (pad_fill n padding) [0..<m] (replicate n (0, 0)) =
    Some (map (\<lambda>i. if n - 1 - i < m then (padding ! (2 * (n - 1 - i)), padding ! (2 * (n - 1 - i) + 1)) else (0, 0)) [0..<n])"
  using assms
proof (induction m)
  case 0
  then show ?case by (simp add: map_replicate_trivial)
next
  case (Suc m)
  let ?r = "\<lambda>m. map (\<lambda>i. if n - 1 - i < m then (padding ! (2 * (n - 1 - i)), padding ! (2 * (n - 1 - i) + 1)) else (0, 0)) [0..<n]"
  have "m * 2 + 1 < length padding" "n - 1 - m < n" using Suc.prems by linarith+
  moreover have "(?r m)[n - 1 - m := (padding ! (m * 2), padding ! (m * 2 + 1))] = ?r (Suc m)"
  proof (rule nth_equalityI)
    fix i assume "i < length ((?r m)[n - 1 - m := (padding ! (m * 2), padding ! (m * 2 + 1))])"
    then have i: "i < n" by simp
    have "i = n - 1 - m \<longleftrightarrow> n - 1 - i = m" using i Suc.prems(2) by linarith
    with i show "(?r m)[n - 1 - m := (padding ! (m * 2), padding ! (m * 2 + 1))] ! i = ?r (Suc m) ! i"
      by (auto simp: nth_list_update mult.commute)
  qed simp
  ultimately have "pad_fill n padding m (?r m) = Some (?r (Suc m))" by (simp add: pad_fill_def)
  with Suc show ?case by (simp add: foldM_append)
qed

lemma validate_pad_eq:
  assumes "even (length padding)" and "length padding \<le> 2 * length (t_shape t)"
  defines "n \<equiv> length (t_shape t)"
  shows "validate_pad t padding = Some (Inr
    \<lparr>pp_out_shape = map (\<lambda>i. t_shape t ! i + pad_before padding n i + pad_after padding n i) [0..<n],
     pp_pad_per_dim = map (\<lambda>i. (pad_before padding n i, pad_after padding n i)) [0..<n]\<rparr>)"
proof -
  have nd: "t_ndim t = n" by (simp add: n_def t_ndim_def layout_ndim_def t_shape_def)
  have le: "length padding div 2 \<le> n" using assms(2) by (simp add: n_def)
  have pp: "foldM (pad_fill n padding) [0..<length padding div 2] (replicate n (0, 0)) =
      Some (map (\<lambda>i. (pad_before padding n i, pad_after padding n i)) [0..<n])"
    unfolding pad_fill_eq[OF order_refl le] by (simp add: pad_before_def pad_after_def)
  have "map (\<lambda>(d, before, after). d + before + after) (zip (t_shape t)
      (map (\<lambda>i. (pad_before padding n i, pad_after padding n i)) [0..<n])) =
      map (\<lambda>i. t_shape t ! i + pad_before padding n i + pad_after padding n i) [0..<n]"
    by (rule nth_equalityI) (simp_all add: n_def)
  with pp le assms(1) show ?thesis by (simp add: validate_pad_def nd Let_def)
qed

lemma elems_of_concat:
  "(\<And>x. x \<in> set xs \<Longrightarrow> length x = w) \<Longrightarrow> 0 < w \<Longrightarrow> elems_of w 0 (concat xs) = xs"
  by (rule nth_equalityI) (simp_all add: elems_of_def length_concat_chunks take_drop_concat)

lemma pad_impl_eq:
  assumes wf: "wf_tensor t" and pos: "0 < prod_list (dims t)" and ok: "alloc_ok alloc" and some: "\<forall>n. alloc n \<noteq> None"
    and nb: "t_dtype t \<noteq> Bool"
    and enc: "length (encode (t_dtype t)) = elem_size t"
    and padding: "even (length padding)" "length padding \<le> 2 * length (t_shape t)"
  defines "bs \<equiv> map (\<lambda>i. unat (pad_before padding (length (t_shape t)) i)) [0..<length (t_shape t)]"
    and "as \<equiv> map (\<lambda>i. unat (pad_after padding (length (t_shape t)) i)) [0..<length (t_shape t)]"
  assumes fits: "\<And>i. i < length (t_shape t) \<Longrightarrow> dims t ! i + bs ! i + as ! i < 2 ^ 63"
    and small: "prod_list (map2 (+) (map2 (+) (dims t) bs) as) * elem_size t < 2 ^ 63"
  shows "\<exists>r. pad_impl alloc encode t padding = Some (Inr r) \<and> wf_tensor r \<and> t_dtype r = t_dtype t \<and>
    dims r = map2 (+) (map2 (+) (dims t) bs) as \<and>
    (\<forall>idx. inside idx (dims r) \<longrightarrow> elem r idx =
       (if from_input (dims t) bs idx then elem t (map2 (-) idx bs) else encode (t_dtype t)))"
proof -
  let ?n = "length (t_shape t)" and ?o = "map2 (+) (map2 (+) (dims t) bs) as"
  let ?s = "map (\<lambda>i. t_shape t ! i + pad_before padding ?n i + pad_after padding ?n i) [0..<?n]"
  let ?pads = "map (\<lambda>i. (pad_before padding ?n i, pad_after padding ?n i)) [0..<?n]"
  have lo: "length ?o = ?n" by (simp add: bs_def as_def)
  have on: "?o ! i = dims t ! i + bs ! i + as ! i" if "i < ?n" for i
    using that by (simp add: bs_def as_def)
  have "0 < ?o ! i" if "i < ?n" for i using on[OF that] dims_pos[OF pos that] by simp
  then have po: "0 < prod_list ?o"
    using prod_list_zero_iff[of ?o] lo by (metis gr0I in_set_conv_nth not_less_zero)
  have os: "map unat ?s = ?o"
  proof (rule nth_equalityI)
    fix i assume "i < length (map unat ?s)"
    then have i: "i < ?n" by simp
    then have "unat (t_shape t ! i) + unat (pad_before padding ?n i) + unat (pad_after padding ?n i) < 2 ^ 64"
      using fits[OF i] by (simp add: bs_def as_def dims_def)
    then have "unat (t_shape t ! i + pad_before padding ?n i + pad_after padding ?n i) =
        unat (t_shape t ! i) + unat (pad_before padding ?n i) + unat (pad_after padding ?n i)"
      by (simp add: unat_word_ariths)
    with i show "map unat ?s ! i = ?o ! i" by (simp add: on bs_def as_def dims_def)
  qed (simp add: bs_def as_def)
  have v: "validate_pad t padding = Some (Inr \<lparr>pp_out_shape = ?s, pp_pad_per_dim = ?pads\<rparr>)"
    by (rule validate_pad_eq[OF padding])
  show ?thesis
  proof (cases "list_all (\<lambda>(b, a). b = 0 \<and> a = 0) ?pads")
    case True
    then have "pad_before padding ?n i = 0 \<and> pad_after padding ?n i = 0" if "i < ?n" for i
      using that by (simp add: list_all_length)
    then have z: "bs ! i = 0" "as ! i = 0" if "i < ?n" for i using that by (simp_all add: bs_def as_def)
    moreover have "length bs = ?n" "length as = ?n" by (simp_all add: bs_def as_def)
    ultimately have "?o = dims t" by (intro nth_equalityI) (simp_all add: on)
    moreover have "from_input (dims t) bs idx" "map2 (-) idx bs = idx" if "inside idx (dims t)" for idx
      using that z by (auto simp: from_input_def inside_nth bs_def intro!: nth_equalityI)
    ultimately show ?thesis using v True wf by (simp add: pad_impl_def)
  next
    case False
    have "prod_list ?o \<le> prod_list ?o * elem_size t" using elem_size_pos[of t] by (simp add: Suc_le_eq)
    then have "prod_list ?o < 2 ^ 63" using small by (rule le_less_trans)
    then have "prod_list (map unat ?s) < 2 ^ 64" unfolding os by simp
    then have numel: "unat (prod_list ?s) = prod_list ?o" using unat_prod_dims[of ?s] by (simp only: os)
    define xs where "xs = replicate (prod_list ?o) (encode (t_dtype t))"
    have ch: "length x = elem_size t" if "x \<in> set xs" for x using that enc by (simp add: xs_def)
    have e: "full_scalar alloc encode ?s (t_dtype t) =
        Inr \<lparr>t_dtype = t_dtype t, t_layout = layout_contiguous ?s, t_buf = concat xs\<rparr>"
      using po some by (auto simp: full_scalar_def Let_def numel xs_def simp del: map_map split: option.split)
    have dst: "elems_of (elem_size t) 0 (concat xs) = xs" by (rule elems_of_concat[OF ch]) simp_all
    have lb: "length (concat xs) = prod_list (map unat ?s) * elem_size t"
      unfolding os using length_concat_chunks[of xs, OF ch] by (simp only:) (simp add: xs_def)
    let ?np = "map (\<lambda>(b, a). (unat b, unat a)) ?pads"
    let ?kern = "\<lambda>src dst. pad_copy_kernel src dst (map unat (t_shape t)) (map unat ?s) ?np"
    let ?Q = "\<lambda>dst'. \<forall>idx. inside idx ?o \<longrightarrow> dst' ! ravel ?o idx =
        (if from_input (dims t) bs idx then elem t (map2 (-) idx bs) else encode (t_dtype t))"
    have fp: "map fst ?np = bs" by (simp add: bs_def)
    have ins: "inside (map2 (-) idx bs) (dims t)" if "inside idx ?o" "from_input (dims t) bs idx" for idx
      using that lo by (auto simp: inside_nth from_input_def bs_def)
    have kern: "\<exists>dst'. ?kern src (elems_of (elem_size t) 0 (concat xs)) = Some dst' \<and>
        length dst' = prod_list (map unat ?s) \<and>
        set dst' \<subseteq> set (elems_of (elem_size t) 0 (concat xs)) \<union> set src \<and> ?Q dst'"
      if src: "prod_list (dims t) \<le> length src"
        "\<And>idx. inside idx (dims t) \<Longrightarrow> src ! ravel (dims t) idx = elem t idx" for src
    proof -
      have np: "fst (?np ! i) = bs ! i" if "i < ?n" for i using that by (simp add: bs_def)
      have "\<exists>dst'. pad_copy_kernel src xs (dims t) ?o ?np = Some dst' \<and> length dst' = prod_list ?o \<and>
        set dst' \<subseteq> set xs \<union> set src \<and>
        (\<forall>idx. inside idx ?o \<longrightarrow> dst' ! ravel ?o idx =
           (if from_input (dims t) (map fst ?np) idx then src ! ravel (dims t) (map2 (-) idx (map fst ?np))
            else xs ! ravel ?o idx))"
        by (rule pad_copy_kernel_eq) (use po lo src np on in \<open>auto simp: xs_def\<close>)
      then show ?thesis unfolding os dst fp dims_def[symmetric]
        using src(2) ins ravel_less by (fastforce simp: xs_def)
    qed
    note run = run_kernel_eq[where error_op = "''pad''" and kern = ?kern and Q = ?Q, OF wf pos ok some nb refl lb _ kern]
    from run small obtain r dst' where r: "run_kernel alloc ''pad'' t (Inr \<lparr>t_dtype = t_dtype t,
          t_layout = layout_contiguous ?s, t_buf = concat xs\<rparr>) ?kern = Some (Inr r)"
        "wf_tensor r" "t_shape r = ?s" "t_dtype r = t_dtype t"
      and q: "?Q dst'" and el: "\<forall>idx. inside idx ?o \<longrightarrow> elem r idx = dst' ! ravel ?o idx"
      unfolding os by blast
    have dr: "dims r = ?o" using r(3) os by (simp only: dims_def)
    have "pad_impl alloc encode t padding = Some (Inr r)"
      using v False e r(1) by (simp add: pad_impl_def)
    moreover have "elem r idx = (if from_input (dims t) bs idx then elem t (map2 (-) idx bs) else encode (t_dtype t))"
      if "inside idx (dims r)" for idx using that q el unfolding dr by metis
    ultimately show ?thesis using r(2,4) dr by blast
  qed
qed

section \<open>The properties\<close>

text \<open>
  C30. Rolling. In a release build, for every tensor with elements whose type is not Boolean, view or
  row-major, every accepted axis and every \<open>isize\<close> shift, negative, larger than the axis and
  \<open>isize::MIN\<close> included, \<open>roll\<close> returns a tensor of the same shape and type in which the element at
  \<open>idx\<close> sits at \<open>idx\<close> moved along the axis by the shift modulo its size, when the allocations it needs
  are granted. Rolling the result by the opposite shift gives the elements of the tensor again, for
  every shift that has an opposite, which is every one except \<open>isize::MIN\<close>. The code writes the
  negation as \<open>-shift\<close>: a build with overflow checks panics there for \<open>isize::MIN\<close>.
\<close>

theorem roll_impl_correct:
  assumes "wf_tensor t" and "0 < prod_list (dims t)" and "alloc_ok alloc" and "\<forall>n. alloc n \<noteq> None"
    and "t_dtype t \<noteq> Bool"
    and "normalize_dim d (length (t_shape t)) = Some k" and "- (2 ^ 63) \<le> s" and "s < 2 ^ 63"
  shows "\<exists>r. roll_impl alloc t s d = Some (Inr r) \<and> wf_tensor r \<and> t_shape r = t_shape t \<and> t_dtype r = t_dtype t \<and>
    (\<forall>idx. inside idx (dims t) \<longrightarrow>
       elem r (idx[k := nat ((int (idx ! k) + s) mod int (dims t ! k))]) = elem t idx) \<and>
    (s \<noteq> - (2 ^ 63) \<longrightarrow> (\<exists>u. roll_impl alloc r (- s) d = Some (Inr u) \<and> same_elems t u))"
proof -
  have k: "k < length (t_shape t)" by (rule normalized_dim_less[OF assms(6)])
  let ?n = "dims t ! k"
  have n0: "0 < ?n" by (rule dims_pos[OF assms(2) k])
  from roll_impl_eq[OF assms(1-6), of s] assms(7,8) obtain r where
    r: "roll_impl alloc t s d = Some (Inr r)" "wf_tensor r" "t_shape r = t_shape t" "t_dtype r = t_dtype t"
      "\<forall>idx. inside idx (dims t) \<longrightarrow> elem r (idx[k := nat ((int (idx ! k) + s) mod int ?n)]) = elem t idx"
    by auto
  have dr: "dims r = dims t" using r(3) by (simp add: dims_def)
  have undo: "\<exists>u. roll_impl alloc r (- s) d = Some (Inr u) \<and> same_elems t u" if ns: "s \<noteq> - (2 ^ 63)"
  proof -
    from roll_impl_eq[OF r(2), of alloc d k "- s"] assms r(3) dr ns obtain u where
      u: "roll_impl alloc r (- s) d = Some (Inr u)" "wf_tensor u" "t_shape u = t_shape t" "t_dtype u = t_dtype t"
        "\<forall>idx. inside idx (dims t) \<longrightarrow> elem u (idx[k := nat ((int (idx ! k) - s) mod int ?n)]) = elem r idx"
      using r(4) by auto
    have "elem u idx = elem t idx" if idx: "inside idx (dims t)" for idx
    proof -
      let ?x = "nat ((int (idx ! k) + s) mod int ?n)"
      have kl: "k < length idx" and ik: "idx ! k < ?n" using idx k by (simp_all add: inside_nth)
      have x: "int ?x = (int (idx ! k) + s) mod int ?n" using n0 by simp
      then have "?x < ?n" using n0 by (metis of_nat_0_less_iff of_nat_less_iff pos_mod_bound)
      then have ins: "inside (idx[k := ?x]) (dims t)" using idx k by (auto simp: inside_nth nth_list_update)
      have "(int ?x - s) mod int ?n = int (idx ! k) mod int ?n" unfolding x by (simp add: mod_diff_left_eq)
      also have "\<dots> = int (idx ! k)" using ik by simp
      finally have "elem u idx = elem r (idx[k := ?x])" using u(5)[rule_format, OF ins] kl by simp
      with r(5) idx show ?thesis by simp
    qed
    then have "contents u = contents t" using u(3) by (intro contents_eqI) (simp_all add: dims_def)
    with u show ?thesis by (auto simp: same_elems_def)
  qed
  with r undo show ?thesis by blast
qed

lemma roll_impl_correct_witness:
  "\<exists>r. roll_impl sample_alloc sample_view (-3) 1 = Some (Inr r) \<and> t_shape r = [2, 2] \<and>
     elem r [0, 1] = elem sample_view [0, 0]"
proof -
  have nb: "t_dtype sample_view \<noteq> Bool" by (simp add: sample_view_def)
  have d: "normalize_dim 1 (length (t_shape sample_view)) = Some 1" by code_simp
  have p: "0 < prod_list (dims sample_view)" by (simp add: sample_dims)
  from roll_impl_correct[OF sample_wf(1) p sample_alloc_ok nb d, of "-3"] obtain r where
    r: "roll_impl sample_alloc sample_view (-3) 1 = Some (Inr r)" "t_shape r = t_shape sample_view"
      "\<forall>idx. inside idx (dims sample_view) \<longrightarrow>
        elem r (idx[1 := nat ((int (idx ! 1) + - 3) mod int (dims sample_view ! 1))]) = elem sample_view idx"
    by auto
  have "t_shape sample_view = [2, 2]" by code_simp
  with r(1,2) r(3)[rule_format, of "[0, 0]"] show ?thesis by (simp add: sample_dims)
qed

text \<open>
  Repeating and padding. For every tensor with elements, \<open>repeat\<close> by positive counts returns the
  tensor whose size along every axis is multiplied and whose element at \<open>idx\<close> is the input's at \<open>idx\<close>
  modulo the input's sizes; \<open>pad\<close> returns the tensor enlarged by the pairs of \<open>padding\<close>, read from the
  last axis, with the input's element where \<open>idx\<close> minus the leading padding lies in it and the
  padding value everywhere else. The result fits in memory by hypothesis.
\<close>

theorem repeat_pad_correct:
  assumes t: "wf_tensor t" "0 < prod_list (dims t)" and al: "alloc_ok alloc" "\<forall>n. alloc n \<noteq> None"
    and nb: "t_dtype t \<noteq> Bool"
    and rep: "length repeats = length (t_shape t)" "0 \<notin> set repeats"
      "prod_list (map2 (*) (dims t) (map unat repeats)) * elem_size t < 2 ^ 63"
    and pad: "length (encode (t_dtype t)) = elem_size t" "even (length padding)"
      "length padding \<le> 2 * length (t_shape t)"
      "bs = map (\<lambda>i. unat (pad_before padding (length (t_shape t)) i)) [0..<length (t_shape t)]"
      "as = map (\<lambda>i. unat (pad_after padding (length (t_shape t)) i)) [0..<length (t_shape t)]"
      "\<And>i. i < length (t_shape t) \<Longrightarrow> dims t ! i + bs ! i + as ! i < 2 ^ 63"
      "prod_list (map2 (+) (map2 (+) (dims t) bs) as) * elem_size t < 2 ^ 63"
  shows "(\<exists>r. repeat_impl alloc t repeats = Some (Inr r) \<and> wf_tensor r \<and> t_dtype r = t_dtype t \<and>
      dims r = map2 (*) (dims t) (map unat repeats) \<and>
      (\<forall>idx. inside idx (dims r) \<longrightarrow> elem r idx = elem t (map2 (mod) idx (dims t)))) \<and>
    (\<exists>r. pad_impl alloc encode t padding = Some (Inr r) \<and> wf_tensor r \<and> t_dtype r = t_dtype t \<and>
      dims r = map2 (+) (map2 (+) (dims t) bs) as \<and>
      (\<forall>idx. inside idx (dims r) \<longrightarrow> elem r idx =
         (if from_input (dims t) bs idx then elem t (map2 (-) idx bs) else encode (t_dtype t))))"
proof (rule conjI[OF repeat_impl_eq[OF t al nb rep]])
  show "\<exists>r. pad_impl alloc encode t padding = Some (Inr r) \<and> wf_tensor r \<and> t_dtype r = t_dtype t \<and>
      dims r = map2 (+) (map2 (+) (dims t) bs) as \<and>
      (\<forall>idx. inside idx (dims r) \<longrightarrow> elem r idx =
         (if from_input (dims t) bs idx then elem t (map2 (-) idx bs) else encode (t_dtype t)))"
    using pad_impl_eq[where encode = encode, OF t al nb pad(1-3)] pad(6,7) unfolding pad(4,5) by blast
qed

lemma repeat_pad_correct_witness:
  "(\<exists>r. repeat_impl sample_alloc sample_view [1, 2] = Some (Inr r) \<and> dims r = [2, 4]) \<and>
   (\<exists>r. pad_impl sample_alloc (\<lambda>_. [7]) sample_view [1, 0] = Some (Inr r) \<and> dims r = [2, 3] \<and> elem r [1, 0] = [7])"
proof -
  have s: "t_shape sample_view = [2, 2]" "elem_size sample_view = 1" by code_simp+
  have "(\<exists>r. repeat_impl sample_alloc sample_view [1, 2] = Some (Inr r) \<and> wf_tensor r \<and> t_dtype r = t_dtype sample_view \<and>
      dims r = map2 (*) (dims sample_view) (map unat [1, 2 :: usize]) \<and>
      (\<forall>idx. inside idx (dims r) \<longrightarrow> elem r idx = elem sample_view (map2 (mod) idx (dims sample_view)))) \<and>
    (\<exists>r. pad_impl sample_alloc (\<lambda>_. [7]) sample_view [1, 0] = Some (Inr r) \<and> wf_tensor r \<and>
      t_dtype r = t_dtype sample_view \<and>
      dims r = map2 (+) (map2 (+) (dims sample_view) [0, 1]) [0, 0] \<and>
      (\<forall>idx. inside idx (dims r) \<longrightarrow> elem r idx =
         (if from_input (dims sample_view) [0, 1] idx then elem sample_view (map2 (-) idx [0, 1]) else [7])))"
  proof (rule repeat_pad_correct[OF sample_wf(1) _ sample_alloc_ok])
    show "[0, 1] = map (\<lambda>i. unat (pad_before [1, 0] (length (t_shape sample_view)) i)) [0..<length (t_shape sample_view)]"
      "[0, 0] = map (\<lambda>i. unat (pad_after [1, 0] (length (t_shape sample_view)) i)) [0..<length (t_shape sample_view)]"
      by code_simp+
    show "dims sample_view ! i + [0, 1] ! i + [0, 0] ! i < 2 ^ 63" if "i < length (t_shape sample_view)" for i
      using that by (cases i) (simp_all add: sample_dims s)
    show "t_dtype sample_view \<noteq> Bool" by (simp add: sample_view_def)
  qed (simp_all add: sample_dims s)
  then obtain r u where "repeat_impl sample_alloc sample_view [1, 2] = Some (Inr r)" "dims r = [2, 4]"
    "pad_impl sample_alloc (\<lambda>_. [7]) sample_view [1, 0] = Some (Inr u)" "dims u = [2, 3]"
    "\<forall>idx. inside idx (dims u) \<longrightarrow> elem u idx =
         (if from_input (dims sample_view) [0, 1] idx then elem sample_view (map2 (-) idx [0, 1]) else [7])"
    by (auto simp: sample_dims)
  moreover have "\<not> from_input (dims sample_view) [0, 1] [1, 0]"
    by (auto simp: from_input_def sample_dims intro!: exI[of _ 1])
  ultimately show ?thesis by (intro conjI exI[of _ r] exI[of _ u]) simp_all
qed

end
