(* ===== verification/Shape_Stack.thy ===== *)
theory Shape_Stack
  imports Shape_Kernels
begin

text \<open>
  Stacking (\<open>src/runtime/cpu/helpers/shape.rs\<close>), which unsqueezes every tensor and concatenates, and
  what the shared validation of the shape operations (\<open>src/runtime/common/shape_ops.rs\<close>) accepts and
  refuses. The definitions are those of Shape_Ops and Shape_Kernels.
\<close>

section \<open>Unsqueezing a tensor\<close>

lemma sdot_insert:
  assumes "length idx = length ss" and "k \<le> length idx"
  shows "sdot (insert_nth idx k i) (insert_nth ss k s) = int i * s + sdot idx ss"
proof -
  have "sdot idx ss = sdot (take k idx @ drop k idx) (take k ss @ drop k ss)" by simp
  also have "\<dots> = sdot (take k idx) (take k ss) + sdot (drop k idx) (drop k ss)"
    using assms by (intro sdot_append) simp
  finally show ?thesis using assms by (simp add: insert_nth_def sdot_append)
qed

lemma map_insert_nth: "map f (insert_nth xs k x) = insert_nth (map f xs) k (f x)"
  by (simp add: insert_nth_def take_map drop_map)

lemma prod_list_insert_1: "prod_list (insert_nth xs k (1 :: nat)) = prod_list xs"
proof -
  have "prod_list (take k xs) * prod_list (drop k xs) = prod_list (take k xs @ drop k xs)" by (simp only: prod_list.append)
  then show ?thesis by (simp add: insert_nth_def)
qed

lemma inside_insert:
  assumes "k \<le> length shp" and "inside idx (insert_nth shp k n)"
  shows "\<exists>idx' i. idx = insert_nth idx' k i \<and> inside idx' shp \<and> i < n"
proof -
  have "list_all2 (<) idx (take k shp @ n # drop k shp)" using assms(2) by (simp add: inside_def insert_nth_def)
  then obtain as cs where 1: "idx = as @ cs" "list_all2 (<) as (take k shp)" "list_all2 (<) cs (n # drop k shp)"
    unfolding list_all2_append2 by blast
  from 1(3) obtain i bs where 2: "cs = i # bs" "i < n" "list_all2 (<) bs (drop k shp)"
    unfolding list_all2_Cons2 by blast
  have "list_all2 (<) (as @ bs) (take k shp @ drop k shp)" using 1(2) 2(3) by (rule list_all2_appendI)
  moreover have "length as = k" using list_all2_lengthD[OF 1(2)] assms(1) by simp
  ultimately show ?thesis
    using 1(1) 2 by (intro exI[of _ "as @ bs"] exI[of _ i]) (simp add: insert_nth_def inside_def)
qed

lemma insert_inside:
  assumes "k \<le> length shp" and "inside idx shp" and "i < n"
  shows "inside (insert_nth idx k i) (insert_nth shp k n)"
proof -
  have "list_all2 (<) (take k idx) (take k shp)" "list_all2 (<) (drop k idx) (drop k shp)"
    using assms(2) by (simp_all add: inside_def)
  then show ?thesis using assms(3) by (simp add: insert_nth_def inside_def list_all2_appendI)
qed

lemma unsqueeze_axis_eq:
  assumes "normalize_stack_dim d (layout_ndim l) = Some k" and "layout_ndim l < 2 ^ 63"
  shows "unsqueeze_axis d l = k"
  using assms by (auto simp: normalize_stack_dim_def unsqueeze_axis_def Let_def algebra_simps split: if_splits)

lemma tensor_unsqueeze_eq:
  assumes wf: "wf_tensor t" and d: "normalize_stack_dim d (length (t_shape t)) = Some k"
    and n: "length (t_shape t) < 2 ^ 63"
  shows "\<exists>u. tensor_unsqueeze t d = Inr u \<and> wf_tensor u \<and> t_dtype u = t_dtype t \<and>
    t_shape u = insert_nth (t_shape t) k 1 \<and>
    (\<forall>idx. inside idx (dims t) \<longrightarrow> elem u (insert_nth idx k 0) = elem t idx)"
proof -
  let ?l = "t_layout t"
  have nd: "layout_ndim ?l = length (t_shape t)" by (simp add: layout_ndim_def t_shape_def)
  have k: "k \<le> length (t_shape t)" using d by (auto simp: normalize_stack_dim_Some)
  obtain s where lay: "layout_unsqueeze ?l d =
      Some (layout_new (insert_nth (t_shape t) k 1) (insert_nth (strides ?l) k s) (offset ?l))"
    using k unsqueeze_axis_eq[of d ?l k] d n nd
    by (simp add: layout_unsqueeze_eq layout_unsqueeze_at_def t_shape_def Let_def)
  define u where "u = with_layout t (layout_new (insert_nth (t_shape t) k 1) (insert_nth (strides ?l) k s) (offset ?l))"
  have run: "tensor_unsqueeze t d = Inr u" by (simp add: tensor_unsqueeze_def lay u_def)
  have u: "t_dtype u = t_dtype t" "t_shape u = insert_nth (t_shape t) k 1" "t_buf u = t_buf t" "elem_size u = elem_size t"
    "byte_offset u = byte_offset t" "t_strides u = insert_nth (t_strides t) k (sint s)" "dims u = insert_nth (dims t) k 1"
    by (simp_all add: u_def with_layout_def layout_new_def t_shape_def elem_size_def byte_offset_def t_strides_def
        dims_def map_insert_nth)
  have sd: "sdot (insert_nth idx k 0) (t_strides u) = sdot idx (t_strides t)" if "inside idx (dims t)" for idx
    using that k length_strides[OF wf] unfolding u(6) by (subst sdot_insert) (auto simp: inside_nth)
  have el: "elem u (insert_nth idx k 0) = elem t idx" if "inside idx (dims t)" for idx
    using sd[OF that] by (simp add: elem_def u)
  have "view_inside (t_buf u) (int (byte_offset u)) (dims u) (t_strides u) (elem_size u)"
    unfolding view_inside_def
  proof (intro allI impI)
    fix j assume "j < prod_list (dims u)"
    then have "inside (unravel (dims u) j) (insert_nth (dims t) k 1)" unfolding u(7) by (rule unravel_inside)
    then obtain idx where idx: "unravel (dims u) j = insert_nth idx k 0" "inside idx (dims t)"
      using inside_insert[of k "dims t" "unravel (dims u) j" 1] k by auto
    with view_inside_elem[OF wf idx(2)]
    show "0 \<le> int (byte_offset u) + sdot (unravel (dims u) j) (t_strides u) * int (elem_size u) \<and>
        int (byte_offset u) + (sdot (unravel (dims u) j) (t_strides u) + 1) * int (elem_size u) \<le> int (length (t_buf u))"
      unfolding idx(1) sd[OF idx(2)] by (simp add: u algebra_simps)
  qed
  moreover have "wf_layout (t_layout u)"
    using k wf by (simp add: u_def with_layout_def layout_new_def wf_tensor_def wf_layout_def t_shape_def)
  moreover have "prod_list (dims u) = prod_list (dims t)" unfolding u(7) by (rule prod_list_insert_1)
  ultimately have "wf_tensor u" using wf u by (simp add: wf_tensor_def)
  with run u el show ?thesis by blast
qed

section \<open>Stacking\<close>

lemma validate_stack_Inr:
  "validate_stack ts d = Inr k \<longleftrightarrow>
     ts \<noteq> [] \<and> normalize_stack_dim d (length (t_shape (hd ts))) = Some k \<and>
     (\<forall>t \<in> set ts. t_dtype t = t_dtype (hd ts) \<and> t_shape t = t_shape (hd ts))"
proof (cases ts)
  case (Cons s rest)
  have f: "foldE (stack_check s) ts () = Inr u \<longleftrightarrow> (\<forall>t \<in> set ts. t_dtype t = t_dtype s \<and> t_shape t = t_shape s)" for ts u
    by (induction ts) (auto simp: foldE_Cons_Inr stack_check_def)
  have "t_ndim s = length (t_shape s)" by (simp add: t_ndim_def layout_ndim_def t_shape_def)
  then show ?thesis
    using f[of rest "()"] by (cases "foldE (stack_check s) rest ()") (auto simp: Cons validate_stack_def Let_def split: option.splits)
qed (simp add: validate_stack_def)

lemma unsqueeze_all_eq:
  assumes "\<forall>t \<in> set ts. \<exists>u. tensor_unsqueeze t d = Inr u \<and> P t u"
  shows "\<exists>us. unsqueeze_all d ts = Inr us \<and> list_all2 P ts us"
  using assms
proof (induction ts)
  case (Cons t ts)
  then obtain u us where "tensor_unsqueeze t d = Inr u" "P t u" "unsqueeze_all d ts = Inr us" "list_all2 P ts us"
    by auto
  then show ?case by simp
qed simp

lemma insert_nth_update: "k \<le> length xs \<Longrightarrow> (insert_nth xs k a)[k := b] = insert_nth xs k b"
  by (simp add: insert_nth_def list_update_append)


lemma stack_impl_eq:
  assumes wf: "\<forall>t \<in> set ts. wf_tensor t" and ok: "alloc_ok alloc" and some: "\<forall>n. alloc n \<noteq> None"
    and rank: "length (t_shape (hd ts)) < 2 ^ 63" and cnt: "length ts < 2 ^ 63"
    and small: "prod_list (dims (hd ts)) * length ts * elem_size (hd ts) < 2 ^ 63"
  shows "case validate_stack ts d of
      Inl e \<Rightarrow> stack_impl alloc ts d = Some (Inl e)
    | Inr k \<Rightarrow> \<exists>out. stack_impl alloc ts d = Some (Inr out) \<and> wf_tensor out \<and> t_dtype out = t_dtype (hd ts) \<and>
        dims out = insert_nth (dims (hd ts)) k (length ts) \<and>
        (\<forall>j < length ts. \<forall>idx. inside idx (dims (ts ! j)) \<longrightarrow> elem out (insert_nth idx k j) = elem (ts ! j) idx)"
proof (cases "validate_stack ts d")
  case (Inl e)
  then show ?thesis by (simp add: stack_impl_def)
next
  case (Inr k)
  let ?n = "length (t_shape (hd ts))"
  note acc = Inr[unfolded validate_stack_Inr]
  from acc have ne: "ts \<noteq> []" by (rule conjunct1)
  from acc[THEN conjunct2] have d: "normalize_stack_dim d ?n = Some k" by (rule conjunct1)
  have same: "t_dtype t = t_dtype (hd ts)" "t_shape t = t_shape (hd ts)" if "t \<in> set ts" for t
    using bspec[OF acc[THEN conjunct2, THEN conjunct2] that] by (rule conjunct1, rule conjunct2)
  have k: "k \<le> ?n" using d by (auto simp: normalize_stack_dim_Some)
  let ?P = "\<lambda>t u. wf_tensor u \<and> t_dtype u = t_dtype t \<and> t_shape u = insert_nth (t_shape t) k 1 \<and>
      (\<forall>idx. inside idx (dims t) \<longrightarrow> elem u (insert_nth idx k 0) = elem t idx)"
  have "\<forall>t \<in> set ts. \<exists>u. tensor_unsqueeze t d = Inr u \<and> ?P t u"
  proof
    fix t assume t: "t \<in> set ts"
    show "\<exists>u. tensor_unsqueeze t d = Inr u \<and> ?P t u"
      by (rule tensor_unsqueeze_eq) (use wf t d rank in \<open>simp_all add: same(2)[OF t]\<close>)
  qed
  from unsqueeze_all_eq[OF this] obtain us where us: "unsqueeze_all d ts = Inr us" "list_all2 ?P ts us" by blast
  have lu: "length us = length ts" using us(2) by (simp add: list_all2_lengthD)
  have un: "wf_tensor (us ! j)" "t_dtype (us ! j) = t_dtype (hd ts)" "t_shape (us ! j) = insert_nth (t_shape (hd ts)) k 1"
      "\<forall>idx. inside idx (dims (ts ! j)) \<longrightarrow> elem (us ! j) (insert_nth idx k 0) = elem (ts ! j) idx" if "j < length ts" for j
    using list_all2_nthD[OF us(2) that] same[of "ts ! j"] that by auto
  have ne': "us \<noteq> []" using lu ne by auto
  then have h0: "hd us = us ! 0" by (simp add: hd_conv_nth)
  have du: "dims (us ! j) = insert_nth (dims (hd ts)) k 1" if "j < length ts" for j
    using un(3)[OF that] by (simp add: dims_def map_insert_nth)
  have l0: "0 < length ts" using ne by simp
  note hu = un(1-3)[OF l0, folded h0] and dh = du[OF l0, folded h0]
  have one: "map (\<lambda>t. dims t ! k) us = replicate (length ts) 1"
    using lu k by (intro nth_equalityI) (simp_all add: du)
  then have sm: "sum_list (map (\<lambda>t. dims t ! k) us) = length ts" by (simp add: sum_list_replicate)
  have nd: "normalize_dim d (length (t_shape (hd us))) = Some k"
    using d k unfolding hu(3) by (auto simp: normalize_dim_Some normalize_stack_dim_Some)
  have upd: "(dims (hd us))[k := length ts] = insert_nth (dims (hd ts)) k (length ts)"
    unfolding dh using k by (simp add: insert_nth_update)
  have "prod_list (insert_nth (dims (hd ts)) k (length ts)) = prod_list (dims (hd ts)) * length ts"
  proof -
    have "prod_list (take k (dims (hd ts))) * prod_list (drop k (dims (hd ts))) = prod_list (dims (hd ts))"
      by (simp only: prod_list.append[symmetric] append_take_drop_id)
    then show ?thesis by (simp add: insert_nth_def mult.assoc mult.left_commute)
  qed
  moreover have "elem_size (hd us) = elem_size (hd ts)" using hu(2) by (simp add: elem_size_def)
  ultimately have fits: "sum_list (map (\<lambda>t. dims t ! k') us) < 2 ^ 63 \<and>
      prod_list ((dims (hd us))[k' := sum_list (map (\<lambda>t. dims t ! k') us)]) * elem_size (hd us) < 2 ^ 63"
    if "normalize_dim d (length (t_shape (hd us))) = Some k'" for k'
    using that nd sm upd small cnt by simp
  have "cat_compatible k (hd us) u" if "u \<in> set us" for u
    using that lu un(2,3) hu by (auto simp: in_set_conv_nth cat_compatible_def)
  then have "\<exists>p. validate_cat us d = Inr p \<and> cp_dim_idx p = k"
    using ne' nd hu(3) unfolding validate_cat_Inr by (cases us) (auto simp: Let_def insert_nth_def)
  then obtain p where p: "validate_cat us d = Inr p" "cp_dim_idx p = k" by blast
  have "\<forall>u \<in> set us. wf_tensor u" using un(1) lu by (auto simp: in_set_conv_nth)
  from cat_impl_eq[where d = d, OF this ok some fits] p obtain out where out:
    "cat_impl alloc us d = Some (Inr out)" "wf_tensor out" "t_dtype out = t_dtype (hd us)"
    "dims out = (dims (hd us))[k := sum_list (map (\<lambda>t. dims t ! k) us)]"
    "\<forall>j < length us. \<forall>idx. inside idx (dims (us ! j)) \<longrightarrow>
       elem out (idx[k := sum_list (map (\<lambda>t. dims t ! k) (take j us)) + idx ! k]) = elem (us ! j) idx"
    by auto
  have "elem out (insert_nth idx k j) = elem (ts ! j) idx" if j: "j < length ts" and idx: "inside idx (dims (ts ! j))" for j idx
  proof -
    have dj: "dims (ts ! j) = dims (hd ts)" using same(2)[of "ts ! j"] j by (simp add: dims_def)
    have li: "length idx = ?n" using idx dj by (simp add: inside_nth)
    have "map (\<lambda>t. dims t ! k) (take j us) = replicate j 1" using one j by (simp add: take_map[symmetric])
    then have "sum_list (map (\<lambda>t. dims t ! k) (take j us)) = j" by (simp add: sum_list_replicate)
    moreover have "inside (insert_nth idx k 0) (dims (us ! j))"
      unfolding du[OF j] using idx k dj by (intro insert_inside) simp_all
    ultimately have "elem out ((insert_nth idx k 0)[k := j + insert_nth idx k 0 ! k]) = elem (us ! j) (insert_nth idx k 0)"
      using out(5)[rule_format, of j "insert_nth idx k 0"] j lu by (simp only:)
    then show ?thesis using un(4)[OF j] idx k li by (simp add: insert_nth_update)
  qed
  moreover have "stack_impl alloc ts d = Some (Inr out)" using Inr us(1) out(1) by (simp add: stack_impl_def)
  ultimately show ?thesis using Inr out(2,3,4) hu(2) sm upd by auto
qed

text \<open>
  C31. Stacking. \<open>stack\<close> of well-formed tensors, views or row-major, gives the error of its validation or a
  well-formed tensor with a new axis of one entry per tensor at the position given, in which the
  element at \<open>idx\<close> of the \<open>j\<close>-th tensor sits at \<open>idx\<close> with \<open>j\<close> inserted there. The result is assumed to
  fit in memory.
\<close>

theorem stack_impl_correct:
  assumes "\<forall>t \<in> set ts. wf_tensor t" and "alloc_ok alloc" and "\<forall>n. alloc n \<noteq> None"
    and "length (t_shape (hd ts)) < 2 ^ 63" and "length ts < 2 ^ 63"
    and "prod_list (dims (hd ts)) * length ts * elem_size (hd ts) < 2 ^ 63"
  shows "case validate_stack ts d of
      Inl e \<Rightarrow> stack_impl alloc ts d = Some (Inl e)
    | Inr k \<Rightarrow> \<exists>out. stack_impl alloc ts d = Some (Inr out) \<and> wf_tensor out \<and> t_dtype out = t_dtype (hd ts) \<and>
        dims out = insert_nth (dims (hd ts)) k (length ts) \<and>
        (\<forall>j < length ts. \<forall>idx. inside idx (dims (ts ! j)) \<longrightarrow> elem out (insert_nth idx k j) = elem (ts ! j) idx)"
  using assms by (rule stack_impl_eq)

lemma stack_impl_correct_witness:
  "\<exists>out. stack_impl sample_alloc [sample_view, sample_view] (-1) = Some (Inr out) \<and> dims out = [2, 2, 2] \<and>
     elem out [0, 1, 1] = elem sample_view [0, 1]"
proof -
  have v: "validate_stack [sample_view, sample_view] (-1) = Inr 2" by code_simp
  have s: "length (t_shape sample_view) = 2" "elem_size sample_view = 1" by code_simp+
  have i: "inside [0, 1] (dims sample_view)" by (simp add: sample_dims inside_nth less_Suc_eq)
  have "case validate_stack [sample_view, sample_view] (-1) of
      Inl e \<Rightarrow> stack_impl sample_alloc [sample_view, sample_view] (-1) = Some (Inl e)
    | Inr k \<Rightarrow> \<exists>out. stack_impl sample_alloc [sample_view, sample_view] (-1) = Some (Inr out) \<and> wf_tensor out \<and>
        t_dtype out = t_dtype (hd [sample_view, sample_view]) \<and>
        dims out = insert_nth (dims (hd [sample_view, sample_view])) k (length [sample_view, sample_view]) \<and>
        (\<forall>j < length [sample_view, sample_view]. \<forall>idx. inside idx (dims ([sample_view, sample_view] ! j)) \<longrightarrow>
           elem out (insert_nth idx k j) = elem ([sample_view, sample_view] ! j) idx)"
    by (rule stack_impl_correct[OF _ sample_alloc_ok]) (simp_all add: s sample_wf sample_dims)
  then obtain out where out: "stack_impl sample_alloc [sample_view, sample_view] (-1) = Some (Inr out)"
      "dims out = insert_nth (dims sample_view) 2 2"
      "\<forall>j < 2. \<forall>idx. inside idx (dims ([sample_view, sample_view] ! j)) \<longrightarrow>
         elem out (insert_nth idx 2 j) = elem ([sample_view, sample_view] ! j) idx"
    unfolding v by (auto simp: numeral_2_eq_2)
  have "elem out (insert_nth [0, 1] 2 1) = elem sample_view [0, 1]" using out(3)[rule_format, of 1 "[0, 1]"] i by simp
  with out(1,2) show ?thesis by (simp add: sample_dims insert_nth_def)
qed


section \<open>What the shape operations accept\<close>

text \<open>
  The validations accept exactly the arguments that fit and return every refusal as an error value;
  an axis that does not exist is reported by \<open>roll\<close> with the rank of the tensor. Repeating, padding and
  rolling a Boolean tensor never builds a new one: the element type dispatch has no kernel for it.
\<close>

lemma validate_repeat_Inr:
  "validate_repeat t repeats = Inr p \<longleftrightarrow> length repeats = length (t_shape t) \<and> 0 \<notin> set repeats \<and>
     p = map2 (*) (t_shape t) repeats"
  by (auto simp: validate_repeat_def t_ndim_def layout_ndim_def t_shape_def list_ex_iff)

lemma validate_roll_Inr:
  "(\<exists>p. validate_roll t s d = Inr p) \<longleftrightarrow>
     (\<exists>k. normalize_dim d (length (t_shape t)) = Some k \<and> t_shape t ! k \<noteq> 0)"
  by (auto simp: validate_roll_def t_ndim_def layout_ndim_def t_shape_def Let_def normalize_dim_def unat_eq_0
      split: option.splits)

lemma run_kernel_bool:
  assumes "t_dtype t = Bool"
  shows "run_kernel alloc op t out kern \<noteq> Some (Inr r)"
  using assms by (cases out; cases "ensure_contiguous alloc t" rule: option.exhaust)
    (auto simp: run_kernel_def elim!: bindR.elims)

lemma shape_errors_returned:
  "validate_cat ts d = Inl e \<Longrightarrow> cat_impl alloc ts d = Some (Inl e)"
  "validate_stack ts d = Inl e \<Longrightarrow> stack_impl alloc ts d = Some (Inl e)"
  "validate_repeat t repeats = Inl e \<Longrightarrow> repeat_impl alloc t repeats = Some (Inl e)"
  "validate_pad t padding = Some (Inl e) \<Longrightarrow> pad_impl alloc encode t padding = Some (Inl e)"
  "validate_roll t s d = Inl e \<Longrightarrow> roll_impl alloc t s d = Some (Inl e)"
  by (simp_all add: cat_impl_def stack_impl_def repeat_impl_def pad_impl_def roll_impl_def)

lemma bool_unchanged:
  assumes "t_dtype t = Bool"
  shows "repeat_impl alloc t repeats = Some (Inr r) \<Longrightarrow> r = t"
    and "pad_impl alloc encode t padding = Some (Inr r) \<Longrightarrow> r = t"
    and "roll_impl alloc t s d = Some (Inr r) \<Longrightarrow> r = t"
  using run_kernel_bool[OF assms] run_kernel_bool[OF assms, symmetric]
  by (auto simp: repeat_impl_def pad_impl_def roll_impl_def elim!: bindR.elims split: if_splits)

lemma validate_pad_total:
  "validate_pad t padding \<noteq> None"
  "(\<exists>p. validate_pad t padding = Some (Inr p)) \<longleftrightarrow> even (length padding) \<and> length padding \<le> 2 * length (t_shape t)"
proof -
  have n: "t_ndim t = length (t_shape t)" by (simp add: t_ndim_def layout_ndim_def t_shape_def)
  have *: "validate_pad t padding = Some (Inl (InvalidArgument ''padding''))"
    if "\<not> (even (length padding) \<and> length padding \<le> 2 * length (t_shape t))"
    using that by (cases "even (length padding)") (auto simp: validate_pad_def Let_def n odd_iff_mod_2_eq_one)
  show "validate_pad t padding \<noteq> None"
    "(\<exists>p. validate_pad t padding = Some (Inr p)) \<longleftrightarrow> even (length padding) \<and> length padding \<le> 2 * length (t_shape t)"
    using * validate_pad_eq[of padding t]
    by (cases "even (length padding) \<and> length padding \<le> 2 * length (t_shape t)"; simp)+
qed

lemma no_axis_reported:
  "validate_roll t s d = Inl (InvalidDimension a n) \<longleftrightarrow>
     a = d \<and> n = length (t_shape t) \<and> 0 < n \<and> (d < - int n \<or> int n \<le> d)"
  by (auto simp: validate_roll_def t_ndim_def layout_ndim_def t_shape_def Let_def normalize_dim_def split: option.splits if_splits)

lemma validate_stack_accepts:
  "(\<exists>k. validate_stack ts d = Inr k) \<longleftrightarrow> ts \<noteq> [] \<and>
     - int (length (t_shape (hd ts))) - 1 \<le> d \<and> d \<le> int (length (t_shape (hd ts))) \<and>
     (\<forall>t \<in> set ts. t_dtype t = t_dtype (hd ts) \<and> t_shape t = t_shape (hd ts))"
proof -
  have "(\<exists>k. normalize_stack_dim d n = Some k) \<longleftrightarrow> - int n - 1 \<le> d \<and> d \<le> int n" for n
    by (auto simp: normalize_stack_dim_Some)
  then show ?thesis unfolding validate_stack_Inr by blast
qed

lemma validate_cat_accepts:
  "(\<exists>p. validate_cat ts d = Inr p) \<longleftrightarrow> ts \<noteq> [] \<and>
     (\<exists>k. normalize_dim d (length (t_shape (hd ts))) = Some k \<and> (\<forall>t \<in> set ts. cat_compatible k (hd ts) t))"
  unfolding validate_cat_Inr by (cases ts) (auto dest: normalized_dim_less)

end
