(* ===== verification/Sparse_Formats.thy ===== *)
theory Sparse_Formats
  imports Tensors "HOL-Library.Product_Lexorder"
begin

text \<open>
  Sparse matrices in coordinate (COO), compressed row (CSR) and compressed column (CSC) format and the
  conversions between them: the backend-independent ones on the matrix types (\<open>src/sparse/coo\<close>,
  \<open>src/sparse/csr\<close>, \<open>src/sparse/csc\<close>, \<open>src/sparse/tensor\<close>) and the ones the CPU client offers on
  the three vectors of a matrix (\<open>src/runtime/cpu/sparse/format_convert.rs\<close>).

  The tensors of a matrix are read to host vectors and written back whole, so a tensor is its element
  type, its shape and its elements in row-major order (\<open>contents\<close> of Tensors); allocation succeeds.
  Indices are \<open>i64\<close>, here \<open>int\<close>; \<open>as usize\<close> is written out, and a vector never has more than
  \<open>i64::MAX\<close> entries, so the sums of the pointer computation stay exact.
\<close>

section \<open>Vectors and matrices\<close>

record 'a tvec =
  tv_dtype :: dtype
  tv_shape :: "nat list"
  tv_elems :: "'a list"

text \<open>Sizes and offsets are \<open>usize\<close> and wrap at 64 bits.\<close>

definition wrapped :: "nat \<Rightarrow> nat" where
  "wrapped n = nat (int n mod 2 ^ 64)"

lemma wrapped_id [simp]: "n < 2 ^ 64 \<Longrightarrow> wrapped n = n"
  by (simp add: wrapped_def nat_mod_distrib)

definition numel :: "'a tvec \<Rightarrow> nat" where
  "numel t = wrapped (prod_list (tv_shape t))"

definition from_slice :: "dtype \<Rightarrow> 'a list \<Rightarrow> nat list \<Rightarrow> tensor_error + 'a tvec" where
  "from_slice dt data shp =
     (if length data \<noteq> wrapped (prod_list shp) then Inl (ShapeMismatch (map of_nat shp) [of_nat (length data)])
      else Inr \<lparr>tv_dtype = dt, tv_shape = shp, tv_elems = data\<rparr>)"

definition empty_tvec :: "dtype \<Rightarrow> 'a tvec" where
  "empty_tvec dt = \<lparr>tv_dtype = dt, tv_shape = [0], tv_elems = []\<rparr>"

record 'a coo =
  coo_rows :: "int tvec"
  coo_cols :: "int tvec"
  coo_values :: "'a tvec"
  coo_shape :: "nat \<times> nat"
  coo_sorted :: bool

record 'a csr =
  csr_ptrs :: "int tvec"
  csr_indices :: "int tvec"
  csr_values :: "'a tvec"
  csr_shape :: "nat \<times> nat"

record 'a csc =
  csc_ptrs :: "int tvec"
  csc_indices :: "int tvec"
  csc_values :: "'a tvec"
  csc_shape :: "nat \<times> nat"

definition coo_new :: "int tvec \<Rightarrow> int tvec \<Rightarrow> 'a tvec \<Rightarrow> nat \<times> nat \<Rightarrow> tensor_error + 'a coo" where
  "coo_new rows cols values shp =
     (let nnz = numel values
      in if numel rows \<noteq> nnz \<or> numel cols \<noteq> nnz then Inl (ShapeMismatch [of_nat nnz] [of_nat (numel rows)])
         else if tv_dtype rows \<noteq> I64 then Inl (DTypeMismatch I64 (tv_dtype rows))
         else if tv_dtype cols \<noteq> I64 then Inl (DTypeMismatch I64 (tv_dtype cols))
         else if length (tv_shape rows) \<noteq> 1 \<or> length (tv_shape cols) \<noteq> 1 \<or> length (tv_shape values) \<noteq> 1
         then Inl (Internal ''Expected 1D tensors'')
         else Inr \<lparr>coo_rows = rows, coo_cols = cols, coo_values = values, coo_shape = shp, coo_sorted = False\<rparr>)"

text \<open>The checks \<open>CsrData::new\<close> and \<open>CscData::new\<close> share; \<open>n\<close> is the number of rows or columns.\<close>

definition compressed_check :: "nat \<Rightarrow> int tvec \<Rightarrow> int tvec \<Rightarrow> 'a tvec \<Rightarrow> tensor_error + unit" where
  "compressed_check n ptrs indices values =
     (let nnz = numel values
      in if numel ptrs \<noteq> n + 1 then Inl (ShapeMismatch [of_nat (n + 1)] [of_nat (numel ptrs)])
         else if numel indices \<noteq> nnz then Inl (ShapeMismatch [of_nat nnz] [of_nat (numel indices)])
         else if tv_dtype ptrs \<noteq> I64 then Inl (DTypeMismatch I64 (tv_dtype ptrs))
         else if tv_dtype indices \<noteq> I64 then Inl (DTypeMismatch I64 (tv_dtype indices))
         else if length (tv_shape ptrs) \<noteq> 1 \<or> length (tv_shape indices) \<noteq> 1 \<or> length (tv_shape values) \<noteq> 1
         then Inl (Internal ''Expected 1D tensors'')
         else Inr ())"

definition csr_new :: "int tvec \<Rightarrow> int tvec \<Rightarrow> 'a tvec \<Rightarrow> nat \<times> nat \<Rightarrow> tensor_error + 'a csr" where
  "csr_new ptrs indices values shp =
     map_sum id (\<lambda>_. \<lparr>csr_ptrs = ptrs, csr_indices = indices, csr_values = values, csr_shape = shp\<rparr>)
       (compressed_check (fst shp) ptrs indices values)"

definition csc_new :: "int tvec \<Rightarrow> int tvec \<Rightarrow> 'a tvec \<Rightarrow> nat \<times> nat \<Rightarrow> tensor_error + 'a csc" where
  "csc_new ptrs indices values shp =
     map_sum id (\<lambda>_. \<lparr>csc_ptrs = ptrs, csc_indices = indices, csc_values = values, csc_shape = shp\<rparr>)
       (compressed_check (snd shp) ptrs indices values)"

definition coo_empty :: "nat \<times> nat \<Rightarrow> dtype \<Rightarrow> 'a coo" where
  "coo_empty shp dt = \<lparr>coo_rows = empty_tvec I64, coo_cols = empty_tvec I64, coo_values = empty_tvec dt,
     coo_shape = shp, coo_sorted = True\<rparr>"

definition zero_ptrs :: "nat \<Rightarrow> int tvec" where
  "zero_ptrs n = \<lparr>tv_dtype = I64, tv_shape = [n + 1], tv_elems = replicate (n + 1) 0\<rparr>"

definition csr_empty :: "nat \<times> nat \<Rightarrow> dtype \<Rightarrow> 'a csr" where
  "csr_empty shp dt = \<lparr>csr_ptrs = zero_ptrs (fst shp), csr_indices = empty_tvec I64, csr_values = empty_tvec dt, csr_shape = shp\<rparr>"

definition csc_empty :: "nat \<times> nat \<Rightarrow> dtype \<Rightarrow> 'a csc" where
  "csc_empty shp dt = \<lparr>csc_ptrs = zero_ptrs (snd shp), csc_indices = empty_tvec I64, csc_values = empty_tvec dt, csc_shape = shp\<rparr>"

section \<open>Construction from slices\<close>

definition check_index :: "nat \<Rightarrow> int \<Rightarrow> tensor_error + unit" where
  "check_index n i =
     (if i < 0 then Inl (Internal ''Negative index'')
      else if n \<le> as_usize i then Inl (IndexOutOfBounds (as_usize i) n)
      else Inr ())"

definition coo_from_slices :: "dtype \<Rightarrow> int list \<Rightarrow> int list \<Rightarrow> 'a list \<Rightarrow> nat \<times> nat \<Rightarrow> tensor_error + 'a coo" where
  "coo_from_slices dt rows cols values shp =
     (if length rows \<noteq> length values \<or> length cols \<noteq> length values
      then Inl (ShapeMismatch [of_nat (length values)] [of_nat (length rows)])
      else case foldE (\<lambda>(r, c) _. case check_index (fst shp) r of Inl e \<Rightarrow> Inl e | Inr u \<Rightarrow> check_index (snd shp) c)
                  (zip rows cols) () of
          Inl e \<Rightarrow> Inl e
        | Inr _ \<Rightarrow>
            (case from_slice I64 rows [length rows] of Inl e \<Rightarrow> Inl e | Inr r \<Rightarrow>
             case from_slice I64 cols [length cols] of Inl e \<Rightarrow> Inl e | Inr c \<Rightarrow>
             case from_slice dt values [length values] of Inl e \<Rightarrow> Inl e | Inr v \<Rightarrow> coo_new r c v shp))"

text \<open>What \<open>CsrData::from_slices\<close> and \<open>CscData::from_slices\<close> share: \<open>n\<close> pointers lines, \<open>m\<close> bounds the indices.\<close>

definition compressed_from_slices :: "nat \<Rightarrow> nat \<Rightarrow> dtype \<Rightarrow> int list \<Rightarrow> int list \<Rightarrow> 'a list \<Rightarrow>
    tensor_error + int tvec \<times> int tvec \<times> 'a tvec" where
  "compressed_from_slices n m dt ptrs indices values =
     (if length ptrs \<noteq> n + 1 then Inl (ShapeMismatch [of_nat (n + 1)] [of_nat (length ptrs)])
      else if length indices \<noteq> length values then Inl (ShapeMismatch [of_nat (length values)] [of_nat (length indices)])
      else if ptrs ! 0 \<noteq> 0 \<or> as_usize (ptrs ! n) \<noteq> length values then Inl (Internal ''Invalid ptrs'')
      else case foldE (\<lambda>i _. check_index m i) indices () of
          Inl e \<Rightarrow> Inl e
        | Inr _ \<Rightarrow>
            (case from_slice I64 ptrs [length ptrs] of Inl e \<Rightarrow> Inl e | Inr p \<Rightarrow>
             case from_slice I64 indices [length indices] of Inl e \<Rightarrow> Inl e | Inr i \<Rightarrow>
             case from_slice dt values [length values] of Inl e \<Rightarrow> Inl e | Inr v \<Rightarrow> Inr (p, i, v)))"

definition csr_from_slices :: "dtype \<Rightarrow> int list \<Rightarrow> int list \<Rightarrow> 'a list \<Rightarrow> nat \<times> nat \<Rightarrow> tensor_error + 'a csr" where
  "csr_from_slices dt row_ptrs col_indices values shp =
     (case compressed_from_slices (fst shp) (snd shp) dt row_ptrs col_indices values of
        Inl e \<Rightarrow> Inl e | Inr (p, i, v) \<Rightarrow> csr_new p i v shp)"

definition csc_from_slices :: "dtype \<Rightarrow> int list \<Rightarrow> int list \<Rightarrow> 'a list \<Rightarrow> nat \<times> nat \<Rightarrow> tensor_error + 'a csc" where
  "csc_from_slices dt col_ptrs row_indices values shp =
     (case compressed_from_slices (snd shp) (fst shp) dt col_ptrs row_indices values of
        Inl e \<Rightarrow> Inl e | Inr (p, i, v) \<Rightarrow> csc_new p i v shp)"

section \<open>Conversions between the matrix types\<close>

text \<open>\<open>ptrs[key + 1] += 1\<close> for every key, then the cumulative sums.\<close>

definition inc_at :: "int list \<Rightarrow> nat \<Rightarrow> int list option" where
  "inc_at ptrs i = do { v \<leftarrow> nth_chk ptrs i; upd_chk ptrs i (v + 1) }"

definition prefix_sums :: "nat \<Rightarrow> int list \<Rightarrow> int list option" where
  "prefix_sums n ptrs = foldM (\<lambda>i p. do { a \<leftarrow> nth_chk p i; b \<leftarrow> nth_chk p (i - 1); upd_chk p i (a + b) }) [1..<n + 1] ptrs"

definition pointers_of :: "nat \<Rightarrow> int list \<Rightarrow> int list option" where
  "pointers_of n keys = do {
     ptrs \<leftarrow> foldM (\<lambda>k p. inc_at p ((as_usize k + 1) mod 2 ^ 64)) keys (replicate (n + 1) 0);
     prefix_sums n ptrs }"

text \<open>
  Sort the entries by \<open>(major, minor)\<close>, count, and build the three vectors; \<open>new\<close> is the constructor.
  A sort by a key that indexes the vectors panics when they are shorter than the values.
\<close>

definition compress :: "string \<Rightarrow> nat \<Rightarrow> int list \<Rightarrow> int list \<Rightarrow> 'a tvec \<Rightarrow>
    (int tvec \<Rightarrow> int tvec \<Rightarrow> 'a tvec \<Rightarrow> tensor_error + 'm) \<Rightarrow> 'm res" where
  "compress error_op n major minor values new =
     (let nnz = numel values; dt = tv_dtype values; vals = tv_elems values
      in if length major < nnz \<or> length minor < nnz then None
         else let perm = sort_key (\<lambda>i. (major ! i, minor ! i)) [0..<nnz];
                  sorted_minor = map (\<lambda>i. minor ! i) perm
              in do {
                ptrs \<leftarrow> pointers_of n (map (\<lambda>i. major ! i) perm);
                if dt = Bool then Some (Inl (UnsupportedDType Bool error_op))
                else if length vals < nnz then None
                else bindR (Some (from_slice I64 ptrs [length ptrs])) (\<lambda>p.
                  bindR (Some (from_slice I64 sorted_minor [length sorted_minor])) (\<lambda>i.
                    bindR (Some (from_slice dt (map (\<lambda>i. vals ! i) perm) [length perm])) (\<lambda>v. Some (new p i v)))) })"

definition coo_to_csr :: "'a coo \<Rightarrow> 'a csr res" where
  "coo_to_csr m =
     (if numel (coo_values m) = 0 then Some (Inr (csr_empty (coo_shape m) (tv_dtype (coo_values m))))
      else compress ''COO to CSR conversion'' (fst (coo_shape m)) (tv_elems (coo_rows m)) (tv_elems (coo_cols m))
             (coo_values m) (\<lambda>p i v. csr_new p i v (coo_shape m)))"

definition coo_to_csc :: "'a coo \<Rightarrow> 'a csc res" where
  "coo_to_csc m =
     (if numel (coo_values m) = 0 then Some (Inr (csc_empty (coo_shape m) (tv_dtype (coo_values m))))
      else compress ''COO to CSC conversion'' (snd (coo_shape m)) (tv_elems (coo_cols m)) (tv_elems (coo_rows m))
             (coo_values m) (\<lambda>p i v. csc_new p i v (coo_shape m)))"

text \<open>Every line number as often as the pointers say.\<close>

definition expand_ptrs :: "nat \<Rightarrow> int list \<Rightarrow> int list option" where
  "expand_ptrs n ptrs = foldM (\<lambda>r acc. do {
     s \<leftarrow> nth_chk ptrs r; e \<leftarrow> nth_chk ptrs (r + 1);
     Some (acc @ replicate (as_usize e - as_usize s) (int r)) }) [0..<n] []"

definition csr_to_coo :: "'a csr \<Rightarrow> 'a coo res" where
  "csr_to_coo m =
     (let values = csr_values m; dt = tv_dtype values
      in if numel values = 0 then Some (Inr (coo_empty (csr_shape m) dt))
         else do {
           row_indices \<leftarrow> expand_ptrs (fst (csr_shape m)) (tv_elems (csr_ptrs m));
           if dt = Bool then Some (Inl (UnsupportedDType Bool ''CSR to COO conversion''))
           else let cols = tv_elems (csr_indices m); vals = tv_elems values
                in bindR (Some (from_slice I64 row_indices [length row_indices])) (\<lambda>r.
                     bindR (Some (from_slice I64 cols [length cols])) (\<lambda>c.
                       bindR (Some (from_slice dt vals [length vals])) (\<lambda>v.
                         bindR (Some (coo_new r c v (csr_shape m))) (\<lambda>d. Some (Inr (d\<lparr>coo_sorted := True\<rparr>)))))) })"

definition csc_to_coo :: "'a csc \<Rightarrow> 'a coo res" where
  "csc_to_coo m =
     (let values = csc_values m; dt = tv_dtype values
      in if numel values = 0 then Some (Inr (coo_empty (csc_shape m) dt))
         else do {
           col_indices \<leftarrow> expand_ptrs (snd (csc_shape m)) (tv_elems (csc_ptrs m));
           if dt = Bool then Some (Inl (UnsupportedDType Bool ''CSC to COO conversion''))
           else let rows = tv_elems (csc_indices m); vals = tv_elems values
                in bindR (Some (from_slice I64 rows [length rows])) (\<lambda>r.
                     bindR (Some (from_slice I64 col_indices [length col_indices])) (\<lambda>c.
                       bindR (Some (from_slice dt vals [length vals])) (\<lambda>v. Some (coo_new r c v (csc_shape m))))) })"

definition csr_to_csc :: "'a csr \<Rightarrow> 'a csc res" where
  "csr_to_csc m = bindR (csr_to_coo m) coo_to_csc"

definition csc_to_csr :: "'a csc \<Rightarrow> 'a csr res" where
  "csc_to_csr m = bindR (csc_to_coo m) coo_to_csr"

definition coo_transpose :: "'a coo \<Rightarrow> 'a coo" where
  "coo_transpose m = \<lparr>coo_rows = coo_cols m, coo_cols = coo_rows m, coo_values = coo_values m,
     coo_shape = (snd (coo_shape m), fst (coo_shape m)), coo_sorted = False\<rparr>"

definition csr_transpose :: "'a csr \<Rightarrow> 'a csc" where
  "csr_transpose m = \<lparr>csc_ptrs = csr_ptrs m, csc_indices = csr_indices m, csc_values = csr_values m,
     csc_shape = (snd (csr_shape m), fst (csr_shape m))\<rparr>"

definition csc_transpose :: "'a csc \<Rightarrow> 'a csr" where
  "csc_transpose m = \<lparr>csr_ptrs = csc_ptrs m, csr_indices = csc_indices m, csr_values = csc_values m,
     csr_shape = (snd (csc_shape m), fst (csc_shape m))\<rparr>"

section \<open>Sparse tensors\<close>

datatype sparse_format = COO | CSR | CSC

datatype 'a sparse = Coo "'a coo" | Csr "'a csr" | Csc "'a csc"

fun sp_shape :: "'a sparse \<Rightarrow> nat \<times> nat" where
  "sp_shape (Coo d) = coo_shape d"
| "sp_shape (Csr d) = csr_shape d"
| "sp_shape (Csc d) = csc_shape d"

fun sp_values :: "'a sparse \<Rightarrow> 'a tvec" where
  "sp_values (Coo d) = coo_values d"
| "sp_values (Csr d) = csr_values d"
| "sp_values (Csc d) = csc_values d"

definition sp_nnz :: "'a sparse \<Rightarrow> nat" where
  "sp_nnz m = numel (sp_values m)"

definition sp_dtype :: "'a sparse \<Rightarrow> dtype" where
  "sp_dtype m = tv_dtype (sp_values m)"

fun to_coo :: "'a sparse \<Rightarrow> 'a coo res" where
  "to_coo (Coo d) = Some (Inr d)"
| "to_coo (Csr d) = csr_to_coo d"
| "to_coo (Csc d) = csc_to_coo d"

fun to_csr :: "'a sparse \<Rightarrow> 'a csr res" where
  "to_csr (Coo d) = coo_to_csr d"
| "to_csr (Csr d) = Some (Inr d)"
| "to_csr (Csc d) = csc_to_csr d"

fun to_csc :: "'a sparse \<Rightarrow> 'a csc res" where
  "to_csc (Coo d) = coo_to_csc d"
| "to_csc (Csr d) = csr_to_csc d"
| "to_csc (Csc d) = Some (Inr d)"

fun to_format :: "sparse_format \<Rightarrow> 'a sparse \<Rightarrow> 'a sparse res" where
  "to_format COO m = map_option (map_sum id Coo) (to_coo m)"
| "to_format CSR m = map_option (map_sum id Csr) (to_csr m)"
| "to_format CSC m = map_option (map_sum id Csc) (to_csc m)"

fun sp_transpose :: "'a sparse \<Rightarrow> 'a sparse" where
  "sp_transpose (Coo d) = Coo (coo_transpose d)"
| "sp_transpose (Csr d) = Csc (csr_transpose d)"
| "sp_transpose (Csc d) = Csr (csc_transpose d)"

text \<open>One round of the loop that scatters the entries; \<open>i\<close> is the number of the entry.\<close>

definition dense_step :: "nat \<Rightarrow> nat \<Rightarrow> nat \<times> 'a \<times> int \<times> int \<Rightarrow> 'a list \<Rightarrow> 'a list res" where
  "dense_step nrows ncols e out = (case e of (i, v, row, col) \<Rightarrow>
     (let r = as_usize row; c = as_usize col
      in if nrows \<le> r \<or> ncols \<le> c then Some (Inl (IndexOutOfBounds i (wrapped (nrows * ncols))))
         else map_option Inr (upd_chk out (wrapped (r * ncols + c)) v)))"

definition to_dense :: "'a \<Rightarrow> 'a sparse \<Rightarrow> 'a tvec res" where
  "to_dense zero m =
     (let (nrows, ncols) = sp_shape m; dt = sp_dtype m; n = wrapped (nrows * ncols)
      in if sp_nnz m = 0
         then (if dt = Bool then Some (Inl (UnsupportedDType Bool ''sparse to dense empty''))
               else Some (from_slice dt (replicate n zero) [nrows, ncols]))
         else bindR (to_coo m) (\<lambda>d.
           if dt = Bool then Some (Inl (UnsupportedDType Bool ''sparse to dense conversion''))
           else let entries = zip (tv_elems (coo_values d)) (zip (tv_elems (coo_rows d)) (tv_elems (coo_cols d)))
                in bindR (foldR (dense_step nrows ncols) (zip [0..<length entries] entries) (replicate n zero))
                     (\<lambda>out. Some (from_slice dt out [nrows, ncols]))))"

section \<open>Conversions of the CPU client\<close>

text \<open>\<open>dt\<close> is the element type the caller dispatched on.\<close>

type_synonym 'a parts = "int tvec \<times> int tvec \<times> 'a tvec"

definition cpu_parts :: "dtype \<Rightarrow> nat \<Rightarrow> nat \<Rightarrow> int list \<Rightarrow> int list \<Rightarrow> 'a list \<Rightarrow> 'a parts res" where
  "cpu_parts dt n nnz ptrs indices values =
     bindR (Some (from_slice I64 ptrs [n + 1])) (\<lambda>p.
       bindR (Some (from_slice I64 indices [nnz])) (\<lambda>i.
         bindR (Some (from_slice dt values [nnz])) (\<lambda>v. Some (Inr (p, i, v)))))"

definition cpu_compress :: "dtype \<Rightarrow> nat \<Rightarrow> int list \<Rightarrow> int list \<Rightarrow> 'a tvec \<Rightarrow> 'a parts res" where
  "cpu_compress dt n major minor values =
     (let nnz = numel values; vals = tv_elems values
      in if length major < nnz \<or> length minor < nnz \<or> length vals < nnz then None
         else let perm = sort_key (\<lambda>i. (major ! i, minor ! i)) [0..<nnz]
              in do {
                ptrs \<leftarrow> pointers_of n (map (\<lambda>i. major ! i) perm);
                cpu_parts dt n nnz ptrs (map (\<lambda>i. minor ! i) perm) (map (\<lambda>i. vals ! i) perm) })"

definition cpu_coo_to_csr :: "dtype \<Rightarrow> int tvec \<Rightarrow> int tvec \<Rightarrow> 'a tvec \<Rightarrow> nat \<times> nat \<Rightarrow> 'a parts res" where
  "cpu_coo_to_csr dt rows cols values shp = cpu_compress dt (fst shp) (tv_elems rows) (tv_elems cols) values"

definition cpu_coo_to_csc :: "dtype \<Rightarrow> int tvec \<Rightarrow> int tvec \<Rightarrow> 'a tvec \<Rightarrow> nat \<times> nat \<Rightarrow> 'a parts res" where
  "cpu_coo_to_csc dt rows cols values shp = cpu_compress dt (snd shp) (tv_elems cols) (tv_elems rows) values"

definition cpu_expand :: "nat \<Rightarrow> int tvec \<Rightarrow> 'a tvec \<Rightarrow> int tvec res" where
  "cpu_expand n ptrs values =
     bindR (map_option Inr (expand_ptrs n (tv_elems ptrs))) (\<lambda>lines. Some (from_slice I64 lines [numel values]))"

definition cpu_csr_to_coo :: "int tvec \<Rightarrow> int tvec \<Rightarrow> 'a tvec \<Rightarrow> nat \<times> nat \<Rightarrow> 'a parts res" where
  "cpu_csr_to_coo row_ptrs cols values shp =
     bindR (cpu_expand (fst shp) row_ptrs values) (\<lambda>rows. Some (Inr (rows, cols, values)))"

definition cpu_csc_to_coo :: "int tvec \<Rightarrow> int tvec \<Rightarrow> 'a tvec \<Rightarrow> nat \<times> nat \<Rightarrow> 'a parts res" where
  "cpu_csc_to_coo col_ptrs rows values shp =
     bindR (cpu_expand (snd shp) col_ptrs values) (\<lambda>cols. Some (Inr (rows, cols, values)))"

text \<open>
  The counting sort that turns rows into columns and back: \<open>n\<close> lines of the input, \<open>k\<close> of the output.
  One entry is put at the next free position of its output line.
\<close>

definition place_entry :: "int list \<Rightarrow> 'a list \<Rightarrow> nat \<Rightarrow> nat \<Rightarrow> int list \<times> 'a list \<times> int list \<Rightarrow>
    (int list \<times> 'a list \<times> int list) option" where
  "place_entry indices vals line idx st = (case st of (new_indices, new_values, positions) \<Rightarrow> do {
     i \<leftarrow> nth_chk indices idx;
     p \<leftarrow> nth_chk positions (as_usize i);
     new_indices' \<leftarrow> upd_chk new_indices (as_usize p) (int line);
     v \<leftarrow> nth_chk vals idx;
     new_values' \<leftarrow> upd_chk new_values (as_usize p) v;
     positions' \<leftarrow> inc_at positions (as_usize i);
     Some (new_indices', new_values', positions') })"

definition cpu_switch :: "'a \<Rightarrow> dtype \<Rightarrow> nat \<Rightarrow> nat \<Rightarrow> int tvec \<Rightarrow> int tvec \<Rightarrow> 'a tvec \<Rightarrow> 'a parts res" where
  "cpu_switch zero dt n k ptrs indices values =
     (let nnz = numel values
      in do {
        counts \<leftarrow> foldM (\<lambda>i c. inc_at c (as_usize i)) (tv_elems indices) (replicate k 0);
        new_ptrs \<leftarrow> foldM (\<lambda>c p. do { a \<leftarrow> nth_chk p c; b \<leftarrow> nth_chk counts c; upd_chk p (c + 1) (a + b) })
          [0..<k] (replicate (k + 1) 0);
        (new_indices, new_values, _) \<leftarrow> foldM (\<lambda>line st. do {
            s \<leftarrow> nth_chk (tv_elems ptrs) line;
            e \<leftarrow> nth_chk (tv_elems ptrs) (line + 1);
            foldM (place_entry (tv_elems indices) (tv_elems values) line) [as_usize s..<as_usize e] st })
          [0..<n] (replicate nnz 0, replicate nnz zero, take k new_ptrs);
        cpu_parts dt k nnz new_ptrs new_indices new_values })"

definition cpu_csr_to_csc :: "'a \<Rightarrow> dtype \<Rightarrow> int tvec \<Rightarrow> int tvec \<Rightarrow> 'a tvec \<Rightarrow> nat \<times> nat \<Rightarrow> 'a parts res" where
  "cpu_csr_to_csc zero dt row_ptrs cols values shp = cpu_switch zero dt (fst shp) (snd shp) row_ptrs cols values"

definition cpu_csc_to_csr :: "'a \<Rightarrow> dtype \<Rightarrow> int tvec \<Rightarrow> int tvec \<Rightarrow> 'a tvec \<Rightarrow> nat \<times> nat \<Rightarrow> 'a parts res" where
  "cpu_csc_to_csr zero dt col_ptrs rows values shp = cpu_switch zero dt (snd shp) (fst shp) col_ptrs rows values"

end
