(* ===== verification/Sparse_Conversions.thy ===== *)
theory Sparse_Conversions
  imports Sparse_Formats
begin

text \<open>
  What the conversions between sparse formats preserve. The meaning of a matrix is the list of its
  entries (row, column, value) in storage order: a conversion to a compressed format is a stable sort
  of this list, a conversion to coordinates leaves it as it is.
\<close>

section \<open>The entries of a matrix\<close>

type_synonym 'a entry = "int \<times> int \<times> 'a"

definition swap_entry :: "'a entry \<Rightarrow> 'a entry" where
  "swap_entry e = (fst (snd e), fst e, snd (snd e))"

definition line_of :: "int list \<Rightarrow> int list \<Rightarrow> 'a list \<Rightarrow> nat \<Rightarrow> 'a entry list" where
  "line_of ptrs indices vals l = map (\<lambda>k. (int l, indices ! k, vals ! k)) [nat (ptrs ! l)..<nat (ptrs ! Suc l)]"

definition lines_of :: "nat \<Rightarrow> int list \<Rightarrow> int list \<Rightarrow> 'a list \<Rightarrow> 'a entry list" where
  "lines_of n ptrs indices vals = concat (map (line_of ptrs indices vals) [0..<n])"

definition coo_entries :: "'a coo \<Rightarrow> 'a entry list" where
  "coo_entries m = zip (tv_elems (coo_rows m)) (zip (tv_elems (coo_cols m)) (tv_elems (coo_values m)))"

definition csr_entries :: "'a csr \<Rightarrow> 'a entry list" where
  "csr_entries m = lines_of (fst (csr_shape m)) (tv_elems (csr_ptrs m)) (tv_elems (csr_indices m)) (tv_elems (csr_values m))"

definition csc_entries :: "'a csc \<Rightarrow> 'a entry list" where
  "csc_entries m = map swap_entry
     (lines_of (snd (csc_shape m)) (tv_elems (csc_ptrs m)) (tv_elems (csc_indices m)) (tv_elems (csc_values m)))"

fun sp_entries :: "'a sparse \<Rightarrow> 'a entry list" where
  "sp_entries (Coo d) = coo_entries d"
| "sp_entries (Csr d) = csr_entries d"
| "sp_entries (Csc d) = csc_entries d"

definition wf_tvec :: "dtype \<Rightarrow> nat \<Rightarrow> 'a tvec \<Rightarrow> bool" where
  "wf_tvec dt n t \<longleftrightarrow> tv_dtype t = dt \<and> tv_shape t = [n] \<and> length (tv_elems t) = n"

definition indices_below :: "nat \<Rightarrow> int list \<Rightarrow> bool" where
  "indices_below n xs \<longleftrightarrow> (\<forall>x \<in> set xs. 0 \<le> x \<and> x < int n)"

definition wf_coo :: "'a coo \<Rightarrow> bool" where
  "wf_coo m \<longleftrightarrow> (let nnz = length (tv_elems (coo_values m))
     in wf_tvec I64 nnz (coo_rows m) \<and> wf_tvec I64 nnz (coo_cols m) \<and> tv_shape (coo_values m) = [nnz] \<and> nnz < 2 ^ 63 \<and>
        fst (coo_shape m) < 2 ^ 63 \<and> snd (coo_shape m) < 2 ^ 63 \<and>
        indices_below (fst (coo_shape m)) (tv_elems (coo_rows m)) \<and> indices_below (snd (coo_shape m)) (tv_elems (coo_cols m)))"

definition wf_ptrs :: "nat \<Rightarrow> nat \<Rightarrow> int list \<Rightarrow> bool" where
  "wf_ptrs n nnz ptrs \<longleftrightarrow> length ptrs = n + 1 \<and> ptrs ! 0 = 0 \<and> ptrs ! n = int nnz \<and> (\<forall>i < n. ptrs ! i \<le> ptrs ! Suc i)"

definition wf_compressed :: "nat \<Rightarrow> nat \<Rightarrow> int tvec \<Rightarrow> int tvec \<Rightarrow> 'a tvec \<Rightarrow> bool" where
  "wf_compressed n k ptrs indices values \<longleftrightarrow> (let nnz = length (tv_elems values)
     in wf_tvec I64 (n + 1) ptrs \<and> wf_tvec I64 nnz indices \<and> tv_shape values = [nnz] \<and> nnz < 2 ^ 63 \<and> n < 2 ^ 63 \<and> k < 2 ^ 63 \<and>
        wf_ptrs n nnz (tv_elems ptrs) \<and> indices_below k (tv_elems indices))"

definition wf_csr :: "'a csr \<Rightarrow> bool" where
  "wf_csr m \<longleftrightarrow> wf_compressed (fst (csr_shape m)) (snd (csr_shape m)) (csr_ptrs m) (csr_indices m) (csr_values m)"

definition wf_csc :: "'a csc \<Rightarrow> bool" where
  "wf_csc m \<longleftrightarrow> wf_compressed (snd (csc_shape m)) (fst (csc_shape m)) (csc_ptrs m) (csc_indices m) (csc_values m)"

fun wf_sparse :: "'a sparse \<Rightarrow> bool" where
  "wf_sparse (Coo d) = wf_coo d"
| "wf_sparse (Csr d) = wf_csr d"
| "wf_sparse (Csc d) = wf_csc d"

section \<open>Pointers\<close>

definition below :: "int list \<Rightarrow> int \<Rightarrow> nat" where
  "below ks x = length (filter (\<lambda>k. k < x) ks)"

definition ptrs_of :: "nat \<Rightarrow> int list \<Rightarrow> int list" where
  "ptrs_of n ks = map (\<lambda>i. int (below ks (int i))) [0..<n + 1]"

lemma foldM_map: "foldM f (map g xs) s = foldM (\<lambda>x. f (g x)) xs s"
  by (induction xs arbitrary: s) (auto split: option.split)

lemma inc_at_Some: "i < length p \<Longrightarrow> inc_at p i = Some (p[i := p ! i + 1])"
  by (simp add: inc_at_def)

lemma count_keys:
  assumes "\<forall>k \<in> set ks. as_usize (f k) < length c"
  shows "foldM (\<lambda>k p. inc_at p (as_usize (f k))) ks c =
    Some (map (\<lambda>j. c ! j + int (length (filter (\<lambda>k. as_usize (f k) = j) ks))) [0..<length c])"
  using assms
proof (induction ks arbitrary: c)
  case Nil
  then show ?case by (simp add: map_nth)
next
  case (Cons k ks)
  let ?c = "c[as_usize (f k) := c ! as_usize (f k) + 1]"
  have "foldM (\<lambda>k p. inc_at p (as_usize (f k))) (k # ks) c = foldM (\<lambda>k p. inc_at p (as_usize (f k))) ks ?c"
    using Cons.prems by (simp add: inc_at_Some)
  also have "\<dots> = Some (map (\<lambda>j. ?c ! j + int (length (filter (\<lambda>k. as_usize (f k) = j) ks))) [0..<length ?c])"
    using Cons.prems by (intro Cons.IH) simp
  also have "\<dots> = Some (map (\<lambda>j. c ! j + int (length (filter (\<lambda>k. as_usize (f k) = j) (k # ks)))) [0..<length c])"
    using Cons.prems by (auto simp: nth_list_update)
  finally show ?case .
qed

lemma below_Suc: "below ks (x + 1) = below ks x + length (filter (\<lambda>k. k = x) ks)"
  by (induction ks) (auto simp: below_def)

lemma below_0: "indices_below n ks \<Longrightarrow> below ks 0 = 0"
  by (auto simp: below_def indices_below_def filter_empty_conv)

lemma below_n: "indices_below n ks \<Longrightarrow> below ks (int n) = length ks"
  by (simp add: below_def indices_below_def)

lemma below_mono: "x \<le> y \<Longrightarrow> below ks x \<le> below ks y"
  by (induction ks) (auto simp: below_def)

lemma wf_ptrs_of: "indices_below n ks \<Longrightarrow> wf_ptrs n (length ks) (ptrs_of n ks)"
  by (auto simp: wf_ptrs_def ptrs_of_def below_0 below_n intro!: below_mono simp del: upt_Suc)

lemma pointers_of_eq:
  assumes ks: "indices_below n ks" and n: "n < 2 ^ 63"
  shows "pointers_of n ks = Some (ptrs_of n ks)"
proof -
  have u: "(as_usize k + 1) mod 2 ^ 64 = as_usize (k + 1) \<and> as_usize (k + 1) = nat k + 1" if "k \<in> set ks" for k
  proof -
    from that ks have "0 \<le> k" "k < int n" by (auto simp: indices_below_def)
    with n have "k + 1 < 2 ^ 64" "as_usize k = nat k" by simp_all
    with \<open>0 \<le> k\<close> show ?thesis by (simp add: nat_add_distrib)
  qed
  have fold_cong: "foldM (\<lambda>k p. inc_at p ((as_usize k + 1) mod 2 ^ 64)) xs s = foldM (\<lambda>k p. inc_at p (as_usize (k + 1))) xs s"
    if "set xs \<subseteq> set ks" for xs s
    using that u by (induction xs arbitrary: s) (auto split: option.split)
  let ?c = "map (\<lambda>j. replicate (n + 1) 0 ! j + int (length (filter (\<lambda>k. as_usize (k + 1) = j) ks))) [0..<length (replicate (n + 1) (0 :: int))]"
  have counts: "foldM (\<lambda>k p. inc_at p ((as_usize k + 1) mod 2 ^ 64)) ks (replicate (n + 1) 0) = Some ?c"
    unfolding fold_cong[OF order_refl]
    by (rule count_keys[where f = "\<lambda>k. k + 1"]) (use ks u in \<open>auto simp: indices_below_def nat_less_iff\<close>)
  have "filter (\<lambda>k. as_usize (k + 1) = 0) ks = []" using u by (auto simp: filter_empty_conv)
  then have c0: "?c ! 0 = 0" by (simp del: upt_Suc)
  have cS: "?c ! Suc j = int (length (filter (\<lambda>k. k = int j) ks))" if "j < n" for j
  proof -
    have "filter (\<lambda>k. as_usize (k + 1) = Suc j) ks = filter (\<lambda>k. k = int j) ks"
      using u ks by (intro filter_cong) (auto simp: indices_below_def)
    then show "?c ! Suc j = int (length (filter (\<lambda>k. k = int j) ks))" using that by (simp del: upt_Suc)
  qed
  have pre: "\<exists>p. foldM (\<lambda>i p. do { a \<leftarrow> nth_chk p (Suc i); b \<leftarrow> nth_chk p (Suc i - 1); upd_chk p (Suc i) (a + b) }) [0..<n] ?c = Some p \<and>
      (length p = n + 1 \<and> (\<forall>j \<le> n. p ! j = int (below ks (int j))) \<and> (\<forall>j. n < j \<and> j \<le> n \<longrightarrow> p ! j = ?c ! j))"
  proof (rule foldM_upt_rule[where I = "\<lambda>i p. length p = n + 1 \<and> (\<forall>j \<le> i. p ! j = int (below ks (int j))) \<and>
      (\<forall>j. i < j \<and> j \<le> n \<longrightarrow> p ! j = ?c ! j)"])
    show "length ?c = n + 1 \<and> (\<forall>j \<le> 0. ?c ! j = int (below ks (int j))) \<and> (\<forall>j. 0 < j \<and> j \<le> n \<longrightarrow> ?c ! j = ?c ! j)"
      using c0 below_0[OF ks] by (simp del: upt_Suc)
  next
    fix i p
    assume i: "i < n" and I: "length p = n + 1 \<and> (\<forall>j \<le> i. p ! j = int (below ks (int j))) \<and>
      (\<forall>j. i < j \<and> j \<le> n \<longrightarrow> p ! j = ?c ! j)"
    have "p ! Suc i = int (length (filter (\<lambda>k. k = int i) ks))" using I i cS[OF i] by simp
    moreover have "below ks (int (Suc i)) = below ks (int i) + length (filter (\<lambda>k. k = int i) ks)"
      using below_Suc[of ks "int i"] by (simp add: add.commute)
    ultimately have "p ! Suc i + p ! i = int (below ks (int (Suc i)))" using I by simp
    with I i show "\<exists>p'. do { a \<leftarrow> nth_chk p (Suc i); b \<leftarrow> nth_chk p (Suc i - 1); upd_chk p (Suc i) (a + b) } = Some p' \<and>
        length p' = n + 1 \<and> (\<forall>j \<le> Suc i. p' ! j = int (below ks (int j))) \<and> (\<forall>j. Suc i < j \<and> j \<le> n \<longrightarrow> p' ! j = ?c ! j)"
      by (auto simp: nth_list_update le_Suc_eq)
  qed
  then obtain p where p: "foldM (\<lambda>i p. do { a \<leftarrow> nth_chk p (Suc i); b \<leftarrow> nth_chk p (Suc i - 1); upd_chk p (Suc i) (a + b) }) [0..<n] ?c = Some p"
    "length p = n + 1" "\<forall>j \<le> n. p ! j = int (below ks (int j))" by blast
  have "p = ptrs_of n ks" using p(2,3) by (intro nth_equalityI) (auto simp: ptrs_of_def simp del: upt_Suc)
  moreover have "prefix_sums n ?c = Some p"
  proof -
    have "[1..<n + 1] = map Suc [0..<n]" by (simp add: map_Suc_upt)
    then show ?thesis using p(1) by (simp add: prefix_sums_def foldM_map comp_def)
  qed
  ultimately show ?thesis using counts by (simp add: pointers_of_def)
qed

section \<open>Lines\<close>

lemma concat_upt:
  fixes p :: "nat \<Rightarrow> nat"
  assumes "\<And>i. i < n \<Longrightarrow> p i \<le> p (Suc i)"
  shows "p 0 \<le> p n \<and> concat (map (\<lambda>l. map f [p l..<p (Suc l)]) [0..<n]) = map f [p 0..<p n]"
  using assms
proof (induction n)
  case (Suc n)
  then have le: "p 0 \<le> p n" "p n \<le> p (Suc n)" by simp_all
  then have "[p 0..<p (Suc n)] = [p 0..<p n] @ [p n..<p (Suc n)]" by (metis le_Suc_ex upt_add_eq_append)
  with Suc order_trans[OF le] show ?case by simp
qed simp

lemma sorted_below: "sorted ks \<Longrightarrow> k < length ks \<Longrightarrow> ks ! k < x \<longleftrightarrow> k < below ks x"
proof (induction ks arbitrary: k)
  case (Cons a ks)
  show ?case
  proof (cases k)
    case 0
    have "below ks x = 0" if "\<not> a < x" using that Cons.prems(1) by (auto simp: below_def filter_empty_conv)
    then show ?thesis using 0 by (auto simp: below_def)
  next
    case (Suc j)
    have "a \<le> ks ! j" using Cons.prems Suc by simp
    then have "\<not> ks ! j < x" if "\<not> a < x" using that by simp
    then show ?thesis using Cons Suc by (auto simp: below_def)
  qed
qed simp

text \<open>The lines of a sorted list of entries are the list itself.\<close>

lemma lines_of_sorted:
  assumes srt: "sorted (map fst es)" and rng: "indices_below n (map fst es)"
  shows "lines_of n (ptrs_of n (map fst es)) (map (\<lambda>e. fst (snd e)) es) (map (\<lambda>e. snd (snd e)) es) = es"
proof -
  let ?ks = "map fst es" and ?p = "\<lambda>i. below (map fst es) (int i)"
  have line: "line_of (ptrs_of n ?ks) (map (\<lambda>e. fst (snd e)) es) (map (\<lambda>e. snd (snd e)) es) l =
      map (\<lambda>k. es ! k) [?p l..<?p (Suc l)]" if l: "l < n" for l
  proof -
    have "(int l, map (\<lambda>e. fst (snd e)) es ! k, map (\<lambda>e. snd (snd e)) es ! k) = es ! k"
      if "?p l \<le> k" "k < ?p (Suc l)" for k
    proof -
      have k: "k < length es" using that(2) below_mono[of "int (Suc l)" "int n" ?ks] below_n[OF rng] l by simp
      then have "\<not> ?ks ! k < int l" "?ks ! k < int (Suc l)"
        using sorted_below[OF srt, of k "int l"] sorted_below[OF srt, of k "int (Suc l)"] that by auto
      then have "fst (es ! k) = int l" using k by simp
      then show ?thesis using k by (simp add: prod_eq_iff)
    qed
    then show ?thesis using l by (simp add: line_of_def ptrs_of_def del: upt_Suc)
  qed
  have "lines_of n (ptrs_of n ?ks) (map (\<lambda>e. fst (snd e)) es) (map (\<lambda>e. snd (snd e)) es) =
      concat (map (\<lambda>l. map (\<lambda>k. es ! k) [?p l..<?p (Suc l)]) [0..<n])"
    unfolding lines_of_def by (rule arg_cong[where f = concat]) (simp add: line)
  also have "\<dots> = map (\<lambda>k. es ! k) [?p 0..<?p n]"
    using concat_upt[of n ?p "\<lambda>k. es ! k"] by (simp add: below_mono)
  also have "\<dots> = es" using below_0[OF rng] below_n[OF rng] by (simp add: map_nth)
  finally show ?thesis .
qed

lemma wf_ptrs_mono: "wf_ptrs n nnz ptrs \<Longrightarrow> i \<le> j \<Longrightarrow> j \<le> n \<Longrightarrow> ptrs ! i \<le> ptrs ! j"
proof (induction j)
  case (Suc j)
  show ?case
  proof (cases "i = Suc j")
    case False
    with Suc have "ptrs ! i \<le> ptrs ! j" "ptrs ! j \<le> ptrs ! Suc j" by (simp_all add: wf_ptrs_def)
    then show ?thesis by (rule order_trans)
  qed simp
qed simp

lemma wf_ptrs_range: "wf_ptrs n nnz ptrs \<Longrightarrow> i \<le> n \<Longrightarrow> 0 \<le> ptrs ! i \<and> ptrs ! i \<le> int nnz"
  using wf_ptrs_mono[of n nnz ptrs 0 i] wf_ptrs_mono[of n nnz ptrs i n] by (simp add: wf_ptrs_def)

text \<open>The entries of the lines, one by one.\<close>

lemma lines_of_zip:
  assumes p: "wf_ptrs n nnz ptrs" and len: "length indices = nnz" "length vals = nnz"
  shows "lines_of n ptrs indices vals = zip (map fst (lines_of n ptrs indices vals)) (zip indices vals)"
    and "length (lines_of n ptrs indices vals) = nnz"
    and "map fst (lines_of n ptrs indices vals) = concat (map (\<lambda>l. replicate (nat (ptrs ! Suc l) - nat (ptrs ! l)) (int l)) [0..<n])"
    and "sorted (map fst (lines_of n ptrs indices vals))"
    and "indices_below n (map fst (lines_of n ptrs indices vals))"
proof -
  let ?p = "\<lambda>i. nat (ptrs ! i)"
  have m: "map snd (lines_of n ptrs indices vals) = concat (map (\<lambda>l. map (\<lambda>k. (indices ! k, vals ! k)) [?p l..<?p (Suc l)]) [0..<n])"
    by (simp add: lines_of_def line_of_def map_concat comp_def)
  also have "\<dots> = map (\<lambda>k. (indices ! k, vals ! k)) [?p 0..<?p n]"
    using concat_upt[of n ?p "\<lambda>k. (indices ! k, vals ! k)"] p by (simp add: wf_ptrs_def nat_mono)
  also have "\<dots> = zip indices vals" using p len by (intro nth_equalityI) (simp_all add: wf_ptrs_def)
  finally have snds: "map snd (lines_of n ptrs indices vals) = zip indices vals" .
  then show "lines_of n ptrs indices vals = zip (map fst (lines_of n ptrs indices vals)) (zip indices vals)"
    by (metis zip_map_fst_snd)
  from arg_cong[OF snds, of length] show "length (lines_of n ptrs indices vals) = nnz" using len by simp
  have "map (fst \<circ> (\<lambda>k. (int l, indices ! k, vals ! k))) [a..<b] = replicate (b - a) (int l)" for l a b
    by (simp add: comp_def map_replicate_const)
  then show f: "map fst (lines_of n ptrs indices vals) = concat (map (\<lambda>l. replicate (?p (Suc l) - ?p l) (int l)) [0..<n])"
    by (simp add: lines_of_def line_of_def map_concat comp_def)
  have "sorted (concat (map (\<lambda>l. replicate (q l) (int l)) [0..<n])) \<and>
      (\<forall>x \<in> set (concat (map (\<lambda>l. replicate (q l) (int l)) [0..<n])). 0 \<le> x \<and> x < int n)" for q n
    by (induction n) (auto simp: sorted_append intro: less_imp_le)
  then show "sorted (map fst (lines_of n ptrs indices vals))" "indices_below n (map fst (lines_of n ptrs indices vals))"
    unfolding f indices_below_def by simp_all
qed

lemma lines_of_vectors:
  assumes p: "wf_ptrs n nnz ptrs" and len: "length indices = nnz" "length vals = nnz"
  shows "map (\<lambda>e. fst (snd e)) (lines_of n ptrs indices vals) = indices"
    and "map (\<lambda>e. snd (snd e)) (lines_of n ptrs indices vals) = vals"
proof -
  let ?F = "map fst (lines_of n ptrs indices vals)"
  have "map (\<lambda>e. fst (snd e)) (zip ?F (zip indices vals)) = indices" "map (\<lambda>e. snd (snd e)) (zip ?F (zip indices vals)) = vals"
    using lines_of_zip(2)[OF p len] len by (auto intro!: nth_equalityI)
  then show "map (\<lambda>e. fst (snd e)) (lines_of n ptrs indices vals) = indices"
    "map (\<lambda>e. snd (snd e)) (lines_of n ptrs indices vals) = vals"
    by (simp_all only: lines_of_zip(1)[OF p len, symmetric])
qed

lemma expand_ptrs_eq:
  assumes p: "wf_ptrs n nnz ptrs" and n: "nnz < 2 ^ 63"
  shows "expand_ptrs n ptrs = Some (concat (map (\<lambda>l. replicate (nat (ptrs ! Suc l) - nat (ptrs ! l)) (int l)) [0..<n]))"
proof -
  let ?row = "\<lambda>l. replicate (nat (ptrs ! Suc l) - nat (ptrs ! l)) (int l)"
  have "\<exists>s. expand_ptrs n ptrs = Some s \<and> s = concat (map ?row [0..<n])"
    unfolding expand_ptrs_def
  proof (rule foldM_upt_rule[where I = "\<lambda>i s. s = concat (map ?row [0..<i])"])
    fix i s
    assume i: "i < n" and s: "s = concat (map ?row [0..<i])"
    have "0 \<le> ptrs ! i" "ptrs ! i \<le> int nnz" "0 \<le> ptrs ! Suc i" "ptrs ! Suc i \<le> int nnz"
      using wf_ptrs_range[OF p, of i] wf_ptrs_range[OF p, of "Suc i"] i by simp_all
    moreover have "int nnz < 2 ^ 63" using n by simp
    ultimately have "as_usize (ptrs ! i) = nat (ptrs ! i)" "as_usize (ptrs ! Suc i) = nat (ptrs ! Suc i)" by simp_all
    with i s p show "\<exists>s'. do { s' \<leftarrow> nth_chk ptrs i; e \<leftarrow> nth_chk ptrs (i + 1);
        Some (s @ replicate (as_usize e - as_usize s') (int i)) } = Some s' \<and> s' = concat (map ?row [0..<Suc i])"
      by (simp add: wf_ptrs_def)
  qed simp
  then show ?thesis by simp
qed

section \<open>Sorting the entries\<close>

abbreviation position :: "'a entry \<Rightarrow> int \<times> int" where
  "position e \<equiv> (fst e, fst (snd e))"

lemma sorted_position: "sorted (map position es) \<Longrightarrow> sorted (map fst es)"
  by (induction es) (auto simp: less_eq_prod_def)

lemma perm_entries:
  assumes "length major = length vals" and "length minor = length vals"
  defines "perm \<equiv> sort_key (\<lambda>i. (major ! i, minor ! i)) [0..<length vals]"
    and "es \<equiv> sort_key position (zip major (zip minor vals))"
  shows "map (\<lambda>i. major ! i) perm = map fst es" and "map (\<lambda>i. minor ! i) perm = map (\<lambda>e. fst (snd e)) es"
    and "map (\<lambda>i. vals ! i) perm = map (\<lambda>e. snd (snd e)) es"
proof -
  let ?z = "zip major (zip minor vals)"
  have "?z = map (\<lambda>i. (major ! i, minor ! i, vals ! i)) [0..<length vals]"
    using assms(1,2) by (intro nth_equalityI) simp_all
  then have es: "es = map (\<lambda>i. (major ! i, minor ! i, vals ! i)) perm"
    unfolding es_def perm_def by (simp add: sort_key_map)
  show "map (\<lambda>i. major ! i) perm = map fst es" "map (\<lambda>i. minor ! i) perm = map (\<lambda>e. fst (snd e)) es"
    "map (\<lambda>i. vals ! i) perm = map (\<lambda>e. snd (snd e)) es"
    by (simp_all add: es)
qed

lemma indices_below_cong: "set xs = set ys \<Longrightarrow> indices_below n xs = indices_below n ys"
  by (simp add: indices_below_def)

text \<open>What the sort and the pointer computation of both conversions give.\<close>

lemma compressed_parts:
  assumes len: "length major = length vals" "length minor = length vals"
    and rng: "indices_below n major" "indices_below k minor" and n: "n < 2 ^ 63"
  defines "perm \<equiv> sort_key (\<lambda>i. (major ! i, minor ! i)) [0..<length vals]"
    and "es \<equiv> sort_key position (zip major (zip minor vals))"
  shows "pointers_of n (map (\<lambda>i. major ! i) perm) = Some (ptrs_of n (map fst es))"
    and "wf_ptrs n (length vals) (ptrs_of n (map fst es))"
    and "indices_below k (map (\<lambda>e. fst (snd e)) es)" and "length es = length vals"
    and "lines_of n (ptrs_of n (map fst es)) (map (\<lambda>e. fst (snd e)) es) (map (\<lambda>e. snd (snd e)) es) = es"
proof -
  have "set es = set (zip major (zip minor vals))" by (simp add: es_def)
  then have "set (map fst es) = set (map fst (zip major (zip minor vals)))"
    "set (map (\<lambda>e. fst (snd e)) es) = set (map (\<lambda>e. fst (snd e)) (zip major (zip minor vals)))" by (simp_all only: set_map)
  moreover have "map fst (zip major (zip minor vals)) = major"
    "map (\<lambda>e. fst (snd e)) (zip major (zip minor vals)) = minor"
    using len by (auto intro!: nth_equalityI)
  ultimately have s: "set (map fst es) = set major" "set (map (\<lambda>e. fst (snd e)) es) = set minor" by simp_all
  have r: "indices_below n (map fst es)" using rng(1) indices_below_cong[OF s(1)] by simp
  show "indices_below k (map (\<lambda>e. fst (snd e)) es)" using rng(2) indices_below_cong[OF s(2)] by simp
  show le: "length es = length vals" using len by (simp add: es_def)
  show "pointers_of n (map (\<lambda>i. major ! i) perm) = Some (ptrs_of n (map fst es))"
    using perm_entries(1)[OF len] pointers_of_eq[OF r n] by (simp only: perm_def es_def)
  show "wf_ptrs n (length vals) (ptrs_of n (map fst es))" using wf_ptrs_of[OF r] le by simp
  have "sorted (map fst es)" by (rule sorted_position) (simp add: es_def)
  then show "lines_of n (ptrs_of n (map fst es)) (map (\<lambda>e. fst (snd e)) es) (map (\<lambda>e. snd (snd e)) es) = es"
    using r by (rule lines_of_sorted)
qed

section \<open>The conversions\<close>

lemma tvec_simps:
  "wf_tvec dt n t \<Longrightarrow> n < 2 ^ 63 \<Longrightarrow> numel t = n" "tv_shape t = [n] \<Longrightarrow> n < 2 ^ 63 \<Longrightarrow> numel t = n"
  "length xs < 2 ^ 64 \<Longrightarrow> from_slice dt xs [length xs] = Inr \<lparr>tv_dtype = dt, tv_shape = [length xs], tv_elems = xs\<rparr>"
  by (simp_all add: wf_tvec_def numel_def from_slice_def)

lemma compressed_check_ok:
  "wf_compressed n k p i v \<Longrightarrow> compressed_check n p i v = Inr ()"
  by (auto simp: wf_compressed_def Let_def wf_tvec_def compressed_check_def numel_def)

lemma compress_eq:
  assumes len: "length major = length (tv_elems values)" "length minor = length (tv_elems values)"
    and v: "tv_shape values = [length (tv_elems values)]" "length (tv_elems values) < 2 ^ 63"
    and rng: "indices_below n major" "indices_below k minor" and n: "n < 2 ^ 63" "k < 2 ^ 63"
    and nb: "tv_dtype values \<noteq> Bool"
  shows "\<exists>p i v. compress w n major minor values new = Some (new p i v) \<and> wf_compressed n k p i v \<and>
    tv_dtype v = tv_dtype values \<and>
    lines_of n (tv_elems p) (tv_elems i) (tv_elems v) = sort_key position (zip major (zip minor (tv_elems values)))"
proof -
  let ?vals = "tv_elems values"
  let ?es = "sort_key position (zip major (zip minor ?vals))"
  let ?perm = "sort_key (\<lambda>i. (major ! i, minor ! i)) [0..<length ?vals]"
  note cp = compressed_parts[OF len rng n(1)] and pe = perm_entries[OF len]
  have lp: "length ?perm = length ?vals" by simp
  let ?p = "\<lparr>tv_dtype = I64, tv_shape = [n + 1], tv_elems = ptrs_of n (map fst ?es)\<rparr>"
  let ?i = "\<lparr>tv_dtype = I64, tv_shape = [length ?vals], tv_elems = map (\<lambda>e. fst (snd e)) ?es\<rparr>"
  let ?w = "\<lparr>tv_dtype = tv_dtype values, tv_shape = [length ?vals], tv_elems = map (\<lambda>e. snd (snd e)) ?es\<rparr>"
  have "compress w n major minor values new = Some (new ?p ?i ?w)"
    using len nb cp(1,4) unfolding compress_def Let_def tvec_simps(2)[OF v] pe
    using v(2) n by (simp add: from_slice_def ptrs_of_def del: upt_Suc)
  moreover have "wf_compressed n k ?p ?i ?w"
    using v(2) n cp(2-4) by (simp add: wf_compressed_def Let_def wf_tvec_def) (simp add: ptrs_of_def)
  ultimately show ?thesis using cp(5)
    by (intro exI[of _ ?p] exI[of _ ?i] exI[of _ ?w]) simp
qed

lemma lines_of_empty: "length indices = 0 \<Longrightarrow> lines_of n (replicate (n + 1) 0) indices vals = []"
proof -
  have "line_of (replicate (n + 1) 0) indices vals l = []" if "l < n" for l
    using that by (simp add: line_of_def del: replicate_Suc)
  then show ?thesis by (simp add: lines_of_def del: replicate_Suc)
qed

lemma wf_empty: "n < 2 ^ 63 \<Longrightarrow> k < 2 ^ 63 \<Longrightarrow> wf_compressed n k (zero_ptrs n) (empty_tvec I64) (empty_tvec dt)"
  by (auto simp: wf_compressed_def Let_def wf_tvec_def zero_ptrs_def empty_tvec_def wf_ptrs_def indices_below_def
      simp del: replicate_Suc)

lemma coo_to_csr_eq:
  assumes wf: "wf_coo m" and nb: "tv_dtype (coo_values m) \<noteq> Bool"
  shows "\<exists>c. coo_to_csr m = Some (Inr c) \<and> wf_csr c \<and> csr_shape c = coo_shape m \<and>
    tv_dtype (csr_values c) = tv_dtype (coo_values m) \<and> csr_entries c = sort_key position (coo_entries m)"
proof (cases "numel (coo_values m) = 0")
  case True
  then have "coo_entries m = []" using wf by (simp add: wf_coo_def Let_def numel_def coo_entries_def)
  moreover have "wf_csr (csr_empty (coo_shape m) (tv_dtype (coo_values m)))"
    using wf by (simp add: wf_csr_def csr_empty_def wf_empty wf_coo_def Let_def)
  moreover have "csr_entries (csr_empty (coo_shape m) (tv_dtype (coo_values m))) = []"
    unfolding csr_entries_def csr_empty_def zero_ptrs_def empty_tvec_def csr.simps tvec.simps
    by (rule lines_of_empty) simp
  ultimately show ?thesis using True by (simp add: coo_to_csr_def) (simp add: csr_empty_def empty_tvec_def)
next
  case False
  from wf have "length (tv_elems (coo_rows m)) = length (tv_elems (coo_values m))"
    "length (tv_elems (coo_cols m)) = length (tv_elems (coo_values m))"
    "tv_shape (coo_values m) = [length (tv_elems (coo_values m))]" "length (tv_elems (coo_values m)) < 2 ^ 63"
    "indices_below (fst (coo_shape m)) (tv_elems (coo_rows m))" "indices_below (snd (coo_shape m)) (tv_elems (coo_cols m))"
    "fst (coo_shape m) < 2 ^ 63" "snd (coo_shape m) < 2 ^ 63"
    by (simp_all add: wf_coo_def Let_def wf_tvec_def)
  from compress_eq[OF this nb, of "''COO to CSR conversion''" "\<lambda>p i v. csr_new p i v (coo_shape m)"] obtain p i w where
    *: "compress ''COO to CSR conversion'' (fst (coo_shape m)) (tv_elems (coo_rows m)) (tv_elems (coo_cols m))
      (coo_values m) (\<lambda>p i v. csr_new p i v (coo_shape m)) = Some (csr_new p i w (coo_shape m))"
    "wf_compressed (fst (coo_shape m)) (snd (coo_shape m)) p i w" "tv_dtype w = tv_dtype (coo_values m)"
    "lines_of (fst (coo_shape m)) (tv_elems p) (tv_elems i) (tv_elems w) = sort_key position (coo_entries m)"
    unfolding coo_entries_def by blast
  then show ?thesis
    using False by (simp add: coo_to_csr_def csr_new_def compressed_check_ok wf_csr_def csr_entries_def)
qed

text \<open>Column conversions are the row conversions of the transpose.\<close>

abbreviation position' :: "'a entry \<Rightarrow> int \<times> int" where
  "position' e \<equiv> (fst (snd e), fst e)"

lemma swap_swap [simp]: "swap_entry (swap_entry e) = e" "swap_entry \<circ> swap_entry = id"
  by (simp_all add: swap_entry_def fun_eq_iff)

lemma sort_swap: "map swap_entry (sort_key position (map swap_entry es)) = sort_key position' es"
  by (simp add: sort_key_map swap_entry_def comp_def)

lemma coo_entries_transpose:
  "wf_coo m \<Longrightarrow> coo_entries (coo_transpose m) = map swap_entry (coo_entries m)"
  by (auto simp: coo_entries_def coo_transpose_def swap_entry_def wf_coo_def Let_def wf_tvec_def intro!: nth_equalityI)

lemma wf_transpose: "wf_coo m \<Longrightarrow> wf_coo (coo_transpose m)" "wf_csr c \<Longrightarrow> wf_csc (csr_transpose c)"
  "wf_csc d \<Longrightarrow> wf_csr (csc_transpose d)"
  by (simp_all add: wf_coo_def coo_transpose_def Let_def wf_csr_def wf_csc_def csr_transpose_def csc_transpose_def)

lemma entries_transpose:
  "csc_entries (csr_transpose c) = map swap_entry (csr_entries c)"
  "csr_entries (csc_transpose d) = map swap_entry (csc_entries d)"
  by (simp_all add: csc_entries_def csr_entries_def csr_transpose_def csc_transpose_def)

lemma coo_to_csc_transpose:
  fixes m :: "'a coo"
  assumes "tv_dtype (coo_values m) \<noteq> Bool"
  shows "coo_to_csc m = map_option (map_sum id csr_transpose) (coo_to_csr (coo_transpose m))"
proof -
  have "csc_new p i v (coo_shape m) = map_sum id csr_transpose (csr_new p i v (snd (coo_shape m), fst (coo_shape m)))" for p i and v :: "'a tvec"
    by (cases "compressed_check (snd (coo_shape m)) p i v") (simp_all add: csc_new_def csr_new_def csr_transpose_def)
  moreover have "compress w n ma mi vs (\<lambda>p i v. map_sum id g (new p i v)) =
      map_option (map_sum id g) (compress w' n ma mi vs new)" if "tv_dtype vs \<noteq> Bool"
    for w w' n ma mi and vs :: "'a tvec" and g :: "'a csr \<Rightarrow> 'a csc" and new
    using that by (auto simp: compress_def Let_def from_slice_def simp del: mod_less split: option.split Option.bind_splits)
  ultimately show ?thesis using assms
    by (simp add: coo_to_csc_def coo_to_csr_def coo_transpose_def csc_empty_def csr_empty_def csr_transpose_def)
qed


lemma coo_to_csc_eq:
  assumes wf: "wf_coo m" and nb: "tv_dtype (coo_values m) \<noteq> Bool"
  shows "\<exists>c. coo_to_csc m = Some (Inr c) \<and> wf_csc c \<and> csc_shape c = coo_shape m \<and>
    tv_dtype (csc_values c) = tv_dtype (coo_values m) \<and> csc_entries c = sort_key position' (coo_entries m)"
proof -
  have nb': "tv_dtype (coo_values (coo_transpose m)) \<noteq> Bool" using nb by (simp add: coo_transpose_def)
  from coo_to_csr_eq[OF wf_transpose(1)[OF wf] nb'] obtain c where
    c: "coo_to_csr (coo_transpose m) = Some (Inr c)" "wf_csr c" "csr_shape c = coo_shape (coo_transpose m)"
      "tv_dtype (csr_values c) = tv_dtype (coo_values (coo_transpose m))"
      "csr_entries c = sort_key position (coo_entries (coo_transpose m))" by blast
  have "csc_entries (csr_transpose c) = sort_key position' (coo_entries m)"
    by (simp add: entries_transpose c(5) coo_entries_transpose[OF wf] sort_swap)
  then show ?thesis
    using c(1-4) wf_transpose(2)[OF c(2)] coo_to_csc_transpose[OF nb]
    by (intro exI[of _ "csr_transpose c"]) (simp add: csr_transpose_def coo_transpose_def)
qed

lemma csr_to_coo_eq:
  assumes wf: "wf_csr m" and nb: "tv_dtype (csr_values m) \<noteq> Bool"
  shows "\<exists>c. csr_to_coo m = Some (Inr c) \<and> wf_coo c \<and> coo_shape c = csr_shape m \<and>
    tv_dtype (coo_values c) = tv_dtype (csr_values m) \<and> coo_entries c = csr_entries m"
proof -
  let ?n = "fst (csr_shape m)" and ?ptrs = "tv_elems (csr_ptrs m)" and ?idx = "tv_elems (csr_indices m)"
    and ?vals = "tv_elems (csr_values m)"
  have p: "wf_ptrs ?n (length ?vals) ?ptrs" and len: "length ?idx = length ?vals" "length ?vals = length ?vals"
    and small: "length ?vals < 2 ^ 63" "fst (csr_shape m) < 2 ^ 63" "snd (csr_shape m) < 2 ^ 63"
    and rng: "indices_below (snd (csr_shape m)) ?idx" and v: "tv_shape (csr_values m) = [length ?vals]"
    using wf by (simp_all add: wf_csr_def wf_compressed_def Let_def wf_tvec_def)
  note z = lines_of_zip[OF p len]
  have exp: "expand_ptrs ?n ?ptrs = Some (map fst (csr_entries m))"
    using expand_ptrs_eq[OF p small(1)] z(3) by (simp add: csr_entries_def)
  show ?thesis
  proof (cases "length ?vals = 0")
    case True
    then show ?thesis using z(2) small v
      by (simp add: csr_to_coo_def Let_def numel_def coo_empty_def wf_coo_def wf_tvec_def empty_tvec_def
          indices_below_def coo_entries_def csr_entries_def)
  next
    case False
    let ?c = "\<lparr>coo_rows = \<lparr>tv_dtype = I64, tv_shape = [length ?vals], tv_elems = map fst (csr_entries m)\<rparr>,
      coo_cols = \<lparr>tv_dtype = I64, tv_shape = [length ?vals], tv_elems = ?idx\<rparr>,
      coo_values = \<lparr>tv_dtype = tv_dtype (csr_values m), tv_shape = [length ?vals], tv_elems = ?vals\<rparr>,
      coo_shape = csr_shape m, coo_sorted = True\<rparr>"
    have l: "length (csr_entries m) = length ?vals" using z(2) by (simp add: csr_entries_def)
    have "csr_to_coo m = Some (Inr ?c)"
      using False nb v len l exp small by (simp add: csr_to_coo_def Let_def numel_def from_slice_def coo_new_def)
    moreover have "wf_coo ?c"
      using small rng l len z(5) by (simp add: wf_coo_def wf_tvec_def csr_entries_def)
    moreover have "coo_entries ?c = csr_entries m" using z(1) by (simp add: coo_entries_def csr_entries_def)
    ultimately show ?thesis by (intro exI[of _ ?c]) simp
  qed
qed

lemma csc_to_coo_transpose:
  assumes "tv_dtype (csc_values m) \<noteq> Bool" and "csr_to_coo (csc_transpose m) = Some (Inr c)"
  shows "\<exists>b. csc_to_coo m = Some (Inr ((coo_transpose c)\<lparr>coo_sorted := b\<rparr>))"
  using assms
  by (auto simp: csc_to_coo_def csr_to_coo_def csc_transpose_def coo_transpose_def Let_def from_slice_def coo_new_def
      coo_empty_def split: if_splits Option.bind_splits elim!: bindR.elims)

lemma coo_sorted_irrelevant [simp]:
  "wf_coo (m\<lparr>coo_sorted := b\<rparr>) = wf_coo m" "coo_entries (m\<lparr>coo_sorted := b\<rparr>) = coo_entries m"
  by (simp_all add: wf_coo_def Let_def coo_entries_def)

lemma csc_to_coo_eq:
  assumes wf: "wf_csc m" and nb: "tv_dtype (csc_values m) \<noteq> Bool"
  shows "\<exists>c. csc_to_coo m = Some (Inr c) \<and> wf_coo c \<and> coo_shape c = csc_shape m \<and>
    tv_dtype (coo_values c) = tv_dtype (csc_values m) \<and> coo_entries c = csc_entries m"
proof -
  have nb': "tv_dtype (csr_values (csc_transpose m)) \<noteq> Bool" using nb by (simp add: csc_transpose_def)
  from csr_to_coo_eq[OF wf_transpose(3)[OF wf] nb'] obtain c where
    c: "csr_to_coo (csc_transpose m) = Some (Inr c)" "wf_coo c" "coo_shape c = csr_shape (csc_transpose m)"
      "tv_dtype (coo_values c) = tv_dtype (csr_values (csc_transpose m))" "coo_entries c = csr_entries (csc_transpose m)"
    by blast
  from csc_to_coo_transpose[OF nb c(1)] obtain b where
    b: "csc_to_coo m = Some (Inr ((coo_transpose c)\<lparr>coo_sorted := b\<rparr>))" ..
  show ?thesis
    using b c(2-5) wf_transpose(1)[OF c(2)]
    by (simp add: coo_entries_transpose entries_transpose) (simp add: coo_transpose_def csc_transpose_def)
qed

end
