(* ===== verification/Sparse_Diagonal.thy ===== *)
theory Sparse_Diagonal
  imports Sparse_Conversions
begin

text \<open>
  The operations of a compressed matrix that keep its pattern (\<open>src/sparse/csr/core.rs\<close>,
  \<open>src/sparse/csc/core.rs\<close>): its diagonal, read on the host or by the CPU client
  (\<open>extract_diagonal_csr\<close> of \<open>src/runtime/cpu/sparse/format_convert.rs\<close>), the check for a full
  diagonal, the size of a row and the replacement of the values.
\<close>

section \<open>Model\<close>

text \<open>The first position of a line whose index is the line itself, and the search in every line.\<close>

fun find_diagonal :: "int list \<Rightarrow> nat \<Rightarrow> nat list \<Rightarrow> nat option option" where
  "find_diagonal indices line [] = Some None"
| "find_diagonal indices line (pos # ps) = do {
     i \<leftarrow> nth_chk indices pos;
     if as_usize i = line then Some (Some pos) else find_diagonal indices line ps }"

definition search_line :: "int list \<Rightarrow> int list \<Rightarrow> nat \<Rightarrow> nat option option" where
  "search_line ptrs indices line = do {
     s \<leftarrow> nth_chk ptrs line;
     e \<leftarrow> nth_chk ptrs (line + 1);
     find_diagonal indices line [as_usize s..<as_usize e] }"

definition scan_diagonal :: "'a \<Rightarrow> nat \<Rightarrow> int list \<Rightarrow> int list \<Rightarrow> 'a list \<Rightarrow> 'a list option" where
  "scan_diagonal zero n ptrs indices vals = foldM (\<lambda>line diag. do {
     found \<leftarrow> search_line ptrs indices line;
     case found of None \<Rightarrow> Some diag
     | Some pos \<Rightarrow> do { v \<leftarrow> nth_chk vals pos; upd_chk diag line v } }) [0..<n] (replicate n zero)"

fun full_diagonal :: "int list \<Rightarrow> int list \<Rightarrow> nat list \<Rightarrow> bool option" where
  "full_diagonal ptrs indices [] = Some True"
| "full_diagonal ptrs indices (line # ls) = do {
     found \<leftarrow> search_line ptrs indices line;
     if found = None then Some False else full_diagonal ptrs indices ls }"

text \<open>\<open>dt\<close> is the element type the caller asks for.\<close>

definition csr_diagonal :: "'a \<Rightarrow> dtype \<Rightarrow> 'a csr \<Rightarrow> 'a tvec res" where
  "csr_diagonal zero dt m =
     (let n = min (fst (csr_shape m)) (snd (csr_shape m)); values = csr_values m
      in if n = 0 then Some (Inr (empty_tvec (tv_dtype values)))
         else if dt \<noteq> tv_dtype values then Some (Inl (DTypeMismatch dt (tv_dtype values)))
         else do {
           diag \<leftarrow> scan_diagonal zero n (tv_elems (csr_ptrs m)) (tv_elems (csr_indices m)) (tv_elems values);
           Some (from_slice dt diag [n]) })"

definition csc_diagonal :: "'a \<Rightarrow> dtype \<Rightarrow> 'a csc \<Rightarrow> 'a tvec res" where
  "csc_diagonal zero dt m =
     (let n = min (fst (csc_shape m)) (snd (csc_shape m)); values = csc_values m
      in if n = 0 then Some (Inr (empty_tvec (tv_dtype values)))
         else if dt \<noteq> tv_dtype values then Some (Inl (DTypeMismatch dt (tv_dtype values)))
         else do {
           diag \<leftarrow> scan_diagonal zero n (tv_elems (csc_ptrs m)) (tv_elems (csc_indices m)) (tv_elems values);
           Some (from_slice dt diag [n]) })"

definition csr_has_full_diagonal :: "'a csr \<Rightarrow> bool option" where
  "csr_has_full_diagonal m =
     (let n = min (fst (csr_shape m)) (snd (csr_shape m))
      in if n = 0 then Some True else full_diagonal (tv_elems (csr_ptrs m)) (tv_elems (csr_indices m)) [0..<n])"

definition csc_has_full_diagonal :: "'a csc \<Rightarrow> bool option" where
  "csc_has_full_diagonal m =
     (let n = min (fst (csc_shape m)) (snd (csc_shape m))
      in if n = 0 then Some True else full_diagonal (tv_elems (csc_ptrs m)) (tv_elems (csc_indices m)) [0..<n])"

definition cpu_extract_diagonal_csr :: "'a \<Rightarrow> dtype \<Rightarrow> int tvec \<Rightarrow> int tvec \<Rightarrow> 'a tvec \<Rightarrow> nat \<times> nat \<Rightarrow> 'a tvec res" where
  "cpu_extract_diagonal_csr zero dt row_ptrs cols values shp =
     (let n = min (fst shp) (snd shp)
      in if n = 0 then Some (Inr (empty_tvec (tv_dtype values)))
         else do {
           diag \<leftarrow> scan_diagonal zero n (tv_elems row_ptrs) (tv_elems cols) (tv_elems values);
           Some (from_slice dt diag [n]) })"

definition row_nnz :: "'a csr \<Rightarrow> nat \<Rightarrow> nat option" where
  "row_nnz m row = do {
     s \<leftarrow> nth_chk (tv_elems (csr_ptrs m)) row;
     e \<leftarrow> nth_chk (tv_elems (csr_ptrs m)) (row + 1);
     Some (as_usize (e - s)) }"

text \<open>The checks the two \<open>update_values\<close> share.\<close>

definition check_values :: "'a tvec \<Rightarrow> 'a tvec \<Rightarrow> tensor_error + unit" where
  "check_values old new =
     (if numel new \<noteq> numel old then Inl (ShapeMismatch [of_nat (numel old)] [of_nat (numel new)])
      else if tv_dtype new \<noteq> tv_dtype old then Inl (DTypeMismatch (tv_dtype old) (tv_dtype new))
      else if length (tv_shape new) \<noteq> 1 then Inl (Internal ''Expected 1D tensor for values'')
      else Inr ())"

definition csr_update_values :: "'a csr \<Rightarrow> 'a tvec \<Rightarrow> tensor_error + 'a csr" where
  "csr_update_values m new = map_sum id (\<lambda>_. m\<lparr>csr_values := new\<rparr>) (check_values (csr_values m) new)"

definition csc_update_values :: "'a csc \<Rightarrow> 'a tvec \<Rightarrow> tensor_error + 'a csc" where
  "csc_update_values m new = map_sum id (\<lambda>_. m\<lparr>csc_values := new\<rparr>) (check_values (csc_values m) new)"

section \<open>One line\<close>

text \<open>The entry stored first at a position; a position without an entry is zero.\<close>

definition first_at :: "'a \<Rightarrow> 'a entry list \<Rightarrow> nat \<Rightarrow> nat \<Rightarrow> 'a" where
  "first_at zero es r c = (case filter (\<lambda>e. position e = (int r, int c)) es of [] \<Rightarrow> zero | e # _ \<Rightarrow> snd (snd e))"

lemma find_diagonal_eq:
  assumes "\<forall>k \<in> set ps. k < length indices \<and> 0 \<le> indices ! k \<and> indices ! k < 2 ^ 63"
  shows "find_diagonal indices line ps =
    Some (case filter (\<lambda>k. indices ! k = int line) ps of [] \<Rightarrow> None | k # _ \<Rightarrow> Some k)"
  using assms by (induction ps) auto

lemma filter_one_line:
  assumes "r < n" and "\<And>l. l < n \<Longrightarrow> l \<noteq> r \<Longrightarrow> filter P (f l) = []"
  shows "filter P (concat (map f [0..<n])) = filter P (f r)"
  using assms
proof (induction n)
  case (Suc n)
  show ?case
  proof (cases "r = n")
    case True
    have "filter P (concat (map f [0..<n])) = concat (map (\<lambda>l. filter P (f l)) [0..<n])" by (simp add: filter_concat comp_def)
    also have "\<dots> = []" using Suc.prems True by simp
    finally show ?thesis using True by simp
  qed (use Suc in simp)
qed simp

lemma filter_lines:
  assumes "r < n"
  shows "filter (\<lambda>e. position e = (int r, int c)) (lines_of n ptrs indices vals) =
    map (\<lambda>k. (int r, int c, vals ! k)) (filter (\<lambda>k. indices ! k = int c) [nat (ptrs ! r)..<nat (ptrs ! Suc r)])"
proof -
  have "filter (\<lambda>e. position e = (int r, int c)) (lines_of n ptrs indices vals) =
      filter (\<lambda>e. position e = (int r, int c)) (line_of ptrs indices vals r)"
    unfolding lines_of_def using assms by (rule filter_one_line) (auto simp: line_of_def filter_empty_conv)
  also have "\<dots> = map (\<lambda>k. (int r, int c, vals ! k)) (filter (\<lambda>k. indices ! k = int c) [nat (ptrs ! r)..<nat (ptrs ! Suc r)])"
    unfolding line_of_def filter_map by (auto simp: comp_def)
  finally show ?thesis .
qed

lemma search_line_eq:
  assumes p: "wf_ptrs n nnz ptrs" and len: "length indices = nnz" and nnz: "nnz < 2 ^ 63"
    and rng: "indices_below k indices" "k < 2 ^ 63" and line: "line < n"
  shows "search_line ptrs indices line = Some (case filter (\<lambda>j. indices ! j = int line) [nat (ptrs ! line)..<nat (ptrs ! Suc line)] of
    [] \<Rightarrow> None | j # _ \<Rightarrow> Some j)"
proof -
  have b: "0 \<le> ptrs ! line" "ptrs ! line \<le> int nnz" "0 \<le> ptrs ! Suc line" "ptrs ! Suc line \<le> int nnz" and l: "length ptrs = n + 1"
    using wf_ptrs_range[OF p, of line] wf_ptrs_range[OF p, of "Suc line"] line p by (simp_all add: wf_ptrs_def)
  have "\<forall>j \<in> set [nat (ptrs ! line)..<nat (ptrs ! Suc line)]. j < length indices \<and> 0 \<le> indices ! j \<and> indices ! j < 2 ^ 63"
  proof
    fix j assume "j \<in> set [nat (ptrs ! line)..<nat (ptrs ! Suc line)]"
    then have "j < length indices" using b len by auto
    moreover then have "0 \<le> indices ! j \<and> indices ! j < int k" using rng by (simp add: indices_below_def)
    ultimately show "j < length indices \<and> 0 \<le> indices ! j \<and> indices ! j < 2 ^ 63" using rng(2) by simp
  qed
  then show ?thesis using b l line nnz by (simp add: search_line_def find_diagonal_eq del: upt_Suc)
qed

section \<open>Every line\<close>

lemma scan_diagonal_eq:
  assumes p: "wf_ptrs n nnz ptrs" and len: "length indices = nnz" "length vals = nnz" and nnz: "nnz < 2 ^ 63"
    and rng: "indices_below k indices" "k < 2 ^ 63" and d: "d \<le> n"
  shows "scan_diagonal zero d ptrs indices vals = Some (map (\<lambda>i. first_at zero (lines_of n ptrs indices vals) i i) [0..<d])"
proof -
  let ?v = "\<lambda>i. first_at zero (lines_of n ptrs indices vals) i i"
  have "\<exists>s. scan_diagonal zero d ptrs indices vals = Some s \<and> length s = d \<and> (\<forall>i < d. s ! i = (if i < d then ?v i else zero))"
    unfolding scan_diagonal_def
  proof (rule foldM_upt_rule[where I = "\<lambda>m s. length s = d \<and> (\<forall>i < d. s ! i = (if i < m then ?v i else zero))"])
    fix line s
    assume l: "line < d" and s: "length s = d \<and> (\<forall>i < d. s ! i = (if i < line then ?v i else zero))"
    let ?f = "filter (\<lambda>j. indices ! j = int line) [nat (ptrs ! line)..<nat (ptrs ! Suc line)]"
    have ln: "line < n" using l d by simp
    note sl = search_line_eq[OF p len(1) nnz rng ln]
    have v: "?v line = (case ?f of [] \<Rightarrow> zero | j # _ \<Rightarrow> vals ! j)"
      unfolding first_at_def filter_lines[OF ln] by (cases ?f) simp_all
    have inr: "j < length vals" if "j \<in> set ?f" for j
      using that wf_ptrs_range[OF p, of "Suc line"] ln len by auto
    show "\<exists>s'. (do { found \<leftarrow> search_line ptrs indices line;
        case found of None \<Rightarrow> Some s | Some pos \<Rightarrow> do { v \<leftarrow> nth_chk vals pos; upd_chk s line v } }) = Some s' \<and>
        length s' = d \<and> (\<forall>i < d. s' ! i = (if i < Suc line then ?v i else zero))"
    proof (cases ?f)
      case Nil
      then have "s ! line = ?v line" using v s l by simp
      then show ?thesis using Nil s sl by (auto simp: less_Suc_eq)
    next
      case (Cons j js)
      then have "j < length vals" using inr[of j] by simp
      moreover have "?v line = vals ! j" using v Cons by simp
      ultimately show ?thesis using Cons s sl l by (auto simp: less_Suc_eq nth_list_update)
    qed
  qed simp
  then show ?thesis by (auto intro!: nth_equalityI)
qed

lemma full_diagonal_eq:
  assumes p: "wf_ptrs n nnz ptrs" and len: "length indices = nnz" "length vals = nnz" and nnz: "nnz < 2 ^ 63"
    and rng: "indices_below k indices" "k < 2 ^ 63" and ls: "\<forall>l \<in> set ls. l < n"
  shows "full_diagonal ptrs indices ls =
    Some (\<forall>l \<in> set ls. \<exists>e \<in> set (lines_of n ptrs indices vals). position e = (int l, int l))"
  using ls
proof (induction ls)
  case (Cons l ls)
  let ?f = "filter (\<lambda>j. indices ! j = int l) [nat (ptrs ! l)..<nat (ptrs ! Suc l)]"
  have "l < n" using Cons.prems by simp
  note sl = search_line_eq[OF p len(1) nnz rng this] and fl = filter_lines[OF this, of l ptrs indices vals]
  have "(\<exists>e \<in> set (lines_of n ptrs indices vals). position e = (int l, int l)) \<longleftrightarrow> ?f \<noteq> []"
    using arg_cong[OF fl, of "\<lambda>xs. xs = []"] by (auto simp: filter_empty_conv)
  then show ?case using Cons sl by (cases ?f) (simp_all del: upt_Suc)
qed simp

section \<open>The operations on matrices\<close>

lemma csr_diagonal_eq:
  assumes "wf_csr m" and dt: "dt = tv_dtype (csr_values m)"
  shows "csr_diagonal zero dt m = Some (Inr \<lparr>tv_dtype = dt, tv_shape = [min (fst (csr_shape m)) (snd (csr_shape m))],
      tv_elems = map (\<lambda>i. first_at zero (csr_entries m) i i) [0..<min (fst (csr_shape m)) (snd (csr_shape m))]\<rparr>)"
    and "csr_has_full_diagonal m = Some (\<forall>i < min (fst (csr_shape m)) (snd (csr_shape m)).
      \<exists>e \<in> set (csr_entries m). position e = (int i, int i))"
proof -
  let ?n = "min (fst (csr_shape m)) (snd (csr_shape m))"
  have p: "wf_ptrs (fst (csr_shape m)) (length (tv_elems (csr_values m))) (tv_elems (csr_ptrs m))"
    and len: "length (tv_elems (csr_indices m)) = length (tv_elems (csr_values m))"
    and nnz: "length (tv_elems (csr_values m)) < 2 ^ 63" and rng: "indices_below (snd (csr_shape m)) (tv_elems (csr_indices m))"
    and small: "snd (csr_shape m) < 2 ^ 63" using assms by (simp_all add: wf_csr_def wf_compressed_def Let_def wf_tvec_def)
  have n: "?n < 2 ^ 64" using small by simp
  from scan_diagonal_eq[OF p len refl nnz rng small, of ?n zero] n dt
  show "csr_diagonal zero dt m = Some (Inr \<lparr>tv_dtype = dt, tv_shape = [?n],
      tv_elems = map (\<lambda>i. first_at zero (csr_entries m) i i) [0..<?n]\<rparr>)"
    by (simp add: csr_diagonal_def Let_def csr_entries_def empty_tvec_def from_slice_def)
  from full_diagonal_eq[OF p len refl nnz rng small, of "[0..<?n]"]
  show "csr_has_full_diagonal m = Some (\<forall>i < ?n. \<exists>e \<in> set (csr_entries m). position e = (int i, int i))"
    by (auto simp: csr_has_full_diagonal_def Let_def csr_entries_def min_def split: if_splits)
qed

lemma csc_diagonal_transpose:
  "csc_diagonal zero dt (csr_transpose m) = csr_diagonal zero dt m"
  "csc_has_full_diagonal (csr_transpose m) = csr_has_full_diagonal m"
  by (auto simp: csc_diagonal_def csr_diagonal_def csc_has_full_diagonal_def csr_has_full_diagonal_def csr_transpose_def
      Let_def min_def)

lemma row_nnz_eq:
  assumes "wf_csr m" and "r < fst (csr_shape m)"
  shows "row_nnz m r = Some (length (filter (\<lambda>e. fst e = int r) (csr_entries m)))"
proof -
  let ?n = "fst (csr_shape m)" and ?p = "tv_elems (csr_ptrs m)"
  have p: "wf_ptrs ?n (length (tv_elems (csr_values m))) ?p" and nnz: "length (tv_elems (csr_values m)) < 2 ^ 63"
    using assms by (simp_all add: wf_csr_def wf_compressed_def Let_def wf_tvec_def)
  have b: "0 \<le> ?p ! r" "?p ! r \<le> ?p ! Suc r" "?p ! Suc r \<le> int (length (tv_elems (csr_values m)))" and l: "length ?p = ?n + 1"
    using wf_ptrs_range[OF p, of r] wf_ptrs_range[OF p, of "Suc r"] assms(2) p by (simp_all add: wf_ptrs_def)
  have "filter (\<lambda>e. fst e = int r) (csr_entries m) =
      filter (\<lambda>e. fst e = int r) (line_of ?p (tv_elems (csr_indices m)) (tv_elems (csr_values m)) r)"
    unfolding csr_entries_def lines_of_def using assms(2) by (rule filter_one_line) (auto simp: line_of_def filter_empty_conv)
  also have "\<dots> = line_of ?p (tv_elems (csr_indices m)) (tv_elems (csr_values m)) r" by (simp add: filter_id_conv line_of_def)
  finally show ?thesis using b l nnz assms(2) by (simp add: row_nnz_def line_of_def nat_diff_distrib)
qed

lemma csr_update_values_eq:
  assumes "wf_csr m" and "tv_shape new = [length (tv_elems new)]" and "length (tv_elems new) < 2 ^ 64"
  shows "(\<exists>r. csr_update_values m new = Inr r) \<longleftrightarrow>
      length (tv_elems new) = length (csr_entries m) \<and> tv_dtype new = tv_dtype (csr_values m)"
    and "csr_update_values m new = Inr r \<Longrightarrow> wf_csr r \<and> csr_shape r = csr_shape m \<and>
      map position (csr_entries r) = map position (csr_entries m) \<and> map (\<lambda>e. snd (snd e)) (csr_entries r) = tv_elems new"
proof -
  have w: "wf_compressed (fst (csr_shape m)) (snd (csr_shape m)) (csr_ptrs m) (csr_indices m) (csr_values m)"
    using assms by (simp add: wf_csr_def)
  then have p: "wf_ptrs (fst (csr_shape m)) (length (tv_elems (csr_values m))) (tv_elems (csr_ptrs m))"
    and len: "length (tv_elems (csr_indices m)) = length (tv_elems (csr_values m))"
    and nnz: "length (tv_elems (csr_values m)) < 2 ^ 63" and sh: "tv_shape (csr_values m) = [length (tv_elems (csr_values m))]"
    by (simp_all add: wf_compressed_def Let_def wf_tvec_def)
  have num: "numel (csr_values m) = length (tv_elems (csr_values m))" "numel new = length (tv_elems new)"
    using sh nnz assms(2,3) by (simp_all add: numel_def)
  have le: "length (csr_entries m) = length (tv_elems (csr_values m))"
    using lines_of_zip(2)[OF p len refl] by (simp add: csr_entries_def)
  show "(\<exists>r. csr_update_values m new = Inr r) \<longleftrightarrow>
      length (tv_elems new) = length (csr_entries m) \<and> tv_dtype new = tv_dtype (csr_values m)"
    using num le assms(2) by (simp add: csr_update_values_def check_values_def)
  assume "csr_update_values m new = Inr r"
  then have r: "r = m\<lparr>csr_values := new\<rparr>" and ln: "length (tv_elems new) = length (tv_elems (csr_values m))"
    using num by (auto simp: csr_update_values_def check_values_def split: if_splits)
  let ?L = "\<lambda>v. lines_of (fst (csr_shape m)) (tv_elems (csr_ptrs m)) (tv_elems (csr_indices m)) v"
  have z: "?L v = zip (map fst (?L v)) (zip (tv_elems (csr_indices m)) v)"
    "map fst (?L v) = map fst (?L (tv_elems (csr_values m)))" "length (?L v) = length v"
    if "length v = length (tv_elems (csr_values m))" for v :: "'a list"
    using lines_of_zip[OF p len(1) that] lines_of_zip(3)[OF p len(1) refl] that by simp_all
  have pos: "map position (zip xs (zip ys vs)) = zip xs ys" if "length xs = length ys" "length vs = length ys"
    for xs ys :: "int list" and vs :: "'a list" using that by (auto intro!: nth_equalityI)
  have "map position (?L v) = zip (map fst (?L (tv_elems (csr_values m)))) (tv_elems (csr_indices m))"
    if "length v = length (tv_elems (csr_values m))" for v :: "'a list"
  proof -
    have "map position (?L v) = map position (zip (map fst (?L v)) (zip (tv_elems (csr_indices m)) v))"
      by (simp only: z(1)[OF that, symmetric])
    also have "\<dots> = zip (map fst (?L v)) (tv_elems (csr_indices m))"
      using that len z(3)[OF that] by (intro pos) simp_all
    finally show ?thesis by (simp only: z(2)[OF that])
  qed
  from this[OF ln] this[OF refl] have "map position (?L (tv_elems new)) = map position (?L (tv_elems (csr_values m)))" by (rule trans[OF _ sym])
  moreover have "map (\<lambda>e. snd (snd e)) (?L (tv_elems new)) = tv_elems new" using lines_of_vectors(2)[OF p len ln] .
  moreover have "wf_compressed (fst (csr_shape m)) (snd (csr_shape m)) (csr_ptrs m) (csr_indices m) new"
    using w ln assms(2) by (simp add: wf_compressed_def Let_def)
  ultimately show "wf_csr r \<and> csr_shape r = csr_shape m \<and> map position (csr_entries r) = map position (csr_entries m) \<and>
      map (\<lambda>e. snd (snd e)) (csr_entries r) = tv_elems new"
    by (simp add: r csr_entries_def wf_csr_def)
qed

section \<open>The property\<close>

text \<open>
  C36. Operations that keep the pattern. For a well-formed CSR matrix \<open>diagonal\<close> returns a vector of length
  min(rows, columns) with the entry stored first at each diagonal position, zero where there is none, on
  the host and through the CPU client alike; it refuses a foreign element type, unless the diagonal is
  empty. \<open>has_full_diagonal\<close> tells whether every diagonal position has an entry and \<open>row_nnz\<close> counts
  the entries of a row. The transpose as a CSC matrix has the same diagonal. \<open>update_values\<close> accepts
  exactly as many values of the same type and changes nothing but the values.
\<close>

theorem csr_pattern_operations:
  fixes m :: "'a csr"
  assumes "wf_csr m"
  shows "csr_diagonal zero (tv_dtype (csr_values m)) m = Some (Inr \<lparr>tv_dtype = tv_dtype (csr_values m),
      tv_shape = [min (fst (csr_shape m)) (snd (csr_shape m))],
      tv_elems = map (\<lambda>i. first_at zero (csr_entries m) i i) [0..<min (fst (csr_shape m)) (snd (csr_shape m))]\<rparr>) \<and>
    cpu_extract_diagonal_csr zero (tv_dtype (csr_values m)) (csr_ptrs m) (csr_indices m) (csr_values m) (csr_shape m) =
      csr_diagonal zero (tv_dtype (csr_values m)) m \<and>
    (\<forall>dt. dt \<noteq> tv_dtype (csr_values m) \<longrightarrow> 0 < fst (csr_shape m) \<longrightarrow> 0 < snd (csr_shape m) \<longrightarrow>
      csr_diagonal zero dt m = Some (Inl (DTypeMismatch dt (tv_dtype (csr_values m))))) \<and>
    csr_has_full_diagonal m = Some (\<forall>i < min (fst (csr_shape m)) (snd (csr_shape m)).
      \<exists>e \<in> set (csr_entries m). position e = (int i, int i)) \<and>
    (\<forall>dt. csc_diagonal zero dt (csr_transpose m) = csr_diagonal zero dt m) \<and>
    csc_has_full_diagonal (csr_transpose m) = csr_has_full_diagonal m \<and>
    (\<forall>r < fst (csr_shape m). row_nnz m r = Some (length (filter (\<lambda>e. fst e = int r) (csr_entries m)))) \<and>
    (\<forall>new :: 'a tvec. tv_shape new = [length (tv_elems new)] \<longrightarrow> length (tv_elems new) < 2 ^ 64 \<longrightarrow>
      ((\<exists>r. csr_update_values m new = Inr r) \<longleftrightarrow>
        length (tv_elems new) = length (csr_entries m) \<and> tv_dtype new = tv_dtype (csr_values m)) \<and>
      (\<forall>r. csr_update_values m new = Inr r \<longrightarrow> wf_csr r \<and> csr_shape r = csr_shape m \<and>
        map position (csr_entries r) = map position (csr_entries m) \<and> map (\<lambda>e. snd (snd e)) (csr_entries r) = tv_elems new))"
proof (intro conjI)
  show "cpu_extract_diagonal_csr zero (tv_dtype (csr_values m)) (csr_ptrs m) (csr_indices m) (csr_values m) (csr_shape m) =
      csr_diagonal zero (tv_dtype (csr_values m)) m"
    by (auto simp: cpu_extract_diagonal_csr_def csr_diagonal_def Let_def min_def)
  show "\<forall>dt. dt \<noteq> tv_dtype (csr_values m) \<longrightarrow> 0 < fst (csr_shape m) \<longrightarrow> 0 < snd (csr_shape m) \<longrightarrow>
      csr_diagonal zero dt m = Some (Inl (DTypeMismatch dt (tv_dtype (csr_values m))))"
    by (simp add: csr_diagonal_def Let_def min_def)
qed (rule csr_diagonal_eq[OF assms refl] | use csr_update_values_eq[OF assms] in blast
    | simp add: csc_diagonal_transpose row_nnz_eq[OF assms])+

lemma csr_pattern_operations_witness:
  "csr_diagonal 0 F32 \<lparr>csr_ptrs = \<lparr>tv_dtype = I64, tv_shape = [3], tv_elems = [0, 2, 3]\<rparr>,
      csr_indices = \<lparr>tv_dtype = I64, tv_shape = [3], tv_elems = [0, 0, 2]\<rparr>,
      csr_values = \<lparr>tv_dtype = F32, tv_shape = [3], tv_elems = [7, 8, 9 :: nat]\<rparr>, csr_shape = (2, 3)\<rparr> =
    Some (Inr \<lparr>tv_dtype = F32, tv_shape = [2], tv_elems = [7, 0]\<rparr>)"
proof -
  let ?m = "\<lparr>csr_ptrs = \<lparr>tv_dtype = I64, tv_shape = [3], tv_elems = [0, 2, 3]\<rparr>,
      csr_indices = \<lparr>tv_dtype = I64, tv_shape = [3], tv_elems = [0, 0, 2]\<rparr>,
      csr_values = \<lparr>tv_dtype = F32, tv_shape = [3], tv_elems = [7, 8, 9 :: nat]\<rparr>, csr_shape = (2, 3)\<rparr>"
  have "wf_csr ?m"
    by (auto simp: wf_csr_def wf_compressed_def wf_tvec_def wf_ptrs_def indices_below_def less_2_cases_iff)
  note csr_pattern_operations[OF this, of 0, THEN conjunct1]
  moreover have "map (\<lambda>i. first_at 0 (csr_entries ?m) i i) [0..<min (fst (csr_shape ?m)) (snd (csr_shape ?m))] = [7, 0]"
    by code_simp
  ultimately show ?thesis by simp
qed

end
