(* ===== verification/Sparse_Switch.thy ===== *)
theory Sparse_Switch
  imports Sparse_Conversions
begin

text \<open>
  The counting sort by which the CPU client switches between rows and columns
  (\<open>csr_to_csc\<close> and \<open>csc_to_csr\<close> of \<open>src/runtime/cpu/sparse/format_convert.rs\<close>) puts the entries in the
  same order as the sort of the backend-independent conversions.
\<close>

section \<open>Grouping by index is a stable sort\<close>

definition column :: "'a entry list \<Rightarrow> int \<Rightarrow> 'a entry list" where
  "column es c = filter (\<lambda>e. fst e = c) es"

lemma filter_concat_column:
  assumes "fst p = int c" and "c < n"
  shows "filter (\<lambda>e. p = position e) (concat (map (\<lambda>c. column es (int c)) [0..<n])) = filter (\<lambda>e. p = position e) es"
  using assms(2)
proof (induction n)
  case (Suc n)
  have empty: "filter (\<lambda>e. p = position e) (column es (int c')) = []" if "c' \<noteq> c" for c'
    using that assms(1) by (auto simp: column_def filter_empty_conv)
  have own: "filter (\<lambda>e. p = position e) (column es (int c)) = filter (\<lambda>e. p = position e) es"
    using assms(1) by (auto simp: column_def intro!: filter_cong)
  have none: "filter (\<lambda>e. p = position e) (concat (map (\<lambda>c. column es (int c)) [0..<c])) = []"
    by (auto simp: filter_concat concat_eq_Nil_conv comp_def empty)
  show ?case
  proof (cases "c = n")
    case True
    then show ?thesis using own none by simp
  next
    case False
    then show ?thesis using Suc empty[of n] by simp
  qed
qed simp

lemma sorted_columns:
  assumes "sorted (map (\<lambda>e. fst (snd e)) es)"
  shows "sorted (map position (concat (map (\<lambda>c. column es (int c)) [0..<n]))) \<and>
    (\<forall>e \<in> set (concat (map (\<lambda>c. column es (int c)) [0..<n])). fst e < int n)"
proof (induction n)
  case (Suc n)
  have "sorted (map position (column es c))" for c
  proof -
    have "sorted (map (Pair c) xs)" if "sorted xs" for xs :: "int list"
      using that by (induction xs) (auto simp: less_eq_prod_def)
    moreover have "sorted (map (\<lambda>e. fst (snd e)) (column es c))" using assms by (simp add: column_def sorted_filter)
    ultimately have "sorted (map (Pair c) (map (\<lambda>e. fst (snd e)) (column es c)))" by blast
    moreover have "map position (column es c) = map (Pair c) (map (\<lambda>e. fst (snd e)) (column es c))"
      by (auto simp: column_def)
    ultimately show ?thesis by (simp only:)
  qed
  moreover have "position x \<le> position y"
    if "x \<in> set (concat (map (\<lambda>c. column es (int c)) [0..<n]))" "y \<in> set (column es (int n))" for x y
    using Suc that by (auto simp: less_eq_prod_def column_def)
  ultimately have "sorted (map position (concat (map (\<lambda>c. column es (int c)) [0..<Suc n])))"
    using Suc by (simp add: sorted_append)
  moreover have "\<forall>e \<in> set (concat (map (\<lambda>c. column es (int c)) [0..<Suc n])). fst e < int (Suc n)"
    using Suc by (auto simp: column_def)
  ultimately show ?case by blast
qed simp

lemma sort_is_columns:
  assumes srt: "sorted (map (\<lambda>e. fst (snd e)) es)" and rng: "indices_below n (map fst es)"
  shows "sort_key position es = concat (map (\<lambda>c. column es (int c)) [0..<n])" (is "_ = ?ys")
proof (rule properties_for_sort_key)
  have "column es (int c) = filter (\<lambda>e. nat (fst e) = c) es" for c
  proof -
    have "fst e = int c \<longleftrightarrow> nat (fst e) = c" if "e \<in> set es" for e
      using rng that by (simp add: indices_below_def nat_eq_iff2) (metis nat_eq_iff2 of_nat_0_le_iff)
    then show ?thesis by (simp add: column_def cong: filter_cong)
  qed
  then have "?ys = concat (map (\<lambda>c. filter (\<lambda>e. nat (fst e) = c) es) [0..<n])" by simp
  moreover have "\<forall>e \<in> set es. nat (fst e) < n" using rng by (auto simp: indices_below_def nat_less_iff)
  ultimately show m: "mset ?ys = mset es" by (simp only: mset_concat_filter[of es "\<lambda>e. nat (fst e)" n])
  fix k assume "k \<in> set ?ys"
  then have "k \<in> set es" using m by (metis set_mset_mset)
  then have "0 \<le> fst k" "fst k < int n" using rng by (auto simp: indices_below_def)
  then show "filter (\<lambda>x. position k = position x) ?ys = filter (\<lambda>x. position k = position x) es"
    using filter_concat_column[of "position k" "nat (fst k)" n es] by (simp add: nat_less_iff)
next
  show "sorted (map position ?ys)" using sorted_columns[OF srt] by blast
qed

section \<open>The placement loop\<close>

text \<open>
  After the entries \<open>don\<close> the free position of a line is its start plus what it has got, and what it has
  got are the entries of the line in order. \<open>es\<close> has the new line number first.
\<close>

definition placed :: "int list \<Rightarrow> 'a entry list \<Rightarrow> nat \<Rightarrow> nat \<Rightarrow> int list \<times> 'a list \<times> int list \<Rightarrow> bool" where
  "placed keys don k nnz st \<longleftrightarrow> (case st of (ni, nv, ps) \<Rightarrow>
     length ni = nnz \<and> length nv = nnz \<and> length ps = k \<and>
     (\<forall>c < k. ps ! c = int (below keys (int c) + length (column don (int c))) \<and>
       (\<forall>i < length (column don (int c)). ni ! (below keys (int c) + i) = fst (snd (column don (int c) ! i)) \<and>
          nv ! (below keys (int c) + i) = snd (snd (column don (int c) ! i)))))"

lemma column_snoc: "column (es @ [e]) c = column es c @ (if fst e = c then [e] else [])"
  by (simp add: column_def)

lemma below_column: "below (map fst es) (x + 1) = below (map fst es) x + length (column es x)"
  by (induction es) (auto simp: below_def column_def)

lemma placed_step:
  assumes es: "es = don @ (int c, int line, v) # rest" and st: "placed (map fst es) don k (length es) (ni, nv, ps)"
    and c: "c < k" and small: "length es < 2 ^ 63" "k < 2 ^ 63"
    and idx: "idx < length indices" "indices ! idx = int c" "idx < length vals" "vals ! idx = v"
  shows "\<exists>st'. place_entry indices vals line idx (ni, nv, ps) = Some st' \<and>
    placed (map fst es) (don @ [(int c, int line, v)]) k (length es) st'"
proof -
  let ?keys = "map fst es" and ?e = "(int c, int line, v)" and ?start = "\<lambda>c. below (map fst es) (int c)"
  let ?n = "\<lambda>c. length (column don (int c))"
  let ?p = "?start c + ?n c"
  have fill: "?start d + ?n d + (if d = c then 1 else 0) \<le> ?start (Suc d)" for d
    using below_column[of es "int d"] by (simp add: es column_snoc column_def add.commute)
  have top: "?start (Suc d) \<le> length es" for d
    unfolding below_def using length_filter_le[of "\<lambda>k. k < int (Suc d)" ?keys] by simp
  have p: "?p < length es" using fill[of c] top[of c] by simp
  have far: "?start d + i \<noteq> ?p" if "d \<noteq> c" "i < ?n d" for d i
  proof (cases "d < c")
    case True
    then have "?start (Suc d) \<le> ?start c" by (intro below_mono) simp
    with fill[of d] that True show ?thesis by simp
  next
    case False
    with that(1) have "?start (Suc c) \<le> ?start d" by (intro below_mono) simp
    with fill[of c] show ?thesis by simp
  qed
  from st c have l: "length ni = length es" "length nv = length es" "length ps = k" "ps ! c = int ?p"
    by (simp_all add: placed_def)
  have "c < 2 ^ 64" "?p < 2 ^ 64" using c small p by simp_all
  then have cc: "as_usize (int c) = c" and pp: "as_usize (int ?p) = ?p" by (simp_all only: as_usize_of_nat)
  have "place_entry indices vals line idx (ni, nv, ps) =
      Some (ni[?p := int line], nv[?p := v], ps[c := int ?p + 1])"
    using idx l c p cc pp by (simp add: place_entry_def inc_at_def del: of_nat_add)
  moreover have "placed ?keys (don @ [?e]) k (length es) (ni[?p := int line], nv[?p := v], ps[c := int ?p + 1])"
    unfolding placed_def prod.case
  proof (intro conjI allI impI)
    fix d assume d: "d < k"
    have S: "ps ! d = int (?start d + ?n d)"
      "\<And>i. i < ?n d \<Longrightarrow> ni ! (?start d + i) = fst (snd (column don (int d) ! i)) \<and> nv ! (?start d + i) = snd (snd (column don (int d) ! i))"
      using st d by (simp_all add: placed_def)
    show "ps[c := int ?p + 1] ! d = int (?start d + length (column (don @ [?e]) (int d)))"
      using S(1) d l by (simp add: column_snoc nth_list_update)
    fix i assume i: "i < length (column (don @ [?e]) (int d))"
    have "ni[?p := int line] ! (?start d + i) = fst (snd (column (don @ [?e]) (int d) ! i)) \<and>
        nv[?p := v] ! (?start d + i) = snd (snd (column (don @ [?e]) (int d) ! i))"
    proof (cases "d = c")
      case True
      then show ?thesis using i S(2) p l by (cases "i = ?n c") (auto simp: column_snoc nth_append)
    next
      case False
      then have "i < ?n d" using i by (simp add: column_snoc)
      then show ?thesis using far[OF False, symmetric] S(2) False by (simp add: column_snoc)
    qed
    then show "ni[?p := int line] ! (?start d + i) = fst (snd (column (don @ [?e]) (int d) ! i))"
      "nv[?p := v] ! (?start d + i) = snd (snd (column (don @ [?e]) (int d) ! i))" by blast+
  qed (use l in simp_all)
  ultimately show ?thesis by blast
qed

lemma placed_done:
  assumes st: "placed (map fst es) es k (length es) (ni, nv, ps)" and rng: "indices_below k (map fst es)"
  shows "lines_of k (ptrs_of k (map fst es)) ni nv = concat (map (\<lambda>c. column es (int c)) [0..<k])"
proof -
  have "line_of (ptrs_of k (map fst es)) ni nv c = column es (int c)" if c: "c < k" for c
  proof (rule nth_equalityI)
    let ?s = "below (map fst es) (int c)"
    have S: "below (map fst es) (int (Suc c)) = ?s + length (column es (int c))"
      using below_column[of es "int c"] by (simp add: add.commute)
    then show len: "length (line_of (ptrs_of k (map fst es)) ni nv c) = length (column es (int c))"
      using c by (simp add: line_of_def ptrs_of_def del: upt_Suc)
    fix i assume "i < length (line_of (ptrs_of k (map fst es)) ni nv c)"
    then have i: "i < length (column es (int c))" using len by simp
    then have "fst (column es (int c) ! i) = int c" using nth_mem[OF i] by (simp add: column_def)
    moreover have "line_of (ptrs_of k (map fst es)) ni nv c ! i = (int c, ni ! (?s + i), nv ! (?s + i))"
      using i S c by (simp add: line_of_def ptrs_of_def nat_int_add del: upt_Suc)
    ultimately show "line_of (ptrs_of k (map fst es)) ni nv c ! i = column es (int c) ! i"
      using i c st by (simp add: placed_def prod_eq_iff)
  qed
  then show ?thesis unfolding lines_of_def by (intro arg_cong[where f = concat]) simp
qed

section \<open>The whole switch\<close>

lemma lines_of_nth:
  assumes p: "wf_ptrs n nnz ptrs" and l: "l < n" and k: "nat (ptrs ! l) \<le> k" "k < nat (ptrs ! Suc l)"
  shows "lines_of n ptrs indices vals ! k = (int l, indices ! k, vals ! k)"
proof -
  let ?g = "line_of ptrs indices vals"
  have len: "m \<le> n \<Longrightarrow> length (concat (map ?g [0..<m])) = nat (ptrs ! m)" for m
  proof (induction m)
    case 0
    then show ?case using p by (simp add: wf_ptrs_def)
  next
    case (Suc m)
    then have "nat (ptrs ! m) \<le> nat (ptrs ! Suc m)" using p by (intro nat_mono) (simp add: wf_ptrs_def)
    with Suc show ?case by (simp add: line_of_def)
  qed
  have "[0..<n] = [0..<l] @ l # [Suc l..<n]"
    using l by (metis append_Cons append_Nil le0 less_imp_le_nat upt_add_eq_append upt_conv_Cons le_add_diff_inverse)
  then have "lines_of n ptrs indices vals = concat (map ?g [0..<l]) @ ?g l @ concat (map ?g [Suc l..<n])"
    by (simp add: lines_of_def)
  moreover have "k - nat (ptrs ! l) < length (?g l)" using k by (simp add: line_of_def)
  ultimately have "lines_of n ptrs indices vals ! k = ?g l ! (k - nat (ptrs ! l))"
    using len[of l] l k(1) by (simp add: nth_append)
  then show ?thesis using k by (simp add: line_of_def)
qed

lemma switch_pointers:
  assumes rng: "indices_below k idx" and k: "k < 2 ^ 63"
  shows "\<exists>counts. foldM (\<lambda>i c. inc_at c (as_usize i)) idx (replicate k 0) = Some counts \<and>
    foldM (\<lambda>c p. do { a \<leftarrow> nth_chk p c; b \<leftarrow> nth_chk counts c; upd_chk p (c + 1) (a + b) })
      [0..<k] (replicate (k + 1) 0) = Some (ptrs_of k idx)"
proof -
  let ?cnt = "map (\<lambda>j. replicate k 0 ! j + int (length (filter (\<lambda>i. as_usize i = j) idx))) [0..<length (replicate k (0 :: int))]"
  have u: "as_usize i = nat i \<and> nat i < k" if "i \<in> set idx" for i
  proof -
    have "0 \<le> i" "i < int k" using rng that by (auto simp: indices_below_def)
    with k show ?thesis by (simp add: nat_less_iff)
  qed
  have counts: "foldM (\<lambda>i c. inc_at c (as_usize i)) idx (replicate k 0) = Some ?cnt"
    by (rule count_keys) (use u in simp)
  have cnt: "?cnt ! j = int (length (filter (\<lambda>i. i = int j) idx))" if "j < k" for j
  proof -
    have "filter (\<lambda>i. as_usize i = j) idx = filter (\<lambda>i. i = int j) idx"
      using u rng by (intro filter_cong) (auto simp: indices_below_def)
    then show ?thesis using that by simp
  qed
  have "\<exists>p. foldM (\<lambda>c p. do { a \<leftarrow> nth_chk p c; b \<leftarrow> nth_chk ?cnt c; upd_chk p (c + 1) (a + b) })
      [0..<k] (replicate (k + 1) 0) = Some p \<and> (length p = k + 1 \<and> (\<forall>j \<le> k. p ! j = int (below idx (int j))))"
  proof (rule foldM_upt_rule[where I = "\<lambda>c p. length p = k + 1 \<and> (\<forall>j \<le> c. p ! j = int (below idx (int j)))"])
    show "length (replicate (k + 1) 0) = k + 1 \<and> (\<forall>j \<le> 0. replicate (k + 1) 0 ! j = int (below idx (int j)))"
      using below_0[OF rng] by (simp del: replicate_Suc)
  next
    fix c p
    assume c: "c < k" and I: "length p = k + 1 \<and> (\<forall>j \<le> c. p ! j = int (below idx (int j)))"
    have "p ! c + ?cnt ! c = int (below idx (int (Suc c)))"
      using I cnt[OF c] below_Suc[of idx "int c"] by (simp add: add.commute)
    moreover have "nth_chk p c = Some (p ! c)" "nth_chk ?cnt c = Some (?cnt ! c)" using I c by simp_all
    ultimately show "\<exists>p'. do { a \<leftarrow> nth_chk p c; b \<leftarrow> nth_chk ?cnt c; upd_chk p (c + 1) (a + b) } = Some p' \<and>
        length p' = k + 1 \<and> (\<forall>j \<le> Suc c. p' ! j = int (below idx (int j)))"
      using I c by (simp add: nth_list_update le_Suc_eq del: map_map)
  qed
  then obtain p where p: "foldM (\<lambda>c p. do { a \<leftarrow> nth_chk p c; b \<leftarrow> nth_chk ?cnt c; upd_chk p (c + 1) (a + b) })
      [0..<k] (replicate (k + 1) 0) = Some p" "length p = k + 1" "\<forall>j \<le> k. p ! j = int (below idx (int j))" by blast
  have "p = ptrs_of k idx" using p(2,3) by (intro nth_equalityI) (auto simp: ptrs_of_def simp del: upt_Suc)
  with counts p(1) show ?thesis by blast
qed

lemma switch_loop:
  assumes wf: "wf_compressed n k ptrs indices vs"
  defines "es \<equiv> map swap_entry (lines_of n (tv_elems ptrs) (tv_elems indices) (tv_elems vs))"
    and "nnz \<equiv> length (tv_elems vs)"
  assumes st: "placed (map fst es) [] k nnz st"
  shows "\<exists>st'. foldM (\<lambda>line st. do {
      s \<leftarrow> nth_chk (tv_elems ptrs) line;
      e \<leftarrow> nth_chk (tv_elems ptrs) (line + 1);
      foldM (place_entry (tv_elems indices) (tv_elems vs) line) [as_usize s..<as_usize e] st }) [0..<n] st = Some st' \<and>
    placed (map fst es) (take (nat (tv_elems ptrs ! n)) es) k nnz st'"
proof (rule foldM_upt_rule[where I = "\<lambda>l st. placed (map fst es) (take (nat (tv_elems ptrs ! l)) es) k nnz st"])
  let ?p = "tv_elems ptrs" and ?idx = "tv_elems indices" and ?vals = "tv_elems vs"
  have p: "wf_ptrs n nnz ?p" and len: "length ?idx = nnz" "length ?vals = nnz" and small: "nnz < 2 ^ 63" "k < 2 ^ 63"
    and rng: "indices_below k ?idx" and lp: "length ?p = n + 1"
    using wf by (simp_all add: wf_compressed_def Let_def wf_tvec_def nnz_def)
  have le: "length es = nnz" using lines_of_zip(2)[OF p len] by (simp add: es_def)
  show "placed (map fst es) (take (nat (?p ! 0)) es) k nnz st" using st p by (simp add: wf_ptrs_def)
  fix l st
  assume l: "l < n" and I: "placed (map fst es) (take (nat (?p ! l)) es) k nnz st"
  let ?a = "nat (?p ! l)" and ?b = "nat (?p ! Suc l)"
  have r: "0 \<le> ?p ! l" "?p ! l \<le> int nnz" "0 \<le> ?p ! Suc l" "?p ! Suc l \<le> int nnz" "?p ! l \<le> ?p ! Suc l"
    using wf_ptrs_range[OF p, of l] wf_ptrs_range[OF p, of "Suc l"] wf_ptrs_mono[OF p, of l "Suc l"] l by simp_all
  have "int nnz < 2 ^ 63" using small(1) by simp
  then have u: "as_usize (?p ! l) = ?a" "as_usize (?p ! Suc l) = ?b" using r by simp_all
  have ab: "?a \<le> ?b" "?b \<le> nnz" using r by simp_all
  have entry: "es ! j = (?idx ! j, int l, ?vals ! j)" if "?a \<le> j" "j < ?b" for j
    using lines_of_nth[OF p l that, of ?idx ?vals] lines_of_zip(2)[OF p len] that ab by (simp add: es_def swap_entry_def)
  have "\<exists>st'. foldM (place_entry ?idx ?vals l) [?a..<?b] st = Some st' \<and>
      placed (map fst es) (take (?a + length [?a..<?b]) es) k nnz st'"
  proof (rule foldM_rule[where I = "\<lambda>don st. placed (map fst es) (take (?a + length don) es) k nnz st"])
    show "placed (map fst es) (take (?a + length []) es) k nnz st" using I by simp
  next
    fix don x rest st
    assume split: "[?a..<?b] = don @ x # rest" and I: "placed (map fst es) (take (?a + length don) es) k nnz st"
    have "length don < ?b - ?a" using arg_cong[OF split, of length] by simp
    then have x: "x = ?a + length don" "?a \<le> x" "x < ?b"
      using arg_cong[OF split, of "\<lambda>xs. xs ! length don"] by simp_all
    then have xl: "x < nnz" using ab(2) by simp
    have "?idx ! x \<in> set ?idx" using xl len by simp
    then have ix: "0 \<le> ?idx ! x" "nat (?idx ! x) < k" using rng by (auto simp: indices_below_def nat_less_iff)
    obtain ni nv ps where st: "st = (ni, nv, ps)" by (cases st)
    have "es = take x es @ (int (nat (?idx ! x)), int l, ?vals ! x) # drop (Suc x) es"
      using entry[OF x(2,3)] ix(1) xl le id_take_nth_drop[of x es] by simp
    from placed_step[OF this, of k ni nv ps x ?idx ?vals] I st x(1) xl ix small len le
    obtain st' where "place_entry ?idx ?vals l x st = Some st'"
      "placed (map fst es) (take x es @ [(int (nat (?idx ! x)), int l, ?vals ! x)]) k nnz st'"
      by (auto simp del: int_nat_eq)
    moreover have "take (?a + length (don @ [x])) es = take x es @ [(int (nat (?idx ! x)), int l, ?vals ! x)]"
      using x(1) xl le entry[OF x(2,3)] ix(1) by (simp add: take_Suc_conv_app_nth)
    ultimately show "\<exists>st'. place_entry ?idx ?vals l x st = Some st' \<and>
        placed (map fst es) (take (?a + length (don @ [x])) es) k nnz st'" by simp
  qed
  then show "\<exists>st'. do { s \<leftarrow> nth_chk ?p l; e \<leftarrow> nth_chk ?p (l + 1);
        foldM (place_entry ?idx ?vals l) [as_usize s..<as_usize e] st } = Some st' \<and>
      placed (map fst es) (take (nat (?p ! Suc l)) es) k nnz st'"
    using l lp u ab by simp
qed

lemma cpu_switch_eq:
  assumes wf: "wf_compressed n k ptrs indices vs"
  shows "\<exists>p i v. cpu_switch zero (tv_dtype vs) n k ptrs indices vs = Some (Inr (p, i, v)) \<and> wf_compressed k n p i v \<and>
    tv_dtype v = tv_dtype vs \<and> lines_of k (tv_elems p) (tv_elems i) (tv_elems v) =
      sort_key position (map swap_entry (lines_of n (tv_elems ptrs) (tv_elems indices) (tv_elems vs)))"
proof -
  let ?p = "tv_elems ptrs" and ?idx = "tv_elems indices" and ?vals = "tv_elems vs"
  let ?E = "lines_of n ?p ?idx ?vals"
  let ?es = "map swap_entry ?E" and ?nnz = "length ?vals"
  have p: "wf_ptrs n ?nnz ?p" and len: "length ?idx = ?nnz" "length ?vals = ?nnz" and small: "?nnz < 2 ^ 63" "n < 2 ^ 63" "k < 2 ^ 63"
    and rng: "indices_below k ?idx" and lp: "length ?p = n + 1" and sh: "tv_shape vs = [?nnz]"
    using wf by (simp_all add: wf_compressed_def Let_def wf_tvec_def)
  note z = lines_of_zip[OF p len]
  have keys: "map fst ?es = ?idx" using lines_of_vectors(1)[OF p len] by (simp add: swap_entry_def comp_def)
  have lines: "map (\<lambda>e. fst (snd e)) ?es = map fst ?E" by (simp add: swap_entry_def)
  have le: "length ?es = ?nnz" using z(2) by simp
  obtain counts where cnt: "foldM (\<lambda>i c. inc_at c (as_usize i)) ?idx (replicate k 0) = Some counts"
    "foldM (\<lambda>c p. do { a \<leftarrow> nth_chk p c; b \<leftarrow> nth_chk counts c; upd_chk p (c + 1) (a + b) })
      [0..<k] (replicate (k + 1) 0) = Some (ptrs_of k ?idx)"
    using switch_pointers[OF rng small(3)] by blast
  have init: "placed (map fst ?es) [] k ?nnz (replicate ?nnz 0, replicate ?nnz zero, take k (ptrs_of k ?idx))"
    unfolding keys by (simp add: placed_def column_def ptrs_of_def del: upt_Suc)
  from switch_loop[OF wf init] obtain ni nv ps where loop: "foldM (\<lambda>line st. do {
      s \<leftarrow> nth_chk ?p line; e \<leftarrow> nth_chk ?p (line + 1);
      foldM (place_entry ?idx ?vals line) [as_usize s..<as_usize e] st }) [0..<n]
      (replicate ?nnz 0, replicate ?nnz zero, take k (ptrs_of k ?idx)) = Some (ni, nv, ps)"
    and fin: "placed (map fst ?es) (take (nat (?p ! n)) ?es) k ?nnz (ni, nv, ps)" by auto
  have "nat (?p ! n) = ?nnz" using p by (simp add: wf_ptrs_def)
  then have fin': "placed (map fst ?es) ?es k (length ?es) (ni, nv, ps)" using fin le by (simp del: length_map)
  have l: "length ni = ?nnz" "length nv = ?nnz" using fin by (simp_all add: placed_def)
  have rng': "indices_below k (map fst ?es)" using rng keys by simp
  have cols: "lines_of k (ptrs_of k ?idx) ni nv = sort_key position ?es"
    using placed_done[OF fin' rng'] sort_is_columns[of ?es, OF _ rng'] z(4) unfolding keys lines by simp
  let ?q = "\<lparr>tv_dtype = I64, tv_shape = [k + 1], tv_elems = ptrs_of k ?idx\<rparr>"
  let ?i = "\<lparr>tv_dtype = I64, tv_shape = [?nnz], tv_elems = ni\<rparr>"
  let ?v = "\<lparr>tv_dtype = tv_dtype vs, tv_shape = [?nnz], tv_elems = nv\<rparr>"
  have run: "cpu_switch zero (tv_dtype vs) n k ptrs indices vs = Some (Inr (?q, ?i, ?v))"
  proof -
    have num: "numel vs = ?nnz" and lq: "length (ptrs_of k ?idx) = k + 1" using small by (simp_all add: numel_def sh ptrs_of_def)
    show ?thesis
      unfolding cpu_switch_def Let_def num cnt(1) Option.bind.bind_lunit cnt(2) loop prod.case
      using l lq small by (simp add: cpu_parts_def from_slice_def)
  qed
  have wp: "wf_ptrs k ?nnz (ptrs_of k ?idx)" using wf_ptrs_of[OF rng] len by simp
  have "indices_below n ni"
  proof -
    have "map (\<lambda>e. fst (snd e)) (lines_of k (ptrs_of k ?idx) ni nv) = ni" by (rule lines_of_vectors[OF wp l])
    from arg_cong[OF this, of set] have "set ni = (\<lambda>e. fst (snd e)) ` set ?es" unfolding cols by (simp only: set_map set_sort)
    also have "\<dots> = set (map fst ?E)" using arg_cong[OF lines, of set] by (simp only: set_map)
    finally have s: "set ni = set (map fst ?E)" .
    show ?thesis using z(5) indices_below_cong[OF s] by simp
  qed
  moreover have "length (ptrs_of k ?idx) = k + 1" by (simp add: ptrs_of_def)
  ultimately have "wf_compressed k n ?q ?i ?v"
    using wp small l by (simp only: wf_compressed_def wf_tvec_def Let_def tvec.simps)
  with run cols show ?thesis by (intro exI[of _ ?q] exI[of _ ?i] exI[of _ ?v]) (simp only: tvec.simps simp_thms)
qed

section \<open>The vectors are determined by the entries\<close>

lemma below_replicates:
  "l \<le> n \<Longrightarrow> below (concat (map (\<lambda>m. replicate (q m) (int m)) [0..<n])) (int l) = sum_list (map q [0..<l])"
proof (induction n)
  case (Suc n)
  have split: "below (xs @ replicate c (int n)) (int l) = below xs (int l) + (if n < l then c else 0)" for xs c
    by (simp add: below_def)
  show ?case
  proof (cases "l = Suc n")
    case True
    have "below (concat (map (\<lambda>m. replicate (q m) (int m)) [0..<n])) (int (Suc n)) = sum_list (map q [0..<n])"
    proof -
      have "filter (\<lambda>k. k < int (Suc n)) (concat (map (\<lambda>m. replicate (q m) (int m)) [0..<n])) =
          concat (map (\<lambda>m. replicate (q m) (int m)) [0..<n])" by (intro filter_True) auto
      then show ?thesis by (simp add: below_def length_concat comp_def del: of_nat_Suc)
    qed
    then show ?thesis using True split[of "concat (map (\<lambda>m. replicate (q m) (int m)) [0..<n])" "q n"] by simp
  next
    case False
    with Suc.prems have "l \<le> n" by simp
    then show ?thesis using Suc.IH split by simp
  qed
qed (simp add: below_def)

lemma ptrs_determined:
  assumes p: "wf_ptrs n nnz ptrs" and len: "length indices = nnz" "length vals = nnz"
  shows "ptrs = ptrs_of n (map fst (lines_of n ptrs indices vals))"
proof (rule nth_equalityI)
  show "length ptrs = length (ptrs_of n (map fst (lines_of n ptrs indices vals)))"
    using p by (simp add: wf_ptrs_def ptrs_of_def)
  fix l assume "l < length ptrs"
  then have l: "l \<le> n" using p by (simp add: wf_ptrs_def)
  have "sum_list (map (\<lambda>m. nat (ptrs ! Suc m) - nat (ptrs ! m)) [0..<l]) = nat (ptrs ! l)" using l
  proof (induction l)
    case 0
    then show ?case using p by (simp add: wf_ptrs_def)
  next
    case (Suc l)
    then have "nat (ptrs ! l) \<le> nat (ptrs ! Suc l)" using p by (intro nat_mono) (simp add: wf_ptrs_def)
    with Suc show ?case by simp
  qed
  then have "below (map fst (lines_of n ptrs indices vals)) (int l) = nat (ptrs ! l)"
    unfolding lines_of_zip(3)[OF p len] using below_replicates[OF l] by simp
  then show "ptrs ! l = ptrs_of n (map fst (lines_of n ptrs indices vals)) ! l"
    using l wf_ptrs_range[OF p l] by (simp add: ptrs_of_def del: upt_Suc)
qed

lemma parts_determined:
  assumes wf: "wf_compressed n k p i v" "wf_compressed n k p' i' v'" and dt: "tv_dtype v' = tv_dtype v"
    and lines: "lines_of n (tv_elems p) (tv_elems i) (tv_elems v) = lines_of n (tv_elems p') (tv_elems i') (tv_elems v')"
  shows "p' = p \<and> i' = i \<and> v' = v"
proof -
  have *: "tv_elems q = ptrs_of n (map fst (lines_of n (tv_elems q) (tv_elems j) (tv_elems w))) \<and>
      tv_elems j = map (\<lambda>e. fst (snd e)) (lines_of n (tv_elems q) (tv_elems j) (tv_elems w)) \<and>
      tv_elems w = map (\<lambda>e. snd (snd e)) (lines_of n (tv_elems q) (tv_elems j) (tv_elems w))"
    if "wf_compressed n k q j w" for q j w
  proof -
    have a: "wf_ptrs n (length (tv_elems w)) (tv_elems q)" and b: "length (tv_elems j) = length (tv_elems w)" "length (tv_elems w) = length (tv_elems w)"
      using that by (simp_all add: wf_compressed_def Let_def wf_tvec_def)
    show ?thesis using ptrs_determined[OF a b] lines_of_vectors[OF a b] by simp
  qed
  have e: "tv_elems p' = tv_elems p" "tv_elems i' = tv_elems i" "tv_elems v' = tv_elems v"
    using *[OF wf(1)] *[OF wf(2)] lines by auto
  with wf dt show ?thesis by (cases p; cases p'; cases i; cases i'; cases v; cases v') (simp add: wf_compressed_def Let_def wf_tvec_def)
qed

section \<open>Both implementations agree\<close>

lemma csr_to_csc_eq:
  assumes wf: "wf_csr m" and nb: "tv_dtype (csr_values m) \<noteq> Bool"
  shows "\<exists>c. csr_to_csc m = Some (Inr c) \<and> wf_csc c \<and> csc_shape c = csr_shape m \<and>
    tv_dtype (csc_values c) = tv_dtype (csr_values m) \<and> csc_entries c = sort_key position' (csr_entries m)"
proof -
  from csr_to_coo_eq[OF wf nb] obtain d where d: "csr_to_coo m = Some (Inr d)" "wf_coo d" "coo_shape d = csr_shape m"
    "tv_dtype (coo_values d) = tv_dtype (csr_values m)" "coo_entries d = csr_entries m" by blast
  from coo_to_csc_eq[OF d(2)] nb d show ?thesis by (simp add: csr_to_csc_def)
qed

lemma csc_to_csr_eq:
  assumes wf: "wf_csc m" and nb: "tv_dtype (csc_values m) \<noteq> Bool"
  shows "\<exists>c. csc_to_csr m = Some (Inr c) \<and> wf_csr c \<and> csr_shape c = csc_shape m \<and>
    tv_dtype (csr_values c) = tv_dtype (csc_values m) \<and> csr_entries c = sort_key position (csc_entries m)"
proof -
  from csc_to_coo_eq[OF wf nb] obtain d where d: "csc_to_coo m = Some (Inr d)" "wf_coo d" "coo_shape d = csc_shape m"
    "tv_dtype (coo_values d) = tv_dtype (csc_values m)" "coo_entries d = csc_entries m" by blast
  from coo_to_csr_eq[OF d(2)] nb d show ?thesis by (simp add: csc_to_csr_def)
qed

lemma swap_lines: "map swap_entry es = fs \<longleftrightarrow> es = map swap_entry fs"
  by (auto simp: map_idI)

lemma cpu_csr_to_csc_agrees:
  assumes wf: "wf_csr m" and c: "csr_to_csc m = Some (Inr c)" "wf_csc c" "csc_shape c = csr_shape m"
    "tv_dtype (csc_values c) = tv_dtype (csr_values m)" "csc_entries c = sort_key position' (csr_entries m)"
  shows "cpu_csr_to_csc zero (tv_dtype (csr_values m)) (csr_ptrs m) (csr_indices m) (csr_values m) (csr_shape m) =
    Some (Inr (csc_ptrs c, csc_indices c, csc_values c))"
proof -
  from cpu_switch_eq[OF wf[unfolded wf_csr_def], of zero] obtain p i v where
    r: "cpu_switch zero (tv_dtype (csr_values m)) (fst (csr_shape m)) (snd (csr_shape m)) (csr_ptrs m) (csr_indices m) (csr_values m) =
      Some (Inr (p, i, v))" "wf_compressed (snd (csr_shape m)) (fst (csr_shape m)) p i v" "tv_dtype v = tv_dtype (csr_values m)"
    "lines_of (snd (csr_shape m)) (tv_elems p) (tv_elems i) (tv_elems v) = sort_key position (map swap_entry (csr_entries m))"
    unfolding csr_entries_def by blast
  have "lines_of (snd (csr_shape m)) (tv_elems (csc_ptrs c)) (tv_elems (csc_indices c)) (tv_elems (csc_values c)) =
      map swap_entry (csc_entries c)" using c(3) by (simp add: csc_entries_def)
  also have "\<dots> = sort_key position (map swap_entry (csr_entries m))"
    unfolding c(5) sort_swap[symmetric] by simp
  finally have l: "lines_of (snd (csr_shape m)) (tv_elems (csc_ptrs c)) (tv_elems (csc_indices c)) (tv_elems (csc_values c)) =
      lines_of (snd (csr_shape m)) (tv_elems p) (tv_elems i) (tv_elems v)" using r(4) by simp
  have "wf_compressed (snd (csr_shape m)) (fst (csr_shape m)) (csc_ptrs c) (csc_indices c) (csc_values c)"
    using c(2,3) by (simp add: wf_csc_def)
  from parts_determined[OF this r(2) _ l] r c(4) show ?thesis by (simp add: cpu_csr_to_csc_def)
qed

lemma cpu_csc_to_csr_agrees:
  assumes wf: "wf_csc m" and c: "csc_to_csr m = Some (Inr c)" "wf_csr c" "csr_shape c = csc_shape m"
    "tv_dtype (csr_values c) = tv_dtype (csc_values m)" "csr_entries c = sort_key position (csc_entries m)"
  shows "cpu_csc_to_csr zero (tv_dtype (csc_values m)) (csc_ptrs m) (csc_indices m) (csc_values m) (csc_shape m) =
    Some (Inr (csr_ptrs c, csr_indices c, csr_values c))"
proof -
  from cpu_switch_eq[OF wf[unfolded wf_csc_def], of zero] obtain p i v where
    r: "cpu_switch zero (tv_dtype (csc_values m)) (snd (csc_shape m)) (fst (csc_shape m)) (csc_ptrs m) (csc_indices m) (csc_values m) =
      Some (Inr (p, i, v))" "wf_compressed (fst (csc_shape m)) (snd (csc_shape m)) p i v" "tv_dtype v = tv_dtype (csc_values m)"
    "lines_of (fst (csc_shape m)) (tv_elems p) (tv_elems i) (tv_elems v) = sort_key position (csc_entries m)"
    unfolding csc_entries_def by blast
  have l: "lines_of (fst (csc_shape m)) (tv_elems (csr_ptrs c)) (tv_elems (csr_indices c)) (tv_elems (csr_values c)) =
      lines_of (fst (csc_shape m)) (tv_elems p) (tv_elems i) (tv_elems v)" using r(4) c(3,5) by (simp add: csr_entries_def)
  have "wf_compressed (fst (csc_shape m)) (snd (csc_shape m)) (csr_ptrs c) (csr_indices c) (csr_values c)"
    using c(2,3) by (simp add: wf_csr_def)
  from parts_determined[OF this r(2) _ l] r c(4) show ?thesis by (simp add: cpu_csc_to_csr_def)
qed

text \<open>
  C34. The counting sort of the CPU client is the sort of the generic conversions. For a well-formed matrix
  in CSR or CSC format, whether or not the indices within a line are sorted, the CPU client's one-pass
  switch to the other format does not panic and returns bit for bit the three vectors that the generic
  conversion through coordinates returns.
\<close>

theorem cpu_switch_agrees:
  assumes "wf_csr m" and "tv_dtype (csr_values m) \<noteq> Bool" and "wf_csc m'" and "tv_dtype (csc_values m') \<noteq> Bool"
  shows "(\<exists>c. csr_to_csc m = Some (Inr c) \<and>
      cpu_csr_to_csc zero (tv_dtype (csr_values m)) (csr_ptrs m) (csr_indices m) (csr_values m) (csr_shape m) =
        Some (Inr (csc_ptrs c, csc_indices c, csc_values c))) \<and>
    (\<exists>c. csc_to_csr m' = Some (Inr c) \<and>
      cpu_csc_to_csr zero' (tv_dtype (csc_values m')) (csc_ptrs m') (csc_indices m') (csc_values m') (csc_shape m') =
        Some (Inr (csr_ptrs c, csr_indices c, csr_values c)))"
proof (rule conjI)
  from csr_to_csc_eq[OF assms(1,2)] obtain c where c: "csr_to_csc m = Some (Inr c)" "wf_csc c" "csc_shape c = csr_shape m"
    "tv_dtype (csc_values c) = tv_dtype (csr_values m)" "csc_entries c = sort_key position' (csr_entries m)" by blast
  from cpu_csr_to_csc_agrees[OF assms(1) c] c(1) show "\<exists>c. csr_to_csc m = Some (Inr c) \<and>
      cpu_csr_to_csc zero (tv_dtype (csr_values m)) (csr_ptrs m) (csr_indices m) (csr_values m) (csr_shape m) =
        Some (Inr (csc_ptrs c, csc_indices c, csc_values c))" by blast
  from csc_to_csr_eq[OF assms(3,4)] obtain c where c: "csc_to_csr m' = Some (Inr c)" "wf_csr c" "csr_shape c = csc_shape m'"
    "tv_dtype (csr_values c) = tv_dtype (csc_values m')" "csr_entries c = sort_key position (csc_entries m')" by blast
  from cpu_csc_to_csr_agrees[OF assms(3) c] c(1) show "\<exists>c. csc_to_csr m' = Some (Inr c) \<and>
      cpu_csc_to_csr zero' (tv_dtype (csc_values m')) (csc_ptrs m') (csc_indices m') (csc_values m') (csc_shape m') =
        Some (Inr (csr_ptrs c, csr_indices c, csr_values c))" by blast
qed

text \<open>\<open>[[1, 0, 2], [0, 0, 3]]\<close>, the first row stored backwards.\<close>

definition sample_csr :: "nat csr" where
  "sample_csr = \<lparr>csr_ptrs = \<lparr>tv_dtype = I64, tv_shape = [3], tv_elems = [0, 2, 3]\<rparr>,
     csr_indices = \<lparr>tv_dtype = I64, tv_shape = [3], tv_elems = [2, 0, 2]\<rparr>,
     csr_values = \<lparr>tv_dtype = F32, tv_shape = [3], tv_elems = [2, 1, 3]\<rparr>, csr_shape = (2, 3)\<rparr>"

lemma sample_csr_wf: "wf_csr sample_csr" "wf_csc (csr_transpose sample_csr)"
proof -
  show "wf_csr sample_csr"
    by (auto simp: sample_csr_def wf_csr_def wf_compressed_def wf_tvec_def wf_ptrs_def indices_below_def less_2_cases_iff)
  then show "wf_csc (csr_transpose sample_csr)" by (rule wf_transpose)
qed

lemma cpu_switch_agrees_witness:
  "(\<exists>c. csr_to_csc sample_csr = Some (Inr c) \<and>
      cpu_csr_to_csc 0 F32 (csr_ptrs sample_csr) (csr_indices sample_csr) (csr_values sample_csr) (2, 3) =
        Some (Inr (csc_ptrs c, csc_indices c, csc_values c)))"
  using cpu_switch_agrees[OF sample_csr_wf(1) _ sample_csr_wf(2), of 0 0]
  by (simp add: sample_csr_def csr_transpose_def)

end
