(* ===== verification/Sparse_Dense.thy ===== *)
theory Sparse_Dense
  imports Sparse_Switch
begin

text \<open>
  Sparse tensors as a whole (\<open>src/sparse/tensor\<close>): construction from slices, conversion to any format,
  transposition, and the dense tensor a sparse one stands for.
\<close>

section \<open>Conversion to any format\<close>

fun converted :: "sparse_format \<Rightarrow> 'a sparse \<Rightarrow> 'a entry list" where
  "converted CSR (Csr d) = csr_entries d"
| "converted CSC (Csc d) = csc_entries d"
| "converted COO m = sp_entries m"
| "converted CSR m = sort_key position (sp_entries m)"
| "converted CSC m = sort_key position' (sp_entries m)"

lemma to_coo_eq:
  "wf_sparse m \<Longrightarrow> sp_dtype m \<noteq> Bool \<Longrightarrow> \<exists>d. to_coo m = Some (Inr d) \<and> wf_coo d \<and> coo_shape d = sp_shape m \<and>
     tv_dtype (coo_values d) = sp_dtype m \<and> coo_entries d = sp_entries m"
  by (cases m) (auto simp: sp_dtype_def dest: csr_to_coo_eq csc_to_coo_eq)

lemma to_format_eq:
  assumes "wf_sparse m" and "sp_dtype m \<noteq> Bool"
  shows "\<exists>r. to_format f m = Some (Inr r) \<and> wf_sparse r \<and> sp_shape r = sp_shape m \<and> sp_dtype r = sp_dtype m \<and>
    sp_entries r = converted f m"
proof (cases f)
  case COO
  from to_coo_eq[OF assms] obtain d where "to_coo m = Some (Inr d)" "wf_coo d" "coo_shape d = sp_shape m"
    "tv_dtype (coo_values d) = sp_dtype m" "coo_entries d = sp_entries m" by blast
  then show ?thesis using COO by (intro exI[of _ "Coo d"]) (cases m; simp add: sp_dtype_def)
next
  case CSR
  have "\<exists>d. to_csr m = Some (Inr d) \<and> wf_csr d \<and> csr_shape d = sp_shape m \<and>
      tv_dtype (csr_values d) = sp_dtype m \<and> csr_entries d = converted CSR m"
    using assms by (cases m) (auto simp: sp_dtype_def dest: coo_to_csr_eq csc_to_csr_eq)
  then obtain d where "to_csr m = Some (Inr d)" "wf_csr d" "csr_shape d = sp_shape m"
      "tv_dtype (csr_values d) = sp_dtype m" "csr_entries d = converted CSR m" by blast
  then show ?thesis using CSR by (intro exI[of _ "Csr d"]) (simp add: sp_dtype_def)
next
  case CSC
  have "\<exists>d. to_csc m = Some (Inr d) \<and> wf_csc d \<and> csc_shape d = sp_shape m \<and>
      tv_dtype (csc_values d) = sp_dtype m \<and> csc_entries d = converted CSC m"
    using assms by (cases m) (auto simp: sp_dtype_def dest: coo_to_csc_eq csr_to_csc_eq)
  then obtain d where "to_csc m = Some (Inr d)" "wf_csc d" "csc_shape d = sp_shape m"
      "tv_dtype (csc_values d) = sp_dtype m" "csc_entries d = converted CSC m" by blast
  then show ?thesis using CSC by (intro exI[of _ "Csc d"]) (simp add: sp_dtype_def)
qed

lemma mset_converted: "mset (converted f m) = mset (sp_entries m)"
  by (cases f; cases m) simp_all

lemma sp_transpose_eq:
  assumes "wf_sparse m"
  shows "wf_sparse (sp_transpose m) \<and> sp_shape (sp_transpose m) = (snd (sp_shape m), fst (sp_shape m)) \<and>
    sp_entries (sp_transpose m) = map swap_entry (sp_entries m) \<and> sp_entries (sp_transpose (sp_transpose m)) = sp_entries m"
proof (cases m)
  case (Coo d)
  with assms have "coo_entries (coo_transpose d) = map swap_entry (coo_entries d)"
    "coo_entries (coo_transpose (coo_transpose d)) = map swap_entry (coo_entries (coo_transpose d))"
    by (simp_all add: coo_entries_transpose wf_transpose)
  then show ?thesis using Coo assms wf_transpose(1) by (simp add: coo_transpose_def)
next
  case (Csr d)
  have "csr_entries (csc_transpose (csr_transpose d)) = csr_entries d" by (simp add: entries_transpose)
  then show ?thesis using Csr assms wf_transpose(2) by (simp add: entries_transpose(1)) (simp add: csr_transpose_def)
next
  case (Csc d)
  have "csc_entries (csr_transpose (csc_transpose d)) = csc_entries d" by (simp add: entries_transpose)
  then show ?thesis using Csc assms wf_transpose(3) by (simp add: entries_transpose(2)) (simp add: csc_transpose_def)
qed

section \<open>The dense tensor\<close>

text \<open>The last entry stored at a position decides, a position without an entry is zero.\<close>

definition entry_at :: "'a \<Rightarrow> 'a entry list \<Rightarrow> nat \<Rightarrow> nat \<Rightarrow> 'a" where
  "entry_at zero es r c = (let l = filter (\<lambda>e. position e = (int r, int c)) es in if l = [] then zero else snd (snd (last l)))"

definition dense_of :: "'a \<Rightarrow> nat \<Rightarrow> nat \<Rightarrow> 'a entry list \<Rightarrow> 'a list" where
  "dense_of zero nrows ncols es = map (\<lambda>p. entry_at zero es (p div ncols) (p mod ncols)) [0..<nrows * ncols]"

lemma entry_at_sort: "entry_at zero (sort_key position es) r c = entry_at zero es r c"
  "entry_at zero (sort_key position' es) r c = entry_at zero es r c"
proof -
  have "filter (\<lambda>e. position' e = (int c, int r)) xs = filter (\<lambda>e. position e = (int r, int c)) xs" for xs :: "'a entry list"
    by (auto intro!: filter_cong)
  with sort_key_stable[of position "(int r, int c)" es] sort_key_stable[of position' "(int c, int r)" es]
  show "entry_at zero (sort_key position es) r c = entry_at zero es r c"
    "entry_at zero (sort_key position' es) r c = entry_at zero es r c"
    by (simp_all only: entry_at_def)
qed

lemma entry_at_snoc:
  "entry_at zero (es @ [e]) r c = (if position e = (int r, int c) then snd (snd e) else entry_at zero es r c)"
  by (simp add: entry_at_def Let_def)

lemma dense_loop:
  assumes "\<forall>e \<in> set es. 0 \<le> fst e \<and> fst e < int nrows \<and> 0 \<le> fst (snd e) \<and> fst (snd e) < int ncols"
    and "length is = length es" and n: "nrows < 2 ^ 63" "ncols < 2 ^ 63" "nrows * ncols < 2 ^ 64"
  shows "foldR (dense_step nrows ncols) (zip is (zip (map (\<lambda>e. snd (snd e)) es) (zip (map fst es) (map (\<lambda>e. fst (snd e)) es))))
      (replicate (nrows * ncols) zero) = Some (Inr (dense_of zero nrows ncols es))"
  using assms(1,2)
proof (induction es arbitrary: "is" rule: rev_induct)
  case Nil
  have "dense_of zero nrows ncols [] = replicate (nrows * ncols) zero"
    by (intro nth_equalityI) (simp_all add: dense_of_def entry_at_def)
  then show ?case by simp
next
  case (snoc e es)
  obtain js j where "is": "is = js @ [j]" "length js = length es" using snoc.prems(2)
    by (cases "is" rule: rev_cases) auto
  let ?r = "nat (fst e)" and ?c = "nat (fst (snd e))"
  have b: "0 \<le> fst e" "fst e < int nrows" "0 \<le> fst (snd e)" "fst (snd e) < int ncols" using snoc.prems(1) by auto
  then have rc: "?r < nrows" "?c < ncols" "as_usize (fst e) = ?r" "as_usize (fst (snd e)) = ?c"
    using n by (simp_all add: nat_less_iff)
  have p: "?r * ncols + ?c < nrows * ncols"
  proof -
    have "?r * ncols + ?c < Suc ?r * ncols" using rc by simp
    also have "\<dots> \<le> nrows * ncols" using rc(1) by (intro mult_le_mono1) simp
    finally show ?thesis .
  qed
  have "(dense_of zero nrows ncols es)[?r * ncols + ?c := snd (snd e)] = dense_of zero nrows ncols (es @ [e])"
  proof (rule nth_equalityI)
    fix q assume "q < length ((dense_of zero nrows ncols es)[?r * ncols + ?c := snd (snd e)])"
    then have q: "q < nrows * ncols" by (simp add: dense_of_def)
    have "position e = (int (q div ncols), int (q mod ncols)) \<longleftrightarrow> q = ?r * ncols + ?c"
    proof
      assume "position e = (int (q div ncols), int (q mod ncols))"
      then have "?r = q div ncols" "?c = q mod ncols" by simp_all
      then show "q = ?r * ncols + ?c" by simp
    next
      assume "q = ?r * ncols + ?c"
      then have "q div ncols = ?r" "q mod ncols = ?c" using rc(2) by simp_all
      then show "position e = (int (q div ncols), int (q mod ncols))" using b by simp
    qed
    then show "(dense_of zero nrows ncols es)[?r * ncols + ?c := snd (snd e)] ! q = dense_of zero nrows ncols (es @ [e]) ! q"
      using q p by (auto simp: dense_of_def entry_at_snoc nth_list_update)
  qed (simp add: dense_of_def)
  moreover have "foldR (dense_step nrows ncols) (zip js (zip (map (\<lambda>e. snd (snd e)) es) (zip (map fst es) (map (\<lambda>e. fst (snd e)) es))))
      (replicate (nrows * ncols) zero) = Some (Inr (dense_of zero nrows ncols es))"
    using snoc.prems(1) "is"(2) by (intro snoc.IH) auto
  moreover have "length (dense_of zero nrows ncols es) = nrows * ncols" by (simp add: dense_of_def)
  moreover have "zip is (zip (map (\<lambda>e. snd (snd e)) (es @ [e])) (zip (map fst (es @ [e])) (map (\<lambda>e. fst (snd e)) (es @ [e])))) =
      zip js (zip (map (\<lambda>e. snd (snd e)) es) (zip (map fst es) (map (\<lambda>e. fst (snd e)) es))) @ [(j, snd (snd e), fst e, fst (snd e))]"
    using "is" by simp
  moreover have "wrapped (?r * ncols + ?c) = ?r * ncols + ?c" using p n(3) by (intro wrapped_id) linarith
  ultimately show ?case using rc p by (simp only: foldR_snoc) (simp add: dense_step_def Let_def)
qed

lemma entries_columns:
  assumes "length vs = length rs" and "length cs = length rs"
  shows "map (\<lambda>e. snd (snd e)) (zip rs (zip cs vs)) = vs" "map fst (zip rs (zip cs vs)) = rs" "map (\<lambda>e. fst (snd e)) (zip rs (zip cs vs)) = cs"
  using assms by (auto intro!: nth_equalityI)

lemma length_lines: "wf_compressed n k p i v \<Longrightarrow> length (lines_of n (tv_elems p) (tv_elems i) (tv_elems v)) = length (tv_elems v)"
  by (rule lines_of_zip(2)) (auto simp: wf_compressed_def Let_def wf_tvec_def)

lemma to_dense_eq:
  assumes wf: "wf_sparse m" and nb: "sp_dtype m \<noteq> Bool" and small: "fst (sp_shape m) * snd (sp_shape m) < 2 ^ 64"
  shows "to_dense zero m = Some (Inr \<lparr>tv_dtype = sp_dtype m, tv_shape = [fst (sp_shape m), snd (sp_shape m)],
    tv_elems = dense_of zero (fst (sp_shape m)) (snd (sp_shape m)) (sp_entries m)\<rparr>)"
proof -
  obtain nrows ncols where shp: "sp_shape m = (nrows, ncols)" by (cases "sp_shape m")
  have nk: "nrows * ncols < 2 ^ 64" using small shp by simp
  have len: "length (dense_of zero nrows ncols es) = nrows * ncols" for es by (simp add: dense_of_def)
  from to_coo_eq[OF wf nb] obtain d where d: "to_coo m = Some (Inr d)" "wf_coo d" "coo_shape d = sp_shape m"
    "tv_dtype (coo_values d) = sp_dtype m" "coo_entries d = sp_entries m" by blast
  show ?thesis
  proof (cases "sp_nnz m = 0")
    case True
    have "numel (sp_values m) = length (sp_entries m)"
    proof (cases m)
      case (Coo d)
      then show ?thesis using wf by (simp add: numel_def wf_coo_def Let_def wf_tvec_def coo_entries_def)
    next
      case (Csr d)
      then have "wf_csr d" using wf by simp
      then have c: "wf_compressed (fst (csr_shape d)) (snd (csr_shape d)) (csr_ptrs d) (csr_indices d) (csr_values d)"
        by (simp add: wf_csr_def)
      from length_lines[OF c] have "length (csr_entries d) = length (tv_elems (csr_values d))" by (simp add: csr_entries_def)
      moreover have "tv_shape (csr_values d) = [length (tv_elems (csr_values d))]" "length (tv_elems (csr_values d)) < 2 ^ 63"
        using c by (simp_all add: wf_compressed_def Let_def)
      ultimately show ?thesis using Csr by (simp add: numel_def)
    next
      case (Csc d)
      then have "wf_csc d" using wf by simp
      then have c: "wf_compressed (snd (csc_shape d)) (fst (csc_shape d)) (csc_ptrs d) (csc_indices d) (csc_values d)"
        by (simp add: wf_csc_def)
      from length_lines[OF c] have "length (csc_entries d) = length (tv_elems (csc_values d))" by (simp add: csc_entries_def)
      moreover have "tv_shape (csc_values d) = [length (tv_elems (csc_values d))]" "length (tv_elems (csc_values d)) < 2 ^ 63"
        using c by (simp_all add: wf_compressed_def Let_def)
      ultimately show ?thesis using Csc by (simp add: numel_def)
    qed
    then have "sp_entries m = []" using True by (simp add: sp_nnz_def)
    moreover have "dense_of zero nrows ncols [] = replicate (nrows * ncols) zero"
      by (intro nth_equalityI) (simp_all add: dense_of_def entry_at_def)
    ultimately show ?thesis using True nb shp nk by (simp add: to_dense_def Let_def from_slice_def)
  next
    case False
    let ?rs = "tv_elems (coo_rows d)" and ?cs = "tv_elems (coo_cols d)" and ?vs = "tv_elems (coo_values d)"
    have l: "length ?vs = length ?rs" "length ?cs = length ?rs" and n: "nrows < 2 ^ 63" "ncols < 2 ^ 63"
      and rng: "indices_below nrows ?rs" "indices_below ncols ?cs"
      using d(2) by (simp_all add: wf_coo_def Let_def wf_tvec_def d(3) shp)
    note cols = entries_columns[OF l]
    have bnd: "\<forall>e \<in> set (coo_entries d). 0 \<le> fst e \<and> fst e < int nrows \<and> 0 \<le> fst (snd e) \<and> fst (snd e) < int ncols"
    proof
      fix e assume "e \<in> set (coo_entries d)"
      then have "fst e \<in> set (map fst (coo_entries d))" "fst (snd e) \<in> set (map (\<lambda>e. fst (snd e)) (coo_entries d))" by simp_all
      then have "fst e \<in> set ?rs" "fst (snd e) \<in> set ?cs" by (simp_all only: coo_entries_def cols)
      with rng show "0 \<le> fst e \<and> fst e < int nrows \<and> 0 \<le> fst (snd e) \<and> fst (snd e) < int ncols"
        by (simp add: indices_below_def)
    qed
    let ?es = "zip ?vs (zip ?rs ?cs)"
    have "length [0..<length ?es] = length (coo_entries d)" using l by (simp add: coo_entries_def)
    from dense_loop[OF bnd this n nk, of zero] have
      "foldR (dense_step nrows ncols) (zip [0..<length ?es] ?es) (replicate (nrows * ncols) zero) =
         Some (Inr (dense_of zero nrows ncols (sp_entries m)))"
      unfolding d(5)[symmetric] by (simp only: coo_entries_def cols)
    then show ?thesis
      using False nb d(1,3,4) shp len nk by (simp add: to_dense_def Let_def from_slice_def)
  qed
qed

lemma dense_of_converted: "dense_of zero n k (converted f m) = dense_of zero n k (sp_entries m)"
proof -
  have "entry_at zero (converted f m) r c = entry_at zero (sp_entries m) r c" for r c
    by (cases f; cases m) (simp_all add: entry_at_sort)
  then show ?thesis by (simp add: dense_of_def)
qed

section \<open>Construction\<close>

lemma check_index_ok: "fits_isize i \<Longrightarrow> n < 2 ^ 63 \<Longrightarrow> check_index n i = Inr u \<longleftrightarrow> 0 \<le> i \<and> i < int n"
  by (auto simp: check_index_def fits_isize_def)

lemma foldE_unit: "foldE f xs () = Inr () \<longleftrightarrow> (\<forall>x \<in> set xs. f x () = Inr ())"
proof (induction xs)
  case (Cons x xs)
  then show ?case by (cases "f x ()") simp_all
qed simp

lemma foldE_check_index:
  "\<forall>i \<in> set is. fits_isize i \<Longrightarrow> n < 2 ^ 63 \<Longrightarrow> foldE (\<lambda>i _. check_index n i) is () = Inr () \<longleftrightarrow> indices_below n is"
  unfolding foldE_unit indices_below_def by (simp add: check_index_ok)

lemma foldE_check_pairs:
  assumes "\<forall>i \<in> set rs. fits_isize i" "\<forall>i \<in> set cs. fits_isize i" and "length rs = length cs" and "n < 2 ^ 63" "k < 2 ^ 63"
  shows "foldE (\<lambda>(r, c) _. case check_index n r of Inl e \<Rightarrow> Inl e | Inr u \<Rightarrow> check_index k c) (zip rs cs) () = Inr () \<longleftrightarrow>
    indices_below n rs \<and> indices_below k cs"
proof -
  have "(\<forall>x \<in> set (zip rs cs). (case x of (r, c) \<Rightarrow> \<lambda>_. case check_index n r of Inl e \<Rightarrow> Inl e | Inr u \<Rightarrow> check_index k c) () = Inr ()) \<longleftrightarrow>
      (\<forall>x \<in> set (zip rs cs). 0 \<le> fst x \<and> fst x < int n \<and> 0 \<le> snd x \<and> snd x < int k)"
  proof (rule ball_cong[OF refl])
    fix x assume "x \<in> set (zip rs cs)"
    moreover obtain r c where x: "x = (r, c)" by (cases x)
    ultimately have "r \<in> set rs" "c \<in> set cs" by (auto dest: set_zip_leftD set_zip_rightD)
    then have "check_index n r = Inr () \<longleftrightarrow> 0 \<le> r \<and> r < int n" "check_index k c = Inr () \<longleftrightarrow> 0 \<le> c \<and> c < int k"
      using assms by (simp_all add: check_index_ok)
    then show "(case x of (r, c) \<Rightarrow> \<lambda>_. case check_index n r of Inl e \<Rightarrow> Inl e | Inr u \<Rightarrow> check_index k c) () = Inr () \<longleftrightarrow>
        0 \<le> fst x \<and> fst x < int n \<and> 0 \<le> snd x \<and> snd x < int k"
      by (cases "check_index n r") (auto simp: x)
  qed
  also have "\<dots> \<longleftrightarrow> (\<forall>x \<in> set (map fst (zip rs cs)). 0 \<le> x \<and> x < int n) \<and> (\<forall>x \<in> set (map snd (zip rs cs)). 0 \<le> x \<and> x < int k)"
    by auto
  finally show ?thesis using assms(3) by (simp add: foldE_unit indices_below_def)
qed

lemma coo_from_slices_Inr:
  assumes "\<forall>i \<in> set rs \<union> set cs. fits_isize i" and "n < 2 ^ 63" "k < 2 ^ 63" "length vs < 2 ^ 63"
  shows "coo_from_slices dt rs cs vs (n, k) = Inr m \<longleftrightarrow>
    length rs = length vs \<and> length cs = length vs \<and> indices_below n rs \<and> indices_below k cs \<and>
    m = \<lparr>coo_rows = \<lparr>tv_dtype = I64, tv_shape = [length vs], tv_elems = rs\<rparr>,
      coo_cols = \<lparr>tv_dtype = I64, tv_shape = [length vs], tv_elems = cs\<rparr>,
      coo_values = \<lparr>tv_dtype = dt, tv_shape = [length vs], tv_elems = vs\<rparr>, coo_shape = (n, k), coo_sorted = False\<rparr>"
proof (cases "length rs = length vs \<and> length cs = length vs")
  case True
  let ?chk = "foldE (\<lambda>(r, c) _. case check_index n r of Inl e \<Rightarrow> Inl e | Inr u \<Rightarrow> check_index k c) (zip rs cs) ()"
  have "?chk = Inr () \<longleftrightarrow> indices_below n rs \<and> indices_below k cs"
    using True assms by (intro foldE_check_pairs) auto
  then show ?thesis using True assms(4)
    by (cases ?chk) (auto simp: coo_from_slices_def[where shp = "(n, k)", unfolded fst_conv snd_conv]
        from_slice_def coo_new_def numel_def Let_def)
qed (auto simp: coo_from_slices_def)

lemma compressed_from_slices_Inr:
  assumes "\<forall>i \<in> set ps \<union> set is. fits_isize i" and "m < 2 ^ 63" and "length vs < 2 ^ 63" and "n < 2 ^ 63"
  shows "compressed_from_slices n m dt ps is vs = Inr r \<longleftrightarrow>
    length ps = n + 1 \<and> length is = length vs \<and> ps ! 0 = 0 \<and> ps ! n = int (length vs) \<and> indices_below m is \<and>
    r = (\<lparr>tv_dtype = I64, tv_shape = [n + 1], tv_elems = ps\<rparr>, \<lparr>tv_dtype = I64, tv_shape = [length vs], tv_elems = is\<rparr>,
      \<lparr>tv_dtype = dt, tv_shape = [length vs], tv_elems = vs\<rparr>)"
proof (cases "length ps = n + 1 \<and> length is = length vs")
  case True
  have "ps ! n \<in> set ps" using True by simp
  then have "fits_isize (ps ! n)" using assms(1) by blast
  then have last: "as_usize (ps ! n) = length vs \<longleftrightarrow> ps ! n = int (length vs)"
  proof (cases "0 \<le> ps ! n")
    case False
    then have "2 ^ 63 \<le> as_usize (ps ! n)"
      using \<open>fits_isize (ps ! n)\<close> by (intro as_usize_negative) (simp_all add: fits_isize_def)
    then show ?thesis using False assms(3) by simp
  qed (use \<open>fits_isize (ps ! n)\<close> in \<open>auto simp: fits_isize_def\<close>)
  have "foldE (\<lambda>i _. check_index m i) is () = Inr () \<longleftrightarrow> indices_below m is"
    using assms by (intro foldE_check_index) auto
  then show ?thesis using True last assms(3,4)
    by (cases "foldE (\<lambda>i _. check_index m i) is ()") (auto simp: compressed_from_slices_def from_slice_def)
qed (auto simp: compressed_from_slices_def)

lemma typed_csr:
  assumes "\<forall>i \<in> set ps \<union> set is. fits_isize i" and "n < 2 ^ 63" "k < 2 ^ 63" "length vs < 2 ^ 63"
  shows "((\<exists>m. csr_from_slices dt ps is vs (n, k) = Inr m) \<longleftrightarrow>
      length ps = n + 1 \<and> length is = length vs \<and> ps ! 0 = 0 \<and> ps ! n = int (length vs) \<and> indices_below k is) \<and>
    (\<forall>m. csr_from_slices dt ps is vs (n, k) = Inr m \<longrightarrow> csr_shape m = (n, k) \<and> tv_dtype (csr_values m) = dt \<and>
      csr_entries m = lines_of n ps is vs \<and> (wf_csr m \<longleftrightarrow> (\<forall>i < n. ps ! i \<le> ps ! Suc i)))" (is ?csr)
    and "((\<exists>m. csc_from_slices dt ps is vs (k, n) = Inr m) \<longleftrightarrow>
      length ps = n + 1 \<and> length is = length vs \<and> ps ! 0 = 0 \<and> ps ! n = int (length vs) \<and> indices_below k is) \<and>
    (\<forall>m. csc_from_slices dt ps is vs (k, n) = Inr m \<longrightarrow> csc_shape m = (k, n) \<and> tv_dtype (csc_values m) = dt \<and>
      csc_entries m = map swap_entry (lines_of n ps is vs) \<and> (wf_csc m \<longleftrightarrow> (\<forall>i < n. ps ! i \<le> ps ! Suc i)))" (is ?csc)
proof -
  note c = compressed_from_slices_Inr[OF assms(1,3,4,2), of dt]
  let ?r = "compressed_from_slices n k dt ps is vs"
  show ?csr
  proof (cases ?r)
    case (Inr r)
    with c have "compressed_from_slices n k dt ps is vs = Inr r" by simp
    from this[unfolded c] show ?thesis using Inr assms(2-4)
      by (auto simp: csr_from_slices_def csr_new_def compressed_check_def numel_def csr_entries_def wf_csr_def
          wf_compressed_def wf_tvec_def wf_ptrs_def)
  qed (use c in \<open>auto simp: csr_from_slices_def\<close>)
  show ?csc
  proof (cases ?r)
    case (Inr r)
    with c have "compressed_from_slices n k dt ps is vs = Inr r" by simp
    from this[unfolded c] show ?thesis using Inr assms(2-4)
      by (auto simp: csc_from_slices_def csc_new_def compressed_check_def numel_def csc_entries_def wf_csc_def
          wf_compressed_def wf_tvec_def wf_ptrs_def)
  qed (use c in \<open>auto simp: csc_from_slices_def\<close>)
qed

lemma typed_coo:
  assumes "\<forall>i \<in> set rs \<union> set cs. fits_isize i" and "n < 2 ^ 63" "k < 2 ^ 63" "length vs < 2 ^ 63"
  shows "((\<exists>m. coo_from_slices dt rs cs vs (n, k) = Inr m) \<longleftrightarrow>
      length rs = length vs \<and> length cs = length vs \<and> indices_below n rs \<and> indices_below k cs) \<and>
    (\<forall>m. coo_from_slices dt rs cs vs (n, k) = Inr m \<longrightarrow> wf_coo m \<and> coo_shape m = (n, k) \<and>
      tv_dtype (coo_values m) = dt \<and> coo_entries m = zip rs (zip cs vs))"
  using assms(2-4) by (auto simp: coo_from_slices_Inr[OF assms] wf_coo_def wf_tvec_def coo_entries_def)

section \<open>The properties\<close>

text \<open>
  C33. Conversions. Any well-formed sparse tensor of a type other than \<open>Bool\<close> converts to any format without an
  error or a panic. The result is well-formed and has the same shape, type and entries: in the same order
  for coordinates or when the format does not change, sorted by row and column for CSR and by column
  and row for CSC, entries at the same position staying in their order and none being summed. It stands
  for the same dense tensor, in which the last entry at a position decides, when the number of elements of
  that tensor fits in 64 bits.
\<close>

theorem sparse_conversions_correct:
  assumes "wf_sparse m" and "sp_dtype m \<noteq> Bool"
  shows "\<exists>r. to_format f m = Some (Inr r) \<and> wf_sparse r \<and> sp_shape r = sp_shape m \<and> sp_dtype r = sp_dtype m \<and>
    sp_entries r = converted f m \<and> mset (sp_entries r) = mset (sp_entries m) \<and>
    (fst (sp_shape m) * snd (sp_shape m) < 2 ^ 64 \<longrightarrow> to_dense zero r = to_dense zero m \<and>
      to_dense zero m = Some (Inr \<lparr>tv_dtype = sp_dtype m, tv_shape = [fst (sp_shape m), snd (sp_shape m)],
        tv_elems = dense_of zero (fst (sp_shape m)) (snd (sp_shape m)) (sp_entries m)\<rparr>))"
proof -
  from to_format_eq[OF assms, of f] obtain r where r: "to_format f m = Some (Inr r)" "wf_sparse r" "sp_shape r = sp_shape m"
    "sp_dtype r = sp_dtype m" "sp_entries r = converted f m" by blast
  have "to_dense zero r = to_dense zero m" if "fst (sp_shape m) * snd (sp_shape m) < 2 ^ 64"
    using that to_dense_eq[OF r(2), of zero] to_dense_eq[OF assms, of zero] assms(2) r by (simp add: dense_of_converted)
  with r to_dense_eq[OF assms, of zero] show ?thesis by (intro exI[of _ r]) (simp add: mset_converted)
qed

lemma sparse_conversions_correct_witness:
  "\<exists>r. to_format COO (Csr sample_csr) = Some (Inr r) \<and> sp_entries r = [(0, 2, 2), (0, 0, 1), (1, 2, 3)] \<and>
    to_dense 0 r = Some (Inr \<lparr>tv_dtype = F32, tv_shape = [2, 3], tv_elems = [1, 0, 2, 0, 0, 3]\<rparr>)"
proof -
  have wf: "wf_sparse (Csr sample_csr)" "sp_dtype (Csr sample_csr) \<noteq> Bool"
    using sample_csr_wf by (simp_all add: sp_dtype_def sample_csr_def)
  have e: "converted COO (Csr sample_csr) = [(0, 2, 2), (0, 0, 1), (1, 2, 3)]"
    "to_dense 0 (Csr sample_csr) = Some (Inr \<lparr>tv_dtype = F32, tv_shape = [2, 3], tv_elems = [1, 0, 2, 0, 0, 3]\<rparr>)" by code_simp+
  from sparse_conversions_correct[OF wf, of COO 0] obtain r where
    "to_format COO (Csr sample_csr) = Some (Inr r)" "sp_entries r = converted COO (Csr sample_csr)"
    "fst (sp_shape (Csr sample_csr)) * snd (sp_shape (Csr sample_csr)) < 2 ^ 64 \<longrightarrow> to_dense 0 r = to_dense 0 (Csr sample_csr)" by blast
  moreover have "fst (sp_shape (Csr sample_csr)) * snd (sp_shape (Csr sample_csr)) < 2 ^ 64" by (simp add: sample_csr_def)
  ultimately show ?thesis unfolding e by blast
qed

text \<open>
  C35. Construction. From index vectors of \<open>i64\<close> values a coordinate matrix is built exactly when the
  lengths agree and every index is inside the shape, and a compressed one exactly when moreover the first
  pointer is zero and the last one the number of values; everything else is an error, never a panic. A
  coordinate matrix so built is well-formed and stores the given entries. A compressed one is well-formed
  exactly when its pointers also ascend, which the constructor does not look at. Transposing a
  well-formed matrix in any format gives a well-formed one with rows and columns exchanged.
\<close>

theorem sparse_constructors_typed:
  assumes "\<forall>i \<in> set rs \<union> set cs \<union> set ps \<union> set is. fits_isize i" and "n < 2 ^ 63" "k < 2 ^ 63" "length vs < 2 ^ 63"
  shows "((\<exists>m. coo_from_slices dt rs cs vs (n, k) = Inr m) \<longleftrightarrow>
      length rs = length vs \<and> length cs = length vs \<and> indices_below n rs \<and> indices_below k cs) \<and>
    (\<forall>m. coo_from_slices dt rs cs vs (n, k) = Inr m \<longrightarrow> wf_coo m \<and> coo_shape m = (n, k) \<and>
      tv_dtype (coo_values m) = dt \<and> coo_entries m = zip rs (zip cs vs)) \<and>
    ((\<exists>m. csr_from_slices dt ps is vs (n, k) = Inr m) \<longleftrightarrow>
      length ps = n + 1 \<and> length is = length vs \<and> ps ! 0 = 0 \<and> ps ! n = int (length vs) \<and> indices_below k is) \<and>
    (\<forall>m. csr_from_slices dt ps is vs (n, k) = Inr m \<longrightarrow> csr_shape m = (n, k) \<and> tv_dtype (csr_values m) = dt \<and>
      csr_entries m = lines_of n ps is vs \<and> (wf_csr m \<longleftrightarrow> (\<forall>i < n. ps ! i \<le> ps ! Suc i))) \<and>
    ((\<exists>m. csc_from_slices dt ps is vs (k, n) = Inr m) \<longleftrightarrow>
      length ps = n + 1 \<and> length is = length vs \<and> ps ! 0 = 0 \<and> ps ! n = int (length vs) \<and> indices_below k is) \<and>
    (\<forall>m. csc_from_slices dt ps is vs (k, n) = Inr m \<longrightarrow> csc_shape m = (k, n) \<and> tv_dtype (csc_values m) = dt \<and>
      csc_entries m = map swap_entry (lines_of n ps is vs) \<and> (wf_csc m \<longleftrightarrow> (\<forall>i < n. ps ! i \<le> ps ! Suc i))) \<and>
    (\<forall>m :: 'a sparse. wf_sparse m \<longrightarrow> wf_sparse (sp_transpose m) \<and> sp_shape (sp_transpose m) = (snd (sp_shape m), fst (sp_shape m)) \<and>
      sp_entries (sp_transpose m) = map swap_entry (sp_entries m) \<and> sp_entries (sp_transpose (sp_transpose m)) = sp_entries m)"
  using typed_coo[of rs cs n k vs dt] typed_csr[of ps "is" n k vs dt] assms sp_transpose_eq by auto

lemma sparse_constructors_typed_witness:
  "\<exists>m. csr_from_slices F32 [0, 5, 2] [0, 1] [7, 8 :: nat] (2, 3) = Inr m \<and> \<not> wf_csr m"
proof -
  have f: "\<forall>i \<in> set [] \<union> set [] \<union> set [0, 5, 2] \<union> set [0, 1 :: int]. fits_isize i" by (simp add: fits_isize_def)
  have b: "(2 :: nat) < 2 ^ 63" "(3 :: nat) < 2 ^ 63" "length [7, 8 :: nat] < 2 ^ 63" by simp_all
  have ok: "length [0, 5, 2 :: int] = 2 + 1 \<and> length [0, 1 :: int] = length [7, 8 :: nat] \<and> [0, 5, 2 :: int] ! 0 = 0 \<and>
      [0, 5, 2] ! 2 = int (length [7, 8 :: nat]) \<and> indices_below 3 [0, 1]" by (simp add: indices_below_def)
  have "\<exists>m. csr_from_slices F32 [0, 5, 2] [0, 1] [7, 8 :: nat] (2, 3) = Inr m"
    using sparse_constructors_typed[OF f b, of F32] ok by blast
  then obtain m where m: "csr_from_slices F32 [0, 5, 2] [0, 1] [7, 8 :: nat] (2, 3) = Inr m" ..
  with sparse_constructors_typed[OF f b, of F32] have "wf_csr m \<longleftrightarrow> (\<forall>i < 2. [0, 5, 2 :: int] ! i \<le> [0, 5, 2] ! Suc i)" by blast
  moreover have "\<not> (\<forall>i < 2. [0, 5, 2 :: int] ! i \<le> [0, 5, 2] ! Suc i)" by (auto intro!: exI[of _ 1])
  ultimately show ?thesis using m by blast
qed

end
