(* ===== verification/Sparse_Elementwise.thy ===== *)
theory Sparse_Elementwise
  imports Sparse_Conversions
begin

text \<open>
  Element-wise addition, subtraction, multiplication and division of sparse matrices: the merge
  routines of the CPU client (\<open>src/runtime/cpu/sparse/merge.rs\<close>), its operations built on them
  (\<open>high_level_ops.rs\<close>, \<open>sparse_highlevel.rs\<close>), and the methods of the matrix types that call
  them (\<open>src/sparse/*/elementwise\<close>, \<open>src/sparse/tensor/elementwise\<close>).

  All arithmetic goes through \<open>f64\<close>. The conversions of the element type and the \<open>f64\<close> operations are
  the fields of a record, and nothing is assumed of them, so what is proved holds for IEEE arithmetic with its
  rounding, infinities and NaNs. The record is the instance of the trait \<open>Element\<close> that \<open>dispatch_dtype\<close>
  selects, so it belongs to the element type of the operands.
\<close>

section \<open>Element types\<close>

record ('a, 'f) scalar =
  t_elem :: dtype
  to_f64 :: "'a \<Rightarrow> 'f"
  from_f64 :: "'f \<Rightarrow> 'a"
  t_zero :: 'a
  f_zero :: 'f
  f_add :: "'f \<Rightarrow> 'f \<Rightarrow> 'f"
  f_sub :: "'f \<Rightarrow> 'f \<Rightarrow> 'f"
  f_mul :: "'f \<Rightarrow> 'f \<Rightarrow> 'f"
  f_div :: "'f \<Rightarrow> 'f \<Rightarrow> 'f"
  f_neg :: "'f \<Rightarrow> 'f"
  f_above :: "'f \<Rightarrow> rat \<Rightarrow> bool" \<comment> \<open>the magnitude of the number exceeds the bound\<close>

definition zero_tolerance :: "nat \<Rightarrow> rat" where
  "zero_tolerance sz =
     (if sz = 8 then 1 / 10 ^ 15 else if sz = 4 then 1 / 10 ^ 7 else if sz = 2 then 1 / 10 ^ 3
      else if sz = 1 then 1 / 10 ^ 2 else 1 / 10 ^ 15)"

definition keeps :: "('a, 'f) scalar \<Rightarrow> 'a \<Rightarrow> bool" where
  "keeps T v = f_above T (to_f64 T v) (zero_tolerance (size_in_bytes (t_elem T)))"

section \<open>Merging compressed matrices\<close>

datatype merge_strategy = UnionMerge | IntersectionMerge

datatype op_semantics = Add | Subtract | Multiply | Divide

definition empty_result :: "dtype \<Rightarrow> nat \<Rightarrow> 'a parts res" where
  "empty_result dt n =
     bindR (Some (from_slice I64 (replicate (n + 1) 0) [n + 1])) (\<lambda>p.
       bindR (Some (from_slice I64 [] [0])) (\<lambda>i.
         bindR (Some (from_slice dt [] [0])) (\<lambda>v. Some (Inr (p, i, v)))))"

text \<open>\<open>None\<close>: both matrices have entries, go on. \<open>n\<close> is the number of rows (CSR) or columns (CSC).\<close>

definition handle_empty_compressed :: "('a, 'f) scalar \<Rightarrow> op_semantics \<Rightarrow> nat \<Rightarrow> 'a parts \<Rightarrow> 'a parts \<Rightarrow> 'a parts res option" where
  "handle_empty_compressed T sem n a b =
     (let a_nnz = numel (snd (snd a)); b_nnz = numel (snd (snd b))
      in if a_nnz = 0 \<and> b_nnz = 0 then Some (empty_result (t_elem T) n)
         else if a_nnz = 0 then
           (case sem of
              Add \<Rightarrow> Some (Some (Inr b))
            | Subtract \<Rightarrow>
                (let negated = map (\<lambda>v. from_f64 T (f_neg T (to_f64 T v))) (tv_elems (snd (snd b)))
                 in Some (bindR (Some (from_slice (t_elem T) negated [length negated])) (\<lambda>v. Some (Inr (fst b, fst (snd b), v)))))
            | Multiply \<Rightarrow> Some (empty_result (t_elem T) n)
            | Divide \<Rightarrow> Some (empty_result (t_elem T) n))
         else if b_nnz = 0 then
           (case sem of
              Add \<Rightarrow> Some (Some (Inr a))
            | Subtract \<Rightarrow> Some (Some (Inr a))
            | Multiply \<Rightarrow> Some (empty_result (t_elem T) n)
            | Divide \<Rightarrow> Some (Some (Inl (Internal ''Division by zero - B matrix is empty''))))
         else None)"

text \<open>Push an entry of the result unless its value is negligible.\<close>

definition push_entry :: "('a \<Rightarrow> bool) \<Rightarrow> int \<Rightarrow> 'a \<Rightarrow> int list \<times> 'a list \<Rightarrow> int list \<times> 'a list" where
  "push_entry keep k v out = (if keep v then (fst out @ [k], snd out @ [v]) else out)"

definition i64_max :: int where
  "i64_max = 2 ^ 63 - 1"

lemma nth_chk_in_range: "Some x = nth_chk xs i \<Longrightarrow> i < length xs"
  by (simp add: nth_chk_def split: if_splits)

text \<open>The two loops over one line; \<open>i\<close> and \<open>j\<close> run up to \<open>a_end\<close> and \<open>b_end\<close>.\<close>

function merge_union :: "('a \<Rightarrow> bool) \<Rightarrow> ('a \<Rightarrow> 'a \<Rightarrow> 'a) \<Rightarrow> ('a \<Rightarrow> 'a) \<Rightarrow> ('a \<Rightarrow> 'a) \<Rightarrow>
    int list \<Rightarrow> 'a list \<Rightarrow> nat \<Rightarrow> int list \<Rightarrow> 'a list \<Rightarrow> nat \<Rightarrow> nat \<Rightarrow> nat \<Rightarrow> int list \<times> 'a list \<Rightarrow> (int list \<times> 'a list) option" where
  "merge_union keep opr fa fb ai av a_end bi bv b_end i j out =
     (if i < a_end \<or> j < b_end then
        (case (if i < a_end then nth_chk ai i else Some i64_max, if j < b_end then nth_chk bi j else Some i64_max) of
           (Some a_col, Some b_col) \<Rightarrow>
             if a_col < b_col then
               (case nth_chk av i of None \<Rightarrow> None
                | Some v \<Rightarrow> merge_union keep opr fa fb ai av a_end bi bv b_end (i + 1) j (push_entry keep a_col (fa v) out))
             else if b_col < a_col then
               (case nth_chk bv j of None \<Rightarrow> None
                | Some v \<Rightarrow> merge_union keep opr fa fb ai av a_end bi bv b_end i (j + 1) (push_entry keep b_col (fb v) out))
             else
               (case (nth_chk av i, nth_chk bv j) of
                  (Some v, Some w) \<Rightarrow>
                    merge_union keep opr fa fb ai av a_end bi bv b_end (i + 1) (j + 1) (push_entry keep a_col (opr v w) out)
                | _ \<Rightarrow> None)
         | _ \<Rightarrow> None)
      else Some out)"
  by pat_completeness auto
termination
  by (relation "measure (\<lambda>(keep, opr, fa, fb, ai, av, a_end, bi, bv, b_end, i, j, out). (length av - i) + (length bv - j))")
    (auto dest!: nth_chk_in_range nth_chk_in_range[OF sym])

function merge_intersection :: "('a \<Rightarrow> bool) \<Rightarrow> ('a \<Rightarrow> 'a \<Rightarrow> 'a) \<Rightarrow>
    int list \<Rightarrow> 'a list \<Rightarrow> nat \<Rightarrow> int list \<Rightarrow> 'a list \<Rightarrow> nat \<Rightarrow> nat \<Rightarrow> nat \<Rightarrow> int list \<times> 'a list \<Rightarrow> (int list \<times> 'a list) option" where
  "merge_intersection keep opr ai av a_end bi bv b_end i j out =
     (if i < a_end \<and> j < b_end then
        (case (nth_chk ai i, nth_chk bi j) of
           (Some a_col, Some b_col) \<Rightarrow>
             if a_col < b_col then merge_intersection keep opr ai av a_end bi bv b_end (i + 1) j out
             else if b_col < a_col then merge_intersection keep opr ai av a_end bi bv b_end i (j + 1) out
             else
               (case (nth_chk av i, nth_chk bv j) of
                  (Some v, Some w) \<Rightarrow>
                    merge_intersection keep opr ai av a_end bi bv b_end (i + 1) (j + 1) (push_entry keep a_col (opr v w) out)
                | _ \<Rightarrow> None)
         | _ \<Rightarrow> None)
      else Some out)"
  by pat_completeness auto
termination
  by (relation "measure (\<lambda>(keep, opr, ai, av, a_end, bi, bv, b_end, i, j, out). (a_end - i) + (b_end - j))") auto

declare merge_union.simps [simp del] merge_intersection.simps [simp del]

text \<open>The loop over the lines, with the body of a line as a parameter, and the three vectors of the result.\<close>

definition merge_lines :: "(int list \<Rightarrow> 'a list \<Rightarrow> nat \<Rightarrow> int list \<Rightarrow> 'a list \<Rightarrow> nat \<Rightarrow> nat \<Rightarrow> nat \<Rightarrow> int list \<times> 'a list \<Rightarrow> (int list \<times> 'a list) option) \<Rightarrow>
    nat \<Rightarrow> 'a parts \<Rightarrow> 'a parts \<Rightarrow> (int list \<times> int list \<times> 'a list) option" where
  "merge_lines line_loop n a b = (case (a, b) of ((ap, ai, av), (bp, bi, bv)) \<Rightarrow>
     foldM (\<lambda>line (ptrs, out). do {
       a_start \<leftarrow> nth_chk (tv_elems ap) line;
       a_end \<leftarrow> nth_chk (tv_elems ap) (line + 1);
       b_start \<leftarrow> nth_chk (tv_elems bp) line;
       b_end \<leftarrow> nth_chk (tv_elems bp) (line + 1);
       out' \<leftarrow> line_loop (tv_elems ai) (tv_elems av) (as_usize a_end) (tv_elems bi) (tv_elems bv) (as_usize b_end)
         (as_usize a_start) (as_usize b_start) out;
       Some (ptrs @ [int (length (fst out'))], out') }) [0..<n] ([0], [], []))"

definition merge_parts :: "dtype \<Rightarrow> nat \<Rightarrow> int list \<times> int list \<times> 'a list \<Rightarrow> 'a parts res" where
  "merge_parts dt n out = (case out of (ptrs, indices, values) \<Rightarrow>
     bindR (Some (from_slice I64 ptrs [n + 1])) (\<lambda>p.
       bindR (Some (from_slice I64 indices [length indices])) (\<lambda>i.
         bindR (Some (from_slice dt values [length values])) (\<lambda>v. Some (Inr (p, i, v))))))"

definition merge_compressed :: "('a, 'f) scalar \<Rightarrow> merge_strategy \<Rightarrow> op_semantics \<Rightarrow> ('a \<Rightarrow> 'a \<Rightarrow> 'a) \<Rightarrow> ('a \<Rightarrow> 'a) \<Rightarrow> ('a \<Rightarrow> 'a) \<Rightarrow>
    nat \<Rightarrow> 'a parts \<Rightarrow> 'a parts \<Rightarrow> 'a parts res" where
  "merge_compressed T strategy sem opr fa fb n a b =
     (case handle_empty_compressed T sem n a b of Some r \<Rightarrow> r
      | None \<Rightarrow> Option.bind
          (merge_lines (case strategy of UnionMerge \<Rightarrow> merge_union (keeps T) opr fa fb
             | IntersectionMerge \<Rightarrow> merge_intersection (keeps T) opr) n a b)
          (merge_parts (t_elem T) n))"

definition merge_csr_impl :: "('a, 'f) scalar \<Rightarrow> merge_strategy \<Rightarrow> op_semantics \<Rightarrow> ('a \<Rightarrow> 'a \<Rightarrow> 'a) \<Rightarrow> ('a \<Rightarrow> 'a) \<Rightarrow> ('a \<Rightarrow> 'a) \<Rightarrow>
    'a parts \<Rightarrow> 'a parts \<Rightarrow> nat \<times> nat \<Rightarrow> 'a parts res" where
  "merge_csr_impl T strategy sem opr fa fb a b shp = merge_compressed T strategy sem opr fa fb (fst shp) a b"

definition merge_csc_impl :: "('a, 'f) scalar \<Rightarrow> merge_strategy \<Rightarrow> op_semantics \<Rightarrow> ('a \<Rightarrow> 'a \<Rightarrow> 'a) \<Rightarrow> ('a \<Rightarrow> 'a) \<Rightarrow> ('a \<Rightarrow> 'a) \<Rightarrow>
    'a parts \<Rightarrow> 'a parts \<Rightarrow> nat \<times> nat \<Rightarrow> 'a parts res" where
  "merge_csc_impl T strategy sem opr fa fb a b shp = merge_compressed T strategy sem opr fa fb (snd shp) a b"

section \<open>Merging coordinate matrices\<close>

text \<open>An entry tagged with its source, \<open>True\<close> for the left matrix.\<close>

type_synonym 'a tagged = "(int \<times> int) \<times> 'a \<times> bool"

definition emit :: "('a \<Rightarrow> bool) \<Rightarrow> int \<times> int \<Rightarrow> 'a \<Rightarrow> 'a entry list" where
  "emit keep p v = (if keep v then [(fst p, snd p, v)] else [])"

text \<open>The value of a finished position, and the scan over the sorted entries with the current position.\<close>

definition final_val :: "('a \<Rightarrow> 'a) \<Rightarrow> ('a \<Rightarrow> 'a) \<Rightarrow> 'a \<Rightarrow> bool \<Rightarrow> bool \<Rightarrow> 'a" where
  "final_val fa fb v from_a merged = (if merged then v else if from_a then fa v else fb v)"

fun coo_scan :: "('a \<Rightarrow> bool) \<Rightarrow> ('a \<Rightarrow> 'a \<Rightarrow> 'a) \<Rightarrow> ('a \<Rightarrow> 'a) \<Rightarrow> ('a \<Rightarrow> 'a) \<Rightarrow> 'a tagged list \<Rightarrow> int \<times> int \<Rightarrow> 'a \<Rightarrow> bool \<Rightarrow> bool \<Rightarrow>
    'a entry list" where
  "coo_scan keep opr fa fb [] p v from_a merged = emit keep p (final_val fa fb v from_a merged)"
| "coo_scan keep opr fa fb ((q, w, s) # ts) p v from_a merged =
     (if q = p then coo_scan keep opr fa fb ts p (opr v w) from_a True
      else emit keep p (final_val fa fb v from_a merged) @ coo_scan keep opr fa fb ts q w s False)"

definition coo_parts :: "dtype \<Rightarrow> 'a entry list \<Rightarrow> 'a parts res" where
  "coo_parts dt es =
     bindR (Some (from_slice I64 (map fst es) [length es])) (\<lambda>r.
       bindR (Some (from_slice I64 (map (\<lambda>e. fst (snd e)) es) [length es])) (\<lambda>c.
         bindR (Some (from_slice dt (map (\<lambda>e. snd (snd e)) es) [length es])) (\<lambda>v. Some (Inr (r, c, v)))))"

text \<open>\<open>push\<close> reads the three vectors at the same index, up to the number of rows.\<close>

definition tag_entries :: "bool \<Rightarrow> 'a parts \<Rightarrow> 'a tagged list option" where
  "tag_entries s a = (case a of (rows, cols, values) \<Rightarrow>
     if length (tv_elems cols) < length (tv_elems rows) \<or> length (tv_elems values) < length (tv_elems rows) then None
     else Some (map (\<lambda>i. ((tv_elems rows ! i, tv_elems cols ! i), tv_elems values ! i, s)) [0..<length (tv_elems rows)]))"

definition map_values :: "dtype \<Rightarrow> ('a \<Rightarrow> 'a) \<Rightarrow> 'a parts \<Rightarrow> 'a parts res" where
  "map_values dt f a = (case a of (rows, cols, values) \<Rightarrow>
     bindR (Some (from_slice dt (map f (tv_elems values)) [length (tv_elems values)])) (\<lambda>v. Some (Inr (rows, cols, v))))"

definition merge_coo_impl :: "('a, 'f) scalar \<Rightarrow> ('a \<Rightarrow> 'a \<Rightarrow> 'a) \<Rightarrow> ('a \<Rightarrow> 'a) \<Rightarrow> ('a \<Rightarrow> 'a) \<Rightarrow> 'a parts \<Rightarrow> 'a parts \<Rightarrow> 'a parts res" where
  "merge_coo_impl T opr fa fb a b =
     (let a_nnz = numel (snd (snd a)); b_nnz = numel (snd (snd b))
      in if a_nnz = 0 \<and> b_nnz = 0 then coo_parts (t_elem T) []
         else if a_nnz = 0 then map_values (t_elem T) fb b
         else if b_nnz = 0 then map_values (t_elem T) fa a
         else do {
           ta \<leftarrow> tag_entries True a;
           tb \<leftarrow> tag_entries False b;
           coo_parts (t_elem T)
             (case sort_key fst (ta @ tb) of [] \<Rightarrow> []
              | (p, v, s) # ts \<Rightarrow> coo_scan (keeps T) opr fa fb ts p v s False) })"

text \<open>The merge-join over two sorted lists of entries; what is left of a list is what its index has not passed.\<close>

fun coo_join :: "('a \<Rightarrow> bool) \<Rightarrow> ('a \<Rightarrow> 'a \<Rightarrow> 'a) \<Rightarrow> 'a entry list \<Rightarrow> 'a entry list \<Rightarrow> 'a entry list" where
  "coo_join keep opr ((ar, ac, av) # as) ((br, bc, bv) # bs) =
     (if ar < br \<or> ar = br \<and> ac < bc then coo_join keep opr as ((br, bc, bv) # bs)
      else if br < ar \<or> ar = br \<and> bc < ac then coo_join keep opr ((ar, ac, av) # as) bs
      else emit keep (ar, ac) (opr av bv) @ coo_join keep opr as bs)"
| "coo_join keep opr as bs = []"

definition zip_entries :: "'a parts \<Rightarrow> 'a entry list" where
  "zip_entries a = (case a of (rows, cols, values) \<Rightarrow> zip (tv_elems rows) (zip (tv_elems cols) (tv_elems values)))"

definition intersect_coo_impl :: "('a, 'f) scalar \<Rightarrow> ('a \<Rightarrow> 'a \<Rightarrow> 'a) \<Rightarrow> 'a parts \<Rightarrow> 'a parts \<Rightarrow> 'a parts res" where
  "intersect_coo_impl T opr a b =
     (if numel (snd (snd a)) = 0 \<or> numel (snd (snd b)) = 0 then coo_parts (t_elem T) []
      else coo_parts (t_elem T)
        (coo_join (keeps T) opr (sort_key position (zip_entries a)) (sort_key position (zip_entries b))))"

section \<open>The operations of the client\<close>

definition add_op :: "('a, 'f) scalar \<Rightarrow> 'a \<Rightarrow> 'a \<Rightarrow> 'a" where
  "add_op T a b = from_f64 T (f_add T (to_f64 T a) (to_f64 T b))"

definition sub_op :: "('a, 'f) scalar \<Rightarrow> 'a \<Rightarrow> 'a \<Rightarrow> 'a" where
  "sub_op T a b = from_f64 T (f_sub T (to_f64 T a) (to_f64 T b))"

definition mul_op :: "('a, 'f) scalar \<Rightarrow> 'a \<Rightarrow> 'a \<Rightarrow> 'a" where
  "mul_op T a b = from_f64 T (f_mul T (to_f64 T a) (to_f64 T b))"

definition div_op :: "('a, 'f) scalar \<Rightarrow> 'a \<Rightarrow> 'a \<Rightarrow> 'a" where
  "div_op T a b = from_f64 T (f_div T (to_f64 T a) (to_f64 T b))"

definition neg_op :: "('a, 'f) scalar \<Rightarrow> 'a \<Rightarrow> 'a" where
  "neg_op T b = from_f64 T (f_neg T (to_f64 T b))"

text \<open>\<open>add_csr\<close>, \<open>sub_csr\<close>, \<open>mul_csr\<close> and \<open>div_csr\<close>, and the same for the other formats.\<close>

fun client_csr :: "('a, 'f) scalar \<Rightarrow> op_semantics \<Rightarrow> 'a parts \<Rightarrow> 'a parts \<Rightarrow> nat \<times> nat \<Rightarrow> 'a parts res" where
  "client_csr T Add a b shp = merge_csr_impl T UnionMerge Add (add_op T) (\<lambda>a. a) (\<lambda>b. b) a b shp"
| "client_csr T Subtract a b shp = merge_csr_impl T UnionMerge Subtract (sub_op T) (\<lambda>a. a) (neg_op T) a b shp"
| "client_csr T Multiply a b shp = merge_csr_impl T IntersectionMerge Multiply (mul_op T) (\<lambda>a. a) (\<lambda>b. b) a b shp"
| "client_csr T Divide a b shp = merge_csr_impl T IntersectionMerge Divide (div_op T) (\<lambda>a. a) (\<lambda>b. b) a b shp"

fun client_csc :: "('a, 'f) scalar \<Rightarrow> op_semantics \<Rightarrow> 'a parts \<Rightarrow> 'a parts \<Rightarrow> nat \<times> nat \<Rightarrow> 'a parts res" where
  "client_csc T Add a b shp = merge_csc_impl T UnionMerge Add (add_op T) (\<lambda>a. a) (\<lambda>b. b) a b shp"
| "client_csc T Subtract a b shp = merge_csc_impl T UnionMerge Subtract (sub_op T) (\<lambda>a. a) (neg_op T) a b shp"
| "client_csc T Multiply a b shp = merge_csc_impl T IntersectionMerge Multiply (mul_op T) (\<lambda>a. a) (\<lambda>b. b) a b shp"
| "client_csc T Divide a b shp = merge_csc_impl T IntersectionMerge Divide (div_op T) (\<lambda>a. a) (\<lambda>b. b) a b shp"

fun client_coo :: "('a, 'f) scalar \<Rightarrow> op_semantics \<Rightarrow> 'a parts \<Rightarrow> 'a parts \<Rightarrow> 'a parts res" where
  "client_coo T Add a b = merge_coo_impl T (add_op T) (\<lambda>a. a) (\<lambda>b. b) a b"
| "client_coo T Subtract a b = merge_coo_impl T (sub_op T) (\<lambda>a. a) (neg_op T) a b"
| "client_coo T Multiply a b = intersect_coo_impl T (mul_op T) a b"
| "client_coo T Divide a b = intersect_coo_impl T (div_op T) a b"

section \<open>The methods of the matrix types\<close>

definition validate_operands :: "nat \<times> nat \<Rightarrow> nat \<times> nat \<Rightarrow> dtype \<Rightarrow> dtype \<Rightarrow> tensor_error + unit" where
  "validate_operands s1 s2 d1 d2 =
     (if s1 \<noteq> s2 then Inl (ShapeMismatch [of_nat (fst s1), of_nat (snd s1)] [of_nat (fst s2), of_nat (snd s2)])
      else if d1 \<noteq> d2 then Inl (DTypeMismatch d1 d2)
      else Inr ())"

fun op_name :: "op_semantics \<Rightarrow> string" where
  "op_name Add = ''add''"
| "op_name Subtract = ''sub''"
| "op_name Multiply = ''mul''"
| "op_name Divide = ''div''"

text \<open>\<open>CsrData::add\<close>, \<open>sub\<close>, \<open>mul\<close>, \<open>div\<close>.\<close>

definition csr_elementwise :: "('a, 'f) scalar \<Rightarrow> op_semantics \<Rightarrow> 'a csr \<Rightarrow> 'a csr \<Rightarrow> 'a csr res" where
  "csr_elementwise T sem a b =
     bindR (Some (validate_operands (csr_shape a) (csr_shape b) (tv_dtype (csr_values a)) (tv_dtype (csr_values b)))) (\<lambda>_.
       if tv_dtype (csr_values a) = Bool then Some (Inl (UnsupportedDType Bool (''csr_'' @ op_name sem)))
       else bindR (client_csr T sem (csr_ptrs a, csr_indices a, csr_values a) (csr_ptrs b, csr_indices b, csr_values b) (csr_shape a))
         (\<lambda>(p, i, v). Some (Inr \<lparr>csr_ptrs = p, csr_indices = i, csr_values = v, csr_shape = csr_shape a\<rparr>)))"

text \<open>\<open>CscData::div\<close> has a loop of its own, that drops no value.\<close>

definition csc_div :: "('a, 'f) scalar \<Rightarrow> 'a csc \<Rightarrow> 'a csc \<Rightarrow> 'a csc res" where
  "csc_div T a b =
     (let dt = tv_dtype (csc_values a)
      in if numel (csc_values a) = 0 \<or> numel (csc_values b) = 0 then Some (Inr (csc_empty (csc_shape a) dt))
         else if dt = Bool then Some (Inl (UnsupportedDType Bool ''CSC element-wise div''))
         else Option.bind
           (merge_lines (merge_intersection (\<lambda>_. True) (div_op T)) (snd (csc_shape a))
             (csc_ptrs a, csc_indices a, csc_values a) (csc_ptrs b, csc_indices b, csc_values b))
           (\<lambda>(ptrs, indices, values).
             bindR (Some (from_slice I64 ptrs [length ptrs])) (\<lambda>p.
               bindR (Some (from_slice I64 indices [length indices])) (\<lambda>i.
                 bindR (Some (from_slice dt values [length values])) (\<lambda>v. Some (csc_new p i v (csc_shape a)))))))"

definition csc_elementwise :: "('a, 'f) scalar \<Rightarrow> op_semantics \<Rightarrow> 'a csc \<Rightarrow> 'a csc \<Rightarrow> 'a csc res" where
  "csc_elementwise T sem a b =
     bindR (Some (validate_operands (csc_shape a) (csc_shape b) (tv_dtype (csc_values a)) (tv_dtype (csc_values b)))) (\<lambda>_.
       if sem = Divide then csc_div T a b
       else if tv_dtype (csc_values a) = Bool then Some (Inl (UnsupportedDType Bool (''csc_'' @ op_name sem)))
       else bindR (client_csc T sem (csc_ptrs a, csc_indices a, csc_values a) (csc_ptrs b, csc_indices b, csc_values b) (csc_shape a))
         (\<lambda>(p, i, v). Some (Inr \<lparr>csc_ptrs = p, csc_indices = i, csc_values = v, csc_shape = csc_shape a\<rparr>)))"

text \<open>\<open>CooData::div\<close> sorts permutations of the entries and drops no value either.\<close>

definition indexed_entries :: "'a coo \<Rightarrow> 'a entry list option" where
  "indexed_entries m =
     (let n = numel (coo_values m); rows = tv_elems (coo_rows m); cols = tv_elems (coo_cols m); vals = tv_elems (coo_values m)
      in if length rows < n \<or> length cols < n \<or> length vals < n then None
         else Some (map (\<lambda>i. (rows ! i, cols ! i, vals ! i)) [0..<n]))"

definition coo_div :: "('a, 'f) scalar \<Rightarrow> 'a coo \<Rightarrow> 'a coo \<Rightarrow> 'a coo res" where
  "coo_div T a b =
     (let dt = tv_dtype (coo_values a)
      in if numel (coo_values a) = 0 \<or> numel (coo_values b) = 0 then Some (Inr (coo_empty (coo_shape a) dt))
         else do {
           ea \<leftarrow> indexed_entries a;
           eb \<leftarrow> indexed_entries b;
           if dt = Bool then Some (Inl (UnsupportedDType Bool ''COO element-wise div''))
           else let es = coo_join (\<lambda>_. True) (div_op T) (sort_key position ea) (sort_key position eb)
                in if es = [] then Some (Inr (coo_empty (coo_shape a) dt))
                   else bindR (coo_parts dt es) (\<lambda>(r, c, v).
                     Some (Inr \<lparr>coo_rows = r, coo_cols = c, coo_values = v, coo_shape = coo_shape a, coo_sorted = True\<rparr>)) })"

definition coo_elementwise :: "('a, 'f) scalar \<Rightarrow> op_semantics \<Rightarrow> 'a coo \<Rightarrow> 'a coo \<Rightarrow> 'a coo res" where
  "coo_elementwise T sem a b =
     bindR (Some (validate_operands (coo_shape a) (coo_shape b) (tv_dtype (coo_values a)) (tv_dtype (coo_values b)))) (\<lambda>_.
       if sem = Divide then coo_div T a b
       else if tv_dtype (coo_values a) = Bool then Some (Inl (UnsupportedDType Bool (''coo_'' @ op_name sem)))
       else bindR (client_coo T sem (coo_rows a, coo_cols a, coo_values a) (coo_rows b, coo_cols b, coo_values b))
         (\<lambda>(r, c, v). Some (Inr \<lparr>coo_rows = r, coo_cols = c, coo_values = v, coo_shape = coo_shape a, coo_sorted = True\<rparr>)))"

section \<open>Sparse tensors\<close>

text \<open>\<open>SparseTensor::add\<close>, \<open>sub\<close>, \<open>mul\<close>, \<open>div\<close>: operands of different formats are converted to COO.\<close>

fun same_or_coo :: "('a, 'f) scalar \<Rightarrow> op_semantics \<Rightarrow> 'a sparse \<Rightarrow> 'a sparse \<Rightarrow> 'a sparse res" where
  "same_or_coo T sem (Coo a) (Coo b) = bindR (coo_elementwise T sem a b) (\<lambda>r. Some (Inr (Coo r)))"
| "same_or_coo T sem (Csr a) (Csr b) = bindR (csr_elementwise T sem a b) (\<lambda>r. Some (Inr (Csr r)))"
| "same_or_coo T sem (Csc a) (Csc b) = bindR (csc_elementwise T sem a b) (\<lambda>r. Some (Inr (Csc r)))"
| "same_or_coo T sem a b =
     bindR (to_coo a) (\<lambda>x. bindR (to_coo b) (\<lambda>y. bindR (coo_elementwise T sem x y) (\<lambda>r. Some (Inr (Coo r)))))"

definition sparse_elementwise :: "('a, 'f) scalar \<Rightarrow> op_semantics \<Rightarrow> 'a sparse \<Rightarrow> 'a sparse \<Rightarrow> 'a sparse res" where
  "sparse_elementwise T sem a b =
     bindR (Some (validate_operands (sp_shape a) (sp_shape b) (sp_dtype a) (sp_dtype b))) (\<lambda>_. same_or_coo T sem a b)"

text \<open>\<open>sparse_add\<close>, \<open>sparse_sub\<close> and \<open>sparse_mul\<close> of the client go through CSR.\<close>

definition client_elementwise :: "('a, 'f) scalar \<Rightarrow> op_semantics \<Rightarrow> 'a sparse \<Rightarrow> 'a sparse \<Rightarrow> 'a sparse res" where
  "client_elementwise T sem a b =
     bindR (Some (validate_operands (sp_shape a) (sp_shape b) (sp_dtype a) (sp_dtype b))) (\<lambda>_.
       bindR (to_csr a) (\<lambda>x. bindR (to_csr b) (\<lambda>y. bindR (csr_elementwise T sem x y) (\<lambda>r. Some (Inr (Csr r))))))"

end
