(* ===== verification/Sparse_Merge.thy ===== *)
theory Sparse_Merge
  imports Sparse_Elementwise
begin

text \<open>
  What the merge loops compute. An entry list with distinct positions is a finite map; a merge computes,
  position by position, a function of what its two operands hold there. The loops over a line are
  first turned into merges of association lists, and the locale \<open>line_merge\<close> carries their contract
  through the loop over the lines.
\<close>

section \<open>Merging association lists\<close>

fun combine :: "('a \<Rightarrow> 'a \<Rightarrow> 'a) \<Rightarrow> ('a \<Rightarrow> 'a option) \<Rightarrow> ('a \<Rightarrow> 'a option) \<Rightarrow> 'a option \<Rightarrow> 'a option \<Rightarrow> 'a option" where
  "combine opr fa fb (Some a) (Some b) = Some (opr a b)"
| "combine opr fa fb (Some a) None = fa a"
| "combine opr fa fb None (Some b) = fb b"
| "combine opr fa fb None None = None"

lemma combine_None [simp]:
  "combine opr fa (\<lambda>b. Some (f b)) None y = map_option f y" "combine opr (\<lambda>a. Some a) fb x None = x"
  "combine opr fa (\<lambda>_. None) None y = None" "combine opr (\<lambda>_. None) fb x None = None"
  by (cases x; cases y; simp)+

fun keeping :: "('a \<Rightarrow> bool) \<Rightarrow> 'a option \<Rightarrow> 'a option" where
  "keeping keep (Some v) = (if keep v then Some v else None)"
| "keeping keep None = None"

definition keep_cons :: "('a \<Rightarrow> bool) \<Rightarrow> 'k \<Rightarrow> 'a \<Rightarrow> ('k \<times> 'a) list \<Rightarrow> ('k \<times> 'a) list" where
  "keep_cons keep k v zs = (if keep v then (k, v) # zs else zs)"

fun union_list :: "('a \<Rightarrow> bool) \<Rightarrow> ('a \<Rightarrow> 'a \<Rightarrow> 'a) \<Rightarrow> ('a \<Rightarrow> 'a) \<Rightarrow> ('a \<Rightarrow> 'a) \<Rightarrow>
    ('k::linorder \<times> 'a) list \<Rightarrow> ('k \<times> 'a) list \<Rightarrow> ('k \<times> 'a) list" where
  "union_list keep opr fa fb [] [] = []"
| "union_list keep opr fa fb ((k, a) # xs) [] = keep_cons keep k (fa a) (union_list keep opr fa fb xs [])"
| "union_list keep opr fa fb [] ((l, b) # ys) = keep_cons keep l (fb b) (union_list keep opr fa fb [] ys)"
| "union_list keep opr fa fb ((k, a) # xs) ((l, b) # ys) =
     (if k < l then keep_cons keep k (fa a) (union_list keep opr fa fb xs ((l, b) # ys))
      else if l < k then keep_cons keep l (fb b) (union_list keep opr fa fb ((k, a) # xs) ys)
      else keep_cons keep k (opr a b) (union_list keep opr fa fb xs ys))"

fun inter_list :: "('a \<Rightarrow> bool) \<Rightarrow> ('a \<Rightarrow> 'a \<Rightarrow> 'a) \<Rightarrow> ('k::linorder \<times> 'a) list \<Rightarrow> ('k \<times> 'a) list \<Rightarrow> ('k \<times> 'a) list" where
  "inter_list keep opr ((k, a) # xs) ((l, b) # ys) =
     (if k < l then inter_list keep opr xs ((l, b) # ys)
      else if l < k then inter_list keep opr ((k, a) # xs) ys
      else keep_cons keep k (opr a b) (inter_list keep opr xs ys))"
| "inter_list keep opr xs ys = []"

abbreviation ascending :: "('k::linorder \<times> 'a) list \<Rightarrow> bool" where
  "ascending xs \<equiv> sorted_wrt (<) (map fst xs)"

definition keys :: "('k \<times> 'a) list \<Rightarrow> 'k set" where
  "keys xs = set (map fst xs)"

lemma keys_simps [simp]: "keys [] = {}" "keys ((k, v) # xs) = insert k (keys xs)"
  by (simp_all add: keys_def)

lemma map_of_keys: "map_of xs k = None \<longleftrightarrow> k \<notin> keys xs"
  by (simp add: keys_def map_of_eq_None_iff)

lemma map_of_below: "\<forall>x \<in> keys xs. k < x \<Longrightarrow> map_of xs k = None" for k :: "'k::linorder"
  by (auto simp: map_of_keys)

lemma ascending_Cons: "ascending ((k, v) # xs) \<longleftrightarrow> ascending xs \<and> (\<forall>x \<in> keys xs. k < x)"
  by (auto simp: keys_def)

lemma ascending_keep_cons:
  "ascending (keep_cons keep k v zs) \<longleftrightarrow> ascending zs \<and> (keep v \<longrightarrow> (\<forall>z \<in> keys zs. k < z))"
  by (auto simp: keep_cons_def ascending_Cons simp del: list.map)

lemma map_of_keep_cons: "map_of (keep_cons keep k v zs) c = (if c = k \<and> keep v then Some v else map_of zs c)"
  by (auto simp: keep_cons_def)

lemma keys_keep_cons: "keys (keep_cons keep k v zs) \<subseteq> insert k (keys zs)"
  by (auto simp: keep_cons_def)

lemma keys_union: "keys (union_list keep opr fa fb xs ys) \<subseteq> keys xs \<union> keys ys"
proof (induction keep opr fa fb xs ys rule: union_list.induct)
  case (2 keep opr fa fb k a xs)
  then show ?case using keys_keep_cons[of keep k "fa a" "union_list keep opr fa fb xs []"] by auto
next
  case (3 keep opr fa fb l b ys)
  then show ?case using keys_keep_cons[of keep l "fb b" "union_list keep opr fa fb [] ys"] by auto
next
  case (4 keep opr fa fb k a xs l b ys)
  note kc = keys_keep_cons[of keep k "fa a" "union_list keep opr fa fb xs ((l, b) # ys)"]
    keys_keep_cons[of keep l "fb b" "union_list keep opr fa fb ((k, a) # xs) ys"]
    keys_keep_cons[of keep k "opr a b" "union_list keep opr fa fb xs ys"]
  show ?case using 4 kc by (cases k l rule: linorder_cases) (simp; blast)+
qed simp

lemma keys_inter: "keys (inter_list keep opr xs ys) \<subseteq> keys xs"
proof (induction keep opr xs ys rule: inter_list.induct)
  case (1 keep opr k a xs l b ys)
  with keys_keep_cons[of keep k "opr a b" "inter_list keep opr xs ys"] show ?case
    by (cases k l rule: linorder_cases) auto
qed simp_all

lemma ascending_union: "ascending xs \<Longrightarrow> ascending ys \<Longrightarrow> ascending (union_list keep opr fa fb xs ys)"
proof (induction keep opr fa fb xs ys rule: union_list.induct)
  case (2 keep opr fa fb k a xs)
  then show ?case using keys_union[of keep opr fa fb xs "[]"] by (auto simp: ascending_keep_cons ascending_Cons simp del: list.map)
next
  case (3 keep opr fa fb l b ys)
  then show ?case using keys_union[of keep opr fa fb "[]" ys] by (auto simp: ascending_keep_cons ascending_Cons simp del: list.map)
next
  case (4 keep opr fa fb k a xs l b ys)
  note ku = keys_union[of keep opr fa fb xs "(l, b) # ys"] keys_union[of keep opr fa fb "(k, a) # xs" ys]
    keys_union[of keep opr fa fb xs ys]
  have a: "ascending xs" "\<forall>x \<in> keys xs. k < x" "ascending ys" "\<forall>x \<in> keys ys. l < x"
    using 4(4,5) unfolding ascending_Cons by blast+
  show ?case
  proof (cases k l rule: linorder_cases)
    case less
    then have "\<forall>x \<in> keys ys. k < x" using a(4) less_trans by blast
    with less a ku(1) have "\<forall>x \<in> keys (union_list keep opr fa fb xs ((l, b) # ys)). k < x" by auto
    with 4(1)[OF less a(1) 4(5)] less show ?thesis by (simp add: ascending_keep_cons)
  next
    case greater
    then have "\<forall>x \<in> keys xs. l < x" using a(2) less_trans by blast
    with greater a ku(2) have "\<forall>x \<in> keys (union_list keep opr fa fb ((k, a) # xs) ys). l < x" by auto
    with 4(2)[OF _ greater 4(4) a(3)] greater less_not_sym[OF greater] show ?thesis by (simp add: ascending_keep_cons)
  next
    case equal
    with a ku(3) have "\<forall>x \<in> keys (union_list keep opr fa fb xs ys). k < x" by auto
    with 4(3)[OF _ _ a(1,3)] equal show ?thesis by (simp add: ascending_keep_cons)
  qed
qed simp

lemma map_of_union:
  "ascending xs \<Longrightarrow> ascending ys \<Longrightarrow> map_of (union_list keep opr fa fb xs ys) c =
    keeping keep (combine opr (\<lambda>a. Some (fa a)) (\<lambda>b. Some (fb b)) (map_of xs c) (map_of ys c))"
proof (induction keep opr fa fb xs ys rule: union_list.induct)
  case (2 keep opr fa fb k a xs)
  then show ?case using map_of_below[of xs k] by (auto simp: map_of_keep_cons keys_def)
next
  case (3 keep opr fa fb l b ys)
  then show ?case using map_of_below[of ys l] by (auto simp: map_of_keep_cons keys_def)
next
  case (4 keep opr fa fb k a xs l b ys)
  have x: "map_of xs k = None" and y: "map_of ys l = None" using 4(4,5) by (auto simp: keys_def intro!: map_of_below)
  show ?case
  proof (cases k l rule: linorder_cases)
    case less
    have "map_of ys k = None" using 4(5) less by (fastforce simp: keys_def intro!: map_of_below)
    with 4 less x show ?thesis by (auto simp: map_of_keep_cons)
  next
    case greater
    have "map_of xs l = None" using 4(4) greater by (fastforce simp: keys_def intro!: map_of_below)
    with 4 greater y show ?thesis by (auto simp: map_of_keep_cons)
  next
    case equal
    with 4 x y show ?thesis by (auto simp: map_of_keep_cons)
  qed
qed simp

lemma ascending_inter: "ascending xs \<Longrightarrow> ascending (inter_list keep opr xs ys)"
proof (induction keep opr xs ys rule: inter_list.induct)
  case (1 keep opr k a xs l b ys)
  have a: "ascending xs" "\<forall>x \<in> keys xs. k < x" using 1(4) unfolding ascending_Cons by blast+
  with keys_inter[of keep opr xs ys] have "\<forall>x \<in> keys (inter_list keep opr xs ys). k < x" by auto
  with 1 a show ?case by (cases k l rule: linorder_cases) (simp_all add: ascending_keep_cons)
qed simp_all

lemma map_of_inter:
  "ascending xs \<Longrightarrow> ascending ys \<Longrightarrow> map_of (inter_list keep opr xs ys) c =
    keeping keep (combine opr (\<lambda>_. None) (\<lambda>_. None) (map_of xs c) (map_of ys c))"
proof (induction keep opr xs ys rule: inter_list.induct)
  case (1 keep opr k a xs l b ys)
  have x: "map_of xs k = None" and y: "map_of ys l = None" using 1(4,5) by (auto simp: keys_def intro!: map_of_below)
  show ?case
  proof (cases k l rule: linorder_cases)
    case less
    have "map_of ys k = None" using 1(5) less by (fastforce simp: keys_def intro!: map_of_below)
    with 1 less x show ?thesis by (auto split: if_splits)
  next
    case greater
    have "map_of xs l = None" using 1(4) greater by (fastforce simp: keys_def intro!: map_of_below)
    with 1 greater y show ?thesis by (auto split: if_splits)
  next
    case equal
    with 1 x y show ?thesis by (auto simp: map_of_keep_cons)
  qed
qed simp_all

section \<open>The loops over a line\<close>

definition line_slice :: "int list \<Rightarrow> 'a list \<Rightarrow> nat \<Rightarrow> nat \<Rightarrow> (int \<times> 'a) list" where
  "line_slice ix vs i e = map (\<lambda>k. (ix ! k, vs ! k)) [i..<e]"

lemma line_slice_simps [simp]: "e \<le> i \<Longrightarrow> line_slice ix vs i e = []"
  "i < e \<Longrightarrow> line_slice ix vs i e = (ix ! i, vs ! i) # line_slice ix vs (Suc i) e"
  unfolding line_slice_def by (simp_all add: upt_conv_Cons)

lemma push_keep:
  "fst (push_entry keep k v out) @ map fst zs = fst out @ map fst (keep_cons keep k v zs)"
  "snd (push_entry keep k v out) @ map snd zs = snd out @ map snd (keep_cons keep k v zs)"
  by (simp_all add: push_entry_def keep_cons_def)

lemma merge_union_list:
  assumes "a_end \<le> length ai" "length av = length ai" "b_end \<le> length bi" "length bv = length bi"
    and "\<forall>x \<in> set ai \<union> set bi. x < i64_max"
  shows "i \<le> a_end \<Longrightarrow> j \<le> b_end \<Longrightarrow> merge_union keep opr fa fb ai av a_end bi bv b_end i j out =
    Some (fst out @ map fst (union_list keep opr fa fb (line_slice ai av i a_end) (line_slice bi bv j b_end)),
      snd out @ map snd (union_list keep opr fa fb (line_slice ai av i a_end) (line_slice bi bv j b_end)))"
proof (induction "(a_end - i) + (b_end - j)" arbitrary: i j out rule: less_induct)
  case less
  note step = merge_union.simps[of keep opr fa fb ai av a_end bi bv b_end i j out]
  have bound: "ai ! i < i64_max" if "i < a_end" using that assms(1,5) by simp
  have bound': "bi ! j < i64_max" if "j < b_end" using that assms(3,5) by simp
  consider "i < a_end" "j < b_end" | "i < a_end" "b_end \<le> j" | "a_end \<le> i" "j < b_end" | "a_end \<le> i" "b_end \<le> j" by linarith
  then show ?case
  proof cases
    case 1
    with less assms step show ?thesis by (cases "ai ! i" "bi ! j" rule: linorder_cases) (simp_all add: push_keep)
  next
    case 2
    with less assms step bound[OF 2(1)] less_not_sym[OF bound[OF 2(1)]] show ?thesis by (simp add: push_keep)
  next
    case 3
    with less assms step bound'[OF 3(2)] less_not_sym[OF bound'[OF 3(2)]] show ?thesis by (simp add: push_keep)
  next
    case 4
    with step show ?thesis by simp
  qed
qed

lemma merge_intersection_list:
  assumes "a_end \<le> length ai" "length av = length ai" "b_end \<le> length bi" "length bv = length bi"
  shows "i \<le> a_end \<Longrightarrow> j \<le> b_end \<Longrightarrow> merge_intersection keep opr ai av a_end bi bv b_end i j out =
    Some (fst out @ map fst (inter_list keep opr (line_slice ai av i a_end) (line_slice bi bv j b_end)),
      snd out @ map snd (inter_list keep opr (line_slice ai av i a_end) (line_slice bi bv j b_end)))"
proof (induction "(a_end - i) + (b_end - j)" arbitrary: i j out rule: less_induct)
  case less
  note step = merge_intersection.simps[of keep opr ai av a_end bi bv b_end i j out]
  consider "i < a_end" "j < b_end" | "b_end \<le> j" | "a_end \<le> i" by linarith
  then show ?case
  proof cases
    case 1
    with less assms step show ?thesis by (cases "ai ! i" "bi ! j" rule: linorder_cases) (simp_all add: push_keep)
  next
    case 2
    then have "inter_list keep opr (line_slice ai av i a_end) [] = []" by (cases "line_slice ai av i a_end") auto
    with 2 step show ?thesis by simp
  next
    case 3
    with step show ?thesis by simp
  qed
qed

section \<open>Entries as a map\<close>

definition lookup :: "'a entry list \<Rightarrow> int \<times> int \<Rightarrow> 'a option" where
  "lookup es = map_of (map (\<lambda>e. (position e, snd (snd e))) es)"

abbreviation in_order :: "'a entry list \<Rightarrow> bool" where
  "in_order es \<equiv> sorted_wrt (<) (map position es)"

lemma lookup_simps [simp]: "lookup [] p = None" "lookup (e # es) p = (if p = position e then Some (snd (snd e)) else lookup es p)"
  by (auto simp: lookup_def)

lemma lookup_append: "lookup (xs @ ys) p = (case lookup xs p of Some v \<Rightarrow> Some v | None \<Rightarrow> lookup ys p)"
  by (induction xs) auto

lemma lookup_None: "lookup es p = None \<longleftrightarrow> p \<notin> set (map position es)"
  by (induction es) auto

lemma lookup_line_of:
  "lookup (line_of ptrs ix vs l) (r, c) =
    (if r = int l then map_of (line_slice ix vs (nat (ptrs ! l)) (nat (ptrs ! Suc l))) c else None)"
proof -
  have "lookup (map (\<lambda>k. (int l, ix ! k, vs ! k)) ks) (r, c) = (if r = int l then map_of (map (\<lambda>k. (ix ! k, vs ! k)) ks) c else None)" for ks
    by (induction ks) auto
  then show ?thesis unfolding line_of_def line_slice_def .
qed

lemma lines_of_Suc: "lines_of (Suc n) ptrs ix vs = lines_of n ptrs ix vs @ line_of ptrs ix vs n"
  by (simp add: lines_of_def)

lemma lookup_lines_of:
  "lookup (lines_of n ptrs ix vs) (r, c) =
    (if 0 \<le> r \<and> r < int n then map_of (line_slice ix vs (nat (ptrs ! nat r)) (nat (ptrs ! Suc (nat r)))) c else None)"
proof (induction n)
  case 0
  then show ?case by (simp add: lines_of_def)
next
  case (Suc n)
  consider "0 \<le> r" "r < int n" | "r = int n" | "r < 0 \<or> int n < r" by linarith
  then show ?case using Suc by cases (auto simp: lines_of_Suc lookup_append lookup_line_of split: option.split)
qed

lemma ascending_line:
  assumes "in_order (lines_of n ptrs ix vs)" and "l < n"
  shows "ascending (line_slice ix vs (nat (ptrs ! l)) (nat (ptrs ! Suc l)))"
proof -
  have "[0..<n] = [0..<l] @ l # [Suc l..<n]" using upt_add_eq_append[of 0 l "n - l"] assms(2) by (simp add: upt_conv_Cons)
  then have "in_order (line_of ptrs ix vs l)"
    using assms(1) by (simp add: lines_of_def sorted_wrt_append)
  then show ?thesis by (simp add: line_of_def line_slice_def sorted_wrt_map)
qed

section \<open>The loop over the lines\<close>

locale line_merge =
  fixes line_loop :: "int list \<Rightarrow> 'a list \<Rightarrow> nat \<Rightarrow> int list \<Rightarrow> 'a list \<Rightarrow> nat \<Rightarrow> nat \<Rightarrow> nat \<Rightarrow> int list \<times> 'a list \<Rightarrow>
      (int list \<times> 'a list) option"
    and joined :: "'a option \<Rightarrow> 'a option \<Rightarrow> 'a option"
  assumes line_loop_ok: "\<lbrakk>a_end \<le> length ai; length av = length ai; b_end \<le> length bi; length bv = length bi;
      \<forall>x \<in> set ai \<union> set bi. x < i64_max; i \<le> a_end; j \<le> b_end;
      ascending (line_slice ai av i a_end); ascending (line_slice bi bv j b_end)\<rbrakk> \<Longrightarrow>
      \<exists>zs. line_loop ai av a_end bi bv b_end i j out = Some (fst out @ map fst zs, snd out @ map snd zs) \<and> ascending zs \<and>
        (\<forall>c. map_of zs c = joined (map_of (line_slice ai av i a_end) c) (map_of (line_slice bi bv j b_end) c))"
    and joined_None: "joined None None = None"
begin

lemma merge_lines_ok:
  assumes A: "wf_compressed n k ap ai av" "in_order (lines_of n (tv_elems ap) (tv_elems ai) (tv_elems av))"
    and B: "wf_compressed n k bp bi bv" "in_order (lines_of n (tv_elems bp) (tv_elems bi) (tv_elems bv))"
  shows "\<exists>es. merge_lines line_loop n (ap, ai, av) (bp, bi, bv) =
      Some (ptrs_of n (map fst es), map (\<lambda>e. fst (snd e)) es, map (\<lambda>e. snd (snd e)) es) \<and> in_order es \<and>
    indices_below n (map fst es) \<and> indices_below k (map (\<lambda>e. fst (snd e)) es) \<and>
    (\<forall>p. lookup es p = joined (lookup (lines_of n (tv_elems ap) (tv_elems ai) (tv_elems av)) p)
      (lookup (lines_of n (tv_elems bp) (tv_elems bi) (tv_elems bv)) p))"
proof -
  let ?A = "lookup (lines_of n (tv_elems ap) (tv_elems ai) (tv_elems av))"
    and ?B = "lookup (lines_of n (tv_elems bp) (tv_elems bi) (tv_elems bv))"
  let ?body = "\<lambda>line (ptrs, out). do {
       a_start \<leftarrow> nth_chk (tv_elems ap) line;
       a_end \<leftarrow> nth_chk (tv_elems ap) (line + 1);
       b_start \<leftarrow> nth_chk (tv_elems bp) line;
       b_end \<leftarrow> nth_chk (tv_elems bp) (line + 1);
       out' \<leftarrow> line_loop (tv_elems ai) (tv_elems av) (as_usize a_end) (tv_elems bi) (tv_elems bv) (as_usize b_end)
         (as_usize a_start) (as_usize b_start) out;
       Some (ptrs @ [int (length (fst out'))], out') }"
  let ?I = "\<lambda>m s. \<exists>es. s = (map (\<lambda>i. int (below (map fst es) (int i))) [0..<m + 1], map (\<lambda>e. fst (snd e)) es, map (\<lambda>e. snd (snd e)) es) \<and>
      in_order es \<and> indices_below m (map fst es) \<and> indices_below k (map (\<lambda>e. fst (snd e)) es) \<and>
      (\<forall>p. lookup es p = (if fst p < int m then joined (?A p) (?B p) else None))"
  have small: "length (tv_elems av) < 2 ^ 63" "length (tv_elems bv) < 2 ^ 63" "k < 2 ^ 63"
    and len: "length (tv_elems ai) = length (tv_elems av)" "length (tv_elems bi) = length (tv_elems bv)"
    and pa: "wf_ptrs n (length (tv_elems av)) (tv_elems ap)" and pb: "wf_ptrs n (length (tv_elems bv)) (tv_elems bp)"
    and rng: "indices_below k (tv_elems ai)" "indices_below k (tv_elems bi)"
    using A(1) B(1) by (simp_all add: wf_compressed_def Let_def wf_tvec_def)
  have imax: "\<forall>x \<in> set (tv_elems ai) \<union> set (tv_elems bi). x < i64_max"
    using rng small(3) by (auto simp: indices_below_def i64_max_def)
  have "\<exists>s. foldM ?body [0..<n] ([0], [], []) = Some s \<and> ?I n s"
  proof (rule foldM_upt_rule[where I = ?I])
    show "?I 0 ([0], [], [])"
    proof (intro exI[of _ "[]"] conjI allI)
      fix p :: "int \<times> int"
      have "?A p = None \<and> ?B p = None" if "fst p < 0" using that by (cases p) (simp add: lookup_lines_of)
      then show "lookup [] p = (if fst p < int 0 then joined (?A p) (?B p) else None)" by (simp add: joined_None)
    qed (simp_all add: below_def indices_below_def)
  next
    fix m s assume m: "m < n" and "?I m s"
    then obtain es where s: "s = (map (\<lambda>i. int (below (map fst es) (int i))) [0..<m + 1], map (\<lambda>e. fst (snd e)) es, map (\<lambda>e. snd (snd e)) es)"
      and es: "in_order es" "indices_below m (map fst es)" "indices_below k (map (\<lambda>e. fst (snd e)) es)"
        "\<forall>p. lookup es p = (if fst p < int m then joined (?A p) (?B p) else None)" by blast
    let ?as = "nat (tv_elems ap ! m)" and ?ae = "nat (tv_elems ap ! Suc m)"
      and ?bs = "nat (tv_elems bp ! m)" and ?be = "nat (tv_elems bp ! Suc m)"
    have ra: "0 \<le> tv_elems ap ! m" "tv_elems ap ! m \<le> tv_elems ap ! Suc m" "0 \<le> tv_elems ap ! Suc m"
        "tv_elems ap ! Suc m \<le> int (length (tv_elems av))" "length (tv_elems ap) = n + 1"
      using wf_ptrs_range[OF pa, of m] wf_ptrs_range[OF pa, of "Suc m"] m pa by (simp_all add: wf_ptrs_def)
    have rb: "0 \<le> tv_elems bp ! m" "tv_elems bp ! m \<le> tv_elems bp ! Suc m" "0 \<le> tv_elems bp ! Suc m"
        "tv_elems bp ! Suc m \<le> int (length (tv_elems bv))" "length (tv_elems bp) = n + 1"
      using wf_ptrs_range[OF pb, of m] wf_ptrs_range[OF pb, of "Suc m"] m pb by (simp_all add: wf_ptrs_def)
    have "\<exists>zs. line_loop (tv_elems ai) (tv_elems av) ?ae (tv_elems bi) (tv_elems bv) ?be ?as ?bs (snd s) =
          Some (fst (snd s) @ map fst zs, snd (snd s) @ map snd zs) \<and> ascending zs \<and>
        (\<forall>c. map_of zs c = joined (map_of (line_slice (tv_elems ai) (tv_elems av) ?as ?ae) c)
          (map_of (line_slice (tv_elems bi) (tv_elems bv) ?bs ?be) c))"
      using ra rb len imax ascending_line[OF A(2) m] ascending_line[OF B(2) m]
      by (intro line_loop_ok) (simp_all add: nat_le_iff)
    then obtain zs where zs: "line_loop (tv_elems ai) (tv_elems av) ?ae (tv_elems bi) (tv_elems bv) ?be ?as ?bs (snd s) =
          Some (fst (snd s) @ map fst zs, snd (snd s) @ map snd zs)" "ascending zs"
        "\<forall>c. map_of zs c = joined (?A (int m, c)) (?B (int m, c))"
      using m by (auto simp: lookup_lines_of)
    let ?new = "map (Pair (int m)) zs"
    let ?es = "es @ ?new"
    have body: "?body m s = Some (map (\<lambda>i. int (below (map fst es) (int i))) [0..<m + 1] @ [int (length ?es)],
        map (\<lambda>e. fst (snd e)) ?es, map (\<lambda>e. snd (snd e)) ?es)"
      using zs(1) ra rb small m by (simp add: s comp_def)
    have b: "below (map fst ?es) (int i) = below (map fst es) (int i)" if "i \<le> m" for i
      using that by (simp add: below_def comp_def filter_empty_conv)
    have ind: "indices_below (Suc m) (map fst ?es)" using es(2) by (auto simp: indices_below_def)
    have up: "[0..<Suc m + 1] = [0..<m + 1] @ [Suc m]" by simp
    have old: "map (\<lambda>i. int (below (map fst es) (int i))) [0..<m + 1] = map (\<lambda>i. int (below (map fst ?es) (int i))) [0..<m + 1]"
    proof (rule map_cong[OF refl])
      fix i assume "i \<in> set [0..<m + 1]"
      then have "i \<le> m" by auto
      from b[OF this] show "int (below (map fst es) (int i)) = int (below (map fst ?es) (int i))" by (simp only:)
    qed
    have lm: "below (map fst ?es) (int (Suc m)) = length ?es" using below_n[OF ind] by (simp only: length_map)
    have ptrs: "map (\<lambda>i. int (below (map fst es) (int i))) [0..<m + 1] @ [int (length ?es)] =
        map (\<lambda>i. int (below (map fst ?es) (int i))) [0..<Suc m + 1]"
      unfolding up old map_append[of "\<lambda>i. int (below (map fst ?es) (int i))"] by (simp only: list.map lm)
    have look: "lookup ?new (r, c) = (if r = int m then map_of zs c else None)" for r c
      by (induction zs) auto
    have lk: "lookup ?es p = (if fst p < int (Suc m) then joined (?A p) (?B p) else None)" for p
    proof (cases p)
      case (Pair r c)
      have new: "joined (?A (int m, c)) (?B (int m, c)) = map_of zs c" using zs(3) by simp
      have old: "lookup es (r, c) = (if r < int m then joined (?A (r, c)) (?B (r, c)) else None)" using es(4) by simp
      consider "r < int m" | "r = int m" | "int m < r" by linarith
      then show ?thesis
      proof cases
        case 1
        then have "lookup ?es p = lookup es (r, c)" by (cases "lookup es (r, c)") (simp_all add: Pair lookup_append look)
        then show ?thesis using 1 by (simp add: Pair old)
      qed (use old new in \<open>simp_all add: Pair lookup_append look\<close>)
    qed
    have "in_order ?es"
      using es(1,2) zs(2) by (auto simp: sorted_wrt_append sorted_wrt_map indices_below_def less_prod_def)
    moreover have "indices_below k (map (\<lambda>e. fst (snd e)) ?es)"
    proof -
      have "0 \<le> c \<and> c < int k" if "c \<in> fst ` set zs" for c
      proof -
        from that have "map_of zs c \<noteq> None" by (simp add: map_of_eq_None_iff)
        then have "?A (int m, c) \<noteq> None \<or> ?B (int m, c) \<noteq> None" using zs(3) joined_None by metis
        then have "c \<in> set (tv_elems ai) \<or> c \<in> set (tv_elems bi)"
          using m ra rb len by (auto simp: lookup_lines_of line_slice_def map_of_eq_None_iff)
        then show ?thesis using rng by (auto simp: indices_below_def)
      qed
      then show ?thesis using es(3) by (auto simp: indices_below_def)
    qed
    ultimately have "?I (Suc m) (map (\<lambda>i. int (below (map fst es) (int i))) [0..<m + 1] @ [int (length ?es)],
        map (\<lambda>e. fst (snd e)) ?es, map (\<lambda>e. snd (snd e)) ?es)"
      using ind lk unfolding ptrs by blast
    with body show "\<exists>s'. ?body m s = Some s' \<and> ?I (Suc m) s'" by (rule_tac exI, rule_tac conjI)
  qed
  then obtain es where es: "foldM ?body [0..<n] ([0], [], []) =
      Some (map (\<lambda>i. int (below (map fst es) (int i))) [0..<n + 1], map (\<lambda>e. fst (snd e)) es, map (\<lambda>e. snd (snd e)) es)"
    "in_order es" "indices_below n (map fst es)" "indices_below k (map (\<lambda>e. fst (snd e)) es)"
    "\<forall>p. lookup es p = (if fst p < int n then joined (?A p) (?B p) else None)" by blast
  have "lookup es p = joined (?A p) (?B p)" for p
  proof (cases p)
    case (Pair r c)
    then show ?thesis using es(5) joined_None by (auto simp: lookup_lines_of)
  qed
  then show ?thesis using es(1-4) unfolding merge_lines_def ptrs_of_def by (intro exI[of _ es]) simp
qed

end

end
