(* ===== verification/Sparse_Merge_Ops.thy ===== *)
theory Sparse_Merge_Ops
  imports Sparse_Merge Sparse_Dense
begin

text \<open>
  The element-wise operations on whole matrices: whatever the formats of the operands, the result holds at
  every position the operation on what the operands hold there.
\<close>

section \<open>The two loops\<close>

interpretation union_merge: line_merge "merge_union keep opr fa fb"
    "\<lambda>x y. keeping keep (combine opr (\<lambda>a. Some (fa a)) (\<lambda>b. Some (fb b)) x y)" for keep opr fa fb
  by unfold_locales (auto simp: merge_union_list ascending_union map_of_union)

interpretation intersection_merge: line_merge "merge_intersection keep opr"
    "\<lambda>x y. keeping keep (combine opr (\<lambda>_. None) (\<lambda>_. None) x y)" for keep opr
  by unfold_locales (auto simp: merge_intersection_list ascending_inter map_of_inter)

section \<open>Entries with distinct positions\<close>

lemma lookup_filter: "lookup es q = (case filter (\<lambda>e. position e = q) es of [] \<Rightarrow> None | e # _ \<Rightarrow> Some (snd (snd e)))"
  by (induction es) auto

lemma filter_distinct:
  "distinct (map position es) \<Longrightarrow>
    map (\<lambda>e. snd (snd e)) (filter (\<lambda>e. position e = q) es) = (case lookup es q of None \<Rightarrow> [] | Some v \<Rightarrow> [v])"
proof (induction es)
  case (Cons e es)
  have "position x \<noteq> position e" if "x \<in> set es" for x
  proof
    assume eq: "position x = position e"
    have "position x \<in> (\<lambda>e. position e) ` set es" using that by (rule imageI)
    then have "position e \<in> (\<lambda>e. position e) ` set es" unfolding eq .
    with Cons.prems show False by simp
  qed
  then have "filter (\<lambda>x. position x = position e) es = []" by (simp add: filter_empty_conv del: prod.inject)
  then show ?case using Cons by (auto simp del: prod.inject)
qed simp

lemma in_order_iff: "in_order es \<longleftrightarrow> sorted (map position es) \<and> distinct (map position es)"
  by (rule strict_sorted_iff)

lemma in_order_sort: "distinct (map position es) \<Longrightarrow> in_order (sort_key position es)"
  by (simp add: in_order_iff distinct_map)

lemma lookup_sort [simp]: "lookup (sort_key position es) q = lookup es q"
  unfolding lookup_filter sort_key_stable ..

lemma positions_bounded:
  assumes "distinct (map position es)" and "\<forall>p. lookup es p = j (lookup xs p) (lookup ys p)" and "j None None = None"
  shows "length es \<le> length xs + length ys"
proof -
  have "set (map position es) \<subseteq> set (map position xs) \<union> set (map position ys)"
  proof
    fix p assume "p \<in> set (map position es)"
    then have "lookup es p \<noteq> None" by (simp add: lookup_None)
    then have "lookup xs p \<noteq> None \<or> lookup ys p \<noteq> None" using assms(2,3) by metis
    then show "p \<in> set (map position xs) \<union> set (map position ys)" unfolding lookup_None by blast
  qed
  then have "card (set (map position es)) \<le> card (set (map position xs) \<union> set (map position ys))"
    by (intro card_mono) simp_all
  also have "\<dots> \<le> card (set (map position xs)) + card (set (map position ys))" by (rule card_Un_le)
  also have "\<dots> \<le> length xs + length ys"
    using card_length[of "map position xs"] card_length[of "map position ys"] by simp
  finally show ?thesis using distinct_card[OF assms(1)] by simp
qed

section \<open>Compressed matrices\<close>

lemma merge_parts_ok:
  assumes es: "in_order es" "indices_below n (map fst es)" "indices_below k (map (\<lambda>e. fst (snd e)) es)"
    and "length es < 2 ^ 63" "n < 2 ^ 63" "k < 2 ^ 63"
  shows "\<exists>p i v. merge_parts dt n (ptrs_of n (map fst es), map (\<lambda>e. fst (snd e)) es, map (\<lambda>e. snd (snd e)) es) = Some (Inr (p, i, v)) \<and>
    wf_compressed n k p i v \<and> tv_dtype v = dt \<and> lines_of n (tv_elems p) (tv_elems i) (tv_elems v) = es"
proof -
  have "sorted (map fst es)" using es(1) by (intro sorted_position) (simp add: in_order_iff)
  then have "lines_of n (ptrs_of n (map fst es)) (map (\<lambda>e. fst (snd e)) es) (map (\<lambda>e. snd (snd e)) es) = es"
    using es(2) by (rule lines_of_sorted)
  moreover have "length (ptrs_of n (map fst es)) = n + 1" by (simp add: ptrs_of_def)
  moreover have "wf_ptrs n (length es) (ptrs_of n (map fst es))" using wf_ptrs_of[OF es(2)] by simp
  ultimately show ?thesis using assms(3-)
    by (simp add: merge_parts_def from_slice_def wf_compressed_def wf_tvec_def)
qed

text \<open>What an operation computes at a position, before negligible results are dropped.\<close>

fun elementwise_at :: "('a, 'f) scalar \<Rightarrow> op_semantics \<Rightarrow> 'a option \<Rightarrow> 'a option \<Rightarrow> 'a option" where
  "elementwise_at T Add x y = combine (add_op T) (\<lambda>a. Some a) (\<lambda>b. Some b) x y"
| "elementwise_at T Subtract x y = combine (sub_op T) (\<lambda>a. Some a) (\<lambda>b. Some (neg_op T b)) x y"
| "elementwise_at T Multiply x y = combine (mul_op T) (\<lambda>_. None) (\<lambda>_. None) x y"
| "elementwise_at T Divide x y = combine (div_op T) (\<lambda>_. None) (\<lambda>_. None) x y"

lemma elementwise_None [simp]: "elementwise_at T sem None None = None"
  by (cases sem) simp_all

lemma wf_compressed_numel: "wf_compressed n k p i v \<Longrightarrow> numel v = length (tv_elems v)"
  by (simp add: wf_compressed_def Let_def numel_def)

lemma merge_ok:
  assumes A: "wf_compressed n k ap ai av" "in_order (lines_of n (tv_elems ap) (tv_elems ai) (tv_elems av))"
    and B: "wf_compressed n k bp bi bv" "in_order (lines_of n (tv_elems bp) (tv_elems bi) (tv_elems bv))"
    and small: "length (tv_elems av) + length (tv_elems bv) < 2 ^ 63"
    and L: "line_merge line_loop joined"
  shows "\<exists>p i v. Option.bind (merge_lines line_loop n (ap, ai, av) (bp, bi, bv)) (merge_parts dt n) = Some (Inr (p, i, v)) \<and>
    wf_compressed n k p i v \<and> tv_dtype v = dt \<and> in_order (lines_of n (tv_elems p) (tv_elems i) (tv_elems v)) \<and>
    (\<forall>q. lookup (lines_of n (tv_elems p) (tv_elems i) (tv_elems v)) q =
      joined (lookup (lines_of n (tv_elems ap) (tv_elems ai) (tv_elems av)) q)
        (lookup (lines_of n (tv_elems bp) (tv_elems bi) (tv_elems bv)) q))"
proof -
  from line_merge.merge_lines_ok[OF L A B] obtain es where es: "merge_lines line_loop n (ap, ai, av) (bp, bi, bv) =
      Some (ptrs_of n (map fst es), map (\<lambda>e. fst (snd e)) es, map (\<lambda>e. snd (snd e)) es)" "in_order es"
    "indices_below n (map fst es)" "indices_below k (map (\<lambda>e. fst (snd e)) es)"
    "\<forall>p. lookup es p = joined (lookup (lines_of n (tv_elems ap) (tv_elems ai) (tv_elems av)) p)
      (lookup (lines_of n (tv_elems bp) (tv_elems bi) (tv_elems bv)) p)" by blast
  have "length es \<le> length (tv_elems av) + length (tv_elems bv)"
    using positions_bounded[where j = joined, OF _ es(5) line_merge.joined_None[OF L]] es(2) length_lines[OF A(1)] length_lines[OF B(1)]
    by (simp add: in_order_iff)
  then have "length es < 2 ^ 63" using small by linarith
  moreover have "n < 2 ^ 63" "k < 2 ^ 63" using A(1) by (simp_all add: wf_compressed_def Let_def)
  ultimately obtain p i v where "merge_parts dt n (ptrs_of n (map fst es), map (\<lambda>e. fst (snd e)) es, map (\<lambda>e. snd (snd e)) es) = Some (Inr (p, i, v)) \<and>
      wf_compressed n k p i v \<and> tv_dtype v = dt \<and> lines_of n (tv_elems p) (tv_elems i) (tv_elems v) = es"
    using merge_parts_ok[OF es(2-4), of dt] by blast
  with es(1,2,5) show ?thesis by (intro exI[of _ p] exI[of _ i] exI[of _ v]) (simp only: Option.bind.bind_lunit, blast)
qed

text \<open>The lines of a matrix, CSR or CSC alike.\<close>

abbreviation parts_entries :: "nat \<Rightarrow> 'a parts \<Rightarrow> 'a entry list" where
  "parts_entries n a \<equiv> lines_of n (tv_elems (fst a)) (tv_elems (fst (snd a))) (tv_elems (snd (snd a)))"

lemma client_csr_ok:
  assumes A: "wf_compressed (fst shp) k (fst a) (fst (snd a)) (snd (snd a))" "in_order (parts_entries (fst shp) a)"
    and B: "wf_compressed (fst shp) k (fst b) (fst (snd b)) (snd (snd b))" "in_order (parts_entries (fst shp) b)"
    and ne: "tv_elems (snd (snd a)) \<noteq> []" "tv_elems (snd (snd b)) \<noteq> []"
    and small: "length (tv_elems (snd (snd a))) + length (tv_elems (snd (snd b))) < 2 ^ 63"
  shows "\<exists>r. client_csr T sem a b shp = Some (Inr r) \<and> wf_compressed (fst shp) k (fst r) (fst (snd r)) (snd (snd r)) \<and>
    tv_dtype (snd (snd r)) = t_elem T \<and> in_order (parts_entries (fst shp) r) \<and>
    (\<forall>q. lookup (parts_entries (fst shp) r) q =
      keeping (keeps T) (elementwise_at T sem (lookup (parts_entries (fst shp) a) q) (lookup (parts_entries (fst shp) b) q)))"
proof -
  obtain ap ai av where a: "a = (ap, ai, av)" by (cases a)
  obtain bp bi bv where b: "b = (bp, bi, bv)" by (cases b)
  have "handle_empty_compressed T sem (fst shp) a b = None" for sem
    using A(1) B(1) ne by (simp add: handle_empty_compressed_def Let_def wf_compressed_numel)
  then have go: "client_csr T sem a b shp = Option.bind (merge_lines (case sem of Add \<Rightarrow> merge_union (keeps T) (add_op T) (\<lambda>a. a) (\<lambda>b. b)
      | Subtract \<Rightarrow> merge_union (keeps T) (sub_op T) (\<lambda>a. a) (neg_op T) | Multiply \<Rightarrow> merge_intersection (keeps T) (mul_op T)
      | Divide \<Rightarrow> merge_intersection (keeps T) (div_op T)) (fst shp) a b) (merge_parts (t_elem T) (fst shp))" for sem
    by (cases sem) (simp_all add: merge_csr_impl_def merge_compressed_def)
  have "line_merge (case sem of Add \<Rightarrow> merge_union (keeps T) (add_op T) (\<lambda>a. a) (\<lambda>b. b)
      | Subtract \<Rightarrow> merge_union (keeps T) (sub_op T) (\<lambda>a. a) (neg_op T) | Multiply \<Rightarrow> merge_intersection (keeps T) (mul_op T)
      | Divide \<Rightarrow> merge_intersection (keeps T) (div_op T)) (\<lambda>x y. keeping (keeps T) (elementwise_at T sem x y))"
    by (cases sem) (simp_all add: union_merge.line_merge_axioms intersection_merge.line_merge_axioms)
  from merge_ok[OF _ _ _ _ _ this, of "fst shp" k ap ai av bp bi bv "t_elem T"] A B small a b obtain p i v where
    "client_csr T sem a b shp = Some (Inr (p, i, v))" "wf_compressed (fst shp) k p i v" "tv_dtype v = t_elem T"
    "in_order (parts_entries (fst shp) (p, i, v))"
    "\<forall>q. lookup (parts_entries (fst shp) (p, i, v)) q =
      keeping (keeps T) (elementwise_at T sem (lookup (parts_entries (fst shp) a) q) (lookup (parts_entries (fst shp) b) q))"
    unfolding go by auto
  then show ?thesis by (intro exI[of _ "(p, i, v)"]) simp
qed

lemma keeping_True [simp]: "keeping (\<lambda>_. True) x = x"
  by (cases x) simp_all

section \<open>An operand without entries\<close>

lemma lookup_map_values: "lookup (map (\<lambda>e. (fst e, fst (snd e), f (snd (snd e)))) es) q = map_option f (lookup es q)"
  by (induction es) auto

lemma lines_of_map:
  assumes w: "wf_compressed n k p i v" and v': "tv_elems v' = map f (tv_elems v)"
  shows "lines_of n (tv_elems p) (tv_elems i) (tv_elems v') =
    map (\<lambda>e. (fst e, fst (snd e), f (snd (snd e)))) (lines_of n (tv_elems p) (tv_elems i) (tv_elems v))"
proof -
  have ptrs: "wf_ptrs n (length (tv_elems v)) (tv_elems p)" and len: "length (tv_elems i) = length (tv_elems v)"
    using w by (simp_all add: wf_compressed_def Let_def wf_tvec_def)
  have "line_of (tv_elems p) (tv_elems i) (tv_elems v') l =
      map (\<lambda>e. (fst e, fst (snd e), f (snd (snd e)))) (line_of (tv_elems p) (tv_elems i) (tv_elems v) l)" if "l < n" for l
    using wf_ptrs_range[OF ptrs, of "Suc l"] that by (auto simp: line_of_def v')
  then have "map (line_of (tv_elems p) (tv_elems i) (tv_elems v')) [0..<n] =
      map (\<lambda>l. map (\<lambda>e. (fst e, fst (snd e), f (snd (snd e)))) (line_of (tv_elems p) (tv_elems i) (tv_elems v) l)) [0..<n]"
    by (intro map_cong) simp_all
  then show ?thesis by (simp only: lines_of_def map_concat map_map comp_def)
qed

text \<open>A matrix whose entries are those of another with a function applied to the values.\<close>

abbreviation mapped_entries :: "('a \<Rightarrow> 'a) \<Rightarrow> 'a entry list \<Rightarrow> 'a entry list" where
  "mapped_entries f es \<equiv> map (\<lambda>e. (fst e, fst (snd e), f (snd (snd e)))) es"

lemma empty_result_ok:
  assumes "n < 2 ^ 63" "k < 2 ^ 63"
  shows "\<exists>r. empty_result dt n = Some (Inr r) \<and> wf_compressed n k (fst r) (fst (snd r)) (snd (snd r)) \<and>
    tv_dtype (snd (snd r)) = dt \<and> parts_entries n r = []"
  using assms wf_empty[OF assms, of dt] lines_of_empty[of "[]" n "[]"]
  by (simp add: empty_result_def from_slice_def zero_ptrs_def empty_tvec_def)

lemma client_csr_empty:
  assumes A: "wf_compressed (fst shp) k (fst a) (fst (snd a)) (snd (snd a))" "in_order (parts_entries (fst shp) a)"
    and B: "wf_compressed (fst shp) k (fst b) (fst (snd b)) (snd (snd b))" "in_order (parts_entries (fst shp) b)"
    and e: "tv_elems (snd (snd a)) = [] \<or> tv_elems (snd (snd b)) = []"
    and dt: "tv_dtype (snd (snd a)) = t_elem T" "tv_dtype (snd (snd b)) = t_elem T"
    and nd: "\<not> (sem = Divide \<and> tv_elems (snd (snd a)) \<noteq> [])"
  shows "\<exists>r. client_csr T sem a b shp = Some (Inr r) \<and> wf_compressed (fst shp) k (fst r) (fst (snd r)) (snd (snd r)) \<and>
    tv_dtype (snd (snd r)) = t_elem T \<and> in_order (parts_entries (fst shp) r) \<and>
    (\<forall>q. lookup (parts_entries (fst shp) r) q =
      elementwise_at T sem (lookup (parts_entries (fst shp) a) q) (lookup (parts_entries (fst shp) b) q))"
proof -
  let ?n = "fst shp" and ?A = "parts_entries (fst shp) a" and ?B = "parts_entries (fst shp) b"
  obtain ap ai av where a: "a = (ap, ai, av)" by (cases a)
  obtain bp bi bv where b: "b = (bp, bi, bv)" by (cases b)
  have num: "numel (snd (snd a)) = length (tv_elems (snd (snd a)))" "numel (snd (snd b)) = length (tv_elems (snd (snd b)))"
    using A(1) B(1) by (simp_all add: wf_compressed_numel)
  have nil: "tv_elems (snd (snd a)) = [] \<Longrightarrow> ?A = []" "tv_elems (snd (snd b)) = [] \<Longrightarrow> ?B = []"
    using length_lines[OF A(1)] length_lines[OF B(1)] by simp_all
  have h: "client_csr T sem a b shp = (case handle_empty_compressed T sem ?n a b of Some r \<Rightarrow> r | None \<Rightarrow> undefined)"
    if "handle_empty_compressed T sem ?n a b \<noteq> None"
    using that by (cases sem) (auto simp: merge_csr_impl_def merge_compressed_def)
  have "?n < 2 ^ 63" "k < 2 ^ 63" using A(1) by (simp_all add: wf_compressed_def Let_def)
  from empty_result_ok[OF this, of "t_elem T"] obtain r0 :: "'a parts" where
    r0: "empty_result (t_elem T) ?n = Some (Inr r0)" "wf_compressed ?n k (fst r0) (fst (snd r0)) (snd (snd r0))"
      "tv_dtype (snd (snd r0)) = t_elem T" "parts_entries ?n r0 = []" by blast
  show ?thesis
  proof (cases "tv_elems (snd (snd a)) = []")
    case True
    show ?thesis
    proof (cases "tv_elems (snd (snd b)) = [] \<or> sem = Multiply \<or> sem = Divide")
      case T: True
      then have "handle_empty_compressed T sem ?n a b = Some (empty_result (t_elem T) ?n)"
        using True num by (auto simp: handle_empty_compressed_def Let_def)
      with h r0 T True nil show ?thesis by (intro exI[of _ r0]) auto
    next
      case F: False
      show ?thesis
      proof (cases sem)
        case Add
        then have "client_csr T sem a b shp = Some (Inr b)"
          using h True F num by (simp add: handle_empty_compressed_def Let_def)
        then show ?thesis using B dt True nil Add by (simp add: option.map_ident)
      next
        case Subtract
        let ?v = "\<lparr>tv_dtype = t_elem T, tv_shape = [length (tv_elems bv)], tv_elems = map (neg_op T) (tv_elems bv)\<rparr>"
        have lb: "length (tv_elems bv) < 2 ^ 64" using B(1) b by (simp add: wf_compressed_def Let_def)
        have "client_csr T sem a b shp = Some (Inr (bp, bi, ?v))"
          using h True F num Subtract b lb by (simp add: handle_empty_compressed_def Let_def from_slice_def neg_op_def[abs_def])
        moreover have "wf_compressed ?n k bp bi ?v" using B(1) b by (simp add: wf_compressed_def Let_def)
        moreover have "lines_of ?n (tv_elems bp) (tv_elems bi) (tv_elems ?v) = mapped_entries (neg_op T) ?B"
          using lines_of_map[of ?n k bp bi bv ?v "neg_op T"] B(1) b by simp
        ultimately show ?thesis using B(2) True nil Subtract
          by (intro exI[of _ "(bp, bi, ?v)"]) (simp add: lookup_map_values comp_def)
      qed (use F in auto)
    qed
  next
    case False
    then have eb: "tv_elems (snd (snd b)) = []" and sd: "sem \<noteq> Divide" using e nd by auto
    show ?thesis
    proof (cases "sem = Multiply")
      case T: True
      then have "handle_empty_compressed T sem ?n a b = Some (empty_result (t_elem T) ?n)"
        using False eb num by (auto simp: handle_empty_compressed_def Let_def)
      with h r0 T eb nil show ?thesis by (intro exI[of _ r0]) auto
    next
      case F: False
      then have s: "sem = Add \<or> sem = Subtract" using sd by (cases sem) auto
      then have "client_csr T sem a b shp = Some (Inr a)"
        using h False eb num by (auto simp: handle_empty_compressed_def Let_def)
      then show ?thesis using A dt eb nil s by auto
    qed
  qed
qed

text \<open>
  What an operation leaves at a position. \<open>full\<close>: both operands have entries; \<open>csr\<close>: both are CSR matrices.
  A negligible result is dropped, but not by the divisions of COO and CSC matrices, nor by the
  shortcuts for an operand without entries.
\<close>

definition result_at :: "('a, 'f) scalar \<Rightarrow> op_semantics \<Rightarrow> bool \<Rightarrow> bool \<Rightarrow> 'a option \<Rightarrow> 'a option \<Rightarrow> 'a option" where
  "result_at T sem csr full x y =
     (if full \<and> (csr \<or> sem \<noteq> Divide) then keeping (keeps T) (elementwise_at T sem x y) else elementwise_at T sem x y)"

lemma client_csr_any:
  assumes A: "wf_compressed (fst shp) k (fst a) (fst (snd a)) (snd (snd a))" "in_order (parts_entries (fst shp) a)"
    and B: "wf_compressed (fst shp) k (fst b) (fst (snd b)) (snd (snd b))" "in_order (parts_entries (fst shp) b)"
    and dt: "tv_dtype (snd (snd a)) = t_elem T" "tv_dtype (snd (snd b)) = t_elem T"
    and small: "length (parts_entries (fst shp) a) + length (parts_entries (fst shp) b) < 2 ^ 63"
    and nd: "\<not> (sem = Divide \<and> parts_entries (fst shp) a \<noteq> [] \<and> parts_entries (fst shp) b = [])"
  shows "\<exists>r. client_csr T sem a b shp = Some (Inr r) \<and> wf_compressed (fst shp) k (fst r) (fst (snd r)) (snd (snd r)) \<and>
    tv_dtype (snd (snd r)) = t_elem T \<and> in_order (parts_entries (fst shp) r) \<and>
    (\<forall>q. lookup (parts_entries (fst shp) r) q =
      result_at T sem True (parts_entries (fst shp) a \<noteq> [] \<and> parts_entries (fst shp) b \<noteq> [])
        (lookup (parts_entries (fst shp) a) q) (lookup (parts_entries (fst shp) b) q))"
proof -
  have nil: "tv_elems (snd (snd a)) = [] \<longleftrightarrow> parts_entries (fst shp) a = []" "tv_elems (snd (snd b)) = [] \<longleftrightarrow> parts_entries (fst shp) b = []"
    and l: "length (tv_elems (snd (snd a))) + length (tv_elems (snd (snd b))) < 2 ^ 63"
    using length_lines[OF A(1)] length_lines[OF B(1)] small by (metis length_0_conv, metis length_0_conv, simp)
  show ?thesis
  proof (cases "parts_entries (fst shp) a \<noteq> [] \<and> parts_entries (fst shp) b \<noteq> []")
    case True
    then show ?thesis using client_csr_ok[OF A B _ _ l, of T sem] nil unfolding result_at_def by simp
  next
    case False
    then have "result_at T sem True (parts_entries (fst shp) a \<noteq> [] \<and> parts_entries (fst shp) b \<noteq> []) x y = elementwise_at T sem x y" for x y
      by (simp only: result_at_def) simp
    note eq = this
    have h: "tv_elems (snd (snd a)) = [] \<or> tv_elems (snd (snd b)) = []" "\<not> (sem = Divide \<and> tv_elems (snd (snd a)) \<noteq> [])"
      using False nd nil by auto
    show ?thesis using client_csr_empty[OF A B h(1) dt h(2)] unfolding eq .
  qed
qed

lemma numel_entries:
  "wf_csr m \<Longrightarrow> numel (csr_values m) = length (csr_entries m) \<and> length (tv_elems (csr_values m)) = length (csr_entries m)"
  "wf_csc d \<Longrightarrow> numel (csc_values d) = length (csc_entries d) \<and> length (tv_elems (csc_values d)) = length (csc_entries d)"
  by (simp_all add: wf_csr_def wf_csc_def csr_entries_def csc_entries_def wf_compressed_numel length_lines)

lemma csr_elementwise_ok:
  assumes "wf_csr a" "wf_csr b" "in_order (csr_entries a)" "in_order (csr_entries b)" and shp: "csr_shape b = csr_shape a"
    and dt: "tv_dtype (csr_values a) = t_elem T" "tv_dtype (csr_values b) = t_elem T" "t_elem T \<noteq> Bool"
    and small: "length (csr_entries a) + length (csr_entries b) < 2 ^ 63"
  shows "if sem = Divide \<and> csr_entries a \<noteq> [] \<and> csr_entries b = []
    then csr_elementwise T sem a b = Some (Inl (Internal ''Division by zero - B matrix is empty''))
    else \<exists>r. csr_elementwise T sem a b = Some (Inr r) \<and> wf_csr r \<and> csr_shape r = csr_shape a \<and> tv_dtype (csr_values r) = t_elem T \<and>
      in_order (csr_entries r) \<and> (\<forall>q. lookup (csr_entries r) q =
        result_at T sem True (csr_entries a \<noteq> [] \<and> csr_entries b \<noteq> []) (lookup (csr_entries a) q) (lookup (csr_entries b) q))"
proof -
  let ?a = "(csr_ptrs a, csr_indices a, csr_values a)" and ?b = "(csr_ptrs b, csr_indices b, csr_values b)"
  have e: "parts_entries (fst (csr_shape a)) ?a = csr_entries a" "parts_entries (fst (csr_shape a)) ?b = csr_entries b"
    by (simp_all add: csr_entries_def shp)
  note n = numel_entries(1)[OF assms(1)] numel_entries(1)[OF assms(2)]
  have run: "csr_elementwise T sem a b = bindR (client_csr T sem ?a ?b (csr_shape a))
      (\<lambda>(p, i, v). Some (Inr \<lparr>csr_ptrs = p, csr_indices = i, csr_values = v, csr_shape = csr_shape a\<rparr>))"
    for sem
    using shp dt by (simp add: csr_elementwise_def validate_operands_def)
  show ?thesis
  proof (cases "sem = Divide \<and> csr_entries a \<noteq> [] \<and> csr_entries b = []")
    case True
    then have "handle_empty_compressed T Divide (fst (csr_shape a)) ?a ?b =
        Some (Some (Inl (Internal ''Division by zero - B matrix is empty'')))"
      using n by (simp add: handle_empty_compressed_def Let_def)
    then show ?thesis using True by (simp add: run merge_csr_impl_def merge_compressed_def)
  next
    case False
    have w: "wf_compressed (fst (csr_shape a)) (snd (csr_shape a)) (fst ?a) (fst (snd ?a)) (snd (snd ?a))"
      "wf_compressed (fst (csr_shape a)) (snd (csr_shape a)) (fst ?b) (fst (snd ?b)) (snd (snd ?b))"
      using assms(1,2) shp by (simp_all add: wf_csr_def)
    from client_csr_any[OF w(1) _ w(2), unfolded e, OF assms(3,4), of T sem] dt small False obtain p i v where
      "client_csr T sem ?a ?b (csr_shape a) = Some (Inr (p, i, v))" "wf_compressed (fst (csr_shape a)) (snd (csr_shape a)) p i v"
      "tv_dtype v = t_elem T" "in_order (parts_entries (fst (csr_shape a)) (p, i, v))"
      "\<forall>q. lookup (parts_entries (fst (csr_shape a)) (p, i, v)) q =
        result_at T sem True (csr_entries a \<noteq> [] \<and> csr_entries b \<noteq> []) (lookup (csr_entries a) q) (lookup (csr_entries b) q)"
      by auto
    then show ?thesis unfolding run if_not_P[OF False]
      by (intro exI[of _ "\<lparr>csr_ptrs = p, csr_indices = i, csr_values = v, csr_shape = csr_shape a\<rparr>"]) (simp add: wf_csr_def csr_entries_def)
  qed
qed

abbreviation swapped :: "'a csc \<Rightarrow> 'a entry list" where
  "swapped d \<equiv> lines_of (snd (csc_shape d)) (tv_elems (csc_ptrs d)) (tv_elems (csc_indices d)) (tv_elems (csc_values d))"

lemma lookup_swap: "lookup (map swap_entry es) (r, c) = lookup es (c, r)"
  by (induction es) (auto simp: swap_entry_def)

lemma lookup_csc: "lookup (csc_entries d) (r, c) = lookup (swapped d) (c, r)"
  by (simp add: csc_entries_def lookup_swap)

lemma in_order_csc: "sorted_wrt (<) (map position' (csc_entries d)) \<longleftrightarrow> in_order (swapped d)"
  by (simp add: csc_entries_def swap_entry_def comp_def)

lemma client_csc_csr: "client_csc T sem a b shp = client_csr T sem a b (snd shp, fst shp)"
  by (cases sem) (simp_all add: merge_csr_impl_def merge_csc_impl_def)

lemma csc_elementwise_ok:
  assumes "wf_csc a" "wf_csc b" "in_order (swapped a)" "in_order (swapped b)" and shp: "csc_shape b = csc_shape a"
    and dt: "tv_dtype (csc_values a) = t_elem T" "tv_dtype (csc_values b) = t_elem T" "t_elem T \<noteq> Bool"
    and small: "length (csc_entries a) + length (csc_entries b) < 2 ^ 63"
  shows "\<exists>r. csc_elementwise T sem a b = Some (Inr r) \<and> wf_csc r \<and> csc_shape r = csc_shape a \<and> tv_dtype (csc_values r) = t_elem T \<and>
    in_order (swapped r) \<and> (\<forall>q. lookup (csc_entries r) q =
      result_at T sem False (csc_entries a \<noteq> [] \<and> csc_entries b \<noteq> []) (lookup (csc_entries a) q) (lookup (csc_entries b) q))"
proof -
  let ?a = "(csc_ptrs a, csc_indices a, csc_values a)" and ?b = "(csc_ptrs b, csc_indices b, csc_values b)"
    and ?n = "snd (csc_shape a)" and ?k = "fst (csc_shape a)"
  have w: "wf_compressed ?n ?k (csc_ptrs a) (csc_indices a) (csc_values a)" "wf_compressed ?n ?k (csc_ptrs b) (csc_indices b) (csc_values b)"
    using assms(1,2) shp by (simp_all add: wf_csc_def)
  have l: "length (tv_elems (csc_values a)) = length (csc_entries a)" "length (tv_elems (csc_values b)) = length (csc_entries b)"
    "numel (csc_values a) = length (csc_entries a)" "numel (csc_values b) = length (csc_entries b)"
    using numel_entries(2)[OF assms(1)] numel_entries(2)[OF assms(2)] by simp_all
  have io: "in_order (parts_entries ?n ?a)" "in_order (parts_entries ?n ?b)" using assms(3,4) shp by simp_all
  have e: "lines_of ?n (tv_elems (csc_ptrs b)) (tv_elems (csc_indices b)) (tv_elems (csc_values b)) = swapped b" by (simp only: shp)
  have n: "swapped a = [] \<longleftrightarrow> csc_entries a = []" "swapped b = [] \<longleftrightarrow> csc_entries b = []"
      "length (swapped a) = length (csc_entries a)" "length (swapped b) = length (csc_entries b)"
    by (simp_all add: csc_entries_def)
  consider (client) "sem \<noteq> Divide" | (empty) "sem = Divide" "csc_entries a = [] \<or> csc_entries b = []"
    | (loop) "sem = Divide" "csc_entries a \<noteq> []" "csc_entries b \<noteq> []" by blast
  then show ?thesis
  proof cases
    case client
    then have "\<not> (sem = Divide \<and> swapped a \<noteq> [] \<and> swapped b = [])" by simp
    from client_csr_any[of "(?n, ?k)" ?k ?a ?b T sem, unfolded fst_conv snd_conv e, OF w(1) assms(3) w(2) assms(4) dt(1,2) _ this]
    obtain p i v where r: "client_csr T sem ?a ?b (?n, ?k) = Some (Inr (p, i, v))" "wf_compressed ?n ?k p i v"
      "tv_dtype v = t_elem T" "in_order (lines_of ?n (tv_elems p) (tv_elems i) (tv_elems v))"
      "\<forall>q. lookup (lines_of ?n (tv_elems p) (tv_elems i) (tv_elems v)) q =
        result_at T sem True (swapped a \<noteq> [] \<and> swapped b \<noteq> []) (lookup (swapped a) q) (lookup (swapped b) q)"
      using small n by auto
    then show ?thesis using client shp dt n
      by (simp add: csc_elementwise_def validate_operands_def client_csc_csr wf_csc_def lookup_csc result_at_def)
  next
    case empty
    let ?r = "csc_empty (csc_shape a) (t_elem T) :: 'a csc"
    have "csc_elementwise T sem a b = Some (Inr ?r)"
      using empty l shp dt by (auto simp: csc_elementwise_def validate_operands_def csc_div_def Let_def)
    moreover have "wf_csc ?r" using w(1) wf_empty[of ?n ?k "t_elem T"]
      by (simp add: wf_csc_def csc_empty_def wf_compressed_def Let_def)
    moreover have "swapped ?r = []" 
      using lines_of_empty[of "[]" ?n "[]"] by (simp add: csc_empty_def zero_ptrs_def empty_tvec_def)
    moreover have "csc_entries ?r = []" using \<open>swapped ?r = []\<close> by (simp add: csc_entries_def)
    moreover have "lookup (csc_entries a) q = None \<or> lookup (csc_entries b) q = None" for q using empty by auto
    ultimately show ?thesis using empty
      by (intro exI[of _ ?r]) (auto simp: csc_empty_def empty_tvec_def result_at_def)
  next
    case loop
    have "line_merge (merge_intersection (\<lambda>_. True) (div_op T)) (\<lambda>x y. keeping (\<lambda>_. True) (elementwise_at T sem x y))"
      using intersection_merge.line_merge_axioms[of "\<lambda>_. True" "div_op T"] loop by simp
    from merge_ok[OF w(1) _ w(2) _ _ this, of "t_elem T"] io small l obtain p i v where
      r: "Option.bind (merge_lines (merge_intersection (\<lambda>_. True) (div_op T)) ?n ?a ?b) (merge_parts (t_elem T) ?n) = Some (Inr (p, i, v))"
      "wf_compressed ?n ?k p i v" "tv_dtype v = t_elem T" "in_order (lines_of ?n (tv_elems p) (tv_elems i) (tv_elems v))"
      "\<forall>q. lookup (lines_of ?n (tv_elems p) (tv_elems i) (tv_elems v)) q = elementwise_at T sem (lookup (swapped a) q) (lookup (swapped b) q)"
      using shp by auto
    obtain ptrs ix vs where m: "merge_lines (merge_intersection (\<lambda>_. True) (div_op T)) ?n ?a ?b = Some (ptrs, ix, vs)"
      using r(1) by (cases "merge_lines (merge_intersection (\<lambda>_. True) (div_op T)) ?n ?a ?b") auto
    have mp: "merge_parts (t_elem T) ?n (ptrs, ix, vs) = Some (Inr (p, i, v))" using r(1) m by simp
    then have "length ptrs = ?n + 1" using w(1)
      by (auto simp: merge_parts_def from_slice_def wf_compressed_def Let_def split: if_splits)
    then have "csc_div T a b = Some (csc_new p i v (csc_shape a))"
      using m mp dt l loop by (auto simp: csc_div_def merge_parts_def from_slice_def split: if_splits)
    moreover have "compressed_check ?n p i v = Inr ()" using compressed_check_ok[OF r(2)] .
    ultimately show ?thesis using loop shp dt r
      by (simp add: csc_elementwise_def validate_operands_def csc_new_def wf_csc_def lookup_csc result_at_def)
  qed
qed

section \<open>Coordinate matrices\<close>

text \<open>What the scan makes of the values at one position, in their sorted order: later ones are folded into the first.\<close>

fun group_value :: "('a \<Rightarrow> 'a \<Rightarrow> 'a) \<Rightarrow> ('a \<Rightarrow> 'a) \<Rightarrow> ('a \<Rightarrow> 'a) \<Rightarrow> ('a \<times> bool) list \<Rightarrow> 'a option" where
  "group_value opr fa fb [] = None"
| "group_value opr fa fb [(v, s)] = Some (if s then fa v else fb v)"
| "group_value opr fa fb ((v, s) # g # gs) = Some (foldl opr v (map fst (g # gs)))"

definition group_at :: "'a tagged list \<Rightarrow> int \<times> int \<Rightarrow> ('a \<times> bool) list" where
  "group_at ts q = map snd (filter (\<lambda>t. fst t = q) ts)"

lemma group_at_simps [simp]:
  "group_at [] q = []" "group_at ((p, x) # ts) q = (if p = q then x # group_at ts q else group_at ts q)"
  by (simp_all add: group_at_def)

lemma lookup_emit: "lookup (emit keep p v @ es) q = (if q = p \<and> keep v then Some v else lookup es q)"
  by (auto simp: emit_def)

lemma emit_positions:
  "in_order (emit keep p v @ es) \<longleftrightarrow> in_order es \<and> (keep v \<longrightarrow> (\<forall>e \<in> set es. p < position e))"
  "set (map position (emit keep p v @ es)) \<subseteq> insert p (set (map position es))"
  "(\<forall>e \<in> set es. p \<le> position e) \<Longrightarrow> e \<in> set (emit keep p v @ es) \<Longrightarrow> p \<le> position e"
  by (auto simp: emit_def simp del: less_prod_simp less_eq_prod_simp)

lemma group_at_below: "\<forall>t \<in> set ts. p < fst t \<Longrightarrow> group_at ts p = []"
  by (auto simp: group_at_def filter_empty_conv)

lemma coo_scan_positions:
  "sorted (p # map fst ts) \<Longrightarrow> in_order (coo_scan keep opr fa fb ts p v s m) \<and>
    set (map position (coo_scan keep opr fa fb ts p v s m)) \<subseteq> insert p (fst ` set ts) \<and>
    (\<forall>e \<in> set (coo_scan keep opr fa fb ts p v s m). p \<le> position e)"
proof (induction keep opr fa fb ts p v s m rule: coo_scan.induct)
  case (1 keep opr fa fb p v s m)
  then show ?case by (auto simp: emit_def)
next
  case (2 keep opr fa fb q w t ts p v s m)
  show ?case
  proof (cases "q = p")
    case True
    with 2 show ?thesis by auto
  next
    case False
    let ?r = "coo_scan keep opr fa fb ts q w t False"
    have pq: "p < q" using 2(3) False by (simp add: less_le)
    have ih: "in_order ?r" "set (map position ?r) \<subseteq> insert q (fst ` set ts)" "\<forall>e \<in> set ?r. q \<le> position e"
      using 2(2)[OF False] 2(3) by simp_all
    have lt: "\<forall>e \<in> set ?r. p < position e" using ih(3) pq less_le_trans by blast
    have "in_order (emit keep p (final_val fa fb v s m) @ ?r)" using ih(1) lt by (simp only: emit_positions(1)) blast
    moreover have "\<forall>e \<in> set ?r. p \<le> position e" using lt less_imp_le by blast
    moreover have "set (map position (emit keep p (final_val fa fb v s m) @ ?r)) \<subseteq> insert p (fst ` set ((q, w, t) # ts))"
      using emit_positions(2)[of keep p "final_val fa fb v s m" ?r] ih(2) by (simp del: set_append map_append) blast
    ultimately show ?thesis using False emit_positions(3)[of ?r p] by (simp del: map_append set_append)
  qed
qed

lemma coo_scan_lookup:
  "sorted (p # map fst ts) \<Longrightarrow> lookup (coo_scan keep opr fa fb ts p v s m) q = keeping keep
    (if q = p then Some (if m \<or> group_at ts p \<noteq> [] then foldl opr v (map fst (group_at ts p)) else if s then fa v else fb v)
     else group_value opr fa fb (group_at ts q))"
proof (induction keep opr fa fb ts p v s m rule: coo_scan.induct)
  case (1 keep opr fa fb p v s m)
  show ?case using lookup_emit[of keep p "final_val fa fb v s m" "[]" q] by (auto simp: final_val_def)
next
  case (2 keep opr fa fb r w t ts p v s m)
  show ?case
  proof (cases "r = p")
    case True
    with 2(1)[OF True] 2(3) show ?thesis by simp
  next
    case False
    have "p < r" using 2(3) False by (simp add: less_le)
    then have "group_at ts p = []" using 2(3) by (auto intro!: group_at_below dest: less_le_trans)
    moreover have "group_value opr fa fb ((w, t) # group_at ts r) =
        Some (if group_at ts r \<noteq> [] then foldl opr w (map fst (group_at ts r)) else if t then fa w else fb w)"
      by (cases "group_at ts r") auto
    ultimately show ?thesis using 2(2)[OF False] 2(3) False by (auto simp: lookup_emit final_val_def)
  qed
qed

lemma coo_positions:
  assumes "wf_coo m" and "lookup (coo_entries m) p \<noteq> None"
  shows "0 \<le> fst p \<and> fst p < int (fst (coo_shape m)) \<and> 0 \<le> snd p \<and> snd p < int (snd (coo_shape m))"
proof -
  obtain e where e: "e \<in> set (coo_entries m)" "p = position e" using assms(2) by (auto simp: lookup_None)
  obtain r c v where "e = (r, c, v)" by (cases e)
  with e(1) have "r \<in> set (tv_elems (coo_rows m))" "c \<in> set (tv_elems (coo_cols m))"
    by (auto simp: coo_entries_def dest: set_zip_leftD set_zip_rightD)
  then show ?thesis using assms(1) e(2) \<open>e = (r, c, v)\<close> by (simp add: wf_coo_def Let_def indices_below_def)
qed

lemma length_coo: "wf_coo m \<Longrightarrow> numel (coo_values m) = length (coo_entries m) \<and> length (tv_elems (coo_values m)) = length (coo_entries m)"
  by (simp add: wf_coo_def Let_def wf_tvec_def numel_def coo_entries_def)

text \<open>The three vectors of a coordinate matrix of shape \<open>shp\<close>.\<close>

definition coo_ok :: "dtype \<Rightarrow> nat \<times> nat \<Rightarrow> int tvec \<Rightarrow> int tvec \<Rightarrow> 'a tvec \<Rightarrow> bool" where
  "coo_ok dt shp r c v \<longleftrightarrow> tv_dtype v = dt \<and>
     wf_coo \<lparr>coo_rows = r, coo_cols = c, coo_values = v, coo_shape = shp, coo_sorted = True\<rparr>"

lemma coo_result:
  assumes "wf_coo a" "wf_coo b" and shp: "coo_shape b = coo_shape a"
    and es: "in_order es" "\<forall>p. lookup es p = j (lookup (coo_entries a) p) (lookup (coo_entries b) p)" "j None None = None"
    and small: "length (coo_entries a) + length (coo_entries b) < 2 ^ 63"
  shows "\<exists>r c v. coo_parts dt es = Some (Inr (r, c, v)) \<and> coo_ok dt (coo_shape a) r c v \<and> zip_entries (r, c, v) = es"
proof -
  have "length es \<le> length (coo_entries a) + length (coo_entries b)"
    using positions_bounded[where j = j, OF _ es(2,3)] es(1) by (simp add: in_order_iff)
  then have len: "length es < 2 ^ 63" using small by linarith
  have rng: "0 \<le> fst e \<and> fst e < int (fst (coo_shape a)) \<and> 0 \<le> fst (snd e) \<and> fst (snd e) < int (snd (coo_shape a))" if "e \<in> set es" for e
  proof -
    have "lookup es (position e) \<noteq> None" unfolding lookup_None using that by simp
    then have "lookup (coo_entries a) (position e) \<noteq> None \<or> lookup (coo_entries b) (position e) \<noteq> None" using es(2,3) by metis
    then show ?thesis using coo_positions[OF assms(1)] coo_positions[OF assms(2)] shp by fastforce
  qed
  have z: "zip (map fst es) (zip (map (\<lambda>e. fst (snd e)) es) (map (\<lambda>e. snd (snd e)) es)) = es"
    by (rule nth_equalityI) simp_all
  have b: "fst (coo_shape a) < 2 ^ 63" "snd (coo_shape a) < 2 ^ 63" using assms(1) by (simp_all add: wf_coo_def Let_def)
  show ?thesis using len rng b
    by (simp add: coo_parts_def from_slice_def coo_ok_def wf_coo_def wf_tvec_def indices_below_def zip_entries_def z)
qed

lemma tag_entries_coo:
  "wf_coo m \<Longrightarrow> tag_entries s (coo_rows m, coo_cols m, coo_values m) = Some (map (\<lambda>e. (position e, snd (snd e), s)) (coo_entries m))"
  by (auto simp: tag_entries_def wf_coo_def Let_def wf_tvec_def coo_entries_def intro!: nth_equalityI)

lemma indexed_entries_coo: "wf_coo m \<Longrightarrow> indexed_entries m = Some (coo_entries m)"
  unfolding coo_entries_def
  by (simp add: indexed_entries_def wf_coo_def Let_def wf_tvec_def numel_def) (auto intro!: nth_equalityI)

lemma group_at_tagged:
  "distinct (map position es) \<Longrightarrow>
    group_at (map (\<lambda>e. (position e, snd (snd e), s)) es) q = (case lookup es q of None \<Rightarrow> [] | Some v \<Rightarrow> [(v, s)])"
proof -
  assume d: "distinct (map position es)"
  have "group_at (map (\<lambda>e. (position e, snd (snd e), s)) es) q = map (\<lambda>v. (v, s)) (map (\<lambda>e. snd (snd e)) (filter (\<lambda>e. position e = q) es))"
    by (induction es) auto
  then show ?thesis unfolding filter_distinct[OF d] by (simp split: option.split)
qed

lemma group_at_sort: "group_at (sort_key fst ts) q = group_at ts q"
  by (simp add: group_at_def sort_key_stable)

lemma scan_ok:
  fixes keep :: "'a \<Rightarrow> bool" and opr fa fb
  assumes d: "distinct (map position ea)" "distinct (map position eb)"
  defines "ts \<equiv> sort_key fst (map (\<lambda>e. (position e, snd (snd e), True)) ea @ map (\<lambda>e. (position e, snd (snd e), False)) eb)"
  defines "es \<equiv> (case ts of [] \<Rightarrow> [] | (p, v, s) # ts \<Rightarrow> coo_scan keep opr fa fb ts p v s False)"
  shows "in_order es" and "lookup es q = keeping keep (combine opr (\<lambda>a. Some (fa a)) (\<lambda>b. Some (fb b)) (lookup ea q) (lookup eb q))"
proof -
  have g: "group_value opr fa fb (group_at ts q) = combine opr (\<lambda>a. Some (fa a)) (\<lambda>b. Some (fb b)) (lookup ea q) (lookup eb q)"
  proof -
    have "group_at ts q = group_at (map (\<lambda>e. (position e, snd (snd e), True)) ea) q @ group_at (map (\<lambda>e. (position e, snd (snd e), False)) eb) q"
      unfolding ts_def group_at_sort by (simp add: group_at_def)
    then show ?thesis unfolding group_at_tagged[OF d(1)] group_at_tagged[OF d(2)] by (simp split: option.split)
  qed
  have srt: "sorted (map fst ts)" by (simp add: ts_def)
  show "in_order es"
  proof (cases ts)
    case (Cons t ts')
    obtain p v s where t: "t = (p, v, s)" by (cases t)
    have "sorted (p # map fst ts')" using srt Cons t by simp
    from coo_scan_positions[OF this, of keep opr fa fb v s False] show ?thesis by (simp only: es_def Cons t list.case prod.case)
  qed (simp add: es_def)
  show "lookup es q = keeping keep (combine opr (\<lambda>a. Some (fa a)) (\<lambda>b. Some (fb b)) (lookup ea q) (lookup eb q))"
  proof (cases ts)
    case Nil
    then show ?thesis using g[symmetric] by (simp add: es_def)
  next
    case (Cons t ts')
    obtain p v s where t: "t = (p, v, s)" by (cases t)
    have "sorted (p # map fst ts')" using srt Cons t by simp
    from coo_scan_lookup[OF this, of keep opr fa fb v s False q]
    have "lookup es q = keeping keep (group_value opr fa fb (group_at ts q))"
      using Cons t by (cases "group_at ts' p") (auto simp: es_def)
    then show ?thesis by (simp only: g)
  qed
qed

text \<open>The merge-join is the merge of the association lists keyed by position.\<close>

abbreviation keyed :: "'a entry list \<Rightarrow> ((int \<times> int) \<times> 'a) list" where
  "keyed es \<equiv> map (\<lambda>e. (position e, snd (snd e))) es"

lemma keyed_emit: "keyed (emit keep p v @ es) = keep_cons keep p v (keyed es)"
  by (simp add: emit_def keep_cons_def)

lemma keyed_join: "keyed (coo_join keep opr as bs) = inter_list keep opr (keyed as) (keyed bs)"
proof (induction keep opr as bs rule: coo_join.induct)
  case (1 keep opr ar ac av as br bc bv bs)
  show ?case
  proof (cases "(ar, ac)" "(br, bc)" rule: linorder_cases)
    case less
    with 1(1) show ?thesis by (auto simp: keyed_emit)
  next
    case greater
    with 1(2) show ?thesis by (auto simp: keyed_emit)
  next
    case equal
    with 1(3) have "keyed (coo_join keep opr as bs) = inter_list keep opr (keyed as) (keyed bs)" by simp
    with equal show ?thesis using keyed_emit[of keep "(ar, ac)" "opr av bv" "coo_join keep opr as bs"] by simp
  qed
qed simp_all

lemma join_ok:
  fixes keep :: "'a \<Rightarrow> bool" and opr
  assumes d: "distinct (map position ea)" "distinct (map position eb)"
  defines "es \<equiv> coo_join keep opr (sort_key position ea) (sort_key position eb)"
  shows "in_order es" and "lookup es q = keeping keep (combine opr (\<lambda>_. None) (\<lambda>_. None) (lookup ea q) (lookup eb q))"
proof -
  have k: "keyed es = inter_list keep opr (keyed (sort_key position ea)) (keyed (sort_key position eb))"
    by (simp add: es_def keyed_join)
  have a: "ascending (keyed (sort_key position ea))" "ascending (keyed (sort_key position eb))"
    using in_order_sort[OF d(1)] in_order_sort[OF d(2)] by (simp_all add: comp_def)
  from ascending_inter[OF a(1)] have "ascending (keyed es)" unfolding k .
  then show "in_order es" by (simp add: comp_def)
  have "lookup es q = map_of (keyed es) q" by (simp add: lookup_def)
  also have "\<dots> = keeping keep (combine opr (\<lambda>_. None) (\<lambda>_. None) (lookup (sort_key position ea) q) (lookup (sort_key position eb) q))"
    unfolding k map_of_inter[OF a] by (simp add: lookup_def)
  finally show "lookup es q = keeping keep (combine opr (\<lambda>_. None) (\<lambda>_. None) (lookup ea q) (lookup eb q))" by simp
qed

lemma coo_union_ok:
  assumes w: "wf_coo a" "wf_coo b" and d: "distinct (map position (coo_entries a))" "distinct (map position (coo_entries b))"
    and shp: "coo_shape b = coo_shape a" and ne: "coo_entries a \<noteq> []" "coo_entries b \<noteq> []"
    and small: "length (coo_entries a) + length (coo_entries b) < 2 ^ 63"
  shows "\<exists>r c v. merge_coo_impl T opr fa fb (coo_rows a, coo_cols a, coo_values a) (coo_rows b, coo_cols b, coo_values b) = Some (Inr (r, c, v)) \<and>
    coo_ok (t_elem T) (coo_shape a) r c v \<and> in_order (zip_entries (r, c, v)) \<and>
    (\<forall>q. lookup (zip_entries (r, c, v)) q =
      keeping (keeps T) (combine opr (\<lambda>a. Some (fa a)) (\<lambda>b. Some (fb b)) (lookup (coo_entries a) q) (lookup (coo_entries b) q)))"
proof -
  let ?j = "\<lambda>x y. keeping (keeps T) (combine opr (\<lambda>a. Some (fa a)) (\<lambda>b. Some (fb b)) x y)"
  let ?es = "case sort_key fst (map (\<lambda>e. (position e, snd (snd e), True)) (coo_entries a) @
      map (\<lambda>e. (position e, snd (snd e), False)) (coo_entries b)) of [] \<Rightarrow> [] | (p, v, s) # ts \<Rightarrow> coo_scan (keeps T) opr fa fb ts p v s False"
  have "merge_coo_impl T opr fa fb (coo_rows a, coo_cols a, coo_values a) (coo_rows b, coo_cols b, coo_values b) = coo_parts (t_elem T) ?es"
    using ne length_coo[OF w(1)] length_coo[OF w(2)] by (simp add: merge_coo_impl_def Let_def tag_entries_coo[OF w(1)] tag_entries_coo[OF w(2)])
  moreover have io: "in_order ?es" by (rule scan_ok(1)[OF d])
  moreover have lk: "\<forall>q. lookup ?es q = ?j (lookup (coo_entries a) q) (lookup (coo_entries b) q)" by (intro allI scan_ok(2)[OF d])
  moreover from coo_result[where j = ?j, OF w shp io lk _ small, of "t_elem T"] obtain r c v where
    "coo_parts (t_elem T) ?es = Some (Inr (r, c, v))" "coo_ok (t_elem T) (coo_shape a) r c v" "zip_entries (r, c, v) = ?es" by auto
  ultimately show ?thesis by (intro exI[of _ r] exI[of _ c] exI[of _ v]) (simp only:, blast)
qed

lemma coo_join_ok:
  assumes w: "wf_coo a" "wf_coo b" and d: "distinct (map position (coo_entries a))" "distinct (map position (coo_entries b))"
    and shp: "coo_shape b = coo_shape a" and small: "length (coo_entries a) + length (coo_entries b) < 2 ^ 63"
  shows "\<exists>r c v. coo_parts dt (coo_join keep opr (sort_key position (coo_entries a)) (sort_key position (coo_entries b))) = Some (Inr (r, c, v)) \<and>
    coo_ok dt (coo_shape a) r c v \<and> in_order (zip_entries (r, c, v)) \<and>
    (\<forall>q. lookup (zip_entries (r, c, v)) q =
      keeping keep (combine opr (\<lambda>_. None) (\<lambda>_. None) (lookup (coo_entries a) q) (lookup (coo_entries b) q)))"
proof -
  let ?j = "\<lambda>x y. keeping keep (combine opr (\<lambda>_. None) (\<lambda>_. None) x y)"
  let ?es = "coo_join keep opr (sort_key position (coo_entries a)) (sort_key position (coo_entries b))"
  have io: "in_order ?es" by (rule join_ok(1)[OF d])
  have lk: "\<forall>q. lookup ?es q = ?j (lookup (coo_entries a) q) (lookup (coo_entries b) q)" by (intro allI join_ok(2)[OF d])
  from coo_result[where j = ?j, OF w shp io lk _ small, of dt] obtain r c v where
    "coo_parts dt ?es = Some (Inr (r, c, v))" "coo_ok dt (coo_shape a) r c v" "zip_entries (r, c, v) = ?es" by auto
  with io lk show ?thesis by (intro exI[of _ r] exI[of _ c] exI[of _ v]) (simp only:, blast)
qed

lemma coo_parts_Nil:
  assumes "fst shp < 2 ^ 63" "snd shp < 2 ^ 63"
  shows "\<exists>r c v. coo_parts dt [] = Some (Inr (r, c, v)) \<and> coo_ok dt shp r c v \<and> zip_entries (r, c, v) = []"
  using assms by (simp add: coo_parts_def from_slice_def coo_ok_def wf_coo_def wf_tvec_def zip_entries_def indices_below_def)

lemma map_values_ok:
  assumes w: "wf_coo m"
  shows "\<exists>r c v. map_values dt f (coo_rows m, coo_cols m, coo_values m) = Some (Inr (r, c, v)) \<and> coo_ok dt (coo_shape m) r c v \<and>
    zip_entries (r, c, v) = mapped_entries f (coo_entries m)"
proof -
  have "zip rs (zip cs (map f vs)) = mapped_entries f (zip rs (zip cs vs))" for rs cs :: "int list" and vs
    by (rule nth_equalityI) auto
  then show ?thesis using w
    by (simp add: map_values_def from_slice_def coo_ok_def wf_coo_def Let_def wf_tvec_def zip_entries_def coo_entries_def)
qed

lemma coo_union_empty:
  assumes w: "wf_coo a" "wf_coo b" and shp: "coo_shape b = coo_shape a" and e: "coo_entries a = [] \<or> coo_entries b = []"
  shows "\<exists>r c v. merge_coo_impl T opr fa fb (coo_rows a, coo_cols a, coo_values a) (coo_rows b, coo_cols b, coo_values b) = Some (Inr (r, c, v)) \<and>
    coo_ok (t_elem T) (coo_shape a) r c v \<and>
    zip_entries (r, c, v) = (if coo_entries a = [] then mapped_entries fb (coo_entries b) else mapped_entries fa (coo_entries a))"
proof -
  have sz: "fst (coo_shape a) < 2 ^ 63" "snd (coo_shape a) < 2 ^ 63" using w by (simp_all add: wf_coo_def Let_def)
  consider "coo_entries a = []" "coo_entries b = []" | "coo_entries a = []" "coo_entries b \<noteq> []" | "coo_entries a \<noteq> []" "coo_entries b = []"
    using e by blast
  then show ?thesis
    using length_coo[OF w(1)] length_coo[OF w(2)] coo_parts_Nil[OF sz, of "t_elem T"]
      map_values_ok[OF w(1), of "t_elem T" fa] map_values_ok[OF w(2), of "t_elem T" fb] shp
    by cases (simp_all add: merge_coo_impl_def Let_def)
qed

lemma coo_elementwise_ok:
  fixes a b :: "'a coo"
  assumes w: "wf_coo a" "wf_coo b" and d: "distinct (map position (coo_entries a))" "distinct (map position (coo_entries b))"
    and shp: "coo_shape b = coo_shape a"
    and dt: "tv_dtype (coo_values a) = t_elem T" "tv_dtype (coo_values b) = t_elem T" "t_elem T \<noteq> Bool"
    and small: "length (coo_entries a) + length (coo_entries b) < 2 ^ 63"
  shows "\<exists>r. coo_elementwise T sem a b = Some (Inr r) \<and> wf_coo r \<and> coo_shape r = coo_shape a \<and> tv_dtype (coo_values r) = t_elem T \<and>
    distinct (map position (coo_entries r)) \<and> (coo_entries a \<noteq> [] \<and> coo_entries b \<noteq> [] \<longrightarrow> in_order (coo_entries r)) \<and>
    (\<forall>q. lookup (coo_entries r) q =
      result_at T sem False (coo_entries a \<noteq> [] \<and> coo_entries b \<noteq> []) (lookup (coo_entries a) q) (lookup (coo_entries b) q))"
proof -
  let ?full = "coo_entries a \<noteq> [] \<and> coo_entries b \<noteq> []"
  let ?a = "(coo_rows a, coo_cols a, coo_values a)" and ?b = "(coo_rows b, coo_cols b, coo_values b)"
  let ?goal = "\<lambda>r c v. coo_ok (t_elem T) (coo_shape a) r c v \<and> distinct (map position (zip_entries (r, c, v))) \<and>
    (?full \<longrightarrow> in_order (zip_entries (r, c, v))) \<and>
    (\<forall>q. lookup (zip_entries (r, c, v)) q = result_at T sem False ?full (lookup (coo_entries a) q) (lookup (coo_entries b) q))"
  have sz: "fst (coo_shape a) < 2 ^ 63" "snd (coo_shape a) < 2 ^ 63" using w by (simp_all add: wf_coo_def Let_def)
  note l = length_coo[OF w(1)] length_coo[OF w(2)]
  note nil = coo_parts_Nil[OF sz, of "t_elem T"]
  show ?thesis
  proof (cases "sem = Divide")
    case True
    let ?es = "coo_join (\<lambda>_. True) (div_op T) (sort_key position (coo_entries a)) (sort_key position (coo_entries b))"
    have run: "coo_elementwise T Divide a b = (if \<not> ?full \<or> ?es = [] then Some (Inr (coo_empty (coo_shape a) (t_elem T)))
        else bindR (coo_parts (t_elem T) ?es) (\<lambda>(r, c, v).
          Some (Inr \<lparr>coo_rows = r, coo_cols = c, coo_values = v, coo_shape = coo_shape a, coo_sorted = True\<rparr>)))"
      using l shp dt indexed_entries_coo[OF w(1)] indexed_entries_coo[OF w(2)]
      by (simp add: coo_elementwise_def validate_operands_def coo_div_def Let_def)
    have e: "wf_coo (coo_empty (coo_shape a) (t_elem T) :: 'a coo)" "coo_entries (coo_empty (coo_shape a) (t_elem T) :: 'a coo) = []"
      using sz by (simp_all add: coo_empty_def empty_tvec_def wf_coo_def wf_tvec_def indices_below_def coo_entries_def)
    show ?thesis
    proof (cases "\<not> ?full \<or> ?es = []")
      case empty: True
      have "combine (div_op T) (\<lambda>_. None) (\<lambda>_. None) (lookup (coo_entries a) q) (lookup (coo_entries b) q) = None" for q
        using empty join_ok(2)[OF d, of "\<lambda>_. True" "div_op T" q] by auto
      moreover have "coo_elementwise T Divide a b = Some (Inr (coo_empty (coo_shape a) (t_elem T)))" using empty run by (simp only: if_True)
      ultimately show ?thesis using e unfolding True
        by (intro exI[of _ "coo_empty (coo_shape a) (t_elem T)"]) (simp add: result_at_def coo_empty_def empty_tvec_def)
    next
      case False
      then have run': "coo_elementwise T Divide a b = bindR (coo_parts (t_elem T) ?es) (\<lambda>(r, c, v).
          Some (Inr \<lparr>coo_rows = r, coo_cols = c, coo_values = v, coo_shape = coo_shape a, coo_sorted = True\<rparr>))" using run by (simp only: if_False)
      from coo_join_ok[OF w d shp small, of "t_elem T" "\<lambda>_. True" "div_op T"] obtain r c v where
        "coo_parts (t_elem T) ?es = Some (Inr (r, c, v))" "coo_ok (t_elem T) (coo_shape a) r c v" "in_order (zip_entries (r, c, v))"
        "\<forall>q. lookup (zip_entries (r, c, v)) q = combine (div_op T) (\<lambda>_. None) (\<lambda>_. None) (lookup (coo_entries a) q) (lookup (coo_entries b) q)" by auto
      then show ?thesis unfolding True run'
        by (intro exI[of _ "\<lparr>coo_rows = r, coo_cols = c, coo_values = v, coo_shape = coo_shape a, coo_sorted = True\<rparr>"])
          (simp add: coo_ok_def zip_entries_def coo_entries_def in_order_iff result_at_def)
    qed
  next
    case False
    have run: "coo_elementwise T sem a b = bindR (client_coo T sem ?a ?b) (\<lambda>(r, c, v).
        Some (Inr \<lparr>coo_rows = r, coo_cols = c, coo_values = v, coo_shape = coo_shape a, coo_sorted = True\<rparr>))"
      using False shp dt by (simp add: coo_elementwise_def validate_operands_def)
    have "\<exists>r c v. client_coo T sem ?a ?b = Some (Inr (r, c, v)) \<and> ?goal r c v"
    proof (cases ?full)
      case True
      then have R: "result_at T sem False ?full x y = keeping (keeps T) (elementwise_at T sem x y)" for x y
        using False by (simp only: result_at_def) simp
      have "\<exists>r c v. client_coo T sem ?a ?b = Some (Inr (r, c, v)) \<and> coo_ok (t_elem T) (coo_shape a) r c v \<and> in_order (zip_entries (r, c, v)) \<and>
        (\<forall>q. lookup (zip_entries (r, c, v)) q = keeping (keeps T) (elementwise_at T sem (lookup (coo_entries a) q) (lookup (coo_entries b) q)))"
      proof (cases sem)
        case Multiply
        have "intersect_coo_impl T (mul_op T) ?a ?b =
            coo_parts (t_elem T) (coo_join (keeps T) (mul_op T) (sort_key position (coo_entries a)) (sort_key position (coo_entries b)))"
          using True l by (simp add: intersect_coo_impl_def zip_entries_def coo_entries_def)
        with coo_join_ok[OF w d shp small, of "t_elem T" "keeps T" "mul_op T"] show ?thesis
          unfolding Multiply client_coo.simps elementwise_at.simps by (simp only:)
      qed (use True False coo_union_ok[OF w d shp _ _ small] in simp_all)
      then show ?thesis unfolding R in_order_iff by blast
    next
      case empty: False
      then have R: "result_at T sem False ?full x y = elementwise_at T sem x y" for x y
        by (simp only: result_at_def) simp
      show ?thesis
      proof (cases "sem = Multiply")
        case True
        have "client_coo T sem ?a ?b = coo_parts (t_elem T) []" using True empty l by (auto simp: intersect_coo_impl_def)
        moreover have "elementwise_at T sem (lookup (coo_entries a) q) (lookup (coo_entries b) q) = None" for q using True empty by auto
        moreover obtain r c v where "coo_parts (t_elem T) [] = Some (Inr (r, c, v :: 'a tvec))" "coo_ok (t_elem T) (coo_shape a) r c v"
          "zip_entries (r, c, v) = []" using nil by blast
        ultimately show ?thesis using empty unfolding R by (intro exI[of _ r] exI[of _ c] exI[of _ v]) simp
      next
        case F: False
        have e: "coo_entries a = [] \<or> coo_entries b = []" using empty by blast
        show ?thesis
        proof (cases sem)
          case Add
          with coo_union_empty[OF w shp e, of T "add_op T" "\<lambda>a. a" "\<lambda>b. b"] e d show ?thesis
            unfolding R by (auto simp: comp_def option.map_ident)
        next
          case Subtract
          with coo_union_empty[OF w shp e, of T "sub_op T" "\<lambda>a. a" "neg_op T"] e d show ?thesis
            unfolding R by (auto simp: comp_def lookup_map_values)
        qed (use F False in auto)
      qed
    qed
    then obtain r c v where "client_coo T sem ?a ?b = Some (Inr (r, c, v))" "?goal r c v" by blast
    then show ?thesis unfolding run
      by (intro exI[of _ "\<lparr>coo_rows = r, coo_cols = c, coo_values = v, coo_shape = coo_shape a, coo_sorted = True\<rparr>"])
        (simp add: coo_ok_def zip_entries_def coo_entries_def)
  qed
qed

end
