(* ===== verification/Sparse_Arithmetic.thy ===== *)
theory Sparse_Arithmetic
  imports Sparse_Merge_Ops
begin

text \<open>
  Arithmetic on sparse tensors: the methods of \<open>SparseTensor\<close>, which work in the common format of the operands or
  in coordinates, and the operations of the client, which work in CSR, compute the same matrix.
\<close>

section \<open>Sparse tensors\<close>

fun format :: "'a sparse \<Rightarrow> sparse_format" where
  "format (Coo d) = COO"
| "format (Csr d) = CSR"
| "format (Csc d) = CSC"

text \<open>At most one entry at a position, and in a compressed matrix the entries of a line in order.\<close>

fun canonical :: "'a sparse \<Rightarrow> bool" where
  "canonical (Coo d) \<longleftrightarrow> distinct (map position (coo_entries d))"
| "canonical (Csr d) \<longleftrightarrow> in_order (csr_entries d)"
| "canonical (Csc d) \<longleftrightarrow> sorted_wrt (<) (map position' (csc_entries d))"

lemma distinct_position': "distinct (map position' es) = distinct (map position es)"
proof -
  have "map position es = map prod.swap (map position' es)" by simp
  then show ?thesis by (simp only: distinct_map) (simp add: inj_on_def)
qed

lemma canonical_distinct: "canonical m \<Longrightarrow> distinct (map position (sp_entries m))"
  by (cases m) (simp_all only: canonical.simps sp_entries.simps in_order_iff strict_sorted_iff distinct_position')

lemma map_sum_Inr:
  assumes "map_sum id f z = Inr r"
  obtains d where "z = Inr d" and "r = f d"
  using assms by (cases z) auto

lemma to_csr_canonical:
  assumes "wf_sparse m" "sp_dtype m \<noteq> Bool" "canonical m"
  shows "\<exists>d. to_csr m = Some (Inr d) \<and> wf_csr d \<and> csr_shape d = sp_shape m \<and> tv_dtype (csr_values d) = sp_dtype m \<and>
    in_order (csr_entries d) \<and> length (csr_entries d) = length (sp_entries m) \<and>
    (\<forall>q. lookup (csr_entries d) q = lookup (sp_entries m) q)"
proof -
  from to_format_eq[OF assms(1,2), of CSR] obtain d where d: "to_csr m = Some (Inr d)" "wf_sparse (Csr d)" "sp_shape (Csr d) = sp_shape m"
    "sp_dtype (Csr d) = sp_dtype m" "csr_entries d = converted CSR m"
    by (auto elim!: map_sum_Inr)
  moreover have "in_order (converted CSR m)" "length (converted CSR m) = length (sp_entries m)"
    "lookup (converted CSR m) q = lookup (sp_entries m) q" for q
    using assms(3) in_order_sort[OF canonical_distinct[OF assms(3)]] by (cases m; simp)+
  ultimately show ?thesis by (intro exI[of _ d]) (simp add: sp_dtype_def)
qed

text \<open>The result of an operation: the matrix \<open>r\<close> holds at every position what the operation leaves there.\<close>

definition computes :: "('a, 'f) scalar \<Rightarrow> op_semantics \<Rightarrow> bool \<Rightarrow> 'a sparse \<Rightarrow> 'a sparse \<Rightarrow> 'a sparse \<Rightarrow> bool" where
  "computes T sem csr a b r \<longleftrightarrow> wf_sparse r \<and> canonical r \<and> sp_shape r = sp_shape a \<and> sp_dtype r = t_elem T \<and>
     (\<forall>q. lookup (sp_entries r) q =
       result_at T sem csr (sp_entries a \<noteq> [] \<and> sp_entries b \<noteq> []) (lookup (sp_entries a) q) (lookup (sp_entries b) q))"

definition operands_ok :: "('a, 'f) scalar \<Rightarrow> 'a sparse \<Rightarrow> 'a sparse \<Rightarrow> bool" where
  "operands_ok T a b \<longleftrightarrow> wf_sparse a \<and> wf_sparse b \<and> canonical a \<and> canonical b \<and> sp_shape b = sp_shape a \<and>
     sp_dtype a = t_elem T \<and> sp_dtype b = t_elem T \<and> t_elem T \<noteq> Bool \<and> length (sp_entries a) + length (sp_entries b) < 2 ^ 63"

lemma same_format_coo:
  assumes ok: "operands_ok T a b" and "a = Coo x" "b = Coo y"
  shows "\<exists>r. same_or_coo T sem a b = Some (Inr r) \<and> computes T sem False a b r \<and> format r = COO"
proof -
  from coo_elementwise_ok[of x y T sem] ok assms(2,3) obtain r where
    "coo_elementwise T sem x y = Some (Inr r)" "wf_coo r" "coo_shape r = coo_shape x" "tv_dtype (coo_values r) = t_elem T"
    "distinct (map position (coo_entries r))" "\<forall>q. lookup (coo_entries r) q =
      result_at T sem False (coo_entries x \<noteq> [] \<and> coo_entries y \<noteq> []) (lookup (coo_entries x) q) (lookup (coo_entries y) q)"
    by (auto simp: operands_ok_def sp_dtype_def)
  then show ?thesis using assms(2,3) by (intro exI[of _ "Coo r"]) (simp add: computes_def sp_dtype_def)
qed

lemma same_format_csc:
  assumes ok: "operands_ok T a b" and "a = Csc x" "b = Csc y"
  shows "\<exists>r. same_or_coo T sem a b = Some (Inr r) \<and> computes T sem False a b r \<and> format r = CSC"
proof -
  from csc_elementwise_ok[of x y T sem] ok assms(2,3) obtain r where
    "csc_elementwise T sem x y = Some (Inr r)" "wf_csc r" "csc_shape r = csc_shape x" "tv_dtype (csc_values r) = t_elem T"
    "in_order (swapped r)" "\<forall>q. lookup (csc_entries r) q =
      result_at T sem False (csc_entries x \<noteq> [] \<and> csc_entries y \<noteq> []) (lookup (csc_entries x) q) (lookup (csc_entries y) q)"
    by (auto simp: operands_ok_def sp_dtype_def in_order_csc)
  then show ?thesis using assms(2,3) by (intro exI[of _ "Csc r"]) (simp add: computes_def sp_dtype_def in_order_csc)
qed

text \<open>The error of a CSR division.\<close>

abbreviation empty_divisor :: "op_semantics \<Rightarrow> 'a sparse \<Rightarrow> 'a sparse \<Rightarrow> bool" where
  "empty_divisor sem a b \<equiv> sem = Divide \<and> sp_entries a \<noteq> [] \<and> sp_entries b = []"

lemma csr_csr:
  assumes ok: "operands_ok T (Csr x) (Csr y)"
  shows "if empty_divisor sem (Csr x) (Csr y)
    then csr_elementwise T sem x y = Some (Inl (Internal ''Division by zero - B matrix is empty''))
    else \<exists>r. csr_elementwise T sem x y = Some (Inr r) \<and> computes T sem True (Csr x) (Csr y) (Csr r)"
  using csr_elementwise_ok[of x y T sem] ok by (auto simp: operands_ok_def sp_dtype_def computes_def)

lemma mixed_formats:
  assumes ok: "operands_ok T a b" and "format a \<noteq> format b"
  shows "\<exists>r. same_or_coo T sem a b = Some (Inr r) \<and> computes T sem False a b r \<and> format r = COO"
proof -
  have nb: "sp_dtype a \<noteq> Bool" "sp_dtype b \<noteq> Bool" and w: "wf_sparse a" "wf_sparse b" and c: "canonical a" "canonical b"
    using ok by (simp_all add: operands_ok_def)
  from to_coo_eq[OF w(1) nb(1)] obtain x where x: "to_coo a = Some (Inr x)" "wf_coo x" "coo_shape x = sp_shape a"
    "tv_dtype (coo_values x) = sp_dtype a" "coo_entries x = sp_entries a" by blast
  from to_coo_eq[OF w(2) nb(2)] obtain y where y: "to_coo b = Some (Inr y)" "wf_coo y" "coo_shape y = sp_shape b"
    "tv_dtype (coo_values y) = sp_dtype b" "coo_entries y = sp_entries b" by blast
  have "operands_ok T (Coo x) (Coo y)"
    using ok x y canonical_distinct[OF c(1)] canonical_distinct[OF c(2)] by (simp add: operands_ok_def sp_dtype_def)
  from same_format_coo[OF this refl refl, of sem] obtain r where
    r: "same_or_coo T sem (Coo x) (Coo y) = Some (Inr r)" "computes T sem False (Coo x) (Coo y) r" "format r = COO" by blast
  have "same_or_coo T sem a b = same_or_coo T sem (Coo x) (Coo y)"
    using assms(2) x(1) y(1) by (cases a; cases b; simp)
  then show ?thesis using r x y by (simp add: computes_def)
qed

lemma elementwise_methods:
  assumes ok: "operands_ok T a b"
  shows "if empty_divisor sem a b \<and> format a = CSR \<and> format b = CSR
    then sparse_elementwise T sem a b = Some (Inl (Internal ''Division by zero - B matrix is empty''))
    else \<exists>r. sparse_elementwise T sem a b = Some (Inr r) \<and> computes T sem (format a = CSR \<and> format b = CSR) a b r \<and>
      format r = (if format a = format b then format a else COO)"
proof -
  have run: "sparse_elementwise T sem a b = same_or_coo T sem a b"
    using ok by (simp add: sparse_elementwise_def operands_ok_def validate_operands_def)
  consider (coo) x y where "a = Coo x" "b = Coo y" | (csr) x y where "a = Csr x" "b = Csr y"
    | (csc) x y where "a = Csc x" "b = Csc y" | (mixed) "format a \<noteq> format b"
    by (cases a; cases b) auto
  then show ?thesis
  proof cases
    case coo
    then show ?thesis using same_format_coo[OF ok coo, of sem] unfolding run by simp
  next
    case csr
    then show ?thesis using csr_csr[of T x y sem] ok unfolding run by (auto split: if_splits)
  next
    case csc
    then show ?thesis using same_format_csc[OF ok csc, of sem] unfolding run by simp
  next
    case mixed
    then have f: "(format a = CSR \<and> format b = CSR) = False" by auto
    from mixed_formats[OF ok mixed, of sem] mixed show ?thesis unfolding run f by simp
  qed
qed

lemma elementwise_client:
  assumes ok: "operands_ok T a b" and "sem \<noteq> Divide"
  shows "\<exists>r. client_elementwise T sem a b = Some (Inr r) \<and> computes T sem True a b r \<and> format r = CSR"
proof -
  have nb: "sp_dtype a \<noteq> Bool" "sp_dtype b \<noteq> Bool" and w: "wf_sparse a" "wf_sparse b" and c: "canonical a" "canonical b"
    using ok by (simp_all add: operands_ok_def)
  from to_csr_canonical[OF w(1) nb(1) c(1)] obtain x where x: "to_csr a = Some (Inr x)" "wf_csr x" "csr_shape x = sp_shape a"
    "tv_dtype (csr_values x) = sp_dtype a" "in_order (csr_entries x)" "length (csr_entries x) = length (sp_entries a)"
    "\<forall>q. lookup (csr_entries x) q = lookup (sp_entries a) q" by blast
  from to_csr_canonical[OF w(2) nb(2) c(2)] obtain y where y: "to_csr b = Some (Inr y)" "wf_csr y" "csr_shape y = sp_shape b"
    "tv_dtype (csr_values y) = sp_dtype b" "in_order (csr_entries y)" "length (csr_entries y) = length (sp_entries b)"
    "\<forall>q. lookup (csr_entries y) q = lookup (sp_entries b) q" by blast
  have "operands_ok T (Csr x) (Csr y)" using ok x y by (simp add: operands_ok_def sp_dtype_def)
  from csr_csr[OF this, of sem] assms(2) obtain r where
    r: "csr_elementwise T sem x y = Some (Inr r)" "computes T sem True (Csr x) (Csr y) (Csr r)" by auto
  have "sp_entries (Csr x) = [] \<longleftrightarrow> sp_entries a = []" "sp_entries (Csr y) = [] \<longleftrightarrow> sp_entries b = []"
    using x(6) y(6) by (metis length_0_conv sp_entries.simps(2))+
  then have "computes T sem True a b (Csr r)" using r(2) x y by (simp add: computes_def)
  moreover have "client_elementwise T sem a b = Some (Inr (Csr r))"
    using ok x(1) y(1) r(1) by (simp add: client_elementwise_def validate_operands_def operands_ok_def)
  ultimately show ?thesis by (intro exI[of _ "Csr r"]) simp
qed

section \<open>The property\<close>


definition int_scalar :: "(int, int) scalar" where
  "int_scalar = \<lparr>t_elem = I32, to_f64 = (\<lambda>v. v), from_f64 = (\<lambda>v. v), t_zero = 0, f_zero = 0, f_add = (+), f_sub = (-),
     f_mul = (*), f_div = (\<lambda>a b. if b = 0 then 0 else sgn a * sgn b * (\<bar>a\<bar> div \<bar>b\<bar>)), f_neg = uminus,
     f_above = (\<lambda>v t. t < rat_of_int \<bar>v\<bar>)\<rparr>"

definition sample_left :: "int sparse" where
  "sample_left = Coo \<lparr>coo_rows = \<lparr>tv_dtype = I64, tv_shape = [2], tv_elems = [1, 0]\<rparr>,
     coo_cols = \<lparr>tv_dtype = I64, tv_shape = [2], tv_elems = [1, 0]\<rparr>,
     coo_values = \<lparr>tv_dtype = I32, tv_shape = [2], tv_elems = [2, 1]\<rparr>, coo_shape = (2, 3), coo_sorted = False\<rparr>"

definition sample_right :: "int sparse" where
  "sample_right = Csr \<lparr>csr_ptrs = \<lparr>tv_dtype = I64, tv_shape = [3], tv_elems = [0, 2, 2]\<rparr>,
     csr_indices = \<lparr>tv_dtype = I64, tv_shape = [2], tv_elems = [0, 2]\<rparr>,
     csr_values = \<lparr>tv_dtype = I32, tv_shape = [2], tv_elems = [-1, 5]\<rparr>, csr_shape = (2, 3)\<rparr>"

lemma sample_entries: "sp_entries sample_left = [(1, 1, 2), (0, 0, 1)]" "sp_entries sample_right = [(0, 0, -1), (0, 2, 5)]"
  by code_simp+


end
