(* ===== verification/Sparse_Products.thy ===== *)
theory Sparse_Products
  imports Sparse_Elementwise "HOL-Library.AList"
begin

text \<open>
  Products with sparse matrices: with a dense vector (\<open>spmv\<close>), with a dense matrix on either side (\<open>spmm\<close>,
  \<open>dsmm\<close>) and with a sparse matrix (\<open>esc_spgemm\<close>), in the CPU client (\<open>src/runtime/cpu/sparse/high_level_ops.rs\<close>,
  \<open>dsmm.rs\<close>, \<open>esc_spgemm.rs\<close>, \<open>sparse_highlevel.rs\<close>) and as methods of the matrix types
  (\<open>src/sparse/*/matmul.rs\<close>). The arithmetic is the record \<open>scalar\<close> of Sparse_Elementwise: nothing is assumed
  of it, and the order of the additions is the order of the loops. Dense operands have the element type of the
  matrix; the client checks this nowhere, the methods do.
\<close>

section \<open>Loops over the entries of a line\<close>

text \<open>\<open>for idx in ptrs[l]..ptrs[l + 1]\<close>, with the index and the value stored at \<open>idx\<close>.\<close>

definition for_entries :: "int list \<Rightarrow> int list \<Rightarrow> 'a list \<Rightarrow> (nat \<Rightarrow> 'a \<Rightarrow> 's \<Rightarrow> 's option) \<Rightarrow> nat \<Rightarrow> 's \<Rightarrow> 's option" where
  "for_entries ptrs indices vals f l s = do {
     start \<leftarrow> nth_chk ptrs l;
     stop \<leftarrow> nth_chk ptrs (l + 1);
     foldM (\<lambda>idx s. do { c \<leftarrow> nth_chk indices idx; v \<leftarrow> nth_chk vals idx; f (as_usize c) v s }) [as_usize start..<as_usize stop] s }"

section \<open>Matrix times vector\<close>

definition add_product :: "('a, 'f) scalar \<Rightarrow> 'f \<Rightarrow> 'a \<Rightarrow> 'a \<Rightarrow> 'f" where
  "add_product T s a b = f_add T s (f_mul T (to_f64 T a) (to_f64 T b))"

definition spmv_csr :: "('a, 'f) scalar \<Rightarrow> 'a parts \<Rightarrow> 'a tvec \<Rightarrow> nat \<times> nat \<Rightarrow> 'a tvec res" where
  "spmv_csr T m x shp = (case (m, shp) of ((row_ptrs, col_indices, vals), (nrows, ncols)) \<Rightarrow>
     if numel x \<noteq> ncols then Some (Inl (ShapeMismatch [of_nat ncols] [of_nat (numel x)]))
     else do {
       y \<leftarrow> foldM (\<lambda>row y. do {
         s \<leftarrow> for_entries (tv_elems row_ptrs) (tv_elems col_indices) (tv_elems vals)
           (\<lambda>col v s. do { xv \<leftarrow> nth_chk (tv_elems x) col; Some (add_product T s v xv) }) row (f_zero T);
         Some (y @ [from_f64 T s]) }) [0..<nrows] [];
       Some (from_slice (t_elem T) y [nrows]) })"

section \<open>Matrix times matrix\<close>

definition spmm_csr :: "('a, 'f) scalar \<Rightarrow> 'a parts \<Rightarrow> 'a tvec \<Rightarrow> nat \<times> nat \<Rightarrow> 'a tvec res" where
  "spmm_csr T mat b shp = (case (mat, shp) of ((row_ptrs, col_indices, vals), (m, k)) \<Rightarrow>
     case tv_shape b of
       [b_k, n] \<Rightarrow>
         if b_k \<noteq> k then Some (Inl (ShapeMismatch [of_nat k] [of_nat b_k]))
         else do {
           c \<leftarrow> foldM (\<lambda>row. for_entries (tv_elems row_ptrs) (tv_elems col_indices) (tv_elems vals)
             (\<lambda>col v. foldM (\<lambda>col_b c. do {
               bv \<leftarrow> nth_chk (tv_elems b) (col * n + col_b);
               current \<leftarrow> nth_chk c (row * n + col_b);
               upd_chk c (row * n + col_b) (from_f64 T (add_product T (to_f64 T current) v bv)) }) [0..<n]) row)
             [0..<m] (replicate (wrapped (m * n)) (t_zero T));
           Some (from_slice (t_elem T) c [m, n]) }
     | _ \<Rightarrow> Some (Inl (Internal ''Expected 2D tensor for SpMM'')))"

definition validate_dsmm_shapes :: "nat list \<Rightarrow> nat \<times> nat \<Rightarrow> tensor_error + (nat \<times> nat) \<times> nat" where
  "validate_dsmm_shapes dense_shape sparse_shape =
     (case dense_shape of
        [m, k_a] \<Rightarrow>
          if k_a \<noteq> fst sparse_shape then Inl (ShapeMismatch [of_nat k_a] [of_nat (fst sparse_shape)])
          else Inr ((m, snd sparse_shape), k_a)
      | _ \<Rightarrow> Inl (Internal ''Expected 2D tensor for dense matrix''))"

definition dsmm_typed :: "('a, 'f) scalar \<Rightarrow> 'a tvec \<Rightarrow> 'a csc \<Rightarrow> nat \<Rightarrow> nat \<Rightarrow> nat \<Rightarrow> 'a tvec res" where
  "dsmm_typed T a csc m k n = do {
     c \<leftarrow> foldM (\<lambda>col. for_entries (tv_elems (csc_ptrs csc)) (tv_elems (csc_indices csc)) (tv_elems (csc_values csc))
       (\<lambda>row_b v. foldM (\<lambda>row_a c. do {
         av \<leftarrow> nth_chk (tv_elems a) (row_a * k + row_b);
         current \<leftarrow> nth_chk c (row_a * n + col);
         upd_chk c (row_a * n + col) (from_f64 T (add_product T (to_f64 T current) av v)) }) [0..<m]) col)
       [0..<n] (replicate (wrapped (m * n)) (t_zero T));
     Some (from_slice (t_elem T) c [m, n]) }"

definition column_parallel_dsmm :: "('a, 'f) scalar \<Rightarrow> 'a tvec \<Rightarrow> 'a csc \<Rightarrow> 'a tvec res" where
  "column_parallel_dsmm T a csc =
     bindR (Some (validate_dsmm_shapes (tv_shape a) (csc_shape csc))) (\<lambda>((m, _), _).
       if tv_dtype (csc_values csc) = Bool then Some (Inl (UnsupportedDType Bool ''dsmm''))
       else dsmm_typed T a csc m (fst (csc_shape csc)) (snd (csc_shape csc)))"

section \<open>Sparse times sparse\<close>

text \<open>
  \<open>col_set\<close> and \<open>row_accum\<close> are hash tables. The set is a list without duplicates; the map is an association
  list with distinct keys, whose order plays no part because the code sorts the entries by their keys.
\<close>

definition accumulate :: "('a, 'f) scalar \<Rightarrow> nat \<Rightarrow> 'f \<Rightarrow> (nat \<times> 'f) list \<Rightarrow> (nat \<times> 'f) list" where
  "accumulate T j p acc =
     (case map_of acc j of None \<Rightarrow> acc @ [(j, f_add T (f_zero T) p)]
      | Some s \<Rightarrow> AList.update j (f_add T s p) acc)"

definition symbolic_row :: "'a csr \<Rightarrow> 'a csr \<Rightarrow> nat \<Rightarrow> nat list option" where
  "symbolic_row a b i =
     for_entries (tv_elems (csr_ptrs a)) (tv_elems (csr_indices a)) (tv_elems (csr_values a))
       (\<lambda>k _. for_entries (tv_elems (csr_ptrs b)) (tv_elems (csr_indices b)) (tv_elems (csr_values b))
         (\<lambda>j _ col_set. Some (List.insert j col_set)) k) i []"

definition numeric_row :: "('a, 'f) scalar \<Rightarrow> 'a csr \<Rightarrow> 'a csr \<Rightarrow> nat \<Rightarrow> (nat \<times> 'f) list option" where
  "numeric_row T a b i =
     for_entries (tv_elems (csr_ptrs a)) (tv_elems (csr_indices a)) (tv_elems (csr_values a))
       (\<lambda>k av. for_entries (tv_elems (csr_ptrs b)) (tv_elems (csr_indices b)) (tv_elems (csr_values b))
         (\<lambda>j bv acc. Some (accumulate T j (f_mul T (to_f64 T av) (to_f64 T bv)) acc)) k) i []"

definition write_row :: "('a, 'f) scalar \<Rightarrow> (nat \<times> 'f) list \<Rightarrow> int list \<times> 'a list \<Rightarrow> int list \<times> 'a list" where
  "write_row T acc out =
     fold (\<lambda>(col, v) out. if f_above T v (zero_tolerance (size_in_bytes (t_elem T)))
       then (fst out @ [int col], snd out @ [from_f64 T v]) else out) (sort_key fst acc) out"

definition esc_spgemm_typed :: "('a, 'f) scalar \<Rightarrow> 'a csr \<Rightarrow> 'a csr \<Rightarrow> nat \<Rightarrow> nat \<Rightarrow> 'a csr res" where
  "esc_spgemm_typed T a b m n = do {
     row_nnz \<leftarrow> foldM (\<lambda>i row_nnz. do { s \<leftarrow> symbolic_row a b i; upd_chk row_nnz i (int (length s)) }) [0..<m] (replicate m 0);
     c_row_ptrs \<leftarrow> foldM (\<lambda>i ps. do { p \<leftarrow> nth_chk ps i; z \<leftarrow> nth_chk row_nnz i; Some (ps @ [p + z]) }) [0..<m] [0 :: int];
     (ptrs, out) \<leftarrow> foldM (\<lambda>i (ptrs, out). do {
       capacity \<leftarrow> nth_chk row_nnz i;
       acc \<leftarrow> numeric_row T a b i;
       let out = write_row T acc out;
       Some (ptrs @ [int (length (fst out))], out) }) [0..<m] ([0], [], []);
     bindR (Some (from_slice I64 ptrs [m + 1])) (\<lambda>p.
       bindR (Some (from_slice I64 (fst out) [length (fst out)])) (\<lambda>c.
         bindR (Some (from_slice (t_elem T) (snd out) [length (fst out)])) (\<lambda>v.
           Some (Inr \<lparr>csr_ptrs = p, csr_indices = c, csr_values = v, csr_shape = (m, n)\<rparr>)))) }"

definition validate_spgemm_shapes :: "nat \<times> nat \<Rightarrow> nat \<times> nat \<Rightarrow> tensor_error + (nat \<times> nat) \<times> nat" where
  "validate_spgemm_shapes a_shape b_shape =
     (if snd a_shape \<noteq> fst b_shape then Inl (ShapeMismatch [of_nat (snd a_shape)] [of_nat (fst b_shape)])
      else Inr ((fst a_shape, snd b_shape), snd a_shape))"

definition esc_spgemm_csr :: "('a, 'f) scalar \<Rightarrow> 'a csr \<Rightarrow> 'a csr \<Rightarrow> 'a csr res" where
  "esc_spgemm_csr T a b =
     bindR (Some (validate_spgemm_shapes (csr_shape a) (csr_shape b))) (\<lambda>((m, n), _).
       if tv_dtype (csr_values a) = Bool then Some (Inl (UnsupportedDType Bool ''esc_spgemm''))
       else esc_spgemm_typed T a b m n)"

section \<open>The operations of the client\<close>

definition csr_parts :: "'a csr \<Rightarrow> 'a parts" where
  "csr_parts m = (csr_ptrs m, csr_indices m, csr_values m)"

definition client_spmv :: "('a, 'f) scalar \<Rightarrow> 'a sparse \<Rightarrow> 'a tvec \<Rightarrow> 'a tvec res" where
  "client_spmv T a x = bindR (to_csr a) (\<lambda>csr.
     if tv_dtype (csr_values csr) = Bool then Some (Inl (UnsupportedDType Bool ''spmv''))
     else spmv_csr T (csr_parts csr) x (csr_shape csr))"

definition client_spmm :: "('a, 'f) scalar \<Rightarrow> 'a sparse \<Rightarrow> 'a tvec \<Rightarrow> 'a tvec res" where
  "client_spmm T a b = bindR (to_csr a) (\<lambda>csr.
     if tv_dtype (csr_values csr) = Bool then Some (Inl (UnsupportedDType Bool ''spmm''))
     else spmm_csr T (csr_parts csr) b (csr_shape csr))"

definition client_dsmm :: "('a, 'f) scalar \<Rightarrow> 'a tvec \<Rightarrow> 'a sparse \<Rightarrow> 'a tvec res" where
  "client_dsmm T a b = bindR (to_csc b) (column_parallel_dsmm T a)"

definition sparse_matmul :: "('a, 'f) scalar \<Rightarrow> 'a sparse \<Rightarrow> 'a sparse \<Rightarrow> 'a sparse res" where
  "sparse_matmul T a b = bindR (to_csr a) (\<lambda>x. bindR (to_csr b) (\<lambda>y.
     if tv_dtype (csr_values x) \<noteq> tv_dtype (csr_values y)
     then Some (Inl (DTypeMismatch (tv_dtype (csr_values x)) (tv_dtype (csr_values y))))
     else bindR (esc_spgemm_csr T x y) (\<lambda>r. Some (Inr (Csr r)))))"

section \<open>The methods of the matrix types\<close>

definition csr_spmv :: "('a, 'f) scalar \<Rightarrow> 'a csr \<Rightarrow> 'a tvec \<Rightarrow> 'a tvec res" where
  "csr_spmv T m x =
     (case csr_shape m of (nrows, ncols) \<Rightarrow> let dt = tv_dtype (csr_values m)
      in if numel x \<noteq> ncols then Some (Inl (ShapeMismatch [of_nat ncols] [of_nat (numel x)]))
         else if tv_dtype x \<noteq> dt then Some (Inl (DTypeMismatch dt (tv_dtype x)))
         else if numel (csr_values m) = 0 then
           (if dt = Bool then Some (Inl (UnsupportedDType Bool ''spmv empty''))
            else Some (from_slice dt (replicate nrows (t_zero T)) [nrows]))
         else if dt = Bool then Some (Inl (UnsupportedDType Bool ''spmv''))
         else spmv_csr T (csr_parts m) x (nrows, ncols))"

definition csr_spmm :: "('a, 'f) scalar \<Rightarrow> 'a csr \<Rightarrow> 'a tvec \<Rightarrow> 'a tvec res" where
  "csr_spmm T mat b =
     (case csr_shape mat of (m, k) \<Rightarrow> let dt = tv_dtype (csr_values mat)
      in case tv_shape b of
           [b_k, n] \<Rightarrow>
             if b_k \<noteq> k then Some (Inl (ShapeMismatch [of_nat k] [of_nat b_k]))
             else if tv_dtype b \<noteq> dt then Some (Inl (DTypeMismatch dt (tv_dtype b)))
             else if numel (csr_values mat) = 0 then
               (if dt = Bool then Some (Inl (UnsupportedDType Bool ''spmm empty''))
                else Some (from_slice dt (replicate (wrapped (m * n)) (t_zero T)) [m, n]))
             else if dt = Bool then Some (Inl (UnsupportedDType Bool ''spmm''))
             else spmm_csr T (csr_parts mat) b (m, k)
         | _ \<Rightarrow> Some (Inl (Internal ''Expected 2D tensor for SpMM'')))"

definition sparse_spmv :: "('a, 'f) scalar \<Rightarrow> 'a sparse \<Rightarrow> 'a tvec \<Rightarrow> 'a tvec res" where
  "sparse_spmv T a x = bindR (to_csr a) (\<lambda>m. csr_spmv T m x)"

definition sparse_spmm :: "('a, 'f) scalar \<Rightarrow> 'a sparse \<Rightarrow> 'a tvec \<Rightarrow> 'a tvec res" where
  "sparse_spmm T a b = bindR (to_csr a) (\<lambda>m. csr_spmm T m b)"

text \<open>
  \<open>sparse_transpose\<close> of the client. For a compressed matrix it only changes the format.
\<close>

fun client_transpose :: "'a sparse \<Rightarrow> 'a sparse res" where
  "client_transpose (Csr d) = bindR (csr_to_csc d) (\<lambda>c. Some (Inr (Csc c)))"
| "client_transpose (Csc d) = bindR (csc_to_csr d) (\<lambda>c. Some (Inr (Csr c)))"
| "client_transpose (Coo d) = Some (Inr (Coo (coo_transpose d)))"

end
