(* ===== verification/Sparse_Product_Laws.thy ===== *)
theory Sparse_Product_Laws
  imports Sparse_Products Sparse_Arithmetic
begin

text \<open>
  What the loops of the sparse products compute. A loop over the entries of a line is a fold over the entries of
  the matrix that lie in it; the locale \<open>cells\<close> is a dense result that such loops update line by line, its
  instances are the row by row product (\<open>spmm\<close>) and the column by column product (\<open>dsmm\<close>).
\<close>

section \<open>Entries of a line\<close>

abbreviation entry_line :: "'a entry \<Rightarrow> nat" where "entry_line e \<equiv> nat (fst e)"
abbreviation entry_index :: "'a entry \<Rightarrow> nat" where "entry_index e \<equiv> nat (fst (snd e))"
abbreviation entry_value :: "'a entry \<Rightarrow> 'a" where "entry_value e \<equiv> snd (snd e)"

definition line_entries :: "'a entry list \<Rightarrow> nat \<Rightarrow> 'a entry list" where
  "line_entries es l = filter (\<lambda>e. fst e = int l) es"

lemma line_entries_lines: "l < n \<Longrightarrow> line_entries (lines_of n ptrs ix vs) l = line_of ptrs ix vs l"
proof (induction n)
  case (Suc n)
  have same: "filter (\<lambda>e. fst e = int l) (line_of ptrs ix vs m) = (if m = l then line_of ptrs ix vs m else [])" for m
    by (auto simp: line_of_def filter_empty_conv filter_id_conv)
  have none: "l \<ge> n \<Longrightarrow> filter (\<lambda>e. fst e = int l) (lines_of n ptrs ix vs) = []" for n
    by (induction n) (auto simp: lines_of_Suc same lines_of_def[of 0])
  show ?case
  proof (cases "l = n")
    case True
    then show ?thesis using none[of n] same[of n] by (simp add: line_entries_def lines_of_Suc)
  next
    case False
    with Suc show ?thesis by (simp add: line_entries_def lines_of_Suc same)
  qed
qed simp

lemma for_entries_eq:
  assumes wf: "wf_compressed n k p i v" and l: "l < n"
  shows "for_entries (tv_elems p) (tv_elems i) (tv_elems v) f l s =
    foldM (\<lambda>e. f (entry_index e) (entry_value e)) (line_entries (lines_of n (tv_elems p) (tv_elems i) (tv_elems v)) l) s"
proof -
  let ?nnz = "length (tv_elems v)"
  have p: "wf_ptrs n ?nnz (tv_elems p)" and len: "length (tv_elems i) = ?nnz" and small: "?nnz < 2 ^ 63" "k < 2 ^ 63"
    and rng: "indices_below k (tv_elems i)"
    using wf by (simp_all add: wf_compressed_def Let_def wf_tvec_def)
  have r: "0 \<le> tv_elems p ! l" "tv_elems p ! l \<le> int ?nnz" "0 \<le> tv_elems p ! Suc l" "tv_elems p ! Suc l \<le> int ?nnz" "length (tv_elems p) = Suc n"
    using wf_ptrs_range[OF p, of l] wf_ptrs_range[OF p, of "Suc l"] l p by (simp_all add: wf_ptrs_def)
  have u: "as_usize (tv_elems p ! l) = nat (tv_elems p ! l)" "as_usize (tv_elems p ! Suc l) = nat (tv_elems p ! Suc l)"
    using r small by (auto intro!: as_usize_small)
  have ix: "as_usize (tv_elems i ! j) = nat (tv_elems i ! j)" if "j < ?nnz" for j
  proof (rule as_usize_small)
    have "tv_elems i ! j \<in> set (tv_elems i)" using that len by simp
    then have "0 \<le> tv_elems i ! j" "tv_elems i ! j < int k" using rng by (simp_all add: indices_below_def)
    moreover have "int k < 2 ^ 64" using small(2) by simp
    ultimately show "0 \<le> tv_elems i ! j" "tv_elems i ! j < 2 ^ 64" by simp_all
  qed
  have "for_entries (tv_elems p) (tv_elems i) (tv_elems v) f l s =
      foldM (\<lambda>j. f (nat (tv_elems i ! j)) (tv_elems v ! j)) [nat (tv_elems p ! l)..<nat (tv_elems p ! Suc l)] s"
    using r l by (simp add: for_entries_def u) (rule foldM_cong, use r len ix in auto)
  then show ?thesis unfolding line_entries_lines[OF l] line_of_def foldM_map by simp
qed

section \<open>Matrix times vector\<close>

definition row_product :: "('a, 'f) scalar \<Rightarrow> 'a list \<Rightarrow> 'a entry list \<Rightarrow> 'f" where
  "row_product T x es = fold (\<lambda>e s. add_product T s (entry_value e) (x ! entry_index e)) es (f_zero T)"

lemma indices_range:
  assumes wf: "wf_compressed n k p i v" and e: "e \<in> set (lines_of n (tv_elems p) (tv_elems i) (tv_elems v))"
  shows "0 \<le> fst e" "entry_line e < n" "0 \<le> fst (snd e)" "entry_index e < k" "snd (snd e) \<in> set (tv_elems v)"
proof -
  have p: "wf_ptrs n (length (tv_elems v)) (tv_elems p)" and len: "length (tv_elems i) = length (tv_elems v)"
    and rng: "indices_below k (tv_elems i)"
    using wf by (simp_all add: wf_compressed_def Let_def wf_tvec_def)
  have "fst e \<in> set (map fst (lines_of n (tv_elems p) (tv_elems i) (tv_elems v)))" using e by simp
  then show "0 \<le> fst e" "entry_line e < n" using lines_of_zip(5)[OF p len refl] by (auto simp: indices_below_def nat_less_iff)
  have "fst (snd e) \<in> set (tv_elems i)" "snd (snd e) \<in> set (tv_elems v)"
    using e lines_of_vectors[OF p len refl] by (metis (no_types, lifting) image_eqI set_map)+
  then show "0 \<le> fst (snd e)" "entry_index e < k" "snd (snd e) \<in> set (tv_elems v)"
    using rng by (auto simp: indices_below_def nat_less_iff)
qed

lemma line_entries_subset: "set (line_entries es l) \<subseteq> set es"
  by (auto simp: line_entries_def)

lemma spmv_csr_eq:
  assumes wf: "wf_compressed n k p i v" and x: "length (tv_elems x) = k" "numel x = k"
  shows "spmv_csr T (p, i, v) x (n, k) = Some (Inr \<lparr>tv_dtype = t_elem T, tv_shape = [n],
    tv_elems = map (\<lambda>r. from_f64 T (row_product T (tv_elems x) (line_entries (lines_of n (tv_elems p) (tv_elems i) (tv_elems v)) r))) [0..<n]\<rparr>)"
proof -
  let ?es = "lines_of n (tv_elems p) (tv_elems i) (tv_elems v)"
  let ?g = "\<lambda>col v s. do { xv \<leftarrow> nth_chk (tv_elems x) col; Some (add_product T s v xv) }"
  have row: "for_entries (tv_elems p) (tv_elems i) (tv_elems v) ?g r (f_zero T) = Some (row_product T (tv_elems x) (line_entries ?es r))"
    if r: "r < n" for r
    unfolding for_entries_eq[OF wf r] row_product_def
  proof (rule foldM_fold)
    fix e s assume "e \<in> set (line_entries ?es r)"
    then have "e \<in> set ?es" using line_entries_subset by blast
    from indices_range(4)[OF wf this] x(1) show "?g (entry_index e) (entry_value e) s = Some (add_product T s (entry_value e) (tv_elems x ! entry_index e))"
      by simp
  qed
  have "foldM (\<lambda>row y. do { s \<leftarrow> for_entries (tv_elems p) (tv_elems i) (tv_elems v) ?g row (f_zero T); Some (y @ [from_f64 T s]) }) [0..<n] [] =
      Some ([] @ map (\<lambda>r. from_f64 T (row_product T (tv_elems x) (line_entries ?es r))) [0..<n])"
    using foldM_push[of "[0..<n]" "\<lambda>r. map_option (from_f64 T) (for_entries (tv_elems p) (tv_elems i) (tv_elems v) ?g r (f_zero T))"
        "\<lambda>r. from_f64 T (row_product T (tv_elems x) (line_entries ?es r))" "[]"] row
    by (simp add: bind_map_option comp_def)
  moreover have "n < 2 ^ 64" using wf by (simp add: wf_compressed_def Let_def)
  ultimately show ?thesis using x(2) by (simp add: spmv_csr_def from_slice_def)
qed

section \<open>A dense result\<close>

locale cells =
  fixes pos :: "nat \<Rightarrow> nat \<Rightarrow> nat" and L :: nat and Q :: nat
  assumes pos_less: "l < L \<Longrightarrow> q < Q \<Longrightarrow> pos l q < L * Q"
    and pos_inj: "l < L \<Longrightarrow> q < Q \<Longrightarrow> l' < L \<Longrightarrow> q' < Q \<Longrightarrow> pos l q = pos l' q' \<longleftrightarrow> l = l' \<and> q = q'"
begin

text \<open>One entry updates all cells of its line; \<open>g q\<close> reads the other factor.\<close>

lemma update_line:
  assumes l: "l < L" and c: "length c = L * Q" and g: "\<And>q. q < Q \<Longrightarrow> g q = Some (h q)"
  shows "\<exists>c'. foldM (\<lambda>q c. do { b \<leftarrow> g q; cur \<leftarrow> nth_chk c (pos l q); upd_chk c (pos l q) (f cur b) }) [0..<Q] c = Some c' \<and>
    length c' = L * Q \<and> (\<forall>l' < L. \<forall>q < Q. c' ! pos l' q = (if l' = l then f (c ! pos l' q) (h q) else c ! pos l' q))"
proof -
  let ?I = "\<lambda>m c'. length c' = L * Q \<and> (\<forall>l' < L. \<forall>q < Q. c' ! pos l' q = (if l' = l \<and> q < m then f (c ! pos l' q) (h q) else c ! pos l' q))"
  have "\<exists>c'. foldM (\<lambda>q c. do { b \<leftarrow> g q; cur \<leftarrow> nth_chk c (pos l q); upd_chk c (pos l q) (f cur b) }) [0..<Q] c = Some c' \<and> ?I Q c'"
  proof (rule foldM_upt_rule[where I = ?I])
    fix m s assume m: "m < Q" and I: "?I m s"
    have in_range: "pos l m < length s" using pos_less[OF l m] I by simp
    have "s ! pos l m = c ! pos l m" using I l m by simp
    moreover have "?I (Suc m) (s[pos l m := f (c ! pos l m) (h m)])"
      using I in_range pos_inj[OF l m] by (auto simp: nth_list_update less_Suc_eq)
    ultimately show "\<exists>s'. (do { b \<leftarrow> g m; cur \<leftarrow> nth_chk s (pos l m); upd_chk s (pos l m) (f cur b) }) = Some s' \<and> ?I (Suc m) s'"
      using g[OF m] in_range by simp
  qed (use c in simp)
  then show ?thesis by (elim exE conjE) (rule exI, intro conjI; (assumption | simp))
qed

lemma update_entries:
  assumes l: "l < L" and g: "\<forall>e \<in> set es. \<forall>q < Q. g e q = Some (h e q)" and c: "length c = L * Q"
  shows "\<exists>c'. foldM (\<lambda>e. foldM (\<lambda>q c. do { b \<leftarrow> g e q; cur \<leftarrow> nth_chk c (pos l q); upd_chk c (pos l q) (f e cur b) }) [0..<Q]) es c = Some c' \<and>
    length c' = L * Q \<and>
    (\<forall>l' < L. \<forall>q < Q. c' ! pos l' q = (if l' = l then fold (\<lambda>e cur. f e cur (h e q)) es (c ! pos l' q) else c ! pos l' q))"
  using g c
proof (induction es arbitrary: c)
  case (Cons e es)
  from update_line[OF l Cons.prems(2), of "g e" "h e" "f e"] Cons.prems(1) obtain c1 where
    c1: "foldM (\<lambda>q c. do { b \<leftarrow> g e q; cur \<leftarrow> nth_chk c (pos l q); upd_chk c (pos l q) (f e cur b) }) [0..<Q] c = Some c1"
    "length c1 = L * Q" "\<forall>l' < L. \<forall>q < Q. c1 ! pos l' q = (if l' = l then f e (c ! pos l' q) (h e q) else c ! pos l' q)" by force
  from Cons.IH[OF _ c1(2)] Cons.prems(1) obtain c2 where
    "foldM (\<lambda>e. foldM (\<lambda>q c. do { b \<leftarrow> g e q; cur \<leftarrow> nth_chk c (pos l q); upd_chk c (pos l q) (f e cur b) }) [0..<Q]) es c1 = Some c2"
    "length c2 = L * Q" "\<forall>l' < L. \<forall>q < Q. c2 ! pos l' q = (if l' = l then fold (\<lambda>e cur. f e cur (h e q)) es (c1 ! pos l' q) else c1 ! pos l' q)"
    by force
  then show ?case using c1 by (intro exI[of _ c2]) simp
qed simp

lemma update_all:
  assumes all: "\<forall>l < L. \<forall>e \<in> set (es l). \<forall>q < Q. g e q = Some (h e q)"
  shows "\<exists>c. foldM (\<lambda>l. foldM (\<lambda>e. foldM (\<lambda>q c. do { b \<leftarrow> g e q; cur \<leftarrow> nth_chk c (pos l q); upd_chk c (pos l q) (f e cur b) }) [0..<Q]) (es l))
      [0..<L] (replicate (L * Q) z) = Some c \<and>
    length c = L * Q \<and> (\<forall>l < L. \<forall>q < Q. c ! pos l q = fold (\<lambda>e cur. f e cur (h e q)) (es l) z)"
proof -
  let ?I = "\<lambda>m c. length c = L * Q \<and> (\<forall>l < L. \<forall>q < Q. c ! pos l q = (if l < m then fold (\<lambda>e cur. f e cur (h e q)) (es l) z else z))"
  have "\<exists>c. foldM (\<lambda>l. foldM (\<lambda>e. foldM (\<lambda>q c. do { b \<leftarrow> g e q; cur \<leftarrow> nth_chk c (pos l q); upd_chk c (pos l q) (f e cur b) }) [0..<Q]) (es l))
      [0..<L] (replicate (L * Q) z) = Some c \<and> ?I L c"
  proof (rule foldM_upt_rule[where I = ?I])
    fix m s assume m: "m < L" and I: "?I m s"
    have g: "\<forall>e \<in> set (es m). \<forall>q < Q. g e q = Some (h e q)" using all m by blast
    have l: "length s = L * Q" using I by blast
    from update_entries[where es = "es m" and f = f, OF m g l] obtain c' where
      "foldM (\<lambda>e. foldM (\<lambda>q c. do { b \<leftarrow> g e q; cur \<leftarrow> nth_chk c (pos m q); upd_chk c (pos m q) (f e cur b) }) [0..<Q]) (es m) s = Some c'"
      "length c' = L * Q" "\<forall>l < L. \<forall>q < Q. c' ! pos l q = (if l = m then fold (\<lambda>e cur. f e cur (h e q)) (es m) (s ! pos l q) else s ! pos l q)" by blast
    with I show "\<exists>c'. foldM (\<lambda>e. foldM (\<lambda>q c. do { b \<leftarrow> g e q; cur \<leftarrow> nth_chk c (pos m q); upd_chk c (pos m q) (f e cur b) }) [0..<Q]) (es m) s = Some c' \<and>
        ?I (Suc m) c'" by (intro exI[of _ c']) (auto simp: less_Suc_eq)
  qed (use pos_less in auto)
  then show ?thesis by (elim exE conjE) (rule exI, intro conjI; (assumption | simp))
qed

end

interpretation row_major: cells "\<lambda>l q. l * Q + q" L Q for L Q
proof
  fix l q assume "l < L" "q < Q"
  then have "l * Q + q < Suc l * Q" "Suc l * Q \<le> L * Q" by (simp, intro mult_le_mono1) simp
  then show "l * Q + q < L * Q" by linarith
next
  fix l q l' q' assume "l < L" "q < Q" "l' < L" "q' < Q"
  then show "l * Q + q = l' * Q + q' \<longleftrightarrow> l = l' \<and> q = q'"
    by (metis add_left_cancel div_mult_self3 div_less add_cancel_left_right mod_mult_self3 mod_less not_less_zero)
qed

interpretation column_major: cells "\<lambda>l q. q * L + l" L Q for L Q
proof
  fix l q assume "l < L" "q < Q"
  from row_major.pos_less[OF this(2,1)] show "q * L + l < L * Q" by (simp add: mult.commute)
next
  fix l q l' q' assume "l < L" "q < Q" "l' < L" "q' < Q"
  then show "q * L + l = q' * L + l' \<longleftrightarrow> l = l' \<and> q = q'" using row_major.pos_inj[of q Q l L q' l'] by auto
qed

section \<open>Matrix times matrix\<close>

definition add_cell :: "('a, 'f) scalar \<Rightarrow> 'a \<Rightarrow> 'a \<Rightarrow> 'a \<Rightarrow> 'a" where
  "add_cell T cur a b = from_f64 T (add_product T (to_f64 T cur) a b)"

definition spmm_cell :: "('a, 'f) scalar \<Rightarrow> 'a list \<Rightarrow> nat \<Rightarrow> 'a entry list \<Rightarrow> nat \<Rightarrow> 'a" where
  "spmm_cell T b n es j = fold (\<lambda>e cur. add_cell T cur (entry_value e) (b ! (entry_index e * n + j))) es (t_zero T)"

lemma product_index_less: "c < (k :: nat) \<Longrightarrow> j < n \<Longrightarrow> c * n + j < k * n"
  using row_major.pos_less[of c k j n] by simp

lemma spmm_csr_eq:
  assumes wf: "wf_compressed m k p i v" and b: "tv_shape b = [k, n]" "length (tv_elems b) = k * n" and small: "m * n < 2 ^ 63"
  shows "\<exists>c. spmm_csr T (p, i, v) b (m, k) = Some (Inr \<lparr>tv_dtype = t_elem T, tv_shape = [m, n], tv_elems = c\<rparr>) \<and> length c = m * n \<and>
    (\<forall>r < m. \<forall>j < n. c ! (r * n + j) = spmm_cell T (tv_elems b) n (line_entries (lines_of m (tv_elems p) (tv_elems i) (tv_elems v)) r) j)"
proof -
  let ?es = "lines_of m (tv_elems p) (tv_elems i) (tv_elems v)"
  let ?g = "\<lambda>e q. nth_chk (tv_elems b) (entry_index e * n + q)" and ?h = "\<lambda>e q. tv_elems b ! (entry_index e * n + q)"
  let ?f = "\<lambda>e cur bv. from_f64 T (add_product T (to_f64 T cur) (entry_value e) bv)"
  have g: "\<forall>l < m. \<forall>e \<in> set (line_entries ?es l). \<forall>q < n. ?g e q = Some (?h e q)"
  proof (intro allI ballI impI)
    fix l e q assume that: "l < m" "e \<in> set (line_entries ?es l)" "q < n"
    have "e \<in> set ?es" using that(2) line_entries_subset by blast
    from product_index_less[OF indices_range(4)[OF wf this] that(3)] b(2) show "?g e q = Some (?h e q)" by simp
  qed
  from row_major.update_all[where es = "line_entries ?es" and g = ?g and h = ?h and f = ?f and z = "t_zero T" and L = m and Q = n, OF g] obtain c where
    c: "foldM (\<lambda>l. foldM (\<lambda>e. foldM (\<lambda>q c. do { bv \<leftarrow> ?g e q; cur \<leftarrow> nth_chk c (l * n + q); upd_chk c (l * n + q) (?f e cur bv) }) [0..<n])
        (line_entries ?es l)) [0..<m] (replicate (m * n) (t_zero T)) = Some c"
      "length c = m * n" "\<forall>r < m. \<forall>j < n. c ! (r * n + j) = fold (\<lambda>e cur. ?f e cur (?h e j)) (line_entries ?es r) (t_zero T)" by blast
  have "foldM (\<lambda>row. for_entries (tv_elems p) (tv_elems i) (tv_elems v) (\<lambda>col v. foldM (\<lambda>col_b c. do {
        bv \<leftarrow> nth_chk (tv_elems b) (col * n + col_b); current \<leftarrow> nth_chk c (row * n + col_b);
        upd_chk c (row * n + col_b) (from_f64 T (add_product T (to_f64 T current) v bv)) }) [0..<n]) row) [0..<m] (replicate (m * n) (t_zero T)) = Some c"
    unfolding c(1)[symmetric] by (rule foldM_cong) (simp add: for_entries_eq[OF wf])
  then have "spmm_csr T (p, i, v) b (m, k) = Some (Inr \<lparr>tv_dtype = t_elem T, tv_shape = [m, n], tv_elems = c\<rparr>)"
    using b(1) small c(2) by (simp add: spmm_csr_def from_slice_def)
  then show ?thesis using c(2,3) by (auto simp: spmm_cell_def add_cell_def)
qed

definition dsmm_cell :: "('a, 'f) scalar \<Rightarrow> 'a list \<Rightarrow> nat \<Rightarrow> nat \<Rightarrow> 'a entry list \<Rightarrow> 'a" where
  "dsmm_cell T a k r es = fold (\<lambda>e cur. add_cell T cur (a ! (r * k + entry_index e)) (entry_value e)) es (t_zero T)"

lemma dsmm_typed_eq:
  assumes wf: "wf_compressed n k (csc_ptrs d) (csc_indices d) (csc_values d)" and a: "length (tv_elems a) = m * k" and small: "m * n < 2 ^ 63"
  shows "\<exists>c. dsmm_typed T a d m k n = Some (Inr \<lparr>tv_dtype = t_elem T, tv_shape = [m, n], tv_elems = c\<rparr>) \<and> length c = m * n \<and>
    (\<forall>r < m. \<forall>j < n. c ! (r * n + j) = dsmm_cell T (tv_elems a) k r
      (line_entries (lines_of n (tv_elems (csc_ptrs d)) (tv_elems (csc_indices d)) (tv_elems (csc_values d))) j))"
proof -
  let ?es = "lines_of n (tv_elems (csc_ptrs d)) (tv_elems (csc_indices d)) (tv_elems (csc_values d))"
  let ?g = "\<lambda>e q. nth_chk (tv_elems a) (q * k + entry_index e)" and ?h = "\<lambda>e q. tv_elems a ! (q * k + entry_index e)"
  let ?f = "\<lambda>e cur av. from_f64 T (add_product T (to_f64 T cur) av (entry_value e))"
  have g: "\<forall>l < n. \<forall>e \<in> set (line_entries ?es l). \<forall>q < m. ?g e q = Some (?h e q)"
  proof (intro allI ballI impI)
    fix l e q assume that: "l < n" "e \<in> set (line_entries ?es l)" "q < m"
    have "e \<in> set ?es" using that(2) line_entries_subset by blast
    from product_index_less[OF that(3) indices_range(4)[OF wf this]] a show "?g e q = Some (?h e q)" by simp
  qed
  from column_major.update_all[where es = "line_entries ?es" and g = ?g and h = ?h and f = ?f and z = "t_zero T" and L = n and Q = m, OF g] obtain c where
    c: "foldM (\<lambda>l. foldM (\<lambda>e. foldM (\<lambda>q c. do { av \<leftarrow> ?g e q; cur \<leftarrow> nth_chk c (q * n + l); upd_chk c (q * n + l) (?f e cur av) }) [0..<m])
        (line_entries ?es l)) [0..<n] (replicate (n * m) (t_zero T)) = Some c"
      "length c = n * m" "\<forall>l < n. \<forall>q < m. c ! (q * n + l) = fold (\<lambda>e cur. ?f e cur (?h e q)) (line_entries ?es l) (t_zero T)" by blast
  have "foldM (\<lambda>col. for_entries (tv_elems (csc_ptrs d)) (tv_elems (csc_indices d)) (tv_elems (csc_values d)) (\<lambda>row_b v. foldM (\<lambda>row_a c. do {
        av \<leftarrow> nth_chk (tv_elems a) (row_a * k + row_b); current \<leftarrow> nth_chk c (row_a * n + col);
        upd_chk c (row_a * n + col) (from_f64 T (add_product T (to_f64 T current) av v)) }) [0..<m]) col) [0..<n] (replicate (m * n) (t_zero T)) = Some c"
    unfolding c(1)[symmetric] mult.commute[of m n] by (rule foldM_cong) (simp add: for_entries_eq[OF wf])
  then have "dsmm_typed T a d m k n = Some (Inr \<lparr>tv_dtype = t_elem T, tv_shape = [m, n], tv_elems = c\<rparr>)"
    using small c(2) by (simp add: dsmm_typed_def from_slice_def mult.commute)
  then show ?thesis using c(2,3) by (auto simp: dsmm_cell_def add_cell_def mult.commute)
qed

section \<open>Sparse times sparse\<close>

text \<open>The products that one row of the result adds up, with their columns, in the order of the loops.\<close>

definition row_products :: "('a, 'f) scalar \<Rightarrow> 'a entry list \<Rightarrow> 'a entry list \<Rightarrow> (nat \<times> 'f) list" where
  "row_products T as bs = concat (map (\<lambda>a. map (\<lambda>b. (entry_index b, f_mul T (to_f64 T (entry_value a)) (to_f64 T (entry_value b))))
     (line_entries bs (entry_index a))) as)"

definition accumulated :: "('a, 'f) scalar \<Rightarrow> (nat \<times> 'f) list \<Rightarrow> (nat \<times> 'f) list" where
  "accumulated T ps = fold (\<lambda>(j, p). accumulate T j p) ps []"

definition column_sum :: "('a, 'f) scalar \<Rightarrow> (nat \<times> 'f) list \<Rightarrow> nat \<Rightarrow> 'f option" where
  "column_sum T ps j =
     (let qs = map snd (filter (\<lambda>x. fst x = j) ps) in if qs = [] then None else Some (fold (\<lambda>p s. f_add T s p) qs (f_zero T)))"

lemma accumulated_ok: "distinct (map fst (accumulated T ps)) \<and> map_of (accumulated T ps) j = column_sum T ps j \<and>
  set (map fst (accumulated T ps)) = set (map fst ps)"
proof (induction ps arbitrary: j rule: rev_induct)
  case (snoc x ps)
  obtain c p where x: "x = (c, p)" by (cases x)
  let ?acc = "accumulated T ps"
  have IH: "distinct (map fst ?acc)" "map_of ?acc j = column_sum T ps j" "set (map fst ?acc) = set (map fst ps)" for j
    using snoc.IH by blast+
  have acc: "accumulated T (ps @ [x]) = accumulate T c p ?acc" by (simp add: accumulated_def x)
  have sum: "column_sum T (ps @ [x]) j = (if j = c then Some (case column_sum T ps c of None \<Rightarrow> f_add T (f_zero T) p | Some s \<Rightarrow> f_add T s p)
      else column_sum T ps j)"
    by (auto simp: column_sum_def x Let_def)
  have keys: "set (map fst (ps @ [x])) = insert c (set (map fst ps))" by (simp add: x)
  show ?case
  proof (cases "map_of ?acc c")
    case None
    then have "c \<notin> set (map fst ?acc)" by (simp add: map_of_eq_None_iff)
    then show ?thesis using IH None unfolding acc sum keys by (auto simp: accumulate_def map_add_def split: option.split)
  next
    case (Some s)
    then have "c \<in> set (map fst ?acc)" by (metis map_of_eq_None_iff option.simps(3) set_map)
    then show ?thesis using IH Some unfolding acc sum keys
      by (auto simp: accumulate_def AList.update_conv' AList.distinct_update AList.dom_update)
  qed
qed (simp add: accumulated_def column_sum_def)

lemma fold_concat_map: "fold f (concat (map g xs)) s = fold (\<lambda>x. fold f (g x)) xs s"
  by (induction xs arbitrary: s) simp_all

lemma product_rows:
  assumes a: "wf_csr a" and b: "wf_csr b" and inner: "snd (csr_shape a) = fst (csr_shape b)" and i: "i < fst (csr_shape a)"
  shows "numeric_row T a b i = Some (accumulated T (row_products T (line_entries (csr_entries a) i) (csr_entries b)))"
    and "symbolic_row a b i = Some (fold List.insert (map fst (row_products T (line_entries (csr_entries a) i) (csr_entries b))) [])"
proof -
  note wa = a[unfolded wf_csr_def] and wb = b[unfolded wf_csr_def]
  have idx: "entry_index e < fst (csr_shape b)" if "e \<in> set (line_entries (csr_entries a) i)" for e
  proof -
    have "e \<in> set (csr_entries a)" using that line_entries_subset by blast
    then show ?thesis using indices_range(4)[OF wa] inner by (simp add: csr_entries_def)
  qed
  note ents = csr_entries_def[of b, symmetric] csr_entries_def[of a, symmetric]
  have "numeric_row T a b i = Some (fold (\<lambda>ea. fold (\<lambda>eb. accumulate T (entry_index eb) (f_mul T (to_f64 T (entry_value ea)) (to_f64 T (entry_value eb))))
      (line_entries (csr_entries b) (entry_index ea))) (line_entries (csr_entries a) i) [])"
    unfolding numeric_row_def for_entries_eq[OF wa i] ents
    by (rule foldM_fold) (simp add: for_entries_eq[OF wb idx] ents foldM_fold)
  then show "numeric_row T a b i = Some (accumulated T (row_products T (line_entries (csr_entries a) i) (csr_entries b)))"
    by (simp add: accumulated_def row_products_def fold_concat_map fold_map comp_def)
  have "symbolic_row a b i = Some (fold (\<lambda>ea. fold (\<lambda>eb. List.insert (entry_index eb))
      (line_entries (csr_entries b) (entry_index ea))) (line_entries (csr_entries a) i) [])"
    unfolding symbolic_row_def for_entries_eq[OF wa i] ents
    by (rule foldM_fold) (simp add: for_entries_eq[OF wb idx] ents foldM_fold)
  then show "symbolic_row a b i = Some (fold List.insert (map fst (row_products T (line_entries (csr_entries a) i) (csr_entries b))) [])"
    by (simp add: row_products_def map_concat fold_concat_map fold_map comp_def)
qed

text \<open>The symbolic phase predicts the sizes of the accumulators.\<close>

lemma symbolic_exact: "length (fold List.insert (map fst ps) []) = length (accumulated T ps)"
proof -
  have "set (fold List.insert xs ys) = set xs \<union> set ys" "distinct ys \<Longrightarrow> distinct (fold List.insert xs ys)" for xs ys :: "nat list"
    by (induction xs arbitrary: ys) (auto simp: List.insert_def)
  then have "length (fold List.insert (map fst ps) []) = card (set (map fst ps))" by (metis distinct.simps(1) distinct_card empty_set sup_bot.right_neutral)
  also have "\<dots> = length (accumulated T ps)" using accumulated_ok[of T ps] distinct_card[of "map fst (accumulated T ps)"] by simp
  finally show ?thesis .
qed

end
