(* ===== verification/Sparse_Matmul.thy ===== *)
theory Sparse_Matmul
  imports Sparse_Product_Laws
begin

text \<open>
  The sparse products as a whole: the matrix that \<open>esc_spgemm\<close> writes, what every product returns for operands in
  any format, and that in exact arithmetic it is the matrix product.
\<close>

section \<open>Writing the rows of a compressed matrix\<close>

definition kept_row :: "('a, 'f) scalar \<Rightarrow> (nat \<times> 'f) list \<Rightarrow> (int \<times> 'a) list" where
  "kept_row T acc = map (\<lambda>(j, s). (int j, from_f64 T s))
     (filter (\<lambda>(j, s). f_above T s (zero_tolerance (size_in_bytes (t_elem T)))) (sort_key fst acc))"

lemma write_row_eq: "write_row T acc out = (fst out @ map fst (kept_row T acc), snd out @ map snd (kept_row T acc))"
proof -
  have "fold (\<lambda>(col, v) out. if f_above T v (zero_tolerance (size_in_bytes (t_elem T)))
      then (fst out @ [int col], snd out @ [from_f64 T v]) else out) xs out =
    (fst out @ map fst (map (\<lambda>(j, s). (int j, from_f64 T s)) (filter (\<lambda>(j, s). f_above T s (zero_tolerance (size_in_bytes (t_elem T)))) xs)),
     snd out @ map snd (map (\<lambda>(j, s). (int j, from_f64 T s)) (filter (\<lambda>(j, s). f_above T s (zero_tolerance (size_in_bytes (t_elem T)))) xs)))" for xs
    by (induction xs arbitrary: out) auto
  then show ?thesis unfolding write_row_def kept_row_def .
qed

definition row_entries_of :: "(nat \<Rightarrow> (int \<times> 'a) list) \<Rightarrow> nat \<Rightarrow> 'a entry list" where
  "row_entries_of R m = concat (map (\<lambda>i. map (Pair (int i)) (R i)) [0..<m])"

lemma row_entries_of_Suc: "row_entries_of R (Suc m) = row_entries_of R m @ map (Pair (int m)) (R m)"
  by (simp add: row_entries_of_def)

lemma row_entries_lines: "e \<in> set (row_entries_of R m) \<Longrightarrow> \<exists>i < m. fst e = int i \<and> snd e \<in> set (R i)"
  by (auto simp: row_entries_of_def)

lemma row_entries_below: "i \<le> m \<Longrightarrow> below (map fst (row_entries_of R m)) (int i) = length (row_entries_of R i)"
proof (induction m)
  case (Suc m)
  have all: "below (map fst (row_entries_of R (Suc m))) (int (Suc m)) = length (row_entries_of R (Suc m))"
    unfolding below_def by (subst filter_True) (auto dest!: row_entries_lines)
  show ?case
  proof (cases "i = Suc m")
    case False
    then have "i \<le> m" using Suc.prems by simp
    moreover have "below (map fst (map (Pair (int m)) (R m))) (int i) = 0" using \<open>i \<le> m\<close> by (auto simp: below_def filter_empty_conv)
    ultimately show ?thesis using Suc.IH by (simp add: row_entries_of_Suc below_def)
  qed (use all in simp)
qed (simp add: row_entries_of_def below_def)

lemma row_entries_ptrs: "ptrs_of m (map fst (row_entries_of R m)) = map (\<lambda>i. int (length (row_entries_of R i))) [0..<m + 1]"
proof -
  have "int (below (map fst (row_entries_of R m)) (int i)) = int (length (row_entries_of R i))" if "i \<in> set [0..<m + 1]" for i
    using that row_entries_below[of i m R] by (simp del: upt_Suc)
  then show ?thesis unfolding ptrs_of_def by (intro map_cong refl)
qed

lemma row_entries_order:
  assumes "\<And>i. i < m \<Longrightarrow> ascending (R i)"
  shows "in_order (row_entries_of R m)"
  using assms
proof (induction m)
  case (Suc m)
  have "fst e < int m" if "e \<in> set (row_entries_of R m)" for e using row_entries_lines[OF that] by auto
  then show ?case using Suc
    by (auto simp: row_entries_of_Suc sorted_wrt_append sorted_wrt_map less_prod_def)
qed (simp add: row_entries_of_def)

lemma lookup_pairs: "lookup (map (Pair (int m)) zs) (int i, c) = (if i = m then map_of zs c else None)"
  by (induction zs) auto

lemma lookup_row_entries: "lookup (row_entries_of R m) (int i, c) = (if i < m then map_of (R i) c else None)"
proof (induction m)
  case (Suc m)
  then show ?case by (auto simp: row_entries_of_Suc lookup_append lookup_pairs less_Suc_eq split: option.split)
qed (simp add: row_entries_of_def)

section \<open>The product of two compressed matrices\<close>

lemma kept_row_ok:
  assumes "distinct (map fst acc)"
  shows "ascending (kept_row T acc)"
    and "map_of (kept_row T acc) (int j) =
      (case map_of acc j of None \<Rightarrow> None
       | Some s \<Rightarrow> if f_above T s (zero_tolerance (size_in_bytes (t_elem T))) then Some (from_f64 T s) else None)"
    and "set (map fst (kept_row T acc)) \<subseteq> int ` set (map fst acc)" and "length (kept_row T acc) \<le> length acc"
proof -
  let ?keep = "\<lambda>(j :: nat, s). f_above T s (zero_tolerance (size_in_bytes (t_elem T)))"
  have d: "distinct (map fst (sort_key fst acc))" using assms by (metis distinct_map distinct_sort set_sort)
  then have "sorted_wrt (<) (map fst (sort_key fst acc))" by (simp add: strict_sorted_iff)
  then have "sorted_wrt (\<lambda>x y. fst x < fst y) (filter ?keep (sort_key fst acc))" by (simp add: sorted_wrt_map sorted_wrt_filter)
  then show "ascending (kept_row T acc)" by (auto simp: kept_row_def sorted_wrt_map elim!: sorted_wrt_mono_rel[rotated])
  have "map_of (map (\<lambda>(j, s). (int j, from_f64 T s)) (filter ?keep xs)) (int j) =
      (case map_of xs j of None \<Rightarrow> None
       | Some s \<Rightarrow> if f_above T s (zero_tolerance (size_in_bytes (t_elem T))) then Some (from_f64 T s) else None)"
    if "distinct (map fst xs)" for xs
    using that
  proof (induction xs)
    case (Cons x xs)
    have "fst ` set (map (\<lambda>(j, s). (int j, from_f64 T s)) (filter ?keep xs)) \<subseteq> int ` fst ` set xs" by force
    moreover have "fst x \<notin> fst ` set xs" using Cons.prems by simp
    then have "int (fst x) \<notin> int ` fst ` set xs" by (metis imageE of_nat_eq_iff)
    ultimately have "map_of (map (\<lambda>(j, s). (int j, from_f64 T s)) (filter ?keep xs)) (int j) = None" if "j = fst x"
      using that unfolding map_of_eq_None_iff by blast
    then show ?case using Cons by (cases x) auto
  qed simp
  from this[OF d] show "map_of (kept_row T acc) (int j) =
      (case map_of acc j of None \<Rightarrow> None
       | Some s \<Rightarrow> if f_above T s (zero_tolerance (size_in_bytes (t_elem T))) then Some (from_f64 T s) else None)"
    unfolding kept_row_def using map_of_inject_set[OF assms d] by simp
  show "set (map fst (kept_row T acc)) \<subseteq> int ` set (map fst acc)" by (force simp: kept_row_def)
  show "length (kept_row T acc) \<le> length acc" unfolding kept_row_def using length_filter_le[of ?keep "sort_key fst acc"] by simp
qed

definition product_row :: "('a, 'f) scalar \<Rightarrow> 'a entry list \<Rightarrow> 'a entry list \<Rightarrow> nat \<Rightarrow> (int \<times> 'a) list" where
  "product_row T as bs i = kept_row T (accumulated T (row_products T (line_entries as i) bs))"

text \<open>What the product holds at a position.\<close>

definition product_at :: "('a, 'f) scalar \<Rightarrow> 'a entry list \<Rightarrow> 'a entry list \<Rightarrow> nat \<Rightarrow> nat \<Rightarrow> 'a option" where
  "product_at T as bs i j =
     (case column_sum T (row_products T (line_entries as i) bs) j of None \<Rightarrow> None
      | Some s \<Rightarrow> if f_above T s (zero_tolerance (size_in_bytes (t_elem T))) then Some (from_f64 T s) else None)"

definition product_work :: "('a, 'f) scalar \<Rightarrow> 'a entry list \<Rightarrow> 'a entry list \<Rightarrow> nat \<Rightarrow> nat" where
  "product_work T as bs m = (\<Sum>i<m. length (row_products T (line_entries as i) bs))"

lemma product_row_length: "length (product_row T as bs i) \<le> length (row_products T (line_entries as i) bs)"
proof -
  let ?ps = "row_products T (line_entries as i) bs"
  have "length (accumulated T ?ps) = card (set (map fst ?ps))"
    using accumulated_ok[of T ?ps] distinct_card[of "map fst (accumulated T ?ps)"] by simp
  also have "\<dots> \<le> length ?ps" using card_length[of "map fst ?ps"] by simp
  finally show ?thesis using kept_row_ok(4)[of "accumulated T ?ps" T] accumulated_ok[of T ?ps] by (simp add: product_row_def)
qed

lemma row_entries_work: "length (row_entries_of (product_row T as bs) m) \<le> product_work T as bs m"
proof (induction m)
  case (Suc m)
  then show ?case using product_row_length[of T as bs m] by (simp add: row_entries_of_Suc product_work_def)
qed (simp add: row_entries_of_def product_work_def)

lemma product_row_ok:
  shows "ascending (product_row T as bs i)"
    and "map_of (product_row T as bs i) (int j) = product_at T as bs i j"
    and "set (map fst (product_row T as bs i)) \<subseteq> int ` set (map fst (accumulated T (row_products T (line_entries as i) bs)))"
  using kept_row_ok[OF accumulated_ok[THEN conjunct1, of T "row_products T (line_entries as i) bs"], of T]
    accumulated_ok[of T "row_products T (line_entries as i) bs" j]
  by (simp_all add: product_row_def product_at_def)

lemma esc_spgemm_csr_eq:
  assumes a: "wf_csr a" and b: "wf_csr b" and dims: "csr_shape a = (m, k)" "csr_shape b = (k, n)"
    and dt: "tv_dtype (csr_values a) \<noteq> Bool" and work: "product_work T (csr_entries a) (csr_entries b) m < 2 ^ 63"
  shows "\<exists>r. esc_spgemm_csr T a b = Some (Inr r) \<and> wf_csr r \<and> csr_shape r = (m, n) \<and> tv_dtype (csr_values r) = t_elem T \<and>
    in_order (csr_entries r) \<and> (\<forall>i < m. \<forall>j. lookup (csr_entries r) (int i, int j) = product_at T (csr_entries a) (csr_entries b) i j)"
proof -
  let ?ps = "\<lambda>i. row_products T (line_entries (csr_entries a) i) (csr_entries b)" and ?R = "product_row T (csr_entries a) (csr_entries b)"
  let ?nnz = "map (\<lambda>i. int (length (accumulated T (?ps i)))) [0..<m]"
  have inner: "snd (csr_shape a) = fst (csr_shape b)" and m: "m = fst (csr_shape a)" using dims by simp_all
  note rows = product_rows[OF a b inner, folded m]
  have p1: "foldM (\<lambda>i row_nnz. do { s \<leftarrow> symbolic_row a b i; upd_chk row_nnz i (int (length s)) }) [0..<m] (replicate m 0) = Some ?nnz"
    using foldM_upd_upt[of m "\<lambda>i. map_option (\<lambda>s. int (length s)) (symbolic_row a b i)" "\<lambda>i. int (length (accumulated T (?ps i)))" "replicate m 0"]
    by (simp add: rows(2)[where T = T] symbolic_exact bind_map_option comp_def)
  have "\<exists>q. foldM (\<lambda>i ps. do { p \<leftarrow> nth_chk ps i; z \<leftarrow> nth_chk ?nnz i; Some (ps @ [p + z]) }) [0..<m] [0 :: int] = Some q \<and> length q = Suc m"
    by (rule foldM_upt_rule[where I = "\<lambda>i q. length q = Suc i"]) auto
  then obtain scan where p2: "foldM (\<lambda>i ps. do { p \<leftarrow> nth_chk ps i; z \<leftarrow> nth_chk ?nnz i; Some (ps @ [p + z]) }) [0..<m] [0 :: int] = Some scan" by blast
  let ?out = "\<lambda>i. (map (\<lambda>e. fst (snd e)) (row_entries_of ?R i), map (\<lambda>e. snd (snd e)) (row_entries_of ?R i))"
  have "\<exists>s. foldM (\<lambda>i (ptrs, out). do {
       capacity \<leftarrow> nth_chk ?nnz i;
       acc \<leftarrow> numeric_row T a b i;
       let out = write_row T acc out;
       Some (ptrs @ [int (length (fst out))], out) }) [0..<m] ([0], [], []) = Some s \<and>
     s = (map (\<lambda>i. int (length (row_entries_of ?R i))) [0..<m + 1], ?out m)"
  proof (rule foldM_upt_rule[where I = "\<lambda>i s. s = (map (\<lambda>i. int (length (row_entries_of ?R i))) [0..<i + 1], ?out i)"])
    show "([0], [], []) = (map (\<lambda>i. int (length (row_entries_of ?R i))) [0..<0 + 1], ?out 0)" by (simp add: row_entries_of_def)
  next
    fix i s assume i: "i < m" and s: "s = (map (\<lambda>i. int (length (row_entries_of ?R i))) [0..<i + 1], ?out i)"
    have "write_row T (accumulated T (?ps i)) (?out i) = ?out (Suc i)"
      by (simp add: write_row_eq row_entries_of_Suc product_row_def comp_def)
    then show "\<exists>s'. (case s of (ptrs, out) \<Rightarrow> do {
       capacity \<leftarrow> nth_chk ?nnz i;
       acc \<leftarrow> numeric_row T a b i;
       let out = write_row T acc out;
       Some (ptrs @ [int (length (fst out))], out) }) = Some s' \<and> s' = (map (\<lambda>i. int (length (row_entries_of ?R i))) [0..<Suc i + 1], ?out (Suc i))"
      using i by (simp add: s rows(1) Let_def)
  qed
  then have p3: "foldM (\<lambda>i (ptrs, out). do {
       capacity \<leftarrow> nth_chk ?nnz i;
       acc \<leftarrow> numeric_row T a b i;
       let out = write_row T acc out;
       Some (ptrs @ [int (length (fst out))], out) }) [0..<m] ([0], [], []) =
     Some (ptrs_of m (map fst (row_entries_of ?R m)), ?out m)" by (simp add: row_entries_ptrs)
  let ?es = "row_entries_of ?R m"
  note kept = product_row_ok[of T "csr_entries a" "csr_entries b"]
  have ord: "in_order ?es" by (rule row_entries_order) (rule kept(1))
  have rng: "indices_below m (map fst ?es)" by (auto simp: indices_below_def dest!: row_entries_lines)
  have small: "m < 2 ^ 63" "n < 2 ^ 63" using a b dims by (simp_all add: wf_csr_def wf_compressed_def Let_def)
  have cols: "indices_below n (map (\<lambda>e. fst (snd e)) ?es)"
  proof -
    have "0 \<le> c \<and> c < int n" if "e \<in> set ?es" "c = fst (snd e)" for e c
    proof -
      from row_entries_lines[OF that(1)] obtain i where "i < m" "snd e \<in> set (?R i)" by blast
      then have "c \<in> int ` set (map fst (accumulated T (?ps i)))" using kept(3)[of i] that(2) by auto
      then obtain j where j: "c = int j" "j \<in> set (map fst (?ps i))" using accumulated_ok[of T "?ps i"] by auto
      then obtain eb where "eb \<in> set (csr_entries b)" "j = entry_index eb"
        using line_entries_subset by (fastforce simp: row_products_def)
      then have "j < n" using indices_range(4)[OF b[unfolded wf_csr_def]] dims(2) by (simp add: csr_entries_def)
      then show ?thesis using j(1) by simp
    qed
    then show ?thesis by (auto simp: indices_below_def)
  qed
  have len: "length ?es < 2 ^ 63" using row_entries_work[of T "csr_entries a" "csr_entries b" m] work by linarith
  from merge_parts_ok[OF ord rng cols len small, of "t_elem T"] obtain p i v where
    parts: "merge_parts (t_elem T) m (ptrs_of m (map fst ?es), map (\<lambda>e. fst (snd e)) ?es, map (\<lambda>e. snd (snd e)) ?es) = Some (Inr (p, i, v))"
      "wf_compressed m n p i v" "tv_dtype v = t_elem T" "lines_of m (tv_elems p) (tv_elems i) (tv_elems v) = ?es" by blast
  let ?r = "\<lparr>csr_ptrs = p, csr_indices = i, csr_values = v, csr_shape = (m, n)\<rparr>"
  have "esc_spgemm_csr T a b = Some (Inr ?r)"
    using dims dt p1 p2 p3 parts(1) len small
    by (simp add: esc_spgemm_csr_def validate_spgemm_shapes_def esc_spgemm_typed_def merge_parts_def Let_def from_slice_def split: if_splits)
  moreover have "lookup ?es (int x, int y) = product_at T (csr_entries a) (csr_entries b) x y" if "x < m" for x y
    using that kept(2)[of x y] by (simp add: lookup_row_entries)
  ultimately show ?thesis using parts ord by (intro exI[of _ ?r]) (simp add: wf_csr_def csr_entries_def)
qed

section \<open>Operands in any format\<close>

lemma to_csr_ok:
  assumes "wf_sparse m" "sp_dtype m \<noteq> Bool"
  shows "\<exists>d. to_csr m = Some (Inr d) \<and> wf_csr d \<and> csr_shape d = sp_shape m \<and> tv_dtype (csr_values d) = sp_dtype m \<and> csr_entries d = converted CSR m"
  using to_format_eq[OF assms, of CSR] by (auto simp: sp_dtype_def elim!: map_sum_Inr)

lemma to_csc_ok:
  assumes "wf_sparse m" "sp_dtype m \<noteq> Bool"
  shows "\<exists>d. to_csc m = Some (Inr d) \<and> wf_csc d \<and> csc_shape d = sp_shape m \<and> tv_dtype (csc_values d) = sp_dtype m \<and> csc_entries d = converted CSC m"
  using to_format_eq[OF assms, of CSC] by (auto simp: sp_dtype_def elim!: map_sum_Inr)

definition dense_ok :: "('a, 'f) scalar \<Rightarrow> nat list \<Rightarrow> 'a tvec \<Rightarrow> bool" where
  "dense_ok T shp x \<longleftrightarrow> tv_dtype x = t_elem T \<and> tv_shape x = shp \<and> length (tv_elems x) = prod_list shp \<and> prod_list shp < 2 ^ 63"

definition sparse_ok :: "('a, 'f) scalar \<Rightarrow> nat \<times> nat \<Rightarrow> 'a sparse \<Rightarrow> bool" where
  "sparse_ok T shp a \<longleftrightarrow> wf_sparse a \<and> sp_dtype a = t_elem T \<and> t_elem T \<noteq> Bool \<and> sp_shape a = shp"

definition is_dense :: "('a, 'f) scalar \<Rightarrow> nat \<Rightarrow> nat \<Rightarrow> 'a tvec \<Rightarrow> (nat \<Rightarrow> nat \<Rightarrow> 'a) \<Rightarrow> bool" where
  "is_dense T m n c f \<longleftrightarrow> tv_dtype c = t_elem T \<and> tv_shape c = [m, n] \<and> length (tv_elems c) = m * n \<and>
     (\<forall>i < m. \<forall>j < n. tv_elems c ! (i * n + j) = f i j)"

lemma spmv_ok:
  assumes a: "sparse_ok T (m, k) a" and x: "dense_ok T [k] x"
  shows "client_spmv T a x = Some (Inr \<lparr>tv_dtype = t_elem T, tv_shape = [m],
      tv_elems = map (\<lambda>i. from_f64 T (row_product T (tv_elems x) (line_entries (converted CSR a) i))) [0..<m]\<rparr>)"
    and "from_f64 T (f_zero T) = t_zero T \<Longrightarrow> sparse_spmv T a x = client_spmv T a x"
proof -
  from to_csr_ok[of a] a obtain d where d: "to_csr a = Some (Inr d)" "wf_csr d" "csr_shape d = (m, k)" "tv_dtype (csr_values d) = t_elem T"
    "csr_entries d = converted CSR a" "t_elem T \<noteq> Bool" by (auto simp: sparse_ok_def)
  have n: "numel x = k" "length (tv_elems x) = k" "tv_dtype x = t_elem T" using x by (simp_all add: dense_ok_def numel_def)
  have eq: "spmv_csr T (csr_parts d) x (m, k) = Some (Inr \<lparr>tv_dtype = t_elem T, tv_shape = [m],
      tv_elems = map (\<lambda>i. from_f64 T (row_product T (tv_elems x) (line_entries (converted CSR a) i))) [0..<m]\<rparr>)"
    using spmv_csr_eq[of m k "csr_ptrs d" "csr_indices d" "csr_values d" x T] d(2,3,5) n(1,2) by (simp add: wf_csr_def csr_entries_def csr_parts_def)
  then show c: "client_spmv T a x = Some (Inr \<lparr>tv_dtype = t_elem T, tv_shape = [m],
      tv_elems = map (\<lambda>i. from_f64 T (row_product T (tv_elems x) (line_entries (converted CSR a) i))) [0..<m]\<rparr>)"
    using d by (simp add: client_spmv_def)
  assume z: "from_f64 T (f_zero T) = t_zero T"
  have "converted CSR a = []" "m < 2 ^ 64" if "numel (csr_values d) = 0"
  proof -
    have wf: "wf_compressed m k (csr_ptrs d) (csr_indices d) (csr_values d)" using d(2,3) by (simp add: wf_csr_def)
    then have "tv_elems (csr_values d) = []" using that wf_compressed_numel[OF wf] by simp
    then show "converted CSR a = []" using length_lines[OF wf] d(3,5) by (simp add: csr_entries_def)
    show "m < 2 ^ 64" using wf by (simp add: wf_compressed_def Let_def)
  qed
  then show "sparse_spmv T a x = client_spmv T a x"
    using d n eq z by (auto simp: sparse_spmv_def csr_spmv_def client_spmv_def Let_def from_slice_def line_entries_def row_product_def map_replicate_const)
qed

lemma spmm_ok:
  assumes a: "sparse_ok T (m, k) a" and b: "dense_ok T [k, n] b" and small: "m * n < 2 ^ 63"
  shows "\<exists>c. client_spmm T a b = Some (Inr c) \<and> sparse_spmm T a b = Some (Inr c) \<and>
    is_dense T m n c (\<lambda>i. spmm_cell T (tv_elems b) n (line_entries (converted CSR a) i))"
proof -
  from to_csr_ok[of a] a obtain d where d: "to_csr a = Some (Inr d)" "wf_csr d" "csr_shape d = (m, k)" "tv_dtype (csr_values d) = t_elem T"
    "csr_entries d = converted CSR a" "t_elem T \<noteq> Bool" by (auto simp: sparse_ok_def)
  have wf: "wf_compressed m k (csr_ptrs d) (csr_indices d) (csr_values d)" using d(2,3) by (simp add: wf_csr_def)
  have bb: "tv_shape b = [k, n]" "length (tv_elems b) = k * n" "tv_dtype b = t_elem T" using b by (simp_all add: dense_ok_def)
  from spmm_csr_eq[OF wf bb(1,2) small, of T] obtain c where
    c: "spmm_csr T (csr_parts d) b (m, k) = Some (Inr \<lparr>tv_dtype = t_elem T, tv_shape = [m, n], tv_elems = c\<rparr>)" "length c = m * n"
      "\<forall>r < m. \<forall>j < n. c ! (r * n + j) = spmm_cell T (tv_elems b) n (line_entries (converted CSR a) r) j"
    using d(3,5) by (auto simp: csr_parts_def csr_entries_def)
  have empty: "c = replicate (m * n) (t_zero T)" if "numel (csr_values d) = 0"
  proof (rule nth_equalityI)
    have "tv_elems (csr_values d) = []" using that wf_compressed_numel[OF wf] by simp
    then have "converted CSR a = []" using length_lines[OF wf] d(3,5) by (simp add: csr_entries_def)
    then have z: "\<forall>r < m. \<forall>j < n. c ! (r * n + j) = t_zero T" using c(3) by (simp add: line_entries_def spmm_cell_def)
    fix p assume "p < length c"
    then have p: "p < m * n" using c(2) by simp
    then have "0 < n" by (cases n) simp_all
    then have "p div n < m" "p mod n < n" using p by (simp_all add: less_mult_imp_div_less)
    then show "c ! p = replicate (m * n) (t_zero T) ! p" using z[rule_format, of "p div n" "p mod n"] p by simp
  qed (simp add: c(2))
  have "client_spmm T a b = Some (Inr \<lparr>tv_dtype = t_elem T, tv_shape = [m, n], tv_elems = c\<rparr>)"
    using d c(1) by (simp add: client_spmm_def)
  moreover have "sparse_spmm T a b = Some (Inr \<lparr>tv_dtype = t_elem T, tv_shape = [m, n], tv_elems = c\<rparr>)"
    using d c(1) bb small empty by (simp add: sparse_spmm_def csr_spmm_def Let_def from_slice_def)
  ultimately show ?thesis using c(2,3) by (intro exI[of _ "\<lparr>tv_dtype = t_elem T, tv_shape = [m, n], tv_elems = c\<rparr>"]) (simp add: is_dense_def)
qed

text \<open>The entries of a column are met in storage order with their row as the index.\<close>

definition column_entries :: "'a entry list \<Rightarrow> nat \<Rightarrow> 'a entry list" where
  "column_entries es j = line_entries (map swap_entry es) j"

lemma dsmm_ok:
  assumes a: "dense_ok T [m, k] a" and b: "sparse_ok T (k, n) b" and small: "m * n < 2 ^ 63"
  shows "\<exists>c. client_dsmm T a b = Some (Inr c) \<and>
    is_dense T m n c (\<lambda>i j. dsmm_cell T (tv_elems a) k i (column_entries (converted CSC b) j))"
proof -
  from to_csc_ok[of b] b obtain d where d: "to_csc b = Some (Inr d)" "wf_csc d" "csc_shape d = (k, n)" "tv_dtype (csc_values d) = t_elem T"
    "csc_entries d = converted CSC b" "t_elem T \<noteq> Bool" by (auto simp: sparse_ok_def)
  have wf: "wf_compressed n k (csc_ptrs d) (csc_indices d) (csc_values d)" using d(2,3) by (simp add: wf_csc_def)
  have aa: "tv_shape a = [m, k]" "length (tv_elems a) = m * k" using a by (simp_all add: dense_ok_def)
  have sw: "map swap_entry (converted CSC b) = lines_of n (tv_elems (csc_ptrs d)) (tv_elems (csc_indices d)) (tv_elems (csc_values d))"
    unfolding d(5)[symmetric] using d(3) by (simp add: csc_entries_def comp_def swap_entry_def)
  from dsmm_typed_eq[OF wf aa(2) small, of T] obtain c where
    c: "dsmm_typed T a d m k n = Some (Inr \<lparr>tv_dtype = t_elem T, tv_shape = [m, n], tv_elems = c\<rparr>)" "length c = m * n"
      "\<forall>r < m. \<forall>j < n. c ! (r * n + j) = dsmm_cell T (tv_elems a) k r (column_entries (converted CSC b) j)"
    unfolding column_entries_def sw by blast
  then have "client_dsmm T a b = Some (Inr \<lparr>tv_dtype = t_elem T, tv_shape = [m, n], tv_elems = c\<rparr>)"
    using d aa by (simp add: client_dsmm_def column_parallel_dsmm_def validate_dsmm_shapes_def)
  then show ?thesis using c(2,3) by (intro exI[of _ "\<lparr>tv_dtype = t_elem T, tv_shape = [m, n], tv_elems = c\<rparr>"]) (simp add: is_dense_def)
qed

definition is_product :: "('a, 'f) scalar \<Rightarrow> nat \<times> nat \<Rightarrow> 'a sparse \<Rightarrow> (nat \<Rightarrow> nat \<Rightarrow> 'a option) \<Rightarrow> bool" where
  "is_product T shp r f \<longleftrightarrow> wf_sparse r \<and> format r = CSR \<and> sp_shape r = shp \<and> sp_dtype r = t_elem T \<and> canonical r \<and>
     (\<forall>i < fst shp. \<forall>j < snd shp. lookup (sp_entries r) (int i, int j) = f i j)"

lemma matmul_ok:
  assumes a: "sparse_ok T (m, k) a" and b: "sparse_ok T (k, n) b" and work: "product_work T (converted CSR a) (converted CSR b) m < 2 ^ 63"
  shows "\<exists>r. sparse_matmul T a b = Some (Inr r) \<and> is_product T (m, n) r (product_at T (converted CSR a) (converted CSR b))"
proof -
  from to_csr_ok[of a] a obtain da where da: "to_csr a = Some (Inr da)" "wf_csr da" "csr_shape da = (m, k)" "tv_dtype (csr_values da) = t_elem T"
    "csr_entries da = converted CSR a" "t_elem T \<noteq> Bool" by (auto simp: sparse_ok_def)
  from to_csr_ok[of b] b obtain db where db: "to_csr b = Some (Inr db)" "wf_csr db" "csr_shape db = (k, n)" "tv_dtype (csr_values db) = t_elem T"
    "csr_entries db = converted CSR b" by (auto simp: sparse_ok_def)
  from esc_spgemm_csr_eq[OF da(2) db(2) da(3) db(3), of T] da db work obtain r where r: "esc_spgemm_csr T da db = Some (Inr r)"
    "wf_csr r" "csr_shape r = (m, n)" "tv_dtype (csr_values r) = t_elem T" "in_order (csr_entries r)"
    "\<forall>i < m. \<forall>j. lookup (csr_entries r) (int i, int j) = product_at T (converted CSR a) (converted CSR b) i j" by auto
  then show ?thesis using da db by (intro exI[of _ "Csr r"]) (simp add: sparse_matmul_def is_product_def sp_dtype_def)
qed

end
