(* ===== verification/Sparse_Matmul_Exact.thy ===== *)
theory Sparse_Matmul_Exact
  imports Sparse_Matmul
begin

text \<open>
  The sparse products against the matrix product. An arithmetic is exact when \<open>f64\<close> computes in a commutative ring
  without rounding and the zero tolerance drops only zero, as for integers that stay representable; then every
  product is the matrix product of the dense matrices the operands stand for, duplicate entries summed.
\<close>

definition exact :: "('a, 'f :: comm_ring_1) scalar \<Rightarrow> bool" where
  "exact T \<longleftrightarrow> f_zero T = 0 \<and> f_add T = (+) \<and> f_mul T = (*) \<and> (\<forall>x. to_f64 T (from_f64 T x) = x) \<and>
     from_f64 T 0 = t_zero T \<and> (\<forall>x. \<not> f_above T x (zero_tolerance (size_in_bytes (t_elem T))) \<longrightarrow> x = 0)"

definition entry_sum :: "('a, 'f :: comm_ring_1) scalar \<Rightarrow> 'a entry list \<Rightarrow> nat \<Rightarrow> nat \<Rightarrow> 'f" where
  "entry_sum T es i j = sum_list (map (\<lambda>e. to_f64 T (entry_value e)) (filter (\<lambda>e. position e = (int i, int j)) es))"

lemma entry_sum_mset:
  fixes T :: "('a, 'f :: comm_ring_1) scalar"
  shows "mset es = mset es' \<Longrightarrow> entry_sum T es i j = entry_sum T es' i j"
proof -
  have "sum_list (map g (filter P xs)) = sum_mset (image_mset g (filter_mset P (mset xs)))" for g :: "'a entry \<Rightarrow> 'f" and P xs
    by (simp flip: sum_mset_sum_list)
  then show "mset es = mset es' \<Longrightarrow> entry_sum T es i j = entry_sum T es' i j" by (simp only: entry_sum_def)
qed

lemma entry_sum_converted: "entry_sum T (converted f m) i j = entry_sum T (sp_entries m) i j"
  by (rule entry_sum_mset) (rule mset_converted)

lemma exact_simps:
  assumes "exact T"
  shows "f_zero T = 0" "f_add T x y = x + y" "f_mul T x y = x * y" "to_f64 T (from_f64 T x) = x" "to_f64 T (t_zero T) = 0"
    "from_f64 T 0 = t_zero T" "\<not> f_above T x (zero_tolerance (size_in_bytes (t_elem T))) \<Longrightarrow> x = 0"
  using assms unfolding exact_def by (simp_all, metis+)

text \<open>Entries grouped by their index.\<close>

lemma sum_by_index:
  fixes g :: "'e \<Rightarrow> 'f :: comm_ring_1" and ix :: "'e \<Rightarrow> nat"
  assumes "\<forall>e \<in> set es. ix e < k"
  shows "sum_list (map (\<lambda>e. g e * h (ix e)) es) = (\<Sum>c<k. sum_list (map g (filter (\<lambda>e. ix e = c) es)) * h c)"
  using assms
proof (induction es)
  case (Cons e es)
  have "(\<Sum>c<k. sum_list (map g (filter (\<lambda>e. ix e = c) (e # es))) * h c) =
      (\<Sum>c<k. (if ix e = c then g e * h c else 0) + sum_list (map g (filter (\<lambda>e. ix e = c) es)) * h c)"
    by (rule sum.cong) (auto simp: algebra_simps)
  also have "\<dots> = g e * h (ix e) + (\<Sum>c<k. sum_list (map g (filter (\<lambda>e. ix e = c) es)) * h c)"
  proof -
    have "ix e \<in> {..<k}" using Cons.prems by simp
    then have "(\<Sum>c<k. if ix e = c then g e * h c else 0) = g e * h (ix e)" by (subst sum.delta') simp_all
    then show ?thesis by (simp only: sum.distrib)
  qed
  finally show ?case using Cons by simp
qed simp

lemma line_index_sum:
  assumes "\<forall>e \<in> set es. 0 \<le> fst (snd e)"
  shows "sum_list (map (\<lambda>e. to_f64 T (entry_value e)) (filter (\<lambda>e. entry_index e = c) (line_entries es i))) = entry_sum T es i c"
proof -
  have "filter (\<lambda>e. entry_index e = c) (line_entries es i) = filter (\<lambda>e. position e = (int i, int c)) es"
    unfolding line_entries_def filter_filter using assms by (intro filter_cong) auto
  then show ?thesis by (simp add: entry_sum_def)
qed

lemma fold_plus: "fold (\<lambda>e s. s + g e) es (z :: 'f :: comm_ring_1) = z + sum_list (map g es)"
  by (induction es arbitrary: z) (simp_all add: algebra_simps)

lemma row_product_exact:
  assumes "exact T" and rng: "\<forall>e \<in> set es. 0 \<le> fst (snd e) \<and> entry_index e < k"
  shows "row_product T x (line_entries es i) = (\<Sum>c<k. entry_sum T es i c * to_f64 T (x ! c))"
proof -
  have "row_product T x (line_entries es i) = sum_list (map (\<lambda>e. to_f64 T (entry_value e) * to_f64 T (x ! entry_index e)) (line_entries es i))"
    using fold_plus[of "\<lambda>e. to_f64 T (entry_value e) * to_f64 T (x ! entry_index e)" "line_entries es i" 0]
    by (simp add: row_product_def add_product_def exact_simps[OF assms(1)])
  also have "\<dots> = (\<Sum>c<k. sum_list (map (\<lambda>e. to_f64 T (entry_value e)) (filter (\<lambda>e. entry_index e = c) (line_entries es i))) * to_f64 T (x ! c))"
    by (rule sum_by_index[where h = "\<lambda>c. to_f64 T (x ! c)"]) (use rng line_entries_subset in blast)
  finally show ?thesis using rng by (simp add: line_index_sum)
qed

lemma fold_cells: "exact T \<Longrightarrow> to_f64 T (fold (\<lambda>e cur. add_cell T cur (p e) (q e)) es z) =
    to_f64 T z + sum_list (map (\<lambda>e. to_f64 T (p e) * to_f64 T (q e)) es)"
  by (induction es arbitrary: z) (simp_all add: add_cell_def add_product_def exact_simps algebra_simps)

lemma spmm_cell_exact:
  assumes "exact T" and rng: "\<forall>e \<in> set es. 0 \<le> fst (snd e) \<and> entry_index e < k"
  shows "to_f64 T (spmm_cell T b n (line_entries es i) j) = (\<Sum>c<k. entry_sum T es i c * to_f64 T (b ! (c * n + j)))"
proof -
  have "to_f64 T (spmm_cell T b n (line_entries es i) j) =
      sum_list (map (\<lambda>e. to_f64 T (entry_value e) * to_f64 T (b ! (entry_index e * n + j))) (line_entries es i))"
    unfolding spmm_cell_def fold_cells[OF assms(1)] by (simp add: exact_simps[OF assms(1)])
  also have "\<dots> = (\<Sum>c<k. sum_list (map (\<lambda>e. to_f64 T (entry_value e)) (filter (\<lambda>e. entry_index e = c) (line_entries es i))) * to_f64 T (b ! (c * n + j)))"
    by (rule sum_by_index[where h = "\<lambda>c. to_f64 T (b ! (c * n + j))"]) (use rng line_entries_subset in blast)
  finally show ?thesis using rng by (simp add: line_index_sum)
qed

lemma entry_sum_swap: "entry_sum T (map swap_entry es) j i = entry_sum T es i j"
proof -
  have "filter (\<lambda>e. position e = (int j, int i)) (map swap_entry es) = map swap_entry (filter (\<lambda>e. position e = (int i, int j)) es)"
    unfolding filter_map by (rule arg_cong[of _ _ "map swap_entry"], rule filter_cong) (auto simp: swap_entry_def)
  then show ?thesis by (simp add: entry_sum_def comp_def swap_entry_def)
qed

lemma dsmm_cell_exact:
  assumes "exact T" and rng: "\<forall>e \<in> set es. 0 \<le> fst e \<and> entry_line e < k"
  shows "to_f64 T (dsmm_cell T a k i (column_entries es j)) = (\<Sum>c<k. to_f64 T (a ! (i * k + c)) * entry_sum T es c j)"
proof -
  let ?L = "line_entries (map swap_entry es) j"
  have rng': "\<forall>e \<in> set (map swap_entry es). 0 \<le> fst (snd e) \<and> entry_index e < k" using rng by (auto simp: swap_entry_def)
  have "to_f64 T (dsmm_cell T a k i ?L) = sum_list (map (\<lambda>e. to_f64 T (entry_value e) * to_f64 T (a ! (i * k + entry_index e))) ?L)"
    unfolding dsmm_cell_def fold_cells[OF assms(1)] by (simp add: exact_simps[OF assms(1)] mult.commute)
  also have "\<dots> = (\<Sum>c<k. sum_list (map (\<lambda>e. to_f64 T (entry_value e)) (filter (\<lambda>e. entry_index e = c) ?L)) * to_f64 T (a ! (i * k + c)))"
    by (rule sum_by_index[where h = "\<lambda>c. to_f64 T (a ! (i * k + c))"]) (use rng' line_entries_subset in blast)
  also have "\<dots> = (\<Sum>c<k. to_f64 T (a ! (i * k + c)) * entry_sum T es c j)"
    by (rule sum.cong) (use rng' in \<open>simp_all add: line_index_sum entry_sum_swap mult.commute\<close>)
  finally show ?thesis by (simp add: column_entries_def)
qed

lemma product_at_exact:
  assumes ex: "exact T" and ra: "\<forall>e \<in> set as. 0 \<le> fst (snd e) \<and> entry_index e < k" and rb: "\<forall>e \<in> set bs. 0 \<le> fst (snd e)"
  shows "(case product_at T as bs i j of None \<Rightarrow> 0 | Some v \<Rightarrow> to_f64 T v) = (\<Sum>c<k. entry_sum T as i c * entry_sum T bs c j)"
proof -
  let ?ps = "row_products T (line_entries as i) bs"
  let ?s = "sum_list (map snd (filter (\<lambda>x. fst x = j) ?ps))"
  have inner: "sum_list (map snd (filter (\<lambda>x. fst x = j) (map (\<lambda>b. (entry_index b, f_mul T z (to_f64 T (entry_value b)))) (line_entries bs c)))) =
      z * entry_sum T bs c j" for z c
  proof -
    have "map snd (filter (\<lambda>x. fst x = j) (map (\<lambda>b. (entry_index b, f_mul T z (to_f64 T (entry_value b)))) (line_entries bs c))) =
        map (\<lambda>b. z * to_f64 T (entry_value b)) (filter (\<lambda>b. entry_index b = j) (line_entries bs c))"
      by (simp add: filter_map comp_def exact_simps[OF ex])
    moreover have "sum_list (map (\<lambda>b. z * to_f64 T (entry_value b)) (filter (\<lambda>b. entry_index b = j) (line_entries bs c))) =
        z * sum_list (map (\<lambda>b. to_f64 T (entry_value b)) (filter (\<lambda>b. entry_index b = j) (line_entries bs c)))"
      by (simp add: sum_list_const_mult)
    ultimately show ?thesis using rb by (simp add: line_index_sum)
  qed
  have "?s = sum_list (map (\<lambda>a. to_f64 T (entry_value a) * entry_sum T bs (entry_index a) j) (line_entries as i))"
  proof -
    have "sum_list (map snd (filter (\<lambda>x. fst x = j) (concat (map (\<lambda>a. map (\<lambda>b. (entry_index b, f_mul T (to_f64 T (entry_value a)) (to_f64 T (entry_value b))))
        (line_entries bs (entry_index a))) xs)))) = sum_list (map (\<lambda>a. to_f64 T (entry_value a) * entry_sum T bs (entry_index a) j) xs)" for xs
      by (induction xs) (simp_all add: inner)
    then show ?thesis by (simp add: row_products_def)
  qed
  also have "\<dots> = (\<Sum>c<k. sum_list (map (\<lambda>e. to_f64 T (entry_value e)) (filter (\<lambda>e. entry_index e = c) (line_entries as i))) * entry_sum T bs c j)"
    by (rule sum_by_index[where h = "\<lambda>c. entry_sum T bs c j"]) (use ra line_entries_subset in blast)
  also have "\<dots> = (\<Sum>c<k. entry_sum T as i c * entry_sum T bs c j)" using ra by (simp add: line_index_sum)
  finally have s: "?s = (\<Sum>c<k. entry_sum T as i c * entry_sum T bs c j)" .
  have col: "column_sum T ?ps j = (if map snd (filter (\<lambda>x. fst x = j) ?ps) = [] then None else Some ?s)"
    using fold_plus[of "\<lambda>p. p" "map snd (filter (\<lambda>x. fst x = j) ?ps)" 0]
    by (simp add: column_sum_def Let_def exact_simps[OF ex])
  show ?thesis
  proof (cases "map snd (filter (\<lambda>x. fst x = j) ?ps) = []")
    case True
    then have "?s = 0" by (simp only: sum_list.Nil)
    then show ?thesis using True col s by (simp add: product_at_def)
  next
    case False
    then show ?thesis using col s exact_simps(7)[OF ex, of ?s] by (auto simp: product_at_def exact_simps(4)[OF ex])
  qed
qed

lemma entries_in_range:
  assumes "wf_sparse m" "e \<in> set (sp_entries m)"
  shows "0 \<le> fst e \<and> entry_line e < fst (sp_shape m) \<and> 0 \<le> fst (snd e) \<and> entry_index e < snd (sp_shape m)"
proof (cases m)
  case (Coo d)
  have "(fst e, fst (snd e), snd (snd e)) \<in> set (zip (tv_elems (coo_rows d)) (zip (tv_elems (coo_cols d)) (tv_elems (coo_values d))))"
    using assms(2) Coo by (simp add: coo_entries_def)
  from set_zip_leftD[OF this] set_zip_leftD[OF set_zip_rightD[OF this]] show ?thesis
    using assms(1) Coo by (auto simp: wf_coo_def Let_def indices_below_def nat_less_iff)
next
  case (Csr d)
  then show ?thesis
    using assms indices_range[of "fst (csr_shape d)" "snd (csr_shape d)" "csr_ptrs d" "csr_indices d" "csr_values d" e]
    by (simp add: wf_csr_def csr_entries_def)
next
  case (Csc d)
  obtain e' where "e = swap_entry e'" "e' \<in> set (lines_of (snd (csc_shape d)) (tv_elems (csc_ptrs d)) (tv_elems (csc_indices d)) (tv_elems (csc_values d)))"
    using assms(2) Csc by (auto simp: csc_entries_def)
  then show ?thesis
    using assms(1) Csc indices_range[of "snd (csc_shape d)" "fst (csc_shape d)" "csc_ptrs d" "csc_indices d" "csc_values d" e']
    by (simp add: wf_csc_def swap_entry_def)
qed


abbreviation sample_factor :: "int sparse" where
  "sample_factor \<equiv> sp_transpose sample_right"

definition sample_dense :: "nat list \<Rightarrow> int tvec" where
  "sample_dense shp = \<lparr>tv_dtype = I32, tv_shape = shp, tv_elems = map (\<lambda>i. int i + 1) [0..<prod_list shp]\<rparr>"


end
