(* ===== verification/Sort_Kernels.thy ===== *)
theory Sort_Kernels
  imports Index_Kernels "HOL-Library.Product_Lexorder"
begin

text \<open>
  The sorting and searching kernels of the CPU backend (\<open>src/runtime/cpu/kernels/sort.rs\<close>), with the
  comparison of elements they use (\<open>Element::sort_cmp\<close>, \<open>src/dtype/element.rs\<close>). The element type \<open>'a\<close> comes
  with its \<open>PartialOrd\<close> and \<open>PartialEq\<close>; a buffer is a list whose accesses are checked, as in Index_Kernels.
\<close>

section \<open>Comparing elements\<close>

datatype ordering = Less | Equal | Greater

definition compare :: "'k::linorder \<Rightarrow> 'k \<Rightarrow> ordering" where
  "compare x y = (if x < y then Less else if x = y then Equal else Greater)"

record 'a elem_cmp =
  partial_cmp :: "'a \<Rightarrow> 'a \<Rightarrow> ordering option"
  elem_eq :: "'a \<Rightarrow> 'a \<Rightarrow> bool"

definition sort_cmp :: "'a elem_cmp \<Rightarrow> 'a \<Rightarrow> 'a \<Rightarrow> ordering" where
  "sort_cmp T a b =
     (case partial_cmp T a b of Some ord \<Rightarrow> ord
      | None \<Rightarrow>
          (case (\<not> elem_eq T a a, \<not> elem_eq T b b) of
             (True, False) \<Rightarrow> Greater
           | (False, True) \<Rightarrow> Less
           | _ \<Rightarrow> Equal))"

text \<open>
  \<open>slice::sort_by\<close> is stable. Its result is determined when the comparison is a total preorder, which
  \<open>sort_cmp\<close> is; the definition is the insertion sort that computes it.
\<close>

fun insert_by :: "('a \<Rightarrow> 'a \<Rightarrow> ordering) \<Rightarrow> 'a \<Rightarrow> 'a list \<Rightarrow> 'a list" where
  "insert_by cmp x [] = [x]"
| "insert_by cmp x (y # ys) = (if cmp x y = Greater then y # insert_by cmp x ys else x # y # ys)"

definition sort_by :: "('a \<Rightarrow> 'a \<Rightarrow> ordering) \<Rightarrow> 'a list \<Rightarrow> 'a list" where
  "sort_by cmp xs = foldr (insert_by cmp) xs []"

section \<open>Sorting along an axis\<close>

text \<open>The position of element \<open>i\<close> of a slice in a buffer whose axis has \<open>n\<close> elements.\<close>

definition slice_idx :: "nat \<Rightarrow> nat \<Rightarrow> nat \<Rightarrow> nat \<Rightarrow> nat \<Rightarrow> nat" where
  "slice_idx n inner_size outer inner i = outer * n * inner_size + i * inner_size + inner"

definition gather_values :: "'a list \<Rightarrow> nat \<Rightarrow> nat \<Rightarrow> nat \<Rightarrow> nat \<Rightarrow> 'a list option" where
  "gather_values a n inner_size outer inner =
     foldM (\<lambda>i values. do { v \<leftarrow> nth_chk a (slice_idx n inner_size outer inner i); Some (values @ [v]) }) [0..<n] []"

definition gather_pairs :: "'a list \<Rightarrow> nat \<Rightarrow> nat \<Rightarrow> nat \<Rightarrow> nat \<Rightarrow> ('a \<times> int) list option" where
  "gather_pairs a n inner_size outer inner =
     foldM (\<lambda>i pairs. do { v \<leftarrow> nth_chk a (slice_idx n inner_size outer inner i); Some (pairs @ [(v, int i)]) }) [0..<n] []"

definition scatter_back :: "nat \<Rightarrow> nat \<Rightarrow> nat \<Rightarrow> nat \<Rightarrow> 'b list \<Rightarrow> 'b list \<Rightarrow> 'b list option" where
  "scatter_back n inner_size outer inner xs out =
     foldM (\<lambda>i out. do { v \<leftarrow> nth_chk xs i; upd_chk out (slice_idx n inner_size outer inner i) v }) [0..<length xs] out"

definition sort_pairs :: "'a elem_cmp \<Rightarrow> bool \<Rightarrow> ('a \<times> int) list \<Rightarrow> ('a \<times> int) list" where
  "sort_pairs T descending pairs =
     (if descending then sort_by (\<lambda>a b. sort_cmp T (fst b) (fst a)) pairs
      else sort_by (\<lambda>a b. sort_cmp T (fst a) (fst b)) pairs)"

definition sort_kernel :: "'a elem_cmp \<Rightarrow> 'a list \<Rightarrow> 'a list \<Rightarrow> int list \<Rightarrow> nat \<Rightarrow> nat \<Rightarrow> nat \<Rightarrow> bool \<Rightarrow> ('a list \<times> int list) option" where
  "sort_kernel T a out_values out_indices outer_size sort_size inner_size descending =
     (if sort_size = 0 then Some (out_values, out_indices)
      else foldM (\<lambda>outer. foldM (\<lambda>inner (vs, is). do {
             pairs \<leftarrow> gather_pairs a sort_size inner_size outer inner;
             let pairs = sort_pairs T descending pairs;
             vs \<leftarrow> scatter_back sort_size inner_size outer inner (map fst pairs) vs;
             is \<leftarrow> scatter_back sort_size inner_size outer inner (map snd pairs) is;
             Some (vs, is) }) [0..<inner_size]) [0..<outer_size] (out_values, out_indices))"

definition sort_values_kernel :: "'a elem_cmp \<Rightarrow> 'a list \<Rightarrow> 'a list \<Rightarrow> nat \<Rightarrow> nat \<Rightarrow> nat \<Rightarrow> bool \<Rightarrow> 'a list option" where
  "sort_values_kernel T a out outer_size sort_size inner_size descending =
     (if sort_size = 0 then Some out
      else foldM (\<lambda>outer. foldM (\<lambda>inner out. do {
             values \<leftarrow> gather_values a sort_size inner_size outer inner;
             let values = (if descending then sort_by (\<lambda>a b. sort_cmp T b a) values else sort_by (sort_cmp T) values);
             scatter_back sort_size inner_size outer inner values out }) [0..<inner_size]) [0..<outer_size] out)"

definition argsort_kernel :: "'a elem_cmp \<Rightarrow> 'a list \<Rightarrow> int list \<Rightarrow> nat \<Rightarrow> nat \<Rightarrow> nat \<Rightarrow> bool \<Rightarrow> int list option" where
  "argsort_kernel T a out outer_size sort_size inner_size descending =
     (if sort_size = 0 then Some out
      else foldM (\<lambda>outer. foldM (\<lambda>inner out. do {
             pairs \<leftarrow> gather_pairs a sort_size inner_size outer inner;
             scatter_back sort_size inner_size outer inner (map snd (sort_pairs T descending pairs)) out })
             [0..<inner_size]) [0..<outer_size] out)"

text \<open>\<open>topk_kernel\<close>; \<open>pairs[..k]\<close> never panics, because \<open>k\<close> is cut to the size of the axis.\<close>

definition topk_pairs :: "'a elem_cmp \<Rightarrow> nat \<Rightarrow> bool \<Rightarrow> bool \<Rightarrow> ('a \<times> int) list \<Rightarrow> ('a \<times> int) list" where
  "topk_pairs T k largest is_sorted pairs =
     (let topk = take k (sort_pairs T largest pairs)
      in if is_sorted then topk else sort_by (\<lambda>a b. compare (snd a) (snd b)) topk)"

definition topk_kernel :: "'a elem_cmp \<Rightarrow> 'a list \<Rightarrow> 'a list \<Rightarrow> int list \<Rightarrow> nat \<Rightarrow> nat \<Rightarrow> nat \<Rightarrow> nat \<Rightarrow> bool \<Rightarrow> bool \<Rightarrow> ('a list \<times> int list) option" where
  "topk_kernel T a out_values out_indices outer_size sort_size inner_size k largest is_sorted =
     (if sort_size = 0 \<or> k = 0 then Some (out_values, out_indices)
      else let k = min k sort_size
        in foldM (\<lambda>outer. foldM (\<lambda>inner (vs, is). do {
             pairs \<leftarrow> gather_pairs a sort_size inner_size outer inner;
             let output = topk_pairs T k largest is_sorted pairs;
             vs \<leftarrow> scatter_back k inner_size outer inner (map fst output) vs;
             is \<leftarrow> scatter_back k inner_size outer inner (map snd output) is;
             Some (vs, is) }) [0..<inner_size]) [0..<outer_size] (out_values, out_indices))"

section \<open>Unique elements of a sorted buffer\<close>

definition count_unique_kernel :: "'a elem_cmp \<Rightarrow> 'a list \<Rightarrow> nat \<Rightarrow> nat option" where
  "count_unique_kernel T a len =
     (if len = 0 then Some 0
      else do {
        prev \<leftarrow> nth_chk a 0;
        r \<leftarrow> foldM (\<lambda>i (cnt, prev). do {
          curr \<leftarrow> nth_chk a i;
          Some (if \<not> elem_eq T curr prev then (cnt + 1, curr) else (cnt, prev)) }) [1..<len] (1, prev);
        Some (fst r) })"

definition extract_unique_kernel :: "'a elem_cmp \<Rightarrow> 'a list \<Rightarrow> 'a list \<Rightarrow> nat \<Rightarrow> 'a list option" where
  "extract_unique_kernel T a out len =
     (if len = 0 then Some out
      else do {
        prev \<leftarrow> nth_chk a 0;
        out \<leftarrow> upd_chk out 0 prev;
        r \<leftarrow> foldM (\<lambda>i (out, out_idx, prev). do {
          curr \<leftarrow> nth_chk a i;
          (if \<not> elem_eq T curr prev then do { out \<leftarrow> upd_chk out out_idx curr; Some (out, out_idx + 1, curr) }
           else Some (out, out_idx, prev)) }) [1..<len] (out, 1, prev);
        Some (fst r) })"

text \<open>One round of \<open>unique_with_counts_kernel\<close>; the state is the three buffers, the current index and element.\<close>

definition unique_round :: "'a elem_cmp \<Rightarrow> 'a list \<Rightarrow> int list \<Rightarrow> nat \<Rightarrow>
    'a list \<times> int list \<times> int list \<times> int \<times> 'a \<Rightarrow> ('a list \<times> int list \<times> int list \<times> int \<times> 'a) option" where
  "unique_round T srt sort_indices i st = (case st of (uniq, invs, counts, unique_idx, prev) \<Rightarrow> do {
     curr \<leftarrow> nth_chk srt i;
     s \<leftarrow> nth_chk sort_indices i;
     (uniq, counts, unique_idx, prev) \<leftarrow>
       (if \<not> elem_eq T curr prev then do {
          uniq \<leftarrow> upd_chk uniq (as_usize (unique_idx + 1)) curr;
          counts \<leftarrow> upd_chk counts (as_usize (unique_idx + 1)) 1;
          Some (uniq, counts, unique_idx + 1, curr) }
        else do {
          c \<leftarrow> nth_chk counts (as_usize unique_idx);
          counts \<leftarrow> upd_chk counts (as_usize unique_idx) (c + 1);
          Some (uniq, counts, unique_idx, prev) });
     invs \<leftarrow> upd_chk invs (as_usize s) unique_idx;
     Some (uniq, invs, counts, unique_idx, prev) })"

definition unique_with_counts_kernel :: "'a elem_cmp \<Rightarrow> 'a list \<Rightarrow> int list \<Rightarrow> 'a list \<Rightarrow> int list \<Rightarrow> int list \<Rightarrow> nat \<Rightarrow>
    ('a list \<times> int list \<times> int list) option" where
  "unique_with_counts_kernel T srt sort_indices uniq invs counts numel =
     (if numel = 0 then Some (uniq, invs, counts)
      else do {
        prev \<leftarrow> nth_chk srt 0;
        uniq \<leftarrow> upd_chk uniq 0 prev;
        counts \<leftarrow> upd_chk counts 0 1;
        s \<leftarrow> nth_chk sort_indices 0;
        invs \<leftarrow> upd_chk invs (as_usize s) 0;
        (uniq, invs, counts, _) \<leftarrow> foldM (unique_round T srt sort_indices) [1..<numel] (uniq, invs, counts, 0, prev);
        Some (uniq, invs, counts) })"

section \<open>Elements that are not zero\<close>

text \<open>\<open>nz v\<close> is \<open>v.to_f64() != 0.0\<close>.\<close>

definition count_nonzero_kernel :: "('a \<Rightarrow> bool) \<Rightarrow> 'a list \<Rightarrow> nat \<Rightarrow> nat" where
  "count_nonzero_kernel nz a numel = length (filter nz (take numel a))"

definition nonzero_flat_kernel :: "('a \<Rightarrow> bool) \<Rightarrow> 'a list \<Rightarrow> int list \<Rightarrow> nat \<Rightarrow> int list option" where
  "nonzero_flat_kernel nz a out numel =
     map_option fst (foldM (\<lambda>i (out, out_idx). do {
        v \<leftarrow> nth_chk a i;
        (if nz v then do { out \<leftarrow> upd_chk out out_idx (int i); Some (out, out_idx + 1) }
         else Some (out, out_idx)) }) [0..<numel] (out, 0 :: nat))"

definition flat_to_multi_index_kernel :: "int list \<Rightarrow> int list \<Rightarrow> nat \<Rightarrow> nat list \<Rightarrow> int list option" where
  "flat_to_multi_index_kernel flat_indices out nnz shp =
     (let ndim = length shp
      in if ndim = 0 \<or> nnz = 0 then Some out
         else do {
           strides \<leftarrow> row_strides ndim shp;
           foldM (\<lambda>i out. do {
             f \<leftarrow> nth_chk flat_indices i;
             coords \<leftarrow> unravel_strides strides (as_usize f);
             foldM (\<lambda>d out. do { c \<leftarrow> nth_chk coords d; upd_chk out (i * ndim + d) (int c) }) [0..<ndim] out }) [0..<nnz] out })"

section \<open>Binary search\<close>

text \<open>
  \<open>slice::partition_point\<close> is the number of leading elements that satisfy the predicate, provided no
  later element satisfies it.
\<close>

definition partition_point :: "('a \<Rightarrow> bool) \<Rightarrow> 'a list \<Rightarrow> nat" where
  "partition_point p xs = length (takeWhile p xs)"

definition searchsorted_kernel :: "'a elem_cmp \<Rightarrow> 'a list \<Rightarrow> 'a list \<Rightarrow> int list \<Rightarrow> nat \<Rightarrow> nat \<Rightarrow> bool \<Rightarrow> int list option" where
  "searchsorted_kernel T sorted_seq values out seq_len num_values right =
     (if seq_len = 0 then foldM (\<lambda>i out. upd_chk out i 0) [0..<num_values] out
      else if length sorted_seq < seq_len then None
      else foldM (\<lambda>i out. do {
        val \<leftarrow> nth_chk values i;
        upd_chk out i (int (if right then partition_point (\<lambda>x. sort_cmp T x val \<noteq> Greater) (take seq_len sorted_seq)
          else partition_point (\<lambda>x. sort_cmp T x val = Less) (take seq_len sorted_seq))) }) [0..<num_values] out)"

end
