(* ===== verification/Sort_Order.thy ===== *)
theory Sort_Order
  imports Sort_Kernels
begin

text \<open>
  What the sorting kernels compute. \<open>sort_cmp\<close> is the order of a rank, NaN above every number; a slice of the
  output is the stable sort of the same slice of the input, and the loops over the slices fill the whole buffer.
\<close>

section \<open>The order of the elements\<close>

text \<open>
  \<open>partial_cmp\<close> compares keys and fails exactly on NaN, which is also the only value that does not equal
  itself. An order is exact when \<open>==\<close> is equality of keys; the magnitude order of complex numbers is not.
\<close>

locale key_order =
  fixes T :: "'a elem_cmp" and nan :: "'a \<Rightarrow> bool" and key :: "'a \<Rightarrow> int"
  assumes partial_cmp_key: "partial_cmp T a b = (if nan a \<or> nan b then None else Some (compare (key a) (key b)))"
    and eq_self: "elem_eq T a a \<longleftrightarrow> \<not> nan a"

locale exact_order = key_order +
  assumes eq_key: "elem_eq T a b \<longleftrightarrow> \<not> nan a \<and> \<not> nan b \<and> key a = key b"

definition rank :: "('a \<Rightarrow> bool) \<Rightarrow> ('a \<Rightarrow> int) \<Rightarrow> bool \<Rightarrow> 'a \<Rightarrow> int \<times> int" where
  "rank nan key descending x =
     (let r = (if nan x then (1, 0) else (0, key x)) in if descending then (- fst r, - snd r) else r)"

lemma compare_simps: "compare x y = Less \<longleftrightarrow> x < y" "compare x y = Equal \<longleftrightarrow> x = y" "compare x y = Greater \<longleftrightarrow> y < x"
  by (auto simp: compare_def)

lemma insert_by_key: "insert_by (\<lambda>a b. compare (f a) (f b)) x ys = insort_key f x ys"
  by (induction ys) (auto simp: compare_simps)

lemma sort_by_key: "sort_by (\<lambda>a b. compare (f a) (f b)) xs = sort_key f xs"
  by (induction xs) (simp_all add: sort_by_def insert_by_key)

lemma sort_by_cong: "(\<And>a b. cmp a b = compare (f a) (f b)) \<Longrightarrow> sort_by cmp xs = sort_key f xs"
  using sort_by_key[of f xs] by presburger

context key_order
begin

lemma sort_cmp_rank: "sort_cmp T a b = compare (rank nan key False a) (rank nan key False b)"
  by (auto simp: sort_cmp_def partial_cmp_key eq_self rank_def compare_def split: bool.splits)

lemma sort_cmp_rank_rev: "sort_cmp T b a = compare (rank nan key True a) (rank nan key True b)"
  by (auto simp: sort_cmp_def partial_cmp_key eq_self rank_def compare_def split: bool.splits)

lemma sort_pairs_key: "sort_pairs T d ps = sort_key (\<lambda>p. rank nan key d (fst p)) ps"
  using sort_by_cong[of "\<lambda>a b. sort_cmp T (fst b) (fst a)", OF sort_cmp_rank_rev]
    sort_by_cong[of "\<lambda>a b. sort_cmp T (fst a) (fst b)", OF sort_cmp_rank]
  by (cases d) (simp_all add: sort_pairs_def sort_by_key)

lemma sort_values_key: "(if d then sort_by (\<lambda>a b. sort_cmp T b a) vs else sort_by (sort_cmp T) vs) = sort_key (rank nan key d) vs"
  using sort_by_cong[of "\<lambda>a b. sort_cmp T b a", OF sort_cmp_rank_rev] sort_by_cong[of "sort_cmp T", OF sort_cmp_rank]
  by (cases d) (simp_all add: sort_by_key)

end

section \<open>Slices\<close>

lemma slice_idx_alt: "slice_idx n s outer i k = (outer * n + k) * s + i"
  by (simp add: slice_idx_def algebra_simps)

lemma slice_idx_coords:
  assumes "i < s" "k < n"
  shows "slice_idx n s outer i k mod s = i" "slice_idx n s outer i k div s mod n = k" "slice_idx n s outer i k div (n * s) = outer"
proof -
  have "slice_idx n s outer i k div s = outer * n + k" using assms by (simp add: slice_idx_alt)
  then show "slice_idx n s outer i k div s mod n = k" "slice_idx n s outer i k div (n * s) = outer"
    using assms(2) by (simp_all add: mult.commute[of n] div_mult2_eq)
  show "slice_idx n s outer i k mod s = i" using assms by (simp add: slice_idx_alt)
qed

lemma slice_idx_less:
  assumes "o1 < outer" "i < s" "k < n"
  shows "slice_idx n s o1 i k < outer * n * s"
proof -
  have "o1 * n + k < Suc o1 * n" using assms(3) by simp
  also have "\<dots> \<le> outer * n" using assms(1) by (intro mult_le_mono1) simp
  finally have "Suc (o1 * n + k) * s \<le> outer * n * s" by (intro mult_le_mono1) simp
  then show ?thesis using assms(2) by (simp add: slice_idx_alt)
qed

lemma slice_idx_of:
  assumes "0 < n" "0 < s"
  shows "p = slice_idx n s (p div (n * s)) (p mod s) (p div s mod n)"
proof -
  have "p div (n * s) = p div s div n" by (simp add: div_mult2_eq mult.commute[of n])
  then have "p div (n * s) * n + p div s mod n = p div s" by simp
  then show ?thesis unfolding slice_idx_alt by simp
qed

lemma coords_less:
  fixes p :: nat
  assumes "p < outer * n * s"
  shows "p div (n * s) < outer" "p mod s < s" "p div s mod n < n"
proof -
  have "0 < n * s" using assms by (cases "n * s") (auto simp: mult.assoc)
  then show "p mod s < s" "p div s mod n < n" by simp_all
  show "p div (n * s) < outer" using assms by (simp add: less_mult_imp_div_less mult.assoc)
qed

definition axis_slice :: "'a list \<Rightarrow> nat \<Rightarrow> nat \<Rightarrow> nat \<Rightarrow> nat \<Rightarrow> 'a list" where
  "axis_slice a n s outer i = map (\<lambda>k. a ! slice_idx n s outer i k) [0..<n]"

lemma length_slice [simp]: "length (axis_slice a n s outer i) = n"
  by (simp add: axis_slice_def)

lemma gather_ok:
  assumes "length a = outer * n * s" "o1 < outer" "i < s"
  shows "gather_values a n s o1 i = Some (axis_slice a n s o1 i)"
    and "gather_pairs a n s o1 i = Some (zip (axis_slice a n s o1 i) (map int [0..<n]))"
proof -
  have r: "nth_chk a (slice_idx n s o1 i k) = Some (a ! slice_idx n s o1 i k)" if "k \<in> set [0..<n]" for k
    using slice_idx_less[OF assms(2,3), of k n] that assms(1) by simp
  show "gather_values a n s o1 i = Some (axis_slice a n s o1 i)"
    using foldM_push[of "[0..<n]" "\<lambda>k. nth_chk a (slice_idx n s o1 i k)" "\<lambda>k. a ! slice_idx n s o1 i k" "[]"] r
    by (simp add: gather_values_def axis_slice_def)
  have "gather_pairs a n s o1 i = Some (map (\<lambda>k. (a ! slice_idx n s o1 i k, int k)) [0..<n])"
    using foldM_push[of "[0..<n]" "\<lambda>k. map_option (\<lambda>v. (v, int k)) (nth_chk a (slice_idx n s o1 i k))"
      "\<lambda>k. (a ! slice_idx n s o1 i k, int k)" "[]"] r
    by (simp add: gather_pairs_def map_option_bind bind_map_option comp_def)
  also have "map (\<lambda>k. (a ! slice_idx n s o1 i k, int k)) [0..<n] = zip (axis_slice a n s o1 i) (map int [0..<n])"
    by (rule nth_equalityI) (simp_all add: axis_slice_def)
  finally show "gather_pairs a n s o1 i = Some (zip (axis_slice a n s o1 i) (map int [0..<n]))" .
qed

lemma scatter_back_ok:
  assumes "length out = outer * n * s" "o1 < outer" "i < s" "length xs = n"
  shows "\<exists>out'. scatter_back n s o1 i xs out = Some out' \<and> length out' = length out \<and>
    (\<forall>p < length out. out' ! p = (if p div (n * s) = o1 \<and> p mod s = i then xs ! (p div s mod n) else out ! p))"
proof -
  let ?I = "\<lambda>m out'. length out' = length out \<and>
    (\<forall>p < length out. out' ! p = (if p div (n * s) = o1 \<and> p mod s = i \<and> p div s mod n < m then xs ! (p div s mod n) else out ! p))"
  have "\<exists>out'. foldM (\<lambda>k out. do { v \<leftarrow> nth_chk xs k; upd_chk out (slice_idx n s o1 i k) v }) [0..<n] out = Some out' \<and> ?I n out'"
  proof (rule foldM_upt_rule[where I = ?I])
    fix m out' assume m: "m < n" and I: "?I m out'"
    let ?j = "slice_idx n s o1 i m"
    have j: "?j < length out" using slice_idx_less[OF assms(2,3) m] assms(1) by simp
    have eq: "?j = p \<longleftrightarrow> p div (n * s) = o1 \<and> p mod s = i \<and> p div s mod n = m" for p
      using slice_idx_coords[OF assms(3) m, of o1] slice_idx_of[of n s p] m assms(3) by auto
    have "out'[?j := xs ! m] ! p = (if p div (n * s) = o1 \<and> p mod s = i \<and> p div s mod n < Suc m then xs ! (p div s mod n) else out ! p)"
      if "p < length out" for p
    proof (cases "?j = p")
      case True
      with eq[of p] I j that show ?thesis by simp
    next
      case False
      with eq[of p] I that show ?thesis by (auto simp: less_Suc_eq)
    qed
    then have "?I (Suc m) (out'[?j := xs ! m])" using I by simp
    then show "\<exists>s'. (do { v \<leftarrow> nth_chk xs m; upd_chk out' ?j v }) = Some s' \<and> ?I (Suc m) s'"
      using m j I assms(4) by simp
  qed simp
  then obtain out' where o: "foldM (\<lambda>k out. do { v \<leftarrow> nth_chk xs k; upd_chk out (slice_idx n s o1 i k) v }) [0..<n] out = Some out'" "?I n out'"
    by blast
  have "p div s mod n < n" if "p < length out" for p using coords_less(3) that assms(1) by simp
  then show ?thesis using o assms(4) by (intro exI[of _ out']) (auto simp: scatter_back_def)
qed

text \<open>The buffer whose slices are \<open>f outer inner\<close>.\<close>

definition assemble :: "nat \<Rightarrow> nat \<Rightarrow> nat \<Rightarrow> (nat \<Rightarrow> nat \<Rightarrow> 'a list) \<Rightarrow> 'a list" where
  "assemble outer n s f = map (\<lambda>p. f (p div (n * s)) (p mod s) ! (p div s mod n)) [0..<outer * n * s]"

lemma length_assemble [simp]: "length (assemble outer n s f) = outer * n * s"
  by (simp add: assemble_def)

lemma assemble_nth: "o1 < outer \<Longrightarrow> i < s \<Longrightarrow> k < n \<Longrightarrow> assemble outer n s f ! slice_idx n s o1 i k = f o1 i ! k"
  using slice_idx_less[of o1 outer i s k n] by (simp add: assemble_def slice_idx_coords)

lemma slice_assemble: "o1 < outer \<Longrightarrow> i < s \<Longrightarrow> length (f o1 i) = n \<Longrightarrow> axis_slice (assemble outer n s f) n s o1 i = f o1 i"
  by (auto simp: axis_slice_def assemble_nth intro!: nth_equalityI)

lemma slices_loop:
  assumes "length out = outer * n * s" "\<And>o1 i. o1 < outer \<Longrightarrow> i < s \<Longrightarrow> length (f o1 i) = n"
  shows "foldM (\<lambda>(o1, i). scatter_back n s o1 i (f o1 i)) (List.product [0..<outer] [0..<s]) out = Some (assemble outer n s f)"
proof -
  let ?I = "\<lambda>don out'. length out' = length out \<and>
    (\<forall>p < length out. out' ! p = (if (p div (n * s), p mod s) \<in> set don then f (p div (n * s)) (p mod s) ! (p div s mod n) else out ! p))"
  have "\<exists>out'. foldM (\<lambda>(o1, i). scatter_back n s o1 i (f o1 i)) (List.product [0..<outer] [0..<s]) out = Some out' \<and>
    ?I (List.product [0..<outer] [0..<s]) out'"
  proof (rule foldM_rule[where I = ?I])
    fix don x rest out' assume split: "List.product [0..<outer] [0..<s] = don @ x # rest" and I: "?I don out'"
    obtain o1 i where x: "x = (o1, i)" by (cases x)
    have "x \<in> set (List.product [0..<outer] [0..<s])" unfolding split by simp
    then have b: "o1 < outer" "i < s" by (simp_all add: x)
    have l: "length out' = outer * n * s" using I assms(1) by simp
    from scatter_back_ok[OF l b assms(2)[OF b]] obtain out'' where "scatter_back n s o1 i (f o1 i) out' = Some out''" "length out'' = length out'"
      "\<forall>p < length out'. out'' ! p = (if p div (n * s) = o1 \<and> p mod s = i then f o1 i ! (p div s mod n) else out' ! p)" by blast
    then show "\<exists>s'. (case x of (o1, i) \<Rightarrow> scatter_back n s o1 i (f o1 i)) out' = Some s' \<and> ?I (don @ [x]) s'"
      using I by (auto simp: x)
  qed simp
  then obtain out' where o: "foldM (\<lambda>(o1, i). scatter_back n s o1 i (f o1 i)) (List.product [0..<outer] [0..<s]) out = Some out'"
    "?I (List.product [0..<outer] [0..<s]) out'" by blast
  have "out' = assemble outer n s f"
    using o(2) assms(1) coords_less[of _ outer n s] by (intro nth_equalityI) (auto simp: assemble_def)
  then show ?thesis using o(1) by simp
qed

lemma foldM_nested:
  "foldM (\<lambda>x. foldM (f x) ys) xs s = foldM (\<lambda>(x, y). f x y) (List.product xs ys) s"
proof -
  have in_order: "foldM (\<lambda>(x, y). f x y) (map (Pair x) ys) s = foldM (f x) ys s" for x s
    by (induction ys arbitrary: s) (auto split: option.split)
  show ?thesis
    by (induction xs arbitrary: s) (auto simp: foldM_append in_order split: Option.bind_split option.split)
qed

lemma foldM_pair:
  "foldM f xs s = Some s' \<Longrightarrow> foldM g xs t = Some t' \<Longrightarrow>
    foldM (\<lambda>x (s, t). do { s \<leftarrow> f x s; t \<leftarrow> g x t; Some (s, t) }) xs (s, t) = Some (s', t')"
  by (induction xs arbitrary: s t) (auto split: option.splits)

section \<open>The kernels along an axis\<close>

text \<open>The stable sort of a slice, as the list of original positions, and the selection of the first \<open>k\<close>.\<close>

definition sorted_positions :: "('a \<Rightarrow> int \<times> int) \<Rightarrow> 'a list \<Rightarrow> nat list" where
  "sorted_positions f xs = sort_key (\<lambda>k. f (xs ! k)) [0..<length xs]"

definition selected_positions :: "('a \<Rightarrow> int \<times> int) \<Rightarrow> nat \<Rightarrow> bool \<Rightarrow> 'a list \<Rightarrow> nat list" where
  "selected_positions f k is_sorted xs =
     (let ps = take k (sorted_positions f xs) in if is_sorted then ps else sort ps)"

lemma length_sorted_positions [simp]: "length (sorted_positions f xs) = length xs"
  by (simp add: sorted_positions_def)

lemma length_selected [simp]: "length (selected_positions f k b xs) = min (length xs) k"
  by (simp add: selected_positions_def Let_def)

lemma zip_positions: "zip xs (map int [0..<length xs]) = map (\<lambda>k. (xs ! k, int k)) [0..<length xs]"
  by (rule nth_equalityI) simp_all

lemma sort_zip: "sort_key (\<lambda>p. f (fst p)) (zip xs (map int [0..<length xs])) = map (\<lambda>k. (xs ! k, int k)) (sorted_positions f xs)"
  by (simp add: zip_positions sort_key_map sorted_positions_def)

lemma sort_values: "sort_key f xs = map ((!) xs) (sorted_positions f xs)"
proof -
  have "xs = map ((!) xs) [0..<length xs]" by (simp add: map_nth)
  then have "sort_key f xs = sort_key f (map ((!) xs) [0..<length xs])" by simp
  then show ?thesis by (simp only: sort_key_map sorted_positions_def)
qed

text \<open>What makes it the stable sort.\<close>

lemma sorted_positions_perm: "mset (sorted_positions f xs) = mset [0..<length xs]"
  by (simp add: sorted_positions_def)

lemma sorted_positions_strict:
  "sorted_wrt (\<lambda>i j. f (xs ! i) < f (xs ! j) \<or> f (xs ! i) = f (xs ! j) \<and> i < j) (sorted_positions f xs)"
proof -
  let ?ps = "sorted_positions f xs"
  have d: "distinct ?ps" by (simp add: sorted_positions_def)
  show ?thesis
  proof (unfold sorted_wrt_iff_nth_less, intro allI impI)
    fix a b assume ab: "a < b" "b < length ?ps"
    have le: "f (xs ! (?ps ! a)) \<le> f (xs ! (?ps ! b))"
      using ab sorted_nth_mono[of "map (\<lambda>k. f (xs ! k)) ?ps" a b] by (simp add: sorted_positions_def)
    show "f (xs ! (?ps ! a)) < f (xs ! (?ps ! b)) \<or> f (xs ! (?ps ! a)) = f (xs ! (?ps ! b)) \<and> ?ps ! a < ?ps ! b"
    proof (cases "f (xs ! (?ps ! a)) = f (xs ! (?ps ! b))")
      case True
      let ?P = "\<lambda>k. f (xs ! k) = f (xs ! (?ps ! a))"
      have "filter ?P ?ps = filter ?P [0..<length xs]"
        unfolding sorted_positions_def by (rule sort_key_stable)
      then have srt: "sorted_wrt (<) (filter ?P ?ps)" by (simp add: sorted_wrt_filter)
      have "?ps = take b ?ps @ ?ps ! b # drop (Suc b) ?ps" using ab by (simp add: id_take_nth_drop)
      moreover have "?ps ! a \<in> set (take b ?ps)" using ab by (simp add: in_set_conv_nth) (metis nth_take)
      ultimately have "filter ?P ?ps = filter ?P (take b ?ps) @ ?ps ! b # filter ?P (drop (Suc b) ?ps)" "?ps ! a \<in> set (filter ?P (take b ?ps))"
        using True by (metis (mono_tags, lifting) filter.simps(2) filter_append, simp)
      with srt show ?thesis using True by (simp add: sorted_wrt_append)
    qed (use le in auto)
  qed
qed

context key_order
begin

abbreviation positions :: "bool \<Rightarrow> 'a list \<Rightarrow> nat list" where
  "positions d xs \<equiv> sorted_positions (rank nan key d) xs"

lemma sorted_slice:
  "sort_pairs T d (zip (axis_slice a n s o1 i) (map int [0..<n])) =
    map (\<lambda>k. (axis_slice a n s o1 i ! k, int k)) (positions d (axis_slice a n s o1 i))"
  using sort_zip[of "rank nan key d" "axis_slice a n s o1 i"] by (simp add: sort_pairs_key)

lemma topk_slice:
  "topk_pairs T k d b (zip (axis_slice a n s o1 i) (map int [0..<n])) =
    map (\<lambda>j. (axis_slice a n s o1 i ! j, int j)) (selected_positions (rank nan key d) k b (axis_slice a n s o1 i))"
proof -
  have "sort_by (\<lambda>a b. compare (snd a) (snd b)) (map (\<lambda>j. (xs ! j, int j)) ps) = map (\<lambda>j. (xs ! j, int j)) (sort ps)" for xs :: "'a list" and ps
  proof -
    have "insort_key int x ys = insort x ys" for x and ys :: "nat list" by (induction ys) auto
    then have "sort_key int ps = sort ps" by (induction ps) simp_all
    then show ?thesis by (simp add: sort_by_key[of snd] sort_key_map)
  qed
  then show ?thesis by (simp add: topk_pairs_def sorted_slice selected_positions_def take_map Let_def)
qed

lemma sort_kernel_eq:
  assumes "length a = outer * n * s" "length vs = outer * n * s" "length is = outer * n * s"
  shows "sort_kernel T a vs is outer n s d = Some
    (assemble outer n s (\<lambda>o1 i. map ((!) (axis_slice a n s o1 i)) (positions d (axis_slice a n s o1 i))),
     assemble outer n s (\<lambda>o1 i. map int (positions d (axis_slice a n s o1 i))))"
proof (cases "n = 0")
  case True
  then show ?thesis using assms by (simp add: sort_kernel_def assemble_def)
next
  case False
  let ?xs = "List.product [0..<outer] [0..<s]"
  let ?f = "\<lambda>o1 i. map ((!) (axis_slice a n s o1 i)) (positions d (axis_slice a n s o1 i))" and ?g = "\<lambda>o1 i. map int (positions d (axis_slice a n s o1 i))"
  have "sort_kernel T a vs is outer n s d = foldM (\<lambda>(o1, i) (vs, is). do {
      vs \<leftarrow> scatter_back n s o1 i (?f o1 i) vs; is \<leftarrow> scatter_back n s o1 i (?g o1 i) is; Some (vs, is) }) ?xs (vs, is)"
    using False gather_ok(2)[OF assms(1)]
    by (simp add: sort_kernel_def foldM_nested) (rule foldM_cong, auto simp: sorted_slice comp_def)
  also have "\<dots> = foldM (\<lambda>x (vs, is). do {
      vs \<leftarrow> (case x of (o1, i) \<Rightarrow> scatter_back n s o1 i (?f o1 i)) vs; is \<leftarrow> (case x of (o1, i) \<Rightarrow> scatter_back n s o1 i (?g o1 i)) is; Some (vs, is) }) ?xs (vs, is)"
    by (rule foldM_cong) auto
  also have "\<dots> = Some (assemble outer n s ?f, assemble outer n s ?g)"
    by (rule foldM_pair) (intro slices_loop assms; simp)+
  finally show ?thesis .
qed

lemma argsort_kernel_eq:
  assumes "length a = outer * n * s" "length is = outer * n * s"
  shows "argsort_kernel T a is outer n s d = Some (assemble outer n s (\<lambda>o1 i. map int (positions d (axis_slice a n s o1 i))))"
proof (cases "n = 0")
  case True
  then show ?thesis using assms by (simp add: argsort_kernel_def assemble_def)
next
  case False
  have "argsort_kernel T a is outer n s d =
      foldM (\<lambda>(o1, i). scatter_back n s o1 i (map int (positions d (axis_slice a n s o1 i)))) (List.product [0..<outer] [0..<s]) is"
    using False gather_ok(2)[OF assms(1)]
    by (simp add: argsort_kernel_def foldM_nested) (rule foldM_cong, auto simp: sorted_slice comp_def)
  then show ?thesis using slices_loop[OF assms(2), where f = "\<lambda>o1 i. map int (positions d (axis_slice a n s o1 i))"] by simp
qed

lemma sort_values_kernel_eq:
  assumes "length a = outer * n * s" "length vs = outer * n * s"
  shows "sort_values_kernel T a vs outer n s d =
    Some (assemble outer n s (\<lambda>o1 i. map ((!) (axis_slice a n s o1 i)) (positions d (axis_slice a n s o1 i))))"
proof (cases "n = 0")
  case True
  then show ?thesis using assms by (simp add: sort_values_kernel_def assemble_def)
next
  case False
  have "sort_values_kernel T a vs outer n s d =
      foldM (\<lambda>(o1, i). scatter_back n s o1 i (map ((!) (axis_slice a n s o1 i)) (positions d (axis_slice a n s o1 i)))) (List.product [0..<outer] [0..<s]) vs"
    using False gather_ok(1)[OF assms(1)] unfolding sort_values_kernel_def Let_def sort_values_key sort_values
    by (simp add: foldM_nested) (rule foldM_cong, auto)
  then show ?thesis
    using slices_loop[OF assms(2), where f = "\<lambda>o1 i. map ((!) (axis_slice a n s o1 i)) (positions d (axis_slice a n s o1 i))"] by simp
qed

lemma topk_kernel_eq:
  assumes "length a = outer * n * s" "length vs = outer * k * s" "length is = outer * k * s" "k \<le> n"
  shows "topk_kernel T a vs is outer n s k d b = Some
    (assemble outer k s (\<lambda>o1 i. map ((!) (axis_slice a n s o1 i)) (selected_positions (rank nan key d) k b (axis_slice a n s o1 i))),
     assemble outer k s (\<lambda>o1 i. map int (selected_positions (rank nan key d) k b (axis_slice a n s o1 i))))"
proof (cases "k = 0")
  case True
  then show ?thesis using assms by (simp add: topk_kernel_def assemble_def)
next
  case False
  let ?xs = "List.product [0..<outer] [0..<s]"
  let ?p = "\<lambda>o1 i. selected_positions (rank nan key d) k b (axis_slice a n s o1 i)"
  let ?f = "\<lambda>o1 i. map ((!) (axis_slice a n s o1 i)) (?p o1 i)" and ?g = "\<lambda>o1 i. map int (?p o1 i)"
  have mk: "min k n = k" using assms(4) by simp
  have "topk_kernel T a vs is outer n s k d b = foldM (\<lambda>(o1, i) (vs, is). do {
      vs \<leftarrow> scatter_back k s o1 i (?f o1 i) vs; is \<leftarrow> scatter_back k s o1 i (?g o1 i) is; Some (vs, is) }) ?xs (vs, is)"
    using False assms(4) gather_ok(2)[OF assms(1)]
    by (simp add: topk_kernel_def foldM_nested mk Let_def) (rule foldM_cong, auto simp: topk_slice comp_def)
  also have "\<dots> = foldM (\<lambda>x (vs, is). do {
      vs \<leftarrow> (case x of (o1, i) \<Rightarrow> scatter_back k s o1 i (?f o1 i)) vs; is \<leftarrow> (case x of (o1, i) \<Rightarrow> scatter_back k s o1 i (?g o1 i)) is; Some (vs, is) }) ?xs (vs, is)"
    by (rule foldM_cong) auto
  also have "\<dots> = Some (assemble outer k s ?f, assemble outer k s ?g)"
    using assms(4) by (intro foldM_pair slices_loop assms(2,3)) (simp_all add: min_def)
  finally show ?thesis .
qed

end

end
