(* ===== verification/Sort_Search.thy ===== *)
theory Sort_Search
  imports Sort_Order
begin

text \<open>
  What the kernels for unique elements, nonzero elements and binary search compute.
\<close>

section \<open>Unique elements\<close>

text \<open>The unique elements among the first \<open>i + 1\<close> elements of a buffer, as the loops find them.\<close>

primrec uniques :: "'a elem_cmp \<Rightarrow> 'a list \<Rightarrow> nat \<Rightarrow> 'a list" where
  "uniques T xs 0 = [xs ! 0]"
| "uniques T xs (Suc i) =
     (if \<not> elem_eq T (xs ! Suc i) (last (uniques T xs i)) then uniques T xs i @ [xs ! Suc i] else uniques T xs i)"

lemma uniques_ne [simp]: "uniques T xs i \<noteq> []"
  by (induction i) simp_all

lemma uniques_length: "0 < length (uniques T xs i)" "length (uniques T xs i) \<le> Suc i"
  by (induction i) auto

lemma uniques_prefix: "i \<le> j \<Longrightarrow> \<exists>ys. uniques T xs j = uniques T xs i @ ys"
proof (induction j)
  case (Suc j)
  then show ?case by (cases "i = Suc j") auto
qed auto

lemma uniques_nth_last:
  assumes "i \<le> j"
  shows "uniques T xs j ! (length (uniques T xs i) - 1) = last (uniques T xs i)" "length (uniques T xs i) \<le> length (uniques T xs j)"
  using uniques_prefix[OF assms, of T xs] by (auto simp: nth_append last_conv_nth)

lemma foldM_from1_rule:
  assumes "0 < n" and "I 1 s" and "\<And>i s. 0 < i \<Longrightarrow> i < n \<Longrightarrow> I i s \<Longrightarrow> \<exists>s'. f i s = Some s' \<and> I (Suc i) s'"
  shows "\<exists>s'. foldM f [1..<n] s = Some s' \<and> I n s'"
proof -
  have up: "[1..<n] = map Suc [0..<n - 1]" using assms(1) by (simp add: map_Suc_upt)
  have "\<exists>s'. foldM (\<lambda>i. f (Suc i)) [0..<n - 1] s = Some s' \<and> I (Suc (n - 1)) s'"
    by (rule foldM_upt_rule[where I = "\<lambda>i. I (Suc i)"]) (use assms in auto)
  moreover have "foldM f (map Suc xs) s = foldM (\<lambda>i. f (Suc i)) xs s" for xs s
    by (induction xs arbitrary: s) (auto split: option.split)
  ultimately show ?thesis using assms(1) unfolding up by simp
qed

lemma count_unique_eq:
  assumes "0 < n" "length xs = n"
  shows "count_unique_kernel T xs n = Some (length (uniques T xs (n - 1)))"
proof -
  let ?f = "\<lambda>i (cnt, prev). do { curr \<leftarrow> nth_chk xs i; Some (if \<not> elem_eq T curr prev then (cnt + 1, curr) else (cnt, prev)) }"
  let ?I = "\<lambda>i s. s = (length (uniques T xs (i - 1)), last (uniques T xs (i - 1)))"
  have "\<exists>s'. foldM ?f [1..<n] (1, xs ! 0) = Some s' \<and> ?I n s'"
  proof (rule foldM_from1_rule[where I = ?I, OF assms(1)])
    fix i :: nat and s assume i: "0 < i" "i < n" and s: "?I i s"
    then obtain j where j: "i = Suc j" by (cases i) auto
    show "\<exists>s'. ?f i s = Some s' \<and> ?I (Suc i) s'" using i s assms(2) by (simp add: j)
  qed simp
  then show ?thesis using assms by (auto simp: count_unique_kernel_def)
qed

lemma extract_unique_eq:
  assumes "0 < n" "length xs = n" "length out = length (uniques T xs (n - 1))"
  shows "extract_unique_kernel T xs out n = Some (uniques T xs (n - 1))"
proof -
  let ?U = "\<lambda>i. uniques T xs (i - 1)"
  let ?f = "\<lambda>i (out, out_idx, prev). do {
          curr \<leftarrow> nth_chk xs i;
          (if \<not> elem_eq T curr prev then do { out \<leftarrow> upd_chk out out_idx curr; Some (out, out_idx + 1, curr) }
           else Some (out, out_idx, prev)) }"
  let ?I = "\<lambda>i (out', out_idx, prev). length out' = length out \<and> out_idx = length (?U i) \<and> take out_idx out' = ?U i \<and> prev = last (?U i)"
  have l0: "0 < length out" using assms(3) uniques_length(1)[of T xs] by simp
  have "\<exists>s'. foldM ?f [1..<n] (out[0 := xs ! 0], 1, xs ! 0) = Some s' \<and> ?I n s'"
  proof (rule foldM_from1_rule[where I = ?I, OF assms(1)])
    show "?I 1 (out[0 := xs ! 0], 1, xs ! 0)" using take_update_end[of 0 out "[]" "xs ! 0"] l0 by simp
  next
    fix i :: nat and s assume i: "0 < i" "i < n" and s: "?I i s"
    then obtain j where j: "i = Suc j" by (cases i) auto
    obtain out' k p where s': "s = (out', k, p)" by (cases s)
    have I: "length out' = length out" "k = length (uniques T xs j)" "take k out' = uniques T xs j" "p = last (uniques T xs j)"
      using s by (auto simp: s' j)
    show "\<exists>s'. ?f i s = Some s' \<and> ?I (Suc i) s'"
    proof (cases "elem_eq T (xs ! i) p")
      case True
      then show ?thesis using i I(1,3) assms(2) by (simp add: s' j I(2,4))
    next
      case False
      have "Suc k = length (uniques T xs i)" using I(2,4) False by (simp add: j)
      also have "\<dots> \<le> length out" using uniques_nth_last(2)[of i "n - 1" T xs] i assms(3) by simp
      finally have k: "k < length out'" using I(1) by simp
      have "take (Suc k) (out'[k := xs ! i]) = uniques T xs j @ [xs ! i]"
        using I(2,3) k by (intro take_update_end) simp_all
      then show ?thesis using i I(1) assms(2) k False by (simp add: s' j I(2,4))
    qed
  qed
  then show ?thesis using assms l0 by (auto simp: extract_unique_kernel_def)
qed

text \<open>The number of the group of element \<open>i\<close>.\<close>

abbreviation group_of :: "'a elem_cmp \<Rightarrow> 'a list \<Rightarrow> nat \<Rightarrow> nat" where
  "group_of T xs i \<equiv> length (uniques T xs i) - 1"

definition group_size :: "'a elem_cmp \<Rightarrow> 'a list \<Rightarrow> nat \<Rightarrow> nat \<Rightarrow> nat" where
  "group_size T xs m g = length (filter (\<lambda>i. group_of T xs i = g) [0..<m])"

lemma group_size_Suc: "group_size T xs (Suc m) g = group_size T xs m g + (if group_of T xs m = g then 1 else 0)"
  by (simp add: group_size_def)

lemma group_size_above: "m \<le> Suc k \<Longrightarrow> length (uniques T xs k) \<le> g \<Longrightarrow> group_size T xs m g = 0"
proof -
  assume "m \<le> Suc k" "length (uniques T xs k) \<le> g"
  then have "group_of T xs i \<noteq> g" if "i < m" for i
    using uniques_nth_last(2)[of i k T xs] uniques_length(1)[of T xs i] uniques_length(1)[of T xs k] that by linarith
  then show ?thesis by (simp add: group_size_def filter_empty_conv)
qed

lemma unique_with_counts_eq:
  assumes n: "0 < n" "length xs = n" "n < 2 ^ 63" and perm: "mset ps = mset [0..<n]"
    and out: "length uniq = length (uniques T xs (n - 1))" "length counts = length (uniques T xs (n - 1))" "length invs = n"
  shows "\<exists>invs'. unique_with_counts_kernel T xs (map int ps) uniq invs counts n =
      Some (uniques T xs (n - 1), invs', map (\<lambda>g. int (group_size T xs n g)) [0..<length (uniques T xs (n - 1))]) \<and>
    length invs' = n \<and> (\<forall>j < n. invs' ! (ps ! j) = int (group_of T xs j))"
proof -
  let ?U = "\<lambda>i. uniques T xs (i - 1)"
  let ?I = "\<lambda>i (u, iv, c, g, p). length u = length uniq \<and> length iv = n \<and> length c = length counts \<and>
    take (length (?U i)) u = ?U i \<and> g = int (length (?U i) - 1) \<and> p = last (?U i) \<and>
    (\<forall>j < i. iv ! (ps ! j) = int (group_of T xs j)) \<and> (\<forall>k < length (?U i). c ! k = int (group_size T xs i k))"
  have lp: "length ps = n" and ds: "distinct ps" and st: "set ps = {0..<n}"
    using perm by (metis length_upt minus_nat.diff_0 mset_eq_length, metis distinct_upt mset_eq_imp_distinct_iff, metis atLeast_upt mset_eq_setD set_upt)
  have pn: "ps ! j < n" if "j < n" for j using st lp that nth_mem[of j ps] by auto
  have l0: "0 < length uniq" "0 < length counts" using out uniques_length(1)[of T xs] by simp_all
  have step: "\<exists>s'. unique_round T xs (map int ps) i s = Some s' \<and> ?I (Suc i) s'" if i: "0 < i" "i < n" and s: "?I i s" for i s
  proof -
    obtain j where j: "i = Suc j" using i by (cases i) auto
    obtain u iv c g p where s': "s = (u, iv, c, g, p)" by (cases s)
    let ?k = "length (uniques T xs j)"
    have k: "0 < ?k" "?k \<le> length uniq" "?k \<le> n"
      using uniques_length[of T xs j] uniques_nth_last(2)[of j "n - 1" T xs] i out(1) by (simp_all add: j)
    have I: "length u = length uniq" "length iv = n" "length c = length counts" "take ?k u = uniques T xs j" "g = int (?k - 1)" "p = last (uniques T xs j)"
        "\<forall>m < i. iv ! (ps ! m) = int (group_of T xs m)" "\<forall>m < ?k. c ! m = int (group_size T xs i m)"
      using s by (simp_all add: s' j)
    have iv': "\<forall>m < Suc i. iv[ps ! i := int (group_of T xs i)] ! (ps ! m) = int (group_of T xs m)"
    proof (intro allI impI)
      fix m assume m: "m < Suc i"
      have "ps ! m = ps ! i \<longleftrightarrow> m = i" using m i(2) lp ds by (simp add: nth_eq_iff_index_eq)
      then show "iv[ps ! i := int (group_of T xs i)] ! (ps ! m) = int (group_of T xs m)"
        using I(2,7) m pn[OF i(2)] by (cases "m = i") auto
    qed
    obtain q where q: "?k = Suc q" using k(1) by (cases ?k) auto
    have sz: "as_usize (int (ps ! i)) = ps ! i" "as_usize (int q + 1) = Suc q" "as_usize (1 + int q) = Suc q" "as_usize (int q) = q"
      using pn[OF i(2)] n(3) k(3) as_usize_of_nat[of "Suc q"] by (simp_all add: q add.commute)
    have g: "g = int q" using I(5) by (simp add: q)
    show ?thesis
    proof (cases "elem_eq T (xs ! i) p")
      case True
      then have U: "uniques T xs i = uniques T xs j" using I(6) by (simp add: j)
      have cc: "\<forall>m < ?k. c[q := c ! q + 1] ! m = int (group_size T xs (Suc i) m)"
        using I(3,8) k out(1,2) by (auto simp: nth_list_update group_size_Suc U q)
      have "unique_round T xs (map int ps) i s = Some (u, iv[ps ! i := int q], c[q := c ! q + 1], g, p)"
        using True I(1-3) i n(2) lp pn[OF i(2)] k out by (simp add: unique_round_def s' sz g q)
      then show ?thesis using I iv' cc by (simp add: U q)
    next
      case False
      then have U: "uniques T xs i = uniques T xs j @ [xs ! i]" using I(6) by (simp add: j)
      have k': "Suc ?k \<le> length uniq" using uniques_nth_last(2)[of i "n - 1" T xs] i(2) out(1) U by simp
      have tk: "take (Suc ?k) (u[?k := xs ! i]) = uniques T xs j @ [xs ! i]" using I(1,4) k' by (intro take_update_end) simp_all
      have z: "group_size T xs i ?k = 0" by (rule group_size_above[of i j]) (simp_all add: j)
      have cc: "\<forall>m < Suc ?k. c[?k := 1] ! m = int (group_size T xs (Suc i) m)"
        using I(3,8) k' out(1,2) z by (auto simp: nth_list_update group_size_Suc U less_Suc_eq)
      have "unique_round T xs (map int ps) i s = Some (u[?k := xs ! i], iv[ps ! i := int ?k], c[?k := 1], int ?k, xs ! i)"
        using False I(1-3) i n(2) lp pn[OF i(2)] k k' out by (simp add: unique_round_def s' sz g q add.commute)
      then show ?thesis using I(1-3) iv' cc tk by (simp add: U)
    qed
  qed
  let ?s0 = "(uniq[0 := xs ! 0], invs[ps ! 0 := 0], counts[0 := 1], 0, xs ! 0)"
  have I0: "?I 1 ?s0"
    using l0 out(3) pn[OF n(1)] take_update_end[of 0 uniq "[]" "xs ! 0"] by (simp add: group_size_def)
  have "\<exists>s. foldM (unique_round T xs (map int ps)) [1..<n] ?s0 = Some s \<and> ?I n s"
    by (rule foldM_from1_rule[where I = ?I, OF n(1) I0 step])
  then obtain s where s: "foldM (unique_round T xs (map int ps)) [1..<n] ?s0 = Some s" "?I n s" by (elim exE conjE)
  obtain u iv c g p where s': "s = (u, iv, c, g, p)" by (cases s)
  note r = s[unfolded s' prod.case]
  have "length u = length (uniques T xs (n - 1))" "take (length (uniques T xs (n - 1))) u = uniques T xs (n - 1)" using r(2) out(1) by simp_all
  then have "u = uniques T xs (n - 1)" by simp
  moreover have "c = map (\<lambda>g. int (group_size T xs n g)) [0..<length (uniques T xs (n - 1))]"
    using r(2) out by (intro nth_equalityI) simp_all
  moreover have "as_usize (int (ps ! 0)) = ps ! 0" using pn[OF n(1)] n(3) by (intro as_usize_of_nat) simp
  ultimately show ?thesis using r n l0 lp pn[OF n(1)] out(3) by (auto simp: unique_with_counts_kernel_def)
qed

section \<open>Unique elements of a sorted buffer\<close>

context exact_order
begin

abbreviation rk :: "'a \<Rightarrow> int \<times> int" where
  "rk \<equiv> rank nan key False"

lemma rank_simps: "nan x \<Longrightarrow> rk x = (1, 0)" "\<not> nan x \<Longrightarrow> rk x = (0, key x)"
  by (simp_all add: rank_def)

lemma rank_eq: "rk x = rk y \<longleftrightarrow> elem_eq T x y \<or> nan x \<and> nan y"
  by (auto simp: rank_def eq_key)

lemma rank_nan: "rk x = rk y \<Longrightarrow> nan x = nan y"
  by (auto simp: rank_def split: if_splits)

lemma uniques_last: "rk (last (uniques T xs i)) = rk (xs ! i)"
  by (induction i) (auto simp: rank_def eq_key)

lemma uniques_set: "i < length xs \<Longrightarrow> set (uniques T xs i) \<subseteq> (!) xs ` {..i}"
  by (induction i) (auto simp: atMost_Suc)

lemma uniques_strict:
  assumes "sorted (map rk xs)"
  shows "i < length xs \<Longrightarrow> sorted_wrt (\<lambda>x y. rk x < rk y \<or> nan x \<and> nan y) (uniques T xs i)"
proof (induction i)
  case (Suc i)
  let ?x = "xs ! Suc i"
  have "rk y < rk ?x \<or> nan y \<and> nan ?x" if y: "y \<in> set (uniques T xs i)" and ne: "\<not> elem_eq T ?x (last (uniques T xs i))" for y
  proof -
    from uniques_set[of i xs] y Suc.prems obtain j where j: "y = xs ! j" "j \<le> i" by auto
    have le: "rk y \<le> rk (xs ! i)" "rk (xs ! i) \<le> rk ?x"
      using sorted_nth_mono[OF assms, of j i] sorted_nth_mono[OF assms, of i "Suc i"] j Suc.prems by simp_all
    show ?thesis
    proof (cases "rk y = rk ?x")
      case True
      then have "rk (last (uniques T xs i)) = rk ?x" using le uniques_last[of xs i] by simp
      with ne have "nan ?x" by (auto simp: rank_eq eq_key)
      then show ?thesis using rank_nan[OF True] by simp
    qed (use le in auto)
  qed
  with Suc show ?case by (auto simp: sorted_wrt_append)
qed simp

lemma uniques_rank:
  assumes "i \<le> j"
  shows "rk (uniques T xs j ! (length (uniques T xs i) - 1)) = rk (xs ! i)"
  using uniques_nth_last(1)[OF assms, of T xs] uniques_last[of xs i] by simp

lemma group_hit: "g < length (uniques T xs n) \<Longrightarrow> \<exists>i \<le> n. group_of T xs i = g"
proof (induction n)
  case (Suc n)
  show ?case
  proof (cases "g < length (uniques T xs n)")
    case True
    with Suc obtain i where "i \<le> n" "group_of T xs i = g" by blast
    then show ?thesis by (intro exI[of _ i]) simp
  next
    case False
    with Suc.prems show ?thesis by (intro exI[of _ "Suc n"]) (auto split: if_splits)
  qed
qed simp

end

section \<open>Elements that are not zero\<close>

lemma nonzero_flat_eq:
  assumes "length a = n" "length out = length (filter nz a)"
  shows "nonzero_flat_kernel nz a out n = Some (map int (filter (\<lambda>i. nz (a ! i)) [0..<n]))"
proof -
  let ?F = "\<lambda>m. filter (\<lambda>i. nz (a ! i)) [0..<m]"
  let ?f = "\<lambda>i (out, out_idx). do {
        v \<leftarrow> nth_chk a i;
        (if nz v then do { out \<leftarrow> upd_chk out out_idx (int i); Some (out, out_idx + 1) }
         else Some (out, out_idx)) }"
  let ?I = "\<lambda>m (o', k). length o' = length out \<and> k = length (?F m) \<and> take k o' = map int (?F m)"
  have total: "length (?F n) = length out"
  proof -
    have "map ((!) a) [0..<n] = a" using assms(1) by (metis map_nth)
    then have "filter nz a = map ((!) a) (?F n)" using filter_map[of nz "(!) a" "[0..<n]"] by (simp add: comp_def)
    then show ?thesis using assms(2) by simp
  qed
  have "\<exists>s'. foldM ?f [0..<n] (out, 0 :: nat) = Some s' \<and> ?I n s'"
  proof (rule foldM_upt_rule[where I = ?I])
    fix m s assume m: "m < n" and s: "?I m s"
    obtain o' k where s': "s = (o', k)" by (cases s)
    have I: "length o' = length out" "k = length (?F m)" "take k o' = map int (?F m)" using s by (auto simp: s')
    show "\<exists>s'. ?f m s = Some s' \<and> ?I (Suc m) s'"
    proof (cases "nz (a ! m)")
      case True
      have "?F n = ?F m @ m # filter (\<lambda>i. nz (a ! i)) [Suc m..<n]"
        using True m upt_add_eq_append[of 0 m "n - m"] by (simp add: upt_conv_Cons)
      then have k: "k < length o'" using I total by (metis add_Suc_right length_Cons length_append less_add_Suc1)
      have "take (Suc k) (o'[k := int m]) = map int (?F m) @ [int m]" using I k by (intro take_update_end) simp_all
      then show ?thesis using True m k I assms(1) by (simp add: s')
    next
      case False
      then show ?thesis using m I assms(1) by (simp add: s')
    qed
  qed simp
  then show ?thesis using total by (auto simp: nonzero_flat_kernel_def)
qed

lemma flat_to_multi_eq:
  assumes "length fl = m" "length out = m * length shp" "\<forall>f \<in> set fl. 0 \<le> f \<and> f < int (prod_list shp)" "prod_list shp < 2 ^ 63"
  shows "flat_to_multi_index_kernel fl out m shp =
    Some (concat (map (\<lambda>f. map int (unravel shp (nat f))) fl))"
proof (cases "length shp = 0 \<or> m = 0")
  case True
  then show ?thesis using assms(1,2) by (auto simp: flat_to_multi_index_kernel_def intro: concat_eq_Nil_conv[THEN iffD2])
next
  case False
  let ?d = "length shp"
  let ?row = "\<lambda>i. map int (unravel shp (nat (fl ! i)))"
  have fl: "0 \<le> fl ! i" "fl ! i < int (prod_list shp)" if "i < m" for i using assms(1,3) that nth_mem by blast+
  have pos: "0 < prod_list shp" using fl[of 0] False by linarith
  let ?f = "\<lambda>i out. do {
             f \<leftarrow> nth_chk fl i;
             coords \<leftarrow> unravel_strides (row_prods shp) (as_usize f);
             foldM (\<lambda>d out. do { c \<leftarrow> nth_chk coords d; upd_chk out (i * ?d + d) (int c) }) [0..<?d] out }"
  have step: "\<exists>out''. ?f i out' = Some out'' \<and> length out'' = length out' \<and> take (Suc i * ?d) out'' = take (i * ?d) out' @ ?row i"
    if i: "i < m" and l: "length out' = m * ?d" for i out'
  proof -
    let ?c = "unravel shp (nat (fl ! i))"
    have "Suc i * ?d \<le> m * ?d" using i by (intro mult_le_mono1) simp
    then have room: "i * ?d + ?d \<le> length out'" using l by simp
    have "fl ! i < 2 ^ 64" using fl(2)[OF i] assms(4) by simp
    then have u: "as_usize (fl ! i) = nat (fl ! i)" using fl(1)[OF i] by (intro as_usize_small)
    have "\<exists>out''. foldM (\<lambda>d out. do { c \<leftarrow> nth_chk ?c d; upd_chk out (i * ?d + d) (int c) }) [0..<?d] out' = Some out'' \<and>
      length out'' = length out' \<and> take (i * ?d + ?d) out'' = take (i * ?d) out' @ map int (take ?d ?c)"
    proof (rule foldM_upt_rule[where I = "\<lambda>d out''. length out'' = length out' \<and> take (i * ?d + d) out'' = take (i * ?d) out' @ map int (take d ?c)"])
      fix d s assume d: "d < ?d" and I: "length s = length out' \<and> take (i * ?d + d) s = take (i * ?d) out' @ map int (take d ?c)"
      have "take (Suc (i * ?d + d)) (s[i * ?d + d := int (?c ! d)]) = (take (i * ?d) out' @ map int (take d ?c)) @ [int (?c ! d)]"
        using I d room by (intro take_update_end) (simp_all add: min_def)
      then show "\<exists>s'. (do { c \<leftarrow> nth_chk ?c d; upd_chk s (i * ?d + d) (int c) }) = Some s' \<and>
          length s' = length out' \<and> take (i * ?d + Suc d) s' = take (i * ?d) out' @ map int (take (Suc d) ?c)"
        using I d room by (simp add: take_Suc_conv_app_nth)
    qed simp
    then show ?thesis using i assms(1) u pos by (simp add: unravel_strides_eq add.commute[of ?d])
  qed
  let ?I = "\<lambda>i out'. length out' = m * ?d \<and> take (i * ?d) out' = concat (map ?row [0..<i])"
  have "\<exists>out'. foldM ?f [0..<m] out = Some out' \<and> ?I m out'"
  proof (rule foldM_upt_rule[where I = ?I])
    fix i s assume "i < m" "?I i s"
    then show "\<exists>s'. ?f i s = Some s' \<and> ?I (Suc i) s'" using step[of i s] by auto
  qed (use assms(2) in simp)
  moreover have "row_strides ?d shp = Some (row_prods shp)" using False by (intro row_strides_eq) auto
  moreover have "map ?row [0..<m] = map (\<lambda>f. map int (unravel shp (nat f))) fl"
    using assms(1) by (intro nth_equalityI) simp_all
  ultimately show ?thesis using False by (auto simp: flat_to_multi_index_kernel_def Let_def)
qed

section \<open>Binary search\<close>

lemma sorted_partition:
  assumes "sorted (map f xs)" "\<forall>x y. f x \<le> f y \<longrightarrow> p y \<longrightarrow> p x"
  shows "i < partition_point p xs \<Longrightarrow> p (xs ! i)" "partition_point p xs \<le> i \<Longrightarrow> i < length xs \<Longrightarrow> \<not> p (xs ! i)"
    "partition_point p xs \<le> length xs"
proof -
  let ?k = "partition_point p xs"
  show k: "?k \<le> length xs" by (simp add: partition_point_def length_takeWhile_le)
  show "i < ?k \<Longrightarrow> p (xs ! i)" using set_takeWhileD[of "takeWhile p xs ! i" p xs] nth_mem[of i "takeWhile p xs"]
    by (auto simp: partition_point_def takeWhile_nth)
  assume i: "?k \<le> i" "i < length xs"
  have "\<not> p (xs ! ?k)" using nth_length_takeWhile[of p xs] i by (simp add: partition_point_def)
  moreover have "f (xs ! ?k) \<le> f (xs ! i)" using sorted_nth_mono[OF assms(1), of ?k i] i by simp
  ultimately show "\<not> p (xs ! i)" using assms(2) by blast
qed

context key_order
begin

lemma searchsorted_eq:
  assumes "length out = length vs" "sorted (map (rank nan key False) xs)"
  shows "\<exists>ks. searchsorted_kernel T xs vs out (length xs) (length vs) right = Some (map int ks) \<and> length ks = length vs \<and>
    (\<forall>j < length vs. ks ! j \<le> length xs \<and>
      (\<forall>i < length xs. i < ks ! j \<longleftrightarrow> (if right then rank nan key False (xs ! i) \<le> rank nan key False (vs ! j)
        else rank nan key False (xs ! i) < rank nan key False (vs ! j))))"
proof -
  let ?p = "\<lambda>v x. if right then sort_cmp T x v \<noteq> Greater else sort_cmp T x v = Less"
  let ?k = "\<lambda>j. partition_point (?p (vs ! j)) xs"
  have p: "?p v x \<longleftrightarrow> (if right then rank nan key False x \<le> rank nan key False v else rank nan key False x < rank nan key False v)" for v x
    by (auto simp: sort_cmp_rank compare_simps not_less simp del: less_prod_simp less_eq_prod_simp)
  have mono: "\<forall>x y. rank nan key False x \<le> rank nan key False y \<longrightarrow> ?p v y \<longrightarrow> ?p v x" for v
    unfolding p by (metis order.strict_trans1 order.trans)
  have part: "i < ?k j \<Longrightarrow> ?p (vs ! j) (xs ! i)" "?k j \<le> i \<Longrightarrow> i < length xs \<Longrightarrow> \<not> ?p (vs ! j) (xs ! i)" "?k j \<le> length xs" for i j
    using sorted_partition[where p = "?p (vs ! j)", OF assms(2) mono[of "vs ! j"]] by blast+
  have "searchsorted_kernel T xs vs out (length xs) (length vs) right = Some (map (\<lambda>j. int (?k j)) [0..<length vs])"
  proof (cases "xs = []")
    case True
    then show ?thesis using foldM_upd_upt[of "length vs" "\<lambda>_. Some 0" "\<lambda>_. 0" out] assms(1)
      by (simp add: searchsorted_kernel_def partition_point_def)
  next
    case False
    then show ?thesis
      using foldM_upd_upt[of "length vs" "\<lambda>j. map_option (\<lambda>v. int (partition_point (?p v) xs)) (nth_chk vs j)" "\<lambda>j. int (?k j)" out] assms(1)
      by (cases right) (simp_all add: searchsorted_kernel_def bind_map_option comp_def)
  qed
  then have run: "searchsorted_kernel T xs vs out (length xs) (length vs) right = Some (map int (map ?k [0..<length vs]))" by (simp add: comp_def)
  have a: "?k j \<le> length xs \<and> (\<forall>i < length xs. i < ?k j \<longleftrightarrow> ?p (vs ! j) (xs ! i))" for j
    using part(1)[of _ j] part(2)[of j] part(3)[of j] by (meson not_less)
  have nth: "map ?k [0..<length vs] ! j = ?k j" if "j < length vs" for j using that by simp
  have "map ?k [0..<length vs] ! j \<le> length xs \<and>
      (\<forall>i < length xs. i < map ?k [0..<length vs] ! j \<longleftrightarrow> ?p (vs ! j) (xs ! i))" if "j < length vs" for j
    unfolding nth[OF that] by (rule a)
  then show ?thesis unfolding p[symmetric] using run by (intro exI[of _ "map ?k [0..<length vs]"] conjI) (assumption, simp, blast)
qed

end

end
