(* ===== verification/Sort_Ops.thy ===== *)
theory Sort_Ops
  imports Sort_Search Sparse_Formats
begin

text \<open>
  Sorting and searching of tensors on the CPU (\<open>src/runtime/cpu/sort.rs\<close>): the validation of the arguments, the
  output buffers and the calls of the kernels. A tensor is its element type, shape and row-major elements
  (\<open>tvec\<close>, as in Sparse_Formats), which is what \<open>ensure_contiguous\<close> hands to a kernel. A buffer fresh from
  \<open>Tensor::empty\<close> holds an arbitrary element \<open>junk\<close> everywhere. The element type of the tensors selects the
  comparison \<open>T\<close>, the test \<open>nz\<close> for not zero and \<open>zero\<close>.
\<close>

section \<open>The operations\<close>

definition normalize_axis :: "int \<Rightarrow> nat \<Rightarrow> tensor_error + nat" where
  "normalize_axis d ndim =
     (if d < 0 \<and> int ndim + d < 0 then Inl (InvalidDimension d ndim)
      else let idx = (if d < 0 then nat (int ndim + d) else nat d)
           in if ndim \<le> idx then Inl (InvalidDimension d ndim) else Inr idx)"

definition compute_reduce_strides :: "nat list \<Rightarrow> nat \<Rightarrow> nat \<times> nat \<times> nat" where
  "compute_reduce_strides shp d = (prod_list (take d shp), shp ! d, prod_list (drop (d + 1) shp))"

definition sort_impl :: "'a elem_cmp \<Rightarrow> 'a \<Rightarrow> 'a tvec \<Rightarrow> int \<Rightarrow> bool \<Rightarrow> 'a tvec res" where
  "sort_impl T junk a axis descending =
     (let shp = tv_shape a; dt = tv_dtype a
      in if shp = [] then Some (Inr a)
         else bindR (Some (normalize_axis axis (length shp))) (\<lambda>d.
           case compute_reduce_strides shp d of (outer, n, inner) \<Rightarrow>
             if dt = Bool then Some (Inl (UnsupportedDType Bool ''sort''))
             else map_option (\<lambda>out. Inr \<lparr>tv_dtype = dt, tv_shape = shp, tv_elems = out\<rparr>)
               (sort_values_kernel T (tv_elems a) (replicate (prod_list shp) junk) outer n inner descending)))"

definition sort_with_indices_impl :: "'a elem_cmp \<Rightarrow> 'a \<Rightarrow> int \<Rightarrow> 'a tvec \<Rightarrow> int \<Rightarrow> bool \<Rightarrow> ('a tvec \<times> int tvec) res" where
  "sort_with_indices_impl T junk ijunk a axis descending =
     (let shp = tv_shape a; dt = tv_dtype a
      in if shp = [] then Some (Inr (a, \<lparr>tv_dtype = I64, tv_shape = [], tv_elems = [0]\<rparr>))
         else bindR (Some (normalize_axis axis (length shp))) (\<lambda>d.
           case compute_reduce_strides shp d of (outer, n, inner) \<Rightarrow>
             if dt = Bool then Some (Inl (UnsupportedDType Bool ''sort_with_indices''))
             else map_option (\<lambda>(vs, is). Inr (\<lparr>tv_dtype = dt, tv_shape = shp, tv_elems = vs\<rparr>, \<lparr>tv_dtype = I64, tv_shape = shp, tv_elems = is\<rparr>))
               (sort_kernel T (tv_elems a) (replicate (prod_list shp) junk) (replicate (prod_list shp) ijunk) outer n inner descending)))"

definition argsort_impl :: "'a elem_cmp \<Rightarrow> int \<Rightarrow> 'a tvec \<Rightarrow> int \<Rightarrow> bool \<Rightarrow> int tvec res" where
  "argsort_impl T ijunk a axis descending =
     (let shp = tv_shape a
      in if shp = [] then Some (Inr \<lparr>tv_dtype = I64, tv_shape = [], tv_elems = [0]\<rparr>)
         else bindR (Some (normalize_axis axis (length shp))) (\<lambda>d.
           case compute_reduce_strides shp d of (outer, n, inner) \<Rightarrow>
             if tv_dtype a = Bool then Some (Inl (UnsupportedDType Bool ''argsort''))
             else map_option (\<lambda>is. Inr \<lparr>tv_dtype = I64, tv_shape = shp, tv_elems = is\<rparr>)
               (argsort_kernel T (tv_elems a) (replicate (prod_list shp) ijunk) outer n inner descending)))"

definition topk_impl :: "'a elem_cmp \<Rightarrow> 'a \<Rightarrow> int \<Rightarrow> 'a tvec \<Rightarrow> nat \<Rightarrow> int \<Rightarrow> bool \<Rightarrow> bool \<Rightarrow> ('a tvec \<times> int tvec) res" where
  "topk_impl T junk ijunk a k axis largest is_sorted =
     (let shp = tv_shape a; dt = tv_dtype a
      in if shp = [] then
           (if 1 < k then Some (Inl (InvalidArgument ''k''))
            else Some (Inr (a, \<lparr>tv_dtype = I64, tv_shape = [], tv_elems = [0]\<rparr>)))
         else bindR (Some (normalize_axis axis (length shp))) (\<lambda>d.
           let out_shape = shp[d := k]; buf = replicate (prod_list out_shape) junk; ibuf = replicate (prod_list out_shape) ijunk
           in if shp ! d < k then Some (Inl (InvalidArgument ''k''))
              else if k = 0 then Some (Inr (\<lparr>tv_dtype = dt, tv_shape = out_shape, tv_elems = buf\<rparr>, \<lparr>tv_dtype = I64, tv_shape = out_shape, tv_elems = ibuf\<rparr>))
              else case compute_reduce_strides shp d of (outer, n, inner) \<Rightarrow>
                if dt = Bool then Some (Inl (UnsupportedDType Bool ''topk''))
                else map_option (\<lambda>(vs, is). Inr (\<lparr>tv_dtype = dt, tv_shape = out_shape, tv_elems = vs\<rparr>, \<lparr>tv_dtype = I64, tv_shape = out_shape, tv_elems = is\<rparr>))
                  (topk_kernel T (tv_elems a) buf ibuf outer n inner k largest is_sorted)))"

text \<open>\<open>contig\<close>: the layout of the argument is row-major, so that \<open>reshape\<close> to one axis succeeds.\<close>

definition unique_impl :: "'a elem_cmp \<Rightarrow> 'a \<Rightarrow> bool \<Rightarrow> 'a tvec \<Rightarrow> 'a tvec res" where
  "unique_impl T junk contig a =
     (let dt = tv_dtype a; n = numel a
      in if n = 0 then Some (Inr (empty_tvec dt))
         else if \<not> contig then Some (Inl NotContiguous)
         else bindR (sort_impl T junk (a\<lparr>tv_shape := [n]\<rparr>) 0 False) (\<lambda>srt. do {
           cnt \<leftarrow> count_unique_kernel T (tv_elems srt) n;
           out \<leftarrow> extract_unique_kernel T (tv_elems srt) (replicate cnt junk) n;
           Some (Inr \<lparr>tv_dtype = dt, tv_shape = [cnt], tv_elems = out\<rparr>) }))"

definition unique_with_counts_impl :: "'a elem_cmp \<Rightarrow> 'a \<Rightarrow> int \<Rightarrow> 'a \<Rightarrow> bool \<Rightarrow> 'a tvec \<Rightarrow> ('a tvec \<times> int tvec \<times> int tvec) res" where
  "unique_with_counts_impl T junk ijunk zero contig a =
     (let dt = tv_dtype a; n = numel a
      in if n = 0 then Some (Inr (empty_tvec dt, empty_tvec I64, empty_tvec I64))
         else if \<not> contig then Some (Inl NotContiguous)
         else bindR (argsort_impl T ijunk (a\<lparr>tv_shape := [n]\<rparr>) 0 False) (\<lambda>idx. do {
           srt \<leftarrow> gather_kernel zero (tv_elems a) (tv_elems idx) (replicate n junk) [n] [n] 0;
           cnt \<leftarrow> count_unique_kernel T srt n;
           (u, invs, c) \<leftarrow> unique_with_counts_kernel T srt (tv_elems idx) (replicate cnt junk) (replicate n ijunk) (replicate cnt ijunk) n;
           Some (Inr (\<lparr>tv_dtype = dt, tv_shape = [cnt], tv_elems = u\<rparr>, \<lparr>tv_dtype = I64, tv_shape = [n], tv_elems = invs\<rparr>,
             \<lparr>tv_dtype = I64, tv_shape = [cnt], tv_elems = c\<rparr>)) }))"

definition nonzero_impl :: "('a \<Rightarrow> bool) \<Rightarrow> int \<Rightarrow> 'a tvec \<Rightarrow> int tvec res" where
  "nonzero_impl nz ijunk a =
     (let shp = tv_shape a; ndim = length shp; n = numel a
      in if n = 0 then Some (Inr \<lparr>tv_dtype = I64, tv_shape = [0, ndim], tv_elems = []\<rparr>)
         else if tv_dtype a = Bool then Some (Inl (UnsupportedDType Bool ''nonzero_count''))
         else let nnz = count_nonzero_kernel nz (tv_elems a) n
              in if nnz = 0 then Some (Inr \<lparr>tv_dtype = I64, tv_shape = [0, ndim], tv_elems = []\<rparr>)
                 else if ndim = 0 then Some (Inr \<lparr>tv_dtype = I64, tv_shape = [1, 0], tv_elems = []\<rparr>)
                 else do {
                   flat \<leftarrow> nonzero_flat_kernel nz (tv_elems a) (replicate nnz ijunk) n;
                   out \<leftarrow> flat_to_multi_index_kernel flat (replicate (nnz * ndim) ijunk) nnz shp;
                   Some (Inr \<lparr>tv_dtype = I64, tv_shape = [nnz, ndim], tv_elems = out\<rparr>) })"

definition searchsorted_impl :: "'a elem_cmp \<Rightarrow> int \<Rightarrow> 'a tvec \<Rightarrow> 'a tvec \<Rightarrow> bool \<Rightarrow> int tvec res" where
  "searchsorted_impl T ijunk sorted_sequence values right =
     (if length (tv_shape sorted_sequence) \<noteq> 1
      then Some (Inl (ShapeMismatch [of_nat (numel sorted_sequence)] (map of_nat (tv_shape sorted_sequence))))
      else if tv_dtype sorted_sequence \<noteq> tv_dtype values
      then Some (Inl (DTypeMismatch (tv_dtype sorted_sequence) (tv_dtype values)))
      else let num_values = numel values
           in if num_values = 0 then Some (Inr \<lparr>tv_dtype = I64, tv_shape = tv_shape values, tv_elems = []\<rparr>)
              else if tv_dtype values = Bool then Some (Inl (UnsupportedDType Bool ''searchsorted''))
              else map_option (\<lambda>out. Inr \<lparr>tv_dtype = I64, tv_shape = tv_shape values, tv_elems = out\<rparr>)
                (searchsorted_kernel T (tv_elems sorted_sequence) (tv_elems values) (replicate num_values ijunk)
                  (numel sorted_sequence) num_values right))"

section \<open>Element orders\<close>

definition int_cmp :: "int elem_cmp" where
  "int_cmp = \<lparr>partial_cmp = (\<lambda>a b. Some (compare a b)), elem_eq = (=)\<rparr>"

text \<open>IEEE 754 comparison on the bits of an \<open>f32\<close> or \<open>f64\<close>: sign and magnitude, both zeros equal, NaN unordered.\<close>

definition float_cmp :: "('a \<Rightarrow> bool) \<Rightarrow> ('a \<Rightarrow> int) \<Rightarrow> 'a elem_cmp" where
  "float_cmp nan key =
     \<lparr>partial_cmp = (\<lambda>a b. if nan a \<or> nan b then None else Some (compare (key a) (key b))),
      elem_eq = (\<lambda>a b. \<not> nan a \<and> \<not> nan b \<and> key a = key b)\<rparr>"

definition f32_nan :: "32 word \<Rightarrow> bool" where
  "f32_nan w \<longleftrightarrow> 0x7F800000 < uint w mod 2 ^ 31"

definition f32_key :: "32 word \<Rightarrow> int" where
  "f32_key w = (if uint w < 2 ^ 31 then uint w else - (uint w - 2 ^ 31))"

definition f64_nan :: "64 word \<Rightarrow> bool" where
  "f64_nan w \<longleftrightarrow> 0x7FF0000000000000 < uint w mod 2 ^ 63"

definition f64_key :: "64 word \<Rightarrow> int" where
  "f64_key w = (if uint w < 2 ^ 63 then uint w else - (uint w - 2 ^ 63))"

interpretation int_order: exact_order int_cmp "\<lambda>_. False" "\<lambda>x. x"
  by unfold_locales (auto simp: int_cmp_def)

interpretation f32_order: exact_order "float_cmp f32_nan f32_key" f32_nan f32_key
  by unfold_locales (auto simp: float_cmp_def)

interpretation f64_order: exact_order "float_cmp f64_nan f64_key" f64_nan f64_key
  by unfold_locales (auto simp: float_cmp_def)

section \<open>Sorting a tensor\<close>

definition wf_dense :: "'a tvec \<Rightarrow> bool" where
  "wf_dense a \<longleftrightarrow> length (tv_elems a) = prod_list (tv_shape a) \<and> prod_list (tv_shape a) < 2 ^ 63"

lemma numel_wf: "wf_dense a \<Longrightarrow> numel a = length (tv_elems a)"
  by (simp add: wf_dense_def numel_def)

lemma prod_list_axis_update:
  "d < length shp \<Longrightarrow> prod_list (shp[d := k]) = prod_list (take d shp) * k * prod_list (drop (Suc d) shp)"
  using prod_list_axis[of d "shp[d := k]"] by simp

lemma normalize_axis_less: "normalize_axis d n = Inr i \<Longrightarrow> i < n"
  by (auto simp: normalize_axis_def Let_def split: if_splits)

text \<open>Position \<open>ps ! j\<close> of the slice comes \<open>j\<close>-th: by rank, positions of equal rank in their order.\<close>

definition stable_order :: "('a \<Rightarrow> int \<times> int) \<Rightarrow> 'a list \<Rightarrow> nat list \<Rightarrow> bool" where
  "stable_order f xs ps \<longleftrightarrow> mset ps = mset [0..<length xs] \<and>
     sorted_wrt (\<lambda>i j. f (xs ! i) < f (xs ! j) \<or> f (xs ! i) = f (xs ! j) \<and> i < j) ps"

lemma stable_sorted_positions: "stable_order f xs (sorted_positions f xs)"
  by (simp only: stable_order_def sorted_positions_perm sorted_positions_strict)

abbreviation outer_of :: "nat list \<Rightarrow> nat \<Rightarrow> nat" where "outer_of shp d \<equiv> prod_list (take d shp)"
abbreviation inner_of :: "nat list \<Rightarrow> nat \<Rightarrow> nat" where "inner_of shp d \<equiv> prod_list (drop (Suc d) shp)"

end
