(* ===== verification/Sort_Correct.thy ===== *)
theory Sort_Correct
  imports Sort_Ops
begin

text \<open>
  What the sorting and searching operations on tensors return. The slice of a tensor at \<open>(o1, c)\<close> along axis \<open>d\<close>
  is \<open>tensor_slice a d o1 c\<close>; \<open>outer_of\<close> and \<open>inner_of\<close> count the slices.
\<close>

section \<open>Sorting\<close>

abbreviation tensor_slice :: "'a tvec \<Rightarrow> nat \<Rightarrow> nat \<Rightarrow> nat \<Rightarrow> 'a list" where
  "tensor_slice a d o1 c \<equiv> axis_slice (tv_elems a) (tv_shape a ! d) (inner_of (tv_shape a) d) o1 c"

definition slicewise :: "nat list \<Rightarrow> nat \<Rightarrow> (nat \<Rightarrow> nat \<Rightarrow> bool) \<Rightarrow> bool" where
  "slicewise shp d P \<longleftrightarrow> (\<forall>o1 < outer_of shp d. \<forall>c < inner_of shp d. P o1 c)"

lemma slicewiseI: "(\<And>o1 c. o1 < outer_of shp d \<Longrightarrow> c < inner_of shp d \<Longrightarrow> P o1 c) \<Longrightarrow> slicewise shp d P"
  by (simp add: slicewise_def)

lemma sort_errors:
  assumes "tv_shape a \<noteq> []" and "normalize_axis axis (length (tv_shape a)) = Inl e"
  shows "sort_impl T junk a axis desc = Some (Inl e)" "sort_with_indices_impl T junk ijunk a axis desc = Some (Inl e)"
    "argsort_impl T ijunk a axis desc = Some (Inl e)" "topk_impl T junk ijunk a k axis desc b = Some (Inl e)"
  using assms by (simp_all add: sort_impl_def sort_with_indices_impl_def argsort_impl_def topk_impl_def Let_def)

context key_order
begin

text \<open>The tensors the operations return, the slices of a buffer given as a function.\<close>

abbreviation sorted_elems :: "'a tvec \<Rightarrow> nat \<Rightarrow> bool \<Rightarrow> 'a list" where
  "sorted_elems a d desc \<equiv> assemble (outer_of (tv_shape a) d) (tv_shape a ! d) (inner_of (tv_shape a) d)
     (\<lambda>o1 c. map ((!) (tensor_slice a d o1 c)) (positions desc (tensor_slice a d o1 c)))"

abbreviation sorted_indices :: "'a tvec \<Rightarrow> nat \<Rightarrow> bool \<Rightarrow> int list" where
  "sorted_indices a d desc \<equiv> assemble (outer_of (tv_shape a) d) (tv_shape a ! d) (inner_of (tv_shape a) d)
     (\<lambda>o1 c. map int (positions desc (tensor_slice a d o1 c)))"

lemma sort_ops_eq:
  assumes "wf_dense a" "tv_dtype a \<noteq> Bool" "normalize_axis axis (length (tv_shape a)) = Inr d"
  shows "sort_impl T junk a axis desc = Some (Inr (a\<lparr>tv_elems := sorted_elems a d desc\<rparr>))"
    "sort_with_indices_impl T junk ijunk a axis desc = Some (Inr (a\<lparr>tv_elems := sorted_elems a d desc\<rparr>,
       \<lparr>tv_dtype = I64, tv_shape = tv_shape a, tv_elems = sorted_indices a d desc\<rparr>))"
    "argsort_impl T ijunk a axis desc = Some (Inr \<lparr>tv_dtype = I64, tv_shape = tv_shape a, tv_elems = sorted_indices a d desc\<rparr>)"
proof -
  have d: "d < length (tv_shape a)" using normalize_axis_less[OF assms(3)] .
  then have ne: "tv_shape a \<noteq> []" by auto
  note len = prod_list_axis[OF d]
  have l: "length (tv_elems a) = outer_of (tv_shape a) d * tv_shape a ! d * inner_of (tv_shape a) d"
    using assms(1) len by (simp add: wf_dense_def)
  have same: "\<lparr>tv_dtype = tv_dtype a, tv_shape = tv_shape a, tv_elems = xs\<rparr> = a\<lparr>tv_elems := xs\<rparr>" for xs by (cases a) simp
  show "sort_impl T junk a axis desc = Some (Inr (a\<lparr>tv_elems := sorted_elems a d desc\<rparr>))"
    using ne assms(2,3) sort_values_kernel_eq[OF l] len by (simp add: sort_impl_def Let_def compute_reduce_strides_def same)
  show "sort_with_indices_impl T junk ijunk a axis desc = Some (Inr (a\<lparr>tv_elems := sorted_elems a d desc\<rparr>,
       \<lparr>tv_dtype = I64, tv_shape = tv_shape a, tv_elems = sorted_indices a d desc\<rparr>))"
    using ne assms(2,3) sort_kernel_eq[OF l] len by (simp add: sort_with_indices_impl_def Let_def compute_reduce_strides_def same)
  show "argsort_impl T ijunk a axis desc = Some (Inr \<lparr>tv_dtype = I64, tv_shape = tv_shape a, tv_elems = sorted_indices a d desc\<rparr>)"
    using ne assms(2,3) argsort_kernel_eq[OF l] len by (simp add: argsort_impl_def Let_def compute_reduce_strides_def)
qed

lemma topk_eq:
  assumes "wf_dense a" "tv_dtype a \<noteq> Bool" "normalize_axis axis (length (tv_shape a)) = Inr d" "k \<le> tv_shape a ! d"
  shows "topk_impl T junk ijunk a k axis desc b = Some (Inr
    (\<lparr>tv_dtype = tv_dtype a, tv_shape = (tv_shape a)[d := k], tv_elems = assemble (outer_of (tv_shape a) d) k (inner_of (tv_shape a) d)
       (\<lambda>o1 c. map ((!) (tensor_slice a d o1 c)) (selected_positions (rank nan key desc) k b (tensor_slice a d o1 c)))\<rparr>,
     \<lparr>tv_dtype = I64, tv_shape = (tv_shape a)[d := k], tv_elems = assemble (outer_of (tv_shape a) d) k (inner_of (tv_shape a) d)
       (\<lambda>o1 c. map int (selected_positions (rank nan key desc) k b (tensor_slice a d o1 c)))\<rparr>))"
proof -
  have d: "d < length (tv_shape a)" using normalize_axis_less[OF assms(3)] .
  then have ne: "tv_shape a \<noteq> []" by auto
  note len = prod_list_axis_update[OF d, of k]
  have l: "length (tv_elems a) = outer_of (tv_shape a) d * tv_shape a ! d * inner_of (tv_shape a) d"
    using assms(1) prod_list_axis[OF d] by (simp add: wf_dense_def)
  show ?thesis
  proof (cases "k = 0")
    case True
    then show ?thesis using ne assms(2,3) len by (simp add: topk_impl_def Let_def assemble_def)
  next
    case False
    then show ?thesis using ne assms(2-4) len topk_kernel_eq[OF l]
      by (simp add: topk_impl_def Let_def compute_reduce_strides_def)
  qed
qed

end

text \<open>
  C38. Sorting tensors. Let the comparison of the element type be the comparison of keys, undefined exactly on
  NaN (so for the integers and the floats of the instances). For every well-formed tensor, axis (negative ones
  count from the end) and direction, \<open>sort_with_indices\<close> returns, and \<open>sort\<close> and \<open>argsort\<close> return its two
  halves; both keep the shape. Along the axis every slice of the indices is the stable order of the slice of the
  input, with NaN above every number (so first in a descending order), and the values are the input elements at
  those indices. With \<open>k\<close> at most the size of the axis, \<open>topk\<close> returns for each slice the first \<open>k\<close> of that order,
  in that order or else by position; a larger \<open>k\<close> is an error.
\<close>

theorem tensor_sort_correct:
  assumes ko: "key_order T nan key" and wf: "wf_dense a" and dt: "tv_dtype a \<noteq> Bool"
    and ax: "normalize_axis axis (length (tv_shape a)) = Inr d"
  shows "(\<exists>v i. sort_with_indices_impl T junk ijunk a axis desc = Some (Inr (v, i)) \<and>
      sort_impl T junk a axis desc = Some (Inr v) \<and> argsort_impl T ijunk a axis desc = Some (Inr i) \<and>
      wf_dense v \<and> tv_shape v = tv_shape a \<and> tv_dtype v = tv_dtype a \<and> wf_dense i \<and> tv_shape i = tv_shape a \<and> tv_dtype i = I64 \<and>
      slicewise (tv_shape a) d (\<lambda>o1 c. \<exists>ps. stable_order (rank nan key desc) (tensor_slice a d o1 c) ps \<and>
        tensor_slice v d o1 c = map ((!) (tensor_slice a d o1 c)) ps \<and> tensor_slice i d o1 c = map int ps)) \<and>
     (if k \<le> tv_shape a ! d
      then \<exists>v i. topk_impl T junk ijunk a k axis desc b = Some (Inr (v, i)) \<and>
        tv_shape v = (tv_shape a)[d := k] \<and> tv_dtype v = tv_dtype a \<and> tv_shape i = (tv_shape a)[d := k] \<and> tv_dtype i = I64 \<and>
        slicewise (tv_shape a) d (\<lambda>o1 c. \<exists>ps. stable_order (rank nan key desc) (tensor_slice a d o1 c) ps \<and>
          (let sel = (if b then take k ps else sort (take k ps))
           in tensor_slice v d o1 c = map ((!) (tensor_slice a d o1 c)) sel \<and> tensor_slice i d o1 c = map int sel))
      else topk_impl T junk ijunk a k axis desc b = Some (Inl (InvalidArgument ''k'')))"
proof (rule conjI)
  have d: "d < length (tv_shape a)" using normalize_axis_less[OF ax] .
  note ops = key_order.sort_ops_eq[OF ko wf dt ax]
  let ?p = "\<lambda>o1 c. sorted_positions (rank nan key desc) (tensor_slice a d o1 c)"
  show "\<exists>v i. sort_with_indices_impl T junk ijunk a axis desc = Some (Inr (v, i)) \<and>
      sort_impl T junk a axis desc = Some (Inr v) \<and> argsort_impl T ijunk a axis desc = Some (Inr i) \<and>
      wf_dense v \<and> tv_shape v = tv_shape a \<and> tv_dtype v = tv_dtype a \<and> wf_dense i \<and> tv_shape i = tv_shape a \<and> tv_dtype i = I64 \<and>
      slicewise (tv_shape a) d (\<lambda>o1 c. \<exists>ps. stable_order (rank nan key desc) (tensor_slice a d o1 c) ps \<and>
        tensor_slice v d o1 c = map ((!) (tensor_slice a d o1 c)) ps \<and> tensor_slice i d o1 c = map int ps)"
    by (intro exI conjI, rule ops, rule ops, rule ops)
      (use wf prod_list_axis[OF d] in \<open>auto simp: wf_dense_def slice_assemble intro!: slicewiseI exI[of _ "?p _ _"] stable_sorted_positions\<close>)
  show "if k \<le> tv_shape a ! d
      then \<exists>v i. topk_impl T junk ijunk a k axis desc b = Some (Inr (v, i)) \<and>
        tv_shape v = (tv_shape a)[d := k] \<and> tv_dtype v = tv_dtype a \<and> tv_shape i = (tv_shape a)[d := k] \<and> tv_dtype i = I64 \<and>
        slicewise (tv_shape a) d (\<lambda>o1 c. \<exists>ps. stable_order (rank nan key desc) (tensor_slice a d o1 c) ps \<and>
          (let sel = (if b then take k ps else sort (take k ps))
           in tensor_slice v d o1 c = map ((!) (tensor_slice a d o1 c)) sel \<and> tensor_slice i d o1 c = map int sel))
      else topk_impl T junk ijunk a k axis desc b = Some (Inl (InvalidArgument ''k''))"
  proof (cases "k \<le> tv_shape a ! d")
    case True
    note eq = key_order.topk_eq[OF ko wf dt ax True, of junk ijunk desc b]
    have "\<exists>v i. topk_impl T junk ijunk a k axis desc b = Some (Inr (v, i)) \<and>
        tv_shape v = (tv_shape a)[d := k] \<and> tv_dtype v = tv_dtype a \<and> tv_shape i = (tv_shape a)[d := k] \<and> tv_dtype i = I64 \<and>
        slicewise (tv_shape a) d (\<lambda>o1 c. \<exists>ps. stable_order (rank nan key desc) (tensor_slice a d o1 c) ps \<and>
          (let sel = (if b then take k ps else sort (take k ps))
           in tensor_slice v d o1 c = map ((!) (tensor_slice a d o1 c)) sel \<and> tensor_slice i d o1 c = map int sel))"
      by (intro exI conjI, rule eq)
        (use True d in \<open>auto simp: slice_assemble Let_def selected_positions_def intro!: slicewiseI exI[of _ "?p _ _"] stable_sorted_positions\<close>)
    with True show ?thesis by simp
  next
    case False
    then show ?thesis using d ax by (auto simp: topk_impl_def Let_def)
  qed
qed

abbreviation sample_ints :: "int tvec" where
  "sample_ints \<equiv> \<lparr>tv_dtype = I32, tv_shape = [2, 3], tv_elems = [5, -1, 5, 2, 2, 0]\<rparr>"

lemma tensor_sort_correct_witness:
  "sort_with_indices_impl int_cmp 0 0 sample_ints (-1) True =
     Some (Inr (sample_ints\<lparr>tv_elems := [5, 5, -1, 2, 2, 0]\<rparr>, \<lparr>tv_dtype = I64, tv_shape = [2, 3], tv_elems = [0, 2, 1, 0, 1, 2]\<rparr>)) \<and>
   (\<exists>v i. sort_with_indices_impl int_cmp 0 0 sample_ints (-1) True = Some (Inr (v, i)) \<and> sort_impl int_cmp 0 sample_ints (-1) True = Some (Inr v)) \<and>
   (\<exists>v i. topk_impl int_cmp 0 0 sample_ints 2 (-1) True False = Some (Inr (v, i)) \<and> tv_shape i = [2, 2])"
proof (intro conjI)
  show "sort_with_indices_impl int_cmp 0 0 sample_ints (-1) True =
     Some (Inr (sample_ints\<lparr>tv_elems := [5, 5, -1, 2, 2, 0]\<rparr>, \<lparr>tv_dtype = I64, tv_shape = [2, 3], tv_elems = [0, 2, 1, 0, 1, 2]\<rparr>))"
    by code_simp
  have p: "wf_dense sample_ints" "tv_dtype sample_ints \<noteq> Bool" "normalize_axis (-1) (length (tv_shape sample_ints)) = Inr 1"
    by (simp_all add: wf_dense_def normalize_axis_def)
  from tensor_sort_correct[OF int_order.key_order_axioms p, of 0 0 True 0 True]
  show "\<exists>v i. sort_with_indices_impl int_cmp 0 0 sample_ints (-1) True = Some (Inr (v, i)) \<and> sort_impl int_cmp 0 sample_ints (-1) True = Some (Inr v)"
    by blast
  from tensor_sort_correct[OF int_order.key_order_axioms p, of 0 0 True 2 False]
  show "\<exists>v i. topk_impl int_cmp 0 0 sample_ints 2 (-1) True False = Some (Inr (v, i)) \<and> tv_shape i = [2, 2]" by auto
qed

end
