(* ===== verification/Sort_Unique.thy ===== *)
theory Sort_Unique
  imports Sort_Correct
begin

text \<open>
  What \<open>unique\<close>, \<open>unique_with_counts\<close>, \<open>searchsorted\<close> and \<open>nonzero\<close> return.
\<close>

section \<open>Unique elements\<close>

lemma gather_permutation:
  assumes "length xs = n" "length ps = n" "\<forall>p \<in> set ps. p < n" "n < 2 ^ 63" "length out = n"
  shows "gather_kernel zero xs (map int ps) out [n] [n] 0 = Some (map ((!) xs) ps)"
proof -
  have "gather_kernel zero xs (map int ps) out [n] [n] 0 = Some (map (gather_spec zero xs (map int ps) [n] [n] 0) [0..<prod_list [n]])"
    by (rule gather_kernel_eq) (use assms in \<open>auto simp: index_shapes_ok_def index_ranks_ok_def i64s_def\<close>)
  also have "map (gather_spec zero xs (map int ps) [n] [n] 0) [0..<prod_list [n]] = map ((!) xs) ps"
    using assms by (intro nth_equalityI) (auto simp: gather_spec_def valid_index_def moved_index_def)
  finally show ?thesis .
qed

lemma axis_slice_line: "length xs = n \<Longrightarrow> axis_slice xs n (Suc 0) 0 0 = xs"
  using map_nth[of xs] by (simp add: axis_slice_def slice_idx_def)

lemma assemble_line: "length (f 0 0) = n \<Longrightarrow> assemble (Suc 0) n (Suc 0) f = f 0 0"
  by (rule nth_equalityI) (simp_all add: assemble_def)

lemma card_permuted: "distinct ps \<Longrightarrow> set ps = {0..<n} \<Longrightarrow> length ps = n \<Longrightarrow>
  card {p. p < n \<and> P p} = length (filter (\<lambda>j. P (ps ! j)) [0..<n])"
proof -
  assume d: "distinct ps" "set ps = {0..<n}" "length ps = n"
  have "{p. p < n \<and> P p} = set (filter P ps)" using d(2) by auto
  then have "card {p. p < n \<and> P p} = length (filter P ps)" using distinct_card[of "filter P ps"] d(1) by simp
  also have "filter P ps = filter P (map ((!) ps) [0..<n])" using d(3) by (metis map_nth)
  finally show ?thesis by (simp add: filter_map comp_def)
qed

context exact_order
begin

lemma unique_eq:
  assumes wf: "wf_dense a" and n: "numel a \<noteq> 0" and dt: "tv_dtype a \<noteq> Bool"
    and ps: "ps = sorted_positions rk (tv_elems a)" and xs: "xs = map ((!) (tv_elems a)) ps" and us: "us = uniques T xs (numel a - 1)"
  shows "unique_impl T junk True a = Some (Inr \<lparr>tv_dtype = tv_dtype a, tv_shape = [length us], tv_elems = us\<rparr>)"
    "\<exists>invs. unique_with_counts_impl T junk ijunk zero True a = Some (Inr
       (\<lparr>tv_dtype = tv_dtype a, tv_shape = [length us], tv_elems = us\<rparr>, \<lparr>tv_dtype = I64, tv_shape = [numel a], tv_elems = invs\<rparr>,
        \<lparr>tv_dtype = I64, tv_shape = [length us], tv_elems = map (\<lambda>g. int (group_size T xs (numel a) g)) [0..<length us]\<rparr>)) \<and>
      length invs = numel a \<and> (\<forall>j < numel a. invs ! (ps ! j) = int (group_of T xs j))"
proof -
  have n1: "numel a = length (tv_elems a)" and n2: "length (tv_elems a) < 2 ^ 63" using numel_wf[OF wf] wf by (simp_all add: wf_dense_def)
  have pm: "mset ps = mset [0..<numel a]" by (simp add: ps n1 sorted_positions_perm)
  have lp: "length ps = numel a" and lx: "length xs = numel a" by (simp_all add: ps xs n1)
  have pl: "\<forall>p \<in> set ps. p < numel a" using mset_eq_setD[OF pm] by auto
  let ?a = "a\<lparr>tv_shape := [numel a]\<rparr>"
  have wfa: "wf_dense ?a" "tv_dtype ?a \<noteq> Bool" "normalize_axis 0 (length (tv_shape ?a)) = Inr 0"
    using wf dt by (simp_all add: wf_dense_def n1 normalize_axis_def)
  have slice: "tensor_slice ?a 0 0 0 = tv_elems a" by (simp add: axis_slice_line n1)
  have vals: "sorted_elems ?a 0 False = xs" and idx: "sorted_indices ?a 0 False = map int ps"
    by (simp_all add: assemble_line slice n1 axis_slice_line ps xs)
  note srt = sort_ops_eq[OF wfa, where desc = False, unfolded vals idx]
  have cnt: "count_unique_kernel T xs (numel a) = Some (length us)" unfolding us by (rule count_unique_eq) (use n lx in simp_all)
  have ext: "extract_unique_kernel T xs (replicate (length us) junk) (numel a) = Some us"
    unfolding us by (rule extract_unique_eq) (use n lx in simp_all)
  show "unique_impl T junk True a = Some (Inr \<lparr>tv_dtype = tv_dtype a, tv_shape = [length us], tv_elems = us\<rparr>)"
    using n by (simp add: unique_impl_def Let_def srt cnt ext)
  have ga: "gather_kernel zero (tv_elems a) (map int ps) (replicate (numel a) junk) [numel a] [numel a] 0 = Some xs"
    unfolding xs by (rule gather_permutation) (use lp pl n1 n2 in simp_all)
  obtain invs where i: "unique_with_counts_kernel T xs (map int ps) (replicate (length us) junk) (replicate (numel a) ijunk)
      (replicate (length us) ijunk) (numel a) = Some (us, invs, map (\<lambda>g. int (group_size T xs (numel a) g)) [0..<length us])"
    "length invs = numel a" "\<forall>j < numel a. invs ! (ps ! j) = int (group_of T xs j)"
    using unique_with_counts_eq[of "numel a" xs ps "replicate (length us) junk" T "replicate (length us) ijunk" "replicate (numel a) ijunk"]
      n lx n1 n2 pm us by auto
  show "\<exists>invs. unique_with_counts_impl T junk ijunk zero True a = Some (Inr
       (\<lparr>tv_dtype = tv_dtype a, tv_shape = [length us], tv_elems = us\<rparr>, \<lparr>tv_dtype = I64, tv_shape = [numel a], tv_elems = invs\<rparr>,
        \<lparr>tv_dtype = I64, tv_shape = [length us], tv_elems = map (\<lambda>g. int (group_size T xs (numel a) g)) [0..<length us]\<rparr>)) \<and>
      length invs = numel a \<and> (\<forall>j < numel a. invs ! (ps ! j) = int (group_of T xs j))"
    using n by (intro exI[of _ invs] conjI i(2,3)) (simp add: unique_with_counts_impl_def Let_def srt ga cnt i(1))
qed

end

text \<open>What \<open>unique_with_counts\<close> returns for the elements \<open>xs\<close>.\<close>

definition unique_answer :: "('a \<Rightarrow> bool) \<Rightarrow> ('a \<Rightarrow> int) \<Rightarrow> 'a list \<Rightarrow> 'a list \<Rightarrow> int list \<Rightarrow> int list \<Rightarrow> bool" where
  "unique_answer nan key xs us invs counts \<longleftrightarrow>
     set us \<subseteq> set xs \<and> sorted_wrt (\<lambda>x y. rank nan key False x < rank nan key False y \<or> nan x \<and> nan y) us \<and>
     length invs = length xs \<and>
     (\<forall>p < length xs. \<exists>g < length us. invs ! p = int g \<and> rank nan key False (us ! g) = rank nan key False (xs ! p)) \<and>
     length counts = length us \<and>
     (\<forall>g < length us. counts ! g = int (card {p. p < length xs \<and> invs ! p = int g}) \<and> 0 < counts ! g)"

lemma unique_answer_Nil: "unique_answer nan key [] [] [] []"
  by (simp add: unique_answer_def)

context exact_order
begin

lemma unique_groups:
  assumes n: "0 < length ys" and ps: "ps = sorted_positions rk ys" and xs: "xs = map ((!) ys) ps"
    and us: "us = uniques T xs (length ys - 1)"
    and i: "length invs = length ys" "\<forall>j < length ys. invs ! (ps ! j) = int (group_of T xs j)"
  shows "unique_answer nan key ys us invs (map (\<lambda>g. int (group_size T xs (length ys) g)) [0..<length us])"
proof -
  let ?n = "length ys"
  have pm: "mset ps = mset [0..<?n]" by (simp add: ps sorted_positions_perm)
  have sp: "set ps = {0..<?n}" and lp: "length ps = ?n" and dp: "distinct ps"
    using mset_eq_setD[OF pm] by (simp_all add: ps sorted_positions_def)
  have lx: "length xs = ?n" by (simp add: xs lp)
  have srt: "sorted (map rk xs)" by (simp add: xs ps sort_values[symmetric])
  have sub: "set us \<subseteq> set ys"
  proof -
    have "set us \<subseteq> (!) xs ` {..?n - 1}" unfolding us by (rule uniques_set) (use n lx in simp)
    also have "\<dots> \<subseteq> set xs"
    proof -
      have "i < length xs" if "i \<le> ?n - 1" for i using that n lx by linarith
      then show ?thesis by auto
    qed
    also have "\<dots> \<subseteq> set ys" using sp by (auto simp: xs)
    finally show ?thesis .
  qed
  have str: "sorted_wrt (\<lambda>x y. rk x < rk y \<or> nan x \<and> nan y) us" unfolding us by (rule uniques_strict[OF srt]) (use n lx in simp)
  have grp: "\<exists>g < length us. invs ! p = int g \<and> rk (us ! g) = rk (ys ! p)" if p: "p < ?n" for p
  proof -
    from p sp obtain j where j: "j < ?n" "p = ps ! j" using lp by (metis atLeastLessThan_iff in_set_conv_nth zero_le)
    have le: "j \<le> ?n - 1" using j(1) by simp
    have "rk (us ! group_of T xs j) = rk (xs ! j)" unfolding us by (rule uniques_rank[OF le])
    moreover have "group_of T xs j < length us" unfolding us using uniques_nth_last(2)[OF le, of T xs] uniques_length(1)[of T xs j] by linarith
    ultimately show ?thesis using i(2) j lp by (intro exI[of _ "group_of T xs j"]) (simp add: xs)
  qed
  have cnt: "card {p. p < ?n \<and> invs ! p = int g} = group_size T xs ?n g" for g
    unfolding card_permuted[OF dp sp lp] group_size_def by (rule arg_cong[of _ _ length], rule filter_cong) (use i(2) in auto)
  have pos: "0 < group_size T xs ?n g" if gl: "g < length us" for g
  proof -
    obtain j where "j \<le> ?n - 1" "group_of T xs j = g" using group_hit gl unfolding us by blast
    moreover from this(1) n have "j < ?n" by linarith
    ultimately have "j \<in> set (filter (\<lambda>j. group_of T xs j = g) [0..<?n])" by simp
    then show ?thesis unfolding group_size_def by (metis length_pos_if_in_set)
  qed
  show ?thesis unfolding unique_answer_def using sub str grp cnt pos i(1) by simp
qed

end

text \<open>
  C39. Unique elements. For an element type whose equality is equality of keys (integers and floats) and every
  well-formed row-major tensor, \<open>unique_with_counts\<close> returns and \<open>unique\<close> returns its first part. The
  unique values are elements of the tensor in strictly ascending order, except that NaNs come last and each NaN
  is kept; the inverse names for every element a unique value of the same rank; the counts are the exact
  numbers of elements sent to each value and positive. A tensor whose layout is not row-major is refused, although
  the code makes it contiguous afterwards.
\<close>

theorem tensor_unique_correct:
  assumes eo: "exact_order T nan key" and wf: "wf_dense a" and dt: "tv_dtype a \<noteq> Bool"
  shows "(\<exists>us invs counts. unique_with_counts_impl T junk ijunk zero True a = Some (Inr
      (\<lparr>tv_dtype = tv_dtype a, tv_shape = [length us], tv_elems = us\<rparr>, \<lparr>tv_dtype = I64, tv_shape = [numel a], tv_elems = invs\<rparr>,
       \<lparr>tv_dtype = I64, tv_shape = [length us], tv_elems = counts\<rparr>)) \<and>
    unique_impl T junk True a = Some (Inr \<lparr>tv_dtype = tv_dtype a, tv_shape = [length us], tv_elems = us\<rparr>) \<and>
    unique_answer nan key (tv_elems a) us invs counts) \<and>
    (numel a \<noteq> 0 \<longrightarrow> unique_impl T junk False a = Some (Inl NotContiguous) \<and>
      unique_with_counts_impl T junk ijunk zero False a = Some (Inl NotContiguous))"
proof (rule conjI)
  have n1: "numel a = length (tv_elems a)" using numel_wf[OF wf] .
  show "\<exists>us invs counts. unique_with_counts_impl T junk ijunk zero True a = Some (Inr
      (\<lparr>tv_dtype = tv_dtype a, tv_shape = [length us], tv_elems = us\<rparr>, \<lparr>tv_dtype = I64, tv_shape = [numel a], tv_elems = invs\<rparr>,
       \<lparr>tv_dtype = I64, tv_shape = [length us], tv_elems = counts\<rparr>)) \<and>
    unique_impl T junk True a = Some (Inr \<lparr>tv_dtype = tv_dtype a, tv_shape = [length us], tv_elems = us\<rparr>) \<and>
    unique_answer nan key (tv_elems a) us invs counts"
  proof (cases "numel a = 0")
    case True
    then show ?thesis using n1 by (intro exI[of _ "[]"])
      (simp add: unique_impl_def unique_with_counts_impl_def empty_tvec_def unique_answer_Nil)
  next
    case False
    note eq = exact_order.unique_eq[OF eo wf False dt refl refl refl, of junk]
    obtain invs where "unique_with_counts_impl T junk ijunk zero True a = Some (Inr
       (\<lparr>tv_dtype = tv_dtype a, tv_shape = [length (uniques T (map ((!) (tv_elems a)) (sorted_positions (rank nan key False) (tv_elems a))) (numel a - 1))],
          tv_elems = uniques T (map ((!) (tv_elems a)) (sorted_positions (rank nan key False) (tv_elems a))) (numel a - 1)\<rparr>,
        \<lparr>tv_dtype = I64, tv_shape = [numel a], tv_elems = invs\<rparr>,
        \<lparr>tv_dtype = I64, tv_shape = [length (uniques T (map ((!) (tv_elems a)) (sorted_positions (rank nan key False) (tv_elems a))) (numel a - 1))],
          tv_elems = map (\<lambda>g. int (group_size T (map ((!) (tv_elems a)) (sorted_positions (rank nan key False) (tv_elems a))) (numel a) g))
            [0..<length (uniques T (map ((!) (tv_elems a)) (sorted_positions (rank nan key False) (tv_elems a))) (numel a - 1))]\<rparr>))"
      and i: "length invs = length (tv_elems a)" "\<forall>j < length (tv_elems a). invs ! (sorted_positions (rank nan key False) (tv_elems a) ! j) =
        int (group_of T (map ((!) (tv_elems a)) (sorted_positions (rank nan key False) (tv_elems a))) j)"
      using eq(2)[of ijunk zero] n1 by auto
    moreover have "0 < length (tv_elems a)" using False n1 by simp
    note ans = exact_order.unique_groups[OF eo this refl refl refl i]
    ultimately show ?thesis using eq(1) ans n1 by (intro exI conjI) (assumption, assumption, simp)
  qed
qed (simp_all add: unique_impl_def unique_with_counts_impl_def)

lemma tensor_unique_correct_witness:
  "unique_with_counts_impl int_cmp 0 0 0 True sample_ints = Some (Inr
     (\<lparr>tv_dtype = I32, tv_shape = [4], tv_elems = [-1, 0, 2, 5]\<rparr>, \<lparr>tv_dtype = I64, tv_shape = [6], tv_elems = [3, 0, 3, 2, 2, 1]\<rparr>,
      \<lparr>tv_dtype = I64, tv_shape = [4], tv_elems = [1, 1, 2, 2]\<rparr>)) \<and>
   (\<exists>us. unique_impl int_cmp 0 True sample_ints = Some (Inr us)) \<and> unique_impl int_cmp 0 False sample_ints = Some (Inl NotContiguous)"
proof (intro conjI)
  show "unique_with_counts_impl int_cmp 0 0 0 True sample_ints = Some (Inr
     (\<lparr>tv_dtype = I32, tv_shape = [4], tv_elems = [-1, 0, 2, 5]\<rparr>, \<lparr>tv_dtype = I64, tv_shape = [6], tv_elems = [3, 0, 3, 2, 2, 1]\<rparr>,
      \<lparr>tv_dtype = I64, tv_shape = [4], tv_elems = [1, 1, 2, 2]\<rparr>))"
    by code_simp
  have p: "wf_dense sample_ints" "tv_dtype sample_ints \<noteq> Bool" by (simp_all add: wf_dense_def)
  from tensor_unique_correct[OF int_order.exact_order_axioms p, of 0 0 0] show "\<exists>us. unique_impl int_cmp 0 True sample_ints = Some (Inr us)" by blast
  from tensor_unique_correct[OF int_order.exact_order_axioms p, of 0 0 0]
  show "unique_impl int_cmp 0 False sample_ints = Some (Inl NotContiguous)" by (simp add: numel_def)
qed

section \<open>Searching\<close>

lemma count_filter_nth: "length (filter nz xs) = length (filter (\<lambda>i. nz (xs ! i)) [0..<length xs])"
proof -
  have "filter nz (map ((!) xs) [0..<length xs]) = map ((!) xs) (filter (\<lambda>i. nz (xs ! i)) [0..<length xs])"
    by (simp add: filter_map comp_def)
  then show ?thesis by (simp add: map_nth)
qed

text \<open>
  C40. Searching. For an ascending sequence, \<open>searchsorted\<close> returns for each value the insertion point: exactly the
  positions before it hold elements below the value (at most the value with \<open>right\<close>), NaN being above every
  number. For every well-formed tensor with at least one axis, \<open>nonzero\<close> returns one row for each element that is
  not zero, in row-major order, with its coordinates.
\<close>

theorem tensor_search_correct:
  assumes ko: "key_order T nan key" and dt: "tv_dtype a \<noteq> Bool" and wf: "wf_dense a"
  shows "(wf_dense ss \<and> tv_shape ss = [length (tv_elems ss)] \<and> tv_dtype ss = tv_dtype a \<and> sorted (map (rank nan key False) (tv_elems ss)) \<longrightarrow>
    (\<exists>ks. searchsorted_impl T ijunk ss a right = Some (Inr \<lparr>tv_dtype = I64, tv_shape = tv_shape a, tv_elems = map int ks\<rparr>) \<and>
      length ks = numel a \<and>
      (\<forall>j < numel a. ks ! j \<le> numel ss \<and> (\<forall>i < numel ss. i < ks ! j \<longleftrightarrow>
        (if right then rank nan key False (tv_elems ss ! i) \<le> rank nan key False (tv_elems a ! j)
         else rank nan key False (tv_elems ss ! i) < rank nan key False (tv_elems a ! j)))))) \<and>
    (tv_shape a \<noteq> [] \<longrightarrow> nonzero_impl nz ijunk a = (let fs = filter (\<lambda>i. nz (tv_elems a ! i)) [0..<numel a] in
      Some (Inr \<lparr>tv_dtype = I64, tv_shape = [length fs, length (tv_shape a)], tv_elems = concat (map (\<lambda>f. map int (unravel (tv_shape a) f)) fs)\<rparr>)))"
proof (intro conjI impI)
  have n1: "numel a = length (tv_elems a)" and lp: "length (tv_elems a) = prod_list (tv_shape a)" "prod_list (tv_shape a) < 2 ^ 63"
    using numel_wf[OF wf] wf by (simp_all add: wf_dense_def)
  show "\<exists>ks. searchsorted_impl T ijunk ss a right = Some (Inr \<lparr>tv_dtype = I64, tv_shape = tv_shape a, tv_elems = map int ks\<rparr>) \<and>
      length ks = numel a \<and>
      (\<forall>j < numel a. ks ! j \<le> numel ss \<and> (\<forall>i < numel ss. i < ks ! j \<longleftrightarrow>
        (if right then rank nan key False (tv_elems ss ! i) \<le> rank nan key False (tv_elems a ! j)
         else rank nan key False (tv_elems ss ! i) < rank nan key False (tv_elems a ! j))))"
    if hyp: "wf_dense ss \<and> tv_shape ss = [length (tv_elems ss)] \<and> tv_dtype ss = tv_dtype a \<and> sorted (map (rank nan key False) (tv_elems ss))"
  proof -
    note ss = hyp[THEN conjunct1] hyp[THEN conjunct2, THEN conjunct1] hyp[THEN conjunct2, THEN conjunct2, THEN conjunct1]
      hyp[THEN conjunct2, THEN conjunct2, THEN conjunct2]
    have n2: "numel ss = length (tv_elems ss)" using numel_wf[OF ss(1)] .
    show ?thesis
    proof (cases "numel a = 0")
      case True
      then show ?thesis using ss(2,3) by (intro exI[of _ "[]"]) (simp add: searchsorted_impl_def)
    next
      case False
      have l: "length (replicate (numel a) ijunk) = length (tv_elems a)" by (simp add: n1)
      obtain ks where "searchsorted_kernel T (tv_elems ss) (tv_elems a) (replicate (numel a) ijunk) (length (tv_elems ss)) (length (tv_elems a)) right =
          Some (map int ks)" and k: "length ks = length (tv_elems a)" "\<forall>j < length (tv_elems a). ks ! j \<le> length (tv_elems ss) \<and>
          (\<forall>i < length (tv_elems ss). i < ks ! j \<longleftrightarrow> (if right then rank nan key False (tv_elems ss ! i) \<le> rank nan key False (tv_elems a ! j)
            else rank nan key False (tv_elems ss ! i) < rank nan key False (tv_elems a ! j)))"
        using key_order.searchsorted_eq[OF ko l ss(4), of right] by blast
      then have "searchsorted_impl T ijunk ss a right = Some (Inr \<lparr>tv_dtype = I64, tv_shape = tv_shape a, tv_elems = map int ks\<rparr>)"
        using False ss(2,3) dt n1 n2 by (simp add: searchsorted_impl_def Let_def)
      then show ?thesis unfolding n1 n2 using k by blast
    qed
  qed
  assume ne: "tv_shape a \<noteq> []"
  let ?fs = "filter (\<lambda>i. nz (tv_elems a ! i)) [0..<length (tv_elems a)]"
  have cnt: "count_nonzero_kernel nz (tv_elems a) (length (tv_elems a)) = length ?fs"
    using count_filter_nth[of nz "tv_elems a"] by (simp add: count_nonzero_kernel_def)
  have "nonzero_impl nz ijunk a = Some (Inr \<lparr>tv_dtype = I64, tv_shape = [length ?fs, length (tv_shape a)],
      tv_elems = concat (map (\<lambda>f. map int (unravel (tv_shape a) f)) ?fs)\<rparr>)"
  proof (cases "?fs = []")
    case True
    then show ?thesis using dt cnt n1 by (simp add: nonzero_impl_def Let_def)
  next
    case False
    then have n0: "tv_elems a \<noteq> []" by auto
    have flat: "nonzero_flat_kernel nz (tv_elems a) (replicate (length ?fs) ijunk) (length (tv_elems a)) = Some (map int ?fs)"
      by (rule nonzero_flat_eq) (simp_all add: count_filter_nth[symmetric])
    have "flat_to_multi_index_kernel (map int ?fs) (replicate (length ?fs * length (tv_shape a)) ijunk) (length ?fs) (tv_shape a) =
        Some (concat (map (\<lambda>f. map int (unravel (tv_shape a) (nat f))) (map int ?fs)))"
      by (rule flat_to_multi_eq) (use lp in auto)
    then show ?thesis using False n0 ne dt cnt n1 flat by (simp add: nonzero_impl_def Let_def comp_def)
  qed
  then show "nonzero_impl nz ijunk a = (let fs = filter (\<lambda>i. nz (tv_elems a ! i)) [0..<numel a] in
      Some (Inr \<lparr>tv_dtype = I64, tv_shape = [length fs, length (tv_shape a)], tv_elems = concat (map (\<lambda>f. map int (unravel (tv_shape a) f)) fs)\<rparr>))"
    unfolding n1 Let_def .
qed

lemma tensor_search_correct_witness:
  "(\<exists>ks. searchsorted_impl int_cmp 0 \<lparr>tv_dtype = I32, tv_shape = [4], tv_elems = [-1, 0, 2, 5]\<rparr> sample_ints True =
      Some (Inr \<lparr>tv_dtype = I64, tv_shape = [2, 3], tv_elems = map int ks\<rparr>)) \<and>
   nonzero_impl (\<lambda>x. x \<noteq> 0) 0 sample_ints =
      Some (Inr \<lparr>tv_dtype = I64, tv_shape = [5, 2], tv_elems = [0, 0, 0, 1, 0, 2, 1, 0, 1, 1]\<rparr>)"
proof -
  have p: "tv_dtype sample_ints \<noteq> Bool" "wf_dense sample_ints" "tv_shape sample_ints \<noteq> []" by (simp_all add: wf_dense_def)
  let ?s = "\<lparr>tv_dtype = I32, tv_shape = [4], tv_elems = [-1, 0, 2, 5]\<rparr> :: int tvec"
  have q: "wf_dense ?s" "tv_shape ?s = [length (tv_elems ?s)]" "tv_dtype ?s = tv_dtype sample_ints"
    "sorted (map (rank (\<lambda>_. False) (\<lambda>x. x) False) (tv_elems ?s))"
    by (simp_all add: wf_dense_def rank_def)
  have u: "upt 0 6 = [0, 1, 2, 3, 4, 5]" by (simp add: upt_rec)
  show ?thesis
    using tensor_search_correct[OF int_order.key_order_axioms p(1,2), of ?s 0 True "\<lambda>x. x \<noteq> 0"] p(3) q
    by (auto simp: Let_def numel_def u)
qed

end
