(* ===== verification/Allocators.thy ===== *)
theory Allocators
  imports Prelude
begin

text \<open>
  The \<open>Allocator\<close> interface (\<open>src/runtime/common/allocator.rs\<close>): its contract as a locale, the
  delegating \<open>DefaultAllocator\<close>, the \<open>TrackingAllocator\<close> around any other allocator and the
  \<open>AllocGuard\<close>. Device pointers and sizes are 64-bit words. The functions a \<open>DefaultAllocator\<close> is built
  from act on a backing store \<open>'w\<close> that the crate does not define. A lock is held for the whole of every
  operation, so operations are sequential steps; lock poisoning is not modelled.
\<close>

section \<open>Blocks of device memory\<close>

type_synonym ptr = "64 word"
type_synonym blocks = "ptr \<rightharpoonup> usize"

definition block_range :: "ptr \<Rightarrow> usize \<Rightarrow> nat set" where
  "block_range q n = {unat q..<unat q + unat n}"

text \<open>Blocks that can be live together: not empty, not at the null address, inside the address space, disjoint.\<close>

definition blocks_ok :: "blocks \<Rightarrow> bool" where
  "blocks_ok h \<longleftrightarrow>
     (\<forall>q n. h q = Some n \<longrightarrow> 0 < unat n \<and> 0 < unat q \<and> unat q + unat n \<le> 2 ^ 64) \<and>
     (\<forall>q n q' n'. h q = Some n \<longrightarrow> h q' = Some n' \<longrightarrow> q \<noteq> q' \<longrightarrow> block_range q n \<inter> block_range q' n' = {})"

definition block_bytes :: "blocks \<Rightarrow> nat" where
  "block_bytes h = (\<Sum>q \<in> dom h. unat (the (h q)))"

lemma blocks_okD: "blocks_ok h \<Longrightarrow> h q = Some n \<Longrightarrow> 0 < unat n \<and> 0 < unat q \<and> unat q + unat n \<le> 2 ^ 64"
  unfolding blocks_ok_def by blast

lemma blocks_disjointD:
  "blocks_ok h \<Longrightarrow> h q = Some n \<Longrightarrow> h q' = Some n' \<Longrightarrow> q \<noteq> q' \<Longrightarrow> block_range q n \<inter> block_range q' n' = {}"
  unfolding blocks_ok_def by blast

lemma finite_blocks [simp]: "finite (dom (h :: blocks))"
  by (rule finite_subset[of _ UNIV]) auto

lemma blocks_ok_submap: "blocks_ok h \<Longrightarrow> h' \<subseteq>\<^sub>m h \<Longrightarrow> blocks_ok h'"
  unfolding blocks_ok_def map_le_def by (metis domI)

lemma blocks_ok_empty [simp]: "blocks_ok Map.empty"
  by (simp add: blocks_ok_def)

lemma block_bytes_empty [simp]: "block_bytes Map.empty = 0"
  by (simp add: block_bytes_def)

lemma block_bytes_insert: "h q = None \<Longrightarrow> block_bytes (h(q \<mapsto> n)) = block_bytes h + unat n"
  by (auto simp: block_bytes_def domIff intro!: sum.cong)

lemma block_bytes_remove: "h q = Some n \<Longrightarrow> block_bytes (h(q := None)) = block_bytes h - unat n"
proof -
  assume q: "h q = Some n"
  have "block_bytes h = block_bytes ((h(q := None))(q \<mapsto> n))" using q by (metis fun_upd_triv fun_upd_upd)
  also have "\<dots> = block_bytes (h(q := None)) + unat n" by (rule block_bytes_insert) simp
  finally show ?thesis by simp
qed

lemma block_bytes_le: "h q = Some n \<Longrightarrow> unat n \<le> block_bytes h"
  using member_le_sum[of q "dom h" "\<lambda>q. unat (the (h q))"] by (auto simp: block_bytes_def)

lemma block_bytes_bound:
  assumes "blocks_ok h"
  shows "block_bytes h < 2 ^ 64"
proof -
  have "block_bytes h = (\<Sum>q \<in> dom h. card (block_range q (the (h q))))"
    by (simp add: block_bytes_def block_range_def)
  also have "\<dots> = card (\<Union>q \<in> dom h. block_range q (the (h q)))"
  proof (rule card_UN_disjoint[symmetric])
    show "\<forall>q \<in> dom h. finite (block_range q (the (h q)))" by (simp add: block_range_def)
    show "\<forall>q \<in> dom h. \<forall>q' \<in> dom h. q \<noteq> q' \<longrightarrow> block_range q (the (h q)) \<inter> block_range q' (the (h q')) = {}"
      using blocks_disjointD[OF assms] by fastforce
  qed simp
  also have "\<dots> \<le> card {1..<(2::nat) ^ 64}"
  proof (rule card_mono)
    show "(\<Union>q \<in> dom h. block_range q (the (h q))) \<subseteq> {1..<2 ^ 64}"
      using blocks_okD[OF assms] by (fastforce simp: block_range_def)
  qed simp
  finally show ?thesis by simp
qed

lemma block_count_le: "blocks_ok h \<Longrightarrow> card (dom h) \<le> block_bytes h"
proof -
  assume ok: "blocks_ok h"
  have "(\<Sum>q \<in> dom h. 1) \<le> block_bytes h"
    unfolding block_bytes_def
  proof (rule sum_mono)
    fix q assume "q \<in> dom h"
    with blocks_okD[OF ok] show "1 \<le> unat (the (h q))" by (auto simp: Suc_le_eq)
  qed
  then show ?thesis by simp
qed

section \<open>The interface\<close>

datatype alloc_error = OutOfMemory usize | AllocatorFrozen | AllocatorBusy usize | Internal

text \<open>
  \<open>rel p s h\<close>: with parameters \<open>p\<close>, in state \<open>s\<close> the callers hold exactly the blocks \<open>h\<close>. An allocation
  hands out a block that overlaps nothing held, an error changes nothing the callers hold, and a
  deallocation of a held block with its own size takes back that block and no other. Requests are
  below \<open>isize::MAX\<close>, the largest object Rust can address.
\<close>

locale allocator =
  fixes rel :: "'p \<Rightarrow> 's \<Rightarrow> blocks \<Rightarrow> bool"
    and alloc :: "'p \<Rightarrow> usize \<Rightarrow> 's \<Rightarrow> (alloc_error + ptr) \<times> 's"
    and dealloc :: "'p \<Rightarrow> ptr \<Rightarrow> usize \<Rightarrow> 's \<Rightarrow> 's"
  assumes rel_blocks: "rel p s h \<Longrightarrow> blocks_ok h"
    and alloc_ok: "rel p s h \<Longrightarrow> 0 < unat n \<Longrightarrow> unat n < 2 ^ 63 \<Longrightarrow> alloc p n s = (Inr q, s') \<Longrightarrow>
      h q = None \<and> rel p s' (h(q \<mapsto> n))"
    and alloc_error: "rel p s h \<Longrightarrow> 0 < unat n \<Longrightarrow> unat n < 2 ^ 63 \<Longrightarrow> alloc p n s = (Inl e, s') \<Longrightarrow> rel p s' h"
    and dealloc_held: "rel p s h \<Longrightarrow> h q = Some n \<Longrightarrow> rel p (dealloc p q n s) (h(q := None))"
begin

lemma fresh_disjoint:
  assumes "rel p s h" and "0 < unat n" and "unat n < 2 ^ 63" and "alloc p n s = (Inr q, s')" and "h q' = Some n'"
  shows "block_range q n \<inter> block_range q' n' = {}"
proof -
  have q: "h q = None" "rel p s' (h(q \<mapsto> n))" using alloc_ok[OF assms(1-4)] by auto
  then have "q \<noteq> q'" using assms(5) by auto
  then show ?thesis using blocks_disjointD[OF rel_blocks[OF q(2)], of q n q' n'] assms(5) by simp
qed

end

section \<open>DefaultAllocator\<close>

record ('d, 'w) default_allocator =
  device :: 'd
  allocate_fn :: "usize \<Rightarrow> 'd \<Rightarrow> 'w \<Rightarrow> (alloc_error + ptr) \<times> 'w"
  deallocate_fn :: "ptr \<Rightarrow> usize \<Rightarrow> 'd \<Rightarrow> 'w \<Rightarrow> 'w"

definition default_new :: "'d \<Rightarrow> (usize \<Rightarrow> 'd \<Rightarrow> 'w \<Rightarrow> (alloc_error + ptr) \<times> 'w) \<Rightarrow> (ptr \<Rightarrow> usize \<Rightarrow> 'd \<Rightarrow> 'w \<Rightarrow> 'w) \<Rightarrow>
    ('d, 'w) default_allocator" where
  "default_new dev afn dfn = \<lparr>device = dev, allocate_fn = afn, deallocate_fn = dfn\<rparr>"

definition default_allocate :: "('d, 'w) default_allocator \<Rightarrow> usize \<Rightarrow> 'w \<Rightarrow> (alloc_error + ptr) \<times> 'w" where
  "default_allocate a size_bytes w = allocate_fn a size_bytes (device a) w"

definition default_deallocate :: "('d, 'w) default_allocator \<Rightarrow> ptr \<Rightarrow> usize \<Rightarrow> 'w \<Rightarrow> 'w" where
  "default_deallocate a q size_bytes w = deallocate_fn a q size_bytes (device a) w"

text \<open>What the allocator relies on: the functions it was given serve blocks as a heap does.\<close>

definition heap_functions :: "(usize \<Rightarrow> 'w \<Rightarrow> (alloc_error + ptr) \<times> 'w) \<Rightarrow> (ptr \<Rightarrow> usize \<Rightarrow> 'w \<Rightarrow> 'w) \<Rightarrow> ('w \<Rightarrow> blocks) \<Rightarrow> bool" where
  "heap_functions afn dfn live \<longleftrightarrow> (\<forall>w. blocks_ok (live w) \<longrightarrow>
     (\<forall>n q w'. 0 < unat n \<longrightarrow> unat n < 2 ^ 63 \<longrightarrow> afn n w = (Inr q, w') \<longrightarrow>
        live w q = None \<and> live w' = (live w)(q \<mapsto> n) \<and> blocks_ok (live w')) \<and>
     (\<forall>n e w'. 0 < unat n \<longrightarrow> unat n < 2 ^ 63 \<longrightarrow> afn n w = (Inl e, w') \<longrightarrow> live w' = live w) \<and>
     (\<forall>q n. live w q = Some n \<longrightarrow> live (dfn q n w) = (live w)(q := None)))"

lemma heap_functionsD:
  assumes "heap_functions afn dfn live" and "blocks_ok (live w)"
  shows "0 < unat n \<Longrightarrow> unat n < 2 ^ 63 \<Longrightarrow> afn n w = (Inr q, w') \<Longrightarrow>
      live w q = None \<and> live w' = (live w)(q \<mapsto> n) \<and> blocks_ok ((live w)(q \<mapsto> n))"
    and "0 < unat n \<Longrightarrow> unat n < 2 ^ 63 \<Longrightarrow> afn n w = (Inl e, w') \<Longrightarrow> live w' = live w"
    and "live w q = Some n \<Longrightarrow> live (dfn q n w) = (live w)(q := None)"
  using assms unfolding heap_functions_def by (metis, blast, blast)

definition default_rel :: "('d, 'w) default_allocator \<times> ('w \<Rightarrow> blocks) \<Rightarrow> 'w \<Rightarrow> blocks \<Rightarrow> bool" where
  "default_rel p w h \<longleftrightarrow> heap_functions (default_allocate (fst p)) (default_deallocate (fst p)) (snd p) \<and>
     snd p w = h \<and> blocks_ok h"

interpretation default_alloc: allocator default_rel "\<lambda>p. default_allocate (fst p)" "\<lambda>p. default_deallocate (fst p)"
proof
  fix p :: "('d, 'w) default_allocator \<times> ('w \<Rightarrow> blocks)" and w w' h n q e
  assume r: "default_rel p w h"
  then have ok: "blocks_ok (snd p w)" "snd p w = h"
    and heap: "heap_functions (default_allocate (fst p)) (default_deallocate (fst p)) (snd p)"
    by (auto simp: default_rel_def)
  show "blocks_ok h" using r by (simp add: default_rel_def)
  show "h q = None \<and> default_rel p w' (h(q \<mapsto> n))"
    if "0 < unat n" "unat n < 2 ^ 63" "default_allocate (fst p) n w = (Inr q, w')"
    using heap_functionsD(1)[OF heap ok(1) that] heap ok(2) by (simp add: default_rel_def)
  show "default_rel p w' h"
    if "0 < unat n" "unat n < 2 ^ 63" "default_allocate (fst p) n w = (Inl e, w')"
    using heap_functionsD(2)[OF heap ok(1) that] heap ok by (simp add: default_rel_def)
  show "default_rel p (default_deallocate (fst p) q n w) (h(q := None))" if "h q = Some n"
  proof -
    have "snd p (default_deallocate (fst p) q n w) = h(q := None)"
      using heap_functionsD(3)[OF heap ok(1), of q n] ok(2) that by simp
    moreover have "h(q := None) \<subseteq>\<^sub>m h" by (simp add: map_le_def)
    ultimately show ?thesis using heap ok blocks_ok_submap[of h "h(q := None)"] by (simp add: default_rel_def)
  qed
qed

section \<open>TrackingAllocator\<close>

record 'i tracking_state =
  inner :: 'i
  total_allocations :: usize
  total_bytes :: usize
  active_allocations :: usize
  active_bytes :: usize
  peak_usage :: usize
  frozen :: bool

record allocation_stats =
  st_total_allocations :: usize
  st_total_bytes :: usize
  st_active_allocations :: usize
  st_is_frozen :: bool
  st_peak_usage :: usize

definition saturating_sub :: "usize \<Rightarrow> usize \<Rightarrow> usize" where
  "saturating_sub a b = (if a < b then 0 else a - b)"

definition tracking_new :: "'i \<Rightarrow> 'i tracking_state" where
  "tracking_new i = \<lparr>inner = i, total_allocations = 0, total_bytes = 0, active_allocations = 0,
     active_bytes = 0, peak_usage = 0, frozen = False\<rparr>"

definition tracking_allocate :: "(usize \<Rightarrow> 'i \<Rightarrow> (alloc_error + ptr) \<times> 'i) \<Rightarrow> usize \<Rightarrow> 'i tracking_state \<Rightarrow>
    (alloc_error + ptr) \<times> 'i tracking_state" where
  "tracking_allocate inner_allocate size_bytes s =
     (if frozen s then (Inl AllocatorFrozen, s)
      else case inner_allocate size_bytes (inner s) of
        (Inl e, i) \<Rightarrow> (Inl e, s\<lparr>inner := i\<rparr>)
      | (Inr q, i) \<Rightarrow>
          let s = s\<lparr>inner := i, total_allocations := total_allocations s + 1,
                total_bytes := total_bytes s + size_bytes, active_allocations := active_allocations s + 1,
                active_bytes := active_bytes s + size_bytes\<rparr>
          in (Inr q, if peak_usage s < active_bytes s then s\<lparr>peak_usage := active_bytes s\<rparr> else s))"

definition tracking_deallocate :: "(ptr \<Rightarrow> usize \<Rightarrow> 'i \<Rightarrow> 'i) \<Rightarrow> ptr \<Rightarrow> usize \<Rightarrow> 'i tracking_state \<Rightarrow> 'i tracking_state" where
  "tracking_deallocate inner_deallocate q size_bytes s =
     s\<lparr>inner := inner_deallocate q size_bytes (inner s),
       active_allocations := saturating_sub (active_allocations s) 1,
       active_bytes := saturating_sub (active_bytes s) size_bytes\<rparr>"

definition tracking_freeze :: "'i tracking_state \<Rightarrow> bool \<times> 'i tracking_state" where
  "tracking_freeze s = (True, s\<lparr>frozen := True\<rparr>)"

definition tracking_unfreeze :: "'i tracking_state \<Rightarrow> 'i tracking_state" where
  "tracking_unfreeze s = s\<lparr>frozen := False\<rparr>"

definition tracking_is_frozen :: "'i tracking_state \<Rightarrow> bool" where
  "tracking_is_frozen s = frozen s"

definition tracking_allocated_bytes :: "'i tracking_state \<Rightarrow> usize" where
  "tracking_allocated_bytes s = active_bytes s"

definition tracking_stats :: "'i tracking_state \<Rightarrow> allocation_stats" where
  "tracking_stats s = \<lparr>st_total_allocations = total_allocations s, st_total_bytes = total_bytes s,
     st_active_allocations = active_allocations s, st_is_frozen = frozen s, st_peak_usage = peak_usage s\<rparr>"

definition tracking_reset :: "'i tracking_state \<Rightarrow> (alloc_error + unit) \<times> 'i tracking_state" where
  "tracking_reset s =
     (if 0 < active_allocations s then (Inl (AllocatorBusy (active_allocations s)), s)
      else (Inr (), s\<lparr>total_allocations := 0, total_bytes := 0, active_bytes := 0, peak_usage := 0\<rparr>))"

text \<open>A tracking allocator around any allocator is an allocator, and its counters describe what is held.\<close>

definition counts_held :: "'i tracking_state \<Rightarrow> blocks \<Rightarrow> bool" where
  "counts_held s h \<longleftrightarrow> unat (active_allocations s) = card (dom h) \<and> unat (active_bytes s) = block_bytes h \<and>
     active_bytes s \<le> peak_usage s"

lemma counts_held_bounds:
  assumes "blocks_ok h"
  shows "card (dom h) < 2 ^ 64" and "block_bytes h < 2 ^ 64"
  using block_bytes_bound[OF assms] block_count_le[OF assms] by linarith+

lemma unat_add_exact: "unat a + unat b < 2 ^ 64 \<Longrightarrow> unat (a + b) = unat a + unat b" for a b :: usize
  by (subst unat_add_lem[symmetric]) simp

lemma unat_eq_of_nat: "unat a = k \<Longrightarrow> a = of_nat k" for a :: usize
  by auto

lemma unat_saturating_sub: "unat (saturating_sub a b) = unat a - unat b"
  by (auto simp: saturating_sub_def unat_sub word_less_nat_alt not_less word_le_nat_alt)

lemma tracking_allocate_cases:
  assumes "tracking_allocate ia n s = (r, s')"
  obtains (frozen) "frozen s" "r = Inl AllocatorFrozen" "s' = s"
    | (error) e i where "\<not> frozen s" "ia n (inner s) = (Inl e, i)" "r = Inl e" "s' = s\<lparr>inner := i\<rparr>"
    | (ok) q i where "\<not> frozen s" "ia n (inner s) = (Inr q, i)" "r = Inr q" "inner s' = i"
        "total_allocations s' = total_allocations s + 1" "total_bytes s' = total_bytes s + n"
        "active_allocations s' = active_allocations s + 1" "active_bytes s' = active_bytes s + n"
        "peak_usage s' = max (peak_usage s) (active_bytes s + n)" "frozen s' = frozen s"
  using assms
  by (auto simp: tracking_allocate_def Let_def max_def not_less less_imp_le split: if_splits prod.splits sum.splits)

lemma counts_held_alloc:
  assumes c: "counts_held s h" and ok: "blocks_ok (h(q \<mapsto> n))" and q: "h q = None"
    and s': "active_allocations s' = active_allocations s + 1" "active_bytes s' = active_bytes s + n"
      "peak_usage s' = max (peak_usage s) (active_bytes s + n)"
  shows "counts_held s' (h(q \<mapsto> n))"
proof -
  note b = counts_held_bounds[OF ok]
  have "q \<notin> dom h" using q by blast
  then have "unat (active_allocations s) + unat (1 :: usize) < 2 ^ 64"
    using c b(1) by (simp add: counts_held_def)
  moreover have "unat (active_bytes s) + unat n < 2 ^ 64"
    using c b(2) block_bytes_insert[of h q n, OF q] by (simp add: counts_held_def)
  ultimately show ?thesis
    using c s' \<open>q \<notin> dom h\<close> block_bytes_insert[of h q n, OF q]
    by (simp add: counts_held_def unat_add_exact)
qed

lemma counts_held_dealloc:
  assumes c: "counts_held s h" and q: "h q = Some n"
  shows "counts_held (tracking_deallocate idl q n s) (h(q := None))"
proof -
  have "q \<in> dom h" using q by blast
  moreover have "active_bytes (tracking_deallocate idl q n s) \<le> active_bytes s"
    by (simp add: tracking_deallocate_def word_le_nat_alt unat_saturating_sub)
  ultimately show ?thesis
    using c block_bytes_remove[of h q n, OF q]
    by (auto simp: counts_held_def tracking_deallocate_def unat_saturating_sub card_Diff_singleton)
qed

locale tracked_allocator = allocator rel alloc dealloc
  for rel :: "'p \<Rightarrow> 's \<Rightarrow> blocks \<Rightarrow> bool" and alloc dealloc

sublocale tracked_allocator \<subseteq> tracked: allocator "\<lambda>p s h. rel p (inner s) h \<and> counts_held s h"
  "\<lambda>p. tracking_allocate (alloc p)" "\<lambda>p. tracking_deallocate (dealloc p)"
proof
  fix p :: 'p and s s' :: "'s tracking_state" and h n q e
  assume r: "rel p (inner s) h \<and> counts_held s h"
  then show "blocks_ok h" using rel_blocks by blast
  show "h q = None \<and> rel p (inner s') (h(q \<mapsto> n)) \<and> counts_held s' (h(q \<mapsto> n))"
    if n: "0 < unat n" "unat n < 2 ^ 63" and a: "tracking_allocate (alloc p) n s = (Inr q, s')"
    using a
  proof (cases rule: tracking_allocate_cases)
    case (ok q' i)
    then have h: "h q = None" "rel p (inner s') (h(q \<mapsto> n))" using alloc_ok[of p "inner s" h n q i] r n by auto
    with ok r counts_held_alloc[OF _ rel_blocks[OF h(2)]] show ?thesis by blast
  qed simp_all
  show "rel p (inner s') h \<and> counts_held s' h"
    if n: "0 < unat n" "unat n < 2 ^ 63" and a: "tracking_allocate (alloc p) n s = (Inl e, s')"
    using a
  proof (cases rule: tracking_allocate_cases)
    case frozen
    with r show ?thesis by simp
  next
    case (error e' i)
    with r n show ?thesis using alloc_error[of p "inner s" h n e i] by (auto simp: counts_held_def)
  qed simp
  show "rel p (inner (tracking_deallocate (dealloc p) q n s)) (h(q := None)) \<and>
      counts_held (tracking_deallocate (dealloc p) q n s) (h(q := None))" if "h q = Some n"
    using r that dealloc_held counts_held_dealloc[of s h q n "dealloc p"]
    by (simp add: tracking_deallocate_def[of _ _ _ s, THEN arg_cong[where f = inner]])
qed

interpretation tracked_default: tracked_allocator default_rel "\<lambda>p. default_allocate (fst p)"
  "\<lambda>p. default_deallocate (fst p)"
  by unfold_locales

section \<open>What the statistics mean\<close>

text \<open>
  Every sequence of calls on a tracking allocator over an inner allocator: \<open>h\<close> are the blocks callers
  hold, and since the last reset \<open>c\<close> allocations succeeded, for \<open>b\<close> bytes, with at most \<open>m\<close> bytes held
  at once.
\<close>

inductive tracking_run :: "(usize \<Rightarrow> 'i \<Rightarrow> (alloc_error + ptr) \<times> 'i) \<Rightarrow> (ptr \<Rightarrow> usize \<Rightarrow> 'i \<Rightarrow> 'i) \<Rightarrow> 'i \<Rightarrow>
    'i tracking_state \<Rightarrow> blocks \<Rightarrow> nat \<Rightarrow> nat \<Rightarrow> nat \<Rightarrow> bool" for ia idl i0 where
  start: "tracking_run ia idl i0 (tracking_new i0) Map.empty 0 0 0"
| alloc: "tracking_run ia idl i0 s h c b m \<Longrightarrow> 0 < unat n \<Longrightarrow> unat n < 2 ^ 63 \<Longrightarrow>
    tracking_allocate ia n s = (Inr q, s') \<Longrightarrow>
    tracking_run ia idl i0 s' (h(q \<mapsto> n)) (c + 1) (b + unat n) (max m (block_bytes (h(q \<mapsto> n))))"
| alloc_fail: "tracking_run ia idl i0 s h c b m \<Longrightarrow> 0 < unat n \<Longrightarrow> unat n < 2 ^ 63 \<Longrightarrow>
    tracking_allocate ia n s = (Inl e, s') \<Longrightarrow> tracking_run ia idl i0 s' h c b m"
| dealloc: "tracking_run ia idl i0 s h c b m \<Longrightarrow> h q = Some n \<Longrightarrow>
    tracking_run ia idl i0 (tracking_deallocate idl q n s) (h(q := None)) c b m"
| freeze: "tracking_run ia idl i0 s h c b m \<Longrightarrow> tracking_run ia idl i0 (snd (tracking_freeze s)) h c b m"
| unfreeze: "tracking_run ia idl i0 s h c b m \<Longrightarrow> tracking_run ia idl i0 (tracking_unfreeze s) h c b m"
| reset: "tracking_run ia idl i0 s h c b m \<Longrightarrow> tracking_reset s = (Inr (), s') \<Longrightarrow> tracking_run ia idl i0 s' h 0 0 0"
| reset_busy: "tracking_run ia idl i0 s h c b m \<Longrightarrow> tracking_reset s = (Inl e, s') \<Longrightarrow> tracking_run ia idl i0 s' h c b m"

definition stats_exact :: "'i tracking_state \<Rightarrow> blocks \<Rightarrow> nat \<Rightarrow> nat \<Rightarrow> nat \<Rightarrow> bool" where
  "stats_exact s h c b m \<longleftrightarrow> counts_held s h \<and> total_allocations s = of_nat c \<and> total_bytes s = of_nat b \<and>
     unat (peak_usage s) = m \<and> block_bytes h \<le> m"

lemma tracking_allocate_fail_stats:
  "tracking_allocate ia n s = (Inl e, s') \<Longrightarrow> s' = s\<lparr>inner := inner s'\<rparr>"
  by (auto simp: tracking_allocate_def Let_def split: if_splits prod.splits sum.splits)

lemma stats_exact_inner [simp]: "stats_exact (s\<lparr>inner := i\<rparr>) h c b m = stats_exact s h c b m"
  by (simp add: stats_exact_def counts_held_def)

lemma stats_exact_frozen [simp]: "stats_exact (s\<lparr>frozen := f\<rparr>) h c b m = stats_exact s h c b m"
  by (simp add: stats_exact_def counts_held_def)

lemma stats_exact_alloc:
  assumes c: "stats_exact s h c b m" and ok: "blocks_ok (h(q \<mapsto> n))" and q: "h q = None"
    and a: "tracking_allocate ia n s = (Inr q, s')"
  shows "stats_exact s' (h(q \<mapsto> n)) (c + 1) (b + unat n) (max m (block_bytes (h(q \<mapsto> n))))"
  using a
proof (cases rule: tracking_allocate_cases)
  case (ok q' i)
  have held: "counts_held s' (h(q \<mapsto> n))"
    by (rule counts_held_alloc[OF _ assms(2) q]) (use c ok in \<open>auto simp: stats_exact_def\<close>)
  have "unat (active_bytes s + n) = block_bytes (h(q \<mapsto> n))" using held ok by (simp add: counts_held_def)
  then have "unat (max (peak_usage s) (active_bytes s + n)) = max (unat (peak_usage s)) (block_bytes (h(q \<mapsto> n)))"
    by (auto simp: max_def word_le_nat_alt)
  with held c ok show ?thesis by (simp add: stats_exact_def)
qed simp_all

lemma stats_exact_dealloc:
  assumes c: "stats_exact s h c b m" and q: "h q = Some n"
  shows "stats_exact (tracking_deallocate idl q n s) (h(q := None)) c b m"
  using c counts_held_dealloc[of s h q n idl, OF _ q] block_bytes_remove[of h q n, OF q]
  by (auto simp: stats_exact_def tracking_deallocate_def)

lemma tracking_reset_iff:
  assumes "counts_held s h" and "blocks_ok h"
  shows "fst (tracking_reset s) = (if h = Map.empty then Inr () else Inl (AllocatorBusy (of_nat (card (dom h)))))"
proof -
  have "active_allocations s = of_nat (card (dom h))"
    using assms by (metis counts_held_def unat_eq_of_nat)
  moreover have "h = Map.empty \<longleftrightarrow> card (dom h) = 0" by auto
  moreover have "0 < active_allocations s \<longleftrightarrow> card (dom h) \<noteq> 0"
    using assms(1) by (simp add: counts_held_def word_less_nat_alt card_gt_0_iff)
  ultimately show ?thesis by (simp add: tracking_reset_def)
qed

context tracked_allocator
begin

lemma run_exact:
  assumes "rel p i0 Map.empty" and "tracking_run (alloc p) (dealloc p) i0 s h c b m"
  shows "rel p (inner s) h \<and> stats_exact s h c b m"
  using assms(2)
proof induction
  case start
  then show ?case using assms(1) by (simp add: tracking_new_def stats_exact_def counts_held_def)
next
  case (alloc s h c b m n q s')
  then have "rel p (inner s) h \<and> counts_held s h" by (simp add: stats_exact_def)
  from tracked.alloc_ok[OF this alloc(2-4)] have "h q = None" "rel p (inner s') (h(q \<mapsto> n))" by auto
  with alloc stats_exact_alloc[OF _ rel_blocks] show ?case by blast
next
  case (alloc_fail s h c b m n e s')
  then have "rel p (inner s) h \<and> counts_held s h" by (simp add: stats_exact_def)
  from tracked.alloc_error[OF this alloc_fail(2-4)] have "rel p (inner s') h" by simp
  then show ?case
    using alloc_fail.IH tracking_allocate_fail_stats[OF alloc_fail(4)] stats_exact_inner by metis
next
  case (dealloc s h c b m q n)
  then have "rel p (inner s) h \<and> counts_held s h" by (simp add: stats_exact_def)
  from tracked.dealloc_held[OF this dealloc(2)] stats_exact_dealloc[of s h c b m q n]
    dealloc.hyps dealloc.IH
  show ?case by blast
next
  case (reset s h c b m s')
  then have ch: "counts_held s h" "blocks_ok h" using rel_blocks by (auto simp: stats_exact_def)
  from tracking_reset_iff[OF this] reset(2) have "h = Map.empty" by (auto split: if_splits)
  then show ?case
    using reset ch by (auto simp: tracking_reset_def stats_exact_def counts_held_def split: if_splits)
next
  case (reset_busy s h c b m e s')
  then show ?case by (auto simp: tracking_reset_def split: if_splits)
qed (simp_all add: tracking_freeze_def tracking_unfreeze_def)

end

text \<open>
  C12. The statistics of a tracking allocator are exact. After any sequence of allocations (served,
  failed or refused because frozen), deallocations of held blocks, freezes, unfreezes and resets on a
  tracking allocator over a default allocator whose functions serve disjoint blocks, the statistics
  are the numbers of allocations and bytes since the last reset, of blocks held now and the largest
  number of bytes held at once; the blocks held never overlap; and \<open>reset\<close> succeeds exactly when
  nothing is held.
\<close>

theorem tracking_stats_exact:
  assumes "heap_functions (default_allocate a) (default_deallocate a) live" and "live w = Map.empty"
    and "tracking_run (default_allocate a) (default_deallocate a) w s h c b m"
  shows "blocks_ok h
    \<and> tracking_stats s = \<lparr>st_total_allocations = of_nat c, st_total_bytes = of_nat b,
        st_active_allocations = of_nat (card (dom h)), st_is_frozen = frozen s, st_peak_usage = of_nat m\<rparr>
    \<and> tracking_allocated_bytes s = of_nat (block_bytes h)
    \<and> fst (tracking_reset s) = (if h = Map.empty then Inr () else Inl (AllocatorBusy (of_nat (card (dom h)))))"
proof -
  have "default_rel (a, live) w Map.empty" using assms(1,2) by (simp add: default_rel_def)
  from tracked_default.run_exact[OF this, simplified fst_conv, OF assms(3)]
  have r: "default_rel (a, live) (inner s) h" "stats_exact s h c b m" by auto
  then have ok: "blocks_ok h" "counts_held s h" by (auto simp: default_rel_def stats_exact_def)
  have "active_allocations s = of_nat (card (dom h))" "active_bytes s = of_nat (block_bytes h)"
    "peak_usage s = of_nat m"
    using ok(2) r(2) by (auto simp: stats_exact_def counts_held_def intro!: unat_eq_of_nat)
  then show ?thesis
    using ok(1) r(2) tracking_reset_iff[OF ok(2,1)]
    by (simp add: tracking_stats_def tracking_allocated_bytes_def stats_exact_def)
qed

text \<open>A small heap that serves blocks one after the other, for concrete runs.\<close>

definition bump_end :: "(ptr \<times> usize) list \<Rightarrow> nat" where
  "bump_end w = foldr (\<lambda>(q, n). max (unat q + unat n)) w 1"

definition bump_alloc :: "usize \<Rightarrow> (ptr \<times> usize) list \<Rightarrow> (alloc_error + ptr) \<times> (ptr \<times> usize) list" where
  "bump_alloc n w =
     (if bump_end w + unat n \<le> 2 ^ 64 then (Inr (of_nat (bump_end w)), (of_nat (bump_end w), n) # w)
      else (Inl (OutOfMemory n), w))"

definition bump_free :: "ptr \<Rightarrow> usize \<Rightarrow> (ptr \<times> usize) list \<Rightarrow> (ptr \<times> usize) list" where
  "bump_free q n w = filter (\<lambda>b. fst b \<noteq> q) w"

lemma bump_end_ge: "map_of w q = Some n \<Longrightarrow> unat q + unat n \<le> bump_end w"
  by (induction w) (auto simp: bump_end_def split: if_splits)

lemma bump_end_pos: "1 \<le> bump_end w"
  by (induction w) (auto simp: bump_end_def)

lemma map_of_bump_free: "map_of (bump_free q n w) = (map_of w)(q := None)"
  by (induction w) (auto simp: bump_free_def fun_eq_iff)

lemma bump_alloc_block:
  assumes ok: "blocks_ok (map_of w)" and n: "0 < unat n" and fits: "bump_end w + unat n \<le> 2 ^ 64"
  defines "q \<equiv> of_nat (bump_end w) :: ptr"
  shows "map_of w q = None" and "blocks_ok ((map_of w)(q \<mapsto> n))"
proof -
  have "bump_end w < 2 ^ 64" using n fits by linarith
  then have q: "unat q = bump_end w" unfolding q_def by (simp add: unat_of_nat)
  show none: "map_of w q = None"
  proof (rule ccontr)
    assume "map_of w q \<noteq> None"
    then obtain n' where q': "map_of w q = Some n'" by blast
    with bump_end_ge[OF this] blocks_okD[OF ok this] q show False by simp
  qed
  have dis: "block_range q n \<inter> block_range q' n' = {}" if "map_of w q' = Some n'" for q' n'
    using bump_end_ge[OF that] by (auto simp: block_range_def q)
  show "blocks_ok ((map_of w)(q \<mapsto> n))"
    using n fits bump_end_pos[of w] blocks_okD[OF ok] blocks_disjointD[OF ok] dis
    unfolding blocks_ok_def by (auto simp: q Int_commute)
qed

lemma bump_heap: "heap_functions bump_alloc bump_free map_of"
  unfolding heap_functions_def
  using bump_alloc_block by (auto simp: bump_alloc_def map_of_bump_free split: if_splits)

lemma tracking_stats_exact_witness:
  "tracking_stats (snd (tracking_allocate bump_alloc 24 (tracking_deallocate bump_free 1 100
      (snd (tracking_allocate bump_alloc 100 (tracking_new []))))))
    = \<lparr>st_total_allocations = 2, st_total_bytes = 124, st_active_allocations = 1, st_is_frozen = False, st_peak_usage = 100\<rparr>"
proof -
  define a where "a = default_new () (\<lambda>n _. bump_alloc n) (\<lambda>q n _. bump_free q n)"
  have a: "default_allocate a = bump_alloc" "default_deallocate a = bump_free"
    by (simp_all add: a_def default_new_def default_allocate_def default_deallocate_def fun_eq_iff)
  note ev = tracking_allocate_def tracking_deallocate_def tracking_new_def bump_alloc_def bump_free_def bump_end_def
    saturating_sub_def
  define s1 where "s1 = snd (tracking_allocate bump_alloc 100 (tracking_new []))"
  define s2 where "s2 = tracking_deallocate bump_free 1 100 s1"
  define s3 where "s3 = snd (tracking_allocate bump_alloc 24 s2)"
  have e1: "tracking_allocate bump_alloc 100 (tracking_new []) = (Inr 1, s1)" by (simp add: s1_def ev)
  have e3: "tracking_allocate bump_alloc 24 s2 = (Inr 1, s3)" by (simp add: s3_def s2_def s1_def ev)
  have r1: "tracking_run bump_alloc bump_free [] s1 [1 \<mapsto> 100] 1 100 100"
    using tracking_run.alloc[OF tracking_run.start _ _ e1] by (simp add: block_bytes_insert)
  then have "tracking_run bump_alloc bump_free [] s2 Map.empty 1 100 100"
    using tracking_run.dealloc[OF r1, of 1 100] by (simp add: s2_def)
  from tracking_run.alloc[OF this _ _ e3]
  have "tracking_run bump_alloc bump_free [] s3 [1 \<mapsto> 24] (Suc 1) 124 100" by (simp add: block_bytes_insert)
  then have "tracking_stats s3 = \<lparr>st_total_allocations = of_nat 2, st_total_bytes = of_nat 124,
        st_active_allocations = of_nat (card (dom [1 \<mapsto> (24 :: usize)])), st_is_frozen = frozen s3, st_peak_usage = of_nat 100\<rparr>"
    using tracking_stats_exact[of a map_of "[]" s3 "[1 \<mapsto> 24]" "Suc 1" 124 100] bump_heap by (simp add: a)
  moreover have "\<not> frozen s3" by (simp add: s3_def s2_def s1_def ev)
  ultimately show ?thesis by (simp add: s3_def s2_def s1_def)
qed

section \<open>AllocGuard\<close>

record alloc_guard =
  g_ptr :: ptr
  g_size :: usize
  g_released :: bool

definition guard_new :: "(usize \<Rightarrow> 's \<Rightarrow> (alloc_error + ptr) \<times> 's) \<Rightarrow> usize \<Rightarrow> 's \<Rightarrow> (alloc_error + alloc_guard) \<times> 's" where
  "guard_new allocate size_bytes s =
     (case allocate size_bytes s of
        (Inl e, s) \<Rightarrow> (Inl e, s)
      | (Inr q, s) \<Rightarrow> (Inr \<lparr>g_ptr = q, g_size = size_bytes, g_released = False\<rparr>, s))"

definition guard_release :: "alloc_guard \<Rightarrow> ptr \<times> alloc_guard" where
  "guard_release g = (g_ptr g, g\<lparr>g_released := True\<rparr>)"

definition guard_drop :: "(ptr \<Rightarrow> usize \<Rightarrow> 's \<Rightarrow> 's) \<Rightarrow> alloc_guard \<Rightarrow> 's \<Rightarrow> 's" where
  "guard_drop deallocate g s = (if \<not> g_released g \<and> g_ptr g \<noteq> 0 then deallocate (g_ptr g) (g_size g) s else s)"

context allocator
begin

text \<open>A guard that goes out of scope gives its block back; a released one leaves it to the caller.\<close>

lemma guard_scope:
  assumes r: "rel p s h" and n: "0 < unat n" "unat n < 2 ^ 63" and g: "guard_new (alloc p) n s = (Inr g, s')"
  shows "h (g_ptr g) = None" and "rel p (guard_drop (dealloc p) g s') h"
    and "rel p (guard_drop (dealloc p) (snd (guard_release g)) s') (h(fst (guard_release g) \<mapsto> n))"
proof -
  obtain q where a: "alloc p n s = (Inr q, s')" and g': "g = \<lparr>g_ptr = q, g_size = n, g_released = False\<rparr>"
    using g by (auto simp: guard_new_def split: prod.splits sum.splits)
  have q: "h q = None" "rel p s' (h(q \<mapsto> n))" using alloc_ok[OF r n a] by auto
  have "q \<noteq> 0" using blocks_okD[OF rel_blocks[OF q(2)], of q n] by auto
  moreover have "rel p (dealloc p q n s') h"
    using dealloc_held[OF q(2), of q n] q(1) by (simp add: fun_upd_idem)
  ultimately show "h (g_ptr g) = None" "rel p (guard_drop (dealloc p) g s') h"
    "rel p (guard_drop (dealloc p) (snd (guard_release g)) s') (h(fst (guard_release g) \<mapsto> n))"
    using q by (simp_all add: g' guard_drop_def guard_release_def)
qed

end

end
