(* ===== verification/Cuda_Allocator.thy ===== *)
theory Cuda_Allocator
  imports Allocators "HOL-Library.AList"
begin

text \<open>
  The stream-ordered CUDA allocator (\<open>src/runtime/cuda/allocator.rs\<close>) with its free list, its freeze
  windows for graph capture and the bump-pointer arena (\<open>src/runtime/cuda/arena.rs\<close>). The driver calls
  \<open>cuMemAllocAsync\<close>, \<open>cuMemFreeAsync\<close>, stream synchronisation and \<open>cuMemPoolTrimTo\<close> are parameters that
  act on a driver state \<open>'d\<close>. The hash map of the free list is an association list: the source fixes no
  iteration order and no lemma depends on one.
\<close>

unbundle bit_operations_syntax

section \<open>The arena\<close>

record cuda_arena =
  a_base :: ptr
  a_size :: usize
  high_water :: usize
  live_regions :: "(usize \<times> usize) list"

definition arena_new :: "ptr \<Rightarrow> usize \<Rightarrow> cuda_arena" where
  "arena_new base sz = \<lparr>a_base = base, a_size = sz, high_water = 0, live_regions = []\<rparr>"

definition align_up :: "usize \<Rightarrow> usize" where
  "align_up n = (n + 256 - 1) AND NOT (256 - 1)"

definition arena_allocate :: "usize \<Rightarrow> cuda_arena \<Rightarrow> (alloc_error + ptr) \<times> cuda_arena" where
  "arena_allocate size_bytes a =
     (let aligned = align_up (max size_bytes 1)
      in if a_size a < high_water a + aligned then (Inl (OutOfMemory size_bytes), a)
         else let offset = high_water a
              in (Inr (a_base a + offset),
                  a\<lparr>high_water := high_water a + aligned, live_regions := live_regions a @ [(offset, aligned)]\<rparr>))"

text \<open>\<open>rposition\<close> and \<open>remove\<close>: the last region with the offset goes.\<close>

fun remove_last_region :: "usize \<Rightarrow> (usize \<times> usize) list \<Rightarrow> (usize \<times> usize) list" where
  "remove_last_region offset [] = []"
| "remove_last_region offset (r # rs) =
     (if fst r = offset \<and> offset \<notin> fst ` set rs then rs else r # remove_last_region offset rs)"

definition arena_deallocate :: "ptr \<Rightarrow> cuda_arena \<Rightarrow> cuda_arena" where
  "arena_deallocate q a =
     (if q < a_base a then a else a\<lparr>live_regions := remove_last_region (q - a_base a) (live_regions a)\<rparr>)"

section \<open>The free list\<close>

record free_list =
  fl_map :: "(usize \<times> ptr list) list"
  fl_total :: usize

definition fl_empty :: free_list where "fl_empty = \<lparr>fl_map = [], fl_total = 0\<rparr>"

definition bucket_set :: "usize \<Rightarrow> ptr list \<Rightarrow> free_list \<Rightarrow> free_list" where
  "bucket_set n b fl = fl\<lparr>fl_map := AList.update n b (fl_map fl)\<rparr>"

definition fl_pop :: "usize \<Rightarrow> free_list \<Rightarrow> ptr option \<times> free_list" where
  "fl_pop n fl =
     (case map_of (fl_map fl) n of
        None \<Rightarrow> (None, fl)
      | Some [] \<Rightarrow> (None, fl)
      | Some (q # b) \<Rightarrow> (Some q, (bucket_set n b fl)\<lparr>fl_total := fl_total fl - n\<rparr>))"

definition fl_push :: "usize \<Rightarrow> ptr \<Rightarrow> free_list \<Rightarrow> free_list" where
  "fl_push n q fl =
     (bucket_set n (case map_of (fl_map fl) n of None \<Rightarrow> [q] | Some b \<Rightarrow> b @ [q]) fl)\<lparr>fl_total := fl_total fl + n\<rparr>"

definition largest_bucket :: "free_list \<Rightarrow> usize option" where
  "largest_bucket fl =
     (case [n. (n, b) \<leftarrow> fl_map fl, b \<noteq> []] of [] \<Rightarrow> None | n # ns \<Rightarrow> Some (foldr max ns n))"

definition fl_count :: "free_list \<Rightarrow> nat" where
  "fl_count fl = sum_list (map (\<lambda>(n, b). length b) (fl_map fl))"

lemma fl_pop_count: "fl_pop n fl = (Some q, fl') \<Longrightarrow> fl_count fl' < fl_count fl"
proof -
  have *: "map_of m n = Some (q # b) \<Longrightarrow>
      sum_list (map (\<lambda>(n, b). length b) (AList.update n b m)) < sum_list (map (\<lambda>(n, b). length b) m)" for b m
    by (induction m) auto
  assume "fl_pop n fl = (Some q, fl')"
  then show ?thesis
    by (auto simp: fl_pop_def fl_count_def bucket_set_def intro: * split: option.splits list.splits)
qed

function evict_loop :: "usize \<Rightarrow> free_list \<Rightarrow> ptr list \<Rightarrow> ptr list \<times> free_list" where
  "evict_loop cap fl evicted =
     (if cap < fl_total fl then
        case largest_bucket fl of
          Some sz \<Rightarrow> (case fl_pop sz fl of
              (Some q, fl) \<Rightarrow> evict_loop cap fl (evicted @ [q])
            | (None, fl) \<Rightarrow> (evicted, fl))
        | None \<Rightarrow> (evicted, fl)
      else (evicted, fl))"
  by pat_completeness auto
termination by (relation "measure (\<lambda>(_, fl, _). fl_count fl)") (auto intro: fl_pop_count[OF sym])

declare evict_loop.simps [simp del]

lemma evict_loop_under: "fl_total fl \<le> cap \<Longrightarrow> evict_loop cap fl ev = (ev, fl)"
  by (subst evict_loop.simps) (simp add: leD)

definition fl_evict_to_cap :: "usize \<Rightarrow> free_list \<Rightarrow> ptr list \<times> free_list" where
  "fl_evict_to_cap cap fl = evict_loop cap fl []"

definition fl_drain :: "free_list \<Rightarrow> ptr list \<times> free_list" where
  "fl_drain fl = (concat (map snd (fl_map fl)), fl_empty)"

section \<open>The allocator\<close>

record 'd driver =
  drv_alloc :: "usize \<Rightarrow> 'd \<Rightarrow> ptr option \<times> 'd"
  drv_free :: "ptr \<Rightarrow> 'd \<Rightarrow> 'd"
  drv_sync :: "'d \<Rightarrow> 'd"
  drv_trim :: "'d \<Rightarrow> 'd"

record 'd cuda_allocator =
  free_lst :: free_list
  free_list_cap_bytes :: usize
  c_frozen :: bool
  captured_ptrs :: "ptr set"
  pool_handle :: u64
  arena :: "cuda_arena option"
  driver_state :: 'd

definition cuda_new :: "usize \<Rightarrow> u64 \<Rightarrow> 'd \<Rightarrow> 'd cuda_allocator" where
  "cuda_new cap pool d = \<lparr>free_lst = fl_empty, free_list_cap_bytes = cap, c_frozen = False, captured_ptrs = {},
     pool_handle = pool, arena = None, driver_state = d\<rparr>"

definition driver_free :: "'d driver \<Rightarrow> ptr \<Rightarrow> 'd cuda_allocator \<Rightarrow> 'd cuda_allocator" where
  "driver_free drv q s = s\<lparr>driver_state := drv_free drv q (driver_state s)\<rparr>"

definition driver_alloc :: "'d driver \<Rightarrow> usize \<Rightarrow> 'd cuda_allocator \<Rightarrow> (alloc_error + ptr) \<times> 'd cuda_allocator" where
  "driver_alloc drv size_bytes s =
     (case drv_alloc drv size_bytes (driver_state s) of
        (Some q, d) \<Rightarrow> (Inr q, s\<lparr>driver_state := d\<rparr>)
      | (None, d) \<Rightarrow>
          let (drained, fl) = fl_drain (free_lst s);
              s = fold (driver_free drv) drained (s\<lparr>free_lst := fl, driver_state := d\<rparr>);
              d = drv_sync drv (driver_state s);
              d = (if pool_handle s \<noteq> 0 then drv_trim drv d else d)
          in case drv_alloc drv size_bytes d of
               (Some q, d) \<Rightarrow> (Inr q, s\<lparr>driver_state := d\<rparr>)
             | (None, d) \<Rightarrow> (Inl (OutOfMemory size_bytes), s\<lparr>driver_state := d\<rparr>))"

definition install_arena :: "ptr \<Rightarrow> usize \<Rightarrow> 'd cuda_allocator \<Rightarrow> (alloc_error + unit) \<times> 'd cuda_allocator" where
  "install_arena base sz s =
     (if arena s \<noteq> None then (Inl Internal, s) else (Inr (), s\<lparr>arena := Some (arena_new base sz)\<rparr>))"

definition clear_arena :: "'d cuda_allocator \<Rightarrow> 'd cuda_allocator" where
  "clear_arena s = s\<lparr>arena := None\<rparr>"

definition has_arena :: "'d cuda_allocator \<Rightarrow> bool" where
  "has_arena s = (arena s \<noteq> None)"

definition cuda_allocate :: "'d driver \<Rightarrow> usize \<Rightarrow> 'd cuda_allocator \<Rightarrow> (alloc_error + ptr) \<times> 'd cuda_allocator" where
  "cuda_allocate drv size_bytes s =
     (if size_bytes = 0 then (Inr 0, s)
      else if c_frozen s then
        case (case arena s of
                Some a \<Rightarrow> (case arena_allocate size_bytes a of (r, a) \<Rightarrow> (r, s\<lparr>arena := Some a\<rparr>))
              | None \<Rightarrow> driver_alloc drv size_bytes s) of
          (Inl e, s) \<Rightarrow> (Inl e, s)
        | (Inr q, s) \<Rightarrow> (Inr q, s\<lparr>captured_ptrs := insert q (captured_ptrs s)\<rparr>)
      else case fl_pop size_bytes (free_lst s) of
          (Some q, fl) \<Rightarrow> (Inr q, s\<lparr>free_lst := fl\<rparr>)
        | (None, fl) \<Rightarrow> driver_alloc drv size_bytes (s\<lparr>free_lst := fl\<rparr>))"

definition free_list_cap :: nat where "free_list_cap = 64"

definition cuda_deallocate :: "'d driver \<Rightarrow> ptr \<Rightarrow> usize \<Rightarrow> 'd cuda_allocator \<Rightarrow> 'd cuda_allocator" where
  "cuda_deallocate drv q size_bytes s =
     (if q = 0 then s
      else if c_frozen s then
        (case arena s of
           Some a \<Rightarrow> s\<lparr>arena := Some (arena_deallocate q a)\<rparr>
         | None \<Rightarrow> driver_free drv q s)
      else
        let fl = free_lst s;
            (evict, fl) =
              (case map_of (fl_map fl) size_bytes of
                 Some bucket \<Rightarrow>
                   if free_list_cap \<le> length bucket
                   then (case bucket of
                           old # rest \<Rightarrow> ([old], bucket_set size_bytes (rest @ [q]) fl)
                         | [] \<Rightarrow> ([], bucket_set size_bytes [q] fl))
                   else ([], fl_push size_bytes q fl)
               | None \<Rightarrow> ([], fl_push size_bytes q fl));
            (evicted, fl) = fl_evict_to_cap (free_list_cap_bytes s) fl
        in fold (driver_free drv) (evict @ evicted) (s\<lparr>free_lst := fl\<rparr>))"

definition cuda_is_frozen :: "'d cuda_allocator \<Rightarrow> bool" where "cuda_is_frozen s = c_frozen s"

definition cuda_freeze :: "'d cuda_allocator \<Rightarrow> bool \<times> 'd cuda_allocator" where
  "cuda_freeze s = (True, s\<lparr>c_frozen := True\<rparr>)"

text \<open>\<open>None\<close> is the panic of the debug assertion on a captured pointer in the free list.\<close>

definition cuda_unfreeze :: "'d cuda_allocator \<Rightarrow> 'd cuda_allocator option" where
  "cuda_unfreeze s =
     (let s = clear_arena (s\<lparr>c_frozen := False\<rparr>);
          captured = captured_ptrs s;
          s = s\<lparr>captured_ptrs := {}\<rparr>
      in if captured = {} then Some s
         else if list_all (\<lambda>(_, bucket). list_all (\<lambda>q. q \<notin> captured) bucket) (fl_map (free_lst s)) then Some s
         else None)"

definition cuda_reset :: "'d driver \<Rightarrow> 'd cuda_allocator \<Rightarrow> (alloc_error + unit) \<times> 'd cuda_allocator" where
  "cuda_reset drv s =
     (let (drained, fl) = fl_drain (free_lst s)
      in (Inr (), fold (driver_free drv) drained (s\<lparr>free_lst := fl\<rparr>)))"

section \<open>Bookkeeping of blocks\<close>

text \<open>A map of blocks as a multiset of pairs, so that a partition of the blocks is one equation.\<close>

definition pairs :: "blocks \<Rightarrow> (ptr \<times> usize) multiset" where
  "pairs h = mset_set (Map.graph h)"

lemma finite_graph [simp]: "finite (Map.graph (h :: blocks))"
  by (rule finite_subset[of _ UNIV]) auto

lemma pairs_empty [simp]: "pairs Map.empty = {#}"
  by (simp add: pairs_def)

lemma in_pairs [simp]: "(q, n) \<in># pairs h \<longleftrightarrow> h q = Some n"
  by (simp add: pairs_def Map.graph_def)

lemma pairs_insert: "h q = None \<Longrightarrow> pairs (h(q \<mapsto> n)) = add_mset (q, n) (pairs h)"
proof -
  assume "h q = None"
  then have "Map.graph (h(q \<mapsto> n)) = insert (q, n) (Map.graph h)" "(q, n) \<notin> Map.graph h"
    by (auto simp: Map.graph_def split: if_splits)
  then show ?thesis by (simp add: pairs_def)
qed

lemma pairs_remove: "h q = Some n \<Longrightarrow> pairs h = add_mset (q, n) (pairs (h(q := None)))"
  using pairs_insert[of "h(q := None)" q n] fun_upd_triv[of h q] by simp

lemma pairs_unique: "add_mset (q, n) A = pairs h \<Longrightarrow> (q, m) \<notin># A"
proof
  assume e: "add_mset (q, n) A = pairs h" and m: "(q, m) \<in># A"
  have "(q, n) \<in># pairs h" "(q, m) \<in># pairs h" using m by (simp_all flip: e)
  then have "m = n" by simp
  with m have "0 < count A (q, n)" by simp
  then have "2 \<le> count (pairs h) (q, n)" by (simp flip: e)
  then show False by (simp add: pairs_def count_mset_set' split: if_splits)
qed

lemma pairs_bytes: "sum_mset (image_mset (\<lambda>b. unat (snd b)) (pairs h)) = block_bytes h"
proof -
  have g: "Map.graph h = (\<lambda>q. (q, the (h q))) ` dom h" by (auto simp: Map.graph_def image_iff domIff)
  have "sum_mset (image_mset (\<lambda>b. unat (snd b)) (pairs h)) = (\<Sum>b \<in> Map.graph h. unat (snd b))"
    by (simp add: pairs_def sum_unfold_sum_mset)
  also have "\<dots> = block_bytes h" unfolding g block_bytes_def by (subst sum.reindex) (auto simp: inj_on_def)
  finally show ?thesis .
qed

section \<open>The free list keeps its blocks\<close>

definition fl_blocks :: "free_list \<Rightarrow> (ptr \<times> usize) multiset" where
  "fl_blocks fl = mset (concat (map (\<lambda>(n, b). map (\<lambda>q. (q, n)) b) (fl_map fl)))"

definition fl_bytes :: "free_list \<Rightarrow> nat" where
  "fl_bytes fl = sum_mset (image_mset (\<lambda>b. unat (snd b)) (fl_blocks fl))"

text \<open>Every size has one bucket, no bucket is over-full and the byte total is exact (modulo the word size).\<close>

definition fl_ok :: "free_list \<Rightarrow> bool" where
  "fl_ok fl \<longleftrightarrow> distinct (map fst (fl_map fl)) \<and> (\<forall>(n, b) \<in> set (fl_map fl). length b \<le> free_list_cap) \<and>
     fl_total fl = of_nat (fl_bytes fl)"

lemma fl_empty_simps [simp]: "fl_blocks fl_empty = {#}" "fl_ok fl_empty" "fl_bytes fl_empty = 0" "fl_total fl_empty = 0"
  by (simp_all add: fl_empty_def fl_blocks_def fl_ok_def fl_bytes_def)

lemma fl_total_simps [simp]:
  "fl_blocks (fl\<lparr>fl_total := t\<rparr>) = fl_blocks fl" "fl_bytes (fl\<lparr>fl_total := t\<rparr>) = fl_bytes fl"
  by (simp_all add: fl_blocks_def fl_bytes_def)

lemma fl_blocks_bucket:
  assumes "distinct (map fst (fl_map fl))"
  shows "fl_blocks (bucket_set n b fl) + mset (map (\<lambda>q. (q, n)) (case map_of (fl_map fl) n of None \<Rightarrow> [] | Some b \<Rightarrow> b))
    = fl_blocks fl + mset (map (\<lambda>q. (q, n)) b)"
proof -
  let ?B = "\<lambda>m. mset (concat (map (\<lambda>(n, b). map (\<lambda>q. (q, n)) b) m)) :: (ptr \<times> usize) multiset"
  have "?B (AList.update n b m) + mset (map (\<lambda>q. (q, n)) (case map_of m n of None \<Rightarrow> [] | Some b \<Rightarrow> b))
      = ?B m + mset (map (\<lambda>q. (q, n)) b)" for m
    by (induction m) (auto simp: ac_simps)
  then show ?thesis by (simp add: fl_blocks_def bucket_set_def)
qed

lemma in_bucket: "map_of (fl_map fl) n = Some b \<Longrightarrow> q \<in> set b \<Longrightarrow> (q, n) \<in># fl_blocks fl"
  by (force simp: fl_blocks_def dest: map_of_SomeD)

lemma set_update: "set (AList.update n b m) \<subseteq> insert (n, b) (set m)"
  by (induction m) auto

lemma fl_ok_bucket:
  assumes "fl_ok fl" and "length b \<le> free_list_cap"
  shows "distinct (map fst (fl_map (bucket_set n b fl)))"
    and "\<forall>(n, b) \<in> set (fl_map (bucket_set n b fl)). length b \<le> free_list_cap"
  using assms set_update[of n b "fl_map fl"]
  by (auto simp: fl_ok_def bucket_set_def distinct_update)

lemma bucket_length: "fl_ok fl \<Longrightarrow> map_of (fl_map fl) n = Some b \<Longrightarrow> length b \<le> free_list_cap"
  by (auto simp: fl_ok_def dest!: map_of_SomeD)

lemma fl_pop_Some:
  assumes ok: "fl_ok fl" and p: "fl_pop n fl = (Some q, fl')"
  shows "fl_blocks fl = add_mset (q, n) (fl_blocks fl')" and "fl_ok fl'"
proof -
  obtain b where b: "map_of (fl_map fl) n = Some (q # b)"
    and fl': "fl' = (bucket_set n b fl)\<lparr>fl_total := fl_total fl - n\<rparr>"
    using p by (auto simp: fl_pop_def split: option.splits list.splits)
  have blk: "fl_blocks fl' = fl_blocks (bucket_set n b fl)" by (simp add: fl')
  show blocks: "fl_blocks fl = add_mset (q, n) (fl_blocks fl')"
    using fl_blocks_bucket[of fl n b] ok b unfolding blk by (simp add: fl_ok_def)
  have "length b \<le> free_list_cap" using bucket_length[OF ok b] by simp
  moreover have "fl_bytes fl = unat n + fl_bytes fl'" by (simp add: fl_bytes_def blocks)
  ultimately show "fl_ok fl'"
    using ok fl_ok_bucket[OF ok, of b n] by (auto simp: fl_ok_def fl')
qed

lemma fl_pop_None: "fl_pop n fl = (None, fl') \<Longrightarrow> fl' = fl"
  by (auto simp: fl_pop_def split: option.splits list.splits)

lemma fl_push_blocks:
  assumes ok: "fl_ok fl"
  shows "fl_blocks (fl_push n q fl) = add_mset (q, n) (fl_blocks fl)"
proof (cases "map_of (fl_map fl) n")
  case None
  then show ?thesis using fl_blocks_bucket[of fl n "[q]"] ok by (simp add: fl_push_def fl_ok_def)
next
  case (Some b)
  then show ?thesis using fl_blocks_bucket[of fl n "b @ [q]"] ok by (simp add: fl_push_def fl_ok_def)
qed

lemma fl_push_ok:
  assumes ok: "fl_ok fl" and room: "\<And>b. map_of (fl_map fl) n = Some b \<Longrightarrow> length b < free_list_cap"
  shows "fl_ok (fl_push n q fl)"
proof -
  let ?b = "(case map_of (fl_map fl) n of None \<Rightarrow> [q] | Some b \<Rightarrow> b @ [q])"
  have l: "length ?b \<le> free_list_cap" using room by (auto simp: free_list_cap_def split: option.split)
  have "fl_bytes (fl_push n q fl) = unat n + fl_bytes fl" by (simp add: fl_bytes_def fl_push_blocks[OF ok])
  then show ?thesis
    using ok fl_ok_bucket[OF ok l, of n] by (simp add: fl_ok_def) (simp add: fl_push_def add.commute)
qed

lemma foldr_max_in: "foldr max ns n \<in> set (n # ns)" for n :: usize
  by (induction ns) (auto simp: max_def)

lemma largest_bucket_Some:
  assumes "fl_ok fl" and "largest_bucket fl = Some n"
  obtains q b where "map_of (fl_map fl) n = Some (q # b)"
proof -
  obtain m ms where ms: "[n. (n, b) \<leftarrow> fl_map fl, b \<noteq> []] = m # ms" "n = foldr max ms m"
    using assms(2) by (auto simp: largest_bucket_def split: list.splits)
  have "n \<in> set [n. (n, b) \<leftarrow> fl_map fl, b \<noteq> []]" unfolding ms by (rule foldr_max_in)
  then obtain b where "(n, b) \<in> set (fl_map fl)" "b \<noteq> []" by auto
  with assms(1) have "map_of (fl_map fl) n = Some b" by (simp add: fl_ok_def)
  with \<open>b \<noteq> []\<close> that show thesis by (cases b) auto
qed

lemma largest_bucket_None: "largest_bucket fl = None \<Longrightarrow> fl_blocks fl = {#}"
  by (force simp: largest_bucket_def fl_blocks_def split: list.splits if_splits)

lemma evict_loop_cap:
  "fl_ok fl \<Longrightarrow> evict_loop cap fl ev = (ev', fl') \<Longrightarrow>
   \<exists>B. ev' = ev @ map fst B \<and> fl_blocks fl = mset B + fl_blocks fl' \<and> fl_ok fl' \<and> fl_total fl' \<le> cap"
proof (induction cap fl ev arbitrary: rule: evict_loop.induct)
  case (1 cap fl ev)
  show ?case
  proof (cases "cap < fl_total fl")
    case False
    with 1 show ?thesis by (auto simp: evict_loop.simps[of cap fl])
  next
    case over: True
    show ?thesis
    proof (cases "largest_bucket fl")
      case None
      then have "fl_bytes fl = 0" by (simp add: fl_bytes_def largest_bucket_None)
      with over 1 show ?thesis by (simp add: fl_ok_def)
    next
      case (Some n)
      obtain q b where b: "map_of (fl_map fl) n = Some (q # b)" using largest_bucket_Some[OF 1(2) Some] .
      then obtain fl1 where p: "fl_pop n fl = (Some q, fl1)" by (simp add: fl_pop_def)
      note pop = fl_pop_Some[OF 1(2) p]
      have "evict_loop cap fl1 (ev @ [q]) = (ev', fl')"
        using 1(3) over Some p by (simp add: evict_loop.simps[of cap fl])
      from 1(1)[OF over Some p[symmetric] refl pop(2) this] obtain B where
        "ev' = (ev @ [q]) @ map fst B" "fl_blocks fl1 = mset B + fl_blocks fl'" "fl_ok fl'" "fl_total fl' \<le> cap" by auto
      then show ?thesis using pop(1) by (intro exI[of _ "(q, n) # B"]) simp
    qed
  qed
qed

lemma fl_drain_blocks: "fl_drain fl = (ds, fl') \<Longrightarrow> fl' = fl_empty \<and> (\<exists>B. ds = map fst B \<and> mset B = fl_blocks fl)"
  unfolding fl_drain_def fl_blocks_def
  by (intro conjI exI[of _ "concat (map (\<lambda>(n, b). map (\<lambda>q. (q, n)) b) (fl_map fl))"])
    (auto simp: map_concat comp_def case_prod_unfold intro!: arg_cong[where f = concat])

section \<open>The driver\<close>

text \<open>
  What CUDA documents of the driver: a new block overlaps no live one and is not null, freeing a live
  block ends that block, and synchronising or trimming changes no live block.
\<close>

definition driver_ok :: "'d driver \<Rightarrow> ('d \<Rightarrow> blocks) \<Rightarrow> bool" where
  "driver_ok drv live \<longleftrightarrow> (\<forall>d. blocks_ok (live d) \<longrightarrow>
     (\<forall>n q d'. 0 < unat n \<longrightarrow> unat n < 2 ^ 63 \<longrightarrow> drv_alloc drv n d = (Some q, d') \<longrightarrow>
        live d q = None \<and> live d' = (live d)(q \<mapsto> n) \<and> blocks_ok (live d')) \<and>
     (\<forall>n d'. 0 < unat n \<longrightarrow> unat n < 2 ^ 63 \<longrightarrow> drv_alloc drv n d = (None, d') \<longrightarrow> live d' = live d) \<and>
     (\<forall>q n. live d q = Some n \<longrightarrow> live (drv_free drv q d) = (live d)(q := None)) \<and>
     live (drv_sync drv d) = live d \<and> live (drv_trim drv d) = live d)"

lemma driver_okD:
  assumes "driver_ok drv live" and "blocks_ok (live d)"
  shows "0 < unat n \<Longrightarrow> unat n < 2 ^ 63 \<Longrightarrow> drv_alloc drv n d = (Some q, d') \<Longrightarrow>
      live d q = None \<and> live d' = (live d)(q \<mapsto> n) \<and> blocks_ok (live d')"
    and "0 < unat n \<Longrightarrow> unat n < 2 ^ 63 \<Longrightarrow> drv_alloc drv n d = (None, d') \<Longrightarrow> live d' = live d"
    and "live d q = Some n \<Longrightarrow> live (drv_free drv q d) = (live d)(q := None)"
    and "live (drv_sync drv d) = live d" and "live (drv_trim drv d) = live d"
  using assms unfolding driver_ok_def by blast+

lemma fold_driver_free:
  "fold (driver_free drv) qs s = s\<lparr>driver_state := fold (drv_free drv) qs (driver_state s)\<rparr>"
  by (induction qs arbitrary: s) (auto simp: driver_free_def)

lemma free_all:
  assumes drv: "driver_ok drv live"
  shows "blocks_ok (live d) \<Longrightarrow> pairs (live d) = mset B + R \<Longrightarrow>
    blocks_ok (live (fold (drv_free drv) (map fst B) d)) \<and> pairs (live (fold (drv_free drv) (map fst B) d)) = R"
proof (induction B arbitrary: d)
  case (Cons x B)
  obtain q n where x: "x = (q, n)" by force
  have "(q, n) \<in># pairs (live d)" using Cons.prems(2) x by simp
  then have q: "live d q = Some n" by simp
  from driver_okD(3)[OF drv Cons.prems(1) q] have l: "live (drv_free drv q d) = (live d)(q := None)" .
  have "blocks_ok (live (drv_free drv q d))"
    unfolding l by (rule blocks_ok_submap[OF Cons.prems(1)]) (simp add: map_le_def)
  moreover have "pairs (live (drv_free drv q d)) = mset B + R"
    using pairs_remove[of "live d" q n, OF q] Cons.prems(2) x unfolding l by simp
  ultimately show ?case using Cons.IH[of "drv_free drv q d"] x by simp
qed simp

section \<open>The arena hands out disjoint regions of its buffer\<close>

lemma align_up_eq:
  assumes n: "unat n + 255 < 2 ^ 64"
  shows "unat (align_up n) = (unat n + 255) div 256 * 256"
proof -
  let ?w = "n + 255"
  have w: "unat ?w = unat n + 255" using unat_add_exact[of n 255] n by simp
  have m: "(256 - 1 :: usize) = mask 8" by (simp add: mask_eq_exp_minus_1)
  have "align_up n = push_bit 8 (drop_bit 8 ?w)"
    unfolding align_up_def m by (rule bit_eqI) (auto simp: bit_simps add_diff_eq[symmetric])
  also have "\<dots> = drop_bit 8 ?w * 256" by (simp add: push_bit_eq_mult)
  finally have a: "align_up n = drop_bit 8 ?w * 256" .
  have d: "unat (drop_bit 8 ?w) = (unat n + 255) div 256" by (simp add: unat_drop w)
  have "unat (drop_bit 8 ?w) * unat (256 :: usize) < 2 ^ 64"
    using n div_times_less_eq_dividend[of "unat n + 255" 256] by (simp add: d)
  then have "unat (drop_bit 8 ?w * 256) = unat (drop_bit 8 ?w) * unat (256 :: usize)"
    by (subst unat_mult_lem[symmetric]) simp
  then show ?thesis by (simp add: a d)
qed

definition arena_ok :: "cuda_arena \<Rightarrow> blocks \<Rightarrow> bool" where
  "arena_ok a ha \<longleftrightarrow> 0 < unat (a_base a) \<and> unat (a_base a) + unat (a_size a) \<le> 2 ^ 64 \<and> unat (a_size a) < 2 ^ 63 \<and>
     high_water a \<le> a_size a \<and> blocks_ok ha \<and>
     (\<forall>q n. ha q = Some n \<longrightarrow> unat (a_base a) \<le> unat q \<and> unat q + unat n \<le> unat (a_base a) + unat (high_water a))"

lemma arena_allocate_ok:
  assumes ok: "arena_ok a ha" and n: "0 < unat n" "unat n < 2 ^ 63" and r: "arena_allocate n a = (Inr q, a')"
  shows "ha q = None" and "arena_ok a' (ha(q \<mapsto> n))" and "a_base a' = a_base a" and "a_size a' = a_size a"
    and "unat q = unat (a_base a) + unat (high_water a)"
    and "unat (high_water a') = unat (high_water a) + (unat n + 255) div 256 * 256"
proof -
  let ?al = "align_up n" and ?B = "unat (a_base a)" and ?H = "unat (high_water a)" and ?S = "unat (a_size a)"
  have mx: "max n 1 = n" using n unat_eq_of_nat[of n 1] by (auto simp: max_def word_le_nat_alt le_Suc_eq)
  have al: "unat ?al = (unat n + 255) div 256 * 256" using n by (intro align_up_eq) simp
  then have al': "unat n \<le> unat ?al" "unat ?al \<le> 2 ^ 63" using n(2) by simp_all
  have hw: "?H \<le> ?S" "?S < 2 ^ 63" "0 < ?B" "?B + ?S \<le> 2 ^ 64"
    using ok by (auto simp: arena_ok_def word_le_nat_alt)
  have sum: "unat (high_water a + ?al) = ?H + unat ?al" using hw al' by (intro unat_add_exact) simp
  have a': "\<not> a_size a < high_water a + ?al" "q = a_base a + high_water a"
    "a' = a\<lparr>high_water := high_water a + ?al, live_regions := live_regions a @ [(high_water a, ?al)]\<rparr>"
    using r by (auto simp: arena_allocate_def mx Let_def split: if_splits)
  have fits: "?H + unat ?al \<le> ?S" using a'(1) sum by (simp add: word_less_nat_alt)
  show q: "unat q = ?B + ?H" unfolding a'(2) using hw fits al' n by (intro unat_add_exact) simp
  have dis: "block_range q n \<inter> block_range q' n' = {}" if "ha q' = Some n'" for q' n'
    using ok that by (fastforce simp: arena_ok_def block_range_def q)
  have bl: "blocks_ok ha" using ok by (simp add: arena_ok_def)
  show none: "ha q = None"
  proof (rule ccontr)
    assume "ha q \<noteq> None"
    then obtain n' where "ha q = Some n'" by blast
    with dis[OF this] blocks_okD[OF bl this] n show False by (simp add: block_range_def)
  qed
  have "blocks_ok (ha(q \<mapsto> n))"
    using blocks_okD[OF bl] blocks_disjointD[OF bl] dis n hw fits al'
    unfolding blocks_ok_def by (auto simp: q Int_commute)
  moreover have "?B \<le> unat q' \<and> unat q' + unat n' \<le> ?B + (?H + unat ?al)" if "(ha(q \<mapsto> n)) q' = Some n'" for q' n'
  proof (cases "q' = q")
    case True
    with that q al' show ?thesis by simp
  next
    case False
    with that ok have "?B \<le> unat q' \<and> unat q' + unat n' \<le> ?B + ?H" by (simp add: arena_ok_def)
    then show ?thesis by linarith
  qed
  ultimately show "arena_ok a' (ha(q \<mapsto> n))"
    using hw fits sum by (simp add: arena_ok_def a'(3) word_le_nat_alt)
  show "a_base a' = a_base a" "a_size a' = a_size a" "unat (high_water a') = ?H + (unat n + 255) div 256 * 256"
    by (simp_all add: a'(3) sum al)
qed

lemma arena_allocate_error: "arena_allocate n a = (Inl e, a') \<Longrightarrow> a' = a \<and> e = OutOfMemory n"
  by (auto simp: arena_allocate_def Let_def split: if_splits)

lemma arena_deallocate_simps [simp]:
  "a_base (arena_deallocate q a) = a_base a" "a_size (arena_deallocate q a) = a_size a"
  "high_water (arena_deallocate q a) = high_water a"
  by (simp_all add: arena_deallocate_def)

lemma arena_ok_submap:
  "arena_ok a ha \<Longrightarrow> ha' \<subseteq>\<^sub>m ha \<Longrightarrow> a_base a' = a_base a \<Longrightarrow> a_size a' = a_size a \<Longrightarrow> high_water a' = high_water a \<Longrightarrow>
   arena_ok a' ha'"
  using blocks_ok_submap[of ha ha'] unfolding arena_ok_def map_le_def by (metis domI)

section \<open>The invariant\<close>

text \<open>
  \<open>hv\<close> are the driver's blocks that callers hold, \<open>ha\<close> those inside the arena, and \<open>lost\<close> driver
  blocks that were given back during an arena window, which reach neither the free list nor the driver.
  Every live block of the driver is exactly one of: cached, held, lost or the arena's buffer.
\<close>

definition lent :: "'d cuda_allocator \<Rightarrow> (ptr \<times> usize) multiset" where
  "lent s = (case arena s of None \<Rightarrow> {#} | Some a \<Rightarrow> {#(a_base a, a_size a)#})"

definition cuda_inv :: "('d \<Rightarrow> blocks) \<Rightarrow> 'd cuda_allocator \<Rightarrow> blocks \<Rightarrow> blocks \<Rightarrow> (ptr \<times> usize) multiset \<Rightarrow> bool" where
  "cuda_inv live s hv ha lost \<longleftrightarrow>
     fl_ok (free_lst s) \<and> fl_total (free_lst s) \<le> free_list_cap_bytes s \<and>
     blocks_ok (live (driver_state s)) \<and>
     pairs (live (driver_state s)) = fl_blocks (free_lst s) + pairs hv + lost + lent s \<and>
     (case arena s of None \<Rightarrow> ha = Map.empty | Some a \<Rightarrow> arena_ok a ha) \<and>
     (\<not> c_frozen s \<longrightarrow> captured_ptrs s = {} \<and> ha = Map.empty) \<and>
     captured_ptrs s \<inter> fst ` set_mset (fl_blocks (free_lst s)) = {}"

lemma pairs_part: "pairs h = A + pairs hv + B \<Longrightarrow> hv \<subseteq>\<^sub>m h"
proof -
  assume e: "pairs h = A + pairs hv + B"
  have "h q = Some n" if "hv q = Some n" for q n
  proof -
    have "(q, n) \<in># pairs h" unfolding e using that by simp
    then show ?thesis by simp
  qed
  then show ?thesis by (auto simp: map_le_def)
qed

text \<open>The driver is asked, and the free list given up if it has to be.\<close>

lemma driver_alloc_cases:
  assumes drv: "driver_ok drv live" and fl: "fl_ok (free_lst s)" and bl: "blocks_ok (live (driver_state s))"
    and part: "pairs (live (driver_state s)) = fl_blocks (free_lst s) + R"
    and n: "0 < unat n" "unat n < 2 ^ 63" and r: "driver_alloc drv n s = (r, s')"
  obtains d and fl' :: free_list where "s' = s\<lparr>free_lst := fl', driver_state := d\<rparr>" "fl_ok fl'" "blocks_ok (live d)"
    "fl' = free_lst s \<or> fl' = fl_empty"
    "(\<exists>q. r = Inr q \<and> pairs (live d) = add_mset (q, n) (fl_blocks fl' + R)) \<or>
     r = Inl (OutOfMemory n) \<and> pairs (live d) = fl_blocks fl' + R"
proof (cases "drv_alloc drv n (driver_state s)")
  case (Pair o1 d1)
  show thesis
  proof (cases o1)
    case (Some q)
    then have a: "drv_alloc drv n (driver_state s) = (Some q, d1)" using Pair by simp
    note l = driver_okD(1)[OF drv bl n a]
    have "s' = s\<lparr>free_lst := free_lst s, driver_state := d1\<rparr>" "r = Inr q"
      using r a by (auto simp: driver_alloc_def)
    moreover have "pairs (live d1) = add_mset (q, n) (fl_blocks (free_lst s) + R)"
      using l part by (simp add: pairs_insert)
    ultimately show thesis using that[of d1 "free_lst s"] fl l by blast
  next
    case None
    then have a: "drv_alloc drv n (driver_state s) = (None, d1)" using Pair by simp
    have d1: "live d1 = live (driver_state s)" by (rule driver_okD(2)[OF drv bl n a])
    obtain ds where ds: "fl_drain (free_lst s) = (ds, fl_empty)" using fl_drain_blocks by (metis surj_pair)
    then obtain B where B: "ds = map fst B" "mset B = fl_blocks (free_lst s)" using fl_drain_blocks by blast
    define d2 where "d2 = fold (drv_free drv) ds d1"
    have d2: "blocks_ok (live d2)" "pairs (live d2) = R"
      using free_all[OF drv, of d1 B R] bl part B d1 by (simp_all add: d2_def)
    define d3 where "d3 = (let d = drv_sync drv d2 in if pool_handle s \<noteq> 0 then drv_trim drv d else d)"
    have "live (drv_sync drv d2) = live d2" by (rule driver_okD(4)[OF drv d2(1)])
    moreover from this have "live (drv_trim drv (drv_sync drv d2)) = live d2"
      using driver_okD(5)[OF drv, of "drv_sync drv d2"] d2(1) by simp
    ultimately have d3: "live d3 = live d2" by (simp add: d3_def Let_def)
    have r': "driver_alloc drv n s = (case drv_alloc drv n d3 of
        (Some q, d) \<Rightarrow> (Inr q, s\<lparr>free_lst := fl_empty, driver_state := d\<rparr>)
      | (None, d) \<Rightarrow> (Inl (OutOfMemory n), s\<lparr>free_lst := fl_empty, driver_state := d\<rparr>))"
      by (simp add: driver_alloc_def a ds fold_driver_free d3_def d2_def Let_def split: prod.split option.split)
    show thesis
    proof (cases "drv_alloc drv n d3")
      case (Pair o4 d4)
      have b3: "blocks_ok (live d3)" using d2 d3 by simp
      show thesis
      proof (cases o4)
        case (Some q)
        with Pair have a4: "drv_alloc drv n d3 = (Some q, d4)" by simp
        note l = driver_okD(1)[OF drv b3 n a4]
        have "pairs (live d4) = add_mset (q, n) (fl_blocks fl_empty + R)"
          using l d2 d3 by (simp add: pairs_insert)
        moreover have "blocks_ok (live d4)" using l by blast
        ultimately show thesis using that[of d4 fl_empty] r r' a4 by simp
      next
        case None
        with Pair have a4: "drv_alloc drv n d3 = (None, d4)" by simp
        have "live d4 = live d3" by (rule driver_okD(2)[OF drv b3 n a4])
        then show thesis using that[of d4 fl_empty] r r' a4 d2 d3 by simp
      qed
    qed
  qed
qed

text \<open>A block of the partition is not cached, and no cached block starts inside the arena.\<close>

lemma fresh_not_cached:
  assumes "pairs h = add_mset (q, n) (A + B)"
  shows "q \<notin> fst ` set_mset A"
proof
  assume "q \<in> fst ` set_mset A"
  then obtain m where "(q, m) \<in># A" by auto
  then have "(q, m) \<in># A + B" by simp
  with pairs_unique[of q n "A + B" h m] assms show False by simp
qed

lemma arena_not_cached:
  assumes ok: "blocks_ok h" and part: "pairs h = add_mset (base, sz) (A + B)"
    and q: "unat base \<le> unat q" "unat q < unat base + unat sz"
  shows "q \<notin> fst ` set_mset A"
proof
  assume "q \<in> fst ` set_mset A"
  then obtain m where m: "(q, m) \<in># A" by auto
  then have "(q, m) \<in># pairs h" "(base, sz) \<in># pairs h" using part by simp_all
  then have hq: "h q = Some m" "h base = Some sz" by simp_all
  have "q \<noteq> base" using fresh_not_cached[OF part] m by force
  with blocks_disjointD[OF ok hq(2,1)] have "block_range base sz \<inter> block_range q m = {}" by blast
  moreover have "unat q \<in> block_range base sz \<inter> block_range q m"
    using q blocks_okD[OF ok hq(1)] by (simp add: block_range_def)
  ultimately show False by blast
qed

lemma cuda_invD:
  assumes "cuda_inv live s hv ha lost"
  shows "fl_ok (free_lst s)" "fl_total (free_lst s) \<le> free_list_cap_bytes s" "blocks_ok (live (driver_state s))"
    "pairs (live (driver_state s)) = fl_blocks (free_lst s) + (pairs hv + lost + lent s)"
    "arena s = None \<Longrightarrow> ha = Map.empty" "arena s = Some a \<Longrightarrow> arena_ok a ha"
    "\<not> c_frozen s \<Longrightarrow> captured_ptrs s = {}" "\<not> c_frozen s \<Longrightarrow> ha = Map.empty"
    "captured_ptrs s \<inter> fst ` set_mset (fl_blocks (free_lst s)) = {}"
  using assms by (auto simp: cuda_inv_def add.assoc)

lemma held_from_driver:
  assumes "cuda_inv live s hv ha lost"
  shows "hv \<subseteq>\<^sub>m live (driver_state s)"
  by (rule pairs_part[of _ "fl_blocks (free_lst s)" _ "lost + lent s"])
    (simp add: cuda_invD(4)[OF assms] add.assoc)

text \<open>The driver's and the arena's blocks that are held together overlap nowhere.\<close>

lemma held_blocks_ok:
  assumes inv: "cuda_inv live s hv ha lost"
  shows "blocks_ok (hv ++ ha)" and "dom hv \<inter> dom ha = {}"
proof -
  note L = cuda_invD[OF inv]
  have bh: "blocks_ok hv" by (rule blocks_ok_submap[OF L(3) held_from_driver[OF inv]])
  have cross: "q \<noteq> q' \<and> block_range q n \<inter> block_range q' n' = {}" if q: "hv q = Some n" and q': "ha q' = Some n'" for q n q' n'
  proof -
    obtain a where a: "arena s = Some a" using q' L(5) by (cases "arena s") auto
    note ok = L(6)[OF a]
    have in': "unat (a_base a) \<le> unat q'" "unat q' + unat n' \<le> unat (a_base a) + unat (a_size a)"
      using ok q' by (force simp: arena_ok_def word_le_nat_alt)+
    have part: "pairs (live (driver_state s)) = add_mset (a_base a, a_size a) (pairs hv + (fl_blocks (free_lst s) + lost))"
      using L(4) a by (simp add: lent_def ac_simps)
    have hb: "live (driver_state s) (a_base a) = Some (a_size a)"
      using part by (metis in_pairs union_single_eq_member)
    have hq: "live (driver_state s) q = Some n"
      using held_from_driver[OF inv] q by (metis domI map_le_def)
    have "q \<in> fst ` set_mset (pairs hv)" using image_eqI[of q fst "(q, n)"] q by simp
    then have "q \<noteq> a_base a" using fresh_not_cached[OF part] by blast
    with blocks_disjointD[OF L(3) hq hb] have d: "block_range q n \<inter> block_range (a_base a) (a_size a) = {}" by blast
    have sub: "block_range q' n' \<subseteq> block_range (a_base a) (a_size a)" using in' by (auto simp: block_range_def)
    have "unat q' \<in> block_range q' n'"
      using ok q' blocks_okD[of ha q' n'] by (simp add: block_range_def arena_ok_def)
    with d sub show ?thesis
      using blocks_okD[OF bh q] by (auto simp: block_range_def)
  qed
  show dis: "dom hv \<inter> dom ha = {}"
  proof (rule ccontr)
    assume "dom hv \<inter> dom ha \<noteq> {}"
    then obtain q n n' where "hv q = Some n" "ha q = Some n'" by blast
    with cross show False by blast
  qed
  have "blocks_ok ha" using L(5,6) by (cases "arena s") (auto simp: arena_ok_def)
  then show "blocks_ok (hv ++ ha)"
    using bh cross blocks_okD blocks_disjointD unfolding blocks_ok_def[of "hv ++ ha"] map_add_Some_iff
    by (metis Int_commute)
qed

section \<open>Every operation keeps the invariant\<close>

lemma lent_simps [simp]:
  "lent (s\<lparr>free_lst := fl\<rparr>) = lent s" "lent (s\<lparr>driver_state := d\<rparr>) = lent s"
  "lent (s\<lparr>captured_ptrs := c\<rparr>) = lent s" "lent (s\<lparr>c_frozen := f\<rparr>) = lent s"
  by (simp_all add: lent_def)

lemma lent_arena: "arena s = None \<Longrightarrow> lent s = {#}" "arena s = Some a \<Longrightarrow> lent s = {#(a_base a, a_size a)#}"
  by (simp_all add: lent_def)

lemma cuda_new_inv: "live d = Map.empty \<Longrightarrow> cuda_inv live (cuda_new cap pool d) Map.empty Map.empty {#}"
  by (simp add: cuda_inv_def cuda_new_def lent_def)

text \<open>A successful request to the driver, inside or outside a freeze window.\<close>

lemma driver_alloc_inv:
  assumes drv: "driver_ok drv live" and inv: "cuda_inv live s hv ha lost"
    and n: "0 < unat n" "unat n < 2 ^ 63" and r: "driver_alloc drv n s = (r, s')"
  shows "r = Inr q \<Longrightarrow> hv q = None \<and> q \<notin> fst ` set_mset (fl_blocks (free_lst s')) \<and> cuda_inv live s' (hv(q \<mapsto> n)) ha lost"
    and "r = Inl e \<Longrightarrow> cuda_inv live s' hv ha lost"
    and "c_frozen s' = c_frozen s" and "captured_ptrs s' = captured_ptrs s" and "arena s' = arena s"
proof -
  note L = cuda_invD[OF inv]
  obtain d fl' where s': "s' = s\<lparr>free_lst := fl', driver_state := d\<rparr>" and fl': "fl_ok fl'" "blocks_ok (live d)"
      "fl' = free_lst s \<or> fl' = fl_empty"
    and res: "(\<exists>q. r = Inr q \<and> pairs (live d) = add_mset (q, n) (fl_blocks fl' + (pairs hv + lost + lent s))) \<or>
     r = Inl (OutOfMemory n) \<and> pairs (live d) = fl_blocks fl' + (pairs hv + lost + lent s)"
    by (rule driver_alloc_cases[OF drv L(1,3,4) n r])
  show fields: "c_frozen s' = c_frozen s" "captured_ptrs s' = captured_ptrs s" "arena s' = arena s"
    by (simp_all add: s')
  have keep: "fl_total fl' \<le> free_list_cap_bytes s" "captured_ptrs s \<inter> fst ` set_mset (fl_blocks fl') = {}"
    using fl'(3) L(2,9) by auto
  show "cuda_inv live s' hv ha lost" if "r = Inl e"
    using inv res that fl' keep by (auto simp: cuda_inv_def s' add.assoc)
  show "hv q = None \<and> q \<notin> fst ` set_mset (fl_blocks (free_lst s')) \<and> cuda_inv live s' (hv(q \<mapsto> n)) ha lost" if "r = Inr q"
  proof -
    have part: "pairs (live d) = add_mset (q, n) (fl_blocks fl' + (pairs hv + lost + lent s))" using res that by simp
    have nc: "q \<notin> fst ` set_mset (fl_blocks fl')" by (rule fresh_not_cached[OF part])
    have "pairs (live d) = add_mset (q, n) (pairs hv + (fl_blocks fl' + lost + lent s))" using part by (simp add: ac_simps)
    then have "q \<notin> fst ` set_mset (pairs hv)" by (rule fresh_not_cached)
    then have none: "hv q = None" using image_eqI[of q fst "(q, the (hv q))" "set_mset (pairs hv)"] by (cases "hv q") auto
    then have "pairs (live d) = fl_blocks fl' + pairs (hv(q \<mapsto> n)) + lost + lent s"
      using part by (simp add: pairs_insert ac_simps)
    then show ?thesis using inv none nc fl' keep by (simp add: cuda_inv_def s')
  qed
qed

lemma cuda_allocate_ok:
  assumes drv: "driver_ok drv live" and inv: "cuda_inv live s hv ha lost"
    and n: "0 < unat n" "unat n < 2 ^ 63" and r: "cuda_allocate drv n s = (Inr q, s')"
  shows "hv q = None \<and> ha q = None \<and>
    (if c_frozen s \<and> has_arena s then cuda_inv live s' hv (ha(q \<mapsto> n)) lost
     else cuda_inv live s' (hv(q \<mapsto> n)) ha lost)"
proof -
  note L = cuda_invD[OF inv]
  have n0: "n \<noteq> 0" using n by auto
  show ?thesis
  proof (cases "c_frozen s")
    case fr: True
    show ?thesis
    proof (cases "arena s")
      case None
      then obtain s1 where d: "driver_alloc drv n s = (Inr q, s1)" and s': "s' = s1\<lparr>captured_ptrs := insert q (captured_ptrs s1)\<rparr>"
        using r n0 fr by (auto simp: cuda_allocate_def split: prod.splits sum.splits)
      note D = driver_alloc_inv[OF drv inv n d]
      have ha: "ha = Map.empty" using L(5) None by simp
      have "cuda_inv live s' (hv(q \<mapsto> n)) ha lost"
        using D(1)[OF refl] D(3) fr by (auto simp: cuda_inv_def s')
      then show ?thesis using D(1)[OF refl] None ha by (simp add: has_arena_def)
    next
      case (Some a)
      obtain a' where a': "arena_allocate n a = (Inr q, a')"
        and s': "s' = s\<lparr>arena := Some a', captured_ptrs := insert q (captured_ptrs s)\<rparr>"
        using r n0 fr Some by (auto simp: cuda_allocate_def split: prod.splits sum.splits)
      note A = arena_allocate_ok[OF L(6)[OF Some] n a']
      have part: "pairs (live (driver_state s)) = add_mset (a_base a, a_size a) (fl_blocks (free_lst s) + (pairs hv + lost))"
        using L(4) lent_arena(2)[OF Some] by (simp add: ac_simps)
      have "unat q + unat n \<le> unat (a_base a') + unat (high_water a')" "high_water a' \<le> a_size a'"
        using A(2) by (auto simp: arena_ok_def)
      then have "unat q < unat (a_base a) + unat (a_size a)"
        using A(3,4) n(1) by (simp add: word_le_nat_alt)
      then have nc: "q \<notin> fst ` set_mset (fl_blocks (free_lst s))"
        using A(5) by (intro arena_not_cached[OF L(3) part]) auto
      have inv': "cuda_inv live s' hv (ha(q \<mapsto> n)) lost"
        using inv A nc fr Some by (auto simp: cuda_inv_def s' lent_def)
      have "q \<in> dom (ha(q \<mapsto> n))" by simp
      then have "hv q = None" using held_blocks_ok(2)[OF inv'] by blast
      then show ?thesis using inv' A(1) fr Some by (simp add: has_arena_def)
    qed
  next
    case fr: False
    have ha: "ha = Map.empty" using L(8) fr by simp
    show ?thesis
    proof (cases "fst (fl_pop n (free_lst s))")
      case None
      then obtain fl where p: "fl_pop n (free_lst s) = (None, fl)" by (cases "fl_pop n (free_lst s)") auto
      have "driver_alloc drv n s = (Inr q, s')"
        using r n0 fr p fl_pop_None[OF p] by (simp add: cuda_allocate_def)
      from driver_alloc_inv(1)[OF drv inv n this refl] show ?thesis using fr ha by simp
    next
      case (Some q')
      then obtain fl where p: "fl_pop n (free_lst s) = (Some q', fl)" by (cases "fl_pop n (free_lst s)") auto
      have s': "q' = q" "s' = s\<lparr>free_lst := fl\<rparr>" using r n0 fr p by (auto simp: cuda_allocate_def)
      note P = fl_pop_Some[OF L(1) p]
      have part: "pairs (live (driver_state s)) = add_mset (q, n) (pairs hv + (fl_blocks fl + lost + lent s))"
        using L(4) P(1) s' by (simp add: ac_simps)
      then have "q \<notin> fst ` set_mset (pairs hv)" by (rule fresh_not_cached)
      then have none: "hv q = None" using image_eqI[of q fst "(q, the (hv q))" "set_mset (pairs hv)"] by (cases "hv q") auto
      have "fl_total fl \<le> fl_total (free_lst s)"
      proof -
        have "fl_bytes (free_lst s) < 2 ^ 64"
        proof -
          have "fl_bytes (free_lst s) \<le> sum_mset (image_mset (\<lambda>b. unat (snd b)) (pairs (live (driver_state s))))"
            using L(4) by (simp add: fl_bytes_def)
          then show ?thesis using block_bytes_bound[OF L(3)] by (simp add: pairs_bytes)
        qed
        moreover have "fl_bytes fl \<le> fl_bytes (free_lst s)" using P(1) by (simp add: fl_bytes_def)
        ultimately show ?thesis using L(1) P(2) by (simp add: fl_ok_def word_le_nat_alt unat_of_nat)
      qed
      then have "fl_total fl \<le> free_list_cap_bytes s" using L(2) by (rule order_trans)
      moreover have "pairs (live (driver_state s)) = fl_blocks fl + pairs (hv(q \<mapsto> n)) + lost + lent s"
        using part none by (simp add: pairs_insert ac_simps)
      moreover have "captured_ptrs s = {}" using L(7) fr by simp
      ultimately have "cuda_inv live s' (hv(q \<mapsto> n)) ha lost" using inv P by (simp add: cuda_inv_def s')
      then show ?thesis using none ha fr by simp
    qed
  qed
qed

lemma cuda_allocate_error:
  assumes drv: "driver_ok drv live" and inv: "cuda_inv live s hv ha lost"
    and n: "0 < unat n" "unat n < 2 ^ 63" and r: "cuda_allocate drv n s = (Inl e, s')"
  shows "cuda_inv live s' hv ha lost \<and> e = OutOfMemory n"
proof -
  have n0: "n \<noteq> 0" using n by auto
  have oom: "driver_alloc drv n t = (Inl e, t') \<Longrightarrow> e = OutOfMemory n" for t t'
    by (auto simp: driver_alloc_def Let_def split: prod.splits option.splits)
  show ?thesis
  proof (cases "c_frozen s \<and> has_arena s")
    case True
    then obtain a where a: "arena s = Some a" by (auto simp: has_arena_def)
    then obtain a' where a': "arena_allocate n a = (Inl e, a')" "s' = s\<lparr>arena := Some a'\<rparr>"
      using r n0 True by (auto simp: cuda_allocate_def split: prod.splits sum.splits)
    with arena_allocate_error[OF a'(1)] a have "s' = s" by simp
    then show ?thesis using inv arena_allocate_error[OF a'(1)] by simp
  next
    case False
    then have "driver_alloc drv n s = (Inl e, s')"
      using r n0 fl_pop_None[of n "free_lst s"]
      by (auto simp: cuda_allocate_def has_arena_def split: prod.splits sum.splits option.splits if_splits)
    with driver_alloc_inv(2)[OF drv inv n this refl] oom show ?thesis by blast
  qed
qed

text \<open>Deallocation: outside a window the block is cached or evicts others; inside it reaches the driver or is lost.\<close>

lemma cuda_deallocate_frozen:
  assumes drv: "driver_ok drv live" and inv: "cuda_inv live s hv ha lost" and fr: "c_frozen s"
  shows "ha q = Some n \<Longrightarrow> cuda_inv live (cuda_deallocate drv q n s) hv (ha(q := None)) lost"
    and "hv q = Some n \<Longrightarrow> cuda_inv live (cuda_deallocate drv q n s) (hv(q := None)) ha
        (if has_arena s then add_mset (q, n) lost else lost)"
proof -
  note L = cuda_invD[OF inv]
  note H = held_blocks_ok[OF inv]
  have q0: "q \<noteq> 0" if "(hv ++ ha) q = Some n" using blocks_okD[OF H(1) that] by auto
  show "cuda_inv live (cuda_deallocate drv q n s) hv (ha(q := None)) lost" if q: "ha q = Some n"
  proof -
    obtain a where a: "arena s = Some a" using q L(5) by (cases "arena s") auto
    have "q \<noteq> 0" using q0 q by simp
    then have s': "cuda_deallocate drv q n s = s\<lparr>arena := Some (arena_deallocate q a)\<rparr>"
      using fr a by (simp add: cuda_deallocate_def)
    have "arena_ok (arena_deallocate q a) (ha(q := None))"
      by (rule arena_ok_submap[OF L(6)[OF a]]) (simp_all add: map_le_def)
    then show ?thesis using inv a fr unfolding s' by (simp add: cuda_inv_def lent_def)
  qed
  show "cuda_inv live (cuda_deallocate drv q n s) (hv(q := None)) ha (if has_arena s then add_mset (q, n) lost else lost)"
    if q: "hv q = Some n"
  proof -
    have "ha q = None" using H(2) q by blast
    then have q0': "q \<noteq> 0" using q0 q by (simp add: map_add_dom_app_simps(3) domIff)
    note pr = pairs_remove[of hv q n, OF q]
    show ?thesis
    proof (cases "arena s")
      case None
      have lv: "live (driver_state s) q = Some n" using held_from_driver[OF inv] q by (metis domI map_le_def)
      have s': "cuda_deallocate drv q n s = s\<lparr>driver_state := drv_free drv q (driver_state s)\<rparr>"
        using q0' fr None by (simp add: cuda_deallocate_def driver_free_def)
      have "pairs (live (driver_state s)) = mset [(q, n)] + (fl_blocks (free_lst s) + (pairs (hv(q := None)) + lost + lent s))"
        using L(4) pr by simp
      from free_all[OF drv L(3) this] show ?thesis
        using inv None unfolding s' by (simp add: cuda_inv_def has_arena_def add.assoc)
    next
      case (Some a)
      have s': "cuda_deallocate drv q n s = s\<lparr>arena := Some (arena_deallocate q a)\<rparr>"
        using q0' fr Some by (simp add: cuda_deallocate_def)
      have "arena_ok (arena_deallocate q a) ha"
        by (rule arena_ok_submap[OF L(6)[OF Some]]) simp_all
      then show ?thesis
        using inv Some pr fr unfolding s' by (simp add: cuda_inv_def lent_def has_arena_def ac_simps)
    qed
  qed
qed

text \<open>The block enters its bucket, pushing out the oldest of its size when the bucket is full.\<close>

lemma bucket_insert:
  assumes ok: "fl_ok fl"
    and r: "(case map_of (fl_map fl) n of
                 Some bucket \<Rightarrow>
                   if free_list_cap \<le> length bucket
                   then (case bucket of old # rest \<Rightarrow> ([old], bucket_set n (rest @ [q]) fl)
                         | [] \<Rightarrow> ([], bucket_set n [q] fl))
                   else ([], fl_push n q fl)
               | None \<Rightarrow> ([], fl_push n q fl)) = (ev, fl')"
  shows "fl_ok fl' \<and> (\<exists>B. ev = map fst B \<and> add_mset (q, n) (fl_blocks fl) = mset B + fl_blocks fl')"
proof (cases "\<exists>b. map_of (fl_map fl) n = Some b \<and> free_list_cap \<le> length b")
  case True
  then obtain b where b': "map_of (fl_map fl) n = Some b" "free_list_cap \<le> length b" by blast
  then obtain old rest where "b = old # rest" by (cases b) (auto simp: free_list_cap_def)
  with b' have b: "map_of (fl_map fl) n = Some (old # rest)" "free_list_cap \<le> Suc (length rest)" by auto
  then have r': "ev = [old]" "fl' = bucket_set n (rest @ [q]) fl" using r by auto
  have len: "length (rest @ [q]) \<le> free_list_cap" using bucket_length[OF ok b(1)] by simp
  have "fl_blocks fl' + {#(old, n)#} = fl_blocks fl + {#(q, n)#}"
    using fl_blocks_bucket[of fl n "rest @ [q]"] ok b(1)
      add_right_cancel[of "fl_blocks fl' + {#(old, n)#}" "mset (map (\<lambda>q. (q, n)) rest)" "fl_blocks fl + {#(q, n)#}"]
    unfolding r'(2) by (simp add: fl_ok_def ac_simps)
  then have e: "add_mset (q, n) (fl_blocks fl) = mset [(old, n)] + fl_blocks fl'" by simp
  have "fl_bytes fl' = fl_bytes fl"
    using arg_cong[OF e, of "\<lambda>M. sum_mset (image_mset (\<lambda>b. unat (snd b)) M)"] by (simp add: fl_bytes_def)
  then have "fl_ok fl'"
    using ok fl_ok_bucket[OF ok len, of n] by (simp add: fl_ok_def r'(2)) (simp add: bucket_set_def)
  then show ?thesis using e r'(1) by (intro conjI exI[of _ "[(old, n)]"]) simp_all
next
  case False
  then have "ev = []" "fl' = fl_push n q fl" using r by (auto split: option.splits if_splits)
  moreover have "fl_ok (fl_push n q fl)" using False by (intro fl_push_ok[OF ok]) force
  ultimately show ?thesis using fl_push_blocks[OF ok] by simp
qed

lemma cuda_deallocate_unfrozen:
  assumes drv: "driver_ok drv live" and inv: "cuda_inv live s hv ha lost" and fr: "\<not> c_frozen s" and q: "hv q = Some n"
  shows "cuda_inv live (cuda_deallocate drv q n s) (hv(q := None)) ha lost"
proof -
  note L = cuda_invD[OF inv]
  have "blocks_ok hv" by (rule blocks_ok_submap[OF L(3) held_from_driver[OF inv]])
  with blocks_okD[OF this q] have q0: "q \<noteq> 0" by auto
  obtain ev fl1 where b: "(case map_of (fl_map (free_lst s)) n of
                 Some bucket \<Rightarrow>
                   if free_list_cap \<le> length bucket
                   then (case bucket of old # rest \<Rightarrow> ([old], bucket_set n (rest @ [q]) (free_lst s))
                         | [] \<Rightarrow> ([], bucket_set n [q] (free_lst s)))
                   else ([], fl_push n q (free_lst s))
               | None \<Rightarrow> ([], fl_push n q (free_lst s))) = (ev, fl1)" by fastforce
  obtain B1 where B1: "fl_ok fl1" "ev = map fst B1" "add_mset (q, n) (fl_blocks (free_lst s)) = mset B1 + fl_blocks fl1"
    using bucket_insert[OF L(1) b] by blast
  obtain ev2 fl2 where e: "fl_evict_to_cap (free_list_cap_bytes s) fl1 = (ev2, fl2)" by fastforce
  obtain B2 where B2: "ev2 = map fst B2" "fl_blocks fl1 = mset B2 + fl_blocks fl2" "fl_ok fl2"
      "fl_total fl2 \<le> free_list_cap_bytes s"
    using evict_loop_cap[OF B1(1), of "free_list_cap_bytes s" "[]" ev2 fl2] e by (auto simp: fl_evict_to_cap_def)
  let ?d = "fold (drv_free drv) (map fst (B1 @ B2)) (driver_state s)"
  have s': "cuda_deallocate drv q n s = s\<lparr>free_lst := fl2, driver_state := ?d\<rparr>"
    unfolding cuda_deallocate_def Let_def b using q0 fr e by (simp add: fold_driver_free B1(2) B2(1))
  have "pairs (live (driver_state s)) = mset (B1 @ B2) + (fl_blocks fl2 + (pairs (hv(q := None)) + lost + lent s))"
    using L(4) pairs_remove[of hv q n, OF q] B1(3) B2(2) by (simp add: ac_simps)
  from free_all[OF drv L(3) this] B2(3,4) show ?thesis
    using inv L(7)[OF fr] unfolding s' by (simp add: cuda_inv_def ac_simps)
qed

text \<open>The window itself: freezing, the arena's installation and removal, unfreezing, reset.\<close>

lemma cuda_freeze_inv: "cuda_inv live s hv ha lost \<Longrightarrow> cuda_inv live (snd (cuda_freeze s)) hv ha lost"
  by (simp add: cuda_inv_def cuda_freeze_def split: option.splits)

text \<open>The buffer of a removed arena belongs to its owner again.\<close>

definition returned :: "'d cuda_allocator \<Rightarrow> blocks \<Rightarrow> blocks" where
  "returned s hv = (case arena s of None \<Rightarrow> hv | Some a \<Rightarrow> hv(a_base a \<mapsto> a_size a))"

lemma clear_arena_inv:
  assumes inv: "cuda_inv live s hv ha lost"
  shows "cuda_inv live (clear_arena s) (returned s hv) Map.empty lost"
proof (cases "arena s")
  case None
  then show ?thesis using inv by (simp add: cuda_inv_def clear_arena_def returned_def lent_def)
next
  case (Some a)
  have part: "pairs (live (driver_state s)) = add_mset (a_base a, a_size a) (pairs hv + (fl_blocks (free_lst s) + lost))"
    using cuda_invD(4)[OF inv] Some by (simp add: lent_def ac_simps)
  then have "a_base a \<notin> fst ` set_mset (pairs hv)" by (rule fresh_not_cached)
  then have "hv (a_base a) = None"
    using image_eqI[of "a_base a" fst "(a_base a, the (hv (a_base a)))" "set_mset (pairs hv)"] by (cases "hv (a_base a)") auto
  then show ?thesis
    using inv Some part by (simp add: cuda_inv_def clear_arena_def returned_def lent_def pairs_insert ac_simps)
qed

lemma cuda_unfreeze_inv:
  assumes inv: "cuda_inv live s hv ha lost"
  shows "\<exists>s'. cuda_unfreeze s = Some s' \<and> cuda_inv live s' (returned s hv) Map.empty lost"
proof -
  let ?s = "(clear_arena s)\<lparr>c_frozen := False, captured_ptrs := {}\<rparr>"
  have eq: "clear_arena (s\<lparr>c_frozen := False\<rparr>)\<lparr>captured_ptrs := {}\<rparr> = ?s" by (simp add: clear_arena_def)
  have "list_all (\<lambda>(_, bucket). list_all (\<lambda>q. q \<notin> captured_ptrs s) bucket) (fl_map (free_lst s))"
  proof -
    have "(q, n) \<in># fl_blocks (free_lst s)" if "(n, b) \<in> set (fl_map (free_lst s))" "q \<in> set b" for q n b
      using that by (force simp: fl_blocks_def)
    then have "q \<notin> captured_ptrs s" if "(n, b) \<in> set (fl_map (free_lst s))" "q \<in> set b" for q n b
      using cuda_invD(9)[OF inv] that by (metis IntI emptyE fst_conv image_eqI)
    then show ?thesis by (auto simp: list_all_iff)
  qed
  then have "cuda_unfreeze s = Some ?s"
    by (auto simp: cuda_unfreeze_def Let_def eq clear_arena_def case_prod_unfold)
  moreover have "cuda_inv live ?s (returned s hv) Map.empty lost"
    using clear_arena_inv[OF inv] by (simp add: cuda_inv_def lent_def[of ?s] lent_def[of "clear_arena s"] split: option.splits)
  ultimately show ?thesis by blast
qed

lemma install_arena_inv:
  assumes inv: "cuda_inv live s hv ha lost" and h: "hv base = Some sz" "unat sz < 2 ^ 63"
    and r: "install_arena base sz s = (Inr (), s')"
  shows "cuda_inv live s' (hv(base := None)) ha lost"
proof -
  have s': "arena s = None" "s' = s\<lparr>arena := Some (arena_new base sz)\<rparr>"
    using r by (auto simp: install_arena_def split: if_splits)
  have ha: "ha = Map.empty" using cuda_invD(5)[OF inv s'(1)] .
  have "blocks_ok hv" by (rule blocks_ok_submap[OF cuda_invD(3)[OF inv] held_from_driver[OF inv]])
  from blocks_okD[OF this h(1)] h(2) have "arena_ok (arena_new base sz) Map.empty"
    by (simp add: arena_ok_def arena_new_def)
  then show ?thesis
    using inv s' ha pairs_remove[of hv base sz, OF h(1)]
    by (simp add: cuda_inv_def lent_def arena_new_def ac_simps)
qed

lemma cuda_reset_inv:
  assumes drv: "driver_ok drv live" and inv: "cuda_inv live s hv ha lost"
  shows "cuda_inv live (snd (cuda_reset drv s)) hv ha lost \<and> fl_map (free_lst (snd (cuda_reset drv s))) = []"
proof -
  note L = cuda_invD[OF inv]
  obtain ds where ds: "fl_drain (free_lst s) = (ds, fl_empty)" using fl_drain_blocks by (metis surj_pair)
  then obtain B where B: "ds = map fst B" "mset B = fl_blocks (free_lst s)" using fl_drain_blocks by blast
  have s': "snd (cuda_reset drv s) = s\<lparr>free_lst := fl_empty, driver_state := fold (drv_free drv) (map fst B) (driver_state s)\<rparr>"
    using ds B(1) by (simp add: cuda_reset_def fold_driver_free)
  have "pairs (live (driver_state s)) = mset B + (pairs hv + lost + lent s)" using L(4) B(2) by simp
  from free_all[OF drv L(3) this] show ?thesis
    using inv unfolding s' by (simp add: cuda_inv_def add.assoc) (simp add: fl_empty_def)
qed

section \<open>The allocator satisfies the interface\<close>

definition cuda_rel :: "'d driver \<times> ('d \<Rightarrow> blocks) \<Rightarrow> 'd cuda_allocator \<Rightarrow> blocks \<Rightarrow> bool" where
  "cuda_rel p s h \<longleftrightarrow> driver_ok (fst p) (snd p) \<and> (\<exists>hv ha lost. h = hv ++ ha \<and> cuda_inv (snd p) s hv ha lost)"

interpretation cuda_alloc: allocator cuda_rel "\<lambda>p. cuda_allocate (fst p)" "\<lambda>p. cuda_deallocate (fst p)"
proof
  fix p :: "'d driver \<times> ('d \<Rightarrow> blocks)" and s s' h n q e
  assume r: "cuda_rel p s h"
  then obtain hv ha lost where h: "h = hv ++ ha" and inv: "cuda_inv (snd p) s hv ha lost"
    and drv: "driver_ok (fst p) (snd p)" by (auto simp: cuda_rel_def)
  show "blocks_ok h" unfolding h by (rule held_blocks_ok(1)[OF inv])
  show "h q = None \<and> cuda_rel p s' (h(q \<mapsto> n))"
    if "0 < unat n" "unat n < 2 ^ 63" "cuda_allocate (fst p) n s = (Inr q, s')"
  proof -
    note A = cuda_allocate_ok[OF drv inv that]
    have "(hv ++ ha)(q \<mapsto> n) = hv(q \<mapsto> n) ++ ha" using A by (simp add: map_add_upd_left domIff)
    moreover have "(hv ++ ha)(q \<mapsto> n) = hv ++ ha(q \<mapsto> n)" by simp
    ultimately have "cuda_rel p s' (h(q \<mapsto> n))"
      using A drv unfolding cuda_rel_def h by (metis (no_types))
    then show ?thesis using A by (simp add: h map_add_None)
  qed
  show "cuda_rel p s' h"
    if "0 < unat n" "unat n < 2 ^ 63" "cuda_allocate (fst p) n s = (Inl e, s')"
    using cuda_allocate_error[OF drv inv that] drv h by (auto simp: cuda_rel_def)
  show "cuda_rel p (cuda_deallocate (fst p) q n s) (h(q := None))" if q: "h q = Some n"
  proof (cases "ha q")
    case (Some m)
    then have m: "m = n" using q by (simp add: h map_add_def)
    have fr: "c_frozen s" using cuda_invD(8)[OF inv] Some by fastforce
    have "hv q = None" using held_blocks_ok(2)[OF inv] Some by blast
    then have "h(q := None) = hv ++ (ha(q := None))" by (auto simp: h map_add_def fun_eq_iff)
    with cuda_deallocate_frozen(1)[OF drv inv fr Some] m drv show ?thesis unfolding cuda_rel_def by blast
  next
    case None
    then have v: "hv q = Some n" using q by (simp add: h map_add_def)
    have "h(q := None) = hv(q := None) ++ ha" using None by (auto simp: h map_add_def fun_eq_iff split: option.splits)
    with cuda_deallocate_frozen(2)[OF drv inv _ v] cuda_deallocate_unfrozen[OF drv inv _ v] drv show ?thesis
      unfolding cuda_rel_def by blast
  qed
qed

section \<open>Properties of every run\<close>

text \<open>
  Runs of an allocator, one call after the other: \<open>hv\<close> and \<open>ha\<close> are the blocks that callers hold from the driver and
  from the arena, \<open>stale\<close> the arena blocks that callers still hold from windows that are over. Callers give back only
  what they hold, with the size they asked for; the owner of a driver block may install it as the arena, and gets it
  back when the arena is removed. A caller may also give back an arena block after its window (the call the source's
  comments on \<open>captured_ptrs\<close> describe): \<open>late\<close> records whether this has happened. The calls of several threads on
  one allocator are not interleaved: \<open>allocate\<close>, \<open>deallocate\<close> and \<open>unfreeze\<close> take more than one lock, or none
  for the freeze flag, so their steps could be.
\<close>

inductive cuda_run :: "'d driver \<Rightarrow> usize \<Rightarrow> u64 \<Rightarrow> 'd \<Rightarrow> 'd cuda_allocator \<Rightarrow> blocks \<Rightarrow> blocks \<Rightarrow>
    (ptr \<times> usize) set \<Rightarrow> (ptr \<times> usize) multiset \<Rightarrow> bool \<Rightarrow> bool" for drv cap pool d where
  start: "cuda_run drv cap pool d (cuda_new cap pool d) Map.empty Map.empty {} {#} False"
| alloc_driver: "cuda_run drv cap pool d s hv ha stale lost late \<Longrightarrow> 0 < unat n \<Longrightarrow> unat n < 2 ^ 63 \<Longrightarrow>
    \<not> (c_frozen s \<and> has_arena s) \<Longrightarrow> cuda_allocate drv n s = (Inr q, s') \<Longrightarrow>
    cuda_run drv cap pool d s' (hv(q \<mapsto> n)) ha stale lost late"
| alloc_arena: "cuda_run drv cap pool d s hv ha stale lost late \<Longrightarrow> 0 < unat n \<Longrightarrow> unat n < 2 ^ 63 \<Longrightarrow>
    c_frozen s \<Longrightarrow> has_arena s \<Longrightarrow> cuda_allocate drv n s = (Inr q, s') \<Longrightarrow>
    cuda_run drv cap pool d s' hv (ha(q \<mapsto> n)) stale lost late"
| alloc_zero: "cuda_run drv cap pool d s hv ha stale lost late \<Longrightarrow>
    cuda_run drv cap pool d (snd (cuda_allocate drv 0 s)) hv ha stale lost late"
| alloc_fail: "cuda_run drv cap pool d s hv ha stale lost late \<Longrightarrow> 0 < unat n \<Longrightarrow> unat n < 2 ^ 63 \<Longrightarrow>
    cuda_allocate drv n s = (Inl e, s') \<Longrightarrow> cuda_run drv cap pool d s' hv ha stale lost late"
| dealloc_null: "cuda_run drv cap pool d s hv ha stale lost late \<Longrightarrow>
    cuda_run drv cap pool d (cuda_deallocate drv 0 n s) hv ha stale lost late"
| dealloc_arena: "cuda_run drv cap pool d s hv ha stale lost late \<Longrightarrow> ha q = Some n \<Longrightarrow>
    cuda_run drv cap pool d (cuda_deallocate drv q n s) hv (ha(q := None)) stale lost late"
| dealloc_driver: "cuda_run drv cap pool d s hv ha stale lost late \<Longrightarrow> hv q = Some n \<Longrightarrow>
    cuda_run drv cap pool d (cuda_deallocate drv q n s) (hv(q := None)) ha stale
      (if c_frozen s \<and> has_arena s then add_mset (q, n) lost else lost) late"
| dealloc_late: "cuda_run drv cap pool d s hv ha stale lost late \<Longrightarrow> (q, n) \<in> stale \<Longrightarrow>
    cuda_run drv cap pool d (cuda_deallocate drv q n s) hv ha (stale - {(q, n)}) lost True"
| freeze: "cuda_run drv cap pool d s hv ha stale lost late \<Longrightarrow> cuda_run drv cap pool d (snd (cuda_freeze s)) hv ha stale lost late"
| install: "cuda_run drv cap pool d s hv ha stale lost late \<Longrightarrow> hv base = Some sz \<Longrightarrow> unat sz < 2 ^ 63 \<Longrightarrow>
    install_arena base sz s = (Inr (), s') \<Longrightarrow> cuda_run drv cap pool d s' (hv(base := None)) ha stale lost late"
| install_again: "cuda_run drv cap pool d s hv ha stale lost late \<Longrightarrow>
    install_arena base sz s = (Inl e, s') \<Longrightarrow> cuda_run drv cap pool d s' hv ha stale lost late"
| clear: "cuda_run drv cap pool d s hv ha stale lost late \<Longrightarrow>
    cuda_run drv cap pool d (clear_arena s) (returned s hv) Map.empty (stale \<union> Map.graph ha) lost late"
| unfreeze: "cuda_run drv cap pool d s hv ha stale lost late \<Longrightarrow> cuda_unfreeze s = Some s' \<Longrightarrow>
    cuda_run drv cap pool d s' (returned s hv) Map.empty (stale \<union> Map.graph ha) lost late"
| reset: "cuda_run drv cap pool d s hv ha stale lost late \<Longrightarrow> cuda_run drv cap pool d (snd (cuda_reset drv s)) hv ha stale lost late"

lemma cuda_run_inv:
  assumes drv: "driver_ok drv live" and d: "live d = Map.empty" and run: "cuda_run drv cap pool d s hv ha stale lost late"
    and no: "\<not> late"
  shows "cuda_inv live s hv ha lost"
  using run no
proof induction
  case start
  show ?case using cuda_new_inv[of live d] d by simp
next
  case (alloc_driver s hv ha stale lost late n q s')
  from cuda_allocate_ok[OF drv alloc_driver.IH[OF alloc_driver.prems] alloc_driver(2,3,5)] alloc_driver(4) show ?case by metis
next
  case (alloc_arena s hv ha stale lost late n q s')
  from cuda_allocate_ok[OF drv alloc_arena.IH[OF alloc_arena.prems] alloc_arena(2,3,6)] alloc_arena(4,5) show ?case by metis
next
  case (alloc_fail s hv ha stale lost late n e s')
  from cuda_allocate_error[OF drv alloc_fail.IH[OF alloc_fail.prems] alloc_fail(2-4)] show ?case ..
next
  case (dealloc_arena s hv ha stale lost late q n)
  then have "c_frozen s" using cuda_invD(8)[OF dealloc_arena.IH[OF dealloc_arena.prems]] by fastforce
  from cuda_deallocate_frozen(1)[OF drv dealloc_arena.IH[OF dealloc_arena.prems] this] dealloc_arena(2) show ?case by blast
next
  case (dealloc_driver s hv ha stale lost late q n)
  then show ?case
    using cuda_deallocate_frozen(2)[OF drv dealloc_driver.IH[OF dealloc_driver.prems] _ dealloc_driver(2)]
      cuda_deallocate_unfrozen[OF drv dealloc_driver.IH[OF dealloc_driver.prems] _ dealloc_driver(2)] by (cases "c_frozen s") (simp_all del: fun_upd_apply)
next
  case (install s hv ha stale lost late base sz s')
  then show ?case using install_arena_inv by blast
next
  case (install_again s hv ha stale lost late base sz e s')
  then show ?case by (auto simp: install_arena_def split: if_splits)
next
  case (clear s hv ha stale lost late)
  then show ?case using clear_arena_inv by blast
next
  case (unfreeze s hv ha stale lost late s')
  then show ?case using cuda_unfreeze_inv by fastforce
next
  case (reset s hv ha stale lost late)
  then show ?case using cuda_reset_inv[OF drv] by blast
qed (simp_all add: cuda_allocate_def cuda_deallocate_def cuda_freeze_inv)

text \<open>A driver for concrete runs: blocks are served one after the other.\<close>

definition bump_driver :: "(ptr \<times> usize) list driver" where
  "bump_driver = \<lparr>drv_alloc = (\<lambda>n w. case bump_alloc n w of (Inr q, w) \<Rightarrow> (Some q, w) | (Inl e, w) \<Rightarrow> (None, w)),
     drv_free = (\<lambda>q. bump_free q 0), drv_sync = id, drv_trim = id\<rparr>"

lemma bump_driver_ok: "driver_ok bump_driver map_of"
  unfolding driver_ok_def
proof (intro allI impI conjI)
  fix w w' :: "(ptr \<times> usize) list" and n :: usize and q :: ptr
  assume ok: "blocks_ok (map_of w)" and n: "0 < unat n" "unat n < 2 ^ 63"
  note H = heap_functionsD[OF bump_heap ok]
  {
    assume "drv_alloc bump_driver n w = (Some q, w')"
    then have "bump_alloc n w = (Inr q, w')" by (simp add: bump_driver_def split: prod.splits sum.splits)
    from H(1)[OF n this] show "map_of w q = None" "map_of w' = (map_of w)(q \<mapsto> n)" "blocks_ok (map_of w')" by auto
  next
    assume "drv_alloc bump_driver n w = (None, w')"
    then obtain e where "bump_alloc n w = (Inl e, w')" by (auto simp: bump_driver_def split: prod.splits sum.splits)
    from H(2)[OF n this] show "map_of w' = map_of w" .
  }
qed (simp_all add: bump_driver_def map_of_bump_free)

lemma sample_run:
  defines "s1 \<equiv> snd (cuda_allocate bump_driver 100 (cuda_new 1000 0 []))"
  defines "s2 \<equiv> snd (cuda_freeze (cuda_deallocate bump_driver 1 100 s1))"
  shows "cuda_run bump_driver 1000 0 [] s2 Map.empty Map.empty {} {#} False" and "fl_map (free_lst s2) = [(100, [1])]"
    and "c_frozen s2" and "arena s2 = None" and "fl_total (free_lst s2) = 100" and "driver_state s2 = [(1, 100)]"
proof -
  note ev = cuda_allocate_def cuda_deallocate_def cuda_new_def bump_driver_def bump_alloc_def bump_free_def
    bump_end_def fl_pop_def fl_push_def fl_empty_def bucket_set_def driver_alloc_def fl_evict_to_cap_def evict_loop_under
    free_list_cap_def cuda_freeze_def
  have a: "cuda_allocate bump_driver 100 (cuda_new 1000 0 []) = (Inr 1, s1)" by (simp add: s1_def ev)
  have "cuda_run bump_driver 1000 0 [] s1 [1 \<mapsto> 100] Map.empty {} {#} False"
    by (rule cuda_run.alloc_driver[OF cuda_run.start _ _ _ a]) (simp_all add: cuda_new_def)
  from cuda_run.dealloc_driver[OF this, of 1 100]
  have "cuda_run bump_driver 1000 0 [] (cuda_deallocate bump_driver 1 100 s1) Map.empty Map.empty {} {#} False"
    by (simp add: s1_def ev)
  then show "cuda_run bump_driver 1000 0 [] s2 Map.empty Map.empty {} {#} False" unfolding s2_def by (rule cuda_run.freeze)
  show "fl_map (free_lst s2) = [(100, [1])]" "c_frozen s2" "arena s2 = None" "fl_total (free_lst s2) = 100"
    "driver_state s2 = [(1, 100)]"
    by (simp_all add: s2_def s1_def ev)
qed

text \<open>
  What a late deallocation does. The caller keeps an arena block past its window, gives it back, and the arena's owner
  uses the same buffer for a second window: the free list holds an address that is no block of the driver, a later
  allocation of that size would hand it out while the buffer is still in use, and at the end of the second window the
  assertion of \<open>unfreeze\<close> fires (in a debug build; a release build compiles it away).
\<close>

lemma late_deallocation_corrupts:
  "\<exists>s hv ha stale lost. cuda_run bump_driver 10000 0 [] s hv ha stale lost True \<and> map_of (driver_state s) = [1 \<mapsto> 1024] \<and>
     (1, 100) \<in># fl_blocks (free_lst s) \<and> cuda_unfreeze s = None"
proof -
  note ev = cuda_allocate_def cuda_deallocate_def cuda_new_def bump_driver_def bump_alloc_def bump_free_def
    bump_end_def fl_pop_def fl_push_def fl_empty_def bucket_set_def driver_alloc_def fl_evict_to_cap_def evict_loop_under
    free_list_cap_def cuda_freeze_def cuda_unfreeze_def install_arena_def clear_arena_def has_arena_def arena_new_def
    arena_allocate_def align_up_def returned_def
  let ?frozen = "\<lambda>fl hw rs cap. \<lparr>free_lst = fl, free_list_cap_bytes = 10000, c_frozen = True, captured_ptrs = cap,
    pool_handle = 0, arena = Some \<lparr>a_base = 1, a_size = 1024, high_water = hw, live_regions = rs\<rparr>, driver_state = [(1 :: ptr, 1024 :: usize)]\<rparr>"
  let ?idle = "\<lambda>fl. \<lparr>free_lst = fl, free_list_cap_bytes = 10000, c_frozen = False, captured_ptrs = {},
    pool_handle = 0, arena = None, driver_state = [(1, 1024)]\<rparr>"
  let ?fl = "\<lparr>fl_map = [(100, [1])], fl_total = 100\<rparr>"
  let ?run = "cuda_run bump_driver 10000 0 []"
  have "?run (?idle fl_empty) ([1 \<mapsto> 1024]) Map.empty {} {#} False"
    by (rule cuda_run.alloc_driver[OF cuda_run.start]) (simp_all add: ev)
  from cuda_run.install[OF this, of 1 1024] cuda_run.freeze
  have "?run (?frozen fl_empty 0 [] {}) Map.empty Map.empty {} {#} False" by (fastforce simp: ev)
  then have w: "?run (?frozen fl_empty 256 [(0, 256)] {1}) Map.empty [1 \<mapsto> 100] {} {#} False"
    by (rule cuda_run.alloc_arena[where n = 100]) (simp_all add: ev)
  have "cuda_unfreeze (?frozen fl_empty 256 [(0, 256)] {1}) = Some (?idle fl_empty)" by (simp add: ev)
  note u = cuda_run.unfreeze[OF w this]
  have "returned (?frozen fl_empty 256 [(0, 256)] {1}) Map.empty = [1 \<mapsto> 1024]" by (simp add: returned_def)
  moreover have "Map.graph [1 \<mapsto> 100] = {(1 :: ptr, 100 :: usize)}" by (auto simp: Map.graph_def split: if_splits)
  ultimately have "?run (?idle fl_empty) [1 \<mapsto> 1024] Map.empty {(1, 100)} {#} False" using u by simp
  from cuda_run.dealloc_late[OF this, of 1 100]
  have "?run (?idle ?fl) [1 \<mapsto> 1024] Map.empty {} {#} True" by (simp add: ev)
  from cuda_run.install[OF this, of 1 1024] cuda_run.freeze
  have "?run (?frozen ?fl 0 [] {}) Map.empty Map.empty {} {#} True" by (fastforce simp: ev)
  then have "?run (?frozen ?fl 256 [(0, 256)] {1}) Map.empty [1 \<mapsto> 100] {} {#} True"
    by (rule cuda_run.alloc_arena[where n = 100]) (simp_all add: ev)
  moreover have "(1, 100) \<in># fl_blocks ?fl" by (simp add: fl_blocks_def)
  ultimately show ?thesis by (fastforce simp: ev)
qed



text \<open>
  C14. The graph-corruption assertion never fires as long as no caller gives an arena block back after its window is
  over. In every such run, \<open>unfreeze\<close> finds no pointer of the freeze window in the free list, so it returns;
  afterwards the allocator is not frozen, has no arena and has forgotten the window's pointers. After a late
  deallocation it can fire (\<open>late_deallocation_corrupts\<close>).
\<close>

theorem unfreeze_never_panics:
  assumes "driver_ok drv live" and "live d = Map.empty" and "cuda_run drv cap pool d s hv ha stale lost False"
  shows "\<exists>s'. cuda_unfreeze s = Some s' \<and> \<not> cuda_is_frozen s' \<and> \<not> has_arena s' \<and> captured_ptrs s' = {}"
proof -
  obtain s' where "cuda_unfreeze s = Some s'" using cuda_unfreeze_inv[OF cuda_run_inv[OF assms]] by blast
  then show ?thesis
    by (auto simp: cuda_unfreeze_def Let_def cuda_is_frozen_def has_arena_def clear_arena_def split: if_splits)
qed

lemma unfreeze_never_panics_witness:
  "cuda_unfreeze (snd (cuda_freeze (cuda_deallocate bump_driver 1 100
     (snd (cuda_allocate bump_driver 100 (cuda_new 1000 0 [])))))) \<noteq> None"
  using unfreeze_never_panics[OF bump_driver_ok _ sample_run(1)] by auto

section \<open>The arena is monotone\<close>

text \<open>A session of an arena: \<open>ns\<close> are the sizes served so far and \<open>qs\<close> the addresses, in order.\<close>

inductive arena_session :: "ptr \<Rightarrow> usize \<Rightarrow> cuda_arena \<Rightarrow> usize list \<Rightarrow> ptr list \<Rightarrow> bool" for base sz where
  start: "arena_session base sz (arena_new base sz) [] []"
| alloc: "arena_session base sz a ns qs \<Longrightarrow> 0 < unat n \<Longrightarrow> unat n < 2 ^ 63 \<Longrightarrow> arena_allocate n a = (Inr q, a') \<Longrightarrow>
    arena_session base sz a' (ns @ [n]) (qs @ [q])"
| alloc_fail: "arena_session base sz a ns qs \<Longrightarrow> arena_allocate n a = (Inl e, a') \<Longrightarrow> arena_session base sz a' ns qs"
| dealloc: "arena_session base sz a ns qs \<Longrightarrow> arena_session base sz (arena_deallocate q a) ns qs"

definition aligned_256 :: "usize \<Rightarrow> nat" where
  "aligned_256 n = (unat n + 255) div 256 * 256"

lemma arena_session_inv:
  assumes "0 < unat base" and "unat base + unat sz \<le> 2 ^ 64" and "unat sz < 2 ^ 63"
  shows "arena_session base sz a ns qs \<Longrightarrow> arena_ok a Map.empty \<and> a_base a = base \<and> a_size a = sz \<and>
     length qs = length ns \<and> unat (high_water a) = sum_list (map aligned_256 ns) \<and>
     (\<forall>k < length ns. unat (qs ! k) = unat base + sum_list (map aligned_256 (take k ns)))"
proof (induction rule: arena_session.induct)
  case start
  then show ?case using assms by (simp add: arena_new_def arena_ok_def)
next
  case (alloc a ns qs n q a')
  then have ok: "arena_ok a Map.empty" by simp
  note A = arena_allocate_ok[OF ok alloc(2-4)]
  have "arena_ok a' Map.empty" by (rule arena_ok_submap[OF A(2)]) simp_all
  then show ?case using alloc A(3-6) by (auto simp: nth_append less_Suc_eq aligned_256_def)
next
  case (alloc_fail a ns qs n e a')
  then show ?case using arena_allocate_error by blast
next
  case (dealloc a ns qs q)
  then show ?case using arena_ok_submap[of a Map.empty Map.empty "arena_deallocate q a"] by simp
qed

text \<open>
  C15. Arena addresses never alias. In a session on a buffer the \<open>k\<close>-th served request gets the
  address after all earlier requests, each rounded up to 256 bytes, whatever was deallocated in
  between; every region lies inside the buffer.
\<close>

theorem arena_strictly_monotone:
  assumes "0 < unat base" and "unat base + unat sz \<le> 2 ^ 64" and "unat sz < 2 ^ 63"
    and "arena_session base sz a ns qs" and "k < length ns"
  shows "unat (qs ! k) = unat base + sum_list (map aligned_256 (take k ns))
    \<and> unat (qs ! k) + unat (ns ! k) \<le> unat base + unat sz"
proof -
  note I = arena_session_inv[OF assms(1-4)]
  have "sum_list (map aligned_256 (take k ns)) + aligned_256 (ns ! k) \<le> sum_list (map aligned_256 ns)"
    using assms(5) by (subst (2) id_take_nth_drop[OF assms(5)]) simp
  moreover have "unat (ns ! k) \<le> aligned_256 (ns ! k)" by (simp add: aligned_256_def)
  moreover have "unat (high_water a) \<le> unat sz" using I by (auto simp: arena_ok_def word_le_nat_alt)
  ultimately show ?thesis using I assms(5) by simp
qed

lemma arena_strictly_monotone_witness:
  "unat (a_base (arena_new 4096 1024)) + 256 = unat (projr (fst (arena_allocate 8
     (arena_deallocate 4096 (snd (arena_allocate 100 (arena_new 4096 1024)))))))"
proof -
  define a1 where "a1 = snd (arena_allocate 100 (arena_new 4096 1024))"
  define a2 where "a2 = arena_deallocate 4096 a1"
  define a3 where "a3 = snd (arena_allocate 8 a2)"
  note ev = arena_allocate_def arena_new_def arena_deallocate_def align_up_def Let_def max_def
  have e1: "arena_allocate 100 (arena_new 4096 1024) = (Inr 4096, a1)" by (simp add: a1_def ev)
  have e3: "arena_allocate 8 a2 = (Inr 4352, a3)" by (simp add: a3_def a2_def a1_def ev)
  have "arena_session 4096 1024 a1 ([] @ [100]) ([] @ [4096])"
    by (rule arena_session.alloc[OF arena_session.start _ _ e1]) simp_all
  then have "arena_session 4096 1024 a2 [100] [4096]" unfolding a2_def by (simp add: arena_session.dealloc)
  from arena_session.alloc[OF this _ _ e3] have "arena_session 4096 1024 a3 [100, 8] [4096, 4352]" by simp
  from arena_strictly_monotone[OF _ _ _ this, of 1] e3 show ?thesis
    by (simp add: aligned_256_def arena_new_def a2_def a1_def)
qed

section \<open>What eviction throws away\<close>

lemma foldr_max_ge: "x \<in> set (n # ns) \<Longrightarrow> x \<le> foldr max ns n" for x :: usize
  by (induction ns) (auto simp: le_max_iff_disj)

lemma largest_bucket_ge: "largest_bucket fl = Some n \<Longrightarrow> (q, m) \<in># fl_blocks fl \<Longrightarrow> m \<le> n"
proof -
  assume l: "largest_bucket fl = Some n" and "(q, m) \<in># fl_blocks fl"
  then obtain b where "(m, b) \<in> set (fl_map fl)" "b \<noteq> []" by (force simp: fl_blocks_def)
  then have "m \<in> set [n. (n, b) \<leftarrow> fl_map fl, b \<noteq> []]" by force
  moreover obtain k ks where "[n. (n, b) \<leftarrow> fl_map fl, b \<noteq> []] = k # ks" "n = foldr max ks k"
    using l by (auto simp: largest_bucket_def split: list.splits)
  ultimately show "m \<le> n" using foldr_max_ge[of m k ks] by simp
qed

lemma evict_loop_order:
  "fl_ok fl \<Longrightarrow> evict_loop cap fl ev = (ev', fl') \<Longrightarrow>
   \<exists>B. ev' = ev @ map fst B \<and> fl_blocks fl = mset B + fl_blocks fl' \<and> sorted_wrt (\<lambda>b b'. snd b' \<le> snd b) B \<and>
     (\<forall>b \<in> set B. \<forall>b' \<in># fl_blocks fl'. snd b' \<le> snd b)"
proof (induction cap fl ev rule: evict_loop.induct)
  case (1 cap fl ev)
  show ?case
  proof (cases "cap < fl_total fl \<and> largest_bucket fl \<noteq> None")
    case False
    then have "ev' = ev" "fl' = fl" using 1(3) by (auto simp: evict_loop.simps[of cap fl] split: if_splits)
    then show ?thesis by simp
  next
    case True
    then obtain n where n: "largest_bucket fl = Some n" by blast
    obtain q b where b: "map_of (fl_map fl) n = Some (q # b)" using largest_bucket_Some[OF 1(2) n] .
    then obtain fl1 where p: "fl_pop n fl = (Some q, fl1)" by (simp add: fl_pop_def)
    note pop = fl_pop_Some[OF 1(2) p]
    have "evict_loop cap fl1 (ev @ [q]) = (ev', fl')" using 1(3) True n p by (simp add: evict_loop.simps[of cap fl])
    from 1(1)[OF conjunct1[OF True] n p[symmetric] refl pop(2) this] obtain B where B:
      "ev' = (ev @ [q]) @ map fst B" "fl_blocks fl1 = mset B + fl_blocks fl'"
      "sorted_wrt (\<lambda>b b'. snd b' \<le> snd b) B" "\<forall>b \<in> set B. \<forall>b' \<in># fl_blocks fl'. snd b' \<le> snd b" by auto
    have "m \<le> n" if "(q', m) \<in># fl_blocks fl1" for q' m
      using largest_bucket_ge[OF n, of q' m] that pop(1) by simp
    then have "\<forall>b \<in> set B. snd b \<le> n" "\<forall>b \<in># fl_blocks fl'. snd b \<le> n" using B(2) by fastforce+
    then show ?thesis using B pop(1) by (intro exI[of _ "(q, n) # B"]) simp
  qed
qed

text \<open>
  C16. The global cap of the free list is met by giving up the largest buffers. Eviction returns with the
  byte total within the cap; the buffers it hands to the driver and those it keeps are the buffers
  it started with, and the evicted ones come in descending size, each at least as large as every one kept.
\<close>

theorem free_list_eviction:
  assumes "fl_ok fl"
  shows "case fl_evict_to_cap cap fl of (ev, fl') \<Rightarrow> fl_total fl' \<le> cap \<and>
    (\<exists>B. ev = map fst B \<and> fl_blocks fl = mset B + fl_blocks fl' \<and> sorted_wrt (\<lambda>b b'. snd b' \<le> snd b) B \<and>
       (\<forall>b \<in> set B. \<forall>b' \<in># fl_blocks fl'. snd b' \<le> snd b))"
proof -
  obtain ev fl' where e: "evict_loop cap fl [] = (ev, fl')" by fastforce
  have "fl_total fl' \<le> cap" using evict_loop_cap[OF assms e] by blast
  with evict_loop_order[OF assms e] show ?thesis by (simp add: fl_evict_to_cap_def e)
qed

lemma free_list_eviction_witness:
  "fl_total (snd (fl_evict_to_cap 100 (fl_push 80 2 (fl_push 60 1 fl_empty)))) \<le> 100"
proof -
  have "fl_ok (fl_push 60 1 fl_empty)" by (rule fl_push_ok[OF fl_empty_simps(2)]) (simp add: fl_empty_def)
  then have "fl_ok (fl_push 80 2 (fl_push 60 1 fl_empty))"
    by (rule fl_push_ok) (simp add: fl_push_def fl_empty_def bucket_set_def)
  from free_list_eviction[OF this, of 100] show ?thesis by (simp add: case_prod_beta)
qed

end
