(* ===== verification/Prng.thy ===== *)
theory Prng
  imports Prelude Complex_Main
begin

text \<open>
  The CPU random number generators (\<open>src/runtime/cpu/kernels/advanced_random/\<close>): Philox4x32-10,
  ThreeFry4x64-20, PCG64 and xoshiro256++ on machine words, and the kernels that fill a buffer with
  them. A fixed array of four words is a tuple. The uniform value of a word is a dyadic rational that
  \<open>f64\<close> holds exactly; \<open>conv\<close> stands for the element type's \<open>from_f64\<close> with the clamp of the kernels and
  \<open>bm\<close> for the Box-Muller transform, both floating point. A kernel writes its output slice front to
  back, so it is the list it writes.
\<close>

unbundle bit_operations_syntax

type_synonym quad32 = "u32 \<times> u32 \<times> u32 \<times> u32"
type_synonym quad64 = "u64 \<times> u64 \<times> u64 \<times> u64"

section \<open>Philox\<close>

definition PHILOX_M2X32_0 :: u32 where "PHILOX_M2X32_0 = 0xD2511F53"
definition PHILOX_M2X32_1 :: u32 where "PHILOX_M2X32_1 = 0xCD9E8D57"
definition PHILOX_W32_0 :: u32 where "PHILOX_W32_0 = 0x9E3779B9"
definition PHILOX_W32_1 :: u32 where "PHILOX_W32_1 = 0xBB67AE85"

fun philox_round :: "quad32 \<Rightarrow> u32 \<times> u32 \<Rightarrow> quad32" where
  "philox_round (c0, c1, c2, c3) (k0, k1) =
     (let prod0 = (ucast c0 :: u64) * ucast PHILOX_M2X32_0;
          prod1 = (ucast c2 :: u64) * ucast PHILOX_M2X32_1
      in (ucast (drop_bit 32 prod1) XOR c1 XOR k0, ucast prod1,
          ucast (drop_bit 32 prod0) XOR c3 XOR k1, ucast prod0))"

definition philox4x32_10 :: "quad32 \<Rightarrow> u32 \<times> u32 \<Rightarrow> quad32" where
  "philox4x32_10 ctr key =
     fst (fold (\<lambda>_ (c, (k0, k1)). (philox_round c (k0, k1), (k0 + PHILOX_W32_0, k1 + PHILOX_W32_1))) [0..<10] (ctr, key))"

definition u32_to_uniform :: "u32 \<Rightarrow> rat" where
  "u32_to_uniform u = of_nat (unat (drop_bit 8 u)) / 2 ^ 24"

definition philox_key :: "u64 \<Rightarrow> u32 \<times> u32" where
  "philox_key key = (ucast (key AND 0xFFFFFFFF), ucast (drop_bit 32 key))"

definition philox_ctr :: "u64 \<Rightarrow> quad32" where
  "philox_ctr counter = (ucast (counter AND 0xFFFFFFFF), ucast (drop_bit 32 counter), 0, 0)"

text \<open>The loop body for the block at \<open>i = 4 * b\<close>: element \<open>i + j\<close> is written when \<open>i + j < n\<close>.\<close>

definition uniform_block :: "('u \<Rightarrow> rat) \<Rightarrow> (rat \<Rightarrow> 'a) \<Rightarrow> nat \<Rightarrow> nat \<Rightarrow> 'u \<times> 'u \<times> 'u \<times> 'u \<Rightarrow> 'a list" where
  "uniform_block to_uniform conv n i random =
     (case random of (r0, r1, r2, r3) \<Rightarrow>
        map (\<lambda>j. conv (to_uniform ([r0, r1, r2, r3] ! j))) (filter (\<lambda>j. i + j < n) [0..<4]))"

definition philox_uniform_kernel :: "(rat \<Rightarrow> 'a) \<Rightarrow> nat \<Rightarrow> u64 \<Rightarrow> u64 \<Rightarrow> 'a list" where
  "philox_uniform_kernel conv n key counter_base =
     concat (map (\<lambda>b. let counter = counter_base + of_nat b;
                          random = philox4x32_10 (philox_ctr counter) (philox_key key)
                      in uniform_block u32_to_uniform conv n (4 * b) random) [0..<(n + 3) div 4])"

definition randn_pair :: "(rat \<Rightarrow> rat \<Rightarrow> 'f \<times> 'f) \<Rightarrow> ('f \<Rightarrow> 'a) \<Rightarrow> nat \<Rightarrow> nat \<Rightarrow> rat \<Rightarrow> rat \<Rightarrow> 'a list" where
  "randn_pair bm conv n i u1 u2 =
     (if n \<le> i then []
      else case bm u1 u2 of (z0, z1) \<Rightarrow> if i + 1 < n then [conv z0, conv z1] else [conv z0])"

definition randn_block :: "('u \<Rightarrow> rat) \<Rightarrow> (rat \<Rightarrow> rat \<Rightarrow> 'f \<times> 'f) \<Rightarrow> ('f \<Rightarrow> 'a) \<Rightarrow> nat \<Rightarrow> nat \<Rightarrow> 'u \<times> 'u \<times> 'u \<times> 'u \<Rightarrow> 'a list" where
  "randn_block to_uniform bm conv n i random =
     (case random of (r0, r1, r2, r3) \<Rightarrow>
        randn_pair bm conv n i (to_uniform r0) (to_uniform r1) @
        randn_pair bm conv n (i + 2) (to_uniform r2) (to_uniform r3))"

definition philox_randn_kernel :: "(rat \<Rightarrow> rat \<Rightarrow> 'f \<times> 'f) \<Rightarrow> ('f \<Rightarrow> 'a) \<Rightarrow> nat \<Rightarrow> u64 \<Rightarrow> u64 \<Rightarrow> 'a list" where
  "philox_randn_kernel bm conv n key counter_base =
     concat (map (\<lambda>b. let counter = counter_base + of_nat b;
                          random = philox4x32_10 (philox_ctr counter) (philox_key key)
                      in randn_block u32_to_uniform bm conv n (4 * b) random) [0..<(n + 3) div 4])"

section \<open>ThreeFry\<close>

definition THREEFRY_ROTATION :: "nat list list" where
  "THREEFRY_ROTATION =
     [[14, 16, 52, 57], [23, 40, 5, 37], [33, 48, 46, 12], [17, 34, 22, 32],
      [13, 50, 10, 17], [25, 29, 39, 43], [26, 24, 20, 10], [37, 38, 19, 22]]"

definition THREEFRY_PARITY64 :: u64 where "THREEFRY_PARITY64 = 0x1BD11BDAA9FC1A22"

definition threefry_inject :: "u64 list \<Rightarrow> nat \<Rightarrow> quad64 \<Rightarrow> quad64" where
  "threefry_inject ks d x =
     (case x of (x0, x1, x2, x3) \<Rightarrow>
        (x0 + ks ! (d mod 5), x1 + ks ! ((d + 1) mod 5), x2 + ks ! ((d + 2) mod 5), x3 + ks ! ((d + 3) mod 5) + of_nat d))"

definition threefry_round :: "quad64 \<Rightarrow> u64 list \<Rightarrow> nat \<Rightarrow> quad64" where
  "threefry_round x ks r =
     (let x = (if r mod 4 = 0 then threefry_inject ks (r div 4) x else x);
          rot = THREEFRY_ROTATION ! (r mod 8)
      in case x of (x0, x1, x2, x3) \<Rightarrow>
           let x0 = x0 + x1;
               x1 = word_rotl (rot ! 0) x1 XOR x0;
               x2 = x2 + x3;
               x3 = word_rotl (rot ! 1) x3 XOR x2
           in (x0, x3, x2, x1))"

definition threefry4x64_20 :: "quad64 \<Rightarrow> u64 \<times> u64 \<Rightarrow> quad64" where
  "threefry4x64_20 ctr key =
     (let ks = [fst key, snd key, 0, 0, fst key XOR snd key XOR THREEFRY_PARITY64];
          x = fold (\<lambda>r x. threefry_round x ks r) [0..<20] ctr
      in case x of (x0, x1, x2, x3) \<Rightarrow> (x0 + ks ! 0, x1 + ks ! 1, x2 + ks ! 2, x3 + ks ! 3 + 5))"

definition u64_to_uniform :: "u64 \<Rightarrow> rat" where
  "u64_to_uniform u = of_nat (unat (drop_bit 11 u)) / 2 ^ 53"

definition threefry_uniform_kernel :: "(rat \<Rightarrow> 'a) \<Rightarrow> nat \<Rightarrow> u64 \<Rightarrow> u64 \<Rightarrow> 'a list" where
  "threefry_uniform_kernel conv n key counter_base =
     concat (map (\<lambda>b. let counter = counter_base + of_nat b;
                          random = threefry4x64_20 (counter, 0, 0, 0) (key, 0)
                      in uniform_block u64_to_uniform conv n (4 * b) random) [0..<(n + 3) div 4])"

definition threefry_randn_kernel :: "(rat \<Rightarrow> rat \<Rightarrow> 'f \<times> 'f) \<Rightarrow> ('f \<Rightarrow> 'a) \<Rightarrow> nat \<Rightarrow> u64 \<Rightarrow> u64 \<Rightarrow> 'a list" where
  "threefry_randn_kernel bm conv n key counter_base =
     concat (map (\<lambda>b. let counter = counter_base + of_nat b;
                          random = threefry4x64_20 (counter, 0, 0, 0) (key, 0)
                      in randn_block u64_to_uniform bm conv n (4 * b) random) [0..<(n + 3) div 4])"

section \<open>PCG64 and xoshiro256++\<close>

definition PCG64_MULTIPLIER :: u128 where "PCG64_MULTIPLIER = 0x2360ed051fc65da44385df649fccf645"

definition pcg64_step :: "u128 \<Rightarrow> u64 \<times> u128" where
  "pcg64_step state =
     (let xorshifted = ucast (drop_bit 59 (drop_bit 64 state XOR state)) :: u64;
          rot = unat (drop_bit 122 state)
      in (word_rotr rot xorshifted, state * PCG64_MULTIPLIER + 1))"

definition pcg64_init :: "u64 \<Rightarrow> u64 \<Rightarrow> u128" where
  "pcg64_init seed stream = (push_bit 64 (ucast seed) OR ucast stream) * PCG64_MULTIPLIER + 1"

definition splitmix :: "u64 \<Rightarrow> u64 \<times> u64" where
  "splitmix sm_state =
     (let sm_state = sm_state + 0x9e3779b97f4a7c15;
          z = sm_state;
          z = (z XOR drop_bit 30 z) * 0xbf58476d1ce4e5b9;
          z = (z XOR drop_bit 27 z) * 0x94d049bb133111eb
      in (z XOR drop_bit 31 z, sm_state))"

definition xoshiro_from_seed :: "u64 \<Rightarrow> quad64" where
  "xoshiro_from_seed seed =
     (let (z0, sm) = splitmix seed; (z1, sm) = splitmix sm; (z2, sm) = splitmix sm; (z3, sm) = splitmix sm
      in (z0, z1, z2, z3))"

definition xoshiro_next :: "quad64 \<Rightarrow> u64 \<times> quad64" where
  "xoshiro_next s =
     (case s of (s0, s1, s2, s3) \<Rightarrow>
        let result = word_rotl 23 (s0 + s3) + s0;
            t = push_bit 17 s1;
            s2 = s2 XOR s0;
            s3 = s3 XOR s1;
            s1 = s1 XOR s2;
            s0 = s0 XOR s3;
            s2 = s2 XOR t;
            s3 = word_rotl 45 s3
        in (result, (s0, s1, s2, s3)))"

text \<open>\<open>for elem in out.iter_mut()\<close> and the pairwise loop, over a generator \<open>next\<close> with its state.\<close>

fun fill_uniform :: "('s \<Rightarrow> u64 \<times> 's) \<Rightarrow> (rat \<Rightarrow> 'a) \<Rightarrow> nat \<Rightarrow> 's \<Rightarrow> 'a list" where
  "fill_uniform nxt conv 0 s = []"
| "fill_uniform nxt conv (Suc n) s = (let (u, s) = nxt s in conv (u64_to_uniform u) # fill_uniform nxt conv n s)"

fun fill_randn :: "('s \<Rightarrow> u64 \<times> 's) \<Rightarrow> (rat \<Rightarrow> rat \<Rightarrow> 'f \<times> 'f) \<Rightarrow> ('f \<Rightarrow> 'a) \<Rightarrow> nat \<Rightarrow> 's \<Rightarrow> 'a list" where
  "fill_randn nxt bm conv n s =
     (if n = 0 then []
      else let (a, s) = nxt s; (b, s) = nxt s; (z0, z1) = bm (u64_to_uniform a) (u64_to_uniform b)
           in if 1 < n then conv z0 # conv z1 # fill_randn nxt bm conv (n - 2) s else [conv z0])"

declare fill_randn.simps [simp del]

definition pcg64_uniform_kernel :: "(rat \<Rightarrow> 'a) \<Rightarrow> nat \<Rightarrow> u64 \<Rightarrow> u64 \<Rightarrow> 'a list" where
  "pcg64_uniform_kernel conv n seed stream = fill_uniform pcg64_step conv n (pcg64_init seed stream)"

definition pcg64_randn_kernel :: "(rat \<Rightarrow> rat \<Rightarrow> 'f \<times> 'f) \<Rightarrow> ('f \<Rightarrow> 'a) \<Rightarrow> nat \<Rightarrow> u64 \<Rightarrow> u64 \<Rightarrow> 'a list" where
  "pcg64_randn_kernel bm conv n seed stream = fill_randn pcg64_step bm conv n (pcg64_init seed stream)"

definition xoshiro256_uniform_kernel :: "(rat \<Rightarrow> 'a) \<Rightarrow> nat \<Rightarrow> u64 \<Rightarrow> 'a list" where
  "xoshiro256_uniform_kernel conv n seed = fill_uniform xoshiro_next conv n (xoshiro_from_seed seed)"

definition xoshiro256_randn_kernel :: "(rat \<Rightarrow> rat \<Rightarrow> 'f \<times> 'f) \<Rightarrow> ('f \<Rightarrow> 'a) \<Rightarrow> nat \<Rightarrow> u64 \<Rightarrow> 'a list" where
  "xoshiro256_randn_kernel bm conv n seed = fill_randn xoshiro_next bm conv n (xoshiro_from_seed seed)"

section \<open>Words: cancellation\<close>

lemma mult_odd_inj:
  fixes M :: "'a::len word"
  assumes "M * M' = 1" and "a * M = b * M"
  shows "a = b"
proof -
  have "a * M * M' = b * M * M'" using assms(2) by simp
  then show ?thesis using assms(1) by (simp add: mult.assoc)
qed

lemma word_xor_cancel_left: "a XOR b = a XOR c \<longleftrightarrow> b = c" for a :: "'a::len word"
proof
  assume "a XOR b = a XOR c"
  then have "a XOR (a XOR b) = a XOR (a XOR c)" by simp
  then show "b = c" by (simp flip: xor.assoc)
qed simp

lemma word_xor_cancel_right: "b XOR a = c XOR a \<longleftrightarrow> b = c" for a :: "'a::len word"
  using word_xor_cancel_left[of a b c] by (simp add: xor.commute)

lemma word_rotl_cancel: "word_rotl n a = word_rotl n b \<longleftrightarrow> a = b"
  by (metis word_rot_lr)

lemma unat_bound: "unat w < 2 ^ LENGTH('a)" for w :: "'a::len word"
  by (rule unsigned_less)

lemma ucast_mult_low: "(ucast ((ucast c :: u64) * ucast M) :: u32) = c * M" for c M :: u32
proof -
  have "unat (ucast ((ucast c :: u64) * ucast M) :: u32) = unat c * unat M mod 2 ^ 64 mod 2 ^ 32"
    by (simp add: unat_ucast unat_word_ariths mod_mult_eq)
  also have "\<dots> = unat c * unat M mod 2 ^ 32" by (simp add: mod_mod_cancel)
  also have "\<dots> = unat (c * M)" by (simp add: unat_word_ariths)
  finally show ?thesis by (simp add: word_unat_eq_iff)
qed

text \<open>\<open>w ^ (w >> n)\<close> and \<open>w ^ (w << n)\<close> lose nothing.\<close>

lemma xorshift_right_inj:
  fixes v w :: "'a::len word"
  assumes e: "v XOR drop_bit n v = w XOR drop_bit n w" and n: "0 < n"
  shows "v = w"
proof (rule bit_eqI)
  fix i
  show "bit v i \<longleftrightarrow> bit w i"
  proof (induction "LENGTH('a) - i" arbitrary: i rule: less_induct)
    case less
    show ?case
    proof (cases "i < LENGTH('a)")
      case True
      have "bit v (n + i) \<longleftrightarrow> bit w (n + i)" using True n by (intro less) linarith
      moreover have "bit (v XOR drop_bit n v) i \<longleftrightarrow> bit (w XOR drop_bit n w) i" by (simp add: e)
      ultimately show ?thesis by (simp add: bit_simps) blast
    qed (simp add: bit_word.rep_eq)
  qed
qed

lemma xorshift_left_zero:
  fixes v :: "'a::len word"
  assumes e: "v XOR push_bit n v = 0" and n: "0 < n"
  shows "v = 0"
proof (rule bit_eqI)
  fix i
  show "bit v i \<longleftrightarrow> bit 0 i"
  proof (induction i rule: less_induct)
    case (less i)
    have "bit (v XOR push_bit n v) i \<longleftrightarrow> False" by (simp add: e)
    then show ?case using less[of "i - n"] n by (cases "n \<le> i") (auto simp: bit_simps)
  qed
qed

section \<open>The counter-based generators are permutations of their counters\<close>

lemma philox_round_inj: "philox_round x k = philox_round y k \<Longrightarrow> x = y"
proof -
  obtain c0 c1 c2 c3 where x: "x = (c0, c1, c2, c3)" by (cases x) auto
  obtain d0 d1 d2 d3 where y: "y = (d0, d1, d2, d3)" by (cases y) auto
  obtain k0 k1 where k: "k = (k0, k1)" by force
  assume e: "philox_round x k = philox_round y k"
  have "c0 * PHILOX_M2X32_0 = d0 * PHILOX_M2X32_0" "c2 * PHILOX_M2X32_1 = d2 * PHILOX_M2X32_1"
    using e unfolding x y k by (simp_all add: Let_def ucast_mult_low)
  moreover have "PHILOX_M2X32_0 * 0x991a7cdb = 1" "PHILOX_M2X32_1 * 0x6d7cae67 = 1"
    by (simp_all add: PHILOX_M2X32_0_def PHILOX_M2X32_1_def)
  ultimately have "c0 = d0" "c2 = d2" using mult_odd_inj by blast+
  then show "x = y" using e unfolding x y k
    by (simp add: Let_def word_xor_cancel_right word_xor_cancel_left)
qed

lemma fold_inj:
  assumes "\<And>r x y. r \<in> set rs \<Longrightarrow> f r x = f r y \<Longrightarrow> x = y"
  shows "fold f rs x = fold f rs y \<Longrightarrow> x = y"
  using assms by (induction rs arbitrary: x y) (simp, metis fold_simps(2) list.set_intros)

text \<open>The keys of the rounds do not depend on the counter.\<close>

definition philox_round_key :: "u32 \<times> u32 \<Rightarrow> nat \<Rightarrow> u32 \<times> u32" where
  "philox_round_key key r = (fst key + of_nat r * PHILOX_W32_0, snd key + of_nat r * PHILOX_W32_1)"

lemma philox4x32_10_eq: "philox4x32_10 ctr key = fold (\<lambda>r c. philox_round c (philox_round_key key r)) [0..<10] ctr"
proof -
  have "fold (\<lambda>_ (c, (k0, k1)). (philox_round c (k0, k1), (k0 + PHILOX_W32_0, k1 + PHILOX_W32_1))) [0..<n] (ctr, key)
    = (fold (\<lambda>r c. philox_round c (philox_round_key key r)) [0..<n] ctr, philox_round_key key n)" for n
    by (induction n) (simp_all add: philox_round_key_def algebra_simps)
  from this[of 10] show ?thesis unfolding philox4x32_10_def by (simp only: fst_conv)
qed

lemma threefry_round_inj: "threefry_round x ks r = threefry_round y ks r \<Longrightarrow> x = y"
proof -
  assume e: "threefry_round x ks r = threefry_round y ks r"
  let ?i = "\<lambda>x. if r mod 4 = 0 then threefry_inject ks (r div 4) x else x"
  have "?i x = ?i y"
    using e by (cases "?i x"; cases "?i y") (auto simp: threefry_round_def Let_def word_xor_cancel_right word_rotl_cancel)
  then show "x = y" by (cases x; cases y) (auto simp: threefry_inject_def split: if_splits)
qed

text \<open>
  C17. Different counters give different random blocks. For every key, Philox4x32-10 and ThreeFry4x64-20
  are permutations of the four-word blocks, and the counters that the kernels form from a 64-bit
  counter are distinct, so no block repeats within the counter's period.
\<close>

theorem counter_generators_bijective:
  "bij (\<lambda>ctr. philox4x32_10 ctr key) \<and> bij (\<lambda>ctr. threefry4x64_20 ctr key')
    \<and> inj (\<lambda>c. philox4x32_10 (philox_ctr c) key) \<and> inj (\<lambda>c :: u64. threefry4x64_20 (c, 0, 0, 0) key')"
proof -
  have p: "inj (\<lambda>ctr. philox4x32_10 ctr key)"
    unfolding philox4x32_10_eq by (rule injI) (erule fold_inj[rotated], rule philox_round_inj)
  have t: "inj (\<lambda>ctr. threefry4x64_20 ctr key')"
  proof (rule injI)
    fix x y assume e: "threefry4x64_20 x key' = threefry4x64_20 y key'"
    let ?ks = "[fst key', snd key', 0, 0, fst key' XOR snd key' XOR THREEFRY_PARITY64]"
    let ?f = "\<lambda>x. fold (\<lambda>r x. threefry_round x ?ks r) [0..<20] x"
    have "?f x = ?f y" using e unfolding threefry4x64_20_def Let_def by (cases "?f x"; cases "?f y") simp
    then show "x = y" by (rule fold_inj[rotated]) (rule threefry_round_inj)
  qed
  have c: "inj philox_ctr"
  proof (rule injI)
    fix x y :: u64 assume "philox_ctr x = philox_ctr y"
    then have "(ucast (x AND 0xFFFFFFFF) :: u32) = ucast (y AND 0xFFFFFFFF)"
      "(ucast (drop_bit 32 x) :: u32) = ucast (drop_bit 32 y)" by (simp_all add: philox_ctr_def)
    moreover have m: "(0xFFFFFFFF :: u64) = mask 32" by (simp add: mask_eq_exp_minus_1)
    ultimately have "unat x mod 2 ^ 32 = unat y mod 2 ^ 32" "unat x div 2 ^ 32 mod 2 ^ 32 = unat y div 2 ^ 32 mod 2 ^ 32"
      by (simp_all only: m word_unat_eq_iff unat_ucast unat_and_mask unat_drop) simp_all
    moreover have "unat x div 2 ^ 32 < 2 ^ 32" "unat y div 2 ^ 32 < 2 ^ 32"
      using unat_bound[of x] unat_bound[of y] by (simp_all add: less_mult_imp_div_less)
    ultimately have "unat x = unat y" by (metis mod_less mult_div_mod_eq)
    then show "x = y" by (simp add: word_unat_eq_iff)
  qed
  have "inj (\<lambda>c. (c, 0, 0, 0) :: quad64)" by (rule injI) simp
  with p t c show ?thesis
    using inj_compose[OF p c] inj_compose[OF t, of "\<lambda>c. (c, 0, 0, 0)"]
    by (simp add: bij_def finite_UNIV_inj_surj comp_def)
qed

section \<open>A buffer can be filled in parts\<close>

lemma length_uniform_block: "length (uniform_block to_uniform conv n i random) = min 4 (n - i)"
proof -
  have "filter (\<lambda>j. i + j < n) [0..<4] = [0..<min 4 (n - i)]"
    by (rule nth_equalityI) (auto simp: upt_rec numeral_eq_Suc min_def)
  then show ?thesis by (simp add: uniform_block_def split: prod.split)
qed

lemma uniform_block_shift: "uniform_block to_uniform conv (4 * m + n) (4 * m + i) random = uniform_block to_uniform conv n i random"
  by (simp add: uniform_block_def)

lemma uniform_block_full: "i + 4 \<le> n \<Longrightarrow> i + 4 \<le> n' \<Longrightarrow> uniform_block to_uniform conv n i random = uniform_block to_uniform conv n' i random"
proof -
  assume "i + 4 \<le> n" "i + 4 \<le> n'"
  then have "filter (\<lambda>j. i + j < n) [0..<4] = filter (\<lambda>j. i + j < n') [0..<4]" by (intro filter_cong) auto
  then show ?thesis by (simp only: uniform_block_def)
qed

lemma randn_block_shift: "randn_block to_uniform bm conv (4 * m + n) (4 * m + i) random = randn_block to_uniform bm conv n i random"
  by (cases random) (auto simp: randn_block_def randn_pair_def split: prod.split)

lemma randn_block_full: "i + 4 \<le> n \<Longrightarrow> i + 4 \<le> n' \<Longrightarrow> randn_block to_uniform bm conv n i random = randn_block to_uniform bm conv n' i random"
  by (simp add: randn_block_def randn_pair_def split: prod.split)

text \<open>A loop over blocks of four whose \<open>b\<close>-th block depends on the counter \<open>base + b\<close> only.\<close>

lemma blocks_split:
  assumes shift: "\<And>m n i r. blk (4 * m + n) (4 * m + i) r = blk n i r"
    and full: "\<And>n n' i r. i + 4 \<le> n \<Longrightarrow> i + 4 \<le> n' \<Longrightarrow> blk n i r = blk n' i r"
  shows "concat (map (\<lambda>b. blk (4 * m + n) (4 * b) (g (base + of_nat b :: u64))) [0..<(4 * m + n + 3) div 4])
    = concat (map (\<lambda>b. blk (4 * m) (4 * b) (g (base + of_nat b))) [0..<(4 * m + 3) div 4])
      @ concat (map (\<lambda>b. blk n (4 * b) (g (base + of_nat m + of_nat b))) [0..<(n + 3) div 4])"
proof -
  have d: "(4 * m + n + 3) div 4 = m + (n + 3) div 4" "(4 * m + 3) div 4 = m" by simp_all
  have "map (\<lambda>b. blk (4 * m + n) (4 * b) (g (base + of_nat b))) [m..<m + k]
      = map (\<lambda>b. blk n (4 * b) (g (base + of_nat m + of_nat b))) [0..<k]" for k
  proof (rule nth_equalityI)
    have "blk (4 * m + n) (4 * (m + j)) r = blk n (4 * j) r" for j r
      using shift[of m n "4 * j" r] by (simp only: distrib_left)
    then show "map (\<lambda>b. blk (4 * m + n) (4 * b) (g (base + of_nat b))) [m..<m + k] ! j
        = map (\<lambda>b. blk n (4 * b) (g (base + of_nat m + of_nat b))) [0..<k] ! j"
      if "j < length (map (\<lambda>b. blk (4 * m + n) (4 * b) (g (base + of_nat b))) [m..<m + k])" for j
      using that by (simp add: add.assoc)
  qed simp
  moreover have "map (\<lambda>b. blk (4 * m + n) (4 * b) (g (base + of_nat b))) [0..<m]
      = map (\<lambda>b. blk (4 * m) (4 * b) (g (base + of_nat b))) [0..<m]"
    by (intro map_cong refl full) auto
  ultimately show ?thesis unfolding d by (simp only: upt_add_eq_append[OF le0] map_append concat_append)
qed

text \<open>
  C18. Parallel generation gives the sequential stream. Filling \<open>4 * m + n\<close> elements from a counter is
  filling the first \<open>4 * m\<close> and then, independently, the remaining \<open>n\<close> from the counter advanced by
  \<open>m\<close>; this holds for uniform and normal values of both counter-based generators.
\<close>

theorem counter_streams_split:
  "philox_uniform_kernel conv (4 * m + n) key base =
      philox_uniform_kernel conv (4 * m) key base @ philox_uniform_kernel conv n key (base + of_nat m)
    \<and> philox_randn_kernel bm conv' (4 * m + n) key base =
      philox_randn_kernel bm conv' (4 * m) key base @ philox_randn_kernel bm conv' n key (base + of_nat m)
    \<and> threefry_uniform_kernel conv (4 * m + n) key base =
      threefry_uniform_kernel conv (4 * m) key base @ threefry_uniform_kernel conv n key (base + of_nat m)
    \<and> threefry_randn_kernel bm conv' (4 * m + n) key base =
      threefry_randn_kernel bm conv' (4 * m) key base @ threefry_randn_kernel bm conv' n key (base + of_nat m)"
  unfolding philox_uniform_kernel_def philox_randn_kernel_def threefry_uniform_kernel_def threefry_randn_kernel_def Let_def
  by (intro conjI blocks_split[where blk = "uniform_block _ _"] blocks_split[where blk = "randn_block _ _ _"]
      uniform_block_shift uniform_block_full randn_block_shift randn_block_full)

section \<open>Every kernel fills its buffer with values of the unit interval\<close>

lemma u32_to_uniform_range: "0 \<le> u32_to_uniform u \<and> u32_to_uniform u < 1"
proof -
  have "unat (drop_bit 8 u) < 2 ^ 24" using unat_bound[of u] by (simp add: unat_drop less_mult_imp_div_less)
  then have "(of_nat (unat (drop_bit 8 u)) :: rat) < of_nat (2 ^ 24)" by (simp only: of_nat_less_iff)
  moreover have "0 \<le> k / 2 ^ 24 \<and> k / 2 ^ 24 < 1" if "0 \<le> k" "k < of_nat (2 ^ 24)" for k :: rat using that by simp
  ultimately show ?thesis unfolding u32_to_uniform_def by (metis of_nat_0_le_iff)
qed

lemma u64_to_uniform_range: "0 \<le> u64_to_uniform u \<and> u64_to_uniform u < 1"
proof -
  have "unat (drop_bit 11 u) < 2 ^ 53" using unat_bound[of u] by (simp add: unat_drop less_mult_imp_div_less)
  then have "(of_nat (unat (drop_bit 11 u)) :: rat) < of_nat (2 ^ 53)" by (simp only: of_nat_less_iff)
  moreover have "0 \<le> k / 2 ^ 53 \<and> k / 2 ^ 53 < 1" if "0 \<le> k" "k < of_nat (2 ^ 53)" for k :: rat using that by simp
  ultimately show ?thesis unfolding u64_to_uniform_def by (metis of_nat_0_le_iff)
qed

lemma blocks_length:
  assumes "\<And>b. length (f b) = min 4 (n - 4 * b)"
  shows "length (concat (map f [0..<(n + 3) div 4])) = n"
proof -
  have "length (concat (map f [0..<k])) = min (4 * k) n" for k
    using assms by (induction k) auto
  then show ?thesis by simp
qed

lemma length_randn_block: "length (randn_block to_uniform bm conv n i random) = min 4 (n - i)"
  by (auto simp: randn_block_def randn_pair_def split: prod.split)

lemma fill_uniform_fills:
  "length (fill_uniform nxt conv n s) = n \<and> set (fill_uniform nxt conv n s) \<subseteq> conv ` {0..<1}"
  by (induction n arbitrary: s) (use u64_to_uniform_range in \<open>auto split: prod.split intro!: imageI\<close>)

lemma length_fill_randn: "length (fill_randn nxt bm conv n s) = n"
proof (induction n arbitrary: s rule: less_induct)
  case (less n)
  show ?case by (subst fill_randn.simps) (use less[of "n - 2"] in \<open>auto split: prod.split\<close>)
qed

lemma uniform_block_range:
  "(\<And>u. 0 \<le> to_uniform u \<and> to_uniform u < 1) \<Longrightarrow> set (uniform_block to_uniform conv n i random) \<subseteq> conv ` {0..<1}"
  by (auto simp: uniform_block_def split: prod.split)

lemma set_concat_sub: "(\<And>b. set (f b) \<subseteq> S) \<Longrightarrow> set (concat (map f bs)) \<subseteq> S"
  by auto

text \<open>
  Every generator kernel fills its whole buffer, for every length, and the uniform kernels convert
  only values of the half-open unit interval.
\<close>

theorem random_kernels_fill:
  "length (philox_uniform_kernel conv n key base) = n \<and> set (philox_uniform_kernel conv n key base) \<subseteq> conv ` {0..<1}
    \<and> length (threefry_uniform_kernel conv n key base) = n \<and> set (threefry_uniform_kernel conv n key base) \<subseteq> conv ` {0..<1}
    \<and> length (pcg64_uniform_kernel conv n key base) = n \<and> set (pcg64_uniform_kernel conv n key base) \<subseteq> conv ` {0..<1}
    \<and> length (xoshiro256_uniform_kernel conv n key) = n \<and> set (xoshiro256_uniform_kernel conv n key) \<subseteq> conv ` {0..<1}
    \<and> length (philox_randn_kernel bm conv' n key base) = n \<and> length (threefry_randn_kernel bm conv' n key base) = n
    \<and> length (pcg64_randn_kernel bm conv' n key base) = n \<and> length (xoshiro256_randn_kernel bm conv' n key) = n"
proof -
  have p: "set (philox_uniform_kernel conv n key base) \<subseteq> conv ` {0..<1}"
    unfolding philox_uniform_kernel_def Let_def by (intro set_concat_sub uniform_block_range u32_to_uniform_range)
  have t: "set (threefry_uniform_kernel conv n key base) \<subseteq> conv ` {0..<1}"
    unfolding threefry_uniform_kernel_def Let_def by (intro set_concat_sub uniform_block_range u64_to_uniform_range)
  note f = fill_uniform_fills[of pcg64_step conv n "pcg64_init key base"] fill_uniform_fills[of xoshiro_next conv n "xoshiro_from_seed key"]
  show ?thesis
    using p t f
    by (simp add: philox_uniform_kernel_def threefry_uniform_kernel_def philox_randn_kernel_def threefry_randn_kernel_def
        pcg64_uniform_kernel_def xoshiro256_uniform_kernel_def pcg64_randn_kernel_def xoshiro256_randn_kernel_def
        Let_def length_uniform_block length_randn_block length_fill_randn blocks_length del: length_concat)
qed

section \<open>The states of the sequential generators\<close>

lemma xoshiro_next_inj: "snd (xoshiro_next s) = snd (xoshiro_next s') \<Longrightarrow> s = s'"
proof -
  obtain a0 a1 a2 a3 where s: "s = (a0, a1, a2, a3)" by (cases s) auto
  obtain b0 b1 b2 b3 where s': "s' = (b0, b1, b2, b3)" by (cases s') auto
  assume e: "snd (xoshiro_next s) = snd (xoshiro_next s')"
  then have "a0 XOR (a3 XOR a1) = b0 XOR (b3 XOR b1) \<and> a1 XOR (a2 XOR a0) = b1 XOR (b2 XOR b0)
      \<and> (a2 XOR a0) XOR push_bit 17 a1 = (b2 XOR b0) XOR push_bit 17 b1 \<and> a3 XOR a1 = b3 XOR b1"
    unfolding s s' xoshiro_next_def Let_def prod.case snd_conv prod.inject word_rotl_cancel by blast
  then have 3: "a3 XOR a1 = b3 XOR b1"
    and 0: "a0 XOR (a3 XOR a1) = b0 XOR (b3 XOR b1)"
    and 1: "a1 XOR (a2 XOR a0) = b1 XOR (b2 XOR b0)"
    and 2: "(a2 XOR a0) XOR push_bit 17 a1 = (b2 XOR b0) XOR push_bit 17 b1" by blast+
  have e0: "a0 = b0" using 0 3 by (simp add: word_xor_cancel_right)
  define c where "c = a1 XOR b1"
  have "a2 XOR b2 = c" using 1 e0 unfolding c_def by (simp add: bit_eq_iff bit_simps) blast
  moreover have "(a2 XOR b2) XOR push_bit 17 c = 0"
  proof -
    have "push_bit 17 c = push_bit 17 a1 XOR push_bit 17 b1" unfolding c_def by (rule bit_eqI) (auto simp: bit_simps)
    moreover have "a2 XOR push_bit 17 a1 = b2 XOR push_bit 17 b1"
      using 2 e0 by (simp add: bit_eq_iff bit_simps) blast
    then have "(a2 XOR push_bit 17 a1) XOR (b2 XOR push_bit 17 b1) = 0" by simp
    ultimately show ?thesis by (simp add: ac_simps)
  qed
  ultimately have "c = 0" using xorshift_left_zero[of c 17] by simp
  then have e1: "a1 = b1" unfolding c_def by (simp add: bit_eq_iff bit_simps)
  with 3 1 e0 have "a3 = b3" "a2 = b2" by (simp_all add: word_xor_cancel_left word_xor_cancel_right)
  with e0 e1 show ?thesis by (simp add: s s')
qed

lemma xoshiro_zero: "snd (xoshiro_next (0, 0, 0, 0)) = (0, 0, 0, 0)"
  by (simp add: xoshiro_next_def)

definition splitmix_mix :: "u64 \<Rightarrow> u64" where
  "splitmix_mix z = fst (splitmix (z - 0x9e3779b97f4a7c15))"

lemma splitmix_eq: "splitmix s = (splitmix_mix (s + 0x9e3779b97f4a7c15), s + 0x9e3779b97f4a7c15)"
  by (simp add: splitmix_mix_def) (simp add: splitmix_def Let_def)

lemma splitmix_mix_inj: "splitmix_mix a = splitmix_mix b \<Longrightarrow> a = b"
proof -
  assume e: "splitmix_mix a = splitmix_mix b"
  let ?f = "\<lambda>z :: u64. (z XOR drop_bit 30 z) * 0xbf58476d1ce4e5b9"
  let ?g = "\<lambda>z :: u64. (z XOR drop_bit 27 z) * 0x94d049bb133111eb"
  have "?g (?f a) XOR drop_bit 31 (?g (?f a)) = ?g (?f b) XOR drop_bit 31 (?g (?f b))"
    using e by (simp add: splitmix_mix_def splitmix_def Let_def)
  then have "?g (?f a) = ?g (?f b)" by (rule xorshift_right_inj) simp
  then have "?f a XOR drop_bit 27 (?f a) = ?f b XOR drop_bit 27 (?f b)"
    by (rule mult_odd_inj[of _ "0x319642b2d24d8ec3", rotated]) simp
  then have "?f a = ?f b" by (rule xorshift_right_inj) simp
  then have "a XOR drop_bit 30 a = b XOR drop_bit 30 b"
    by (rule mult_odd_inj[of _ "0x96de1b173f119089", rotated]) simp
  then show "a = b" by (rule xorshift_right_inj) simp
qed

text \<open>
  C19. The sequential generators never degenerate. The state of xoshiro256++ started from any seed is at
  no step the all-zero state, on which it would be stuck, and both it and PCG64 step by a permutation
  of their states, so their sequences are purely periodic.
\<close>

theorem sequential_generators_sound:
  "((\<lambda>s. snd (xoshiro_next s)) ^^ k) (xoshiro_from_seed seed) \<noteq> (0, 0, 0, 0)
    \<and> bij (\<lambda>s. snd (xoshiro_next s)) \<and> bij (\<lambda>s. snd (pcg64_step s))"
proof -
  have seed: "xoshiro_from_seed seed \<noteq> (0, 0, 0, 0)"
  proof
    assume "xoshiro_from_seed seed = (0, 0, 0, 0)"
    then have "splitmix_mix (seed + 0x9e3779b97f4a7c15) = splitmix_mix (seed + 0x9e3779b97f4a7c15 + 0x9e3779b97f4a7c15)"
      by (simp add: xoshiro_from_seed_def splitmix_eq)
    then have "seed + 0x9e3779b97f4a7c15 = seed + 0x9e3779b97f4a7c15 + 0x9e3779b97f4a7c15" by (rule splitmix_mix_inj)
    then show False by simp
  qed
  have x: "inj (\<lambda>s. snd (xoshiro_next s))" by (rule injI) (rule xoshiro_next_inj)
  have "((\<lambda>s. snd (xoshiro_next s)) ^^ k) (xoshiro_from_seed seed) \<noteq> (0, 0, 0, 0)"
  proof (induction k)
    case (Suc k)
    show ?case
    proof
      assume "((\<lambda>s. snd (xoshiro_next s)) ^^ Suc k) (xoshiro_from_seed seed) = (0, 0, 0, 0)"
      then have "snd (xoshiro_next (((\<lambda>s. snd (xoshiro_next s)) ^^ k) (xoshiro_from_seed seed))) = snd (xoshiro_next (0, 0, 0, 0))"
        by (simp add: xoshiro_zero)
      from xoshiro_next_inj[OF this] Suc show False by simp
    qed
  qed (simp add: seed)
  moreover have "inj (\<lambda>s. snd (pcg64_step s))"
  proof (rule injI)
    fix s s' assume "snd (pcg64_step s) = snd (pcg64_step s')"
    then have "s * PCG64_MULTIPLIER = s' * PCG64_MULTIPLIER" by (simp add: pcg64_step_def Let_def)
    then show "s = s'"
      by (rule mult_odd_inj[of _ "0x7dda22b9397986098abc8b0716eac8d", rotated]) (simp add: PCG64_MULTIPLIER_def)
  qed
  ultimately show ?thesis using x by (simp add: bij_def finite_UNIV_inj_surj)
qed

end
