(* ===== verification/Sparse_Levels.thy ===== *)
theory Sparse_Levels
  imports Prelude
begin

text \<open>
  Level scheduling of sparse triangular solves (\<open>src/algorithm/sparse_linalg/levels.rs\<close>): rows (or
  columns) are given levels so that everything a row depends on has a smaller level. Pointer and index
  arrays are \<open>i64\<close> lists read through \<open>as usize\<close>; an access out of range is \<open>None\<close>.
\<close>

section \<open>The code\<close>

record level_schedule =
  level_of_row :: "nat list"
  rows_per_level :: "nat list list"
  num_levels :: nat
  max_parallelism :: nat

text \<open>\<open>items.iter().max().unwrap_or(0)\<close>.\<close>

definition max_or_0 :: "nat list \<Rightarrow> nat" where
  "max_or_0 xs = fold max xs 0"

text \<open>The grouping at the end of every \<open>compute_levels\<close> function.\<close>

definition group_levels :: "nat list \<Rightarrow> level_schedule option" where
  "group_levels level_of = do {
     let num = (if level_of = [] then 0 else max_or_0 level_of + 1);
     rows \<leftarrow> foldM (\<lambda>(row, level) rows. do {
                r \<leftarrow> nth_chk rows level;
                upd_chk rows level (r @ [row]) }) (zip [0..<length level_of] level_of) (replicate num []);
     Some \<lparr>level_of_row = level_of, rows_per_level = rows, num_levels = num,
       max_parallelism = max_or_0 (map length rows)\<rparr> }"

text \<open>The loop over the entries of row \<open>i\<close>; \<open>dep\<close> tells which columns it waits for.\<close>

definition row_dep_level :: "(nat \<Rightarrow> bool) \<Rightarrow> int list \<Rightarrow> int list \<Rightarrow> nat \<Rightarrow> nat list \<Rightarrow> nat option" where
  "row_dep_level dep row_ptrs col_indices i level_of = do {
     s \<leftarrow> nth_chk row_ptrs i;
     e \<leftarrow> nth_chk row_ptrs (i + 1);
     foldM (\<lambda>idx m. do {
        c \<leftarrow> nth_chk col_indices idx;
        let j = as_usize c;
        (if dep j then do { l \<leftarrow> nth_chk level_of j; Some (max m (l + 1)) } else Some m) })
       [as_usize s..<as_usize e] 0 }"

definition compute_levels_lower :: "nat \<Rightarrow> int list \<Rightarrow> int list \<Rightarrow> level_schedule option" where
  "compute_levels_lower n row_ptrs col_indices = do {
     level_of \<leftarrow> foldM (\<lambda>i level_of. do {
        l \<leftarrow> row_dep_level (\<lambda>j. j < i) row_ptrs col_indices i level_of;
        upd_chk level_of i l }) [0..<n] (replicate n 0);
     group_levels level_of }"

definition compute_levels_upper :: "nat \<Rightarrow> int list \<Rightarrow> int list \<Rightarrow> level_schedule option" where
  "compute_levels_upper n row_ptrs col_indices = do {
     level_of \<leftarrow> foldM (\<lambda>i level_of. do {
        l \<leftarrow> row_dep_level (\<lambda>j. i < j) row_ptrs col_indices i level_of;
        upd_chk level_of i l }) (rev [0..<n]) (replicate n 0);
     group_levels level_of }"

definition compute_levels_ilu :: "nat \<Rightarrow> int list \<Rightarrow> int list \<Rightarrow> level_schedule option" where
  "compute_levels_ilu n row_ptrs col_indices = compute_levels_lower n row_ptrs col_indices"

definition reverse_lookup :: "nat \<Rightarrow> int list \<Rightarrow> int list \<Rightarrow> nat list list option" where
  "reverse_lookup n col_ptrs row_indices =
     foldM (\<lambda>col acc. do {
        s \<leftarrow> nth_chk col_ptrs col;
        e \<leftarrow> nth_chk col_ptrs (col + 1);
        foldM (\<lambda>idx acc. do {
           r \<leftarrow> nth_chk row_indices idx;
           cols \<leftarrow> nth_chk acc (as_usize r);
           upd_chk acc (as_usize r) (cols @ [col]) }) [as_usize s..<as_usize e] acc })
       [0..<n] (replicate n [])"

definition col_dep_level :: "(nat \<Rightarrow> bool) \<Rightarrow> nat list list \<Rightarrow> nat \<Rightarrow> nat list \<Rightarrow> nat option" where
  "col_dep_level dep row_to_cols j level_of = do {
     cols \<leftarrow> nth_chk row_to_cols j;
     foldM (\<lambda>k m. if dep k then do { l \<leftarrow> nth_chk level_of k; Some (max m (l + 1)) } else Some m) cols 0 }"

definition compute_levels_csc_lower :: "nat \<Rightarrow> int list \<Rightarrow> int list \<Rightarrow> level_schedule option" where
  "compute_levels_csc_lower n col_ptrs row_indices = do {
     row_to_cols \<leftarrow> reverse_lookup n col_ptrs row_indices;
     level_of \<leftarrow> foldM (\<lambda>j level_of. do {
        l \<leftarrow> col_dep_level (\<lambda>k. k < j) row_to_cols j level_of;
        upd_chk level_of j l }) [0..<n] (replicate n 0);
     group_levels level_of }"

definition compute_levels_csc_upper :: "nat \<Rightarrow> int list \<Rightarrow> int list \<Rightarrow> level_schedule option" where
  "compute_levels_csc_upper n col_ptrs row_indices = do {
     row_to_cols \<leftarrow> reverse_lookup n col_ptrs row_indices;
     level_of \<leftarrow> foldM (\<lambda>j level_of. do {
        l \<leftarrow> col_dep_level (\<lambda>k. j < k) row_to_cols j level_of;
        upd_chk level_of j l }) (rev [0..<n]) (replicate n 0);
     group_levels level_of }"

text \<open>\<open>as i32\<close> keeps the low 32 bits.\<close>

definition as_i32 :: "nat \<Rightarrow> int" where
  "as_i32 k = sint (of_nat k :: 32 word)"

definition flatten_levels :: "level_schedule \<Rightarrow> int list \<times> int list" where
  "flatten_levels schedule =
     fold (\<lambda>rows (level_ptrs, level_rows).
        let level_rows = level_rows @ map as_i32 rows
        in (level_ptrs @ [as_i32 (length level_rows)], level_rows)) (rows_per_level schedule) ([0], [])"

section \<open>Dependency levels\<close>

text \<open>Row \<open>i\<close> waits for the rows in \<open>deps i\<close>. Levels are valid when every row is after what it waits for.\<close>

definition dep_level :: "nat list \<Rightarrow> nat list \<Rightarrow> nat" where
  "dep_level lev ds = fold (\<lambda>j m. max m (lev ! j + 1)) ds 0"

definition valid_levels :: "nat \<Rightarrow> (nat \<Rightarrow> nat list) \<Rightarrow> nat list \<Rightarrow> bool" where
  "valid_levels n deps lev \<longleftrightarrow> length lev = n \<and> (\<forall>i < n. \<forall>j \<in> set (deps i). j < n \<and> lev ! j < lev ! i)"

lemma fold_max_ge: "m \<le> fold (\<lambda>j m. max m (f j)) ds m \<and> (\<forall>j \<in> set ds. f j \<le> fold (\<lambda>j m. max m (f j)) ds m)"
  for m :: nat
proof (induction ds arbitrary: m)
  case (Cons d ds)
  from Cons[of "max m (f d)"] show ?case by auto
qed simp

lemma fold_max_attained: "fold (\<lambda>j m. max m (f j)) ds m = m \<or> (\<exists>j \<in> set ds. fold (\<lambda>j m. max m (f j)) ds m = f j)"
  for m :: nat
proof (induction ds arbitrary: m)
  case (Cons d ds)
  from Cons[of "max m (f d)"] show ?case by (auto simp: max_def)
qed simp

lemma dep_level_gt: "j \<in> set ds \<Longrightarrow> lev ! j < dep_level lev ds"
  using fold_max_ge[of 0 "\<lambda>j. lev ! j + 1" ds] by (fastforce simp: dep_level_def)

lemma dep_level_attained: "dep_level lev ds = 0 \<or> (\<exists>j \<in> set ds. dep_level lev ds = lev ! j + 1)"
  using fold_max_attained[of "\<lambda>j. lev ! j + 1" ds 0] by (auto simp: dep_level_def)

lemma dep_level_cong: "(\<And>j. j \<in> set ds \<Longrightarrow> lev ! j = lev' ! j) \<Longrightarrow> dep_level lev ds = dep_level lev' ds"
  unfolding dep_level_def by (rule fold_cong) auto

text \<open>A pass over the rows in an order in which a row comes after what it waits for.\<close>

definition in_order :: "nat \<Rightarrow> (nat \<Rightarrow> nat list) \<Rightarrow> nat list \<Rightarrow> bool" where
  "in_order n deps xs \<longleftrightarrow> distinct xs \<and> set xs = {..<n} \<and>
     (\<forall>k < length xs. set (deps (xs ! k)) \<subseteq> set (take k xs))"

lemma in_order_up: "(\<And>i j. i < n \<Longrightarrow> j \<in> set (deps i) \<Longrightarrow> j < i) \<Longrightarrow> in_order n deps [0..<n]"
  by (force simp: in_order_def)

lemma in_order_down: "(\<And>i j. i < n \<Longrightarrow> j \<in> set (deps i) \<Longrightarrow> i < j \<and> j < n) \<Longrightarrow> in_order n deps (rev [0..<n])"
proof -
  assume d: "\<And>i j. i < n \<Longrightarrow> j \<in> set (deps i) \<Longrightarrow> i < j \<and> j < n"
  have "set (deps (rev [0..<n] ! k)) \<subseteq> set (take k (rev [0..<n]))" if "k < n" for k
  proof
    fix j assume "j \<in> set (deps (rev [0..<n] ! k))"
    with that d[of "n - Suc k" j] have "n - Suc k < j" "j < n" by (simp_all add: rev_nth)
    then have "rev [0..<n] ! (n - Suc j) = j" "n - Suc j < k" by (auto simp: rev_nth)
    then show "j \<in> set (take k (rev [0..<n]))"
      using that by (auto simp: in_set_conv_nth intro!: exI[of _ "n - Suc j"])
  qed
  then show ?thesis by (auto simp: in_order_def)
qed

lemma pass_levels:
  assumes ord: "in_order n deps xs"
    and step: "\<And>i lev. i < n \<Longrightarrow> length lev = n \<Longrightarrow> f i lev = Some (lev[i := dep_level lev (deps i)])"
  shows "\<exists>lev. foldM f xs (replicate n 0) = Some lev \<and> length lev = n \<and> (\<forall>i < n. lev ! i = dep_level lev (deps i))"
proof -
  have "\<exists>lev. foldM f (take k xs) (replicate n 0) = Some lev \<and> length lev = n \<and>
      (\<forall>m < k. lev ! (xs ! m) = dep_level lev (deps (xs ! m)))" if "k \<le> length xs" for k
    using that
  proof (induction k)
    case (Suc k)
    then obtain lev where lev: "foldM f (take k xs) (replicate n 0) = Some lev" "length lev = n"
      "\<forall>m < k. lev ! (xs ! m) = dep_level lev (deps (xs ! m))" by auto
    let ?i = "xs ! k"
    have i: "?i < n" using ord Suc.prems by (force simp: in_order_def)
    let ?lev = "lev[?i := dep_level lev (deps ?i)]"
    have nin: "?i \<notin> set (take m xs)" if "m \<le> k" for m
      using ord Suc.prems that by (auto simp: in_order_def in_set_conv_nth distinct_conv_nth)
    have same: "dep_level ?lev (deps (xs ! m)) = dep_level lev (deps (xs ! m))" if "m \<le> k" for m
    proof (rule dep_level_cong)
      fix j assume "j \<in> set (deps (xs ! m))"
      moreover have "set (deps (xs ! m)) \<subseteq> set (take m xs)" using ord Suc.prems that by (simp add: in_order_def)
      ultimately have "j \<in> set (take m xs)" by blast
      then have "j \<noteq> ?i" using nin[OF that] by blast
      then show "?lev ! j = lev ! j" by simp
    qed
    have "?lev ! (xs ! m) = dep_level ?lev (deps (xs ! m))" if "m < Suc k" for m
    proof (cases "m = k")
      case True
      then show ?thesis using same[of k] i lev(2) by simp
    next
      case False
      then have "m < k" using that by simp
      moreover have "xs ! m \<noteq> ?i"
        using ord Suc.prems \<open>m < k\<close> by (auto simp: in_order_def distinct_conv_nth)
      ultimately show ?thesis using same[of m] lev(3) by simp
    qed
    then show ?case
      using lev Suc.prems step[OF i lev(2)] by (simp add: take_Suc_conv_app_nth foldM_append)
  qed simp
  from this[of "length xs"] obtain lev where "foldM f xs (replicate n 0) = Some lev" "length lev = n"
    "\<forall>m < length xs. lev ! (xs ! m) = dep_level lev (deps (xs ! m))" by auto
  moreover have "\<exists>m < length xs. xs ! m = i" if "i < n" for i
  proof -
    have "i \<in> set xs" using ord that by (simp add: in_order_def)
    then show ?thesis by (simp add: in_set_conv_nth)
  qed
  ultimately show ?thesis by metis
qed

text \<open>Such levels are valid and nowhere larger than any other valid ones.\<close>

lemma fixpoint_optimal:
  assumes len: "length lev = n" and fp: "\<forall>i < n. lev ! i = dep_level lev (deps i)"
    and sub: "\<And>i j. i < n \<Longrightarrow> j \<in> set (deps i) \<Longrightarrow> j < n"
  shows "valid_levels n deps lev" and "valid_levels n deps f \<Longrightarrow> i < n \<Longrightarrow> lev ! i \<le> f ! i"
proof -
  show v: "valid_levels n deps lev"
    using len fp sub dep_level_gt by (simp add: valid_levels_def) metis
  show "lev ! i \<le> f ! i" if f: "valid_levels n deps f" and "i < n"
    using \<open>i < n\<close>
  proof (induction "lev ! i" arbitrary: i rule: less_induct)
    case less
    from dep_level_attained[of lev "deps i"] fp less(2)
    have "lev ! i = 0 \<or> (\<exists>j \<in> set (deps i). lev ! i = lev ! j + 1)" by simp
    then show ?case
    proof
      assume "\<exists>j \<in> set (deps i). lev ! i = lev ! j + 1"
      then obtain j where j: "j \<in> set (deps i)" "lev ! i = lev ! j + 1" by blast
      have "lev ! j \<le> f ! j" using less(1)[of j] j sub[OF less(2) j(1)] by simp
      moreover have "f ! j < f ! i" using f j less(2) by (simp add: valid_levels_def)
      ultimately show ?case using j(2) by linarith
    qed simp
  qed
qed

text \<open>Every number below a level of theirs is the level of some row.\<close>

lemma fixpoint_inhabited:
  assumes fp: "\<forall>i < n. lev ! i = dep_level lev (deps i)" and sub: "\<And>i j. i < n \<Longrightarrow> j \<in> set (deps i) \<Longrightarrow> j < n"
  shows "i < n \<Longrightarrow> l \<le> lev ! i \<Longrightarrow> \<exists>k < n. lev ! k = l"
proof (induction "lev ! i" arbitrary: i rule: less_induct)
  case less
  show ?case
  proof (cases "lev ! i = l")
    case False
    with less(3) have "lev ! i \<noteq> 0" by simp
    with dep_level_attained[of lev "deps i"] fp less(2) obtain j where j: "j \<in> set (deps i)" "lev ! i = lev ! j + 1" by auto
    have "j < n" by (rule sub[OF less(2) j(1)])
    with less(1)[of j] j(2) less(3) False show ?thesis by simp
  qed (use less(2) in blast)
qed

section \<open>Grouping\<close>

lemma max_or_0_eq: "xs \<noteq> [] \<Longrightarrow> max_or_0 xs = Max (set xs)"
  by (simp add: max_or_0_def Max.set_eq_fold[symmetric])

lemma max_or_0_ge: "x \<in> set xs \<Longrightarrow> x \<le> max_or_0 xs"
  using max_or_0_eq[of xs] by (cases "xs = []") auto

definition is_schedule :: "nat list \<Rightarrow> level_schedule \<Rightarrow> bool" where
  "is_schedule lev s \<longleftrightarrow> level_of_row s = lev \<and> num_levels s = length (rows_per_level s) \<and>
     rows_per_level s = map (\<lambda>l. filter (\<lambda>i. lev ! i = l) [0..<length lev]) [0..<num_levels s] \<and>
     (\<forall>i < length lev. lev ! i < num_levels s) \<and> (num_levels s = 0 \<longleftrightarrow> lev = []) \<and>
     max_parallelism s = max_or_0 (map length (rows_per_level s))"

lemma group_levels_ok: "\<exists>s. group_levels lev = Some s \<and> is_schedule lev s"
proof -
  define num where "num = (if lev = [] then 0 else max_or_0 lev + 1)"
  have lt: "lev ! i < num" if "i < length lev" for i
    using that max_or_0_ge[of "lev ! i" lev] by (auto simp: num_def)
  let ?f = "\<lambda>(row, level) rows. do { r \<leftarrow> nth_chk rows level; upd_chk rows level (r @ [row]) }"
  have "foldM ?f (zip [0..<k] (take k lev)) (replicate num []) =
      Some (map (\<lambda>l. filter (\<lambda>i. lev ! i = l) [0..<k]) [0..<num])" if "k \<le> length lev" for k
    using that
  proof (induction k)
    case (Suc k)
    let ?rows = "map (\<lambda>l. filter (\<lambda>i. lev ! i = l) [0..<k]) [0..<num]"
    have "zip [0..<Suc k] (take (Suc k) lev) = zip [0..<k] (take k lev) @ [(k, lev ! k)]"
      using Suc.prems by (simp add: take_Suc_conv_app_nth)
    moreover have "?rows[lev ! k := filter (\<lambda>i. lev ! i = lev ! k) [0..<k] @ [k]]
        = map (\<lambda>l. filter (\<lambda>i. lev ! i = l) [0..<Suc k]) [0..<num]"
      by (rule nth_equalityI) (auto simp: nth_list_update)
    ultimately show ?case using Suc lt[of k] by (simp add: foldM_append)
  qed (simp add: map_replicate_const)
  from this[of "length lev"] show ?thesis
    using lt by (auto simp: group_levels_def is_schedule_def Let_def num_def[symmetric]) (simp_all add: num_def)
qed

lemma group_levels_num: "group_levels lev = Some s \<Longrightarrow> num_levels s = (if lev = [] then 0 else max_or_0 lev + 1)"
  by (auto simp: group_levels_def Let_def split: Option.bind_splits)

section \<open>The schedules\<close>

text \<open>A compressed pattern of \<open>n\<close> rows: pointers into the index array, indices below \<open>n\<close>.\<close>

definition csr_ok :: "nat \<Rightarrow> int list \<Rightarrow> int list \<Rightarrow> bool" where
  "csr_ok n row_ptrs col_indices \<longleftrightarrow> length row_ptrs = n + 1 \<and> sorted row_ptrs \<and>
     (\<forall>p \<in> set row_ptrs. 0 \<le> p \<and> p \<le> int (length col_indices)) \<and> length col_indices < 2 ^ 63 \<and> n < 2 ^ 63 \<and>
     (\<forall>c \<in> set col_indices. 0 \<le> c \<and> c < int n)"

definition row_entries :: "int list \<Rightarrow> int list \<Rightarrow> nat \<Rightarrow> nat list" where
  "row_entries row_ptrs col_indices i =
     map (\<lambda>idx. nat (col_indices ! idx)) [nat (row_ptrs ! i)..<nat (row_ptrs ! (i + 1))]"

lemma csr_row:
  assumes ok: "csr_ok n rp ci" and i: "i < n"
  shows "nth_chk rp i = Some (rp ! i)" "nth_chk rp (Suc i) = Some (rp ! Suc i)"
    "as_usize (rp ! i) = nat (rp ! i)" "as_usize (rp ! Suc i) = nat (rp ! Suc i)"
    "idx < nat (rp ! Suc i) \<Longrightarrow> nth_chk ci idx = Some (ci ! idx) \<and> as_usize (ci ! idx) = nat (ci ! idx) \<and> nat (ci ! idx) < n"
proof -
  have b: "0 \<le> rp ! i" "rp ! i \<le> int (length ci)" "0 \<le> rp ! Suc i" "rp ! Suc i \<le> int (length ci)" "length ci < 2 ^ 63"
    using ok i by (auto simp: csr_ok_def)
  show "nth_chk rp i = Some (rp ! i)" "nth_chk rp (Suc i) = Some (rp ! Suc i)"
    using ok i by (simp_all add: csr_ok_def)
  show "as_usize (rp ! i) = nat (rp ! i)" "as_usize (rp ! Suc i) = nat (rp ! Suc i)"
    using b by (auto intro!: as_usize_small)
  show "nth_chk ci idx = Some (ci ! idx) \<and> as_usize (ci ! idx) = nat (ci ! idx) \<and> nat (ci ! idx) < n" if "idx < nat (rp ! Suc i)"
  proof -
    have l: "idx < length ci" using that b by linarith
    then have c: "0 \<le> ci ! idx" "ci ! idx < int n" using ok by (auto simp: csr_ok_def)
    have "n \<le> length rp" using ok by (simp add: csr_ok_def)
    show ?thesis
    proof (intro conjI)
      show "as_usize (ci ! idx) = nat (ci ! idx)"
        using c ok i by (intro as_usize_small) (auto simp: csr_ok_def)
    qed (use l c in auto)
  qed
qed

lemma row_entries_less: "csr_ok n rp ci \<Longrightarrow> i < n \<Longrightarrow> j \<in> set (row_entries rp ci i) \<Longrightarrow> j < n"
  using csr_row(5) by (auto simp: row_entries_def)

lemma row_dep_level_eq:
  assumes ok: "csr_ok n rp ci" and i: "i < n" and len: "length lev = n"
  shows "row_dep_level dep rp ci i lev = Some (dep_level lev (filter dep (row_entries rp ci i)))"
proof -
  note R = csr_row[OF ok i]
  let ?f = "\<lambda>idx m. do {
        c \<leftarrow> nth_chk ci idx;
        let j = as_usize c;
        (if dep j then do { l \<leftarrow> nth_chk lev j; Some (max m (l + 1)) } else Some m) }"
  have "foldM ?f idxs m = Some (fold (\<lambda>j m. max m (lev ! j + 1)) (filter dep (map (\<lambda>idx. nat (ci ! idx)) idxs)) m)"
    if "\<forall>idx \<in> set idxs. idx < nat (rp ! Suc i)" for idxs m
    using that
  proof (induction idxs arbitrary: m)
    case (Cons idx idxs)
    have "nth_chk ci idx = Some (ci ! idx)" "as_usize (ci ! idx) = nat (ci ! idx)" "nat (ci ! idx) < n"
      using R(5) Cons.prems by auto
    with Cons len show ?case by (simp add: Let_def)
  qed simp
  from this[of "[nat (rp ! i)..<nat (rp ! Suc i)]" 0] R show ?thesis
    by (simp add: row_dep_level_def row_entries_def dep_level_def)
qed

text \<open>Every row in one level, after what it waits for, on the least level any valid assignment gives it; no level empty.\<close>

definition optimal_schedule :: "nat \<Rightarrow> (nat \<Rightarrow> nat list) \<Rightarrow> level_schedule \<Rightarrow> bool" where
  "optimal_schedule n deps s \<longleftrightarrow> is_schedule (level_of_row s) s \<and> valid_levels n deps (level_of_row s) \<and>
     (\<forall>f. valid_levels n deps f \<longrightarrow> (\<forall>i < n. level_of_row s ! i \<le> f ! i)) \<and> [] \<notin> set (rows_per_level s)"

lemma optimal_scheduleI:
  assumes ord: "in_order n deps xs" and sub: "\<And>i j. i < n \<Longrightarrow> j \<in> set (deps i) \<Longrightarrow> j < n"
    and step: "\<And>i lev. i < n \<Longrightarrow> length lev = n \<Longrightarrow> g i lev = Some (dep_level lev (deps i))"
  shows "\<exists>s. do { level_of \<leftarrow> foldM (\<lambda>i level_of. do { l \<leftarrow> g i level_of; upd_chk level_of i l }) xs (replicate n 0);
      group_levels level_of } = Some s \<and> optimal_schedule n deps s"
proof -
  obtain lev where lev: "foldM (\<lambda>i level_of. do { l \<leftarrow> g i level_of; upd_chk level_of i l }) xs (replicate n 0) = Some lev"
      "length lev = n" "\<forall>i < n. lev ! i = dep_level lev (deps i)"
    using pass_levels[OF ord, of "\<lambda>i level_of. do { l \<leftarrow> g i level_of; upd_chk level_of i l }"] step by auto
  obtain s where s: "group_levels lev = Some s" "is_schedule lev s" using group_levels_ok by blast
  have "level_of_row s = lev" using s(2) by (simp add: is_schedule_def)
  moreover have "valid_levels n deps lev" by (rule fixpoint_optimal(1)[OF lev(2,3)]) (rule sub)
  moreover have "lev ! i \<le> f ! i" if "valid_levels n deps f" "i < n" for f i
    by (rule fixpoint_optimal(2)[OF lev(2,3) _ that]) (rule sub)
  moreover have "[] \<notin> set (rows_per_level s)"
  proof
    assume "[] \<in> set (rows_per_level s)"
    moreover have "rows_per_level s = map (\<lambda>l. filter (\<lambda>i. lev ! i = l) [0..<n]) [0..<num_levels s]"
      using s(2) lev(2) unfolding is_schedule_def by blast
    ultimately have "[] \<in> (\<lambda>l. filter (\<lambda>i. lev ! i = l) [0..<n]) ` {0..<num_levels s}" by (simp only: set_map set_upt)
    then obtain l where l: "l < num_levels s" "filter (\<lambda>i. lev ! i = l) [0..<n] = []"
      by (elim imageE) (metis atLeastLessThan_iff)
    then have ne: "lev \<noteq> []" and le: "l \<le> max_or_0 lev" using group_levels_num[OF s(1)] by (auto split: if_splits)
    then have "max_or_0 lev \<in> set lev" by (simp add: max_or_0_eq)
    then obtain i where "i < n" "lev ! i = max_or_0 lev" using lev(2) by (auto simp: in_set_conv_nth)
    then have "l \<le> lev ! i" using le by simp
    have "\<exists>k < n. lev ! k = l"
      by (rule fixpoint_inhabited[OF lev(3) _ \<open>i < n\<close> \<open>l \<le> lev ! i\<close>]) (rule sub)
    then obtain k where "k < n" "lev ! k = l" by (elim exE conjE)
    with l(2) show False by (simp add: filter_empty_conv)
  qed
  ultimately have "optimal_schedule n deps s" unfolding optimal_schedule_def using s(2) by simp
  with s(1) lev(1) show ?thesis by simp
qed

text \<open>The columns with an entry in row \<open>i\<close>.\<close>

definition cols_of_row :: "int list \<Rightarrow> int list \<Rightarrow> nat list \<Rightarrow> nat \<Rightarrow> nat list" where
  "cols_of_row cp ri cols i = concat (map (\<lambda>c. replicate (count_list (row_entries cp ri c) i) c) cols)"

lemma in_cols_of_row: "c \<in> set (cols_of_row cp ri cols i) \<longleftrightarrow> c \<in> set cols \<and> i \<in> set (row_entries cp ri c)"
  by (auto simp: cols_of_row_def count_list_0_iff)

lemma reverse_lookup_eq:
  assumes ok: "csr_ok n cp ri"
  shows "reverse_lookup n cp ri = Some (map (cols_of_row cp ri [0..<n]) [0..<n])"
proof -
  let ?g = "\<lambda>col idx acc. do {
           r \<leftarrow> nth_chk ri idx;
           cols \<leftarrow> nth_chk acc (as_usize r);
           upd_chk acc (as_usize r) (cols @ [col]) }"
  have inner: "foldM (?g col) idxs acc = Some (map (\<lambda>i. acc ! i @ replicate (count_list (map (\<lambda>idx. nat (ri ! idx)) idxs) i) col) [0..<n])"
    if "\<forall>idx \<in> set idxs. idx < nat (cp ! Suc col)" "length acc = n" "col < n" for idxs acc col
    using that(1,2)
  proof (induction idxs arbitrary: acc)
    case Nil
    then show ?case using map_nth[of acc] by simp
  next
    case (Cons idx idxs)
    note R = csr_row(5)[OF ok that(3), of idx]
    have a: "nth_chk ri idx = Some (ri ! idx)" "as_usize (ri ! idx) = nat (ri ! idx)" "nat (ri ! idx) < n"
      using R Cons.prems by auto
    let ?acc = "acc[nat (ri ! idx) := acc ! nat (ri ! idx) @ [col]]"
    have "map (\<lambda>i. ?acc ! i @ replicate (count_list (map (\<lambda>idx. nat (ri ! idx)) idxs) i) col) [0..<n]
        = map (\<lambda>i. acc ! i @ replicate (count_list (map (\<lambda>idx. nat (ri ! idx)) (idx # idxs)) i) col) [0..<n]"
      using Cons.prems a(3) by (intro map_cong refl) (auto simp: nth_list_update replicate_app_Cons_same)
    then show ?case using Cons a by simp
  qed
  let ?f = "\<lambda>col acc. do {
        s \<leftarrow> nth_chk cp col;
        e \<leftarrow> nth_chk cp (col + 1);
        foldM (?g col) [as_usize s..<as_usize e] acc }"
  have "foldM ?f [0..<k] (replicate n []) = Some (map (cols_of_row cp ri [0..<k]) [0..<n])" if "k \<le> n" for k
    using that
  proof (induction k)
    case 0
    then show ?case by (simp add: cols_of_row_def map_replicate_const)
  next
    case (Suc k)
    then have k: "k < n" by simp
    note R = csr_row(1-4)[OF ok k]
    have "?f k (map (cols_of_row cp ri [0..<k]) [0..<n]) = Some (map (cols_of_row cp ri [0..<Suc k]) [0..<n])"
      using inner[of "[nat (cp ! k)..<nat (cp ! Suc k)]" k "map (cols_of_row cp ri [0..<k]) [0..<n]"] R k
      by (simp add: row_entries_def) (simp add: cols_of_row_def row_entries_def)
    with Suc show ?case by (simp add: foldM_append)
  qed
  then show ?thesis unfolding reverse_lookup_def by simp
qed

lemma col_dep_level_eq:
  assumes "j < n" and "length rtc = n" and "length lev = n" and "\<forall>k \<in> set (rtc ! j). k < n"
  shows "col_dep_level dep rtc j lev = Some (dep_level lev (filter dep (rtc ! j)))"
proof -
  have "foldM (\<lambda>k m. if dep k then do { l \<leftarrow> nth_chk lev k; Some (max m (l + 1)) } else Some m) ks m
      = Some (fold (\<lambda>j m. max m (lev ! j + 1)) (filter dep ks) m)" if "\<forall>k \<in> set ks. k < n" for ks m
    using that assms(3) by (induction ks arbitrary: m) auto
  then show ?thesis using assms by (simp add: col_dep_level_def dep_level_def)
qed

lemma compute_levels_lower_ok:
  assumes ok: "csr_ok n ptrs inds"
  shows "\<exists>s. compute_levels_lower n ptrs inds = Some s
    \<and> optimal_schedule n (\<lambda>i. filter (\<lambda>j. j < i) (row_entries ptrs inds i)) s"
  unfolding compute_levels_lower_def
  by (rule optimal_scheduleI) (use row_dep_level_eq[OF ok] row_entries_less[OF ok] in \<open>auto intro!: in_order_up\<close>)

text \<open>
  C20. The level schedules are correct and as shallow as possible. For every well-formed pattern, in
  row-compressed form and (through the transposed lookup) in column-compressed form, lower and upper, the
  schedule is computed without a panic; every row is in exactly one level, after everything it waits
  for; no valid assignment gives any row a smaller level; and no level is empty.
\<close>

theorem level_schedules_optimal:
  assumes ok: "csr_ok n ptrs inds"
  shows "(\<exists>s. compute_levels_lower n ptrs inds = Some s \<and> optimal_schedule n (\<lambda>i. filter (\<lambda>j. j < i) (row_entries ptrs inds i)) s)
    \<and> (\<exists>s. compute_levels_ilu n ptrs inds = Some s \<and> optimal_schedule n (\<lambda>i. filter (\<lambda>j. j < i) (row_entries ptrs inds i)) s)
    \<and> (\<exists>s. compute_levels_upper n ptrs inds = Some s \<and> optimal_schedule n (\<lambda>i. filter (\<lambda>j. i < j) (row_entries ptrs inds i)) s)
    \<and> (\<exists>s. compute_levels_csc_lower n ptrs inds = Some s
        \<and> optimal_schedule n (\<lambda>j. filter (\<lambda>k. k < j) (cols_of_row ptrs inds [0..<n] j)) s)
    \<and> (\<exists>s. compute_levels_csc_upper n ptrs inds = Some s
        \<and> optimal_schedule n (\<lambda>j. filter (\<lambda>k. j < k) (cols_of_row ptrs inds [0..<n] j)) s)"
proof (intro conjI)
  note low = compute_levels_lower_ok[OF ok]
  show "\<exists>s. compute_levels_lower n ptrs inds = Some s \<and> optimal_schedule n (\<lambda>i. filter (\<lambda>j. j < i) (row_entries ptrs inds i)) s"
    by (rule low)
  show "\<exists>s. compute_levels_ilu n ptrs inds = Some s \<and> optimal_schedule n (\<lambda>i. filter (\<lambda>j. j < i) (row_entries ptrs inds i)) s"
    unfolding compute_levels_ilu_def by (rule low)
  show "\<exists>s. compute_levels_upper n ptrs inds = Some s \<and> optimal_schedule n (\<lambda>i. filter (\<lambda>j. i < j) (row_entries ptrs inds i)) s"
    unfolding compute_levels_upper_def
    by (rule optimal_scheduleI) (use row_dep_level_eq[OF ok] row_entries_less[OF ok] in \<open>auto intro!: in_order_down\<close>)
  let ?rtc = "map (cols_of_row ptrs inds [0..<n]) [0..<n]"
  have col: "col_dep_level dep ?rtc j lev = Some (dep_level lev (filter dep (cols_of_row ptrs inds [0..<n] j)))"
    if "j < n" "length lev = n" for dep j lev
    using col_dep_level_eq[of j n ?rtc lev dep] that by (simp add: in_cols_of_row)
  show "\<exists>s. compute_levels_csc_lower n ptrs inds = Some s
      \<and> optimal_schedule n (\<lambda>j. filter (\<lambda>k. k < j) (cols_of_row ptrs inds [0..<n] j)) s"
    unfolding compute_levels_csc_lower_def reverse_lookup_eq[OF ok] Option.bind.bind_lunit
    by (rule optimal_scheduleI) (use col in \<open>auto intro!: in_order_up simp: in_cols_of_row\<close>)
  show "\<exists>s. compute_levels_csc_upper n ptrs inds = Some s
      \<and> optimal_schedule n (\<lambda>j. filter (\<lambda>k. j < k) (cols_of_row ptrs inds [0..<n] j)) s"
    unfolding compute_levels_csc_upper_def reverse_lookup_eq[OF ok] Option.bind.bind_lunit
    by (rule optimal_scheduleI) (use col in \<open>auto intro!: in_order_down simp: in_cols_of_row\<close>)
qed

lemma level_schedules_optimal_witness:
  "\<exists>s. compute_levels_csc_lower 3 [0, 2, 4, 5] [0, 1, 1, 2, 2] = Some s \<and> level_of_row s = [0, 1, 2]
    \<and> optimal_schedule 3 (\<lambda>j. filter (\<lambda>k. k < j) (cols_of_row [0, 2, 4, 5] [0, 1, 1, 2, 2] [0..<3] j)) s"
proof -
  have "csr_ok 3 [0, 2, 4, 5] [0, 1, 1, 2, 2]" by (simp add: csr_ok_def)
  note L = level_schedules_optimal[OF this]
  have "map_option level_of_row (compute_levels_csc_lower 3 [0, 2, 4, 5] [0, 1, 1, 2, 2]) = Some [0, 1, 2]"
    by code_simp
  with L show ?thesis by auto
qed

section \<open>Flattening for the GPU\<close>

lemma as_i32_small: "k < 2 ^ 31 \<Longrightarrow> as_i32 k = int k"
proof -
  assume "k < 2 ^ 31"
  moreover have "(of_nat k :: 32 word) = word_of_int (int k)" by simp
  ultimately show "as_i32 k = int k"
    using sint_sbintrunc'[where 'a = 32, of "int k"] by (simp add: as_i32_def signed_take_bit_int_eq_self)
qed

lemma flatten_fold:
  "fold (\<lambda>rows (level_ptrs, level_rows).
        let level_rows = level_rows @ map as_i32 rows
        in (level_ptrs @ [as_i32 (length level_rows)], level_rows)) rss (ptrs, rows)
    = (ptrs @ map (\<lambda>k. as_i32 (length rows + length (concat (take (Suc k) rss)))) [0..<length rss],
       rows @ map as_i32 (concat rss))" (is "fold ?f _ _ = _")
proof (induction rss arbitrary: ptrs rows)
  case (Cons r rss)
  have "map (\<lambda>k. as_i32 (length rows + (length r + length (concat (take k rss))))) [0..<Suc (length rss)]
      = as_i32 (length rows + length r) #
        map (\<lambda>k. as_i32 (length rows + (length r + length (concat (take (Suc k) rss))))) [0..<length rss]"
    by (simp add: upt_conv_Cons map_Suc_upt[symmetric] comp_def del: upt_Suc)
  moreover have "fold ?f (r # rss) (ptrs, rows)
      = fold ?f rss (ptrs @ [as_i32 (length rows + length r)], rows @ map as_i32 r)" by (simp add: Let_def)
  ultimately show ?case unfolding Cons by (simp add: add.assoc del: upt_Suc)
qed simp

lemma slice_concat:
  "k < length xss \<Longrightarrow>
   take (length (concat (take (Suc k) xss)) - length (concat (take k xss))) (drop (length (concat (take k xss))) (concat xss)) = xss ! k"
proof -
  assume k: "k < length xss"
  have "concat xss = concat (take k xss) @ xss ! k @ concat (drop (Suc k) xss)"
    using k by (metis append_take_drop_id Cons_nth_drop_Suc concat.simps(2) concat_append)
  then show ?thesis using k by (simp add: take_Suc_conv_app_nth)
qed

definition slice :: "'a list \<Rightarrow> nat \<Rightarrow> nat \<Rightarrow> 'a list" where
  "slice xs a b = take (b - a) (drop a xs)"

text \<open>
  The flattened arrays a kernel gets are the schedule: the rows are a permutation of all rows, and
  for every level the two consecutive pointers delimit exactly its rows. Every number survives the cast
  to \<open>i32\<close> as long as the matrix has fewer than \<open>2 ^ 31\<close> rows.
\<close>

theorem flattened_levels_slice:
  assumes ok: "csr_ok n ptrs inds" and n: "n < 2 ^ 31"
  shows "\<exists>s lp lr. compute_levels_lower n ptrs inds = Some s \<and> flatten_levels s = (lp, lr)
    \<and> mset lr = mset (map int [0..<n]) \<and> length lp = num_levels s + 1 \<and> lp ! 0 = 0
    \<and> map (\<lambda>l. slice lr (nat (lp ! l)) (nat (lp ! Suc l))) [0..<num_levels s] = map (map int) (rows_per_level s)"
proof -
  from compute_levels_lower_ok[OF ok] obtain s where s: "compute_levels_lower n ptrs inds = Some s"
    and opt: "optimal_schedule n (\<lambda>i. filter (\<lambda>j. j < i) (row_entries ptrs inds i)) s" by blast
  let ?r = "rows_per_level s"
  have sch: "is_schedule (level_of_row s) s" "length (level_of_row s) = n"
    using opt by (auto simp: optimal_schedule_def valid_levels_def)
  have perm: "mset (concat ?r) = mset [0..<n]"
  proof -
    have "?r = map (\<lambda>l. filter (\<lambda>i. level_of_row s ! i = l) [0..<n]) [0..<num_levels s]"
      and "\<forall>i \<in> set [0..<n]. level_of_row s ! i < num_levels s"
      using sch(1)[unfolded is_schedule_def sch(2)] by (blast, force)
    with mset_concat_filter[of "[0..<n]" "(!) (level_of_row s)" "num_levels s"] show ?thesis by simp
  qed
  then have len: "length (concat ?r) = n" by (metis size_mset length_upt minus_nat.diff_0)
  have pre: "length (concat (take k ?r)) \<le> n" for k
    using len by (metis append_take_drop_id concat_append length_append le_add1)
  have rows: "map as_i32 (concat ?r) = map int (concat ?r)"
    using n mset_eq_setD[OF perm] by (auto simp: as_i32_small)
  define lp where "lp = 0 # map (\<lambda>k. int (length (concat (take (Suc k) ?r)))) [0..<length ?r]"
  have ptrs: "0 # map (\<lambda>k. as_i32 (length (concat (take (Suc k) ?r)))) [0..<length ?r] = lp"
    using n le_less_trans[OF pre n] by (auto simp: lp_def intro!: as_i32_small)
  have lpk: "nat (lp ! k) = length (concat (take k ?r))" if "k \<le> length ?r" for k
    using that by (cases k) (simp_all add: lp_def)
  have fl: "flatten_levels s = (lp, map int (concat ?r))"
    using flatten_fold[of ?r "[0]" "[]"] ptrs rows by (simp add: flatten_levels_def)
  have num: "num_levels s = length ?r" using sch unfolding is_schedule_def by blast
  have sl: "map (\<lambda>l. slice (map int (concat ?r)) (nat (lp ! l)) (nat (lp ! Suc l))) [0..<num_levels s] = map (map int) ?r"
    using lpk by (intro nth_equalityI) (simp_all add: slice_def num take_map drop_map slice_concat del: map_concat)
  have "mset (map int (concat ?r)) = mset (map int [0..<n])" using perm by (simp only: mset_map)
  with s fl sl show ?thesis by (intro exI conjI) (assumption | simp add: lp_def num)+
qed

lemma flattened_levels_slice_witness:
  "\<exists>s lp lr. compute_levels_lower 3 [0, 1, 3, 5] [0, 0, 1, 1, 2] = Some s \<and> flatten_levels s = (lp, lr)
    \<and> mset lr = mset (map int [0..<3]) \<and> length lp = num_levels s + 1 \<and> lp ! 0 = 0
    \<and> map (\<lambda>l. slice lr (nat (lp ! l)) (nat (lp ! Suc l))) [0..<num_levels s] = map (map int) (rows_per_level s)"
  by (rule flattened_levels_slice) (simp_all add: csr_ok_def)

end
