(* ===== verification/Autograd.thy ===== *)
theory Autograd
  imports Prelude
begin

text \<open>
  Reverse-mode differentiation: the graph of gradient functions and the variables that carry it
  (\<open>src/autograd/grad_fn.rs\<close>, \<open>src/autograd/var.rs\<close>), the gradient stores
  (\<open>src/autograd/grad_store.rs\<close>, \<open>src/autograd/var_grad_store.rs\<close>), the topological sort and the
  drivers (\<open>src/autograd/backward.rs\<close>) and the search for captured values of a checkpointed segment
  (\<open>src/autograd/capture.rs\<close>).

  The source is generic over the runtime \<open>R\<close> and the client \<open>C\<close>. Their operations are parameters
  here: the tensor type \<open>'t\<close>, the fallible addition \<open>client.add\<close> and the fallible creation of the
  gradient of the loss. A \<open>Box\<close>ed gradient function is a value of the datatype \<open>grad_fn\<close>, which
  holds the ids of its inputs, their own gradient functions and its \<open>backward\<close> method; \<open>Arc\<close> sharing
  is invisible, so a shared node is a subtree that occurs several times with the same id.
\<close>

section \<open>Data\<close>

type_synonym tensor_id = nat

text \<open>The variants of \<open>Error\<close> that these functions make themselves; any other comes from a runtime.\<close>

datatype 'e grad_error = ShapeMismatch "nat list" "nat list" | Internal string | Other 'e

datatype ('t, 'e) grad_fn =
  GradFn (gf_inputs: "tensor_id list") (gf_input_fns: "('t, 'e) grad_fn option list")
    (gf_backward: "'t \<Rightarrow> bool list \<Rightarrow> 'e grad_error + 't option list")

record ('t, 'e) var =
  v_tensor :: 't
  v_id :: tensor_id
  v_requires_grad :: bool
  v_grad_fn :: "('t, 'e) grad_fn option"

text \<open>\<open>TensorId::new\<close> hands out the value of a global counter and advances it.\<close>

definition tensor_id_new :: "nat \<Rightarrow> tensor_id \<times> nat" where
  "tensor_id_new next_id = (next_id, next_id + 1)"

definition var_with_id :: "'t \<Rightarrow> tensor_id \<Rightarrow> bool \<Rightarrow> ('t, 'e) var" where
  "var_with_id tensor i req = \<lparr>v_tensor = tensor, v_id = i, v_requires_grad = req, v_grad_fn = None\<rparr>"

definition var_with_id_and_grad_fn :: "'t \<Rightarrow> tensor_id \<Rightarrow> ('t, 'e) grad_fn option \<Rightarrow> ('t, 'e) var" where
  "var_with_id_and_grad_fn tensor i gf = \<lparr>v_tensor = tensor, v_id = i, v_requires_grad = True, v_grad_fn = gf\<rparr>"

definition var_from_op :: "nat \<Rightarrow> 't \<Rightarrow> ('t, 'e) grad_fn \<Rightarrow> ('t, 'e) var \<times> nat" where
  "var_from_op next_id tensor gf =
     (let (i, next_id) = tensor_id_new next_id
      in (\<lparr>v_tensor = tensor, v_id = i, v_requires_grad = True, v_grad_fn = Some gf\<rparr>, next_id))"

definition var_alias :: "('t, 'e) var \<Rightarrow> ('t, 'e) var" where
  "var_alias v = v"

definition var_detach :: "nat \<Rightarrow> ('t, 'e) var \<Rightarrow> ('t, 'e) var \<times> nat" where
  "var_detach next_id v =
     (let (i, next_id) = tensor_id_new next_id
      in (\<lparr>v_tensor = v_tensor v, v_id = i, v_requires_grad = False, v_grad_fn = None\<rparr>, next_id))"

definition var_clone :: "nat \<Rightarrow> ('t, 'e) var \<Rightarrow> ('t, 'e) var \<times> nat" where
  "var_clone next_id v = (let (i, next_id) = tensor_id_new next_id in (v\<lparr>v_id := i\<rparr>, next_id))"

definition var_set_requires_grad :: "bool \<Rightarrow> ('t, 'e) var \<Rightarrow> ('t, 'e) var" where
  "var_set_requires_grad req v =
     (let v = v\<lparr>v_requires_grad := req\<rparr> in if \<not> req then v\<lparr>v_grad_fn := None\<rparr> else v)"

section \<open>The gradient store\<close>

type_synonym 't grad_store = "tensor_id \<rightharpoonup> 't"

text \<open>The first gradient of an id is stored, every later one is added to it.\<close>

definition try_accumulate :: "('t \<Rightarrow> 't \<Rightarrow> 'e + 't) \<Rightarrow> tensor_id \<Rightarrow> 't \<Rightarrow> 't grad_store \<Rightarrow> 'e + 't grad_store" where
  "try_accumulate add_fn i grad grads =
     (case grads i of
        Some existing \<Rightarrow> (case add_fn existing grad of Inl e \<Rightarrow> Inl e | Inr accumulated \<Rightarrow> Inr (grads(i \<mapsto> accumulated)))
      | None \<Rightarrow> Inr (grads(i \<mapsto> grad)))"

section \<open>Topological order\<close>

type_synonym ('t, 'e) topo_entry = "tensor_id \<times> ('t, 'e) grad_fn option \<times> tensor_id list"

definition input_ids_of :: "('t, 'e) grad_fn option \<Rightarrow> tensor_id list" where
  "input_ids_of gf = (case gf of None \<Rightarrow> [] | Some f \<Rightarrow> gf_inputs f)"

definition children :: "('t, 'e) grad_fn option \<Rightarrow> (tensor_id \<times> ('t, 'e) grad_fn option) list" where
  "children gf = (case gf of None \<Rightarrow> [] | Some f \<Rightarrow> zip (gf_inputs f) (gf_input_fns f))"

definition gsize :: "('t, 'e) grad_fn option \<Rightarrow> nat" where
  "gsize gf = size_option size gf"

lemma children_smaller: "c \<in> set (children f) \<Longrightarrow> gsize (snd c) < gsize f"
proof -
  assume c: "c \<in> set (children f)"
  then obtain ins fns bw where f: "f = Some (GradFn ins fns bw)"
    by (cases f; cases "the f") (auto simp: children_def)
  with c have "(fst c, snd c) \<in> set (zip ins fns)" by (simp add: children_def)
  then have "snd c \<in> set fns" by (rule set_zip_rightD)
  then have "gsize (snd c) \<le> size_list (size_option size) fns"
    unfolding gsize_def by (rule size_list_estimation') simp
  then show ?thesis by (simp add: f gsize_def)
qed

function dfs :: "tensor_id \<Rightarrow> ('t, 'e) grad_fn option \<Rightarrow> tensor_id set \<times> ('t, 'e) topo_entry list
    \<Rightarrow> tensor_id set \<times> ('t, 'e) topo_entry list" where
  "dfs i gf (visited, result) =
     (if i \<in> visited then (visited, result)
      else let (visited, result) = fold (\<lambda>(j, g) st. dfs j g st) (children gf) (insert i visited, result)
           in (visited, result @ [(i, gf, input_ids_of gf)]))"
  by pat_completeness auto
termination
  by (relation "measure (\<lambda>(_, gf, _). gsize gf)") (auto dest: children_smaller)

declare dfs.simps [simp del]

definition topological_sort :: "('t, 'e) var \<Rightarrow> ('t, 'e) topo_entry list" where
  "topological_sort loss = snd (dfs (v_id loss) (v_grad_fn loss) ({}, []))"

section \<open>The drivers\<close>

datatype wanted = All_ids | Id_set "tensor_id set"

definition mark_needed :: "tensor_id set \<Rightarrow> ('t, 'e) topo_entry list \<Rightarrow> tensor_id set" where
  "mark_needed w topo_order =
     fold (\<lambda>(i, gf, input_ids) needed.
       if i \<in> w \<or> list_ex (\<lambda>j. j \<in> needed) input_ids then insert i needed else needed) topo_order {}"

definition compute_needed :: "('t, 'e) topo_entry list \<Rightarrow> wanted \<Rightarrow> tensor_id set option" where
  "compute_needed topo_order wanted =
     (case wanted of
        All_ids \<Rightarrow> None
      | Id_set w \<Rightarrow> Some (mark_needed w topo_order))"

definition is_needed :: "tensor_id set option \<Rightarrow> tensor_id \<Rightarrow> bool" where
  "is_needed needed i = (case needed of None \<Rightarrow> True | Some s \<Rightarrow> i \<in> s)"

definition numel :: "nat list \<Rightarrow> nat" where
  "numel shp = prod_list shp"

text \<open>\<open>shape_of\<close> reads the shape of a tensor.\<close>

definition validate_loss :: "('t \<Rightarrow> nat list) \<Rightarrow> ('t, 'e) var \<Rightarrow> string \<Rightarrow> 'e grad_error option" where
  "validate_loss shape_of loss fn_name =
     (if numel (shape_of (v_tensor loss)) \<noteq> 1 then Some (ShapeMismatch [1] (shape_of (v_tensor loss)))
      else if \<not> v_requires_grad loss
        then Some (Internal (fn_name @ ''() called on tensor that doesn't require grad''))
      else None)"

text \<open>The loop over the inputs of a node and the gradients its function returned.\<close>

definition accumulate_input :: "('t \<Rightarrow> 't \<Rightarrow> 'e + 't) \<Rightarrow> (tensor_id \<Rightarrow> bool) \<Rightarrow> tensor_id \<times> 't option
    \<Rightarrow> 't grad_store \<Rightarrow> 'e + 't grad_store" where
  "accumulate_input add need = (\<lambda>(i, grad_opt) store.
     if \<not> need i then Inr store
     else case grad_opt of None \<Rightarrow> Inr store | Some g \<Rightarrow> try_accumulate add i g store)"

definition accumulate_inputs :: "('t \<Rightarrow> 't \<Rightarrow> 'e + 't) \<Rightarrow> (tensor_id \<Rightarrow> bool) \<Rightarrow> (tensor_id \<times> 't option) list
    \<Rightarrow> 't grad_store \<Rightarrow> 'e + 't grad_store" where
  "accumulate_inputs add need = foldE (accumulate_input add need)"

text \<open>
  One node of the traversal. The hook is any state machine that is told of the leaves; the state kept
  here is the list of the calls it gets.
\<close>

definition backward_node :: "('t \<Rightarrow> 't \<Rightarrow> 'e grad_error + 't) \<Rightarrow> (tensor_id \<Rightarrow> bool) \<Rightarrow> ('t, 'e) topo_entry
    \<Rightarrow> 't grad_store \<times> (tensor_id \<times> 't) list \<Rightarrow> 'e grad_error + 't grad_store \<times> (tensor_id \<times> 't) list" where
  "backward_node add need entry st =
     (case (entry, st) of ((i, gf, input_ids), (store, calls)) \<Rightarrow>
        if \<not> need i then Inr (store, calls)
        else case store i of
          None \<Rightarrow> Inr (store, calls)
        | Some grad_output \<Rightarrow>
           (case gf of
              Some f \<Rightarrow>
                (case gf_backward f grad_output (map need input_ids) of
                   Inl e \<Rightarrow> Inl e
                 | Inr input_grads \<Rightarrow>
                    map_sum id (\<lambda>store. (store, calls))
                      (accumulate_inputs add need (zip input_ids input_grads) store))
            | None \<Rightarrow> Inr (store, calls @ [(i, grad_output)])))"

definition backward_driver :: "('t \<Rightarrow> nat list) \<Rightarrow> ('t \<Rightarrow> 'e grad_error + 't) \<Rightarrow> ('t \<Rightarrow> 't \<Rightarrow> 'e grad_error + 't)
    \<Rightarrow> ('t, 'e) var \<Rightarrow> wanted \<Rightarrow> string \<Rightarrow> 'e grad_error + 't grad_store \<times> (tensor_id \<times> 't) list" where
  "backward_driver shape_of ones_like add loss wanted fn_name =
     (case validate_loss shape_of loss fn_name of
        Some e \<Rightarrow> Inl e
      | None \<Rightarrow>
         (case ones_like (v_tensor loss) of
            Inl e \<Rightarrow> Inl e
          | Inr one \<Rightarrow>
             let topo_order = topological_sort loss;
                 needed = compute_needed topo_order wanted
             in foldE (backward_node add (is_needed needed)) (rev topo_order) ([v_id loss \<mapsto> one], [])))"

definition backward_with_hooks where
  "backward_with_hooks shape_of ones_like add loss =
     backward_driver shape_of ones_like add loss All_ids ''backward_with_hooks''"

definition backward where
  "backward shape_of ones_like add loss = map_sum id fst (backward_with_hooks shape_of ones_like add loss)"

definition backward_wrt_with_hooks where
  "backward_wrt_with_hooks shape_of ones_like add loss wanted =
     backward_driver shape_of ones_like add loss (Id_set (set wanted)) ''backward_wrt_with_hooks''"

definition backward_wrt where
  "backward_wrt shape_of ones_like add loss wanted =
     map_sum id fst (backward_wrt_with_hooks shape_of ones_like add loss wanted)"

section \<open>The topological order\<close>

text \<open>
  A node is an id with its gradient function; its children are its inputs. A graph is well formed for
  \<open>G\<close> when every reachable occurrence of an id \<open>i\<close> carries the same function \<open>G i\<close> and every function has one
  entry per input. The walks compare ids only, so they need this; the code does not enforce it. It holds for
  the graphs of variables made with fresh ids (\<open>built_graph_ok\<close> below). It can fail when an id is used again:
  \<open>Var::with_id\<close> makes a leaf with the id of a variable that has a gradient function (the inputs that a checkpointed
  segment rebuilds in \<open>checkpoint.rs\<close>, the saved inputs in the \<open>backward_var\<close> of \<open>log\<close>, \<open>sqrt\<close>, \<open>pow_scalar\<close> and
  others), and \<open>set_requires_grad(false)\<close> drops the function of a variable that keeps its id. What the walks do
  then depends on the order of the inputs (\<open>reused_id_depends_on_order\<close>, \<open>reused_id_hides_capture\<close>).
\<close>

definition edge :: "tensor_id \<times> ('t, 'e) grad_fn option \<Rightarrow> tensor_id \<times> ('t, 'e) grad_fn option \<Rightarrow> bool" where
  "edge a b \<longleftrightarrow> b \<in> set (children (snd a))"

definition node_ok :: "(tensor_id \<Rightarrow> ('t, 'e) grad_fn option) \<Rightarrow> tensor_id \<times> ('t, 'e) grad_fn option \<Rightarrow> bool" where
  "node_ok G a \<longleftrightarrow> snd a = G (fst a) \<and> set (input_ids_of (snd a)) = fst ` set (children (snd a))"

definition graph_ok :: "(tensor_id \<Rightarrow> ('t, 'e) grad_fn option) \<Rightarrow> tensor_id \<times> ('t, 'e) grad_fn option \<Rightarrow> bool" where
  "graph_ok G a \<longleftrightarrow> (\<forall>b. edge\<^sup>*\<^sup>* a b \<longrightarrow> node_ok G b)"

lemma graph_ok_node: "graph_ok G a \<Longrightarrow> edge\<^sup>*\<^sup>* a b \<Longrightarrow> node_ok G b"
  unfolding graph_ok_def by blast

lemma graph_okD: "graph_ok G a \<Longrightarrow> snd a = G (fst a) \<and> set (input_ids_of (snd a)) = fst ` set (children (snd a))"
  using graph_ok_node[of G a a] unfolding node_ok_def by blast

lemma graph_ok_child: "graph_ok G (i, f) \<Longrightarrow> c \<in> set (children f) \<Longrightarrow> graph_ok G c"
  unfolding graph_ok_def by (metis converse_rtranclp_into_rtranclp edge_def snd_conv)

lemma edge_smaller: "edge\<^sup>*\<^sup>* a b \<Longrightarrow> gsize (snd b) \<le> gsize (snd a)"
proof (induction rule: rtranclp_induct)
  case (step b c)
  then show ?case using children_smaller[of c "snd b"] by (simp add: edge_def)
qed simp

text \<open>
  Variables made with fresh ids: new leaves, results of operations on existing variables, clones and detached
  copies. \<open>n\<close> is the counter of \<open>TensorId::new\<close>.
\<close>

inductive built :: "nat \<Rightarrow> ('t, 'e) var list \<Rightarrow> bool" where
  start: "built 0 []"
| leaf: "built n vs \<Longrightarrow> tensor_id_new n = (i, n') \<Longrightarrow> built n' (var_with_id t i req # vs)"
| op: "built n vs \<Longrightarrow> set ins \<subseteq> set vs \<Longrightarrow> var_from_op n t (GradFn (map v_id ins) (map v_grad_fn ins) bw) = (w, n') \<Longrightarrow>
    built n' (w # vs)"
| clone: "built n vs \<Longrightarrow> v \<in> set vs \<Longrightarrow> var_clone n v = (w, n') \<Longrightarrow> built n' (w # vs)"
| detach: "built n vs \<Longrightarrow> v \<in> set vs \<Longrightarrow> var_detach n v = (w, n') \<Longrightarrow> built n' (w # vs)"

definition loss_node :: "('t, 'e) var \<Rightarrow> tensor_id \<times> ('t, 'e) grad_fn option" where
  "loss_node loss = (v_id loss, v_grad_fn loss)"

lemma edge_cases:
  "edge\<^sup>*\<^sup>* (i, f) b \<Longrightarrow> b = (i, f) \<or> (\<exists>c \<in> set (children f). edge\<^sup>*\<^sup>* c b)"
  by (erule converse_rtranclpE) (auto simp: edge_def)

definition sound :: "(tensor_id \<Rightarrow> ('t, 'e) grad_fn option) \<Rightarrow> nat \<Rightarrow> tensor_id \<times> ('t, 'e) grad_fn option \<Rightarrow> bool" where
  "sound G n a \<longleftrightarrow> (\<forall>b. edge\<^sup>*\<^sup>* a b \<longrightarrow> node_ok G b \<and> fst b < n)"

lemma sound_graph_ok: "sound G n a \<Longrightarrow> graph_ok G a"
  by (simp add: sound_def graph_ok_def)

lemma sound_child: "sound G n (i, f) \<Longrightarrow> c \<in> set (children f) \<Longrightarrow> sound G n c"
  unfolding sound_def by (metis converse_rtranclp_into_rtranclp edge_def snd_conv)

lemma sound_older: "sound G n a \<Longrightarrow> sound (G(n := f)) (Suc n) a"
  unfolding sound_def node_ok_def by (metis fun_upd_other less_Suc_eq less_irrefl)

text \<open>A fresh id, given to a function whose children are sound, extends the map.\<close>

lemma sound_fresh:
  assumes kids: "\<And>c. c \<in> set (children f) \<Longrightarrow> sound G n c" and ids: "set (input_ids_of f) = fst ` set (children f)"
  shows "sound (G(n := f)) (Suc n) (n, f)"
  unfolding sound_def
proof (intro allI impI)
  fix b assume "edge\<^sup>*\<^sup>* (n, f) b"
  from edge_cases[OF this] show "node_ok (G(n := f)) b \<and> fst b < Suc n"
  proof
    assume "b = (n, f)"
    with ids show ?thesis by (simp add: node_ok_def)
  next
    assume "\<exists>c \<in> set (children f). edge\<^sup>*\<^sup>* c b"
    then obtain c where "c \<in> set (children f)" "edge\<^sup>*\<^sup>* c b" by blast
    with sound_older[OF kids, of c f] show ?thesis unfolding sound_def by blast
  qed
qed

lemma sound_extend:
  assumes old: "\<forall>v \<in> set vs. sound G n (loss_node v)" and w: "loss_node w = (n, f)"
    and kids: "\<And>c. c \<in> set (children f) \<Longrightarrow> sound G n c" and ids: "set (input_ids_of f) = fst ` set (children f)"
  shows "\<exists>G. \<forall>v \<in> set (w # vs). sound G (Suc n) (loss_node v)"
proof (intro exI ballI)
  fix v assume "v \<in> set (w # vs)"
  then consider "v = w" | "v \<in> set vs" by auto
  then show "sound (G(n := f)) (Suc n) (loss_node v)"
    using old sound_older[of G n "loss_node v" f] sound_fresh[OF kids ids] by cases (simp_all add: w)
qed

lemma built_sound: "built n vs \<Longrightarrow> \<exists>G. \<forall>v \<in> set vs. sound G n (loss_node v)"
proof (induction rule: built.induct)
  case start
  then show ?case by simp
next
  case (leaf n vs i n' t req)
  then obtain G where G: "\<forall>v \<in> set vs. sound G n (loss_node v)" by blast
  have "loss_node (var_with_id t i req :: ('a, 'b) var) = (n, None)" "n' = Suc n"
    using leaf(2) by (simp_all add: tensor_id_new_def loss_node_def var_with_id_def)
  with sound_extend[OF G this(1)] show ?case by (simp add: children_def input_ids_of_def)
next
  case (op n vs ins t bw w n')
  then obtain G where G: "\<forall>v \<in> set vs. sound G n (loss_node v)" by blast
  let ?f = "Some (GradFn (map v_id ins) (map v_grad_fn ins) bw)"
  have w: "loss_node w = (n, ?f)" "n' = Suc n"
    using op(3) by (auto simp: var_from_op_def tensor_id_new_def loss_node_def)
  have kids: "children ?f = map loss_node ins"
    by (simp add: children_def loss_node_def zip_map_map zip_same_conv_map)
  have "set (input_ids_of ?f) = fst ` set (children ?f)"
    by (simp add: kids input_ids_of_def loss_node_def image_image)
  moreover have "sound G n c" if "c \<in> set (children ?f)" for c using that G op(2) by (auto simp: kids)
  ultimately show ?case using sound_extend[OF G w(1)] w(2) by blast
next
  case (clone n vs v w n')
  then obtain G where G: "\<forall>v \<in> set vs. sound G n (loss_node v)" by blast
  have w: "loss_node w = (n, v_grad_fn v)" "n' = Suc n"
    using clone(3) by (auto simp: var_clone_def tensor_id_new_def loss_node_def)
  have v: "sound G n (v_id v, v_grad_fn v)" using G clone(2) by (simp add: loss_node_def)
  have "set (input_ids_of (v_grad_fn v)) = fst ` set (children (v_grad_fn v))"
    using graph_okD[OF sound_graph_ok[OF v]] unfolding snd_conv by blast
  with sound_extend[OF G w(1) sound_child[OF v]] w(2) show ?case by blast
next
  case (detach n vs v w n')
  then obtain G where G: "\<forall>v \<in> set vs. sound G n (loss_node v)" by blast
  have "loss_node w = (n, None)" "n' = Suc n"
    using detach(3) by (auto simp: var_detach_def tensor_id_new_def loss_node_def)
  with sound_extend[OF G this(1)] show ?case by (simp add: children_def input_ids_of_def)
qed

lemma built_graph_ok: "built n vs \<Longrightarrow> \<exists>G. \<forall>v \<in> set vs. graph_ok G (loss_node v)"
  using built_sound sound_graph_ok by metis

text \<open>Reverse topological order: every node stands before its inputs and occurs once.\<close>

fun rtopo :: "(tensor_id \<Rightarrow> ('t, 'e) grad_fn option) \<Rightarrow> ('t, 'e) topo_entry list \<Rightarrow> bool" where
  "rtopo G [] \<longleftrightarrow> True"
| "rtopo G ((i, f, ins) # rest) \<longleftrightarrow> f = G i \<and> ins = input_ids_of f \<and> set ins \<subseteq> fst ` set rest \<and>
     i \<notin> fst ` set rest \<and> rtopo G rest"

lemma rtopo_inputs: "rtopo G L \<Longrightarrow> (j, g, ids) \<in> set L \<Longrightarrow> set ids \<subseteq> fst ` set L"
  by (induction G L rule: rtopo.induct) auto

definition dfs_post :: "(tensor_id \<Rightarrow> ('t, 'e) grad_fn option) \<Rightarrow> tensor_id set \<Rightarrow> (tensor_id \<times> ('t, 'e) grad_fn option) set
    \<Rightarrow> ('t, 'e) topo_entry list \<Rightarrow> tensor_id set \<times> ('t, 'e) topo_entry list \<Rightarrow> bool" where
  "dfs_post G stack roots res st \<longleftrightarrow> (\<exists>new. snd st = res @ new \<and> fst st = fst ` set (snd st) \<union> stack \<and>
     rtopo G (rev (snd st)) \<and> fst ` roots \<subseteq> fst ` set (snd st) \<and>
     (\<forall>(i, f, ins) \<in> set new. \<exists>r \<in> roots. edge\<^sup>*\<^sup>* r (i, f)))"

lemma dfs_visit_trans:
  assumes "dfs_post G stack A res (v, r)" and "dfs_post G stack B r st"
  shows "dfs_post G stack (B \<union> A) res st"
proof -
  from assms obtain n1 n2 where n: "r = res @ n1" "snd st = r @ n2" "fst st = fst ` set (snd st) \<union> stack"
    "rtopo G (rev (snd st))" "fst ` A \<subseteq> fst ` set r" "fst ` B \<subseteq> fst ` set (snd st)"
    and reach: "\<forall>(i, f, ins) \<in> set n1. \<exists>r \<in> A. edge\<^sup>*\<^sup>* r (i, f)" "\<forall>(i, f, ins) \<in> set n2. \<exists>r \<in> B. edge\<^sup>*\<^sup>* r (i, f)"
    unfolding dfs_post_def by auto
  have "\<forall>(i, f, ins) \<in> set (n1 @ n2). \<exists>r \<in> B \<union> A. edge\<^sup>*\<^sup>* r (i, f)" using reach by fastforce
  moreover have "fst ` (B \<union> A) \<subseteq> fst ` set (snd st)" using n by auto
  ultimately show ?thesis unfolding dfs_post_def using n by (intro exI[of _ "n1 @ n2"]) auto
qed

lemma dfs_correct:
  assumes "graph_ok G (i, f)" and "vis = fst ` set res \<union> stack" and "\<forall>s \<in> stack. gsize f < gsize (G s)"
    and "rtopo G (rev res)"
  shows "dfs_post G stack {(i, f)} res (dfs i f (vis, res))"
  using assms
proof (induction "gsize f" arbitrary: i f vis res stack rule: less_induct)
  case less
  show ?case
  proof (cases "i \<in> vis")
    case True
    have "i \<notin> stack" using graph_okD[OF less.prems(1)] less.prems(3) by force
    with True less.prems show ?thesis by (auto simp: dfs.simps dfs_post_def)
  next
    case new: False
    have f: "f = G i" "set (input_ids_of f) = fst ` set (children f)" using graph_okD[OF less.prems(1)] unfolding fst_conv snd_conv by blast+
    have fold: "dfs_post G (insert i stack) (set cs) res (fold (\<lambda>(j, g) st. dfs j g st) cs (insert i vis, res))"
      if "set cs \<subseteq> set (children f)" for cs
      using that
    proof (induction cs rule: rev_induct)
      case Nil
      then show ?case using less.prems by (simp add: dfs_post_def)
    next
      case (snoc c cs)
      obtain j g where c: "c = (j, g)" "(j, g) \<in> set (children f)" using snoc.prems by (cases c) auto
      obtain v r where st: "fold (\<lambda>(j, g) st. dfs j g st) cs (insert i vis, res) = (v, r)" by fastforce
      have ih: "dfs_post G (insert i stack) (set cs) res (v, r)" using snoc st by simp
      have small: "gsize g < gsize f" using children_smaller[OF c(2)] by simp
      have "dfs_post G (insert i stack) {(j, g)} r (dfs j g (v, r))"
        using ih less.prems(3) small f(1)
        by (intro less.hyps small graph_ok_child[OF less.prems(1) c(2)]) (auto simp: dfs_post_def)
      from dfs_visit_trans[OF ih this] show ?case by (simp add: c(1) st insert_commute)
    qed
    obtain v r where st: "fold (\<lambda>(j, g) st. dfs j g st) (children f) (insert i vis, res) = (v, r)" by fastforce
    from fold[of "children f"] st obtain nw where r: "r = res @ nw" "v = fst ` set r \<union> insert i stack" "rtopo G (rev r)"
      "fst ` set (children f) \<subseteq> fst ` set r" "\<forall>(i, f', ins) \<in> set nw. \<exists>c \<in> set (children f). edge\<^sup>*\<^sup>* c (i, f')"
      by (auto simp: dfs_post_def)
    have below: "edge\<^sup>*\<^sup>* (i, f) b" if "c \<in> set (children f)" "edge\<^sup>*\<^sup>* c b" for b c
      using that by (metis converse_rtranclp_into_rtranclp edge_def snd_conv)
    have "i \<notin> fst ` set nw"
    proof
      assume "i \<in> fst ` set nw"
      then obtain f' ins where "(i, f', ins) \<in> set nw" by auto
      with r(5) obtain c where c: "c \<in> set (children f)" "edge\<^sup>*\<^sup>* c (i, f')" by auto
      have "f' = G i" using graph_ok_node[OF less.prems(1) below[OF c]] by (simp add: node_ok_def)
      moreover have "gsize f' < gsize f" using edge_smaller[OF c(2)] children_smaller[OF c(1)] by simp
      ultimately show False using f(1) by simp
    qed
    then have "i \<notin> fst ` set r" using r(1) new less.prems(2) by auto
    moreover have "dfs i f (vis, res) = (v, r @ [(i, f, input_ids_of f)])" using new st by (simp add: dfs.simps)
    ultimately show ?thesis using r f below by (auto simp: dfs_post_def)
  qed
qed

lemma rtopo_reach:
  assumes L: "rtopo G L" and i: "fst a \<in> fst ` set L" and ok: "graph_ok G a" and reach: "edge\<^sup>*\<^sup>* a b"
  shows "fst b \<in> fst ` set L"
  using reach
proof (induction rule: rtranclp_induct)
  case (step b c)
  have closed: "set (input_ids_of (G j)) \<subseteq> fst ` set L" if "j \<in> fst ` set L" for j
    using L that by (induction L rule: rtopo.induct) auto
  have b: "node_ok G b" using ok step.hyps(1) by (rule graph_ok_node)
  then have "fst c \<in> set (input_ids_of (G (fst b)))" using step.hyps(2) by (auto simp: node_ok_def edge_def)
  then show ?case using closed step.IH by blast
qed (use i in simp)

lemma topological_sort_ok:
  assumes "graph_ok G (loss_node loss)"
  shows "rtopo G (rev (topological_sort loss))"
    and "fst ` set (topological_sort loss) = {i. \<exists>f. edge\<^sup>*\<^sup>* (loss_node loss) (i, f)}"
proof -
  have post: "dfs_post G {} {loss_node loss} [] (dfs (v_id loss) (v_grad_fn loss) ({}, []))"
    using dfs_correct[of G "v_id loss" "v_grad_fn loss" "{}" "[]" "{}"] assms by (simp add: loss_node_def)
  then show t: "rtopo G (rev (topological_sort loss))" by (auto simp: dfs_post_def topological_sort_def)
  have "fst ` set (topological_sort loss) \<subseteq> {i. \<exists>f. edge\<^sup>*\<^sup>* (loss_node loss) (i, f)}"
    using post by (fastforce simp: dfs_post_def topological_sort_def)
  moreover have "i \<in> fst ` set (topological_sort loss)" if "edge\<^sup>*\<^sup>* (loss_node loss) (i, f)" for i f
    using rtopo_reach[OF t _ assms that] post by (auto simp: dfs_post_def topological_sort_def)
  ultimately show "fst ` set (topological_sort loss) = {i. \<exists>f. edge\<^sup>*\<^sup>* (loss_node loss) (i, f)}" by blast
qed

section \<open>Accumulation\<close>

text \<open>What is added to one id, in order, on top of what the store holds.\<close>

definition add_all :: "('t \<Rightarrow> 't \<Rightarrow> 't) \<Rightarrow> 't list \<Rightarrow> 't option \<Rightarrow> 't option" where
  "add_all pl vs v = fold (\<lambda>g v. case v of None \<Rightarrow> Some g | Some x \<Rightarrow> Some (pl x g)) vs v"

definition gradients_for :: "tensor_id \<Rightarrow> (tensor_id \<times> 't option) list \<Rightarrow> 't list" where
  "gradients_for n igs = [g. (i, Some g) \<leftarrow> igs, i = n]"

lemma add_all_append: "add_all pl (vs @ ws) v = add_all pl ws (add_all pl vs v)"
  by (simp add: add_all_def)

lemma gradients_for_append: "gradients_for n (xs @ ys) = gradients_for n xs @ gradients_for n ys"
  by (simp add: gradients_for_def)

text \<open>The addition of a client that succeeds gives \<open>pl\<close>.\<close>

definition adds :: "('t \<Rightarrow> 't \<Rightarrow> 'e + 't) \<Rightarrow> ('t \<Rightarrow> 't \<Rightarrow> 't) \<Rightarrow> bool" where
  "adds add pl \<longleftrightarrow> (\<forall>x y z. add x y = Inr z \<longrightarrow> z = pl x y)"

lemma add_all_Nil [simp]: "add_all pl [] v = v"
  by (simp add: add_all_def)

lemma gradients_for_Nil [simp]: "gradients_for n [] = []"
  by (simp add: gradients_for_def)

lemma map_sum_Inr_iff: "map_sum id f x = Inr y \<longleftrightarrow> (\<exists>z. x = Inr z \<and> y = f z)"
  by (cases x) auto

lemma accumulate_input_Inr:
  assumes "adds add pl" and "accumulate_input add need (i, g) store = Inr store'"
  shows "store' n = (if need n then add_all pl (gradients_for n [(i, g)]) (store n) else store n)"
  using assms by (auto simp: accumulate_input_def add_all_def gradients_for_def try_accumulate_def adds_def
      split: if_splits option.splits sum.splits)

lemma accumulate_inputs_Inr:
  assumes "adds add pl" and "accumulate_inputs add need igs store = Inr store'"
  shows "store' n = (if need n then add_all pl (gradients_for n igs) (store n) else store n)"
  using assms(2) unfolding accumulate_inputs_def
proof (induction igs arbitrary: store)
  case (Cons p igs)
  obtain i g where p: "p = (i, g)" by fastforce
  from Cons.prems obtain st where st: "accumulate_input add need (i, g) store = Inr st"
    "foldE (accumulate_input add need) igs st = Inr store'"
    unfolding foldE_Cons_Inr p by blast
  have "gradients_for n (p # igs) = gradients_for n [(i, g)] @ gradients_for n igs"
    using gradients_for_append[of n "[(i, g)]" igs] by (simp add: p)
  with Cons.IH[OF st(2)] accumulate_input_Inr[OF assms(1) st(1), of n] show ?case by (simp add: add_all_append)
qed simp

section \<open>The chain rule\<close>

text \<open>What a consumer sends to its inputs when its own gradient is the one in \<open>store\<close>.\<close>

definition sent :: "(tensor_id \<Rightarrow> bool) \<Rightarrow> 't grad_store \<Rightarrow> ('t, 'e) topo_entry \<Rightarrow> (tensor_id \<times> 't option) list" where
  "sent need store entry =
     (case entry of (i, gf, ids) \<Rightarrow>
        (case (store i, gf) of
           (Some g, Some f) \<Rightarrow> (case gf_backward f g (map need ids) of Inr gs \<Rightarrow> zip ids gs | Inl e \<Rightarrow> [])
         | _ \<Rightarrow> []))"

definition leaf_calls :: "'t grad_store \<Rightarrow> ('t, 'e) topo_entry list \<Rightarrow> (tensor_id \<times> 't) list" where
  "leaf_calls store L = [(i, the (store i)). (i, gf, ids) \<leftarrow> L, gf = None \<and> store i \<noteq> None]"

lemma fst_leaf_calls: "map fst (leaf_calls store L) = map fst (filter (\<lambda>(i, gf, ids). gf = None \<and> store i \<noteq> None) L)"
  by (induction L) (auto simp: leaf_calls_def split: if_splits)

lemma sent_ids: "fst ` set (sent need store (i, gf, ids)) \<subseteq> set ids"
  by (auto simp: sent_def split: option.splits sum.splits dest: set_zip_leftD)

lemma gradients_for_notin: "n \<notin> fst ` set igs \<Longrightarrow> gradients_for n igs = []"
  by (induction igs) (auto simp: gradients_for_def split: option.splits)

lemma backward_node_Inr:
  assumes "adds add pl" and "backward_node add need (i, gf, ids) (store, calls) = Inr (store', calls')"
  shows "store' n = (if need i \<and> need n then add_all pl (gradients_for n (sent need store (i, gf, ids))) (store n) else store n)"
    and "calls' = calls @ (if need i then leaf_calls store [(i, gf, ids)] else [])"
  using assms(2) accumulate_inputs_Inr[OF assms(1), of need _ store store' n]
  by (auto simp: backward_node_def sent_def leaf_calls_def map_sum_Inr_iff
      split: if_splits option.splits sum.splits)

text \<open>
  The whole traversal. Because every node stands before its inputs, the gradient a node sends from is
  the one it has at the end.
\<close>

lemma backward_run:
  assumes add: "adds add pl" and L: "rtopo G L" and run: "foldE (backward_node add need) L (store, calls) = Inr (store', calls')"
    and closed: "\<forall>(i, gf, ids) \<in> set L. need i \<or> (\<forall>j \<in> set ids. \<not> need j)"
  shows "\<forall>n. store' n = (if need n then add_all pl (gradients_for n (concat (map (sent need store') [e \<leftarrow> L. need (fst e)]))) (store n) else store n)
    \<and> calls' = calls @ leaf_calls store' [e \<leftarrow> L. need (fst e)]"
  using L run closed
proof (induction L arbitrary: store calls)
  case Nil
  then show ?case by (simp add: leaf_calls_def)
next
  case (Cons e L)
  obtain i gf ids where e: "e = (i, gf, ids)" by (cases e)
  from Cons.prems obtain st cl where step: "backward_node add need (i, gf, ids) (store, calls) = Inr (st, cl)"
    and rest: "foldE (backward_node add need) L (st, cl) = Inr (store', calls')"
    unfolding e foldE_Cons_Inr by auto
  note N = backward_node_Inr[OF add step]
  have ih: "\<forall>n. store' n = (if need n then add_all pl (gradients_for n (concat (map (sent need store') [e \<leftarrow> L. need (fst e)]))) (st n) else st n)"
    "calls' = cl @ leaf_calls store' [e \<leftarrow> L. need (fst e)]"
    using Cons.IH[OF _ rest] Cons.prems by (auto simp: e)
  have inputs: "set ids' \<subseteq> fst ` set L" if "(j, g, ids') \<in> set L" for j g ids'
  proof -
    have "rtopo G L" using Cons.prems(1) by (simp add: e)
    then show ?thesis using that by (rule rtopo_inputs)
  qed
  have "i \<notin> fst ` set (concat (map (sent need store') [e \<leftarrow> L. need (fst e)]))"
  proof
    assume "i \<in> fst ` set (concat (map (sent need store') [e \<leftarrow> L. need (fst e)]))"
    then obtain j g ids' where j: "(j, g, ids') \<in> set L" "i \<in> fst ` set (sent need store' (j, g, ids'))" by auto
    then have "i \<in> fst ` set L" using inputs[OF j(1)] sent_ids[of need store' j g ids'] by blast
    with Cons.prems(1) show False by (simp add: e)
  qed
  moreover have "i \<notin> fst ` set (sent need store (i, gf, ids))"
    using Cons.prems(1) sent_ids[of need store i gf ids] unfolding e by auto
  ultimately have own: "store' i = store i"
    using ih(1)[rule_format, of i] N(1)[of i] by (simp add: gradients_for_notin)
  then have s: "sent need store' e = sent need store e" "leaf_calls store' [e] = leaf_calls store [e]"
    by (simp_all add: sent_def leaf_calls_def e)
  show ?case
  proof (intro conjI allI)
    fix n
    show "store' n = (if need n then add_all pl (gradients_for n (concat (map (sent need store') [e \<leftarrow> e # L. need (fst e)]))) (store n) else store n)"
      using ih(1)[rule_format, of n] N(1)[of n] s(1) by (simp add: e gradients_for_append add_all_append)
    show "calls' = calls @ leaf_calls store' [e \<leftarrow> e # L. need (fst e)]"
      using ih(2) N(2) s(2) by (simp add: e leaf_calls_def)
  qed
qed

lemma rtopo_facts:
  assumes "rtopo G L"
  shows "distinct (map fst L)" and "(i, f, ids) \<in> set L \<Longrightarrow> f = G i \<and> ids = input_ids_of f"
    and "L = post @ e # pre \<Longrightarrow> set (snd (snd e)) \<subseteq> fst ` set pre"
proof -
  show "distinct (map fst L)" using assms by (induction G L rule: rtopo.induct) auto
  show "(i, f, ids) \<in> set L \<Longrightarrow> f = G i \<and> ids = input_ids_of f"
    using assms by (induction G L rule: rtopo.induct) auto
  show "L = post @ e # pre \<Longrightarrow> set (snd (snd e)) \<subseteq> fst ` set pre"
    using assms by (induction post arbitrary: L) (cases e; auto)+
qed

lemma topological_sort_nodes:
  assumes ok: "graph_ok G (loss_node loss)"
  shows "{(i, f). \<exists>ids. (i, f, ids) \<in> set (topological_sort loss)} = {b. edge\<^sup>*\<^sup>* (loss_node loss) b}"
proof -
  note T = topological_sort_ok[OF ok]
  have own: "f = G i" if "(i, f, ids) \<in> set (topological_sort loss)" for i f ids
    using rtopo_facts(2)[OF T(1), of i f ids] that by simp
  have node: "f = G i" if "edge\<^sup>*\<^sup>* (loss_node loss) (i, f)" for i f
    using graph_ok_node[OF ok that] by (simp add: node_ok_def)
  have "(\<exists>ids. (i, f, ids) \<in> set (topological_sort loss)) \<longleftrightarrow> edge\<^sup>*\<^sup>* (loss_node loss) (i, f)" for i f
  proof
    assume "\<exists>ids. (i, f, ids) \<in> set (topological_sort loss)"
    then obtain ids where e: "(i, f, ids) \<in> set (topological_sort loss)" by blast
    then have "i \<in> fst ` set (topological_sort loss)" by force
    then obtain f' where "edge\<^sup>*\<^sup>* (loss_node loss) (i, f')" using T(2) by auto
    then show "edge\<^sup>*\<^sup>* (loss_node loss) (i, f)" using own[OF e] node by metis
  next
    assume r: "edge\<^sup>*\<^sup>* (loss_node loss) (i, f)"
    then have "i \<in> fst ` set (topological_sort loss)" using T(2) by blast
    then obtain f' ids where "(i, f', ids) \<in> set (topological_sort loss)" by auto
    then show "\<exists>ids. (i, f, ids) \<in> set (topological_sort loss)" using own node[OF r] by metis
  qed
  then show ?thesis by auto
qed

text \<open>
  C21. For every graph in which an id determines its gradient function (\<open>graph_ok\<close>: no id is used again
  for a variable with another function, and every function names the function of each of its inputs), the topological
  sort lists every node reachable from the loss exactly once, with its gradient function and inputs, every node after
  all of its inputs and the loss at the end.
\<close>

theorem topological_sort_correct:
  assumes ok: "graph_ok G (loss_node loss)"
  shows "{(i, f). \<exists>ids. (i, f, ids) \<in> set (topological_sort loss)} = {b. edge\<^sup>*\<^sup>* (loss_node loss) b}
    \<and> distinct (map fst (topological_sort loss))
    \<and> (\<forall>pre i f ids post. topological_sort loss = pre @ (i, f, ids) # post \<longrightarrow> ids = input_ids_of f \<and> set ids \<subseteq> fst ` set pre)
    \<and> last (topological_sort loss) = (v_id loss, v_grad_fn loss, input_ids_of (v_grad_fn loss))"
proof (intro conjI allI impI)
  note T = topological_sort_ok[OF ok]
  show "{(i, f). \<exists>ids. (i, f, ids) \<in> set (topological_sort loss)} = {b. edge\<^sup>*\<^sup>* (loss_node loss) b}"
    by (rule topological_sort_nodes[OF ok])
  show "distinct (map fst (topological_sort loss))"
    using rtopo_facts(1)[OF T(1)] by (simp add: rev_map[symmetric])
  fix pre i f ids post
  assume split: "topological_sort loss = pre @ (i, f, ids) # post"
  show "ids = input_ids_of f" using rtopo_facts(2)[OF T(1), of i f ids] split by simp
  show "set ids \<subseteq> fst ` set pre"
    using rtopo_facts(3)[OF T(1), of "rev post" "(i, f, ids)" "rev pre"] split by simp
next
  show "last (topological_sort loss) = (v_id loss, v_grad_fn loss, input_ids_of (v_grad_fn loss))"
    by (simp add: topological_sort_def dfs.simps[of _ _ "{}"] split: prod.split)
qed

text \<open>A graph for the witnesses: \<open>z = x * y\<close>, \<open>loss = z + x\<close> at \<open>x = 2\<close>, \<open>y = 3\<close>.\<close>

definition mul_backward :: "int \<Rightarrow> int \<Rightarrow> int \<Rightarrow> bool list \<Rightarrow> unit grad_error + int option list" where
  "mul_backward a b g needed = Inr (map2 (\<lambda>need d. if need then Some d else None) needed [g * b, g * a])"

definition ex_z :: "(int, unit) grad_fn" where
  "ex_z = GradFn [1, 2] [None, None] (mul_backward 2 3)"

definition ex_sum :: "(int, unit) grad_fn" where
  "ex_sum = GradFn [3, 1] [Some ex_z, None] (\<lambda>g needed. Inr [Some g, Some g])"

definition ex_loss :: "(int, unit) var" where
  "ex_loss = \<lparr>v_tensor = 8, v_id = 4, v_requires_grad = True, v_grad_fn = Some ex_sum\<rparr>"

definition ex_graph :: "tensor_id \<Rightarrow> (int, unit) grad_fn option" where
  "ex_graph i = (if i = 4 then Some ex_sum else if i = 3 then Some ex_z else None)"

lemma ex_reach: "edge\<^sup>*\<^sup>* (4, Some ex_sum) b \<Longrightarrow> b \<in> {(4, Some ex_sum), (3, Some ex_z), (1, None), (2, None)}"
  by (induction rule: rtranclp_induct) (auto simp: edge_def children_def ex_sum_def ex_z_def)

lemma ex_graph_ok: "graph_ok ex_graph (loss_node ex_loss)"
  unfolding graph_ok_def
  by (auto dest!: ex_reach simp: loss_node_def ex_loss_def node_ok_def ex_graph_def children_def input_ids_of_def)
    (auto simp: ex_sum_def ex_z_def)

lemma topological_sort_correct_witness:
  "last (topological_sort ex_loss) = (4, Some ex_sum, [3, 1])"
  using topological_sort_correct[OF ex_graph_ok] by (simp add: ex_loss_def input_ids_of_def ex_sum_def)

text \<open>
  An id used twice: the loss has a leaf with id 3 and \<open>ex_z\<close>, also with id 3, as inputs. With the leaf first, the
  inputs of \<open>ex_z\<close> are not listed; with \<open>ex_z\<close> first they are.
\<close>

definition reused_loss :: "(int, unit) grad_fn option list \<Rightarrow> (int, unit) var" where
  "reused_loss fns = \<lparr>v_tensor = 8, v_id = 4, v_requires_grad = True,
     v_grad_fn = Some (GradFn [3, 3] fns (\<lambda>g needed. Inr [Some g, Some g]))\<rparr>"

lemma reused_id_depends_on_order:
  "map fst (topological_sort (reused_loss [None, Some ex_z])) = [3, 4] \<and>
   map fst (topological_sort (reused_loss [Some ex_z, None])) = [1, 2, 3, 4]"
  by (simp add: topological_sort_def reused_loss_def dfs.simps children_def ex_z_def)

section \<open>The gradients of a full pass\<close>

definition functions_succeed :: "tensor_id \<times> ('t, 'e) grad_fn option \<Rightarrow> bool" where
  "functions_succeed a \<longleftrightarrow> (\<forall>i f. edge\<^sup>*\<^sup>* a (i, Some f) \<longrightarrow> (\<forall>g m. \<exists>gs. gf_backward f g m = Inr gs))"

lemma accumulate_inputs_total:
  assumes "\<forall>x y. \<exists>z. add x y = Inr z"
  shows "\<exists>store'. accumulate_inputs add need igs store = Inr store'"
  unfolding accumulate_inputs_def
proof (induction igs arbitrary: store)
  case (Cons p igs)
  have "\<exists>st. accumulate_input add need p store = Inr st"
  proof (cases p)
    case (Pair i g)
    have "\<exists>st. try_accumulate add i x store = Inr st" for x
    proof (cases "store i")
      case (Some y)
      with assms[rule_format, of y x] show ?thesis by (auto simp: try_accumulate_def)
    qed (simp add: try_accumulate_def)
    with Pair show ?thesis by (auto simp: accumulate_input_def split: option.split)
  qed
  with Cons show ?case by auto
qed simp

lemma backward_nodes_total:
  assumes add: "\<forall>x y. \<exists>z. add x y = Inr z"
    and fns: "\<forall>(i, gf, ids) \<in> set L. \<forall>f g m. gf = Some f \<longrightarrow> (\<exists>gs. gf_backward f g m = Inr gs)"
  shows "\<exists>r. foldE (backward_node add need) L st = Inr r"
  using fns
proof (induction L arbitrary: st)
  case (Cons e L)
  obtain i gf ids store calls where e: "e = (i, gf, ids)" "st = (store, calls)" by (cases e; cases st)
  have "\<exists>r. backward_node add need e st = Inr r"
  proof (cases "store i")
    case (Some g)
    show ?thesis
    proof (cases gf)
      case (Some f)
      then obtain gs where "gf_backward f g (map need ids) = Inr gs" using Cons.prems e by fastforce
      moreover obtain st' where "accumulate_inputs add need (zip ids gs) store = Inr st'"
        using accumulate_inputs_total[OF add] by blast
      ultimately show ?thesis using Some \<open>store i = Some g\<close> e by (simp add: backward_node_def)
    qed (simp add: backward_node_def e Some)
  qed (simp add: backward_node_def e)
  with Cons show ?case by auto
qed simp

text \<open>
  C22. For every graph in which an id determines its gradient function (\<open>graph_ok\<close>), and every function
  names those of its inputs, a full backward pass implements the chain rule. The gradient of every node is the one
  seeded at the loss followed by what the consumers of the node send to it, added in reverse topological order, where
  each consumer sends what its function computes from its own final gradient. The hook is called once per leaf that
  has a gradient, with the final gradient of the leaf. A pass over a scalar loss that requires gradients fails only
  when an operation of the runtime fails.
\<close>

theorem backward_chain_rule:
  assumes ok: "graph_ok G (loss_node loss)" and add: "adds add pl"
  shows "(\<forall>store calls. backward_with_hooks shape_of ones_like add loss = Inr (store, calls) \<longrightarrow>
      backward shape_of ones_like add loss = Inr store \<and>
      (\<exists>one. ones_like (v_tensor loss) = Inr one \<and>
        (\<forall>n. store n = add_all pl (gradients_for n (concat (map (sent (\<lambda>_. True) store) (rev (topological_sort loss)))))
                        (if n = v_id loss then Some one else None))) \<and>
      calls = leaf_calls store (rev (topological_sort loss)) \<and> distinct (map fst calls))
    \<and> (validate_loss shape_of loss ''backward_with_hooks'' = None \<and> (\<exists>one. ones_like (v_tensor loss) = Inr one) \<and>
       (\<forall>x y. \<exists>z. add x y = Inr z) \<and> functions_succeed (loss_node loss) \<longrightarrow>
       (\<exists>store. backward shape_of ones_like add loss = Inr store))"
proof (intro conjI allI impI)
  note T = topological_sort_ok[OF ok]
  let ?L = "rev (topological_sort loss)"
  have need: "is_needed (compute_needed (topological_sort loss) All_ids) = (\<lambda>_. True)"
    by (simp add: is_needed_def compute_needed_def fun_eq_iff)
  {
    fix store calls
    assume run: "backward_with_hooks shape_of ones_like add loss = Inr (store, calls)"
    then show "backward shape_of ones_like add loss = Inr store" by (simp add: backward_def)
    from run obtain one where one: "ones_like (v_tensor loss) = Inr one"
      "foldE (backward_node add (\<lambda>_. True)) ?L ([v_id loss \<mapsto> one], []) = Inr (store, calls)"
      by (auto simp: backward_with_hooks_def backward_driver_def Let_def need split: option.splits sum.splits)
    note R = backward_run[OF add T(1) one(2)]
    have eqs: "store n = add_all pl (gradients_for n (concat (map (sent (\<lambda>_. True) store) ?L)))
        (if n = v_id loss then Some one else None)" for n
      using R by (auto simp: fun_upd_def)
    with one(1) show "\<exists>one. ones_like (v_tensor loss) = Inr one \<and>
        (\<forall>n. store n = add_all pl (gradients_for n (concat (map (sent (\<lambda>_. True) store) ?L))) (if n = v_id loss then Some one else None))"
      by blast
    show calls: "calls = leaf_calls store ?L" using R by simp
    have "distinct (map fst ?L)" by (rule rtopo_facts(1)[OF T(1)])
    then show "distinct (map fst calls)" unfolding calls fst_leaf_calls by (rule distinct_map_filter)
  }
  assume "validate_loss shape_of loss ''backward_with_hooks'' = None \<and> (\<exists>one. ones_like (v_tensor loss) = Inr one) \<and>
       (\<forall>x y. \<exists>z. add x y = Inr z) \<and> functions_succeed (loss_node loss)"
  then obtain one where a: "validate_loss shape_of loss ''backward_with_hooks'' = None" "ones_like (v_tensor loss) = Inr one"
    "\<forall>x y. \<exists>z. add x y = Inr z" "functions_succeed (loss_node loss)" by blast
  have "\<forall>(i, gf, ids) \<in> set ?L. \<forall>f g m. gf = Some f \<longrightarrow> (\<exists>gs. gf_backward f g m = Inr gs)"
    using a(4) topological_sort_nodes[OF ok] unfolding functions_succeed_def by fastforce
  from backward_nodes_total[OF a(3) this, of "\<lambda>_. True" "([v_id loss \<mapsto> one], [])"]
  show "\<exists>store. backward shape_of ones_like add loss = Inr store"
    using a(1,2) by (auto simp: backward_def backward_with_hooks_def backward_driver_def Let_def need)
qed

text \<open>In the example the gradient of \<open>x\<close> is \<open>3 + 1\<close>: through the product and through the sum.\<close>

lemma backward_chain_rule_witness:
  "\<exists>store. backward_with_hooks (\<lambda>_. []) (\<lambda>_. Inr 1) (\<lambda>x y. Inr (x + y)) ex_loss = Inr (store, [(2, 2), (1, 4)])
    \<and> store 1 = add_all (+) (gradients_for 1 (concat (map (sent (\<lambda>_. True) store) (rev (topological_sort ex_loss))))) None
    \<and> store 1 = Some 4"
proof -
  have "adds (\<lambda>x y. Inr (x + y)) ((+) :: int \<Rightarrow> int \<Rightarrow> int)" by (simp add: adds_def)
  note C = backward_chain_rule[OF ex_graph_ok this, of "\<lambda>_. []" "\<lambda>_. Inr 1"]
  obtain store where run: "backward_with_hooks (\<lambda>_. []) (\<lambda>_. Inr 1) (\<lambda>x y. Inr (x + y)) ex_loss = Inr (store, [(2, 2), (1, 4)])"
    and "store 1 = Some 4"
    by (simp add: backward_with_hooks_def backward_driver_def validate_loss_def numel_def ex_loss_def topological_sort_def
        dfs.simps children_def ex_sum_def ex_z_def mul_backward_def compute_needed_def is_needed_def backward_node_def
        accumulate_inputs_def accumulate_input_def try_accumulate_def input_ids_of_def)
  then show ?thesis using C by (auto simp: ex_loss_def)
qed

lemma backward_calls:
  "foldE (backward_node add need) L (s, calls) = Inr (s', calls') \<Longrightarrow> fst ` set calls' \<subseteq> fst ` set calls \<union> fst ` set L"
proof (induction L arbitrary: s calls)
  case (Cons e L)
  obtain i gf ids where e: "e = (i, gf, ids)" by (cases e)
  from Cons.prems obtain s1 c1 where s1: "backward_node add need (i, gf, ids) (s, calls) = Inr (s1, c1)"
    "foldE (backward_node add need) L (s1, c1) = Inr (s', calls')" unfolding e foldE_Cons_Inr by auto
  then have "fst ` set c1 \<subseteq> insert i (fst ` set calls)"
    by (auto simp: backward_node_def map_sum_Inr_iff split: if_splits option.splits sum.splits)
  with Cons.IH[OF s1(2)] show ?case by (auto simp: e)
qed simp

section \<open>A pruned pass\<close>

text \<open>The contract of \<open>GradFn::backward\<close>: a slot the mask asks for is what the full mask gives.\<close>

definition mask_ok :: "('t, 'e) grad_fn \<Rightarrow> bool" where
  "mask_ok f \<longleftrightarrow> (\<forall>g m gs. length m = length (gf_inputs f) \<longrightarrow>
     gf_backward f g (replicate (length (gf_inputs f)) True) = Inr gs \<longrightarrow>
     (\<exists>gs'. gf_backward f g m = Inr gs' \<and> list_all2 (\<lambda>need (a, b). need \<longrightarrow> a = b) m (zip gs gs') \<and> length gs' = length gs))"

definition masks_ok :: "tensor_id \<times> ('t, 'e) grad_fn option \<Rightarrow> bool" where
  "masks_ok a \<longleftrightarrow> (\<forall>i f. edge\<^sup>*\<^sup>* a (i, Some f) \<longrightarrow> mask_ok f)"

definition agree :: "(tensor_id \<Rightarrow> bool) \<Rightarrow> 't grad_store \<Rightarrow> 't grad_store \<Rightarrow> bool" where
  "agree need s t \<longleftrightarrow> (\<forall>n. need n \<longrightarrow> s n = t n)"

lemma agree_trans: "agree P s t \<Longrightarrow> agree P t u \<Longrightarrow> agree P s u"
  by (simp add: agree_def)

lemma agree_refl [simp]: "agree P s s"
  by (simp add: agree_def)

lemma accumulate_input_agree:
  assumes "accumulate_input add (\<lambda>_. True) (i, g) s = Inr s'" and "agree need s t" and "need i \<Longrightarrow> g = g'"
  shows "\<exists>t'. accumulate_input add need (i, g') t = Inr t' \<and> agree need s' t' \<and> agree (\<lambda>n. \<not> need n) t t'"
proof (cases "need i")
  case True
  then have "t i = s i" using assms(2) by (simp add: agree_def)
  with assms True show ?thesis
    by (auto simp: accumulate_input_def try_accumulate_def agree_def split: option.splits sum.splits)
next
  case False
  with assms(1,2) show ?thesis
    by (auto simp: accumulate_input_def try_accumulate_def agree_def split: option.splits sum.splits)
qed

lemma accumulate_inputs_agree:
  assumes "list_all2 (\<lambda>(i, g) (j, g'). i = j \<and> (need i \<longrightarrow> g = g')) igs jgs"
    and "accumulate_inputs add (\<lambda>_. True) igs s = Inr s'" and "agree need s t"
  shows "\<exists>t'. accumulate_inputs add need jgs t = Inr t' \<and> agree need s' t' \<and> agree (\<lambda>n. \<not> need n) t t'"
  using assms unfolding accumulate_inputs_def
proof (induction arbitrary: s t rule: list_all2_induct)
  case (Cons p igs q jgs)
  obtain i g g' where p: "p = (i, g)" "q = (i, g')" "need i \<longrightarrow> g = g'" using Cons.hyps(1) by (cases p; cases q) auto
  from Cons.prems(1) obtain s1 where s1: "accumulate_input add (\<lambda>_. True) (i, g) s = Inr s1"
    "foldE (accumulate_input add (\<lambda>_. True)) igs s1 = Inr s'" unfolding p foldE_Cons_Inr by blast
  from accumulate_input_agree[OF s1(1) Cons.prems(2)] p(3) obtain t1 where t1: "accumulate_input add need (i, g') t = Inr t1"
    "agree need s1 t1" "agree (\<lambda>n. \<not> need n) t t1" by blast
  from Cons.IH[OF s1(2) t1(2)] t1 p show ?case by (auto intro: agree_trans)
qed auto

lemma backward_node_agree:
  assumes run: "backward_node add (\<lambda>_. True) (i, gf, ids) (s, calls) = Inr (s', calls')"
    and agree: "agree need s t" and mask: "\<And>f. gf = Some f \<Longrightarrow> mask_ok f \<and> ids = gf_inputs f"
    and closed: "need i \<or> (\<forall>j \<in> set ids. \<not> need j)"
  shows "\<exists>t'. backward_node add need (i, gf, ids) (t, filter (\<lambda>c. need (fst c)) calls) = Inr (t', filter (\<lambda>c. need (fst c)) calls')
    \<and> agree need s' t' \<and> agree (\<lambda>n. \<not> need n) t t'"
proof (cases "s i")
  case None
  with run agree show ?thesis by (auto simp: backward_node_def agree_def)
next
  case (Some g)
  show ?thesis
  proof (cases gf)
    case None
    with run agree Some show ?thesis by (auto simp: backward_node_def agree_def)
  next
    case gf: (Some f)
    have ids: "ids = gf_inputs f" "mask_ok f" using mask[OF gf] by auto
    have full: "map (\<lambda>_. True) ids = replicate (length (gf_inputs f)) True" by (simp add: ids map_replicate_const)
    from run obtain gs where gs: "gf_backward f g (replicate (length (gf_inputs f)) True) = Inr gs"
      and acc: "accumulate_inputs add (\<lambda>_. True) (zip ids gs) s = Inr s'" and calls: "calls' = calls"
      by (auto simp: backward_node_def Some gf full map_sum_Inr_iff split: sum.splits)
    show ?thesis
    proof (cases "need i")
      case True
      from ids(2) gs obtain gs' where gs': "gf_backward f g (map need ids) = Inr gs'" "length gs' = length gs"
        "list_all2 (\<lambda>need (a, b). need \<longrightarrow> a = b) (map need ids) (zip gs gs')"
        unfolding mask_ok_def using ids(1) by (metis length_map)
      have "list_all2 (\<lambda>(i, g) (j, g'). i = j \<and> (need i \<longrightarrow> g = g')) (zip ids gs) (zip ids gs')"
        using gs'(2,3) by (auto simp: list_all2_conv_all_nth)
      from accumulate_inputs_agree[OF this acc agree] obtain t' where
        "accumulate_inputs add need (zip ids gs') t = Inr t'" "agree need s' t'" "agree (\<lambda>n. \<not> need n) t t'" by blast
      moreover have "t i = Some g" using agree True Some by (simp add: agree_def)
      ultimately show ?thesis using True gf gs' calls by (simp add: backward_node_def)
    next
      case False
      have "list_all2 (\<lambda>(i, g) (j, g'). i = j \<and> (need i \<longrightarrow> g = g')) (zip ids gs) (zip ids gs)"
        by (rule list_all2_refl) auto
      from accumulate_inputs_agree[OF this acc agree] obtain t' where
        t': "accumulate_inputs add need (zip ids gs) t = Inr t'" "agree need s' t'" by blast
      have "\<forall>j \<in> set ids. \<not> need j" using closed False by blast
      then have "foldE (accumulate_input add need) igs t = Inr t" if "fst ` set igs \<subseteq> set ids" for igs t
        using that by (induction igs) (auto simp: accumulate_input_def)
      moreover have "fst ` set (zip ids gs) \<subseteq> set ids" by (auto dest: set_zip_leftD)
      ultimately have "accumulate_inputs add need (zip ids gs) t = Inr t"
        by (simp add: accumulate_inputs_def)
      with t' show ?thesis using False calls by (auto simp: backward_node_def)
    qed
  qed
qed

lemma backward_run_agree:
  assumes "foldE (backward_node add (\<lambda>_. True)) L (s, calls) = Inr (s', calls')"
    and "agree need s t" and "\<forall>(i, gf, ids) \<in> set L. \<forall>f. gf = Some f \<longrightarrow> mask_ok f \<and> ids = gf_inputs f"
    and "\<forall>(i, gf, ids) \<in> set L. need i \<or> (\<forall>j \<in> set ids. \<not> need j)"
  shows "\<exists>t'. foldE (backward_node add need) L (t, filter (\<lambda>c. need (fst c)) calls) = Inr (t', filter (\<lambda>c. need (fst c)) calls')
    \<and> agree need s' t' \<and> agree (\<lambda>n. \<not> need n) t t'"
  using assms
proof (induction L arbitrary: s calls t)
  case (Cons e L)
  obtain i gf ids where e: "e = (i, gf, ids)" by (cases e)
  from Cons.prems(1) obtain s1 c1 where s1: "backward_node add (\<lambda>_. True) (i, gf, ids) (s, calls) = Inr (s1, c1)"
    "foldE (backward_node add (\<lambda>_. True)) L (s1, c1) = Inr (s', calls')" unfolding e foldE_Cons_Inr by auto
  have "gf = Some f \<Longrightarrow> mask_ok f \<and> ids = gf_inputs f" for f
    using Cons.prems(3) by (auto simp: e)
  moreover have "need i \<or> (\<forall>j \<in> set ids. \<not> need j)" using Cons.prems(4) by (auto simp: e)
  ultimately obtain t1 where t1: "backward_node add need (i, gf, ids) (t, filter (\<lambda>c. need (fst c)) calls) = Inr (t1, filter (\<lambda>c. need (fst c)) c1)"
    "agree need s1 t1" "agree (\<lambda>n. \<not> need n) t t1"
    using backward_node_agree[OF s1(1) Cons.prems(2)] by blast
  from Cons.IH[OF s1(2) t1(2)] Cons.prems(3,4) obtain t2 where
    "foldE (backward_node add need) L (t1, filter (\<lambda>c. need (fst c)) c1) = Inr (t2, filter (\<lambda>c. need (fst c)) calls')"
    "agree need s' t2" "agree (\<lambda>n. \<not> need n) t1 t2" by fastforce
  with t1 e show ?case by (auto simp: foldE_Cons_Inr intro: agree_trans)
qed auto

text \<open>The needed ids are the nodes of the graph from which a wanted id can be reached.\<close>

definition leads_to :: "(tensor_id \<Rightarrow> ('t, 'e) grad_fn option) \<Rightarrow> tensor_id set \<Rightarrow> tensor_id \<Rightarrow> bool" where
  "leads_to G w i \<longleftrightarrow> (\<exists>j \<in> w. edge\<^sup>*\<^sup>* (i, G i) (j, G j))"

text \<open>\<open>N\<close> is closed: a node is in it when it is wanted or one of its inputs is in it.\<close>

definition needed_closed :: "tensor_id set \<Rightarrow> ('t, 'e) topo_entry list \<Rightarrow> tensor_id set \<Rightarrow> bool" where
  "needed_closed w topo N \<longleftrightarrow> N \<subseteq> fst ` set topo \<and>
     (\<forall>i gf ids. (i, gf, ids) \<in> set topo \<longrightarrow> (i \<in> N \<longleftrightarrow> i \<in> w \<or> (\<exists>j \<in> set ids. j \<in> N)))"

lemma needed_closed_Cons:
  assumes L: "rtopo G ((i, gf, ids) # L)" and N: "needed_closed w (rev L) N"
  shows "needed_closed w (rev ((i, gf, ids) # L)) (if i \<in> w \<or> list_ex (\<lambda>j. j \<in> N) ids then insert i N else N)"
    (is "needed_closed w _ ?N")
proof -
  have fresh: "rtopo G L" "i \<notin> fst ` set L" "set ids \<subseteq> fst ` set L" using L by auto
  have keep: "j \<in> ?N \<longleftrightarrow> j \<in> N" if "j \<in> fst ` set L" for j using that fresh(2) by auto
  have "i \<notin> N" using N fresh(2) unfolding needed_closed_def by auto
  have "x \<in> ?N \<longleftrightarrow> x \<in> w \<or> (\<exists>j \<in> set xs. j \<in> ?N)" if m: "(x, g, xs) \<in> set ((i, gf, ids) # L)" for x g xs
  proof (cases "(x, g, xs) \<in> set L")
    case True
    have "x \<in> fst ` set L" using True by force
    moreover have "set xs \<subseteq> fst ` set L" by (rule rtopo_inputs[OF fresh(1) True])
    moreover have "x \<in> N \<longleftrightarrow> x \<in> w \<or> (\<exists>j \<in> set xs. j \<in> N)"
      using N True unfolding needed_closed_def set_rev by blast
    ultimately show ?thesis using keep by blast
  next
    case False
    then have x: "x = i" "xs = ids" using m by simp_all
    have "(\<exists>j \<in> set ids. j \<in> ?N) \<longleftrightarrow> (\<exists>j \<in> set ids. j \<in> N)" using keep fresh(3) by blast
    with \<open>i \<notin> N\<close> show ?thesis by (auto simp: x list_ex_iff)
  qed
  moreover have "?N \<subseteq> fst ` set ((i, gf, ids) # L)" using N unfolding needed_closed_def by auto
  ultimately show ?thesis unfolding needed_closed_def set_rev by blast
qed

lemma mark_needed_closed: "rtopo G L \<Longrightarrow> needed_closed w (rev L) (mark_needed w (rev L))"
proof (induction L)
  case (Cons e L)
  obtain i gf ids where e: "e = (i, gf, ids)" by (cases e)
  have "rtopo G L" using Cons.prems by (simp add: e)
  then have "needed_closed w (rev L) (mark_needed w (rev L))" by (rule Cons.IH)
  note step = needed_closed_Cons[OF Cons.prems[unfolded e] this]
  have "mark_needed w (rev ((i, gf, ids) # L)) = (if i \<in> w \<or> list_ex (\<lambda>j. j \<in> mark_needed w (rev L)) ids
      then insert i (mark_needed w (rev L)) else mark_needed w (rev L))"
    by (simp add: mark_needed_def)
  with step show ?case unfolding e by (simp only:)
qed (simp add: needed_closed_def mark_needed_def)

lemma compute_needed_closed:
  assumes "graph_ok G (loss_node loss)"
  shows "\<exists>N. compute_needed (topological_sort loss) (Id_set w) = Some N \<and> needed_closed w (topological_sort loss) N"
  using mark_needed_closed[OF topological_sort_ok(1)[OF assms], of w] by (simp add: compute_needed_def)

lemma topo_entry:
  assumes ok: "graph_ok G (loss_node loss)" and r: "edge\<^sup>*\<^sup>* (loss_node loss) (i, f)"
  shows "(i, G i, input_ids_of (G i)) \<in> set (topological_sort loss)"
proof -
  from topological_sort_nodes[OF ok] r obtain ids where "(i, f, ids) \<in> set (topological_sort loss)" by blast
  moreover from this have "f = G i \<and> ids = input_ids_of f"
    using rtopo_facts(2)[OF topological_sort_ok(1)[OF ok], of i f ids] by simp
  ultimately show ?thesis by simp
qed

lemma input_edge:
  assumes ok: "graph_ok G a" and reach: "edge\<^sup>*\<^sup>* a (i, f)" and j: "j \<in> set (input_ids_of f)"
  shows "edge (i, G i) (j, G j)"
proof -
  have n: "f = G i" "j \<in> fst ` set (children f)" using j graph_ok_node[OF ok reach] by (auto simp: node_ok_def)
  then obtain h where h: "edge (i, f) (j, h)" by (auto simp: edge_def)
  then have "h = G j" using graph_ok_node[OF ok rtranclp.rtrancl_into_rtrancl[OF reach h]] by (simp add: node_ok_def)
  with h n show ?thesis by simp
qed

lemma needed_down:
  assumes ok: "graph_ok G (loss_node loss)" and N: "needed_closed w (topological_sort loss) N"
    and "(i, f, ids) \<in> set L" "rtopo G L" "set L \<subseteq> set (topological_sort loss)" "i \<in> N"
  shows "leads_to G w i"
  using assms(3-)
proof (induction L arbitrary: i f ids)
  case (Cons e L)
  show ?case
  proof (cases "(i, f, ids) \<in> set L")
    case True
    then show ?thesis using Cons.IH[OF True] Cons.prems by (cases e) simp
  next
    case False
    then have e: "e = (i, f, ids)" using Cons.prems(1) by auto
    then have m: "(i, f, ids) \<in> set (topological_sort loss)" "ids = input_ids_of f" "set ids \<subseteq> fst ` set L" "rtopo G L"
      using Cons.prems by auto
    have reach: "edge\<^sup>*\<^sup>* (loss_node loss) (i, f)" using topological_sort_nodes[OF ok] m(1) by blast
    from N m(1) Cons.prems(4) consider "i \<in> w" | j where "j \<in> set ids" "j \<in> N" unfolding needed_closed_def by blast
    then show ?thesis
    proof cases
      case 2
      then obtain g js where "(j, g, js) \<in> set L" using m(3) by auto
      from Cons.IH[OF this m(4) _ 2(2)] Cons.prems(3) have "leads_to G w j" by simp
      with input_edge[OF ok reach] 2(1) m(2) show ?thesis
        unfolding leads_to_def by (meson converse_rtranclp_into_rtranclp)
    qed (auto simp: leads_to_def)
  qed
qed simp

lemma needed_up:
  assumes ok: "graph_ok G (loss_node loss)" and N: "needed_closed w (topological_sort loss) N"
    and "edge\<^sup>*\<^sup>* a b" "fst b \<in> w" "a = (i, f)" "edge\<^sup>*\<^sup>* (loss_node loss) (i, f)"
  shows "i \<in> N"
  using assms(3-)
proof (induction arbitrary: i f rule: converse_rtranclp_induct)
  case base
  then show ?case using N topo_entry[OF ok base(3)] unfolding needed_closed_def by auto
next
  case (step a c)
  obtain j g where c: "c = (j, g)" by (cases c)
  have e: "edge (i, f) (j, g)" using step.hyps(1) step.prems c by simp
  have "j \<in> N" using step.IH[OF step.prems(1) c] step.prems(3) e by (meson rtranclp.rtrancl_into_rtrancl)
  moreover have "f = G i" "j \<in> set (input_ids_of f)"
    using graph_ok_node[OF ok step.prems(3)] e by (force simp: node_ok_def edge_def)+
  ultimately show ?case using N topo_entry[OF ok step.prems(3)] unfolding needed_closed_def by blast
qed

lemma needed_iff:
  assumes ok: "graph_ok G (loss_node loss)" and N: "needed_closed w (topological_sort loss) N"
  shows "i \<in> N \<longleftrightarrow> (\<exists>f. edge\<^sup>*\<^sup>* (loss_node loss) (i, f)) \<and> leads_to G w i"
proof
  assume i: "i \<in> N"
  then obtain f ids where m: "(i, f, ids) \<in> set (topological_sort loss)" using N unfolding needed_closed_def by auto
  have "leads_to G w i"
    by (rule needed_down[OF ok N, of i f ids "rev (topological_sort loss)"]) (use m i topological_sort_ok[OF ok] in auto)
  moreover have "edge\<^sup>*\<^sup>* (loss_node loss) (i, f)" using m topological_sort_nodes[OF ok] by blast
  ultimately show "(\<exists>f. edge\<^sup>*\<^sup>* (loss_node loss) (i, f)) \<and> leads_to G w i" by blast
next
  assume "(\<exists>f. edge\<^sup>*\<^sup>* (loss_node loss) (i, f)) \<and> leads_to G w i"
  then obtain f j where r: "edge\<^sup>*\<^sup>* (loss_node loss) (i, f)" "j \<in> w" "edge\<^sup>*\<^sup>* (i, G i) (j, G j)" by (auto simp: leads_to_def)
  have "f = G i" using graph_ok_node[OF ok r(1)] by (simp add: node_ok_def)
  with r needed_up[OF ok N r(3), of i f] show "i \<in> N" by simp
qed

text \<open>
  C23. For every graph in which an id determines its gradient function and every function names those of its inputs
  (\<open>graph_ok\<close>; the graph that a checkpointed segment hands to \<open>backward_wrt\<close> can violate it
  when the segment captures something computed from a listed input that is not a leaf, see
  \<open>reused_id_depends_on_order\<close>), a pruned pass agrees exactly with the full one. When every function
  honours its mask and the full pass returns, \<open>backward_wrt\<close> returns too, for every addition, associative
  or not: each node on a path from the loss to a wanted id (every wanted one included) gets the very same gradient,
  the hook is called for the same leaves among those in the same order with the same gradients, and nothing but the
  loss and such nodes is stored.
\<close>

theorem backward_wrt_agrees:
  assumes ok: "graph_ok G (loss_node loss)" and masks: "masks_ok (loss_node loss)"
    and full: "backward_with_hooks shape_of ones_like add loss = Inr (store, calls)"
  shows "\<exists>store'. backward_wrt_with_hooks shape_of ones_like add loss wanted
        = Inr (store', filter (\<lambda>c. leads_to G (set wanted) (fst c)) calls)
    \<and> (\<forall>i. (\<exists>f. edge\<^sup>*\<^sup>* (loss_node loss) (i, f)) \<and> leads_to G (set wanted) i \<longrightarrow> store' i = store i)
    \<and> (\<forall>i. store' i \<noteq> None \<longrightarrow> i = v_id loss \<or> leads_to G (set wanted) i)"
proof -
  note T = topological_sort_ok[OF ok]
  let ?L = "rev (topological_sort loss)"
  obtain N where N: "compute_needed (topological_sort loss) (Id_set (set wanted)) = Some N"
    "needed_closed (set wanted) (topological_sort loss) N"
    using compute_needed_closed[OF ok] by blast
  let ?need = "\<lambda>i. i \<in> N"
  have all: "is_needed (compute_needed (topological_sort loss) All_ids) = (\<lambda>_. True)"
    by (simp add: is_needed_def compute_needed_def fun_eq_iff)
  have need: "is_needed (Some N) = ?need" by (simp add: is_needed_def fun_eq_iff)
  from full obtain one where valid: "validate_loss shape_of loss ''backward_with_hooks'' = None" "ones_like (v_tensor loss) = Inr one"
    and run: "foldE (backward_node add (\<lambda>_. True)) ?L ([v_id loss \<mapsto> one], []) = Inr (store, calls)"
    by (auto simp: backward_with_hooks_def backward_driver_def Let_def all split: option.splits sum.splits)
  have "\<forall>(i, gf, ids) \<in> set ?L. \<forall>f. gf = Some f \<longrightarrow> mask_ok f \<and> ids = gf_inputs f"
  proof (intro ballI, clarsimp)
    fix i ids f
    assume m: "(i, Some f, ids) \<in> set (topological_sort loss)"
    then have "edge\<^sup>*\<^sup>* (loss_node loss) (i, Some f)" using topological_sort_nodes[OF ok] by blast
    with masks have "mask_ok f" unfolding masks_ok_def by blast
    moreover have "ids = gf_inputs f" using rtopo_facts(2)[OF T(1), of i "Some f" ids] m by (simp add: input_ids_of_def)
    ultimately show "mask_ok f \<and> ids = gf_inputs f" by blast
  qed
  moreover have "\<forall>(i, gf, ids) \<in> set ?L. ?need i \<or> (\<forall>j \<in> set ids. \<not> ?need j)"
    using N(2) unfolding needed_closed_def by fastforce
  ultimately obtain store' where
    store': "foldE (backward_node add ?need) ?L ([v_id loss \<mapsto> one], []) = Inr (store', filter (\<lambda>c. ?need (fst c)) calls)"
    "agree ?need store store'" "agree (\<lambda>n. \<not> ?need n) [v_id loss \<mapsto> one] store'"
    using backward_run_agree[OF run, of ?need "[v_id loss \<mapsto> one]"] by auto
  have valid': "validate_loss shape_of loss ''backward_wrt_with_hooks'' = None"
    using valid(1) by (simp add: validate_loss_def split: if_splits)
  have pruned: "backward_wrt_with_hooks shape_of ones_like add loss wanted = Inr (store', filter (\<lambda>c. ?need (fst c)) calls)"
    using store'(1) valid(2) valid' by (simp add: backward_wrt_with_hooks_def backward_driver_def N(1) need)
  have leaf: "\<exists>f. edge\<^sup>*\<^sup>* (loss_node loss) (fst c, f)" if "c \<in> set calls" for c
  proof -
    have "fst ` set calls \<subseteq> fst ` set ?L"
      using backward_calls[OF run] by auto
    with that T(2) show ?thesis by auto
  qed
  have "filter (\<lambda>c. ?need (fst c)) calls = filter (\<lambda>c. leads_to G (set wanted) (fst c)) calls"
    using leaf needed_iff[OF ok N(2)] by (intro filter_cong) auto
  with pruned have "backward_wrt_with_hooks shape_of ones_like add loss wanted
      = Inr (store', filter (\<lambda>c. leads_to G (set wanted) (fst c)) calls)" by simp
  moreover have "store' i = store i" if "\<exists>f. edge\<^sup>*\<^sup>* (loss_node loss) (i, f)" "leads_to G (set wanted) i" for i
    using that store'(2) needed_iff[OF ok N(2)] unfolding agree_def by metis
  moreover have "i = v_id loss \<or> leads_to G (set wanted) i" if "store' i \<noteq> None" for i
    using that store'(3) needed_iff[OF ok N(2), of i] unfolding agree_def by (metis fun_upd_apply)
  ultimately show ?thesis by blast
qed

lemma ex_masks_ok: "masks_ok (loss_node ex_loss)"
proof -
  have "mask_ok ex_z" "mask_ok ex_sum"
    by (auto simp: mask_ok_def ex_z_def ex_sum_def mul_backward_def length_Suc_conv eval_nat_numeral)
  then show ?thesis by (auto simp: masks_ok_def loss_node_def ex_loss_def dest: ex_reach)
qed

text \<open>Only the gradient of \<open>y\<close> is wanted: the hook is called for \<open>y\<close> alone, with the gradient of the full pass.\<close>

lemma backward_wrt_agrees_witness:
  "\<exists>store'. backward_wrt_with_hooks (\<lambda>_. []) (\<lambda>_. Inr 1) (\<lambda>x y. Inr (x + y)) ex_loss [2] = Inr (store', [(2, 2)])
    \<and> store' 2 = Some 2 \<and> store' 1 = None"
proof -
  obtain store where run: "backward_with_hooks (\<lambda>_. []) (\<lambda>_. Inr 1) (\<lambda>x y. Inr (x + y)) ex_loss = Inr (store, [(2, 2), (1, 4)])"
    and "store 2 = Some 2"
    by (simp add: backward_with_hooks_def backward_driver_def validate_loss_def numel_def ex_loss_def topological_sort_def
        dfs.simps children_def ex_sum_def ex_z_def mul_backward_def compute_needed_def is_needed_def backward_node_def
        accumulate_inputs_def accumulate_input_def try_accumulate_def input_ids_of_def)
  have leaf: "edge\<^sup>*\<^sup>* (j, None) b \<Longrightarrow> b = (j, None)" for j b
    by (induction rule: rtranclp_induct) (auto simp: edge_def children_def)
  have y: "leads_to ex_graph {2} 2" by (auto simp: leads_to_def)
  have x: "\<not> leads_to ex_graph {2} 1" by (auto simp: leads_to_def ex_graph_def dest: leaf)
  have "edge (4, Some ex_sum) (3, Some ex_z)" "edge (3, Some ex_z) (2, None)"
    by (auto simp: edge_def children_def ex_sum_def ex_z_def)
  then have "edge\<^sup>*\<^sup>* (loss_node ex_loss) (2, None)" by (simp add: loss_node_def ex_loss_def)
  with backward_wrt_agrees[OF ex_graph_ok ex_masks_ok run, of "[2]"] x y show ?thesis
    using \<open>store 2 = Some 2\<close> by (force simp: ex_loss_def)
qed

section \<open>Values captured by a checkpointed segment\<close>

definition stack_size :: "(tensor_id \<times> ('t, 'e) grad_fn option) list \<Rightarrow> nat" where
  "stack_size stack = sum_list (map (\<lambda>(i, gf). Suc (gsize gf)) stack)"

lemma stack_size_children: "stack_size (zip (gf_inputs gf) (gf_input_fns gf)) < Suc (gsize (Some gf))"
proof -
  have "stack_size (zip ins fns) \<le> size_list (size_option size) fns" for ins and fns :: "('t, 'e) grad_fn option list"
  proof (induction fns arbitrary: ins)
    case (Cons g fns)
    then show ?case by (cases ins) (force simp: stack_size_def gsize_def)+
  qed (simp add: stack_size_def)
  from this[of "gf_inputs gf" "gf_input_fns gf"] show ?thesis by (cases gf) (simp add: gsize_def)
qed

lemma stack_size_append [simp]: "stack_size (xs @ ys) = stack_size xs + stack_size ys"
  by (simp add: stack_size_def)

lemma stack_size_pop: "stack \<noteq> [] \<Longrightarrow> (i, gf) = last stack \<Longrightarrow> stack_size stack = stack_size (butlast stack) + Suc (gsize gf)"
proof -
  assume "stack \<noteq> []" and "(i, gf) = last stack"
  then have "stack = butlast stack @ [(i, gf)]" by simp
  then have "stack_size stack = stack_size (butlast stack @ [(i, gf)])" by (rule arg_cong)
  then show ?thesis by (simp add: stack_size_def)
qed

text \<open>The depth-first walk of \<open>collect_captures\<close>; the top of the stack is the end of the list.\<close>

function capture_loop :: "nat \<Rightarrow> tensor_id set \<Rightarrow> (tensor_id \<times> ('t, 'e) grad_fn option) list
    \<Rightarrow> tensor_id set \<Rightarrow> tensor_id list \<Rightarrow> tensor_id list" where
  "capture_loop boundary known stack visited captures =
     (if stack = [] then captures
      else let (i, grad_fn) = last stack; stack = butlast stack
           in if i \<in> visited then capture_loop boundary known stack visited captures
              else let visited = insert i visited
                   in case grad_fn of
                        None \<Rightarrow> capture_loop boundary known stack visited
                          (if i < boundary \<and> i \<notin> known then captures @ [i] else captures)
                      | Some gf \<Rightarrow> capture_loop boundary known (stack @ zip (gf_inputs gf) (gf_input_fns gf)) visited captures)"
  by pat_completeness auto
termination
  by (relation "measure (\<lambda>(_, _, stack, _). stack_size stack)")
    (auto simp: stack_size_pop stack_size_children)

declare capture_loop.simps [simp del]

definition collect_captures :: "('t, 'e) var \<Rightarrow> nat \<Rightarrow> tensor_id set \<Rightarrow> tensor_id list" where
  "collect_captures output boundary known = capture_loop boundary known [(v_id output, v_grad_fn output)] {} []"

definition capture_inv :: "(tensor_id \<Rightarrow> ('t, 'e) grad_fn option) \<Rightarrow> tensor_id \<times> ('t, 'e) grad_fn option \<Rightarrow> nat \<Rightarrow> tensor_id set
    \<Rightarrow> (tensor_id \<times> ('t, 'e) grad_fn option) list \<Rightarrow> tensor_id set \<Rightarrow> tensor_id list \<Rightarrow> bool" where
  "capture_inv G a boundary known stack visited captures \<longleftrightarrow>
     (\<forall>n \<in> set stack. edge\<^sup>*\<^sup>* a n) \<and> fst a \<in> visited \<union> fst ` set stack \<and>
     (\<forall>i \<in> visited. edge\<^sup>*\<^sup>* a (i, G i) \<and> fst ` set (children (G i)) \<subseteq> visited \<union> fst ` set stack) \<and>
     distinct captures \<and> set captures = {i \<in> visited. G i = None \<and> i < boundary \<and> i \<notin> known}"

lemma capture_inv_done:
  assumes ok: "graph_ok G a" and inv: "capture_inv G a boundary known [] visited captures"
  shows "distinct captures \<and> set captures = {i. edge\<^sup>*\<^sup>* a (i, None) \<and> i < boundary \<and> i \<notin> known}"
proof -
  have seen: "fst b \<in> visited" if "edge\<^sup>*\<^sup>* a b" for b
    using that
  proof (induction rule: rtranclp_induct)
    case base
    then show ?case using inv by (simp add: capture_inv_def)
  next
    case (step b c)
    have "snd b = G (fst b)" using graph_ok_node[OF ok step.hyps(1)] by (simp add: node_ok_def)
    then have "c \<in> set (children (G (fst b)))" using step.hyps(2) by (simp add: edge_def)
    then have "fst c \<in> fst ` set (children (G (fst b)))" by (rule imageI)
    then show ?case using inv step.IH by (auto simp: capture_inv_def)
  qed
  have "i \<in> visited \<and> G i = None \<longleftrightarrow> edge\<^sup>*\<^sup>* a (i, None)" for i
  proof
    assume "i \<in> visited \<and> G i = None"
    then show "edge\<^sup>*\<^sup>* a (i, None)" using inv by (auto simp: capture_inv_def)
  next
    assume e: "edge\<^sup>*\<^sup>* a (i, None)"
    then show "i \<in> visited \<and> G i = None" using seen[OF e] graph_ok_node[OF ok e] by (simp add: node_ok_def)
  qed
  then show ?thesis using inv by (auto simp: capture_inv_def)
qed

lemma capture_inv_node:
  assumes inv: "capture_inv G a boundary known stack visited captures" and stack: "set stack = insert (i, gf) (set (butlast stack))"
    and new: "i \<notin> visited" and gf: "gf = G i" "edge\<^sup>*\<^sup>* a (i, G i)" and node: "gf \<noteq> None"
  shows "capture_inv G a boundary known (butlast stack @ children gf) (insert i visited) captures"
proof -
  have ids: "fst ` set stack = insert i (fst ` set (butlast stack))" unfolding stack by simp
  have "edge\<^sup>*\<^sup>* a c" if "c \<in> set (children gf)" for c
    using gf that by (metis edge_def rtranclp.rtrancl_into_rtrancl snd_conv)
  moreover have "fst ` set (children (G j)) \<subseteq> insert i visited \<union> fst ` set (butlast stack @ children gf)"
    if "j \<in> insert i visited" for j
  proof (cases "j = i")
    case False
    then have "fst ` set (children (G j)) \<subseteq> visited \<union> fst ` set stack" using inv that by (simp add: capture_inv_def)
    then show ?thesis unfolding ids by auto
  qed (use gf in auto)
  ultimately show ?thesis
    using inv gf node unfolding capture_inv_def ids stack by (auto simp: stack)
qed

lemma capture_loop_correct:
  assumes ok: "graph_ok G a" and "capture_inv G a boundary known stack visited captures"
  shows "distinct (capture_loop boundary known stack visited captures)
    \<and> set (capture_loop boundary known stack visited captures) = {i. edge\<^sup>*\<^sup>* a (i, None) \<and> i < boundary \<and> i \<notin> known}"
  using assms(2)
proof (induction boundary known stack visited captures rule: capture_loop.induct)
  case (1 boundary known stack visited captures)
  show ?case
  proof (cases "stack = []")
    case True
    then show ?thesis using capture_inv_done[OF ok] 1(4) by (simp add: capture_loop.simps[of _ _ "[]"])
  next
    case False
    obtain i gf where top: "last stack = (i, gf)" by fastforce
    then have stack: "set stack = insert (i, gf) (set (butlast stack))"
      using False by (metis append_butlast_last_id list.set(1,2) set_append sup_commute insert_is_Un)
    have gf: "gf = G i" "edge\<^sup>*\<^sup>* a (i, G i)"
      using 1(4) graph_ok_node[OF ok] stack unfolding capture_inv_def node_ok_def by (metis insertI1 fst_conv snd_conv)+
    show ?thesis
    proof (cases "i \<in> visited")
      case True
      have "capture_inv G a boundary known (butlast stack) visited captures"
      proof -
        have "visited \<union> fst ` set stack = visited \<union> fst ` set (butlast stack)" using True stack by auto
        then show ?thesis using 1(4) stack unfolding capture_inv_def by simp
      qed
      with 1(1) False True top show ?thesis by (simp add: capture_loop.simps[of _ _ stack])
    next
      case new: False
      show ?thesis
      proof (cases gf)
        case None
        let ?captures = "if i < boundary \<and> i \<notin> known then captures @ [i] else captures"
        have "capture_inv G a boundary known (butlast stack) (insert i visited) ?captures"
          using 1(4) new stack gf None unfolding capture_inv_def by (auto simp: children_def)
        with 1(2) False new top None show ?thesis by (simp add: capture_loop.simps[of _ _ stack])
      next
        case (Some f)
        have kids: "children gf = zip (gf_inputs f) (gf_input_fns f)" by (simp add: children_def Some)
        have "capture_inv G a boundary known (butlast stack @ children gf) (insert i visited) captures"
          using capture_inv_node[OF 1(4) stack new gf] Some by simp
        then have "capture_inv G a boundary known (butlast stack @ zip (gf_inputs f) (gf_input_fns f)) (insert i visited) captures"
          by (simp only: kids)
        with 1(3) False new top Some show ?thesis by (simp add: capture_loop.simps[of _ _ stack] kids)
      qed
    qed
  qed
qed

text \<open>
  C24. For every graph in which an id determines its gradient function (\<open>graph_ok\<close>), and every function
  names those of its inputs, the walk over the graph of a checkpointed segment returns, and reports exactly the leaves
  that the output depends on, that were made before the segment and that the caller does not list, each once. (It
  returns for every graph: \<open>capture_loop\<close> is total.)
\<close>

theorem collect_captures_correct:
  assumes "graph_ok G (loss_node output)"
  shows "distinct (collect_captures output boundary known)
    \<and> set (collect_captures output boundary known) = {i. edge\<^sup>*\<^sup>* (loss_node output) (i, None) \<and> i < boundary \<and> i \<notin> known}"
  unfolding collect_captures_def
  by (rule capture_loop_correct[OF assms]) (simp add: capture_inv_def loss_node_def)

lemma collect_captures_correct_witness:
  "collect_captures ex_loss 3 {2} = [1] \<and> {i. edge\<^sup>*\<^sup>* (loss_node ex_loss) (i, None) \<and> i < 3 \<and> i \<notin> {2}} = {1}"
proof -
  have "collect_captures ex_loss 3 {2} = [1]"
    by (simp add: collect_captures_def ex_loss_def ex_sum_def ex_z_def capture_loop.simps)
  with collect_captures_correct[OF ex_graph_ok, of 3 "{2}"] show ?thesis by simp
qed

text \<open>With an id used twice the capture walk depends on the order too: here the leaves 1 and 2 are missed.\<close>

lemma reused_id_hides_capture:
  "collect_captures (reused_loss [Some ex_z, None]) 10 {} = [3] \<and>
   edge\<^sup>*\<^sup>* (loss_node (reused_loss [Some ex_z, None])) (1, None)"
proof
  show "collect_captures (reused_loss [Some ex_z, None]) 10 {} = [3]"
    by (simp add: collect_captures_def reused_loss_def ex_z_def capture_loop.simps)
  have "edge (loss_node (reused_loss [Some ex_z, None])) (3, Some ex_z)" "edge (3, Some ex_z) (1, None)"
    by (simp_all add: edge_def loss_node_def reused_loss_def children_def ex_z_def)
  then show "edge\<^sup>*\<^sup>* (loss_node (reused_loss [Some ex_z, None])) (1, None)"
    by (meson converse_rtranclp_into_rtranclp rtranclp.rtrancl_refl)
qed

section \<open>A pass that keeps its graph\<close>

text \<open>
  \<open>backward_with_graph\<close> computes gradients that are variables of type \<open>'v\<close> themselves. \<open>backward_var\<close>
  of a function and \<open>var_add\<close> are parameters, \<open>new_var\<close> makes the leaf variable of the seed. The
  \<open>entry\<close> API of \<open>VarGradStore::try_accumulate\<close> does what \<open>GradStore::try_accumulate\<close> does.
\<close>

definition backward_graph_node :: "('v \<Rightarrow> 'v \<Rightarrow> 'e grad_error + 'v) \<Rightarrow> (('t, 'e) grad_fn \<Rightarrow> 'v \<Rightarrow> 'e grad_error + 'v option list)
    \<Rightarrow> ('t, 'e) topo_entry \<Rightarrow> 'v grad_store \<Rightarrow> 'e grad_error + 'v grad_store" where
  "backward_graph_node var_add backward_var entry store =
     (case entry of (i, gf, input_ids) \<Rightarrow>
        case store i of
          None \<Rightarrow> Inr store
        | Some grad_output \<Rightarrow>
           (case gf of
              None \<Rightarrow> Inr store
            | Some f \<Rightarrow>
                (case backward_var f grad_output of
                   Inl e \<Rightarrow> Inl e
                 | Inr input_grads \<Rightarrow>
                    foldE (\<lambda>(i, grad_opt) store.
                       case grad_opt of None \<Rightarrow> Inr store | Some g \<Rightarrow> try_accumulate var_add i g store)
                     (zip input_ids input_grads) store)))"

definition backward_with_graph :: "('t \<Rightarrow> nat list) \<Rightarrow> ('t \<Rightarrow> 'e grad_error + 't) \<Rightarrow> ('t \<Rightarrow> bool \<Rightarrow> 'v)
    \<Rightarrow> ('v \<Rightarrow> 'v \<Rightarrow> 'e grad_error + 'v) \<Rightarrow> (('t, 'e) grad_fn \<Rightarrow> 'v \<Rightarrow> 'e grad_error + 'v option list)
    \<Rightarrow> ('t, 'e) var \<Rightarrow> 'e grad_error + 'v grad_store" where
  "backward_with_graph shape_of ones_like new_var var_add backward_var loss =
     (case validate_loss shape_of loss ''backward_with_graph'' of
        Some e \<Rightarrow> Inl e
      | None \<Rightarrow>
         (case ones_like (v_tensor loss) of
            Inl e \<Rightarrow> Inl e
          | Inr one \<Rightarrow>
             foldE (backward_graph_node var_add backward_var) (rev (topological_sort loss)) [v_id loss \<mapsto> new_var one True]))"

definition to_grad_store :: "('v \<Rightarrow> 't) \<Rightarrow> 'v grad_store \<Rightarrow> 't grad_store" where
  "to_grad_store tensor_of store = map_option tensor_of \<circ> store"

text \<open>The documented relation of \<open>backward_var\<close> to \<open>backward\<close>: the same tensors, wrapped.\<close>

definition var_ops_ok :: "('v \<Rightarrow> 't) \<Rightarrow> ('t \<Rightarrow> 't \<Rightarrow> 'e grad_error + 't) \<Rightarrow> ('v \<Rightarrow> 'v \<Rightarrow> 'e grad_error + 'v)
    \<Rightarrow> (('t, 'e) grad_fn \<Rightarrow> 'v \<Rightarrow> 'e grad_error + 'v option list) \<Rightarrow> tensor_id \<times> ('t, 'e) grad_fn option \<Rightarrow> bool" where
  "var_ops_ok tensor_of add var_add backward_var a \<longleftrightarrow>
     (\<forall>x y z. var_add x y = Inr z \<longrightarrow> add (tensor_of x) (tensor_of y) = Inr (tensor_of z)) \<and>
     (\<forall>i f g gs. edge\<^sup>*\<^sup>* a (i, Some f) \<longrightarrow> backward_var f g = Inr gs \<longrightarrow>
        gf_backward f (tensor_of g) (replicate (length (gf_inputs f)) True) = Inr (map (map_option tensor_of) gs))"

lemma accumulate_graph:
  assumes add: "\<And>x y z. var_add x y = Inr z \<Longrightarrow> add (tensor_of x) (tensor_of y) = Inr (tensor_of z)"
    and "foldE (\<lambda>(i, grad_opt) store. case grad_opt of None \<Rightarrow> Inr store | Some g \<Rightarrow> try_accumulate var_add i g store) (zip ids gs) s = Inr s'"
  shows "accumulate_inputs add (\<lambda>_. True) (zip ids (map (map_option tensor_of) gs)) (to_grad_store tensor_of s) = Inr (to_grad_store tensor_of s')"
  using assms(2)
proof (induction ids arbitrary: gs s)
  case (Cons i ids)
  show ?case
  proof (cases gs)
    case (Cons g gs')
    with Cons.prems obtain s1 where s1: "(case g of None \<Rightarrow> Inr s | Some g \<Rightarrow> try_accumulate var_add i g s) = Inr s1"
      "foldE (\<lambda>(i, grad_opt) store. case grad_opt of None \<Rightarrow> Inr store | Some g \<Rightarrow> try_accumulate var_add i g store) (zip ids gs') s1 = Inr s'"
      by (auto split: sum.splits)
    have "accumulate_input add (\<lambda>_. True) (i, map_option tensor_of g) (to_grad_store tensor_of s) = Inr (to_grad_store tensor_of s1)"
      using s1(1) by (auto simp: accumulate_input_def try_accumulate_def to_grad_store_def add split: option.splits sum.splits)
    with Cons.IH[OF s1(2)] Cons show ?thesis by (simp add: accumulate_inputs_def)
  qed (use Cons.prems in \<open>simp add: accumulate_inputs_def\<close>)
qed (simp add: accumulate_inputs_def)

lemma backward_graph_run:
  assumes ops: "var_ops_ok tensor_of add var_add backward_var a"
    and "\<forall>(i, gf, ids) \<in> set L. edge\<^sup>*\<^sup>* a (i, gf) \<and> ids = input_ids_of gf"
    and "foldE (backward_graph_node var_add backward_var) L s = Inr s'"
  shows "\<exists>calls'. foldE (backward_node add (\<lambda>_. True)) L (to_grad_store tensor_of s, calls) = Inr (to_grad_store tensor_of s', calls')"
  using assms(2,3)
proof (induction L arbitrary: s calls)
  case (Cons e L)
  obtain i gf ids where e: "e = (i, gf, ids)" by (cases e)
  from Cons.prems(2) obtain s1 where s1: "backward_graph_node var_add backward_var (i, gf, ids) s = Inr s1"
    "foldE (backward_graph_node var_add backward_var) L s1 = Inr s'" unfolding e foldE_Cons_Inr by blast
  have "\<exists>c1. backward_node add (\<lambda>_. True) (i, gf, ids) (to_grad_store tensor_of s, calls) = Inr (to_grad_store tensor_of s1, c1)"
  proof (cases "s i")
    case (Some g)
    show ?thesis
    proof (cases gf)
      case gf: (Some f)
      from s1(1) obtain gs where gs: "backward_var f g = Inr gs"
        "foldE (\<lambda>(i, grad_opt) store. case grad_opt of None \<Rightarrow> Inr store | Some g \<Rightarrow> try_accumulate var_add i g store) (zip ids gs) s = Inr s1"
        by (auto simp: backward_graph_node_def Some gf split: sum.splits)
      have f: "edge\<^sup>*\<^sup>* a (i, Some f)" "ids = gf_inputs f" using Cons.prems(1) by (auto simp: e gf input_ids_of_def)
      have "gf_backward f (tensor_of g) (map (\<lambda>_. True) ids) = Inr (map (map_option tensor_of) gs)"
        using ops f gs(1) unfolding var_ops_ok_def by (simp add: map_replicate_const)
      moreover have "accumulate_inputs add (\<lambda>_. True) (zip ids (map (map_option tensor_of) gs)) (to_grad_store tensor_of s) = Inr (to_grad_store tensor_of s1)"
        by (rule accumulate_graph[OF _ gs(2)]) (use ops in \<open>simp add: var_ops_ok_def\<close>)
      ultimately show ?thesis using Some gf by (simp add: backward_node_def to_grad_store_def)
    qed (use s1(1) Some in \<open>simp add: backward_graph_node_def backward_node_def to_grad_store_def\<close>)
  qed (use s1(1) in \<open>simp add: backward_graph_node_def backward_node_def to_grad_store_def\<close>)
  then obtain c1 where "backward_node add (\<lambda>_. True) (i, gf, ids) (to_grad_store tensor_of s, calls) = Inr (to_grad_store tensor_of s1, c1)" by blast
  with Cons.IH[OF _ s1(2), of c1] Cons.prems(1) e show ?case by auto
qed simp

text \<open>
  A pass that keeps its graph computes the gradients of the plain pass: when \<open>backward_var\<close> wraps
  what \<open>backward\<close> computes and \<open>var_add\<close> what \<open>add\<close> computes, the tensors of its store are the store of
  \<open>backward\<close>.
\<close>

theorem backward_with_graph_refines:
  assumes ok: "graph_ok G (loss_node loss)" and ops: "var_ops_ok tensor_of add var_add backward_var (loss_node loss)"
    and new: "\<And>t. tensor_of (new_var t True) = t"
    and run: "backward_with_graph shape_of ones_like new_var var_add backward_var loss = Inr vars"
  shows "backward shape_of ones_like add loss = Inr (to_grad_store tensor_of vars)"
proof -
  let ?L = "rev (topological_sort loss)"
  have need: "is_needed (compute_needed (topological_sort loss) All_ids) = (\<lambda>_. True)"
    by (simp add: is_needed_def compute_needed_def fun_eq_iff)
  from run obtain one where one: "validate_loss shape_of loss ''backward_with_graph'' = None" "ones_like (v_tensor loss) = Inr one"
    "foldE (backward_graph_node var_add backward_var) ?L [v_id loss \<mapsto> new_var one True] = Inr vars"
    by (auto simp: backward_with_graph_def split: option.splits sum.splits)
  have entries: "\<forall>(i, gf, ids) \<in> set ?L. edge\<^sup>*\<^sup>* (loss_node loss) (i, gf) \<and> ids = input_ids_of gf"
    using topological_sort_nodes[OF ok] rtopo_facts(2)[OF topological_sort_ok(1)[OF ok]] by auto
  obtain calls where "foldE (backward_node add (\<lambda>_. True)) ?L (to_grad_store tensor_of [v_id loss \<mapsto> new_var one True], [])
      = Inr (to_grad_store tensor_of vars, calls)"
    using backward_graph_run[OF ops entries one(3)] by blast
  moreover have "to_grad_store tensor_of [v_id loss \<mapsto> new_var one True] = [v_id loss \<mapsto> one]"
    by (simp add: to_grad_store_def new fun_eq_iff)
  moreover have "validate_loss shape_of loss ''backward_with_hooks'' = None"
    using one(1) by (simp add: validate_loss_def split: if_splits)
  ultimately show ?thesis
    using one(2) by (simp add: backward_def backward_with_hooks_def backward_driver_def Let_def need)
qed

lemma backward_with_graph_refines_witness:
  "\<exists>vars. backward_with_graph (\<lambda>_. []) (\<lambda>_. Inr 1) (\<lambda>t r. (t, r)) (\<lambda>x y. Inr (fst x + fst y, True))
      (\<lambda>f g. map_sum id (map (map_option (\<lambda>t. (t, True)))) (gf_backward f (fst g) [True, True])) ex_loss = Inr vars
    \<and> backward (\<lambda>_. []) (\<lambda>_. Inr 1) (\<lambda>x y. Inr (x + y)) ex_loss = Inr (to_grad_store fst vars) \<and> vars 1 = Some (4, True)"
proof -
  let ?bvar = "\<lambda>f g. map_sum id (map (map_option (\<lambda>t. (t, True)))) (gf_backward f (fst g) [True, True])"
  obtain vars where run: "backward_with_graph (\<lambda>_. []) (\<lambda>_. Inr 1) (\<lambda>t r. (t, r)) (\<lambda>x y. Inr (fst x + fst y, True)) ?bvar ex_loss = Inr vars"
    and v: "vars 1 = Some (4, True)"
    by (simp add: backward_with_graph_def validate_loss_def numel_def ex_loss_def topological_sort_def
        dfs.simps children_def ex_sum_def ex_z_def mul_backward_def backward_graph_node_def try_accumulate_def input_ids_of_def)
  have "var_ops_ok fst (\<lambda>x y. Inr (x + y)) (\<lambda>x y. Inr (fst x + fst y, True)) ?bvar (loss_node ex_loss)"
  proof -
    have "map_sum id (map (map_option (\<lambda>t. (t, True)))) (gf_backward f (fst g) [True, True]) = Inr gs \<Longrightarrow>
        gf_backward f (fst g) (replicate (length (gf_inputs f)) True) = Inr (map (map_option fst) gs)"
      if "edge\<^sup>*\<^sup>* (4, Some ex_sum) (i, Some f)" for i f gs and g :: "int \<times> bool"
      using ex_reach[OF that] by (auto simp: ex_sum_def ex_z_def mul_backward_def eval_nat_numeral)
    then show ?thesis by (auto simp: var_ops_ok_def loss_node_def ex_loss_def)
  qed
  from backward_with_graph_refines[OF ex_graph_ok this _ run] run v show ?thesis by simp
qed

end
