(* ===== verification/Hopcroft_Karp.thy ===== *)
theory Hopcroft_Karp
  imports Sparse_Levels
begin

text \<open>
  Maximum bipartite matching of the columns and rows of a sparse matrix
  (\<open>src/algorithm/sparse_linalg/matching/hopcroft_karp.rs\<close>). The arrays of \<open>i32\<close> are lists of \<open>int\<close>
  with the casts and the wrap-around of \<open>+\<close> written out; \<open>None\<close> is a panic or a run that never ends, so
  the theorem that the result is \<open>Some\<close> excludes both.
\<close>

section \<open>The code\<close>

record matching_result =
  mr_col_to_row :: "int list"
  mr_row_to_col :: "int list"
  mr_matching_size :: nat
  mr_structural_rank :: nat

datatype matching_error = InvalidArgument string

definition NIL :: int where "NIL = -1"

definition INFTY :: int where "INFTY = 2 ^ 31 - 1"

text \<open>\<open>d + 1\<close> on \<open>i32\<close>.\<close>

definition i32_succ :: "int \<Rightarrow> int" where
  "i32_succ d = sint (word_of_int (d + 1) :: 32 word)"

definition matched_idx :: "nat \<Rightarrow> int \<Rightarrow> nat" where
  "matched_idx n_cols matched_col = (if matched_col = NIL then n_cols else as_usize matched_col)"

text \<open>One step of the loop over the rows adjacent to column \<open>j\<close> in the breadth-first phase.\<close>

definition bfs_edge :: "nat \<Rightarrow> nat \<Rightarrow> int list \<Rightarrow> int list \<Rightarrow> nat \<Rightarrow> nat \<Rightarrow> int list \<times> nat list \<Rightarrow> (int list \<times> nat list) option" where
  "bfs_edge n_rows n_cols row_indices row_to_col j idx st =
     (case st of (dist, queue) \<Rightarrow> do {
        r \<leftarrow> nth_chk row_indices idx;
        (if n_rows \<le> as_usize r then Some (dist, queue)
         else do {
           matched_col \<leftarrow> nth_chk row_to_col (as_usize r);
           dm \<leftarrow> nth_chk dist (matched_idx n_cols matched_col);
           (if dm = INFTY then do {
              dj \<leftarrow> nth_chk dist j;
              dist \<leftarrow> upd_chk dist (matched_idx n_cols matched_col) (i32_succ dj);
              Some (dist, if matched_col \<noteq> NIL then queue @ [as_usize matched_col] else queue) }
            else Some (dist, queue)) }) })"

partial_function (option) bfs_loop :: "nat \<Rightarrow> nat \<Rightarrow> int list \<Rightarrow> int list \<Rightarrow> int list \<Rightarrow> int list \<Rightarrow> nat list \<Rightarrow> int list option" where
  "bfs_loop n_rows n_cols col_ptrs row_indices row_to_col dist queue =
     (case queue of
        [] \<Rightarrow> Some dist
      | j # queue \<Rightarrow> do {
          dj \<leftarrow> nth_chk dist j;
          dn \<leftarrow> nth_chk dist n_cols;
          (dist, queue) \<leftarrow> (if dj < dn then do {
              s \<leftarrow> nth_chk col_ptrs j;
              e \<leftarrow> nth_chk col_ptrs (j + 1);
              foldM (bfs_edge n_rows n_cols row_indices row_to_col j) [as_usize s..<as_usize e] (dist, queue) }
            else Some (dist, queue));
          bfs_loop n_rows n_cols col_ptrs row_indices row_to_col dist queue })"

definition bfs :: "nat \<Rightarrow> nat \<Rightarrow> int list \<Rightarrow> int list \<Rightarrow> int list \<Rightarrow> int list \<Rightarrow> int list \<Rightarrow> (bool \<times> int list) option" where
  "bfs n_rows n_cols col_ptrs row_indices col_to_row row_to_col dist = do {
     (dist, queue) \<leftarrow> foldM (\<lambda>j (dist, queue). do {
         c \<leftarrow> nth_chk col_to_row j;
         dist \<leftarrow> upd_chk dist j (if c = NIL then 0 else INFTY);
         Some (dist, if c = NIL then queue @ [j] else queue) }) [0..<n_cols] (dist, []);
     dist \<leftarrow> upd_chk dist n_cols INFTY;
     dist \<leftarrow> bfs_loop n_rows n_cols col_ptrs row_indices row_to_col dist queue;
     dn \<leftarrow> nth_chk dist n_cols;
     Some (dn \<noteq> INFTY, dist) }"

type_synonym hk_state = "int list \<times> int list \<times> int list"

text \<open>
  The loop of \<open>dfs\<close> for column \<open>j\<close> from position \<open>idx\<close> of its rows, and what follows the loop. The
  recursive call of \<open>dfs\<close> enters the loop of the matched column.
\<close>

partial_function (option) dfs_edges :: "nat \<Rightarrow> nat \<Rightarrow> int list \<Rightarrow> int list \<Rightarrow> nat \<Rightarrow> nat \<Rightarrow> nat \<Rightarrow> hk_state \<Rightarrow> (bool \<times> hk_state) option" where
  "dfs_edges n_rows n_cols col_ptrs row_indices j idx end_idx st =
     (case st of (col_to_row, row_to_col, dist) \<Rightarrow>
        if idx < end_idx then do {
          r \<leftarrow> nth_chk row_indices idx;
          (if n_rows \<le> as_usize r then dfs_edges n_rows n_cols col_ptrs row_indices j (idx + 1) end_idx st
           else do {
             matched_col \<leftarrow> nth_chk row_to_col (as_usize r);
             dm \<leftarrow> nth_chk dist (matched_idx n_cols matched_col);
             dj \<leftarrow> nth_chk dist j;
             (found, col_to_row, row_to_col, dist) \<leftarrow>
               (if dm = i32_succ dj then
                  (if matched_col = NIL then Some (True, st)
                   else do {
                     s \<leftarrow> nth_chk col_ptrs (as_usize matched_col);
                     e \<leftarrow> nth_chk col_ptrs (as_usize matched_col + 1);
                     dfs_edges n_rows n_cols col_ptrs row_indices (as_usize matched_col) (as_usize s) (as_usize e) st })
                else Some (False, st));
             (if found then do {
                col_to_row \<leftarrow> upd_chk col_to_row j (as_i32 (as_usize r));
                row_to_col \<leftarrow> upd_chk row_to_col (as_usize r) (as_i32 j);
                Some (True, col_to_row, row_to_col, dist) }
              else dfs_edges n_rows n_cols col_ptrs row_indices j (idx + 1) end_idx (col_to_row, row_to_col, dist)) }) }
        else do {
          dist \<leftarrow> upd_chk dist j INFTY;
          Some (False, col_to_row, row_to_col, dist) })"

definition hk_dfs :: "nat \<Rightarrow> nat \<Rightarrow> int list \<Rightarrow> int list \<Rightarrow> nat \<Rightarrow> hk_state \<Rightarrow> (bool \<times> hk_state) option" where
  "hk_dfs n_rows n_cols col_ptrs row_indices j st = do {
     s \<leftarrow> nth_chk col_ptrs j;
     e \<leftarrow> nth_chk col_ptrs (j + 1);
     dfs_edges n_rows n_cols col_ptrs row_indices j (as_usize s) (as_usize e) st }"

text \<open>The depth-first phase: the loop over the columns.\<close>

definition hk_phase :: "nat \<Rightarrow> nat \<Rightarrow> int list \<Rightarrow> int list \<Rightarrow> hk_state \<times> nat \<Rightarrow> (hk_state \<times> nat) option" where
  "hk_phase n_rows n_cols col_ptrs row_indices =
     foldM (\<lambda>j (st, matching_size). do {
       c \<leftarrow> nth_chk (fst st) j;
       (if c = NIL then do {
          (found, st) \<leftarrow> hk_dfs n_rows n_cols col_ptrs row_indices j st;
          Some (st, if found then matching_size + 1 else matching_size) }
        else Some (st, matching_size)) }) [0..<n_cols]"

partial_function (option) hk_loop :: "nat \<Rightarrow> nat \<Rightarrow> int list \<Rightarrow> int list \<Rightarrow> hk_state \<times> nat \<Rightarrow> (hk_state \<times> nat) option" where
  "hk_loop n_rows n_cols col_ptrs row_indices st =
     (case st of ((col_to_row, row_to_col, dist), matching_size) \<Rightarrow> do {
        (found, dist) \<leftarrow> bfs n_rows n_cols col_ptrs row_indices col_to_row row_to_col dist;
        (if found then do {
           st \<leftarrow> hk_phase n_rows n_cols col_ptrs row_indices ((col_to_row, row_to_col, dist), matching_size);
           hk_loop n_rows n_cols col_ptrs row_indices st }
         else Some ((col_to_row, row_to_col, dist), matching_size)) })"

definition hopcroft_karp :: "nat \<Rightarrow> nat \<Rightarrow> int list \<Rightarrow> int list \<Rightarrow> (matching_error + matching_result) option" where
  "hopcroft_karp n_rows n_cols col_ptrs row_indices =
     (if length col_ptrs \<noteq> n_cols + 1 then Some (Inl (InvalidArgument ''col_ptrs''))
      else do {
        nnz \<leftarrow> nth_chk col_ptrs n_cols;
        (if length row_indices < as_usize nnz then Some (Inl (InvalidArgument ''row_indices''))
         else if n_rows = 0 \<or> n_cols = 0 then
           Some (Inr \<lparr>mr_col_to_row = replicate n_cols NIL, mr_row_to_col = replicate n_rows NIL,
             mr_matching_size = 0, mr_structural_rank = 0\<rparr>)
         else do {
           ((col_to_row, row_to_col, dist), matching_size) \<leftarrow> hk_loop n_rows n_cols col_ptrs row_indices
             ((replicate n_cols NIL, replicate n_rows NIL, replicate (n_cols + 1) 0), 0);
           Some (Inr \<lparr>mr_col_to_row = col_to_row, mr_row_to_col = row_to_col,
             mr_matching_size = matching_size, mr_structural_rank = matching_size\<rparr>) }) })"

definition maximum_transversal :: "nat \<Rightarrow> nat \<Rightarrow> int list \<Rightarrow> int list \<Rightarrow> (matching_error + int list \<times> int list \<times> nat) option" where
  "maximum_transversal n_rows n_cols col_ptrs row_indices =
     map_option (map_sum id (\<lambda>r. (mr_col_to_row r, mr_row_to_col r, mr_structural_rank r)))
       (hopcroft_karp n_rows n_cols col_ptrs row_indices)"

section \<open>The graph\<close>

text \<open>
  Well-formed input: pointers into the index array, and few enough rows and columns for \<open>i32\<close>. Row
  indices may be anything; those that are out of range are skipped.
\<close>

definition csc_ok :: "nat \<Rightarrow> nat \<Rightarrow> int list \<Rightarrow> int list \<Rightarrow> bool" where
  "csc_ok n_rows n_cols cp ri \<longleftrightarrow> length cp = n_cols + 1 \<and> sorted cp \<and> 0 \<le> cp ! 0 \<and>
     cp ! n_cols \<le> int (length ri) \<and> length ri < 2 ^ 63 \<and> n_rows < 2 ^ 31 \<and> n_cols < 2 ^ 31 - 2"

definition adj :: "nat \<Rightarrow> int list \<Rightarrow> int list \<Rightarrow> nat \<Rightarrow> nat list" where
  "adj n_rows cp ri j = filter (\<lambda>i. i < n_rows) (map (\<lambda>idx. as_usize (ri ! idx)) [nat (cp ! j)..<nat (cp ! Suc j)])"

lemma csc_col:
  assumes ok: "csc_ok n_rows n_cols cp ri" and j: "j < n_cols"
  shows "nth_chk cp j = Some (cp ! j)" and "nth_chk cp (Suc j) = Some (cp ! Suc j)"
    and "as_usize (cp ! j) = nat (cp ! j)" and "as_usize (cp ! Suc j) = nat (cp ! Suc j)"
    and "nat (cp ! Suc j) \<le> length ri" and "nat (cp ! j) \<le> nat (cp ! Suc j)"
proof -
  have s: "cp ! 0 \<le> cp ! j" "cp ! j \<le> cp ! Suc j" "cp ! Suc j \<le> cp ! n_cols"
    using ok j by (auto simp: csc_ok_def intro!: sorted_nth_mono)
  show "nth_chk cp j = Some (cp ! j)" "nth_chk cp (Suc j) = Some (cp ! Suc j)"
    using ok j by (simp_all add: csc_ok_def)
  have b: "0 \<le> cp ! j" "cp ! Suc j \<le> int (length ri)" "length ri < 2 ^ 63" using ok s by (auto simp: csc_ok_def)
  then show "as_usize (cp ! j) = nat (cp ! j)" "as_usize (cp ! Suc j) = nat (cp ! Suc j)"
    using s(2) by (auto intro!: as_usize_small)
  show "nat (cp ! Suc j) \<le> length ri" "nat (cp ! j) \<le> nat (cp ! Suc j)" using b s(2) by auto
qed

lemma i32_succ_small: "0 \<le> d \<Longrightarrow> d < 2 ^ 31 - 1 \<Longrightarrow> i32_succ d = d + 1"
proof -
  assume d: "0 \<le> d" "d < 2 ^ 31 - 1"
  then have "i32_succ d = as_i32 (nat (d + 1))" by (simp add: i32_succ_def as_i32_def)
  with d show ?thesis using as_i32_small[of "nat (d + 1)"] by simp
qed

section \<open>Matchings\<close>

text \<open>The two arrays describe the same matching, along edges of the graph.\<close>

definition matching :: "nat \<Rightarrow> nat \<Rightarrow> (nat \<Rightarrow> nat list) \<Rightarrow> int list \<Rightarrow> int list \<Rightarrow> bool" where
  "matching n_rows n_cols edges ctr rtc \<longleftrightarrow> length ctr = n_cols \<and> length rtc = n_rows \<and>
     (\<forall>j < n_cols. ctr ! j = NIL \<or> (\<exists>i < n_rows. ctr ! j = int i \<and> i \<in> set (edges j) \<and> rtc ! i = int j)) \<and>
     (\<forall>i < n_rows. rtc ! i = NIL \<or> (\<exists>j < n_cols. rtc ! i = int j \<and> ctr ! j = int i))"

lemma matchingD:
  assumes "matching n_rows n_cols edges ctr rtc"
  shows "length ctr = n_cols" and "length rtc = n_rows"
    and "c < n_cols \<Longrightarrow> ctr ! c = NIL \<or> (\<exists>i < n_rows. ctr ! c = int i \<and> i \<in> set (edges c) \<and> rtc ! i = int c)"
    and "i < n_rows \<Longrightarrow> rtc ! i = NIL \<or> (\<exists>c < n_cols. rtc ! i = int c \<and> ctr ! c = int i)"
  using assms unfolding matching_def by blast+

lemma row_link_update:
  assumes "rtc ! i' = NIL \<or> (\<exists>c < n_cols. rtc ! i' = int c \<and> ctr ! c = int i')" and "i' \<noteq> i" and "int i' \<noteq> ctr ! j"
  shows "rtc[i := x] ! i' = NIL \<or> (\<exists>c < n_cols. rtc[i := x] ! i' = int c \<and> ctr[j := y] ! c = int i')"
  using assms by (metis nth_list_update_neq)

definition matched_cols :: "nat \<Rightarrow> int list \<Rightarrow> nat set" where
  "matched_cols n_cols ctr = {j. j < n_cols \<and> ctr ! j \<noteq> NIL}"

text \<open>
  What a successful search from column \<open>j\<close> does: \<open>j\<close> is matched to a new row, the row it was matched
  to before still points to it, and only columns of a higher level than \<open>j\<close> were rematched.
\<close>

definition augmented :: "nat \<Rightarrow> nat \<Rightarrow> (nat \<Rightarrow> nat list) \<Rightarrow> int list \<Rightarrow> nat \<Rightarrow> int list \<Rightarrow> int list \<Rightarrow> int list \<Rightarrow> int list \<Rightarrow> bool" where
  "augmented n_rows n_cols edges lev j ctr rtc ctr' rtc' \<longleftrightarrow> length ctr' = n_cols \<and> length rtc' = n_rows \<and>
     (\<forall>c < n_cols. ctr' ! c = NIL \<or> (\<exists>i < n_rows. ctr' ! c = int i \<and> i \<in> set (edges c) \<and> rtc' ! i = int c)) \<and>
     (\<forall>i < n_rows. int i \<noteq> ctr ! j \<longrightarrow> rtc' ! i = NIL \<or> (\<exists>c < n_cols. rtc' ! i = int c \<and> ctr' ! c = int i)) \<and>
     (\<forall>c < n_cols. c \<noteq> j \<longrightarrow> (ctr' ! c = NIL \<longleftrightarrow> ctr ! c = NIL)) \<and> ctr' ! j \<noteq> NIL \<and> ctr' ! j \<noteq> ctr ! j \<and>
     (\<forall>c < n_cols. ctr' ! c \<noteq> ctr ! c \<longrightarrow> c = j \<or> lev ! j < lev ! c) \<and>
     (\<forall>i < n_rows. rtc' ! i \<noteq> rtc ! i \<longrightarrow> rtc ! i = NIL \<or> (\<exists>c. rtc ! i = int c \<and> lev ! j < lev ! c))"

lemma augmented_base:
  assumes M: "matching n_rows n_cols edges ctr rtc" and j: "j < n_cols" and i: "i < n_rows" "i \<in> set (edges j)"
    and free: "rtc ! i = NIL"
  shows "augmented n_rows n_cols edges lev j ctr rtc (ctr[j := int i]) (rtc[i := int j])"
proof -
  have other: "i' \<noteq> i" if "c < n_cols" "ctr ! c = int i'" for c i'
    using M that free by (force simp: matching_def NIL_def)
  show ?thesis
    unfolding augmented_def
  proof (intro conjI allI impI)
    fix c assume c: "c < n_cols"
    show "ctr[j := int i] ! c = NIL \<or> (\<exists>i' < n_rows. ctr[j := int i] ! c = int i' \<and> i' \<in> set (edges c) \<and> rtc[i := int j] ! i' = int c)"
    proof (cases "c = j")
      case False
      with matchingD(3)[OF M c] other[OF c] show ?thesis by (auto simp: nth_list_update)
    qed (use M i j in \<open>auto simp: matching_def\<close>)
  next
    fix i' assume i': "i' < n_rows" "int i' \<noteq> ctr ! j"
    then show "rtc[i := int j] ! i' = NIL \<or> (\<exists>c < n_cols. rtc[i := int j] ! i' = int c \<and> ctr[j := int i] ! c = int i')"
      using row_link_update[OF matchingD(4)[OF M i'(1)] _ i'(2)] matchingD(1,2)[OF M] i j by (cases "i' = i") auto
  next
    show "ctr[j := int i] ! j \<noteq> ctr ! j" using M j other[OF j, of i] by (auto simp: matching_def)
  qed (use M i j free in \<open>auto simp: matching_def nth_list_update NIL_def split: if_splits\<close>)
qed

lemma augmented_step:
  assumes M: "matching n_rows n_cols edges ctr rtc" and j: "j < n_cols" and i: "i < n_rows" "i \<in> set (edges j)"
    and m: "m < n_cols" "rtc ! i = int m" and lev: "lev ! j < lev ! m"
    and inner: "augmented n_rows n_cols edges lev m ctr rtc c1 r1"
  shows "augmented n_rows n_cols edges lev j ctr rtc (c1[j := int i]) (r1[i := int j])"
proof -
  have jm: "j \<noteq> m" using lev by auto
  have cm: "ctr ! m = int i" using M m i by (force simp: matching_def NIL_def)
  have len: "length c1 = n_cols" "length r1 = n_rows" using inner by (simp_all add: augmented_def)
  have r1i: "r1 ! i = int m"
  proof (rule ccontr)
    assume "r1 ! i \<noteq> int m"
    with inner m(2) i(1) show False by (auto simp: augmented_def NIL_def)
  qed
  have c1j: "c1 ! j = ctr ! j"
  proof (rule ccontr)
    assume "c1 ! j \<noteq> ctr ! j"
    with inner j jm have "lev ! m < lev ! j" by (auto simp: augmented_def)
    with lev show False by simp
  qed
  have c1i: "c1 ! c \<noteq> int i" if "c < n_cols" for c
  proof
    assume c: "c1 ! c = int i"
    with inner that have "r1 ! i = int c" by (force simp: augmented_def NIL_def)
    with r1i have "c = m" by simp
    with c cm inner show False by (simp add: augmented_def)
  qed
  show ?thesis
    unfolding augmented_def
  proof (intro conjI allI impI)
    fix c assume c: "c < n_cols"
    show "c1[j := int i] ! c = NIL \<or> (\<exists>i' < n_rows. c1[j := int i] ! c = int i' \<and> i' \<in> set (edges c) \<and> r1[i := int j] ! i' = int c)"
    proof (cases "c = j")
      case False
      have "c1 ! c = NIL \<or> (\<exists>i' < n_rows. c1 ! c = int i' \<and> i' \<in> set (edges c) \<and> r1 ! i' = int c)"
        using inner c by (simp add: augmented_def)
      then show ?thesis using c1i[OF c] False by (auto simp: nth_list_update)
    qed (use i j len in auto)
  next
    fix i' assume i': "i' < n_rows" "int i' \<noteq> ctr ! j"
    show "r1[i := int j] ! i' = NIL \<or> (\<exists>c < n_cols. r1[i := int j] ! i' = int c \<and> c1[j := int i] ! c = int i')"
    proof (cases "i' = i")
      case False
      then have "r1 ! i' = NIL \<or> (\<exists>c < n_cols. r1 ! i' = int c \<and> c1 ! c = int i')"
        using inner i' cm by (simp add: augmented_def)
      then show ?thesis using False c1j i'(2) by (intro row_link_update) simp_all
    qed (use i j len in auto)
  next
    fix c assume c: "c < n_cols" "c \<noteq> j"
    show "c1[j := int i] ! c = NIL \<longleftrightarrow> ctr ! c = NIL"
      using inner c cm by (cases "c = m") (simp_all add: augmented_def NIL_def)
  next
    show "c1[j := int i] ! j \<noteq> ctr ! j"
      using M m j i jm len by (auto simp: matching_def NIL_def)
  next
    fix c assume c: "c < n_cols" "c1[j := int i] ! c \<noteq> ctr ! c"
    then show "c = j \<or> lev ! j < lev ! c"
      using inner lev by (cases "c = j") (fastforce simp: augmented_def)+
  next
    fix i' assume i': "i' < n_rows" "r1[i := int j] ! i' \<noteq> rtc ! i'"
    show "rtc ! i' = NIL \<or> (\<exists>c. rtc ! i' = int c \<and> lev ! j < lev ! c)"
    proof (cases "i' = i")
      case False
      then have "rtc ! i' = NIL \<or> (\<exists>c. rtc ! i' = int c \<and> lev ! m < lev ! c)"
        using inner i' by (simp add: augmented_def)
      then show ?thesis using lev by fastforce
    qed (use m lev in auto)
  qed (use len j in \<open>auto simp: NIL_def\<close>)
qed

lemma augmented_matching:
  assumes "augmented n_rows n_cols edges lev j ctr rtc ctr' rtc'" and "ctr ! j = NIL" and "j < n_cols"
  shows "matching n_rows n_cols edges ctr' rtc'" and "matched_cols n_cols ctr' = insert j (matched_cols n_cols ctr)"
  using assms by (auto simp: augmented_def matching_def matched_cols_def NIL_def)

section \<open>The depth-first search\<close>

text \<open>\<open>lev\<close> are the distances the breadth-first phase left; the search only sets some of them to \<open>INFTY\<close>.\<close>

definition lev_ok :: "nat \<Rightarrow> int list \<Rightarrow> bool" where
  "lev_ok n_cols lev \<longleftrightarrow> length lev = n_cols + 1 \<and> (\<forall>c \<le> n_cols. lev ! c = INFTY \<or> 0 \<le> lev ! c \<and> lev ! c \<le> int n_cols)"

lemma lev_okD: "lev_ok n_cols lev \<Longrightarrow> c \<le> n_cols \<Longrightarrow> lev ! c \<noteq> INFTY \<Longrightarrow> 0 \<le> lev ! c \<and> lev ! c \<le> int n_cols"
  by (auto simp: lev_ok_def)

definition dist_ok :: "nat \<Rightarrow> int list \<Rightarrow> int list \<Rightarrow> bool" where
  "dist_ok n_cols lev dist \<longleftrightarrow> length dist = n_cols + 1 \<and> dist ! n_cols = lev ! n_cols \<and>
     (\<forall>c < n_cols. dist ! c = lev ! c \<or> dist ! c = INFTY)"

text \<open>A row of column \<open>c\<close> that the search cannot follow any more.\<close>

definition row_dead :: "nat \<Rightarrow> int list \<Rightarrow> int list \<Rightarrow> int list \<Rightarrow> nat \<Rightarrow> nat \<Rightarrow> bool" where
  "row_dead n_cols rtc lev dist c i \<longleftrightarrow>
     (lev ! matched_idx n_cols (rtc ! i) = lev ! c + 1 \<longrightarrow> rtc ! i \<noteq> NIL \<and> dist ! matched_idx n_cols (rtc ! i) = INFTY)"

definition dead_closed :: "nat \<Rightarrow> (nat \<Rightarrow> nat list) \<Rightarrow> int list \<Rightarrow> int list \<Rightarrow> int list \<Rightarrow> bool" where
  "dead_closed n_cols edges rtc lev dist \<longleftrightarrow>
     (\<forall>c < n_cols. lev ! c \<noteq> INFTY \<and> dist ! c = INFTY \<longrightarrow> (\<forall>i \<in> set (edges c). row_dead n_cols rtc lev dist c i))"

text \<open>What changes in the distances: matched columns above \<open>j\<close>, and \<open>j\<close> itself, may become \<open>INFTY\<close>.\<close>

definition dist_step :: "nat \<Rightarrow> int list \<Rightarrow> nat \<Rightarrow> int list \<Rightarrow> int list \<Rightarrow> int list \<Rightarrow> bool" where
  "dist_step n_cols lev j ctr dist dist' \<longleftrightarrow> dist_ok n_cols lev dist' \<and>
     (\<forall>c < n_cols. dist' ! c \<noteq> dist ! c \<longrightarrow> dist' ! c = INFTY \<and> (c = j \<or> ctr ! c \<noteq> NIL \<and> lev ! j < lev ! c))"

definition dfs_post :: "nat \<Rightarrow> nat \<Rightarrow> (nat \<Rightarrow> nat list) \<Rightarrow> int list \<Rightarrow> nat \<Rightarrow> hk_state \<Rightarrow> bool \<times> hk_state \<Rightarrow> bool" where
  "dfs_post n_rows n_cols edges lev j st res \<longleftrightarrow>
     (case (st, res) of ((ctr, rtc, dist), (found, (ctr', rtc', dist'))) \<Rightarrow>
        dist_step n_cols lev j ctr dist dist' \<and>
        (if found then augmented n_rows n_cols edges lev j ctr rtc ctr' rtc'
         else ctr' = ctr \<and> rtc' = rtc \<and> dist' ! j = INFTY \<and>
           (dead_closed n_cols edges rtc lev dist \<longrightarrow> dead_closed n_cols edges rtc lev dist')))"

lemma matched_idx_nat [simp]: "c < 2 ^ 63 \<Longrightarrow> matched_idx n (int c) = c"
  by (simp add: matched_idx_def NIL_def)

lemma matched_idx_NIL [simp]: "matched_idx n NIL = n"
  by (simp add: matched_idx_def)

lemma row_dead_mono:
  assumes "row_dead n_cols rtc lev dist c i" and "\<And>m. m < n_cols \<Longrightarrow> dist ! m = INFTY \<Longrightarrow> dist' ! m = INFTY"
    and "rtc ! i = NIL \<or> matched_idx n_cols (rtc ! i) < n_cols"
  shows "row_dead n_cols rtc lev dist' c i"
  using assms unfolding row_dead_def by auto

lemma dist_step_INFTY: "dist_step n_cols lev j ctr dist dist' \<Longrightarrow> c < n_cols \<Longrightarrow> dist ! c = INFTY \<Longrightarrow> dist' ! c = INFTY"
  unfolding dist_step_def by metis

lemma dist_step_refl: "dist_ok n_cols lev dist \<Longrightarrow> dist_step n_cols lev j ctr dist dist"
  by (simp add: dist_step_def)

text \<open>The end of the loop: column \<open>j\<close> is dead, and so are all of its rows.\<close>

lemma dfs_post_fail:
  assumes M: "matching n_rows n_cols edges ctr rtc" and small: "n_cols < 2 ^ 31 - 1" and j: "j < n_cols"
    and lev: "lev_ok n_cols lev" and dist: "dist_ok n_cols lev dist" and edges: "\<And>c i. i \<in> set (edges c) \<Longrightarrow> i < n_rows"
    and rows: "\<forall>i \<in> set (edges j). row_dead n_cols rtc lev dist j i"
  shows "dfs_post n_rows n_cols edges lev j (ctr, rtc, dist) (False, ctr, rtc, dist[j := INFTY])"
proof -
  let ?dist = "dist[j := INFTY]"
  have len: "length dist = n_cols + 1" using dist by (simp add: dist_ok_def)
  have step: "dist_step n_cols lev j ctr dist ?dist"
    using dist j len by (auto simp: dist_step_def dist_ok_def nth_list_update)
  have link: "rtc ! i = NIL \<or> matched_idx n_cols (rtc ! i) < n_cols" if "i < n_rows" for i
    using matchingD(4)[OF M that] small by auto
  have mono: "row_dead n_cols rtc lev ?dist c i" if "row_dead n_cols rtc lev dist c i" "i \<in> set (edges c)" for c i
    using that(1) by (rule row_dead_mono) (use step dist_step_INFTY link[OF edges[OF that(2)]] in auto)
  have "dead_closed n_cols edges rtc lev ?dist" if d: "dead_closed n_cols edges rtc lev dist"
    unfolding dead_closed_def
  proof (intro allI impI ballI)
    fix c i assume c: "c < n_cols" "lev ! c \<noteq> INFTY \<and> ?dist ! c = INFTY" and i: "i \<in> set (edges c)"
    show "row_dead n_cols rtc lev ?dist c i"
    proof (cases "c = j")
      case False
      then have "dist ! c = INFTY" using c len by (simp add: nth_list_update)
      then show ?thesis using d c i mono[OF _ i] unfolding dead_closed_def by blast
    qed (use rows i mono in auto)
  qed
  with step j len show ?thesis by (simp add: dfs_post_def)
qed

lemma dist_step_trans:
  "dist_step n_cols lev j ctr dist dist1 \<Longrightarrow> dist_step n_cols lev j ctr dist1 dist2 \<Longrightarrow> dist_step n_cols lev j ctr dist dist2"
  unfolding dist_step_def by metis

lemma dist_step_up:
  "dist_step n_cols lev m ctr dist dist1 \<Longrightarrow> lev ! j < lev ! m \<Longrightarrow> ctr ! m \<noteq> NIL \<Longrightarrow> dist_step n_cols lev j ctr dist dist1"
  unfolding dist_step_def by (metis order_less_trans)

lemma dfs_post_trans:
  assumes "dist_step n_cols lev j ctr dist dist1" and "dead_closed n_cols edges rtc lev dist \<longrightarrow> dead_closed n_cols edges rtc lev dist1"
    and "dfs_post n_rows n_cols edges lev j (ctr, rtc, dist1) res"
  shows "dfs_post n_rows n_cols edges lev j (ctr, rtc, dist) res"
  using assms dist_step_trans[OF assms(1)] by (auto simp: dfs_post_def split: if_splits)

text \<open>The part of the rows of \<open>j\<close> before \<open>idx\<close> is dead.\<close>

definition rows_dead :: "nat \<Rightarrow> nat \<Rightarrow> int list \<Rightarrow> int list \<Rightarrow> int list \<Rightarrow> int list \<Rightarrow> int list \<Rightarrow> nat \<Rightarrow> nat \<Rightarrow> bool" where
  "rows_dead n_rows n_cols cp ri rtc lev dist j idx \<longleftrightarrow>
     (\<forall>k. nat (cp ! j) \<le> k \<longrightarrow> k < idx \<longrightarrow> as_usize (ri ! k) < n_rows \<longrightarrow> row_dead n_cols rtc lev dist j (as_usize (ri ! k)))"

lemma rows_dead_Suc:
  "rows_dead n_rows n_cols cp ri rtc lev dist j idx \<Longrightarrow>
   (as_usize (ri ! idx) < n_rows \<Longrightarrow> row_dead n_cols rtc lev dist j (as_usize (ri ! idx))) \<Longrightarrow>
   rows_dead n_rows n_cols cp ri rtc lev dist j (Suc idx)"
  unfolding rows_dead_def by (metis less_antisym)

lemma adj_less: "i \<in> set (adj n_rows cp ri j) \<Longrightarrow> i < n_rows"
  by (simp add: adj_def)

lemma adjI: "nat (cp ! j) \<le> idx \<Longrightarrow> idx < nat (cp ! Suc j) \<Longrightarrow> as_usize (ri ! idx) < n_rows \<Longrightarrow> as_usize (ri ! idx) \<in> set (adj n_rows cp ri j)"
  by (force simp: adj_def)

lemma dfs_edges_correct:
  assumes ok: "csc_ok n_rows n_cols cp ri" and lev: "lev_ok n_cols lev"
    and M: "matching n_rows n_cols (adj n_rows cp ri) ctr rtc"
    and "dist_ok n_cols lev dist" and "j < n_cols" and "dist ! j \<noteq> INFTY"
    and "nat (cp ! j) \<le> idx" and "idx \<le> nat (cp ! Suc j)" and "rows_dead n_rows n_cols cp ri rtc lev dist j idx"
  shows "\<exists>res. dfs_edges n_rows n_cols cp ri j idx (nat (cp ! Suc j)) (ctr, rtc, dist) = Some res \<and>
    dfs_post n_rows n_cols (adj n_rows cp ri) lev j (ctr, rtc, dist) res"
  using assms(4-)
proof (induction "nat (int n_cols + 1 - lev ! j) * (length ri + 1) + (nat (cp ! Suc j) - idx)" arbitrary: j idx dist rule: less_induct)
  case less
  note C = csc_col[OF ok less.prems(2)]
  have small: "n_cols < 2 ^ 31 - 2" "n_cols < 2 ^ 31 - 1" "n_rows < 2 ^ 31" using ok by (simp_all add: csc_ok_def)
  have len: "length dist = n_cols + 1" using less.prems(1) by (simp add: dist_ok_def)
  have dj: "dist ! j = lev ! j" "0 \<le> lev ! j" "lev ! j \<le> int n_cols"
  proof -
    show dj: "dist ! j = lev ! j" using less.prems(1-3) by (auto simp: dist_ok_def)
    show "0 \<le> lev ! j" "lev ! j \<le> int n_cols" using lev_okD[OF lev, of j] less.prems(2,3) dj by simp_all
  qed
  have succ: "i32_succ (dist ! j) = lev ! j + 1" "lev ! j + 1 \<noteq> INFTY"
    using dj small by (auto simp: i32_succ_small INFTY_def)
  show ?case
  proof (cases "idx < nat (cp ! Suc j)")
    case False
    then have "\<forall>i \<in> set (adj n_rows cp ri j). row_dead n_cols rtc lev dist j i"
      using less.prems(5,6) by (auto simp: adj_def rows_dead_def)
    from dfs_post_fail[OF M small(2) less.prems(2) lev less.prems(1) adj_less this]
    show ?thesis using False less.prems(2) len by (subst dfs_edges.simps) simp
  next
    case True
    let ?i = "as_usize (ri ! idx)"
    have ri: "nth_chk ri idx = Some (ri ! idx)" using True C(5) by simp
    have next_idx: "\<exists>res. dfs_edges n_rows n_cols cp ri j (Suc idx) (nat (cp ! Suc j)) (ctr, rtc, dist1) = Some res \<and>
        dfs_post n_rows n_cols (adj n_rows cp ri) lev j (ctr, rtc, dist1) res"
      if "dist_ok n_cols lev dist1" "dist1 ! j \<noteq> INFTY" "rows_dead n_rows n_cols cp ri rtc lev dist1 j idx"
        "?i < n_rows \<Longrightarrow> row_dead n_cols rtc lev dist1 j ?i" for dist1
    proof (rule less.hyps)
      have "nat (cp ! Suc j) - Suc idx < nat (cp ! Suc j) - idx" using True by simp
      then show "nat (int n_cols + 1 - lev ! j) * (length ri + 1) + (nat (cp ! Suc j) - Suc idx)
          < nat (int n_cols + 1 - lev ! j) * (length ri + 1) + (nat (cp ! Suc j) - idx)"
        by (rule add_strict_left_mono)
    qed (use that less.prems True rows_dead_Suc in auto)
    show ?thesis
    proof (cases "n_rows \<le> ?i")
      case skip: True
      with next_idx[of dist] less.prems True ri show ?thesis by (subst dfs_edges.simps) simp
    next
      case False
      then have i: "?i < n_rows" "?i \<in> set (adj n_rows cp ri j)" using adjI less.prems(4) True by auto
      have casts: "as_i32 ?i = int ?i" "as_i32 j = int j" using i(1) less.prems(2) small by (simp_all add: as_i32_small)
      have lens: "length ctr = n_cols" "length rtc = n_rows" using matchingD(1,2)[OF M] by simp_all
      have other: ?thesis if dm: "dist ! matched_idx n_cols (rtc ! ?i) \<noteq> lev ! j + 1" and b: "matched_idx n_cols (rtc ! ?i) \<le> n_cols"
        and dead: "row_dead n_cols rtc lev dist j ?i"
        using next_idx[of dist] less.prems True ri False dm b dead lens len succ i
        by (subst dfs_edges.simps) simp
      consider "rtc ! ?i = NIL" | m where "m < n_cols" "rtc ! ?i = int m" "ctr ! m = int ?i" using matchingD(4)[OF M i(1)] by auto
      then show ?thesis
      proof cases
        case 1
        show ?thesis
        proof (cases "dist ! n_cols = lev ! j + 1")
          case True
          have "dfs_post n_rows n_cols (adj n_rows cp ri) lev j (ctr, rtc, dist) (True, ctr[j := int ?i], rtc[?i := int j], dist)"
            using augmented_base[OF M less.prems(2) i 1] dist_step_refl[OF less.prems(1)] by (simp add: dfs_post_def)
          then show ?thesis
            using True \<open>idx < nat (cp ! Suc j)\<close> ri False 1 lens len succ i casts less.prems(2)
            by (subst dfs_edges.simps) simp
        next
          case False
          then have "row_dead n_cols rtc lev dist j ?i" using less.prems(1) 1 by (simp add: row_dead_def dist_ok_def)
          with False 1 other show ?thesis by simp
        qed
      next
        case m: 2
        have mi: "matched_idx n_cols (rtc ! ?i) = m" "as_usize (rtc ! ?i) = m" "rtc ! ?i \<noteq> NIL"
          using m small by (simp_all add: NIL_def)
        show ?thesis
        proof (cases "dist ! m = lev ! j + 1")
          case False
          then have "row_dead n_cols rtc lev dist j ?i"
            using less.prems(1) m(1) mi by (auto simp: row_dead_def dist_ok_def)
          with False other m(1) mi show ?thesis by simp
        next
          case dm: True
          then have lm: "lev ! m = lev ! j + 1" "dist ! m \<noteq> INFTY" using less.prems(1) m(1) succ by (auto simp: dist_ok_def)
          then have "lev ! m \<le> int n_cols" using lev_okD[OF lev, of m] m(1) succ by simp
          note Cm = csc_col[OF ok m(1)]
          have factor: "nat (int n_cols + 1 - lev ! j) = Suc (nat (int n_cols + 1 - lev ! m))"
            using lm \<open>lev ! m \<le> int n_cols\<close> dj by simp
          have "\<exists>res. dfs_edges n_rows n_cols cp ri m (nat (cp ! m)) (nat (cp ! Suc m)) (ctr, rtc, dist) = Some res \<and>
              dfs_post n_rows n_cols (adj n_rows cp ri) lev m (ctr, rtc, dist) res"
          proof (rule less.hyps)
            have "nat (cp ! Suc m) - nat (cp ! m) < length ri + 1 + (nat (cp ! Suc j) - idx)" using Cm(5) by simp
            then show "nat (int n_cols + 1 - lev ! m) * (length ri + 1) + (nat (cp ! Suc m) - nat (cp ! m))
                < nat (int n_cols + 1 - lev ! j) * (length ri + 1) + (nat (cp ! Suc j) - idx)"
              unfolding factor mult_Suc by linarith
          qed (use Cm less.prems(1) m(1) lm in \<open>auto simp: rows_dead_def\<close>)
          then obtain found c1 r1 d1 where inner:
            "dfs_edges n_rows n_cols cp ri m (nat (cp ! m)) (nat (cp ! Suc m)) (ctr, rtc, dist) = Some (found, c1, r1, d1)"
            and post: "dfs_post n_rows n_cols (adj n_rows cp ri) lev m (ctr, rtc, dist) (found, c1, r1, d1)" by auto
          have up: "dist_step n_cols lev m ctr dist d1" "dist_step n_cols lev j ctr dist d1"
            using post dist_step_up[of n_cols lev m ctr dist d1 j] lm m(3) by (auto simp: dfs_post_def NIL_def)
          show ?thesis
          proof (cases found)
            case True
            then have a: "augmented n_rows n_cols (adj n_rows cp ri) lev m ctr rtc c1 r1" using post by (simp add: dfs_post_def)
            have "augmented n_rows n_cols (adj n_rows cp ri) lev j ctr rtc (c1[j := int ?i]) (r1[?i := int j])"
              by (rule augmented_step[OF M less.prems(2) i m(1,2) _ a]) (use lm in simp)
            moreover have "length c1 = n_cols" "length r1 = n_rows" using a by (simp_all add: augmented_def)
            ultimately show ?thesis
              using True up \<open>idx < nat (cp ! Suc j)\<close> ri False mi lens len succ i casts less.prems(2) dm Cm inner m(1)
              by (subst dfs_edges.simps) (simp add: dfs_post_def)
          next
            case nf: False
            then have d1: "c1 = ctr" "r1 = rtc" "d1 ! m = INFTY"
              "dead_closed n_cols (adj n_rows cp ri) rtc lev dist \<longrightarrow> dead_closed n_cols (adj n_rows cp ri) rtc lev d1"
              using post by (auto simp: dfs_post_def)
            have d1j: "d1 ! j \<noteq> INFTY" using up(1) less.prems(2,3) lm unfolding dist_step_def by fastforce
            have link: "rtc ! k = NIL \<or> matched_idx n_cols (rtc ! k) < n_cols" if "k < n_rows" for k
              using matchingD(4)[OF M that] small by auto
            have "rows_dead n_rows n_cols cp ri rtc lev d1 j idx"
              using less.prems(6) unfolding rows_dead_def
              by (meson row_dead_mono dist_step_INFTY[OF up(2)] link)
            moreover have "row_dead n_cols rtc lev d1 j ?i" using d1 mi by (simp add: row_dead_def)
            moreover have "dist_ok n_cols lev d1" using up(1) by (simp add: dist_step_def)
            ultimately obtain res where "dfs_edges n_rows n_cols cp ri j (Suc idx) (nat (cp ! Suc j)) (ctr, rtc, d1) = Some res"
              "dfs_post n_rows n_cols (adj n_rows cp ri) lev j (ctr, rtc, d1) res"
              using next_idx[of d1] d1j by blast
            moreover from this(2) have "dfs_post n_rows n_cols (adj n_rows cp ri) lev j (ctr, rtc, dist) res"
              by (rule dfs_post_trans[OF up(2) d1(4)])
            ultimately show ?thesis
              using nf \<open>idx < nat (cp ! Suc j)\<close> ri False mi lens len succ i less.prems(2) dm Cm inner d1 m(1)
              by (subst dfs_edges.simps) simp
          qed
        qed
      qed
    qed
  qed
qed

section \<open>The breadth-first phase\<close>

definition reached_from :: "nat \<Rightarrow> (nat \<Rightarrow> nat list) \<Rightarrow> int list \<Rightarrow> int list \<Rightarrow> nat \<Rightarrow> bool" where
  "reached_from n_cols edges rtc dist c \<longleftrightarrow>
     (\<exists>c' < n_cols. dist ! c' = dist ! c - 1 \<and> (\<exists>i \<in> set (edges c'). matched_idx n_cols (rtc ! i) = c))"

text \<open>Distance \<open>0\<close> for the free columns, and every other finite distance has a predecessor.\<close>

definition levels_ok :: "nat \<Rightarrow> (nat \<Rightarrow> nat list) \<Rightarrow> int list \<Rightarrow> int list \<Rightarrow> int list \<Rightarrow> bool" where
  "levels_ok n_cols edges ctr rtc dist \<longleftrightarrow> length dist = n_cols + 1 \<and>
     (\<forall>c < n_cols. ctr ! c = NIL \<longrightarrow> dist ! c = 0) \<and>
     (\<forall>c \<le> n_cols. 0 \<le> dist ! c \<and> dist ! c \<le> INFTY \<and>
        (dist ! c \<noteq> INFTY \<longrightarrow> c < n_cols \<and> ctr ! c = NIL \<or> reached_from n_cols edges rtc dist c))"

lemma levels_okD:
  assumes "levels_ok n_cols edges ctr rtc dist"
  shows "length dist = n_cols + 1" and "c < n_cols \<Longrightarrow> ctr ! c = NIL \<Longrightarrow> dist ! c = 0"
    and "c \<le> n_cols \<Longrightarrow> 0 \<le> dist ! c" and "c \<le> n_cols \<Longrightarrow> dist ! c \<le> INFTY"
    and "c \<le> n_cols \<Longrightarrow> dist ! c \<noteq> INFTY \<Longrightarrow> c < n_cols \<and> ctr ! c = NIL \<or> reached_from n_cols edges rtc dist c"
  using assms unfolding levels_ok_def by blast+

lemma levels_chain:
  assumes L: "levels_ok n_cols edges ctr rtc dist"
  shows "c < n_cols \<Longrightarrow> dist ! c = int k \<Longrightarrow> int k \<noteq> INFTY \<Longrightarrow> {..k} \<subseteq> (\<lambda>c. nat (dist ! c)) ` {..<n_cols}"
proof (induction k arbitrary: c)
  case 0
  then show ?case by (force intro!: image_eqI[of _ _ c])
next
  case (Suc k)
  have "reached_from n_cols edges rtc dist c" 
    using levels_okD(5)[OF L, of c] levels_okD(2)[OF L, of c] Suc.prems by auto
  then obtain c' where c': "c' < n_cols" "dist ! c' = int k" using Suc.prems(2) by (auto simp: reached_from_def)
  have "int (Suc k) \<le> INFTY" using L Suc.prems by (metis levels_ok_def less_imp_le)
  then have "{..k} \<subseteq> (\<lambda>c. nat (dist ! c)) ` {..<n_cols}" using Suc.IH[OF c'] by simp
  moreover have "Suc k \<in> (\<lambda>c. nat (dist ! c)) ` {..<n_cols}" using Suc.prems(1,2) by (intro image_eqI[of _ _ c]) simp_all
  ultimately show ?case unfolding atMost_Suc by blast
qed

lemma levels_bound:
  assumes L: "levels_ok n_cols edges ctr rtc dist" and c: "c < n_cols" "dist ! c \<noteq> INFTY"
  shows "0 \<le> dist ! c \<and> dist ! c < int n_cols"
proof -
  have "0 \<le> dist ! c" using L c(1) by (simp add: levels_ok_def)
  then have "{..nat (dist ! c)} \<subseteq> (\<lambda>c. nat (dist ! c)) ` {..<n_cols}"
    using levels_chain[OF L c(1), of "nat (dist ! c)"] c(2) by simp
  then have "card {..nat (dist ! c)} \<le> card ((\<lambda>c. nat (dist ! c)) ` {..<n_cols})" by (intro card_mono) simp_all
  also have "\<dots> \<le> n_cols" using card_image_le[of "{..<n_cols}" "\<lambda>c. nat (dist ! c)"] by simp
  finally show ?thesis using \<open>0 \<le> dist ! c\<close> by simp
qed

lemma levels_lev_ok:
  assumes L: "levels_ok n_cols edges ctr rtc dist"
  shows "lev_ok n_cols dist"
  unfolding lev_ok_def
proof (intro conjI allI impI)
  fix c assume c: "c \<le> n_cols"
  show "dist ! c = INFTY \<or> 0 \<le> dist ! c \<and> dist ! c \<le> int n_cols"
  proof (cases "c < n_cols")
    case False
    show ?thesis
    proof (rule disjCI)
      assume nf: "\<not> (0 \<le> dist ! c \<and> dist ! c \<le> int n_cols)"
      show "dist ! c = INFTY"
      proof (rule ccontr)
        assume fin: "dist ! c \<noteq> INFTY"
        then have "reached_from n_cols edges rtc dist c" using L c False by (auto simp: levels_ok_def)
        then obtain c' where c': "c' < n_cols" "dist ! c' = dist ! c - 1" by (auto simp: reached_from_def)
        have "dist ! c' \<noteq> INFTY" using L c c'(2) by (auto simp: levels_ok_def)
        with levels_bound[OF L c'(1)] c'(2) nf L c show False by (auto simp: levels_ok_def)
      qed
    qed
  qed (use levels_bound[OF L, of c] in auto)
qed (use L in \<open>simp add: levels_ok_def\<close>)

definition inf_count :: "nat \<Rightarrow> int list \<Rightarrow> nat" where
  "inf_count n_cols dist = card {c. c < n_cols \<and> dist ! c = INFTY}"

definition bfs_step :: "nat \<Rightarrow> (nat \<Rightarrow> nat list) \<Rightarrow> int list \<Rightarrow> int list \<Rightarrow> int list \<times> nat list \<Rightarrow> int list \<times> nat list \<Rightarrow> bool" where
  "bfs_step n_cols edges ctr rtc st st' \<longleftrightarrow> (case (st, st') of ((dist, queue), (dist', queue')) \<Rightarrow>
     levels_ok n_cols edges ctr rtc dist' \<and> (\<forall>c \<le> n_cols. dist ! c \<noteq> INFTY \<longrightarrow> dist' ! c = dist ! c) \<and>
     set queue \<subseteq> set queue' \<and> (\<forall>c \<in> set queue'. c < n_cols \<and> dist' ! c \<noteq> INFTY) \<and>
     (\<forall>c < n_cols. dist' ! c \<noteq> INFTY \<longrightarrow> dist ! c \<noteq> INFTY \<or> c \<in> set queue') \<and>
     inf_count n_cols dist' + length queue' = inf_count n_cols dist + length queue)"

lemma bfs_stepD:
  assumes "bfs_step n_cols edges ctr rtc (dist, queue) (dist', queue')"
  shows "levels_ok n_cols edges ctr rtc dist'" and "c \<le> n_cols \<Longrightarrow> dist ! c \<noteq> INFTY \<Longrightarrow> dist' ! c = dist ! c"
    and "set queue \<subseteq> set queue'" and "c \<in> set queue' \<Longrightarrow> c < n_cols \<and> dist' ! c \<noteq> INFTY"
    and "c < n_cols \<Longrightarrow> dist' ! c \<noteq> INFTY \<Longrightarrow> dist ! c \<noteq> INFTY \<or> c \<in> set queue'"
    and "inf_count n_cols dist' + length queue' = inf_count n_cols dist + length queue"
  using assms unfolding bfs_step_def split_conv by blast+

lemma bfs_stepI:
  assumes "levels_ok n_cols edges ctr rtc dist'" and "\<And>c. c \<le> n_cols \<Longrightarrow> dist ! c \<noteq> INFTY \<Longrightarrow> dist' ! c = dist ! c"
    and "set queue \<subseteq> set queue'" and "\<And>c. c \<in> set queue' \<Longrightarrow> c < n_cols \<and> dist' ! c \<noteq> INFTY"
    and "\<And>c. c < n_cols \<Longrightarrow> dist' ! c \<noteq> INFTY \<Longrightarrow> dist ! c \<noteq> INFTY \<or> c \<in> set queue'"
    and "inf_count n_cols dist' + length queue' = inf_count n_cols dist + length queue"
  shows "bfs_step n_cols edges ctr rtc (dist, queue) (dist', queue')"
  using assms unfolding bfs_step_def split_conv by blast

lemma bfs_step_refl:
  "levels_ok n_cols edges ctr rtc dist \<Longrightarrow> \<forall>c \<in> set queue. c < n_cols \<and> dist ! c \<noteq> INFTY \<Longrightarrow>
   bfs_step n_cols edges ctr rtc (dist, queue) (dist, queue)"
  by (simp add: bfs_step_def)

lemma bfs_step_trans:
  assumes s: "bfs_step n_cols edges ctr rtc (d, q) (d1, q1)" and t: "bfs_step n_cols edges ctr rtc (d1, q1) (d2, q2)"
  shows "bfs_step n_cols edges ctr rtc (d, q) (d2, q2)"
proof -
  note S = bfs_stepD[OF s] and T = bfs_stepD[OF t]
  have "d2 ! c = d ! c" if "c \<le> n_cols" "d ! c \<noteq> INFTY" for c
    using S(2)[OF that] T(2)[of c] that by simp
  moreover have "d ! c \<noteq> INFTY \<or> c \<in> set q2" if "c < n_cols" "d2 ! c \<noteq> INFTY" for c
    using S(5)[of c] T(5)[OF that] T(3) that by blast
  ultimately show ?thesis
    using S(3,6) T(1,3,4,6) by (intro bfs_stepI) auto
qed

text \<open>Giving column \<open>m\<close> (or the sentinel) its distance.\<close>

lemma levels_ok_update:
  assumes L: "levels_ok n_cols edges ctr rtc dist" and n: "n_cols < 2 ^ 31 - 2"
    and j: "j < n_cols" "dist ! j \<noteq> INFTY" "i \<in> set (edges j)" "matched_idx n_cols (rtc ! i) = m"
    and m: "m \<le> n_cols" "dist ! m = INFTY"
  shows "levels_ok n_cols edges ctr rtc (dist[m := dist ! j + 1])" and "dist ! j + 1 < INFTY"
proof -
  have len: "length dist = n_cols + 1" using L by (simp add: levels_ok_def)
  have dj: "0 \<le> dist ! j" "dist ! j < int n_cols" using levels_bound[OF L j(1,2)] by simp_all
  show inf: "dist ! j + 1 < INFTY" using dj n by (simp add: INFTY_def)
  let ?d = "dist[m := dist ! j + 1]"
  have jm: "j \<noteq> m" using j(2) m(2) by auto
  have "reached_from n_cols edges rtc ?d c" if "reached_from n_cols edges rtc dist c" "c \<noteq> m" "c \<le> n_cols" for c
  proof -
    from that(1) obtain c' i where c': "c' < n_cols" "dist ! c' = dist ! c - 1" "i \<in> set (edges c')" "matched_idx n_cols (rtc ! i) = c"
      unfolding reached_from_def by blast
    have "dist ! c \<le> INFTY" using L that(3) by (simp add: levels_ok_def)
    then have "c' \<noteq> m" using c'(2) m(2) by auto
    with c' that(2) show ?thesis unfolding reached_from_def by auto
  qed
  moreover have "reached_from n_cols edges rtc ?d m"
    unfolding reached_from_def using j m(1) jm len by (intro exI[of _ j]) auto
  ultimately have reach: "c < n_cols \<and> ctr ! c = NIL \<or> reached_from n_cols edges rtc ?d c"
    if "c \<le> n_cols" "?d ! c \<noteq> INFTY" for c
    using levels_okD(5)[OF L that(1)] that len by (cases "c = m") auto
  have bounds: "0 \<le> ?d ! c \<and> ?d ! c \<le> INFTY" if "c \<le> n_cols" for c
    using levels_okD(3,4)[OF L that] dj inf len that by (cases "c = m") auto
  have "?d ! c = 0" if "c < n_cols" "ctr ! c = NIL" for c
  proof -
    have "dist ! c = 0" by (rule levels_okD(2)[OF L that])
    then have "c \<noteq> m" using m(2) by (auto simp: INFTY_def)
    with \<open>dist ! c = 0\<close> show ?thesis by simp
  qed
  with reach bounds len show "levels_ok n_cols edges ctr rtc ?d" unfolding levels_ok_def by simp
qed

lemma inf_count_update:
  assumes "m < n_cols" and "dist ! m = INFTY" and "length dist = n_cols + 1" and "d \<noteq> INFTY"
  shows "Suc (inf_count n_cols (dist[m := d])) = inf_count n_cols dist"
proof -
  have "{c. c < n_cols \<and> dist ! c = INFTY} = insert m {c. c < n_cols \<and> dist[m := d] ! c = INFTY}"
    and "m \<notin> {c. c < n_cols \<and> dist[m := d] ! c = INFTY}"
    using assms by (auto simp: nth_list_update)
  then show ?thesis unfolding inf_count_def by simp
qed

lemma bfs_edge_step:
  assumes ok: "csc_ok n_rows n_cols cp ri" and M: "matching n_rows n_cols (adj n_rows cp ri) ctr rtc"
    and L: "levels_ok n_cols (adj n_rows cp ri) ctr rtc dist" and q: "\<forall>c \<in> set queue. c < n_cols \<and> dist ! c \<noteq> INFTY"
    and j: "j < n_cols" "dist ! j \<noteq> INFTY" and idx: "nat (cp ! j) \<le> idx" "idx < nat (cp ! Suc j)"
  shows "\<exists>st. bfs_edge n_rows n_cols ri rtc j idx (dist, queue) = Some st
    \<and> bfs_step n_cols (adj n_rows cp ri) ctr rtc (dist, queue) st
    \<and> (as_usize (ri ! idx) < n_rows \<longrightarrow> fst st ! matched_idx n_cols (rtc ! as_usize (ri ! idx)) \<noteq> INFTY)"
proof -
  let ?i = "as_usize (ri ! idx)"
  have ri: "nth_chk ri idx = Some (ri ! idx)" using csc_col(5)[OF ok j(1)] idx by simp
  have len: "length dist = n_cols + 1" "length rtc = n_rows" using L matchingD(2)[OF M] by (simp_all add: levels_ok_def)
  have n: "n_cols < 2 ^ 31 - 2" using ok by (simp add: csc_ok_def)
  show ?thesis
  proof (cases "?i < n_rows")
    case False
    then show ?thesis using ri bfs_step_refl[OF L q] by (simp add: bfs_edge_def)
  next
    case True
    have adj: "?i \<in> set (adj n_rows cp ri j)" using adjI idx True by blast
    define m where "m = matched_idx n_cols (rtc ! ?i)"
    have m: "m \<le> n_cols" "rtc ! ?i \<noteq> NIL \<Longrightarrow> m < n_cols \<and> as_usize (rtc ! ?i) = m" "rtc ! ?i = NIL \<Longrightarrow> m = n_cols"
      using matchingD(4)[OF M True] n by (auto simp: m_def)
    show ?thesis
    proof (cases "dist ! m = INFTY")
      case fresh: True
      note U = levels_ok_update[OF L n j adj m_def[symmetric] m(1) fresh]
      have succ: "i32_succ (dist ! j) = dist ! j + 1"
        using levels_bound[OF L j] U(2) by (intro i32_succ_small) (auto simp: INFTY_def)
      let ?d = "dist[m := dist ! j + 1]" and ?q = "if rtc ! ?i \<noteq> NIL then queue @ [m] else queue"
      have "inf_count n_cols ?d + length ?q = inf_count n_cols dist + length queue"
      proof (cases "rtc ! ?i = NIL")
        case True
        then have "inf_count n_cols ?d = inf_count n_cols dist" using m(3) by (simp add: inf_count_def cong: conj_cong)
        with True show ?thesis by simp
      next
        case False
        with inf_count_update[of m n_cols dist "dist ! j + 1"] m(2) fresh len U(2) show ?thesis by simp
      qed
      moreover have keep: "\<forall>c \<le> n_cols. dist ! c \<noteq> INFTY \<longrightarrow> ?d ! c = dist ! c" using fresh by (metis nth_list_update_neq)
      moreover have "\<forall>c \<in> set ?q. c < n_cols \<and> ?d ! c \<noteq> INFTY" using q m(1,2) U(2) len by (auto simp: nth_list_update)
      moreover have "\<forall>c < n_cols. ?d ! c \<noteq> INFTY \<longrightarrow> dist ! c \<noteq> INFTY \<or> c \<in> set ?q"
      proof (intro allI impI)
        fix c assume c: "c < n_cols" "?d ! c \<noteq> INFTY"
        show "dist ! c \<noteq> INFTY \<or> c \<in> set ?q"
        proof (cases "c = m")
          case True
          then have "rtc ! ?i \<noteq> NIL" using m(3) c(1) by auto
          then show ?thesis using True by simp
        qed (use c in simp)
      qed
      ultimately have "bfs_step n_cols (adj n_rows cp ri) ctr rtc (dist, queue) (?d, ?q)"
        using U(1) by (intro bfs_stepI) auto
      moreover have "bfs_edge n_rows n_cols ri rtc j idx (dist, queue) = Some (?d, ?q)"
        using ri True len m fresh succ j(1) by (simp add: bfs_edge_def flip: m_def)
      ultimately show ?thesis using U(2) m(1) len True by (simp flip: m_def)
    next
      case False
      then show ?thesis using ri True len m bfs_step_refl[OF L q] by (simp add: bfs_edge_def flip: m_def)
    qed
  qed
qed

lemma bfs_edges_step:
  assumes ok: "csc_ok n_rows n_cols cp ri" and M: "matching n_rows n_cols (adj n_rows cp ri) ctr rtc"
    and L: "levels_ok n_cols (adj n_rows cp ri) ctr rtc dist" and q: "\<forall>c \<in> set queue. c < n_cols \<and> dist ! c \<noteq> INFTY"
    and j: "j < n_cols" "dist ! j \<noteq> INFTY" and idxs: "set idxs \<subseteq> {nat (cp ! j)..<nat (cp ! Suc j)}"
  shows "\<exists>dist' queue'. foldM (bfs_edge n_rows n_cols ri rtc j) idxs (dist, queue) = Some (dist', queue')
    \<and> bfs_step n_cols (adj n_rows cp ri) ctr rtc (dist, queue) (dist', queue')
    \<and> (\<forall>idx \<in> set idxs. as_usize (ri ! idx) < n_rows \<longrightarrow> dist' ! matched_idx n_cols (rtc ! as_usize (ri ! idx)) \<noteq> INFTY)"
  using idxs L q j(2)
proof (induction idxs arbitrary: dist queue)
  case Nil
  then show ?case by (simp add: bfs_step_refl)
next
  case (Cons idx idxs)
  from bfs_edge_step[OF ok M Cons.prems(2,3) j(1) Cons.prems(4), of idx] Cons.prems(1) obtain d1 q1 where
    e: "bfs_edge n_rows n_cols ri rtc j idx (dist, queue) = Some (d1, q1)"
    and s: "bfs_step n_cols (adj n_rows cp ri) ctr rtc (dist, queue) (d1, q1)"
    and m: "as_usize (ri ! idx) < n_rows \<longrightarrow> d1 ! matched_idx n_cols (rtc ! as_usize (ri ! idx)) \<noteq> INFTY" by auto
  note S = bfs_stepD[OF s]
  have "d1 ! j \<noteq> INFTY" using S(2)[of j] Cons.prems(4) j(1) by simp
  moreover have "\<forall>c \<in> set q1. c < n_cols \<and> d1 ! c \<noteq> INFTY" using S(4) by blast
  moreover have "set idxs \<subseteq> {nat (cp ! j)..<nat (cp ! Suc j)}" using Cons.prems(1) by simp
  ultimately obtain d2 q2 where
    f: "foldM (bfs_edge n_rows n_cols ri rtc j) idxs (d1, q1) = Some (d2, q2)"
    and t: "bfs_step n_cols (adj n_rows cp ri) ctr rtc (d1, q1) (d2, q2)"
    and rest: "\<forall>idx \<in> set idxs. as_usize (ri ! idx) < n_rows \<longrightarrow> d2 ! matched_idx n_cols (rtc ! as_usize (ri ! idx)) \<noteq> INFTY"
    using Cons.IH[OF _ S(1)] by blast
  have "d2 ! matched_idx n_cols (rtc ! as_usize (ri ! idx)) \<noteq> INFTY" if i: "as_usize (ri ! idx) < n_rows"
  proof -
    have "matched_idx n_cols (rtc ! as_usize (ri ! idx)) \<le> n_cols"
      using matchingD(4)[OF M i] ok by (auto simp: csc_ok_def)
    with bfs_stepD(2)[OF t] m i show ?thesis by simp
  qed
  with rest bfs_step_trans[OF s t] e f show ?case by auto
qed

text \<open>Columns that left the queue have only reached neighbours, as long as no free row is reached.\<close>

definition bfs_closed :: "nat \<Rightarrow> (nat \<Rightarrow> nat list) \<Rightarrow> int list \<Rightarrow> int list \<Rightarrow> nat list \<Rightarrow> bool" where
  "bfs_closed n_cols edges rtc dist queue \<longleftrightarrow>
     (dist ! n_cols = INFTY \<longrightarrow> (\<forall>c < n_cols. dist ! c \<noteq> INFTY \<and> c \<notin> set queue \<longrightarrow>
        (\<forall>i \<in> set (edges c). dist ! matched_idx n_cols (rtc ! i) \<noteq> INFTY)))"

lemma bfs_closed_step:
  assumes s: "bfs_step n_cols edges ctr rtc (dist, queue) (dist', queue')" and closed: "bfs_closed n_cols edges rtc dist (j # queue)"
    and idx: "\<And>c i. c < n_cols \<Longrightarrow> i \<in> set (edges c) \<Longrightarrow> matched_idx n_cols (rtc ! i) \<le> n_cols"
    and j: "dist' ! n_cols = INFTY \<Longrightarrow> \<forall>i \<in> set (edges j). dist' ! matched_idx n_cols (rtc ! i) \<noteq> INFTY"
  shows "bfs_closed n_cols edges rtc dist' queue'"
  unfolding bfs_closed_def
proof (intro impI allI ballI)
  note S = bfs_stepD[OF s]
  fix c i assume n: "dist' ! n_cols = INFTY" and c: "c < n_cols" "dist' ! c \<noteq> INFTY \<and> c \<notin> set queue'" and i: "i \<in> set (edges c)"
  show "dist' ! matched_idx n_cols (rtc ! i) \<noteq> INFTY"
  proof (cases "c = j")
    case False
    have "dist ! n_cols = INFTY" using S(2)[of n_cols] n by auto
    moreover have "dist ! c \<noteq> INFTY" "c \<notin> set (j # queue)" using S(3) S(5)[of c] c False by auto
    ultimately have "dist ! matched_idx n_cols (rtc ! i) \<noteq> INFTY" using closed c(1) i unfolding bfs_closed_def by blast
    then show ?thesis using S(2) idx[OF c(1) i] by simp
  qed (use j n i in auto)
qed

lemma bfs_loop_correct:
  assumes ok: "csc_ok n_rows n_cols cp ri" and M: "matching n_rows n_cols (adj n_rows cp ri) ctr rtc"
    and "levels_ok n_cols (adj n_rows cp ri) ctr rtc dist" and "\<forall>c \<in> set queue. c < n_cols \<and> dist ! c \<noteq> INFTY"
    and "bfs_closed n_cols (adj n_rows cp ri) rtc dist queue"
  shows "\<exists>dist'. bfs_loop n_rows n_cols cp ri rtc dist queue = Some dist'
    \<and> levels_ok n_cols (adj n_rows cp ri) ctr rtc dist' \<and> bfs_closed n_cols (adj n_rows cp ri) rtc dist' []"
  using assms(3-)
proof (induction "inf_count n_cols dist + length queue" arbitrary: dist queue rule: less_induct)
  case less
  show ?case
  proof (cases queue)
    case Nil
    with less.prems show ?thesis by (subst bfs_loop.simps) simp
  next
    case (Cons j q)
    have j: "j < n_cols" "dist ! j \<noteq> INFTY" and q: "\<forall>c \<in> set q. c < n_cols \<and> dist ! c \<noteq> INFTY" using less.prems(2) Cons by auto
    note C = csc_col[OF ok j(1)]
    have len: "length dist = n_cols + 1" by (rule levels_okD(1)[OF less.prems(1)])
    let ?idxs = "[nat (cp ! j)..<nat (cp ! Suc j)]"
    have idx: "matched_idx n_cols (rtc ! i) \<le> n_cols" if "c < n_cols" "i \<in> set (adj n_rows cp ri c)" for c i
      using matchingD(4)[OF M adj_less[OF that(2)]] ok by (auto simp: csc_ok_def)
    have "\<exists>d1 q1. (if dist ! j < dist ! n_cols then foldM (bfs_edge n_rows n_cols ri rtc j) ?idxs (dist, q) else Some (dist, q)) = Some (d1, q1)
        \<and> bfs_step n_cols (adj n_rows cp ri) ctr rtc (dist, q) (d1, q1) \<and> bfs_closed n_cols (adj n_rows cp ri) rtc d1 q1"
    proof (cases "dist ! j < dist ! n_cols")
      case True
      from bfs_edges_step[OF ok M less.prems(1) q j, of ?idxs] obtain d1 q1 where
        f: "foldM (bfs_edge n_rows n_cols ri rtc j) ?idxs (dist, q) = Some (d1, q1)"
        and s: "bfs_step n_cols (adj n_rows cp ri) ctr rtc (dist, q) (d1, q1)"
        and rows: "\<forall>idx \<in> set ?idxs. as_usize (ri ! idx) < n_rows \<longrightarrow> d1 ! matched_idx n_cols (rtc ! as_usize (ri ! idx)) \<noteq> INFTY" by auto
      have "bfs_closed n_cols (adj n_rows cp ri) rtc d1 q1"
        by (rule bfs_closed_step[OF s less.prems(3)[unfolded Cons] idx]) (use rows in \<open>auto simp: adj_def\<close>)
      with True f s show ?thesis by simp
    next
      case False
      have "dist ! j \<le> INFTY" by (rule levels_okD(4)[OF less.prems(1)]) (use j in simp)
      with False j(2) have "dist ! n_cols \<noteq> INFTY" by simp
      with False bfs_step_refl[OF less.prems(1) q] show ?thesis by (simp add: bfs_closed_def)
    qed
    then obtain d1 q1 where f: "(if dist ! j < dist ! n_cols then foldM (bfs_edge n_rows n_cols ri rtc j) ?idxs (dist, q) else Some (dist, q)) = Some (d1, q1)"
      and s: "bfs_step n_cols (adj n_rows cp ri) ctr rtc (dist, q) (d1, q1)" and closed: "bfs_closed n_cols (adj n_rows cp ri) rtc d1 q1" by blast
    note S = bfs_stepD[OF s]
    have "inf_count n_cols d1 + length q1 < inf_count n_cols dist + length queue" using S(6) Cons by simp
    from less.hyps[OF this S(1) _ closed] S(4) obtain dist' where
      "bfs_loop n_rows n_cols cp ri rtc d1 q1 = Some dist'" "levels_ok n_cols (adj n_rows cp ri) ctr rtc dist'"
      "bfs_closed n_cols (adj n_rows cp ri) rtc dist' []" by blast
    then show ?thesis
      using f C j len by (subst bfs_loop.simps) (simp add: Cons split: if_splits)
  qed
qed

lemma bfs_init:
  assumes "length ctr = n_cols" and "length dist = n_cols + 1"
  shows "\<exists>dist' queue. foldM (\<lambda>j (dist, queue). do {
         c \<leftarrow> nth_chk ctr j;
         dist \<leftarrow> upd_chk dist j (if c = NIL then 0 else INFTY);
         Some (dist, if c = NIL then queue @ [j] else queue) }) [0..<n_cols] (dist, []) = Some (dist', queue)
    \<and> length dist' = n_cols + 1 \<and> (\<forall>c < n_cols. dist' ! c = (if ctr ! c = NIL then 0 else INFTY))
    \<and> set queue = {c. c < n_cols \<and> ctr ! c = NIL}"
proof -
  let ?f = "\<lambda>j (dist, queue). do {
         c \<leftarrow> nth_chk ctr j;
         dist \<leftarrow> upd_chk dist j (if c = NIL then 0 else INFTY);
         Some (dist, if c = NIL then queue @ [j] else queue) }"
  let ?I = "\<lambda>k (dist', queue). length dist' = n_cols + 1 \<and> (\<forall>c < k. dist' ! c = (if ctr ! c = NIL then 0 else INFTY))
    \<and> set queue = {c. c < k \<and> ctr ! c = NIL}"
  have "\<exists>st. foldM ?f [0..<n_cols] (dist, []) = Some st \<and> ?I n_cols st"
  proof (rule foldM_upt_rule[where I = ?I])
    fix k and st :: "int list \<times> nat list"
    assume k: "k < n_cols" and I: "?I k st"
    obtain d q where st: "st = (d, q)" by fastforce
    show "\<exists>st'. ?f k st = Some st' \<and> ?I (Suc k) st'"
      using k I assms(1) by (auto simp: st nth_list_update less_Suc_eq)
  qed (use assms in auto)
  then show ?thesis by auto
qed

lemma bfs_correct:
  assumes ok: "csc_ok n_rows n_cols cp ri" and M: "matching n_rows n_cols (adj n_rows cp ri) ctr rtc"
    and len: "length dist = n_cols + 1"
  shows "\<exists>found lev. bfs n_rows n_cols cp ri ctr rtc dist = Some (found, lev)
    \<and> levels_ok n_cols (adj n_rows cp ri) ctr rtc lev \<and> (found \<longleftrightarrow> lev ! n_cols \<noteq> INFTY)
    \<and> bfs_closed n_cols (adj n_rows cp ri) rtc lev []"
proof -
  from bfs_init[OF matchingD(1)[OF M] len] obtain d q where
    init: "foldM (\<lambda>j (dist, queue). do {
         c \<leftarrow> nth_chk ctr j;
         dist \<leftarrow> upd_chk dist j (if c = NIL then 0 else INFTY);
         Some (dist, if c = NIL then queue @ [j] else queue) }) [0..<n_cols] (dist, []) = Some (d, q)"
    and d: "length d = n_cols + 1" "\<forall>c < n_cols. d ! c = (if ctr ! c = NIL then 0 else INFTY)"
    and q: "set q = {c. c < n_cols \<and> ctr ! c = NIL}" by blast
  let ?d = "d[n_cols := INFTY]"
  have "0 < INFTY" by (simp add: INFTY_def)
  have L: "levels_ok n_cols (adj n_rows cp ri) ctr rtc ?d"
    using d \<open>0 < INFTY\<close> by (auto simp: levels_ok_def nth_list_update)
  have "\<forall>c \<in> set q. c < n_cols \<and> ?d ! c \<noteq> INFTY" using d q \<open>0 < INFTY\<close> by auto
  moreover have "bfs_closed n_cols (adj n_rows cp ri) rtc ?d q" using d q by (auto simp: bfs_closed_def split: if_splits)
  ultimately obtain lev where "bfs_loop n_rows n_cols cp ri rtc ?d q = Some lev"
    and lev: "levels_ok n_cols (adj n_rows cp ri) ctr rtc lev" "bfs_closed n_cols (adj n_rows cp ri) rtc lev []"
    using bfs_loop_correct[OF ok M L] by blast
  then show ?thesis using init d(1) levels_okD(1)[OF lev(1)] by (simp add: bfs_def)
qed

section \<open>A phase makes progress\<close>

text \<open>
  What holds before column \<open>k\<close> of the depth-first phase that began with the matching \<open>ctr\<close>, \<open>rtc\<close> and
  the distances \<open>lev\<close>: either the matching has grown, or nothing changed and every free column seen so
  far is dead.
\<close>

definition phase_inv :: "nat \<Rightarrow> nat \<Rightarrow> (nat \<Rightarrow> nat list) \<Rightarrow> int list \<Rightarrow> int list \<Rightarrow> int list \<Rightarrow> nat \<Rightarrow> nat \<Rightarrow> hk_state \<times> nat \<Rightarrow> bool" where
  "phase_inv n_rows n_cols edges ctr rtc lev sz k st \<longleftrightarrow> (case st of ((ctr', rtc', dist), sz') \<Rightarrow>
     matching n_rows n_cols edges ctr' rtc' \<and> sz' = card (matched_cols n_cols ctr') \<and> dist_ok n_cols lev dist \<and>
     (\<forall>c. k \<le> c \<longrightarrow> c < n_cols \<longrightarrow> ctr' ! c = NIL \<longrightarrow> dist ! c \<noteq> INFTY) \<and>
     (sz < sz' \<or> ctr' = ctr \<and> rtc' = rtc \<and> sz' = sz \<and> dead_closed n_cols edges rtc lev dist \<and>
        (\<forall>c < k. c < n_cols \<longrightarrow> ctr ! c = NIL \<longrightarrow> dist ! c = INFTY)))"

lemma finite_matched_cols [simp]: "finite (matched_cols n ctr)"
  by (simp add: matched_cols_def)

lemma phase_step:
  assumes ok: "csc_ok n_rows n_cols cp ri" and lev: "lev_ok n_cols lev" and k: "k < n_cols"
    and I: "phase_inv n_rows n_cols (adj n_rows cp ri) ctr rtc lev sz k (st, sz')"
  shows "\<exists>r. do {
       c \<leftarrow> nth_chk (fst st) k;
       (if c = NIL then do {
          (found, st) \<leftarrow> hk_dfs n_rows n_cols cp ri k st;
          Some (st, if found then sz' + 1 else sz') }
        else Some (st, sz')) } = Some r \<and> phase_inv n_rows n_cols (adj n_rows cp ri) ctr rtc lev sz (Suc k) r"
proof -
  obtain c1 r1 d1 where st: "st = (c1, r1, d1)" by (metis surj_pair)
  have M: "matching n_rows n_cols (adj n_rows cp ri) c1 r1" and sz': "sz' = card (matched_cols n_cols c1)" and d: "dist_ok n_cols lev d1"
    and fin: "\<forall>c. k \<le> c \<longrightarrow> c < n_cols \<longrightarrow> c1 ! c = NIL \<longrightarrow> d1 ! c \<noteq> INFTY"
    and alt: "sz < sz' \<or> c1 = ctr \<and> r1 = rtc \<and> sz' = sz \<and> dead_closed n_cols (adj n_rows cp ri) rtc lev d1 \<and>
        (\<forall>c < k. c < n_cols \<longrightarrow> ctr ! c = NIL \<longrightarrow> d1 ! c = INFTY)"
    using I unfolding phase_inv_def st split_conv by blast+
  have len: "length c1 = n_cols" by (rule matchingD(1)[OF M])
  show ?thesis
  proof (cases "c1 ! k = NIL")
    case False
    then have "phase_inv n_rows n_cols (adj n_rows cp ri) ctr rtc lev sz (Suc k) (st, sz')"
      using M sz' d fin alt unfolding phase_inv_def st split_conv by (auto simp: less_Suc_eq)
    with False len k show ?thesis by (simp add: st)
  next
    case free: True
    note C = csc_col[OF ok k]
    from dfs_edges_correct[OF ok lev M d k _ order.refl C(6)] fin k free obtain found c2 r2 d2 where
      dfs: "dfs_edges n_rows n_cols cp ri k (nat (cp ! k)) (nat (cp ! Suc k)) (c1, r1, d1) = Some (found, c2, r2, d2)"
      and post: "dfs_post n_rows n_cols (adj n_rows cp ri) lev k (c1, r1, d1) (found, c2, r2, d2)"
      by (auto simp: rows_dead_def)
    have dstep: "dist_step n_cols lev k c1 d1 d2" using post by (simp add: dfs_post_def)
    have keep: "d2 ! c = d1 ! c" if "c < n_cols" "c \<noteq> k" "c1 ! c = NIL" for c
      using dstep that unfolding dist_step_def by blast
    have d2: "dist_ok n_cols lev d2" using dstep by (simp add: dist_step_def)
    have run: "do {
       c \<leftarrow> nth_chk (fst st) k;
       (if c = NIL then do {
          (found, st) \<leftarrow> hk_dfs n_rows n_cols cp ri k st;
          Some (st, if found then sz' + 1 else sz') }
        else Some (st, sz')) } = Some ((c2, r2, d2), if found then sz' + 1 else sz')"
      using free len k C dfs by (simp add: st hk_dfs_def)
    show ?thesis
    proof (cases found)
      case True
      then have "augmented n_rows n_cols (adj n_rows cp ri) lev k c1 r1 c2 r2" using post by (simp add: dfs_post_def)
      note A = augmented_matching[OF this free k] and a = this
      have "k \<notin> matched_cols n_cols c1" using free by (simp add: matched_cols_def)
      then have card: "card (matched_cols n_cols c2) = sz' + 1" using A(2) sz' by simp
      have fin2: "d2 ! c \<noteq> INFTY" if "Suc k \<le> c" "c < n_cols" "c2 ! c = NIL" for c
      proof -
        have "c1 ! c = NIL" using a that unfolding augmented_def by auto
        then show ?thesis using keep[of c] fin that by auto
      qed
      have "phase_inv n_rows n_cols (adj n_rows cp ri) ctr rtc lev sz (Suc k) ((c2, r2, d2), sz' + 1)"
        unfolding phase_inv_def split_conv using A(1) card d2 fin2 alt by auto
      with run True show ?thesis by auto
    next
      case False
      then have f: "c2 = c1" "r2 = r1" "d2 ! k = INFTY"
        "dead_closed n_cols (adj n_rows cp ri) r1 lev d1 \<longrightarrow> dead_closed n_cols (adj n_rows cp ri) r1 lev d2"
        using post by (auto simp: dfs_post_def)
      have fin2: "d2 ! c \<noteq> INFTY" if "Suc k \<le> c" "c < n_cols" "c1 ! c = NIL" for c
        using keep[of c] fin that by auto
      have dead2: "d2 ! c = INFTY" if "\<forall>c < k. c < n_cols \<longrightarrow> c1 ! c = NIL \<longrightarrow> d1 ! c = INFTY" "c < Suc k" "c < n_cols" "c1 ! c = NIL" for c
        using keep[of c] that f(3) by (cases "c = k") auto
      have "phase_inv n_rows n_cols (adj n_rows cp ri) ctr rtc lev sz (Suc k) ((c1, r1, d2), sz')"
        unfolding phase_inv_def split_conv using M sz' d2 fin2 alt f(4) dead2 by blast
      with run False f show ?thesis by auto
    qed
  qed
qed

text \<open>When the breadth-first phase reached a free row, not all free columns can be dead.\<close>

lemma dead_contradiction:
  assumes L: "levels_ok n_cols edges ctr rtc lev" and reached: "lev ! n_cols \<noteq> INFTY"
    and d: "dist_ok n_cols lev dist" and dead: "dead_closed n_cols edges rtc lev dist"
    and free: "\<forall>c < n_cols. ctr ! c = NIL \<longrightarrow> dist ! c = INFTY"
  shows False
proof -
  have "c \<le> n_cols \<Longrightarrow> lev ! c = int k \<Longrightarrow> lev ! c \<noteq> INFTY \<Longrightarrow> c < n_cols \<and> dist ! c = INFTY" for k c
  proof (induction k arbitrary: c)
    case 0
    show ?case
    proof (cases "c < n_cols \<and> ctr ! c = NIL")
      case False
      with levels_okD(5)[OF L 0(1,3)] have "reached_from n_cols edges rtc lev c" by blast
      then obtain c' where "c' < n_cols" "lev ! c' = -1" using 0(2) by (auto simp: reached_from_def)
      with levels_okD(3)[OF L, of c'] show ?thesis by simp
    qed (use free in blast)
  next
    case (Suc k)
    show ?case
    proof (cases "c < n_cols \<and> ctr ! c = NIL")
      case False
      with levels_okD(5)[OF L Suc.prems(1,3)] have "reached_from n_cols edges rtc lev c" by blast
      then obtain c' i where c': "c' < n_cols" "lev ! c' = int k" "i \<in> set (edges c')" "matched_idx n_cols (rtc ! i) = c"
        using Suc.prems(2) by (auto simp: reached_from_def)
      have fin: "lev ! c' \<noteq> INFTY" using levels_okD(4)[OF L Suc.prems(1)] Suc.prems(2) c'(2) by auto
      have "dist ! c' = INFTY" using Suc.IH[OF _ c'(2) fin] c'(1) by simp
      then have "row_dead n_cols rtc lev dist c' i" using dead c' fin unfolding dead_closed_def by blast
      then have r: "rtc ! i \<noteq> NIL" "dist ! c = INFTY" using c'(2,4) Suc.prems(2) by (auto simp: row_dead_def)
      have "c \<noteq> n_cols" using r(2) d Suc.prems(3) by (auto simp: dist_ok_def)
      with r Suc.prems(1) show ?thesis by simp
    qed (use free in blast)
  qed
  from this[of n_cols "nat (lev ! n_cols)"] reached levels_okD(3)[OF L, of n_cols] show False by simp
qed

lemma hk_phase_correct:
  assumes ok: "csc_ok n_rows n_cols cp ri" and M: "matching n_rows n_cols (adj n_rows cp ri) ctr rtc"
    and L: "levels_ok n_cols (adj n_rows cp ri) ctr rtc lev" and reached: "lev ! n_cols \<noteq> INFTY"
    and sz: "sz = card (matched_cols n_cols ctr)"
  shows "\<exists>ctr' rtc' dist sz'. hk_phase n_rows n_cols cp ri ((ctr, rtc, lev), sz) = Some ((ctr', rtc', dist), sz')
    \<and> matching n_rows n_cols (adj n_rows cp ri) ctr' rtc' \<and> sz' = card (matched_cols n_cols ctr') \<and> length dist = n_cols + 1 \<and> sz < sz'"
proof -
  let ?I = "phase_inv n_rows n_cols (adj n_rows cp ri) ctr rtc lev sz"
  have lev: "lev_ok n_cols lev" by (rule levels_lev_ok[OF L])
  have "0 < INFTY" by (simp add: INFTY_def)
  have start: "?I 0 ((ctr, rtc, lev), sz)"
    using M sz L lev \<open>0 < INFTY\<close> levels_okD(2)[OF L]
    by (auto simp: phase_inv_def dist_ok_def lev_ok_def dead_closed_def)
  have "\<exists>st. hk_phase n_rows n_cols cp ri ((ctr, rtc, lev), sz) = Some st \<and> ?I n_cols st"
    unfolding hk_phase_def
  proof (rule foldM_upt_rule[where I = ?I, OF start])
    fix k st assume "k < n_cols" and I: "?I k st"
    obtain s z where st: "st = (s, z)" by fastforce
    show "\<exists>st'. (case st of (st, matching_size) \<Rightarrow> do {
       c \<leftarrow> nth_chk (fst st) k;
       (if c = NIL then do {
          (found, st) \<leftarrow> hk_dfs n_rows n_cols cp ri k st;
          Some (st, if found then matching_size + 1 else matching_size) }
        else Some (st, matching_size)) }) = Some st' \<and> ?I (Suc k) st'"
      using phase_step[OF ok lev \<open>k < n_cols\<close> I[unfolded st]] by (simp add: st)
  qed
  then obtain c1 r1 d1 z where run: "hk_phase n_rows n_cols cp ri ((ctr, rtc, lev), sz) = Some ((c1, r1, d1), z)"
    and I: "?I n_cols ((c1, r1, d1), z)" by (metis surj_pair)
  have "sz < z"
  proof (rule ccontr)
    assume "\<not> sz < z"
    then have "dead_closed n_cols (adj n_rows cp ri) rtc lev d1" "\<forall>c < n_cols. ctr ! c = NIL \<longrightarrow> d1 ! c = INFTY" "dist_ok n_cols lev d1"
      using I unfolding phase_inv_def split_conv by blast+
    from dead_contradiction[OF L reached this(3,1,2)] show False .
  qed
  with run I show ?thesis unfolding phase_inv_def split_conv by (auto simp: dist_ok_def)
qed

section \<open>The matching is maximum\<close>

text \<open>Any set of edges without common columns and rows.\<close>

definition graph_matching :: "nat \<Rightarrow> (nat \<Rightarrow> nat list) \<Rightarrow> (nat \<times> nat) set \<Rightarrow> bool" where
  "graph_matching n_cols edges E \<longleftrightarrow> (\<forall>(c, i) \<in> E. c < n_cols \<and> i \<in> set (edges c)) \<and> inj_on fst E \<and> inj_on snd E"

text \<open>
  The columns that are not reached and the rows next to a reached column cover all edges. Every edge of
  a matching can be sent to a matched column: its own one, or the partner of its row.
\<close>

lemma no_path_maximum:
  assumes M: "matching n_rows n_cols edges ctr rtc" and L: "levels_ok n_cols edges ctr rtc lev"
    and none: "lev ! n_cols = INFTY" and closed: "bfs_closed n_cols edges rtc lev []"
    and rows: "\<And>c i. i \<in> set (edges c) \<Longrightarrow> i < n_rows" and n: "n_cols < 2 ^ 63" and E: "graph_matching n_cols edges E"
  shows "card E \<le> card (matched_cols n_cols ctr)"
proof -
  let ?Z = "\<lambda>c. lev ! c \<noteq> INFTY"
  define \<phi> where "\<phi> = (\<lambda>(c, i). if ?Z c then nat (rtc ! i) else c)"
  have edge: "c < n_cols" "i \<in> set (edges c)" if "(c, i) \<in> E" for c i using E that by (auto simp: graph_matching_def)
  have row: "nat (rtc ! i) < n_cols \<and> ctr ! nat (rtc ! i) = int i \<and> ?Z (nat (rtc ! i))" if e: "(c, i) \<in> E" and z: "?Z c" for c i
  proof -
    have "lev ! matched_idx n_cols (rtc ! i) \<noteq> INFTY" using closed none edge[OF e] z by (auto simp: bfs_closed_def)
    moreover from this have "rtc ! i \<noteq> NIL" using none by auto
    ultimately show ?thesis using matchingD(4)[OF M rows[OF edge(2)[OF e]]] n by auto
  qed
  have kind: "?Z (\<phi> (c, i)) \<longleftrightarrow> ?Z c" if "(c, i) \<in> E" for c i
    using row[OF that] by (cases "?Z c") (simp_all add: \<phi>_def)
  have "\<phi> ` E \<subseteq> matched_cols n_cols ctr"
  proof
    fix m assume "m \<in> \<phi> ` E"
    then obtain c i where e: "(c, i) \<in> E" "m = \<phi> (c, i)" by auto
    show "m \<in> matched_cols n_cols ctr"
    proof (cases "?Z c")
      case True
      then show ?thesis using row[OF e(1) True] e(2) by (auto simp: \<phi>_def matched_cols_def NIL_def)
    next
      case False
      then have "ctr ! c \<noteq> NIL" using levels_okD(2)[OF L edge(1)[OF e(1)]] by (auto simp: INFTY_def)
      with False e edge(1)[OF e(1)] show ?thesis by (simp add: \<phi>_def matched_cols_def)
    qed
  qed
  moreover have "inj_on \<phi> E"
  proof (rule inj_onI)
    fix p q assume pq: "p \<in> E" "q \<in> E" "\<phi> p = \<phi> q"
    obtain c i d k where e: "p = (c, i)" "q = (d, k)" by (cases p; cases q)
    have inE: "(c, i) \<in> E" "(d, k) \<in> E" using pq e by simp_all
    have z: "?Z c \<longleftrightarrow> ?Z d" using kind[OF inE(1)] kind[OF inE(2)] pq(3) by (simp add: e)
    have "c = d \<or> i = k"
    proof (cases "?Z c")
      case True
      then have "nat (rtc ! i) = nat (rtc ! k)" using pq(3) z by (simp add: \<phi>_def e)
      moreover have "ctr ! nat (rtc ! i) = int i" "ctr ! nat (rtc ! k) = int k"
        using row[OF inE(1)] row[OF inE(2)] True z by blast+
      ultimately have "int i = int k" by metis
      then show ?thesis by simp
    next
      case False
      with pq(3) z show ?thesis by (simp add: \<phi>_def e)
    qed
    then have "fst p = fst q \<or> snd p = snd q" by (simp add: e)
    then show "p = q" using E pq(1,2) inj_onD[of fst E p q] inj_onD[of snd E p q] unfolding graph_matching_def by blast
  qed
  ultimately show ?thesis by (metis card_image card_mono finite_matched_cols)
qed

lemma hk_loop_correct:
  assumes ok: "csc_ok n_rows n_cols cp ri" and "matching n_rows n_cols (adj n_rows cp ri) ctr rtc"
    and "length dist = n_cols + 1" and "sz = card (matched_cols n_cols ctr)"
  shows "\<exists>ctr' rtc' dist' sz'. hk_loop n_rows n_cols cp ri ((ctr, rtc, dist), sz) = Some ((ctr', rtc', dist'), sz')
    \<and> matching n_rows n_cols (adj n_rows cp ri) ctr' rtc' \<and> sz' = card (matched_cols n_cols ctr')
    \<and> (\<forall>E. graph_matching n_cols (adj n_rows cp ri) E \<longrightarrow> card E \<le> sz')"
  using assms(2-)
proof (induction "n_cols - sz" arbitrary: ctr rtc dist sz rule: less_induct)
  case less
  from bfs_correct[OF ok less.prems(1,2)] obtain found lev where
    bfs: "bfs n_rows n_cols cp ri ctr rtc dist = Some (found, lev)" and L: "levels_ok n_cols (adj n_rows cp ri) ctr rtc lev"
    and found: "found \<longleftrightarrow> lev ! n_cols \<noteq> INFTY" and closed: "bfs_closed n_cols (adj n_rows cp ri) rtc lev []" by blast
  show ?case
  proof (cases found)
    case True
    with hk_phase_correct[OF ok less.prems(1) L _ less.prems(3)] found obtain c1 r1 d1 z where
      phase: "hk_phase n_rows n_cols cp ri ((ctr, rtc, lev), sz) = Some ((c1, r1, d1), z)"
      and next_st: "matching n_rows n_cols (adj n_rows cp ri) c1 r1" "length d1 = n_cols + 1" "z = card (matched_cols n_cols c1)" "sz < z"
      by blast
    have "matched_cols n_cols c1 \<subseteq> {..<n_cols}" by (auto simp: matched_cols_def)
    then have "z \<le> n_cols" using next_st(3) card_mono[of "{..<n_cols}"] by fastforce
    then have "n_cols - z < n_cols - sz" using next_st(4) by simp
    from less.hyps[OF this next_st(1-3)] show ?thesis
      using bfs True phase by (subst hk_loop.simps) simp
  next
    case False
    have "card E \<le> sz" if "graph_matching n_cols (adj n_rows cp ri) E" for E
      using no_path_maximum[OF less.prems(1) L _ closed adj_less _ that] found False ok less.prems(3) by (simp add: csc_ok_def)
    then show ?thesis using bfs False less.prems by (subst hk_loop.simps) auto
  qed
qed

text \<open>
  C25. Hopcroft-Karp returns a maximum matching. For every well-formed pattern the search ends without a
  panic or a wrap-around, the two arrays describe one and the same matching along entries of the
  matrix, the reported size and structural rank are its number of pairs, and no set of entries without
  two in a row or column is larger.
\<close>

theorem hopcroft_karp_maximum:
  assumes ok: "csc_ok n_rows n_cols cp ri"
  shows "\<exists>r. hopcroft_karp n_rows n_cols cp ri = Some (Inr r)
    \<and> matching n_rows n_cols (adj n_rows cp ri) (mr_col_to_row r) (mr_row_to_col r)
    \<and> mr_matching_size r = card (matched_cols n_cols (mr_col_to_row r)) \<and> mr_structural_rank r = mr_matching_size r
    \<and> (\<forall>E. graph_matching n_cols (adj n_rows cp ri) E \<longrightarrow> card E \<le> mr_matching_size r)"
proof -
  let ?ctr = "replicate n_cols NIL" and ?rtc = "replicate n_rows NIL"
  have M: "matching n_rows n_cols (adj n_rows cp ri) ?ctr ?rtc" by (simp add: matching_def)
  have none: "matched_cols n_cols ?ctr = {}" by (simp add: matched_cols_def)
  have len: "length cp = n_cols + 1" using ok by (simp add: csc_ok_def)
  have "0 \<le> cp ! n_cols" using ok by (auto simp: csc_ok_def intro: order_trans[OF _ sorted_nth_mono])
  then have nnz: "as_usize (cp ! n_cols) \<le> length ri" using ok by (auto simp: csc_ok_def nat_le_iff)
  show ?thesis
  proof (cases "n_rows = 0 \<or> n_cols = 0")
    case True
    have "E = {}" if E: "graph_matching n_cols (adj n_rows cp ri) E" for E
    proof (rule ccontr)
      assume "E \<noteq> {}"
      then obtain c i where "(c, i) \<in> E" by auto
      with E have "c < n_cols" "i < n_rows" by (auto simp: graph_matching_def dest: adj_less)
      with True show False by simp
    qed
    then have "\<forall>E. graph_matching n_cols (adj n_rows cp ri) E \<longrightarrow> card E \<le> 0" by (metis card.empty order_refl)
    with True len nnz M none show ?thesis by (simp add: hopcroft_karp_def)
  next
    case False
    from hk_loop_correct[OF ok M, of "replicate (n_cols + 1) 0" 0] none obtain c r d sz where
      "hk_loop n_rows n_cols cp ri ((?ctr, ?rtc, replicate (n_cols + 1) 0), 0) = Some ((c, r, d), sz)"
      and "matching n_rows n_cols (adj n_rows cp ri) c r" "sz = card (matched_cols n_cols c)"
        "\<forall>E. graph_matching n_cols (adj n_rows cp ri) E \<longrightarrow> card E \<le> sz" by auto
    with False len nnz show ?thesis by (simp add: hopcroft_karp_def)
  qed
qed

text \<open>Both columns have an entry in row 0 and only column 0 has one in row 1, so 2 pairs are possible.\<close>

lemma hopcroft_karp_maximum_witness:
  "\<exists>r. hopcroft_karp 2 2 [0, 2, 3] [0, 1, 0] = Some (Inr r) \<and> mr_matching_size r = 2
    \<and> card {(0 :: nat, 1 :: nat), (1, 0)} \<le> mr_matching_size r"
proof -
  have "csc_ok 2 2 [0, 2, 3] [0, 1, 0]" by (simp add: csc_ok_def)
  from hopcroft_karp_maximum[OF this] obtain r where run: "hopcroft_karp 2 2 [0, 2, 3] [0, 1, 0] = Some (Inr r)"
    and size: "mr_matching_size r = card (matched_cols 2 (mr_col_to_row r))"
    and max: "\<forall>E. graph_matching 2 (adj 2 [0, 2, 3] [0, 1, 0]) E \<longrightarrow> card E \<le> mr_matching_size r" by blast
  have "adj 2 [0, 2, 3] [0, 1, 0] 0 = [0, 1]" "adj 2 [0, 2, 3] [0, 1, 0] 1 = [0]" by code_simp+
  then have "graph_matching 2 (adj 2 [0, 2, 3] [0, 1, 0]) {(0, 1), (1, 0)}"
    by (simp add: graph_matching_def)
  with max have le: "card {(0 :: nat, 1 :: nat), (1, 0)} \<le> mr_matching_size r" by blast
  have "matched_cols 2 (mr_col_to_row r) \<subseteq> {..<2}" by (auto simp: matched_cols_def)
  then have "mr_matching_size r \<le> 2" using size card_mono[of "{..<2::nat}"] by fastforce
  with le have "mr_matching_size r = 2" by simp
  with run le show ?thesis by blast
qed

end
