(* ===== verification/Spec2Isabelle.thy ===== *)
theory Spec2Isabelle
  imports Layout_Safety DTypes Fp8 Int_Kernels Shape_Stack Sparse_Diagonal Sparse_Dense Sparse_Arithmetic Sparse_Matmul_Exact Sort_Unique Cuda_Allocator Prng Sparse_Levels Autograd Hopcroft_Karp
begin

text \<open>
  A model of numr, a numerical array library in Rust: the parts of it that are pure index, integer
  and bit logic, data structures and graph algorithms, translated function by function.

  How the program is put together. A tensor is a reference to a storage buffer with a layout (shape,
  strides, offset: \<open>src/tensor/\<close>) and an element type (\<open>src/dtype/\<close>). View operations only compute a
  new layout; every other operation allocates a buffer through the runtime's allocator
  (\<open>src/runtime/common/allocator.rs\<close>, \<open>src/runtime/cuda/allocator.rs\<close>) and calls a kernel of a backend
  (\<open>src/runtime/cpu/\<close> and the GPU backends) on it. Sparse matrices (\<open>src/sparse/\<close>) are tensors of indices
  and values in one of three formats; their arithmetic runs in the client of the backend
  (\<open>src/runtime/cpu/sparse/\<close>). Automatic differentiation (\<open>src/autograd/\<close>) records operations as gradient
  functions and walks them backwards. The sparse solvers (\<open>src/algorithm/sparse_linalg/\<close>) analyse index
  patterns before they compute on values.

  Theories, each with the source it models and what its lemmas show.
    Prelude: machine words, checked access to vectors, loops that may panic or fail, the word and
      list lemmas and the simplification collections that the components share.
    Layout, Layout_Views, Layout_Safety: \<open>src/tensor/layout.rs\<close>, \<open>shape.rs\<close>. The record \<open>layout\<close> is
      \<open>Layout\<close>; \<open>layout_f\<close> is the method \<open>f\<close>. Layout has the operations, Layout_Views a locale
      \<open>view_op\<close> for the law that a view only reaches elements of its parent, interpreted for every
      view operation, Layout_Safety the addresses that chains of view calls reach, the calls whose
      unchecked arithmetic escapes, the row-major round trip and broadcasting.
    DTypes: \<open>src/dtype/dtype_enum.rs\<close>, \<open>dtype_set.rs\<close>, \<open>promotion.rs\<close>. The masks of \<open>DTypeSet\<close> refine
      sets of element types; which values promotion and the casts declared safe keep.
    Fp8: \<open>src/dtype/fp8.rs\<close>, \<open>half_util.rs\<close>. Conversions between 32-bit floats and the two 8-bit
      formats on their bits, against the exact rational values; correct rounding and round trips.
    Indexing, Index_Kernels, Int_Kernels: \<open>src/runtime/cpu/kernels/\<close>. Row-major coordinates with the
      locale \<open>update_loop\<close> for scattering loops that may leave their buffers; gather, scatter, selection,
      masks (the scalar fallback), histograms; saturating accumulators, integer powers, scans and the scatter with
      reduction. When exactly the kernels stay in their buffers, and what they compute then.
    Strided_Copy: \<open>src/runtime/cpu/strided_copy.rs\<close>. The three tiers of the copy of a view agree with the
      copy element by element.
    Tensors, Shape_Ops, Shape_Kernels, Shape_Stack: \<open>src/tensor/core.rs\<close>, \<open>src/runtime/common/shape_ops.rs\<close>,
      \<open>src/runtime/cpu/helpers/shape.rs\<close>. Tensors as an element type, a layout and bytes; \<open>contiguous\<close>, cat,
      split and chunk, repeat, pad and roll, stack, each by the element it puts at every index.
    Sparse_Formats, Sparse_Conversions, Sparse_Dense, Sparse_Switch, Sparse_Diagonal: \<open>src/sparse/\<close>,
      \<open>src/runtime/cpu/sparse/format_convert.rs\<close>. The three formats and all conversions between them, on the
      list of entries a matrix stores; the dense tensor it stands for; the counting sort of the client
      against the stable sort; diagonals and values.
    Sparse_Elementwise, Sparse_Merge, Sparse_Merge_Ops, Sparse_Arithmetic: \<open>src/runtime/cpu/sparse/merge.rs\<close> and
      the operations on it. The locale \<open>line_merge\<close> is the contract of a merge of two lines; the operations compute
      position by position.
    Sparse_Products, Sparse_Product_Laws, Sparse_Matmul, Sparse_Matmul_Exact:
      \<open>src/runtime/cpu/sparse/high_level_ops.rs\<close>, \<open>dsmm.rs\<close>, \<open>esc_spgemm.rs\<close>, \<open>src/sparse/*/matmul.rs\<close>.
      The products; the locale \<open>cells\<close> is a dense result updated line by line. Their sums in any arithmetic, and the
      matrix product in exact arithmetic.
    Sort_Kernels, Sort_Ops, Sort_Order, Sort_Search, Sort_Correct, Sort_Unique:
      \<open>src/runtime/cpu/kernels/sort.rs\<close>, \<open>src/runtime/cpu/sort.rs\<close>. Sorting, selection, unique elements,
      nonzero elements and binary search, for any comparison that a key represents, with the integers and the two
      IEEE formats as instances.
    Allocators, Cuda_Allocator: \<open>src/runtime/common/allocator.rs\<close>, \<open>src/runtime/cuda/allocator.rs\<close>,
      \<open>arena.rs\<close>. The allocator contract as a locale, the tracking wrapper, the free list of the CUDA allocator
      with its frozen windows and the bump arena; the state is a record, a method a function on it, and a
      run is a sequence of calls, one after the other. An operation of the tracking allocator holds its lock throughout.
      The CUDA allocator takes several locks in turn in one call; interleavings inside a call are not modelled.
    Prng: \<open>src/runtime/cpu/kernels/advanced_random/\<close>. The four generators and their fill kernels:
      permutations, streams that split, seeds that are never zero.
    Sparse_Levels, Hopcroft_Karp: \<open>src/algorithm/sparse_linalg/levels.rs\<close>,
      \<open>matching/hopcroft_karp.rs\<close>. Level schedules that are valid, as shallow as possible and without empty
      levels; termination and maximality of the matching.
    Autograd: \<open>src/autograd/\<close>. The graph walk, the backward drivers and the capture walk, for graphs in
      which an id determines its gradient function; graphs built from fresh ids are such graphs, and what happens
      where \<open>Var::with_id\<close> reuses an id is shown on an example.

  Conventions. \<open>usize\<close> and \<open>isize\<close> are 64-bit words where arithmetic can wrap and natural numbers or integers
  with the bound stated where it cannot; arithmetic that wraps is that of a release build. \<open>None\<close> is a
  panic or an access outside a buffer, \<open>Inl e\<close> the error \<open>e\<close>. Loops are structural recursions or folds, or functions
  with a termination proof. The loops of the matching are partial functions in the option type, where a loop that
  does not end is \<open>None\<close>, and the property says that they return; no definition takes fuel.

  Parameters. Code outside the crate and float arithmetic are arguments of the definitions: the driver calls
  of the CUDA allocator and the functions behind \<open>DefaultAllocator\<close> (hypotheses \<open>driver_ok\<close> and
  \<open>heap_functions\<close>: what a heap promises), the allocator of a tensor operation (\<open>alloc_ok\<close>: a buffer has the size
  asked for), the element arithmetic of the sparse operations, the comparison of elements when sorting
  (\<open>key_order\<close>, proved for the instances), the addition and the gradient functions of automatic differentiation,
  the conversion of random words to floats.

  Not modelled: the GPU kernels, SIMD and float kernels, dense and sparse numerical
  factorisations, iterative solvers, transforms, the gradient formulas of single operations, communication
  between devices, operation traits and dispatch. Results of floats depend on rounding that no
  exact statement here is about; device code is in other languages.
\<close>

end
